(* ===== verification/Prelude.thy ===== *)
theory Prelude
  imports Main "HOL-Library.Word"
begin

unbundle bit_operations_syntax

text \<open>
  Shared vocabulary of the development: the machine types of the C++ code as words, byte
  strings as lists of bytes, and the generic facts on words, lists and options that the
  component theories use.  A \<open>std::string\<close> and the bytes a \<open>Slice\<close> refers to are both
  \<open>bytes\<close>; a pointer pair \<open>p, limit\<close> is the list of the bytes from \<open>p\<close> up to \<open>limit\<close>.
\<close>

type_synonym byte = "8 word"
type_synonym u16 = "16 word"
type_synonym u32 = "32 word"
type_synonym u64 = "64 word"
type_synonym bytes = "byte list"

named_theorems decode_encode "round trips: decoding what the matching encoder produced"
named_theorems enc_length "lengths of encodings"

lemma unat_of_nat_small: "n < 2 ^ LENGTH('a::len) \<Longrightarrow> unat (of_nat n :: 'a word) = n"
  by (simp add: unat_of_nat take_bit_nat_eq_self)

lemma unat_Suc_u32: "unat (w :: u32) + 1 < 2 ^ 32 \<Longrightarrow> unat (w + 1) = unat w + 1"
  by (simp add: unat_word_ariths)

lemma unat_Suc_u64: "unat (w :: u64) + 1 < 2 ^ 64 \<Longrightarrow> unat (w + 1) = unat w + 1"
  by (simp add: unat_word_ariths)

text \<open>C string literals: the bytes of an ASCII literal.\<close>

definition byte_of_char :: "char \<Rightarrow> byte" where
  "byte_of_char c = word_of_nat (of_char c)"

definition lit :: "string \<Rightarrow> bytes" where
  "lit s = map byte_of_char s"

lemma lit_Nil [simp]: "lit [] = []"
  by (simp add: lit_def)

lemma lit_Cons [simp]: "lit (c # s) = byte_of_char c # lit s"
  by (simp add: lit_def)

lemma length_lit [simp]: "length (lit s) = length s"
  by (simp add: lit_def)

lemma unat_byte_of_char [simp]: "unat (byte_of_char c) = of_char c"
proof -
  have "(of_char c :: nat) < 2 ^ LENGTH(8)" by simp
  then show ?thesis unfolding byte_of_char_def by (rule unat_of_nat_small)
qed

lemma byte_of_char_inject [simp]: "byte_of_char c = byte_of_char d \<longleftrightarrow> c = d"
proof
  assume "byte_of_char c = byte_of_char d"
  then have "unat (byte_of_char c) = unat (byte_of_char d)" by (rule arg_cong)
  then have "(of_char c :: nat) = of_char d" by simp
  then show "c = d" by simp
qed simp

lemma lit_inject: "lit s = lit t \<longleftrightarrow> s = t"
proof (induction s arbitrary: t)
  case (Cons c s)
  then show ?case by (cases t) auto
qed (auto simp: lit_def)

subsection \<open>Little-endian bytes of a word\<close>

fun le_val :: "bytes \<Rightarrow> 'a::len word" where
  "le_val [] = 0"
| "le_val (b # bs) = ucast b OR push_bit 8 (le_val bs)"

fun le_bytes :: "nat \<Rightarrow> 'a::len word \<Rightarrow> bytes" where
  "le_bytes 0 v = []"
| "le_bytes (Suc k) v = ucast v # le_bytes k (drop_bit 8 v)"

lemma length_le_bytes [simp]: "length (le_bytes k v) = k"
  by (induction k arbitrary: v) auto

lemma ucast_byte_or_push:
  "8 \<le> LENGTH('a::len) \<Longrightarrow>
   (ucast (ucast v :: byte) :: 'a word) OR push_bit 8 w = take_bit 8 v OR push_bit 8 w"
  by (rule bit_word_eqI) (auto simp: bit_simps)

lemma le_val_bytes:
  "8 \<le> LENGTH('a::len) \<Longrightarrow> le_val (le_bytes k (v :: 'a word)) = take_bit (8 * k) v"
proof (induction k arbitrary: v)
  case (Suc k)
  have "le_val (le_bytes (Suc k) v) = take_bit 8 v OR push_bit 8 (take_bit (8 * k) (drop_bit 8 v))"
    using Suc by (simp add: ucast_byte_or_push)
  also have "\<dots> = take_bit (8 * Suc k) v"
    by (rule bit_word_eqI) (auto simp: bit_simps)
  finally show ?case .
qed simp

lemma le_val_byte0:
  "8 \<le> LENGTH('a::len) \<Longrightarrow> ucast ((ucast b :: 'a word) OR push_bit 8 w) = (b :: byte)"
  by (rule bit_word_eqI) (auto simp: bit_simps)

lemma le_val_drop:
  "8 \<le> LENGTH('a::len) \<Longrightarrow>
   drop_bit 8 ((ucast (b :: byte) :: 'a word) OR push_bit 8 w) = take_bit (LENGTH('a) - 8) w"
  by (rule bit_word_eqI) (auto simp: bit_simps dest: bit_imp_le_length)

lemma le_val_bound:
  "k = 8 * length bs \<Longrightarrow> k \<le> LENGTH('a::len) \<Longrightarrow> take_bit k (le_val bs) = (le_val bs :: 'a word)"
proof (induction bs arbitrary: k)
  case (Cons b bs)
  have "take_bit (k - 8) (le_val bs :: 'a word) = le_val bs"
    by (rule Cons.IH) (use Cons.prems in auto)
  then have "le_val (b # bs) = ucast b OR push_bit 8 (take_bit (k - 8) (le_val bs :: 'a word))"
    by simp
  then show ?case using Cons.prems
    by (simp only:) (rule bit_word_eqI, auto simp: bit_simps dest: bit_imp_le_length)
qed simp

lemma take_bit_absorb:
  assumes "take_bit k w = w" and "k \<le> m"
  shows "take_bit m w = w"
proof -
  have "take_bit m w = take_bit m (take_bit k w)" by (simp only: assms(1))
  also have "\<dots> = take_bit k w" using assms(2) by (simp add: min_absorb1 min_def)
  finally show ?thesis by (simp only: assms(1))
qed

lemma le_bytes_val:
  "8 * length bs \<le> LENGTH('a::len) \<Longrightarrow> le_bytes (length bs) (le_val bs :: 'a word) = bs"
proof (induction bs)
  case (Cons b bs)
  then have l: "8 \<le> LENGTH('a)" by simp
  have "take_bit (LENGTH('a) - 8) (le_val bs :: 'a word) = le_val bs"
    by (rule take_bit_absorb [OF le_val_bound [OF refl]]) (use Cons.prems in auto)
  with Cons l show ?case by (simp add: le_val_byte0 le_val_drop del: drop_bit_or)
qed simp

lemma bit_le_val:
  "bit (le_val bs :: 'a::len word) n \<longleftrightarrow>
     n < LENGTH('a) \<and> n div 8 < length bs \<and> bit (bs ! (n div 8)) (n mod 8)"
proof (induction bs arbitrary: n)
  case (Cons b bs)
  show ?case
  proof (cases "n < 8")
    case True
    then show ?thesis by (auto simp: bit_simps dest: bit_imp_le_length)
  next
    case False
    then have "n div 8 = Suc ((n - 8) div 8)" "n mod 8 = (n - 8) mod 8"
      by (simp_all add: le_div_geq le_mod_geq)
    with False show ?thesis
      by (auto simp: bit_simps Cons.IH dest: bit_imp_le_length)
  qed
qed simp

lemma le_val_append:
  "le_val (xs @ ys) = le_val xs OR push_bit (8 * length xs) (le_val ys)"
  by (induction xs) (auto simp: push_bit_or or.assoc add.commute)

subsection \<open>Numbers in \<open>printf\<close> formats\<close>

text \<open>\<open>%llu\<close> and \<open>%d\<close>, and \<open>%06llu\<close>.\<close>

fun decimal :: "nat \<Rightarrow> bytes" where
  "decimal n = (if n < 10 then [48 + word_of_nat n] else decimal (n div 10) @ [48 + word_of_nat (n mod 10)])"

declare decimal.simps [simp del]

definition signed_decimal :: "int \<Rightarrow> bytes" where
  "signed_decimal i = (if i < 0 then 45 # decimal (nat (- i)) else decimal (nat i))"

definition decimal_06 :: "nat \<Rightarrow> bytes" where
  "decimal_06 n = replicate (6 - length (decimal n)) 48 @ decimal n"

definition hex_digit :: "nat \<Rightarrow> byte" where
  "hex_digit n = (if n < 10 then 48 + word_of_nat n else 87 + word_of_nat n)"

subsection \<open>Lists and options\<close>

text \<open>\<open>memcpy\<close> of \<open>bs\<close> over the bytes of \<open>dst\<close> from index \<open>off\<close>.\<close>

definition overwrite :: "'a list \<Rightarrow> nat \<Rightarrow> 'a list \<Rightarrow> 'a list" where
  "overwrite dst off bs = take off dst @ bs @ drop (off + length bs) dst"

lemma length_overwrite: "off + length bs \<le> length dst \<Longrightarrow> length (overwrite dst off bs) = length dst"
  by (simp add: overwrite_def)

text \<open>\<open>std::string::resize\<close>: cut, or pad with NUL bytes.\<close>

definition resize :: "bytes \<Rightarrow> nat \<Rightarrow> bytes" where
  "resize s n = take n s @ replicate (n - length s) 0"

lemma length_resize [simp]: "length (resize s n) = n"
  by (simp add: resize_def)

lemma resize_take: "n \<le> length s \<Longrightarrow> resize s n = take n s"
  by (simp add: resize_def)

text \<open>The loop \<open>while (i < min_length && a[i] == b[i]) i++\<close> of the comparator and the block builder.\<close>

fun common_prefix :: "'a list \<Rightarrow> 'a list \<Rightarrow> nat" where
  "common_prefix (x # xs) (y # ys) = (if x = y then Suc (common_prefix xs ys) else 0)"
| "common_prefix _ _ = 0"

lemma common_prefix_le: "common_prefix xs ys \<le> length xs" "common_prefix xs ys \<le> length ys"
  by (induction xs ys rule: common_prefix.induct) auto

lemma take_common_prefix: "take (common_prefix xs ys) xs = take (common_prefix xs ys) ys"
  by (induction xs ys rule: common_prefix.induct) auto

lemma common_prefix_split:
  "ys = take (common_prefix xs ys) xs @ drop (common_prefix xs ys) ys"
  by (metis append_take_drop_id take_common_prefix)

lemma nth_common_prefix:
  "common_prefix xs ys < length xs \<Longrightarrow> common_prefix xs ys < length ys \<Longrightarrow>
   xs ! common_prefix xs ys \<noteq> ys ! common_prefix xs ys"
  by (induction xs ys rule: common_prefix.induct) auto

end
