(* ===== verification/Coding.thy ===== *)
theory Coding
  imports Prelude
begin

text \<open>
  \<^verbatim>\<open>util/coding.cc\<close> and \<^verbatim>\<open>util/coding.h\<close>: fixed-width and variable-length integers and
  length-prefixed strings.  An encoder returns the bytes it writes, a \<open>Put...\<close> routine the string
  it extends; a decoder takes the bytes from \<open>p\<close> to \<open>limit\<close> and returns the value with the bytes
  from the returned pointer on, or \<open>None\<close> for \<open>nullptr\<close> or \<open>false\<close>.
\<close>

subsection \<open>Fixed-width integers\<close>

definition EncodeFixed32 :: "u32 \<Rightarrow> bytes" where
  "EncodeFixed32 value =
     [ucast (value AND 0xff), ucast (drop_bit 8 value AND 0xff),
      ucast (drop_bit 16 value AND 0xff), ucast (drop_bit 24 value AND 0xff)]"

definition EncodeFixed64 :: "u64 \<Rightarrow> bytes" where
  "EncodeFixed64 value =
     [ucast (value AND 0xff), ucast (drop_bit 8 value AND 0xff),
      ucast (drop_bit 16 value AND 0xff), ucast (drop_bit 24 value AND 0xff),
      ucast (drop_bit 32 value AND 0xff), ucast (drop_bit 40 value AND 0xff),
      ucast (drop_bit 48 value AND 0xff), ucast (drop_bit 56 value AND 0xff)]"

definition PutFixed32 :: "bytes \<Rightarrow> u32 \<Rightarrow> bytes" where
  "PutFixed32 dst value = dst @ EncodeFixed32 value"

definition PutFixed64 :: "bytes \<Rightarrow> u64 \<Rightarrow> bytes" where
  "PutFixed64 dst value = dst @ EncodeFixed64 value"

text \<open>The decoders read four and eight bytes at \<open>ptr\<close> without a bounds check.\<close>

definition DecodeFixed32 :: "bytes \<Rightarrow> u32" where
  "DecodeFixed32 ptr =
     ucast (ptr ! 0) OR push_bit 8 (ucast (ptr ! 1)) OR
     push_bit 16 (ucast (ptr ! 2)) OR push_bit 24 (ucast (ptr ! 3))"

definition DecodeFixed64 :: "bytes \<Rightarrow> u64" where
  "DecodeFixed64 ptr =
     (let lo = ucast (DecodeFixed32 ptr) :: u64;
          hi = ucast (DecodeFixed32 (drop 4 ptr)) :: u64
      in push_bit 32 hi OR lo)"

subsection \<open>Variable-length integers\<close>

definition EncodeVarint32 :: "u32 \<Rightarrow> bytes" where
  "EncodeVarint32 v =
     (if v < push_bit 7 1 then [ucast v]
      else if v < push_bit 14 1 then [ucast (v OR 128), ucast (drop_bit 7 v)]
      else if v < push_bit 21 1 then
        [ucast (v OR 128), ucast (drop_bit 7 v OR 128), ucast (drop_bit 14 v)]
      else if v < push_bit 28 1 then
        [ucast (v OR 128), ucast (drop_bit 7 v OR 128), ucast (drop_bit 14 v OR 128),
         ucast (drop_bit 21 v)]
      else
        [ucast (v OR 128), ucast (drop_bit 7 v OR 128), ucast (drop_bit 14 v OR 128),
         ucast (drop_bit 21 v OR 128), ucast (drop_bit 28 v)])"

definition PutVarint32 :: "bytes \<Rightarrow> u32 \<Rightarrow> bytes" where
  "PutVarint32 dst v = dst @ EncodeVarint32 v"

lemma unat_drop_bit_7_less:
  assumes "128 \<le> (v :: u64)"
  shows "unat (drop_bit 7 v) < unat v"
proof -
  have "v \<noteq> 0" using assms by auto
  then have "0 < unat v" by (simp add: unat_gt_0)
  then show ?thesis by (simp add: drop_bit_eq_div unat_div)
qed

function EncodeVarint64 :: "u64 \<Rightarrow> bytes" where
  "EncodeVarint64 v =
     (if 128 \<le> v then ucast (v OR 128) # EncodeVarint64 (drop_bit 7 v) else [ucast v])"
  by pat_completeness auto
termination
  by (relation "measure unat") (auto simp: unat_drop_bit_7_less)

definition PutVarint64 :: "bytes \<Rightarrow> u64 \<Rightarrow> bytes" where
  "PutVarint64 dst v = dst @ EncodeVarint64 v"

function VarintLength_loop :: "u64 \<Rightarrow> nat \<Rightarrow> nat" where
  "VarintLength_loop v len =
     (if 128 \<le> v then VarintLength_loop (drop_bit 7 v) (len + 1) else len)"
  by pat_completeness auto
termination
  by (relation "measure (\<lambda>(v, len). unat v)") (auto simp: unat_drop_bit_7_less)

definition VarintLength :: "u64 \<Rightarrow> nat" where
  "VarintLength v = VarintLength_loop v 1"

declare EncodeVarint64.simps [simp del] VarintLength_loop.simps [simp del]

fun GetVarint32PtrFallback_loop :: "nat \<Rightarrow> u32 \<Rightarrow> bytes \<Rightarrow> (u32 \<times> bytes) option" where
  "GetVarint32PtrFallback_loop shift result [] = None"
| "GetVarint32PtrFallback_loop shift result (b # p) =
     (if shift \<le> 28 then
        let byte = ucast b :: u32 in
        if byte AND 128 \<noteq> 0
        then GetVarint32PtrFallback_loop (shift + 7) (result OR push_bit shift (byte AND 127)) p
        else Some (result OR push_bit shift byte, p)
      else None)"

definition GetVarint32PtrFallback :: "bytes \<Rightarrow> (u32 \<times> bytes) option" where
  "GetVarint32PtrFallback p = GetVarint32PtrFallback_loop 0 0 p"

definition GetVarint32Ptr :: "bytes \<Rightarrow> (u32 \<times> bytes) option" where
  "GetVarint32Ptr p =
     (case p of
        b # p' \<Rightarrow>
          let result = ucast b :: u32 in
          if result AND 128 = 0 then Some (result, p') else GetVarint32PtrFallback p
      | [] \<Rightarrow> GetVarint32PtrFallback p)"

text \<open>\<open>*input\<close> is advanced on success only.\<close>

definition GetVarint32 :: "bytes \<Rightarrow> u32 option \<times> bytes" where
  "GetVarint32 input =
     (case GetVarint32Ptr input of None \<Rightarrow> (None, input) | Some (value, q) \<Rightarrow> (Some value, q))"

fun GetVarint64Ptr_loop :: "nat \<Rightarrow> u64 \<Rightarrow> bytes \<Rightarrow> (u64 \<times> bytes) option" where
  "GetVarint64Ptr_loop shift result [] = None"
| "GetVarint64Ptr_loop shift result (b # p) =
     (if shift \<le> 63 then
        let byte = ucast b :: u64 in
        if byte AND 128 \<noteq> 0
        then GetVarint64Ptr_loop (shift + 7) (result OR push_bit shift (byte AND 127)) p
        else Some (result OR push_bit shift byte, p)
      else None)"

definition GetVarint64Ptr :: "bytes \<Rightarrow> (u64 \<times> bytes) option" where
  "GetVarint64Ptr p = GetVarint64Ptr_loop 0 0 p"

definition GetVarint64 :: "bytes \<Rightarrow> u64 option \<times> bytes" where
  "GetVarint64 input =
     (case GetVarint64Ptr input of None \<Rightarrow> (None, input) | Some (value, q) \<Rightarrow> (Some value, q))"

subsection \<open>Length-prefixed strings\<close>

text \<open>The length is converted to \<open>uint32_t\<close>.\<close>

definition PutLengthPrefixedSlice :: "bytes \<Rightarrow> bytes \<Rightarrow> bytes" where
  "PutLengthPrefixedSlice dst value = PutVarint32 dst (word_of_nat (length value)) @ value"

lemma PutLengthPrefixedSlice_append: "PutLengthPrefixedSlice dst value = dst @ PutLengthPrefixedSlice [] value"
  by (simp add: PutLengthPrefixedSlice_def PutVarint32_def)

definition GetLengthPrefixedSlicePtr :: "bytes \<Rightarrow> (bytes \<times> bytes) option" where
  "GetLengthPrefixedSlicePtr p =
     (case GetVarint32Ptr p of
        None \<Rightarrow> None
      | Some (len, p') \<Rightarrow>
          if length p' < unat len then None
          else Some (take (unat len) p', drop (unat len) p'))"

text \<open>On failure \<open>*input\<close> may already have moved past the length.\<close>

definition GetLengthPrefixedSlice :: "bytes \<Rightarrow> bytes option \<times> bytes" where
  "GetLengthPrefixedSlice input =
     (case GetVarint32 input of
        (Some len, input') \<Rightarrow>
          if unat len \<le> length input'
          then (Some (take (unat len) input'), drop (unat len) input')
          else (None, input')
      | (None, input') \<Rightarrow> (None, input'))"


subsection \<open>Fixed-width round trips\<close>

lemma ucast_and_ff [simp]: "8 \<le> LENGTH('a) \<Longrightarrow> ucast ((v :: 'a::len word) AND 0xff) = (ucast v :: byte)"
proof -
  assume l: "8 \<le> LENGTH('a)"
  have "(v AND 0xff) = take_bit 8 v" by (simp add: take_bit_eq_mask mask_numeral)
  with l show ?thesis by (simp only:) (rule bit_word_eqI, auto simp: bit_simps)
qed

lemma EncodeFixed32_le_bytes: "EncodeFixed32 v = le_bytes 4 v"
  by (simp add: EncodeFixed32_def numeral_eq_Suc)

lemma EncodeFixed64_le_bytes: "EncodeFixed64 v = le_bytes 8 v"
  by (simp add: EncodeFixed64_def eval_nat_numeral)

lemma DecodeFixed32_le_val: "4 \<le> length p \<Longrightarrow> DecodeFixed32 p = le_val (take 4 p)"
  by (auto simp: DecodeFixed32_def push_bit_or numeral_eq_Suc Suc_le_length_iff)

lemma ucast_le_val:
  "8 * length bs \<le> LENGTH('a::len) \<Longrightarrow> (ucast (le_val bs :: 'a word) :: 'b::len word) = le_val bs"
  by (rule bit_word_eqI) (auto simp: bit_simps bit_le_val)

lemma DecodeFixed64_le_val:
  assumes "8 \<le> length p" shows "DecodeFixed64 p = le_val (take 8 p)"
proof -
  have "take 8 p = take 4 p @ take 4 (drop 4 p)"
    using take_add [of 4 4 p] by simp
  with assms show ?thesis
    by (simp add: DecodeFixed64_def DecodeFixed32_le_val ucast_le_val le_val_append or.commute)
qed

lemma length_EncodeFixed [simp, enc_length]:
  "length (EncodeFixed32 v) = 4" "length (EncodeFixed64 w) = 8"
  by (simp_all add: EncodeFixed32_def EncodeFixed64_def)

lemma DecodeFixed32_append [simp]:
  "4 \<le> length p \<Longrightarrow> DecodeFixed32 (p @ q) = DecodeFixed32 p"
  by (simp add: DecodeFixed32_le_val)

lemma DecodeFixed64_append [simp]:
  "8 \<le> length p \<Longrightarrow> DecodeFixed64 (p @ q) = DecodeFixed64 p"
  by (simp add: DecodeFixed64_le_val)

lemma DecodeFixed32_EncodeFixed32 [simp, decode_encode]:
  "DecodeFixed32 (EncodeFixed32 v) = v"
  by (simp add: DecodeFixed32_le_val EncodeFixed32_le_bytes le_val_bytes take_bit_word_eq_self)

lemma DecodeFixed64_EncodeFixed64 [simp, decode_encode]:
  "DecodeFixed64 (EncodeFixed64 v) = v"
  by (simp add: DecodeFixed64_le_val EncodeFixed64_le_bytes le_val_bytes take_bit_word_eq_self)

lemma EncodeFixed32_DecodeFixed32 [decode_encode]:
  "length p = 4 \<Longrightarrow> EncodeFixed32 (DecodeFixed32 p) = p"
  using le_bytes_val [of p, where 'a = 32] by (simp add: DecodeFixed32_le_val EncodeFixed32_le_bytes)

lemma EncodeFixed64_DecodeFixed64 [decode_encode]:
  "length p = 8 \<Longrightarrow> EncodeFixed64 (DecodeFixed64 p) = p"
  using le_bytes_val [of p, where 'a = 64] by (simp add: DecodeFixed64_le_val EncodeFixed64_le_bytes)

subsection \<open>Variable-length integers: the format as a function of the number\<close>

text \<open>
  The abstract format both encoders implement: seven bits a byte, low bits first, the top
  bit of a byte set when another one follows.
\<close>

function varint_bytes :: "nat \<Rightarrow> bytes" where
  "varint_bytes n =
     (if 128 \<le> n then (word_of_nat n OR 128) # varint_bytes (n div 128) else [word_of_nat n])"
  by pat_completeness auto
termination
  by (relation "measure id") auto

declare varint_bytes.simps [simp del]

lemma varint_bytes_small: "n < 128 \<Longrightarrow> varint_bytes n = [word_of_nat n]"
  by (simp add: varint_bytes.simps [of n])

lemma varint_bytes_big:
  "128 \<le> n \<Longrightarrow> varint_bytes n = (word_of_nat n OR 128) # varint_bytes (n div 128)"
  by (simp add: varint_bytes.simps [of n])

lemma EncodeVarint64_spec: "EncodeVarint64 v = varint_bytes (unat v)"
proof (induction v rule: EncodeVarint64.induct)
  case (1 v)
  have le: "128 \<le> v \<longleftrightarrow> 128 \<le> unat v" by (simp add: word_le_nat_alt)
  show ?case
  proof (cases "128 \<le> v")
    case True
    with 1 have "EncodeVarint64 (drop_bit 7 v) = varint_bytes (unat v div 128)"
      by (simp add: drop_bit_eq_div unat_div)
    moreover have "EncodeVarint64 v = ucast (v OR 128) # EncodeVarint64 (drop_bit 7 v)"
      using True by (simp add: EncodeVarint64.simps [of v])
    moreover have "ucast (v OR 128) = (word_of_nat (unat v) OR 128 :: byte)"
      by (simp add: unsigned_or_eq)
    ultimately show ?thesis using True le by (simp add: varint_bytes_big)
  next
    case False
    with le show ?thesis by (simp add: EncodeVarint64.simps [of v] varint_bytes_small)
  qed
qed


lemma bit_128: "bit (128 :: 'b::len word) i \<longleftrightarrow> i = 7 \<and> 8 \<le> LENGTH('b)"
proof -
  have "(128 :: 'b word) = push_bit 7 1" by simp
  moreover have "bit (push_bit 7 (1 :: 'b word)) i \<longleftrightarrow> i = 7 \<and> 8 \<le> LENGTH('b)"
    unfolding bit_push_bit_iff bit_1_iff by auto
  ultimately show ?thesis by simp
qed

lemma bit_128_int: "bit (128 :: int) i \<longleftrightarrow> i = 7"
proof -
  have "(128 :: int) = push_bit 7 1" by simp
  moreover have "bit (push_bit 7 (1 :: int)) i \<longleftrightarrow> i = 7"
    unfolding bit_push_bit_iff bit_1_iff by auto
  ultimately show ?thesis by simp
qed

lemma ucast_or_128: 
  "ucast ((v :: u32) OR 128) = (word_of_nat (unat v) OR 128 :: byte)"
  "ucast ((w :: u64) OR 128) = (word_of_nat (unat w) OR 128 :: byte)"
  by (simp_all add: unsigned_or_eq)

lemma varint_bytes_u32: "varint_bytes (unat (v :: u32)) = (if v < 128 then [ucast v] else ucast (v OR 128) # varint_bytes (unat (drop_bit 7 v)))"
  by (subst varint_bytes.simps) (auto simp: ucast_or_128 word_less_nat_alt drop_bit_eq_div unat_div)

lemma EncodeVarint32_spec: "EncodeVarint32 v = varint_bytes (unat v)"
proof -
  have lt: "drop_bit 7 v < 128 \<longleftrightarrow> v < 16384" "drop_bit 14 v < 128 \<longleftrightarrow> v < 2097152"
    "drop_bit 21 v < 128 \<longleftrightarrow> v < 268435456"
    by (simp_all add: word_less_nat_alt drop_bit_eq_div unat_div) arith+
  have "unat v < 2 ^ LENGTH(32)" by (rule unsigned_less)
  then have top: "drop_bit 28 v < 128"
    by (simp add: word_less_nat_alt drop_bit_eq_div unat_div)
  show ?thesis
    by (simp add: EncodeVarint32_def varint_bytes_u32 [of v] varint_bytes_u32 [of "drop_bit 7 v"]
      varint_bytes_u32 [of "drop_bit 14 v"] varint_bytes_u32 [of "drop_bit 21 v"] varint_bytes_u32 [of "drop_bit 28 v"] lt top)
qed

lemma varint_byte_more:
  assumes "8 \<le> LENGTH('a::len)"
  shows "(ucast (word_of_nat n OR 128 :: byte) :: 'a word) AND 128 \<noteq> 0"
    and "(ucast (word_of_nat n OR 128 :: byte) :: 'a word) AND 127 = take_bit 7 (word_of_nat n)"
proof -
  have m: "(127 :: 'a word) = mask 7" by (simp add: mask_numeral)
  have "bit ((ucast (word_of_nat n OR 128 :: byte) :: 'a word) AND 128) 7"
    using assms by (simp add: bit_simps bit_128 bit_128_int)
  then show "(ucast (word_of_nat n OR 128 :: byte) :: 'a word) AND 128 \<noteq> 0" by auto
  show "(ucast (word_of_nat n OR 128 :: byte) :: 'a word) AND 127 = take_bit 7 (word_of_nat n)"
    using assms unfolding m by (intro bit_word_eqI) (auto simp: bit_simps bit_128 bit_128_int)
qed

lemma varint_byte_last:
  assumes "8 \<le> LENGTH('a::len)" "n < 128"
  shows "(ucast (word_of_nat n :: byte) :: 'a word) AND 128 = 0"
    and "(ucast (word_of_nat n :: byte) :: 'a word) = word_of_nat n"
proof -
  have n: "n = take_bit 7 n" using assms(2) by (simp add: take_bit_eq_mod)
  have b: "i < 7" if "bit n i" for i using that by (subst (asm) n) (simp add: bit_simps)
  show e: "(ucast (word_of_nat n :: byte) :: 'a word) = word_of_nat n"
    using assms(1) by (intro bit_word_eqI) (auto simp: bit_simps dest: b)
  show "(ucast (word_of_nat n :: byte) :: 'a word) AND 128 = 0"
    unfolding e by (intro bit_word_eqI) (auto simp: bit_simps bit_128 bit_128_int dest: b)
qed

lemma varint_join: "push_bit s (take_bit 7 (word_of_nat n)) OR push_bit (s + 7) (word_of_nat (n div 128))
   = push_bit s (word_of_nat n :: 'a::len word)"
proof -
  have "n div 128 = drop_bit 7 n" by (simp add: drop_bit_eq_div)
  then have "take_bit 7 (word_of_nat n) OR push_bit 7 (word_of_nat (n div 128)) = (word_of_nat n :: 'a word)"
    by (simp only:) (rule bit_word_eqI, auto simp: bit_simps not_less)
  then have "push_bit s (take_bit 7 (word_of_nat n) OR push_bit 7 (word_of_nat (n div 128))) = push_bit s (word_of_nat n :: 'a word)"
    by simp
  then show ?thesis by (simp only: push_bit_or push_bit_push_bit)
qed

lemma varint_shift_step: "128 \<le> (n::nat) \<Longrightarrow> n < 2 ^ (w - 7 * k) \<Longrightarrow> n div 128 < 2 ^ (w - 7 * (k + 1)) \<and> 7 * k + 7 < (w::nat)"
proof -
  assume n: "128 \<le> n" "n < 2 ^ (w - 7 * k)"
  have "7 < w - 7 * k"
  proof (rule ccontr)
    assume "\<not> ?thesis"
    then have "(2::nat) ^ (w - 7 * k) \<le> 2 ^ 7" by (intro power_increasing) auto
    with n show False by simp
  qed
  moreover from this have "(2::nat) ^ (w - 7 * k) = 128 * 2 ^ (w - 7 * (k + 1))"
    using power_add [of "2::nat" 7 "w - 7 * (k + 1)"] by simp
  ultimately show ?thesis using n by auto
qed

lemma GetVarint32PtrFallback_loop_varint: "n < 2 ^ (32 - 7 * k) \<Longrightarrow> k \<le> 4 \<Longrightarrow>
  GetVarint32PtrFallback_loop (7 * k) r (varint_bytes n @ rest) = Some (r OR push_bit (7 * k) (word_of_nat n), rest)"
proof (induction n arbitrary: k r rule: varint_bytes.induct)
  case (1 n)
  show ?case
  proof (cases "128 \<le> n")
    case True
    have s: "n div 128 < 2 ^ (32 - 7 * (k + 1)) \<and> 7 * k + 7 < 32"
      by (rule varint_shift_step) (use True 1 in auto)
    then have "k + 1 \<le> 4" by simp
    with s True 1(1) [of "k + 1" "r OR push_bit (7 * k) (take_bit 7 (word_of_nat n))"]
    show ?thesis using 1(3) by (simp add: varint_bytes_big Let_def varint_byte_more or.assoc varint_join [of "7 * k" n, simplified add.commute [of "7 * k"]] add.commute)
  next
    case False
    then have "n < 128" by simp
    with 1(3) show ?thesis by (simp add: varint_bytes_small Let_def varint_byte_last(1)) (simp add: varint_byte_last(2))
  qed
qed
lemma GetVarint64Ptr_loop_varint: "n < 2 ^ (64 - 7 * k) \<Longrightarrow> k \<le> 9 \<Longrightarrow>
  GetVarint64Ptr_loop (7 * k) r (varint_bytes n @ rest) = Some (r OR push_bit (7 * k) (word_of_nat n), rest)"
proof (induction n arbitrary: k r rule: varint_bytes.induct)
  case (1 n)
  show ?case
  proof (cases "128 \<le> n")
    case True
    have s: "n div 128 < 2 ^ (64 - 7 * (k + 1)) \<and> 7 * k + 7 < 64"
      by (rule varint_shift_step) (use True 1 in auto)
    then have "k + 1 \<le> 9" by simp
    with s True 1(1) [of "k + 1" "r OR push_bit (7 * k) (take_bit 7 (word_of_nat n))"]
    show ?thesis using 1(3) by (simp add: varint_bytes_big Let_def varint_byte_more or.assoc varint_join [of "7 * k" n, simplified add.commute [of "7 * k"]] add.commute)
  next
    case False
    then have "n < 128" by simp
    with 1(3) show ?thesis by (simp add: varint_bytes_small Let_def varint_byte_last(1)) (simp add: varint_byte_last(2))
  qed
qed

text \<open>The pointer-based decoders on an encoding followed by anything.\<close>

lemma GetVarint32PtrFallback_varint:
  "n < 2 ^ 32 \<Longrightarrow> GetVarint32PtrFallback (varint_bytes n @ rest) = Some (word_of_nat n, rest)"
  using GetVarint32PtrFallback_loop_varint [of n 0 0 rest] by (simp add: GetVarint32PtrFallback_def)

lemma GetVarint32Ptr_varint [decode_encode]:
  assumes "n < 2 ^ 32"
  shows "GetVarint32Ptr (varint_bytes n @ rest) = Some (word_of_nat n, rest)"
proof (cases "128 \<le> n")
  case True
  with GetVarint32PtrFallback_varint [OF assms, of rest] show ?thesis
    by (simp add: GetVarint32Ptr_def varint_bytes_big varint_byte_more)
next
  case False
  then show ?thesis
    by (simp add: GetVarint32Ptr_def varint_bytes_small varint_byte_last(1))
       (simp add: varint_byte_last(2))
qed

lemma GetVarint64Ptr_varint [decode_encode]:
  "n < 2 ^ 64 \<Longrightarrow> GetVarint64Ptr (varint_bytes n @ rest) = Some (word_of_nat n, rest)"
  using GetVarint64Ptr_loop_varint [of n 0 0 rest] by (simp add: GetVarint64Ptr_def)

lemma unat_u32_less: "unat (v :: u32) < 2 ^ 32"
proof -
  have "unat v < 2 ^ LENGTH(32)" by (rule unsigned_less)
  then show ?thesis by simp
qed

lemma unat_u64_less: "unat (v :: u64) < 2 ^ 64"
proof -
  have "unat v < 2 ^ LENGTH(64)" by (rule unsigned_less)
  then show ?thesis by simp
qed

lemma GetVarint32_EncodeVarint32 [simp, decode_encode]:
  "GetVarint32 (EncodeVarint32 v @ rest) = (Some v, rest)"
  using GetVarint32Ptr_varint [OF unat_u32_less, of v rest]
  by (simp add: GetVarint32_def EncodeVarint32_spec)

lemma GetVarint64_EncodeVarint64 [simp, decode_encode]:
  "GetVarint64 (EncodeVarint64 v @ rest) = (Some v, rest)"
  using GetVarint64Ptr_varint [OF unat_u64_less, of v rest]
  by (simp add: GetVarint64_def EncodeVarint64_spec)

lemma GetLengthPrefixedSlice_Put [simp, decode_encode]:
  assumes "length value < 2 ^ 32"
  shows "GetLengthPrefixedSlice (PutLengthPrefixedSlice [] value @ rest) = (Some value, rest)"
proof -
  have "unat (word_of_nat (length value) :: u32) = length value"
    by (rule unat_of_nat_small) (use assms in simp)
  then show ?thesis
    by (simp add: GetLengthPrefixedSlice_def PutLengthPrefixedSlice_def PutVarint32_def)
qed

subsection \<open>Lengths of encodings\<close>

lemma length_varint_bytes_pos: "0 < length (varint_bytes n)"
  by (subst varint_bytes.simps) simp

lemma length_varint_bytes_le: "n < 2 ^ (7 * Suc k) \<Longrightarrow> length (varint_bytes n) \<le> Suc k"
proof (induction k arbitrary: n)
  case 0
  then show ?case by (simp add: varint_bytes_small)
next
  case (Suc k)
  show ?case
  proof (cases "128 \<le> n")
    case True
    have "n < 128 * 2 ^ (7 * Suc k)" using Suc.prems by (simp add: power_add)
    then have "n div 128 < 2 ^ (7 * Suc k)" by (simp only: less_mult_imp_div_less mult.commute)
    then have "length (varint_bytes (n div 128)) \<le> Suc k" by (rule Suc.IH)
    with True show ?thesis by (simp add: varint_bytes_big)
  next
    case False
    then show ?thesis by (simp add: varint_bytes_small)
  qed
qed

lemma length_EncodeVarint32: "length (EncodeVarint32 v) \<le> 5"
  using length_varint_bytes_le [of "unat v" 4] unat_u32_less [of v]
  by (simp add: EncodeVarint32_spec)

lemma length_EncodeVarint64: "length (EncodeVarint64 v) \<le> 10"
  using length_varint_bytes_le [of "unat v" 9] unat_u64_less [of v]
  by (simp add: EncodeVarint64_spec)

lemma VarintLength_loop_length:
  "VarintLength_loop v len + 1 = len + length (EncodeVarint64 v)"
proof (induction v len rule: VarintLength_loop.induct)
  case (1 v len)
  then show ?case
    by (simp add: VarintLength_loop.simps [of v] EncodeVarint64.simps [of v])
qed

lemma VarintLength_EncodeVarint64: "VarintLength v = length (EncodeVarint64 v)"
  using VarintLength_loop_length [of v 1] by (simp add: VarintLength_def)

subsection \<open>Truncated input and bounds\<close>

lemma continuation_bytes: "b \<in> set (butlast (varint_bytes n)) \<Longrightarrow> bit b 7"
proof (induction n rule: varint_bytes.induct)
  case (1 n)
  show ?case
  proof (cases "128 \<le> n")
    case True
    have "varint_bytes (n div 128) \<noteq> []" using length_varint_bytes_pos [of "n div 128"] by auto
    with True 1 show ?thesis
      by (auto simp: varint_bytes_big bit_simps bit_128_int)
  next
    case False
    with 1 show ?thesis by (simp add: varint_bytes_small)
  qed
qed

lemma and_128_bit: "8 \<le> LENGTH('a::len) \<Longrightarrow> bit (b :: byte) 7 \<Longrightarrow> (ucast b :: 'a word) AND 128 \<noteq> 0"
proof -
  assume "8 \<le> LENGTH('a)" "bit b 7"
  then have "bit ((ucast b :: 'a word) AND 128) 7" by (simp add: bit_simps bit_128_int)
  then show ?thesis by auto
qed

lemma GetVarint32PtrFallback_loop_truncated:
  "(\<And>b. b \<in> set p \<Longrightarrow> bit b 7) \<Longrightarrow> GetVarint32PtrFallback_loop shift r p = None"
  by (induction shift r p rule: GetVarint32PtrFallback_loop.induct) (auto simp: Let_def and_128_bit)

lemma GetVarint64Ptr_loop_truncated:
  "(\<And>b. b \<in> set p \<Longrightarrow> bit b 7) \<Longrightarrow> GetVarint64Ptr_loop shift r p = None"
  by (induction shift r p rule: GetVarint64Ptr_loop.induct) (auto simp: Let_def and_128_bit)

lemma GetVarint32Ptr_truncated:
  "(\<And>b. b \<in> set p \<Longrightarrow> bit b 7) \<Longrightarrow> GetVarint32Ptr p = None"
proof -
  assume p: "\<And>b. b \<in> set p \<Longrightarrow> bit b 7"
  then have "GetVarint32PtrFallback p = None"
    unfolding GetVarint32PtrFallback_def by (rule GetVarint32PtrFallback_loop_truncated)
  with p show ?thesis by (cases p) (auto simp: GetVarint32Ptr_def and_128_bit)
qed

lemma set_take_butlast: "k < length xs \<Longrightarrow> set (take k xs) \<subseteq> set (butlast xs)"
  by (simp add: butlast_conv_take set_take_subset_set_take)

text \<open>What a decoder returns points into its input, at most five (ten) bytes on.\<close>

lemma GetVarint32PtrFallback_loop_bounds:
  "GetVarint32PtrFallback_loop (7 * k) r p = Some (v, q) \<Longrightarrow>
   \<exists>m. 0 < m \<and> k + m \<le> 5 \<and> m \<le> length p \<and> q = drop m p"
proof (induction p arbitrary: k r)
  case (Cons b p)
  then have k: "k \<le> 4" by (auto split: if_splits)
  show ?case
  proof (cases "(ucast b :: u32) AND 128 = 0")
    case True
    with Cons.prems k show ?thesis by (intro exI [of _ 1]) (auto simp: Let_def split: if_splits)
  next
    case False
    with Cons.prems k have "GetVarint32PtrFallback_loop (7 * (k + 1))
        (r OR push_bit (7 * k) (ucast b AND 127)) p = Some (v, q)"
      by (auto simp: Let_def add.commute split: if_splits)
    from Cons.IH [OF this] obtain m where "0 < m" "k + 1 + m \<le> 5" "m \<le> length p" "q = drop m p"
      by auto
    then show ?thesis by (intro exI [of _ "Suc m"]) auto
  qed
qed simp

lemma GetVarint32Ptr_bounds:
  assumes "GetVarint32Ptr p = Some (v, q)"
  shows "\<exists>m. 0 < m \<and> m \<le> 5 \<and> m \<le> length p \<and> q = drop m p"
proof -
  consider "GetVarint32PtrFallback_loop (7 * 0) 0 p = Some (v, q)" | b where "p = b # q"
    using assms by (auto simp: GetVarint32Ptr_def GetVarint32PtrFallback_def Let_def
        split: list.splits if_splits)
  then show ?thesis
  proof cases
    case 1
    from GetVarint32PtrFallback_loop_bounds [OF this] show ?thesis by auto
  next
    case 2
    then show ?thesis by (intro exI [of _ 1]) auto
  qed
qed

lemma GetLengthPrefixedSlice_bounds:
  assumes "GetLengthPrefixedSlice input = (Some s, rest)"
  shows "length s + length rest < length input \<and> (\<exists>h. input = h @ s @ rest)"
proof -
  from assms obtain len p where p: "GetVarint32Ptr input = Some (len, p)"
    and s: "s = take (unat len) p" "rest = drop (unat len) p" "unat len \<le> length p"
    by (auto simp: GetLengthPrefixedSlice_def GetVarint32_def split: option.splits if_splits prod.splits)
  from GetVarint32Ptr_bounds [OF p] obtain m where m: "0 < m" "m \<le> length input" "p = drop m input"
    by auto
  have "p = s @ rest" using s by simp
  then have "input = take m input @ s @ rest" using m by (metis append_take_drop_id)
  moreover have "length s + length rest = length p" using s by simp
  ultimately show ?thesis using m by auto
qed

subsection \<open>Properties\<close>

text \<open>
  Decoding an encoded 32-bit or 64-bit varint gives the number back and leaves exactly the bytes
  after it; so do the fixed-width encodings.
\<close>

lemma integer_round_trips:
  "GetVarint32 (EncodeVarint32 v @ rest) = (Some v, rest) \<and>
   GetVarint64 (EncodeVarint64 w @ rest) = (Some w, rest) \<and>
   DecodeFixed32 (EncodeFixed32 v @ rest) = v \<and> DecodeFixed64 (EncodeFixed64 w @ rest) = w"
  by simp

text \<open>
  The unrolled 32-bit encoder writes the same bytes as the 64-bit loop, so 32-bit numbers may be
  read back by either decoder; at most five and ten bytes are written (the sizes of the callers'
  buffers), and \<open>VarintLength\<close> is the number of bytes.
\<close>

lemma EncodeVarint_agree:
  "EncodeVarint32 v = EncodeVarint64 (ucast v) \<and> length (EncodeVarint32 v) \<le> 5 \<and>
   length (EncodeVarint64 w) \<le> 10 \<and> VarintLength w = length (EncodeVarint64 w)"
proof -
  have "unat (ucast v :: u64) = unat v"
    using unat_u32_less [of v] by (simp add: unsigned_ucast_eq take_bit_nat_eq_self)
  then show ?thesis
    by (simp add: EncodeVarint32_spec EncodeVarint64_spec VarintLength_EncodeVarint64
        length_EncodeVarint32 [unfolded EncodeVarint32_spec]
        length_EncodeVarint64 [unfolded EncodeVarint64_spec])
qed

text \<open>
  An encoding cut short anywhere is rejected by both decoders, and the input slice is left as it was.
\<close>

lemma truncated_varint_rejected:
  "(n < length (EncodeVarint32 v) \<longrightarrow>
      GetVarint32 (take n (EncodeVarint32 v)) = (None, take n (EncodeVarint32 v))) \<and>
   (m < length (EncodeVarint64 w) \<longrightarrow>
      GetVarint64 (take m (EncodeVarint64 w)) = (None, take m (EncodeVarint64 w)))"
proof -
  have "GetVarint32Ptr (take n (varint_bytes (unat v))) = None" if "n < length (varint_bytes (unat v))"
    by (rule GetVarint32Ptr_truncated)
       (use set_take_butlast [OF that] in \<open>auto intro: continuation_bytes\<close>)
  moreover have "GetVarint64Ptr (take m (varint_bytes (unat w))) = None"
    if "m < length (varint_bytes (unat w))"
    unfolding GetVarint64Ptr_def
    by (rule GetVarint64Ptr_loop_truncated)
       (use set_take_butlast [OF that] in \<open>auto intro: continuation_bytes\<close>)
  ultimately show ?thesis
    by (simp add: GetVarint32_def GetVarint64_def EncodeVarint32_spec EncodeVarint64_spec)
qed

lemma truncated_varint_rejected_witness:
  "GetVarint32 (take 1 (EncodeVarint32 300)) = (None, take 1 (EncodeVarint32 300))"
  using truncated_varint_rejected [of 1 300] by (simp add: EncodeVarint32_def)

text \<open>
  A length-prefixed slice read from arbitrary bytes lies inside the input: the input is the
  prefix's bytes, the slice and the rest, so the reader never runs past the end whatever length the
  prefix claims.
\<close>

lemma GetLengthPrefixedSlice_in_bounds:
  assumes "GetLengthPrefixedSlice input = (Some s, rest)"
  shows "\<exists>h. input = h @ s @ rest \<and> 0 < length h \<and> length h \<le> 5"
proof -
  from assms obtain len p where p: "GetVarint32Ptr input = Some (len, p)" and s: "p = s @ rest"
    by (auto simp: GetLengthPrefixedSlice_def GetVarint32_def split: option.splits if_splits prod.splits)
  from GetVarint32Ptr_bounds [OF p] obtain m where "0 < m" "m \<le> 5" "m \<le> length input" "p = drop m input"
    by auto
  then show ?thesis using s by (intro exI [of _ "take m input"]) auto
qed

lemma GetLengthPrefixedSlice_in_bounds_witness:
  "\<exists>h. [2, 7, 8, 9] = h @ [7, 8] @ [9 :: byte] \<and> 0 < length h \<and> length h \<le> 5"
  by (rule GetLengthPrefixedSlice_in_bounds)
     (simp add: GetLengthPrefixedSlice_def GetVarint32_def GetVarint32Ptr_def)

end
