(* ===== verification/Slice_Status.thy ===== *)
theory Slice_Status
  imports Coding
begin

text \<open>
  \<^verbatim>\<open>include/leveldb/slice.h\<close> and \<^verbatim>\<open>util/status.cc\<close>.  A \<open>Slice\<close> is the bytes it refers to.
  A \<open>Status\<close> is its \<open>state_\<close> pointer: \<open>None\<close> for \<open>nullptr\<close> (success), otherwise the
  allocated array with the message length, the code and the message.
\<close>

subsection \<open>Slices\<close>

text \<open>\<open>memcmp\<close> of the C library: the sign of the first difference of unsigned bytes.\<close>

fun memcmp :: "bytes \<Rightarrow> bytes \<Rightarrow> nat \<Rightarrow> int" where
  "memcmp (a # as) (b # bs) (Suc n) =
     (if a < b then -1 else if b < a then 1 else memcmp as bs n)"
| "memcmp _ _ _ = 0"

definition Slice_compare :: "bytes \<Rightarrow> bytes \<Rightarrow> int" where
  "Slice_compare a b =
     (let min_len = (if length a < length b then length a else length b);
          r = memcmp a b min_len
      in if r = 0 then
           (if length a < length b then -1 else if length b < length a then 1 else r)
         else r)"

definition Slice_starts_with :: "bytes \<Rightarrow> bytes \<Rightarrow> bool" where
  "Slice_starts_with s x \<longleftrightarrow> length x \<le> length s \<and> memcmp s x (length x) = 0"

definition Slice_eq :: "bytes \<Rightarrow> bytes \<Rightarrow> bool" where
  "Slice_eq x y \<longleftrightarrow> length x = length y \<and> memcmp x y (length x) = 0"

text \<open>\<open>remove_prefix(n)\<close> requires \<open>n <= size()\<close>.\<close>

definition Slice_remove_prefix :: "bytes \<Rightarrow> nat \<Rightarrow> bytes" where
  "Slice_remove_prefix s n = drop n s"

text \<open>The order \<open>Slice_compare\<close> decides: lexicographic on unsigned bytes, a prefix first.\<close>

fun lex_cmp :: "bytes \<Rightarrow> bytes \<Rightarrow> int" where
  "lex_cmp [] [] = 0"
| "lex_cmp [] (b # bs) = -1"
| "lex_cmp (a # as) [] = 1"
| "lex_cmp (a # as) (b # bs) = (if a < b then -1 else if b < a then 1 else lex_cmp as bs)"

lemma Slice_compare_lex: "Slice_compare a b = lex_cmp a b"
proof (induction a b rule: lex_cmp.induct)
  case (4 a as b bs)
  then show ?case by (auto simp: Slice_compare_def Let_def split: if_splits)
qed (auto simp: Slice_compare_def)

lemma lex_cmp_range: "lex_cmp a b \<in> {-1, 0, 1}"
  by (induction a b rule: lex_cmp.induct) auto

lemma lex_cmp_eq_0 [simp]: "lex_cmp a b = 0 \<longleftrightarrow> a = b"
  by (induction a b rule: lex_cmp.induct) auto

lemma lex_cmp_refl [simp]: "lex_cmp a a = 0"
  by simp

lemma lex_cmp_anti: "lex_cmp b a = - lex_cmp a b"
  by (induction a b rule: lex_cmp.induct) (auto)

lemma lex_cmp_trans: "lex_cmp a b < 0 \<Longrightarrow> lex_cmp b c < 0 \<Longrightarrow> lex_cmp a c < 0"
proof (induction a b arbitrary: c rule: lex_cmp.induct)
  case (2 b bs)
  then show ?case by (cases c) auto
next
  case (4 a as b bs)
  then show ?case by (cases c) (auto split: if_splits)
qed auto

lemma lex_cmp_append [simp]: "lex_cmp (p @ a) (p @ b) = lex_cmp a b"
  by (induction p) auto

lemma memcmp_prefix_0: "n \<le> length a \<Longrightarrow> n \<le> length b \<Longrightarrow> memcmp a b n = 0 \<longleftrightarrow> take n a = take n b"
  by (induction a b n rule: memcmp.induct) (auto split: if_splits)

lemma Slice_eq_iff [simp]: "Slice_eq x y \<longleftrightarrow> x = y"
  by (auto simp: Slice_eq_def memcmp_prefix_0)

lemma Slice_starts_with_iff: "Slice_starts_with s x \<longleftrightarrow> (\<exists>t. s = x @ t)"
  by (auto simp: Slice_starts_with_def memcmp_prefix_0) (metis append_take_drop_id)

subsection \<open>Status\<close>

type_synonym status = "bytes option"

definition kOk :: byte where "kOk = 0"
definition kNotFound :: byte where "kNotFound = 1"
definition kCorruption :: byte where "kCorruption = 2"
definition kNotSupported :: byte where "kNotSupported = 3"
definition kInvalidArgument :: byte where "kInvalidArgument = 4"
definition kIOError :: byte where "kIOError = 5"

lemmas code_defs = kOk_def kNotFound_def kCorruption_def kNotSupported_def
  kInvalidArgument_def kIOError_def

definition Status_OK :: status where
  "Status_OK = None"

text \<open>
  The constructor.  The sizes are \<open>uint32_t\<close>: a message of four gigabytes or more would be
  cut by the conversion.
\<close>

definition Status_make :: "byte \<Rightarrow> bytes \<Rightarrow> bytes \<Rightarrow> status" where
  "Status_make code msg msg2 =
     (let len1 = word_of_nat (length msg) :: u32;
          len2 = word_of_nat (length msg2) :: u32;
          size = len1 + (if len2 \<noteq> 0 then 2 + len2 else 0)
      in Some (EncodeFixed32 size @ [code] @ take (unat len1) msg @
           (if len2 \<noteq> 0 then lit '': '' @ take (unat len2) msg2 else [])))"

definition Status_NotFound :: "bytes \<Rightarrow> bytes \<Rightarrow> status" where
  "Status_NotFound msg msg2 = Status_make kNotFound msg msg2"

definition Status_Corruption :: "bytes \<Rightarrow> bytes \<Rightarrow> status" where
  "Status_Corruption msg msg2 = Status_make kCorruption msg msg2"

definition Status_NotSupported :: "bytes \<Rightarrow> bytes \<Rightarrow> status" where
  "Status_NotSupported msg msg2 = Status_make kNotSupported msg msg2"

definition Status_InvalidArgument :: "bytes \<Rightarrow> bytes \<Rightarrow> status" where
  "Status_InvalidArgument msg msg2 = Status_make kInvalidArgument msg msg2"

definition Status_IOError :: "bytes \<Rightarrow> bytes \<Rightarrow> status" where
  "Status_IOError msg msg2 = Status_make kIOError msg msg2"

definition Status_ok :: "status \<Rightarrow> bool" where
  "Status_ok s \<longleftrightarrow> s = None"

definition Status_code :: "status \<Rightarrow> byte" where
  "Status_code s = (case s of None \<Rightarrow> kOk | Some state \<Rightarrow> state ! 4)"

definition Status_IsNotFound :: "status \<Rightarrow> bool" where
  "Status_IsNotFound s \<longleftrightarrow> Status_code s = kNotFound"

definition Status_IsCorruption :: "status \<Rightarrow> bool" where
  "Status_IsCorruption s \<longleftrightarrow> Status_code s = kCorruption"

definition Status_IsIOError :: "status \<Rightarrow> bool" where
  "Status_IsIOError s \<longleftrightarrow> Status_code s = kIOError"

definition Status_IsNotSupportedError :: "status \<Rightarrow> bool" where
  "Status_IsNotSupportedError s \<longleftrightarrow> Status_code s = kNotSupported"

definition Status_IsInvalidArgument :: "status \<Rightarrow> bool" where
  "Status_IsInvalidArgument s \<longleftrightarrow> Status_code s = kInvalidArgument"

text \<open>\<open>CopyState\<close>: the array is copied by the length it records.\<close>

definition Status_CopyState :: "bytes \<Rightarrow> bytes" where
  "Status_CopyState state = take (unat (DecodeFixed32 state + 5)) state"

definition Status_copy :: "status \<Rightarrow> status" where
  "Status_copy rhs = (case rhs of None \<Rightarrow> None | Some state \<Rightarrow> Some (Status_CopyState state))"

definition Status_ToString :: "status \<Rightarrow> bytes" where
  "Status_ToString s =
     (case s of
        None \<Rightarrow> lit ''OK''
      | Some state \<Rightarrow>
          let code = Status_code s;
              type = (if code = kOk then lit ''OK''
                      else if code = kNotFound then lit ''NotFound: ''
                      else if code = kCorruption then lit ''Corruption: ''
                      else if code = kNotSupported then lit ''Not implemented: ''
                      else if code = kInvalidArgument then lit ''Invalid argument: ''
                      else if code = kIOError then lit ''IO error: ''
                      else lit ''Unknown code('' @ signed_decimal (sint code) @ lit ''): '');
              length = unat (DecodeFixed32 state)
          in type @ take length (drop 5 state))"

lemma Status_ok_OK [simp]: "Status_ok Status_OK"
  by (simp add: Status_ok_def Status_OK_def)

lemma Status_make_not_ok [simp]: "\<not> Status_ok (Status_make c m m2)" "Status_make c m m2 \<noteq> Status_OK"
  by (simp_all add: Status_ok_def Status_make_def Status_OK_def Let_def)

lemma Status_code_make [simp]: "Status_code (Status_make c m m2) = c"
  by (simp add: Status_code_def Status_make_def Let_def nth_append)

lemma Status_ok_simps [simp]:
  "\<not> Status_ok (Status_Corruption m m')" "\<not> Status_ok (Status_NotFound m m')"
  "\<not> Status_ok (Status_IOError m m')" "\<not> Status_ok (Status_InvalidArgument m m')"
  "\<not> Status_ok (Status_NotSupported m m')"
  by (simp_all add: Status_Corruption_def Status_NotFound_def Status_IOError_def Status_InvalidArgument_def
      Status_NotSupported_def)

lemma Status_IsCorruption_simps [simp]: "Status_IsCorruption (Status_Corruption m m')"
  by (simp add: Status_IsCorruption_def Status_Corruption_def Status_code_make)


text \<open>With messages that fit, the array holds the joined message and its length.\<close>

definition joined :: "bytes \<Rightarrow> bytes \<Rightarrow> bytes" where
  "joined msg msg2 = msg @ (if msg2 = [] then [] else lit '': '' @ msg2)"

lemma Status_make_state:
  assumes "length (joined msg msg2) < 2 ^ 32"
  shows "Status_make code msg msg2 =
           Some (EncodeFixed32 (word_of_nat (length (joined msg msg2))) @ [code] @ joined msg msg2)"
proof -
  have l: "length msg < 2 ^ LENGTH(32)" "length msg2 < 2 ^ LENGTH(32)"
    using assms by (auto simp: joined_def split: if_splits)
  have u: "unat (word_of_nat (length msg) :: u32) = length msg"
    "unat (word_of_nat (length msg2) :: u32) = length msg2"
    using l by (auto intro: unat_of_nat_small)
  then have z: "(word_of_nat (length msg2) :: u32) = 0 \<longleftrightarrow> msg2 = []"
    by (metis length_0_conv unat_eq_zero)
  show ?thesis
    by (auto simp: Status_make_def Let_def u z joined_def add.assoc)
qed

lemma Status_CopyState_make:
  assumes "length (joined msg msg2) + 5 < 2 ^ 32" "Status_make code msg msg2 = Some state"
  shows "Status_CopyState state = state"
proof -
  let ?n = "length (joined msg msg2)"
  have st: "state = EncodeFixed32 (word_of_nat ?n) @ [code] @ joined msg msg2"
    using Status_make_state [of msg msg2 code] assms by simp
  have "unat (word_of_nat ?n + 5 :: u32) = ?n + 5"
    using unat_of_nat_small [of "?n + 5", where 'a = 32] assms(1) by simp
  then show ?thesis by (simp add: Status_CopyState_def st)
qed

lemma Status_ToString_make:
  assumes "length (joined msg msg2) < 2 ^ 32"
  shows "Status_ToString (Status_Corruption msg msg2) = lit ''Corruption: '' @ joined msg msg2"
    and "Status_ToString (Status_NotFound msg msg2) = lit ''NotFound: '' @ joined msg msg2"
    and "Status_ToString (Status_IOError msg msg2) = lit ''IO error: '' @ joined msg msg2"
proof -
  have u: "unat (word_of_nat (length (joined msg msg2)) :: u32) = length (joined msg msg2)"
    by (rule unat_of_nat_small) (use assms in simp)
  show "Status_ToString (Status_Corruption msg msg2) = lit ''Corruption: '' @ joined msg msg2"
    and "Status_ToString (Status_NotFound msg msg2) = lit ''NotFound: '' @ joined msg msg2"
    and "Status_ToString (Status_IOError msg msg2) = lit ''IO error: '' @ joined msg msg2"
    using Status_make_state [OF assms]
    by (simp_all add: Status_ToString_def Status_Corruption_def Status_NotFound_def Status_IOError_def
        Status_code_def nth_append code_defs u)
qed

subsection \<open>Properties\<close>

text \<open>
  A status that carries an error keeps it: it is not OK, its code is the one given, a copy of it
  is the same status, and its text names the code and shows both messages joined by a colon.
\<close>

lemma Status_keeps_error:
  assumes "length msg + length msg2 + 7 < 2 ^ 32"
  shows "\<not> Status_ok (Status_IOError msg msg2) \<and> Status_IsIOError (Status_IOError msg msg2) \<and>
    \<not> Status_IsNotFound (Status_IOError msg msg2) \<and>
    Status_copy (Status_IOError msg msg2) = Status_IOError msg msg2 \<and>
    Status_ToString (Status_IOError msg msg2) =
      lit ''IO error: '' @ msg @ (if msg2 = [] then [] else lit '': '' @ msg2)"
proof -
  have j: "length (joined msg msg2) + 5 < 2 ^ 32" using assms by (simp add: joined_def)
  then have m: "Status_make kIOError msg msg2 = Some st \<Longrightarrow> Status_CopyState st = st" for st
    by (rule Status_CopyState_make)
  have "Status_copy (Status_make kIOError msg msg2) = Status_make kIOError msg msg2"
    using m by (auto simp: Status_copy_def split: option.splits)
  moreover have "Status_ToString (Status_IOError msg msg2) = lit ''IO error: '' @ joined msg msg2"
    by (rule Status_ToString_make) (use j in simp)
  ultimately show ?thesis
    by (simp add: Status_IOError_def Status_IsIOError_def Status_IsNotFound_def joined_def code_defs)
qed

lemma Status_keeps_error_witness:
  "Status_ToString (Status_IOError (lit ''a'') (lit ''b'')) = lit ''IO error: a: b''"
  using Status_keeps_error [of "lit ''a''" "lit ''b''"] by simp

end
