(* ===== verification/Crc32c.thy ===== *)
theory Crc32c
  imports Coding Slice_Status Crc32c_Tables
begin

text \<open>
  \<^verbatim>\<open>util/crc32c.cc\<close>, \<^verbatim>\<open>util/crc32c.h\<close>: the portable CRC-32C with four interleaved strides, and
  the masking of stored checksums.  \<open>p\<close> is the list of the bytes from \<open>p\<close> to \<open>e\<close>, so \<open>e - p\<close>
  is its length; the address of \<open>data\<close>, on which the alignment prologue depends, is a
  parameter.  The build does not define \<open>HAVE_CRC32C\<close>, so \<open>port::AcceleratedCRC32C\<close>
  (\<^verbatim>\<open>port/port_stdcxx.h\<close>) returns 0.
\<close>

definition kCRC32Xor :: u32 where
  "kCRC32Xor = 0xffffffff"

definition AcceleratedCRC32C :: "u32 \<Rightarrow> bytes \<Rightarrow> u32" where
  "AcceleratedCRC32C crc buf = 0"

definition CanAccelerateCRC32C :: bool where
  "CanAccelerateCRC32C \<longleftrightarrow> AcceleratedCRC32C 0 (lit ''TestCRCBuffer'') = 0xdcbc59fa"

definition ReadUint32LE :: "bytes \<Rightarrow> u32" where
  "ReadUint32LE buffer = DecodeFixed32 buffer"

definition RoundUp :: "nat \<Rightarrow> u64 \<Rightarrow> u64" where
  "RoundUp N pointer = (pointer + (word_of_nat N - 1)) AND NOT (word_of_nat N - 1)"

definition STEP1 :: "u32 \<Rightarrow> byte \<Rightarrow> u32" where
  "STEP1 l b = (let c = (l AND 0xff) XOR ucast b in kByteExtensionTable ! unat c XOR drop_bit 8 l)"

text \<open>The loop \<open>while (p != x) STEP1\<close> over the next \<open>n\<close> bytes.\<close>

fun STEP1_while :: "nat \<Rightarrow> u32 \<Rightarrow> bytes \<Rightarrow> u32 \<times> bytes" where
  "STEP1_while (Suc n) l (b # p) = STEP1_while n (STEP1 l b) p"
| "STEP1_while _ l p = (l, p)"

text \<open>\<open>STEP4(s)\<close>: the stride value \<open>crc##s\<close> and the bytes at \<open>p + s * 4\<close>.\<close>

definition STEP4 :: "u32 \<Rightarrow> bytes \<Rightarrow> u32" where
  "STEP4 crc q =
     ReadUint32LE q XOR kStrideExtensionTable3 ! unat (crc AND 0xff) XOR
     kStrideExtensionTable2 ! unat (drop_bit 8 crc AND 0xff) XOR
     kStrideExtensionTable1 ! unat (drop_bit 16 crc AND 0xff) XOR
     kStrideExtensionTable0 ! unat (drop_bit 24 crc)"

type_synonym strides = "u32 \<times> u32 \<times> u32 \<times> u32"

fun STEP16 :: "strides \<Rightarrow> bytes \<Rightarrow> strides" where
  "STEP16 (crc0, crc1, crc2, crc3) p =
     (STEP4 crc0 (drop (0 * 4) p), STEP4 crc1 (drop (1 * 4) p),
      STEP4 crc2 (drop (2 * 4) p), STEP4 crc3 (drop (3 * 4) p))"

function swath_loop :: "strides \<Rightarrow> bytes \<Rightarrow> strides \<times> bytes" where
  "swath_loop crcs p =
     (if 16 \<le> length p then swath_loop (STEP16 crcs p) (drop 16 p) else (crcs, p))"
  by pat_completeness auto
termination
  by (relation "measure (\<lambda>(c, p). length p)") auto

fun rotate_step :: "strides \<Rightarrow> bytes \<Rightarrow> strides" where
  "rotate_step (crc0, crc1, crc2, crc3) p = (crc1, crc2, crc3, STEP4 crc0 p)"

function word_loop :: "strides \<Rightarrow> bytes \<Rightarrow> strides \<times> bytes" where
  "word_loop crcs p =
     (if 4 \<le> length p then word_loop (rotate_step crcs p) (drop 4 p) else (crcs, p))"
  by pat_completeness auto
termination
  by (relation "measure (\<lambda>(c, p). length p)") auto

declare swath_loop.simps [simp del] word_loop.simps [simp del]

text \<open>One turn of the loop of \<open>STEP4W\<close>, and \<open>STEP4W(w)\<close> with the running \<open>l\<close>.\<close>

definition STEP4W_byte :: "u32 \<Rightarrow> u32" where
  "STEP4W_byte w = drop_bit 8 w XOR kByteExtensionTable ! unat (w AND 0xff)"

definition STEP4W :: "u32 \<Rightarrow> u32 \<Rightarrow> u32" where
  "STEP4W l w = (STEP4W_byte ^^ 4) (w XOR l)"

definition combine :: "strides \<Rightarrow> u32" where
  "combine crcs =
     (case crcs of (crc0, crc1, crc2, crc3) \<Rightarrow>
        STEP4W (STEP4W (STEP4W (STEP4W 0 crc0) crc1) crc2) crc3)"

text \<open>The interleaved middle part: at least sixteen bytes are left.\<close>

definition swaths :: "u32 \<Rightarrow> bytes \<Rightarrow> u32 \<times> bytes" where
  "swaths l p =
     (let crc0 = ReadUint32LE (drop (0 * 4) p) XOR l;
          crc1 = ReadUint32LE (drop (1 * 4) p);
          crc2 = ReadUint32LE (drop (2 * 4) p);
          crc3 = ReadUint32LE (drop (3 * 4) p);
          (crcs, p) = swath_loop (crc0, crc1, crc2, crc3) (drop 16 p);
          (crcs, p) = word_loop crcs p
      in (combine crcs, p))"

text \<open>
  \<open>Extend\<close> with the address of \<open>data\<close>.  The test \<open>x <= e\<close> compares the rounded-up
  address with the end.
\<close>

definition Extend_at :: "u64 \<Rightarrow> u32 \<Rightarrow> bytes \<Rightarrow> u32" where
  "Extend_at addr crc data =
     (if CanAccelerateCRC32C then AcceleratedCRC32C crc data
      else
        let l = crc XOR kCRC32Xor;
            skip = unat (RoundUp 4 addr - addr);
            (l, p) = (if skip \<le> length data then STEP1_while skip l data else (l, data));
            (l, p) = (if 16 \<le> length p then swaths l p else (l, p));
            (l, p) = STEP1_while (length p) l p
        in l XOR kCRC32Xor)"

text \<open>
  The callers' view: the address plays no part in the result (\<open>Extend_at_address\<close> below),
  so it is fixed here.
\<close>

definition Extend :: "u32 \<Rightarrow> bytes \<Rightarrow> u32" where
  "Extend crc data = Extend_at 0 crc data"

definition Value :: "bytes \<Rightarrow> u32" where
  "Value data = Extend 0 data"

definition kMaskDelta :: u32 where
  "kMaskDelta = 0xa282ead8"

definition Mask :: "u32 \<Rightarrow> u32" where
  "Mask crc = (drop_bit 15 crc OR push_bit 17 crc) + kMaskDelta"

definition Unmask :: "u32 \<Rightarrow> u32" where
  "Unmask masked_crc =
     (let rot = masked_crc - kMaskDelta in drop_bit 17 rot OR push_bit 15 rot)"

subsection \<open>The bit-serial reference\<close>

definition crc_byte :: "u32 \<Rightarrow> byte \<Rightarrow> u32" where
  "crc_byte l b = crc_bits 8 (l XOR ucast b)"

definition crc32c_ref :: "u32 \<Rightarrow> bytes \<Rightarrow> u32" where
  "crc32c_ref crc data = foldl crc_byte (crc XOR 0xffffffff) data XOR 0xffffffff"

lemma word_byte_index:
  "(w :: u32) AND 0xff = take_bit 8 w" "unat (w AND 0xff) < 256"
  "word_of_nat (unat (w AND 0xff)) = take_bit 8 w"
proof -
  show t: "w AND 0xff = take_bit 8 w" by (simp add: take_bit_eq_mask mask_numeral)
  show "word_of_nat (unat (w AND 0xff)) = take_bit 8 w" by (simp add: t)
  show "unat (w AND 0xff) < 256" unfolding t using take_bit_nat_less_exp [of 8 "unat w"]
    by (simp add: unsigned_take_bit_eq)
qed

lemma kByteExtensionTable_nth:
  "kByteExtensionTable ! unat (w AND 0xff) = crc_bits 8 (take_bit 8 w)"
  using orbit_table_nth [of 0 8 "unat (w AND 0xff)"] word_byte_index [of w]
  by (simp add: kByteExtensionTable_orbit)

lemma stride_tables_nth:
  "kStrideExtensionTable3 ! unat (w AND 0xff) = crc_bits 128 (take_bit 8 w)"
  "kStrideExtensionTable2 ! unat (w AND 0xff) = crc_bits 128 (push_bit 8 (take_bit 8 w))"
  "kStrideExtensionTable1 ! unat (w AND 0xff) = crc_bits 128 (push_bit 16 (take_bit 8 w))"
  "kStrideExtensionTable0 ! unat (w AND 0xff) = crc_bits 128 (push_bit 24 (take_bit 8 w))"
  using orbit_table_nth [of _ 128 "unat (w AND 0xff)"] word_byte_index [of w]
  by (simp_all add: kStrideExtensionTable3_orbit kStrideExtensionTable2_orbit
      kStrideExtensionTable1_orbit kStrideExtensionTable0_orbit)

lemma crc_bits_8_split: "crc_bits 8 w = crc_bits 8 (take_bit 8 w) XOR drop_bit 8 w"
proof -
  have w: "w = take_bit 8 w XOR push_bit 8 (drop_bit 8 w)"
    by (rule bit_word_eqI) (auto simp: bit_simps not_less)
  have "take_bit 8 (push_bit 8 (drop_bit 8 w)) = 0" by (rule bit_word_eqI) (auto simp: bit_simps)
  then have "crc_bits 8 (push_bit 8 (drop_bit 8 w)) = drop_bit 8 (push_bit 8 (drop_bit 8 w))"
    by (rule crc_bits_shift)
  also have "\<dots> = drop_bit 8 w"
    by (rule bit_word_eqI) (auto simp: bit_simps dest: bit_imp_le_length)
  finally show ?thesis by (subst w) (simp only: crc_bits_xor)
qed

lemma STEP4W_byte_eq: "STEP4W_byte w = crc_bits 8 w"
  by (subst crc_bits_8_split) (simp add: STEP4W_byte_def kByteExtensionTable_nth xor.commute)

lemma STEP1_eq: "STEP1 l b = crc_byte l b"
proof -
  have c: "(l AND 0xff) XOR ucast b = (l XOR ucast b) AND 0xff"
    unfolding word_byte_index(1) by (rule bit_word_eqI) (auto simp: bit_simps dest: bit_imp_le_length)
  have d: "drop_bit 8 l = drop_bit 8 (l XOR ucast b)"
    by (rule bit_word_eqI) (auto simp: bit_simps dest: bit_imp_le_length)
  show ?thesis
    unfolding STEP1_def Let_def c kByteExtensionTable_nth crc_byte_def
    by (subst (2) crc_bits_8_split) (simp only: d)
qed

lemma STEP4_eq:
  "STEP4 crc q = ReadUint32LE q XOR crc_bits 128 crc"
proof -
  have e: "drop_bit 24 crc = drop_bit 24 crc AND 0xff"
    unfolding word_byte_index(1) by (rule bit_word_eqI) (auto simp: bit_simps dest: bit_imp_le_length)
  have "crc = take_bit 8 crc XOR push_bit 8 (take_bit 8 (drop_bit 8 crc)) XOR
          push_bit 16 (take_bit 8 (drop_bit 16 crc)) XOR push_bit 24 (take_bit 8 (drop_bit 24 crc))"
    by (rule bit_word_eqI) (auto simp: bit_simps)
  then have "crc_bits 128 crc = crc_bits 128 (take_bit 8 crc) XOR
      crc_bits 128 (push_bit 8 (take_bit 8 (drop_bit 8 crc))) XOR
      crc_bits 128 (push_bit 16 (take_bit 8 (drop_bit 16 crc))) XOR
      crc_bits 128 (push_bit 24 (take_bit 8 (drop_bit 24 crc)))"
    by (metis crc_bits_xor)
  then show ?thesis
    unfolding STEP4_def by (subst e) (simp only: stride_tables_nth xor.assoc)
qed


subsection \<open>The interleaved loops compute the reference\<close>

lemma or_xor_disjoint: "(ucast (b :: byte) :: u32) OR push_bit 8 w = ucast b XOR push_bit 8 w"
  by (rule bit_word_eqI) (auto simp: bit_simps dest: bit_imp_le_length)

lemma foldl_crc_byte_word:
  "length bs \<le> 4 \<Longrightarrow> foldl crc_byte l bs = crc_bits (8 * length bs) (l XOR le_val bs)"
proof (induction bs arbitrary: l)
  case (Cons b bs)
  let ?w = "le_val bs :: u32"
  have t: "take_bit 24 ?w = ?w"
    by (rule take_bit_absorb [OF le_val_bound [OF refl]]) (use Cons.prems in auto)
  have "crc_bits 8 (push_bit 8 ?w) = drop_bit 8 (push_bit 8 ?w)"
    by (rule crc_bits_shift) (rule bit_word_eqI, auto simp: bit_simps)
  also have "\<dots> = take_bit 24 ?w"
    by (rule bit_word_eqI) (auto simp: bit_simps dest: bit_imp_le_length)
  finally have a: "crc_bits 8 (push_bit 8 ?w) = ?w" by (simp only: t)
  have "foldl crc_byte l (b # bs) = crc_bits (8 * length bs) (crc_byte l b XOR ?w)"
    using Cons by simp
  also have "crc_byte l b XOR ?w = crc_bits 8 (l XOR le_val (b # bs))"
    by (simp add: crc_byte_def or_xor_disjoint crc_bits_xor a xor.assoc)
  finally show ?case by (simp add: crc_bits_add add.commute)
qed simp

lemma foldl_crc_byte_4:
  assumes "4 \<le> length p"
  shows "foldl crc_byte l (take 4 p) = crc_bits 32 (l XOR ReadUint32LE p)"
  using assms foldl_crc_byte_word [of "take 4 p" l]
  by (simp add: ReadUint32LE_def DecodeFixed32_le_val)

lemma STEP4W_eq: "STEP4W l w = crc_bits 32 (w XOR l)"
proof -
  have b: "STEP4W_byte = crc_bit ^^ 8" by (rule ext) (rule STEP4W_byte_eq)
  have "STEP4W_byte ^^ 4 = crc_bit ^^ 32" unfolding b funpow_mult by simp
  then show ?thesis by (simp add: STEP4W_def)
qed

lemma combine_rotate_step:
  assumes "4 \<le> length p"
  shows "combine (rotate_step crcs p) = foldl crc_byte (combine crcs) (take 4 p)"
proof -
  obtain c0 c1 c2 c3 where c: "crcs = (c0, c1, c2, c3)" by (cases crcs) auto
  show ?thesis
    by (simp add: c combine_def STEP4W_eq STEP4_eq foldl_crc_byte_4 [OF assms] crc_bits_xor crc_bits_add
        xor.assoc xor.left_commute xor.commute)
qed

lemma STEP16_rotate:
  "STEP16 crcs p =
     rotate_step (rotate_step (rotate_step (rotate_step crcs p) (drop 4 p)) (drop 8 p)) (drop 12 p)"
  by (cases crcs) auto

lemma take_16: "16 \<le> length p \<Longrightarrow>
  take 16 p = take 4 p @ take 4 (drop 4 p) @ take 4 (drop 8 p) @ take 4 (drop 12 p)"
  using take_add [of 4 12 p] take_add [of 4 8 "drop 4 p"] take_add [of 4 4 "drop 8 p"] by simp

lemma combine_STEP16:
  "16 \<le> length p \<Longrightarrow> combine (STEP16 crcs p) = foldl crc_byte (combine crcs) (take 16 p)"
  by (simp add: STEP16_rotate combine_rotate_step take_16)

lemma swath_loop_correct:
  "swath_loop crcs p = (crcs', q) \<Longrightarrow>
   foldl crc_byte (combine crcs) p = foldl crc_byte (combine crcs') q"
proof (induction crcs p rule: swath_loop.induct)
  case (1 crcs p)
  show ?case
  proof (cases "16 \<le> length p")
    case True
    with 1 have "foldl crc_byte (combine (STEP16 crcs p)) (drop 16 p) = foldl crc_byte (combine crcs') q"
      by (simp add: swath_loop.simps [of crcs p])
    with True show ?thesis
      by (simp add: combine_STEP16 flip: foldl_append)
  next
    case False
    with 1 show ?thesis by (simp add: swath_loop.simps [of crcs p])
  qed
qed

lemma word_loop_correct:
  "word_loop crcs p = (crcs', q) \<Longrightarrow>
   foldl crc_byte (combine crcs) p = foldl crc_byte (combine crcs') q"
proof (induction crcs p rule: word_loop.induct)
  case (1 crcs p)
  show ?case
  proof (cases "4 \<le> length p")
    case True
    with 1 have "foldl crc_byte (combine (rotate_step crcs p)) (drop 4 p) = foldl crc_byte (combine crcs') q"
      by (simp add: word_loop.simps [of crcs p])
    with True show ?thesis
      by (simp add: combine_rotate_step flip: foldl_append)
  next
    case False
    with 1 show ?thesis by (simp add: word_loop.simps [of crcs p])
  qed
qed

lemma swaths_correct:
  assumes "16 \<le> length p" "swaths l p = (l', q)"
  shows "foldl crc_byte l p = foldl crc_byte l' q"
proof -
  let ?c = "(ReadUint32LE p XOR l, ReadUint32LE (drop 4 p), ReadUint32LE (drop 8 p), ReadUint32LE (drop 12 p))"
  obtain c1 p1 where s: "swath_loop ?c (drop 16 p) = (c1, p1)" by fastforce
  obtain c2 p2 where w: "word_loop c1 p1 = (c2, p2)" by fastforce
  from assms(2) s w have "l' = combine c2" "q = p2" by (simp_all add: swaths_def Let_def)
  moreover have "foldl crc_byte l p = foldl crc_byte (foldl crc_byte l (take 16 p)) (drop 16 p)"
    by (simp flip: foldl_append)
  moreover have "foldl crc_byte l (take 16 p) = combine ?c"
    using assms(1) by (simp add: take_16 foldl_crc_byte_4 combine_def STEP4W_eq xor.commute)
  ultimately show ?thesis
    using swath_loop_correct [OF s] word_loop_correct [OF w] by simp
qed

lemma STEP1_while_correct:
  "n \<le> length p \<Longrightarrow> STEP1_while n l p = (foldl crc_byte l (take n p), drop n p)"
  by (induction n l p rule: STEP1_while.induct) (auto simp: STEP1_eq)

lemma Extend_at_ref: "Extend_at addr crc data = crc32c_ref crc data"
proof -
  let ?skip = "unat (RoundUp 4 addr - addr)" and ?l = "crc XOR 0xffffffff"
  obtain l p where p: "(if ?skip \<le> length data then STEP1_while ?skip ?l data else (?l, data)) = (l, p)"
    by fastforce
  have "foldl crc_byte ?l data = foldl crc_byte l p"
    using p by (auto simp: STEP1_while_correct simp flip: foldl_append split: if_splits)
  moreover obtain l' q where q: "(if 16 \<le> length p then swaths l p else (l, p)) = (l', q)"
    by fastforce
  moreover have "foldl crc_byte l p = foldl crc_byte l' q"
    using q swaths_correct [of p l l' q] by (auto split: if_splits)
  ultimately show ?thesis
    using p q by (simp add: Extend_at_def CanAccelerateCRC32C_def AcceleratedCRC32C_def kCRC32Xor_def
        crc32c_ref_def STEP1_while_correct)
qed

lemma Extend_at_address: "Extend_at addr crc data = Extend crc data"
  by (simp add: Extend_def Extend_at_ref)

lemma Extend_ref: "Extend crc data = crc32c_ref crc data"
  by (simp add: Extend_def Extend_at_ref)

lemma Extend_append: "Extend crc (a @ b) = Extend (Extend crc a) b"
  by (simp add: Extend_ref crc32c_ref_def xor.assoc)

lemma Value_Extend: "Extend (Value a) b = Value (a @ b)"
  by (simp add: Value_def Extend_append)

lemma Unmask_Mask [simp]: "Unmask (Mask crc) = crc"
proof -
  have "drop_bit 17 (drop_bit 15 crc OR push_bit 17 crc) OR push_bit 15 (drop_bit 15 crc OR push_bit 17 crc) = crc"
    by (rule bit_word_eqI, auto simp: bit_simps dest: bit_imp_le_length)
       (metis le_add_diff_inverse not_less)+
  then show ?thesis by (simp add: Unmask_def Mask_def)
qed

lemma Mask_Unmask: "Mask (Unmask m) = m"
proof -
  have "drop_bit 15 (drop_bit 17 r OR push_bit 15 r) OR push_bit 17 (drop_bit 17 r OR push_bit 15 r) = r"
    for r :: u32
    by (rule bit_word_eqI, auto simp: bit_simps dest: bit_imp_le_length)
       (metis le_add_diff_inverse not_less)+
  then show ?thesis by (simp add: Unmask_def Mask_def Let_def)
qed

subsection \<open>Properties\<close>

text \<open>
  C31: the checksum routine (byte prologue up to a four-byte boundary, four interleaved strides over
  sixteen-byte swaths, the word loop, the recombination and the byte epilogue, all through the five
  tables) computes the bit-serial CRC-32C of the data, whatever address the buffer has.
\<close>

theorem Extend_is_bit_serial:
  "Extend_at addr crc data =
     foldl (\<lambda>c b. (crc_bit ^^ 8) (c XOR ucast b)) (crc XOR 0xffffffff) data XOR 0xffffffff"
  by (simp add: Extend_at_ref crc32c_ref_def crc_byte_def [abs_def])

text \<open>
  The incremental use of the routine by the log and table writers: extending the checksum of a
  string by a second one is the checksum of the concatenation.
\<close>

lemma Extend_concatenation:
  "Extend (Value a) b = Value (a @ b) \<and> Extend (Extend crc a) b = Extend crc (a @ b)"
  by (simp add: Value_Extend Extend_append)

text \<open>
  Masking a stored checksum loses nothing: \<open>Mask\<close> and \<open>Unmask\<close> are inverse bijections.
\<close>

lemma Mask_Unmask_inverse: "Unmask (Mask crc) = crc \<and> Mask (Unmask masked) = masked"
  by (simp add: Mask_Unmask)

end
