(* ===== verification/Comparator.thy ===== *)
theory Comparator
  imports Slice_Status
begin

text \<open>
  \<^verbatim>\<open>include/leveldb/comparator.h\<close> and \<^verbatim>\<open>util/comparator.cc\<close>.  The abstract class is a record of
  its virtual functions, so that the code that calls through a \<open>Comparator*\<close> takes it as an
  argument; \<open>BytewiseComparator\<close> is the built-in instance.  The contract the callers rely on is
  the locale \<open>comparator_contract\<close>.
\<close>

record comparator =
  cmp_Name :: bytes
  cmp_Compare :: "bytes \<Rightarrow> bytes \<Rightarrow> int"
  cmp_FindShortestSeparator :: "bytes \<Rightarrow> bytes \<Rightarrow> bytes"
  cmp_FindShortSuccessor :: "bytes \<Rightarrow> bytes"

subsection \<open>The built-in comparator\<close>

definition BytewiseComparator_Compare :: "bytes \<Rightarrow> bytes \<Rightarrow> int" where
  "BytewiseComparator_Compare a b = Slice_compare a b"

definition BytewiseComparator_FindShortestSeparator :: "bytes \<Rightarrow> bytes \<Rightarrow> bytes" where
  "BytewiseComparator_FindShortestSeparator start limit =
     (let min_length = min (length start) (length limit);
          diff_index = common_prefix start limit
      in if min_length \<le> diff_index then start
         else let diff_byte = start ! diff_index in
           if diff_byte < 0xff \<and> uint diff_byte + 1 < uint (limit ! diff_index)
           then take (diff_index + 1) (start[diff_index := diff_byte + 1])
           else start)"

fun FindShortSuccessor_loop :: "bytes \<Rightarrow> bytes \<Rightarrow> nat \<Rightarrow> bytes" where
  "FindShortSuccessor_loop key [] i = key"
| "FindShortSuccessor_loop key (b # bs) i =
     (if b \<noteq> 0xff then take (i + 1) (key[i := b + 1])
      else FindShortSuccessor_loop key bs (i + 1))"

definition BytewiseComparator_FindShortSuccessor :: "bytes \<Rightarrow> bytes" where
  "BytewiseComparator_FindShortSuccessor key = FindShortSuccessor_loop key key 0"

definition BytewiseComparator :: comparator where
  "BytewiseComparator = \<lparr>
     cmp_Name = lit ''leveldb.BytewiseComparator'',
     cmp_Compare = BytewiseComparator_Compare,
     cmp_FindShortestSeparator = BytewiseComparator_FindShortestSeparator,
     cmp_FindShortSuccessor = BytewiseComparator_FindShortSuccessor\<rparr>"

subsection \<open>The contract of a comparator\<close>

text \<open>
  A total preorder on the keys, and shortened keys that stay where the index blocks need them:
  a separator lies in \<open>[start, limit)\<close>, a successor at or above the key.  Between equal keys
  there is nothing to separate and the start may not grow.
\<close>

locale key_order =
  fixes compare :: "'k \<Rightarrow> 'k \<Rightarrow> int"
    and keys :: "'k \<Rightarrow> bool"
  assumes compare_flip: "keys a \<Longrightarrow> keys b \<Longrightarrow> 0 < compare b a \<longleftrightarrow> compare a b < 0"
    and compare_trans: "keys a \<Longrightarrow> keys b \<Longrightarrow> keys c \<Longrightarrow>
      compare a b \<le> 0 \<Longrightarrow> compare b c \<le> 0 \<Longrightarrow> compare a c \<le> 0"
begin

lemma compare_refl: "keys a \<Longrightarrow> compare a a = 0"
  using compare_flip [of a a] by (cases "compare a a" "0 :: int" rule: linorder_cases) auto

lemma compare_eq_sym: "keys a \<Longrightarrow> keys b \<Longrightarrow> compare b a = 0 \<longleftrightarrow> compare a b = 0"
  using compare_flip [of a b] compare_flip [of b a] by linarith

lemma compare_le_iff: "keys a \<Longrightarrow> keys b \<Longrightarrow> compare b a \<le> 0 \<longleftrightarrow> 0 \<le> compare a b"
  using compare_flip [of a b] by linarith

lemma compare_less_le_trans:
  assumes "keys a" "keys b" "keys c" "compare a b < 0" "compare b c \<le> 0"
  shows "compare a c < 0"
proof (rule ccontr)
  assume "\<not> compare a c < 0"
  then have "compare c a \<le> 0" using assms compare_le_iff by auto
  then have "compare b a \<le> 0" using assms compare_trans by blast
  then show False using assms compare_flip [of a b] by simp
qed

lemma compare_le_less_trans:
  assumes "keys a" "keys b" "keys c" "compare a b \<le> 0" "compare b c < 0"
  shows "compare a c < 0"
proof (rule ccontr)
  assume "\<not> compare a c < 0"
  then have "compare c a \<le> 0" using assms compare_le_iff by auto
  then have "compare c b \<le> 0" using assms compare_trans by blast
  then show False using assms compare_flip [of b c] by simp
qed

lemma compare_less_trans:
  "keys a \<Longrightarrow> keys b \<Longrightarrow> keys c \<Longrightarrow> compare a b < 0 \<Longrightarrow> compare b c < 0 \<Longrightarrow> compare a c < 0"
  using compare_less_le_trans by (meson order_less_imp_le)

lemma compare_eq_trans:
  assumes "keys a" "keys b" "keys c" "compare a b = 0" "compare b c = 0"
  shows "compare a c = 0"
proof (rule antisym)
  show "compare a c \<le> 0" using compare_trans [OF assms(1-3)] assms(4,5) by simp
  have "compare c b = 0" "compare b a = 0" using compare_eq_sym assms by auto
  then have "compare c a \<le> 0" using compare_trans [OF assms(3,2,1)] by simp
  then show "0 \<le> compare a c" using compare_le_iff assms(1,3) by blast
qed

lemma compare_sorted_tail:
  assumes "sorted_wrt (\<lambda>a b. compare a b < 0) (k # ks)" "\<forall>x \<in> set (k # ks). keys x" "keys t"
    "compare t k \<le> 0"
  shows "\<forall>x \<in> set ks. compare t x < 0"
  using assms compare_le_less_trans by fastforce

end

locale comparator_contract = key_order "cmp_Compare c" keys
  for c :: comparator and keys :: "bytes \<Rightarrow> bool" +
  assumes separator_key: "keys start \<Longrightarrow> keys limit \<Longrightarrow> keys (cmp_FindShortestSeparator c start limit)"
    and separator_between: "keys start \<Longrightarrow> keys limit \<Longrightarrow> cmp_Compare c start limit < 0 \<Longrightarrow>
      cmp_Compare c start (cmp_FindShortestSeparator c start limit) \<le> 0 \<and>
      cmp_Compare c (cmp_FindShortestSeparator c start limit) limit < 0"
    and separator_equal: "keys start \<Longrightarrow> keys limit \<Longrightarrow> cmp_Compare c start limit = 0 \<Longrightarrow>
      \<not> cmp_Compare c start (cmp_FindShortestSeparator c start limit) < 0"
    and successor_key: "keys key \<Longrightarrow> keys (cmp_FindShortSuccessor c key)"
    and successor_above: "keys key \<Longrightarrow> cmp_Compare c key (cmp_FindShortSuccessor c key) \<le> 0"

subsection \<open>The built-in comparator meets the contract\<close>

lemma BytewiseComparator_Compare_lex: "BytewiseComparator_Compare a b = lex_cmp a b"
  by (simp add: BytewiseComparator_Compare_def Slice_compare_lex)

lemma lex_cmp_le_trans: "lex_cmp a b \<le> 0 \<Longrightarrow> lex_cmp b c \<le> 0 \<Longrightarrow> lex_cmp a c \<le> 0"
  by (metis lex_cmp_eq_0 lex_cmp_trans order_le_less)

text \<open>The shape of a changed separator: the common prefix and one larger byte.\<close>

lemma FindShortestSeparator_cases:
  obtains "BytewiseComparator_FindShortestSeparator start limit = start"
  | pre a b xs ys where "start = pre @ a # xs" "limit = pre @ b # ys" "uint a + 1 < uint b"
      "BytewiseComparator_FindShortestSeparator start limit = pre @ [a + 1]"
proof -
  let ?i = "common_prefix start limit" and ?s = "BytewiseComparator_FindShortestSeparator start limit"
  show thesis
  proof (cases "?s = start")
    case True
    then show ?thesis by (rule that)
  next
    case False
    then have i: "?i < length start" "?i < length limit"
      and b: "uint (start ! ?i) + 1 < uint (limit ! ?i)"
      and s: "?s = take (?i + 1) (start[?i := start ! ?i + 1])"
      by (auto simp: BytewiseComparator_FindShortestSeparator_def Let_def split: if_splits)
    have "?s = take ?i start @ [start ! ?i + 1]"
      using i by (simp add: s take_Suc_conv_app_nth)
    moreover have "start = take ?i start @ start ! ?i # drop (Suc ?i) start"
      using i by (simp add: id_take_nth_drop)
    moreover have "limit = take ?i start @ limit ! ?i # drop (Suc ?i) limit"
      using i by (subst take_common_prefix) (simp add: id_take_nth_drop)
    ultimately show ?thesis using b by (intro that(2)) auto
  qed
qed

lemma uint_plus_1: "uint (a :: byte) + 1 < 256 \<Longrightarrow> uint (a + 1) = uint a + 1"
  by (simp add: uint_plus_if')

lemma FindShortestSeparator_between:
  assumes "lex_cmp start limit < 0"
  shows "lex_cmp start (BytewiseComparator_FindShortestSeparator start limit) \<le> 0 \<and>
         lex_cmp (BytewiseComparator_FindShortestSeparator start limit) limit < 0"
proof (cases rule: FindShortestSeparator_cases [of start limit])
  case 1
  with assms show ?thesis by simp
next
  case (2 pre a b xs ys)
  have "uint b < 256" using uint_lt2p [of b] by simp
  with 2 have "uint (a + 1) = uint a + 1" by (intro uint_plus_1) simp
  with 2 have "a < a + 1" "a + 1 < b" by (simp_all add: word_less_def)
  with 2 show ?thesis by auto
qed

lemma FindShortestSeparator_not_less:
  assumes "\<not> lex_cmp start limit < 0"
  shows "BytewiseComparator_FindShortestSeparator start limit = start"
proof (cases rule: FindShortestSeparator_cases [of start limit])
  case (2 pre a b xs ys)
  then have "a < b" by (simp add: word_less_def)
  with assms 2 show ?thesis by auto
qed simp

text \<open>The loop as a structural recursion on the key.\<close>

fun short_successor :: "bytes \<Rightarrow> bytes" where
  "short_successor [] = []"
| "short_successor (b # bs) = (if b \<noteq> 0xff then [b + 1] else b # short_successor bs)"

lemma FindShortSuccessor_loop_append:
  "FindShortSuccessor_loop (pre @ bs) bs (length pre) = pre @ short_successor bs"
proof (induction bs arbitrary: pre)
  case (Cons b bs)
  show ?case using Cons [of "pre @ [b]"] by auto
qed simp

lemma FindShortSuccessor_eq: "BytewiseComparator_FindShortSuccessor key = short_successor key"
  using FindShortSuccessor_loop_append [of "[]" key]
  by (simp add: BytewiseComparator_FindShortSuccessor_def)

lemma byte_less_succ: "(b :: byte) \<noteq> 0xff \<Longrightarrow> b < b + 1"
proof -
  assume "b \<noteq> 0xff"
  then have "uint b \<noteq> 255" by (auto simp: word_uint_eq_iff)
  moreover have "uint b < 256" using uint_lt2p [of b] by simp
  ultimately have "uint (b + 1) = uint b + 1" by (intro uint_plus_1) simp
  then show ?thesis by (simp add: word_less_def)
qed

lemma FindShortSuccessor_above: "lex_cmp key (BytewiseComparator_FindShortSuccessor key) \<le> 0"
  unfolding FindShortSuccessor_eq
  by (induction key) (auto dest: byte_less_succ)

lemma length_FindShortSuccessor: "length (BytewiseComparator_FindShortSuccessor key) \<le> length key"
  unfolding FindShortSuccessor_eq by (induction key) auto

lemma length_FindShortestSeparator:
  "length (BytewiseComparator_FindShortestSeparator start limit) \<le> length start"
  by (cases rule: FindShortestSeparator_cases [of start limit]) auto

lemmas BytewiseComparator_sel =
  BytewiseComparator_def BytewiseComparator_Compare_lex

interpretation bytewise: comparator_contract BytewiseComparator "\<lambda>_. True"
proof unfold_locales
  fix a b :: bytes
  show "0 < cmp_Compare BytewiseComparator b a \<longleftrightarrow> cmp_Compare BytewiseComparator a b < 0"
    by (simp add: BytewiseComparator_sel lex_cmp_anti [of b a])
qed (auto simp: BytewiseComparator_sel FindShortestSeparator_between FindShortestSeparator_not_less
    FindShortSuccessor_above elim: lex_cmp_le_trans)

end
