(* ===== verification/Bloom.thy ===== *)
theory Bloom
  imports Coding Slice_Status
begin

text \<open>
  \<^verbatim>\<open>util/hash.cc\<close>, \<^verbatim>\<open>util/bloom.cc\<close> and the interface \<^verbatim>\<open>include/leveldb/filter_policy.h\<close>.
  \<open>CreateFilter\<close> appends to \<open>*dst\<close>, so it maps the old string to the new one.
\<close>

subsection \<open>The hash function\<close>

definition hash_m :: u32 where
  "hash_m = 0xc6a4a793"

text \<open>The loop over whole words: the hash so far and the bytes left.\<close>

fun Hash_loop :: "u32 \<Rightarrow> bytes \<Rightarrow> u32 \<times> bytes" where
  "Hash_loop h (b0 # b1 # b2 # b3 # data) =
     (let w = DecodeFixed32 [b0, b1, b2, b3];
          h = h + w;
          h = h * hash_m;
          h = h XOR drop_bit 16 h
      in Hash_loop h data)"
| "Hash_loop h data = (h, data)"

text \<open>The \<open>switch\<close> with its fall-through cases.\<close>

definition Hash_tail :: "u32 \<Rightarrow> bytes \<Rightarrow> u32" where
  "Hash_tail h data =
     (let h = (if length data = 3 then h + push_bit 16 (ucast (data ! 2)) else h);
          h = (if length data = 3 \<or> length data = 2 then h + push_bit 8 (ucast (data ! 1)) else h)
      in if length data = 3 \<or> length data = 2 \<or> length data = 1 then
           let h = h + ucast (data ! 0);
               h = h * hash_m
           in h XOR drop_bit 24 h
         else h)"

definition Hash :: "bytes \<Rightarrow> u32 \<Rightarrow> u32" where
  "Hash data seed =
     (let h = seed XOR (word_of_nat (length data) * hash_m);
          (h, rest) = Hash_loop h data
      in Hash_tail h rest)"

subsection \<open>The interface of filter policies\<close>

record filter_policy =
  fp_Name :: bytes
  fp_CreateFilter :: "bytes list \<Rightarrow> bytes \<Rightarrow> bytes"
  fp_KeyMayMatch :: "bytes \<Rightarrow> bytes \<Rightarrow> bool"

text \<open>
  The documented contract: the filter is appended to \<open>*dst\<close>, and every key it was made from
  matches it.
\<close>

locale filter_policy_contract =
  fixes p :: filter_policy and keys_ok :: "bytes list \<Rightarrow> bool"
  assumes create_extends: "\<exists>f. fp_CreateFilter p keys dst = dst @ f"
    and no_false_negative: "keys_ok keys \<Longrightarrow> key \<in> set keys \<Longrightarrow>
      fp_CreateFilter p keys dst = dst @ f \<Longrightarrow> fp_KeyMayMatch p key f"
begin

lemma length_create: "length dst \<le> length (fp_CreateFilter p keys dst)"
  using create_extends [of keys dst] by auto

lemma take_create: "take (length dst) (fp_CreateFilter p keys dst) = dst"
  using create_extends [of keys dst] by auto

lemma match_created:
  "keys_ok keys \<Longrightarrow> key \<in> set keys \<Longrightarrow>
   fp_KeyMayMatch p key (drop (length dst) (fp_CreateFilter p keys dst))"
  using create_extends [of keys dst] no_false_negative [of keys key dst] by auto

end

subsection \<open>The Bloom filter\<close>

definition BloomHash :: "bytes \<Rightarrow> u32" where
  "BloomHash key = Hash key 0xbc9f1d34"

text \<open>
  The constructor's \<open>k_\<close> for a \<open>bits_per_key\<close> that is not negative.  The product with the
  double \<open>0.69\<close> is rounded down; below the clamp at 30 it is the floor of the exact product,
  which is an integer for no argument from 1 to 44.
\<close>

definition bloom_k :: "nat \<Rightarrow> nat" where
  "bloom_k bits_per_key =
     (let k = bits_per_key * 69 div 100;
          k = (if k < 1 then 1 else k)
      in if 30 < k then 30 else k)"

definition bloom_delta :: "u32 \<Rightarrow> u32" where
  "bloom_delta h = (drop_bit 17 h OR push_bit 15 h)"

fun add_probes :: "nat \<Rightarrow> nat \<Rightarrow> u32 \<Rightarrow> u32 \<Rightarrow> bytes \<Rightarrow> bytes" where
  "add_probes 0 bits delta h array = array"
| "add_probes (Suc j) bits delta h array =
     (let bitpos = unat h mod bits
      in add_probes j bits delta (h + delta)
           (array[bitpos div 8 := array ! (bitpos div 8) OR push_bit (bitpos mod 8) 1]))"

fun add_keys :: "nat \<Rightarrow> nat \<Rightarrow> bytes list \<Rightarrow> bytes \<Rightarrow> bytes" where
  "add_keys k bits [] array = array"
| "add_keys k bits (key # keys) array =
     (let h = BloomHash key; delta = bloom_delta h
      in add_keys k bits keys (add_probes k bits delta h array))"

text \<open>The filter has \<open>max (n * bits_per_key) 64\<close> bits rounded up to bytes, and one byte for \<open>k_\<close>.\<close>

definition Bloom_CreateFilter :: "nat \<Rightarrow> bytes list \<Rightarrow> bytes \<Rightarrow> bytes" where
  "Bloom_CreateFilter bits_per_key keys dst =
     (let bits = length keys * bits_per_key;
          bits = (if bits < 64 then 64 else bits);
          bytes = (bits + 7) div 8;
          bits = bytes * 8;
          k = bloom_k bits_per_key
      in dst @ add_keys k bits keys (replicate bytes 0) @ [word_of_nat k])"

fun test_probes :: "nat \<Rightarrow> nat \<Rightarrow> u32 \<Rightarrow> u32 \<Rightarrow> bytes \<Rightarrow> bool" where
  "test_probes 0 bits delta h array \<longleftrightarrow> True"
| "test_probes (Suc j) bits delta h array \<longleftrightarrow>
     (let bitpos = unat h mod bits
      in if array ! (bitpos div 8) AND push_bit (bitpos mod 8) 1 = 0 then False
         else test_probes j bits delta (h + delta) array)"

definition Bloom_KeyMayMatch :: "bytes \<Rightarrow> bytes \<Rightarrow> bool" where
  "Bloom_KeyMayMatch key bloom_filter =
     (let len = length bloom_filter
      in if len < 2 then False
         else let bits = (len - 1) * 8;
                  k = unat (bloom_filter ! (len - 1))
           in if 30 < k then True
              else let h = BloomHash key; delta = bloom_delta h
                in test_probes k bits delta h bloom_filter)"

definition BloomFilterPolicy :: "nat \<Rightarrow> filter_policy" where
  "BloomFilterPolicy bits_per_key = \<lparr>
     fp_Name = lit ''leveldb.BuiltinBloomFilter2'',
     fp_CreateFilter = Bloom_CreateFilter bits_per_key,
     fp_KeyMayMatch = Bloom_KeyMayMatch\<rparr>"

subsection \<open>No false negatives\<close>

text \<open>The bits set in an array; probing only adds bits.\<close>

definition bit_set :: "bytes \<Rightarrow> nat \<Rightarrow> bool" where
  "bit_set array pos \<longleftrightarrow> bit (array ! (pos div 8)) (pos mod 8)"

lemma test_bit_set: "array ! (pos div 8) AND 2 ^ (pos mod 8) = 0 \<longleftrightarrow> \<not> bit_set array pos"
  by (simp add: and_exp_eq_0_iff_not_bit bit_set_def)

lemma length_add_probes [simp]: "length (add_probes k bits delta h array) = length array"
  by (induction k arbitrary: h array) (auto simp: Let_def)

lemma length_add_keys [simp]: "length (add_keys k bits keys array) = length array"
  by (induction keys arbitrary: array) (auto simp: Let_def)

lemma bit_set_update:
  assumes "q < 8 * length array"
  shows "bit_set (array[q div 8 := array ! (q div 8) OR 2 ^ (q mod 8)]) pos \<longleftrightarrow>
           bit_set array pos \<or> pos = q"
proof -
  have "bit (array ! (q div 8) OR 2 ^ (q mod 8)) i \<longleftrightarrow> bit (array ! (q div 8)) i \<or> i = q mod 8" for i
    by (auto simp: bit_simps dest: bit_imp_le_length)
  moreover have "pos = q \<longleftrightarrow> pos div 8 = q div 8 \<and> pos mod 8 = q mod 8"
    by (metis div_mult_mod_eq)
  moreover have "q div 8 < length array" using assms by (simp add: less_mult_imp_div_less mult.commute)
  ultimately show ?thesis by (auto simp: bit_set_def nth_list_update)
qed

lemma add_probes_mono:
  "0 < bits \<Longrightarrow> bits \<le> 8 * length array \<Longrightarrow> bit_set array pos \<Longrightarrow>
   bit_set (add_probes k bits delta h array) pos"
proof (induction k arbitrary: h array)
  case (Suc k)
  have "unat h mod bits < 8 * length array"
    using Suc.prems mod_less_divisor [of bits "unat h"] by linarith
  with Suc show ?case by (simp add: Let_def bit_set_update)
qed simp

lemma add_keys_mono:
  "0 < bits \<Longrightarrow> bits \<le> 8 * length array \<Longrightarrow> bit_set array pos \<Longrightarrow>
   bit_set (add_keys k bits keys array) pos"
  by (induction keys arbitrary: array) (auto simp: Let_def add_probes_mono)

lemma test_probes_add:
  assumes "0 < bits" "bits \<le> 8 * length array"
    and "\<And>pos. bit_set (add_probes k bits delta h array) pos \<Longrightarrow> bit_set flt pos"
  shows "test_probes k bits delta h flt"
  using assms
proof (induction k arbitrary: h array)
  case (Suc k)
  let ?q = "unat h mod bits"
  let ?a = "array[?q div 8 := array ! (?q div 8) OR 2 ^ (?q mod 8)]"
  have q: "?q < 8 * length array"
    using Suc.prems mod_less_divisor [of bits "unat h"] by linarith
  have "bit_set ?a ?q" using q by (simp add: bit_set_update)
  then have "bit_set (add_probes k bits delta (h + delta) ?a) ?q"
    using Suc.prems by (intro add_probes_mono) auto
  then have "bit_set flt ?q" using Suc.prems(3) by (simp add: Let_def)
  moreover have "test_probes k bits delta (h + delta) flt"
    by (rule Suc.IH [where array = ?a]) (use Suc.prems in \<open>auto simp: Let_def\<close>)
  ultimately show ?case by (simp add: Let_def test_bit_set)
qed simp

lemma test_probes_append:
  assumes "0 < bits" "bits \<le> 8 * length array"
  shows "test_probes k bits delta h (array @ rest) = test_probes k bits delta h array"
proof (induction k arbitrary: h)
  case (Suc k)
  have "unat h mod bits < 8 * length array"
    using assms mod_less_divisor [of bits "unat h"] by linarith
  then have "unat h mod bits div 8 < length array" by (simp add: less_mult_imp_div_less mult.commute)
  with Suc show ?case by (simp add: Let_def nth_append)
qed simp

lemma test_probes_add_keys:
  assumes "0 < bits" "bits \<le> 8 * length array" "key \<in> set keys"
  shows "test_probes k bits (bloom_delta (BloomHash key)) (BloomHash key) (add_keys k bits keys array)"
  using assms
proof (induction keys arbitrary: array)
  case (Cons x keys)
  show ?case
  proof (cases "key = x")
    case True
    have "test_probes k bits (bloom_delta (BloomHash x)) (BloomHash x) (add_keys k bits (x # keys) array)"
      by (rule test_probes_add [of bits array]) (use Cons.prems in \<open>auto simp: Let_def add_keys_mono\<close>)
    with True show ?thesis by simp
  next
    case False
    with Cons show ?thesis by (simp add: Let_def)
  qed
qed simp

lemma bloom_k_range: "1 \<le> bloom_k b" "bloom_k b \<le> 30"
  by (auto simp: bloom_k_def Let_def)

lemma Bloom_no_false_negative:
  assumes "key \<in> set keys" "Bloom_CreateFilter b keys dst = dst @ f"
  shows "Bloom_KeyMayMatch key f"
proof -
  define bits where "bits = max 64 (length keys * b)"
  define n where "n = (bits + 7) div 8"
  let ?a = "add_keys (bloom_k b) (n * 8) keys (replicate n 0)"
  have "(if length keys * b < 64 then 64 else length keys * b) = bits"
    by (simp add: bits_def)
  then have f: "f = ?a @ [word_of_nat (bloom_k b)]"
    using assms(2) by (simp only: Bloom_CreateFilter_def Let_def n_def same_append_eq)
  have n: "0 < n" by (auto simp: n_def bits_def)
  have k: "unat (word_of_nat (bloom_k b) :: byte) = bloom_k b"
    using bloom_k_range [of b] by (intro unat_of_nat_small) simp
  have "test_probes (bloom_k b) (n * 8) (bloom_delta (BloomHash key)) (BloomHash key) ?a"
    by (rule test_probes_add_keys) (use n assms(1) in auto)
  then have "test_probes (bloom_k b) (n * 8) (bloom_delta (BloomHash key)) (BloomHash key) f"
    using n by (simp add: f test_probes_append)
  then show ?thesis
    using n k bloom_k_range [of b] by (simp add: Bloom_KeyMayMatch_def Let_def f nth_append)
qed

interpretation bloom: filter_policy_contract "BloomFilterPolicy b" "\<lambda>_. True" for b
  by unfold_locales
     (auto simp: BloomFilterPolicy_def Bloom_CreateFilter_def Let_def intro: Bloom_no_false_negative)

subsection \<open>Properties\<close>

text \<open>
  C34: a Bloom filter has no false negatives: every key the filter was created from matches it,
  for every number of bits per key, every list of keys and whatever \<open>*dst\<close> held before.
\<close>

theorem Bloom_filter_matches_its_keys:
  assumes "key \<in> set keys"
  shows "fp_KeyMayMatch (BloomFilterPolicy bits_per_key) key
           (drop (length dst) (fp_CreateFilter (BloomFilterPolicy bits_per_key) keys dst))"
  using assms by (rule bloom.match_created [OF TrueI])

theorem Bloom_filter_matches_its_keys_witness:
  "fp_KeyMayMatch (BloomFilterPolicy 10) [1, 2]
     (drop 1 (fp_CreateFilter (BloomFilterPolicy 10) [[7], [1, 2]] [0]))"
  using Bloom_filter_matches_its_keys [of "[1, 2]" "[[7], [1, 2]]" 10 "[0]"] by simp

end
