(* ===== verification/Logging.thy ===== *)
theory Logging
  imports Slice_Status
begin

text \<open>
  \<^verbatim>\<open>util/logging.cc\<close>: decimal numbers written and read, and escaped strings.
  \<open>ConsumeDecimalNumber\<close> returns its result, the value stored through \<open>val\<close> (if any) and the
  new \<open>*in\<close>.
\<close>

definition AppendNumberTo :: "bytes \<Rightarrow> u64 \<Rightarrow> bytes" where
  "AppendNumberTo str num = str @ decimal (unat num)"

definition NumberToString :: "u64 \<Rightarrow> bytes" where
  "NumberToString num = AppendNumberTo [] num"

definition escape_byte :: "byte \<Rightarrow> bytes" where
  "escape_byte c =
     (if 0x20 \<le> c \<and> c \<le> 0x7e then [c]
      else [0x5c, 0x78, hex_digit (unat c div 16), hex_digit (unat c mod 16)])"

fun AppendEscapedStringTo :: "bytes \<Rightarrow> bytes \<Rightarrow> bytes" where
  "AppendEscapedStringTo str [] = str"
| "AppendEscapedStringTo str (c # value) = AppendEscapedStringTo (str @ escape_byte c) value"

definition EscapeString :: "bytes \<Rightarrow> bytes" where
  "EscapeString value = AppendEscapedStringTo [] value"

definition kMaxUint64 :: u64 where
  "kMaxUint64 = - 1"

definition kLastDigitOfMaxUint64 :: byte where
  "kLastDigitOfMaxUint64 = 48 + ucast (kMaxUint64 mod 10)"

text \<open>The scanning loop: \<open>None\<close> on overflow, otherwise the value and the bytes from \<open>current\<close> on.\<close>

fun ConsumeDecimalNumber_loop :: "u64 \<Rightarrow> bytes \<Rightarrow> (u64 \<times> bytes) option" where
  "ConsumeDecimalNumber_loop value [] = Some (value, [])"
| "ConsumeDecimalNumber_loop value (ch # current) =
     (if ch < 48 \<or> 57 < ch then Some (value, ch # current)
      else if kMaxUint64 div 10 < value \<or> (value = kMaxUint64 div 10 \<and> kLastDigitOfMaxUint64 < ch)
      then None
      else ConsumeDecimalNumber_loop (value * 10 + (ucast ch - 48)) current)"

definition ConsumeDecimalNumber :: "bytes \<Rightarrow> bool \<times> u64 option \<times> bytes" where
  "ConsumeDecimalNumber input =
     (case ConsumeDecimalNumber_loop 0 input of
        None \<Rightarrow> (False, None, input)
      | Some (value, current) \<Rightarrow>
          let digits_consumed = length input - length current
          in (digits_consumed \<noteq> 0, Some value, drop digits_consumed input))"

subsection \<open>Decimal numbers\<close>

definition digit_byte :: "nat \<Rightarrow> byte" where
  "digit_byte d = 48 + word_of_nat d"

definition num_of :: "nat \<Rightarrow> nat list \<Rightarrow> nat" where
  "num_of v ds = foldl (\<lambda>a d. a * 10 + d) v ds"

lemma num_of_simps [simp]:
  "num_of v [] = v" "num_of v (d # ds) = num_of (v * 10 + d) ds"
  "num_of v (ds @ es) = num_of (num_of v ds) es"
  by (simp_all add: num_of_def)

fun digits :: "nat \<Rightarrow> nat list" where
  "digits n = (if n < 10 then [n] else digits (n div 10) @ [n mod 10])"

declare digits.simps [simp del]

lemma digits_less_10: "d \<in> set (digits n) \<Longrightarrow> d < 10"
proof (induction n rule: digits.induct)
  case (1 n)
  then show ?case by (subst (asm) (2) digits.simps) (auto split: if_splits)
qed

lemma num_of_digits: "num_of 0 (digits n) = n"
proof (induction n rule: digits.induct)
  case (1 n)
  then show ?case by (subst digits.simps) (simp add: mult.commute)
qed

lemma digits_not_Nil [simp]: "digits n \<noteq> []"
  by (subst digits.simps) simp

lemma decimal_digits: "decimal n = map digit_byte (digits n)"
proof (induction n rule: digits.induct)
  case (1 n)
  then show ?case by (subst digits.simps, subst decimal.simps) (simp add: digit_byte_def)
qed

lemma decimal_06_digits:
  "decimal_06 n = map digit_byte (replicate (6 - length (digits n)) 0 @ digits n)"
  by (simp add: decimal_06_def decimal_digits digit_byte_def)

lemma digit_byte_props:
  assumes "d < 10"
  shows "unat (digit_byte d) = 48 + d" "\<not> digit_byte d < 48" "\<not> 57 < digit_byte d"
    "ucast (digit_byte d) - 48 = (word_of_nat d :: u64)"
proof -
  have "digit_byte d = word_of_nat (48 + d)" by (simp add: digit_byte_def)
  moreover have "unat (word_of_nat (48 + d) :: byte) = 48 + d"
    using assms by (intro unat_of_nat_small) simp
  ultimately show u: "unat (digit_byte d) = 48 + d" by simp
  show "\<not> digit_byte d < 48" "\<not> 57 < digit_byte d"
    using assms by (simp_all add: word_less_nat_alt u)
  have "(ucast (digit_byte d) :: u64) = word_of_nat (unat (digit_byte d))" by simp
  then show "ucast (digit_byte d) - 48 = (word_of_nat d :: u64)" by (simp add: u)
qed

lemma overflow_check:
  assumes "d < 10"
  shows "kMaxUint64 div 10 < v \<or> (v = kMaxUint64 div 10 \<and> kLastDigitOfMaxUint64 < digit_byte d) \<longleftrightarrow>
           2 ^ 64 \<le> unat v * 10 + d"
proof -
  have k: "unat (kMaxUint64 div 10) = 1844674407370955161"
    by (simp add: kMaxUint64_def unat_div)
  have l: "unat kLastDigitOfMaxUint64 = 53"
    by (simp add: kLastDigitOfMaxUint64_def kMaxUint64_def)
  have "v = kMaxUint64 div 10 \<longleftrightarrow> unat v = 1844674407370955161"
    using k by (metis word_unat_eq_iff)
  then show ?thesis
    using assms by (simp add: word_less_nat_alt k l digit_byte_props) arith
qed

lemma num_of_ge: "v \<le> num_of v ds"
  by (induction ds arbitrary: v) (auto, metis (no_types) add_leD1 le_trans mult.commute mult_le_mono2 numeral_One one_le_numeral mult.right_neutral)

lemma ConsumeDecimalNumber_loop_digits:
  assumes "\<forall>d \<in> set ds. d < 10" "rest = [] \<or> hd rest < 48 \<or> 57 < hd rest"
  shows "ConsumeDecimalNumber_loop v (map digit_byte ds @ rest) =
           (if num_of (unat v) ds < 2 ^ 64 then Some (word_of_nat (num_of (unat v) ds), rest) else None)"
  using assms(1)
proof (induction ds arbitrary: v)
  case Nil
  then show ?case using assms(2) unat_u64_less [of v] by (cases rest) auto
next
  case (Cons d ds)
  then have d: "d < 10" by simp
  show ?case
  proof (cases "2 ^ 64 \<le> unat v * 10 + d")
    case True
    then have "\<not> num_of (unat v * 10 + d) ds < 2 ^ 64"
      using num_of_ge [of "unat v * 10 + d" ds] by linarith
    with True d show ?thesis by (simp add: overflow_check digit_byte_props)
  next
    case False
    then have "unat (word_of_nat (unat v * 10 + d) :: u64) = unat v * 10 + d"
      by (intro unat_of_nat_small) simp
    then have "unat (v * 10 + word_of_nat d) = unat v * 10 + d" by simp
    with False d Cons show ?thesis by (simp add: overflow_check digit_byte_props)
  qed
qed

lemma ConsumeDecimalNumber_digits:
  assumes "ds \<noteq> []" "\<forall>d \<in> set ds. d < 10" "rest = [] \<or> hd rest < 48 \<or> 57 < hd rest"
  shows "ConsumeDecimalNumber (map digit_byte ds @ rest) =
           (if num_of 0 ds < 2 ^ 64 then (True, Some (word_of_nat (num_of 0 ds)), rest)
            else (False, None, map digit_byte ds @ rest))"
  using ConsumeDecimalNumber_loop_digits [OF assms(2,3), of 0] assms(1)
  by (simp add: ConsumeDecimalNumber_def)

lemma ConsumeDecimalNumber_decimal:
  assumes "rest = [] \<or> hd rest < 48 \<or> 57 < hd rest"
  shows "ConsumeDecimalNumber (decimal (unat n) @ rest) = (True, Some n, rest)"
    and "ConsumeDecimalNumber (decimal_06 (unat n) @ rest) = (True, Some n, rest)"
proof -
  have z: "num_of 0 (replicate k 0 @ ds) = num_of 0 ds" for k ds
    by (induction k) auto
  show "ConsumeDecimalNumber (decimal (unat n) @ rest) = (True, Some n, rest)"
    using ConsumeDecimalNumber_digits [of "digits (unat n)" rest] assms unat_u64_less [of n]
    by (simp add: decimal_digits num_of_digits digits_less_10)
  show "ConsumeDecimalNumber (decimal_06 (unat n) @ rest) = (True, Some n, rest)"
    using ConsumeDecimalNumber_digits [of "replicate (6 - length (digits (unat n))) 0 @ digits (unat n)" rest]
      assms unat_u64_less [of n] z [of _ "digits (unat n)"]
    by (simp add: decimal_06_digits num_of_digits digits_less_10 ball_Un del: map_append num_of_simps(3))
qed

lemma AppendEscapedStringTo_concat:
  "AppendEscapedStringTo str value = str @ concat (map escape_byte value)"
  by (induction str "value" rule: AppendEscapedStringTo.induct) auto

subsection \<open>Properties\<close>

text \<open>
  Reading a run of digits is exact: the number is returned when it fits in 64 bits, with the rest
  of the input, and the parse fails with the input left alone exactly when it does not; a printed
  number reads back as itself.
\<close>

lemma ConsumeDecimalNumber_exact:
  assumes "ds \<noteq> []" "\<forall>d \<in> set ds. d < 10" "rest = [] \<or> hd rest < 48 \<or> 57 < hd rest"
  shows "ConsumeDecimalNumber (map digit_byte ds @ rest) =
           (if num_of 0 ds < 2 ^ 64 then (True, Some (word_of_nat (num_of 0 ds)), rest)
            else (False, None, map digit_byte ds @ rest)) \<and>
         ConsumeDecimalNumber (NumberToString n @ rest) = (True, Some n, rest)"
  using ConsumeDecimalNumber_digits [OF assms] ConsumeDecimalNumber_decimal(1) [OF assms(3)]
  by (simp add: NumberToString_def AppendNumberTo_def)

lemma ConsumeDecimalNumber_exact_witness:
  "ConsumeDecimalNumber (map digit_byte [4, 2] @ [46]) = (True, Some 42, [46])"
  using ConsumeDecimalNumber_exact [of "[4, 2]" "[46]"] by simp

end
