(* ===== verification/Filename.thy ===== *)
theory Filename
  imports Logging
begin

text \<open>
  \<^verbatim>\<open>db/filename.cc\<close>: the names of the files of a database, made and parsed.
\<close>

datatype FileType =
  kLogFile | kDBLockFile | kTableFile | kDescriptorFile | kCurrentFile | kTempFile | kInfoLogFile

definition MakeFileName :: "bytes \<Rightarrow> u64 \<Rightarrow> bytes \<Rightarrow> bytes" where
  "MakeFileName dbname number suffix =
     dbname @ take 99 (lit ''/'' @ decimal_06 (unat number) @ lit ''.'' @ suffix)"

definition LogFileName :: "bytes \<Rightarrow> u64 \<Rightarrow> bytes" where
  "LogFileName dbname number = MakeFileName dbname number (lit ''log'')"

definition TableFileName :: "bytes \<Rightarrow> u64 \<Rightarrow> bytes" where
  "TableFileName dbname number = MakeFileName dbname number (lit ''ldb'')"

definition SSTTableFileName :: "bytes \<Rightarrow> u64 \<Rightarrow> bytes" where
  "SSTTableFileName dbname number = MakeFileName dbname number (lit ''sst'')"

definition DescriptorFileName :: "bytes \<Rightarrow> u64 \<Rightarrow> bytes" where
  "DescriptorFileName dbname number =
     dbname @ take 99 (lit ''/MANIFEST-'' @ decimal_06 (unat number))"

definition CurrentFileName :: "bytes \<Rightarrow> bytes" where
  "CurrentFileName dbname = dbname @ lit ''/CURRENT''"

definition LockFileName :: "bytes \<Rightarrow> bytes" where
  "LockFileName dbname = dbname @ lit ''/LOCK''"

definition TempFileName :: "bytes \<Rightarrow> u64 \<Rightarrow> bytes" where
  "TempFileName dbname number = MakeFileName dbname number (lit ''dbtmp'')"

definition InfoLogFileName :: "bytes \<Rightarrow> bytes" where
  "InfoLogFileName dbname = dbname @ lit ''/LOG''"

definition OldInfoLogFileName :: "bytes \<Rightarrow> bytes" where
  "OldInfoLogFileName dbname = dbname @ lit ''/LOG.old''"

definition ParseFileName :: "bytes \<Rightarrow> (u64 \<times> FileType) option" where
  "ParseFileName filename =
     (let rest = filename in
      if Slice_eq rest (lit ''CURRENT'') then Some (0, kCurrentFile)
      else if Slice_eq rest (lit ''LOCK'') then Some (0, kDBLockFile)
      else if Slice_eq rest (lit ''LOG'') \<or> Slice_eq rest (lit ''LOG.old'') then Some (0, kInfoLogFile)
      else if Slice_starts_with rest (lit ''MANIFEST-'') then
        let rest = Slice_remove_prefix rest (length ''MANIFEST-'') in
        (case ConsumeDecimalNumber rest of
           (True, Some num, rest) \<Rightarrow> if rest \<noteq> [] then None else Some (num, kDescriptorFile)
         | _ \<Rightarrow> None)
      else
        (case ConsumeDecimalNumber rest of
           (True, Some num, suffix) \<Rightarrow>
             if Slice_eq suffix (lit ''.log'') then Some (num, kLogFile)
             else if Slice_eq suffix (lit ''.sst'') \<or> Slice_eq suffix (lit ''.ldb'') then Some (num, kTableFile)
             else if Slice_eq suffix (lit ''.dbtmp'') then Some (num, kTempFile)
             else None
         | _ \<Rightarrow> None))"

subsection \<open>Names parse back\<close>

text \<open>The bytes after \<open>dbname/\<close>, which a directory listing returns.\<close>

definition base_name :: "bytes \<Rightarrow> bytes \<Rightarrow> bytes" where
  "base_name dbname path = drop (length dbname + 1) path"

lemma length_digits_le: "n < 10 ^ Suc k \<Longrightarrow> length (digits n) \<le> Suc k"
proof (induction k arbitrary: n)
  case 0
  then show ?case by (subst digits.simps) simp
next
  case (Suc k)
  then have "n div 10 < 10 ^ Suc k" by (simp add: less_mult_imp_div_less mult.commute)
  from Suc.IH [OF this] show ?case by (subst digits.simps) simp
qed

lemma length_decimal_06: "length (decimal_06 (unat (n :: u64))) \<le> 20"
proof -
  have "unat n < 10 ^ Suc 19" using unat_u64_less [of n] by simp
  then have "length (digits (unat n)) \<le> 20" using length_digits_le by fastforce
  then show ?thesis by (simp add: decimal_06_digits)
qed

lemma MakeFileName_base:
  "length suffix \<le> 60 \<Longrightarrow>
   base_name dbname (MakeFileName dbname number suffix) = decimal_06 (unat number) @ lit ''.'' @ suffix"
  using length_decimal_06 [of number]
  by (simp add: MakeFileName_def base_name_def)

lemma DescriptorFileName_base:
  "base_name dbname (DescriptorFileName dbname number) = lit ''MANIFEST-'' @ decimal_06 (unat number)"
  using length_decimal_06 [of number]
  by (simp add: DescriptorFileName_def base_name_def)

lemma byte_of_char_num: "byte_of_char c = word_of_nat (of_char c)"
  by (simp add: byte_of_char_def)

lemma decimal_06_hd:
  obtains d ds where "decimal_06 n = digit_byte d # ds" "d < 10"
proof -
  let ?l = "replicate (6 - length (digits n)) 0 @ digits n"
  obtain d l where l: "?l = d # l" by (cases ?l) auto
  have "\<forall>x \<in> set ?l. x < 10" using digits_less_10 by auto
  then have "d < 10" using l by auto
  then show thesis using that l by (simp add: decimal_06_digits)
qed

lemma letter_not_digit:
  "c \<in> {CHR ''C'', CHR ''L'', CHR ''M''} \<Longrightarrow> d < 10 \<Longrightarrow> digit_byte d \<noteq> byte_of_char c"
  using digit_byte_props(1) [of d] by (auto dest!: arg_cong [of _ _ unat])

lemma ParseFileName_number:
  "ParseFileName (decimal_06 (unat n) @ lit ''.'' @ suffix) =
     (if suffix = lit ''log'' then Some (n, kLogFile)
      else if suffix = lit ''sst'' \<or> suffix = lit ''ldb'' then Some (n, kTableFile)
      else if suffix = lit ''dbtmp'' then Some (n, kTempFile) else None)"
proof -
  have dot: "byte_of_char CHR ''.'' < 48" by (simp add: word_less_nat_alt)
  obtain d ds where d: "decimal_06 (unat n) = digit_byte d # ds" "d < 10"
    by (rule decimal_06_hd)
  have "ConsumeDecimalNumber (decimal_06 (unat n) @ lit ''.'' @ suffix) = (True, Some n, lit ''.'' @ suffix)"
    by (rule ConsumeDecimalNumber_decimal) (simp add: dot)
  moreover have "\<not> Slice_starts_with (decimal_06 (unat n) @ lit ''.'' @ suffix) (lit ''MANIFEST-'')"
    using d letter_not_digit [of "CHR ''M''" d] by (simp add: Slice_starts_with_iff)
  ultimately show ?thesis
    using d letter_not_digit [of _ d] by (simp add: ParseFileName_def Let_def)
qed

lemma ParseFileName_manifest:
  "ParseFileName (lit ''MANIFEST-'' @ decimal_06 (unat n)) = Some (n, kDescriptorFile)"
  using ConsumeDecimalNumber_decimal(2) [of "[]" n]
  by (simp add: ParseFileName_def Let_def Slice_starts_with_iff Slice_remove_prefix_def)

subsection \<open>Properties\<close>

text \<open>
  Every file name the database makes parses back, without its directory, to its number and its
  type: logs, tables in both spellings, temporary files and descriptors, for every 64-bit number.
\<close>

lemma file_names_parse_back:
  "ParseFileName (base_name dbname (LogFileName dbname n)) = Some (n, kLogFile) \<and>
   ParseFileName (base_name dbname (TableFileName dbname n)) = Some (n, kTableFile) \<and>
   ParseFileName (base_name dbname (SSTTableFileName dbname n)) = Some (n, kTableFile) \<and>
   ParseFileName (base_name dbname (TempFileName dbname n)) = Some (n, kTempFile) \<and>
   ParseFileName (base_name dbname (DescriptorFileName dbname n)) = Some (n, kDescriptorFile) \<and>
   ParseFileName (base_name dbname (CurrentFileName dbname)) = Some (0, kCurrentFile)"
proof -
  have "ParseFileName (lit ''CURRENT'') = Some (0, kCurrentFile)"
    by (simp add: ParseFileName_def Let_def)
  moreover have "base_name dbname (CurrentFileName dbname) = lit ''CURRENT''"
    by (simp add: CurrentFileName_def base_name_def)
  ultimately show ?thesis
    by (simp only: LogFileName_def TableFileName_def SSTTableFileName_def TempFileName_def
        DescriptorFileName_base ParseFileName_manifest MakeFileName_base ParseFileName_number
        length_lit) (simp add: MakeFileName_base ParseFileName_number lit_inject del: lit_Cons)
qed

end
