(* ===== verification/Dbformat.thy ===== *)
theory Dbformat
  imports Coding Comparator Bloom Logging
begin

text \<open>
  \<^verbatim>\<open>db/dbformat.h\<close> and \<^verbatim>\<open>db/dbformat.cc\<close>: internal keys (a user key followed by eight bytes that
  pack the sequence number and the value type), their comparator and filter policy, and the key of
  a memtable lookup.  \<open>InternalKeyComparator\<close> and \<open>InternalFilterPolicy\<close> wrap a user's object;
  they meet the contracts of \<open>Comparator\<close> and \<open>Bloom\<close> on keys of at least eight bytes whenever
  the user's object meets them, which the last section proves.
\<close>

subsection \<open>Constants and types\<close>

definition kNumLevels :: nat where "kNumLevels = 7"
definition kL0_CompactionTrigger :: nat where "kL0_CompactionTrigger = 4"
definition kL0_SlowdownWritesTrigger :: nat where "kL0_SlowdownWritesTrigger = 8"
definition kL0_StopWritesTrigger :: nat where "kL0_StopWritesTrigger = 12"
definition kMaxMemCompactLevel :: nat where "kMaxMemCompactLevel = 2"

datatype ValueType = kTypeDeletion | kTypeValue

definition ValueType_byte :: "ValueType \<Rightarrow> byte" where
  "ValueType_byte t = (case t of kTypeDeletion \<Rightarrow> 0 | kTypeValue \<Rightarrow> 1)"

definition kValueTypeForSeek :: ValueType where
  "kValueTypeForSeek = kTypeValue"

definition kMaxSequenceNumber :: u64 where
  "kMaxSequenceNumber = push_bit 56 1 - 1"

record ParsedInternalKey =
  pik_user_key :: bytes
  pik_sequence :: u64
  pik_type :: ValueType

definition InternalKeyEncodingLength :: "ParsedInternalKey \<Rightarrow> nat" where
  "InternalKeyEncodingLength key = length (pik_user_key key) + 8"

text \<open>The \<open>assert\<close> on the sequence number is a precondition: the release build does not check it.\<close>

definition PackSequenceAndType :: "u64 \<Rightarrow> ValueType \<Rightarrow> u64" where
  "PackSequenceAndType s t = push_bit 8 s OR ucast (ValueType_byte t)"

definition AppendInternalKey :: "bytes \<Rightarrow> ParsedInternalKey \<Rightarrow> bytes" where
  "AppendInternalKey result key =
     PutFixed64 (result @ pik_user_key key) (PackSequenceAndType (pik_sequence key) (pik_type key))"

text \<open>
  \<open>static_cast<ValueType>(c)\<close> of a byte that is not an enumerator only happens on the failing
  branch, whose result the header declares undefined: the model returns \<open>None\<close> there.
\<close>

definition ParseInternalKey :: "bytes \<Rightarrow> ParsedInternalKey option" where
  "ParseInternalKey internal_key =
     (let n = length internal_key in
      if n < 8 then None
      else let num = DecodeFixed64 (drop (n - 8) internal_key);
               c = (ucast (num AND 0xff) :: byte)
           in if c \<le> ValueType_byte kTypeValue
              then Some \<lparr>pik_user_key = take (n - 8) internal_key,
                         pik_sequence = drop_bit 8 num,
                         pik_type = (if c = 0 then kTypeDeletion else kTypeValue)\<rparr>
              else None)"

definition ExtractUserKey :: "bytes \<Rightarrow> bytes" where
  "ExtractUserKey internal_key = take (length internal_key - 8) internal_key"

text \<open>The class \<open>InternalKey\<close> is its \<open>rep_\<close>; the default constructor leaves it empty.\<close>

type_synonym InternalKey = bytes

definition InternalKey_make :: "bytes \<Rightarrow> u64 \<Rightarrow> ValueType \<Rightarrow> InternalKey" where
  "InternalKey_make user_key s t =
     AppendInternalKey [] \<lparr>pik_user_key = user_key, pik_sequence = s, pik_type = t\<rparr>"

definition InternalKey_SetFrom :: "InternalKey \<Rightarrow> ParsedInternalKey \<Rightarrow> InternalKey" where
  "InternalKey_SetFrom rep p = AppendInternalKey [] p"

text \<open>The 50 byte \<open>snprintf\<close> buffer always suffices: at most 28 characters are printed.\<close>

definition ParsedInternalKey_DebugString :: "ParsedInternalKey \<Rightarrow> bytes" where
  "ParsedInternalKey_DebugString p =
     [0x27] @ EscapeString (pik_user_key p) @
     0x27 # lit '' @ '' @ decimal (unat (pik_sequence p)) @ lit '' : '' @
     decimal (unat (ValueType_byte (pik_type p)))"

definition InternalKey_DebugString :: "InternalKey \<Rightarrow> bytes" where
  "InternalKey_DebugString rep =
     (case ParseInternalKey rep of
        Some parsed \<Rightarrow> ParsedInternalKey_DebugString parsed
      | None \<Rightarrow> lit ''(bad)'' @ EscapeString rep)"

subsection \<open>Comparator and filter policy\<close>

definition InternalKeyComparator_Compare :: "comparator \<Rightarrow> bytes \<Rightarrow> bytes \<Rightarrow> int" where
  "InternalKeyComparator_Compare u akey bkey =
     (let r = cmp_Compare u (ExtractUserKey akey) (ExtractUserKey bkey)
      in if r = 0
         then let anum = DecodeFixed64 (drop (length akey - 8) akey);
                  bnum = DecodeFixed64 (drop (length bkey - 8) bkey)
              in if bnum < anum then -1 else if anum < bnum then 1 else r
         else r)"

definition InternalKeyComparator_FindShortestSeparator :: "comparator \<Rightarrow> bytes \<Rightarrow> bytes \<Rightarrow> bytes" where
  "InternalKeyComparator_FindShortestSeparator u start limit =
     (let user_start = ExtractUserKey start;
          user_limit = ExtractUserKey limit;
          tmp = cmp_FindShortestSeparator u user_start user_limit
      in if length tmp < length user_start \<and> cmp_Compare u user_start tmp < 0
         then PutFixed64 tmp (PackSequenceAndType kMaxSequenceNumber kValueTypeForSeek)
         else start)"

definition InternalKeyComparator_FindShortSuccessor :: "comparator \<Rightarrow> bytes \<Rightarrow> bytes" where
  "InternalKeyComparator_FindShortSuccessor u key =
     (let user_key = ExtractUserKey key;
          tmp = cmp_FindShortSuccessor u user_key
      in if length tmp < length user_key \<and> cmp_Compare u user_key tmp < 0
         then PutFixed64 tmp (PackSequenceAndType kMaxSequenceNumber kValueTypeForSeek)
         else key)"

definition InternalKeyComparator :: "comparator \<Rightarrow> comparator" where
  "InternalKeyComparator u = \<lparr>
     cmp_Name = lit ''leveldb.InternalKeyComparator'',
     cmp_Compare = InternalKeyComparator_Compare u,
     cmp_FindShortestSeparator = InternalKeyComparator_FindShortestSeparator u,
     cmp_FindShortSuccessor = InternalKeyComparator_FindShortSuccessor u\<rparr>"

text \<open>
  \<open>CreateFilter\<close> rewrites the caller's \<open>keys\<close> array in place; its only caller,
  \<open>FilterBlockBuilder::GenerateFilter\<close>, resizes that scratch array before each use.
\<close>

definition InternalFilterPolicy :: "filter_policy \<Rightarrow> filter_policy" where
  "InternalFilterPolicy p = \<lparr>
     fp_Name = fp_Name p,
     fp_CreateFilter = (\<lambda>keys dst. fp_CreateFilter p (map ExtractUserKey keys) dst),
     fp_KeyMayMatch = (\<lambda>key f. fp_KeyMayMatch p (ExtractUserKey key) f)\<rparr>"

subsection \<open>The key of a memtable lookup\<close>

text \<open>The character array from \<open>start_\<close> to \<open>end_\<close>, and the offset of \<open>kstart_\<close> in it.\<close>

record LookupKey =
  lk_bytes :: bytes
  lk_kstart :: nat

definition LookupKey_make :: "bytes \<Rightarrow> u64 \<Rightarrow> LookupKey" where
  "LookupKey_make user_key s =
     (let usize = length user_key;
          header = EncodeVarint32 (word_of_nat (usize + 8))
      in \<lparr>lk_bytes = header @ user_key @ EncodeFixed64 (PackSequenceAndType s kValueTypeForSeek),
          lk_kstart = length header\<rparr>)"

definition LookupKey_memtable_key :: "LookupKey \<Rightarrow> bytes" where
  "LookupKey_memtable_key l = lk_bytes l"

definition LookupKey_internal_key :: "LookupKey \<Rightarrow> bytes" where
  "LookupKey_internal_key l = drop (lk_kstart l) (lk_bytes l)"

definition LookupKey_user_key :: "LookupKey \<Rightarrow> bytes" where
  "LookupKey_user_key l = take (length (lk_bytes l) - lk_kstart l - 8) (drop (lk_kstart l) (lk_bytes l))"

subsection \<open>Packing and parsing\<close>

lemma ValueType_byte_le [simp]: "ValueType_byte t \<le> ValueType_byte kTypeValue"
  by (cases t) (auto simp: ValueType_byte_def)

lemma Pack_type: "(ucast (PackSequenceAndType s t AND 0xff) :: byte) = ValueType_byte t"
  unfolding PackSequenceAndType_def by (cases t) (auto simp: ValueType_byte_def intro!: bit_word_eqI simp: bit_simps)

lemma kMaxSequenceNumber_val: "kMaxSequenceNumber = 0xffffffffffffff"
  by (simp add: kMaxSequenceNumber_def)

lemma seq_take_bit: "s \<le> kMaxSequenceNumber \<longleftrightarrow> take_bit 56 s = s"
proof -
  have "s \<le> kMaxSequenceNumber \<longleftrightarrow> unat s < 2 ^ 56"
    by (auto simp: kMaxSequenceNumber_val word_le_nat_alt)
  also have "\<dots> \<longleftrightarrow> take_bit 56 (unat s) = unat s" by (simp add: take_bit_nat_eq_self_iff)
  also have "\<dots> \<longleftrightarrow> unat (take_bit 56 s) = unat s" by (simp only: unsigned_take_bit_eq)
  also have "\<dots> \<longleftrightarrow> take_bit 56 s = s" by (simp only: word_unat_eq_iff)
  finally show ?thesis .
qed

lemma Pack_sequence:
  assumes "s \<le> kMaxSequenceNumber"
  shows "drop_bit 8 (PackSequenceAndType s t) = s"
proof -
  have "drop_bit 8 (PackSequenceAndType s t) = take_bit 56 s"
    unfolding PackSequenceAndType_def
    by (rule bit_word_eqI) (auto simp: bit_simps dest: bit_imp_le_length)
  with assms show ?thesis by (simp only: seq_take_bit)
qed

text \<open>The packed number orders entries of one user key by sequence number, then by type.\<close>

lemma unat_Pack:
  assumes "s \<le> kMaxSequenceNumber"
  shows "unat (PackSequenceAndType s t) = 256 * unat s + unat (ValueType_byte t)"
proof -
  have s: "unat s < 2 ^ 56" using assms by (simp add: kMaxSequenceNumber_val word_le_nat_alt)
  have "push_bit 8 s AND ucast (ValueType_byte t) = 0"
    by (rule bit_word_eqI) (auto simp: bit_simps dest: bit_imp_le_length)
  then have "PackSequenceAndType s t = push_bit 8 s + ucast (ValueType_byte t)"
    unfolding PackSequenceAndType_def by (simp only: disjunctive_add_eq_or)
  then have p: "PackSequenceAndType s t = s * 256 + ucast (ValueType_byte t)"
    by (simp add: push_bit_eq_mult)
  have t: "unat (ucast (ValueType_byte t) :: u64) = unat (ValueType_byte t)"
    "unat (ValueType_byte t) < 256"
    by (cases t; simp add: ValueType_byte_def)+
  have "unat (s * 256) = 256 * unat s" using s by (simp add: unat_word_ariths)
  with s t show ?thesis by (simp add: p unat_word_ariths)
qed

lemma ParseInternalKey_Append:
  assumes "s \<le> kMaxSequenceNumber"
  shows "ParseInternalKey (AppendInternalKey [] \<lparr>pik_user_key = k, pik_sequence = s, pik_type = t\<rparr>) =
    Some \<lparr>pik_user_key = k, pik_sequence = s, pik_type = t\<rparr>"
  using assms Pack_type [of s t] ValueType_byte_le [of t]
  by (cases t)
     (simp_all add: ParseInternalKey_def AppendInternalKey_def PutFixed64_def Let_def Pack_sequence
        ValueType_byte_def)

lemma byte_le_1: "(b :: byte) \<le> 1 \<Longrightarrow> b = 0 \<or> b = 1"
proof -
  assume "b \<le> 1"
  then have "unat b = 0 \<or> unat b = 1" by (auto simp: word_le_nat_alt)
  then show ?thesis by (simp add: word_unat_eq_iff)
qed

text \<open>Conversely every internal key that parses is the encoding of its parts.\<close>

lemma ParseInternalKey_bytes:
  assumes "ParseInternalKey ikey = Some p"
  shows "AppendInternalKey [] p = ikey"
proof -
  let ?n = "length ikey - 8"
  let ?num = "DecodeFixed64 (drop ?n ikey)"
  have n: "8 \<le> length ikey" using assms by (auto simp: ParseInternalKey_def Let_def split: if_splits)
  have p: "pik_user_key p = take ?n ikey" "pik_sequence p = drop_bit 8 ?num"
    "ValueType_byte (pik_type p) = ucast (?num AND 0xff)"
    using assms byte_le_1 [of "ucast (?num AND 0xff)"]
    by (auto simp: ParseInternalKey_def ValueType_byte_def Let_def split: if_splits)
  have "PackSequenceAndType (pik_sequence p) (pik_type p) = ?num"
    unfolding PackSequenceAndType_def p
    by (rule bit_word_eqI) (auto simp: bit_simps dest: bit_imp_le_length)
  then have "EncodeFixed64 (PackSequenceAndType (pik_sequence p) (pik_type p)) = drop ?n ikey"
    using n by (simp add: EncodeFixed64_DecodeFixed64)
  then show ?thesis using p by (simp add: AppendInternalKey_def PutFixed64_def)
qed

subsection \<open>The wrapped comparator and filter policy meet the contracts\<close>

definition internal_keys :: "(bytes \<Rightarrow> bool) \<Rightarrow> bytes \<Rightarrow> bool" where
  "internal_keys keys k \<longleftrightarrow> 8 \<le> length k \<and> keys (ExtractUserKey k)"

abbreviation key_tag :: "bytes \<Rightarrow> u64" where
  "key_tag k \<equiv> DecodeFixed64 (drop (length k - 8) k)"

lemma ExtractUserKey_PutFixed64 [simp]: "ExtractUserKey (PutFixed64 k w) = k"
  by (simp add: ExtractUserKey_def PutFixed64_def)

lemma key_tag_PutFixed64 [simp]: "key_tag (PutFixed64 k w) = w"
  by (simp add: PutFixed64_def)

lemma drop_PutFixed64 [simp]: "drop (length k) (PutFixed64 k w) = EncodeFixed64 w"
  by (simp add: PutFixed64_def)

lemma length_PutFixed64 [simp]: "length (PutFixed64 k w) = length k + 8"
  by (simp add: PutFixed64_def)

lemma ExtractUserKey_Append [simp]: "ExtractUserKey (AppendInternalKey [] p) = pik_user_key p"
  by (simp add: AppendInternalKey_def)

lemma internal_keys_Append [simp]: "internal_keys keys (AppendInternalKey [] p) = keys (pik_user_key p)"
  by (simp add: internal_keys_def) (simp add: AppendInternalKey_def)

lemma InternalKey_make_parts [simp]:
  "length (InternalKey_make k s t) = length k + 8"
  "ExtractUserKey (InternalKey_make k s t) = k"
  "drop (length k) (InternalKey_make k s t) = EncodeFixed64 (PackSequenceAndType s t)"
  by (simp_all add: InternalKey_make_def AppendInternalKey_def)

lemma internal_key_split: "8 \<le> length k \<Longrightarrow> k = ExtractUserKey k @ EncodeFixed64 (key_tag k)"
  by (simp add: ExtractUserKey_def EncodeFixed64_DecodeFixed64)

lemma InternalKeyComparator_Compare_simps:
  fixes u a b
  defines "r \<equiv> cmp_Compare u (ExtractUserKey a) (ExtractUserKey b)"
  shows "InternalKeyComparator_Compare u a b < 0 \<longleftrightarrow> r < 0 \<or> r = 0 \<and> key_tag b < key_tag a"
    "InternalKeyComparator_Compare u a b \<le> 0 \<longleftrightarrow> r < 0 \<or> r = 0 \<and> key_tag b \<le> key_tag a"
    "0 < InternalKeyComparator_Compare u a b \<longleftrightarrow> 0 < r \<or> r = 0 \<and> key_tag a < key_tag b"
    "InternalKeyComparator_Compare u a b = 0 \<longleftrightarrow> r = 0 \<and> key_tag a = key_tag b"
  by (auto simp: InternalKeyComparator_Compare_def r_def Let_def)

lemma InternalKeyComparator_sel [simp]:
  "cmp_Compare (InternalKeyComparator u) = InternalKeyComparator_Compare u"
  "cmp_FindShortestSeparator (InternalKeyComparator u) = InternalKeyComparator_FindShortestSeparator u"
  "cmp_FindShortSuccessor (InternalKeyComparator u) = InternalKeyComparator_FindShortSuccessor u"
  by (simp_all add: InternalKeyComparator_def)

context comparator_contract
begin

lemma user_order:
  assumes "keys a" "keys b" "keys d" "cmp_Compare c a b \<le> 0" "cmp_Compare c b d \<le> 0"
  shows "cmp_Compare c a d < 0 \<or> cmp_Compare c a d = 0 \<and> cmp_Compare c a b = 0 \<and> cmp_Compare c b d = 0"
proof (cases "cmp_Compare c a b < 0 \<or> cmp_Compare c b d < 0")
  case True
  with assms show ?thesis by (metis compare_less_le_trans compare_le_less_trans)
next
  case False
  with assms have "cmp_Compare c a b = 0" "cmp_Compare c b d = 0" by linarith+
  with assms compare_trans [of a b d] show ?thesis by linarith
qed

lemma internal_order: "key_order (InternalKeyComparator_Compare c) (internal_keys keys)"
proof
  fix a b assume "internal_keys keys a" "internal_keys keys b"
  then show "0 < InternalKeyComparator_Compare c b a \<longleftrightarrow> InternalKeyComparator_Compare c a b < 0"
    by (simp add: InternalKeyComparator_Compare_simps internal_keys_def compare_flip compare_eq_sym)
next
  fix a b d
  assume k: "internal_keys keys a" "internal_keys keys b" "internal_keys keys d"
    and "InternalKeyComparator_Compare c a b \<le> 0" "InternalKeyComparator_Compare c b d \<le> 0"
  then show "InternalKeyComparator_Compare c a d \<le> 0"
    using user_order [of "ExtractUserKey a" "ExtractUserKey b" "ExtractUserKey d"]
    by (auto simp: InternalKeyComparator_Compare_simps internal_keys_def)
qed

lemma InternalKeyComparator_contract: "comparator_contract (InternalKeyComparator c) (internal_keys keys)"
proof (unfold comparator_contract_def comparator_contract_axioms_def InternalKeyComparator_sel, intro conjI allI impI)
  show "key_order (InternalKeyComparator_Compare c) (internal_keys keys)" by (rule internal_order)
next
  fix start limit assume "internal_keys keys start" "internal_keys keys limit"
  then show "internal_keys keys (InternalKeyComparator_FindShortestSeparator c start limit)"
    by (auto simp: internal_keys_def InternalKeyComparator_FindShortestSeparator_def Let_def separator_key)
next
  fix key assume "internal_keys keys key"
  then show "internal_keys keys (InternalKeyComparator_FindShortSuccessor c key)"
    by (auto simp: internal_keys_def InternalKeyComparator_FindShortSuccessor_def Let_def successor_key)
next
  fix start limit
  assume "internal_keys keys start" "internal_keys keys limit" "InternalKeyComparator_Compare c start limit < 0"
  then show "InternalKeyComparator_Compare c start (InternalKeyComparator_FindShortestSeparator c start limit) \<le> 0"
    "InternalKeyComparator_Compare c (InternalKeyComparator_FindShortestSeparator c start limit) limit < 0"
    using separator_between [of "ExtractUserKey start" "ExtractUserKey limit"]
      separator_equal [of "ExtractUserKey start" "ExtractUserKey limit"]
    by (auto simp: internal_keys_def InternalKeyComparator_FindShortestSeparator_def Let_def
        InternalKeyComparator_Compare_simps compare_refl)
next
  fix start limit
  assume "internal_keys keys start" "internal_keys keys limit" "InternalKeyComparator_Compare c start limit = 0"
  then show "\<not> InternalKeyComparator_Compare c start (InternalKeyComparator_FindShortestSeparator c start limit) < 0"
    using separator_equal [of "ExtractUserKey start" "ExtractUserKey limit"]
    by (auto simp: internal_keys_def InternalKeyComparator_FindShortestSeparator_def Let_def
        InternalKeyComparator_Compare_simps compare_refl)
next
  fix key assume "internal_keys keys key"
  then show "InternalKeyComparator_Compare c key (InternalKeyComparator_FindShortSuccessor c key) \<le> 0"
    by (auto simp: internal_keys_def InternalKeyComparator_FindShortSuccessor_def Let_def
        InternalKeyComparator_Compare_simps compare_refl)
qed

end

interpretation internal_bytewise:
  comparator_contract "InternalKeyComparator BytewiseComparator" "internal_keys (\<lambda>_. True)"
  by (rule bytewise.InternalKeyComparator_contract)

context filter_policy_contract
begin

lemma InternalFilterPolicy_contract:
  "filter_policy_contract (InternalFilterPolicy p) (\<lambda>ks. keys_ok (map ExtractUserKey ks))"
  by unfold_locales (auto simp: InternalFilterPolicy_def create_extends intro: no_false_negative)

end

interpretation internal_bloom: filter_policy_contract "InternalFilterPolicy (BloomFilterPolicy b)" "\<lambda>_. True" for b
  by (rule bloom.InternalFilterPolicy_contract)

lemma internal_bytewise_eq_0:
  assumes "8 \<le> length a" "8 \<le> length b" "InternalKeyComparator_Compare BytewiseComparator a b = 0"
  shows "a = b"
proof -
  have "ExtractUserKey a = ExtractUserKey b" "key_tag a = key_tag b"
    using assms(3) by (simp_all add: InternalKeyComparator_Compare_simps BytewiseComparator_sel)
  with internal_key_split [OF assms(1)] internal_key_split [OF assms(2)] show ?thesis by metis
qed

subsection \<open>Lookup keys\<close>

lemma LookupKey_parts:
  "LookupKey_internal_key (LookupKey_make k s) = InternalKey_make k s kValueTypeForSeek"
  "LookupKey_user_key (LookupKey_make k s) = k"
  by (simp_all add: LookupKey_internal_key_def LookupKey_user_key_def LookupKey_make_def Let_def
      InternalKey_make_def AppendInternalKey_def PutFixed64_def)

lemma LookupKey_memtable_key_make:
  "LookupKey_memtable_key (LookupKey_make k s) =
    PutLengthPrefixedSlice [] (InternalKey_make k s kValueTypeForSeek)"
  by (simp add: LookupKey_memtable_key_def LookupKey_make_def Let_def
      InternalKey_make_def AppendInternalKey_def PutLengthPrefixedSlice_def PutVarint32_def PutFixed64_def)

subsection \<open>Properties\<close>

text \<open>
  Encoding a user key, a sequence number that fits in 56 bits and a value type as an internal
  key and parsing it gives the three parts back, and every byte string that parses at all is the
  encoding of the parts it parses to.
\<close>

lemma InternalKey_round_trip:
  "(s \<le> kMaxSequenceNumber \<longrightarrow>
      ParseInternalKey (InternalKey_make k s t) = Some \<lparr>pik_user_key = k, pik_sequence = s, pik_type = t\<rparr>) \<and>
   (ParseInternalKey ikey = Some p \<longrightarrow> InternalKey_SetFrom rep p = ikey)"
  by (simp add: InternalKey_make_def InternalKey_SetFrom_def ParseInternalKey_Append ParseInternalKey_bytes)

lemma InternalKey_round_trip_witness:
  "ParseInternalKey (InternalKey_make [97] 5 kTypeValue) =
     Some \<lparr>pik_user_key = [97], pik_sequence = 5, pik_type = kTypeValue\<rparr> \<and>
   InternalKey_SetFrom [] \<lparr>pik_user_key = [97], pik_sequence = 5, pik_type = kTypeValue\<rparr> =
     InternalKey_make [97] 5 kTypeValue"
proof -
  have "(5 :: u64) \<le> kMaxSequenceNumber" by (simp add: kMaxSequenceNumber_val)
  then show ?thesis using InternalKey_round_trip by blast
qed

text \<open>
  C33: entries of one user key are ordered newest first: the internal comparator puts the larger
  sequence number first and, at equal numbers, the value before the deletion; different user keys
  are ordered by the user comparator whatever their numbers.
\<close>

theorem InternalKeyComparator_newest_first:
  assumes "s \<le> kMaxSequenceNumber" "s' \<le> kMaxSequenceNumber"
  shows "cmp_Compare (InternalKeyComparator u) (InternalKey_make k s t) (InternalKey_make k' s' t') < 0 \<longleftrightarrow>
    cmp_Compare u k k' < 0 \<or>
    cmp_Compare u k k' = 0 \<and> (s' < s \<or> s = s' \<and> t = kTypeValue \<and> t' = kTypeDeletion)"
proof -
  have "PackSequenceAndType s' t' < PackSequenceAndType s t \<longleftrightarrow>
      s' < s \<or> s = s' \<and> t = kTypeValue \<and> t' = kTypeDeletion"
    using unat_Pack [OF assms(1), of t] unat_Pack [OF assms(2), of t']
    by (cases t; cases t') (auto simp: word_less_nat_alt word_unat_eq_iff ValueType_byte_def)
  then show ?thesis
    by (simp add: InternalKeyComparator_Compare_simps)
qed

theorem InternalKeyComparator_newest_first_witness:
  "cmp_Compare (InternalKeyComparator BytewiseComparator)
     (InternalKey_make [97] 5 kTypeDeletion) (InternalKey_make [97] 3 kTypeValue) < 0"
  by (rule InternalKeyComparator_newest_first [THEN iffD2])
     (simp_all add: kMaxSequenceNumber_val BytewiseComparator_sel)

text \<open>
  C32: for internal keys over the bytewise order, a shortened separator lies at or after the start
  and strictly before the limit and a short successor at or after its key, in the internal order:
  the index block built from them sends every lookup to the right data block.
\<close>

theorem internal_separator_between:
  assumes "8 \<le> length start" "8 \<le> length limit"
    and "cmp_Compare (InternalKeyComparator BytewiseComparator) start limit < 0"
  shows "cmp_Compare (InternalKeyComparator BytewiseComparator) start
           (cmp_FindShortestSeparator (InternalKeyComparator BytewiseComparator) start limit) \<le> 0 \<and>
         cmp_Compare (InternalKeyComparator BytewiseComparator)
           (cmp_FindShortestSeparator (InternalKeyComparator BytewiseComparator) start limit) limit < 0 \<and>
         cmp_Compare (InternalKeyComparator BytewiseComparator) limit
           (cmp_FindShortSuccessor (InternalKeyComparator BytewiseComparator) limit) \<le> 0"
  using internal_bytewise.separator_between [of start limit]
    internal_bytewise.successor_above [of limit] assms
  by (simp add: internal_keys_def)

theorem internal_separator_between_witness:
  "cmp_Compare (InternalKeyComparator BytewiseComparator) (InternalKey_make [97, 98, 99] 5 kTypeValue)
     (cmp_FindShortestSeparator (InternalKeyComparator BytewiseComparator)
        (InternalKey_make [97, 98, 99] 5 kTypeValue) (InternalKey_make [97, 101] 3 kTypeValue)) \<le> 0"
  using internal_separator_between [of "InternalKey_make [97, 98, 99] 5 kTypeValue" "InternalKey_make [97, 101] 3 kTypeValue"]
  by (simp add: InternalKeyComparator_Compare_simps BytewiseComparator_sel)

end
