(* ===== verification/Env_Posix.thy ===== *)
theory Env_Posix
  imports Slice_Status "HOL-Library.Monad_Syntax" "HOL-Library.Sublist"
begin

text \<open>
  The file classes of \<^verbatim>\<open>include/leveldb/env.h\<close> and their implementations in
  \<^verbatim>\<open>util/env_posix.cc\<close>.  The abstract classes are records of their virtual functions over a state
  \<open>'f\<close> of the file object; every call returns the new state, and \<open>None\<close> where the code would loop
  for ever.  The system calls are not part of the source: they are the fields of the record
  \<open>kernel\<close>, a parameter of the implementation.  The last sections prove that the buffering of
  \<open>PosixWritableFile\<close> is transparent and that \<open>PosixSequentialFile\<close> reads a file in order,
  for every kernel that behaves as POSIX documents.
\<close>

subsection \<open>The abstract file classes\<close>

record 'f sequential_file =
  sf_Read :: "'f \<Rightarrow> nat \<Rightarrow> (status \<times> bytes option \<times> 'f) option"
  sf_Skip :: "'f \<Rightarrow> u64 \<Rightarrow> (status \<times> 'f) option"

record 'f writable_file =
  wf_Append :: "'f \<Rightarrow> bytes \<Rightarrow> (status \<times> 'f) option"
  wf_Flush :: "'f \<Rightarrow> (status \<times> 'f) option"
  wf_Sync :: "'f \<Rightarrow> (status \<times> 'f) option"
  wf_Close :: "'f \<Rightarrow> (status \<times> 'f) option"

subsection \<open>System calls\<close>

text \<open>
  A call returns \<open>Inl errno\<close> when it fails.  \<open>k_lseek\<close> moves relative to the current position; its
  offset is a signed \<open>off_t\<close>.  \<open>k_fsync\<close> and \<open>k_fullfsync\<close> stand for
  \<open>fsync\<close> and \<open>fcntl(F_FULLFSYNC)\<close>, \<open>k_open_dir\<close> for \<open>open(.., O_RDONLY)\<close> of a directory.
\<close>

record 'k kernel =
  k_read :: "'k \<Rightarrow> int \<Rightarrow> nat \<Rightarrow> (int + bytes) \<times> 'k"
  k_write :: "'k \<Rightarrow> int \<Rightarrow> bytes \<Rightarrow> (int + nat) \<times> 'k"
  k_lseek :: "'k \<Rightarrow> int \<Rightarrow> int \<Rightarrow> (int + unit) \<times> 'k"
  k_open_dir :: "'k \<Rightarrow> bytes \<Rightarrow> (int + int) \<times> 'k"
  k_close :: "'k \<Rightarrow> int \<Rightarrow> (int + unit) \<times> 'k"
  k_fullfsync :: "'k \<Rightarrow> int \<Rightarrow> (int + unit) \<times> 'k"
  k_fsync :: "'k \<Rightarrow> int \<Rightarrow> (int + unit) \<times> 'k"
  k_strerror :: "int \<Rightarrow> bytes"

definition ENOENT :: int where "ENOENT = 2"
definition EINTR :: int where "EINTR = 4"
definition EINVAL :: int where "EINVAL = 22"

definition PosixError :: "'k kernel \<Rightarrow> bytes \<Rightarrow> int \<Rightarrow> status" where
  "PosixError K context error_number =
     (if error_number = ENOENT then Status_NotFound context (k_strerror K error_number)
      else Status_IOError context (k_strerror K error_number))"

lemma PosixError_not_ok [simp]: "\<not> Status_ok (PosixError K context e)"
  by (simp add: PosixError_def Status_NotFound_def Status_IOError_def)

subsection \<open>Sequential files\<close>

record posix_sequential_file =
  psf_fd :: int
  psf_filename :: bytes

partial_function (option) PosixSequentialFile_Read ::
  "'k kernel \<Rightarrow> posix_sequential_file \<times> 'k \<Rightarrow> nat \<Rightarrow>
   (status \<times> bytes option \<times> posix_sequential_file \<times> 'k) option" where
  "PosixSequentialFile_Read K f n =
     (case f of (this, k) \<Rightarrow>
        case k_read K k (psf_fd this) n of
          (Inl errno, k) \<Rightarrow>
            if errno = EINTR then PosixSequentialFile_Read K (this, k) n
            else Some (PosixError K (psf_filename this) errno, None, this, k)
        | (Inr result, k) \<Rightarrow> Some (Status_OK, Some result, this, k))"

definition PosixSequentialFile_Skip ::
  "'k kernel \<Rightarrow> posix_sequential_file \<times> 'k \<Rightarrow> u64 \<Rightarrow> (status \<times> posix_sequential_file \<times> 'k) option" where
  "PosixSequentialFile_Skip K f n =
     (case f of (this, k) \<Rightarrow>
        case k_lseek K k (psf_fd this) (sint n) of
          (Inl errno, k) \<Rightarrow> Some (PosixError K (psf_filename this) errno, this, k)
        | (Inr _, k) \<Rightarrow> Some (Status_OK, this, k))"

definition PosixSequentialFile :: "'k kernel \<Rightarrow> (posix_sequential_file \<times> 'k) sequential_file" where
  "PosixSequentialFile K = \<lparr>sf_Read = PosixSequentialFile_Read K, sf_Skip = PosixSequentialFile_Skip K\<rparr>"

subsection \<open>Paths\<close>

text \<open>\<open>rfind('/')\<close>, then the parts before and after the separator.\<close>

definition Dirname :: "bytes \<Rightarrow> bytes" where
  "Dirname filename =
     (if 0x2f \<notin> set filename then lit ''.''
      else rev (tl (dropWhile (\<lambda>c. c \<noteq> 0x2f) (rev filename))))"

definition Basename :: "bytes \<Rightarrow> bytes" where
  "Basename filename = rev (takeWhile (\<lambda>c. c \<noteq> 0x2f) (rev filename))"

definition IsManifest :: "bytes \<Rightarrow> bool" where
  "IsManifest filename = Slice_starts_with (Basename filename) (lit ''MANIFEST'')"

subsection \<open>Writable files\<close>

definition kWritableFileBufferSize :: nat where
  "kWritableFileBufferSize = 65536"

text \<open>\<open>pwf_buf\<close> is \<open>buf_[0, pos_ - 1]\<close>, the part of the buffer that is in use.\<close>

record posix_writable_file =
  pwf_buf :: bytes
  pwf_fd :: int
  pwf_is_manifest :: bool
  pwf_filename :: bytes
  pwf_dirname :: bytes

definition PosixWritableFile_make :: "bytes \<Rightarrow> int \<Rightarrow> posix_writable_file" where
  "PosixWritableFile_make filename fd =
     \<lparr>pwf_buf = [], pwf_fd = fd, pwf_is_manifest = IsManifest filename,
      pwf_filename = filename, pwf_dirname = Dirname filename\<rparr>"

partial_function (option) WriteUnbuffered ::
  "'k kernel \<Rightarrow> posix_writable_file \<Rightarrow> bytes \<Rightarrow> 'k \<Rightarrow> (status \<times> 'k) option" where
  "WriteUnbuffered K this data k =
     (if data = [] then Some (Status_OK, k)
      else case k_write K k (pwf_fd this) data of
             (Inl errno, k) \<Rightarrow>
               if errno = EINTR then WriteUnbuffered K this data k
               else Some (PosixError K (pwf_filename this) errno, k)
           | (Inr write_result, k) \<Rightarrow> WriteUnbuffered K this (drop write_result data) k)"

definition FlushBuffer ::
  "'k kernel \<Rightarrow> posix_writable_file \<times> 'k \<Rightarrow> (status \<times> posix_writable_file \<times> 'k) option" where
  "FlushBuffer K f = (case f of (this, k) \<Rightarrow> do {
     (status, k) \<leftarrow> WriteUnbuffered K this (pwf_buf this) k;
     Some (status, this\<lparr>pwf_buf := []\<rparr>, k) })"

definition PosixWritableFile_Append ::
  "'k kernel \<Rightarrow> posix_writable_file \<times> 'k \<Rightarrow> bytes \<Rightarrow> (status \<times> posix_writable_file \<times> 'k) option" where
  "PosixWritableFile_Append K f data = (case f of (this, k) \<Rightarrow>
     let copy_size = min (length data) (kWritableFileBufferSize - length (pwf_buf this));
         this = this\<lparr>pwf_buf := pwf_buf this @ take copy_size data\<rparr>;
         write_data = drop copy_size data
     in if write_data = [] then Some (Status_OK, this, k)
        else do {
          (status, this, k) \<leftarrow> FlushBuffer K (this, k);
          if \<not> Status_ok status then Some (status, this, k)
          else if length write_data < kWritableFileBufferSize
          then Some (Status_OK, this\<lparr>pwf_buf := write_data\<rparr>, k)
          else do {
            (status, k) \<leftarrow> WriteUnbuffered K this write_data k;
            Some (status, this, k) } })"

definition PosixWritableFile_Flush ::
  "'k kernel \<Rightarrow> posix_writable_file \<times> 'k \<Rightarrow> (status \<times> posix_writable_file \<times> 'k) option" where
  "PosixWritableFile_Flush K f = FlushBuffer K f"

definition PosixWritableFile_Close ::
  "'k kernel \<Rightarrow> posix_writable_file \<times> 'k \<Rightarrow> (status \<times> posix_writable_file \<times> 'k) option" where
  "PosixWritableFile_Close K f = do {
     (status, this, k) \<leftarrow> FlushBuffer K f;
     let (close_result, k) = k_close K k (pwf_fd this);
     let status = (case close_result of
                     Inl errno \<Rightarrow> if Status_ok status then PosixError K (pwf_filename this) errno else status
                   | Inr _ \<Rightarrow> status);
     Some (status, this\<lparr>pwf_fd := -1\<rparr>, k) }"

definition SyncFd :: "'k kernel \<Rightarrow> 'k \<Rightarrow> int \<Rightarrow> bytes \<Rightarrow> status \<times> 'k" where
  "SyncFd K k fd fd_path =
     (case k_fullfsync K k fd of
        (Inr _, k) \<Rightarrow> (Status_OK, k)
      | (Inl _, k) \<Rightarrow>
          case k_fsync K k fd of
            (Inr _, k) \<Rightarrow> (Status_OK, k)
          | (Inl errno, k) \<Rightarrow> (PosixError K fd_path errno, k))"

definition SyncDirIfManifest :: "'k kernel \<Rightarrow> posix_writable_file \<Rightarrow> 'k \<Rightarrow> status \<times> 'k" where
  "SyncDirIfManifest K this k =
     (if \<not> pwf_is_manifest this then (Status_OK, k)
      else case k_open_dir K k (pwf_dirname this) of
             (Inl errno, k) \<Rightarrow> (PosixError K (pwf_dirname this) errno, k)
           | (Inr fd, k) \<Rightarrow>
               let (status, k) = SyncFd K k fd (pwf_dirname this)
               in (status, snd (k_close K k fd)))"

definition PosixWritableFile_Sync ::
  "'k kernel \<Rightarrow> posix_writable_file \<times> 'k \<Rightarrow> (status \<times> posix_writable_file \<times> 'k) option" where
  "PosixWritableFile_Sync K f = (case f of (this, k) \<Rightarrow>
     let (status, k) = SyncDirIfManifest K this k
     in if \<not> Status_ok status then Some (status, this, k)
        else do {
          (status, this, k) \<leftarrow> FlushBuffer K (this, k);
          if \<not> Status_ok status then Some (status, this, k)
          else let (status, k) = SyncFd K k (pwf_fd this) (pwf_filename this)
               in Some (status, this, k) })"

definition PosixWritableFile :: "'k kernel \<Rightarrow> (posix_writable_file \<times> 'k) writable_file" where
  "PosixWritableFile K = \<lparr>
     wf_Append = PosixWritableFile_Append K, wf_Flush = PosixWritableFile_Flush K,
     wf_Sync = PosixWritableFile_Sync K, wf_Close = PosixWritableFile_Close K\<rparr>"

subsection \<open>The contracts of the file classes\<close>

text \<open>
  \<open>written\<close> is everything appended so far, \<open>flushed\<close> what the operating system has been
  handed.  A successful append extends \<open>written\<close> by the data, a successful flush hands over all of
  it, and whatever fails, what was handed over is a prefix of what was appended.
\<close>

locale writable_file_contract =
  fixes W :: "'f writable_file" and valid :: "'f \<Rightarrow> bool"
    and written :: "'f \<Rightarrow> bytes" and flushed :: "'f \<Rightarrow> bytes"
  assumes flushed_prefix: "valid f \<Longrightarrow> prefix (flushed f) (written f)"
    and append_returns: "valid f \<Longrightarrow> \<exists>s f'. wf_Append W f data = Some (s, f') \<and> valid f' \<and>
      (Status_ok s \<longrightarrow> written f' = written f @ data) \<and> prefix (flushed f') (written f @ data)"
    and flush_returns: "valid f \<Longrightarrow> \<exists>s f'. wf_Flush W f = Some (s, f') \<and> valid f' \<and>
      (Status_ok s \<longrightarrow> written f' = written f \<and> flushed f' = written f) \<and>
      prefix (flushed f') (written f)"
begin

lemma append_ok:
  "valid f \<Longrightarrow> wf_Append W f data = Some (s, f') \<Longrightarrow> Status_ok s \<Longrightarrow> valid f' \<and> written f' = written f @ data"
  using append_returns [of f data] by auto

lemma flush_ok:
  "valid f \<Longrightarrow> wf_Flush W f = Some (s, f') \<Longrightarrow> Status_ok s \<Longrightarrow>
   valid f' \<and> written f' = written f \<and> flushed f' = written f"
  using flush_returns [of f] by auto

end

text \<open>
  A buffered file: when nothing is pending, a few bytes fit into the buffer and cannot fail.  The log
  writer relies on it, since it ignores the status of the append that fills the trailer of a block.
\<close>

locale buffered_file_contract = writable_file_contract +
  assumes append_small: "valid f \<Longrightarrow> flushed f = written f \<Longrightarrow> length data < 64 \<Longrightarrow>
    wf_Append W f data = Some (s, f') \<Longrightarrow> Status_ok s"

text \<open>
  \<open>unread\<close> is what is left to read.  A read returns the next \<open>n\<close> bytes, or all that are left
  when they are fewer; a failing read may leave the file anywhere.  A skip is defined below \<open>2 ^ 63\<close>.  Reads of a \<open>sound\<close> file succeed.
\<close>

locale sequential_file_contract =
  fixes S :: "'f sequential_file" and unread :: "'f \<Rightarrow> bytes" and sound :: "'f \<Rightarrow> bool"
  assumes read_returns: "\<exists>s r f'. sf_Read S f n = Some (s, r, f') \<and>
      (Status_ok s \<longrightarrow> r = Some (take n (unread f)) \<and> unread f' = drop n (unread f)) \<and>
      (\<not> Status_ok s \<longrightarrow> r = None)"
    and read_sound: "sound f \<Longrightarrow> sf_Read S f n = Some (s, r, f') \<Longrightarrow> Status_ok s \<and> sound f'"
    and skip_returns: "\<exists>s f'. sf_Skip S f m = Some (s, f') \<and>
      (Status_ok s \<longrightarrow> unat m < 2 ^ 63 \<longrightarrow> unread f' = drop (unat m) (unread f))"
begin

lemma sound_read:
  "sound f \<Longrightarrow> \<exists>s f'. sf_Read S f n = Some (s, Some (take n (unread f)), f') \<and> Status_ok s \<and>
     sound f' \<and> unread f' = drop n (unread f)"
  using read_returns [of f n] read_sound [of f n] by fastforce

end

text \<open>Appending some pieces, stopping at the first failure, and flushing.\<close>

fun append_all :: "'f writable_file \<Rightarrow> 'f \<Rightarrow> bytes list \<Rightarrow> (status \<times> 'f) option" where
  "append_all W f [] = wf_Flush W f"
| "append_all W f (d # ds) = do {
     (s, f) \<leftarrow> wf_Append W f d;
     if Status_ok s then append_all W f ds else Some (s, f) }"

context writable_file_contract
begin

lemma append_all_returns:
  "valid f \<Longrightarrow> \<exists>s f'. append_all W f ds = Some (s, f') \<and> valid f' \<and>
     prefix (flushed f') (written f @ concat ds) \<and>
     (Status_ok s \<longrightarrow> flushed f' = written f @ concat ds)"
proof (induction ds arbitrary: f)
  case Nil
  then show ?case using flush_returns [of f] by auto
next
  case (Cons d ds)
  obtain s f1 where a: "wf_Append W f d = Some (s, f1)" "valid f1"
    "Status_ok s \<longrightarrow> written f1 = written f @ d" "prefix (flushed f1) (written f @ d)"
    using append_returns [OF Cons.prems] by blast
  show ?case
  proof (cases "Status_ok s")
    case True
    with a Cons.IH [OF a(2)] show ?thesis by auto
  next
    case False
    have "prefix (written f @ d) (written f @ d @ concat ds)" by simp
    with a(4) have "prefix (flushed f1) (written f @ d @ concat ds)"
      by (rule prefix_order.trans)
    with a False show ?thesis by auto
  qed
qed

end

subsection \<open>A POSIX kernel\<close>

text \<open>
  What \<open>write(2)\<close>, \<open>read(2)\<close> and \<open>lseek(2)\<close> document for regular files: a write takes a
  nonempty prefix of the data or fails and takes none, a read is short only at the end of the file,
  and only finitely many calls in a row are interrupted.  Reads of a \<open>sound\<close> kernel are interrupted
  at worst.
\<close>

locale posix_kernel =
  fixes K :: "'k kernel" and disk :: "'k \<Rightarrow> int \<Rightarrow> bytes" and rest :: "'k \<Rightarrow> int \<Rightarrow> bytes"
    and retries :: "'k \<Rightarrow> nat" and sound :: "'k \<Rightarrow> bool"
  assumes write_ok: "k_write K k fd d = (Inr n, k') \<Longrightarrow> d \<noteq> [] \<Longrightarrow>
      0 < n \<and> n \<le> length d \<and> disk k' = (disk k)(fd := disk k fd @ take n d) \<and> retries k' \<le> retries k"
    and write_error: "k_write K k fd d = (Inl e, k') \<Longrightarrow>
      disk k' = disk k \<and> (e = EINTR \<longrightarrow> retries k' < retries k)"
    and read_ok: "k_read K k fd n = (Inr d, k') \<Longrightarrow>
      d = take n (rest k fd) \<and> rest k' = (rest k)(fd := drop n (rest k fd))"
    and read_error: "k_read K k fd n = (Inl e, k') \<Longrightarrow>
      rest k' = rest k \<and> (e = EINTR \<longrightarrow> retries k' < retries k)"
    and read_sound: "sound k \<Longrightarrow> k_read K k fd n = (r, k') \<Longrightarrow> sound k' \<and> (\<forall>e. r = Inl e \<longrightarrow> e = EINTR)"
    and lseek_ok: "0 \<le> m \<Longrightarrow> k_lseek K k fd m = (Inr u, k') \<Longrightarrow> rest k' = (rest k)(fd := drop (nat m) (rest k fd))"
begin

lemma WriteUnbuffered_returns:
  "\<exists>s k' p. WriteUnbuffered K this d k = Some (s, k') \<and> prefix p d \<and> (Status_ok s \<longrightarrow> p = d) \<and>
     disk k' = (disk k)(pwf_fd this := disk k (pwf_fd this) @ p)"
proof (induction "length d + retries k" arbitrary: d k rule: less_induct)
  case less
  show ?case
  proof (cases "d = []")
    case False
    obtain r k1 where w: "k_write K k (pwf_fd this) d = (r, k1)" by fastforce
    show ?thesis
    proof (cases r)
      case (Inl e)
      with w have d: "disk k1 = disk k" "e = EINTR \<longrightarrow> retries k1 < retries k"
        using write_error by blast+
      show ?thesis
      proof (cases "e = EINTR")
        case True
        then have "length d + retries k1 < length d + retries k" using d by simp
        from less [OF this] show ?thesis
          using True Inl w d False by (subst WriteUnbuffered.simps) auto
      next
        case False
        then show ?thesis
          using Inl w d \<open>d \<noteq> []\<close> by (subst WriteUnbuffered.simps) (auto intro!: exI [of _ "[]"])
      qed
    next
      case (Inr n)
      with w False have n: "0 < n" "n \<le> length d"
        "disk k1 = (disk k)(pwf_fd this := disk k (pwf_fd this) @ take n d)" "retries k1 \<le> retries k"
        using write_ok by blast+
      then have "length (drop n d) + retries k1 < length d + retries k" using False by simp
      from less [OF this] obtain s k' p where
        ih: "WriteUnbuffered K this (drop n d) k1 = Some (s, k')" "prefix p (drop n d)"
          "Status_ok s \<longrightarrow> p = drop n d"
          "disk k' = (disk k1)(pwf_fd this := disk k1 (pwf_fd this) @ p)"
        by blast
      have "prefix (take n d @ p) d"
        using ih(2) by (metis append_take_drop_id same_prefix_prefix)
      moreover have "WriteUnbuffered K this d k = Some (s, k')"
        using Inr w ih False by (subst WriteUnbuffered.simps) simp
      moreover have "disk k' = (disk k)(pwf_fd this := disk k (pwf_fd this) @ take n d @ p)"
        using ih n by simp
      moreover have "Status_ok s \<longrightarrow> take n d @ p = d" using ih by auto
      ultimately show ?thesis by blast
    qed
  qed (auto simp: WriteUnbuffered.simps)
qed

definition posix_valid :: "int \<Rightarrow> posix_writable_file \<times> 'k \<Rightarrow> bool" where
  "posix_valid fd f \<longleftrightarrow> pwf_fd (fst f) = fd \<and> length (pwf_buf (fst f)) \<le> kWritableFileBufferSize"

definition posix_flushed :: "posix_writable_file \<times> 'k \<Rightarrow> bytes" where
  "posix_flushed f = disk (snd f) (pwf_fd (fst f))"

definition posix_written :: "posix_writable_file \<times> 'k \<Rightarrow> bytes" where
  "posix_written f = posix_flushed f @ pwf_buf (fst f)"

lemmas posix_defs = posix_valid_def posix_flushed_def posix_written_def

lemma FlushBuffer_returns:
  "\<exists>s k' p. FlushBuffer K (this, k) = Some (s, this\<lparr>pwf_buf := []\<rparr>, k') \<and> prefix p (pwf_buf this) \<and>
     (Status_ok s \<longrightarrow> p = pwf_buf this) \<and> disk k' (pwf_fd this) = disk k (pwf_fd this) @ p"
  using WriteUnbuffered_returns [of this "pwf_buf this" k] by (auto simp: FlushBuffer_def)

lemma Append_returns:
  assumes "posix_valid fd f"
  shows "\<exists>s f'. PosixWritableFile_Append K f data = Some (s, f') \<and> posix_valid fd f' \<and>
      (Status_ok s \<longrightarrow> posix_written f' = posix_written f @ data) \<and>
      prefix (posix_flushed f') (posix_written f @ data)"
proof -
  obtain this k where f: "f = (this, k)" by fastforce
  let ?D = "disk k (pwf_fd this)" and ?b = "pwf_buf this"
  define c where "c = min (length data) (kWritableFileBufferSize - length ?b)"
  define this1 where "this1 = this\<lparr>pwf_buf := ?b @ take c data\<rparr>"
  have len: "length ?b \<le> kWritableFileBufferSize" using assms by (simp add: f posix_valid_def)
  have A: "PosixWritableFile_Append K (this, k) data =
      (if drop c data = [] then Some (Status_OK, this1, k)
       else do {
          (status, this, k) \<leftarrow> FlushBuffer K (this1, k);
          if \<not> Status_ok status then Some (status, this, k)
          else if length (drop c data) < kWritableFileBufferSize
          then Some (Status_OK, this\<lparr>pwf_buf := drop c data\<rparr>, k)
          else do {
            (status, k) \<leftarrow> WriteUnbuffered K this (drop c data) k;
            Some (status, this, k) } })"
    by (simp only: PosixWritableFile_Append_def Let_def c_def this1_def prod.case)
  show ?thesis
  proof (cases "drop c data = []")
    case True
    then have "take c data = data" by simp
    then have "pwf_buf this1 = ?b @ data" "length (?b @ data) \<le> kWritableFileBufferSize"
      using True len by (auto simp: this1_def c_def)
    then show ?thesis using True assms by (simp add: A f posix_defs this1_def)
  next
    case False
    define this2 where "this2 = this\<lparr>pwf_buf := []\<rparr>"
    obtain s k1 p where fl: "FlushBuffer K (this1, k) = Some (s, this2, k1)"
      "disk k1 (pwf_fd this) = ?D @ p" "prefix p (?b @ take c data)"
      "Status_ok s \<longrightarrow> p = ?b @ take c data"
      using FlushBuffer_returns [of this1 k] by (auto simp: this1_def this2_def)
    obtain s2 k2 q where wr: "WriteUnbuffered K this2 (drop c data) k1 = Some (s2, k2)"
      "prefix q (drop c data)" "Status_ok s2 \<longrightarrow> q = drop c data"
      "disk k2 (pwf_fd this) = disk k1 (pwf_fd this) @ q"
      using WriteUnbuffered_returns [of this2 "drop c data" k1] by (auto simp: this2_def)
    have p: "prefix p (?b @ data)"
      using fl(3) prefix_order.trans [of p "?b @ take c data" "?b @ data"] by (simp add: take_is_prefix)
    have q: "prefix (take c data @ q) data"
      using wr(2) by (metis append_take_drop_id same_prefix_prefix)
    show ?thesis
      using False fl wr p q assms by (auto simp: A f posix_defs this2_def)
  qed
qed

lemma Flush_returns:
  assumes "posix_valid fd f"
  shows "\<exists>s f'. PosixWritableFile_Flush K f = Some (s, f') \<and> posix_valid fd f' \<and>
      (Status_ok s \<longrightarrow> posix_written f' = posix_written f \<and> posix_flushed f' = posix_written f) \<and>
      prefix (posix_flushed f') (posix_written f)"
proof -
  obtain this k where f: "f = (this, k)" by fastforce
  from FlushBuffer_returns [of this k] assms show ?thesis
    by (auto simp: f PosixWritableFile_Flush_def posix_defs)
qed

lemma Read_returns:
  "\<exists>s r k'. PosixSequentialFile_Read K (this, k) n = Some (s, r, this, k') \<and>
     (Status_ok s \<longrightarrow> r = Some (take n (rest k (psf_fd this))) \<and>
        rest k' (psf_fd this) = drop n (rest k (psf_fd this))) \<and>
     (\<not> Status_ok s \<longrightarrow> r = None) \<and> (sound k \<longrightarrow> Status_ok s \<and> sound k')"
proof (induction "retries k" arbitrary: k rule: less_induct)
  case less
  obtain r k1 where w: "k_read K k (psf_fd this) n = (r, k1)" by fastforce
  have snd: "sound k \<longrightarrow> sound k1 \<and> (\<forall>e. r = Inl e \<longrightarrow> e = EINTR)" using w read_sound by blast
  show ?case
  proof (cases r)
    case (Inl e)
    with w have d: "rest k1 = rest k" "e = EINTR \<longrightarrow> retries k1 < retries k"
      using read_error by blast+
    then show ?thesis
      using less [of k1] Inl w snd by (subst PosixSequentialFile_Read.simps) (cases "e = EINTR"; auto)
  next
    case (Inr d)
    with w have "d = take n (rest k (psf_fd this))" "rest k1 (psf_fd this) = drop n (rest k (psf_fd this))"
      using read_ok by fastforce+
    then show ?thesis using Inr w snd by (subst PosixSequentialFile_Read.simps) auto
  qed
qed

end

sublocale posix_kernel \<subseteq> writable: buffered_file_contract "PosixWritableFile K" "posix_valid fd" posix_written posix_flushed for fd
proof
  fix f f' :: "posix_writable_file \<times> 'k" and data s
  assume "posix_flushed f = posix_written f" "length data < 64" "wf_Append (PosixWritableFile K) f data = Some (s, f')"
  then show "Status_ok s"
    by (cases f) (auto simp: posix_written_def PosixWritableFile_def PosixWritableFile_Append_def
        kWritableFileBufferSize_def Let_def)
qed (use Append_returns Flush_returns in \<open>simp_all add: PosixWritableFile_def posix_written_def\<close>)

lemma sint_small:
  assumes "unat m < 2 ^ 63"
  shows "sint (m :: u64) = int (unat m)"
proof -
  have "int (unat m) < int (2 ^ 63)" using assms by (simp only: of_nat_less_iff)
  then have "uint m < 2 ^ 63" by simp
  moreover have "0 \<le> uint m" by simp
  ultimately have "signed_take_bit 63 (uint m) = uint m" by (intro signed_take_bit_int_eq_self) linarith+
  then show ?thesis unfolding sint_uint by simp
qed

sublocale posix_kernel \<subseteq> sequential:
  sequential_file_contract "PosixSequentialFile K" "\<lambda>f. rest (snd f) (psf_fd (fst f))"
    "\<lambda>f. sound (snd f)"
proof
  fix f :: "posix_sequential_file \<times> 'k" and n
  show "\<exists>s r f'. sf_Read (PosixSequentialFile K) f n = Some (s, r, f') \<and>
      (Status_ok s \<longrightarrow> r = Some (take n (rest (snd f) (psf_fd (fst f)))) \<and>
         rest (snd f') (psf_fd (fst f')) = drop n (rest (snd f) (psf_fd (fst f)))) \<and>
      (\<not> Status_ok s \<longrightarrow> r = None)"
    using Read_returns [of "fst f" "snd f" n] by (fastforce simp: PosixSequentialFile_def)
next
  fix f f' :: "posix_sequential_file \<times> 'k" and n s r
  assume "sound (snd f)" "sf_Read (PosixSequentialFile K) f n = Some (s, r, f')"
  then show "Status_ok s \<and> sound (snd f')"
    using Read_returns [of "fst f" "snd f" n] by (auto simp: PosixSequentialFile_def)
next
  fix f :: "posix_sequential_file \<times> 'k" and m :: u64
  obtain this k where f: "f = (this, k)" by fastforce
  obtain r k' where "k_lseek K k (psf_fd this) (sint m) = (r, k')" by fastforce
  then show "\<exists>s f'. sf_Skip (PosixSequentialFile K) f m = Some (s, f') \<and>
      (Status_ok s \<longrightarrow> unat m < 2 ^ 63 \<longrightarrow> rest (snd f') (psf_fd (fst f')) = drop (unat m) (rest (snd f) (psf_fd (fst f))))"
    using lseek_ok [of "sint m" k "psf_fd this"] sint_small [of m] by (cases r) (auto simp: PosixSequentialFile_def PosixSequentialFile_Skip_def f)
qed

context posix_kernel
begin

lemma fresh_file_append_all:
  assumes "disk k fd = []"
  shows "\<exists>s this' k'. append_all (PosixWritableFile K) (PosixWritableFile_make name fd, k) ds = Some (s, this', k') \<and>
     prefix (disk k' fd) (concat ds) \<and> (Status_ok s \<longrightarrow> disk k' fd = concat ds)"
proof -
  let ?f = "(PosixWritableFile_make name fd, k)"
  have "posix_valid fd ?f" "posix_written ?f = []"
    using assms by (simp_all add: posix_defs PosixWritableFile_make_def)
  with writable.append_all_returns [of fd ?f ds] show ?thesis
    by (auto simp: posix_flushed_def posix_valid_def)
qed

end

subsection \<open>A kernel with a script of faults\<close>

text \<open>
  Files in memory; every call takes the next entry of a script of faults, a failure with an error
  number or a write that is cut short, and succeeds when the script is used up.
\<close>

datatype fault = Errno int | Short nat

record mem_state =
  ms_disk :: "int \<Rightarrow> bytes"
  ms_rest :: "int \<Rightarrow> bytes"
  ms_faults :: "fault list"

definition mem_call :: "mem_state \<Rightarrow> (nat option \<Rightarrow> 'r \<times> mem_state) \<Rightarrow> (int + 'r) \<times> mem_state" where
  "mem_call k act =
     (case ms_faults k of
        [] \<Rightarrow> map_prod Inr id (act None)
      | Errno e # fs \<Rightarrow> (Inl e, k\<lparr>ms_faults := fs\<rparr>)
      | Short n # fs \<Rightarrow> map_prod Inr (ms_faults_update (\<lambda>_. fs)) (act (Some n)))"

definition mem_kernel :: "mem_state kernel" where
  "mem_kernel = \<lparr>
     k_read = (\<lambda>k fd n. mem_call k (\<lambda>_.
       (take n (ms_rest k fd), k\<lparr>ms_rest := (ms_rest k)(fd := drop n (ms_rest k fd))\<rparr>))),
     k_write = (\<lambda>k fd d. mem_call k (\<lambda>short.
       let n = (case short of None \<Rightarrow> length d | Some n \<Rightarrow> min (max 1 n) (length d))
       in (n, k\<lparr>ms_disk := (ms_disk k)(fd := ms_disk k fd @ take n d)\<rparr>))),
     k_lseek = (\<lambda>k fd m. if m < 0 then (Inl EINVAL, k) else mem_call k (\<lambda>_.
       ((), k\<lparr>ms_rest := (ms_rest k)(fd := drop (nat m) (ms_rest k fd))\<rparr>))),
     k_open_dir = (\<lambda>k _. mem_call k (\<lambda>_. (100, k))),
     k_close = (\<lambda>k _. mem_call k (\<lambda>_. ((), k))),
     k_fullfsync = (\<lambda>k _. mem_call k (\<lambda>_. ((), k))),
     k_fsync = (\<lambda>k _. mem_call k (\<lambda>_. ((), k))),
     k_strerror = (\<lambda>e. lit ''errno '' @ replicate (nat e) 0x2e)\<rparr>"

interpretation mem: posix_kernel mem_kernel ms_disk ms_rest "\<lambda>k. length (ms_faults k)"
  "\<lambda>k. \<forall>x \<in> set (ms_faults k). \<forall>e. x = Errno e \<longrightarrow> e = EINTR"
  by unfold_locales
     (auto simp: mem_kernel_def mem_call_def Let_def map_prod_def split: list.splits fault.splits)

subsection \<open>Properties\<close>

text \<open>
  C30: the 64 KB buffer of a writable file is transparent.  Whatever a client appends to a fresh
  file, however the kernel splits, interrupts or fails its writes, the calls return, the file always
  holds a prefix of the bytes appended, and exactly those bytes once the final flush reports success.
\<close>

theorem buffered_writes_reach_the_file:
  assumes "posix_kernel K disk rest retries sound" "disk k fd = []"
  shows "\<exists>s this' k'. append_all (PosixWritableFile K) (PosixWritableFile_make name fd, k) ds = Some (s, this', k') \<and>
     prefix (disk k' fd) (concat ds) \<and> (Status_ok s \<longrightarrow> disk k' fd = concat ds)"
  using assms by (rule posix_kernel.fresh_file_append_all)

theorem buffered_writes_reach_the_file_witness:
  "\<exists>s this' k'. append_all (PosixWritableFile mem_kernel) (PosixWritableFile_make (lit ''/db/LOG'') 3,
        \<lparr>ms_disk = (\<lambda>_. []), ms_rest = (\<lambda>_. []), ms_faults = [Errno EINTR, Short 1]\<rparr>) [[1, 2], [3]]
      = Some (s, this', k') \<and>
     prefix (ms_disk k' 3) [1, 2, 3] \<and> (Status_ok s \<longrightarrow> ms_disk k' 3 = [1, 2, 3])"
  using buffered_writes_reach_the_file [OF mem.posix_kernel_axioms,
      of "\<lparr>ms_disk = (\<lambda>_. []), ms_rest = (\<lambda>_. []), ms_faults = [Errno EINTR, Short 1]\<rparr>" 3
         "lit ''/db/LOG''" "[[1, 2], [3]]"]
  by simp

end
