(* ===== verification/Log_Writer.thy ===== *)
theory Log_Writer
  imports Crc32c Env_Posix
begin

text \<open>
  \<^verbatim>\<open>db/log_format.h\<close> and \<^verbatim>\<open>db/log_writer.cc\<close>: records are cut into fragments that do not cross
  32 KB blocks, each with a seven byte header of masked checksum, length and type.  The abstract
  specification is the function \<open>log_record\<close>, the bytes one record adds to the file at an offset
  in its block; the writer refines it on every file that meets \<open>writable_file_contract\<close>.
\<close>

subsection \<open>The format\<close>

datatype RecordType = kZeroType | kFullType | kFirstType | kMiddleType | kLastType

definition RecordType_code :: "RecordType \<Rightarrow> nat" where
  "RecordType_code t = (case t of kZeroType \<Rightarrow> 0 | kFullType \<Rightarrow> 1 | kFirstType \<Rightarrow> 2
     | kMiddleType \<Rightarrow> 3 | kLastType \<Rightarrow> 4)"

definition kMaxRecordType :: nat where "kMaxRecordType = RecordType_code kLastType"
definition kBlockSize :: nat where "kBlockSize = 32768"
definition kHeaderSize :: nat where "kHeaderSize = 4 + 2 + 1"

subsection \<open>The writer\<close>

record 'f log_writer =
  lw_dest :: 'f
  lw_block_offset :: nat
  lw_type_crc :: "u32 list"

definition InitTypeCrc :: "u32 list" where
  "InitTypeCrc = map (\<lambda>i. Value [word_of_nat i]) [0..<kMaxRecordType + 1]"

definition Writer_make :: "'f \<Rightarrow> 'f log_writer" where
  "Writer_make dest = \<lparr>lw_dest = dest, lw_block_offset = 0, lw_type_crc = InitTypeCrc\<rparr>"

definition Writer_make_at :: "'f \<Rightarrow> u64 \<Rightarrow> 'f log_writer" where
  "Writer_make_at dest dest_length =
     \<lparr>lw_dest = dest, lw_block_offset = unat dest_length mod kBlockSize, lw_type_crc = InitTypeCrc\<rparr>"

definition record_header :: "u32 list \<Rightarrow> RecordType \<Rightarrow> bytes \<Rightarrow> bytes" where
  "record_header type_crc t data =
     EncodeFixed32 (Mask (Extend (type_crc ! RecordType_code t) data)) @
     [word_of_nat (length data mod 256), word_of_nat (length data div 256), word_of_nat (RecordType_code t)]"

definition EmitPhysicalRecord ::
  "'f writable_file \<Rightarrow> RecordType \<Rightarrow> bytes \<Rightarrow> 'f log_writer \<Rightarrow> (status \<times> 'f log_writer) option" where
  "EmitPhysicalRecord W t data w = do {
     (s, dest) \<leftarrow> wf_Append W (lw_dest w) (record_header (lw_type_crc w) t data);
     (s, dest) \<leftarrow> (if Status_ok s
        then do {
          (s, dest) \<leftarrow> wf_Append W dest data;
          if Status_ok s then wf_Flush W dest else Some (s, dest) }
        else Some (s, dest));
     Some (s, w\<lparr>lw_dest := dest, lw_block_offset := lw_block_offset w + kHeaderSize + length data\<rparr>) }"

text \<open>The start of an iteration: fill the trailer of a block with no room for a header.\<close>

definition switch_block :: "'f writable_file \<Rightarrow> 'f log_writer \<Rightarrow> 'f log_writer option" where
  "switch_block W w =
     (let leftover = kBlockSize - lw_block_offset w
      in if leftover < kHeaderSize
         then do {
           dest \<leftarrow> (if 0 < leftover
              then do { (_, dest) \<leftarrow> wf_Append W (lw_dest w) (replicate leftover 0); Some dest }
              else Some (lw_dest w));
           Some (w\<lparr>lw_dest := dest, lw_block_offset := 0\<rparr>) }
         else Some w)"

partial_function (option) AddRecord_loop ::
  "'f writable_file \<Rightarrow> bool \<Rightarrow> bytes \<Rightarrow> 'f log_writer \<Rightarrow> (status \<times> 'f log_writer) option" where
  "AddRecord_loop W first data w = do {
     w \<leftarrow> switch_block W w;
     let avail = kBlockSize - lw_block_offset w - kHeaderSize;
     let fragment_length = (if length data < avail then length data else avail);
     let end = (length data = fragment_length);
     let type = (if first \<and> end then kFullType else if first then kFirstType
                 else if end then kLastType else kMiddleType);
     (s, w) \<leftarrow> EmitPhysicalRecord W type (take fragment_length data) w;
     if Status_ok s \<and> 0 < length data - fragment_length
     then AddRecord_loop W False (drop fragment_length data) w
     else Some (s, w) }"

definition AddRecord :: "'f writable_file \<Rightarrow> bytes \<Rightarrow> 'f log_writer \<Rightarrow> (status \<times> 'f log_writer) option" where
  "AddRecord W data w = AddRecord_loop W True data w"

subsection \<open>The layout of a record\<close>

text \<open>The bytes of one fragment with its header.\<close>

definition physical_record :: "RecordType \<Rightarrow> bytes \<Rightarrow> bytes" where
  "physical_record t data =
     EncodeFixed32 (Mask (Value (word_of_nat (RecordType_code t) # data))) @
     [word_of_nat (length data mod 256), word_of_nat (length data div 256), word_of_nat (RecordType_code t)] @ data"

text \<open>Where the next header goes, and the trailer before it.\<close>

definition header_offset :: "nat \<Rightarrow> nat" where
  "header_offset off = (if kBlockSize < off + kHeaderSize then 0 else off)"

definition trailer :: "nat \<Rightarrow> bytes" where
  "trailer off = (if kBlockSize < off + kHeaderSize then replicate (kBlockSize - off) 0 else [])"

definition fragment_type :: "bool \<Rightarrow> bool \<Rightarrow> RecordType" where
  "fragment_type first end =
     (if first \<and> end then kFullType else if first then kFirstType else if end then kLastType else kMiddleType)"

text \<open>The fragments of a record at an offset: a list of trailer, type and data.\<close>

function fragments :: "nat \<Rightarrow> bool \<Rightarrow> bytes \<Rightarrow> (nat \<times> RecordType \<times> bytes) list" where
  "fragments off first data =
     (let avail = kBlockSize - header_offset off - kHeaderSize
      in if length data \<le> avail then [(off, fragment_type first True, data)]
         else (off, fragment_type first False, take avail data) # fragments kBlockSize False (drop avail data))"
  by pat_completeness auto

termination
  by (relation "measure (\<lambda>(off, b, d). length d + (if header_offset off + kHeaderSize = kBlockSize then 1 else 0))")
     (auto simp: header_offset_def kBlockSize_def kHeaderSize_def)

declare fragments.simps [simp del]

definition fragment_bytes :: "nat \<times> RecordType \<times> bytes \<Rightarrow> bytes" where
  "fragment_bytes f = (case f of (off, t, data) \<Rightarrow> trailer off @ physical_record t data)"

definition fragment_end :: "nat \<times> RecordType \<times> bytes \<Rightarrow> nat" where
  "fragment_end f = (case f of (off, t, data) \<Rightarrow> header_offset off + kHeaderSize + length data)"

definition log_record :: "nat \<Rightarrow> bytes \<Rightarrow> bytes" where
  "log_record off data = concat (map fragment_bytes (fragments off True data))"

definition log_record_end :: "nat \<Rightarrow> bytes \<Rightarrow> nat" where
  "log_record_end off data = fragment_end (last (fragments off True data))"

fun log_bytes :: "nat \<Rightarrow> bytes list \<Rightarrow> bytes" where
  "log_bytes off [] = []"
| "log_bytes off (d # ds) = log_record off d @ log_bytes (log_record_end off d) ds"

subsection \<open>The writer refines the layout\<close>

lemma RecordType_code_less [simp]: "RecordType_code t < 5"
  by (cases t) (simp_all add: RecordType_code_def)

lemma record_header_eq: "record_header InitTypeCrc t data @ data = physical_record t data"
proof -
  have "InitTypeCrc ! RecordType_code t = Value [word_of_nat (RecordType_code t)]"
    unfolding InitTypeCrc_def kMaxRecordType_def
    using RecordType_code_less [of t] by (subst nth_map) (simp_all add: RecordType_code_def [of kLastType])
  then show ?thesis
    by (simp add: record_header_def physical_record_def Value_Extend)
qed

text \<open>The part of a writer's state its operations rely on.\<close>

definition writer_at :: "'f log_writer \<Rightarrow> nat \<Rightarrow> bool" where
  "writer_at w off \<longleftrightarrow> lw_type_crc w = InitTypeCrc \<and> lw_block_offset w = off \<and> off \<le> kBlockSize"

lemma header_offset_le: "off \<le> kBlockSize \<Longrightarrow> header_offset off + kHeaderSize \<le> kBlockSize"
  by (auto simp: header_offset_def kBlockSize_def kHeaderSize_def)

context buffered_file_contract
begin

lemma EmitPhysicalRecord_returns:
  assumes "valid (lw_dest w)" "lw_type_crc w = InitTypeCrc"
  shows "\<exists>s dest. EmitPhysicalRecord W t data w =
       Some (s, w\<lparr>lw_dest := dest, lw_block_offset := lw_block_offset w + kHeaderSize + length data\<rparr>) \<and>
     valid dest \<and> prefix (flushed dest) (written (lw_dest w) @ physical_record t data) \<and>
     (Status_ok s \<longrightarrow> written dest = written (lw_dest w) @ physical_record t data \<and> flushed dest = written dest)"
proof -
  let ?h = "record_header (lw_type_crc w) t data"
  have p: "physical_record t data = ?h @ data" by (simp add: assms(2) record_header_eq)
  obtain s1 f1 where 1: "wf_Append W (lw_dest w) ?h = Some (s1, f1)" "valid f1"
    "Status_ok s1 \<longrightarrow> written f1 = written (lw_dest w) @ ?h"
    "prefix (flushed f1) (written (lw_dest w) @ ?h)"
    using append_returns [OF assms(1)] by blast
  obtain s2 f2 where 2: "wf_Append W f1 data = Some (s2, f2)" "valid f2"
    "Status_ok s2 \<longrightarrow> written f2 = written f1 @ data" "prefix (flushed f2) (written f1 @ data)"
    using append_returns [OF 1(2)] by blast
  obtain s3 f3 where 3: "wf_Flush W f2 = Some (s3, f3)" "valid f3"
    "Status_ok s3 \<longrightarrow> written f3 = written f2 \<and> flushed f3 = written f2" "prefix (flushed f3) (written f2)"
    using flush_returns [OF 2(2)] by blast
  have "prefix (written (lw_dest w) @ ?h) (written (lw_dest w) @ ?h @ data)" by simp
  with 1(4) have "prefix (flushed f1) (written (lw_dest w) @ ?h @ data)" by (rule prefix_order.trans)
  then show ?thesis
    using 1 2 3 by (cases "Status_ok s1"; cases "Status_ok s2") (auto simp: EmitPhysicalRecord_def p)
qed

lemma switch_block_returns:
  assumes "valid (lw_dest w)" "flushed (lw_dest w) = written (lw_dest w)" "writer_at w off"
  shows "\<exists>w'. switch_block W w = Some w' \<and> writer_at w' (header_offset off) \<and>
     valid (lw_dest w') \<and> written (lw_dest w') = written (lw_dest w) @ trailer off"
proof -
  let ?t = "replicate (kBlockSize - off) (0 :: byte)"
  obtain s f where a: "wf_Append W (lw_dest w) ?t = Some (s, f)" "valid f"
    "Status_ok s \<longrightarrow> written f = written (lw_dest w) @ ?t"
    using append_returns [OF assms(1)] by blast
  have "Status_ok s" if "kBlockSize < off + kHeaderSize"
    using append_small [OF assms(1,2) _ a(1)] that by (simp add: kHeaderSize_def kBlockSize_def)
  moreover have "kBlockSize - off < kHeaderSize \<longleftrightarrow> kBlockSize < off + kHeaderSize"
    using assms(3) by (auto simp: writer_at_def kBlockSize_def kHeaderSize_def)
  ultimately show ?thesis
    using a assms by (auto simp: switch_block_def Let_def header_offset_def trailer_def writer_at_def)
qed

lemma AddRecord_loop_returns:
  assumes "valid (lw_dest w)" "flushed (lw_dest w) = written (lw_dest w)" "writer_at w off"
  shows "\<exists>s w'. AddRecord_loop W first data w = Some (s, w') \<and> valid (lw_dest w') \<and>
     prefix (flushed (lw_dest w')) (written (lw_dest w) @ concat (map fragment_bytes (fragments off first data))) \<and>
     (Status_ok s \<longrightarrow> written (lw_dest w') = written (lw_dest w) @ concat (map fragment_bytes (fragments off first data)) \<and>
        flushed (lw_dest w') = written (lw_dest w') \<and>
        writer_at w' (fragment_end (last (fragments off first data))))"
  using assms
proof (induction off first data arbitrary: w rule: fragments.induct)
  case (1 off first data)
  obtain w1 where w1: "switch_block W w = Some w1" "writer_at w1 (header_offset off)" "valid (lw_dest w1)"
    "written (lw_dest w1) = written (lw_dest w) @ trailer off"
    using switch_block_returns [OF 1(2-4)] by blast
  define avail where "avail = kBlockSize - lw_block_offset w1 - kHeaderSize"
  define fl where "fl = (if length data < avail then length data else avail)"
  define t where "t = (if first \<and> length data = fl then kFullType else if first then kFirstType
                 else if length data = fl then kLastType else kMiddleType)"
  obtain s dest where e: "EmitPhysicalRecord W t (take fl data) w1 =
       Some (s, w1\<lparr>lw_dest := dest, lw_block_offset := lw_block_offset w1 + kHeaderSize + length (take fl data)\<rparr>)"
     "valid dest" "prefix (flushed dest) (written (lw_dest w1) @ physical_record t (take fl data))"
     "Status_ok s \<longrightarrow> written dest = written (lw_dest w1) @ physical_record t (take fl data) \<and> flushed dest = written dest"
    using EmitPhysicalRecord_returns [of w1 t "take fl data"] w1 by (auto simp: writer_at_def)
  define w2 where "w2 = w1\<lparr>lw_dest := dest, lw_block_offset := lw_block_offset w1 + kHeaderSize + length (take fl data)\<rparr>"
  have off: "header_offset off + kHeaderSize \<le> kBlockSize"
    using 1(4) header_offset_le by (simp add: writer_at_def)
  have step: "AddRecord_loop W first data w =
     (if Status_ok s \<and> 0 < length data - fl then AddRecord_loop W False (drop fl data) w2 else Some (s, w2))"
    by (subst AddRecord_loop.simps)
       (simp only: w1(1) Option.bind.bind_lunit Let_def avail_def [symmetric] fl_def [symmetric] t_def [symmetric]
          e(1) prod.case w2_def)
  have av: "avail = kBlockSize - header_offset off - kHeaderSize" "lw_block_offset w1 = header_offset off"
    using w1(2) by (simp_all add: avail_def writer_at_def)
  have w2: "valid (lw_dest w2)" "Status_ok s \<longrightarrow> flushed (lw_dest w2) = written (lw_dest w2)"
    using e by (simp_all add: w2_def)
  show ?case
  proof (cases "length data \<le> avail")
    case True
    then have fl: "fl = length data" and t: "t = fragment_type first True"
      by (auto simp: fl_def t_def fragment_type_def)
    have fr: "fragments off first data = [(off, t, data)]"
      using True by (subst fragments.simps) (simp add: av t)
    have "writer_at w2 (header_offset off + kHeaderSize + length data)"
      using w1(2) True off by (simp add: writer_at_def w2_def fl av)
    then show ?thesis
      using e w1 by (simp add: step fl fr w2_def fragment_bytes_def fragment_end_def)
  next
    case False
    then have fl: "fl = avail" "length (take fl data) = avail" and t: "t = fragment_type first False"
      by (auto simp: fl_def t_def fragment_type_def)
    have fr: "fragments off first data = (off, t, take avail data) # fragments kBlockSize False (drop avail data)"
      using False by (subst fragments.simps) (simp add: av t Let_def)
    let ?more = "concat (map fragment_bytes (fragments kBlockSize False (drop avail data)))"
    have written: "concat (map fragment_bytes (fragments off first data)) =
        trailer off @ physical_record t (take avail data) @ ?more"
      by (simp add: fr fragment_bytes_def)
    show ?thesis
    proof (cases "Status_ok s")
      case True
      have "writer_at w2 kBlockSize"
        using w1(2) off False by (simp add: writer_at_def w2_def fl(1) av min_absorb2)
      then obtain s' w' where ih: "AddRecord_loop W False (drop avail data) w2 = Some (s', w')" "valid (lw_dest w')"
        "prefix (flushed (lw_dest w')) (written (lw_dest w2) @ ?more)"
        "Status_ok s' \<longrightarrow> written (lw_dest w') = written (lw_dest w2) @ ?more \<and>
           flushed (lw_dest w') = written (lw_dest w') \<and>
           writer_at w' (fragment_end (last (fragments kBlockSize False (drop avail data))))"
        using 1(1) [OF av(1) False, of w2] w2 True by blast
      have "fragments kBlockSize False (drop avail data) \<noteq> []"
        by (subst fragments.simps) (simp add: Let_def)
      moreover have "written (lw_dest w2) = written (lw_dest w) @ trailer off @ physical_record t (take avail data)"
        using e True w1 by (simp add: w2_def fl(1))
      ultimately show ?thesis
        using ih True False by (simp add: step written fl(1)) (simp add: fr)
    next
      case fail: False
      have "prefix (written (lw_dest w1) @ physical_record t (take avail data))
          (written (lw_dest w) @ trailer off @ physical_record t (take avail data) @ ?more)"
        by (simp add: w1)
      with e(3) have "prefix (flushed dest) (written (lw_dest w) @ trailer off @ physical_record t (take avail data) @ ?more)"
        unfolding fl by (rule prefix_order.trans)
      with fail show ?thesis using w2 by (simp add: step written) (simp add: w2_def)
    qed
  qed
qed

lemma AddRecord_returns:
  assumes "valid (lw_dest w)" "flushed (lw_dest w) = written (lw_dest w)" "writer_at w off"
  shows "\<exists>s w'. AddRecord W data w = Some (s, w') \<and> valid (lw_dest w') \<and>
     prefix (flushed (lw_dest w')) (written (lw_dest w) @ log_record off data) \<and>
     (Status_ok s \<longrightarrow> written (lw_dest w') = written (lw_dest w) @ log_record off data \<and>
        flushed (lw_dest w') = written (lw_dest w') \<and> writer_at w' (log_record_end off data))"
  using AddRecord_loop_returns [OF assms, of True data]
  by (simp add: AddRecord_def log_record_def log_record_end_def)

end

text \<open>
  Whatever became of the writes before: the writer returns as long as the calls on its file do.  An empty fragment
  at the end of a block is followed by one in a new block.
\<close>

lemma AddRecord_loop_total:
  assumes app: "\<And>f d. P f \<Longrightarrow> \<exists>s f'. wf_Append W f d = Some (s, f') \<and> P f'"
    and fl: "\<And>f. P f \<Longrightarrow> \<exists>s f'. wf_Flush W f = Some (s, f') \<and> P f'"
    and w: "P (lw_dest w)" "lw_block_offset w = off"
  shows "\<exists>s w'. AddRecord_loop W first data w = Some (s, w') \<and> P (lw_dest w') \<and> (off \<le> kBlockSize \<longrightarrow> lw_block_offset w' \<le> kBlockSize)"
  using w
proof (induction off first data arbitrary: w rule: fragments.induct)
  case (1 off first data)
  have leftover: "kBlockSize - off < kHeaderSize \<longleftrightarrow> kBlockSize < off + kHeaderSize"
    by (auto simp: kBlockSize_def kHeaderSize_def)
  obtain s0 f0 where f0: "wf_Append W (lw_dest w) (replicate (kBlockSize - off) 0) = Some (s0, f0)" "P f0" using app [OF 1(2)] by blast
  obtain w1 where w1: "switch_block W w = Some w1" "P (lw_dest w1)" "lw_block_offset w1 = header_offset off"
    using f0 1(2,3) leftover by (cases "0 < kBlockSize - off") (auto simp: switch_block_def Let_def header_offset_def)
  define avail where "avail = kBlockSize - lw_block_offset w1 - kHeaderSize"
  define n where "n = (if length data < avail then length data else avail)"
  define t where "t = (if first \<and> length data = n then kFullType else if first then kFirstType
                 else if length data = n then kLastType else kMiddleType)"
  obtain s1 f1 where r1: "wf_Append W (lw_dest w1) (record_header (lw_type_crc w1) t (take n data)) = Some (s1, f1)" "P f1"
    using app [OF w1(2)] by blast
  obtain s2 f2 where r2: "wf_Append W f1 (take n data) = Some (s2, f2)" "P f2" using app [OF r1(2)] by blast
  obtain s3 f3 where r3: "wf_Flush W f2 = Some (s3, f3)" "P f3" using fl [OF r2(2)] by blast
  define w2 where "w2 dest = w1\<lparr>lw_dest := dest, lw_block_offset := header_offset off + kHeaderSize + length (take n data)\<rparr>" for dest
  obtain s dest where e: "EmitPhysicalRecord W t (take n data) w1 = Some (s, w2 dest)" "P dest"
    using r1 r2 r3 w1(3) by (cases "Status_ok s1"; cases "Status_ok s2") (auto simp: EmitPhysicalRecord_def w2_def)
  have step: "AddRecord_loop W first data w =
     (if Status_ok s \<and> 0 < length data - n then AddRecord_loop W False (drop n data) (w2 dest) else Some (s, w2 dest))"
    by (subst AddRecord_loop.simps)
       (simp only: w1(1) Option.bind.bind_lunit Let_def avail_def [symmetric] n_def [symmetric] t_def [symmetric] e(1) prod.case)
  have P2: "P (lw_dest (w2 dest))" using e(2) by (simp add: w2_def)
  have off: "header_offset off + kHeaderSize \<le> kBlockSize" by (auto simp: header_offset_def kBlockSize_def kHeaderSize_def)
  then have small: "lw_block_offset (w2 dest) \<le> kBlockSize" by (auto simp add: w2_def n_def avail_def w1(3))
  show ?case
  proof (cases "Status_ok s \<and> 0 < length data - n")
    case True
    then have big: "n = avail" "\<not> length data \<le> avail" by (auto simp: n_def split: if_splits)
    then have "lw_block_offset (w2 dest) = kBlockSize" using off by (simp add: w2_def avail_def w1(3))
    from 1(1) [OF avail_def [unfolded w1(3)] big(2) P2 this] step True big(1) show ?thesis by auto
  next
    case False
    then show ?thesis using step P2 small by auto
  qed
qed

lemma AddRecord_total:
  assumes "\<And>f d. P f \<Longrightarrow> \<exists>s f'. wf_Append W f d = Some (s, f') \<and> P f'" "\<And>f. P f \<Longrightarrow> \<exists>s f'. wf_Flush W f = Some (s, f') \<and> P f'"
    and "P (lw_dest w)"
  shows "\<exists>s w'. AddRecord W data w = Some (s, w') \<and> P (lw_dest w') \<and> (lw_block_offset w \<le> kBlockSize \<longrightarrow> lw_block_offset w' \<le> kBlockSize)"
  using AddRecord_loop_total [of P W w "lw_block_offset w" True data] assms unfolding AddRecord_def by blast

text \<open>Adding some records, stopping at the first that fails.\<close>

fun add_records :: "'f writable_file \<Rightarrow> bytes list \<Rightarrow> 'f log_writer \<Rightarrow> (status \<times> 'f log_writer) option" where
  "add_records W [] w = Some (Status_OK, w)"
| "add_records W (d # ds) w = do {
     (s, w) \<leftarrow> AddRecord W d w;
     if Status_ok s then add_records W ds w else Some (s, w) }"

context buffered_file_contract
begin

lemma add_records_returns:
  "valid (lw_dest w) \<Longrightarrow> flushed (lw_dest w) = written (lw_dest w) \<Longrightarrow> writer_at w off \<Longrightarrow>
   \<exists>s w'. add_records W ds w = Some (s, w') \<and> valid (lw_dest w') \<and>
     prefix (flushed (lw_dest w')) (written (lw_dest w) @ log_bytes off ds) \<and>
     (Status_ok s \<longrightarrow> flushed (lw_dest w') = written (lw_dest w) @ log_bytes off ds)"
proof (induction ds arbitrary: w off)
  case (Cons d ds)
  obtain s w1 where a: "AddRecord W d w = Some (s, w1)" "valid (lw_dest w1)"
     "prefix (flushed (lw_dest w1)) (written (lw_dest w) @ log_record off d)"
     "Status_ok s \<longrightarrow> written (lw_dest w1) = written (lw_dest w) @ log_record off d \<and>
        flushed (lw_dest w1) = written (lw_dest w1) \<and> writer_at w1 (log_record_end off d)"
    using AddRecord_returns [OF Cons.prems, of d] by blast
  show ?case
  proof (cases "Status_ok s")
    case True
    with a Cons.IH [of w1 "log_record_end off d"] show ?thesis by auto
  next
    case False
    have "prefix (written (lw_dest w) @ log_record off d) (written (lw_dest w) @ log_bytes off (d # ds))" by simp
    with a(3) have "prefix (flushed (lw_dest w1)) (written (lw_dest w) @ log_bytes off (d # ds))"
      by (rule prefix_order.trans)
    with a False show ?thesis by simp
  qed
qed auto

end

end
