(* ===== verification/Log_Reader.thy ===== *)
theory Log_Reader
  imports Log_Writer
begin

text \<open>
  \<^verbatim>\<open>db/log_reader.cc\<close>: the reader of a log file.  It loads the file block by block, checks and
  strips the headers of the physical records, reassembles fragmented records and reports what it
  drops.  A null \<open>reporter_\<close> is \<open>None\<close>; otherwise the reports made so far are listed, newest
  last.  The last sections prove that the reader returns exactly the records of every prefix of a
  log that are complete in it, and reports nothing.
\<close>

subsection \<open>The reader\<close>

record 'f log_reader =
  lr_file :: 'f
  lr_reporter :: "(u64 \<times> status) list option"
  lr_checksum :: bool
  lr_buffer :: bytes
  lr_eof :: bool
  lr_last_record_offset :: u64
  lr_end_of_buffer_offset :: u64
  lr_initial_offset :: u64
  lr_resyncing :: bool

definition kEof :: u32 where "kEof = word_of_nat kMaxRecordType + 1"
definition kBadRecord :: u32 where "kBadRecord = word_of_nat kMaxRecordType + 2"

abbreviation type_code :: "RecordType \<Rightarrow> u32" where
  "type_code t \<equiv> word_of_nat (RecordType_code t)"

definition Reader_make :: "'f \<Rightarrow> (u64 \<times> status) list option \<Rightarrow> bool \<Rightarrow> u64 \<Rightarrow> 'f log_reader" where
  "Reader_make file reporter checksum initial_offset = \<lparr>
     lr_file = file, lr_reporter = reporter, lr_checksum = checksum, lr_buffer = [], lr_eof = False,
     lr_last_record_offset = 0, lr_end_of_buffer_offset = 0, lr_initial_offset = initial_offset,
     lr_resyncing = (0 < initial_offset)\<rparr>"

definition ReportDrop :: "u64 \<Rightarrow> status \<Rightarrow> 'f log_reader \<Rightarrow> 'f log_reader" where
  "ReportDrop n reason r =
     (case lr_reporter r of
        None \<Rightarrow> r
      | Some reports \<Rightarrow>
          if lr_initial_offset r \<le> lr_end_of_buffer_offset r - word_of_nat (length (lr_buffer r)) - n
          then r\<lparr>lr_reporter := Some (reports @ [(n, reason)])\<rparr> else r)"

definition ReportCorruption :: "u64 \<Rightarrow> bytes \<Rightarrow> 'f log_reader \<Rightarrow> 'f log_reader" where
  "ReportCorruption n reason r = ReportDrop n (Status_Corruption reason []) r"

definition SkipToInitialBlock :: "'f sequential_file \<Rightarrow> 'f log_reader \<Rightarrow> (bool \<times> 'f log_reader) option" where
  "SkipToInitialBlock S r =
     (let offset_in_block = unat (lr_initial_offset r) mod kBlockSize;
          block_start_location = lr_initial_offset r - word_of_nat offset_in_block;
          block_start_location = (if kBlockSize - 6 < offset_in_block
            then block_start_location + word_of_nat kBlockSize else block_start_location);
          r = r\<lparr>lr_end_of_buffer_offset := block_start_location\<rparr>
      in if 0 < block_start_location
         then do {
           (skip_status, file) \<leftarrow> sf_Skip S (lr_file r) block_start_location;
           let r = r\<lparr>lr_file := file\<rparr>;
           if \<not> Status_ok skip_status then Some (False, ReportDrop block_start_location skip_status r)
           else Some (True, r) }
         else Some (True, r))"

text \<open>
  The part of \<open>ReadPhysicalRecord\<close> after the buffer holds a header: the type, the slice stored in
  \<open>*result\<close> where it is stored, and the new state.
\<close>

definition ParsePhysicalRecord :: "'f log_reader \<Rightarrow> u32 \<times> bytes option \<times> 'f log_reader" where
  "ParsePhysicalRecord r =
     (let header = lr_buffer r;
          a = ucast (header ! 4) AND 0xff :: u32;
          b = ucast (header ! 5) AND 0xff;
          type = scast (header ! 6) :: u32;
          length = unat (a OR push_bit 8 b)
      in if List.length (lr_buffer r) < kHeaderSize + length
         then let drop_size = List.length (lr_buffer r);
                  r = r\<lparr>lr_buffer := []\<rparr>
              in if \<not> lr_eof r
                 then (kBadRecord, None, ReportCorruption (word_of_nat drop_size) (lit ''bad record length'') r)
                 else (kEof, None, r)
         else if type = type_code kZeroType \<and> length = 0
         then (kBadRecord, None, r\<lparr>lr_buffer := []\<rparr>)
         else if lr_checksum r \<and> Value (take (1 + length) (drop 6 header)) \<noteq> Unmask (DecodeFixed32 header)
         then let drop_size = List.length (lr_buffer r);
                  r = r\<lparr>lr_buffer := []\<rparr>
              in (kBadRecord, None, ReportCorruption (word_of_nat drop_size) (lit ''checksum mismatch'') r)
         else let r = r\<lparr>lr_buffer := drop (kHeaderSize + length) (lr_buffer r)\<rparr>
              in if lr_end_of_buffer_offset r - word_of_nat (List.length (lr_buffer r))
                    - word_of_nat kHeaderSize - word_of_nat length < lr_initial_offset r
                 then (kBadRecord, Some [], r)
                 else (type, Some (take length (drop kHeaderSize header)), r))"

partial_function (option) ReadPhysicalRecord ::
  "'f sequential_file \<Rightarrow> 'f log_reader \<Rightarrow> (u32 \<times> bytes option \<times> 'f log_reader) option" where
  "ReadPhysicalRecord S r =
     (if length (lr_buffer r) < kHeaderSize
      then if \<not> lr_eof r
           then do {
             (status, result, file) \<leftarrow> sf_Read S (lr_file r) kBlockSize;
             let buffer = (case result of None \<Rightarrow> [] | Some b \<Rightarrow> b);
             let r = r\<lparr>lr_file := file, lr_buffer := buffer,
                       lr_end_of_buffer_offset := lr_end_of_buffer_offset r + word_of_nat (length buffer)\<rparr>;
             if \<not> Status_ok status
             then Some (kEof, None, (ReportDrop (word_of_nat kBlockSize) status (r\<lparr>lr_buffer := []\<rparr>))\<lparr>lr_eof := True\<rparr>)
             else ReadPhysicalRecord S (if length buffer < kBlockSize then r\<lparr>lr_eof := True\<rparr> else r) }
           else Some (kEof, None, r\<lparr>lr_buffer := []\<rparr>)
      else Some (ParsePhysicalRecord r))"

text \<open>
  The loop of \<open>ReadRecord\<close>.  \<open>fragment\<close>, \<open>scratch\<close> and the two locals are its variables; the
  result is the return value, \<open>*record\<close> and the reader.
\<close>

partial_function (option) ReadRecord_loop ::
  "'f sequential_file \<Rightarrow> bytes \<Rightarrow> bytes \<Rightarrow> bool \<Rightarrow> u64 \<Rightarrow> 'f log_reader \<Rightarrow> (bool \<times> bytes \<times> 'f log_reader) option" where
  "ReadRecord_loop S fragment scratch in_fragmented_record prospective_record_offset r = do {
     (record_type, result, r) \<leftarrow> ReadPhysicalRecord S r;
     let fragment = (case result of None \<Rightarrow> fragment | Some b \<Rightarrow> b);
     let physical_record_offset = lr_end_of_buffer_offset r - word_of_nat (length (lr_buffer r))
           - word_of_nat kHeaderSize - word_of_nat (length fragment);
     if lr_resyncing r \<and> record_type = type_code kMiddleType
     then ReadRecord_loop S fragment scratch in_fragmented_record prospective_record_offset r
     else if lr_resyncing r \<and> record_type = type_code kLastType
     then ReadRecord_loop S fragment scratch in_fragmented_record prospective_record_offset (r\<lparr>lr_resyncing := False\<rparr>)
     else do {
       let r = r\<lparr>lr_resyncing := False\<rparr>;
       if record_type = type_code kFullType then
         do { let r = (if in_fragmented_record \<and> scratch \<noteq> []
                then ReportCorruption (word_of_nat (length scratch)) (lit ''partial record without end(1)'') r else r);
              Some (True, fragment, r\<lparr>lr_last_record_offset := physical_record_offset\<rparr>) }
       else if record_type = type_code kFirstType then
         do { let r = (if in_fragmented_record \<and> scratch \<noteq> []
                then ReportCorruption (word_of_nat (length scratch)) (lit ''partial record without end(2)'') r else r);
              ReadRecord_loop S fragment fragment True physical_record_offset r }
       else if record_type = type_code kMiddleType then
         (if \<not> in_fragmented_record
          then ReadRecord_loop S fragment scratch in_fragmented_record prospective_record_offset
                 (ReportCorruption (word_of_nat (length fragment)) (lit ''missing start of fragmented record(1)'') r)
          else ReadRecord_loop S fragment (scratch @ fragment) in_fragmented_record prospective_record_offset r)
       else if record_type = type_code kLastType then
         (if \<not> in_fragmented_record
          then ReadRecord_loop S fragment scratch in_fragmented_record prospective_record_offset
                 (ReportCorruption (word_of_nat (length fragment)) (lit ''missing start of fragmented record(2)'') r)
          else Some (True, scratch @ fragment, r\<lparr>lr_last_record_offset := prospective_record_offset\<rparr>))
       else if record_type = kEof then Some (False, [], r)
       else if record_type = kBadRecord then
         (if in_fragmented_record
          then ReadRecord_loop S fragment [] False prospective_record_offset
                 (ReportCorruption (word_of_nat (length scratch)) (lit ''error in middle of record'') r)
          else ReadRecord_loop S fragment scratch in_fragmented_record prospective_record_offset r)
       else ReadRecord_loop S fragment [] False prospective_record_offset
              (ReportCorruption (word_of_nat (length fragment + (if in_fragmented_record then length scratch else 0)))
                 (lit ''unknown record type '' @ decimal (unat record_type)) r) } }"

definition ReadRecord :: "'f sequential_file \<Rightarrow> 'f log_reader \<Rightarrow> (bool \<times> bytes \<times> 'f log_reader) option" where
  "ReadRecord S r = do {
     (go, r) \<leftarrow> (if lr_last_record_offset r < lr_initial_offset r
                  then SkipToInitialBlock S r else Some (True, r));
     if \<not> go then Some (False, [], r)
     else ReadRecord_loop S [] [] False 0 r }"

definition LastRecordOffset :: "'f log_reader \<Rightarrow> u64" where
  "LastRecordOffset r = lr_last_record_offset r"

subsection \<open>One physical record\<close>

lemma type_code_inject [simp]: "type_code t = type_code t' \<longleftrightarrow> t = t'"
  by (cases t; cases t') (simp_all add: RecordType_code_def)

lemma type_code_special [simp]: "type_code t \<noteq> kEof" "type_code t \<noteq> kBadRecord" "kEof \<noteq> type_code t"
  "kBadRecord \<noteq> type_code t" "kEof \<noteq> kBadRecord"
  by (cases t; simp add: RecordType_code_def kEof_def kBadRecord_def kMaxRecordType_def)+

lemma scast_type_code: "scast (word_of_nat (RecordType_code t) :: byte) = type_code t"
  by (cases t) (simp_all add: RecordType_code_def)

text \<open>The two length bytes of a header.\<close>

definition header_length :: "bytes \<Rightarrow> nat" where
  "header_length header = unat ((ucast (header ! 4) AND 0xff :: u32) OR push_bit 8 (ucast (header ! 5) AND 0xff))"

lemma length_bytes:
  assumes "n < 65536"
  shows "unat ((ucast (word_of_nat (n mod 256) :: byte) AND 0xff :: u32) OR
           push_bit 8 (ucast (word_of_nat (n div 256) :: byte) AND 0xff)) = n"
proof -
  have l: "unat (word_of_nat (n mod 256) :: byte) = n mod 256" "unat (word_of_nat (n div 256) :: byte) = n div 256"
    using assms by (auto intro!: unat_of_nat_small)
  have m: "(ucast (b :: byte) AND 0xff :: u32) = ucast b" for b
    unfolding word_byte_index(1) by (rule bit_word_eqI) (auto simp: bit_simps dest: bit_imp_le_length)
  have "(ucast (b :: byte) :: u32) AND push_bit 8 (ucast (c :: byte)) = 0" for b c
    by (rule bit_word_eqI) (auto simp: bit_simps dest: bit_imp_le_length)
  then have "(ucast (b :: byte) :: u32) OR push_bit 8 (ucast (c :: byte)) = ucast b + ucast c * 256" for b c
    by (simp flip: disjunctive_add_eq_or add: push_bit_eq_mult)
  then show ?thesis
    using assms by (simp add: m l unat_word_ariths unsigned_ucast_eq take_bit_eq_mod)
qed

lemma physical_record_header:
  assumes "prefix header (physical_record t data)" "kHeaderSize \<le> length header" "length data < 65536"
  shows "header_length header = length data" "header ! 6 = word_of_nat (RecordType_code t)"
proof -
  obtain p where p: "physical_record t data = header @ p" using assms(1) by (auto simp: prefix_def)
  then have n: "i < 7 \<Longrightarrow> header ! i = physical_record t data ! i" for i
    using assms(2) by (simp add: kHeaderSize_def nth_append)
  show "header_length header = length data"
    using length_bytes [OF assms(3)] by (simp add: n header_length_def) (simp add: physical_record_def nth_append)
  show "header ! 6 = word_of_nat (RecordType_code t)"
    by (simp add: n) (simp add: physical_record_def nth_append)
qed

lemma ParsePhysicalRecord_ok:
  assumes "lr_buffer r = physical_record t data @ tl_bytes" "length data < 65536" "t \<noteq> kZeroType"
    "lr_initial_offset r = 0"
  shows "ParsePhysicalRecord r = (type_code t, Some data, r\<lparr>lr_buffer := tl_bytes\<rparr>)"
proof -
  let ?h = "lr_buffer r"
  have "prefix (take 7 ?h) (physical_record t data)" "length (take 7 ?h) = 7"
    using assms(1) by (simp_all add: physical_record_def take_is_prefix)
  from physical_record_header [OF this(1) _ assms(2)] this(2)
  have l: "unat ((ucast (?h ! 4) AND 0xff :: u32) OR push_bit 8 (ucast (?h ! 5) AND 0xff)) = length data"
    and t: "?h ! 6 = word_of_nat (RecordType_code t)"
    by (simp_all add: kHeaderSize_def header_length_def)
  have len: "length ?h = 7 + length data + length tl_bytes" by (simp add: assms(1) physical_record_def)
  have crc: "take (Suc (length data)) (drop 6 ?h) = word_of_nat (RecordType_code t) # data"
    "Unmask (DecodeFixed32 ?h) = Value (word_of_nat (RecordType_code t) # data)"
    "take (length data) (drop 7 ?h) = data"
    by (simp_all add: assms(1) physical_record_def)
  have dr: "drop (7 + length data) ?h = tl_bytes"
    unfolding add.commute [of 7] drop_drop [symmetric] by (simp add: assms(1) physical_record_def)
  show ?thesis
    unfolding ParsePhysicalRecord_def Let_def l t scast_type_code
    using assms(3,4) by (simp add: len crc dr kHeaderSize_def type_code_inject [of _ kZeroType, simplified])
qed

lemma ParsePhysicalRecord_truncated:
  assumes "strict_prefix (lr_buffer r) (physical_record t data)" "length data < 65536"
    "kHeaderSize \<le> length (lr_buffer r)" "lr_eof r"
  shows "ParsePhysicalRecord r = (kEof, None, r\<lparr>lr_buffer := []\<rparr>)"
proof -
  have p: "prefix (lr_buffer r) (physical_record t data)" using assms(1) by simp
  have "length (lr_buffer r) < length (physical_record t data)"
    using assms(1) by (rule prefix_length_less)
  then have "length (lr_buffer r) < kHeaderSize + length data"
    by (simp add: physical_record_def kHeaderSize_def)
  then show ?thesis
    using physical_record_header(1) [OF p assms(3,2)] assms(4)
    by (simp add: ParsePhysicalRecord_def Let_def header_length_def)
qed

subsection \<open>The reader's position in the stream\<close>

text \<open>
  \<open>reader_at r off stream\<close>: what the reader has not consumed is \<open>stream\<close>, its next byte is at
  offset \<open>off\<close> of its block, and unless the end of the file was seen the buffer holds the whole
  rest of the block.
\<close>

context sequential_file_contract
begin

definition reader_at :: "'f log_reader \<Rightarrow> nat \<Rightarrow> bytes \<Rightarrow> bool" where
  "reader_at r off stream \<longleftrightarrow>
     sound (lr_file r) \<and> lr_initial_offset r = 0 \<and> \<not> lr_resyncing r \<and> off \<le> kBlockSize \<and>
     lr_buffer r @ unread (lr_file r) = stream \<and>
     (if lr_eof r then unread (lr_file r) = [] \<and> length (lr_buffer r) \<le> kBlockSize - off
      else length (lr_buffer r) = kBlockSize - off)"

lemma ReadPhysicalRecord_parse:
  "kHeaderSize \<le> length (lr_buffer r) \<Longrightarrow> ReadPhysicalRecord S r = Some (ParsePhysicalRecord r)"
  by (subst ReadPhysicalRecord.simps) simp

lemma ReadPhysicalRecord_short:
  "lr_eof r \<Longrightarrow> length (lr_buffer r) < kHeaderSize \<Longrightarrow>
   ReadPhysicalRecord S r = Some (kEof, None, r\<lparr>lr_buffer := []\<rparr>)"
  by (subst ReadPhysicalRecord.simps) simp

lemma ReadPhysicalRecord_load:
  assumes "reader_at r off stream" "kBlockSize < off + kHeaderSize" "\<not> lr_eof r"
  shows "\<exists>r2. ReadPhysicalRecord S r = ReadPhysicalRecord S r2 \<and>
    reader_at r2 0 (drop (kBlockSize - off) stream) \<and> lr_reporter r2 = lr_reporter r"
proof -
  obtain s f where f: "sf_Read S (lr_file r) kBlockSize = Some (s, Some (take kBlockSize (unread (lr_file r))), f)"
    "Status_ok s" "sound f" "unread f = drop kBlockSize (unread (lr_file r))"
    using sound_read [of "lr_file r" kBlockSize] assms(1) by (auto simp: reader_at_def)
  let ?b = "take kBlockSize (unread (lr_file r))"
  let ?r = "r\<lparr>lr_file := f, lr_buffer := ?b,
      lr_end_of_buffer_offset := lr_end_of_buffer_offset r + word_of_nat (length ?b)\<rparr>"
  let ?r2 = "if length ?b < kBlockSize then ?r\<lparr>lr_eof := True\<rparr> else ?r"
  have len: "length (lr_buffer r) = kBlockSize - off" using assms by (simp add: reader_at_def)
  moreover have "kBlockSize - off < kHeaderSize"
    using assms(1,2) by (simp add: reader_at_def kHeaderSize_def kBlockSize_def)
  ultimately have "length (lr_buffer r) < kHeaderSize" by simp
  then have "ReadPhysicalRecord S r = ReadPhysicalRecord S ?r2"
    using assms(3) f by (subst ReadPhysicalRecord.simps) (simp add: Let_def)
  moreover have "reader_at ?r2 0 (drop (kBlockSize - off) stream)"
    using assms(1) f len by (auto simp: reader_at_def)
  ultimately show ?thesis by (intro exI [of _ ?r2]) simp
qed

lemma ReadPhysicalRecord_here:
  assumes "reader_at r off (physical_record t data @ rest)" "off + kHeaderSize + length data \<le> kBlockSize"
    "t \<noteq> kZeroType"
  shows "\<exists>r'. ReadPhysicalRecord S r = Some (type_code t, Some data, r') \<and>
     reader_at r' (off + kHeaderSize + length data) rest \<and> lr_reporter r' = lr_reporter r"
proof -
  let ?p = "physical_record t data"
  have len: "length ?p = kHeaderSize + length data" by (simp add: physical_record_def kHeaderSize_def)
  have "length ?p \<le> length (lr_buffer r)"
    using assms(1,2) by (auto simp: reader_at_def len split: if_splits)
  moreover have st: "lr_buffer r @ unread (lr_file r) = ?p @ rest" using assms(1) by (simp add: reader_at_def)
  have "take (length ?p) (lr_buffer r @ unread (lr_file r)) = ?p" by (simp only: st) simp
  ultimately have "take (length ?p) (lr_buffer r) = ?p" by simp
  then obtain b where b: "lr_buffer r = ?p @ b" by (metis append_take_drop_id)
  with st have rest: "rest = b @ unread (lr_file r)" by simp
  have "length data < 65536" using assms(2) by (simp add: kBlockSize_def)
  with b rest assms have "ParsePhysicalRecord r = (type_code t, Some data, r\<lparr>lr_buffer := b\<rparr>)"
    by (intro ParsePhysicalRecord_ok) (auto simp: reader_at_def)
  moreover have "kHeaderSize \<le> length (lr_buffer r)" by (simp add: b len)
  moreover have "reader_at (r\<lparr>lr_buffer := b\<rparr>) (off + kHeaderSize + length data) rest"
    using assms(1,2) b rest by (auto simp: reader_at_def len split: if_splits)
  ultimately show ?thesis by (simp add: ReadPhysicalRecord_parse)
qed

lemma ReadPhysicalRecord_end_here:
  assumes "reader_at r off stream" "strict_prefix stream (physical_record t data)"
    "off + kHeaderSize + length data \<le> kBlockSize"
  shows "\<exists>r'. ReadPhysicalRecord S r = Some (kEof, None, r') \<and>
     lr_reporter r' = lr_reporter r \<and> \<not> lr_resyncing r'"
proof -
  have len: "length stream < kHeaderSize + length data"
    using prefix_length_less [OF assms(2)] by (simp add: physical_record_def kHeaderSize_def)
  have eof: "lr_eof r"
  proof (rule ccontr)
    assume "\<not> lr_eof r"
    then have "kBlockSize - off \<le> length stream" using assms(1) by (auto simp: reader_at_def)
    with len assms(3) show False by simp
  qed
  then have b: "lr_buffer r = stream" "\<not> lr_resyncing r" using assms(1) by (auto simp: reader_at_def)
  have d: "length data < 65536" using assms(3) by (simp add: kBlockSize_def)
  show ?thesis
  proof (cases "length stream < kHeaderSize")
    case True
    then show ?thesis using ReadPhysicalRecord_short [OF eof] b by simp
  next
    case False
    then have "ParsePhysicalRecord r = (kEof, None, r\<lparr>lr_buffer := []\<rparr>)"
      using assms(2) d eof by (intro ParsePhysicalRecord_truncated) (simp_all add: b)
    with False b show ?thesis by (simp add: ReadPhysicalRecord_parse)
  qed
qed

text \<open>With the trailer: the physical record wherever it starts in the block.\<close>

lemma ReadPhysicalRecord_fragment:
  assumes "reader_at r off (fragment_bytes (off, t, data) @ rest)"
    "header_offset off + kHeaderSize + length data \<le> kBlockSize" "t \<noteq> kZeroType"
  shows "\<exists>r'. ReadPhysicalRecord S r = Some (type_code t, Some data, r') \<and>
     reader_at r' (fragment_end (off, t, data)) rest \<and> lr_reporter r' = lr_reporter r"
proof (cases "kBlockSize < off + kHeaderSize")
  case True
  let ?s = "fragment_bytes (off, t, data) @ rest"
  have "\<not> lr_eof r"
  proof
    assume "lr_eof r"
    then have "length ?s \<le> kBlockSize - off" using assms(1) by (auto simp: reader_at_def)
    then show False using True
      by (simp add: fragment_bytes_def trailer_def physical_record_def)
  qed
  then obtain r2 where r2: "ReadPhysicalRecord S r = ReadPhysicalRecord S r2"
    "reader_at r2 0 (drop (kBlockSize - off) ?s)" "lr_reporter r2 = lr_reporter r"
    using ReadPhysicalRecord_load [OF assms(1) True] by blast
  have "drop (kBlockSize - off) ?s = physical_record t data @ rest"
    using True by (simp add: fragment_bytes_def trailer_def)
  with r2 ReadPhysicalRecord_here [of r2 0 t data rest] assms(2,3) True show ?thesis
    by (simp add: fragment_end_def header_offset_def)
next
  case False
  with assms ReadPhysicalRecord_here [of r off t data rest] show ?thesis
    by (simp add: fragment_bytes_def fragment_end_def trailer_def header_offset_def)
qed

lemma ReadPhysicalRecord_end:
  assumes "reader_at r off stream" "strict_prefix stream (fragment_bytes (off, t, data))"
    "header_offset off + kHeaderSize + length data \<le> kBlockSize"
  shows "\<exists>r'. ReadPhysicalRecord S r = Some (kEof, None, r') \<and>
     lr_reporter r' = lr_reporter r \<and> \<not> lr_resyncing r'"
proof (cases "kBlockSize < off + kHeaderSize")
  case True
  show ?thesis
  proof (cases "lr_eof r")
    case eof: True
    have "length (lr_buffer r) < kHeaderSize"
      using eof assms(1) True by (auto simp: reader_at_def kHeaderSize_def kBlockSize_def)
    with eof assms(1) ReadPhysicalRecord_short show ?thesis by (simp add: reader_at_def)
  next
    case False
    then obtain r2 where r2: "ReadPhysicalRecord S r = ReadPhysicalRecord S r2"
      "reader_at r2 0 (drop (kBlockSize - off) stream)" "lr_reporter r2 = lr_reporter r"
      using ReadPhysicalRecord_load [OF assms(1) True] by blast
    obtain z where z: "fragment_bytes (off, t, data) = stream @ z" "z \<noteq> []"
      using assms(2) by (auto simp: strict_prefix_def prefix_def)
    have "physical_record t data = drop (kBlockSize - off) (stream @ z)"
      using True by (simp add: fragment_bytes_def trailer_def flip: z(1))
    also have "\<dots> = drop (kBlockSize - off) stream @ drop (kBlockSize - off - length stream) z" by simp
    finally have p: "physical_record t data = drop (kBlockSize - off) stream @ drop (kBlockSize - off - length stream) z" .
    moreover have "kBlockSize - off \<le> length stream"
      using False assms(1) by (auto simp: reader_at_def)
    ultimately have "strict_prefix (drop (kBlockSize - off) stream) (physical_record t data)"
      using z(2) by (simp add: strict_prefix_def)
    with r2 ReadPhysicalRecord_end_here [of r2 0 _ t data] assms(3) True show ?thesis
      by (simp add: header_offset_def)
  qed
next
  case False
  with assms ReadPhysicalRecord_end_here [of r off stream t data] show ?thesis
    by (simp add: fragment_bytes_def trailer_def header_offset_def)
qed

lemma fragment_type_not_zero [simp]: "fragment_type a b \<noteq> kZeroType"
  by (simp add: fragment_type_def)

text \<open>Whole records, and records cut by the end of the file.\<close>

lemma fragments_hd_fits:
  assumes "off \<le> kBlockSize" "(off', t, d) \<in> set (take 1 (fragments off first data))"
  shows "off' = off \<and> header_offset off + kHeaderSize + length d \<le> kBlockSize \<and>
    (t = kFullType \<longrightarrow> first \<and> d = data) \<and> (t = kFirstType \<longrightarrow> first) \<and>
    (t = kMiddleType \<or> t = kLastType \<longrightarrow> \<not> first) \<and> t \<noteq> kZeroType"
  using assms header_offset_le [OF assms(1)]
  by (subst (asm) fragments.simps) (auto simp: Let_def fragment_type_def split: if_splits)

lemma ReadRecord_loop_step:
  assumes "ReadPhysicalRecord S r = Some (type_code t, Some d, r')" "\<not> lr_resyncing r'" "t \<noteq> kZeroType"
    "\<not> first \<longleftrightarrow> in_frag" "first \<longrightarrow> scratch = []" "t = fragment_type first fin"
  shows "ReadRecord_loop S fragment scratch in_frag prosp r =
    (let pos = lr_end_of_buffer_offset r' - word_of_nat (length (lr_buffer r')) - word_of_nat kHeaderSize - word_of_nat (length d);
         prosp' = (if first then pos else prosp)
     in if fin then Some (True, scratch @ d, r'\<lparr>lr_last_record_offset := prosp'\<rparr>)
        else ReadRecord_loop S d (scratch @ d) True prosp' r')"
proof -
  have rs: "r'\<lparr>lr_resyncing := False\<rparr> = r'" using assms(2) by (cases r') simp
  show ?thesis
    using assms by (subst ReadRecord_loop.simps) (auto simp: Let_def fragment_type_def, simp_all only: rs)
qed

lemma ReadRecord_loop_record:
  assumes "reader_at r off (concat (map fragment_bytes (fragments off first data)) @ rest)"
    "first \<longrightarrow> scratch = []"
  shows "\<exists>r'. ReadRecord_loop S fragment scratch (\<not> first) prosp r = Some (True, scratch @ data, r') \<and>
    reader_at r' (fragment_end (last (fragments off first data))) rest \<and> lr_reporter r' = lr_reporter r"
  using assms
proof (induction off first data arbitrary: r fragment scratch prosp rule: fragments.induct)
  case (1 off first data)
  define avail where "avail = kBlockSize - header_offset off - kHeaderSize"
  have off: "header_offset off + kHeaderSize \<le> kBlockSize"
    using 1(2) header_offset_le by (simp add: reader_at_def)
  show ?case
  proof (cases "length data \<le> avail")
    case True
    let ?t = "fragment_type first True"
    have fr: "fragments off first data = [(off, ?t, data)]"
      using True by (subst fragments.simps) (simp add: avail_def)
    have fits: "header_offset off + kHeaderSize + length data \<le> kBlockSize"
      using off True unfolding avail_def by linarith
    obtain r' where r': "ReadPhysicalRecord S r = Some (type_code ?t, Some data, r')"
      "reader_at r' (fragment_end (off, ?t, data)) rest" "lr_reporter r' = lr_reporter r"
      using ReadPhysicalRecord_fragment [OF _ fits, of r ?t rest] 1(2) by (auto simp: fr)
    then have "\<not> lr_resyncing r'" by (simp add: reader_at_def)
    with r' show ?thesis
      using ReadRecord_loop_step [OF r'(1), of first "\<not> first" scratch True fragment prosp] 1(3)
      by (auto simp: fr fragment_type_def Let_def reader_at_def)
  next
    case False
    let ?t = "fragment_type first False" and ?d = "take avail data"
    have fr: "fragments off first data = (off, ?t, ?d) # fragments kBlockSize False (drop avail data)"
      using False by (subst fragments.simps) (simp add: avail_def Let_def)
    have ne: "fragments kBlockSize False (drop avail data) \<noteq> []"
      by (subst fragments.simps) (simp add: Let_def)
    have fits: "header_offset off + kHeaderSize + length ?d \<le> kBlockSize"
      using off False by (simp add: avail_def)
    have e: "fragment_end (off, ?t, ?d) = kBlockSize"
      using off False by (simp add: fragment_end_def avail_def min_absorb2)
    obtain r' where r': "ReadPhysicalRecord S r = Some (type_code ?t, Some ?d, r')"
      "reader_at r' kBlockSize (concat (map fragment_bytes (fragments kBlockSize False (drop avail data))) @ rest)"
      "lr_reporter r' = lr_reporter r"
      using ReadPhysicalRecord_fragment [OF _ fits, of r ?t
          "concat (map fragment_bytes (fragments kBlockSize False (drop avail data))) @ rest"] 1(2)
      by (auto simp: fr e)
    then have rs: "\<not> lr_resyncing r'" by (simp add: reader_at_def)
    obtain prosp' where step: "ReadRecord_loop S fragment scratch (\<not> first) prosp r =
        ReadRecord_loop S ?d (scratch @ ?d) True prosp' r'"
      using ReadRecord_loop_step [OF r'(1) rs, of first "\<not> first" scratch False fragment prosp] 1(3)
      by (auto simp: fragment_type_def Let_def)
    show ?thesis
      using 1(1) [OF avail_def False r'(2), of "scratch @ ?d" ?d prosp'] r'(3) ne
      by (simp add: step fr)
  qed
qed

lemma ReadRecord_loop_eof:
  "ReadPhysicalRecord S r = Some (kEof, None, r') \<Longrightarrow> \<not> lr_resyncing r' \<Longrightarrow>
   \<exists>r''. ReadRecord_loop S fragment scratch in_frag prosp r = Some (False, [], r'') \<and> lr_reporter r'' = lr_reporter r'"
  by (subst ReadRecord_loop.simps) (simp add: Let_def)

lemma strict_prefix_append_cases:
  assumes "strict_prefix s (a @ b)"
  obtains "strict_prefix s a" | s' where "s = a @ s'" "strict_prefix s' b"
proof (cases "s = a")
  case True
  with assms show ?thesis by (intro that(2) [of "[]"]) (auto simp: strict_prefix_def)
next
  case False
  with assms that show ?thesis by (auto simp: strict_prefix_def prefix_append)
qed

lemma strict_prefix_append_same [simp]: "strict_prefix (a @ b) (a @ c) \<longleftrightarrow> strict_prefix b c"
  by (simp add: strict_prefix_def)

lemma ReadRecord_loop_cut:
  assumes "reader_at r off stream" "strict_prefix stream (concat (map fragment_bytes (fragments off first data)))"
    "first \<longrightarrow> scratch = []"
  shows "\<exists>r'. ReadRecord_loop S fragment scratch (\<not> first) prosp r = Some (False, [], r') \<and>
    lr_reporter r' = lr_reporter r"
  using assms
proof (induction off first data arbitrary: r stream fragment scratch prosp rule: fragments.induct)
  case (1 off first data)
  define avail where "avail = kBlockSize - header_offset off - kHeaderSize"
  have off: "header_offset off + kHeaderSize \<le> kBlockSize"
    using 1(2) header_offset_le by (simp add: reader_at_def)
  let ?fin = "length data \<le> avail"
  define t where "t = fragment_type first ?fin"
  define d where "d = take avail data"
  define more where "more = (if ?fin then [] else fragments kBlockSize False (drop avail data))"
  have fr: "fragments off first data = (off, t, d) # more"
    by (subst fragments.simps) (simp add: avail_def Let_def t_def d_def more_def)
  have fits: "header_offset off + kHeaderSize + length d \<le> kBlockSize"
    using off by (simp add: avail_def d_def)
  from 1(3) have "strict_prefix stream (fragment_bytes (off, t, d) @ concat (map fragment_bytes more))"
    by (simp add: fr)
  then show ?case
  proof (cases rule: strict_prefix_append_cases)
    case 1
    from ReadPhysicalRecord_end [OF \<open>reader_at r off stream\<close> this fits] ReadRecord_loop_eof
    show ?thesis by fastforce
  next
    case (2 s')
    then have nend: "\<not> ?fin" by (auto simp: more_def)
    have e: "fragment_end (off, t, d) = kBlockSize"
      using off nend by (simp add: fragment_end_def d_def avail_def min_absorb2)
    obtain r' where r': "ReadPhysicalRecord S r = Some (type_code t, Some d, r')"
      "reader_at r' kBlockSize s'" "lr_reporter r' = lr_reporter r"
      using ReadPhysicalRecord_fragment [OF _ fits, of r t s'] 1(2) 2(1) e fragment_type_not_zero [of first ?fin, folded t_def] by auto
    then have rs: "\<not> lr_resyncing r'" by (simp add: reader_at_def)
    obtain prosp' where step: "ReadRecord_loop S fragment scratch (\<not> first) prosp r =
        ReadRecord_loop S d (scratch @ d) True prosp' r'"
      using ReadRecord_loop_step [OF r'(1) rs, of first "\<not> first" scratch ?fin fragment prosp] 1(4) nend
      by (auto simp: t_def Let_def)
    show ?thesis
      using 1(1) [OF avail_def nend r'(2), of "scratch @ d" d prosp'] r'(3) 2(2) nend
      by (simp add: step more_def)
  qed
qed

lemma ReadRecord_at: "reader_at r off stream \<Longrightarrow> ReadRecord S r = ReadRecord_loop S [] [] False 0 r"
  by (simp add: ReadRecord_def reader_at_def)

lemma ReadRecord_record:
  assumes "reader_at r off (log_record off data @ rest)"
  shows "\<exists>r'. ReadRecord S r = Some (True, data, r') \<and> reader_at r' (log_record_end off data) rest \<and>
    lr_reporter r' = lr_reporter r"
  using ReadRecord_loop_record [of r off True data rest "[]" "[]" 0] assms
  by (simp add: ReadRecord_at log_record_def log_record_end_def)

lemma ReadRecord_cut:
  assumes "reader_at r off stream" "strict_prefix stream (log_record off data)"
  shows "\<exists>r'. ReadRecord S r = Some (False, [], r') \<and> lr_reporter r' = lr_reporter r"
  using ReadRecord_loop_cut [OF assms(1), of True data "[]" "[]" 0] assms
  by (simp add: ReadRecord_at log_record_def)

end

subsection \<open>Whole logs\<close>

text \<open>The loop of the recovery code: read records until \<open>ReadRecord\<close> returns false.\<close>

partial_function (option) read_all :: "'f sequential_file \<Rightarrow> 'f log_reader \<Rightarrow> (bytes list \<times> 'f log_reader) option" where
  "read_all S r = do {
     (ok, record, r) \<leftarrow> ReadRecord S r;
     if ok then do { (records, r) \<leftarrow> read_all S r; Some (record # records, r) } else Some ([], r) }"

lemma log_record_not_Nil: "log_record off d \<noteq> []"
proof -
  have "fragments off True d \<noteq> []" by (subst fragments.simps) (simp add: Let_def)
  then show ?thesis
    by (cases "fragments off True d") (auto simp: log_record_def fragment_bytes_def physical_record_def)
qed

context sequential_file_contract
begin

lemma read_all_cut:
  "reader_at r off stream \<Longrightarrow> prefix stream (log_bytes off ds) \<Longrightarrow>
   \<exists>m r'. read_all S r = Some (take m ds, r') \<and> lr_reporter r' = lr_reporter r \<and> m \<le> length ds \<and>
     prefix (log_bytes off (take m ds)) stream \<and>
     (m < length ds \<longrightarrow> strict_prefix stream (log_bytes off (take (Suc m) ds)))"
proof (induction ds arbitrary: r off stream)
  case Nil
  then have "strict_prefix stream (log_record off [])"
    using log_record_not_Nil [of off "[]"] by (simp add: strict_prefix_def)
  from ReadRecord_cut [OF Nil.prems(1) this] show ?case
    using Nil.prems(2) by (subst read_all.simps) auto
next
  case (Cons d ds)
  show ?case
  proof (cases "strict_prefix stream (log_record off d)")
    case True
    from ReadRecord_cut [OF Cons.prems(1) this] True show ?thesis
      by (subst read_all.simps) (auto intro!: exI [of _ 0])
  next
    case False
    with Cons.prems(2) obtain s where s: "stream = log_record off d @ s"
      "prefix s (log_bytes (log_record_end off d) ds)"
      by (auto simp: prefix_append strict_prefix_def)
    obtain r1 where r1: "ReadRecord S r = Some (True, d, r1)" "reader_at r1 (log_record_end off d) s"
      "lr_reporter r1 = lr_reporter r"
      using ReadRecord_record [of r off d s] Cons.prems(1) s by auto
    from Cons.IH [OF r1(2) s(2)] obtain m r' where
      "read_all S r1 = Some (take m ds, r')" "lr_reporter r' = lr_reporter r1" "m \<le> length ds"
      "prefix (log_bytes (log_record_end off d) (take m ds)) s"
      "m < length ds \<longrightarrow> strict_prefix s (log_bytes (log_record_end off d) (take (Suc m) ds))"
      by blast
    then show ?thesis
      using r1 s by (subst read_all.simps) (auto intro!: exI [of _ "Suc m"])
  qed
qed

lemma fresh_reader_at:
  "sound f \<Longrightarrow> reader_at (Reader_make f reporter checksum 0) kBlockSize (unread f)"
  by (simp add: reader_at_def Reader_make_def)

end

text \<open>The start of a block and the end of the previous one lay records out alike.\<close>

lemma log_record_block_start:
  "log_record kBlockSize d = log_record 0 d" "log_record_end kBlockSize d = log_record_end 0 d"
proof -
  have h: "header_offset kBlockSize = header_offset 0" "trailer kBlockSize = trailer 0"
    by (simp_all add: header_offset_def trailer_def kBlockSize_def kHeaderSize_def)
  have "map fragment_bytes (fragments kBlockSize True d) = map fragment_bytes (fragments 0 True d)"
    "fragment_end (last (fragments kBlockSize True d)) = fragment_end (last (fragments 0 True d))"
    by (subst (1 2) fragments.simps, simp add: Let_def h fragment_bytes_def fragment_end_def)+
  then show "log_record kBlockSize d = log_record 0 d" "log_record_end kBlockSize d = log_record_end 0 d"
    by (simp_all add: log_record_def log_record_end_def)
qed

lemma log_bytes_block_start: "log_bytes kBlockSize ds = log_bytes 0 ds"
  by (cases ds) (simp_all add: log_record_block_start)

lemma log_bytes_append:
  "log_bytes off (ds @ es) = log_bytes off ds @ log_bytes (foldl log_record_end off ds) es"
  by (induction ds arbitrary: off) auto

subsection \<open>Over POSIX files\<close>

context posix_kernel
begin

lemma posix_read_all:
  assumes "sound k" "prefix (rest k (psf_fd file)) (log_bytes 0 ds)"
  shows "\<exists>m r. read_all (PosixSequentialFile K) (Reader_make (file, k) reporter checksum 0) = Some (take m ds, r) \<and>
     lr_reporter r = reporter \<and> m \<le> length ds \<and>
     prefix (log_bytes 0 (take m ds)) (rest k (psf_fd file)) \<and>
     (m < length ds \<longrightarrow> strict_prefix (rest k (psf_fd file)) (log_bytes 0 (take (Suc m) ds)))"
proof -
  have "sequential.reader_at (Reader_make (file, k) reporter checksum 0) kBlockSize (rest k (psf_fd file))"
    using sequential.fresh_reader_at [of "(file, k)" reporter checksum] assms(1) by simp
  from sequential.read_all_cut [OF this, of ds] assms(2) show ?thesis
    by (simp add: log_bytes_block_start) (simp add: Reader_make_def)
qed

lemma posix_add_records:
  assumes "disk k fd = []"
  shows "\<exists>s w. add_records (PosixWritableFile K) ds (Writer_make (PosixWritableFile_make name fd, k)) = Some (s, w) \<and>
     prefix (disk (snd (lw_dest w)) fd) (log_bytes 0 ds) \<and>
     (Status_ok s \<longrightarrow> disk (snd (lw_dest w)) fd = log_bytes 0 ds)"
proof -
  let ?w = "Writer_make (PosixWritableFile_make name fd, k)"
  have "posix_valid fd (lw_dest ?w)" "posix_flushed (lw_dest ?w) = posix_written (lw_dest ?w)"
    "writer_at ?w 0" "posix_written (lw_dest ?w) = []"
    using assms by (simp_all add: posix_defs PosixWritableFile_make_def Writer_make_def writer_at_def)
  from writable.add_records_returns [OF this(1-3), of ds] this(4) show ?thesis
    by (auto simp: posix_flushed_def posix_valid_def)
qed

end

subsection \<open>Properties\<close>

text \<open>
  C23: crash safety of the log.  Take any prefix of the bytes of a log (what a crash left of the
  file): reading it returns exactly the records that are complete in the prefix, in order, and
  reports no corruption, whether the cut falls inside a header, a payload, a block trailer or between
  the fragments of a record, and with or without checksum verification.
\<close>

theorem log_prefix_reads_complete_records:
  assumes "posix_kernel K disk rest retries sound" "sound k"
    "prefix (rest k (psf_fd file)) (log_bytes 0 ds)"
  shows "\<exists>m r. read_all (PosixSequentialFile K) (Reader_make (file, k) (Some []) checksum 0) = Some (take m ds, r) \<and>
     lr_reporter r = Some [] \<and> m \<le> length ds \<and>
     prefix (log_bytes 0 (take m ds)) (rest k (psf_fd file)) \<and>
     (m < length ds \<longrightarrow> strict_prefix (rest k (psf_fd file)) (log_bytes 0 (take (Suc m) ds)))"
  using assms by (rule posix_kernel.posix_read_all)

theorem log_prefix_reads_complete_records_witness:
  "\<exists>m r. read_all (PosixSequentialFile mem_kernel)
       (Reader_make (\<lparr>psf_fd = 3, psf_filename = []\<rparr>,
          \<lparr>ms_disk = (\<lambda>_. []), ms_rest = (\<lambda>_. log_record 0 [1, 2]), ms_faults = [Errno EINTR]\<rparr>) (Some []) True 0) =
       Some (take m [[1, 2], [3]], r) \<and>
     lr_reporter r = Some [] \<and> m \<le> length [[1, 2], [3 :: byte]] \<and>
     prefix (log_bytes 0 (take m [[1, 2], [3]])) (log_record 0 [1, 2]) \<and>
     (m < length [[1, 2], [3 :: byte]] \<longrightarrow>
        strict_prefix (log_record 0 [1, 2]) (log_bytes 0 (take (Suc m) [[1, 2], [3]])))"
  using log_prefix_reads_complete_records [OF mem.posix_kernel_axioms,
      of "\<lparr>ms_disk = (\<lambda>_. []), ms_rest = (\<lambda>_. log_record 0 [1, 2]), ms_faults = [Errno EINTR]\<rparr>"
         "\<lparr>psf_fd = 3, psf_filename = []\<rparr>" "[[1, 2], [3]]" True]
  by simp

text \<open>
  A log written through the buffered POSIX file and read back.  Whatever write calls the kernel
  splits, interrupts or fails, adding the records returns, and reading the file afterwards gives a
  prefix of them without any report; when every call reported success it gives all of them.
\<close>

lemma log_written_reads_back:
  assumes "posix_kernel K disk rest retries sound" "disk k fd = []"
  shows "\<exists>s w. add_records (PosixWritableFile K) ds (Writer_make (PosixWritableFile_make name fd, k)) = Some (s, w) \<and>
    (\<forall>k'. sound k' \<and> rest k' fd' = disk (snd (lw_dest w)) fd \<longrightarrow>
       (\<exists>m r. read_all (PosixSequentialFile K)
              (Reader_make (\<lparr>psf_fd = fd', psf_filename = name\<rparr>, k') (Some []) True 0) = Some (take m ds, r) \<and>
          lr_reporter r = Some [] \<and> (Status_ok s \<longrightarrow> take m ds = ds)))"
proof -
  obtain s w where w: "add_records (PosixWritableFile K) ds (Writer_make (PosixWritableFile_make name fd, k)) = Some (s, w)"
     "prefix (disk (snd (lw_dest w)) fd) (log_bytes 0 ds)"
     "Status_ok s \<longrightarrow> disk (snd (lw_dest w)) fd = log_bytes 0 ds"
    using posix_kernel.posix_add_records [OF assms] by blast
  have "\<exists>m r. read_all (PosixSequentialFile K)
              (Reader_make (\<lparr>psf_fd = fd', psf_filename = name\<rparr>, k') (Some []) True 0) = Some (take m ds, r) \<and>
          lr_reporter r = Some [] \<and> (Status_ok s \<longrightarrow> take m ds = ds)"
    if k': "sound k'" "rest k' fd' = disk (snd (lw_dest w)) fd" for k'
  proof -
    obtain m r where r: "read_all (PosixSequentialFile K)
              (Reader_make (\<lparr>psf_fd = fd', psf_filename = name\<rparr>, k') (Some []) True 0) = Some (take m ds, r)"
      "lr_reporter r = Some []"
      "m < length ds \<longrightarrow> strict_prefix (rest k' fd') (log_bytes 0 (take (Suc m) ds))"
      using posix_kernel.posix_read_all [OF assms(1) k'(1), of "\<lparr>psf_fd = fd', psf_filename = name\<rparr>" ds "Some []" True] k'(2) w(2)
      by auto
    have "log_bytes 0 ds = log_bytes 0 (take n ds) @ log_bytes (foldl log_record_end 0 (take n ds)) (drop n ds)" for n
      using log_bytes_append [of 0 "take n ds" "drop n ds"] by simp
    then have "\<not> strict_prefix (log_bytes 0 ds) (log_bytes 0 (take n ds))" for n
      by (metis prefix_length_less length_append not_add_less1)
    then have "Status_ok s \<longrightarrow> \<not> m < length ds" using r(3) w(3) k'(2) by auto
    with r show ?thesis by auto
  qed
  with w show ?thesis by blast
qed

lemma log_written_reads_back_witness:
  "\<exists>s w. add_records (PosixWritableFile mem_kernel) [[1, 2], [3]]
        (Writer_make (PosixWritableFile_make (lit ''LOG'') 3,
           \<lparr>ms_disk = (\<lambda>_. []), ms_rest = (\<lambda>_. []), ms_faults = [Short 1]\<rparr>)) = Some (s, w)"
proof -
  let ?k = "\<lparr>ms_disk = (\<lambda>_. []), ms_rest = (\<lambda>_. []), ms_faults = [Short 1]\<rparr>"
  have "ms_disk ?k 3 = []" by simp
  from log_written_reads_back [OF mem.posix_kernel_axioms this, of "[[1, 2], [3]]" "lit ''LOG''"]
  show ?thesis by blast
qed

end
