(* ===== verification/Random_Arena.thy ===== *)
theory Random_Arena
  imports Prelude
begin

text \<open>
  \<^verbatim>\<open>util/random.h\<close>, the Lehmer generator, and \<^verbatim>\<open>util/arena.h\<close>, \<^verbatim>\<open>util/arena.cc\<close>, the bump
  allocator of the memtable.  \<open>new char[n]\<close> is a parameter of the arena; the interface the arena
  relies on is the locale \<open>heap_allocator\<close>: fresh blocks, aligned to eight bytes.  Addresses and
  sizes are natural numbers, the address space is not modelled as bounded.
\<close>

subsection \<open>The random number generator\<close>

type_synonym Random = u32

definition Random_make :: "u32 \<Rightarrow> Random" where
  "Random_make s =
     (let seed = s AND 0x7fffffff
      in if seed = 0 \<or> seed = 2147483647 then 1 else seed)"

definition Random_Next :: "Random \<Rightarrow> u32 \<times> Random" where
  "Random_Next seed =
     (let M = 2147483647 :: u32;
          product = ucast seed * 16807 :: u64;
          seed = ucast (drop_bit 31 product + (product AND ucast M));
          seed = (if M < seed then seed - M else seed)
      in (seed, seed))"

definition Random_Uniform :: "Random \<Rightarrow> u32 \<Rightarrow> u32 \<times> Random" where
  "Random_Uniform r n = (let (x, r) = Random_Next r in (x mod n, r))"

definition Random_OneIn :: "Random \<Rightarrow> u32 \<Rightarrow> bool \<times> Random" where
  "Random_OneIn r n = (let (x, r) = Random_Next r in (x mod n = 0, r))"

definition Random_Skewed :: "Random \<Rightarrow> nat \<Rightarrow> u32 \<times> Random" where
  "Random_Skewed r max_log =
     (let (base, r) = Random_Uniform r (word_of_nat (max_log + 1))
      in Random_Uniform r (push_bit (unat base) 1))"

definition valid_seed :: "Random \<Rightarrow> bool" where
  "valid_seed r \<longleftrightarrow> 0 < unat r \<and> unat r < 2147483647"

lemma Random_make_valid: "valid_seed (Random_make s)"
proof -
  have "s AND 0x7fffffff = take_bit 31 s" by (simp add: take_bit_eq_mask mask_numeral)
  then have "unat (s AND 0x7fffffff) < 2 ^ 31"
    by (simp add: unsigned_take_bit_eq take_bit_nat_less_exp [of 31, simplified])
  then show ?thesis
    by (auto simp: Random_make_def Let_def valid_seed_def word_unat_eq_iff)
qed

lemma shift_mod_M: "(p div 2 ^ 31 + p mod 2 ^ 31) mod 2147483647 = p mod (2147483647 :: nat)"
proof -
  have "p = 2147483647 * (p div 2 ^ 31) + (p div 2 ^ 31 + p mod 2 ^ 31)"
    using div_mult_mod_eq [of p "2 ^ 31"] by simp
  then show ?thesis by (metis mod_mult_self4)
qed

lemma product_not_multiple: "0 < n \<Longrightarrow> n < 2147483647 \<Longrightarrow> n * 16807 mod 2147483647 \<noteq> (0 :: nat)"
proof
  assume n: "0 < n" "n < 2147483647" and "n * 16807 mod 2147483647 = 0"
  then have "2147483647 dvd n * 16807" by auto
  moreover have "coprime (2147483647 :: nat) 16807"
    by (simp add: coprime_iff_gcd_eq_1 gcd_non_0_nat)
  ultimately have "2147483647 dvd n" using coprime_dvd_mult_left_iff by blast
  with n show False using nat_dvd_not_less by blast
qed

lemma Random_Next_eq:
  assumes "valid_seed r"
  shows "unat (fst (Random_Next r)) = unat r * 16807 mod 2147483647"
proof -
  define p where "p = unat r * 16807"
  let ?product = "ucast r * 16807 :: u64" and ?M = "2147483647 :: u32"
  have r: "unat r < 2147483647" using assms by (simp add: valid_seed_def)
  have ur: "unat (ucast r :: u64) = unat r"
    using r by (simp add: unsigned_ucast_eq take_bit_nat_eq_self)
  have p: "unat ?product = p" using r by (simp add: unat_word_ariths ur p_def)
  have m: "unat (?product AND ucast ?M) = p mod 2 ^ 31"
  proof -
    have "?product AND ucast ?M = take_bit 31 ?product" by (simp add: take_bit_eq_mask mask_numeral)
    then show ?thesis by (simp only: unsigned_take_bit_eq p) (simp only: take_bit_eq_mod)
  qed
  have d: "unat (drop_bit 31 ?product) = p div 2 ^ 31"
    using r by (simp only: unsigned_drop_bit_eq p) (simp add: drop_bit_eq_div take_bit_nat_eq_self p_def)
  define q where "q = p div 2 ^ 31 + p mod 2 ^ 31"
  have "p < 2147483647 * 16807" using r by (simp add: p_def)
  then have "p div 2 ^ 31 \<le> 16806" by simp
  moreover have "p mod 2 ^ 31 < 2 ^ 31" by simp
  ultimately have q: "q \<le> 2147483647 + 16806" by (simp add: q_def)
  have "unat (x + y) = q" if "unat x = p div 2 ^ 31" "unat y = p mod 2 ^ 31" for x y :: u64
    using q that by (simp add: unat_word_ariths q_def)
  from this [OF d m] have "unat (drop_bit 31 ?product + (?product AND ucast ?M)) = q" .
  then have u: "unat (ucast (drop_bit 31 ?product + (?product AND ucast ?M)) :: u32) = q"
    using q by (simp only: unsigned_ucast_eq) (simp add: take_bit_nat_eq_self)
  have "q mod 2147483647 = p mod 2147483647" unfolding q_def by (rule shift_mod_M)
  moreover have "p mod 2147483647 \<noteq> 0"
    using product_not_multiple [of "unat r"] assms by (simp add: valid_seed_def p_def)
  ultimately have s: "p mod 2147483647 = (if 2147483647 < q then q - 2147483647 else q)"
    using q by (cases "2147483647 < q"; cases "q = 2147483647") (simp_all add: le_mod_geq)
  show ?thesis
    using u s q by (auto simp: Random_Next_def Let_def word_less_nat_alt unat_sub_if' p_def)
qed

lemma Random_Next_valid: "valid_seed r \<Longrightarrow> valid_seed (snd (Random_Next r)) \<and> snd (Random_Next r) = fst (Random_Next r)"
  using Random_Next_eq [of r] product_not_multiple [of "unat r"]
  by (simp add: valid_seed_def) (simp add: Random_Next_def Let_def)

subsection \<open>The arena\<close>

definition arena_kBlockSize :: nat where
  "arena_kBlockSize = 4096"

text \<open>\<open>ar_blocks\<close> lists the blocks with their sizes; the null \<open>alloc_ptr_\<close> is 0.\<close>

record arena =
  ar_alloc_ptr :: nat
  ar_alloc_bytes_remaining :: nat
  ar_blocks :: "(nat \<times> nat) list"
  ar_memory_usage :: nat

type_synonym allocator = "(nat \<times> nat) list \<Rightarrow> nat \<Rightarrow> nat"

definition Arena_make :: arena where
  "Arena_make = \<lparr>ar_alloc_ptr = 0, ar_alloc_bytes_remaining = 0, ar_blocks = [], ar_memory_usage = 0\<rparr>"

definition AllocateNewBlock :: "allocator \<Rightarrow> nat \<Rightarrow> arena \<Rightarrow> nat \<times> arena" where
  "AllocateNewBlock new block_bytes a =
     (let result = new (ar_blocks a) block_bytes
      in (result, a\<lparr>ar_blocks := ar_blocks a @ [(result, block_bytes)],
                    ar_memory_usage := ar_memory_usage a + block_bytes + 8\<rparr>))"

definition AllocateFallback :: "allocator \<Rightarrow> nat \<Rightarrow> arena \<Rightarrow> nat \<times> arena" where
  "AllocateFallback new n a =
     (if arena_kBlockSize div 4 < n then AllocateNewBlock new n a
      else let (result, a) = AllocateNewBlock new arena_kBlockSize a
           in (result, a\<lparr>ar_alloc_ptr := result + n, ar_alloc_bytes_remaining := arena_kBlockSize - n\<rparr>))"

definition Allocate :: "allocator \<Rightarrow> nat \<Rightarrow> arena \<Rightarrow> nat \<times> arena" where
  "Allocate new n a =
     (if n \<le> ar_alloc_bytes_remaining a
      then (ar_alloc_ptr a, a\<lparr>ar_alloc_ptr := ar_alloc_ptr a + n,
                              ar_alloc_bytes_remaining := ar_alloc_bytes_remaining a - n\<rparr>)
      else AllocateFallback new n a)"

definition AllocateAligned :: "allocator \<Rightarrow> nat \<Rightarrow> arena \<Rightarrow> nat \<times> arena" where
  "AllocateAligned new n a =
     (let current_mod = ar_alloc_ptr a mod 8;
          slop = (if current_mod = 0 then 0 else 8 - current_mod);
          needed = n + slop
      in if needed \<le> ar_alloc_bytes_remaining a
         then (ar_alloc_ptr a + slop,
               a\<lparr>ar_alloc_ptr := ar_alloc_ptr a + needed,
                 ar_alloc_bytes_remaining := ar_alloc_bytes_remaining a - needed\<rparr>)
         else AllocateFallback new n a)"

definition MemoryUsage :: "arena \<Rightarrow> nat" where
  "MemoryUsage a = ar_memory_usage a"

subsection \<open>Allocations are disjoint\<close>

text \<open>A region is a start and a length.\<close>

definition apart :: "nat \<times> nat \<Rightarrow> nat \<times> nat \<Rightarrow> bool" where
  "apart r q \<longleftrightarrow> fst r + snd r \<le> fst q \<or> fst q + snd q \<le> fst r"

definition inside :: "nat \<times> nat \<Rightarrow> nat \<times> nat \<Rightarrow> bool" where
  "inside r b \<longleftrightarrow> fst b \<le> fst r \<and> fst r + snd r \<le> fst b + snd b"

lemma apart_sym: "apart r q \<Longrightarrow> apart q r"
  by (auto simp: apart_def)

lemma apart_inside: "apart b c \<Longrightarrow> inside r b \<Longrightarrow> apart r c"
  by (auto simp: apart_def inside_def)

lemma inside_trans: "inside r q \<Longrightarrow> inside q b \<Longrightarrow> inside r b"
  by (auto simp: inside_def)

lemma inside_refl: "inside b b"
  by (simp add: inside_def)

locale heap_allocator =
  fixes new :: allocator
  assumes new_aligned: "new bs n mod 8 = 0"
    and new_fresh: "b \<in> set bs \<Longrightarrow> apart (new bs n, n) b"
begin

text \<open>
  The invariant of an arena and the regions it has given out: all lie in its blocks and are
  disjoint, and the free part of the current block is disjoint from them.
\<close>

definition arena_ok :: "arena \<Rightarrow> (nat \<times> nat) list \<Rightarrow> bool" where
  "arena_ok a given \<longleftrightarrow>
     (\<forall>g \<in> set given. \<exists>b \<in> set (ar_blocks a). inside g b) \<and> sorted_wrt apart given \<and>
     (0 < ar_alloc_bytes_remaining a \<longrightarrow>
        (\<exists>b \<in> set (ar_blocks a). inside (ar_alloc_ptr a, ar_alloc_bytes_remaining a) b) \<and>
        (\<forall>g \<in> set given. apart (ar_alloc_ptr a, ar_alloc_bytes_remaining a) g))"

lemma arena_ok_make: "arena_ok Arena_make []"
  by (simp add: arena_ok_def Arena_make_def)

text \<open>A piece of the free region, and a new block.\<close>

lemma arena_ok_bump:
  assumes "arena_ok a given" "0 < n" "slop + n \<le> ar_alloc_bytes_remaining a"
  shows "arena_ok (a\<lparr>ar_alloc_ptr := ar_alloc_ptr a + slop + n,
      ar_alloc_bytes_remaining := ar_alloc_bytes_remaining a - (slop + n)\<rparr>) ((ar_alloc_ptr a + slop, n) # given)"
proof -
  let ?free = "(ar_alloc_ptr a, ar_alloc_bytes_remaining a)"
  let ?p = "(ar_alloc_ptr a + slop, n)"
  let ?f = "(ar_alloc_ptr a + slop + n, ar_alloc_bytes_remaining a - (slop + n))"
  have free: "\<exists>b \<in> set (ar_blocks a). inside ?free b" "\<forall>g \<in> set given. apart ?free g"
    using assms by (auto simp: arena_ok_def)
  have "inside ?p ?free" "inside ?f ?free" "apart ?f ?p"
    using assms(3) by (auto simp: inside_def apart_def)
  then have "\<forall>g \<in> set given. apart ?p g" "\<forall>g \<in> set given. apart ?f g" "apart ?f ?p"
    "\<exists>b \<in> set (ar_blocks a). inside ?p b" "\<exists>b \<in> set (ar_blocks a). inside ?f b"
    using free apart_inside inside_trans by blast+
  then show ?thesis using assms(1) by (simp add: arena_ok_def)
qed

lemma arena_ok_new_block:
  assumes "arena_ok a given" "AllocateNewBlock new n a = (p, a')"
  shows "arena_ok a' ((p, n) # given)" "\<forall>g \<in> set given. apart (p, n) g"
    "(p, n) \<in> set (ar_blocks a')" "p mod 8 = 0"
proof -
  have p: "p = new (ar_blocks a) n" "a' = a\<lparr>ar_blocks := ar_blocks a @ [(p, n)],
      ar_memory_usage := ar_memory_usage a + n + 8\<rparr>"
    using assms(2) by (auto simp: AllocateNewBlock_def Let_def)
  have b: "\<forall>b \<in> set (ar_blocks a). apart b (p, n)"
    using new_fresh apart_sym by (auto simp: p)
  show g: "\<forall>g \<in> set given. apart (p, n) g"
    using assms(1) b apart_inside apart_sym unfolding arena_ok_def by blast
  show "p mod 8 = 0" by (simp add: p new_aligned)
  show "(p, n) \<in> set (ar_blocks a')" by (simp add: p)
  have "0 < ar_alloc_bytes_remaining a \<longrightarrow> apart (ar_alloc_ptr a, ar_alloc_bytes_remaining a) (p, n)"
    using assms(1) b apart_inside unfolding arena_ok_def by blast
  then show "arena_ok a' ((p, n) # given)"
    using assms(1) g by (auto simp: arena_ok_def p(2) inside_refl)
qed

lemma AllocateFallback_ok:
  assumes "arena_ok a given" "0 < n" "AllocateFallback new n a = (p, a')"
  shows "arena_ok a' ((p, n) # given) \<and> p mod 8 = 0"
proof (cases "arena_kBlockSize div 4 < n")
  case True
  then show ?thesis using arena_ok_new_block [OF assms(1)] assms(3) by (simp add: AllocateFallback_def)
next
  case False
  obtain q a1 where q: "AllocateNewBlock new arena_kBlockSize a = (q, a1)" by fastforce
  note nb = arena_ok_new_block [OF assms(1) q]
  have a': "p = q" "a' = a1\<lparr>ar_alloc_ptr := p + n, ar_alloc_bytes_remaining := arena_kBlockSize - n\<rparr>"
    using False q assms(3) by (auto simp: AllocateFallback_def)
  have n: "n \<le> arena_kBlockSize" using False by (simp add: arena_kBlockSize_def)
  have blk: "\<forall>g \<in> set given. apart (p, arena_kBlockSize) g" "(p, arena_kBlockSize) \<in> set (ar_blocks a1)"
    using nb a' by auto
  have "inside (p, n) (p, arena_kBlockSize)" "inside (p + n, arena_kBlockSize - n) (p, arena_kBlockSize)"
    "apart (p + n, arena_kBlockSize - n) (p, n)"
    using n by (auto simp: inside_def apart_def)
  moreover have "\<forall>g \<in> set given. \<exists>b \<in> set (ar_blocks a1). inside g b" "sorted_wrt apart given"
    using nb(1) by (auto simp: arena_ok_def)
  ultimately show ?thesis
    using blk nb(4) a' apart_inside by (auto simp: arena_ok_def)
qed

lemma Allocate_ok:
  assumes "arena_ok a given" "0 < n" "Allocate new n a = (p, a')"
  shows "arena_ok a' ((p, n) # given)"
  using assms arena_ok_bump [OF assms(1,2), of 0] AllocateFallback_ok [OF assms(1,2)]
  by (auto simp: Allocate_def split: if_splits)

lemma AllocateAligned_ok:
  assumes "arena_ok a given" "0 < n" "AllocateAligned new n a = (p, a')"
  shows "arena_ok a' ((p, n) # given) \<and> p mod 8 = 0"
proof -
  define slop where "slop = (if ar_alloc_ptr a mod 8 = 0 then 0 else 8 - ar_alloc_ptr a mod 8)"
  have "(ar_alloc_ptr a + slop) mod 8 = 0" unfolding slop_def by presburger
  then show ?thesis
    using assms arena_ok_bump [OF assms(1,2), of slop] AllocateFallback_ok [OF assms(1,2)]
    by (auto simp: AllocateAligned_def Let_def slop_def [symmetric] ac_simps split: if_splits)
qed

end

text \<open>A run of requests: a size, and whether it is aligned.\<close>

fun allocate_all :: "allocator \<Rightarrow> (bool \<times> nat) list \<Rightarrow> arena \<Rightarrow> (nat \<times> nat) list" where
  "allocate_all new [] a = []"
| "allocate_all new ((aligned, n) # reqs) a =
     (let (p, a) = (if aligned then AllocateAligned new n a else Allocate new n a)
      in (p, n) # allocate_all new reqs a)"

context heap_allocator
begin

lemma allocate_all_disjoint:
  "arena_ok a given \<Longrightarrow> \<forall>(aligned, n) \<in> set reqs. 0 < n \<Longrightarrow>
   sorted_wrt apart (rev (allocate_all new reqs a) @ given)"
proof (induction reqs arbitrary: a given)
  case (Cons req reqs)
  obtain aligned n where req: "req = (aligned, n)" by fastforce
  obtain p a' where p: "(if aligned then AllocateAligned new n a else Allocate new n a) = (p, a')"
    by fastforce
  then have "arena_ok a' ((p, n) # given)"
    using Allocate_ok AllocateAligned_ok Cons.prems by (auto simp: req split: if_splits)
  from Cons.IH [OF this] Cons.prems show ?case by (simp add: req p)
qed (simp add: arena_ok_def)

lemma allocate_all_aligned:
  "arena_ok a given \<Longrightarrow> \<forall>(aligned, n) \<in> set reqs. 0 < n \<Longrightarrow>
   list_all2 (\<lambda>(aligned, n) (p, m). n = m \<and> (aligned \<longrightarrow> p mod 8 = 0)) reqs (allocate_all new reqs a)"
proof (induction reqs arbitrary: a given)
  case (Cons req reqs)
  obtain aligned n where req: "req = (aligned, n)" by fastforce
  obtain p a' where p: "(if aligned then AllocateAligned new n a else Allocate new n a) = (p, a')"
    by fastforce
  then have "arena_ok a' ((p, n) # given)" "aligned \<longrightarrow> p mod 8 = 0"
    using Allocate_ok AllocateAligned_ok Cons.prems by (auto simp: req split: if_splits)
  with Cons.IH [OF this(1)] Cons.prems show ?case by (simp add: req p)
qed simp

end

text \<open>An allocator that never reuses memory.\<close>

definition bump_new :: allocator where
  "bump_new bs n = 8 * (sum_list (map (\<lambda>(b, m). b + m) bs) + 1)"

interpretation bump: heap_allocator bump_new
proof
  fix b :: "nat \<times> nat" and bs n assume "b \<in> set bs"
  then have "fst b + snd b \<in> set (map (\<lambda>(b, m). b + m) bs)" by force
  then have "fst b + snd b \<le> sum_list (map (\<lambda>(b, m). b + m) bs)" by (rule member_le_sum_list) simp_all
  then show "apart (bump_new bs n, n) b" by (simp add: apart_def bump_new_def)
qed (simp add: bump_new_def)

subsection \<open>Properties\<close>

text \<open>
  The shift-and-add step of the random number generator computes \<open>seed * 16807 mod (2^31 - 1)\<close>
  and never leaves the range of valid seeds, where the generator would get stuck.
\<close>

lemma Random_Next_is_Lehmer:
  assumes "valid_seed r"
  shows "unat (fst (Random_Next r)) = unat r * 16807 mod (2 ^ 31 - 1) \<and> valid_seed (snd (Random_Next r))"
  using Random_Next_eq [OF assms] conjunct1 [OF Random_Next_valid [OF assms]] by simp

lemma Random_Next_is_Lehmer_witness:
  "unat (fst (Random_Next (Random_make 301))) = unat (Random_make 301) * 16807 mod (2 ^ 31 - 1)"
  using Random_Next_is_Lehmer [OF Random_make_valid, of 301] by simp

text \<open>
  No two allocations of an arena overlap, whatever the mix of plain and aligned requests, and
  the aligned ones start at a multiple of eight, provided \<open>new\<close> returns fresh aligned blocks.
\<close>

lemma arena_allocations_disjoint:
  assumes "heap_allocator new" "\<forall>(aligned, n) \<in> set reqs. 0 < n"
  shows "sorted_wrt apart (rev (allocate_all new reqs Arena_make)) \<and>
    list_all2 (\<lambda>(aligned, n) (p, m). n = m \<and> (aligned \<longrightarrow> p mod 8 = 0)) reqs (allocate_all new reqs Arena_make)"
  using heap_allocator.allocate_all_disjoint [OF assms(1) heap_allocator.arena_ok_make [OF assms(1)] assms(2)]
    heap_allocator.allocate_all_aligned [OF assms(1) heap_allocator.arena_ok_make [OF assms(1)] assms(2)]
  by simp

lemma arena_allocations_disjoint_witness:
  "sorted_wrt apart (rev (allocate_all bump_new [(False, 5), (True, 24), (False, 2000)] Arena_make))"
  using arena_allocations_disjoint [OF bump.heap_allocator_axioms, of "[(False, 5), (True, 24), (False, 2000)]"]
  by simp

end
