(* ===== verification/SkipList.thy ===== *)
theory SkipList
  imports Comparator Random_Arena "HOL-Library.Monad_Syntax"
begin

text \<open>
  \<^verbatim>\<open>db/skiplist.h\<close>.  Nodes are numbered in the order of their allocation, so that a pointer is an
  index into the list of nodes and \<open>head_\<close> is 0; the arena is threaded through for its accounting
  (that nodes do not overlap is the theorem of \<open>Random_Arena\<close>).  The acquire and release accesses are
  plain ones: the code requires writes to be synchronized externally, and the model is that of the
  writer and of readers between writes.  The abstract view of a skip list is its sequence of keys;
  \<open>sl_inv\<close> relates the linked levels to it.
\<close>

subsection \<open>The data structure\<close>

definition kMaxHeight :: nat where "kMaxHeight = 12"

text \<open>\<open>sn_key\<close> of the head is the 0 the constructor stores; it is never compared.\<close>

record 'k sl_node =
  sn_key :: "'k option"
  sn_next :: "nat option list"

record 'k skiplist =
  sl_nodes :: "'k sl_node list"
  sl_max_height :: nat
  sl_rnd :: Random

abbreviation head_node :: nat where "head_node \<equiv> 0"

definition Node_Next :: "'k sl_node list \<Rightarrow> nat \<Rightarrow> nat \<Rightarrow> nat option" where
  "Node_Next nodes x n = sn_next (nodes ! x) ! n"

definition Node_SetNext :: "'k sl_node list \<Rightarrow> nat \<Rightarrow> nat \<Rightarrow> nat option \<Rightarrow> 'k sl_node list" where
  "Node_SetNext nodes x n y =
     nodes[x := (nodes ! x)\<lparr>sn_next := (sn_next (nodes ! x))[n := y]\<rparr>]"

definition node_key :: "'k sl_node list \<Rightarrow> nat \<Rightarrow> 'k" where
  "node_key nodes x = the (sn_key (nodes ! x))"

text \<open>\<open>sizeof(Node)\<close> is 16: an eight byte key and one link.\<close>

definition NewNode :: "allocator \<Rightarrow> 'k option \<Rightarrow> nat \<Rightarrow> 'k sl_node list \<Rightarrow> arena \<Rightarrow> nat \<times> 'k sl_node list \<times> arena" where
  "NewNode new key height nodes a =
     (length nodes, nodes @ [\<lparr>sn_key = key, sn_next = replicate height None\<rparr>],
      snd (AllocateAligned new (16 + 8 * (height - 1)) a))"

definition SkipList_make :: "allocator \<Rightarrow> arena \<Rightarrow> 'k skiplist \<times> arena" where
  "SkipList_make new a =
     (let (head, nodes, a) = NewNode new None kMaxHeight [] a
      in (\<lparr>sl_nodes = nodes, sl_max_height = 1, sl_rnd = Random_make 0xdeadbeef\<rparr>, a))"

function RandomHeight_loop :: "nat \<Rightarrow> Random \<Rightarrow> nat \<times> Random" where
  "RandomHeight_loop height r =
     (if height < kMaxHeight
      then let (x, r) = Random_Next r
           in if x mod 4 = 0 then RandomHeight_loop (height + 1) r else (height, r)
      else (height, r))"
  by pat_completeness auto

termination
  by (relation "measure (\<lambda>(height, r). kMaxHeight - height)") auto

declare RandomHeight_loop.simps [simp del]

definition RandomHeight :: "Random \<Rightarrow> nat \<times> Random" where
  "RandomHeight r = RandomHeight_loop 1 r"

subsection \<open>Searching\<close>

definition KeyIsAfterNode :: "('k \<Rightarrow> 'k \<Rightarrow> int) \<Rightarrow> 'k sl_node list \<Rightarrow> 'k \<Rightarrow> nat option \<Rightarrow> bool" where
  "KeyIsAfterNode compare nodes key n =
     (case n of None \<Rightarrow> False | Some n \<Rightarrow> compare (node_key nodes n) key < 0)"

text \<open>A null \<open>prev\<close> is the empty list, on which the update has no effect.\<close>

partial_function (option) FindGreaterOrEqual_loop ::
  "('k \<Rightarrow> 'k \<Rightarrow> int) \<Rightarrow> 'k sl_node list \<Rightarrow> 'k \<Rightarrow> nat \<Rightarrow> nat \<Rightarrow> nat list \<Rightarrow> (nat option \<times> nat list) option" where
  "FindGreaterOrEqual_loop compare nodes key x level prev =
     (let next = Node_Next nodes x level
      in if KeyIsAfterNode compare nodes key next
         then FindGreaterOrEqual_loop compare nodes key (the next) level prev
         else let prev = prev[level := x]
              in if level = 0 then Some (next, prev)
                 else FindGreaterOrEqual_loop compare nodes key x (level - 1) prev)"

definition FindGreaterOrEqual ::
  "('k \<Rightarrow> 'k \<Rightarrow> int) \<Rightarrow> 'k skiplist \<Rightarrow> 'k \<Rightarrow> nat list \<Rightarrow> (nat option \<times> nat list) option" where
  "FindGreaterOrEqual compare sl key prev =
     FindGreaterOrEqual_loop compare (sl_nodes sl) key head_node (sl_max_height sl - 1) prev"

partial_function (option) FindLessThan_loop ::
  "('k \<Rightarrow> 'k \<Rightarrow> int) \<Rightarrow> 'k sl_node list \<Rightarrow> 'k \<Rightarrow> nat \<Rightarrow> nat \<Rightarrow> nat option" where
  "FindLessThan_loop compare nodes key x level =
     (let next = Node_Next nodes x level
      in if (case next of None \<Rightarrow> True | Some n \<Rightarrow> 0 \<le> compare (node_key nodes n) key)
         then if level = 0 then Some x else FindLessThan_loop compare nodes key x (level - 1)
         else FindLessThan_loop compare nodes key (the next) level)"

definition FindLessThan :: "('k \<Rightarrow> 'k \<Rightarrow> int) \<Rightarrow> 'k skiplist \<Rightarrow> 'k \<Rightarrow> nat option" where
  "FindLessThan compare sl key = FindLessThan_loop compare (sl_nodes sl) key head_node (sl_max_height sl - 1)"

partial_function (option) FindLast_loop :: "'k sl_node list \<Rightarrow> nat \<Rightarrow> nat \<Rightarrow> nat option" where
  "FindLast_loop nodes x level =
     (case Node_Next nodes x level of
        None \<Rightarrow> if level = 0 then Some x else FindLast_loop nodes x (level - 1)
      | Some next \<Rightarrow> FindLast_loop nodes next level)"

definition FindLast :: "'k skiplist \<Rightarrow> nat option" where
  "FindLast sl = FindLast_loop (sl_nodes sl) head_node (sl_max_height sl - 1)"

subsection \<open>Insertion and lookup\<close>

definition link_level :: "nat \<Rightarrow> nat list \<Rightarrow> 'k sl_node list \<Rightarrow> nat \<Rightarrow> 'k sl_node list" where
  "link_level x prev nodes i =
     (let nodes = Node_SetNext nodes x i (Node_Next nodes (prev ! i) i)
      in Node_SetNext nodes (prev ! i) i (Some x))"

text \<open>
  The array \<open>prev\<close> is not initialised: its elements are a wild address, of no node before or after the new one is made.
\<close>

definition wild_node :: "'k skiplist \<Rightarrow> nat" where
  "wild_node sl = length (sl_nodes sl) + 1"

definition SkipList_Insert ::
  "allocator \<Rightarrow> ('k \<Rightarrow> 'k \<Rightarrow> int) \<Rightarrow> 'k \<Rightarrow> 'k skiplist \<Rightarrow> arena \<Rightarrow> ('k skiplist \<times> arena) option" where
  "SkipList_Insert new compare key sl a = do {
     (x, prev) \<leftarrow> FindGreaterOrEqual compare sl key (replicate kMaxHeight (wild_node sl));
     let (height, rnd) = RandomHeight (sl_rnd sl);
     let prev = foldl (\<lambda>prev i. prev[i := head_node]) prev [sl_max_height sl..<height];
     let max_height = (if sl_max_height sl < height then height else sl_max_height sl);
     let (x, nodes, a) = NewNode new (Some key) height (sl_nodes sl) a;
     Some (\<lparr>sl_nodes = foldl (link_level x prev) nodes [0..<height],
            sl_max_height = max_height, sl_rnd = rnd\<rparr>, a) }"

definition SkipList_Contains :: "('k \<Rightarrow> 'k \<Rightarrow> int) \<Rightarrow> 'k skiplist \<Rightarrow> 'k \<Rightarrow> bool option" where
  "SkipList_Contains compare sl key = do {
     (x, _) \<leftarrow> FindGreaterOrEqual compare sl key [];
     Some (case x of None \<Rightarrow> False | Some x \<Rightarrow> compare key (node_key (sl_nodes sl) x) = 0) }"

subsection \<open>Iterators\<close>

text \<open>The state of an iterator is its \<open>node_\<close>; a null pointer is \<open>None\<close>.\<close>

type_synonym sl_iterator = "nat option"

definition sl_Valid :: "sl_iterator \<Rightarrow> bool" where
  "sl_Valid it \<longleftrightarrow> it \<noteq> None"

definition sl_key :: "'k skiplist \<Rightarrow> sl_iterator \<Rightarrow> 'k" where
  "sl_key sl it = node_key (sl_nodes sl) (the it)"

definition sl_Next :: "'k skiplist \<Rightarrow> sl_iterator \<Rightarrow> sl_iterator" where
  "sl_Next sl it = Node_Next (sl_nodes sl) (the it) 0"

definition sl_Prev :: "('k \<Rightarrow> 'k \<Rightarrow> int) \<Rightarrow> 'k skiplist \<Rightarrow> sl_iterator \<Rightarrow> sl_iterator option" where
  "sl_Prev compare sl it = do {
     node \<leftarrow> FindLessThan compare sl (node_key (sl_nodes sl) (the it));
     Some (if node = head_node then None else Some node) }"

definition sl_Seek :: "('k \<Rightarrow> 'k \<Rightarrow> int) \<Rightarrow> 'k skiplist \<Rightarrow> 'k \<Rightarrow> sl_iterator option" where
  "sl_Seek compare sl target = do { (node, _) \<leftarrow> FindGreaterOrEqual compare sl target []; Some node }"

definition sl_SeekToFirst :: "'k skiplist \<Rightarrow> sl_iterator" where
  "sl_SeekToFirst sl = Node_Next (sl_nodes sl) head_node 0"

definition sl_SeekToLast :: "'k skiplist \<Rightarrow> sl_iterator option" where
  "sl_SeekToLast sl = do { node \<leftarrow> FindLast sl; Some (if node = head_node then None else Some node) }"

subsection \<open>The invariant\<close>

text \<open>
  \<open>linked nodes l xs\<close>: following the links of level \<open>l\<close> from the first node of \<open>xs\<close> visits exactly
  \<open>xs\<close>.  The chain of a level is the head and the nodes that are tall enough, in key order.
\<close>

fun linked :: "'k sl_node list \<Rightarrow> nat \<Rightarrow> nat list \<Rightarrow> bool" where
  "linked nodes l [] = True"
| "linked nodes l [x] = (Node_Next nodes x l = None)"
| "linked nodes l (x # y # zs) = (Node_Next nodes x l = Some y \<and> linked nodes l (y # zs))"

definition node_height :: "'k sl_node list \<Rightarrow> nat \<Rightarrow> nat" where
  "node_height nodes x = length (sn_next (nodes ! x))"

abbreviation tall :: "'k sl_node list \<Rightarrow> nat \<Rightarrow> nat list \<Rightarrow> nat list" where
  "tall nodes l ns \<equiv> filter (\<lambda>n. l < node_height nodes n) ns"

definition sl_inv :: "('k \<Rightarrow> 'k \<Rightarrow> int) \<Rightarrow> ('k \<Rightarrow> bool) \<Rightarrow> 'k skiplist \<Rightarrow> nat list \<Rightarrow> bool" where
  "sl_inv compare keys sl ns \<longleftrightarrow>
     (let nodes = sl_nodes sl in
      nodes \<noteq> [] \<and> distinct ns \<and> set ns = {1..<length nodes} \<and>
      1 \<le> sl_max_height sl \<and> sl_max_height sl \<le> kMaxHeight \<and> node_height nodes head_node = kMaxHeight \<and>
      (\<forall>n \<in> set ns. 1 \<le> node_height nodes n \<and> node_height nodes n \<le> sl_max_height sl \<and> keys (node_key nodes n)) \<and>
      sorted_wrt (\<lambda>a b. compare (node_key nodes a) (node_key nodes b) < 0) ns \<and>
      (\<forall>l < kMaxHeight. linked nodes l (head_node # tall nodes l ns)))"

definition sl_keys :: "'k skiplist \<Rightarrow> nat list \<Rightarrow> 'k list" where
  "sl_keys sl ns = map (node_key (sl_nodes sl)) ns"

lemma linked_Next:
  "linked nodes l (as @ x # bs) \<Longrightarrow> Node_Next nodes x l = (case bs of [] \<Rightarrow> None | y # _ \<Rightarrow> Some y)"
proof (induction as)
  case Nil
  then show ?case by (cases bs) auto
next
  case (Cons a as)
  then show ?case by (cases as) auto
qed

lemma linked_cong:
  "(\<And>x. x \<in> set xs \<Longrightarrow> Node_Next nodes' x l = Node_Next nodes x l) \<Longrightarrow> linked nodes' l xs = linked nodes l xs"
  by (induction nodes l xs rule: linked.induct) auto

lemma linked_insert:
  assumes "linked nodes l (as @ x # bs)" "distinct (as @ x # bs)" "n \<notin> set (as @ x # bs)"
    and "\<And>y. y \<in> set (as @ bs) \<Longrightarrow> Node_Next nodes' y l = Node_Next nodes y l"
    and "Node_Next nodes' x l = Some n" "Node_Next nodes' n l = Node_Next nodes x l"
  shows "linked nodes' l (as @ x # n # bs)"
  using assms
proof (induction as)
  case Nil
  show ?case
  proof (cases bs)
    case (Cons y zs)
    have "linked nodes' l bs = linked nodes l bs"
      by (rule linked_cong) (use Nil in auto)
    with Nil Cons show ?thesis by auto
  qed (use Nil in auto)
next
  case (Cons a as)
  then have "linked nodes' l (as @ x # n # bs)" by (cases as) auto
  with Cons.prems show ?case by (cases as) auto
qed

text \<open>The split of a level's chain at a prefix of the nodes.\<close>

lemma linked_split:
  assumes "linked nodes l (head_node # tall nodes l (P @ Q))" "head_node # tall nodes l P = as @ x # cs"
  shows "Node_Next nodes x l = (case cs @ tall nodes l Q of [] \<Rightarrow> None | y # _ \<Rightarrow> Some y)"
proof -
  have "head_node # tall nodes l (P @ Q) = as @ x # cs @ tall nodes l Q"
    using assms(2) by (metis append_Cons append_assoc filter_append)
  with assms(1) show ?thesis using linked_Next by metis
qed

lemma tall_Suc_subset: "x \<in> set (head_node # tall nodes l P) \<Longrightarrow> x \<in> set (head_node # tall nodes (l - 1) P)"
  by auto

text \<open>One step of the search: along the level while the next node is in \<open>P\<close>, then down.\<close>

definition split_at :: "('k \<Rightarrow> 'k \<Rightarrow> int) \<Rightarrow> 'k sl_node list \<Rightarrow> 'k \<Rightarrow> nat list \<Rightarrow> nat list \<Rightarrow> bool" where
  "split_at compare nodes key P Q \<longleftrightarrow>
     (\<forall>n \<in> set P. compare (node_key nodes n) key < 0) \<and> (\<forall>n \<in> set Q. \<not> compare (node_key nodes n) key < 0)"

lemma split_at_Cons:
  "split_at compare nodes key (n # P) Q \<longleftrightarrow> compare (node_key nodes n) key < 0 \<and> split_at compare nodes key P Q"
  by (simp add: split_at_def)

definition first_of :: "nat list \<Rightarrow> nat option" where
  "first_of ns = (case ns of [] \<Rightarrow> None | n # _ \<Rightarrow> Some n)"

lemma first_of_simps [simp]: "first_of [] = None" "first_of (n # ns) = Some n"
  by (simp_all add: first_of_def)

lemma first_of_in: "first_of ns = Some n \<Longrightarrow> n \<in> set ns"
  by (cases ns) auto

lemma tall_cons_in: "head_node # tall nodes l P = as @ x # c # cs \<Longrightarrow> c \<in> set P"
  by (cases as) (auto simp: Cons_eq_append_conv dest!: arg_cong [of _ _ set])

lemma not_after_Q:
  assumes "split_at compare nodes key P Q"
  shows "\<not> KeyIsAfterNode compare nodes key (first_of (tall nodes l Q))"
proof (cases "first_of (tall nodes l Q)")
  case (Some n)
  then have "n \<in> set Q" using first_of_in by fastforce
  with Some assms show ?thesis by (simp add: KeyIsAfterNode_def split_at_def)
qed (simp add: KeyIsAfterNode_def)

lemma FindLessThan_cond:
  "(case n of None \<Rightarrow> True | Some n \<Rightarrow> 0 \<le> compare (node_key nodes n) key) \<longleftrightarrow> \<not> KeyIsAfterNode compare nodes key n"
  by (cases n) (auto simp: KeyIsAfterNode_def)

lemma linked_split_end:
  assumes "linked nodes l (head_node # tall nodes l (P @ Q))" "head_node # tall nodes l P = as @ [x]"
  shows "Node_Next nodes x l = first_of (tall nodes l Q)"
  using linked_split [OF assms(1), of as x "[]"] assms(2) by (simp add: first_of_def)

lemma FindGreaterOrEqual_along:
  assumes "linked nodes l (head_node # tall nodes l (P @ Q))" "split_at compare nodes key P Q"
    "head_node # tall nodes l P = as @ x # c # cs"
  shows "FindGreaterOrEqual_loop compare nodes key x l prev = FindGreaterOrEqual_loop compare nodes key c l prev"
proof -
  have "c \<in> set P" using assms(3) by (rule tall_cons_in)
  then have "KeyIsAfterNode compare nodes key (Some c)"
    using assms(2) by (simp add: KeyIsAfterNode_def split_at_def)
  moreover have "Node_Next nodes x l = Some c" using linked_split [OF assms(1,3)] by simp
  ultimately show ?thesis by (subst FindGreaterOrEqual_loop.simps) simp
qed

lemma FindGreaterOrEqual_down:
  assumes "linked nodes l (head_node # tall nodes l (P @ Q))" "split_at compare nodes key P Q"
    "head_node # tall nodes l P = as @ [x]"
  shows "FindGreaterOrEqual_loop compare nodes key x l prev =
    (if l = 0 then Some (first_of (tall nodes l Q), prev[l := x])
     else FindGreaterOrEqual_loop compare nodes key x (l - 1) (prev[l := x]))"
proof -
  have "Node_Next nodes x l = first_of (tall nodes l Q)"
    using linked_split [OF assms(1), of as x "[]"] assms(3) by (simp add: first_of_def)
  moreover have "\<not> KeyIsAfterNode compare nodes key (first_of (tall nodes l Q))"
    using assms(2) by (rule not_after_Q)
  ultimately show ?thesis by (subst FindGreaterOrEqual_loop.simps) simp
qed

lemma FindGreaterOrEqual_loop_correct:
  assumes "\<And>l. l \<le> level \<Longrightarrow> linked nodes l (head_node # tall nodes l (P @ Q))"
    "split_at compare nodes key P Q" "head_node # tall nodes level P = as @ x # cs"
  shows "\<exists>prev'. FindGreaterOrEqual_loop compare nodes key x level prev =
      Some (first_of (tall nodes 0 Q), prev') \<and> length prev' = length prev \<and>
    (\<forall>l < length prev. prev' ! l = (if l \<le> level then last (head_node # tall nodes l P) else prev ! l))"
  using assms
proof (induction level arbitrary: as x cs prev)
  case (0 as x cs prev)
  note A = FindGreaterOrEqual_along [OF 0(1) [OF order_refl] 0(2)]
    FindGreaterOrEqual_down [OF 0(1) [OF order_refl] 0(2)]
  show ?case using 0(3)
  proof (induction cs arbitrary: as x)
    case Nil
    have "last (head_node # tall nodes 0 P) = x" by (simp only: Nil last_snoc)
    then show ?case by (simp only: A(2) [OF Nil]) (simp add: nth_list_update del: last.simps)
  next
    case (Cons c cs)
    show ?case using Cons.IH [of "as @ [x]" c] Cons.prems by (simp add: A(1) [OF Cons.prems])
  qed
next
  case (Suc level as x cs prev)
  note A = FindGreaterOrEqual_along [OF Suc.prems(1) [OF order_refl] Suc.prems(2)]
    FindGreaterOrEqual_down [OF Suc.prems(1) [OF order_refl] Suc.prems(2)]
  show ?case using Suc.prems(3)
  proof (induction cs arbitrary: as x)
    case Nil
    have x: "x = last (head_node # tall nodes (Suc level) P)" by (simp only: Nil last_snoc)
    have "x \<in> set (head_node # tall nodes (Suc level) P)" by (simp only: Nil) simp
    then have "x \<in> set (head_node # tall nodes level P)" by auto
    then obtain as' cs' where "head_node # tall nodes level P = as' @ x # cs'"
      by (meson split_list)
    from Suc.IH [OF _ Suc.prems(2) this, of "prev[Suc level := x]"] Suc.prems(1)
    obtain prev' where p: "FindGreaterOrEqual_loop compare nodes key x level (prev[Suc level := x]) =
        Some (first_of (tall nodes 0 Q), prev')" "length prev' = length prev"
      "\<forall>l < length prev. prev' ! l = (if l \<le> level then last (head_node # tall nodes l P) else prev[Suc level := x] ! l)"
      by auto
    have "\<forall>l < length prev. prev' ! l = (if l \<le> Suc level then last (head_node # tall nodes l P) else prev ! l)"
      using p(3) x by (auto simp: nth_list_update le_Suc_eq)
    with p show ?case by (simp only: A(2) [OF Nil]) simp
  next
    case (Cons c cs)
    show ?case using Cons.IH [of "as @ [x]" c] Cons.prems by (simp add: A(1) [OF Cons.prems])
  qed
qed

lemma FindLessThan_loop_correct:
  assumes "\<And>l. l \<le> level \<Longrightarrow> linked nodes l (head_node # tall nodes l (P @ Q))"
    "split_at compare nodes key P Q" "head_node # tall nodes level P = as @ x # cs"
  shows "FindLessThan_loop compare nodes key x level = Some (last (head_node # tall nodes 0 P))"
  using assms
proof (induction level arbitrary: as x cs)
  case (0 as x cs)
  note nx = linked_split [OF 0(1) [OF order_refl]]
  show ?case using 0(3)
  proof (induction cs arbitrary: as x)
    case Nil
    have "last (head_node # tall nodes 0 P) = x" by (simp only: Nil last_snoc)
    then show ?case using linked_split_end [OF 0(1) [OF order_refl] Nil] not_after_Q [OF 0(2)]
      by (subst FindLessThan_loop.simps) (simp add: FindLessThan_cond del: last.simps)
  next
    case (Cons c cs)
    have "c \<in> set P" using Cons.prems by (rule tall_cons_in)
    with 0(2) have "\<not> 0 \<le> compare (node_key nodes c) key" by (simp add: split_at_def not_le)
    with nx [OF Cons.prems] Cons.IH [of "as @ [x]" c] Cons.prems show ?case
      by (subst FindLessThan_loop.simps) simp
  qed
next
  case (Suc level as x cs)
  note nx = linked_split [OF Suc.prems(1) [OF order_refl]]
  show ?case using Suc.prems(3)
  proof (induction cs arbitrary: as x)
    case Nil
    have "x \<in> set (head_node # tall nodes (Suc level) P)" by (simp only: Nil) simp
    then have "x \<in> set (head_node # tall nodes level P)" by auto
    then obtain as' cs' where "head_node # tall nodes level P = as' @ x # cs'"
      by (meson split_list)
    from Suc.IH [OF _ Suc.prems(2) this] Suc.prems(1) linked_split_end [OF Suc.prems(1) [OF order_refl] Nil]
      not_after_Q [OF Suc.prems(2)] show ?case
      by (subst FindLessThan_loop.simps) (simp add: FindLessThan_cond del: last.simps)
  next
    case (Cons c cs)
    have "c \<in> set P" using Cons.prems by (rule tall_cons_in)
    with Suc.prems(2) have "\<not> 0 \<le> compare (node_key nodes c) key" by (simp add: split_at_def not_le)
    with nx [OF Cons.prems] Cons.IH [of "as @ [x]" c] Cons.prems show ?case
      by (subst FindLessThan_loop.simps) simp
  qed
qed

lemma FindLast_loop_correct:
  assumes "\<And>l. l \<le> level \<Longrightarrow> linked nodes l (head_node # tall nodes l P)"
    "head_node # tall nodes level P = as @ x # cs"
  shows "FindLast_loop nodes x level = Some (last (head_node # tall nodes 0 P))"
  using assms
proof (induction level arbitrary: as x cs)
  case (0 as x cs)
  note nx = linked_split [where Q = "[]", simplified, OF 0(1) [OF order_refl]]
  show ?case using 0(2)
  proof (induction cs arbitrary: as x)
    case Nil
    have "last (head_node # tall nodes 0 P) = x" by (simp only: Nil last_snoc)
    then show ?case using nx [OF Nil] by (subst FindLast_loop.simps) (simp del: last.simps)
  next
    case (Cons c cs)
    with nx [OF Cons.prems] Cons.IH [of "as @ [x]" c] show ?case
      by (subst FindLast_loop.simps) simp
  qed
next
  case (Suc level as x cs)
  note nx = linked_split [where Q = "[]", simplified, OF Suc.prems(1) [OF order_refl]]
  show ?case using Suc.prems(2)
  proof (induction cs arbitrary: as x)
    case Nil
    have "x \<in> set (head_node # tall nodes (Suc level) P)" by (simp only: Nil) simp
    then have "x \<in> set (head_node # tall nodes level P)" by auto
    then obtain as' cs' where "head_node # tall nodes level P = as' @ x # cs'"
      by (meson split_list)
    from Suc.IH [OF _ this] Suc.prems(1) nx [OF Nil] show ?case
      by (subst FindLast_loop.simps) simp
  next
    case (Cons c cs)
    with nx [OF Cons.prems] Cons.IH [of "as @ [x]" c] show ?case
      by (subst FindLast_loop.simps) simp
  qed
qed

subsection \<open>Linking a new node\<close>

lemma Node_SetNext_simps:
  "x < length nodes \<Longrightarrow> n < node_height nodes x \<Longrightarrow>
   Node_Next (Node_SetNext nodes x n y) z l = (if z = x \<and> l = n then y else Node_Next nodes z l)"
  "length (Node_SetNext nodes x n y) = length nodes"
  "node_height (Node_SetNext nodes x n y) z = node_height nodes z"
  "node_key (Node_SetNext nodes x n y) z = node_key nodes z"
  by (cases "x < length nodes";
      auto simp: Node_SetNext_def Node_Next_def node_height_def node_key_def nth_list_update list_update_beyond)+

lemma link_level_simps:
  assumes "x < length N" "i < node_height N x" "prev ! i < length N" "i < node_height N (prev ! i)" "prev ! i \<noteq> x"
  shows "Node_Next (link_level x prev N i) z l = (if l = i \<and> z = x then Node_Next N (prev ! i) i
      else if l = i \<and> z = prev ! i then Some x else Node_Next N z l)"
    "length (link_level x prev N i) = length N"
    "node_height (link_level x prev N i) z = node_height N z"
    "node_key (link_level x prev N i) z = node_key N z"
  using assms by (simp_all add: link_level_def Let_def Node_SetNext_simps)

lemma link_levels:
  assumes "x < length nodes" "h \<le> node_height nodes x"
    and "\<And>i. i < h \<Longrightarrow> prev ! i < length nodes \<and> prev ! i \<noteq> x \<and> i < node_height nodes (prev ! i)"
  shows "length (foldl (link_level x prev) nodes [0..<h]) = length nodes \<and>
    (\<forall>z. node_height (foldl (link_level x prev) nodes [0..<h]) z = node_height nodes z) \<and>
    (\<forall>z. node_key (foldl (link_level x prev) nodes [0..<h]) z = node_key nodes z) \<and>
    (\<forall>z l. Node_Next (foldl (link_level x prev) nodes [0..<h]) z l =
       (if l < h \<and> z = x then Node_Next nodes (prev ! l) l
        else if l < h \<and> z = prev ! l then Some x else Node_Next nodes z l))"
  using assms
proof (induction h)
  case (Suc h)
  let ?n = "foldl (link_level x prev) nodes [0..<h]"
  have ih: "length ?n = length nodes" "\<forall>z. node_height ?n z = node_height nodes z"
    "\<forall>z. node_key ?n z = node_key nodes z"
    "\<forall>z l. Node_Next ?n z l = (if l < h \<and> z = x then Node_Next nodes (prev ! l) l
        else if l < h \<and> z = prev ! l then Some x else Node_Next nodes z l)"
    using Suc by auto
  have p: "prev ! h < length nodes" "prev ! h \<noteq> x" "h < node_height nodes (prev ! h)" "h < node_height nodes x"
    using Suc.prems by auto
  have "x < length ?n" "h < node_height ?n x" "prev ! h < length ?n" "h < node_height ?n (prev ! h)" "prev ! h \<noteq> x"
    using ih(1,2) p Suc.prems(1) by auto
  note L = link_level_simps [OF this]
  have "foldl (link_level x prev) nodes [0..<Suc h] = link_level x prev ?n h" by simp
  then show ?case
    using L ih p by (simp only:) (auto simp: less_Suc_eq)
qed simp

lemma foldl_update_heads:
  "i < length prev \<Longrightarrow> foldl (\<lambda>prev i. prev[i := v]) prev [m..<h] ! i = (if m \<le> i \<and> i < h then v else prev ! i)"
  "length (foldl (\<lambda>prev i. prev[i := v]) prev [m..<h]) = length prev"
proof (induction h)
  case (Suc h)
  { case 1 then show ?case using Suc by (cases "i = h") auto }
  { case 2 then show ?case using Suc by auto }
qed simp_all

lemma RandomHeight_range: "1 \<le> fst (RandomHeight r)" "fst (RandomHeight r) \<le> kMaxHeight"
proof -
  have "1 \<le> h \<Longrightarrow> h \<le> kMaxHeight \<Longrightarrow> 1 \<le> fst (RandomHeight_loop h r) \<and> fst (RandomHeight_loop h r) \<le> kMaxHeight" for h
  proof (induction h r rule: RandomHeight_loop.induct)
    case (1 h r)
    then show ?case by (simp add: RandomHeight_loop.simps [of h r] split: prod.splits)
  qed
  from this [of 1] show "1 \<le> fst (RandomHeight r)" "fst (RandomHeight r) \<le> kMaxHeight"
    by (simp_all add: RandomHeight_def kMaxHeight_def)
qed

text \<open>The new node joins the chains of its levels and no other.\<close>

lemma linked_new_node:
  assumes l: "linked nodes l (head_node # tall nodes l (P @ Q))"
    and d: "distinct (head_node # P @ Q)" "n \<notin> set (head_node # P @ Q)"
    and nx: "\<And>z. z \<in> set (head_node # P @ Q) \<or> z = n \<and> l < h \<Longrightarrow>
      Node_Next nodes' z l = (if l < h \<and> z = n then Node_Next nodes (prev ! l) l
        else if l < h \<and> z = prev ! l then Some n else Node_Next nodes z l)"
    and h: "node_height nodes' n = h" "\<And>z. z \<in> set (P @ Q) \<Longrightarrow> node_height nodes' z = node_height nodes z"
    and p: "l < h \<Longrightarrow> prev ! l = last (head_node # tall nodes l P)"
  shows "linked nodes' l (head_node # tall nodes' l (P @ n # Q))"
proof -
  have t: "tall nodes' l P = tall nodes l P" "tall nodes' l Q = tall nodes l Q"
    using h(2) by (auto intro!: filter_cong)
  show ?thesis
  proof (cases "l < h")
    case True
    obtain as x where x: "head_node # tall nodes l P = as @ [x]"
      by (metis append_butlast_last_id list.distinct(1))
    have x': "prev ! l = x" using p [OF True] x by (metis last_snoc)
    have c: "head_node # tall nodes l (P @ Q) = as @ x # tall nodes l Q"
      using x by (metis append_Cons append_Nil append_assoc filter_append)
    have dc: "distinct (head_node # tall nodes l (P @ Q))" "n \<notin> set (head_node # tall nodes l (P @ Q))"
      using d by auto
    then have dc': "distinct (as @ x # tall nodes l Q)" "n \<notin> set (as @ x # tall nodes l Q)"
      unfolding c by blast+
    then have "linked nodes' l (as @ x # n # tall nodes l Q)"
    proof (intro linked_insert [of nodes])
      have m: "z \<in> set (as @ x # tall nodes l Q) \<Longrightarrow> z \<in> set (head_node # P @ Q)" for z
        unfolding c [symmetric] by auto
      show "Node_Next nodes' x l = Some n"
        using nx [OF disjI1 [OF m], of x] True dc'(2) by (simp add: x')
      show "Node_Next nodes' n l = Node_Next nodes x l"
        using nx [of n] True by (simp add: x')
      show "Node_Next nodes' y l = Node_Next nodes y l" if "y \<in> set (as @ tall nodes l Q)" for y
        using nx [OF disjI1 [OF m], of y] that dc' by (auto simp: x')
    qed (use l [unfolded c] dc' in simp_all)
    then show ?thesis using True x h(1) by (simp add: t) (metis append_Cons append_Nil append_assoc)
  next
    case False
    have "tall nodes' l (P @ n # Q) = tall nodes l (P @ Q)" using False h(1) t by simp
    moreover have "linked nodes' l (head_node # tall nodes l (P @ Q)) = linked nodes l (head_node # tall nodes l (P @ Q))"
    proof (rule linked_cong)
      fix x assume "x \<in> set (head_node # tall nodes l (P @ Q))"
      then have "x \<in> set (head_node # P @ Q)" by auto
      then show "Node_Next nodes' x l = Node_Next nodes x l" using nx [of x] False by simp
    qed
    ultimately show ?thesis using l by simp
  qed
qed

subsection \<open>A skip list is a sorted list\<close>

text \<open>The keys after an insertion.\<close>

definition insert_sorted :: "('k \<Rightarrow> 'k \<Rightarrow> int) \<Rightarrow> 'k \<Rightarrow> 'k list \<Rightarrow> 'k list" where
  "insert_sorted compare key ks =
     takeWhile (\<lambda>k. compare k key < 0) ks @ key # dropWhile (\<lambda>k. compare k key < 0) ks"

lemma set_insert_sorted [simp]: "set (insert_sorted compare key ks) = insert key (set ks)"
  by (induction ks) (auto simp: insert_sorted_def)

fun insert_all :: "allocator \<Rightarrow> ('k \<Rightarrow> 'k \<Rightarrow> int) \<Rightarrow> 'k list \<Rightarrow> 'k skiplist \<times> arena \<Rightarrow> ('k skiplist \<times> arena) option" where
  "insert_all new compare [] t = Some t"
| "insert_all new compare (k # ks) t = do {
     t \<leftarrow> SkipList_Insert new compare k (fst t) (snd t);
     insert_all new compare ks t }"

text \<open>
  Iterators: \<open>sl_at ns it i\<close> says that \<open>it\<close> stands at position \<open>i\<close> of the list, or is not valid
  when there is no such position.
\<close>

definition sl_at :: "nat list \<Rightarrow> sl_iterator \<Rightarrow> nat \<Rightarrow> bool" where
  "sl_at ns it i \<longleftrightarrow> it = (if i < length ns then Some (ns ! i) else None)"

lemma sl_at_simps:
  assumes "sl_at ns it i"
  shows "sl_Valid it \<longleftrightarrow> i < length ns" "i < length ns \<Longrightarrow> sl_key sl it = sl_keys sl ns ! i"
  using assms by (simp_all add: sl_at_def sl_Valid_def sl_key_def sl_keys_def)

context key_order
begin

lemma split_at_takeWhile:
  assumes "sorted_wrt (\<lambda>a b. compare (node_key nodes a) (node_key nodes b) < 0) ns"
    "\<forall>n \<in> set ns. keys (node_key nodes n)" "keys key"
  shows "split_at compare nodes key (takeWhile (\<lambda>n. compare (node_key nodes n) key < 0) ns)
    (dropWhile (\<lambda>n. compare (node_key nodes n) key < 0) ns)"
  using assms
proof (induction ns)
  case (Cons n ns)
  show ?case
  proof (cases "compare (node_key nodes n) key < 0")
    case False
    have "\<not> compare (node_key nodes m) key < 0" if "m \<in> set ns" for m
      using False Cons.prems that compare_less_trans [of "node_key nodes n" "node_key nodes m" key] by auto
    with False show ?thesis by (simp add: split_at_def)
  next
    case True
    have "split_at compare nodes key (takeWhile (\<lambda>n. compare (node_key nodes n) key < 0) ns)
      (dropWhile (\<lambda>n. compare (node_key nodes n) key < 0) ns)"
      by (rule Cons.IH) (use Cons.prems in auto)
    with True show ?thesis by (simp add: split_at_Cons)
  qed
qed (simp add: split_at_def)

abbreviation before :: "'k skiplist \<Rightarrow> 'k \<Rightarrow> nat list \<Rightarrow> nat list" where
  "before sl key ns \<equiv> takeWhile (\<lambda>n. compare (node_key (sl_nodes sl) n) key < 0) ns"

abbreviation from_on :: "'k skiplist \<Rightarrow> 'k \<Rightarrow> nat list \<Rightarrow> nat list" where
  "from_on sl key ns \<equiv> dropWhile (\<lambda>n. compare (node_key (sl_nodes sl) n) key < 0) ns"

lemma sl_inv_split:
  assumes "sl_inv compare keys sl ns" "keys key"
  shows "split_at compare (sl_nodes sl) key (before sl key ns) (from_on sl key ns)"
    "l < kMaxHeight \<Longrightarrow> linked (sl_nodes sl) l (head_node # tall (sl_nodes sl) l (before sl key ns @ from_on sl key ns))"
    "set (before sl key ns) \<subseteq> set ns"
    "set ms \<subseteq> set ns \<Longrightarrow> tall (sl_nodes sl) 0 ms = ms"
proof -
  show "split_at compare (sl_nodes sl) key (before sl key ns) (from_on sl key ns)"
    using assms by (intro split_at_takeWhile) (auto simp: sl_inv_def Let_def)
  show "l < kMaxHeight \<Longrightarrow> linked (sl_nodes sl) l (head_node # tall (sl_nodes sl) l (before sl key ns @ from_on sl key ns))"
    using assms(1) by (simp add: sl_inv_def Let_def)
  show "set (before sl key ns) \<subseteq> set ns" by (meson set_takeWhileD subsetI)
  have "\<forall>n \<in> set ns. 0 < node_height (sl_nodes sl) n"
    using assms(1) unfolding sl_inv_def Let_def by fastforce
  then show "set ms \<subseteq> set ns \<Longrightarrow> tall (sl_nodes sl) 0 ms = ms" by (intro filter_True) blast
qed

lemma FindGreaterOrEqual_correct:
  assumes "sl_inv compare keys sl ns" "keys key"
  shows "\<exists>prev'. FindGreaterOrEqual compare sl key prev = Some (first_of (from_on sl key ns), prev') \<and>
    length prev' = length prev \<and>
    (\<forall>l < length prev. prev' ! l = (if l < sl_max_height sl
       then last (head_node # tall (sl_nodes sl) l (before sl key ns)) else prev ! l))"
proof -
  have m: "1 \<le> sl_max_height sl" "sl_max_height sl \<le> kMaxHeight"
    using assms(1) by (simp_all add: sl_inv_def Let_def)
  have t: "tall (sl_nodes sl) 0 (from_on sl key ns) = from_on sl key ns"
    using sl_inv_split(4) [OF assms] set_dropWhileD by (metis subsetI)
  show ?thesis
    using FindGreaterOrEqual_loop_correct [of "sl_max_height sl - 1" "sl_nodes sl" "before sl key ns"
        "from_on sl key ns" compare key "[]" head_node _ prev] sl_inv_split(1,2) [OF assms] m
    by (auto simp: FindGreaterOrEqual_def t)
qed

lemma FindLessThan_correct:
  assumes "sl_inv compare keys sl ns" "keys key"
  shows "FindLessThan compare sl key = Some (last (head_node # before sl key ns))"
proof -
  have m: "1 \<le> sl_max_height sl" "sl_max_height sl \<le> kMaxHeight"
    using assms(1) by (simp_all add: sl_inv_def Let_def)
  have t: "tall (sl_nodes sl) 0 (before sl key ns) = before sl key ns"
    using sl_inv_split(3,4) [OF assms] by blast
  show ?thesis
    using FindLessThan_loop_correct [of "sl_max_height sl - 1" "sl_nodes sl" "before sl key ns"
        "from_on sl key ns" compare key "[]" head_node] sl_inv_split(1,2) [OF assms] m
    by (auto simp: FindLessThan_def t)
qed

lemma FindLast_correct:
  assumes "sl_inv compare keys sl ns"
  shows "FindLast sl = Some (last (head_node # ns))"
proof -
  have m: "1 \<le> sl_max_height sl" "sl_max_height sl \<le> kMaxHeight"
    using assms(1) by (simp_all add: sl_inv_def Let_def)
  have t: "tall (sl_nodes sl) 0 ns = ns"
    using assms(1) by (auto simp: sl_inv_def Let_def intro!: filter_True)
  show ?thesis
    using FindLast_loop_correct [of "sl_max_height sl - 1" "sl_nodes sl" ns "[]" head_node] assms m
    by (auto simp: FindLast_def sl_inv_def Let_def t)
qed

lemma sorted_new_key:
  assumes inv: "sl_inv compare keys sl ns" "keys key"
    and fresh: "\<forall>n \<in> set ns. compare (node_key (sl_nodes sl) n) key \<noteq> 0"
    and K: "\<And>z. z \<in> set ns \<Longrightarrow> node_key nodes' z = node_key (sl_nodes sl) z" "node_key nodes' n = key"
  shows "sorted_wrt (\<lambda>a b. compare (node_key nodes' a) (node_key nodes' b) < 0)
    (before sl key ns @ n # from_on sl key ns)"
proof -
  let ?lt = "\<lambda>a b. compare (node_key nodes' a) (node_key nodes' b) < 0"
  have k: "\<forall>z \<in> set ns. keys (node_key (sl_nodes sl) z)"
    and s: "sorted_wrt (\<lambda>a b. compare (node_key (sl_nodes sl) a) (node_key (sl_nodes sl) b) < 0) ns"
    using inv(1) by (simp_all add: sl_inv_def Let_def)
  have "sorted_wrt ?lt ns"
    by (rule sorted_wrt_mono_rel [OF _ s]) (simp add: K)
  then have st: "sorted_wrt ?lt (before sl key ns @ from_on sl key ns)" by simp
  have sub: "set (before sl key ns) \<subseteq> set ns" "set (from_on sl key ns) \<subseteq> set ns"
    by (meson set_takeWhileD set_dropWhileD subsetI)+
  have "\<forall>a \<in> set (before sl key ns). ?lt a n"
  proof
    fix a assume a: "a \<in> set (before sl key ns)"
    then have "a \<in> set ns" using sub(1) by blast
    moreover have "compare (node_key (sl_nodes sl) a) key < 0"
      using a sl_inv_split(1) [OF inv] unfolding split_at_def by blast
    ultimately show "?lt a n" by (simp add: K)
  qed
  moreover have "\<forall>b \<in> set (from_on sl key ns). ?lt n b"
  proof
    fix b assume b: "b \<in> set (from_on sl key ns)"
    then have "b \<in> set ns" using sub(2) by blast
    moreover have "\<not> compare (node_key (sl_nodes sl) b) key < 0"
      using b sl_inv_split(1) [OF inv] unfolding split_at_def by blast
    ultimately show "?lt n b"
      using fresh k inv(2) compare_flip [of key "node_key (sl_nodes sl) b"] by (fastforce simp: K)
  qed
  ultimately show ?thesis using st [unfolded sorted_wrt_append] by (simp add: sorted_wrt_append)
qed

lemma Insert_correct:
  assumes inv: "sl_inv compare keys sl ns" "keys key"
    and fresh: "\<forall>n \<in> set ns. compare (node_key (sl_nodes sl) n) key \<noteq> 0"
  shows "\<exists>sl' a'. SkipList_Insert new compare key sl a = Some (sl', a') \<and>
    sl_inv compare keys sl' (before sl key ns @ length (sl_nodes sl) # from_on sl key ns) \<and>
    node_key (sl_nodes sl') (length (sl_nodes sl)) = key \<and>
    (\<forall>z \<in> set ns. node_key (sl_nodes sl') z = node_key (sl_nodes sl) z)"
proof -
  let ?N = "sl_nodes sl" and ?m = "sl_max_height sl" and ?n = "length (sl_nodes sl)"
  let ?P = "before sl key ns" and ?Q = "from_on sl key ns"
  obtain prev where prev: "FindGreaterOrEqual compare sl key (replicate kMaxHeight (wild_node sl)) = Some (first_of ?Q, prev)"
    "length prev = kMaxHeight"
    "\<forall>l < kMaxHeight. prev ! l = (if l < ?m then last (head_node # tall ?N l ?P) else wild_node sl)"
    using FindGreaterOrEqual_correct [OF inv, of "replicate kMaxHeight (wild_node sl)"] by auto
  obtain h rnd where h: "RandomHeight (sl_rnd sl) = (h, rnd)" by fastforce
  have h12: "1 \<le> h" "h \<le> kMaxHeight" using RandomHeight_range [of "sl_rnd sl"] h by simp_all
  define prev2 where "prev2 = foldl (\<lambda>prev i. prev[i := head_node]) prev [?m..<h]"
  define N1 where "N1 = ?N @ [\<lparr>sn_key = Some key, sn_next = replicate h None\<rparr>]"
  define N2 where "N2 = foldl (link_level ?n prev2) N1 [0..<h]"
  define sl' where "sl' = \<lparr>sl_nodes = N2, sl_max_height = max ?m h, sl_rnd = rnd\<rparr>"
  have ins: "SkipList_Insert new compare key sl a = Some (sl', snd (AllocateAligned new (16 + 8 * (h - 1)) a))"
    by (simp add: SkipList_Insert_def prev(1) h NewNode_def Let_def sl'_def N2_def N1_def prev2_def max_def)
  have nodes: "?N \<noteq> []" "distinct ns" "set ns = {1..<?n}" "1 \<le> ?m" "?m \<le> kMaxHeight"
    "node_height ?N head_node = kMaxHeight"
    "\<forall>n \<in> set ns. 1 \<le> node_height ?N n \<and> node_height ?N n \<le> ?m \<and> keys (node_key ?N n)"
    "\<forall>l < kMaxHeight. linked ?N l (head_node # tall ?N l ns)"
    using inv(1) by (simp_all add: sl_inv_def Let_def)
  have PQ: "set (?P @ ?Q) = set ns" "distinct (?P @ ?Q)" using nodes(2) by simp_all
  have Ps: "set ?P \<subseteq> set ns" by (rule sl_inv_split(3) [OF inv])
  have N1: "node_height N1 z = node_height ?N z" "node_key N1 z = node_key ?N z"
    "Node_Next N1 z l = Node_Next ?N z l" if "z < ?n" for z l
    using that by (simp_all add: N1_def node_height_def node_key_def Node_Next_def nth_append)
  have N1n: "node_height N1 ?n = h" "node_key N1 ?n = key"
    by (simp_all add: N1_def node_height_def node_key_def)
  have p2: "prev2 ! l = last (head_node # tall ?N l ?P)" if "l < h" for l
  proof (cases "l < ?m")
    case False
    then have "tall ?N l ?P = []" using nodes(7) Ps by (fastforce simp: filter_empty_conv)
    then show ?thesis
      using False that h12(2) prev(2) foldl_update_heads(1) [of l prev head_node ?m h] by (simp add: prev2_def)
  next
    case True
    then show ?thesis
      using that h12(2) prev(2,3) foldl_update_heads(1) [of l prev head_node ?m h] by (simp add: prev2_def)
  qed
  have p2n: "prev2 ! l < length N1 \<and> prev2 ! l \<noteq> ?n \<and> l < node_height N1 (prev2 ! l)" if "l < h" for l
  proof -
    have "prev2 ! l \<in> set (head_node # tall ?N l ?P)"
      using p2 [OF that] last_in_set [of "head_node # tall ?N l ?P"] by (simp del: last.simps)
    then have "prev2 ! l < ?n \<and> l < node_height ?N (prev2 ! l)"
      using Ps nodes that h12(2) by auto
    then show ?thesis using N1(1) by (simp add: N1_def)
  qed
  have "?n < length N1" by (simp add: N1_def)
  note L = link_levels [OF this _ p2n, of h, unfolded N1n, OF order_refl]
  have H: "node_height N2 z = node_height ?N z" "node_key N2 z = node_key ?N z" if "z < ?n" for z
    using L that N1 by (simp_all add: N2_def)
  have Hn: "node_height N2 ?n = h" "node_key N2 ?n = key" "length N2 = Suc ?n"
    using L N1n by (simp_all add: N2_def) (simp add: N1_def)
  have nx: "Node_Next N2 z l = (if l < h \<and> z = ?n then Node_Next ?N (prev2 ! l) l
        else if l < h \<and> z = prev2 ! l then Some ?n else Node_Next ?N z l)"
    if "z \<in> set (head_node # ?P @ ?Q) \<or> z = ?n \<and> l < h" for z l
  proof -
    have "z < ?n \<or> z = ?n \<and> l < h" using that PQ(1) nodes(1,3) by auto
    then show ?thesis
      using L p2n [of l] N1(3) [of "prev2 ! l" l] N1(3) [of z l] by (auto simp: N2_def N1_def)
  qed
  have lnk: "linked N2 l (head_node # tall N2 l (?P @ ?n # ?Q))" if l: "l < kMaxHeight" for l
  proof (rule linked_new_node [OF _ _ _ nx Hn(1) H(1) p2])
    show "linked ?N l (head_node # tall ?N l (?P @ ?Q))" using nodes(8) l by simp
    show "distinct (head_node # ?P @ ?Q)" using nodes(2,3) PQ by simp
    show "?n \<notin> set (head_node # ?P @ ?Q)" using nodes(1,3) PQ by simp
    show "z \<in> set (?P @ ?Q) \<Longrightarrow> z < ?n" for z using nodes(3) PQ(1) by auto
  qed
  have srt: "sorted_wrt (\<lambda>a b. compare (node_key N2 a) (node_key N2 b) < 0) (?P @ ?n # ?Q)"
    by (rule sorted_new_key [OF inv fresh]) (use H(2) Hn(2) nodes(3) in auto)
  have Qs: "set ?Q \<subseteq> set ns" by (meson set_dropWhileD subsetI)
  have "set (?P @ ?n # ?Q) = insert ?n (set (?P @ ?Q))" by (simp only: set_append list.set) blast
  then have st1: "set (?P @ ?n # ?Q) = insert ?n (set ns)" by (simp only: PQ(1))
  have "?n \<notin> set ?P \<and> ?n \<notin> set ?Q" using Ps Qs nodes(3) by auto
  then have st2: "distinct (?P @ ?n # ?Q)" using PQ(2) [unfolded distinct_append] by simp
  note st = st1 st2
  have ht: "1 \<le> node_height N2 z \<and> node_height N2 z \<le> max ?m h \<and> keys (node_key N2 z)"
    if "z \<in> set (?P @ ?n # ?Q)" for z
  proof (cases "z = ?n")
    case False
    then have "z \<in> set ns" using that st1 by blast
    with nodes(3,7) H [of z] show ?thesis by (auto simp: le_max_iff_disj)
  qed (use Hn h12(1) inv(2) in simp)
  have "sl_inv compare keys sl' (?P @ ?n # ?Q)"
    unfolding sl_inv_def Let_def
  proof (intro conjI)
    have "1 \<le> ?n" using nodes(1) by (cases ?N) simp_all
    then show "set (?P @ ?n # ?Q) = {1..<length (sl_nodes sl')}"
      by (simp only: st1 nodes(3)) (auto simp: sl'_def Hn(3))
    show "sl_nodes sl' \<noteq> []" using Hn(3) by (auto simp: sl'_def)
    show "distinct (?P @ ?n # ?Q)" by (rule st2)
    show "1 \<le> sl_max_height sl'" "sl_max_height sl' \<le> kMaxHeight"
      using nodes(4,5) h12 by (simp_all add: sl'_def)
    show "node_height (sl_nodes sl') head_node = kMaxHeight" using H(1) [of head_node] nodes(1,6) by (simp add: sl'_def)
    show "sorted_wrt (\<lambda>a b. compare (node_key (sl_nodes sl') a) (node_key (sl_nodes sl') b) < 0) (?P @ ?n # ?Q)"
      using srt by (simp add: sl'_def)
    show "\<forall>n \<in> set (?P @ ?n # ?Q). 1 \<le> node_height (sl_nodes sl') n \<and> node_height (sl_nodes sl') n \<le> sl_max_height sl' \<and>
        keys (node_key (sl_nodes sl') n)"
      using ht by (simp add: sl'_def)
    show "\<forall>l < kMaxHeight. linked (sl_nodes sl') l (head_node # tall (sl_nodes sl') l (?P @ ?n # ?Q))"
      using lnk by (simp add: sl'_def)
  qed
  then show ?thesis
    using ins Hn(2) H(2) nodes(3) by (auto simp: sl'_def)
qed

lemma SkipList_make_inv: "sl_inv compare keys (fst (SkipList_make new a)) []"
  by (auto simp: sl_inv_def SkipList_make_def NewNode_def node_height_def Node_Next_def kMaxHeight_def)

lemma Insert_keys:
  assumes "sl_inv compare keys sl ns" "keys key" "\<forall>k \<in> set (sl_keys sl ns). compare k key \<noteq> 0"
  shows "\<exists>sl' a' ns'. SkipList_Insert new compare key sl a = Some (sl', a') \<and> sl_inv compare keys sl' ns' \<and>
    sl_keys sl' ns' = insert_sorted compare key (sl_keys sl ns)"
proof -
  obtain sl' a' where i: "SkipList_Insert new compare key sl a = Some (sl', a')"
    "sl_inv compare keys sl' (before sl key ns @ length (sl_nodes sl) # from_on sl key ns)"
    "node_key (sl_nodes sl') (length (sl_nodes sl)) = key"
    "\<forall>z \<in> set ns. node_key (sl_nodes sl') z = node_key (sl_nodes sl) z"
    using Insert_correct [OF assms(1,2), of new a] assms(3) by (auto simp: sl_keys_def)
  have m: "map (node_key (sl_nodes sl')) ms = map (node_key (sl_nodes sl)) ms" if "set ms \<subseteq> set ns" for ms
    using i(4) that by (auto intro!: map_cong)
  have "set (before sl key ns) \<subseteq> set ns" "set (from_on sl key ns) \<subseteq> set ns"
    by (meson set_takeWhileD set_dropWhileD subsetI)+
  then have "sl_keys sl' (before sl key ns @ length (sl_nodes sl) # from_on sl key ns) =
      insert_sorted compare key (sl_keys sl ns)"
    by (simp add: sl_keys_def insert_sorted_def m i(3) takeWhile_map dropWhile_map comp_def)
  with i show ?thesis by blast
qed

lemma linked_nth:
  "linked nodes l (x # xs) \<Longrightarrow> Node_Next nodes x l = first_of xs"
  "linked nodes l (x # xs) \<Longrightarrow> i < length xs \<Longrightarrow>
     Node_Next nodes (xs ! i) l = (if Suc i < length xs then Some (xs ! Suc i) else None)"
proof (induction xs arbitrary: x i)
  case (Cons y ys)
  { case 1 then show ?case by simp }
  { case 2
    show ?case
    proof (cases i)
      case 0
      have "linked nodes l (y # ys)" using 2(1) by simp
      from Cons.IH(1) [OF this] 0 show ?thesis by (cases ys) auto
    next
      case (Suc j)
      with 2 Cons.IH(2) [of y j] show ?thesis by simp
    qed }
qed simp_all

lemma level0:
  assumes "sl_inv compare keys sl ns"
  shows "linked (sl_nodes sl) 0 (head_node # ns)"
proof -
  have "linked (sl_nodes sl) 0 (head_node # tall (sl_nodes sl) 0 ns)"
    using assms by (simp add: sl_inv_def Let_def kMaxHeight_def)
  moreover have "tall (sl_nodes sl) 0 ns = ns"
    using assms by (auto simp: sl_inv_def Let_def intro!: filter_True)
  ultimately show ?thesis by simp
qed

lemma sl_SeekToFirst_at: "sl_inv compare keys sl ns \<Longrightarrow> sl_at ns (sl_SeekToFirst sl) 0"
  using linked_nth(1) [OF level0] by (cases ns) (auto simp: sl_SeekToFirst_def sl_at_def)

lemma sl_Next_at: "sl_inv compare keys sl ns \<Longrightarrow> sl_at ns it i \<Longrightarrow> i < length ns \<Longrightarrow> sl_at ns (sl_Next sl it) (Suc i)"
  using linked_nth(2) [OF level0] by (simp add: sl_Next_def sl_at_def)

lemma sl_Seek_at:
  assumes "sl_inv compare keys sl ns" "keys target"
  shows "\<exists>it. sl_Seek compare sl target = Some it \<and>
    sl_at ns it (length (takeWhile (\<lambda>k. compare k target < 0) (sl_keys sl ns)))"
proof -
  let ?i = "length (before sl target ns)"
  have "first_of (from_on sl target ns) = (if ?i < length ns then Some (ns ! ?i) else None)"
    by (simp add: dropWhile_eq_drop) (cases "?i < length ns"; simp add: Cons_nth_drop_Suc [symmetric])
  then show ?thesis
    using FindGreaterOrEqual_correct [OF assms, of "[]"]
    by (auto simp: sl_Seek_def sl_at_def sl_keys_def takeWhile_map comp_def)
qed

lemma sl_SeekToLast_at:
  assumes "sl_inv compare keys sl ns"
  shows "\<exists>it. sl_SeekToLast sl = Some it \<and> sl_at ns it (length ns - 1)"
proof -
  have "head_node \<notin> set ns" using assms by (simp add: sl_inv_def Let_def)
  then show ?thesis
    using FindLast_correct [OF assms]
    by (cases ns rule: rev_cases) (auto simp: sl_SeekToLast_def sl_at_def)
qed

lemma sl_Prev_at:
  assumes inv: "sl_inv compare keys sl ns" and "sl_at ns it i" "i < length ns"
  shows "\<exists>it'. sl_Prev compare sl it = Some it' \<and> sl_at ns it' (if i = 0 then length ns else i - 1)"
proof -
  let ?k = "node_key (sl_nodes sl) (ns ! i)"
  have k: "\<forall>z \<in> set ns. keys (node_key (sl_nodes sl) z)" "head_node \<notin> set ns"
    "sorted_wrt (\<lambda>a b. compare (node_key (sl_nodes sl) a) (node_key (sl_nodes sl) b) < 0) ns"
    using inv by (simp_all add: sl_inv_def Let_def)
  have key: "keys ?k" using k(1) assms(3) by simp
  have lt: "compare (node_key (sl_nodes sl) (ns ! j)) ?k < 0" if "j < i" for j
    using sorted_wrt_nth_less [OF k(3) that assms(3)] .
  have "before sl ?k ns = take i ns"
  proof (rule takeWhile_eq_take_P_nth)
    show "\<not> compare (node_key (sl_nodes sl) (ns ! i)) ?k < 0" using compare_refl [OF key] by simp
  qed (use lt in simp)
  then have "FindLessThan compare sl ?k = Some (last (head_node # take i ns))"
    using FindLessThan_correct [OF inv key] by simp
  moreover have "last (head_node # take i ns) = (if i = 0 then head_node else ns ! (i - 1))"
    using assms(3) by (cases i) (simp_all add: take_Suc_conv_app_nth)
  moreover have "i \<noteq> 0 \<Longrightarrow> ns ! (i - 1) \<noteq> head_node"
    using k(2) assms(3) by (metis diff_le_self le_less_trans nth_mem)
  ultimately show ?thesis using assms(2,3) by (auto simp: sl_Prev_def sl_at_def)
qed

lemma Contains_correct:
  assumes inv: "sl_inv compare keys sl ns" and key: "keys key"
  shows "SkipList_Contains compare sl key = Some (\<exists>k \<in> set (sl_keys sl ns). compare k key = 0)"
proof -
  let ?lt = "\<lambda>n. compare (node_key (sl_nodes sl) n) key < 0"
  have k: "\<forall>z \<in> set ns. keys (node_key (sl_nodes sl) z)"
    "sorted_wrt (\<lambda>a b. compare (node_key (sl_nodes sl) a) (node_key (sl_nodes sl) b) < 0) ns"
    using inv by (simp_all add: sl_inv_def Let_def)
  obtain prev' where c: "FindGreaterOrEqual compare sl key [] = Some (first_of (from_on sl key ns), prev')"
    using FindGreaterOrEqual_correct [OF inv key, of "[]"] by auto
  have eq: "compare key (node_key (sl_nodes sl) n) = 0 \<longleftrightarrow> compare (node_key (sl_nodes sl) n) key = 0"
    if "n \<in> set ns" for n using compare_eq_sym k(1) key that by blast
  show ?thesis
  proof (cases "from_on sl key ns")
    case Nil
    then have "?lt n" if "n \<in> set ns" for n
      using that by (metis dropWhile_eq_Nil_conv)
    then have "compare (node_key (sl_nodes sl) n) key \<noteq> 0" if "n \<in> set ns" for n
      using that by fastforce
    then show ?thesis using c [unfolded Nil] by (auto simp: SkipList_Contains_def sl_keys_def)
  next
    case (Cons n ms)
    have ns: "ns = before sl key ns @ n # ms" using Cons by (metis takeWhile_dropWhile_id)
    have n: "n \<in> set ns" by (subst ns) simp
    have lt: "?lt m" if "m \<in> set (before sl key ns)" for m using that by (meson set_takeWhileD)
    have ge: "\<not> ?lt n" using Cons by (metis hd_dropWhile list.distinct(1) list.sel(1))
    have "sorted_wrt (\<lambda>a b. compare (node_key (sl_nodes sl) a) (node_key (sl_nodes sl) b) < 0) (before sl key ns @ n # ms)"
      using k(2) ns by simp
    then have gt: "compare (node_key (sl_nodes sl) n) (node_key (sl_nodes sl) m) < 0" if "m \<in> set ms" for m
      using that by (simp add: sorted_wrt_append)
    have "compare (node_key (sl_nodes sl) m) key \<noteq> 0" if m: "m \<in> set ms" for m
    proof
      assume e: "compare (node_key (sl_nodes sl) m) key = 0"
      have "m \<in> set ns" using m by (subst ns) simp
      then have "?lt n" using compare_less_le_trans [OF _ _ key gt [OF m]] e k(1) n by auto
      with ge show False by simp
    qed
    moreover have "set ns = set (before sl key ns) \<union> insert n (set ms)" by (subst ns) simp
    ultimately have "(\<exists>m \<in> set ns. compare (node_key (sl_nodes sl) m) key = 0) \<longleftrightarrow>
        compare (node_key (sl_nodes sl) n) key = 0"
      using lt by fastforce
    then show ?thesis using Cons c eq [OF n] by (simp add: SkipList_Contains_def sl_keys_def)
  qed
qed

lemma insert_all_correct:
  "sl_inv compare keys (fst t) ns \<Longrightarrow> \<forall>k \<in> set ks. keys k \<Longrightarrow>
   sorted_wrt (\<lambda>a b. compare a b \<noteq> 0) (sl_keys (fst t) ns @ ks) \<Longrightarrow>
   \<exists>t' ns'. insert_all new compare ks t = Some t' \<and> sl_inv compare keys (fst t') ns' \<and>
     set (sl_keys (fst t') ns') = set (sl_keys (fst t) ns) \<union> set ks \<and>
     length ns' = length ns + length ks"
proof (induction ks arbitrary: t ns)
  case (Cons k ks)
  have "\<forall>x \<in> set (sl_keys (fst t) ns). compare x k \<noteq> 0"
    using Cons.prems(3) by (simp add: sorted_wrt_append)
  with Insert_keys [OF Cons.prems(1), of k new "snd t"] Cons.prems(2) obtain t1 ns1 where
    t1: "SkipList_Insert new compare k (fst t) (snd t) = Some t1" "sl_inv compare keys (fst t1) ns1"
    "sl_keys (fst t1) ns1 = insert_sorted compare k (sl_keys (fst t) ns)"
    by auto
  have l: "length ns1 = Suc (length ns)"
  proof -
    have "length (insert_sorted compare k xs) = Suc (length xs)" for xs
      unfolding insert_sorted_def
      by (metis add_Suc_right length_Cons length_append takeWhile_dropWhile_id)
    then show ?thesis using arg_cong [OF t1(3), of length] by (simp add: sl_keys_def)
  qed
  have "sorted_wrt (\<lambda>a b. compare a b \<noteq> 0) (sl_keys (fst t1) ns1)"
  proof -
    have "sorted_wrt (\<lambda>a b. compare a b < 0) (sl_keys (fst t1) ns1)"
      using t1(2) by (simp add: sl_inv_def Let_def sl_keys_def sorted_wrt_map)
    then show ?thesis by (rule sorted_wrt_mono_rel [rotated]) simp
  qed
  then have "sorted_wrt (\<lambda>a b. compare a b \<noteq> 0) (sl_keys (fst t1) ns1 @ ks)"
    using Cons.prems(3) by (auto simp: sorted_wrt_append t1(3))
  with Cons.IH [OF t1(2)] Cons.prems(2) show ?case by (auto simp: t1 l)
qed auto

end

interpretation int_order: key_order "\<lambda>a b :: int. a - b" "\<lambda>_. True"
  by unfold_locales auto

subsection \<open>Properties\<close>

text \<open>
  C25: a skip list is a sorted set.  Inserting pairwise different keys in any order, with the heights
  the random number generator draws, always succeeds and leaves a well-formed list (every level
  linked in key order); its bottom level holds exactly the inserted keys, strictly sorted; and
  \<open>Contains\<close> answers membership for every key, equal keys included.
\<close>

theorem skiplist_is_sorted_set:
  assumes "key_order compare keys" "\<forall>k \<in> set ks. keys k" "sorted_wrt (\<lambda>a b. compare a b \<noteq> 0) ks"
  shows "\<exists>sl a' ns. insert_all new compare ks (SkipList_make new a) = Some (sl, a') \<and>
    sl_inv compare keys sl ns \<and> set (sl_keys sl ns) = set ks \<and> length ns = length ks \<and>
    sorted_wrt (\<lambda>a b. compare a b < 0) (sl_keys sl ns) \<and>
    (\<forall>k. keys k \<longrightarrow> SkipList_Contains compare sl k = Some (\<exists>x \<in> set ks. compare x k = 0))"
proof -
  note inv = key_order.SkipList_make_inv [OF assms(1), of new a]
  obtain t ns where t: "insert_all new compare ks (SkipList_make new a) = Some t"
    "sl_inv compare keys (fst t) ns" "set (sl_keys (fst t) ns) = set ks" "length ns = length ks"
    using key_order.insert_all_correct [OF assms(1) inv assms(2), of new] assms(3) by (auto simp: sl_keys_def)
  have "sorted_wrt (\<lambda>a b. compare a b < 0) (sl_keys (fst t) ns)"
    using t(2) by (simp add: sl_inv_def Let_def sl_keys_def sorted_wrt_map)
  moreover have "\<forall>k. keys k \<longrightarrow> SkipList_Contains compare (fst t) k = Some (\<exists>x \<in> set ks. compare x k = 0)"
    using key_order.Contains_correct [OF assms(1) t(2)] t(3) by simp
  ultimately show ?thesis using t by (cases t) auto
qed

theorem skiplist_is_sorted_set_witness:
  "\<exists>sl a' ns. insert_all bump_new (\<lambda>a b :: int. a - b) [5, 1, 3] (SkipList_make bump_new Arena_make) = Some (sl, a') \<and>
    set (sl_keys sl ns) = {5, 1, 3} \<and> sorted_wrt (\<lambda>a b. a - b < 0) (sl_keys sl ns)"
proof -
  have d: "\<forall>k \<in> set [5, 1, 3 :: int]. True" "sorted_wrt (\<lambda>a b. a - b \<noteq> 0) [5, 1, 3 :: int]" by simp_all
  obtain sl a' ns where
    "insert_all bump_new (\<lambda>a b :: int. a - b) [5, 1, 3] (SkipList_make bump_new Arena_make) = Some (sl, a')"
    "set (sl_keys sl ns) = set [5, 1, 3]" "sorted_wrt (\<lambda>a b. a - b < 0) (sl_keys sl ns)"
    using skiplist_is_sorted_set [OF int_order.key_order_axioms d, of bump_new Arena_make] by blast
  then show ?thesis by (intro exI [of _ sl] exI [of _ a'] exI [of _ ns]) simp
qed

text \<open>
  Inserting a key into a well-formed skip list refines insertion into its sorted list of keys.
\<close>

lemma skiplist_insert_refines:
  assumes "key_order compare keys" "sl_inv compare keys sl ns" "keys key"
    "\<forall>k \<in> set (sl_keys sl ns). compare k key \<noteq> 0"
  shows "\<exists>sl' a' ns'. SkipList_Insert new compare key sl a = Some (sl', a') \<and> sl_inv compare keys sl' ns' \<and>
    sl_keys sl' ns' = insert_sorted compare key (sl_keys sl ns)"
  using assms by (rule key_order.Insert_keys)

lemma skiplist_insert_refines_witness:
  "\<exists>sl' a' ns'. SkipList_Insert bump_new (\<lambda>a b :: int. a - b) 7 (fst (SkipList_make bump_new Arena_make)) Arena_make
     = Some (sl', a') \<and> sl_keys sl' ns' = [7]"
proof -
  let ?s = "fst (SkipList_make bump_new Arena_make) :: int skiplist"
  have "\<forall>k \<in> set (sl_keys ?s []). k - 7 \<noteq> 0" by (simp add: sl_keys_def)
  from skiplist_insert_refines [OF int_order.key_order_axioms int_order.SkipList_make_inv TrueI this, of bump_new Arena_make]
  show ?thesis by (fastforce simp: insert_sorted_def sl_keys_def)
qed

text \<open>
  The iterator of a well-formed skip list walks its sorted keys: \<open>Seek\<close> stops at the first key
  not below the target, \<open>Next\<close> and \<open>Prev\<close> step by one, and the iterator becomes invalid at either end.
\<close>

lemma skiplist_iterator_walks_keys:
  assumes "key_order compare keys" "sl_inv compare keys sl ns"
  shows "(keys target \<longrightarrow> (\<exists>it. sl_Seek compare sl target = Some it \<and>
       sl_at ns it (length (takeWhile (\<lambda>k. compare k target < 0) (sl_keys sl ns))))) \<and>
    sl_at ns (sl_SeekToFirst sl) 0 \<and>
    (\<exists>it. sl_SeekToLast sl = Some it \<and> sl_at ns it (length ns - 1)) \<and>
    (\<forall>it i. sl_at ns it i \<and> i < length ns \<longrightarrow>
       sl_Valid it \<and> sl_key sl it = sl_keys sl ns ! i \<and> sl_at ns (sl_Next sl it) (Suc i) \<and>
       (\<exists>it'. sl_Prev compare sl it = Some it' \<and> sl_at ns it' (if i = 0 then length ns else i - 1)))"
  using key_order.sl_Seek_at [OF assms] key_order.sl_SeekToFirst_at [OF assms] key_order.sl_SeekToLast_at [OF assms]
    key_order.sl_Next_at [OF assms] key_order.sl_Prev_at [OF assms] sl_at_simps
  by (intro conjI allI impI) auto

lemma skiplist_iterator_walks_keys_witness:
  "sl_at [] (sl_SeekToFirst (fst (SkipList_make bump_new Arena_make) :: int skiplist)) 0"
  using skiplist_iterator_walks_keys [OF int_order.key_order_axioms int_order.SkipList_make_inv] by blast

end
