(* ===== verification/Memtable.thy ===== *)
theory Memtable
  imports Dbformat SkipList
begin

text \<open>
  \<^verbatim>\<open>db/memtable.h\<close> and \<^verbatim>\<open>db/memtable.cc\<close>: the in-memory table of recent writes, a skip list of
  length-prefixed entries.  The abstract view is the list of the writes in sequence order; the last
  section proves that \<open>Get\<close> returns the newest write of the key that the snapshot can see.
\<close>

subsection \<open>Entries\<close>

text \<open>
  A pointer to an entry is the bytes from it on.  \<open>GetLengthPrefixedSlice\<close> trusts its input; the
  model returns empty slices where the code would follow a null pointer.  The second component is
  what follows the slice.
\<close>

definition mem_GetLengthPrefixedSlice :: "bytes \<Rightarrow> bytes \<times> bytes" where
  "mem_GetLengthPrefixedSlice data =
     (case GetVarint32Ptr (take 5 data) of
        Some (len, q) \<Rightarrow>
          let p = drop (length (take 5 data) - length q) data
          in (take (unat len) p, drop (unat len) p)
      | None \<Rightarrow> ([], []))"

definition MemTable_KeyComparator :: "comparator \<Rightarrow> bytes \<Rightarrow> bytes \<Rightarrow> int" where
  "MemTable_KeyComparator u aptr bptr =
     InternalKeyComparator_Compare u (fst (mem_GetLengthPrefixedSlice aptr)) (fst (mem_GetLengthPrefixedSlice bptr))"

definition EncodeKey :: "bytes \<Rightarrow> bytes" where
  "EncodeKey target = PutVarint32 [] (word_of_nat (length target)) @ target"

subsection \<open>The memtable\<close>

text \<open>\<open>mt_user_comparator\<close> is the comparator inside \<open>comparator_\<close>.\<close>

record memtable =
  mt_user_comparator :: comparator
  mt_refs :: int
  mt_arena :: arena
  mt_table :: "bytes skiplist"

definition MemTable_make :: "allocator \<Rightarrow> comparator \<Rightarrow> memtable" where
  "MemTable_make new u =
     (let (table, a) = SkipList_make new Arena_make
      in \<lparr>mt_user_comparator = u, mt_refs = 0, mt_arena = a, mt_table = table\<rparr>)"

definition MemTable_Ref :: "memtable \<Rightarrow> memtable" where
  "MemTable_Ref m = m\<lparr>mt_refs := mt_refs m + 1\<rparr>"

text \<open>The second component tells whether the object deletes itself.\<close>

definition MemTable_Unref :: "memtable \<Rightarrow> memtable \<times> bool" where
  "MemTable_Unref m = (let m = m\<lparr>mt_refs := mt_refs m - 1\<rparr> in (m, mt_refs m \<le> 0))"

definition ApproximateMemoryUsage :: "memtable \<Rightarrow> nat" where
  "ApproximateMemoryUsage m = MemoryUsage (mt_arena m)"

definition mem_entry :: "u64 \<Rightarrow> ValueType \<Rightarrow> bytes \<Rightarrow> bytes \<Rightarrow> bytes" where
  "mem_entry s type key value =
     EncodeVarint32 (word_of_nat (length key + 8)) @ key @
     EncodeFixed64 (push_bit 8 s OR ucast (ValueType_byte type)) @
     EncodeVarint32 (word_of_nat (length value)) @ value"

definition MemTable_Add ::
  "allocator \<Rightarrow> u64 \<Rightarrow> ValueType \<Rightarrow> bytes \<Rightarrow> bytes \<Rightarrow> memtable \<Rightarrow> memtable option" where
  "MemTable_Add new s type key value m =
     (let key_size = length key;
          val_size = length value;
          internal_key_size = key_size + 8;
          encoded_len = VarintLength (word_of_nat internal_key_size) + internal_key_size +
                        VarintLength (word_of_nat val_size) + val_size;
          (buf, arena) = Allocate new encoded_len (mt_arena m)
      in do {
        (table, arena) \<leftarrow> SkipList_Insert new (MemTable_KeyComparator (mt_user_comparator m))
                            (mem_entry s type key value) (mt_table m) arena;
        Some (m\<lparr>mt_arena := arena, mt_table := table\<rparr>) })"

text \<open>
  The result of \<open>Get\<close>: the return value, and what was stored in \<open>*value\<close> and \<open>*s\<close>, \<open>None\<close> for a
  variable that was not assigned.
\<close>

definition MemTable_Get :: "LookupKey \<Rightarrow> memtable \<Rightarrow> (bool \<times> bytes option \<times> status option) option" where
  "MemTable_Get key m = do {
     iter \<leftarrow> sl_Seek (MemTable_KeyComparator (mt_user_comparator m)) (mt_table m) (LookupKey_memtable_key key);
     Some (if sl_Valid iter then
       let entry = sl_key (mt_table m) iter;
           (key_slice, rest) = mem_GetLengthPrefixedSlice entry
       in if cmp_Compare (mt_user_comparator m) (take (length key_slice - 8) key_slice) (LookupKey_user_key key) = 0
          then let tag = DecodeFixed64 (drop (length key_slice - 8) key_slice);
                   t = ucast (tag AND 0xff) :: byte
               in if t = ValueType_byte kTypeValue then (True, Some (fst (mem_GetLengthPrefixedSlice rest)), None)
                  else if t = ValueType_byte kTypeDeletion then (True, None, Some (Status_NotFound [] []))
                  else (False, None, None)
          else (False, None, None)
     else (False, None, None)) }"

subsection \<open>The iterator of a memtable\<close>

definition MemTableIterator_Seek :: "memtable \<Rightarrow> bytes \<Rightarrow> sl_iterator option" where
  "MemTableIterator_Seek m k = sl_Seek (MemTable_KeyComparator (mt_user_comparator m)) (mt_table m) (EncodeKey k)"

definition MemTableIterator_SeekToFirst :: "memtable \<Rightarrow> sl_iterator" where
  "MemTableIterator_SeekToFirst m = sl_SeekToFirst (mt_table m)"

definition MemTableIterator_SeekToLast :: "memtable \<Rightarrow> sl_iterator option" where
  "MemTableIterator_SeekToLast m = sl_SeekToLast (mt_table m)"

definition MemTableIterator_Next :: "memtable \<Rightarrow> sl_iterator \<Rightarrow> sl_iterator" where
  "MemTableIterator_Next m it = sl_Next (mt_table m) it"

definition MemTableIterator_Prev :: "memtable \<Rightarrow> sl_iterator \<Rightarrow> sl_iterator option" where
  "MemTableIterator_Prev m it = sl_Prev (MemTable_KeyComparator (mt_user_comparator m)) (mt_table m) it"

definition MemTableIterator_key :: "memtable \<Rightarrow> sl_iterator \<Rightarrow> bytes" where
  "MemTableIterator_key m it = fst (mem_GetLengthPrefixedSlice (sl_key (mt_table m) it))"

definition MemTableIterator_value :: "memtable \<Rightarrow> sl_iterator \<Rightarrow> bytes" where
  "MemTableIterator_value m it =
     fst (mem_GetLengthPrefixedSlice (snd (mem_GetLengthPrefixedSlice (sl_key (mt_table m) it))))"

subsection \<open>Entries decode\<close>

lemma mem_GetLengthPrefixedSlice_entry:
  assumes "length d < 2 ^ 32"
  shows "mem_GetLengthPrefixedSlice (EncodeVarint32 (word_of_nat (length d)) @ d @ rest) = (d, rest)"
proof -
  let ?n = "word_of_nat (length d) :: u32"
  let ?e = "EncodeVarint32 ?n"
  have u: "unat ?n = length d" by (rule unat_of_nat_small) (use assms in simp)
  have l: "length ?e \<le> 5" by (rule length_EncodeVarint32)
  have t: "take 5 (?e @ d @ rest) = ?e @ take (5 - length ?e) (d @ rest)" using l by simp
  have g: "GetVarint32Ptr (?e @ q) = Some (?n, q)" for q
    using GetVarint32Ptr_varint [OF assms, of q] by (simp add: EncodeVarint32_spec u)
  have "mem_GetLengthPrefixedSlice (?e @ d @ rest) =
      (let p = drop (length ?e) (?e @ d @ rest) in (take (unat ?n) p, drop (unat ?n) p))"
    unfolding mem_GetLengthPrefixedSlice_def t g by simp
  then show ?thesis by (simp add: u)
qed

lemma mem_entry_key:
  assumes "length k + 8 < 2 ^ 32"
  shows "mem_GetLengthPrefixedSlice (mem_entry s t k v) =
    (InternalKey_make k s t, EncodeVarint32 (word_of_nat (length v)) @ v)"
proof -
  have "mem_entry s t k v = EncodeVarint32 (word_of_nat (length (InternalKey_make k s t))) @
      InternalKey_make k s t @ EncodeVarint32 (word_of_nat (length v)) @ v"
    by (simp add: mem_entry_def)
       (simp add: InternalKey_make_def AppendInternalKey_def PutFixed64_def PackSequenceAndType_def)
  with mem_GetLengthPrefixedSlice_entry [of "InternalKey_make k s t"] assms show ?thesis by simp
qed

lemma mem_target_key:
  assumes "length k + 8 < 2 ^ 32"
  shows "fst (mem_GetLengthPrefixedSlice (LookupKey_memtable_key (LookupKey_make k s))) =
    InternalKey_make k s kValueTypeForSeek"
  using mem_GetLengthPrefixedSlice_entry [of "InternalKey_make k s kValueTypeForSeek" "[]"] assms
  by (simp add: LookupKey_memtable_key_make PutLengthPrefixedSlice_def PutVarint32_def)

subsection \<open>The abstract view\<close>

text \<open>A write: sequence number, type, key and value.\<close>

type_synonym mem_op = "u64 \<times> ValueType \<times> bytes \<times> bytes"

definition op_entry :: "mem_op \<Rightarrow> bytes" where
  "op_entry w = (case w of (s, t, k, v) \<Rightarrow> mem_entry s t k v)"

definition op_ok :: "(bytes \<Rightarrow> bool) \<Rightarrow> mem_op \<Rightarrow> bool" where
  "op_ok keys w = (case w of (s, t, k, v) \<Rightarrow>
     s \<le> kMaxSequenceNumber \<and> keys k \<and> length k + 8 < 2 ^ 32 \<and> length v < 2 ^ 32)"

text \<open>The last write of the key with a sequence number the snapshot sees.\<close>

definition newest :: "comparator \<Rightarrow> mem_op list \<Rightarrow> bytes \<Rightarrow> u64 \<Rightarrow> mem_op option" where
  "newest u ops k s =
     (let seen = filter (\<lambda>(q, t, k', v). cmp_Compare u k' k = 0 \<and> q \<le> s) ops
      in if seen = [] then None else Some (last seen))"

definition get_result :: "mem_op option \<Rightarrow> bool \<times> bytes option \<times> status option" where
  "get_result w =
     (case w of None \<Rightarrow> (False, None, None)
      | Some (q, kTypeValue, k, v) \<Rightarrow> (True, Some v, None)
      | Some (q, kTypeDeletion, k, v) \<Rightarrow> (True, None, Some (Status_NotFound [] [])))"

fun add_all :: "allocator \<Rightarrow> mem_op list \<Rightarrow> memtable \<Rightarrow> memtable option" where
  "add_all new [] m = Some m"
| "add_all new ((s, t, k, v) # ops) m = do { m \<leftarrow> MemTable_Add new s t k v m; add_all new ops m }"

abbreviation mem_keys :: "(bytes \<Rightarrow> bool) \<Rightarrow> bytes \<Rightarrow> bool" where
  "mem_keys keys e \<equiv> internal_keys keys (fst (mem_GetLengthPrefixedSlice e))"

definition mem_view :: "comparator \<Rightarrow> (bytes \<Rightarrow> bool) \<Rightarrow> memtable \<Rightarrow> mem_op list \<Rightarrow> bool" where
  "mem_view u keys m ops \<longleftrightarrow>
     mt_user_comparator m = u \<and> (\<forall>w \<in> set ops. op_ok keys w) \<and> sorted_wrt (\<lambda>a b. fst a < fst b) ops \<and>
     (\<exists>ns. sl_inv (MemTable_KeyComparator u) (mem_keys keys) (mt_table m) ns \<and>
        set (sl_keys (mt_table m) ns) = op_entry ` set ops)"

lemma op_entry_key: "op_ok keys (s, t, k, v) \<Longrightarrow> fst (mem_GetLengthPrefixedSlice (op_entry (s, t, k, v))) = InternalKey_make k s t"
  by (simp add: op_ok_def op_entry_def mem_entry_key)

definition op_rank :: "u64 \<Rightarrow> ValueType \<Rightarrow> nat" where
  "op_rank s t = 256 * unat s + unat (ValueType_byte t)"

lemma MemTable_KeyComparator_simps:
  assumes "fst (mem_GetLengthPrefixedSlice a) = InternalKey_make k s t"
    "fst (mem_GetLengthPrefixedSlice b) = InternalKey_make k' s' t'"
    "s \<le> kMaxSequenceNumber" "s' \<le> kMaxSequenceNumber"
  shows "MemTable_KeyComparator u a b < 0 \<longleftrightarrow>
      cmp_Compare u k k' < 0 \<or> cmp_Compare u k k' = 0 \<and> op_rank s' t' < op_rank s t"
    "MemTable_KeyComparator u a b = 0 \<longleftrightarrow> cmp_Compare u k k' = 0 \<and> op_rank s t = op_rank s' t'"
    "MemTable_KeyComparator u a b \<le> 0 \<longleftrightarrow>
      cmp_Compare u k k' < 0 \<or> cmp_Compare u k k' = 0 \<and> op_rank s' t' \<le> op_rank s t"
  by (simp_all add: MemTable_KeyComparator_def assms(1,2) InternalKeyComparator_Compare_simps op_rank_def
      word_less_nat_alt word_le_nat_alt word_unat_eq_iff unat_Pack [OF assms(3)] unat_Pack [OF assms(4)])

lemma op_rank_less: "s < s' \<Longrightarrow> op_rank s t < op_rank s' t'"
  by (cases t; cases t') (auto simp: op_rank_def ValueType_byte_def word_less_nat_alt)

lemma op_rank_seek: "op_rank q t \<le> op_rank s kValueTypeForSeek \<longleftrightarrow> q \<le> s"
  by (cases t) (auto simp: op_rank_def ValueType_byte_def kValueTypeForSeek_def word_le_nat_alt)

context comparator_contract
begin

lemma mem_order: "key_order (MemTable_KeyComparator c) (mem_keys keys)"
proof
  fix a b assume "mem_keys keys a" "mem_keys keys b"
  then show "0 < MemTable_KeyComparator c b a \<longleftrightarrow> MemTable_KeyComparator c a b < 0"
    unfolding MemTable_KeyComparator_def by (rule key_order.compare_flip [OF internal_order])
next
  fix a b d assume "mem_keys keys a" "mem_keys keys b" "mem_keys keys d"
    "MemTable_KeyComparator c a b \<le> 0" "MemTable_KeyComparator c b d \<le> 0"
  then show "MemTable_KeyComparator c a d \<le> 0"
    unfolding MemTable_KeyComparator_def by (rule key_order.compare_trans [OF internal_order])
qed

lemma MemTable_make_view: "mem_view c keys (MemTable_make new c) []"
proof -
  obtain table a where t: "SkipList_make new Arena_make = (table :: bytes skiplist, a)" by fastforce
  then have "sl_inv (MemTable_KeyComparator c) (mem_keys keys) table []"
    using key_order.SkipList_make_inv [OF mem_order, of new Arena_make] by simp
  then show ?thesis
    by (simp add: mem_view_def MemTable_make_def t) (intro exI [of _ "[]"], simp add: sl_keys_def)
qed

lemma MemTable_Add_view:
  assumes "mem_view c keys m ops" "op_ok keys (s, t, k, v)" "\<forall>w \<in> set ops. fst w < s"
  shows "\<exists>m'. MemTable_Add new s t k v m = Some m' \<and> mem_view c keys m' (ops @ [(s, t, k, v)])"
proof -
  obtain ns where ns: "sl_inv (MemTable_KeyComparator c) (mem_keys keys) (mt_table m) ns"
    "set (sl_keys (mt_table m) ns) = op_entry ` set ops"
    using assms(1) by (auto simp: mem_view_def)
  let ?e = "mem_entry s t k v"
  have e: "fst (mem_GetLengthPrefixedSlice ?e) = InternalKey_make k s t" "mem_keys keys ?e"
    using assms(2) by (simp_all add: mem_entry_key op_ok_def internal_keys_def)
  have fresh: "\<forall>x \<in> set (sl_keys (mt_table m) ns). MemTable_KeyComparator c x ?e \<noteq> 0"
  proof
    fix x assume "x \<in> set (sl_keys (mt_table m) ns)"
    then obtain q t' k' v' where w: "(q, t', k', v') \<in> set ops" "x = op_entry (q, t', k', v')"
      using ns(2) by auto
    have ok: "op_ok keys (q, t', k', v')" "q < s" using w(1) assms(1,3) by (auto simp: mem_view_def)
    from op_rank_less [OF ok(2), of t' t] show "MemTable_KeyComparator c x ?e \<noteq> 0"
      using MemTable_KeyComparator_simps(2) [OF op_entry_key [OF ok(1)] e(1)] ok(1) assms(2)
      by (simp add: w(2) op_ok_def)
  qed
  obtain buf arena where ar: "Allocate new (VarintLength (word_of_nat (length k + 8)) + (length k + 8) +
      VarintLength (word_of_nat (length v)) + length v) (mt_arena m) = (buf, arena)" by fastforce
  from key_order.Insert_keys [OF mem_order ns(1) e(2) fresh, of new arena] obtain sl' a' ns' where
    i: "SkipList_Insert new (MemTable_KeyComparator c) ?e (mt_table m) arena = Some (sl', a')"
    "sl_inv (MemTable_KeyComparator c) (mem_keys keys) sl' ns'"
    "sl_keys sl' ns' = insert_sorted (MemTable_KeyComparator c) ?e (sl_keys (mt_table m) ns)"
    by blast
  have "MemTable_Add new s t k v m = Some (m\<lparr>mt_arena := a', mt_table := sl'\<rparr>)"
    using assms(1) i(1) ar by (simp add: MemTable_Add_def Let_def mem_view_def)
  moreover have "mem_view c keys (m\<lparr>mt_arena := a', mt_table := sl'\<rparr>) (ops @ [(s, t, k, v)])"
  proof -
    have "set (sl_keys sl' ns') = op_entry ` set (ops @ [(s, t, k, v)])"
      by (simp add: i(3) ns(2)) (simp add: op_entry_def)
    then show ?thesis
      using assms i(2) unfolding mem_view_def by (auto simp: sorted_wrt_append)
  qed
  ultimately show ?thesis by blast
qed

end

context key_order
begin

text \<open>\<open>Seek\<close> finds the least key that is not below the target.\<close>

lemma sl_Seek_least:
  assumes inv: "sl_inv compare keys sl ns" and target: "keys target"
  shows "\<exists>it. sl_Seek compare sl target = Some it \<and>
    (sl_Valid it \<longrightarrow> sl_key sl it \<in> set (sl_keys sl ns) \<and> \<not> compare (sl_key sl it) target < 0 \<and>
       (\<forall>x \<in> set (sl_keys sl ns). \<not> compare x target < 0 \<longrightarrow> compare (sl_key sl it) x \<le> 0)) \<and>
    (\<not> sl_Valid it \<longrightarrow> (\<forall>x \<in> set (sl_keys sl ns). compare x target < 0))"
proof -
  let ?ks = "sl_keys sl ns"
  let ?i = "length (takeWhile (\<lambda>k. compare k target < 0) ?ks)"
  obtain it where it: "sl_Seek compare sl target = Some it" "sl_at ns it ?i"
    using sl_Seek_at [OF assms] by blast
  have len: "length ns = length ?ks" by (simp add: sl_keys_def)
  have srt: "sorted_wrt (\<lambda>a b. compare a b < 0) ?ks" and kk: "\<forall>x \<in> set ?ks. keys x"
    using inv by (auto simp: sl_inv_def Let_def sl_keys_def sorted_wrt_map)
  have low: "compare (?ks ! j) target < 0" if "j < ?i" for j
    using that by (metis nth_mem set_takeWhileD takeWhile_nth)
  have le: "compare (?ks ! ?i) x \<le> 0" if x: "x \<in> set ?ks" "\<not> compare x target < 0" and "?i < length ?ks" for x
  proof -
    obtain j where j: "j < length ?ks" "x = ?ks ! j" using x(1) by (metis in_set_conv_nth)
    with low x(2) have "?i \<le> j" by (metis not_le)
    then show ?thesis
      using sorted_wrt_nth_less [OF srt, of ?i j] j kk compare_refl [of x] that(3) by (cases "?i = j") auto
  qed
  show ?thesis
  proof (cases "sl_Valid it")
    case True
    then have i: "?i < length ?ks" using sl_at_simps(1) [OF it(2)] len by simp
    then have k: "sl_key sl it = ?ks ! ?i" using sl_at_simps(2) [OF it(2)] len by simp
    have "?ks ! ?i \<in> set ?ks" "\<not> compare (?ks ! ?i) target < 0"
      using i nth_length_takeWhile [OF i] by simp_all
    with it(1) True le i show ?thesis unfolding k [symmetric] by blast
  next
    case False
    then have "\<not> ?i < length ?ks" using sl_at_simps(1) [OF it(2)] len by simp
    then have "?i = length ?ks" using length_takeWhile_le [of "\<lambda>k. compare k target < 0" ?ks] by linarith
    then have "\<forall>x \<in> set ?ks. compare x target < 0" by (metis in_set_conv_nth low)
    with it(1) False show ?thesis by blast
  qed
qed

end

lemma newest_in:
  "newest u ops k s = Some (q, t, k', v) \<Longrightarrow> (q, t, k', v) \<in> set ops \<and> cmp_Compare u k' k = 0 \<and> q \<le> s"
proof -
  assume n: "newest u ops k s = Some (q, t, k', v)"
  let ?f = "filter (\<lambda>(q, t, k', v). cmp_Compare u k' k = 0 \<and> q \<le> s) ops"
  have "?f \<noteq> []" "last ?f = (q, t, k', v)" using n by (auto simp: newest_def Let_def split: if_splits)
  then have "(q, t, k', v) \<in> set ?f" by (metis last_in_set)
  then show ?thesis by auto
qed

lemma newest_max:
  assumes "newest u ops k s = Some w" "sorted_wrt (\<lambda>a b. fst a < fst b) ops"
    "(q, t, k', v) \<in> set ops" "cmp_Compare u k' k = 0" "q \<le> s"
  shows "(q, t, k', v) = w \<or> q < fst w"
proof -
  let ?f = "filter (\<lambda>(q, t, k', v). cmp_Compare u k' k = 0 \<and> q \<le> s) ops"
  have w: "w = last ?f" using assms(1) by (auto simp: newest_def Let_def split: if_splits)
  have "(q, t, k', v) \<in> set ?f" using assms(3-5) by simp
  then obtain i where i: "i < length ?f" "?f ! i = (q, t, k', v)" by (metis in_set_conv_nth)
  have srt: "sorted_wrt (\<lambda>a b. fst a < fst b) ?f" using assms(2) by (rule sorted_wrt_filter)
  have "?f \<noteq> []" using i(1) by (cases ?f) simp_all
  then have "last ?f = ?f ! (length ?f - 1)" by (rule last_conv_nth)
  then show ?thesis
    using i w sorted_wrt_nth_less [OF srt, of i "length ?f - 1"]
    by (cases "i = length ?f - 1") auto
qed

lemma newest_None:
  "newest u ops k s = None \<Longrightarrow> (q, t, k', v) \<in> set ops \<Longrightarrow> cmp_Compare u k' k = 0 \<Longrightarrow> \<not> q \<le> s"
  by (auto simp: newest_def Let_def filter_empty_conv split: if_splits)

subsection \<open>Lookup\<close>

text \<open>What \<open>Get\<close> does with the entry it lands on.\<close>

definition get_entry :: "comparator \<Rightarrow> bytes \<Rightarrow> mem_op \<Rightarrow> bool \<times> bytes option \<times> status option" where
  "get_entry u k w = (case w of (q, t, k', v) \<Rightarrow>
     if cmp_Compare u k' k = 0 then get_result (Some w) else (False, None, None))"

lemma take_InternalKey_make [simp]: "take (length k) (InternalKey_make k s t) = k"
  by (simp add: InternalKey_make_def AppendInternalKey_def PutFixed64_def)

lemma MemTable_Get_entry:
  assumes "sl_Seek (MemTable_KeyComparator (mt_user_comparator m)) (mt_table m)
      (LookupKey_memtable_key (LookupKey_make k s)) = Some it"
    and "sl_Valid it \<longrightarrow> sl_key (mt_table m) it = op_entry w \<and> op_ok keys w"
  shows "MemTable_Get (LookupKey_make k s) m =
    Some (if sl_Valid it then get_entry (mt_user_comparator m) k w else (False, None, None))"
proof (cases "sl_Valid it")
  case True
  obtain q t k' v where w: "w = (q, t, k', v)" by (metis prod_cases4)
  have ok: "sl_key (mt_table m) it = mem_entry q t k' v" "length k' + 8 < 2 ^ 32" "length v < 2 ^ 32"
    using assms(2) True by (simp_all add: w op_entry_def op_ok_def)
  have "mem_GetLengthPrefixedSlice (EncodeVarint32 (word_of_nat (length v)) @ v) = (v, [])"
    using mem_GetLengthPrefixedSlice_entry [OF ok(3), of "[]"] by simp
  moreover have "(ucast (PackSequenceAndType q t AND 0xff) :: byte) = ValueType_byte t" by (rule Pack_type)
  ultimately show ?thesis
    using assms(1) True mem_entry_key [OF ok(2), of q t v]
    by (cases t)
       (simp_all add: MemTable_Get_def ok(1) w Let_def LookupKey_parts get_entry_def get_result_def ValueType_byte_def)
qed (simp add: MemTable_Get_def assms(1))

context comparator_contract
begin

lemma MemTable_Get_newest:
  assumes view: "mem_view c keys m ops" and k: "keys k" "length k + 8 < 2 ^ 32" "s \<le> kMaxSequenceNumber"
  shows "MemTable_Get (LookupKey_make k s) m = Some (get_result (newest c ops k s))"
proof -
  let ?cmp = "MemTable_KeyComparator c" and ?target = "LookupKey_memtable_key (LookupKey_make k s)"
  obtain ns where ns: "sl_inv ?cmp (mem_keys keys) (mt_table m) ns"
    "set (sl_keys (mt_table m) ns) = op_entry ` set ops"
    and u: "mt_user_comparator m = c" and ops: "\<forall>w \<in> set ops. op_ok keys w" "sorted_wrt (\<lambda>a b. fst a < fst b) ops"
    using view by (auto simp: mem_view_def)
  note target = mem_target_key [OF k(2), of s]
  have tk: "mem_keys keys ?target" using k(1) by (simp add: target internal_keys_def)
  have lt: "?cmp (op_entry (q, t, k', v)) ?target < 0 \<longleftrightarrow> cmp_Compare c k' k < 0 \<or> cmp_Compare c k' k = 0 \<and> s < q"
    if "(q, t, k', v) \<in> set ops" for q t k' v
  proof -
    have ok: "op_ok keys (q, t, k', v)" using ops(1) that by blast
    then have "q \<le> kMaxSequenceNumber" by (simp add: op_ok_def)
    then show ?thesis
      using MemTable_KeyComparator_simps(1) [OF op_entry_key [OF ok] target _ k(3), of c] op_rank_seek [of q t s]
      by (simp add: not_le [symmetric])
  qed
  obtain it where it: "sl_Seek ?cmp (mt_table m) ?target = Some it"
    "sl_Valid it \<longrightarrow> sl_key (mt_table m) it \<in> op_entry ` set ops \<and> \<not> ?cmp (sl_key (mt_table m) it) ?target < 0 \<and>
       (\<forall>x \<in> op_entry ` set ops. \<not> ?cmp x ?target < 0 \<longrightarrow> ?cmp (sl_key (mt_table m) it) x \<le> 0)"
    "\<not> sl_Valid it \<longrightarrow> (\<forall>x \<in> op_entry ` set ops. ?cmp x ?target < 0)"
    using key_order.sl_Seek_least [OF mem_order ns(1) tk] ns(2) by auto
  show ?thesis
  proof (cases "sl_Valid it")
    case False
    have "newest c ops k s = None"
    proof (rule ccontr)
      assume "newest c ops k s \<noteq> None"
      then obtain q t k' v where "newest c ops k s = Some (q, t, k', v)" by (metis option.exhaust prod_cases4)
      from newest_in [OF this] it(3) lt False show False by fastforce
    qed
    then show ?thesis using MemTable_Get_entry [of m k s it _ keys] it(1) False by (simp add: u get_result_def)
  next
    case True
    then obtain q t k' v where w: "(q, t, k', v) \<in> set ops" "sl_key (mt_table m) it = op_entry (q, t, k', v)"
      using it(2) by auto
    have ok: "op_ok keys (q, t, k', v)" using ops(1) w(1) by blast
    have ge: "\<not> (cmp_Compare c k' k < 0 \<or> cmp_Compare c k' k = 0 \<and> s < q)" using it(2) True lt [OF w(1)] w(2) by simp
    have "get_entry c k (q, t, k', v) = get_result (newest c ops k s)"
    proof (cases "cmp_Compare c k' k = 0")
      case eq: True
      have qs: "q \<le> s" using ge eq by simp
      obtain w' where n: "newest c ops k s = Some w'"
        using newest_None [OF _ w(1) eq] qs by (cases "newest c ops k s") auto
      obtain q' t' k'' v' where w': "w' = (q', t', k'', v')" by (metis prod_cases4)
      note in' = newest_in [OF n [unfolded w']]
      have ok': "op_ok keys (q', t', k'', v')" using ops(1) in' by blast
      have "w' = (q, t, k', v)"
      proof (rule ccontr)
        assume "w' \<noteq> (q, t, k', v)"
        with newest_max [OF n ops(2) w(1) eq qs] have less: "q < q'" by (auto simp: w')
        have "\<not> ?cmp (op_entry (q', t', k'', v')) ?target < 0" using lt in' by auto
        then have "?cmp (op_entry (q, t, k', v)) (op_entry (q', t', k'', v')) \<le> 0"
          using it(2) True in' w(2) by auto
        moreover have "cmp_Compare c k' k'' = 0"
        proof (rule compare_eq_trans)
          show "keys k'" "keys k" "keys k''" "cmp_Compare c k' k = 0" using ok ok' k(1) eq by (simp_all add: op_ok_def)
          then show "cmp_Compare c k k'' = 0" using in' compare_eq_sym by blast
        qed
        ultimately have "op_rank q' t' \<le> op_rank q t"
          using MemTable_KeyComparator_simps(3) [OF op_entry_key [OF ok] op_entry_key [OF ok'], of c] ok ok'
          by (simp add: op_ok_def)
        with op_rank_less [OF less, of t t'] show False by simp
      qed
      with n eq show ?thesis by (simp add: get_entry_def)
    next
      case False
      with ge have gt: "0 < cmp_Compare c k' k" by linarith
      have "newest c ops k s = None"
      proof (rule ccontr)
        assume "newest c ops k s \<noteq> None"
        then obtain q' t' k'' v' where "newest c ops k s = Some (q', t', k'', v')" by (metis option.exhaust prod_cases4)
        note in' = newest_in [OF this]
        have ok': "op_ok keys (q', t', k'', v')" using ops(1) in' by blast
        have "\<not> ?cmp (op_entry (q', t', k'', v')) ?target < 0" using lt in' by auto
        then have "?cmp (op_entry (q, t, k', v)) (op_entry (q', t', k'', v')) \<le> 0"
          using it(2) True in' w(2) by auto
        then have "cmp_Compare c k' k'' \<le> 0"
          using MemTable_KeyComparator_simps(3) [OF op_entry_key [OF ok] op_entry_key [OF ok'], of c] ok ok'
          by (auto simp: op_ok_def)
        then have "cmp_Compare c k' k \<le> 0"
          using in' ok ok' k(1) compare_trans [of k' k'' k] by (simp add: op_ok_def)
        with gt show False by simp
      qed
      with False show ?thesis by (simp add: get_entry_def get_result_def)
    qed
    then show ?thesis
      using MemTable_Get_entry [of m k s it "(q, t, k', v)" keys] it(1) True w(2) ok by (simp add: u)
  qed
qed

lemma add_all_view:
  "mem_view c keys m ops \<Longrightarrow> \<forall>w \<in> set ws. op_ok keys w \<Longrightarrow> sorted_wrt (\<lambda>a b. fst a < fst b) (ops @ ws) \<Longrightarrow>
   \<exists>m'. add_all new ws m = Some m' \<and> mem_view c keys m' (ops @ ws)"
proof (induction ws arbitrary: m ops)
  case (Cons w ws)
  obtain s t k v where w: "w = (s, t, k, v)" by (metis prod_cases4)
  obtain m1 where m1: "MemTable_Add new s t k v m = Some m1" "mem_view c keys m1 (ops @ [(s, t, k, v)])"
    using MemTable_Add_view [OF Cons.prems(1), of s t k v new] Cons.prems(2,3)
    by (auto simp: w sorted_wrt_append)
  from Cons.IH [OF m1(2)] Cons.prems(2,3) show ?case by (auto simp: w m1(1))
qed auto

end

subsection \<open>Properties\<close>

text \<open>
  C24: a memtable answers a lookup with the newest write the snapshot can see.  After any writes in
  sequence order, \<open>Get\<close> of a key at a sequence number returns the value of the last write of that
  key (or of a key the comparator calls equal) up to that number, a NotFound status when that write
  is a deletion, and false when there is none; and all the insertions succeed.
\<close>

theorem memtable_get_newest:
  assumes "comparator_contract c keys" "\<forall>w \<in> set ops. op_ok keys w" "sorted_wrt (\<lambda>a b. fst a < fst b) ops"
    and "keys k" "length k + 8 < 2 ^ 32" "s \<le> kMaxSequenceNumber"
  shows "\<exists>m. add_all new ops (MemTable_make new c) = Some m \<and>
    MemTable_Get (LookupKey_make k s) m = Some (get_result (newest c ops k s))"
proof -
  obtain m where "add_all new ops (MemTable_make new c) = Some m" "mem_view c keys m ops"
    using comparator_contract.add_all_view [OF assms(1) comparator_contract.MemTable_make_view [OF assms(1)] assms(2)]
      assms(3) by fastforce
  with comparator_contract.MemTable_Get_newest [OF assms(1) _ assms(4-6)] show ?thesis by blast
qed

theorem memtable_get_newest_witness:
  "\<exists>m. add_all bump_new [(1, kTypeValue, [97], [1]), (2, kTypeValue, [97], [2]), (3, kTypeDeletion, [97], [])]
       (MemTable_make bump_new BytewiseComparator) = Some m \<and>
     MemTable_Get (LookupKey_make [97] 2) m = Some (True, Some [2], None)"
proof -
  let ?ops = "[(1, kTypeValue, [97], [1]), (2, kTypeValue, [97], [2]), (3, kTypeDeletion, [97], [])] :: mem_op list"
  have "\<forall>w \<in> set ?ops. op_ok (\<lambda>_. True) w" by (simp add: op_ok_def kMaxSequenceNumber_val)
  moreover have "sorted_wrt (\<lambda>a b. fst a < fst b) ?ops" by simp
  moreover have "length [97 :: byte] + 8 < 2 ^ 32" "(2 :: u64) \<le> kMaxSequenceNumber"
    by (simp_all add: kMaxSequenceNumber_val)
  moreover have "get_result (newest BytewiseComparator ?ops [97] 2) = (True, Some [2], None)"
    by (simp add: newest_def BytewiseComparator_sel get_result_def)
  ultimately show ?thesis
    using memtable_get_newest [OF bytewise.comparator_contract_axioms _ _ TrueI, of ?ops "[97]" 2 bump_new] by simp
qed

end
