(* ===== verification/Write_Batch.thy ===== *)
theory Write_Batch
  imports Memtable
begin

text \<open>
  \<^verbatim>\<open>db/write_batch.cc\<close>: a batch of writes is the string \<open>rep_\<close>, an 8-byte sequence number, a 4-byte
  count and the records.  \<open>Iterate\<close> parses the records and calls a handler, whose virtual functions
  are the fields of a record; the handler that matters inserts into a memtable, which may not
  return for a broken table, so the calls are option-valued.  The abstract batch is a sequence
  number and a list of operations.
\<close>

type_synonym write_batch = bytes

definition batch_kHeader :: nat where "batch_kHeader = 12"

definition WriteBatch_Clear :: "write_batch \<Rightarrow> write_batch" where
  "WriteBatch_Clear rep = resize [] batch_kHeader"

definition WriteBatch_make :: write_batch where
  "WriteBatch_make = WriteBatch_Clear []"

definition WriteBatch_ApproximateSize :: "write_batch \<Rightarrow> nat" where
  "WriteBatch_ApproximateSize rep = length rep"

text \<open>The count is an \<open>int\<close> with the bits of the fixed 32-bit field.\<close>

definition batch_Count :: "write_batch \<Rightarrow> u32" where
  "batch_Count rep = DecodeFixed32 (drop 8 rep)"

definition batch_SetCount :: "u32 \<Rightarrow> write_batch \<Rightarrow> write_batch" where
  "batch_SetCount n rep = overwrite rep 8 (EncodeFixed32 n)"

definition batch_Sequence :: "write_batch \<Rightarrow> u64" where
  "batch_Sequence rep = DecodeFixed64 rep"

definition batch_SetSequence :: "u64 \<Rightarrow> write_batch \<Rightarrow> write_batch" where
  "batch_SetSequence s rep = overwrite rep 0 (EncodeFixed64 s)"

definition WriteBatch_Put :: "bytes \<Rightarrow> bytes \<Rightarrow> write_batch \<Rightarrow> write_batch" where
  "WriteBatch_Put key val rep =
     (let rep = batch_SetCount (batch_Count rep + 1) rep;
          rep = rep @ [ValueType_byte kTypeValue];
          rep = PutLengthPrefixedSlice rep key
      in PutLengthPrefixedSlice rep val)"

definition WriteBatch_Delete :: "bytes \<Rightarrow> write_batch \<Rightarrow> write_batch" where
  "WriteBatch_Delete key rep =
     (let rep = batch_SetCount (batch_Count rep + 1) rep;
          rep = rep @ [ValueType_byte kTypeDeletion]
      in PutLengthPrefixedSlice rep key)"

definition batch_Append :: "write_batch \<Rightarrow> write_batch \<Rightarrow> write_batch" where
  "batch_Append src dst = batch_SetCount (batch_Count dst + batch_Count src) dst @ drop batch_kHeader src"

definition batch_SetContents :: "bytes \<Rightarrow> write_batch" where
  "batch_SetContents contents = contents"

subsection \<open>Iteration\<close>

record 'h batch_handler =
  bh_Put :: "bytes \<Rightarrow> bytes \<Rightarrow> 'h \<Rightarrow> 'h option"
  bh_Delete :: "bytes \<Rightarrow> 'h \<Rightarrow> 'h option"

text \<open>\<open>Inl\<close> is an early return, \<open>Inr\<close> the number of records found at the end of the loop.\<close>

function Iterate_loop ::
  "'h batch_handler \<Rightarrow> bytes \<Rightarrow> u32 \<Rightarrow> 'h \<Rightarrow> ((status + u32) \<times> 'h) option" where
  "Iterate_loop handler input found h =
     (case input of
        [] \<Rightarrow> Some (Inr found, h)
      | tag # input \<Rightarrow>
          let found = found + 1 in
          if tag = ValueType_byte kTypeValue then
            (case GetLengthPrefixedSlice input of
               (Some key, input1) \<Rightarrow>
                 (case GetLengthPrefixedSlice input1 of
                    (Some val, input2) \<Rightarrow>
                      do { h \<leftarrow> bh_Put handler key val h; Iterate_loop handler input2 found h }
                  | (None, _) \<Rightarrow> Some (Inl (Status_Corruption (lit ''bad WriteBatch Put'') []), h))
             | (None, _) \<Rightarrow> Some (Inl (Status_Corruption (lit ''bad WriteBatch Put'') []), h))
          else if tag = ValueType_byte kTypeDeletion then
            (case GetLengthPrefixedSlice input of
               (Some key, input1) \<Rightarrow>
                 do { h \<leftarrow> bh_Delete handler key h; Iterate_loop handler input1 found h }
             | (None, _) \<Rightarrow> Some (Inl (Status_Corruption (lit ''bad WriteBatch Delete'') []), h))
          else Some (Inl (Status_Corruption (lit ''unknown WriteBatch tag'') []), h))"
  by pat_completeness auto
termination
  by (relation "measure (\<lambda>(_, input, _, _). length input)")
     (auto dest!: GetLengthPrefixedSlice_bounds [OF sym] GetLengthPrefixedSlice_bounds)

declare Iterate_loop.simps [simp del]

definition WriteBatch_Iterate :: "'h batch_handler \<Rightarrow> write_batch \<Rightarrow> 'h \<Rightarrow> (status \<times> 'h) option" where
  "WriteBatch_Iterate handler rep h =
     (if length rep < batch_kHeader
      then Some (Status_Corruption (lit ''malformed WriteBatch (too small)'') [], h)
      else do {
        (res, h) \<leftarrow> Iterate_loop handler (drop batch_kHeader rep) 0 h;
        Some (case res of
          Inl s \<Rightarrow> (s, h)
        | Inr found \<Rightarrow>
            (if found \<noteq> batch_Count rep then Status_Corruption (lit ''WriteBatch has wrong count'') []
             else Status_OK, h)) })"

text \<open>The handler's state is its sequence number and the memtable.\<close>

definition MemTableInserter :: "allocator \<Rightarrow> (u64 \<times> memtable) batch_handler" where
  "MemTableInserter new = \<lparr>
     bh_Put = (\<lambda>key val (s, m). do { m \<leftarrow> MemTable_Add new s kTypeValue key val m; Some (s + 1, m) }),
     bh_Delete = (\<lambda>key (s, m). do { m \<leftarrow> MemTable_Add new s kTypeDeletion key [] m; Some (s + 1, m) })\<rparr>"

definition batch_InsertInto :: "allocator \<Rightarrow> write_batch \<Rightarrow> memtable \<Rightarrow> (status \<times> memtable) option" where
  "batch_InsertInto new b m = do {
     (st, h) \<leftarrow> WriteBatch_Iterate (MemTableInserter new) b (batch_Sequence b, m);
     Some (st, snd h) }"

subsection \<open>The abstract batch\<close>

datatype batch_op = Put_op bytes bytes | Delete_op bytes

definition op_bytes :: "batch_op \<Rightarrow> bytes" where
  "op_bytes w = (case w of
     Put_op k v \<Rightarrow> ValueType_byte kTypeValue # PutLengthPrefixedSlice [] k @ PutLengthPrefixedSlice [] v
   | Delete_op k \<Rightarrow> ValueType_byte kTypeDeletion # PutLengthPrefixedSlice [] k)"

lemma op_bytes_simps:
  "op_bytes (Put_op k v) =
     ValueType_byte kTypeValue # PutLengthPrefixedSlice [] k @ PutLengthPrefixedSlice [] v"
  "op_bytes (Delete_op k) = ValueType_byte kTypeDeletion # PutLengthPrefixedSlice [] k"
  by (simp_all add: op_bytes_def)

definition batch_rep :: "u64 \<Rightarrow> batch_op list \<Rightarrow> write_batch" where
  "batch_rep s ops = EncodeFixed64 s @ EncodeFixed32 (word_of_nat (length ops)) @ concat (map op_bytes ops)"

fun apply_op :: "batch_op \<Rightarrow> write_batch \<Rightarrow> write_batch" where
  "apply_op (Put_op k v) rep = WriteBatch_Put k v rep"
| "apply_op (Delete_op k) rep = WriteBatch_Delete k rep"

fun small_op :: "batch_op \<Rightarrow> bool" where
  "small_op (Put_op k v) \<longleftrightarrow> length k < 2 ^ 32 \<and> length v < 2 ^ 32"
| "small_op (Delete_op k) \<longleftrightarrow> length k < 2 ^ 32"

fun handle_op :: "'h batch_handler \<Rightarrow> batch_op \<Rightarrow> 'h \<Rightarrow> 'h option" where
  "handle_op handler (Put_op k v) h = bh_Put handler k v h"
| "handle_op handler (Delete_op k) h = bh_Delete handler k h"

fun handle_ops :: "'h batch_handler \<Rightarrow> batch_op list \<Rightarrow> 'h \<Rightarrow> 'h option" where
  "handle_ops handler [] h = Some h"
| "handle_ops handler (w # ws) h = do { h \<leftarrow> handle_op handler w h; handle_ops handler ws h }"

lemma handle_ops_append:
  "handle_ops handler (xs @ ys) h = do { h \<leftarrow> handle_ops handler xs h; handle_ops handler ys h }"
  by (induction xs arbitrary: h) (auto split: option.splits bind_splits simp: Option.bind_assoc)

subsection \<open>Building a batch refines the abstract one\<close>

lemma batch_rep_fields:
  "length (EncodeFixed64 s @ EncodeFixed32 n @ ops) = 12 + length ops"
  "batch_Count (EncodeFixed64 s @ EncodeFixed32 n @ ops) = n"
  "batch_Sequence (EncodeFixed64 s @ EncodeFixed32 n @ ops) = s"
  "batch_SetCount n' (EncodeFixed64 s @ EncodeFixed32 n @ ops) = EncodeFixed64 s @ EncodeFixed32 n' @ ops"
  "batch_SetSequence s' (EncodeFixed64 s @ EncodeFixed32 n @ ops) = EncodeFixed64 s' @ EncodeFixed32 n @ ops"
  "drop batch_kHeader (EncodeFixed64 s @ EncodeFixed32 n @ ops) = ops"
  by (simp_all add: batch_Count_def batch_Sequence_def batch_SetCount_def batch_SetSequence_def overwrite_def
      batch_kHeader_def length_EncodeFixed DecodeFixed32_append DecodeFixed64_append)

lemma batch_rep_simps:
  "length (batch_rep s ops) = 12 + length (concat (map op_bytes ops))"
  "batch_Count (batch_rep s ops) = word_of_nat (length ops)"
  "batch_Sequence (batch_rep s ops) = s"
  "batch_SetSequence s' (batch_rep s ops) = batch_rep s' ops"
  "drop batch_kHeader (batch_rep s ops) = concat (map op_bytes ops)"
  "batch_Append (batch_rep s' ops') (batch_rep s ops) = batch_rep s (ops @ ops')"
  by (simp_all add: batch_rep_def batch_rep_fields batch_Append_def del: drop_append)

lemma WriteBatch_make_rep: "WriteBatch_make = batch_rep 0 []"
  by (simp add: WriteBatch_make_def WriteBatch_Clear_def batch_rep_def resize_def batch_kHeader_def
      EncodeFixed64_le_bytes EncodeFixed32_le_bytes numeral_eq_Suc)

lemma apply_op_rep: "apply_op w (batch_rep s ops) = batch_rep s (ops @ [w])"
  by (cases w) (simp_all add: WriteBatch_Put_def WriteBatch_Delete_def Let_def batch_rep_def batch_rep_fields
      PutLengthPrefixedSlice_append [of "_ @ _"] PutLengthPrefixedSlice_append [of "_ # _"] op_bytes_def add.commute)

lemma apply_ops_rep: "fold apply_op ops (batch_rep s ops') = batch_rep s (ops' @ ops)"
  by (induction ops arbitrary: ops') (simp_all add: apply_op_rep)

lemma Iterate_loop_rep:
  "\<forall>w \<in> set ops. small_op w \<Longrightarrow>
   Iterate_loop handler (concat (map op_bytes ops)) found h =
     do { h \<leftarrow> handle_ops handler ops h; Some (Inr (found + word_of_nat (length ops)), h) }"
proof (induction ops arbitrary: found h)
  case Nil
  then show ?case by (simp add: Iterate_loop.simps)
next
  case (Cons w ops)
  have IH: "Iterate_loop handler (concat (map op_bytes ops)) found =
      (\<lambda>h. do { h \<leftarrow> handle_ops handler ops h; Some (Inr (found + word_of_nat (length ops)), h) })" for found
    by (rule ext) (use Cons in simp)
  have tags: "ValueType_byte kTypeDeletion \<noteq> ValueType_byte kTypeValue" by (simp add: ValueType_byte_def)
  show ?case
  proof (cases w)
    case (Put_op k v)
    with Cons.prems have s: "length k < 2 ^ 32" "length v < 2 ^ 32" by simp_all
    then show ?thesis
      using IH by (subst Iterate_loop.simps)
        (simp add: Put_op op_bytes_simps GetLengthPrefixedSlice_Put [OF s(1)] GetLengthPrefixedSlice_Put [OF s(2)]
          Option.bind_assoc ac_simps)
  next
    case (Delete_op k)
    with Cons.prems have s: "length k < 2 ^ 32" by simp
    then show ?thesis
      using IH tags by (subst Iterate_loop.simps)
        (simp add: Delete_op op_bytes_simps GetLengthPrefixedSlice_Put [OF s(1)] Option.bind_assoc ac_simps)
  qed
qed

lemma WriteBatch_Iterate_rep:
  assumes "\<forall>w \<in> set ops. small_op w"
  shows "WriteBatch_Iterate handler (batch_rep s ops) h = map_option (Pair Status_OK) (handle_ops handler ops h)"
  using Iterate_loop_rep [OF assms, of handler 0 h]
  by (cases "handle_ops handler ops h")
     (simp_all add: WriteBatch_Iterate_def batch_rep_simps batch_kHeader_def [symmetric])

subsection \<open>Iteration over arbitrary bytes\<close>

text \<open>
  The records of a batch as a grammar over bytes, apart from the loop that reads them.  A slice is its
  length as a varint and then its bytes; a record is the tag of a value with a key and a value behind it,
  or the tag of a deletion with a key.
\<close>

definition prefixed_slice :: "bytes \<Rightarrow> bytes \<Rightarrow> bytes \<Rightarrow> bool" where
  "prefixed_slice input s rest \<longleftrightarrow> (\<exists>n. GetVarint32 input = (Some n, s @ rest) \<and> unat n = length s)"

inductive batch_record :: "bytes \<Rightarrow> batch_op \<Rightarrow> bytes \<Rightarrow> bool" where
  put: "prefixed_slice input key input1 \<Longrightarrow> prefixed_slice input1 val rest \<Longrightarrow> batch_record (1 # input) (Put_op key val) rest"
| del: "prefixed_slice input key rest \<Longrightarrow> batch_record (0 # input) (Delete_op key) rest"

inductive batch_records :: "bytes \<Rightarrow> batch_op list \<Rightarrow> bytes \<Rightarrow> bool" where
  nil: "batch_records input [] input"
| cons: "batch_record input w mid \<Longrightarrow> batch_records mid ws rest \<Longrightarrow> batch_records input (w # ws) rest"

inductive_cases batch_recordE: "batch_record (tag # input) w rest"
inductive_simps batch_record_Nil [simp]: "batch_record [] w rest"
inductive_simps batch_records_Nil: "batch_records input [] rest"
inductive_simps batch_records_Cons: "batch_records input (w # ws) rest"

text \<open>Reading to the end: the records, and the bytes that do not begin with one.\<close>

definition batch_parse :: "bytes \<Rightarrow> batch_op list \<Rightarrow> bytes \<Rightarrow> bool" where
  "batch_parse input ws rest \<longleftrightarrow> batch_records input ws rest \<and> (\<nexists>w rest'. batch_record rest w rest')"

text \<open>What \<open>Iterate\<close> says of the bytes that are left.\<close>

definition bad_record :: "bytes \<Rightarrow> status" where
  "bad_record rest = Status_Corruption
     (if hd rest = 1 then lit ''bad WriteBatch Put''
      else if hd rest = 0 then lit ''bad WriteBatch Delete'' else lit ''unknown WriteBatch tag'') []"

definition batch_verdict :: "write_batch \<Rightarrow> batch_op list \<Rightarrow> bytes \<Rightarrow> status" where
  "batch_verdict rep ws rest =
     (if rest \<noteq> [] then bad_record rest
      else if word_of_nat (length ws) \<noteq> batch_Count rep then Status_Corruption (lit ''WriteBatch has wrong count'') []
      else Status_OK)"

lemma prefixed_slice_iff: "prefixed_slice input s rest \<longleftrightarrow> GetLengthPrefixedSlice input = (Some s, rest)"
proof (cases "GetVarint32 input")
  case (Pair v input')
  show ?thesis
  proof (cases v)
    case (Some n)
    have "input' = s @ rest \<and> m = length s \<longleftrightarrow> m \<le> length input' \<and> take m input' = s \<and> drop m input' = rest" for m
      by (auto simp: min_def)
    with Pair Some show ?thesis by (auto simp: prefixed_slice_def GetLengthPrefixedSlice_def)
  qed (use Pair in \<open>simp add: prefixed_slice_def GetLengthPrefixedSlice_def\<close>)
qed

lemma prefixed_slice_less: "prefixed_slice input s rest \<Longrightarrow> length rest < length input"
  unfolding prefixed_slice_iff by (drule GetLengthPrefixedSlice_bounds) simp

lemma batch_record_fun:
  assumes "batch_record input w rest" "batch_record input w' rest'"
  shows "w' = w \<and> rest' = rest"
  using assms
proof cases
  case (put input0 key input1 val)
  from assms(2) [unfolded put(1)] show ?thesis
    by (rule batch_recordE) (use put in \<open>simp_all add: prefixed_slice_iff\<close>)
next
  case (del input0 key)
  from assms(2) [unfolded del(1)] show ?thesis
    by (rule batch_recordE) (use del in \<open>simp_all add: prefixed_slice_iff\<close>)
qed

lemma batch_parse_fun:
  assumes "batch_parse input ws rest" "batch_parse input ws' rest'"
  shows "ws' = ws \<and> rest' = rest"
proof -
  have "batch_records input ws rest \<Longrightarrow> \<nexists>w r. batch_record rest w r \<Longrightarrow> batch_records input ws' rest' \<Longrightarrow>
      \<nexists>w r. batch_record rest' w r \<Longrightarrow> ws' = ws \<and> rest' = rest"
  proof (induction arbitrary: ws' rule: batch_records.induct)
    case (nil input)
    then show ?case by (cases ws') (auto simp: batch_records_Nil batch_records_Cons)
  next
    case (cons input w mid ws rest)
    then obtain w' mid' ws2 where "ws' = w' # ws2" "batch_record input w' mid'" "batch_records mid' ws2 rest'"
      by (cases ws') (auto simp: batch_records_Nil batch_records_Cons)
    with cons batch_record_fun show ?case by blast
  qed
  with assms show ?thesis unfolding batch_parse_def by blast
qed

text \<open>Every run of the loop hands over the records of its input.\<close>

definition loop_reads :: "'h batch_handler \<Rightarrow> bytes \<Rightarrow> u32 \<Rightarrow> batch_op list \<Rightarrow> bytes \<Rightarrow> bool" where
  "loop_reads handler input found ws rest \<longleftrightarrow> batch_parse input ws rest \<and>
     (\<forall>h. Iterate_loop handler input found h =
        map_option (Pair (if rest = [] then Inr (found + word_of_nat (length ws)) else Inl (bad_record rest)))
          (handle_ops handler ws h))"

lemma loop_reads_stop:
  assumes "\<nexists>w rest. batch_record input w rest"
    "\<And>h. Iterate_loop handler input found h = Some (if input = [] then Inr found else Inl (bad_record input), h)"
  shows "loop_reads handler input found [] input"
  using assms by (simp add: loop_reads_def batch_parse_def batch_records.nil)

lemma loop_reads_step:
  assumes "batch_record input w mid" "loop_reads handler mid (found + 1) ws rest"
    "\<And>h. Iterate_loop handler input found h = do { h \<leftarrow> handle_op handler w h; Iterate_loop handler mid (found + 1) h }"
  shows "loop_reads handler input found (w # ws) rest"
proof -
  have "Iterate_loop handler input found h =
      map_option (Pair (if rest = [] then Inr (found + word_of_nat (length (w # ws))) else Inl (bad_record rest)))
        (handle_ops handler (w # ws) h)" for h
    using assms(2) by (cases "handle_op handler w h") (simp_all add: assms(3) loop_reads_def algebra_simps)
  with assms(1,2) show ?thesis by (auto simp: loop_reads_def batch_parse_def intro: batch_records.cons)
qed

lemma Iterate_loop_reads: "\<exists>ws rest. loop_reads handler input found ws rest"
proof (induction "length input" arbitrary: input found rule: less_induct)
  case less
  show ?case
  proof (cases "\<exists>w mid. batch_record input w mid")
    case True
    then obtain w mid where w: "batch_record input w mid" by blast
    then have "length mid < length input" by cases (auto dest!: prefixed_slice_less)
    then obtain ws rest where r: "loop_reads handler mid (found + 1) ws rest" using less by blast
    have "Iterate_loop handler input found h = do { h \<leftarrow> handle_op handler w h; Iterate_loop handler mid (found + 1) h }" for h
      using w by cases (simp_all add: Iterate_loop.simps [of _ "_ # _"] prefixed_slice_iff ValueType_byte_def)
    from loop_reads_step [OF w r this] show ?thesis by blast
  next
    case False
    have "Iterate_loop handler input found h = Some (if input = [] then Inr found else Inl (bad_record input), h)" for h
    proof (cases input)
      case (Cons tag tl)
      have "fst (GetLengthPrefixedSlice tl) = None" if "tag = 0"
        using False that batch_record.del [of tl] unfolding Cons prefixed_slice_iff
        by (cases "GetLengthPrefixedSlice tl") (auto intro: ccontr)
      moreover have "fst (GetLengthPrefixedSlice in1) = None" if "tag = 1" "GetLengthPrefixedSlice tl = (Some k, in1)" for k in1
        using False that batch_record.put [of tl k in1] unfolding Cons prefixed_slice_iff
        by (cases "GetLengthPrefixedSlice in1") (auto intro: ccontr)
      ultimately show ?thesis
        by (auto simp: Cons Iterate_loop.simps [of _ "_ # _"] bad_record_def ValueType_byte_def split: option.splits prod.splits)
    qed (simp add: Iterate_loop.simps)
    from loop_reads_stop [OF False this] show ?thesis by blast
  qed
qed

text \<open>The handler that collects the operations.\<close>

definition op_collector :: "batch_op list batch_handler" where
  "op_collector = \<lparr>bh_Put = (\<lambda>k v ops. Some (ops @ [Put_op k v])), bh_Delete = (\<lambda>k ops. Some (ops @ [Delete_op k]))\<rparr>"

subsection \<open>Inserting a batch into a memtable\<close>

fun numbered :: "u64 \<Rightarrow> batch_op list \<Rightarrow> mem_op list" where
  "numbered s [] = []"
| "numbered s (Put_op k v # ws) = (s, kTypeValue, k, v) # numbered (s + 1) ws"
| "numbered s (Delete_op k # ws) = (s, kTypeDeletion, k, []) # numbered (s + 1) ws"

lemma handle_ops_MemTableInserter:
  "handle_ops (MemTableInserter new) ops (s, m) =
     map_option (Pair (s + word_of_nat (length ops))) (add_all new (numbered s ops) m)"
proof (induction s ops arbitrary: m rule: numbered.induct)
  case (2 s k v ws)
  then show ?case
    by (cases "MemTable_Add new s kTypeValue k v m") (simp_all add: MemTableInserter_def ac_simps)
next
  case (3 s k ws)
  then show ?case
    by (cases "MemTable_Add new s kTypeDeletion k [] m") (simp_all add: MemTableInserter_def ac_simps)
qed simp

lemma InsertInto_rep:
  assumes "\<forall>w \<in> set ops. small_op w"
  shows "batch_InsertInto new (batch_rep s ops) m = map_option (Pair Status_OK) (add_all new (numbered s ops) m)"
  by (simp add: batch_InsertInto_def WriteBatch_Iterate_rep [OF assms] batch_rep_simps handle_ops_MemTableInserter
      map_conv_bind_option o_def)

lemma numbered_range:
  "unat s + length ops \<le> 2 ^ 56 \<Longrightarrow> w \<in> set (numbered s ops) \<Longrightarrow>
   s \<le> fst w \<and> unat (fst w) < unat s + length ops"
proof (induction s ops rule: numbered.induct)
  case (2 s k v ws)
  then have "unat (s + 1) = unat s + 1" by (intro unat_Suc_u64) simp
  with 2 show ?case by (auto simp: word_le_nat_alt)
next
  case (3 s k ws)
  then have "unat (s + 1) = unat s + 1" by (intro unat_Suc_u64) simp
  with 3 show ?case by (auto simp: word_le_nat_alt)
qed simp

lemma numbered_sorted:
  "unat s + length ops \<le> 2 ^ 56 \<Longrightarrow> sorted_wrt (\<lambda>a b. fst a < fst b) (numbered s ops)"
proof (induction s ops rule: numbered.induct)
  case (2 s k v ws)
  then have u: "unat (s + 1) = unat s + 1" by (intro unat_Suc_u64) simp
  then have "\<forall>w \<in> set (numbered (s + 1) ws). s < fst w"
    using numbered_range [of "s + 1" ws] 2(2) by (fastforce simp: word_less_nat_alt word_le_nat_alt)
  with 2 u show ?case by simp
next
  case (3 s k ws)
  then have u: "unat (s + 1) = unat s + 1" by (intro unat_Suc_u64) simp
  then have "\<forall>w \<in> set (numbered (s + 1) ws). s < fst w"
    using numbered_range [of "s + 1" ws] 3(2) by (fastforce simp: word_less_nat_alt word_le_nat_alt)
  with 3 u show ?case by simp
qed simp

fun batch_op_ok :: "(bytes \<Rightarrow> bool) \<Rightarrow> batch_op \<Rightarrow> bool" where
  "batch_op_ok keys (Put_op k v) \<longleftrightarrow> keys k \<and> length k + 8 < 2 ^ 32 \<and> length v < 2 ^ 32"
| "batch_op_ok keys (Delete_op k) \<longleftrightarrow> keys k \<and> length k + 8 < 2 ^ 32"

lemma batch_op_ok_small: "batch_op_ok keys w \<Longrightarrow> small_op w"
  by (cases w) auto

lemma numbered_ok:
  assumes "unat s + length ops \<le> 2 ^ 56" "\<forall>w \<in> set ops. batch_op_ok keys w"
  shows "\<forall>w \<in> set (numbered s ops). op_ok keys w"
proof
  fix w assume w: "w \<in> set (numbered s ops)"
  have "fst w \<le> kMaxSequenceNumber"
    using numbered_range [OF assms(1) w] assms(1) by (simp add: word_le_nat_alt kMaxSequenceNumber_val)
  moreover have "\<exists>q t k v. w = (q, t, k, v) \<and> keys k \<and> length k + 8 < 2 ^ 32 \<and> length v < 2 ^ 32"
    using w assms(2) by (induction s ops rule: numbered.induct) auto
  ultimately show "op_ok keys w" by (auto simp: op_ok_def)
qed

context comparator_contract
begin

lemma InsertInto_view:
  assumes "mem_view c keys m old" "\<forall>w \<in> set ops. batch_op_ok keys w" "unat s + length ops \<le> 2 ^ 56"
    and "\<forall>w \<in> set old. fst w < s"
  shows "\<exists>m'. batch_InsertInto new (batch_rep s ops) m = Some (Status_OK, m') \<and> mem_view c keys m' (old @ numbered s ops)"
proof -
  have "sorted_wrt (\<lambda>a b. fst a < fst b) (old @ numbered s ops)"
    using assms(1,4) numbered_sorted [OF assms(3)] numbered_range [OF assms(3)]
    by (force simp: mem_view_def sorted_wrt_append)
  then obtain m' where "add_all new (numbered s ops) m = Some m'" "mem_view c keys m' (old @ numbered s ops)"
    using add_all_view [OF assms(1) numbered_ok [OF assms(3,2)]] by blast
  moreover have "\<forall>w \<in> set ops. small_op w" using assms(2) batch_op_ok_small by blast
  ultimately show ?thesis by (simp add: InsertInto_rep)
qed

end

subsection \<open>Properties\<close>

text \<open>
  C26: writes of a batch are read back.  A batch built by any calls of \<open>Put\<close> and \<open>Delete\<close>, stamped
  with a sequence number above everything in the memtable, inserts with status OK, and afterwards
  a lookup at any snapshot returns the newest write of the key at or below it, in the old writes
  followed by those of the batch, numbered consecutively in call order.
\<close>

theorem batch_read_your_writes:
  assumes "comparator_contract c keys" "mem_view c keys m old" "\<forall>w \<in> set old. fst w < s"
    and "\<forall>w \<in> set ops. batch_op_ok keys w" "unat s + length ops \<le> 2 ^ 56"
    and "keys k" "length k + 8 < 2 ^ 32" "snapshot \<le> kMaxSequenceNumber"
  shows "\<exists>m'. batch_InsertInto new (batch_SetSequence s (fold apply_op ops WriteBatch_make)) m = Some (Status_OK, m') \<and>
    mem_view c keys m' (old @ numbered s ops) \<and>
    MemTable_Get (LookupKey_make k snapshot) m' = Some (get_result (newest c (old @ numbered s ops) k snapshot))"
proof -
  obtain m' where m': "batch_InsertInto new (batch_rep s ops) m = Some (Status_OK, m')"
    "mem_view c keys m' (old @ numbered s ops)"
    using comparator_contract.InsertInto_view [OF assms(1,2,4,5,3)] by blast
  then show ?thesis
    using comparator_contract.MemTable_Get_newest [OF assms(1) m'(2) assms(6-8)]
    by (simp add: WriteBatch_make_rep apply_ops_rep batch_rep_simps)
qed

theorem batch_read_your_writes_witness:
  "\<exists>m'. batch_InsertInto bump_new (batch_SetSequence 5 (fold apply_op [Put_op [97] [1], Delete_op [97], Put_op [98] [2]] WriteBatch_make))
       (MemTable_make bump_new BytewiseComparator) = Some (Status_OK, m') \<and>
     MemTable_Get (LookupKey_make [97] 9) m' = Some (True, None, Some (Status_NotFound [] []))"
proof -
  let ?ops = "[Put_op [97] [1], Delete_op [97], Put_op [98] [2]]"
  have "mem_view BytewiseComparator (\<lambda>_. True) (MemTable_make bump_new BytewiseComparator) []"
    by (rule comparator_contract.MemTable_make_view [OF bytewise.comparator_contract_axioms])
  moreover have "\<forall>w \<in> set ([] :: mem_op list). fst w < 5" "\<forall>w \<in> set ?ops. batch_op_ok (\<lambda>_. True) w"
    "unat (5 :: u64) + length ?ops \<le> 2 ^ 56" "length [97 :: byte] + 8 < 2 ^ 32" "(9 :: u64) \<le> kMaxSequenceNumber"
    by (simp_all add: kMaxSequenceNumber_val)
  moreover have "get_result (newest BytewiseComparator ([] @ numbered 5 ?ops) [97] 9) =
      (True, None, Some (Status_NotFound [] []))"
    by (simp add: newest_def BytewiseComparator_sel get_result_def)
  ultimately show ?thesis
    using batch_read_your_writes [OF bytewise.comparator_contract_axioms, of "MemTable_make bump_new BytewiseComparator" "[]" 5 ?ops
        "[97]" 9 bump_new] by simp metis
qed

text \<open>
  C35: iteration over arbitrary bytes.  A string shorter than the header is refused.  Any other has
  exactly one reading as records, parsed by a grammar that is stated apart from the loop: \<open>Iterate\<close>
  hands the handler precisely these operations, keys as keys and values as values, in their order, and
  ends with OK if nothing is left and the count agrees, and otherwise with the corruption that the
  left-over bytes or the count call for.  It returns whenever the handler does.
\<close>

theorem batch_iterate_arbitrary_bytes:
  "if length rep < 12
   then \<forall>h. WriteBatch_Iterate handler rep h = Some (Status_Corruption (lit ''malformed WriteBatch (too small)'') [], h)
   else \<exists>ws rest. (\<forall>ws' rest'. batch_parse (drop 12 rep) ws' rest' \<longleftrightarrow> ws' = ws \<and> rest' = rest) \<and>
     (\<forall>h. WriteBatch_Iterate handler rep h = map_option (Pair (batch_verdict rep ws rest)) (handle_ops handler ws h))"
proof (cases "length rep < 12")
  case False
  obtain ws rest where r: "loop_reads handler (drop 12 rep) 0 ws rest" using Iterate_loop_reads by blast
  then have "batch_parse (drop 12 rep) ws' rest' \<longleftrightarrow> ws' = ws \<and> rest' = rest" for ws' rest'
    using batch_parse_fun unfolding loop_reads_def by blast
  moreover have "WriteBatch_Iterate handler rep h = map_option (Pair (batch_verdict rep ws rest)) (handle_ops handler ws h)" for h
    using r False by (cases "handle_ops handler ws h")
      (simp_all add: WriteBatch_Iterate_def batch_kHeader_def loop_reads_def batch_verdict_def del: lit_Cons)
  ultimately show ?thesis using False by auto
qed (simp add: WriteBatch_Iterate_def batch_kHeader_def del: lit_Cons)

text \<open>
  Building and parsing a batch are inverse.  The operations put into a batch are what a handler
  is given by \<open>Iterate\<close>, also after \<open>Append\<close> of another batch, and the sequence number is kept.
\<close>

lemma batch_round_trip:
  assumes "\<forall>w \<in> set (ops @ ops'). small_op w"
  shows "WriteBatch_Iterate op_collector
      (batch_Append (fold apply_op ops' WriteBatch_make) (batch_SetSequence s (fold apply_op ops WriteBatch_make))) [] =
      Some (Status_OK, ops @ ops') \<and>
    batch_Sequence (batch_Append (fold apply_op ops' WriteBatch_make)
      (batch_SetSequence s (fold apply_op ops WriteBatch_make))) = s"
proof -
  have "handle_ops op_collector ws acc = Some (acc @ ws)" for ws acc
  proof (induction ws arbitrary: acc)
    case (Cons w ws)
    then show ?case by (cases w) (simp_all add: op_collector_def)
  qed simp
  then show ?thesis
    by (simp add: WriteBatch_make_rep apply_ops_rep batch_rep_simps WriteBatch_Iterate_rep [OF assms])
qed

lemma batch_round_trip_witness:
  "WriteBatch_Iterate op_collector (batch_Append (fold apply_op [Delete_op [1]] WriteBatch_make)
      (batch_SetSequence 7 (fold apply_op [Put_op [1] [2, 3]] WriteBatch_make))) [] =
    Some (Status_OK, [Put_op [1] [2, 3], Delete_op [1]])"
  using batch_round_trip [of "[Put_op [1] [2, 3]]" "[Delete_op [1]]" 7] by simp

end
