(* ===== verification/Iterator.thy ===== *)
theory Iterator
  imports Comparator "HOL-Library.Multiset" "HOL-Library.Monad_Syntax"
begin

text \<open>
  \<^verbatim>\<open>include/leveldb/iterator.h\<close>, \<^verbatim>\<open>table/iterator.cc\<close> and \<^verbatim>\<open>table/iterator_wrapper.h\<close>.  The abstract
  class is a record of its virtual functions over a state type; a movement is option-valued,
  \<open>None\<close> when it does not return or fails an assertion.  The contract of an iterator is the
  locale \<open>iterator_contract\<close>: it is a cursor on a finite sequence of key/value pairs.
\<close>

record 'i iterator =
  it_Valid :: "'i \<Rightarrow> bool"
  it_SeekToFirst :: "'i \<Rightarrow> 'i option"
  it_SeekToLast :: "'i \<Rightarrow> 'i option"
  it_Seek :: "bytes \<Rightarrow> 'i \<Rightarrow> 'i option"
  it_Next :: "'i \<Rightarrow> 'i option"
  it_Prev :: "'i \<Rightarrow> 'i option"
  it_key :: "'i \<Rightarrow> bytes"
  it_value :: "'i \<Rightarrow> bytes"
  it_status :: "'i \<Rightarrow> status"

subsection \<open>Cleanup functions\<close>

text \<open>
  The list of cleanup functions: the head node is part of the object, and a further function is
  inserted behind it.  The destructor runs the head and then the list.
\<close>

definition RegisterCleanup :: "'c \<Rightarrow> 'c list \<Rightarrow> 'c list" where
  "RegisterCleanup func cleanups =
     (case cleanups of [] \<Rightarrow> [func] | cleanup_head # nodes \<Rightarrow> cleanup_head # func # nodes)"

primrec run_cleanups :: "('c \<Rightarrow> 's \<Rightarrow> 's option) \<Rightarrow> 'c list \<Rightarrow> 's \<Rightarrow> 's option" where
  "run_cleanups run [] s = Some s"
| "run_cleanups run (c # cs) s = do { s \<leftarrow> run c s; run_cleanups run cs s }"

lemma mset_RegisterCleanup [simp]: "mset (RegisterCleanup func cleanups) = add_mset func (mset cleanups)"
  by (cases cleanups) (simp_all add: RegisterCleanup_def)

subsection \<open>The empty iterator\<close>

definition EmptyIterator :: "status iterator" where
  "EmptyIterator = \<lparr>
     it_Valid = (\<lambda>_. False), it_SeekToFirst = Some, it_SeekToLast = Some, it_Seek = (\<lambda>_. Some),
     it_Next = (\<lambda>_. None), it_Prev = (\<lambda>_. None), it_key = (\<lambda>_. []), it_value = (\<lambda>_. []),
     it_status = (\<lambda>s. s)\<rparr>"

definition NewEmptyIterator :: status where
  "NewEmptyIterator = Status_OK"

definition NewErrorIterator :: "status \<Rightarrow> status" where
  "NewErrorIterator s = s"

subsection \<open>The wrapper that caches validity and key\<close>

record 'i iterator_wrapper =
  iw_iter :: "'i option"
  iw_valid :: bool
  iw_key :: bytes

definition IteratorWrapper_make :: "'i iterator_wrapper" where
  "IteratorWrapper_make = \<lparr>iw_iter = None, iw_valid = False, iw_key = []\<rparr>"

definition iw_Update :: "'i iterator \<Rightarrow> 'i \<Rightarrow> 'i iterator_wrapper \<Rightarrow> 'i iterator_wrapper" where
  "iw_Update I iter w =
     (if it_Valid I iter then \<lparr>iw_iter = Some iter, iw_valid = True, iw_key = it_key I iter\<rparr>
      else w\<lparr>iw_iter := Some iter, iw_valid := False\<rparr>)"

definition iw_Set :: "'i iterator \<Rightarrow> 'i option \<Rightarrow> 'i iterator_wrapper \<Rightarrow> 'i iterator_wrapper" where
  "iw_Set I iter w =
     (case iter of None \<Rightarrow> w\<lparr>iw_iter := None, iw_valid := False\<rparr> | Some i \<Rightarrow> iw_Update I i w)"

definition iw_value :: "'i iterator \<Rightarrow> 'i iterator_wrapper \<Rightarrow> bytes" where
  "iw_value I w = (case iw_iter w of None \<Rightarrow> [] | Some i \<Rightarrow> it_value I i)"

definition iw_status :: "'i iterator \<Rightarrow> 'i iterator_wrapper \<Rightarrow> status" where
  "iw_status I w = (case iw_iter w of None \<Rightarrow> Status_OK | Some i \<Rightarrow> it_status I i)"

definition iw_Next :: "'i iterator \<Rightarrow> 'i iterator_wrapper \<Rightarrow> 'i iterator_wrapper option" where
  "iw_Next I w = do { i \<leftarrow> iw_iter w; i \<leftarrow> it_Next I i; Some (iw_Update I i w) }"

definition iw_Prev :: "'i iterator \<Rightarrow> 'i iterator_wrapper \<Rightarrow> 'i iterator_wrapper option" where
  "iw_Prev I w = do { i \<leftarrow> iw_iter w; i \<leftarrow> it_Prev I i; Some (iw_Update I i w) }"

definition iw_Seek :: "'i iterator \<Rightarrow> bytes \<Rightarrow> 'i iterator_wrapper \<Rightarrow> 'i iterator_wrapper option" where
  "iw_Seek I k w = do { i \<leftarrow> iw_iter w; i \<leftarrow> it_Seek I k i; Some (iw_Update I i w) }"

definition iw_SeekToFirst :: "'i iterator \<Rightarrow> 'i iterator_wrapper \<Rightarrow> 'i iterator_wrapper option" where
  "iw_SeekToFirst I w = do { i \<leftarrow> iw_iter w; i \<leftarrow> it_SeekToFirst I i; Some (iw_Update I i w) }"

definition iw_SeekToLast :: "'i iterator \<Rightarrow> 'i iterator_wrapper \<Rightarrow> 'i iterator_wrapper option" where
  "iw_SeekToLast I w = do { i \<leftarrow> iw_iter w; i \<leftarrow> it_SeekToLast I i; Some (iw_Update I i w) }"

subsection \<open>The contract\<close>

text \<open>
  \<open>view it es n\<close>: the iterator presents the entries \<open>es\<close> and stands at index \<open>n\<close>; the index
  \<open>length es\<close> is the invalid position.  Seeking and stepping keep the entries.
\<close>

definition seek_index :: "(bytes \<Rightarrow> bytes \<Rightarrow> int) \<Rightarrow> bytes \<Rightarrow> (bytes \<times> bytes) list \<Rightarrow> nat" where
  "seek_index compare target es = length (takeWhile (\<lambda>e. compare (fst e) target < 0) es)"

locale iterator_contract =
  fixes I :: "'i iterator" and compare :: "bytes \<Rightarrow> bytes \<Rightarrow> int" and keys :: "bytes \<Rightarrow> bool"
    and view :: "'i \<Rightarrow> (bytes \<times> bytes) list \<Rightarrow> nat \<Rightarrow> bool"
  assumes view_le: "view it es n \<Longrightarrow> n \<le> length es"
    and view_Valid: "view it es n \<Longrightarrow> it_Valid I it \<longleftrightarrow> n < length es"
    and view_entry: "view it es n \<Longrightarrow> n < length es \<Longrightarrow> (it_key I it, it_value I it) = es ! n"
    and view_status: "view it es n \<Longrightarrow> Status_ok (it_status I it)"
    and view_SeekToFirst: "view it es n \<Longrightarrow> \<exists>it'. it_SeekToFirst I it = Some it' \<and> view it' es 0"
    and view_SeekToLast: "view it es n \<Longrightarrow> \<exists>it'. it_SeekToLast I it = Some it' \<and> view it' es (length es - 1)"
    and view_Seek: "view it es n \<Longrightarrow> keys target \<Longrightarrow>
      \<exists>it'. it_Seek I target it = Some it' \<and> view it' es (seek_index compare target es)"
    and view_Next: "view it es n \<Longrightarrow> n < length es \<Longrightarrow> \<exists>it'. it_Next I it = Some it' \<and> view it' es (Suc n)"
    and view_Prev: "view it es n \<Longrightarrow> n < length es \<Longrightarrow>
      \<exists>it'. it_Prev I it = Some it' \<and> view it' es (if n = 0 then length es else n - 1)"

text \<open>Reading everything from the current position on, forwards and backwards.\<close>

partial_function (option) scan :: "'i iterator \<Rightarrow> 'i \<Rightarrow> (bytes \<times> bytes) list option" where
  "scan I it =
     (if it_Valid I it
      then do { it' \<leftarrow> it_Next I it; rest \<leftarrow> scan I it'; Some ((it_key I it, it_value I it) # rest) }
      else Some [])"

partial_function (option) scan_back :: "'i iterator \<Rightarrow> 'i \<Rightarrow> (bytes \<times> bytes) list option" where
  "scan_back I it =
     (if it_Valid I it
      then do { it' \<leftarrow> it_Prev I it; rest \<leftarrow> scan_back I it'; Some ((it_key I it, it_value I it) # rest) }
      else Some [])"

definition iw_view :: "('i \<Rightarrow> (bytes \<times> bytes) list \<Rightarrow> nat \<Rightarrow> bool) \<Rightarrow> 'i iterator_wrapper \<Rightarrow> (bytes \<times> bytes) list \<Rightarrow> nat \<Rightarrow> bool" where
  "iw_view view w es n \<longleftrightarrow>
     (\<exists>it. iw_iter w = Some it \<and> view it es n) \<and> (iw_valid w \<longleftrightarrow> n < length es) \<and>
     (n < length es \<longrightarrow> iw_key w = fst (es ! n))"

lemma seek_index_le: "seek_index compare target es \<le> length es"
  by (simp add: seek_index_def length_takeWhile_le)

lemma seek_index_eqI:
  assumes "n \<le> length es" "\<And>i. i < n \<Longrightarrow> compare (fst (es ! i)) target < 0"
    "n < length es \<Longrightarrow> \<not> compare (fst (es ! n)) target < 0"
  shows "seek_index compare target es = n"
proof -
  have "takeWhile (\<lambda>e. compare (fst e) target < 0) es = take n es"
    by (rule takeWhile_eq_take_P_nth) (use assms in auto)
  then show ?thesis using assms(1) by (simp add: seek_index_def)
qed

context iterator_contract
begin

lemma view_key_value: "view it es n \<Longrightarrow> n < length es \<Longrightarrow> it_key I it = fst (es ! n)"
  "view it es n \<Longrightarrow> n < length es \<Longrightarrow> it_value I it = snd (es ! n)"
  using view_entry [of it es n] by (metis fst_conv snd_conv)+

lemma scan_view: "view it es n \<Longrightarrow> scan I it = Some (drop n es)"
proof (induction "length es - n" arbitrary: it n)
  case 0
  then have "n = length es" using view_le by fastforce
  then show ?case using view_Valid [OF 0(2)] by (subst scan.simps) simp
next
  case (Suc d)
  then have n: "n < length es" by simp
  obtain it' where it': "it_Next I it = Some it'" "view it' es (Suc n)"
    using view_Next [OF Suc(3) n] by blast
  have "scan I it' = Some (drop (Suc n) es)" using Suc(1) [OF _ it'(2)] Suc(2) by simp
  then show ?case
    using it'(1) view_Valid [OF Suc(3)] view_entry [OF Suc(3) n] n
    by (subst scan.simps) (simp add: Cons_nth_drop_Suc)
qed

lemma scan_back_view: "view it es n \<Longrightarrow> n < length es \<Longrightarrow> scan_back I it = Some (rev (take (Suc n) es))"
proof (induction n arbitrary: it)
  case 0
  obtain it' where it': "it_Prev I it = Some it'" "view it' es (length es)" using view_Prev [OF 0] by auto
  have "scan_back I it' = Some []" using view_Valid [OF it'(2)] by (subst scan_back.simps) simp
  then show ?case
    using it'(1) view_Valid [OF 0(1)] view_entry [OF 0] 0(2)
    by (subst scan_back.simps) (simp add: take_Suc_conv_app_nth)
next
  case (Suc n)
  obtain it' where it': "it_Prev I it = Some it'" "view it' es n" using view_Prev [OF Suc(2,3)] by auto
  have "scan_back I it' = Some (rev (take (Suc n) es))" using Suc(1) [OF it'(2)] Suc(3) by simp
  then show ?case
    using it'(1) view_Valid [OF Suc(2)] view_entry [OF Suc(2,3)] Suc(3)
    by (subst scan_back.simps) (simp add: take_Suc_conv_app_nth [of "Suc n"])
qed

lemma iw_Update_view: "view it es n \<Longrightarrow> iw_view view (iw_Update I it w) es n"
  using view_Valid view_key_value by (auto simp: iw_view_def iw_Update_def)

lemma iw_Set_view: "view it es n \<Longrightarrow> iw_view view (iw_Set I (Some it) w) es n"
  by (simp add: iw_Set_def iw_Update_view)

lemma iw_view_value: "iw_view view w es n \<Longrightarrow> n < length es \<Longrightarrow> iw_value I w = snd (es ! n)"
  by (auto simp: iw_view_def iw_value_def view_key_value)

lemma iw_view_status: "iw_view view w es n \<Longrightarrow> Status_ok (iw_status I w)"
  by (auto simp: iw_view_def iw_status_def view_status)

lemma iw_moves:
  assumes "iw_view view w es n"
  shows "\<exists>w'. iw_SeekToFirst I w = Some w' \<and> iw_view view w' es 0"
    "\<exists>w'. iw_SeekToLast I w = Some w' \<and> iw_view view w' es (length es - 1)"
    "keys target \<Longrightarrow> \<exists>w'. iw_Seek I target w = Some w' \<and> iw_view view w' es (seek_index compare target es)"
    "n < length es \<Longrightarrow> \<exists>w'. iw_Next I w = Some w' \<and> iw_view view w' es (Suc n)"
    "n < length es \<Longrightarrow> \<exists>w'. iw_Prev I w = Some w' \<and> iw_view view w' es (if n = 0 then length es else n - 1)"
proof -
  obtain it where it: "iw_iter w = Some it" "view it es n" using assms by (auto simp: iw_view_def)
  show "\<exists>w'. iw_SeekToFirst I w = Some w' \<and> iw_view view w' es 0"
    using it view_SeekToFirst [OF it(2)] iw_Update_view by (fastforce simp: iw_SeekToFirst_def)
  show "\<exists>w'. iw_SeekToLast I w = Some w' \<and> iw_view view w' es (length es - 1)"
    using it view_SeekToLast [OF it(2)] iw_Update_view by (fastforce simp: iw_SeekToLast_def)
  show "\<exists>w'. iw_Seek I target w = Some w' \<and> iw_view view w' es (seek_index compare target es)" if "keys target"
    using it view_Seek [OF it(2) that] iw_Update_view by (fastforce simp: iw_Seek_def)
  show "\<exists>w'. iw_Next I w = Some w' \<and> iw_view view w' es (Suc n)" if "n < length es"
    using it view_Next [OF it(2) that] iw_Update_view by (fastforce simp: iw_Next_def)
  show "\<exists>w'. iw_Prev I w = Some w' \<and> iw_view view w' es (if n = 0 then length es else n - 1)" if "n < length es"
    using it view_Prev [OF it(2) that] iw_Update_view by (fastforce simp: iw_Prev_def)
qed

end

definition empty_view :: "status \<Rightarrow> (bytes \<times> bytes) list \<Rightarrow> nat \<Rightarrow> bool" where
  "empty_view s es n \<longleftrightarrow> Status_ok s \<and> es = [] \<and> n = 0"

interpretation empty_iterator: iterator_contract EmptyIterator compare keys empty_view
  for compare keys
  by unfold_locales (auto simp: EmptyIterator_def empty_view_def seek_index_def)

subsection \<open>Iterators of two kinds, and iterators with cleanup functions\<close>

text \<open>\<open>J\<close> does on \<open>emb i\<close> what \<open>I\<close> does on \<open>i\<close>; then it keeps the contract there.\<close>

definition lifts :: "('i \<Rightarrow> 'j) \<Rightarrow> 'i iterator \<Rightarrow> 'j iterator \<Rightarrow> bool" where
  "lifts emb I J \<longleftrightarrow> (\<forall>i. it_Valid J (emb i) = it_Valid I i \<and>
     it_SeekToFirst J (emb i) = map_option emb (it_SeekToFirst I i) \<and>
     it_SeekToLast J (emb i) = map_option emb (it_SeekToLast I i) \<and>
     (\<forall>k. it_Seek J k (emb i) = map_option emb (it_Seek I k i)) \<and>
     it_Next J (emb i) = map_option emb (it_Next I i) \<and> it_Prev J (emb i) = map_option emb (it_Prev I i) \<and>
     it_key J (emb i) = it_key I i \<and> it_value J (emb i) = it_value I i \<and> it_status J (emb i) = it_status I i)"

context iterator_contract
begin

lemma lifted:
  assumes "lifts emb I J" "view i es n" "\<And>i n. view i es n \<Longrightarrow> view' (emb i) es n"
  shows "n \<le> length es" "it_Valid J (emb i) \<longleftrightarrow> n < length es" "Status_ok (it_status J (emb i))"
    "\<exists>it'. it_SeekToFirst J (emb i) = Some it' \<and> view' it' es 0"
    "\<exists>it'. it_SeekToLast J (emb i) = Some it' \<and> view' it' es (length es - 1)"
    "keys target \<Longrightarrow> \<exists>it'. it_Seek J target (emb i) = Some it' \<and> view' it' es (seek_index compare target es)"
    "n < length es \<Longrightarrow> (it_key J (emb i), it_value J (emb i)) = es ! n"
    "n < length es \<Longrightarrow> \<exists>it'. it_Next J (emb i) = Some it' \<and> view' it' es (Suc n)"
    "n < length es \<Longrightarrow> \<exists>it'. it_Prev J (emb i) = Some it' \<and> view' it' es (if n = 0 then length es else n - 1)"
proof -
  note J = assms(1) [unfolded lifts_def, rule_format, of i]
  show "n \<le> length es" "it_Valid J (emb i) \<longleftrightarrow> n < length es" "Status_ok (it_status J (emb i))"
    using J view_le [OF assms(2)] view_Valid [OF assms(2)] view_status [OF assms(2)] by simp_all
  show "\<exists>it'. it_SeekToFirst J (emb i) = Some it' \<and> view' it' es 0" using J view_SeekToFirst [OF assms(2)] assms(3) by auto
  show "\<exists>it'. it_SeekToLast J (emb i) = Some it' \<and> view' it' es (length es - 1)"
    using J view_SeekToLast [OF assms(2)] assms(3) by auto
  show "\<exists>it'. it_Seek J target (emb i) = Some it' \<and> view' it' es (seek_index compare target es)" if "keys target"
    using J view_Seek [OF assms(2) that] assms(3) by auto
  assume n: "n < length es"
  show "(it_key J (emb i), it_value J (emb i)) = es ! n" using J view_entry [OF assms(2) n] by simp
  show "\<exists>it'. it_Next J (emb i) = Some it' \<and> view' it' es (Suc n)" using J view_Next [OF assms(2) n] assms(3) by auto
  obtain i' where "it_Prev I i = Some i'" "view i' es (if n = 0 then length es else n - 1)" using view_Prev [OF assms(2) n] by blast
  then show "\<exists>it'. it_Prev J (emb i) = Some it' \<and> view' it' es (if n = 0 then length es else n - 1)"
    using J assms(3) by simp
qed

end

text \<open>A pointer to an \<open>Iterator\<close> may point to an object of either class.\<close>

definition either_iterator :: "'a iterator \<Rightarrow> 'b iterator \<Rightarrow> ('a + 'b) iterator" where
  "either_iterator A B = \<lparr>
     it_Valid = case_sum (it_Valid A) (it_Valid B),
     it_SeekToFirst = case_sum (map_option Inl \<circ> it_SeekToFirst A) (map_option Inr \<circ> it_SeekToFirst B),
     it_SeekToLast = case_sum (map_option Inl \<circ> it_SeekToLast A) (map_option Inr \<circ> it_SeekToLast B),
     it_Seek = (\<lambda>k. case_sum (map_option Inl \<circ> it_Seek A k) (map_option Inr \<circ> it_Seek B k)),
     it_Next = case_sum (map_option Inl \<circ> it_Next A) (map_option Inr \<circ> it_Next B),
     it_Prev = case_sum (map_option Inl \<circ> it_Prev A) (map_option Inr \<circ> it_Prev B),
     it_key = case_sum (it_key A) (it_key B),
     it_value = case_sum (it_value A) (it_value B),
     it_status = case_sum (it_status A) (it_status B)\<rparr>"

lemma either_lifts: "lifts Inl A (either_iterator A B)" "lifts Inr B (either_iterator A B)"
  by (simp_all add: lifts_def either_iterator_def)

lemma either_contract:
  assumes "iterator_contract A compare keys aview" "iterator_contract B compare keys bview"
  shows "iterator_contract (either_iterator A B) compare keys (case_sum aview bview)"
proof
  note lift = iterator_contract.lifted [OF assms(1) either_lifts(1), where view' = "case_sum aview bview"]
    iterator_contract.lifted [OF assms(2) either_lifts(2), where view' = "case_sum aview bview"]
  fix it :: "'a + 'b" and es n
  assume v: "case_sum aview bview it es n"
  show "n \<le> length es" "it_Valid (either_iterator A B) it \<longleftrightarrow> n < length es" "Status_ok (it_status (either_iterator A B) it)"
    using v lift(1-3) [of _ es n] lift(10-12) [of _ es n] by (cases it; simp)+
  show "\<exists>it'. it_SeekToFirst (either_iterator A B) it = Some it' \<and> case_sum aview bview it' es 0"
    using v lift(4) [of _ es n] lift(13) [of _ es n] by (cases it; simp)
  show "\<exists>it'. it_SeekToLast (either_iterator A B) it = Some it' \<and> case_sum aview bview it' es (length es - 1)"
    using v lift(5) [of _ es n] lift(14) [of _ es n] by (cases it; simp)
  show "\<exists>it'. it_Seek (either_iterator A B) target it = Some it' \<and> case_sum aview bview it' es (seek_index compare target es)"
    if "keys target" for target
    using v that lift(6) [of _ es n target] lift(15) [of _ es n target] by (cases it; simp)
  assume n: "n < length es"
  show "(it_key (either_iterator A B) it, it_value (either_iterator A B) it) = es ! n"
    using v n lift(7) [of _ es n] lift(16) [of _ es n] by (cases it; simp)
  show "\<exists>it'. it_Next (either_iterator A B) it = Some it' \<and> case_sum aview bview it' es (Suc n)"
    using v n lift(8) [of _ es n] lift(17) [of _ es n] by (cases it; simp)
  show "\<exists>it'. it_Prev (either_iterator A B) it = Some it' \<and> case_sum aview bview it' es (if n = 0 then length es else n - 1)"
    using v n lift(9) [of _ es n] lift(18) [of _ es n] by (cases it; simp del: One_nat_def)
qed

text \<open>An iterator object together with its registered cleanup functions.\<close>

definition with_cleanups :: "'a iterator \<Rightarrow> ('a \<times> 'c list) iterator" where
  "with_cleanups I = \<lparr>
     it_Valid = it_Valid I \<circ> fst,
     it_SeekToFirst = (\<lambda>(i, cs). map_option (\<lambda>i. (i, cs)) (it_SeekToFirst I i)),
     it_SeekToLast = (\<lambda>(i, cs). map_option (\<lambda>i. (i, cs)) (it_SeekToLast I i)),
     it_Seek = (\<lambda>k (i, cs). map_option (\<lambda>i. (i, cs)) (it_Seek I k i)),
     it_Next = (\<lambda>(i, cs). map_option (\<lambda>i. (i, cs)) (it_Next I i)),
     it_Prev = (\<lambda>(i, cs). map_option (\<lambda>i. (i, cs)) (it_Prev I i)),
     it_key = it_key I \<circ> fst, it_value = it_value I \<circ> fst, it_status = it_status I \<circ> fst\<rparr>"

lemma with_cleanups_lifts: "lifts (\<lambda>i. (i, cs)) I (with_cleanups I)"
  by (simp add: lifts_def with_cleanups_def)

lemma with_cleanups_contract:
  assumes "iterator_contract I compare keys view"
  shows "iterator_contract (with_cleanups I) compare keys (\<lambda>it. view (fst it))"
proof
  fix it :: "'a \<times> 'c list" and es n
  assume v: "view (fst it) es n"
  obtain i cs where it: "it = (i, cs)" by fastforce
  have "view i es n" using v by (simp add: it)
  note lift = iterator_contract.lifted [OF assms with_cleanups_lifts [of cs] this, where view' = "\<lambda>it. view (fst it)", simplified fst_conv]
  show "n \<le> length es" "it_Valid (with_cleanups I) it \<longleftrightarrow> n < length es" "Status_ok (it_status (with_cleanups I) it)"
    "\<exists>it'. it_SeekToFirst (with_cleanups I) it = Some it' \<and> view (fst it') es 0"
    "\<exists>it'. it_SeekToLast (with_cleanups I) it = Some it' \<and> view (fst it') es (length es - 1)"
    unfolding it using lift(1-5) by blast+
  show "\<exists>it'. it_Seek (with_cleanups I) target it = Some it' \<and> view (fst it') es (seek_index compare target es)"
    if "keys target" for target
    unfolding it using lift(6) [OF _ that] by blast
  assume n: "n < length es"
  show "(it_key (with_cleanups I) it, it_value (with_cleanups I) it) = es ! n"
    "\<exists>it'. it_Next (with_cleanups I) it = Some it' \<and> view (fst it') es (Suc n)"
    "\<exists>it'. it_Prev (with_cleanups I) it = Some it' \<and> view (fst it') es (if n = 0 then length es else n - 1)"
    unfolding it using lift(7-9) [OF _ n] by blast+
qed

subsection \<open>Reading everything, and mixed steps\<close>

text \<open>What an iterator contract says about reading everything.\<close>

context iterator_contract
begin

lemma reads_all:
  assumes "view it es n" "keys target"
  shows "(\<exists>it'. it_SeekToFirst I it = Some it' \<and> scan I it' = Some es) \<and>
    (\<exists>it'. it_SeekToLast I it = Some it' \<and> scan_back I it' = Some (rev es)) \<and>
    (\<exists>it'. it_Seek I target it = Some it' \<and> scan I it' = Some (dropWhile (\<lambda>e. compare (fst e) target < 0) es))"
proof (intro conjI)
  show "\<exists>it'. it_SeekToFirst I it = Some it' \<and> scan I it' = Some es"
    using view_SeekToFirst [OF assms(1)] scan_view by fastforce
  show "\<exists>it'. it_Seek I target it = Some it' \<and> scan I it' = Some (dropWhile (\<lambda>e. compare (fst e) target < 0) es)"
    using view_Seek [OF assms] scan_view by (fastforce simp: seek_index_def dropWhile_eq_drop)
  obtain it' where it': "it_SeekToLast I it = Some it'" "view it' es (length es - 1)" using view_SeekToLast [OF assms(1)] by blast
  have "scan_back I it' = Some (rev es)"
  proof (cases es)
    case Nil
    then show ?thesis using view_Valid [OF it'(2)] by (subst scan_back.simps) simp
  next
    case (Cons e es')
    then show ?thesis using scan_back_view [OF it'(2)] by simp
  qed
  with it'(1) show "\<exists>it'. it_SeekToLast I it = Some it' \<and> scan_back I it' = Some (rev es)" by blast
qed

end

text \<open>A sequence of \<open>Next\<close> and \<open>Prev\<close> steps.\<close>

definition walk :: "'i iterator \<Rightarrow> bool list \<Rightarrow> 'i \<Rightarrow> 'i option" where
  "walk I forwards it = fold (\<lambda>forward s. s \<bind> (if forward then it_Next I else it_Prev I)) forwards (Some it)"

text \<open>The index after the steps, \<open>None\<close> when a step is taken from the invalid position.\<close>

definition walk_index :: "nat \<Rightarrow> bool list \<Rightarrow> nat \<Rightarrow> nat option" where
  "walk_index len forwards n = fold (\<lambda>forward s. s \<bind> (\<lambda>n. if n < len then
     Some (if forward then Suc n else if n = 0 then len else n - 1) else None)) forwards (Some n)"

lemma walk_Cons:
  "walk I (f # fs) it = (if f then it_Next I it else it_Prev I it) \<bind> walk I fs"
proof -
  have "fold (\<lambda>forward s. s \<bind> (if forward then it_Next I else it_Prev I)) fs None = None" by (induction fs) simp_all
  then show ?thesis by (cases "if f then it_Next I it else it_Prev I it") (auto simp: walk_def)
qed

lemma walk_index_Cons:
  "walk_index len (f # fs) n = (if n < len then walk_index len fs (if f then Suc n else if n = 0 then len else n - 1) else None)"
proof -
  have "fold (\<lambda>forward s. s \<bind> (\<lambda>n. if n < len then Some (if forward then Suc n else if n = 0 then len else n - 1) else None)) fs None = None"
    by (induction fs) simp_all
  then show ?thesis by (simp add: walk_index_def)
qed

lemma walk_view:
  assumes "iterator_contract I compare keys view"
  shows "view it es n \<Longrightarrow> walk_index (length es) fs n = Some n' \<Longrightarrow> \<exists>it'. walk I fs it = Some it' \<and> view it' es n'"
proof (induction fs arbitrary: it n)
  case Nil
  then show ?case by (simp add: walk_def walk_index_def)
next
  case (Cons f fs)
  then have n: "n < length es" "walk_index (length es) fs (if f then Suc n else if n = 0 then length es else n - 1) = Some n'"
    by (auto simp: walk_index_Cons split: if_splits)
  have "\<exists>it1. (if f then it_Next I it else it_Prev I it) = Some it1 \<and> view it1 es (if f then Suc n else if n = 0 then length es else n - 1)"
    using iterator_contract.view_Next [OF assms Cons.prems(1) n(1)] iterator_contract.view_Prev [OF assms Cons.prems(1) n(1)] by simp
  with Cons.IH n(2) show ?case by (auto simp: walk_Cons)
qed

end
