(* ===== verification/Block_Builder.thy ===== *)
theory Block_Builder
  imports Coding Comparator "HOL-Library.Monad_Syntax" "HOL-Library.Sublist"
begin

text \<open>
  \<^verbatim>\<open>table/block_builder.cc\<close>: the blocks of a table, keys prefix-compressed against their
  predecessor, with restart points every \<open>block_restart_interval\<close> entries.  The layout of a
  finished block is stated here as the specification that the iterator of \<^verbatim>\<open>table/block.cc\<close> is
  proved against.
\<close>

record block_builder =
  bb_buffer :: bytes
  bb_restarts :: "u32 list"
  bb_counter :: nat
  bb_finished :: bool
  bb_last_key :: bytes

definition BlockBuilder_make :: block_builder where
  "BlockBuilder_make = \<lparr>bb_buffer = [], bb_restarts = [0], bb_counter = 0, bb_finished = False, bb_last_key = []\<rparr>"

definition BlockBuilder_Reset :: "block_builder \<Rightarrow> block_builder" where
  "BlockBuilder_Reset b =
     b\<lparr>bb_buffer := [], bb_restarts := [0], bb_counter := 0, bb_finished := False, bb_last_key := []\<rparr>"

definition BlockBuilder_CurrentSizeEstimate :: "block_builder \<Rightarrow> nat" where
  "BlockBuilder_CurrentSizeEstimate b = length (bb_buffer b) + length (bb_restarts b) * 4 + 4"

definition BlockBuilder_empty :: "block_builder \<Rightarrow> bool" where
  "BlockBuilder_empty b \<longleftrightarrow> bb_buffer b = []"

definition BlockBuilder_Finish :: "block_builder \<Rightarrow> bytes \<times> block_builder" where
  "BlockBuilder_Finish b =
     (let buffer = foldl PutFixed32 (bb_buffer b) (bb_restarts b);
          buffer = PutFixed32 buffer (word_of_nat (length (bb_restarts b)))
      in (buffer, b\<lparr>bb_buffer := buffer, bb_finished := True\<rparr>))"

definition BlockBuilder_Add :: "nat \<Rightarrow> bytes \<Rightarrow> bytes \<Rightarrow> block_builder \<Rightarrow> block_builder" where
  "BlockBuilder_Add block_restart_interval key val b =
     (let (shared, restarts, counter) =
            (if bb_counter b < block_restart_interval
             then (common_prefix (bb_last_key b) key, bb_restarts b, bb_counter b)
             else (0, bb_restarts b @ [word_of_nat (length (bb_buffer b))], 0));
          non_shared = length key - shared;
          buffer = PutVarint32 (bb_buffer b) (word_of_nat shared);
          buffer = PutVarint32 buffer (word_of_nat non_shared);
          buffer = PutVarint32 buffer (word_of_nat (length val));
          buffer = buffer @ take non_shared (drop shared key);
          buffer = buffer @ val
      in b\<lparr>bb_buffer := buffer, bb_restarts := restarts, bb_counter := counter + 1,
           bb_last_key := resize (bb_last_key b) shared @ take non_shared (drop shared key)\<rparr>)"

subsection \<open>The layout of a block\<close>

text \<open>An entry is placed with the number of bytes it shares with the key before it.\<close>

type_synonym placed = "nat \<times> bytes \<times> bytes"

abbreviation placed_key :: "placed \<Rightarrow> bytes" where "placed_key e \<equiv> fst (snd e)"
abbreviation placed_value :: "placed \<Rightarrow> bytes" where "placed_value e \<equiv> snd (snd e)"

definition entry_header :: "placed \<Rightarrow> bytes" where
  "entry_header e = EncodeVarint32 (word_of_nat (fst e)) @
     EncodeVarint32 (word_of_nat (length (placed_key e) - fst e)) @
     EncodeVarint32 (word_of_nat (length (placed_value e)))"

definition enc_entry :: "placed \<Rightarrow> bytes" where
  "enc_entry e = entry_header e @ drop (fst e) (placed_key e) @ placed_value e"

definition enc_entries :: "placed list \<Rightarrow> bytes" where
  "enc_entries ls = concat (map enc_entry ls)"

definition offs :: "placed list \<Rightarrow> nat \<Rightarrow> nat" where
  "offs ls i = length (enc_entries (take i ls))"

text \<open>What the key before index \<open>i\<close> offers: the empty key at the start.\<close>

definition prev_key :: "placed list \<Rightarrow> nat \<Rightarrow> bytes" where
  "prev_key ls i = (if i = 0 then [] else placed_key (ls ! (i - 1)))"

definition shares :: "bytes \<Rightarrow> placed \<Rightarrow> bool" where
  "shares prev e \<longleftrightarrow> fst e \<le> length prev \<and> fst e \<le> length (placed_key e) \<and>
     take (fst e) prev = take (fst e) (placed_key e)"

definition restart_points :: "placed list \<Rightarrow> nat list \<Rightarrow> bool" where
  "restart_points ls rs \<longleftrightarrow> rs \<noteq> [] \<and> hd rs = 0 \<and> sorted_wrt (<) rs \<and>
     (\<forall>r \<in> set rs. r < length ls \<and> fst (ls ! r) = 0 \<or> r = 0)"

definition placed_ok :: "placed list \<Rightarrow> nat list \<Rightarrow> bool" where
  "placed_ok ls rs \<longleftrightarrow> (\<forall>i < length ls. shares (prev_key ls i) (ls ! i)) \<and> restart_points ls rs"

definition block_bytes :: "placed list \<Rightarrow> nat list \<Rightarrow> bytes" where
  "block_bytes ls rs = enc_entries ls @ concat (map (\<lambda>r. EncodeFixed32 (word_of_nat (offs ls r))) rs) @
     EncodeFixed32 (word_of_nat (length rs))"

definition block_layout :: "bytes \<Rightarrow> placed list \<Rightarrow> nat list \<Rightarrow> bool" where
  "block_layout data ls rs \<longleftrightarrow> data = block_bytes ls rs \<and> placed_ok ls rs \<and> length data < 2 ^ 32"

lemma enc_entries_simps [simp]:
  "enc_entries [] = []" "enc_entries (e # ls) = enc_entry e @ enc_entries ls"
  "enc_entries (ls @ ls') = enc_entries ls @ enc_entries ls'"
  by (simp_all add: enc_entries_def)

lemma length_EncodeVarint32_pos: "0 < length (EncodeVarint32 v)"
  unfolding EncodeVarint32_spec by (rule length_varint_bytes_pos)

lemma length_entry_header: "3 \<le> length (entry_header e)"
  using length_EncodeVarint32_pos [of "word_of_nat (fst e)"]
    length_EncodeVarint32_pos [of "word_of_nat (length (placed_key e) - fst e)"]
    length_EncodeVarint32_pos [of "word_of_nat (length (placed_value e))"]
  unfolding entry_header_def length_append by linarith

lemma length_enc_entry: "3 \<le> length (enc_entry e)"
  using length_entry_header [of e] by (simp add: enc_entry_def)

lemma offs_0 [simp]: "offs ls 0 = 0" by (simp add: offs_def)

lemma offs_length: "offs ls (length ls) = length (enc_entries ls)" by (simp add: offs_def)

lemma offs_Suc: "i < length ls \<Longrightarrow> offs ls (Suc i) = offs ls i + length (enc_entry (ls ! i))"
  by (simp add: offs_def take_Suc_conv_app_nth)

lemma offs_append: "i \<le> length ls \<Longrightarrow> offs (ls @ ls') i = offs ls i"
  by (simp add: offs_def)

lemma offs_mono: "i \<le> j \<Longrightarrow> offs ls i \<le> offs ls j"
proof -
  assume "i \<le> j"
  then obtain d where "j = i + d" using le_iff_add by blast
  then show ?thesis by (simp add: offs_def take_add)
qed

lemma offs_less: "i < j \<Longrightarrow> i < length ls \<Longrightarrow> offs ls i < offs ls j"
  using offs_mono [of "Suc i" j ls] length_enc_entry [of "ls ! i"] by (simp add: offs_Suc)

lemma offs_le: "offs ls i \<le> length (enc_entries ls)"
  using offs_mono [of i "max i (length ls)" ls] by (simp add: offs_def)

lemma offs_less_iff: "i \<le> length ls \<Longrightarrow> j \<le> length ls \<Longrightarrow> offs ls i < offs ls j \<longleftrightarrow> i < j"
  using offs_less [of i j ls] offs_mono [of j i ls] by (meson leD not_le order_less_le_trans)

lemma drop_offs: "i < length ls \<Longrightarrow>
  drop (offs ls i) (enc_entries ls) = enc_entry (ls ! i) @ enc_entries (drop (Suc i) ls)"
proof -
  assume i: "i < length ls"
  have "enc_entries ls = enc_entries (take i ls) @ enc_entry (ls ! i) @ enc_entries (drop (Suc i) ls)"
    using i by (metis append.assoc enc_entries_simps(2,3) id_take_nth_drop)
  then show ?thesis by (simp add: offs_def)
qed

subsection \<open>The builder makes a layout\<close>

definition builder_inv :: "nat \<Rightarrow> block_builder \<Rightarrow> placed list \<Rightarrow> nat list \<Rightarrow> bool" where
  "builder_inv interval b ls rs \<longleftrightarrow> bb_buffer b = enc_entries ls \<and>
     bb_restarts b = map (\<lambda>r. word_of_nat (offs ls r)) rs \<and> placed_ok ls rs \<and>
     bb_last_key b = prev_key ls (length ls) \<and> bb_counter b \<le> interval \<and> last rs + bb_counter b = length ls"

lemma BlockBuilder_make_inv: "builder_inv interval BlockBuilder_make [] [0]"
  by (simp add: builder_inv_def BlockBuilder_make_def placed_ok_def restart_points_def prev_key_def)

lemma BlockBuilder_Reset_make: "BlockBuilder_Reset b = BlockBuilder_make"
  by (simp add: BlockBuilder_Reset_def BlockBuilder_make_def)

lemma shares_common_prefix: "shares prev (common_prefix prev key, key, v)"
  by (simp add: shares_def common_prefix_le take_common_prefix)

lemma placed_ok_snoc:
  assumes "placed_ok ls rs" "shares (prev_key ls (length ls)) e" "rs' = rs \<or> rs' = rs @ [length ls] \<and> fst e = 0 \<and> last rs < length ls"
  shows "placed_ok (ls @ [e]) rs'"
proof -
  have "\<forall>i < length (ls @ [e]). shares (prev_key (ls @ [e]) i) ((ls @ [e]) ! i)"
    using assms(1,2) by (auto simp: placed_ok_def prev_key_def nth_append less_Suc_eq)
  moreover have "restart_points (ls @ [e]) rs'"
  proof -
    have rs: "rs \<noteq> []" "hd rs = 0" "sorted_wrt (<) rs" "\<forall>r \<in> set rs. r < length ls \<and> fst (ls ! r) = 0 \<or> r = 0"
      using assms(1) by (simp_all add: placed_ok_def restart_points_def)
    have le: "\<forall>r \<in> set rs. r < length ls" if "last rs < length ls"
      using rs that by (metis last_in_set neq0_conv order.strict_trans rs(4))
    from assms(3) rs le show ?thesis
      by (auto simp: restart_points_def nth_append sorted_wrt_append)
  qed
  ultimately show ?thesis by (simp add: placed_ok_def)
qed

lemma BlockBuilder_Add_inv:
  assumes "builder_inv interval b ls rs" "0 < interval"
  shows "\<exists>shared rs'. builder_inv interval (BlockBuilder_Add interval key v b) (ls @ [(shared, key, v)]) rs'"
proof -
  let ?s = "if bb_counter b < interval then common_prefix (bb_last_key b) key else 0"
  let ?rs = "if bb_counter b < interval then rs else rs @ [length ls]"
  let ?e = "(?s, key, v)"
  have inv: "bb_buffer b = enc_entries ls" "bb_restarts b = map (\<lambda>r. word_of_nat (offs ls r)) rs" "placed_ok ls rs"
    "bb_last_key b = prev_key ls (length ls)" "bb_counter b \<le> interval" "last rs + bb_counter b = length ls"
    using assms(1) by (simp_all add: builder_inv_def)
  have rs: "rs \<noteq> []" "\<forall>r \<in> set rs. r \<le> length ls" using inv(3) by (auto simp: placed_ok_def restart_points_def)
  have sh: "shares (prev_key ls (length ls)) ?e"
    using shares_common_prefix by (simp add: inv(4) shares_def)
  have ok: "placed_ok (ls @ [?e]) ?rs"
    by (rule placed_ok_snoc [OF inv(3) sh]) (use inv(6) assms(2) in auto)
  have key: "resize (bb_last_key b) ?s @ drop ?s key = key"
    using sh by (simp add: shares_def inv(4) resize_take)
  have offs: "map (\<lambda>r. word_of_nat (offs (ls @ [?e]) r)) rs = (map (\<lambda>r. word_of_nat (offs ls r)) rs :: u32 list)"
    using rs(2) by (simp add: offs_append)
  have "builder_inv interval (BlockBuilder_Add interval key v b) (ls @ [?e]) ?rs"
    unfolding builder_inv_def
    using ok inv(5,6) assms(2) rs(1) offs key
    by (auto simp: BlockBuilder_Add_def Let_def inv(1,2) PutVarint32_def enc_entry_def entry_header_def
        prev_key_def offs_append offs_length)
  then show ?thesis by blast
qed

lemma foldl_PutFixed32: "foldl PutFixed32 buf ws = buf @ concat (map EncodeFixed32 ws)"
  by (induction ws arbitrary: buf) (simp_all add: PutFixed32_def)

lemma drop_fixed32s: "i < length ws \<Longrightarrow> drop (4 * i) (concat (map EncodeFixed32 ws) @ z) =
  EncodeFixed32 (ws ! i) @ drop (4 * Suc i) (concat (map EncodeFixed32 ws) @ z)"
proof (induction ws arbitrary: i)
  case (Cons w ws)
  then show ?case by (cases i) simp_all
qed simp

lemma BlockBuilder_Finish_layout:
  assumes "builder_inv interval b ls rs" "length (fst (BlockBuilder_Finish b)) < 2 ^ 32"
  shows "block_layout (fst (BlockBuilder_Finish b)) ls rs"
  using assms
  by (simp add: block_layout_def BlockBuilder_Finish_def Let_def builder_inv_def block_bytes_def
      foldl_PutFixed32 PutFixed32_def o_def)

text \<open>All the entries of a block, added in order.\<close>

definition build_block :: "nat \<Rightarrow> (bytes \<times> bytes) list \<Rightarrow> block_builder" where
  "build_block interval es = fold (\<lambda>(k, v). BlockBuilder_Add interval k v) es BlockBuilder_make"

lemma fold_Add_inv:
  "builder_inv interval b ls rs \<Longrightarrow> 0 < interval \<Longrightarrow>
   \<exists>ls' rs'. builder_inv interval (fold (\<lambda>(k, v). BlockBuilder_Add interval k v) es b) ls' rs' \<and>
     map snd ls' = map snd ls @ es"
proof (induction es arbitrary: b ls rs)
  case (Cons e es)
  obtain k v where e: "e = (k, v)" by fastforce
  obtain sh rs1 where "builder_inv interval (BlockBuilder_Add interval k v b) (ls @ [(sh, k, v)]) rs1"
    using BlockBuilder_Add_inv [OF Cons.prems] by blast
  from Cons.IH [OF this Cons.prems(2)] show ?case by (simp add: e)
qed auto

lemma build_block_layout:
  assumes "0 < interval" "length (fst (BlockBuilder_Finish (build_block interval es))) < 2 ^ 32"
  shows "\<exists>ls rs. block_layout (fst (BlockBuilder_Finish (build_block interval es))) ls rs \<and> map snd ls = es"
  using fold_Add_inv [OF BlockBuilder_make_inv assms(1), of es] BlockBuilder_Finish_layout assms(2)
  by (fastforce simp: build_block_def)

end
