(* ===== verification/Block.thy ===== *)
theory Block
  imports Block_Builder Iterator
begin

text \<open>
  \<^verbatim>\<open>table/block.cc\<close>: reading a block.  Offsets and indices are the \<open>uint32_t\<close> of the code; a slice
  into the block is its offset and length.  A step is \<open>None\<close> when it would copy key bytes, or hold
  a value, that lies beyond the block's data: the length check of \<open>DecodeEntry\<close> adds two 32-bit
  lengths and can wrap around, see \<open>DecodeEntry_wraps\<close>.  The iterator of a block the builder made
  is a cursor on the entries added to it, whatever the comparator.
\<close>

record block =
  blk_data :: bytes
  blk_size :: nat
  blk_restart_offset :: u32

definition NumRestarts :: "bytes \<Rightarrow> nat \<Rightarrow> u32" where
  "NumRestarts data sz = DecodeFixed32 (drop (sz - 4) data)"

definition Block_make :: "bytes \<Rightarrow> block" where
  "Block_make data =
     (let size = length data in
      if size < 4 then \<lparr>blk_data = data, blk_size = 0, blk_restart_offset = 0\<rparr>
      else let max_restarts_allowed = (size - 4) div 4 in
        if max_restarts_allowed < unat (NumRestarts data size)
        then \<lparr>blk_data = data, blk_size = 0, blk_restart_offset = 0\<rparr>
        else \<lparr>blk_data = data, blk_size = size,
              blk_restart_offset = word_of_nat (size - unat (1 + NumRestarts data size) * 4)\<rparr>)"

text \<open>\<open>p\<close> is the list of the bytes from \<open>p\<close> up to \<open>limit\<close>, and so is the pointer returned.\<close>

definition DecodeEntry :: "bytes \<Rightarrow> (u32 \<times> u32 \<times> u32 \<times> bytes) option" where
  "DecodeEntry p =
     (if length p < 3 then None
      else do {
        (shared, non_shared, value_length, p) \<leftarrow>
          (let shared = ucast (p ! 0); non_shared = ucast (p ! 1); value_length = ucast (p ! 2) in
           if (shared OR non_shared OR value_length) < (128 :: u32)
           then Some (shared, non_shared, value_length, drop 3 p)
           else do {
             (shared, p) \<leftarrow> GetVarint32Ptr p;
             (non_shared, p) \<leftarrow> GetVarint32Ptr p;
             (value_length, p) \<leftarrow> GetVarint32Ptr p;
             Some (shared, non_shared, value_length, p) });
        (if word_of_nat (length p) < non_shared + value_length then None
         else Some (shared, non_shared, value_length, p)) })"

subsection \<open>The iterator of a block\<close>

record block_iter =
  bi_comparator :: comparator
  bi_data :: bytes
  bi_restarts :: u32
  bi_num_restarts :: u32
  bi_current :: u32
  bi_restart_index :: u32
  bi_key :: bytes
  bi_value :: "(nat \<times> nat) option"
  bi_status :: status

definition BlockIter_make :: "comparator \<Rightarrow> bytes \<Rightarrow> u32 \<Rightarrow> u32 \<Rightarrow> block_iter" where
  "BlockIter_make comparator data restarts num_restarts =
     \<lparr>bi_comparator = comparator, bi_data = data, bi_restarts = restarts, bi_num_restarts = num_restarts,
      bi_current = restarts, bi_restart_index = num_restarts, bi_key = [], bi_value = None,
      bi_status = Status_OK\<rparr>"

text \<open>The empty slice the iterator starts with does not point into the block.\<close>

definition NextEntryOffset :: "block_iter \<Rightarrow> u32 option" where
  "NextEntryOffset it = map_option (\<lambda>(off, len). word_of_nat (off + len)) (bi_value it)"

definition GetRestartPoint :: "block_iter \<Rightarrow> u32 \<Rightarrow> u32" where
  "GetRestartPoint it index = DecodeFixed32 (drop (unat (bi_restarts it) + unat index * 4) (bi_data it))"

definition SeekToRestartPoint :: "u32 \<Rightarrow> block_iter \<Rightarrow> block_iter" where
  "SeekToRestartPoint index it =
     it\<lparr>bi_key := [], bi_restart_index := index, bi_value := Some (unat (GetRestartPoint it index), 0)\<rparr>"

definition CorruptionError :: "block_iter \<Rightarrow> block_iter" where
  "CorruptionError it =
     it\<lparr>bi_current := bi_restarts it, bi_restart_index := bi_num_restarts it,
        bi_status := Status_Corruption (lit ''bad entry in block'') [], bi_key := [], bi_value := None\<rparr>"

text \<open>The loop that moves \<open>restart_index_\<close> up to the block of the current entry.\<close>

function advance_restart :: "block_iter \<Rightarrow> u32 \<Rightarrow> u32" where
  "advance_restart it index =
     (if index + 1 < bi_num_restarts it \<and> GetRestartPoint it (index + 1) < bi_current it
      then advance_restart it (index + 1) else index)"
  by pat_completeness auto
termination
proof (relation "measure (\<lambda>(it, index). unat (bi_num_restarts it) - unat (index + 1))", goal_cases)
  case (2 it index)
  then have lt: "unat (index + 1) < unat (bi_num_restarts it)" by (simp add: word_less_nat_alt)
  then have "unat (index + 1) + 1 < 2 ^ 32" using unat_u32_less [of "bi_num_restarts it"] by linarith
  then have "unat (index + 1 + 1) = unat (index + 1) + 1" by (rule unat_Suc_u32)
  with lt show ?case unfolding in_measure case_prod_conv by linarith
qed simp

declare advance_restart.simps [simp del]

definition ParseNextKey :: "block_iter \<Rightarrow> (bool \<times> block_iter) option" where
  "ParseNextKey it = do {
     cur \<leftarrow> NextEntryOffset it;
     let it = it\<lparr>bi_current := cur\<rparr>;
     let limit = unat (bi_restarts it);
     if limit \<le> unat cur then
       Some (False, it\<lparr>bi_current := bi_restarts it, bi_restart_index := bi_num_restarts it\<rparr>)
     else (case DecodeEntry (drop (unat cur) (take limit (bi_data it))) of
         None \<Rightarrow> Some (False, CorruptionError it)
       | Some (shared, non_shared, value_length, p) \<Rightarrow>
           if length (bi_key it) < unat shared then Some (False, CorruptionError it)
           else let off = limit - length p in
             if length (bi_data it) < off + unat non_shared + unat value_length then None
             else let it = it\<lparr>bi_key := resize (bi_key it) (unat shared) @ take (unat non_shared) (drop off (bi_data it)),
                              bi_value := Some (off + unat non_shared, unat value_length)\<rparr>
               in Some (True, it\<lparr>bi_restart_index := advance_restart it (bi_restart_index it)\<rparr>)) }"

definition BlockIter_Valid :: "block_iter \<Rightarrow> bool" where
  "BlockIter_Valid it \<longleftrightarrow> bi_current it < bi_restarts it"

definition BlockIter_value :: "block_iter \<Rightarrow> bytes" where
  "BlockIter_value it = (case bi_value it of None \<Rightarrow> [] | Some (off, len) \<Rightarrow> take len (drop off (bi_data it)))"

definition BlockIter_Next :: "block_iter \<Rightarrow> block_iter option" where
  "BlockIter_Next it = map_option snd (ParseNextKey it)"

text \<open>
  The backwards scan of \<open>Prev\<close>: \<open>None\<close> when there is no restart point before the entry.  The loop
  \<open>while (ParseNextKey() && NextEntryOffset() < bound)\<close> is shared with \<open>SeekToLast\<close>.
\<close>

function restart_before :: "block_iter \<Rightarrow> u32 \<Rightarrow> u32 \<Rightarrow> u32 option" where
  "restart_before it original index =
     (if original \<le> GetRestartPoint it index
      then if index = 0 then None else restart_before it original (index - 1)
      else Some index)"
  by pat_completeness auto
termination
  by (relation "measure (\<lambda>(it, original, index). unat index)") (auto simp: measure_unat)

declare restart_before.simps [simp del]

partial_function (option) parse_until :: "u32 \<Rightarrow> block_iter \<Rightarrow> block_iter option" where
  "parse_until bound it = do {
     (ok, it) \<leftarrow> ParseNextKey it;
     if ok then do {
       next \<leftarrow> NextEntryOffset it;
       if next < bound then parse_until bound it else Some it }
     else Some it }"

definition BlockIter_Prev :: "block_iter \<Rightarrow> block_iter option" where
  "BlockIter_Prev it =
     (let original = bi_current it in
      case restart_before it original (bi_restart_index it) of
        None \<Rightarrow> Some (it\<lparr>bi_current := bi_restarts it, bi_restart_index := bi_num_restarts it\<rparr>)
      | Some index \<Rightarrow> parse_until original (SeekToRestartPoint index it))"

text \<open>The binary search over the restart points: \<open>Some None\<close> is the corruption exit.\<close>

partial_function (option) seek_restart :: "bytes \<Rightarrow> block_iter \<Rightarrow> u32 \<Rightarrow> u32 \<Rightarrow> u32 option option" where
  "seek_restart target it left right =
     (if left < right then
        let mid = (left + right + 1) div 2;
            region_offset = GetRestartPoint it mid;
            limit = unat (bi_restarts it)
        in case DecodeEntry (drop (unat region_offset) (take limit (bi_data it))) of
             None \<Rightarrow> Some None
           | Some (shared, non_shared, value_length, p) \<Rightarrow>
               if shared \<noteq> 0 then Some None
               else let off = limit - length p in
                 if length (bi_data it) < off + unat non_shared then None
                 else let mid_key = take (unat non_shared) (drop off (bi_data it)) in
                   if cmp_Compare (bi_comparator it) mid_key target < 0
                   then seek_restart target it mid right
                   else seek_restart target it left (mid - 1)
      else Some (Some left))"

partial_function (option) seek_linear :: "bytes \<Rightarrow> block_iter \<Rightarrow> block_iter option" where
  "seek_linear target it = do {
     (ok, it) \<leftarrow> ParseNextKey it;
     if ok then
       if 0 \<le> cmp_Compare (bi_comparator it) (bi_key it) target then Some it else seek_linear target it
     else Some it }"

definition BlockIter_Seek :: "bytes \<Rightarrow> block_iter \<Rightarrow> block_iter option" where
  "BlockIter_Seek target it = do {
     left \<leftarrow> seek_restart target it 0 (bi_num_restarts it - 1);
     (case left of
        None \<Rightarrow> Some (CorruptionError it)
      | Some left \<Rightarrow> seek_linear target (SeekToRestartPoint left it)) }"

definition BlockIter_SeekToFirst :: "block_iter \<Rightarrow> block_iter option" where
  "BlockIter_SeekToFirst it = map_option snd (ParseNextKey (SeekToRestartPoint 0 it))"

definition BlockIter_SeekToLast :: "block_iter \<Rightarrow> block_iter option" where
  "BlockIter_SeekToLast it = parse_until (bi_restarts it) (SeekToRestartPoint (bi_num_restarts it - 1) it)"

definition Block_Iter :: "block_iter iterator" where
  "Block_Iter = \<lparr>
     it_Valid = BlockIter_Valid, it_SeekToFirst = BlockIter_SeekToFirst, it_SeekToLast = BlockIter_SeekToLast,
     it_Seek = BlockIter_Seek, it_Next = BlockIter_Next, it_Prev = BlockIter_Prev,
     it_key = bi_key, it_value = BlockIter_value, it_status = bi_status\<rparr>"

text \<open>\<open>Block::NewIterator\<close>: an empty iterator with a status, or the iterator of the block.\<close>

definition Block_NewIterator :: "block \<Rightarrow> comparator \<Rightarrow> status + block_iter" where
  "Block_NewIterator b comparator =
     (if blk_size b < 4 then Inl (NewErrorIterator (Status_Corruption (lit ''bad block contents'') []))
      else let num_restarts = NumRestarts (blk_data b) (blk_size b) in
        if num_restarts = 0 then Inl NewEmptyIterator
        else Inr (BlockIter_make comparator (blk_data b) (blk_restart_offset b) num_restarts))"

subsection \<open>Decoding entries\<close>

lemma GetVarint32Ptr_EncodeVarint32 [simp, decode_encode]: "GetVarint32Ptr (EncodeVarint32 v @ rest) = Some (v, rest)"
  using GetVarint32Ptr_varint [of "unat v" rest] unat_u32_less [of v] by (simp add: EncodeVarint32_spec)

lemma less_128_bit: "(w :: u32) < 128 \<Longrightarrow> \<not> bit w 7"
proof -
  assume "w < 128"
  then have "take_bit 7 w = w"
    by (simp add: word_unat_eq_iff unsigned_take_bit_eq take_bit_nat_eq_self word_less_nat_alt)
  then show ?thesis by (metis bit_take_bit_iff less_irrefl)
qed

lemma and_128_eq_0: "(w :: u32) AND 128 = 0 \<longleftrightarrow> \<not> bit w 7"
proof
  assume "w AND 128 = 0"
  then have "\<not> bit (w AND 128) 7" by simp
  then show "\<not> bit w 7" unfolding bit_and_iff bit_128 by simp
next
  assume "\<not> bit w 7"
  then show "w AND 128 = 0" by (intro bit_eqI) (auto simp only: bit_and_iff bit_128 bit_0_eq bot_apply bot_bool_def)
qed

text \<open>The fast path agrees with decoding three varints.\<close>

lemma DecodeEntry_slow:
  assumes "3 \<le> length p" "GetVarint32Ptr p = Some (shared, p1)" "GetVarint32Ptr p1 = Some (non_shared, p2)"
    "GetVarint32Ptr p2 = Some (value_length, p3)"
  shows "DecodeEntry p = (if word_of_nat (length p3) < non_shared + value_length then None
    else Some (shared, non_shared, value_length, p3))"
proof -
  obtain a b c q where p: "p = a # b # c # q" using assms(1) by (auto simp: numeral_3_eq_3 Suc_le_length_iff)
  show ?thesis
  proof (cases "(ucast a OR ucast b OR ucast c :: u32) < 128")
    case True
    then have "\<not> bit (ucast a OR ucast b OR ucast c :: u32) 7" by (rule less_128_bit)
    then have "ucast a AND (128 :: u32) = 0" "ucast b AND (128 :: u32) = 0" "ucast c AND (128 :: u32) = 0"
      unfolding and_128_eq_0 bit_or_iff by blast+
    then have "shared = ucast a" "non_shared = ucast b" "value_length = ucast c" "p3 = q"
      using assms by (auto simp: p GetVarint32Ptr_def Let_def)
    then show ?thesis using True by (simp add: DecodeEntry_def p)
  next
    case False
    then show ?thesis using assms by (simp add: DecodeEntry_def p Let_def)
  qed
qed

lemma DecodeEntry_enc_entry:
  assumes "fst e \<le> length (placed_key e)" "length (enc_entry e @ rest) < 2 ^ 32"
  shows "DecodeEntry (enc_entry e @ rest) =
    Some (word_of_nat (fst e), word_of_nat (length (placed_key e) - fst e), word_of_nat (length (placed_value e)),
      drop (fst e) (placed_key e) @ placed_value e @ rest)"
proof -
  let ?p3 = "drop (fst e) (placed_key e) @ placed_value e @ rest"
  have l: "length ?p3 < 2 ^ 32" "3 \<le> length (enc_entry e @ rest)"
    using assms(2) length_enc_entry [of e] by (simp_all add: enc_entry_def)
  have "DecodeEntry (enc_entry e @ rest) =
      (if word_of_nat (length ?p3) < (word_of_nat (length (placed_key e) - fst e) + word_of_nat (length (placed_value e)) :: u32)
       then None else Some (word_of_nat (fst e), word_of_nat (length (placed_key e) - fst e),
         word_of_nat (length (placed_value e)), ?p3))"
    by (rule DecodeEntry_slow [OF l(2), of "word_of_nat (fst e)" "EncodeVarint32 (word_of_nat (length (placed_key e) - fst e)) @
        EncodeVarint32 (word_of_nat (length (placed_value e))) @ ?p3" _ "EncodeVarint32 (word_of_nat (length (placed_value e))) @ ?p3"])
      (simp_all add: enc_entry_def entry_header_def)
  moreover have "\<not> word_of_nat (length ?p3) < (word_of_nat (length (placed_key e) - fst e) + word_of_nat (length (placed_value e)) :: u32)"
  proof -
    have n: "length (placed_key e) - fst e + length (placed_value e) \<le> length ?p3" by simp
    then have "length (placed_key e) - fst e + length (placed_value e) < 2 ^ LENGTH(32)" using l(1) by simp
    then have "unat (word_of_nat (length (placed_key e) - fst e + length (placed_value e)) :: u32) =
        length (placed_key e) - fst e + length (placed_value e)" by (rule unat_of_nat_small)
    moreover have "unat (word_of_nat (length ?p3) :: u32) = length ?p3"
      by (rule unat_of_nat_small) (use l(1) in simp)
    ultimately show ?thesis using n by (simp only: of_nat_add [symmetric] word_less_nat_alt not_less)
  qed
  ultimately show ?thesis by simp
qed

subsection \<open>Positions of the iterator in a laid out block\<close>

definition iter_of :: "comparator \<Rightarrow> placed list \<Rightarrow> nat list \<Rightarrow> block_iter \<Rightarrow> bool" where
  "iter_of c ls rs it \<longleftrightarrow> block_layout (bi_data it) ls rs \<and> bi_comparator it = c \<and>
     bi_restarts it = word_of_nat (length (enc_entries ls)) \<and> bi_num_restarts it = word_of_nat (length rs) \<and>
     Status_ok (bi_status it)"

definition restart_ok :: "nat list \<Rightarrow> block_iter \<Rightarrow> nat \<Rightarrow> bool" where
  "restart_ok rs it n \<longleftrightarrow> unat (bi_restart_index it) < length rs \<and> rs ! unat (bi_restart_index it) \<le> n"

text \<open>The next call of \<open>ParseNextKey\<close> reads entry \<open>n\<close>; the iterator is at entry \<open>n\<close>.\<close>

definition ready :: "placed list \<Rightarrow> nat list \<Rightarrow> block_iter \<Rightarrow> nat \<Rightarrow> bool" where
  "ready ls rs it n \<longleftrightarrow> n \<le> length ls \<and> restart_ok rs it n \<and>
     (\<exists>off len. bi_value it = Some (off, len) \<and> off + len = offs ls n) \<and>
     (n < length ls \<longrightarrow> shares (bi_key it) (ls ! n))"

definition at_entry :: "placed list \<Rightarrow> nat list \<Rightarrow> block_iter \<Rightarrow> nat \<Rightarrow> bool" where
  "at_entry ls rs it n \<longleftrightarrow> n < length ls \<and> restart_ok rs it n \<and> bi_current it = word_of_nat (offs ls n) \<and>
     bi_key it = placed_key (ls ! n) \<and>
     bi_value it = Some (offs ls (Suc n) - length (placed_value (ls ! n)), length (placed_value (ls ! n)))"

lemma length_block_bytes: "length (block_bytes ls rs) = length (enc_entries ls) + 4 * length rs + 4"
  by (simp add: block_bytes_def length_concat o_def sum_list_triv)

lemma unat_small [simp]: "n < 2 ^ 32 \<Longrightarrow> unat (word_of_nat n :: u32) = n"
  by (rule unat_of_nat_small) simp

lemma word_of_nat_less: "m < 2 ^ 32 \<Longrightarrow> n < 2 ^ 32 \<Longrightarrow> (word_of_nat m :: u32) < word_of_nat n \<longleftrightarrow> m < n"
  "m < 2 ^ 32 \<Longrightarrow> n < 2 ^ 32 \<Longrightarrow> (word_of_nat m :: u32) \<le> word_of_nat n \<longleftrightarrow> m \<le> n"
  by (simp_all add: word_less_nat_alt word_le_nat_alt)

lemma layout_size:
  assumes "block_layout data ls rs"
  shows "length data = length (enc_entries ls) + 4 * length rs + 4" "length data < 2 ^ 32"
  using assms by (auto simp: block_layout_def length_block_bytes)

lemma offs_small:
  assumes "block_layout data ls rs"
  shows "offs ls n < 2 ^ 32" "length (enc_entries ls) < 2 ^ 32" "length rs < 2 ^ 32"
  using layout_size [OF assms] offs_le [of ls n] by linarith+

lemma take_layout: "block_layout data ls rs \<Longrightarrow> take (length (enc_entries ls)) data = enc_entries ls"
  by (simp add: block_layout_def block_bytes_def)

lemma restarts:
  assumes "block_layout data ls rs"
  shows "rs \<noteq> []" "rs ! 0 = 0" "sorted_wrt (<) rs"
    "i < length rs \<Longrightarrow> rs ! i < length ls \<and> fst (ls ! (rs ! i)) = 0 \<or> rs ! i = 0"
    "i < length rs \<Longrightarrow> rs ! i \<le> length ls"
proof -
  have r: "restart_points ls rs" using assms by (simp add: block_layout_def placed_ok_def)
  then show "rs \<noteq> []" "rs ! 0 = 0" "sorted_wrt (<) rs"
    by (auto simp: restart_points_def hd_conv_nth)
  show "i < length rs \<Longrightarrow> rs ! i < length ls \<and> fst (ls ! (rs ! i)) = 0 \<or> rs ! i = 0"
    using r by (simp add: restart_points_def)
  then show "i < length rs \<Longrightarrow> rs ! i \<le> length ls" by auto
qed

lemma iter_layout: "iter_of c ls rs it \<Longrightarrow> block_layout (bi_data it) ls rs"
  by (simp add: iter_of_def)

lemmas iter_small = offs_small [OF iter_layout]

lemma GetRestartPoint_layout:
  assumes "iter_of c ls rs it" "i < length rs"
  shows "GetRestartPoint it (word_of_nat i) = word_of_nat (offs ls (rs ! i))"
proof -
  let ?ws = "map (\<lambda>r. word_of_nat (offs ls r) :: u32) rs"
  have d: "bi_data it = enc_entries ls @ concat (map EncodeFixed32 ?ws) @ EncodeFixed32 (word_of_nat (length rs))"
    using assms(1) by (simp add: iter_of_def block_layout_def block_bytes_def o_def)
  have "drop (length (enc_entries ls) + i * 4) (bi_data it) =
      drop (4 * i) (concat (map EncodeFixed32 ?ws) @ EncodeFixed32 (word_of_nat (length rs)))"
    unfolding d drop_append [of _ "enc_entries ls"] by (simp add: mult.commute del: drop_append)
  then have "GetRestartPoint it (word_of_nat i) =
      DecodeFixed32 (drop (4 * i) (concat (map EncodeFixed32 ?ws) @ EncodeFixed32 (word_of_nat (length rs))))"
    using assms iter_small [OF assms(1)] by (simp add: GetRestartPoint_def iter_of_def)
  also have "\<dots> = word_of_nat (offs ls (rs ! i))"
    using assms(2) by (subst drop_fixed32s) simp_all
  finally show ?thesis .
qed

lemma SeekToRestartPoint_ready:
  assumes "iter_of c ls rs it" "i < length rs"
  shows "iter_of c ls rs (SeekToRestartPoint (word_of_nat i) it)"
    "ready ls rs (SeekToRestartPoint (word_of_nat i) it) (rs ! i)"
proof -
  show "iter_of c ls rs (SeekToRestartPoint (word_of_nat i) it)"
    using assms(1) by (simp add: iter_of_def SeekToRestartPoint_def)
  note layout = iter_layout [OF assms(1)]
  have i: "unat (word_of_nat i :: u32) = i" using assms(2) iter_small [OF assms(1)] by simp
  have "fst (ls ! (rs ! i)) = 0" if "rs ! i < length ls"
    using restarts(4) [OF layout assms(2)] that layout
    by (auto simp: block_layout_def placed_ok_def shares_def prev_key_def)
  then show "ready ls rs (SeekToRestartPoint (word_of_nat i) it) (rs ! i)"
    using assms(2) restarts(5) [OF layout assms(2)] iter_small [OF assms(1)]
    by (simp add: ready_def restart_ok_def SeekToRestartPoint_def GetRestartPoint_layout [OF assms] i shares_def)
qed

lemma advance_restart_ok:
  assumes "iter_of c ls rs it" "n < length ls" "bi_current it = word_of_nat (offs ls n)"
    and "unat idx < length rs" "rs ! unat idx \<le> n"
  shows "unat (advance_restart it idx) < length rs \<and> rs ! unat (advance_restart it idx) \<le> n"
  using assms
proof (induction it idx rule: advance_restart.induct)
  case (1 it idx)
  show ?case
  proof (cases "idx + 1 < bi_num_restarts it \<and> GetRestartPoint it (idx + 1) < bi_current it")
    case True
    have i: "unat (idx + 1) = unat idx + 1"
      by (rule unat_Suc_u32) (use 1(5) iter_small [OF 1(2)] in simp)
    then have lt: "Suc (unat idx) < length rs"
      using True 1(2) iter_small [OF 1(2)] by (simp add: iter_of_def word_less_nat_alt)
    have "idx + 1 = word_of_nat (Suc (unat idx))" by (simp add: add.commute)
    then have "offs ls (rs ! Suc (unat idx)) < offs ls n"
      using True 1(2,4) GetRestartPoint_layout [OF 1(2) lt] iter_small [OF 1(2)] by (simp add: word_of_nat_less add.commute [of 1 idx])
    then have "rs ! Suc (unat idx) < n" using offs_mono [of n "rs ! Suc (unat idx)" ls] by (meson leD not_le)
    with 1 True i lt show ?thesis by (subst (1 2) advance_restart.simps) simp
  next
    case False
    with 1 show ?thesis by (subst (1 2) advance_restart.simps) auto
  qed
qed

lemma drop_add_drop: "drop (a + b) xs = drop b (drop a xs)"
  by (simp add: add.commute)

text \<open>The bytes around entry \<open>n\<close>.\<close>

lemma layout_entry:
  assumes "block_layout data ls rs" "n < length ls"
  shows "drop (offs ls n) (take (length (enc_entries ls)) data) = enc_entry (ls ! n) @ enc_entries (drop (Suc n) ls)"
    "length (enc_entries ls) = offs ls n + length (enc_entry (ls ! n)) + length (enc_entries (drop (Suc n) ls))"
    "drop (offs ls n + length (entry_header (ls ! n))) data =
      drop (fst (ls ! n)) (placed_key (ls ! n)) @ placed_value (ls ! n) @ enc_entries (drop (Suc n) ls) @
      drop (length (enc_entries ls)) data"
proof -
  let ?R = "length (enc_entries ls)" and ?pre = "take (offs ls n) (enc_entries ls)"
  let ?suf = "enc_entry (ls ! n) @ enc_entries (drop (Suc n) ls)"
  show p: "drop (offs ls n) (take ?R data) = ?suf"
    using drop_offs [OF assms(2)] take_layout [OF assms(1)] by simp
  show len: "?R = offs ls n + length (enc_entry (ls ! n)) + length (enc_entries (drop (Suc n) ls))"
    using arg_cong [OF p, of length] offs_le [of ls n] take_layout [OF assms(1)] by simp
  have "data = (?pre @ ?suf) @ drop ?R data"
    using take_layout [OF assms(1)] p by (metis append_take_drop_id)
  then have "data = (?pre @ entry_header (ls ! n)) @ drop (fst (ls ! n)) (placed_key (ls ! n)) @ placed_value (ls ! n) @
      enc_entries (drop (Suc n) ls) @ drop ?R data"
    by (simp add: enc_entry_def)
  moreover have "length (?pre @ entry_header (ls ! n)) = offs ls n + length (entry_header (ls ! n))"
    using offs_le [of ls n] by simp
  ultimately show "drop (offs ls n + length (entry_header (ls ! n))) data =
      drop (fst (ls ! n)) (placed_key (ls ! n)) @ placed_value (ls ! n) @ enc_entries (drop (Suc n) ls) @ drop ?R data"
    by (metis append_eq_conv_conj)
qed

text \<open>The reading position and what \<open>ParseNextKey\<close> does there.\<close>

lemma at_entry_ready:
  assumes "iter_of c ls rs it" "at_entry ls rs it n"
  shows "ready ls rs it (Suc n)"
proof -
  have n: "n < length ls" "restart_ok rs it n" "bi_key it = placed_key (ls ! n)" using assms(2) by (simp_all add: at_entry_def)
  have "length (placed_value (ls ! n)) \<le> offs ls (Suc n)"
    using n by (simp add: offs_Suc enc_entry_def)
  moreover have "shares (bi_key it) (ls ! Suc n)" if "Suc n < length ls"
  proof -
    have "shares (prev_key ls (Suc n)) (ls ! Suc n)"
      using iter_layout [OF assms(1)] that by (simp add: block_layout_def placed_ok_def)
    then show ?thesis by (simp add: n(3) prev_key_def)
  qed
  ultimately show ?thesis
    using n assms(2) by (auto simp: ready_def restart_ok_def at_entry_def)
qed

lemma placed_key_length:
  "block_layout data ls rs \<Longrightarrow> n < length ls \<Longrightarrow> length (placed_key (ls ! n)) \<le> offs ls (Suc n)"
proof (induction n)
  case 0
  then have "fst (ls ! 0) = 0" by (auto simp: block_layout_def placed_ok_def shares_def prev_key_def)
  then show ?case using 0 by (simp add: offs_Suc enc_entry_def)
next
  case (Suc n)
  have "shares (prev_key ls (Suc n)) (ls ! Suc n)"
    using Suc by (simp add: block_layout_def placed_ok_def)
  then have "fst (ls ! Suc n) \<le> offs ls (Suc n)" using Suc by (simp add: shares_def prev_key_def)
  then show ?case using Suc(3) by (simp add: offs_Suc [of "Suc n"] enc_entry_def)
qed

lemma ready_NextEntryOffset: "ready ls rs it n \<Longrightarrow> NextEntryOffset it = Some (word_of_nat (offs ls n))"
  by (auto simp: ready_def NextEntryOffset_def simp del: of_nat_add)

lemma ParseNextKey_end:
  assumes "iter_of c ls rs it" "ready ls rs it (length ls)"
  shows "\<exists>it'. ParseNextKey it = Some (False, it') \<and> iter_of c ls rs it' \<and> bi_current it' = bi_restarts it'"
  using assms iter_small [OF assms(1)]
  by (simp add: ParseNextKey_def ready_NextEntryOffset Let_def iter_of_def offs_length)

lemma ParseNextKey_entry:
  assumes "iter_of c ls rs it" "ready ls rs it n" "n < length ls"
  shows "\<exists>it'. ParseNextKey it = Some (True, it') \<and> iter_of c ls rs it' \<and> at_entry ls rs it' n"
proof -
  obtain sh k v where e: "ls ! n = (sh, k, v)" by (metis prod_cases3)
  note small = iter_small [OF assms(1)] and layout = iter_layout [OF assms(1)]
  let ?data = "bi_data it" and ?R = "length (enc_entries ls)"
  let ?rest = "enc_entries (drop (Suc n) ls)"
  have off: "offs ls n < ?R" using offs_less [OF assms(3,3)] offs_less [of n "length ls" ls] assms(3) by (simp add: offs_length)
  have R: "unat (bi_restarts it) = ?R" using assms(1) small by (simp add: iter_of_def)
  have sh: "sh \<le> length (bi_key it)" "sh \<le> length k" "take sh (bi_key it) = take sh k"
    using assms(2,3) e by (auto simp: ready_def shares_def)
  note entry = layout_entry [OF layout assms(3), unfolded e, simplified]
  note p = entry(1) and len = entry(2)
  have D: "DecodeEntry (drop (offs ls n) (take ?R ?data)) =
      Some (word_of_nat sh, word_of_nat (length k - sh), word_of_nat (length v), drop sh k @ v @ ?rest)"
    unfolding p using DecodeEntry_enc_entry [of "(sh, k, v)" ?rest] sh(2) len small(2) by simp
  let ?off = "?R - length (drop sh k @ v @ ?rest)"
  have o: "?off = offs ls n + length (entry_header (sh, k, v))" using len by (simp add: enc_entry_def)
  have d: "drop ?off ?data = drop sh k @ v @ ?rest @ drop ?R ?data" unfolding o by (rule entry(3))
  have b: "?off + (length k - sh) + length v \<le> length ?data"
    using layout_size(1) [OF layout] len o by (simp add: enc_entry_def)
  have next_off: "?off + (length k - sh) = offs ls (Suc n) - length v"
    using assms(3) e o by (simp add: offs_Suc enc_entry_def)
  have w: "unat (word_of_nat sh :: u32) = sh" "unat (word_of_nat (length k - sh) :: u32) = length k - sh"
    "unat (word_of_nat (length v) :: u32) = length v"
    using placed_key_length [OF layout assms(3)] small(1) [of "Suc n"] sh(2) e b layout_size(2) [OF layout]
    by (intro unat_small; simp)+
  let ?it = "it\<lparr>bi_current := word_of_nat (offs ls n), bi_key := k, bi_value := Some (offs ls (Suc n) - length v, length v)\<rparr>"
  let ?it' = "?it\<lparr>bi_restart_index := advance_restart ?it (bi_restart_index it)\<rparr>"
  have key: "resize (bi_key it) sh @ take (length k - sh) (drop ?off ?data) = k"
    unfolding d using sh by (simp add: resize_take)
  have P: "ParseNextKey it = Some (True, ?it')"
    using sh(1) b w key next_off off small(1,2) ready_NextEntryOffset [OF assms(2)] D R
    by (simp add: ParseNextKey_def Let_def not_le)
  have it: "iter_of c ls rs ?it" using assms(1) by (simp add: iter_of_def)
  have "unat (advance_restart ?it (bi_restart_index it)) < length rs \<and> rs ! unat (advance_restart ?it (bi_restart_index it)) \<le> n"
    by (rule advance_restart_ok [OF it assms(3)]) (use assms(2) in \<open>simp_all add: ready_def restart_ok_def\<close>)
  then have "at_entry ls rs ?it' n"
    using assms(3) e by (simp add: at_entry_def restart_ok_def)
  moreover have "iter_of c ls rs ?it'" using assms(1) by (simp add: iter_of_def)
  ultimately show ?thesis using P by blast
qed

subsection \<open>The movements\<close>

lemma parse_until_before:
  "iter_of c ls rs it \<Longrightarrow> ready ls rs it n \<Longrightarrow> n < stop \<Longrightarrow> stop \<le> length ls \<Longrightarrow>
   \<exists>it'. parse_until (word_of_nat (offs ls stop)) it = Some it' \<and> iter_of c ls rs it' \<and> at_entry ls rs it' (stop - 1)"
proof (induction "stop - n" arbitrary: n it)
  case (Suc d)
  from Suc.prems have n: "n < length ls" by simp
  obtain it' where it': "ParseNextKey it = Some (True, it')" "iter_of c ls rs it'" "at_entry ls rs it' n"
    using ParseNextKey_entry [OF Suc.prems(1,2) n] by blast
  note ready' = at_entry_ready [OF it'(2,3)]
  have less: "(word_of_nat (offs ls (Suc n)) :: u32) < word_of_nat (offs ls stop) \<longleftrightarrow> Suc n < stop"
    using Suc.prems(3,4) iter_small [OF Suc.prems(1)] by (simp add: word_of_nat_less offs_less_iff)
  show ?case
  proof (cases "Suc n < stop")
    case True
    have "\<exists>it''. parse_until (word_of_nat (offs ls stop)) it' = Some it'' \<and> iter_of c ls rs it'' \<and> at_entry ls rs it'' (stop - 1)"
      by (rule Suc.hyps(1) [OF _ it'(2) ready' True Suc.prems(4)]) (use Suc.hyps(2) in simp)
    then show ?thesis
      using True less it'(1) ready_NextEntryOffset [OF ready'] by (subst parse_until.simps) simp
  next
    case False
    then have "n = stop - 1" using Suc.prems(3) by simp
    with False less it' ready_NextEntryOffset [OF ready'] show ?thesis by (subst parse_until.simps) simp
  qed
qed simp

lemma restart_before_entry:
  assumes "iter_of c ls rs it" "n < length ls" "unat idx < length rs"
  shows "case restart_before it (word_of_nat (offs ls n)) idx of None \<Rightarrow> n = 0
    | Some j \<Rightarrow> unat j < length rs \<and> rs ! unat j < n"
  using assms(3)
proof (induction "unat idx" arbitrary: idx)
  case 0
  then have "idx = 0" by (simp add: unat_eq_0)
  then have "GetRestartPoint it idx = 0"
    using GetRestartPoint_layout [OF assms(1), of 0] restarts [OF iter_layout [OF assms(1)]] by simp
  moreover have "(word_of_nat (offs ls n) :: u32) \<le> 0 \<longleftrightarrow> n = 0"
    using word_of_nat_less(2) [of "offs ls n" 0] iter_small [OF assms(1)] offs_less_iff [of 0 ls n] assms(2) by auto
  ultimately show ?case
    using \<open>idx = 0\<close> restarts [OF iter_layout [OF assms(1)]] by (subst restart_before.simps) auto
next
  case (Suc i)
  have idx: "idx = word_of_nat (unat idx)" by simp
  have "idx \<noteq> 0" using Suc(2) by auto
  then have i: "unat (idx - 1) = i" using Suc(2) by (simp add: unat_minus_one)
  have "GetRestartPoint it idx = word_of_nat (offs ls (rs ! unat idx))"
    using GetRestartPoint_layout [OF assms(1) Suc(3)] by simp
  moreover have "(word_of_nat (offs ls n) :: u32) \<le> word_of_nat (offs ls (rs ! unat idx)) \<longleftrightarrow> n \<le> rs ! unat idx"
    using word_of_nat_less(2) iter_small [OF assms(1)] offs_mono [of n "rs ! unat idx" ls] offs_less [of "rs ! unat idx" n ls]
      restarts(5) [OF iter_layout [OF assms(1)] Suc(3)] assms(2) by (auto simp: not_le [symmetric])
  ultimately show ?case
    using Suc(1) [of "idx - 1"] Suc(2,3) i \<open>idx \<noteq> 0\<close> by (subst restart_before.simps) (auto simp: not_le)
qed

lemma BlockIter_Prev_entry:
  assumes "iter_of c ls rs it" "at_entry ls rs it n"
  shows "\<exists>it'. BlockIter_Prev it = Some it' \<and> iter_of c ls rs it' \<and>
    (if n = 0 then bi_current it' = bi_restarts it' else at_entry ls rs it' (n - 1))"
proof -
  have n: "n < length ls" "bi_current it = word_of_nat (offs ls n)" "unat (bi_restart_index it) < length rs"
    "rs ! unat (bi_restart_index it) \<le> n"
    using assms(2) by (simp_all add: at_entry_def restart_ok_def)
  note rb = restart_before_entry [OF assms(1) n(1,3)]
  show ?thesis
  proof (cases "restart_before it (word_of_nat (offs ls n)) (bi_restart_index it)")
    case None
    then show ?thesis using rb assms(1) by (simp add: BlockIter_Prev_def n(2) iter_of_def)
  next
    case (Some j)
    then have j: "unat j < length rs" "rs ! unat j < n" using rb by simp_all
    note r = SeekToRestartPoint_ready [OF assms(1) j(1)]
    from parse_until_before [OF r j(2)] n(1) j(2) Some show ?thesis
      by (simp add: BlockIter_Prev_def n(2))
  qed
qed

lemma BlockIter_SeekToLast_entry:
  assumes "iter_of c ls rs it"
  shows "\<exists>it'. BlockIter_SeekToLast it = Some it' \<and> iter_of c ls rs it' \<and>
    (if ls = [] then bi_current it' = bi_restarts it' else at_entry ls rs it' (length ls - 1))"
proof -
  let ?i = "length rs - 1"
  note layout = iter_layout [OF assms]
  have i: "?i < length rs" using restarts(1) [OF layout] by simp
  have num: "bi_num_restarts it - 1 = word_of_nat ?i" "bi_restarts it = word_of_nat (offs ls (length ls))"
    using assms restarts(1) [OF layout] by (simp_all add: iter_of_def offs_length of_nat_diff Suc_leI)
  note r = SeekToRestartPoint_ready [OF assms i]
  show ?thesis
  proof (cases "rs ! ?i < length ls")
    case True
    then show ?thesis using parse_until_before [OF r True order_refl] by (auto simp: BlockIter_SeekToLast_def num)
  next
    case False
    then have z: "ls = []" using restarts(4) [OF layout i] by auto
    have "rs ! ?i = length ls" using restarts(5) [OF layout i] False by simp
    with r(2) have "ready ls rs (SeekToRestartPoint (word_of_nat ?i) it) (length ls)" by simp
    from ParseNextKey_end [OF r(1) this] z show ?thesis
      by (auto simp: BlockIter_SeekToLast_def num parse_until.simps)
  qed
qed

text \<open>The binary search keeps: the left restart point is the first, or its key is below the target.\<close>

abbreviation restart_below :: "comparator \<Rightarrow> bytes \<Rightarrow> placed list \<Rightarrow> nat list \<Rightarrow> nat \<Rightarrow> bool" where
  "restart_below c target ls rs l \<equiv> l = 0 \<or> rs ! l < length ls \<and> cmp_Compare c (placed_key (ls ! (rs ! l))) target < 0"

lemma restart_mid_key:
  assumes "iter_of c ls rs it" "i < length rs" "0 < i"
  shows "\<exists>non_shared value_length p.
    DecodeEntry (drop (unat (GetRestartPoint it (word_of_nat i))) (take (unat (bi_restarts it)) (bi_data it))) =
      Some (0, non_shared, value_length, p) \<and>
    unat (bi_restarts it) - length p + unat non_shared \<le> length (bi_data it) \<and>
    take (unat non_shared) (drop (unat (bi_restarts it) - length p) (bi_data it)) = placed_key (ls ! (rs ! i)) \<and>
    rs ! i < length ls"
proof -
  note small = iter_small [OF assms(1)] and layout = iter_layout [OF assms(1)]
  let ?n = "rs ! i" and ?R = "length (enc_entries ls)" and ?data = "bi_data it"
  have "rs ! 0 < rs ! i" using restarts(3) [OF layout] assms(2,3) by (simp add: sorted_wrt_nth_less)
  then have n: "?n < length ls" "fst (ls ! ?n) = 0" using restarts(2,4) [OF layout] assms(2) by fastforce+
  obtain k v where e: "ls ! ?n = (0, k, v)" using n(2) by (metis prod_cases3 fst_conv)
  let ?rest = "enc_entries (drop (Suc ?n) ls)"
  have R: "unat (bi_restarts it) = ?R" using assms(1) small by (simp add: iter_of_def)
  have off: "unat (GetRestartPoint it (word_of_nat i)) = offs ls ?n"
    using GetRestartPoint_layout [OF assms(1,2)] small by simp
  note entry = layout_entry [OF layout n(1), unfolded e, simplified]
  note p = entry(1) and len = entry(2)
  have D: "DecodeEntry (drop (offs ls ?n) (take ?R ?data)) = Some (0, word_of_nat (length k), word_of_nat (length v), k @ v @ ?rest)"
    unfolding p using DecodeEntry_enc_entry [of "(0, k, v)" ?rest] len small(2) by simp
  have k: "unat (word_of_nat (length k) :: u32) = length k"
    using len small(2) by (intro unat_small) (simp add: enc_entry_def)
  have "?R - length (k @ v @ ?rest) = offs ls ?n + length (entry_header (0, k, v))"
    using len by (simp add: enc_entry_def)
  then have d: "drop (?R - length (k @ v @ ?rest)) ?data = k @ v @ ?rest @ drop ?R ?data"
    using entry(3) by simp
  have "?R - length (k @ v @ ?rest) + length k \<le> length ?data"
    using layout_size(1) [OF layout] len by (simp add: enc_entry_def)
  moreover have "take (length k) (drop (?R - length (k @ v @ ?rest)) ?data) = k" unfolding d by simp
  ultimately show ?thesis using D n(1) unfolding R off
    by (intro exI [of _ "word_of_nat (length k)"] exI [of _ "word_of_nat (length v)"] exI [of _ "k @ v @ ?rest"] conjI)
       (simp_all only: k e fst_conv snd_conv)
qed

lemma seek_restart_below:
  "iter_of c ls rs it \<Longrightarrow> l \<le> r \<Longrightarrow> r < length rs \<Longrightarrow> restart_below c target ls rs l \<Longrightarrow>
   \<exists>j. seek_restart target it (word_of_nat l) (word_of_nat r) = Some (Some (word_of_nat j)) \<and> j < length rs \<and>
     restart_below c target ls rs j"
proof (induction "r - l" arbitrary: l r rule: less_induct)
  case less
  have small: "4 * length rs < 2 ^ 32" using layout_size [OF iter_layout [OF less(2)]] by simp
  have lr: "(word_of_nat l :: u32) < word_of_nat r \<longleftrightarrow> l < r" using less(3,4) small by (simp add: word_of_nat_less)
  show ?case
  proof (cases "l < r")
    case False
    with less lr show ?thesis by (subst seek_restart.simps) auto
  next
    case True
    obtain m where m_def: "m = (l + r + 1) div 2" by blast
    have m: "l < m" "m \<le> r" using True by (auto simp: m_def)
    have mid: "((word_of_nat l + word_of_nat r + 1) div 2 :: u32) = word_of_nat m"
    proof -
      have "(word_of_nat l + word_of_nat r + 1 :: u32) = word_of_nat (l + r + 1)" by simp
      moreover have "unat (word_of_nat (l + r + 1) :: u32) = l + r + 1" using less(3,4) small by (intro unat_small) simp
      moreover have "unat (word_of_nat m :: u32) = m" using m less(4) small by (intro unat_small) simp
      ultimately show ?thesis by (simp add: word_unat_eq_iff unat_div m_def del: of_nat_add of_nat_Suc)
    qed
    have mid1: "(word_of_nat m - 1 :: u32) = word_of_nat (m - 1)" using m by (simp add: of_nat_diff)
    obtain ns vl p where D:
      "DecodeEntry (drop (unat (GetRestartPoint it (word_of_nat m))) (take (unat (bi_restarts it)) (bi_data it))) = Some (0, ns, vl, p)"
      "unat (bi_restarts it) - length p + unat ns \<le> length (bi_data it)"
      "take (unat ns) (drop (unat (bi_restarts it) - length p) (bi_data it)) = placed_key (ls ! (rs ! m))"
      "rs ! m < length ls"
      using restart_mid_key [OF less(2), of m] m less(4) by auto
    have c: "bi_comparator it = c" using less(2) by (simp add: iter_of_def)
    have step: "seek_restart target it (word_of_nat l) (word_of_nat r) =
        (if cmp_Compare c (placed_key (ls ! (rs ! m))) target < 0 then seek_restart target it (word_of_nat m) (word_of_nat r)
         else seek_restart target it (word_of_nat l) (word_of_nat (m - 1)))"
    proof -
      have lt: "(word_of_nat l :: u32) < word_of_nat r" using lr True by simp
      have nle: "\<not> length (bi_data it) < unat (bi_restarts it) - length p + unat ns" using D(2) by simp
      show ?thesis
        unfolding seek_restart.simps [of target it "word_of_nat l" "word_of_nat r"]
        by (simp only: lt nle D(1,3) mid mid1 c Let_def if_True if_False option.case prod.case simp_thms)
    qed
    show ?thesis
    proof (cases "cmp_Compare c (placed_key (ls ! (rs ! m))) target < 0")
      case lt: True
      have "\<exists>j. seek_restart target it (word_of_nat m) (word_of_nat r) = Some (Some (word_of_nat j)) \<and> j < length rs \<and>
          restart_below c target ls rs j"
        by (rule less(1)) (use m less(2,4) lt D(4) in auto)
      then show ?thesis
        using lt step by simp
    next
      case ge: False
      have "\<exists>j. seek_restart target it (word_of_nat l) (word_of_nat (m - 1)) = Some (Some (word_of_nat j)) \<and> j < length rs \<and>
          restart_below c target ls rs j"
        by (rule less(1)) (use m less(2,4,5) in auto)
      then show ?thesis
        using ge step by simp
    qed
  qed
qed

lemma seek_linear_stops:
  assumes order: "key_order (cmp_Compare c) keys" and target: "keys target"
    and sorted: "sorted_wrt (\<lambda>a b. cmp_Compare c (fst a) (fst b) < 0) (map snd ls)" "\<forall>e \<in> set (map snd ls). keys (fst e)"
  shows "iter_of c ls rs it \<Longrightarrow> ready ls rs it n \<Longrightarrow> \<forall>i < n. cmp_Compare c (placed_key (ls ! i)) target < 0 \<Longrightarrow>
    \<exists>it' m. seek_linear target it = Some it' \<and> iter_of c ls rs it' \<and>
      m = seek_index (cmp_Compare c) target (map snd ls) \<and>
      (if m < length ls then at_entry ls rs it' m else bi_current it' = bi_restarts it')"
proof (induction "length ls - n" arbitrary: n it)
  case 0
  then have n: "n = length ls" by (simp add: ready_def)
  have m: "seek_index (cmp_Compare c) target (map snd ls) = length ls"
    by (rule seek_index_eqI) (use 0(4) n in auto)
  obtain it' where "ParseNextKey it = Some (False, it')" "iter_of c ls rs it'" "bi_current it' = bi_restarts it'"
    using ParseNextKey_end [OF 0(2) 0(3) [unfolded n]] by blast
  then show ?case by (subst seek_linear.simps) (simp add: m)
next
  case (Suc d)
  then have n: "n < length ls" by simp
  obtain it' where it': "ParseNextKey it = Some (True, it')" "iter_of c ls rs it'" "at_entry ls rs it' n"
    using ParseNextKey_entry [OF Suc.prems(1,2) n] by blast
  have k: "bi_key it' = placed_key (ls ! n)" "bi_comparator it' = c"
    using it'(2,3) by (simp_all add: at_entry_def iter_of_def)
  show ?case
  proof (cases "0 \<le> cmp_Compare c (placed_key (ls ! n)) target")
    case True
    have "seek_index (cmp_Compare c) target (map snd ls) = n"
      by (rule seek_index_eqI) (use Suc.prems(3) n True in auto)
    with it' k True n show ?thesis by (subst seek_linear.simps) simp
  next
    case False
    then have below: "\<forall>i < Suc n. cmp_Compare c (placed_key (ls ! i)) target < 0"
      using Suc.prems(3) by (auto simp: less_Suc_eq)
    have "\<exists>it'' m. seek_linear target it' = Some it'' \<and> iter_of c ls rs it'' \<and>
      m = seek_index (cmp_Compare c) target (map snd ls) \<and>
      (if m < length ls then at_entry ls rs it'' m else bi_current it'' = bi_restarts it'')"
      by (rule Suc.hyps(1) [OF _ it'(2) at_entry_ready [OF it'(2,3)] below]) (use Suc.hyps(2) in simp)
    with it'(1) k False show ?thesis by (subst seek_linear.simps) simp
  qed
qed

subsection \<open>The iterator of a built block meets the contract\<close>

definition block_view :: "comparator \<Rightarrow> (bytes \<Rightarrow> bool) \<Rightarrow> block_iter \<Rightarrow> (bytes \<times> bytes) list \<Rightarrow> nat \<Rightarrow> bool" where
  "block_view c keys it es n \<longleftrightarrow>
     key_order (cmp_Compare c) keys \<and> sorted_wrt (\<lambda>a b. cmp_Compare c (fst a) (fst b) < 0) es \<and>
     (\<forall>e \<in> set es. keys (fst e)) \<and>
     (\<exists>ls rs. iter_of c ls rs it \<and> es = map snd ls \<and> n \<le> length ls \<and>
        (if n < length ls then at_entry ls rs it n else bi_current it = bi_restarts it))"

lemma BlockIter_Seek_entry:
  assumes "key_order (cmp_Compare c) keys" "keys target"
    "sorted_wrt (\<lambda>a b. cmp_Compare c (fst a) (fst b) < 0) (map snd ls)" "\<forall>e \<in> set (map snd ls). keys (fst e)"
    and it: "iter_of c ls rs it"
  shows "\<exists>it'. BlockIter_Seek target it = Some it' \<and> iter_of c ls rs it' \<and>
    (if seek_index (cmp_Compare c) target (map snd ls) < length ls
     then at_entry ls rs it' (seek_index (cmp_Compare c) target (map snd ls)) else bi_current it' = bi_restarts it')"
proof -
  note layout = iter_layout [OF it]
  let ?r = "length rs - 1"
  have rs: "0 < length rs" using restarts(1) [OF layout] by simp
  have num: "bi_num_restarts it - 1 = word_of_nat ?r"
    using it rs by (simp add: iter_of_def of_nat_diff Suc_leI)
  obtain j where j: "seek_restart target it 0 (word_of_nat ?r) = Some (Some (word_of_nat j))" "j < length rs"
    "restart_below c target ls rs j"
    using seek_restart_below [OF it, of 0 ?r target] rs by auto
  note r = SeekToRestartPoint_ready [OF it j(2)]
  have "\<forall>i < rs ! j. cmp_Compare c (placed_key (ls ! i)) target < 0"
  proof (cases "j = 0")
    case True
    then show ?thesis using restarts(2) [OF layout] by simp
  next
    case False
    then have b: "rs ! j < length ls" "cmp_Compare c (placed_key (ls ! (rs ! j))) target < 0" using j(3) by simp_all
    show ?thesis
    proof (intro allI impI)
      fix i assume i: "i < rs ! j"
      then have "cmp_Compare c (placed_key (ls ! i)) (placed_key (ls ! (rs ! j))) < 0"
        using sorted_wrt_nth_less [OF assms(3) i] b(1) by simp
      moreover have "keys (placed_key (ls ! i))" "keys (placed_key (ls ! (rs ! j)))"
        using assms(4) i b(1) by auto
      ultimately show "cmp_Compare c (placed_key (ls ! i)) target < 0"
        using key_order.compare_less_trans [OF assms(1) _ _ assms(2)] b(2) by blast
    qed
  qed
  from seek_linear_stops [OF assms(1-4) r this] show ?thesis
    unfolding BlockIter_Seek_def num j(1) by auto
qed

interpretation block: iterator_contract Block_Iter "cmp_Compare c" keys "block_view c keys"
  for c keys
proof
  fix it es n target
  assume view: "block_view c keys it es n"
  then obtain ls rs where it: "iter_of c ls rs it" and es: "es = map snd ls" and n: "n \<le> length ls"
    and pos: "if n < length ls then at_entry ls rs it n else bi_current it = bi_restarts it"
    by (auto simp: block_view_def)
  have viewI: "block_view c keys it' es m"
    if "iter_of c ls rs it'" "m \<le> length ls" "if m < length ls then at_entry ls rs it' m else bi_current it' = bi_restarts it'"
    for it' m
    unfolding block_view_def using view that es
    by (intro conjI exI [of _ ls] exI [of _ rs]) (simp_all add: block_view_def)
  note small = iter_small [OF it] and layout = iter_layout [OF it]
  show "n \<le> length es" using n es by simp
  show "it_Valid Block_Iter it \<longleftrightarrow> n < length es"
  proof (cases "n < length ls")
    case True
    then show ?thesis
      using pos it small offs_less_iff [of n ls "length ls"]
      by (simp add: Block_Iter_def BlockIter_Valid_def at_entry_def iter_of_def es word_of_nat_less offs_length)
  next
    case False
    then show ?thesis using pos by (simp add: Block_Iter_def BlockIter_Valid_def es)
  qed
  show "(it_key Block_Iter it, it_value Block_Iter it) = es ! n" if "n < length es"
  proof -
    have n: "n < length ls" "at_entry ls rs it n" using that pos es by simp_all
    have o: "offs ls (Suc n) - length (placed_value (ls ! n)) =
        offs ls n + length (entry_header (ls ! n)) + length (drop (fst (ls ! n)) (placed_key (ls ! n)))"
      using n(1) by (simp add: offs_Suc enc_entry_def)
    have "take (length (placed_value (ls ! n))) (drop (offs ls (Suc n) - length (placed_value (ls ! n))) (bi_data it)) =
        placed_value (ls ! n)"
      unfolding o drop_add_drop [of "offs ls n + length (entry_header (ls ! n))"] layout_entry(3) [OF layout n(1)] by simp
    then show ?thesis using n by (simp add: Block_Iter_def BlockIter_value_def at_entry_def es)
  qed
  show "Status_ok (it_status Block_Iter it)" using it by (simp add: Block_Iter_def iter_of_def)
  show "\<exists>it'. it_SeekToFirst Block_Iter it = Some it' \<and> block_view c keys it' es 0"
  proof -
    have rs: "0 < length rs" "rs ! 0 = 0" using restarts [OF layout] by simp_all
    note r = SeekToRestartPoint_ready [OF it rs(1), unfolded rs(2) of_nat_0]
    show ?thesis
      using ParseNextKey_end [OF r(1)] ParseNextKey_entry [OF r] r(2) viewI [of _ 0]
      by (cases "ls = []") (fastforce simp: Block_Iter_def BlockIter_SeekToFirst_def)+
  qed
  show "\<exists>it'. it_SeekToLast Block_Iter it = Some it' \<and> block_view c keys it' es (length es - 1)"
    using BlockIter_SeekToLast_entry [OF it] viewI [of _ "length es - 1"]
    by (cases "ls = []") (fastforce simp: Block_Iter_def es)+
  show "\<exists>it'. it_Seek Block_Iter target it = Some it' \<and> block_view c keys it' es (seek_index (cmp_Compare c) target es)"
    if target: "keys target"
  proof -
    let ?m = "seek_index (cmp_Compare c) target es"
    have v: "key_order (cmp_Compare c) keys" "sorted_wrt (\<lambda>a b. cmp_Compare c (fst a) (fst b) < 0) (map snd ls)"
      "\<forall>e \<in> set (map snd ls). keys (fst e)" using view by (simp_all add: block_view_def es)
    obtain it' where it': "BlockIter_Seek target it = Some it'" "iter_of c ls rs it'"
      "if ?m < length ls then at_entry ls rs it' ?m else bi_current it' = bi_restarts it'"
      using BlockIter_Seek_entry [OF v(1) target v(2,3) it] es by auto
    have "block_view c keys it' es ?m"
      by (rule viewI [OF it'(2) _ it'(3)]) (use seek_index_le [of "cmp_Compare c" target es] es in simp)
    with it'(1) show ?thesis by (simp add: Block_Iter_def)
  qed
  show "\<exists>it'. it_Next Block_Iter it = Some it' \<and> block_view c keys it' es (Suc n)" if "n < length es"
  proof -
    have at: "at_entry ls rs it n" "n < length ls" using that pos es by simp_all
    note r = at_entry_ready [OF it at(1)]
    show ?thesis
    proof (cases "Suc n = length ls")
      case True
      then obtain it' where "ParseNextKey it = Some (False, it')" "iter_of c ls rs it'" "bi_current it' = bi_restarts it'"
        using ParseNextKey_end [OF it] r by auto
      with True show ?thesis using viewI [of it' "Suc n"] by (simp add: Block_Iter_def BlockIter_Next_def)
    next
      case False
      then have lt: "Suc n < length ls" using at(2) by simp
      obtain it' where "ParseNextKey it = Some (True, it')" "iter_of c ls rs it'" "at_entry ls rs it' (Suc n)"
        using ParseNextKey_entry [OF it r lt] by blast
      with lt show ?thesis using viewI [of it' "Suc n"] by (simp add: Block_Iter_def BlockIter_Next_def)
    qed
  qed
  show "\<exists>it'. it_Prev Block_Iter it = Some it' \<and> block_view c keys it' es (if n = 0 then length es else n - 1)"
    if "n < length es"
  proof -
    have "at_entry ls rs it n" using that pos es by simp
    then obtain it' where "BlockIter_Prev it = Some it'" "iter_of c ls rs it'"
      "if n = 0 then bi_current it' = bi_restarts it' else at_entry ls rs it' (n - 1)"
      using BlockIter_Prev_entry [OF it] by blast
    then show ?thesis
      using viewI [of it' "length es"] viewI [of it' "n - 1"] that es
        less_imp_diff_less [of n "length ls" 1]
      by (cases "n = 0") (simp_all add: Block_Iter_def del: One_nat_def)
  qed
qed

text \<open>A fresh iterator over the block the builder finished.\<close>

lemma Block_make_layout:
  assumes "block_layout data ls rs"
  shows "Block_NewIterator (Block_make data) c =
    Inr (BlockIter_make c data (word_of_nat (length (enc_entries ls))) (word_of_nat (length rs)))"
proof -
  note sz = layout_size [OF assms] and small = offs_small [OF assms]
  have "drop (length data - 4) data = EncodeFixed32 (word_of_nat (length rs))"
    using assms sz(1) by (simp add: block_layout_def block_bytes_def length_concat o_def sum_list_triv)
  then have num: "NumRestarts data (length data) = word_of_nat (length rs)" by (simp add: NumRestarts_def)
  have rs: "0 < length rs" using restarts(1) [OF assms] by simp
  have nz: "(word_of_nat (length rs) :: u32) \<noteq> 0"
    using rs small(3) unat_small [of "length rs"] by (metis less_numeral_extra(3) unat_0)
  have inc: "unat (1 + word_of_nat (length rs) :: u32) = length rs + 1"
    using unat_Suc_u32 [of "word_of_nat (length rs)"] small(3) sz by (simp add: add.commute)
  have "length rs \<le> (length data - 4) div 4" using sz(1) by simp
  then have "Block_make data = \<lparr>blk_data = data, blk_size = length data, blk_restart_offset = word_of_nat (length (enc_entries ls))\<rparr>"
    unfolding Block_make_def Let_def num inc using sz small(3) by simp
  moreover have "4 \<le> length data" using sz(1) by simp
  ultimately show ?thesis using nz by (simp add: Block_NewIterator_def Let_def num)
qed

lemma block_view_make:
  assumes "key_order (cmp_Compare c) keys" "sorted_wrt (\<lambda>a b. cmp_Compare c (fst a) (fst b) < 0) es" "\<forall>e \<in> set es. keys (fst e)"
    and "0 < interval" "length (fst (BlockBuilder_Finish (build_block interval es))) < 2 ^ 32"
  shows "\<exists>it. Block_NewIterator (Block_make (fst (BlockBuilder_Finish (build_block interval es)))) c = Inr it \<and>
    block_view c keys it es (length es)"
proof -
  obtain ls rs where l: "block_layout (fst (BlockBuilder_Finish (build_block interval es))) ls rs" "map snd ls = es"
    using build_block_layout [OF assms(4,5)] by blast
  let ?it = "BlockIter_make c (fst (BlockBuilder_Finish (build_block interval es)))
    (word_of_nat (length (enc_entries ls))) (word_of_nat (length rs))"
  have "iter_of c ls rs ?it" "bi_current ?it = bi_restarts ?it" using l(1) by (simp_all add: iter_of_def BlockIter_make_def)
  then have "block_view c keys ?it es (length es)"
    unfolding block_view_def using assms(1-3) l(2) by (intro conjI exI [of _ ls] exI [of _ rs]) auto
  then show ?thesis using Block_make_layout [OF l(1)] by blast
qed

subsection \<open>Arbitrary bytes\<close>

text \<open>No entry that \<open>DecodeEntry\<close> accepts has lengths whose 32-bit sum wraps around.\<close>

definition no_wrap :: "block_iter \<Rightarrow> bool" where
  "no_wrap it \<longleftrightarrow> (\<forall>i < length (bi_data it).
     case DecodeEntry (drop i (take (unat (bi_restarts it)) (bi_data it))) of None \<Rightarrow> True
     | Some (shared, non_shared, value_length, p) \<Rightarrow> unat non_shared + unat value_length < 2 ^ 32)"

definition iter_static :: "block_iter \<Rightarrow> bool" where
  "iter_static it \<longleftrightarrow> no_wrap it \<and> length (bi_data it) < 2 ^ 32 \<and> 0 < unat (bi_num_restarts it) \<and>
     unat (bi_restarts it) + 4 * unat (bi_num_restarts it) + 4 = length (bi_data it)"







lemma iter_static_cong:
  "bi_data it' = bi_data it \<Longrightarrow> bi_restarts it' = bi_restarts it \<Longrightarrow> bi_num_restarts it' = bi_num_restarts it \<Longrightarrow>
   iter_static it' \<longleftrightarrow> iter_static it"
  by (simp add: iter_static_def no_wrap_def)













subsection \<open>Properties\<close>

text \<open>
  C27: a block presents the entries it was built from.  For entries in strictly ascending key order
  of any comparator and any restart interval, the block made from the builder's output has an
  iterator that reads exactly the entries forwards from \<open>SeekToFirst\<close> and backwards from
  \<open>SeekToLast\<close>, and \<open>Seek\<close> finds the first key not below the target, so that reading on from there
  gives the entries from that key on.
\<close>

theorem block_presents_its_entries:
  assumes "key_order (cmp_Compare c) keys" "sorted_wrt (\<lambda>a b. cmp_Compare c (fst a) (fst b) < 0) es" "\<forall>e \<in> set es. keys (fst e)"
    and "0 < interval" "length (fst (BlockBuilder_Finish (build_block interval es))) < 2 ^ 32" "keys target"
  shows "\<exists>it. Block_NewIterator (Block_make (fst (BlockBuilder_Finish (build_block interval es)))) c = Inr it \<and>
    (\<exists>it'. BlockIter_SeekToFirst it = Some it' \<and> scan Block_Iter it' = Some es) \<and>
    (\<exists>it'. BlockIter_SeekToLast it = Some it' \<and> scan_back Block_Iter it' = Some (rev es)) \<and>
    (\<exists>it'. BlockIter_Seek target it = Some it' \<and>
       scan Block_Iter it' = Some (dropWhile (\<lambda>e. cmp_Compare c (fst e) target < 0) es))"
proof -
  obtain it where it: "Block_NewIterator (Block_make (fst (BlockBuilder_Finish (build_block interval es)))) c = Inr it"
    "block_view c keys it es (length es)"
    using block_view_make [OF assms(1-5)] by blast
  have sel: "it_SeekToFirst Block_Iter = BlockIter_SeekToFirst" "it_SeekToLast Block_Iter = BlockIter_SeekToLast"
    "it_Seek Block_Iter = BlockIter_Seek" by (simp_all add: Block_Iter_def)
  have drop: "drop (seek_index (cmp_Compare c) target es) es = dropWhile (\<lambda>e. cmp_Compare c (fst e) target < 0) es"
    by (simp add: seek_index_def dropWhile_eq_drop)
  have backwards: "scan_back Block_Iter it' = Some (rev es)" if "block_view c keys it' es (length es - 1)" for it'
  proof (cases es)
    case Nil
    with that block.view_Valid [OF that] show ?thesis by (subst scan_back.simps) simp
  next
    case (Cons e es')
    with block.scan_back_view [OF that] show ?thesis by simp
  qed
  show ?thesis
    using it(1) block.view_SeekToFirst [OF it(2), unfolded sel] block.view_SeekToLast [OF it(2), unfolded sel]
      block.view_Seek [OF it(2) assms(6), unfolded sel] block.scan_view backwards drop by fastforce
qed

theorem block_presents_its_entries_witness:
  "\<exists>it it'. Block_NewIterator (Block_make (fst (BlockBuilder_Finish (build_block 16 [([97], [1]), ([97, 98], [2])])))) BytewiseComparator = Inr it \<and>
     BlockIter_Seek [97, 97] it = Some it' \<and> scan Block_Iter it' = Some [([97, 98], [2])]"
proof -
  let ?es = "[([97], [1]), ([97, 98], [2])] :: (bytes \<times> bytes) list"
  have "sorted_wrt (\<lambda>a b. cmp_Compare BytewiseComparator (fst a) (fst b) < 0) ?es"
    by (simp add: BytewiseComparator_sel BytewiseComparator_Compare_lex)
  moreover have "length (fst (BlockBuilder_Finish (build_block 16 ?es))) < 2 ^ 32"
    by (simp add: build_block_def BlockBuilder_Finish_def BlockBuilder_Add_def BlockBuilder_make_def Let_def PutVarint32_def
        PutFixed32_def EncodeVarint32_def resize_def)
  moreover have "dropWhile (\<lambda>e. cmp_Compare BytewiseComparator (fst e) [97, 97] < 0) ?es = [([97, 98], [2])]"
    by (simp add: BytewiseComparator_sel BytewiseComparator_Compare_lex)
  ultimately show ?thesis
    using block_presents_its_entries [OF bytewise.key_order_axioms, of ?es 16 "[97, 97]"] by fastforce
qed





end
