(* ===== verification/Filter_Block.thy ===== *)
theory Filter_Block
  imports Dbformat Block_Builder
begin

text \<open>
  \<^verbatim>\<open>table/filter_block.cc\<close>: the filter block of a table, one filter for every 2 KB of file offsets.
  The builder flattens the keys of the current filter into one string; the reader finds the
  filter of a block by the block's offset.  The contract of the filter policy is the locale
  \<open>filter_policy_contract\<close>.
\<close>

definition kFilterBaseLg :: nat where "kFilterBaseLg = 11"
definition kFilterBase :: nat where "kFilterBase = 2 ^ kFilterBaseLg"

record filter_block_builder =
  fb_policy :: filter_policy
  fb_keys :: bytes
  fb_start :: "nat list"
  fb_result :: bytes
  fb_filter_offsets :: "u32 list"

definition FilterBlockBuilder_make :: "filter_policy \<Rightarrow> filter_block_builder" where
  "FilterBlockBuilder_make policy =
     \<lparr>fb_policy = policy, fb_keys = [], fb_start = [], fb_result = [], fb_filter_offsets = []\<rparr>"

definition FilterBlockBuilder_AddKey :: "bytes \<Rightarrow> filter_block_builder \<Rightarrow> filter_block_builder" where
  "FilterBlockBuilder_AddKey key b =
     b\<lparr>fb_start := fb_start b @ [length (fb_keys b)], fb_keys := fb_keys b @ key\<rparr>"

definition GenerateFilter :: "filter_block_builder \<Rightarrow> filter_block_builder" where
  "GenerateFilter b =
     (let num_keys = length (fb_start b) in
      if num_keys = 0
      then b\<lparr>fb_filter_offsets := fb_filter_offsets b @ [word_of_nat (length (fb_result b))]\<rparr>
      else let start = fb_start b @ [length (fb_keys b)];
               tmp_keys = map (\<lambda>i. take (start ! (i + 1) - start ! i) (drop (start ! i) (fb_keys b))) [0..<num_keys]
        in b\<lparr>fb_filter_offsets := fb_filter_offsets b @ [word_of_nat (length (fb_result b))],
             fb_result := fp_CreateFilter (fb_policy b) tmp_keys (fb_result b),
             fb_keys := [], fb_start := []\<rparr>)"

lemma length_GenerateFilter [simp]:
  "length (fb_filter_offsets (GenerateFilter b)) = Suc (length (fb_filter_offsets b))"
  by (simp add: GenerateFilter_def Let_def)

function generate_until :: "nat \<Rightarrow> filter_block_builder \<Rightarrow> filter_block_builder" where
  "generate_until filter_index b =
     (if length (fb_filter_offsets b) < filter_index then generate_until filter_index (GenerateFilter b) else b)"
  by pat_completeness auto
termination
  by (relation "measure (\<lambda>(filter_index, b). filter_index - length (fb_filter_offsets b))") auto

declare generate_until.simps [simp del]

definition FilterBlockBuilder_StartBlock :: "u64 \<Rightarrow> filter_block_builder \<Rightarrow> filter_block_builder" where
  "FilterBlockBuilder_StartBlock block_offset b = generate_until (unat block_offset div kFilterBase) b"

definition FilterBlockBuilder_Finish :: "filter_block_builder \<Rightarrow> bytes \<times> filter_block_builder" where
  "FilterBlockBuilder_Finish b =
     (let b = (if fb_start b \<noteq> [] then GenerateFilter b else b);
          array_offset = word_of_nat (length (fb_result b));
          result = foldl PutFixed32 (fb_result b) (fb_filter_offsets b);
          result = PutFixed32 result array_offset @ [word_of_nat kFilterBaseLg]
      in (result, b\<lparr>fb_result := result\<rparr>))"

text \<open>
  The reader: \<open>offset_\<close> is an index into the data.  A negative \<open>char\<close> converted to \<open>size_t\<close> is
  huge; a shift by 64 or more is undefined in C++ and gives 0 here.
\<close>

record filter_block_reader =
  fr_policy :: filter_policy
  fr_data :: bytes
  fr_offset :: nat
  fr_num :: nat
  fr_base_lg :: nat

definition FilterBlockReader_make :: "filter_policy \<Rightarrow> bytes \<Rightarrow> filter_block_reader" where
  "FilterBlockReader_make policy contents =
     (let n = length contents;
          r = \<lparr>fr_policy = policy, fr_data = [], fr_offset = 0, fr_num = 0, fr_base_lg = 0\<rparr>
      in if n < 5 then r
         else let r = r\<lparr>fr_base_lg := unat (scast (contents ! (n - 1)) :: u64)\<rparr>;
                  last_word = unat (DecodeFixed32 (drop (n - 5) contents))
           in if n - 5 < last_word then r
              else r\<lparr>fr_data := contents, fr_offset := last_word, fr_num := (n - 5 - last_word) div 4\<rparr>)"

definition FilterBlockReader_KeyMayMatch :: "filter_block_reader \<Rightarrow> u64 \<Rightarrow> bytes \<Rightarrow> bool" where
  "FilterBlockReader_KeyMayMatch r block_offset key =
     (let index = unat (drop_bit (fr_base_lg r) block_offset) in
      if index < fr_num r then
        let start = unat (DecodeFixed32 (drop (fr_offset r + index * 4) (fr_data r)));
            limit = unat (DecodeFixed32 (drop (fr_offset r + index * 4 + 4) (fr_data r)))
        in if start \<le> limit \<and> limit \<le> fr_offset r
           then fp_KeyMayMatch (fr_policy r) key (take (limit - start) (drop start (fr_data r)))
           else if start = limit then False
           else True
      else True)"

subsection \<open>The abstract builder\<close>

text \<open>The keys of the finished filters, and those of the current one.\<close>

fun flat_starts :: "nat \<Rightarrow> bytes list \<Rightarrow> nat list" where
  "flat_starts n [] = []"
| "flat_starts n (k # ks) = n # flat_starts (n + length k) ks"

definition filters :: "filter_policy \<Rightarrow> bytes list list \<Rightarrow> bytes" where
  "filters p fs = foldl (\<lambda>dst ks. if ks = [] then dst else fp_CreateFilter p ks dst) [] fs"

definition filter_inv :: "filter_policy \<Rightarrow> filter_block_builder \<Rightarrow> bytes list list \<Rightarrow> bytes list \<Rightarrow> bool" where
  "filter_inv p b fs cur \<longleftrightarrow> fb_policy b = p \<and> fb_keys b = concat cur \<and> fb_start b = flat_starts 0 cur \<and>
     fb_result b = filters p fs \<and>
     fb_filter_offsets b = map (\<lambda>i. word_of_nat (length (filters p (take i fs)))) [0..<length fs]"

lemma length_flat_starts [simp]: "length (flat_starts n ks) = length ks"
  by (induction ks arbitrary: n) auto

lemma flat_starts_append: "flat_starts n (ks @ ks') = flat_starts n ks @ flat_starts (n + length (concat ks)) ks'"
  by (induction ks arbitrary: n) (auto simp: ac_simps)

lemma flat_starts_nth: "i \<le> length ks \<Longrightarrow>
  (flat_starts n ks @ [n + length (concat ks)]) ! i = n + length (concat (take i ks))"
proof (induction ks arbitrary: n i)
  case (Cons k ks)
  show ?case
  proof (cases i)
    case (Suc j)
    with Cons.IH [of j "n + length k"] Cons.prems show ?thesis by (simp add: ac_simps)
  qed simp
qed simp

lemma flattened_keys:
  assumes "start = flat_starts 0 ks @ [length (concat ks)]"
  shows "map (\<lambda>i. take (start ! (i + 1) - start ! i) (drop (start ! i) (concat ks))) [0..<length ks] = ks"
proof (rule nth_equalityI)
  fix i assume "i < length (map (\<lambda>i. take (start ! (i + 1) - start ! i) (drop (start ! i) (concat ks))) [0..<length ks])"
  then have i: "i < length ks" by simp
  have s: "start ! i = length (concat (take i ks))" "start ! Suc i = length (concat (take i ks)) + length (ks ! i)"
    using i flat_starts_nth [of i ks 0] flat_starts_nth [of "Suc i" ks 0] by (simp_all add: assms take_Suc_conv_app_nth)
  have "concat ks = concat (take i ks) @ ks ! i @ concat (drop (Suc i) ks)"
    using i by (metis concat.simps(2) concat_append id_take_nth_drop)
  then have "drop (start ! i) (concat ks) = ks ! i @ concat (drop (Suc i) ks)" by (simp add: s)
  then show "map (\<lambda>i. take (start ! (i + 1) - start ! i) (drop (start ! i) (concat ks))) [0..<length ks] ! i = ks ! i"
    using i by (simp add: s)
qed simp

lemma FilterBlockBuilder_make_inv: "filter_inv p (FilterBlockBuilder_make p) [] []"
  by (simp add: filter_inv_def FilterBlockBuilder_make_def filters_def)

lemma AddKey_inv: "filter_inv p b fs cur \<Longrightarrow> filter_inv p (FilterBlockBuilder_AddKey key b) fs (cur @ [key])"
  by (simp add: filter_inv_def FilterBlockBuilder_AddKey_def flat_starts_append)

lemma GenerateFilter_inv: "filter_inv p b fs cur \<Longrightarrow> filter_inv p (GenerateFilter b) (fs @ [cur]) []"
  using flattened_keys [OF refl, of cur]
  by (cases "cur = []") (simp_all add: filter_inv_def GenerateFilter_def Let_def filters_def)

lemma generate_until_inv:
  "filter_inv p b fs cur \<Longrightarrow> length fs \<le> n \<Longrightarrow>
   \<exists>fs' cur'. filter_inv p (generate_until n b) fs' cur' \<and> length fs' = n \<and> take (length fs) fs' = fs \<and>
     (if length fs = n then cur' = cur else cur' = [] \<and> fs' ! length fs = cur)"
proof (induction "n - length fs" arbitrary: b fs cur)
  case 0
  then show ?case by (intro exI [of _ fs] exI [of _ cur]) (auto simp: generate_until.simps filter_inv_def)
next
  case (Suc d)
  then have lt: "length fs < n" by simp
  have g: "generate_until n b = generate_until n (GenerateFilter b)"
    using lt Suc(3) by (subst generate_until.simps) (simp add: filter_inv_def)
  obtain fs' cur' where f: "filter_inv p (generate_until n (GenerateFilter b)) fs' cur'" "length fs' = n"
    "take (length (fs @ [cur])) fs' = fs @ [cur]" "cur' = []"
  proof -
    have "\<exists>fs' cur'. filter_inv p (generate_until n (GenerateFilter b)) fs' cur' \<and> length fs' = n \<and>
        take (length (fs @ [cur])) fs' = fs @ [cur] \<and>
        (if length (fs @ [cur]) = n then cur' = [] else cur' = [] \<and> fs' ! length (fs @ [cur]) = [])"
      by (rule Suc(1) [OF _ GenerateFilter_inv [OF Suc(3)]]) (use Suc(2) lt in auto)
    then show ?thesis using that by (auto split: if_splits)
  qed
  have "fs' = (fs @ [cur]) @ drop (length (fs @ [cur])) fs'" using f(3) by (metis append_take_drop_id)
  then have "take (length fs) fs' = fs" "fs' ! length fs = cur"
    by (metis append.assoc append_eq_conv_conj, metis append.assoc append_Cons nth_append_length)
  with f g lt show ?case by auto
qed

text \<open>The words after the filters: the offset of every filter, and the end of the last.\<close>

definition filter_block_bytes :: "filter_policy \<Rightarrow> bytes list list \<Rightarrow> bytes" where
  "filter_block_bytes p fs = filters p fs @
     concat (map EncodeFixed32 (map (\<lambda>i. word_of_nat (length (filters p (take i fs)))) [0..<length fs + 1])) @ [11]"

lemma FilterBlockBuilder_Finish_bytes:
  assumes "filter_inv p b fs cur"
  shows "fst (FilterBlockBuilder_Finish b) = filter_block_bytes p (if cur = [] then fs else fs @ [cur])"
proof -
  let ?b = "if fb_start b \<noteq> [] then GenerateFilter b else b" and ?fs = "if cur = [] then fs else fs @ [cur]"
  have "fb_start b \<noteq> [] \<longleftrightarrow> cur \<noteq> []"
    using assms by (metis filter_inv_def length_flat_starts length_0_conv)
  then have inv: "filter_inv p ?b ?fs []"
    using assms GenerateFilter_inv by (cases "cur = []") (simp_all add: filter_inv_def)
  have "fst (FilterBlockBuilder_Finish b) =
      PutFixed32 (foldl PutFixed32 (fb_result ?b) (fb_filter_offsets ?b)) (word_of_nat (length (fb_result ?b))) @ [word_of_nat kFilterBaseLg]"
    by (simp add: FilterBlockBuilder_Finish_def Let_def)
  also have "\<dots> = filter_block_bytes p ?fs"
    using inv unfolding filter_inv_def
    by (simp add: foldl_PutFixed32 PutFixed32_def filter_block_bytes_def kFilterBaseLg_def)
  finally show ?thesis .
qed

subsection \<open>Reading what the builder wrote\<close>

lemma FilterBlockReader_make_built:
  assumes "length (filter_block_bytes p fs) < 2 ^ 32"
  shows "FilterBlockReader_make p (filter_block_bytes p fs) =
    \<lparr>fr_policy = p, fr_data = filter_block_bytes p fs, fr_offset = length (filters p fs), fr_num = length fs, fr_base_lg = 11\<rparr>"
proof -
  let ?data = "filter_block_bytes p fs" and ?R = "length (filters p fs)"
  let ?ws = "map (\<lambda>i. word_of_nat (length (filters p (take i fs)))) [0..<length fs] :: u32 list"
  have d: "?data = (filters p fs @ concat (map EncodeFixed32 ?ws)) @ EncodeFixed32 (word_of_nat ?R) @ [11]"
    by (simp add: filter_block_bytes_def o_def)
  have l: "length (concat (map EncodeFixed32 ?ws)) = 4 * length fs"
    by (simp add: length_concat o_def sum_list_triv)
  have n: "length ?data = ?R + 4 * length fs + 5" using arg_cong [OF d, of length] l by simp
  have last: "drop (length ?data - 5) ?data = EncodeFixed32 (word_of_nat ?R) @ [11]"
  proof -
    have "length ?data - 5 = length (filters p fs @ concat (map EncodeFixed32 ?ws))" using n l by simp
    then show ?thesis by (subst (2) d) simp
  qed
  have lg: "?data ! (length ?data - 1) = 11"
  proof -
    have ne: "?data \<noteq> []" and last: "last ?data = 11" by (simp_all add: filter_block_bytes_def)
    show ?thesis using last_conv_nth [OF ne] last by simp
  qed
  have R: "unat (word_of_nat ?R :: u32) = ?R" using n assms by (intro unat_of_nat_small) simp
  have "unat (scast (11 :: byte) :: u64) = 11" by simp
  then show ?thesis
    unfolding FilterBlockReader_make_def Let_def last lg using n R by simp
qed

lemma filter_block_offset:
  assumes "i \<le> length fs" "length (filter_block_bytes p fs) < 2 ^ 32" "length (filters p (take i fs)) \<le> length (filters p fs)"
  shows "unat (DecodeFixed32 (drop (length (filters p fs) + i * 4) (filter_block_bytes p fs))) = length (filters p (take i fs))"
proof -
  let ?ws = "map (\<lambda>i. word_of_nat (length (filters p (take i fs)))) [0..<length fs + 1] :: u32 list"
  have "drop (length (filters p fs) + i * 4) (filter_block_bytes p fs) = drop (4 * i) (concat (map EncodeFixed32 ?ws) @ [11])"
    unfolding filter_block_bytes_def drop_append [of _ "filters p fs"] by (simp add: mult.commute del: drop_append upt_Suc)
  also have "\<dots> = EncodeFixed32 (?ws ! i) @ drop (4 * Suc i) (concat (map EncodeFixed32 ?ws) @ [11])"
    by (rule drop_fixed32s) (use assms(1) in simp)
  finally have "DecodeFixed32 (drop (length (filters p fs) + i * 4) (filter_block_bytes p fs)) = ?ws ! i"
    by (simp del: upt_Suc)
  moreover have "?ws ! i = word_of_nat (length (filters p (take i fs)))"
    using assms(1) by (simp del: upt_Suc)
  moreover have "length (filters p (take i fs)) < 2 ^ 32"
    using assms(2,3) by (simp add: filter_block_bytes_def)
  ultimately show ?thesis by (simp add: unat_of_nat_small del: upt_Suc)
qed

context filter_policy_contract
begin

lemma filters_extend: "\<exists>f. filters p (fs @ gs) = filters p fs @ f"
proof (induction gs rule: rev_induct)
  case (snoc ks gs)
  then obtain f where f: "filters p (fs @ gs) = filters p fs @ f" by blast
  obtain g where "fp_CreateFilter p ks (filters p (fs @ gs)) = filters p (fs @ gs) @ g" using create_extends by blast
  with f show ?case by (auto simp: filters_def)
qed simp

lemma filters_prefix: "i \<le> j \<Longrightarrow> \<exists>f. filters p (take j fs) = filters p (take i fs) @ f"
  using filters_extend [of "take i fs" "take (j - i) (drop i fs)"] by (simp flip: take_add)

text \<open>Every key of filter \<open>i\<close> matches at every offset of its 2 KB.\<close>

lemma KeyMayMatch_built:
  assumes "i < length fs" "key \<in> set (fs ! i)" "keys_ok (fs ! i)" "unat block_offset div kFilterBase = i"
    and "length (filter_block_bytes p fs) < 2 ^ 32"
  shows "FilterBlockReader_KeyMayMatch (FilterBlockReader_make p (filter_block_bytes p fs)) block_offset key"
proof -
  let ?data = "filter_block_bytes p fs" and ?R = "length (filters p fs)"
  let ?start = "length (filters p (take i fs))" and ?limit = "length (filters p (take (Suc i) fs))"
  obtain f where f: "filters p (take (Suc i) fs) = filters p (take i fs) @ f" using filters_prefix [of i "Suc i" fs] by auto
  obtain g where g: "filters p fs = filters p (take (Suc i) fs) @ g"
    using filters_prefix [of "Suc i" "length fs" fs] assms(1) by auto
  have le: "?start \<le> ?limit" "?limit \<le> ?R" using f g by simp_all
  have "take (?limit - ?start) (drop ?start ?data) = f"
    unfolding filter_block_bytes_def g f by simp
  moreover have "fp_KeyMayMatch p key f"
  proof -
    have "fs ! i \<noteq> []" using assms(2) by auto
    then have "filters p (take (Suc i) fs) = fp_CreateFilter p (fs ! i) (filters p (take i fs))"
      using assms(1) by (simp add: take_Suc_conv_app_nth filters_def)
    then show ?thesis using no_false_negative [OF assms(3,2)] f by metis
  qed
  moreover have "unat (DecodeFixed32 (drop (?R + i * 4) ?data)) = ?start"
    by (rule filter_block_offset) (use assms(1,5) le in auto)
  moreover have "unat (DecodeFixed32 (drop (?R + i * 4 + 4) ?data)) = ?limit"
    using filter_block_offset [of "Suc i" fs p] assms(1,5) le(2) by (simp add: add.commute add.left_commute)
  moreover have "unat (drop_bit 11 block_offset) = i"
    using assms(4) by (simp add: drop_bit_eq_div unat_div kFilterBase_def kFilterBaseLg_def)
  ultimately show ?thesis
    unfolding FilterBlockReader_make_built [OF assms(5)] FilterBlockReader_KeyMayMatch_def
    using assms(1) le by (simp add: Let_def)
qed

end

subsection \<open>The calls of a table builder\<close>

text \<open>\<open>(StartBlock AddKey*)* Finish\<close>: a block is its offset and its keys.\<close>

fun filter_calls :: "(u64 \<times> bytes list) list \<Rightarrow> filter_block_builder \<Rightarrow> filter_block_builder" where
  "filter_calls [] b = b"
| "filter_calls ((off, ks) # blocks) b =
     filter_calls blocks (fold FilterBlockBuilder_AddKey ks (FilterBlockBuilder_StartBlock off b))"

definition filter_of :: "filter_policy \<Rightarrow> (u64 \<times> bytes list) list \<Rightarrow> bytes" where
  "filter_of p blocks = fst (FilterBlockBuilder_Finish (filter_calls blocks (FilterBlockBuilder_make p)))"

abbreviation filter_index :: "u64 \<Rightarrow> nat" where
  "filter_index off \<equiv> unat off div kFilterBase"

definition held :: "bytes list list \<Rightarrow> bytes list \<Rightarrow> nat \<Rightarrow> bytes list \<Rightarrow> bool" where
  "held fs cur i ks \<longleftrightarrow> i \<le> length fs \<and> set ks \<subseteq> set ((fs @ [cur]) ! i)"

lemma AddKeys_inv: "filter_inv p b fs cur \<Longrightarrow> filter_inv p (fold FilterBlockBuilder_AddKey ks b) fs (cur @ ks)"
proof (induction ks arbitrary: b cur)
  case (Cons k ks)
  from Cons.IH [OF AddKey_inv [OF Cons.prems, of k]] show ?case by simp
qed simp

lemma StartBlock_held:
  assumes "filter_inv p b fs cur" "length fs \<le> filter_index off"
  shows "\<exists>fs' cur'. filter_inv p (FilterBlockBuilder_StartBlock off b) fs' cur' \<and> length fs' = filter_index off \<and>
    (\<forall>i ks. held fs cur i ks \<longrightarrow> held fs' cur' i ks)"
proof -
  obtain fs' cur' where f: "filter_inv p (FilterBlockBuilder_StartBlock off b) fs' cur'" "length fs' = filter_index off"
    "take (length fs) fs' = fs"
    "if length fs = filter_index off then cur' = cur else cur' = [] \<and> fs' ! length fs = cur"
    using generate_until_inv [OF assms] by (auto simp: FilterBlockBuilder_StartBlock_def)
  have "held fs' cur' i ks" if "held fs cur i ks" for i ks
  proof (cases "i < length fs")
    case True
    then have "fs' ! i = fs ! i" using f(3) by (metis nth_take)
    with True that f(2) assms(2) show ?thesis by (simp add: held_def nth_append)
  next
    case False
    then have "i = length fs" using that by (simp add: held_def)
    with that f(2-4) assms(2) show ?thesis by (cases "length fs = filter_index off") (auto simp: held_def nth_append)
  qed
  with f show ?thesis by blast
qed

lemma filter_calls_held:
  "filter_inv p b fs cur \<Longrightarrow> sorted_wrt (\<le>) (map fst blocks) \<Longrightarrow> \<forall>(off, ks) \<in> set blocks. length fs \<le> filter_index off \<Longrightarrow>
   \<exists>fs' cur'. filter_inv p (filter_calls blocks b) fs' cur' \<and> (\<forall>i ks. held fs cur i ks \<longrightarrow> held fs' cur' i ks) \<and>
     (\<forall>(off, ks) \<in> set blocks. held fs' cur' (filter_index off) ks)"
proof (induction blocks arbitrary: b fs cur)
  case (Cons block blocks)
  obtain off ks where block: "block = (off, ks)" by fastforce
  obtain fs1 cur1 where 1: "filter_inv p (FilterBlockBuilder_StartBlock off b) fs1 cur1" "length fs1 = filter_index off"
    "\<forall>i ks. held fs cur i ks \<longrightarrow> held fs1 cur1 i ks"
    using StartBlock_held [OF Cons.prems(1), of off] Cons.prems(3) by (auto simp: block)
  have add: "held fs1 cur1 i ls \<longrightarrow> held fs1 (cur1 @ ks) i ls" for i ls
    by (auto simp: held_def nth_append split: if_splits)
  have here: "held fs1 (cur1 @ ks) (filter_index off) ks" by (simp add: held_def 1(2) nth_append)
  have "\<forall>(off', ks') \<in> set blocks. length fs1 \<le> filter_index off'"
    using Cons.prems(2) by (auto simp: block 1(2) word_le_nat_alt intro!: div_le_mono)
  then obtain fs' cur' where "filter_inv p (filter_calls blocks (fold FilterBlockBuilder_AddKey ks (FilterBlockBuilder_StartBlock off b))) fs' cur'"
    "\<forall>i ls. held fs1 (cur1 @ ks) i ls \<longrightarrow> held fs' cur' i ls" "\<forall>(off, ks) \<in> set blocks. held fs' cur' (filter_index off) ks"
    using Cons.IH [OF AddKeys_inv [OF 1(1), of ks]] Cons.prems(2) unfolding block by auto
  with 1(3) add here show ?case by (intro exI [of _ fs'] exI [of _ cur']) (auto simp: block)
qed auto

context filter_policy_contract
begin

lemma filter_of_matches:
  assumes "\<And>ks. keys_ok ks" "sorted_wrt (\<le>) (map fst blocks)" "(off, ks) \<in> set blocks" "key \<in> set ks"
    and "length (filter_of p blocks) < 2 ^ 32"
  shows "FilterBlockReader_KeyMayMatch (FilterBlockReader_make p (filter_of p blocks)) off key"
proof -
  obtain fs cur where f: "filter_inv p (filter_calls blocks (FilterBlockBuilder_make p)) fs cur" "held fs cur (filter_index off) ks"
    using filter_calls_held [OF FilterBlockBuilder_make_inv assms(2)] assms(3) by fastforce
  let ?fs = "if cur = [] then fs else fs @ [cur]"
  note bytes = FilterBlockBuilder_Finish_bytes [OF f(1)]
  have "filter_index off < length ?fs" "key \<in> set (?fs ! filter_index off)"
    using f(2) assms(4) by (auto simp: held_def nth_append split: if_splits)
  from KeyMayMatch_built [OF this assms(1) refl] assms(5) show ?thesis
    unfolding filter_of_def bytes by blast
qed

end

subsection \<open>Properties\<close>

text \<open>
  C36: the filter block never hides a key.  For every filter policy without false negatives, and
  blocks at ascending file offsets whatever their sizes and keys, the reader of the finished
  filter block answers that a key may match at the offset of the block the key was added to.
\<close>

theorem filter_block_no_false_negative:
  assumes "filter_policy_contract p (\<lambda>_. True)" "sorted_wrt (\<le>) (map fst blocks)" "(off, ks) \<in> set blocks" "key \<in> set ks"
    and "length (filter_of p blocks) < 2 ^ 32"
  shows "FilterBlockReader_KeyMayMatch (FilterBlockReader_make p (filter_of p blocks)) off key"
  using filter_policy_contract.filter_of_matches [OF assms(1) TrueI assms(2-5)] .

theorem filter_block_no_false_negative_witness:
  "FilterBlockReader_KeyMayMatch
     (FilterBlockReader_make (BloomFilterPolicy 10) (filter_of (BloomFilterPolicy 10) [(0, [[1]]), (5000, [])])) 0 [1]"
proof -
  let ?blocks = "[(0, [[1]]), (5000, [])] :: (u64 \<times> bytes list) list"
  have "length (filter_of (BloomFilterPolicy 10) ?blocks) < 2 ^ 32"
    by (simp add: filter_of_def FilterBlockBuilder_StartBlock_def FilterBlockBuilder_Finish_def FilterBlockBuilder_AddKey_def
        FilterBlockBuilder_make_def generate_until.simps GenerateFilter_def Let_def kFilterBase_def kFilterBaseLg_def
        BloomFilterPolicy_def Bloom_CreateFilter_def PutFixed32_def)
  then show ?thesis
    using filter_block_no_false_negative [OF bloom.filter_policy_contract_axioms, of ?blocks 0 "[[1]]" "[1]" 10] by simp
qed

end
