(* ===== verification/Format.thy ===== *)
theory Format
  imports Crc32c Env_Posix
begin

text \<open>
  \<^verbatim>\<open>table/format.cc\<close> and \<^verbatim>\<open>table/format.h\<close>: block handles, the footer of a table file, and reading a
  block with its trailer; \<^verbatim>\<open>port/port_stdcxx.h\<close>: the Snappy functions of a build without Snappy;
  and the random access files of \<^verbatim>\<open>util/env_posix.cc\<close>.  Sizes and offsets are the 64-bit words of
  the code, which come from the file and may wrap around in sums; a read outside the memory of a
  buffer or a mapping is the value \<open>None\<close>.
\<close>

subsection \<open>Random access files\<close>

text \<open>
  \<open>Read\<close> is a const method: a function of offset and size.  \<open>raf_owns\<close>: the result points into
  memory of the file object, not into the caller's scratch buffer.
\<close>

record random_access_file =
  raf_Read :: "u64 \<Rightarrow> u64 \<Rightarrow> (status \<times> bytes) option"
  raf_owns :: bool

text \<open>The system calls of a read: \<open>open(.., O_RDONLY)\<close> and \<open>pread\<close>, \<open>Inl errno\<close> on failure.\<close>

record read_kernel =
  rk_open :: "bytes \<Rightarrow> int + int"
  rk_pread :: "int \<Rightarrow> u64 \<Rightarrow> u64 \<Rightarrow> int + bytes"
  rk_strerror :: "int \<Rightarrow> bytes"

definition EINVAL :: int where "EINVAL = 22"

definition read_error :: "read_kernel \<Rightarrow> bytes \<Rightarrow> int \<Rightarrow> status" where
  "read_error K context error_number =
     (if error_number = ENOENT then Status_NotFound context (rk_strerror K error_number)
      else Status_IOError context (rk_strerror K error_number))"

record posix_random_access_file =
  praf_has_permanent_fd :: bool
  praf_fd :: int
  praf_filename :: bytes

text \<open>The limiter counts the descriptors that may still be kept open.\<close>

definition Limiter_Acquire :: "int \<Rightarrow> bool \<times> int" where
  "Limiter_Acquire acquires_allowed =
     (let old_acquires_allowed = acquires_allowed;
          acquires_allowed = acquires_allowed - 1
      in if 0 < old_acquires_allowed then (True, acquires_allowed) else (False, acquires_allowed + 1))"

definition Limiter_Release :: "int \<Rightarrow> int" where
  "Limiter_Release acquires_allowed = acquires_allowed + 1"

definition PosixRandomAccessFile_make :: "bytes \<Rightarrow> int \<Rightarrow> int \<Rightarrow> posix_random_access_file \<times> int" where
  "PosixRandomAccessFile_make filename fd fd_limiter =
     (let (acquired, fd_limiter) = Limiter_Acquire fd_limiter
      in (\<lparr>praf_has_permanent_fd = acquired, praf_fd = (if acquired then fd else -1), praf_filename = filename\<rparr>, fd_limiter))"

definition PosixRandomAccessFile_Read ::
  "read_kernel \<Rightarrow> posix_random_access_file \<Rightarrow> u64 \<Rightarrow> u64 \<Rightarrow> (status \<times> bytes) option" where
  "PosixRandomAccessFile_Read K this offset n =
     (case (if praf_has_permanent_fd this then Inr (praf_fd this) else rk_open K (praf_filename this)) of
        Inl errno \<Rightarrow> Some (read_error K (praf_filename this) errno, [])
      | Inr fd \<Rightarrow>
          (case rk_pread K fd n offset of
             Inl errno \<Rightarrow> Some (read_error K (praf_filename this) errno, [])
           | Inr result \<Rightarrow> Some (Status_OK, result)))"

definition PosixRandomAccessFile :: "read_kernel \<Rightarrow> posix_random_access_file \<Rightarrow> random_access_file" where
  "PosixRandomAccessFile K this = \<lparr>raf_Read = PosixRandomAccessFile_Read K this, raf_owns = False\<rparr>"

text \<open>A mapped file: the bytes of the mapping, its name and the text of \<open>EINVAL\<close>.\<close>

definition PosixMmapReadableFile_Read :: "bytes \<Rightarrow> bytes \<Rightarrow> bytes \<Rightarrow> u64 \<Rightarrow> u64 \<Rightarrow> (status \<times> bytes) option" where
  "PosixMmapReadableFile_Read mmap_base filename einval offset n =
     (if length mmap_base < unat (offset + n) then Some (Status_IOError filename einval, [])
      else if length mmap_base < unat offset + unat n then None
      else Some (Status_OK, take (unat n) (drop (unat offset) mmap_base)))"

definition PosixMmapReadableFile :: "bytes \<Rightarrow> bytes \<Rightarrow> bytes \<Rightarrow> random_access_file" where
  "PosixMmapReadableFile mmap_base filename einval =
     \<lparr>raf_Read = PosixMmapReadableFile_Read mmap_base filename einval, raf_owns = True\<rparr>"

text \<open>The contract: a read inside the file returns the bytes asked for.\<close>

locale random_access_contract =
  fixes R :: random_access_file and content :: bytes
  assumes read_inside: "length content < 2 ^ 64 \<Longrightarrow> unat off + unat n \<le> length content \<Longrightarrow>
    raf_Read R off n = Some (Status_OK, take (unat n) (drop (unat off) content))"

interpretation mmap: random_access_contract "PosixMmapReadableFile content filename einval" content
  for content filename einval
proof
  fix off n :: u64
  assume l: "length content < 2 ^ 64" "unat off + unat n \<le> length content"
  then have "unat (off + n) = unat off + unat n" by (simp add: unat_word_ariths)
  with l show "raf_Read (PosixMmapReadableFile content filename einval) off n =
      Some (Status_OK, take (unat n) (drop (unat off) content))"
    by (simp add: PosixMmapReadableFile_def PosixMmapReadableFile_Read_def)
qed

definition content_kernel :: "bytes \<Rightarrow> read_kernel" where
  "content_kernel content = \<lparr>rk_open = (\<lambda>_. Inr 3),
     rk_pread = (\<lambda>_ n off. Inr (take (unat n) (drop (unat off) content))), rk_strerror = (\<lambda>_. [])\<rparr>"

interpretation pread: random_access_contract "PosixRandomAccessFile (content_kernel content) f" content
  for content f
  by unfold_locales
     (auto simp: PosixRandomAccessFile_def PosixRandomAccessFile_Read_def content_kernel_def split: if_splits)

subsection \<open>Block handles and the footer\<close>

record block_handle =
  bh_offset :: u64
  bh_size :: u64

definition BlockHandle_make :: block_handle where
  "BlockHandle_make = \<lparr>bh_offset = -1, bh_size = -1\<rparr>"

definition BlockHandle_kMaxEncodedLength :: nat where
  "BlockHandle_kMaxEncodedLength = 10 + 10"

definition BlockHandle_EncodeTo :: "block_handle \<Rightarrow> bytes \<Rightarrow> bytes" where
  "BlockHandle_EncodeTo h dst = PutVarint64 (PutVarint64 dst (bh_offset h)) (bh_size h)"

text \<open>The fields are assigned one by one; \<open>*input\<close> is advanced past what was decoded.\<close>

definition BlockHandle_DecodeFrom :: "block_handle \<Rightarrow> bytes \<Rightarrow> status \<times> block_handle \<times> bytes" where
  "BlockHandle_DecodeFrom h input =
     (case GetVarint64 input of
        (None, input) \<Rightarrow> (Status_Corruption (lit ''bad block handle'') [], h, input)
      | (Some offset, input) \<Rightarrow>
          let h = h\<lparr>bh_offset := offset\<rparr> in
          (case GetVarint64 input of
             (None, input) \<Rightarrow> (Status_Corruption (lit ''bad block handle'') [], h, input)
           | (Some sz, input) \<Rightarrow> (Status_OK, h\<lparr>bh_size := sz\<rparr>, input)))"

record footer =
  ft_metaindex_handle :: block_handle
  ft_index_handle :: block_handle

definition Footer_kEncodedLength :: nat where
  "Footer_kEncodedLength = 2 * BlockHandle_kMaxEncodedLength + 8"

definition kTableMagicNumber :: u64 where "kTableMagicNumber = 0xdb4775248b80fb57"
definition kBlockTrailerSize :: nat where "kBlockTrailerSize = 5"

definition Footer_EncodeTo :: "footer \<Rightarrow> bytes \<Rightarrow> bytes" where
  "Footer_EncodeTo f dst =
     (let dst = BlockHandle_EncodeTo (ft_metaindex_handle f) dst;
          dst = BlockHandle_EncodeTo (ft_index_handle f) dst;
          dst = resize dst (2 * BlockHandle_kMaxEncodedLength);
          dst = PutFixed32 dst (ucast (kTableMagicNumber AND 0xffffffff))
      in PutFixed32 dst (ucast (drop_bit 32 kTableMagicNumber)))"

text \<open>\<open>None\<close>: the magic number is read from beyond an input that is shorter than a footer.\<close>

definition Footer_DecodeFrom :: "bytes \<Rightarrow> (status \<times> footer \<times> bytes) option" where
  "Footer_DecodeFrom input =
     (if length input < Footer_kEncodedLength then None
      else let magic_ptr = drop (Footer_kEncodedLength - 8) input;
               magic_lo = DecodeFixed32 magic_ptr;
               magic_hi = DecodeFixed32 (drop 4 magic_ptr);
               magic = push_bit 32 (ucast magic_hi) OR ucast magic_lo;
               f = \<lparr>ft_metaindex_handle = BlockHandle_make, ft_index_handle = BlockHandle_make\<rparr>
           in if magic \<noteq> kTableMagicNumber
              then Some (Status_Corruption (lit ''not an sstable (bad magic number)'') [], f, input)
              else let (result, h, input) = BlockHandle_DecodeFrom BlockHandle_make input;
                       f = f\<lparr>ft_metaindex_handle := h\<rparr>
                in if \<not> Status_ok result then Some (result, f, input)
                   else let (result, h, input) = BlockHandle_DecodeFrom BlockHandle_make input;
                            f = f\<lparr>ft_index_handle := h\<rparr>
                     in Some (result, f, if Status_ok result then drop 8 magic_ptr else input))"

subsection \<open>Reading a block\<close>

record block_contents =
  bc_data :: bytes
  bc_cachable :: bool
  bc_heap_allocated :: bool

definition kNoCompression :: byte where "kNoCompression = 0"
definition kSnappyCompression :: byte where "kSnappyCompression = 1"

text \<open>Without Snappy, none of its functions succeeds.\<close>

definition Snappy_Compress :: "bytes \<Rightarrow> bytes option" where "Snappy_Compress input = None"
definition Snappy_GetUncompressedLength :: "bytes \<Rightarrow> nat option" where "Snappy_GetUncompressedLength input = None"
definition Snappy_Uncompress :: "bytes \<Rightarrow> bytes option" where "Snappy_Uncompress input = None"

text \<open>
  \<open>n\<close> is the size of the handle and \<open>n + kBlockTrailerSize\<close> a sum of \<open>size_t\<close>; the type byte \<open>data[n]\<close>
  may lie outside what was read when that sum wraps around.
\<close>

definition ReadBlock :: "random_access_file \<Rightarrow> bool \<Rightarrow> block_handle \<Rightarrow> (status \<times> block_contents) option" where
  "ReadBlock file verify_checksums handle =
     (let result = \<lparr>bc_data = [], bc_cachable = False, bc_heap_allocated = False\<rparr>;
          n = bh_size handle
      in do {
        (s, contents) \<leftarrow> raf_Read file (bh_offset handle) (n + word_of_nat kBlockTrailerSize);
        if \<not> Status_ok s then Some (s, result)
        else if length contents \<noteq> unat (n + word_of_nat kBlockTrailerSize)
        then Some (Status_Corruption (lit ''truncated block read'') [], result)
        else if length contents < unat n + kBlockTrailerSize then None
        else if verify_checksums \<and>
                Value (take (unat n + 1) contents) \<noteq> Unmask (DecodeFixed32 (drop (unat n + 1) contents))
        then Some (Status_Corruption (lit ''block checksum mismatch'') [], result)
        else let type = contents ! unat n; data = take (unat n) contents in
          if type = kNoCompression then
            Some (Status_OK, if raf_owns file then \<lparr>bc_data = data, bc_cachable = False, bc_heap_allocated = False\<rparr>
                             else \<lparr>bc_data = data, bc_cachable = True, bc_heap_allocated = True\<rparr>)
          else if type = kSnappyCompression then
            (case Snappy_GetUncompressedLength data of
               None \<Rightarrow> Some (Status_Corruption (lit ''corrupted compressed block contents'') [], result)
             | Some ulength \<Rightarrow>
                 (case Snappy_Uncompress data of
                    None \<Rightarrow> Some (Status_Corruption (lit ''corrupted compressed block contents'') [], result)
                  | Some ubuf \<Rightarrow> Some (Status_OK, \<lparr>bc_data = ubuf, bc_cachable = True, bc_heap_allocated = True\<rparr>)))
          else Some (Status_Corruption (lit ''bad block type'') [], result) })"

subsection \<open>Round trips\<close>

lemma BlockHandle_round_trip [simp]:
  "BlockHandle_DecodeFrom h0 (BlockHandle_EncodeTo h [] @ rest) = (Status_OK, h, rest)"
  by (simp add: BlockHandle_DecodeFrom_def BlockHandle_EncodeTo_def PutVarint64_def)

lemma BlockHandle_EncodeTo_append: "BlockHandle_EncodeTo h dst = dst @ BlockHandle_EncodeTo h []"
  by (simp add: BlockHandle_EncodeTo_def PutVarint64_def)

lemma length_BlockHandle: "length (BlockHandle_EncodeTo h []) \<le> BlockHandle_kMaxEncodedLength"
  using length_EncodeVarint64 [of "bh_offset h"] length_EncodeVarint64 [of "bh_size h"]
  by (simp add: BlockHandle_EncodeTo_def PutVarint64_def BlockHandle_kMaxEncodedLength_def)

lemma Footer_bytes:
  "\<exists>pad. Footer_EncodeTo f [] = BlockHandle_EncodeTo (ft_metaindex_handle f) [] @ BlockHandle_EncodeTo (ft_index_handle f) [] @
     pad @ EncodeFixed32 0x8b80fb57 @ EncodeFixed32 0xdb477524 \<and> length (Footer_EncodeTo f []) = Footer_kEncodedLength"
proof -
  let ?m = "BlockHandle_EncodeTo (ft_metaindex_handle f) []" and ?i = "BlockHandle_EncodeTo (ft_index_handle f) []"
  have l: "length (?m @ ?i) \<le> 2 * BlockHandle_kMaxEncodedLength"
    using length_BlockHandle [of "ft_metaindex_handle f"] length_BlockHandle [of "ft_index_handle f"] by simp
  have "Footer_EncodeTo f [] = resize (?m @ ?i) (2 * BlockHandle_kMaxEncodedLength) @ EncodeFixed32 0x8b80fb57 @ EncodeFixed32 0xdb477524"
    by (simp add: Footer_EncodeTo_def Let_def PutFixed32_def kTableMagicNumber_def BlockHandle_EncodeTo_append [of _ "BlockHandle_EncodeTo _ _"])
  with l show ?thesis
    by (intro exI [of _ "replicate (2 * BlockHandle_kMaxEncodedLength - length (?m @ ?i)) 0"])
       (simp add: resize_def Footer_kEncodedLength_def)
qed

lemma Footer_round_trip: "Footer_DecodeFrom (Footer_EncodeTo f []) = Some (Status_OK, f, [])"
proof -
  let ?e = "Footer_EncodeTo f []"
  obtain pad where p: "?e = BlockHandle_EncodeTo (ft_metaindex_handle f) [] @ BlockHandle_EncodeTo (ft_index_handle f) [] @
      pad @ EncodeFixed32 0x8b80fb57 @ EncodeFixed32 0xdb477524" and l: "length ?e = Footer_kEncodedLength"
    using Footer_bytes by blast
  let ?pre = "BlockHandle_EncodeTo (ft_metaindex_handle f) [] @ BlockHandle_EncodeTo (ft_index_handle f) [] @ pad"
  have e: "?e = ?pre @ EncodeFixed32 0x8b80fb57 @ EncodeFixed32 0xdb477524" using p by simp
  have "length ?pre = Footer_kEncodedLength - 8" using l arg_cong [OF e, of length] by simp
  then have magic: "drop (Footer_kEncodedLength - 8) ?e = EncodeFixed32 0x8b80fb57 @ EncodeFixed32 0xdb477524"
    by (subst e) simp
  have m: "BlockHandle_DecodeFrom BlockHandle_make ?e = (Status_OK, ft_metaindex_handle f,
      BlockHandle_EncodeTo (ft_index_handle f) [] @ pad @ EncodeFixed32 0x8b80fb57 @ EncodeFixed32 0xdb477524)"
    by (subst p) (rule BlockHandle_round_trip)
  show ?thesis
    unfolding Footer_DecodeFrom_def Let_def magic m using l by (simp add: kTableMagicNumber_def)
qed

text \<open>A block and its trailer as \<open>WriteRawBlock\<close> lays them out.\<close>

definition raw_block :: "bytes \<Rightarrow> byte \<Rightarrow> bytes" where
  "raw_block contents type = contents @ [type] @ EncodeFixed32 (Mask (Value (contents @ [type])))"

lemma length_raw_block [simp]: "length (raw_block contents type) = length contents + kBlockTrailerSize"
  by (simp add: raw_block_def kBlockTrailerSize_def)

context random_access_contract
begin

lemma ReadBlock_raw:
  assumes "content = pre @ raw_block data kNoCompression @ post" "length content < 2 ^ 64"
  shows "\<exists>c. ReadBlock R verify \<lparr>bh_offset = word_of_nat (length pre), bh_size = word_of_nat (length data)\<rparr> = Some (Status_OK, c) \<and>
    bc_data c = data"
proof -
  let ?n = "word_of_nat (length data) :: u64" and ?off = "word_of_nat (length pre) :: u64"
  have len: "length pre + length data + 5 + length post = length content"
    using arg_cong [OF assms(1), of length] by (simp add: kBlockTrailerSize_def)
  have n: "unat ?n = length data" "unat ?off = length pre" "unat (?n + 5) = length data + 5"
    using len assms(2) unat_of_nat_small [of "length data + 5", where 'a = 64]
    by (auto simp: unat_of_nat_small kBlockTrailerSize_def)
  have "take (length data + 5) (drop (length pre) content) = raw_block data kNoCompression"
    by (simp add: assms(1) kBlockTrailerSize_def)
  then have "raf_Read R ?off (?n + 5) = Some (Status_OK, raw_block data kNoCompression)"
    using read_inside [of ?off "?n + 5"] assms(2) len n by simp
  moreover have "take (length data + 1) (raw_block data kNoCompression) = data @ [kNoCompression]"
    "drop (length data + 1) (raw_block data kNoCompression) = EncodeFixed32 (Mask (Value (data @ [kNoCompression])))"
    "raw_block data kNoCompression ! length data = kNoCompression" "take (length data) (raw_block data kNoCompression) = data"
    by (simp_all add: raw_block_def)
  ultimately show ?thesis
    by (simp add: ReadBlock_def Let_def n kBlockTrailerSize_def Unmask_Mask)
qed

end

subsection \<open>Properties\<close>

text \<open>
  C38: exactly when a block read leaves its buffer.  Whatever the file, the handle and the bytes the
  read hands back, \<open>ReadBlock\<close> goes outside them if and only if the read succeeds with the length asked
  for and the size in the handle is within five of \<open>2 ^ 64\<close>: the sum of \<open>size_t\<close> then wraps around, at most
  four bytes pass for the whole block, and the type byte is read far behind them.  Such a handle is
  accepted by the decoder.
\<close>

theorem ReadBlock_size_wraps:
  assumes "raf_Read file (bh_offset h) (bh_size h + 5) = Some (s, contents)"
  shows "(ReadBlock file verify h = None \<longleftrightarrow>
            Status_ok s \<and> length contents = unat (bh_size h + 5) \<and> 2 ^ 64 - 5 \<le> unat (bh_size h)) \<and>
         BlockHandle_DecodeFrom BlockHandle_make (BlockHandle_EncodeTo h [] @ rest) = (Status_OK, h, rest)"
proof -
  let ?n = "bh_size h"
  have "unat (?n + 5) < unat ?n + 5 \<longleftrightarrow> 2 ^ 64 - 5 \<le> unat ?n"
    using unsigned_less [of ?n, where 'a = nat]
    by (cases "unat ?n + 5 < 2 ^ 64") (auto simp: unat_word_ariths)
  then show ?thesis
    using assms
    by (auto simp: ReadBlock_def Let_def kBlockTrailerSize_def split: if_splits option.splits)
qed

lemma ReadBlock_size_wraps_witness:
  "let h = \<lparr>bh_offset = 2, bh_size = 2 ^ 64 - 3\<rparr> in
   ReadBlock (PosixRandomAccessFile (content_kernel [5, 6, 7, 8, 9]) (fst (PosixRandomAccessFile_make [97] 3 50))) True h = None \<and>
   ReadBlock (PosixMmapReadableFile [5, 6, 7, 8, 9] [] []) True h = None"
  using ReadBlock_size_wraps [of "PosixRandomAccessFile (content_kernel [5, 6, 7, 8, 9]) (fst (PosixRandomAccessFile_make [97] 3 50))" "\<lparr>bh_offset = 2, bh_size = 2 ^ 64 - 3\<rparr>"
      Status_OK "[7, 8]" True "[]"]
    ReadBlock_size_wraps [of "PosixMmapReadableFile [5, 6, 7, 8, 9] [] []" "\<lparr>bh_offset = 2, bh_size = 2 ^ 64 - 3\<rparr>"
      Status_OK "[7, 8]" True "[]"]
  by (simp add: Let_def PosixRandomAccessFile_def PosixRandomAccessFile_Read_def content_kernel_def
      PosixRandomAccessFile_make_def Limiter_Acquire_def PosixMmapReadableFile_def PosixMmapReadableFile_Read_def)

end
