(* ===== verification/Table_Builder.thy ===== *)
theory Table_Builder
  imports Filter_Block Block Format
begin

text \<open>
  \<^verbatim>\<open>table/table_builder.cc\<close>: the writer of a table file, over the file interface of \<open>Env_Posix\<close>.
  Entries go to a data block that is written when it is full; the index entry of a block is made
  when the first key of the next is known.  The layout of a finished file is stated as
  \<open>table_layout\<close>, and the builder's invariant leads to it whenever \<open>Finish\<close> returns OK.
\<close>

text \<open>The fields of \<open>Options\<close> that building and reading a table use.\<close>

datatype CompressionType = NoCompression | SnappyCompression

record table_options =
  opt_comparator :: comparator
  opt_block_size :: nat
  opt_block_restart_interval :: nat
  opt_compression :: CompressionType
  opt_filter_policy :: "filter_policy option"
  opt_paranoid_checks :: bool

record 'f table_builder =
  tb_options :: table_options
  tb_index_block_options :: table_options
  tb_file :: 'f
  tb_offset :: u64
  tb_status :: status
  tb_data_block :: block_builder
  tb_index_block :: block_builder
  tb_last_key :: bytes
  tb_num_entries :: nat
  tb_closed :: bool
  tb_filter_block :: "filter_block_builder option"
  tb_pending_index_entry :: bool
  tb_pending_handle :: block_handle

definition TableBuilder_make :: "table_options \<Rightarrow> 'f \<Rightarrow> 'f table_builder" where
  "TableBuilder_make options file =
     \<lparr>tb_options = options, tb_index_block_options = options\<lparr>opt_block_restart_interval := 1\<rparr>, tb_file = file,
      tb_offset = 0, tb_status = Status_OK, tb_data_block = BlockBuilder_make, tb_index_block = BlockBuilder_make,
      tb_last_key = [], tb_num_entries = 0, tb_closed = False,
      tb_filter_block = map_option (\<lambda>p. FilterBlockBuilder_StartBlock 0 (FilterBlockBuilder_make p)) (opt_filter_policy options),
      tb_pending_index_entry = False, tb_pending_handle = BlockHandle_make\<rparr>"

text \<open>The comparators are compared by their address; here, by their name.\<close>

definition TableBuilder_ChangeOptions :: "table_options \<Rightarrow> 'f table_builder \<Rightarrow> status \<times> 'f table_builder" where
  "TableBuilder_ChangeOptions options r =
     (if cmp_Name (opt_comparator options) \<noteq> cmp_Name (opt_comparator (tb_options r))
      then (Status_InvalidArgument (lit ''changing comparator while building table'') [], r)
      else (Status_OK, r\<lparr>tb_options := options, tb_index_block_options := options\<lparr>opt_block_restart_interval := 1\<rparr>\<rparr>))"

definition TableBuilder_WriteRawBlock ::
  "'f writable_file \<Rightarrow> bytes \<Rightarrow> byte \<Rightarrow> 'f table_builder \<Rightarrow> (block_handle \<times> 'f table_builder) option" where
  "TableBuilder_WriteRawBlock W block_contents type r =
     (let handle = \<lparr>bh_offset = tb_offset r, bh_size = word_of_nat (length block_contents)\<rparr> in do {
        (s, f) \<leftarrow> wf_Append W (tb_file r) block_contents;
        let r = r\<lparr>tb_file := f, tb_status := s\<rparr>;
        if Status_ok s then do {
          let crc = Extend (Value block_contents) [type];
          let trailer = [type] @ EncodeFixed32 (Mask crc);
          (s, f) \<leftarrow> wf_Append W (tb_file r) trailer;
          let r = r\<lparr>tb_file := f, tb_status := s\<rparr>;
          Some (handle, if Status_ok s
            then r\<lparr>tb_offset := tb_offset r + word_of_nat (length block_contents + kBlockTrailerSize)\<rparr> else r) }
        else Some (handle, r) })"

text \<open>\<open>WriteBlock\<close> finishes, writes and resets a block builder; \<open>r->compressed_output\<close> is only scratch.\<close>

definition TableBuilder_WriteBlock ::
  "'f writable_file \<Rightarrow> block_builder \<Rightarrow> 'f table_builder \<Rightarrow> (block_handle \<times> block_builder \<times> 'f table_builder) option" where
  "TableBuilder_WriteBlock W block r =
     (let (raw, block) = BlockBuilder_Finish block;
          (block_contents, type) =
            (case opt_compression (tb_options r) of
               NoCompression \<Rightarrow> (raw, kNoCompression)
             | SnappyCompression \<Rightarrow>
                 (case Snappy_Compress raw of
                    Some compressed \<Rightarrow>
                      if length compressed < length raw - length raw div 8 then (compressed, kSnappyCompression)
                      else (raw, kNoCompression)
                  | None \<Rightarrow> (raw, kNoCompression)))
      in do {
        (handle, r) \<leftarrow> TableBuilder_WriteRawBlock W block_contents type r;
        Some (handle, BlockBuilder_Reset block, r) })"

definition TableBuilder_Flush :: "'f writable_file \<Rightarrow> 'f table_builder \<Rightarrow> 'f table_builder option" where
  "TableBuilder_Flush W r =
     (if \<not> Status_ok (tb_status r) then Some r
      else if BlockBuilder_empty (tb_data_block r) then Some r
      else do {
        (handle, block, r) \<leftarrow> TableBuilder_WriteBlock W (tb_data_block r) r;
        let r = r\<lparr>tb_data_block := block, tb_pending_handle := handle\<rparr>;
        r \<leftarrow> (if Status_ok (tb_status r) then do {
                let r = r\<lparr>tb_pending_index_entry := True\<rparr>;
                (s, f) \<leftarrow> wf_Flush W (tb_file r);
                Some (r\<lparr>tb_file := f, tb_status := s\<rparr>) }
              else Some r);
        Some (r\<lparr>tb_filter_block := map_option (FilterBlockBuilder_StartBlock (tb_offset r)) (tb_filter_block r)\<rparr>) })"

definition TableBuilder_Add :: "'f writable_file \<Rightarrow> bytes \<Rightarrow> bytes \<Rightarrow> 'f table_builder \<Rightarrow> 'f table_builder option" where
  "TableBuilder_Add W key val r =
     (if \<not> Status_ok (tb_status r) then Some r
      else let r = (if tb_pending_index_entry r then
                      let last_key = cmp_FindShortestSeparator (opt_comparator (tb_options r)) (tb_last_key r) key;
                          handle_encoding = BlockHandle_EncodeTo (tb_pending_handle r) []
                      in r\<lparr>tb_last_key := last_key,
                           tb_index_block := BlockBuilder_Add (opt_block_restart_interval (tb_index_block_options r))
                             last_key handle_encoding (tb_index_block r),
                           tb_pending_index_entry := False\<rparr>
                    else r);
               r = r\<lparr>tb_filter_block := map_option (FilterBlockBuilder_AddKey key) (tb_filter_block r)\<rparr>;
               r = r\<lparr>tb_last_key := key, tb_num_entries := tb_num_entries r + 1,
                     tb_data_block := BlockBuilder_Add (opt_block_restart_interval (tb_options r)) key val (tb_data_block r)\<rparr>;
               estimated_block_size = BlockBuilder_CurrentSizeEstimate (tb_data_block r)
           in if opt_block_size (tb_options r) \<le> estimated_block_size then TableBuilder_Flush W r else Some r)"

text \<open>\<open>Finish\<close> writes the filter block, the metaindex block, the index block and the footer.\<close>

definition Finish_filter_block :: "'f writable_file \<Rightarrow> 'f table_builder \<Rightarrow> (block_handle \<times> 'f table_builder) option" where
  "Finish_filter_block W r =
     (case (Status_ok (tb_status r), tb_filter_block r) of
        (True, Some fb) \<Rightarrow>
          let (contents, fb) = FilterBlockBuilder_Finish fb
          in TableBuilder_WriteRawBlock W contents kNoCompression (r\<lparr>tb_filter_block := Some fb\<rparr>)
      | _ \<Rightarrow> Some (BlockHandle_make, r))"

definition Finish_metaindex_block ::
  "'f writable_file \<Rightarrow> block_handle \<Rightarrow> 'f table_builder \<Rightarrow> (block_handle \<times> 'f table_builder) option" where
  "Finish_metaindex_block W filter_block_handle r =
     (if Status_ok (tb_status r) then
        do {
          meta_index_block \<leftarrow>
            (if tb_filter_block r \<noteq> None then do {
               p \<leftarrow> opt_filter_policy (tb_options r);
               Some (BlockBuilder_Add (opt_block_restart_interval (tb_options r)) (lit ''filter.'' @ fp_Name p)
                 (BlockHandle_EncodeTo filter_block_handle []) BlockBuilder_make) }
             else Some BlockBuilder_make);
          (handle, _, r) \<leftarrow> TableBuilder_WriteBlock W meta_index_block r;
          Some (handle, r) }
      else Some (BlockHandle_make, r))"

definition Finish_index_block :: "'f writable_file \<Rightarrow> 'f table_builder \<Rightarrow> (block_handle \<times> 'f table_builder) option" where
  "Finish_index_block W r =
     (if Status_ok (tb_status r) then
        let r = (if tb_pending_index_entry r then
                   let last_key = cmp_FindShortSuccessor (opt_comparator (tb_options r)) (tb_last_key r);
                       handle_encoding = BlockHandle_EncodeTo (tb_pending_handle r) []
                   in r\<lparr>tb_last_key := last_key,
                        tb_index_block := BlockBuilder_Add (opt_block_restart_interval (tb_index_block_options r))
                          last_key handle_encoding (tb_index_block r),
                        tb_pending_index_entry := False\<rparr>
                 else r)
        in do {
          (handle, block, r) \<leftarrow> TableBuilder_WriteBlock W (tb_index_block r) r;
          Some (handle, r\<lparr>tb_index_block := block\<rparr>) }
      else Some (BlockHandle_make, r))"

definition Finish_footer ::
  "'f writable_file \<Rightarrow> block_handle \<Rightarrow> block_handle \<Rightarrow> 'f table_builder \<Rightarrow> 'f table_builder option" where
  "Finish_footer W metaindex_block_handle index_block_handle r =
     (if Status_ok (tb_status r) then do {
        let footer_encoding = Footer_EncodeTo
          \<lparr>ft_metaindex_handle = metaindex_block_handle, ft_index_handle = index_block_handle\<rparr> [];
        (s, f) \<leftarrow> wf_Append W (tb_file r) footer_encoding;
        let r = r\<lparr>tb_file := f, tb_status := s\<rparr>;
        Some (if Status_ok s then r\<lparr>tb_offset := tb_offset r + word_of_nat (length footer_encoding)\<rparr> else r) }
      else Some r)"

definition TableBuilder_Finish :: "'f writable_file \<Rightarrow> 'f table_builder \<Rightarrow> (status \<times> 'f table_builder) option" where
  "TableBuilder_Finish W r = do {
     r \<leftarrow> TableBuilder_Flush W r;
     let r = r\<lparr>tb_closed := True\<rparr>;
     (filter_block_handle, r) \<leftarrow> Finish_filter_block W r;
     (metaindex_block_handle, r) \<leftarrow> Finish_metaindex_block W filter_block_handle r;
     (index_block_handle, r) \<leftarrow> Finish_index_block W r;
     r \<leftarrow> Finish_footer W metaindex_block_handle index_block_handle r;
     Some (tb_status r, r) }"

definition TableBuilder_Abandon :: "'f table_builder \<Rightarrow> 'f table_builder" where
  "TableBuilder_Abandon r = r\<lparr>tb_closed := True\<rparr>"

definition TableBuilder_NumEntries :: "'f table_builder \<Rightarrow> nat" where
  "TableBuilder_NumEntries r = tb_num_entries r"

definition TableBuilder_FileSize :: "'f table_builder \<Rightarrow> u64" where
  "TableBuilder_FileSize r = tb_offset r"

subsection \<open>The layout of a table file\<close>

text \<open>A data block: its entries, its bytes, and the key of its index entry.\<close>

type_synonym table_block = "(bytes \<times> bytes) list \<times> bytes \<times> bytes"

abbreviation blk_entries :: "table_block \<Rightarrow> (bytes \<times> bytes) list" where "blk_entries b \<equiv> fst b"
abbreviation blk_bytes :: "table_block \<Rightarrow> bytes" where "blk_bytes b \<equiv> fst (snd b)"
abbreviation blk_index_key :: "table_block \<Rightarrow> bytes" where "blk_index_key b \<equiv> snd (snd b)"

definition data_part :: "table_block list \<Rightarrow> bytes" where
  "data_part bs = concat (map (\<lambda>b. raw_block (blk_bytes b) kNoCompression) bs)"

definition handle_at :: "nat \<Rightarrow> bytes \<Rightarrow> block_handle" where
  "handle_at off data = \<lparr>bh_offset = word_of_nat off, bh_size = word_of_nat (length data)\<rparr>"

definition block_handle_of :: "table_block list \<Rightarrow> nat \<Rightarrow> block_handle" where
  "block_handle_of bs i = handle_at (length (data_part (take i bs))) (blk_bytes (bs ! i))"

definition index_entry :: "table_block list \<Rightarrow> nat \<Rightarrow> bytes \<times> bytes" where
  "index_entry bs i = (blk_index_key (bs ! i), BlockHandle_EncodeTo (block_handle_of bs i) [])"

definition index_entries :: "table_block list \<Rightarrow> (bytes \<times> bytes) list" where
  "index_entries bs = map (index_entry bs) [0..<length bs]"

definition built_from :: "bytes \<Rightarrow> (bytes \<times> bytes) list \<Rightarrow> bool" where
  "built_from data es \<longleftrightarrow> (\<exists>ls rs. data = block_bytes ls rs \<and> placed_ok ls rs \<and> map snd ls = es)"

definition all_entries :: "table_block list \<Rightarrow> (bytes \<times> bytes) list" where
  "all_entries bs = concat (map blk_entries bs)"

text \<open>Every index key lies between its block and the next, and is the shortest separator of the two.\<close>

definition shortest_key :: "comparator \<Rightarrow> table_block list \<Rightarrow> nat \<Rightarrow> (bytes \<times> bytes) list \<Rightarrow> bool" where
  "shortest_key c bs i later \<longleftrightarrow> (all_entries (drop (Suc i) bs) @ later \<noteq> [] \<longrightarrow> blk_index_key (bs ! i) =
     cmp_FindShortestSeparator c (fst (last (blk_entries (bs ! i)))) (fst (hd (all_entries (drop (Suc i) bs) @ later))))"

lemma shortest_key_grow:
  "shortest_key c bs i later \<Longrightarrow> later \<noteq> [] \<Longrightarrow> shortest_key c bs i (later @ xs)"
  by (cases "all_entries (drop (Suc i) bs)") (simp_all add: shortest_key_def)

lemma shortest_key_seal:
  "shortest_key c bs i es \<Longrightarrow> es \<noteq> [] \<Longrightarrow> i < length bs \<Longrightarrow> shortest_key c (bs @ [(es, d, sep)]) i later"
  by (simp add: shortest_key_def nth_append all_entries_def hd_append)

definition index_separates :: "comparator \<Rightarrow> table_block list \<Rightarrow> nat \<Rightarrow> (bytes \<times> bytes) list \<Rightarrow> bool" where
  "index_separates c bs i later \<longleftrightarrow>
     (\<forall>e \<in> set (all_entries (take (Suc i) bs)). cmp_Compare c (fst e) (blk_index_key (bs ! i)) \<le> 0) \<and>
     (\<forall>e \<in> set (all_entries (drop (Suc i) bs) @ later). cmp_Compare c (blk_index_key (bs ! i)) (fst e) < 0) \<and> shortest_key c bs i later"

definition filter_slot :: "table_block list \<Rightarrow> nat \<Rightarrow> nat" where
  "filter_slot bs i = length (data_part (take i bs)) div kFilterBase"

definition filter_knows :: "bytes list list \<Rightarrow> table_block list \<Rightarrow> bool" where
  "filter_knows fs bs \<longleftrightarrow> (\<forall>i < length bs. \<forall>e \<in> set (blk_entries (bs ! i)).
     filter_slot bs i < length fs \<and> fst e \<in> set (fs ! filter_slot bs i))"

definition filter_part :: "table_options \<Rightarrow> bytes list list \<Rightarrow> bytes" where
  "filter_part opts fs = (case opt_filter_policy opts of None \<Rightarrow> []
     | Some p \<Rightarrow> raw_block (filter_block_bytes p fs) kNoCompression)"

definition meta_entries :: "table_options \<Rightarrow> table_block list \<Rightarrow> bytes list list \<Rightarrow> (bytes \<times> bytes) list" where
  "meta_entries opts bs fs = (case opt_filter_policy opts of None \<Rightarrow> []
     | Some p \<Rightarrow> [(lit ''filter.'' @ fp_Name p,
         BlockHandle_EncodeTo (handle_at (length (data_part bs)) (filter_block_bytes p fs)) [])])"

definition table_layout :: "table_options \<Rightarrow> bytes \<Rightarrow> table_block list \<Rightarrow> bytes list list \<Rightarrow> bytes \<Rightarrow> bytes \<Rightarrow> bool" where
  "table_layout opts content bs fs meta index \<longleftrightarrow>
     (let off = length (data_part bs @ filter_part opts fs) in
      content = data_part bs @ filter_part opts fs @ raw_block meta kNoCompression @ raw_block index kNoCompression @
        Footer_EncodeTo \<lparr>ft_metaindex_handle = handle_at off meta,
          ft_index_handle = handle_at (off + length (raw_block meta kNoCompression)) index\<rparr> []) \<and>
     built_from meta (meta_entries opts bs fs) \<and> built_from index (index_entries bs) \<and>
     (\<forall>b \<in> set bs. built_from (blk_bytes b) (blk_entries b) \<and> blk_entries b \<noteq> []) \<and>
     (opt_filter_policy opts \<noteq> None \<longrightarrow> filter_knows fs bs)"

lemma data_part_simps [simp]:
  "data_part [] = []" "data_part (bs @ [b]) = data_part bs @ raw_block (blk_bytes b) kNoCompression"
  by (simp_all add: data_part_def)

lemma all_entries_simps [simp]:
  "all_entries [] = []" "all_entries (b # bs) = blk_entries b @ all_entries bs" "all_entries (bs @ bs') = all_entries bs @ all_entries bs'"
  by (simp_all add: all_entries_def)

lemma index_entry_append: "i < length bs \<Longrightarrow> index_entry (bs @ bs') i = index_entry bs i"
  by (simp add: index_entry_def block_handle_of_def nth_append)

lemma builder_inv_built:
  "builder_inv interval b ls rs \<Longrightarrow> built_from (fst (BlockBuilder_Finish b)) (map snd ls)"
  unfolding built_from_def
  by (intro exI [of _ ls] exI [of _ rs])
     (simp add: BlockBuilder_Finish_def Let_def builder_inv_def block_bytes_def foldl_PutFixed32 PutFixed32_def o_def)

definition holds_entries :: "nat \<Rightarrow> block_builder \<Rightarrow> (bytes \<times> bytes) list \<Rightarrow> bool" where
  "holds_entries interval b es \<longleftrightarrow> (\<exists>ls rs. builder_inv interval b ls rs \<and> map snd ls = es)"

lemma holds_entries_make [simp]: "holds_entries interval BlockBuilder_make []"
  using BlockBuilder_make_inv by (force simp: holds_entries_def)

lemma holds_entries_Add: "holds_entries interval b es \<Longrightarrow> 0 < interval \<Longrightarrow> holds_entries interval (BlockBuilder_Add interval k v b) (es @ [(k, v)])"
  using BlockBuilder_Add_inv by (fastforce simp: holds_entries_def)

lemma holds_entries_built: "holds_entries interval b es \<Longrightarrow> built_from (fst (BlockBuilder_Finish b)) es"
  using builder_inv_built by (auto simp: holds_entries_def)

lemma holds_entries_empty: "holds_entries interval b es \<Longrightarrow> BlockBuilder_empty b \<longleftrightarrow> es = []"
proof -
  assume "holds_entries interval b es"
  then obtain ls where "bb_buffer b = enc_entries ls" "map snd ls = es" by (auto simp: holds_entries_def builder_inv_def)
  moreover have "enc_entries ls = [] \<longleftrightarrow> ls = []" using length_enc_entry [of "hd ls"] by (cases ls) auto
  ultimately show ?thesis by (auto simp: BlockBuilder_empty_def)
qed

subsection \<open>Writing blocks\<close>

context writable_file_contract
begin

lemma WriteRawBlock_returns:
  assumes "valid (tb_file r)"
  shows "\<exists>f s off. TableBuilder_WriteRawBlock W data type r =
      Some (\<lparr>bh_offset = tb_offset r, bh_size = word_of_nat (length data)\<rparr>, r\<lparr>tb_file := f, tb_status := s, tb_offset := off\<rparr>) \<and>
    valid f \<and> (Status_ok s \<longrightarrow> written f = written (tb_file r) @ raw_block data type \<and>
      off = tb_offset r + word_of_nat (length (raw_block data type)))"
proof -
  obtain s1 f1 where a1: "wf_Append W (tb_file r) data = Some (s1, f1)" "valid f1"
    "Status_ok s1 \<longrightarrow> written f1 = written (tb_file r) @ data" using append_returns [OF assms] by blast
  show ?thesis
  proof (cases "Status_ok s1")
    case False
    then show ?thesis using a1
      by (intro exI [of _ f1] exI [of _ s1] exI [of _ "tb_offset r"]) (simp add: TableBuilder_WriteRawBlock_def Let_def)
  next
    case True
    let ?t = "[type] @ EncodeFixed32 (Mask (Extend (Value data) [type]))"
    obtain s2 f2 where a2: "wf_Append W f1 ?t = Some (s2, f2)" "valid f2"
      "Status_ok s2 \<longrightarrow> written f2 = written f1 @ ?t" using append_returns [OF a1(2)] by blast
    have "raw_block data type = data @ ?t" by (simp add: raw_block_def Value_Extend)
    with True a1 a2 show ?thesis
      by (intro exI [of _ f2] exI [of _ s2] exI [of _ "if Status_ok s2 then tb_offset r + word_of_nat (length (raw_block data type)) else tb_offset r"])
         (simp add: TableBuilder_WriteRawBlock_def Let_def kBlockTrailerSize_def)
  qed
qed

lemma WriteBlock_returns:
  assumes "valid (tb_file r)"
  shows "\<exists>f s off. TableBuilder_WriteBlock W block r =
      Some (\<lparr>bh_offset = tb_offset r, bh_size = word_of_nat (length (fst (BlockBuilder_Finish block)))\<rparr>, BlockBuilder_make,
        r\<lparr>tb_file := f, tb_status := s, tb_offset := off\<rparr>) \<and>
    valid f \<and> (Status_ok s \<longrightarrow> written f = written (tb_file r) @ raw_block (fst (BlockBuilder_Finish block)) kNoCompression \<and>
      off = tb_offset r + word_of_nat (length (raw_block (fst (BlockBuilder_Finish block)) kNoCompression)))"
proof -
  let ?raw = "fst (BlockBuilder_Finish block)"
  have "TableBuilder_WriteBlock W block r = do {
      (handle, r) \<leftarrow> TableBuilder_WriteRawBlock W ?raw kNoCompression r; Some (handle, BlockBuilder_make, r) }"
    by (cases "opt_compression (tb_options r)")
       (simp_all add: TableBuilder_WriteBlock_def Let_def BlockBuilder_Reset_make Snappy_Compress_def split: prod.splits)
  moreover obtain f s off where "TableBuilder_WriteRawBlock W ?raw kNoCompression r =
      Some (\<lparr>bh_offset = tb_offset r, bh_size = word_of_nat (length ?raw)\<rparr>, r\<lparr>tb_file := f, tb_status := s, tb_offset := off\<rparr>)"
    "valid f" "Status_ok s \<longrightarrow> written f = written (tb_file r) @ raw_block ?raw kNoCompression \<and>
      off = tb_offset r + word_of_nat (length (raw_block ?raw kNoCompression))"
    using WriteRawBlock_returns [OF assms] by blast
  ultimately show ?thesis by (intro exI [of _ f] exI [of _ s] exI [of _ off]) simp
qed

end

text \<open>Building a table from a list of entries.\<close>

primrec add_entries :: "'f writable_file \<Rightarrow> (bytes \<times> bytes) list \<Rightarrow> 'f table_builder \<Rightarrow> 'f table_builder option" where
  "add_entries W [] r = Some r"
| "add_entries W (e # es) r = TableBuilder_Add W (fst e) (snd e) r \<bind> add_entries W es"

definition build_table ::
  "'f writable_file \<Rightarrow> table_options \<Rightarrow> 'f \<Rightarrow> (bytes \<times> bytes) list \<Rightarrow> (status \<times> 'f table_builder) option" where
  "build_table W opts f es = add_entries W es (TableBuilder_make opts f) \<bind> TableBuilder_Finish W"

subsection \<open>The invariant of a builder\<close>

text \<open>The filter builder has been given the keys of every block at the block's offset.\<close>

definition filter_state ::
  "table_options \<Rightarrow> table_block list \<Rightarrow> (bytes \<times> bytes) list \<Rightarrow> filter_block_builder option \<Rightarrow> bool" where
  "filter_state opts bs cur fb \<longleftrightarrow> (case opt_filter_policy opts of None \<Rightarrow> fb = None
     | Some p \<Rightarrow> \<exists>b. fb = Some b \<and> (length (data_part bs) < 2 ^ 64 \<longrightarrow> (\<exists>fs fcur. filter_inv p b fs fcur \<and>
         length fs = filter_slot bs (length bs) \<and> held fs fcur (length fs) (map fst cur) \<and>
         (\<forall>i < length bs. held fs fcur (filter_slot bs i) (map fst (blk_entries (bs ! i)))))))"

lemma filter_slot_append [simp]: "i \<le> length bs \<Longrightarrow> filter_slot (bs @ bs') i = filter_slot bs i"
  by (simp add: filter_slot_def)

lemma filter_slot_all: "filter_slot bs (length bs) = length (data_part bs) div kFilterBase"
  by (simp add: filter_slot_def)

lemma filter_state_make:
  "filter_state opts [] [] (map_option (\<lambda>p. FilterBlockBuilder_StartBlock 0 (FilterBlockBuilder_make p)) (opt_filter_policy opts))"
proof (cases "opt_filter_policy opts")
  case (Some p)
  have "FilterBlockBuilder_StartBlock 0 b = b" for b
    by (simp add: FilterBlockBuilder_StartBlock_def generate_until.simps)
  with Some FilterBlockBuilder_make_inv [of p] show ?thesis
    by (auto simp: filter_state_def filter_slot_def held_def intro!: exI [of _ "[]"])
qed (simp add: filter_state_def)

lemma filter_state_Add:
  assumes "filter_state opts bs cur fb"
  shows "filter_state opts bs (cur @ [(k, v)]) (map_option (FilterBlockBuilder_AddKey k) fb)"
proof (cases "opt_filter_policy opts")
  case None
  with assms show ?thesis by (simp add: filter_state_def)
next
  case (Some p)
  from assms Some obtain b where b: "fb = Some b" and inv: "length (data_part bs) < 2 ^ 64 \<Longrightarrow> \<exists>fs fcur. filter_inv p b fs fcur \<and>
      length fs = filter_slot bs (length bs) \<and> held fs fcur (length fs) (map fst cur) \<and>
      (\<forall>i < length bs. held fs fcur (filter_slot bs i) (map fst (blk_entries (bs ! i))))"
    by (auto simp: filter_state_def)
  have "\<exists>fs fcur. filter_inv p (FilterBlockBuilder_AddKey k b) fs fcur \<and>
      length fs = filter_slot bs (length bs) \<and> held fs fcur (length fs) (map fst (cur @ [(k, v)])) \<and>
      (\<forall>i < length bs. held fs fcur (filter_slot bs i) (map fst (blk_entries (bs ! i))))" if "length (data_part bs) < 2 ^ 64"
  proof -
    obtain fs fcur where f: "filter_inv p b fs fcur" "length fs = filter_slot bs (length bs)" "held fs fcur (length fs) (map fst cur)"
      "\<forall>i < length bs. held fs fcur (filter_slot bs i) (map fst (blk_entries (bs ! i)))" using inv \<open>length (data_part bs) < 2 ^ 64\<close> by blast
    have "held fs fcur i ks \<Longrightarrow> held fs (fcur @ [k]) i ks" for i ks by (auto simp: held_def nth_append split: if_splits)
    moreover have "held fs (fcur @ [k]) (length fs) (map fst (cur @ [(k, v)]))" using f(3) by (auto simp: held_def)
    ultimately show ?thesis using f AddKey_inv [OF f(1), of k] by (intro exI [of _ fs] exI [of _ "fcur @ [k]"]) blast
  qed
  with b Some show ?thesis by (simp add: filter_state_def)
qed

lemma filter_state_Start:
  assumes "filter_state opts bs (blk_entries b) fb"
  shows "filter_state opts (bs @ [b]) [] (map_option (FilterBlockBuilder_StartBlock (word_of_nat (length (data_part (bs @ [b]))))) fb)"
proof (cases "opt_filter_policy opts")
  case None
  with assms show ?thesis by (simp add: filter_state_def)
next
  case (Some p)
  let ?n = "length (data_part (bs @ [b]))"
  from assms Some obtain f where f: "fb = Some f" and inv: "length (data_part bs) < 2 ^ 64 \<Longrightarrow> \<exists>fs fcur. filter_inv p f fs fcur \<and>
      length fs = filter_slot bs (length bs) \<and> held fs fcur (length fs) (map fst (blk_entries b)) \<and>
      (\<forall>i < length bs. held fs fcur (filter_slot bs i) (map fst (blk_entries (bs ! i))))"
    by (auto simp: filter_state_def)
  have "\<exists>fs fcur. filter_inv p (FilterBlockBuilder_StartBlock (word_of_nat ?n) f) fs fcur \<and>
      length fs = filter_slot (bs @ [b]) (length (bs @ [b])) \<and> held fs fcur (length fs) [] \<and>
      (\<forall>i < length (bs @ [b]). held fs fcur (filter_slot (bs @ [b]) i) (map fst (blk_entries ((bs @ [b]) ! i))))" if n: "?n < 2 ^ 64"
  proof -
    have "length (data_part bs) < 2 ^ 64" using n by simp
    then obtain fs fcur where 0: "filter_inv p f fs fcur" "length fs = filter_slot bs (length bs)"
      "held fs fcur (length fs) (map fst (blk_entries b))"
      "\<forall>i < length bs. held fs fcur (filter_slot bs i) (map fst (blk_entries (bs ! i)))" using inv by blast
    have u: "unat (word_of_nat ?n :: u64) = ?n" using n by (intro unat_of_nat_small) simp
    then have "length fs \<le> filter_index (word_of_nat ?n)" unfolding u 0(2) filter_slot_all by (intro div_le_mono) simp
    from StartBlock_held [OF 0(1) this] obtain fs' fcur' where 1:
      "filter_inv p (FilterBlockBuilder_StartBlock (word_of_nat ?n) f) fs' fcur'" "length fs' = filter_index (word_of_nat ?n)"
      "\<forall>i ks. held fs fcur i ks \<longrightarrow> held fs' fcur' i ks" by blast
    have "length fs' = filter_slot (bs @ [b]) (length (bs @ [b]))" unfolding 1(2) u filter_slot_all ..
    moreover have "held fs' fcur' (filter_slot (bs @ [b]) i) (map fst (blk_entries ((bs @ [b]) ! i)))" if "i < length (bs @ [b])" for i
      using that 0 1(3) by (cases "i = length bs") (auto simp: nth_append)
    ultimately show ?thesis using 1(1) by (intro exI [of _ fs'] exI [of _ fcur']) (auto simp: held_def)
  qed
  with f Some show ?thesis by (simp add: filter_state_def)
qed

lemma data_part_rekey: "data_part (bs @ [(es, d, k)]) = data_part (bs @ [(es, d, k')])"
  by simp

lemma filter_state_rekey: "filter_state opts (bs @ [(es, d, k)]) cur fb \<longleftrightarrow> filter_state opts (bs @ [(es, d, k')]) cur fb"
proof -
  have "filter_slot (bs @ [(es, d, k)]) i = filter_slot (bs @ [(es, d, k')]) i" for i
    by (cases "i \<le> length bs") (simp_all add: filter_slot_def)
  moreover have "blk_entries ((bs @ [(es, d, k)]) ! i) = blk_entries ((bs @ [(es, d, k')]) ! i)" for i
    by (simp add: nth_append nth_Cons')
  ultimately show ?thesis by (simp add: filter_state_def cong: option.case_cong)
qed

text \<open>Blocks that differ in their index keys only.\<close>

definition same_blocks :: "table_block list \<Rightarrow> table_block list \<Rightarrow> bool" where
  "same_blocks bs bs' \<longleftrightarrow> map blk_entries bs = map blk_entries bs' \<and> map blk_bytes bs = map blk_bytes bs'"

lemma same_blocks_fields:
  assumes "same_blocks bs bs'"
  shows "map blk_entries bs = map blk_entries bs'" "map blk_bytes bs = map blk_bytes bs'" "length bs = length bs'"
  using assms by (auto simp: same_blocks_def dest: map_eq_imp_length_eq)

lemma same_blocks_all:
  assumes "same_blocks bs bs'" "\<forall>b \<in> set bs'. P (blk_bytes b) (blk_entries b)"
  shows "\<forall>b \<in> set bs. P (blk_bytes b) (blk_entries b)"
proof -
  note same = same_blocks_fields [OF assms(1)]
  have "P (blk_bytes (bs ! i)) (blk_entries (bs ! i))" if "i < length bs" for i
  proof -
    have "map blk_bytes bs ! i = map blk_bytes bs' ! i" "map blk_entries bs ! i = map blk_entries bs' ! i" by (simp_all only: same)
    then show ?thesis using assms(2) that same(3) by simp
  qed
  then show ?thesis by (metis in_set_conv_nth)
qed

lemma same_blocks_data:
  assumes "same_blocks bs bs'"
  shows "data_part (take i bs) = data_part (take i bs')"
proof -
  have data: "data_part xs = concat (map (\<lambda>d. raw_block d kNoCompression) (map blk_bytes xs))" for xs
    by (simp add: data_part_def o_def)
  from assms have "map blk_bytes (take i bs) = map blk_bytes (take i bs')"
    by (simp only: same_blocks_def take_map [symmetric])
  then show ?thesis by (simp only: data)
qed

lemma same_blocks_entries: "same_blocks bs bs' \<Longrightarrow> all_entries bs = all_entries bs'"
  by (simp only: same_blocks_def all_entries_def)

lemma same_blocks_filter:
  assumes "same_blocks bs bs'"
  shows "filter_knows fs bs \<longleftrightarrow> filter_knows fs bs'"
proof -
  have "length bs = length bs'" using assms by (auto simp: same_blocks_def dest: map_eq_imp_length_eq)
  moreover have "filter_slot bs i = filter_slot bs' i" for i by (simp only: filter_slot_def same_blocks_data [OF assms])
  moreover have "blk_entries (bs ! i) = blk_entries (bs' ! i)" if "i < length bs" for i
  proof -
    have "map blk_entries bs ! i = map blk_entries bs' ! i" using assms by (simp only: same_blocks_def)
    then show ?thesis using that \<open>length bs = length bs'\<close> by simp
  qed
  ultimately show ?thesis by (simp add: filter_knows_def)
qed

lemma filter_state_Finish:
  assumes "filter_state opts bs cur fb" "opt_filter_policy opts = Some p" "length (data_part bs) < 2 ^ 64" "cur = []"
    and "\<forall>b \<in> set bs. blk_entries b \<noteq> []"
  shows "\<exists>b fs. fb = Some b \<and> fst (FilterBlockBuilder_Finish b) = filter_block_bytes p fs \<and> filter_knows fs bs"
proof -
  obtain b fs fcur where b: "fb = Some b" and f: "filter_inv p b fs fcur"
    "\<forall>i < length bs. held fs fcur (filter_slot bs i) (map fst (blk_entries (bs ! i)))"
    using assms(1-3) by (auto simp: filter_state_def)
  let ?fs = "if fcur = [] then fs else fs @ [fcur]"
  have "filter_slot bs i < length ?fs \<and> fst e \<in> set (?fs ! filter_slot bs i)" if "i < length bs" "e \<in> set (blk_entries (bs ! i))" for i e
  proof -
    have "fst e \<in> set (map fst (blk_entries (bs ! i)))" using that by simp
    then have "filter_slot bs i \<le> length fs" "fst e \<in> set ((fs @ [fcur]) ! filter_slot bs i)"
      using f(2) that unfolding held_def by blast+
    then show ?thesis by (auto simp: nth_append split: if_splits)
  qed
  then show ?thesis using b FilterBlockBuilder_Finish_bytes [OF f(1)] by (auto simp: filter_knows_def)
qed

text \<open>The index block: an entry for every sealed block, whose key separates it from what comes later.\<close>

definition index_ok :: "comparator \<Rightarrow> (bytes \<Rightarrow> bool) \<Rightarrow> table_block list \<Rightarrow> (bytes \<times> bytes) list \<Rightarrow> block_builder \<Rightarrow> bool" where
  "index_ok c keys sealed later ib \<longleftrightarrow> holds_entries 1 ib (index_entries sealed) \<and>
     (\<forall>i < length sealed. keys (blk_index_key (sealed ! i)) \<and> index_separates c sealed i later)"

lemma index_entries_append [simp]: "index_entries (bs @ [b]) = index_entries bs @ [index_entry (bs @ [b]) (length bs)]"
  by (auto simp: index_entries_def index_entry_append)

text \<open>
  \<open>sealed\<close> are the blocks with an index entry, \<open>pend\<close> is the written block whose index entry is
  pending, if there is one, and \<open>cur\<close> are the entries of the open data block.
\<close>

definition builder_ok :: "('f \<Rightarrow> bool) \<Rightarrow> ('f \<Rightarrow> bytes) \<Rightarrow> (bytes \<Rightarrow> bool) \<Rightarrow> table_options \<Rightarrow>
    table_block list \<Rightarrow> table_block list \<Rightarrow> (bytes \<times> bytes) list \<Rightarrow> 'f table_builder \<Rightarrow> bool" where
  "builder_ok valid written keys opts sealed pend cur r \<longleftrightarrow>
     tb_options r = opts \<and> opt_block_restart_interval (tb_index_block_options r) = 1 \<and>
     valid (tb_file r) \<and> written (tb_file r) = data_part (sealed @ pend) \<and>
     tb_offset r = word_of_nat (length (data_part (sealed @ pend))) \<and>
     holds_entries (opt_block_restart_interval opts) (tb_data_block r) cur \<and>
     index_ok (opt_comparator opts) keys sealed (all_entries pend @ cur) (tb_index_block r) \<and>
     (tb_pending_index_entry r \<longleftrightarrow> pend \<noteq> []) \<and> length pend \<le> 1 \<and>
     (pend \<noteq> [] \<longrightarrow> cur = [] \<and> tb_pending_handle r = block_handle_of (sealed @ pend) (length sealed)) \<and>
     (sealed \<noteq> [] \<longrightarrow> all_entries pend @ cur \<noteq> []) \<and>
     (all_entries pend @ cur \<noteq> [] \<longrightarrow> tb_last_key r = fst (last (all_entries pend @ cur))) \<and>
     (\<forall>b \<in> set (sealed @ pend). built_from (blk_bytes b) (blk_entries b) \<and> blk_entries b \<noteq> []) \<and>
     filter_state opts (sealed @ pend) cur (tb_filter_block r)"

lemma builder_ok_make:
  "valid f \<Longrightarrow> written f = [] \<Longrightarrow> builder_ok valid written keys opts [] [] [] (TableBuilder_make opts f)"
  by (simp add: builder_ok_def TableBuilder_make_def filter_state_make index_ok_def index_entries_def)

locale table_building = writable_file_contract W valid written flushed + comparator_contract c keys
  for W :: "'f writable_file" and valid written flushed and c keys
begin

lemma index_ok_grow:
  assumes "index_ok c keys sealed later ib" "later \<noteq> [] \<or> sealed = []"
    and "\<forall>e \<in> set later. keys (fst e) \<and> cmp_Compare c (fst e) k < 0" "keys k"
  shows "index_ok c keys sealed (later @ [(k, v)]) ib"
proof -
  have "cmp_Compare c (blk_index_key (sealed ! i)) k < 0" if i: "i < length sealed" for i
  proof -
    obtain e where e: "e \<in> set later" using assms(2) i by (cases later) auto
    then have "cmp_Compare c (blk_index_key (sealed ! i)) (fst e) < 0" "keys (blk_index_key (sealed ! i))"
      using assms(1) i by (auto simp: index_ok_def index_separates_def)
    with e assms(3,4) show ?thesis using compare_less_trans by blast
  qed
  moreover have "index_separates c sealed i (later @ [(k, v)])"
    if i: "i < length sealed" and old: "index_separates c sealed i later" and less: "cmp_Compare c (blk_index_key (sealed ! i)) k < 0" for i
  proof -
    have "shortest_key c sealed i (later @ [(k, v)])"
      by (rule shortest_key_grow) (use old assms(2) i in \<open>auto simp: index_separates_def\<close>)
    with old less show ?thesis unfolding index_separates_def by auto
  qed
  ultimately show ?thesis using assms(1) unfolding index_ok_def by blast
qed

lemma index_ok_seal:
  assumes "index_ok c keys sealed es ib" "es \<noteq> []" "keys sep"
    and es: "\<forall>e \<in> set (all_entries sealed @ es). keys (fst e) \<and> cmp_Compare c (fst e) sep \<le> 0"
    and later: "\<forall>e \<in> set later. keys (fst e) \<and> cmp_Compare c sep (fst e) < 0"
    and short: "later \<noteq> [] \<Longrightarrow> sep = cmp_FindShortestSeparator c (fst (last es)) (fst (hd later))"
  shows "index_ok c keys (sealed @ [(es, d, sep)]) later
    (BlockBuilder_Add 1 sep (BlockHandle_EncodeTo (block_handle_of (sealed @ [(es, d, k')]) (length sealed)) []) ib)"
proof -
  let ?bs = "sealed @ [(es, d, sep)]"
  have "index_entry ?bs (length sealed) = (sep, BlockHandle_EncodeTo (block_handle_of (sealed @ [(es, d, k')]) (length sealed)) [])"
    by (simp add: index_entry_def block_handle_of_def)
  then have "holds_entries 1 (BlockBuilder_Add 1 sep (BlockHandle_EncodeTo (block_handle_of (sealed @ [(es, d, k')]) (length sealed)) []) ib)
      (index_entries ?bs)"
    using assms(1) holds_entries_Add [of 1 ib "index_entries sealed"] by (simp add: index_ok_def)
  moreover have "keys (blk_index_key (?bs ! i)) \<and> index_separates c ?bs i later" if i: "i < length ?bs" for i
  proof (cases "i = length sealed")
    case True
    with assms show ?thesis by (simp add: index_separates_def shortest_key_def)
  next
    case False
    then have i: "i < length sealed" using i by simp
    then have s: "keys (blk_index_key (sealed ! i))" "index_separates c sealed i es" using assms(1) by (auto simp: index_ok_def)
    obtain e where e: "e \<in> set es" using assms(2) by (cases es) auto
    have "cmp_Compare c (blk_index_key (sealed ! i)) (fst l) < 0" if "l \<in> set later" for l
    proof -
      have "cmp_Compare c (blk_index_key (sealed ! i)) (fst e) < 0" using s e by (auto simp: index_separates_def)
      moreover have "keys (fst e)" "cmp_Compare c (fst e) sep \<le> 0" using es e by auto
      ultimately have "cmp_Compare c (blk_index_key (sealed ! i)) sep < 0"
        using compare_less_le_trans s(1) assms(3) by blast
      then show ?thesis using compare_less_trans s(1) assms(3) later that by blast
    qed
    moreover have "shortest_key c ?bs i later" by (rule shortest_key_seal) (use s i assms(2) in \<open>auto simp: index_separates_def\<close>)
    ultimately show ?thesis using i s by (auto simp: index_separates_def nth_append)
  qed
  ultimately show ?thesis by (simp add: index_ok_def)
qed

lemma Flush_ok:
  assumes "builder_ok valid written keys opts sealed pend cur r" "Status_ok (tb_status r)"
  shows "\<exists>r'. TableBuilder_Flush W r = Some r' \<and> (Status_ok (tb_status r') \<longrightarrow> (\<exists>pend'.
      builder_ok valid written keys opts sealed pend' [] r' \<and> all_entries pend' = all_entries pend @ cur))"
proof (cases "cur = []")
  case True
  then show ?thesis using assms holds_entries_empty
    by (intro exI [of _ r]) (auto simp: TableBuilder_Flush_def builder_ok_def)
next
  case False
  then have pend: "pend = []" using assms(1) by (auto simp: builder_ok_def)
  note ok = assms(1) [unfolded builder_ok_def pend, simplified]
  let ?raw = "fst (BlockBuilder_Finish (tb_data_block r))"
  let ?b = "(cur, ?raw, []) :: table_block"
  have ne: "\<not> BlockBuilder_empty (tb_data_block r)" using ok holds_entries_empty False by blast
  obtain f s off where w: "TableBuilder_WriteBlock W (tb_data_block r) r =
      Some (\<lparr>bh_offset = tb_offset r, bh_size = word_of_nat (length ?raw)\<rparr>, BlockBuilder_make, r\<lparr>tb_file := f, tb_status := s, tb_offset := off\<rparr>)"
    "valid f" "Status_ok s \<longrightarrow> written f = written (tb_file r) @ raw_block ?raw kNoCompression \<and>
      off = tb_offset r + word_of_nat (length (raw_block ?raw kNoCompression))"
    using WriteBlock_returns [of r "tb_data_block r"] ok by blast
  show ?thesis
  proof (cases "Status_ok s")
    case False
    with ne w assms(2) show ?thesis by (simp add: TableBuilder_Flush_def)
  next
    case True
    obtain s2 f2 where f2: "wf_Flush W f = Some (s2, f2)" "valid f2" "Status_ok s2 \<longrightarrow> written f2 = written f"
      using flush_returns [OF w(2)] by blast
    let ?h = "\<lparr>bh_offset = tb_offset r, bh_size = word_of_nat (length ?raw)\<rparr>"
    let ?r = "r\<lparr>tb_file := f2, tb_status := s2, tb_offset := off, tb_data_block := BlockBuilder_make, tb_pending_handle := ?h,
      tb_pending_index_entry := True, tb_filter_block := map_option (FilterBlockBuilder_StartBlock off) (tb_filter_block r)\<rparr>"
    have eval: "TableBuilder_Flush W r = Some ?r"
      using ne w(1) f2(1) assms(2) True by (simp add: TableBuilder_Flush_def)
    have off: "off = word_of_nat (length (data_part (sealed @ [?b])))" using w(3) True ok by simp
    have "builder_ok valid written keys opts sealed [?b] [] ?r" if "Status_ok s2"
    proof -
      have 1: "written f2 = data_part (sealed @ [?b])" using that f2(3) w(3) True ok by simp
      have 2: "filter_state opts (sealed @ [?b]) [] (map_option (FilterBlockBuilder_StartBlock off) (tb_filter_block r))"
        unfolding off by (rule filter_state_Start) (use ok in simp)
      have 3: "built_from ?raw cur" using ok holds_entries_built by blast
      have 4: "?h = block_handle_of (sealed @ [?b]) (length sealed)"
        using ok by (simp add: block_handle_of_def handle_at_def)
      show ?thesis using ok 1 2 3 4 f2(2) off \<open>cur \<noteq> []\<close> by (simp add: builder_ok_def)
    qed
    then show ?thesis unfolding eval by (intro exI [of _ ?r]) (auto simp: pend intro!: exI [of _ "[?b]"])
  qed
qed

lemma sorted_last_le:
  assumes "sorted_wrt (\<lambda>a b. cmp_Compare c (fst a) (fst b) < 0) (xs @ ys)" "ys \<noteq> []" "\<forall>e \<in> set (xs @ ys). keys (fst e)"
    and "e \<in> set (xs @ ys)"
  shows "cmp_Compare c (fst e) (fst (last ys)) \<le> 0"
proof -
  obtain zs z where ys: "ys = zs @ [z]" using assms(2) by (cases ys rule: rev_cases) auto
  show ?thesis using assms compare_refl by (auto simp: ys sorted_wrt_append order_less_imp_le)
qed

lemma Add_ok:
  assumes "builder_ok valid written keys opts sealed pend cur r" "Status_ok (tb_status r)"
    and opts: "opt_comparator opts = c" "0 < opt_block_restart_interval opts"
    and sorted: "sorted_wrt (\<lambda>a b. cmp_Compare c (fst a) (fst b) < 0) (all_entries (sealed @ pend) @ cur)"
    and entries: "\<forall>e \<in> set (all_entries (sealed @ pend) @ cur). keys (fst e) \<and> cmp_Compare c (fst e) k < 0" and k: "keys k"
  shows "\<exists>r'. TableBuilder_Add W k v r = Some r' \<and> (Status_ok (tb_status r') \<longrightarrow> (\<exists>sealed' pend' cur'.
      builder_ok valid written keys opts sealed' pend' cur' r' \<and>
      all_entries (sealed' @ pend') @ cur' = all_entries (sealed @ pend) @ cur @ [(k, v)]))"
proof -
  note ok = assms(1) [unfolded builder_ok_def opts(1)]
  define sep where "sep = cmp_FindShortestSeparator c (tb_last_key r) k"
  define r1 where "r1 = (if tb_pending_index_entry r then r\<lparr>tb_last_key := sep,
    tb_index_block := BlockBuilder_Add 1 sep (BlockHandle_EncodeTo (tb_pending_handle r) []) (tb_index_block r),
    tb_pending_index_entry := False\<rparr> else r)"
  define r2 where "r2 = r1\<lparr>tb_filter_block := map_option (FilterBlockBuilder_AddKey k) (tb_filter_block r1),
    tb_last_key := k, tb_num_entries := tb_num_entries r1 + 1,
    tb_data_block := BlockBuilder_Add (opt_block_restart_interval opts) k v (tb_data_block r1)\<rparr>"
  have eval: "TableBuilder_Add W k v r =
      (if opt_block_size opts \<le> BlockBuilder_CurrentSizeEstimate (tb_data_block r2) then TableBuilder_Flush W r2 else Some r2)"
    using ok assms(2) opts(1) by (simp add: TableBuilder_Add_def Let_def r2_def r1_def sep_def)
  have "\<exists>sealed'. builder_ok valid written keys opts sealed' [] (cur @ [(k, v)]) r2 \<and>
      all_entries sealed' = all_entries (sealed @ pend)"
  proof (cases pend)
    case Nil
    have "\<forall>e \<in> set cur. keys (fst e) \<and> cmp_Compare c (fst e) k < 0" using entries by simp
    moreover have "index_ok c keys sealed (all_entries pend @ cur) (tb_index_block r)" "sealed \<noteq> [] \<longrightarrow> all_entries pend @ cur \<noteq> []"
      using ok by blast+
    ultimately have "index_ok c keys sealed (cur @ [(k, v)]) (tb_index_block r)"
      using index_ok_grow [OF _ _ _ k, of sealed cur "tb_index_block r" v] unfolding Nil by (simp only: all_entries_simps append_Nil) blast
    moreover have "filter_state opts sealed (cur @ [(k, v)]) (map_option (FilterBlockBuilder_AddKey k) (tb_filter_block r))"
      by (rule filter_state_Add) (use ok in \<open>simp add: Nil\<close>)
    moreover have "r1 = r" using ok by (simp add: r1_def Nil)
    ultimately show ?thesis using ok holds_entries_Add [OF _ opts(2)]
      by (intro exI [of _ sealed]) (simp add: builder_ok_def r2_def Nil opts)
  next
    case (Cons b bs)
    then obtain es d k' where pend: "pend = [(es, d, k')]" using ok by (cases b) auto
    have cur: "cur = []" and es: "es \<noteq> []" and last: "tb_last_key r = fst (last es)" using ok by (auto simp: pend)
    have keys_last: "keys (tb_last_key r)" and below: "cmp_Compare c (tb_last_key r) k < 0"
      unfolding last using entries es last_in_set [OF es] by (auto simp: pend)
    have sep: "keys sep" "cmp_Compare c (tb_last_key r) sep \<le> 0" "cmp_Compare c sep k < 0"
      unfolding sep_def using separator_key separator_between keys_last k below by auto
    have under: "keys (fst e) \<and> cmp_Compare c (fst e) sep \<le> 0" if e: "e \<in> set (all_entries sealed @ es)" for e
    proof -
      have "cmp_Compare c (fst e) (tb_last_key r) \<le> 0"
        unfolding last by (rule sorted_last_le [where xs = "all_entries sealed"]) (use sorted entries es e in \<open>auto simp: pend cur\<close>)
      moreover have "keys (fst e)" using entries e by (auto simp: pend cur)
      ultimately show ?thesis using compare_trans keys_last sep by blast
    qed
    let ?sealed = "sealed @ [(es, d, sep)]"
    have "index_ok c keys ?sealed [(k, v)] (BlockBuilder_Add 1 sep
        (BlockHandle_EncodeTo (block_handle_of (sealed @ [(es, d, k')]) (length sealed)) []) (tb_index_block r))"
      by (rule index_ok_seal) (use ok es sep under k last in \<open>auto simp: pend cur sep_def\<close>)
    moreover have "filter_state opts ?sealed [(k, v)] (map_option (FilterBlockBuilder_AddKey k) (tb_filter_block r))"
    proof -
      have "filter_state opts ?sealed [] (tb_filter_block r)" using ok filter_state_rekey by (simp add: pend cur) blast
      from filter_state_Add [OF this, of k v] show ?thesis by simp
    qed
    moreover have "r1 = r\<lparr>tb_last_key := sep, tb_index_block := BlockBuilder_Add 1 sep
        (BlockHandle_EncodeTo (block_handle_of (sealed @ [(es, d, k')]) (length sealed)) []) (tb_index_block r),
        tb_pending_index_entry := False\<rparr>" using ok by (simp add: r1_def pend)
    ultimately show ?thesis using ok holds_entries_Add [OF _ opts(2), of _ "[]" k v]
      by (intro exI [of _ ?sealed]) (simp add: builder_ok_def r2_def pend cur opts)
  qed
  then obtain sealed' where r2: "builder_ok valid written keys opts sealed' [] (cur @ [(k, v)]) r2"
    and all: "all_entries sealed' = all_entries (sealed @ pend)" by blast
  have s2: "Status_ok (tb_status r2)" using assms(2) by (simp add: r2_def r1_def)
  show ?thesis
  proof (cases "opt_block_size opts \<le> BlockBuilder_CurrentSizeEstimate (tb_data_block r2)")
    case True
    obtain r' where "TableBuilder_Flush W r2 = Some r'" "Status_ok (tb_status r') \<longrightarrow> (\<exists>pend'.
      builder_ok valid written keys opts sealed' pend' [] r' \<and> all_entries pend' = all_entries [] @ cur @ [(k, v)])"
      using Flush_ok [OF r2 s2] by blast
    then have "Status_ok (tb_status r') \<longrightarrow> (\<exists>pend'. builder_ok valid written keys opts sealed' pend' [] r' \<and>
        all_entries (sealed' @ pend') @ [] = all_entries (sealed @ pend) @ cur @ [(k, v)])" using all by simp
    with True \<open>TableBuilder_Flush W r2 = Some r'\<close> show ?thesis unfolding eval by (simp only: if_True) blast
  next
    case False
    have "all_entries (sealed' @ []) @ cur @ [(k, v)] = all_entries (sealed @ pend) @ cur @ [(k, v)]" using all by simp
    with False r2 show ?thesis unfolding eval by (simp only: if_False) blast
  qed
qed

lemma Finish_filter_ok:
  assumes "builder_ok valid written keys opts sealed pend [] r" "Status_ok (tb_status r)"
  shows "\<exists>h f s off fb F. Finish_filter_block W r = Some (h, r\<lparr>tb_filter_block := fb, tb_file := f, tb_status := s, tb_offset := off\<rparr>) \<and>
    valid f \<and> (fb = None \<longleftrightarrow> opt_filter_policy opts = None) \<and>
    (Status_ok s \<longrightarrow> written f = data_part (sealed @ pend) @ F \<and> off = word_of_nat (length (written f))) \<and>
    (length (data_part (sealed @ pend)) < 2 ^ 64 \<longrightarrow> (\<exists>fs. F = filter_part opts fs \<and>
       (opt_filter_policy opts \<noteq> None \<longrightarrow> filter_knows fs (sealed @ pend)) \<and>
       (\<forall>p. opt_filter_policy opts = Some p \<longrightarrow> h = handle_at (length (data_part (sealed @ pend))) (filter_block_bytes p fs))))"
proof -
  let ?bs = "sealed @ pend"
  have st: "filter_state opts ?bs [] (tb_filter_block r)" "\<forall>b \<in> set ?bs. blk_entries b \<noteq> []" "valid (tb_file r)"
    "written (tb_file r) = data_part ?bs" "tb_offset r = word_of_nat (length (data_part ?bs))"
    using assms(1) by (simp_all add: builder_ok_def)
  show ?thesis
  proof (cases "opt_filter_policy opts")
    case None
    then have "tb_filter_block r = None" using st(1) by (simp add: filter_state_def)
    then have "Finish_filter_block W r = Some (BlockHandle_make, r\<lparr>tb_filter_block := None, tb_file := tb_file r,
        tb_status := tb_status r, tb_offset := tb_offset r\<rparr>)"
      by (simp add: Finish_filter_block_def split: bool.splits)
    with None st(3-5) show ?thesis
      by (intro exI [of _ BlockHandle_make] exI [of _ "tb_file r"] exI [of _ "tb_status r"] exI [of _ "tb_offset r"] exI [of _ None]
          exI [of _ "[]"]) (simp add: filter_part_def)
  next
    case (Some p)
    then obtain b where b: "tb_filter_block r = Some b" using st(1) by (auto simp: filter_state_def)
    obtain data fb where fb: "FilterBlockBuilder_Finish b = (data, fb)" by fastforce
    obtain f s off where w: "TableBuilder_WriteRawBlock W data kNoCompression (r\<lparr>tb_filter_block := Some fb\<rparr>) =
        Some (\<lparr>bh_offset = tb_offset r, bh_size = word_of_nat (length data)\<rparr>,
          r\<lparr>tb_filter_block := Some fb, tb_file := f, tb_status := s, tb_offset := off\<rparr>)" "valid f"
      "Status_ok s \<longrightarrow> written f = written (tb_file r) @ raw_block data kNoCompression \<and>
        off = tb_offset r + word_of_nat (length (raw_block data kNoCompression))"
      using WriteRawBlock_returns [of "r\<lparr>tb_filter_block := Some fb\<rparr>" data kNoCompression] st(3) by auto
    have eval: "Finish_filter_block W r = Some (\<lparr>bh_offset = tb_offset r, bh_size = word_of_nat (length data)\<rparr>,
        r\<lparr>tb_filter_block := Some fb, tb_file := f, tb_status := s, tb_offset := off\<rparr>)"
      using b fb w(1) assms(2) by (simp add: Finish_filter_block_def)
    have "\<exists>fs. raw_block data kNoCompression = filter_part opts fs \<and> filter_knows fs ?bs \<and>
        \<lparr>bh_offset = tb_offset r, bh_size = word_of_nat (length data)\<rparr> = handle_at (length (data_part ?bs)) (filter_block_bytes p fs)"
      if n: "length (data_part ?bs) < 2 ^ 64"
      using filter_state_Finish [OF st(1) Some n refl st(2)] b fb st(5) by (auto simp: filter_part_def Some handle_at_def)
    then show ?thesis unfolding eval using w(2,3) st(4,5) Some
      by (intro exI [of _ "\<lparr>bh_offset = tb_offset r, bh_size = word_of_nat (length data)\<rparr>"] exI [of _ f] exI [of _ s]
          exI [of _ off] exI [of _ "Some fb"] exI [of _ "raw_block data kNoCompression"]) auto
  qed
qed

lemma Finish_metaindex_ok:
  assumes "valid (tb_file r)" "Status_ok (tb_status r)" "tb_offset r = word_of_nat (length (written (tb_file r)))"
    and "0 < opt_block_restart_interval (tb_options r)" "tb_filter_block r = None \<longleftrightarrow> opt_filter_policy (tb_options r) = None"
  shows "\<exists>meta f s off. Finish_metaindex_block W h r =
      Some (handle_at (length (written (tb_file r))) meta, r\<lparr>tb_file := f, tb_status := s, tb_offset := off\<rparr>) \<and> valid f \<and>
    (Status_ok s \<longrightarrow> written f = written (tb_file r) @ raw_block meta kNoCompression \<and> off = word_of_nat (length (written f))) \<and>
    built_from meta (case opt_filter_policy (tb_options r) of
      Some p \<Rightarrow> [(lit ''filter.'' @ fp_Name p, BlockHandle_EncodeTo h [])] | None \<Rightarrow> [])"
proof -
  define b where "b = (case opt_filter_policy (tb_options r) of
      Some p \<Rightarrow> BlockBuilder_Add (opt_block_restart_interval (tb_options r)) (lit ''filter.'' @ fp_Name p)
         (BlockHandle_EncodeTo h []) BlockBuilder_make
    | None \<Rightarrow> BlockBuilder_make)"
  let ?es = "(case opt_filter_policy (tb_options r) of
      Some p \<Rightarrow> [(lit ''filter.'' @ fp_Name p, BlockHandle_EncodeTo h [])] | None \<Rightarrow> [])"
  have "holds_entries (opt_block_restart_interval (tb_options r)) b ?es"
    using holds_entries_Add [OF holds_entries_make assms(4)] by (auto simp: b_def split: option.split)
  then have built: "built_from (fst (BlockBuilder_Finish b)) ?es" by (rule holds_entries_built)
  obtain f s off where w: "TableBuilder_WriteBlock W b r =
      Some (\<lparr>bh_offset = tb_offset r, bh_size = word_of_nat (length (fst (BlockBuilder_Finish b)))\<rparr>, BlockBuilder_make,
        r\<lparr>tb_file := f, tb_status := s, tb_offset := off\<rparr>)" "valid f"
    "Status_ok s \<longrightarrow> written f = written (tb_file r) @ raw_block (fst (BlockBuilder_Finish b)) kNoCompression \<and>
      off = tb_offset r + word_of_nat (length (raw_block (fst (BlockBuilder_Finish b)) kNoCompression))"
    using WriteBlock_returns [OF assms(1), of b] by blast
  have "Finish_metaindex_block W h r = Some (handle_at (length (written (tb_file r))) (fst (BlockBuilder_Finish b)),
      r\<lparr>tb_file := f, tb_status := s, tb_offset := off\<rparr>)"
    using w(1) assms(2,3,5) by (cases "opt_filter_policy (tb_options r)") (auto simp: Finish_metaindex_block_def b_def handle_at_def)
  with built w(2,3) assms(3) show ?thesis
    by (intro exI [of _ "fst (BlockBuilder_Finish b)"] exI [of _ f] exI [of _ s] exI [of _ off]) simp
qed

lemma Finish_index_ok:
  assumes "builder_ok valid written keys opts sealed pend [] r0" and opts: "opt_comparator opts = c"
    and same: "tb_options r = opts" "tb_index_block_options r = tb_index_block_options r0" "tb_index_block r = tb_index_block r0"
      "tb_pending_index_entry r = tb_pending_index_entry r0" "tb_last_key r = tb_last_key r0" "tb_pending_handle r = tb_pending_handle r0"
    and r: "valid (tb_file r)" "Status_ok (tb_status r)" "tb_offset r = word_of_nat (length (written (tb_file r)))"
    and sorted: "sorted_wrt (\<lambda>a b. cmp_Compare c (fst a) (fst b) < 0) (all_entries (sealed @ pend))"
      "\<forall>e \<in> set (all_entries (sealed @ pend)). keys (fst e)"
  shows "\<exists>bs index r'. Finish_index_block W r = Some (handle_at (length (written (tb_file r))) index, r') \<and> valid (tb_file r') \<and>
    (Status_ok (tb_status r') \<longrightarrow> written (tb_file r') = written (tb_file r) @ raw_block index kNoCompression) \<and>
    built_from index (index_entries bs) \<and> same_blocks bs (sealed @ pend) \<and>
    (\<forall>i < length bs. keys (blk_index_key (bs ! i)) \<and> index_separates c bs i [])"
proof -
  note ok = assms(1) [unfolded builder_ok_def opts, simplified]
  define ib where "ib = (if tb_pending_index_entry r
    then BlockBuilder_Add 1 (cmp_FindShortSuccessor c (tb_last_key r)) (BlockHandle_EncodeTo (tb_pending_handle r) []) (tb_index_block r)
    else tb_index_block r)"
  have "\<exists>bs. index_ok c keys bs [] ib \<and> same_blocks bs (sealed @ pend)"
  proof (cases pend)
    case Nil
    with ok same show ?thesis by (intro exI [of _ "sealed"]) (auto simp: ib_def same_blocks_def)
  next
    case (Cons b bs)
    then obtain es d k' where pend: "pend = [(es, d, k')]" using ok by (cases b) auto
    have es: "es \<noteq> []" and last: "tb_last_key r = fst (last es)" using ok same by (auto simp: pend)
    let ?sep = "cmp_FindShortSuccessor c (tb_last_key r)"
    have kl: "keys (tb_last_key r)" using sorted(2) last_in_set [OF es] by (auto simp: pend last)
    have under: "keys (fst e) \<and> cmp_Compare c (fst e) ?sep \<le> 0" if e: "e \<in> set (all_entries sealed @ es)" for e
    proof -
      have "cmp_Compare c (fst e) (tb_last_key r) \<le> 0"
        unfolding last by (rule sorted_last_le [where xs = "all_entries sealed"]) (use sorted es e in \<open>auto simp: pend\<close>)
      moreover have "keys (fst e)" using sorted(2) e by (auto simp: pend)
      ultimately show ?thesis using compare_trans kl successor_key [OF kl] successor_above [OF kl] by blast
    qed
    have "index_ok c keys (sealed @ [(es, d, ?sep)]) [] (BlockBuilder_Add 1 ?sep
        (BlockHandle_EncodeTo (block_handle_of (sealed @ [(es, d, k')]) (length sealed)) []) (tb_index_block r0))"
      by (rule index_ok_seal) (use ok es successor_key [OF kl] under in \<open>auto simp: pend\<close>)
    then show ?thesis using ok same
      by (intro exI [of _ "sealed @ [(es, d, ?sep)]"]) (simp add: pend ib_def same_blocks_def)
  qed
  then obtain bs where bs: "index_ok c keys bs [] ib" "same_blocks bs (sealed @ pend)" by blast
  have built: "built_from (fst (BlockBuilder_Finish ib)) (index_entries bs)"
    using bs(1) holds_entries_built by (auto simp: index_ok_def)
  define r1 where "r1 = (if tb_pending_index_entry r then r\<lparr>tb_last_key := cmp_FindShortSuccessor c (tb_last_key r),
      tb_index_block := ib, tb_pending_index_entry := False\<rparr> else r)"
  have r1: "tb_file r1 = tb_file r" "tb_offset r1 = tb_offset r" "tb_index_block r1 = ib" by (simp_all add: r1_def ib_def)
  obtain f s off where w: "TableBuilder_WriteBlock W ib r1 =
      Some (\<lparr>bh_offset = tb_offset r1, bh_size = word_of_nat (length (fst (BlockBuilder_Finish ib)))\<rparr>, BlockBuilder_make,
        r1\<lparr>tb_file := f, tb_status := s, tb_offset := off\<rparr>)" "valid f"
    "Status_ok s \<longrightarrow> written f = written (tb_file r1) @ raw_block (fst (BlockBuilder_Finish ib)) kNoCompression"
    using WriteBlock_returns [of r1 ib] r(1) unfolding r1 by blast
  have "Finish_index_block W r = do {
      (handle, block, r) \<leftarrow> TableBuilder_WriteBlock W (tb_index_block r1) r1; Some (handle, r\<lparr>tb_index_block := block\<rparr>) }"
    using ok same r(2) opts by (simp add: Finish_index_block_def r1_def ib_def Let_def)
  also have "\<dots> = Some (handle_at (length (written (tb_file r))) (fst (BlockBuilder_Finish ib)),
      r1\<lparr>tb_file := f, tb_status := s, tb_offset := off, tb_index_block := BlockBuilder_make\<rparr>)"
    unfolding r1 w(1) by (simp add: r1 r(3) handle_at_def)
  finally show ?thesis using w(2,3) built bs unfolding r1
    by (intro exI [of _ bs] exI [of _ "fst (BlockBuilder_Finish ib)"]) (auto simp: index_ok_def)
qed

lemma Finish_stages_skip:
  assumes "\<not> Status_ok (tb_status r)"
  shows "Finish_filter_block W r = Some (BlockHandle_make, r)" "Finish_metaindex_block W h r = Some (BlockHandle_make, r)"
    "Finish_index_block W r = Some (BlockHandle_make, r)" "Finish_footer W h h' r = Some r"
  using assms by (simp_all add: Finish_filter_block_def Finish_metaindex_block_def Finish_index_block_def Finish_footer_def)

lemma Finish_footer_ok:
  assumes "valid (tb_file r)"
  shows "\<exists>r'. Finish_footer W h h' r = Some r' \<and> (Status_ok (tb_status r') \<longrightarrow>
    written (tb_file r') = written (tb_file r) @ Footer_EncodeTo \<lparr>ft_metaindex_handle = h, ft_index_handle = h'\<rparr> [])"
proof (cases "Status_ok (tb_status r)")
  case True
  let ?e = "Footer_EncodeTo \<lparr>ft_metaindex_handle = h, ft_index_handle = h'\<rparr> []"
  obtain s f where "wf_Append W (tb_file r) ?e = Some (s, f)" "Status_ok s \<longrightarrow> written f = written (tb_file r) @ ?e"
    using append_returns [OF assms] by blast
  with True show ?thesis by (auto simp: Finish_footer_def Let_def)
qed (simp add: Finish_stages_skip)

lemma Finish_ok:
  assumes "builder_ok valid written keys opts sealed pend cur r"
    and opts: "opt_comparator opts = c" "0 < opt_block_restart_interval opts"
    and sorted: "sorted_wrt (\<lambda>a b. cmp_Compare c (fst a) (fst b) < 0) (all_entries (sealed @ pend) @ cur)"
    and entries: "\<forall>e \<in> set (all_entries (sealed @ pend) @ cur). keys (fst e)"
  shows "\<exists>s r'. TableBuilder_Finish W r = Some (s, r') \<and>
    (Status_ok s \<and> length (written (tb_file r')) < 2 ^ 64 \<longrightarrow> (\<exists>bs fs meta index.
      table_layout opts (written (tb_file r')) bs fs meta index \<and> all_entries bs = all_entries (sealed @ pend) @ cur \<and>
      (\<forall>i < length bs. keys (blk_index_key (bs ! i)) \<and> index_separates c bs i [])))"
proof (cases "Status_ok (tb_status r)")
  case False
  then have "TableBuilder_Finish W r = Some (tb_status r, r\<lparr>tb_closed := True\<rparr>)"
    by (simp add: TableBuilder_Finish_def TableBuilder_Flush_def Finish_stages_skip)
  with False show ?thesis by simp
next
  case True
  obtain r1 where r1: "TableBuilder_Flush W r = Some r1" "Status_ok (tb_status r1) \<longrightarrow> (\<exists>pend'.
      builder_ok valid written keys opts sealed pend' [] r1 \<and> all_entries pend' = all_entries pend @ cur)"
    using Flush_ok [OF assms(1) True] by blast
  let ?r2 = "r1\<lparr>tb_closed := True\<rparr>"
  show ?thesis
  proof (cases "Status_ok (tb_status r1)")
    case False
    then have "TableBuilder_Finish W r = Some (tb_status r1, ?r2)"
      by (simp add: TableBuilder_Finish_def r1(1) Finish_stages_skip)
    with False show ?thesis by simp
  next
    case True
    then obtain pend' where ok1: "builder_ok valid written keys opts sealed pend' [] r1"
      and all: "all_entries (sealed @ pend') = all_entries (sealed @ pend) @ cur" using r1(2) by auto
    have ok2: "builder_ok valid written keys opts sealed pend' [] ?r2" using ok1 by (simp add: builder_ok_def)
    have "Status_ok (tb_status ?r2)" using True by simp
    let ?D = "data_part (sealed @ pend')"
    obtain h f s off fb F where r3: "Finish_filter_block W ?r2 =
        Some (h, ?r2\<lparr>tb_filter_block := fb, tb_file := f, tb_status := s, tb_offset := off\<rparr>)" "valid f"
      "fb = None \<longleftrightarrow> opt_filter_policy opts = None"
      "Status_ok s \<longrightarrow> written f = ?D @ F \<and> off = word_of_nat (length (written f))"
      and F: "length ?D < 2 ^ 64 \<longrightarrow> (\<exists>fs. F = filter_part opts fs \<and>
        (opt_filter_policy opts \<noteq> None \<longrightarrow> filter_knows fs (sealed @ pend')) \<and>
        (\<forall>p. opt_filter_policy opts = Some p \<longrightarrow> h = handle_at (length ?D) (filter_block_bytes p fs)))"
      using Finish_filter_ok [OF ok2 \<open>Status_ok (tb_status ?r2)\<close>] by (elim exE conjE) (rule that; assumption)
    define r3 where "r3 = ?r2\<lparr>tb_filter_block := fb, tb_file := f, tb_status := s, tb_offset := off\<rparr>"
    show ?thesis
    proof (cases "Status_ok s")
      case False
      then have "TableBuilder_Finish W r = Some (s, r3)"
        by (simp add: TableBuilder_Finish_def r1(1) r3(1) Finish_stages_skip r3_def)
      with False show ?thesis by simp
    next
      case True
      have v3: "valid (tb_file r3)" "Status_ok (tb_status r3)" "tb_offset r3 = word_of_nat (length (written (tb_file r3)))"
        "0 < opt_block_restart_interval (tb_options r3)" "tb_filter_block r3 = None \<longleftrightarrow> opt_filter_policy (tb_options r3) = None"
        "tb_options r3 = opts" "written (tb_file r3) = ?D @ F"
        using r3(2-4) True ok1 opts by (simp_all add: r3_def builder_ok_def)
      obtain meta f4 s4 off4 where r4: "Finish_metaindex_block W h r3 = Some (handle_at (length (?D @ F)) meta,
          r3\<lparr>tb_file := f4, tb_status := s4, tb_offset := off4\<rparr>)" "valid f4"
        "Status_ok s4 \<longrightarrow> written f4 = ?D @ F @ raw_block meta kNoCompression \<and> off4 = word_of_nat (length (written f4))"
        and meta: "built_from meta (case opt_filter_policy opts of
          Some p \<Rightarrow> [(lit ''filter.'' @ fp_Name p, BlockHandle_EncodeTo h [])] | None \<Rightarrow> [])"
        using Finish_metaindex_ok [OF v3(1-5), of h] unfolding v3(6,7) append_assoc by blast
      define r4 where "r4 = r3\<lparr>tb_file := f4, tb_status := s4, tb_offset := off4\<rparr>"
      show ?thesis
      proof (cases "Status_ok s4")
        case False
        then have "TableBuilder_Finish W r = Some (s4, r4)"
          using r4(1) by (simp add: TableBuilder_Finish_def r1(1) r3(1) r3_def [symmetric] Finish_stages_skip r4_def)
        with False show ?thesis by simp
      next
        case True
        have v4: "valid (tb_file r4)" "Status_ok (tb_status r4)" "tb_offset r4 = word_of_nat (length (written (tb_file r4)))"
          "written (tb_file r4) = ?D @ F @ raw_block meta kNoCompression"
          using r4(2,3) True by (simp_all add: r4_def)
        have same: "tb_options r4 = opts" "tb_index_block_options r4 = tb_index_block_options r1" "tb_index_block r4 = tb_index_block r1"
          "tb_pending_index_entry r4 = tb_pending_index_entry r1" "tb_last_key r4 = tb_last_key r1" "tb_pending_handle r4 = tb_pending_handle r1"
          using v3(6) by (simp_all add: r4_def r3_def)
        have ent: "sorted_wrt (\<lambda>a b. cmp_Compare c (fst a) (fst b) < 0) (all_entries (sealed @ pend'))"
          "\<forall>e \<in> set (all_entries (sealed @ pend')). keys (fst e)" unfolding all by (fact sorted, fact entries)
        obtain bs index r5 where r5: "Finish_index_block W r4 = Some (handle_at (length (written (tb_file r4))) index, r5)"
          "valid (tb_file r5)" "Status_ok (tb_status r5) \<longrightarrow> written (tb_file r5) = written (tb_file r4) @ raw_block index kNoCompression"
          "built_from index (index_entries bs)" "same_blocks bs (sealed @ pend')"
          "\<forall>i < length bs. keys (blk_index_key (bs ! i)) \<and> index_separates c bs i []"
          using Finish_index_ok [OF ok1 opts(1) same v4(1-3) ent] by blast
        let ?h = "handle_at (length (?D @ F)) meta" and ?i = "handle_at (length (written (tb_file r4))) index"
        obtain r6 where r6: "Finish_footer W ?h ?i r5 = Some r6" "Status_ok (tb_status r6) \<longrightarrow>
            written (tb_file r6) = written (tb_file r5) @ Footer_EncodeTo \<lparr>ft_metaindex_handle = ?h, ft_index_handle = ?i\<rparr> []"
          using Finish_footer_ok [OF r5(2)] by blast
        have eval: "TableBuilder_Finish W r = Some (tb_status r6, r6)"
          using r4(1) r5(1) r6(1) by (simp add: TableBuilder_Finish_def r1(1) r3(1) r3_def [symmetric] r4_def [symmetric])
        have bs: "data_part bs = ?D" using same_blocks_data [OF r5(5), of "length bs"] same_blocks_fields(3) [OF r5(5)] by simp
        have "table_layout opts (written (tb_file r6)) bs fs meta index"
          if s6: "Status_ok (tb_status r6)" and fs: "F = filter_part opts fs"
            "opt_filter_policy opts \<noteq> None \<longrightarrow> filter_knows fs (sealed @ pend')"
            "\<forall>p. opt_filter_policy opts = Some p \<longrightarrow> h = handle_at (length ?D) (filter_block_bytes p fs)" for fs
        proof -
          have s5: "Status_ok (tb_status r5)"
            using r6(1) s6 Finish_stages_skip(4) [of r5] by (cases "Status_ok (tb_status r5)") auto
          have "written (tb_file r6) = ?D @ filter_part opts fs @ raw_block meta kNoCompression @ raw_block index kNoCompression @
              Footer_EncodeTo \<lparr>ft_metaindex_handle = ?h, ft_index_handle = ?i\<rparr> []"
            using r6(2) s6 r5(3) s5 v4(4) fs(1) by simp
          moreover have "built_from meta (meta_entries opts bs fs)"
            using meta fs(3) by (cases "opt_filter_policy opts") (simp_all add: meta_entries_def bs)
          moreover have "\<forall>b \<in> set bs. built_from (blk_bytes b) (blk_entries b) \<and> blk_entries b \<noteq> []"
            using same_blocks_all [OF r5(5), of "\<lambda>d es. built_from d es \<and> es \<noteq> []"] ok1 unfolding builder_ok_def by blast
          ultimately show ?thesis using r5(4) fs same_blocks_filter [OF r5(5)] v4(4)
            by (simp add: table_layout_def Let_def bs add.assoc)
        qed
        moreover have "length ?D < 2 ^ 64" if "length (written (tb_file r6)) < 2 ^ 64" "Status_ok (tb_status r6)"
        proof -
          have "Status_ok (tb_status r5)"
            using r6(1) that(2) Finish_stages_skip(4) [of r5] by (cases "Status_ok (tb_status r5)") auto
          then show ?thesis using that r6(2) r5(3) v4(4) by simp
        qed
        moreover have "all_entries bs = all_entries (sealed @ pend) @ cur" using same_blocks_entries [OF r5(5)] all by simp
        ultimately show ?thesis unfolding eval using F r5(6) by blast
      qed
    qed
  qed
qed

lemma add_entries_ok:
  assumes "builder_ok valid written keys opts sealed pend cur r" "Status_ok (tb_status r)"
    and opts: "opt_comparator opts = c" "0 < opt_block_restart_interval opts"
    and "sorted_wrt (\<lambda>a b. cmp_Compare c (fst a) (fst b) < 0) (all_entries (sealed @ pend) @ cur @ es)"
    and "\<forall>e \<in> set (all_entries (sealed @ pend) @ cur @ es). keys (fst e)"
  shows "\<exists>r'. add_entries W es r = Some r' \<and> (Status_ok (tb_status r') \<longrightarrow> (\<exists>sealed' pend' cur'.
      builder_ok valid written keys opts sealed' pend' cur' r' \<and>
      all_entries (sealed' @ pend') @ cur' = all_entries (sealed @ pend) @ cur @ es))"
  using assms(1,2,5,6)
proof (induction es arbitrary: sealed pend cur r)
  case Nil
  then show ?case by auto
next
  case (Cons e es)
  obtain k v where e: "e = (k, v)" by fastforce
  have sorted: "sorted_wrt (\<lambda>a b. cmp_Compare c (fst a) (fst b) < 0) (all_entries (sealed @ pend) @ cur)"
    and below: "\<forall>x \<in> set (all_entries (sealed @ pend) @ cur). keys (fst x) \<and> cmp_Compare c (fst x) k < 0" and k: "keys k"
    using Cons.prems(3,4) by (auto simp: e sorted_wrt_append)
  obtain r1 where r1: "TableBuilder_Add W k v r = Some r1" "Status_ok (tb_status r1) \<longrightarrow> (\<exists>sealed' pend' cur'.
      builder_ok valid written keys opts sealed' pend' cur' r1 \<and>
      all_entries (sealed' @ pend') @ cur' = all_entries (sealed @ pend) @ cur @ [(k, v)])"
    using Add_ok [OF Cons.prems(1,2) opts sorted below k] by blast
  show ?case
  proof (cases "Status_ok (tb_status r1)")
    case True
    then obtain sealed' pend' cur' where ok: "builder_ok valid written keys opts sealed' pend' cur' r1"
      and all: "all_entries (sealed' @ pend') @ cur' = all_entries (sealed @ pend) @ cur @ [(k, v)]" using r1(2) by blast
    have app: "all_entries (sealed' @ pend') @ cur' @ es = all_entries (sealed @ pend) @ cur @ e # es"
      using arg_cong [OF all, of "\<lambda>x. x @ es"] by (simp add: e)
    show ?thesis using Cons.IH [OF ok True] Cons.prems(3,4) r1(1) unfolding app by (simp add: e)
  next
    case False
    then have "add_entries W es r1 = Some r1" by (induction es) (auto simp: TableBuilder_Add_def)
    with False r1(1) show ?thesis by (simp add: e)
  qed
qed

lemma build_table_ok:
  assumes "valid f" "written f = []" and opts: "opt_comparator opts = c" "0 < opt_block_restart_interval opts"
    and es: "sorted_wrt (\<lambda>a b. cmp_Compare c (fst a) (fst b) < 0) es" "\<forall>e \<in> set es. keys (fst e)"
  shows "\<exists>s r'. build_table W opts f es = Some (s, r') \<and>
    (Status_ok s \<and> length (written (tb_file r')) < 2 ^ 64 \<longrightarrow> (\<exists>bs fs meta index.
      table_layout opts (written (tb_file r')) bs fs meta index \<and> all_entries bs = es \<and>
      (\<forall>i < length bs. keys (blk_index_key (bs ! i)) \<and> index_separates c bs i [])))"
proof -
  have ok0: "builder_ok valid written keys opts [] [] [] (TableBuilder_make opts f)"
    using builder_ok_make [where valid = valid and written = written] assms(1,2) by blast
  have "Status_ok (tb_status (TableBuilder_make opts f))" by (simp add: TableBuilder_make_def)
  from add_entries_ok [OF ok0 this opts, of es] es obtain r where r: "add_entries W es (TableBuilder_make opts f) = Some r"
    "Status_ok (tb_status r) \<longrightarrow> (\<exists>sealed' pend' cur'. builder_ok valid written keys opts sealed' pend' cur' r \<and>
      all_entries (sealed' @ pend') @ cur' = es)" by auto
  show ?thesis
  proof (cases "Status_ok (tb_status r)")
    case False
    then have "TableBuilder_Finish W r = Some (tb_status r, r\<lparr>tb_closed := True\<rparr>)"
      by (simp add: TableBuilder_Finish_def TableBuilder_Flush_def Finish_stages_skip)
    with False r(1) show ?thesis by (simp add: build_table_def)
  next
    case True
    then obtain sealed pend cur where ok: "builder_ok valid written keys opts sealed pend cur r"
      and all: "all_entries (sealed @ pend) @ cur = es" using r(2) by blast
    from Finish_ok [OF ok opts] es r(1) show ?thesis unfolding all build_table_def by simp
  qed
qed

end

interpretation mem_tables: table_building "PosixWritableFile mem_kernel" "mem.posix_valid fd" mem.posix_written mem.posix_flushed
  BytewiseComparator "\<lambda>_. True" for fd
  by (rule table_building.intro [OF mem.writable.writable_file_contract_axioms bytewise.comparator_contract_axioms])

end
