(* ===== verification/Two_Level_Iterator.thy ===== *)
theory Two_Level_Iterator
  imports Iterator
begin

text \<open>
  \<^verbatim>\<open>table/two_level_iterator.cc\<close>: an iterator over the concatenation of the blocks an index iterator
  points to.  The block function gets an argument with state of its own (a table reads through a
  cache), which the iterator carries.  The contract of the result is proved in the locale
  \<open>two_level\<close> from the contracts of the index and data iterators.
\<close>

record ('x, 'd, 'a, 'o) two_level_iterator =
  tl_arg :: 'a
  tl_options :: 'o
  tl_status :: status
  tl_index_iter :: "'x iterator_wrapper"
  tl_data_iter :: "'d iterator_wrapper"
  tl_data_block_handle :: bytes

type_synonym ('d, 'a, 'o) block_function = "'a \<Rightarrow> 'o \<Rightarrow> bytes \<Rightarrow> ('d \<times> 'a) option"

definition NewTwoLevelIterator :: "'x iterator \<Rightarrow> 'x \<Rightarrow> 'a \<Rightarrow> 'o \<Rightarrow> ('x, 'd, 'a, 'o) two_level_iterator" where
  "NewTwoLevelIterator X index_iter arg options =
     \<lparr>tl_arg = arg, tl_options = options, tl_status = Status_OK,
      tl_index_iter = iw_Set X (Some index_iter) IteratorWrapper_make, tl_data_iter = IteratorWrapper_make,
      tl_data_block_handle = []\<rparr>"

definition SaveError :: "status \<Rightarrow> ('x, 'd, 'a, 'o) two_level_iterator \<Rightarrow> ('x, 'd, 'a, 'o) two_level_iterator" where
  "SaveError s it = (if Status_ok (tl_status it) \<and> \<not> Status_ok s then it\<lparr>tl_status := s\<rparr> else it)"

definition SetDataIterator ::
  "'d iterator \<Rightarrow> 'd option \<Rightarrow> ('x, 'd, 'a, 'o) two_level_iterator \<Rightarrow> ('x, 'd, 'a, 'o) two_level_iterator" where
  "SetDataIterator D data_iter it =
     (let it = (if iw_iter (tl_data_iter it) \<noteq> None then SaveError (iw_status D (tl_data_iter it)) it else it)
      in it\<lparr>tl_data_iter := iw_Set D data_iter (tl_data_iter it)\<rparr>)"

definition InitDataBlock :: "'x iterator \<Rightarrow> 'd iterator \<Rightarrow> ('d, 'a, 'o) block_function \<Rightarrow>
    ('x, 'd, 'a, 'o) two_level_iterator \<Rightarrow> ('x, 'd, 'a, 'o) two_level_iterator option" where
  "InitDataBlock X D block_function it =
     (if \<not> iw_valid (tl_index_iter it) then Some (SetDataIterator D None it)
      else let handle = iw_value X (tl_index_iter it) in
        if iw_iter (tl_data_iter it) \<noteq> None \<and> Slice_compare handle (tl_data_block_handle it) = 0 then Some it
        else do {
          (iter, arg) \<leftarrow> block_function (tl_arg it) (tl_options it) handle;
          Some (SetDataIterator D (Some iter) (it\<lparr>tl_arg := arg, tl_data_block_handle := handle\<rparr>)) })"

text \<open>A movement of the data iterator, if there is one.\<close>

definition move_data :: "('d iterator_wrapper \<Rightarrow> 'd iterator_wrapper option) \<Rightarrow>
    ('x, 'd, 'a, 'o) two_level_iterator \<Rightarrow> ('x, 'd, 'a, 'o) two_level_iterator option" where
  "move_data move it =
     (if iw_iter (tl_data_iter it) \<noteq> None then do { w \<leftarrow> move (tl_data_iter it); Some (it\<lparr>tl_data_iter := w\<rparr>) } else Some it)"

definition move_index :: "('x iterator_wrapper \<Rightarrow> 'x iterator_wrapper option) \<Rightarrow>
    ('x, 'd, 'a, 'o) two_level_iterator \<Rightarrow> ('x, 'd, 'a, 'o) two_level_iterator option" where
  "move_index move it = do { w \<leftarrow> move (tl_index_iter it); Some (it\<lparr>tl_index_iter := w\<rparr>) }"

text \<open>The loops end because the index iterator comes to its end, which only a contract can say.\<close>

partial_function (option) SkipEmptyDataBlocksForward :: "'x iterator \<Rightarrow> 'd iterator \<Rightarrow> ('d, 'a, 'o) block_function \<Rightarrow>
    ('x, 'd, 'a, 'o) two_level_iterator \<Rightarrow> ('x, 'd, 'a, 'o) two_level_iterator option" where
  "SkipEmptyDataBlocksForward X D block_function it =
     (if iw_iter (tl_data_iter it) = None \<or> \<not> iw_valid (tl_data_iter it) then
        if \<not> iw_valid (tl_index_iter it) then Some (SetDataIterator D None it)
        else do {
          it \<leftarrow> move_index (iw_Next X) it;
          it \<leftarrow> InitDataBlock X D block_function it;
          it \<leftarrow> move_data (iw_SeekToFirst D) it;
          SkipEmptyDataBlocksForward X D block_function it }
      else Some it)"

partial_function (option) SkipEmptyDataBlocksBackward :: "'x iterator \<Rightarrow> 'd iterator \<Rightarrow> ('d, 'a, 'o) block_function \<Rightarrow>
    ('x, 'd, 'a, 'o) two_level_iterator \<Rightarrow> ('x, 'd, 'a, 'o) two_level_iterator option" where
  "SkipEmptyDataBlocksBackward X D block_function it =
     (if iw_iter (tl_data_iter it) = None \<or> \<not> iw_valid (tl_data_iter it) then
        if \<not> iw_valid (tl_index_iter it) then Some (SetDataIterator D None it)
        else do {
          it \<leftarrow> move_index (iw_Prev X) it;
          it \<leftarrow> InitDataBlock X D block_function it;
          it \<leftarrow> move_data (iw_SeekToLast D) it;
          SkipEmptyDataBlocksBackward X D block_function it }
      else Some it)"

definition TwoLevel_Seek where
  "TwoLevel_Seek X D block_function target it = do {
     it \<leftarrow> move_index (iw_Seek X target) it;
     it \<leftarrow> InitDataBlock X D block_function it;
     it \<leftarrow> move_data (iw_Seek D target) it;
     SkipEmptyDataBlocksForward X D block_function it }"

definition TwoLevel_SeekToFirst where
  "TwoLevel_SeekToFirst X D block_function it = do {
     it \<leftarrow> move_index (iw_SeekToFirst X) it;
     it \<leftarrow> InitDataBlock X D block_function it;
     it \<leftarrow> move_data (iw_SeekToFirst D) it;
     SkipEmptyDataBlocksForward X D block_function it }"

definition TwoLevel_SeekToLast where
  "TwoLevel_SeekToLast X D block_function it = do {
     it \<leftarrow> move_index (iw_SeekToLast X) it;
     it \<leftarrow> InitDataBlock X D block_function it;
     it \<leftarrow> move_data (iw_SeekToLast D) it;
     SkipEmptyDataBlocksBackward X D block_function it }"

definition TwoLevel_Valid :: "('x, 'd, 'a, 'o) two_level_iterator \<Rightarrow> bool" where
  "TwoLevel_Valid it = iw_valid (tl_data_iter it)"

definition TwoLevel_Next where
  "TwoLevel_Next X D block_function it =
     (if \<not> TwoLevel_Valid it then None else do {
        w \<leftarrow> iw_Next D (tl_data_iter it);
        SkipEmptyDataBlocksForward X D block_function (it\<lparr>tl_data_iter := w\<rparr>) })"

definition TwoLevel_Prev where
  "TwoLevel_Prev X D block_function it =
     (if \<not> TwoLevel_Valid it then None else do {
        w \<leftarrow> iw_Prev D (tl_data_iter it);
        SkipEmptyDataBlocksBackward X D block_function (it\<lparr>tl_data_iter := w\<rparr>) })"

definition TwoLevel_status :: "'x iterator \<Rightarrow> 'd iterator \<Rightarrow> ('x, 'd, 'a, 'o) two_level_iterator \<Rightarrow> status" where
  "TwoLevel_status X D it =
     (if \<not> Status_ok (iw_status X (tl_index_iter it)) then iw_status X (tl_index_iter it)
      else if iw_iter (tl_data_iter it) \<noteq> None \<and> \<not> Status_ok (iw_status D (tl_data_iter it)) then iw_status D (tl_data_iter it)
      else tl_status it)"

definition TwoLevelIterator ::
  "'x iterator \<Rightarrow> 'd iterator \<Rightarrow> ('d, 'a, 'o) block_function \<Rightarrow> ('x, 'd, 'a, 'o) two_level_iterator iterator" where
  "TwoLevelIterator X D block_function = \<lparr>
     it_Valid = TwoLevel_Valid,
     it_SeekToFirst = TwoLevel_SeekToFirst X D block_function,
     it_SeekToLast = TwoLevel_SeekToLast X D block_function,
     it_Seek = TwoLevel_Seek X D block_function,
     it_Next = TwoLevel_Next X D block_function,
     it_Prev = TwoLevel_Prev X D block_function,
     it_key = (\<lambda>it. iw_key (tl_data_iter it)),
     it_value = (\<lambda>it. iw_value D (tl_data_iter it)),
     it_status = TwoLevel_status X D\<rparr>"

subsection \<open>The contract\<close>

text \<open>An index: every key separates the entries of its part, and of those before, from later parts.\<close>

definition index_of :: "(bytes \<Rightarrow> bytes \<Rightarrow> int) \<Rightarrow> (bytes \<Rightarrow> bool) \<Rightarrow> (bytes \<rightharpoonup> (bytes \<times> bytes) list) \<Rightarrow>
    (bytes \<times> bytes) list \<Rightarrow> (bytes \<times> bytes) list list \<Rightarrow> bool" where
  "index_of compare keys f idx parts \<longleftrightarrow> key_order compare keys \<and>
     length idx = length parts \<and> (\<forall>e \<in> set idx \<union> set (concat parts). keys (fst e)) \<and>
     (\<forall>i < length idx. f (snd (idx ! i)) = Some (parts ! i) \<and>
        (\<forall>e \<in> set (concat (take (Suc i) parts)). compare (fst e) (fst (idx ! i)) \<le> 0) \<and>
        (\<forall>e \<in> set (concat (drop (Suc i) parts)). compare (fst (idx ! i)) (fst e) < 0))"

definition part_start :: "(bytes \<times> bytes) list list \<Rightarrow> nat \<Rightarrow> nat" where
  "part_start parts i = length (concat (take i parts))"

lemma part_start_Suc: "i < length parts \<Longrightarrow> part_start parts (Suc i) = part_start parts i + length (parts ! i)"
  by (simp add: part_start_def take_Suc_conv_app_nth)

lemma part_start_all: "part_start parts (length parts) = length (concat parts)"
  by (simp add: part_start_def)

lemma part_start_mono: "i \<le> j \<Longrightarrow> part_start parts i \<le> part_start parts j"
proof -
  assume "i \<le> j"
  then have "take j parts = take i parts @ take (j - i) (drop i parts)" by (metis le_add_diff_inverse take_add)
  then show ?thesis by (simp add: part_start_def)
qed

lemma concat_split: "i < length parts \<Longrightarrow> concat parts = concat (take i parts) @ parts ! i @ concat (drop (Suc i) parts)"
  by (metis concat.simps(2) concat_append id_take_nth_drop)

lemma part_entry: "i < length parts \<Longrightarrow> m < length (parts ! i) \<Longrightarrow> concat parts ! (part_start parts i + m) = parts ! i ! m"
  by (subst concat_split [of i]) (simp_all add: part_start_def nth_append)

lemma part_start_less: "i < length parts \<Longrightarrow> m < length (parts ! i) \<Longrightarrow> part_start parts i + m < length (concat parts)"
  using part_start_Suc [of i parts] part_start_mono [of "Suc i" "length parts" parts] by (simp add: part_start_all)

lemma seek_index_append:
  "\<forall>e \<in> set xs. compare (fst e) target < 0 \<Longrightarrow> seek_index compare target (xs @ ys) = length xs + seek_index compare target ys"
  by (simp add: seek_index_def)

lemma seek_index_none: "\<forall>e \<in> set ys. \<not> compare (fst e) target < 0 \<Longrightarrow> seek_index compare target (xs @ ys) = seek_index compare target xs"
  by (induction xs) (cases ys; simp add: seek_index_def)+

lemma bind_assoc_option: "(m \<bind> f) \<bind> g = m \<bind> (\<lambda>x. f x \<bind> g)"
  for m :: "'a option"
  by (cases m) simp_all

locale two_level = index: iterator_contract X compare keys xview + data: iterator_contract D compare keys dview
  for X :: "'x iterator" and D :: "'d iterator" and compare keys xview dview +
  fixes block_function :: "('d, 'a, 'o) block_function" and reads :: "'a \<Rightarrow> 'o \<Rightarrow> (bytes \<rightharpoonup> (bytes \<times> bytes) list) \<Rightarrow> bool"
  assumes block_function_reads: "reads arg options f \<Longrightarrow> f handle = Some part \<Longrightarrow>
    \<exists>d arg' m. block_function arg options handle = Some (d, arg') \<and> reads arg' options f \<and> dview d part m"
begin

text \<open>The fixed part of the state; the index iterator stands at \<open>i\<close>; there is a data iterator, for \<open>part\<close>, at \<open>m\<close>.\<close>

definition sound :: "(bytes \<rightharpoonup> (bytes \<times> bytes) list) \<Rightarrow> (bytes \<times> bytes) list \<Rightarrow> nat \<Rightarrow> ('x, 'd, 'a, 'o) two_level_iterator \<Rightarrow> bool" where
  "sound f idx i it \<longleftrightarrow> reads (tl_arg it) (tl_options it) f \<and> Status_ok (tl_status it) \<and> iw_view xview (tl_index_iter it) idx i"

definition at_part :: "(bytes \<rightharpoonup> (bytes \<times> bytes) list) \<Rightarrow> (bytes \<times> bytes) list \<Rightarrow> nat \<Rightarrow> ('x, 'd, 'a, 'o) two_level_iterator \<Rightarrow> bool" where
  "at_part f part m it \<longleftrightarrow> f (tl_data_block_handle it) = Some part \<and> iw_view dview (tl_data_iter it) part m"

definition no_part :: "('x, 'd, 'a, 'o) two_level_iterator \<Rightarrow> bool" where
  "no_part it \<longleftrightarrow> iw_iter (tl_data_iter it) = None \<and> \<not> iw_valid (tl_data_iter it)"

definition tl_view :: "('x, 'd, 'a, 'o) two_level_iterator \<Rightarrow> (bytes \<times> bytes) list \<Rightarrow> nat \<Rightarrow> bool" where
  "tl_view it es n \<longleftrightarrow> (\<exists>f idx parts i. index_of compare keys f idx parts \<and> es = concat parts \<and> sound f idx i it \<and>
     (n = length es \<and> no_part it \<or>
      (\<exists>m. i < length parts \<and> m < length (parts ! i) \<and> at_part f (parts ! i) m it \<and> n = part_start parts i + m)))"

lemma iw_view_index: "iw_view xview w idx i \<Longrightarrow> i \<le> length idx" "iw_view xview w idx i \<Longrightarrow> iw_valid w \<longleftrightarrow> i < length idx"
  using index.view_le by (auto simp: iw_view_def)

lemma iw_view_data: "iw_view dview w part m \<Longrightarrow> m \<le> length part" "iw_view dview w part m \<Longrightarrow> iw_valid w \<longleftrightarrow> m < length part"
  "iw_view dview w part m \<Longrightarrow> iw_iter w \<noteq> None"
  using data.view_le by (auto simp: iw_view_def)

lemma at_partD:
  assumes "at_part f part m it"
  shows "m \<le> length part" "iw_valid (tl_data_iter it) \<longleftrightarrow> m < length part" "iw_iter (tl_data_iter it) \<noteq> None"
  using assms iw_view_data unfolding at_part_def by blast+

lemma soundD:
  assumes "sound f idx i it"
  shows "i \<le> length idx" "iw_valid (tl_index_iter it) \<longleftrightarrow> i < length idx"
  using assms iw_view_index unfolding sound_def by blast+

lemma SetDataIterator_ok:
  assumes "sound f idx i it" "no_part it \<or> (\<exists>part m. at_part f part m it)"
  shows "SetDataIterator D iter it = it\<lparr>tl_data_iter := iw_Set D iter (tl_data_iter it)\<rparr>"
proof -
  have "Status_ok (iw_status D (tl_data_iter it))" if "iw_iter (tl_data_iter it) \<noteq> None"
    using assms(2) that data.iw_view_status by (auto simp: no_part_def at_part_def)
  then show ?thesis by (auto simp: SetDataIterator_def SaveError_def Let_def)
qed

lemma drop_part:
  assumes "sound f idx i it" "no_part it \<or> (\<exists>part m. at_part f part m it)"
  shows "sound f idx i (SetDataIterator D None it) \<and> no_part (SetDataIterator D None it)"
  using assms(1) by (simp add: SetDataIterator_ok [OF assms] sound_def no_part_def iw_Set_def)

lemma InitDataBlock_ok:
  assumes idx: "index_of compare keys f idx parts" and "sound f idx i it" "no_part it \<or> (\<exists>part m. at_part f part m it)"
  shows "\<exists>it'. InitDataBlock X D block_function it = Some it' \<and> sound f idx i it' \<and>
    (if i < length idx then \<exists>m. at_part f (parts ! i) m it' else no_part it')"
proof (cases "i < length idx")
  case False
  then have "\<not> iw_valid (tl_index_iter it)" using assms(2) iw_view_index by (auto simp: sound_def)
  with False drop_part [OF assms(2,3)] show ?thesis by (simp add: InitDataBlock_def)
next
  case True
  have valid: "iw_valid (tl_index_iter it)" using True assms(2) iw_view_index by (auto simp: sound_def)
  have handle: "iw_value X (tl_index_iter it) = snd (idx ! i)"
    using assms(2) True index.iw_view_value by (auto simp: sound_def)
  have part: "f (snd (idx ! i)) = Some (parts ! i)" using idx True by (simp add: index_of_def)
  show ?thesis
  proof (cases "iw_iter (tl_data_iter it) \<noteq> None \<and> Slice_compare (snd (idx ! i)) (tl_data_block_handle it) = 0")
    case True
    then have "\<exists>m. at_part f (parts ! i) m it"
      using assms(3) part lex_cmp_eq_0 [of "snd (idx ! i)"] by (auto simp: no_part_def at_part_def Slice_compare_lex)
    with True valid handle assms(2) \<open>i < length idx\<close> show ?thesis by (simp add: InitDataBlock_def)
  next
    case False
    obtain d arg m where d: "block_function (tl_arg it) (tl_options it) (snd (idx ! i)) = Some (d, arg)"
      "reads arg (tl_options it) f" "dview d (parts ! i) m"
      using block_function_reads part assms(2) unfolding sound_def by blast
    let ?it = "it\<lparr>tl_arg := arg, tl_data_block_handle := snd (idx ! i)\<rparr>"
    let ?new = "?it\<lparr>tl_data_iter := iw_Set D (Some d) (tl_data_iter it)\<rparr>"
    have "SetDataIterator D (Some d) ?it = ?new"
    proof -
      have "Status_ok (iw_status D (tl_data_iter it))" if "iw_iter (tl_data_iter it) \<noteq> None"
        using assms(3) that data.iw_view_status by (auto simp: no_part_def at_part_def)
      then show ?thesis by (auto simp: SetDataIterator_def SaveError_def Let_def)
    qed
    moreover have "sound f idx i ?new" "at_part f (parts ! i) m ?new"
      using assms(2) d(2,3) part data.iw_Set_view by (auto simp: sound_def at_part_def)
    moreover have "InitDataBlock X D block_function it = Some (SetDataIterator D (Some d) ?it)"
      unfolding InitDataBlock_def Let_def handle if_not_P [OF False] using valid d(1) by simp
    ultimately show ?thesis using \<open>i < length idx\<close> by auto
  qed
qed

lemma move_data_ok:
  assumes "at_part f part m it" "\<exists>w. move (tl_data_iter it) = Some w \<and> iw_view dview w part m'"
  shows "\<exists>w. move_data move it = Some (it\<lparr>tl_data_iter := w\<rparr>) \<and> at_part f part m' (it\<lparr>tl_data_iter := w\<rparr>)"
proof -
  obtain w where w: "move (tl_data_iter it) = Some w" "iw_view dview w part m'" using assms(2) by blast
  have "iw_iter (tl_data_iter it) \<noteq> None" using assms(1) iw_view_data(3) by (auto simp: at_part_def)
  with w assms(1) show ?thesis by (intro exI [of _ w]) (simp add: move_data_def at_part_def)
qed

lemma move_data_none: "no_part it \<Longrightarrow> move_data move it = Some it"
  by (simp add: move_data_def no_part_def)

lemma sound_data: "sound f idx i (it\<lparr>tl_data_iter := w\<rparr>) \<longleftrightarrow> sound f idx i it"
  by (simp add: sound_def)

lemma move_index_ok:
  assumes "sound f idx i it" "\<exists>w. move (tl_index_iter it) = Some w \<and> iw_view xview w idx i'"
  shows "\<exists>it'. move_index move it = Some it' \<and> sound f idx i' it' \<and>
    (no_part it' \<longleftrightarrow> no_part it) \<and> (\<forall>part m. at_part f part m it' \<longleftrightarrow> at_part f part m it)"
  using assms by (auto simp: move_index_def sound_def no_part_def at_part_def)

lemma tl_view_end:
  assumes "index_of compare keys f idx parts" "sound f idx i it" "no_part it"
  shows "tl_view it (concat parts) (length (concat parts))"
  unfolding tl_view_def using assms by blast

lemma tl_view_part:
  assumes "index_of compare keys f idx parts" "sound f idx i it" "i < length parts" "m < length (parts ! i)" "at_part f (parts ! i) m it"
  shows "tl_view it (concat parts) (part_start parts i + m)"
  unfolding tl_view_def using assms by blast

lemma Skip_stays:
  assumes "index_of compare keys f idx parts" "sound f idx i it" "i < length parts" "m < length (parts ! i)" "at_part f (parts ! i) m it"
  shows "SkipEmptyDataBlocksForward X D block_function it = Some it" "SkipEmptyDataBlocksBackward X D block_function it = Some it"
  using assms(4) at_partD [OF assms(5)]
  by (auto simp: SkipEmptyDataBlocksForward.simps [of X D block_function it]
      SkipEmptyDataBlocksBackward.simps [of X D block_function it])

lemma Skip_ends:
  assumes "index_of compare keys f idx parts" "sound f idx (length idx) it" "no_part it"
  shows "\<exists>it'. SkipEmptyDataBlocksForward X D block_function it = Some it' \<and> tl_view it' (concat parts) (length (concat parts))"
    "\<exists>it'. SkipEmptyDataBlocksBackward X D block_function it = Some it' \<and> tl_view it' (concat parts) (length (concat parts))"
proof -
  have "iw_iter (tl_data_iter it) = None" "\<not> iw_valid (tl_index_iter it)"
    using assms(2,3) iw_view_index by (auto simp: sound_def no_part_def)
  moreover have "tl_view (SetDataIterator D None it) (concat parts) (length (concat parts))"
    using drop_part [of f idx "length idx" it] assms tl_view_end by blast
  ultimately show "\<exists>it'. SkipEmptyDataBlocksForward X D block_function it = Some it' \<and> tl_view it' (concat parts) (length (concat parts))"
    "\<exists>it'. SkipEmptyDataBlocksBackward X D block_function it = Some it' \<and> tl_view it' (concat parts) (length (concat parts))"
    by (auto simp: SkipEmptyDataBlocksForward.simps [of X D block_function it]
        SkipEmptyDataBlocksBackward.simps [of X D block_function it])
qed

text \<open>
  One turn of the first three lines of a movement: after the index iterator moved to \<open>i\<close>, the data
  block is opened and positioned.
\<close>

lemma open_part:
  assumes idx: "index_of compare keys f idx parts" and it: "sound f idx i it" "no_part it \<or> (\<exists>part m. at_part f part m it)"
    and move: "\<And>w m. i < length parts \<Longrightarrow> iw_view dview w (parts ! i) m \<Longrightarrow> \<exists>w'. move w = Some w' \<and> iw_view dview w' (parts ! i) m'"
  shows "\<exists>it'. InitDataBlock X D block_function it \<bind> move_data move = Some it' \<and> sound f idx i it' \<and>
    (if i < length parts then at_part f (parts ! i) m' it' else no_part it')"
proof -
  have len: "length idx = length parts" using idx by (simp add: index_of_def)
  obtain it1 where 1: "InitDataBlock X D block_function it = Some it1" "sound f idx i it1"
    "if i < length idx then \<exists>m. at_part f (parts ! i) m it1 else no_part it1"
    using InitDataBlock_ok [OF idx it] by blast
  show ?thesis
  proof (cases "i < length parts")
    case True
    then obtain m where m: "at_part f (parts ! i) m it1" using 1(3) len by auto
    have "\<exists>w. move (tl_data_iter it1) = Some w \<and> iw_view dview w (parts ! i) m'"
      using move [OF True] m by (auto simp: at_part_def)
    from move_data_ok [where move = move and m' = m', OF m this] 1(1,2) True show ?thesis by (auto simp: sound_data)
  next
    case False
    with 1 len move_data_none show ?thesis by auto
  qed
qed

lemma Forward_ok:
  assumes idx: "index_of compare keys f idx parts"
  shows "sound f idx i it \<Longrightarrow> i < length parts \<Longrightarrow> at_part f (parts ! i) m it \<Longrightarrow>
    \<exists>it'. SkipEmptyDataBlocksForward X D block_function it = Some it' \<and> tl_view it' (concat parts) (part_start parts i + m)"
proof (induction "length parts - i" arbitrary: i it m)
  case 0
  then show ?case by simp
next
  case (Suc d)
  have len: "length idx = length parts" using idx by (simp add: index_of_def)
  have m: "m \<le> length (parts ! i)" using Suc.prems(3) iw_view_data by (auto simp: at_part_def)
  show ?case
  proof (cases "m < length (parts ! i)")
    case True
    show ?thesis using Skip_stays(1) [OF idx Suc.prems(1,2) True Suc.prems(3)]
        tl_view_part [OF idx Suc.prems(1,2) True Suc.prems(3)] by blast
  next
    case False
    then have pos: "part_start parts i + m = part_start parts (Suc i)" using m Suc.prems(2) by (simp add: part_start_Suc)
    have "iw_view xview (tl_index_iter it) idx i" using Suc.prems(1) by (simp add: sound_def)
    then have "\<exists>w. iw_Next X (tl_index_iter it) = Some w \<and> iw_view xview w idx (Suc i)"
      using index.iw_moves(4) Suc.prems(2) len by metis
    then obtain it1 where it1: "move_index (iw_Next X) it = Some it1" "sound f idx (Suc i) it1"
      "no_part it1 \<or> (\<exists>part m. at_part f part m it1)"
      using move_index_ok [OF Suc.prems(1)] Suc.prems(3) by blast
    obtain it2 where it2: "InitDataBlock X D block_function it1 \<bind> move_data (iw_SeekToFirst D) = Some it2" "sound f idx (Suc i) it2"
      "if Suc i < length parts then at_part f (parts ! Suc i) 0 it2 else no_part it2"
      using open_part [OF idx it1(2,3), of "iw_SeekToFirst D" 0] data.iw_moves(1) by blast
    have step: "SkipEmptyDataBlocksForward X D block_function it = SkipEmptyDataBlocksForward X D block_function it2"
    proof -
      have "iw_valid (tl_index_iter it)" "\<not> iw_valid (tl_data_iter it)"
        using Suc.prems(2) False soundD(2) [OF Suc.prems(1)] at_partD(2) [OF Suc.prems(3)] len by simp_all
      then show ?thesis using it1(1) it2(1)
        by (subst SkipEmptyDataBlocksForward.simps) (auto simp: Option.bind_eq_Some_conv)
    qed
    show ?thesis
    proof (cases "Suc i < length parts")
      case True
      with Suc.hyps it2 show ?thesis unfolding step pos using Suc.hyps(1) [of "Suc i" it2 0] by simp
    next
      case False
      then have "Suc i = length idx" using Suc.prems(2) len by simp
      with False it2 Skip_ends(1) [OF idx, of it2] show ?thesis unfolding step pos by (simp add: len part_start_all)
    qed
  qed
qed

lemma Backward_step:
  assumes "sound f idx i it" "i < length parts" "at_part f (parts ! i) (length (parts ! i)) it"
    and "move_index (iw_Prev X) it = Some it1" "InitDataBlock X D block_function it1 \<bind> move_data (iw_SeekToLast D) = Some it2"
    and "length idx = length parts"
  shows "SkipEmptyDataBlocksBackward X D block_function it = SkipEmptyDataBlocksBackward X D block_function it2"
proof -
  have "iw_valid (tl_index_iter it)" "\<not> iw_valid (tl_data_iter it)"
    using assms(2,6) soundD(2) [OF assms(1)] at_partD(2) [OF assms(3)] by simp_all
  then show ?thesis using assms(4,5)
    by (subst SkipEmptyDataBlocksBackward.simps) (auto simp: Option.bind_eq_Some_conv)
qed

text \<open>At the last entry of a part, which may be empty.\<close>

lemma Backward_last:
  assumes idx: "index_of compare keys f idx parts" and it: "sound f idx i it" "i < length parts"
    "at_part f (parts ! i) (length (parts ! i) - 1) it"
    and empty: "at_part f (parts ! i) (length (parts ! i)) it \<Longrightarrow> \<exists>it'. SkipEmptyDataBlocksBackward X D block_function it = Some it' \<and>
      tl_view it' (concat parts) (if part_start parts i = 0 then length (concat parts) else part_start parts i - 1)"
  shows "\<exists>it'. SkipEmptyDataBlocksBackward X D block_function it = Some it' \<and>
    tl_view it' (concat parts) (if part_start parts (Suc i) = 0 then length (concat parts) else part_start parts (Suc i) - 1)"
proof (cases "parts ! i = []")
  case True
  with it(3) empty show ?thesis by (simp add: part_start_Suc [OF it(2)] split: if_splits)
next
  case False
  then have lt: "length (parts ! i) - 1 < length (parts ! i)" by simp
  have "part_start parts (Suc i) - 1 = part_start parts i + (length (parts ! i) - 1)" "part_start parts (Suc i) \<noteq> 0"
    unfolding part_start_Suc [OF it(2)] using lt by linarith+
  then show ?thesis using Skip_stays(2) [OF idx it(1,2) lt it(3)] tl_view_part [OF idx it(1,2) lt it(3)] by simp
qed

lemma Backward_ok:
  assumes idx: "index_of compare keys f idx parts"
  shows "sound f idx i it \<Longrightarrow> i < length parts \<Longrightarrow> at_part f (parts ! i) (length (parts ! i)) it \<Longrightarrow>
    \<exists>it'. SkipEmptyDataBlocksBackward X D block_function it = Some it' \<and>
      tl_view it' (concat parts) (if part_start parts i = 0 then length (concat parts) else part_start parts i - 1)"
proof (induction i arbitrary: it)
  case 0
  have len: "length idx = length parts" using idx by (simp add: index_of_def)
  have "iw_view xview (tl_index_iter it) idx 0" using 0(1) by (simp add: sound_def)
  then have "\<exists>w. iw_Prev X (tl_index_iter it) = Some w \<and> iw_view xview w idx (length idx)"
    using index.iw_moves(5) [of "tl_index_iter it" idx 0] 0(2) len by simp
  then obtain it1 where it1: "move_index (iw_Prev X) it = Some it1" "sound f idx (length idx) it1"
    "no_part it1 \<or> (\<exists>part m. at_part f part m it1)"
    using move_index_ok [OF 0(1)] 0(3) by blast
  obtain it2 where it2: "InitDataBlock X D block_function it1 \<bind> move_data (iw_SeekToLast D) = Some it2" "sound f idx (length idx) it2"
    "no_part it2"
    using open_part [OF idx it1(2,3), of "iw_SeekToLast D" 0] len by auto
  have "SkipEmptyDataBlocksBackward X D block_function it = SkipEmptyDataBlocksBackward X D block_function it2"
    by (rule Backward_step [OF 0 it1(1) it2(1) len])
  with Skip_ends(2) [OF idx it2(2,3)] show ?case by (simp add: part_start_def)
next
  case (Suc i)
  have i: "i < length parts" using Suc.prems(2) by simp
  have "iw_view xview (tl_index_iter it) idx (Suc i)" using Suc.prems(1) by (simp add: sound_def)
  then have "\<exists>w. iw_Prev X (tl_index_iter it) = Some w \<and> iw_view xview w idx i"
    using index.iw_moves(5) [of "tl_index_iter it" idx "Suc i"] Suc.prems(2) idx by (simp add: index_of_def)
  then obtain it1 where it1: "move_index (iw_Prev X) it = Some it1" "sound f idx i it1"
    "no_part it1 \<or> (\<exists>part m. at_part f part m it1)"
    using move_index_ok [OF Suc.prems(1)] Suc.prems(3) by blast
  obtain it2 where it2: "InitDataBlock X D block_function it1 \<bind> move_data (iw_SeekToLast D) = Some it2" "sound f idx i it2"
    "at_part f (parts ! i) (length (parts ! i) - 1) it2"
    using open_part [OF idx it1(2,3), of "iw_SeekToLast D" "length (parts ! i) - 1"] data.iw_moves(2) i by auto
  have step: "SkipEmptyDataBlocksBackward X D block_function it = SkipEmptyDataBlocksBackward X D block_function it2"
    by (rule Backward_step [OF Suc.prems it1(1) it2(1)]) (use idx in \<open>simp add: index_of_def\<close>)
  show ?case unfolding step by (rule Backward_last [OF idx it2(2) i it2(3)]) (rule Suc.IH [OF it2(2) i])
qed

lemma tl_view_cases:
  assumes "tl_view it es n"
  obtains f idx parts i where "index_of compare keys f idx parts" "length idx = length parts" "es = concat parts" "sound f idx i it"
    "no_part it \<or> (\<exists>part m. at_part f part m it)"
    "n = length es \<and> no_part it \<or>
     (\<exists>m. i < length parts \<and> m < length (parts ! i) \<and> at_part f (parts ! i) m it \<and> n = part_start parts i + m)"
proof -
  obtain f idx parts i where v: "index_of compare keys f idx parts" "es = concat parts" "sound f idx i it"
    "n = length es \<and> no_part it \<or>
     (\<exists>m. i < length parts \<and> m < length (parts ! i) \<and> at_part f (parts ! i) m it \<and> n = part_start parts i + m)"
    using assms unfolding tl_view_def by blast
  moreover have "length idx = length parts" using v(1) by (simp add: index_of_def)
  moreover have "no_part it \<or> (\<exists>part m. at_part f part m it)" using v(4) by blast
  ultimately show thesis using that by blast
qed

text \<open>A valid position: the data iterator is on the entry.\<close>

lemma tl_view_valid:
  assumes "tl_view it es n"
  shows "n \<le> length es" "iw_valid (tl_data_iter it) \<longleftrightarrow> n < length es"
    "n < length es \<Longrightarrow> (iw_key (tl_data_iter it), iw_value D (tl_data_iter it)) = es ! n"
proof -
  obtain f idx parts i where v: "es = concat parts" "n = length es \<and> no_part it \<or>
     (\<exists>m. i < length parts \<and> m < length (parts ! i) \<and> at_part f (parts ! i) m it \<and> n = part_start parts i + m)"
    using tl_view_cases [OF assms] by metis
  have "n \<le> length es \<and> (iw_valid (tl_data_iter it) \<longleftrightarrow> n < length es) \<and>
      (n < length es \<longrightarrow> (iw_key (tl_data_iter it), iw_value D (tl_data_iter it)) = es ! n)"
  proof (cases "n = length es \<and> no_part it")
    case True
    then show ?thesis by (simp add: no_part_def)
  next
    case False
    then obtain m where m: "i < length parts" "m < length (parts ! i)" "at_part f (parts ! i) m it" "n = part_start parts i + m"
      using v(2) by blast
    have "n < length es" unfolding m(4) v(1) using m(1,2) by (rule part_start_less)
    moreover have "es ! n = parts ! i ! m" unfolding m(4) v(1) using m(1,2) by (rule part_entry)
    moreover have "iw_key (tl_data_iter it) = fst (parts ! i ! m)" "iw_value D (tl_data_iter it) = snd (parts ! i ! m)"
      using m data.iw_view_value by (auto simp: at_part_def iw_view_def)
    ultimately show ?thesis using at_partD(2) [OF m(3)] m(2) by simp
  qed
  then show "n \<le> length es" "iw_valid (tl_data_iter it) \<longleftrightarrow> n < length es"
    "n < length es \<Longrightarrow> (iw_key (tl_data_iter it), iw_value D (tl_data_iter it)) = es ! n" by blast+
qed

lemma tl_view_status: "tl_view it es n \<Longrightarrow> Status_ok (TwoLevel_status X D it)"
proof -
  assume "tl_view it es n"
  then obtain f idx i where "sound f idx i it" "no_part it \<or> (\<exists>part m. at_part f part m it)"
    using tl_view_cases by metis
  then show ?thesis
    using index.iw_view_status data.iw_view_status by (auto simp: TwoLevel_status_def sound_def no_part_def at_part_def)
qed

lemma tl_forwards:
  assumes idx: "index_of compare keys f idx parts" and it: "sound f idx i0 it" "no_part it \<or> (\<exists>part m. at_part f part m it)"
    and index: "\<exists>w. move_i (tl_index_iter it) = Some w \<and> iw_view xview w idx i"
    and data: "\<And>w m. i < length parts \<Longrightarrow> iw_view dview w (parts ! i) m \<Longrightarrow> \<exists>w'. move_d w = Some w' \<and> iw_view dview w' (parts ! i) m'"
  shows "\<exists>it'. move_index move_i it \<bind> InitDataBlock X D block_function \<bind> move_data move_d \<bind>
      SkipEmptyDataBlocksForward X D block_function = Some it' \<and>
    tl_view it' (concat parts) (if i < length parts then part_start parts i + m' else length (concat parts))"
proof -
  have len: "length idx = length parts" using idx by (simp add: index_of_def)
  obtain it1 where it1: "move_index move_i it = Some it1" "sound f idx i it1" "no_part it1 \<or> (\<exists>part m. at_part f part m it1)"
    using move_index_ok [where move = move_i, OF it(1) index] it(2) by blast
  obtain it2 where it2: "InitDataBlock X D block_function it1 \<bind> move_data move_d = Some it2" "sound f idx i it2"
    "if i < length parts then at_part f (parts ! i) m' it2 else no_part it2"
    using open_part [where move = move_d and m' = m', OF idx it1(2,3)] data by blast
  have step: "move_index move_i it \<bind> InitDataBlock X D block_function \<bind> move_data move_d \<bind> k = k it2" for k
    using it1(1) it2(1) by simp
  show ?thesis
  proof (cases "i < length parts")
    case True
    then show ?thesis unfolding step using Forward_ok [OF idx it2(2) True, of m'] it2(3) by simp
  next
    case False
    then have "i = length idx" using soundD(1) [OF it1(2)] len by simp
    with False it2 Skip_ends(1) [OF idx, of it2] show ?thesis unfolding step by (simp add: len)
  qed
qed

lemma tl_last:
  assumes idx: "index_of compare keys f idx parts" and it: "sound f idx i0 it" "no_part it \<or> (\<exists>part m. at_part f part m it)"
  shows "\<exists>it'. TwoLevel_SeekToLast X D block_function it = Some it' \<and> tl_view it' (concat parts) (length (concat parts) - 1)"
proof -
  have len: "length idx = length parts" using idx by (simp add: index_of_def)
  have "iw_view xview (tl_index_iter it) idx i0" using it(1) by (simp add: sound_def)
  then obtain it1 where it1: "move_index (iw_SeekToLast X) it = Some it1" "sound f idx (length parts - 1) it1"
    "no_part it1 \<or> (\<exists>part m. at_part f part m it1)"
    using move_index_ok [where move = "iw_SeekToLast X", OF it(1) index.iw_moves(2)] it(2) len by metis
  let ?i = "length parts - 1"
  obtain it2 where it2: "InitDataBlock X D block_function it1 \<bind> move_data (iw_SeekToLast D) = Some it2" "sound f idx ?i it2"
    "if ?i < length parts then at_part f (parts ! ?i) (length (parts ! ?i) - 1) it2 else no_part it2"
    using open_part [where move = "iw_SeekToLast D" and m' = "length (parts ! ?i) - 1", OF idx it1(2,3)] data.iw_moves(2) by blast
  have step: "TwoLevel_SeekToLast X D block_function it = SkipEmptyDataBlocksBackward X D block_function it2"
    using it1(1) it2(1) by (auto simp: TwoLevel_SeekToLast_def Option.bind_eq_Some_conv)
  show ?thesis
  proof (cases "parts = []")
    case True
    then show ?thesis unfolding step using Skip_ends(2) [OF idx, of it2] it2(2,3) len by simp
  next
    case False
    then have i: "?i < length parts" "Suc ?i = length parts" by simp_all
    have at: "at_part f (parts ! ?i) (length (parts ! ?i) - 1) it2" using it2(3) i by simp
    have "(if n = 0 then n else n - 1) = n - 1" for n :: nat by simp
    with Backward_last [OF idx it2(2) i(1) at Backward_ok [OF idx it2(2) i(1)]] show ?thesis
      unfolding step i(2) part_start_all by (simp only:)
  qed
qed

lemma tl_seek_position:
  assumes idx: "index_of compare keys f idx parts" and "keys target"
  shows "seek_index compare target (concat parts) =
    (let i = seek_index compare target idx in
     if i < length parts then part_start parts i + seek_index compare target (parts ! i) else length (concat parts))"
proof -
  define i where "i = seek_index compare target idx"
  have len: "length idx = length parts" and order: "key_order compare keys" using idx by (simp_all add: index_of_def)
  have before: "compare (fst (idx ! j)) target < 0" if "j < i" for j
    using that by (metis i_def nth_mem seek_index_def set_takeWhileD takeWhile_nth)
  have keys: "keys (fst e)" if "e \<in> set idx \<union> set (concat parts)" for e using idx that by (simp add: index_of_def)
  have i: "i \<le> length parts" unfolding i_def using seek_index_le len by metis
  have left: "compare (fst e) target < 0" if e: "e \<in> set (concat (take i parts))" for e
  proof -
    have pos: "0 < i" using e by (cases i) auto
    then have j: "i - 1 < length idx" "Suc (i - 1) = i" using i len by auto
    then have "compare (fst e) (fst (idx ! (i - 1))) \<le> 0" using idx e unfolding index_of_def by metis
    moreover have "keys (fst e)" by (rule keys) (use e set_take_subset [of i parts] in \<open>auto\<close>)
    moreover have "keys (fst (idx ! (i - 1)))" using j(1) keys by simp
    ultimately show ?thesis using key_order.compare_le_less_trans [OF order] before [of "i - 1"] pos assms(2) by simp
  qed
  show ?thesis
  proof (cases "i < length parts")
    case False
    then have "\<forall>e \<in> set (concat parts). compare (fst e) target < 0" using left i by simp
    with False seek_index_append [of "concat parts" compare target "[]"] show ?thesis
      unfolding i_def [symmetric] Let_def by (simp add: seek_index_def)
  next
    case True
    have at: "\<not> compare (fst (idx ! i)) target < 0"
      using True len nth_length_takeWhile [of "\<lambda>e. compare (fst e) target < 0" idx] by (simp add: i_def seek_index_def)
    have right: "\<not> compare (fst e) target < 0" if e: "e \<in> set (concat (drop (Suc i) parts))" for e
    proof
      assume "compare (fst e) target < 0"
      moreover have "compare (fst (idx ! i)) (fst e) < 0" using idx e True len unfolding index_of_def by metis
      moreover have "keys (fst e)" by (rule keys) (use e set_drop_subset [of "Suc i" parts] in \<open>auto\<close>)
      moreover have "keys (fst (idx ! i))" using keys True len by simp
      ultimately show False using key_order.compare_less_trans [OF order] at assms(2) by blast
    qed
    have "seek_index compare target (concat parts) = part_start parts i + seek_index compare target (parts ! i)"
      by (subst concat_split [OF True])
         (use left right in \<open>simp add: part_start_def seek_index_append seek_index_none\<close>)
    with True show ?thesis by (simp add: i_def [symmetric] Let_def)
  qed
qed

lemma contract: "iterator_contract (TwoLevelIterator X D block_function) compare keys tl_view"
proof
  fix it es n
  assume v: "tl_view it es n"
  show "n \<le> length es" "it_Valid (TwoLevelIterator X D block_function) it \<longleftrightarrow> n < length es"
    "Status_ok (it_status (TwoLevelIterator X D block_function) it)"
    using tl_view_valid [OF v] tl_view_status [OF v] by (simp_all add: TwoLevelIterator_def TwoLevel_Valid_def)
  obtain f idx parts i where w: "index_of compare keys f idx parts" "length idx = length parts" "es = concat parts" "sound f idx i it"
    "no_part it \<or> (\<exists>part m. at_part f part m it)"
    "n = length es \<and> no_part it \<or>
     (\<exists>m. i < length parts \<and> m < length (parts ! i) \<and> at_part f (parts ! i) m it \<and> n = part_start parts i + m)"
    using tl_view_cases [OF v] by blast
  have xview: "iw_view xview (tl_index_iter it) idx i" using w(4) by (simp add: sound_def)
  show "\<exists>it'. it_SeekToFirst (TwoLevelIterator X D block_function) it = Some it' \<and> tl_view it' es 0"
  proof -
    have "(if 0 < length parts then part_start parts 0 + 0 else length (concat parts)) = 0" by (simp add: part_start_def)
    then show ?thesis
      using tl_forwards [where move_i = "iw_SeekToFirst X" and move_d = "iw_SeekToFirst D" and m' = 0,
          OF w(1,4,5) index.iw_moves(1) [OF xview]] data.iw_moves(1)
      by (simp add: TwoLevelIterator_def TwoLevel_SeekToFirst_def w(3) bind_assoc_option)
  qed
  show "\<exists>it'. it_Seek (TwoLevelIterator X D block_function) target it = Some it' \<and> tl_view it' es (seek_index compare target es)"
    if "keys target" for target
    using tl_forwards [where move_i = "iw_Seek X target" and move_d = "iw_Seek D target"
          and m' = "seek_index compare target (parts ! seek_index compare target idx)",
          OF w(1,4,5) index.iw_moves(3) [OF xview that]] data.iw_moves(3) [OF _ that]
      tl_seek_position [OF w(1) that]
    by (simp add: TwoLevelIterator_def TwoLevel_Seek_def w(3) Let_def bind_assoc_option)
  show "\<exists>it'. it_SeekToLast (TwoLevelIterator X D block_function) it = Some it' \<and> tl_view it' es (length es - 1)"
    using tl_last [OF w(1,4,5)] by (simp add: TwoLevelIterator_def w(3))
  assume lt: "n < length es"
  then obtain m where m: "i < length parts" "m < length (parts ! i)" "at_part f (parts ! i) m it" "n = part_start parts i + m"
    using w(6) by blast
  show "(it_key (TwoLevelIterator X D block_function) it, it_value (TwoLevelIterator X D block_function) it) = es ! n"
    using tl_view_valid(3) [OF v lt] by (simp add: TwoLevelIterator_def)
  have dview: "iw_view dview (tl_data_iter it) (parts ! i) m" using m(3) by (simp add: at_part_def)
  have valid: "TwoLevel_Valid it" using tl_view_valid(2) [OF v] lt by (simp add: TwoLevel_Valid_def)
  have moved: "at_part f (parts ! i) m' (it\<lparr>tl_data_iter := w'\<rparr>)" if "iw_view dview w' (parts ! i) m'" for w' m'
    using that m(3) by (simp add: at_part_def)
  have sound: "sound f idx i (it\<lparr>tl_data_iter := w'\<rparr>)" for w' using w(4) by (simp add: sound_data)
  obtain w1 where w1: "iw_Next D (tl_data_iter it) = Some w1" "iw_view dview w1 (parts ! i) (Suc m)"
    using data.iw_moves(4) [OF dview m(2)] by blast
  show "\<exists>it'. it_Next (TwoLevelIterator X D block_function) it = Some it' \<and> tl_view it' es (Suc n)"
    using Forward_ok [OF w(1) sound m(1) moved [OF w1(2)]] valid w1(1)
    by (simp add: TwoLevelIterator_def TwoLevel_Next_def w(3) m(4))
  obtain w2 where w2: "iw_Prev D (tl_data_iter it) = Some w2" "iw_view dview w2 (parts ! i) (if m = 0 then length (parts ! i) else m - 1)"
    using data.iw_moves(5) [OF dview m(2)] by blast
  show "\<exists>it'. it_Prev (TwoLevelIterator X D block_function) it = Some it' \<and> tl_view it' es (if n = 0 then length es else n - 1)"
  proof (cases m)
    case 0
    then have "iw_view dview w2 (parts ! i) (length (parts ! i))" using w2(2) by simp
    from Backward_ok [OF w(1) sound m(1) moved [OF this]] show ?thesis using 0 w2(1) valid
      by (simp add: TwoLevelIterator_def TwoLevel_Prev_def w(3) m(4) split: if_splits)
  next
    case (Suc m')
    have "m' < length (parts ! i)" using m(2) Suc by simp
    then show ?thesis using Skip_stays(2) [OF w(1) sound m(1) _ moved, of m' w2] tl_view_part [OF w(1) sound m(1) _ moved, of m' w2]
        w2 valid Suc by (simp add: TwoLevelIterator_def TwoLevel_Prev_def w(3) m(4))
  qed
qed

end

end
