(* ===== verification/Handle_Table.thy ===== *)
theory Handle_Table
  imports Bloom "HOL-Library.Monad_Syntax" "HOL-Library.Multiset"
begin

text \<open>
  \<^verbatim>\<open>util/cache.cc\<close>, first part: the cache entries (\<open>LRUHandle\<close>) in an explicit heap, and the hash
  table of the cache, whose buckets are chains of heap addresses.  A chain linked through
  \<open>next_hash\<close> is the list of its addresses; reading an address that was freed gives \<open>None\<close>.
\<close>

type_synonym addr = nat

record 'v lru_handle =
  h_value :: 'v
  h_charge :: u64
  h_key :: bytes
  h_in_cache :: bool
  h_refs :: u32
  h_hash :: u32

type_synonym 'v handles = "addr \<rightharpoonup> 'v lru_handle"

record handle_table =
  ht_length :: u32
  ht_elems :: u32
  ht_list :: "addr list list"

definition bucket_of :: "u32 \<Rightarrow> u32 \<Rightarrow> nat" where
  "bucket_of hash len = unat (hash AND (len - 1))"

text \<open>The slot in a chain: the position of the entry, or the end of the chain.\<close>

fun find_slot :: "'v handles \<Rightarrow> bytes \<Rightarrow> u32 \<Rightarrow> addr list \<Rightarrow> nat option" where
  "find_slot H key hash [] = Some 0"
| "find_slot H key hash (p # chain) = do {
     h \<leftarrow> H p;
     if h_hash h \<noteq> hash \<or> key \<noteq> h_key h then map_option Suc (find_slot H key hash chain) else Some 0 }"

definition FindPointer :: "'v handles \<Rightarrow> bytes \<Rightarrow> u32 \<Rightarrow> handle_table \<Rightarrow> (nat \<times> nat) option" where
  "FindPointer H key hash t =
     (let i = bucket_of hash (ht_length t)
      in if i < length (ht_list t) then do { j \<leftarrow> find_slot H key hash (ht_list t ! i); Some (i, j) } else None)"

definition slot_content :: "nat \<times> nat \<Rightarrow> handle_table \<Rightarrow> addr option" where
  "slot_content ptr t = (let chain = ht_list t ! fst ptr in if snd ptr < length chain then Some (chain ! snd ptr) else None)"

definition HandleTable_Lookup :: "'v handles \<Rightarrow> bytes \<Rightarrow> u32 \<Rightarrow> handle_table \<Rightarrow> addr option option" where
  "HandleTable_Lookup H key hash t = do { ptr \<leftarrow> FindPointer H key hash t; Some (slot_content ptr t) }"

text \<open>Doubling wraps around at \<open>2 ^ 32\<close>, after which the loop does not end.\<close>

partial_function (option) grow_length :: "u32 \<Rightarrow> u32 \<Rightarrow> u32 option" where
  "grow_length new_length elems = (if new_length < elems then grow_length (new_length * 2) elems else Some new_length)"

fun rehash_chain :: "'v handles \<Rightarrow> u32 \<Rightarrow> addr list \<Rightarrow> addr list list \<Rightarrow> addr list list option" where
  "rehash_chain H new_length [] new_list = Some new_list"
| "rehash_chain H new_length (p # chain) new_list = do {
     h \<leftarrow> H p;
     let i = bucket_of (h_hash h) new_length;
     rehash_chain H new_length chain (new_list[i := p # new_list ! i]) }"

fun rehash :: "'v handles \<Rightarrow> u32 \<Rightarrow> addr list list \<Rightarrow> addr list list \<Rightarrow> addr list list option" where
  "rehash H new_length [] new_list = Some new_list"
| "rehash H new_length (chain # rest) new_list = do {
     new_list \<leftarrow> rehash_chain H new_length chain new_list;
     rehash H new_length rest new_list }"

definition HandleTable_Resize :: "'v handles \<Rightarrow> handle_table \<Rightarrow> handle_table option" where
  "HandleTable_Resize H t = do {
     new_length \<leftarrow> grow_length 4 (ht_elems t);
     new_list \<leftarrow> rehash H new_length (ht_list t) (replicate (unat new_length) []);
     Some (t\<lparr>ht_list := new_list, ht_length := new_length\<rparr>) }"

definition HandleTable_make :: "'v handles \<Rightarrow> handle_table option" where
  "HandleTable_make H = HandleTable_Resize H \<lparr>ht_length = 0, ht_elems = 0, ht_list = []\<rparr>"

definition HandleTable_Insert :: "'v handles \<Rightarrow> addr \<Rightarrow> handle_table \<Rightarrow> (addr option \<times> handle_table) option" where
  "HandleTable_Insert H p t = do {
     h \<leftarrow> H p;
     (i, j) \<leftarrow> FindPointer H (h_key h) (h_hash h) t;
     let chain = ht_list t ! i;
     (case slot_content (i, j) t of
        Some old \<Rightarrow> Some (Some old, t\<lparr>ht_list := (ht_list t)[i := chain[j := p]]\<rparr>)
      | None \<Rightarrow> do {
          let t = t\<lparr>ht_list := (ht_list t)[i := chain @ [p]], ht_elems := ht_elems t + 1\<rparr>;
          t \<leftarrow> (if ht_length t < ht_elems t then HandleTable_Resize H t else Some t);
          Some (None, t) }) }"

definition HandleTable_Remove :: "'v handles \<Rightarrow> bytes \<Rightarrow> u32 \<Rightarrow> handle_table \<Rightarrow> (addr option \<times> handle_table) option" where
  "HandleTable_Remove H key hash t = do {
     (i, j) \<leftarrow> FindPointer H key hash t;
     let chain = ht_list t ! i;
     Some (case slot_content (i, j) t of
        Some result \<Rightarrow> (Some result, t\<lparr>ht_list := (ht_list t)[i := take j chain @ drop (Suc j) chain], ht_elems := ht_elems t - 1\<rparr>)
      | None \<Rightarrow> (None, t)) }"

subsection \<open>The table as a finite map\<close>

abbreviation table_entries :: "handle_table \<Rightarrow> addr list" where
  "table_entries t \<equiv> concat (ht_list t)"

definition tag :: "'v handles \<Rightarrow> addr \<Rightarrow> (bytes \<times> u32) option" where
  "tag H p = map_option (\<lambda>h. (h_key h, h_hash h)) (H p)"

text \<open>
  The number of buckets is a power of two, every entry is in the bucket of its hash, and no two
  entries have the same key and hash.
\<close>

definition buckets_ok :: "'v handles \<Rightarrow> u32 \<Rightarrow> addr list list \<Rightarrow> bool" where
  "buckets_ok H len list \<longleftrightarrow> length list = unat len \<and> (\<exists>k. unat len = 2 ^ k) \<and>
     (\<forall>i < length list. \<forall>p \<in> set (list ! i). \<exists>h. H p = Some h \<and> bucket_of (h_hash h) len = i)"

definition table_ok :: "'v handles \<Rightarrow> handle_table \<Rightarrow> bool" where
  "table_ok H t \<longleftrightarrow> buckets_ok H (ht_length t) (ht_list t) \<and> distinct (map (tag H) (table_entries t)) \<and>
     length (table_entries t) < 2 ^ 31 \<and> unat (ht_elems t) = length (table_entries t)"

lemma buckets_okD:
  "buckets_ok H len list \<Longrightarrow> i < length list \<Longrightarrow> p \<in> set (list ! i) \<Longrightarrow> \<exists>h. H p = Some h \<and> bucket_of (h_hash h) len = i"
  unfolding buckets_ok_def by blast

lemma bucket_of_less:
  assumes "unat len = 2 ^ k"
  shows "bucket_of hash len < unat len"
proof -
  have "len \<noteq> 0" using assms by auto
  then have "unat (len - 1) < unat len" by (simp add: unat_minus_one unat_gt_0)
  moreover have "unat (hash AND (len - 1)) \<le> unat (len - 1)"
    by (metis and.commute word_and_le2 word_le_nat_alt)
  ultimately show ?thesis by (simp add: bucket_of_def)
qed

lemma distinct_tag_entries: "distinct (map (tag H) ps) \<Longrightarrow> distinct ps"
  by (simp add: distinct_map)

text \<open>Searching a chain in which every address is valid.\<close>

lemma find_slot_ok:
  "\<forall>p \<in> set chain. H p \<noteq> None \<Longrightarrow> \<exists>j. find_slot H key hash chain = Some j \<and> j \<le> length chain \<and>
    (\<forall>i < j. tag H (chain ! i) \<noteq> Some (key, hash)) \<and> (j < length chain \<longrightarrow> tag H (chain ! j) = Some (key, hash))"
proof (induction chain)
  case (Cons p chain)
  then obtain h where h: "H p = Some h" by auto
  obtain j where j: "find_slot H key hash chain = Some j" "j \<le> length chain"
    "\<forall>i < j. tag H (chain ! i) \<noteq> Some (key, hash)" "j < length chain \<longrightarrow> tag H (chain ! j) = Some (key, hash)"
    using Cons by auto
  show ?case
  proof (cases "h_hash h \<noteq> hash \<or> key \<noteq> h_key h")
    case True
    have "tag H ((p # chain) ! i) \<noteq> Some (key, hash)" if "i < Suc j" for i
      using that True j(3) h by (cases i) (auto simp: tag_def)
    with True h j show ?thesis by (intro exI [of _ "Suc j"]) auto
  next
    case False
    with h show ?thesis by (intro exI [of _ 0]) (auto simp: tag_def)
  qed
qed simp

lemma FindPointer_ok:
  assumes "table_ok H t"
  shows "\<exists>i j. FindPointer H key hash t = Some (i, j) \<and> i = bucket_of hash (ht_length t) \<and> i < length (ht_list t) \<and>
    j \<le> length (ht_list t ! i) \<and> (j < length (ht_list t ! i) \<longrightarrow> tag H (ht_list t ! i ! j) = Some (key, hash)) \<and>
    (j = length (ht_list t ! i) \<longrightarrow> (\<forall>p \<in> set (table_entries t). tag H p \<noteq> Some (key, hash)))"
proof -
  define i where "i = bucket_of hash (ht_length t)"
  have b: "buckets_ok H (ht_length t) (ht_list t)" using assms by (simp add: table_ok_def)
  then obtain k where k: "unat (ht_length t) = 2 ^ k" "length (ht_list t) = unat (ht_length t)" by (auto simp: buckets_ok_def)
  have i: "i < length (ht_list t)" using bucket_of_less [OF k(1), of hash] k(2) by (simp add: i_def)
  have "\<forall>p \<in> set (ht_list t ! i). H p \<noteq> None" using buckets_okD [OF b i] by blast
  from find_slot_ok [OF this, of key hash] obtain j where j: "find_slot H key hash (ht_list t ! i) = Some j" "j \<le> length (ht_list t ! i)"
    "\<forall>l < j. tag H (ht_list t ! i ! l) \<noteq> Some (key, hash)"
    "j < length (ht_list t ! i) \<longrightarrow> tag H (ht_list t ! i ! j) = Some (key, hash)" by blast
  have "tag H p \<noteq> Some (key, hash)" if all: "j = length (ht_list t ! i)" and p: "p \<in> set (table_entries t)" for p
  proof
    assume eq: "tag H p = Some (key, hash)"
    obtain l where l: "l < length (ht_list t)" "p \<in> set (ht_list t ! l)" using p by (metis in_set_conv_nth set_concat UN_E)
    obtain h where "H p = Some h" "bucket_of (h_hash h) (ht_length t) = l" using buckets_okD [OF b l] by blast
    then have "l = i" using eq by (auto simp: tag_def i_def)
    then show False using j(3) all l(2) eq by (metis in_set_conv_nth)
  qed
  with i j show ?thesis by (auto simp: FindPointer_def i_def [symmetric])
qed

text \<open>The only entry with a tag.\<close>

definition found :: "'v handles \<Rightarrow> addr list \<Rightarrow> bytes \<times> u32 \<Rightarrow> addr option \<Rightarrow> bool" where
  "found H ps x r \<longleftrightarrow> (\<forall>p. r = Some p \<longleftrightarrow> p \<in> set ps \<and> tag H p = Some x)"

lemma found_Some: "distinct (map (tag H) ps) \<Longrightarrow> p \<in> set ps \<Longrightarrow> tag H p = Some x \<Longrightarrow> found H ps x (Some p)"
  by (auto simp: found_def distinct_map inj_on_def)

lemma found_None: "\<forall>p \<in> set ps. tag H p \<noteq> Some x \<Longrightarrow> found H ps x None"
  by (auto simp: found_def)

lemma slot_found:
  assumes "table_ok H t"
  shows "\<exists>i j. FindPointer H key hash t = Some (i, j) \<and> i = bucket_of hash (ht_length t) \<and> i < length (ht_list t) \<and>
    j \<le> length (ht_list t ! i) \<and> found H (table_entries t) (key, hash) (slot_content (i, j) t)"
proof -
  obtain i j where f: "FindPointer H key hash t = Some (i, j)" "i = bucket_of hash (ht_length t)" "i < length (ht_list t)"
    "j \<le> length (ht_list t ! i)" "j < length (ht_list t ! i) \<longrightarrow> tag H (ht_list t ! i ! j) = Some (key, hash)"
    "j = length (ht_list t ! i) \<longrightarrow> (\<forall>p \<in> set (table_entries t). tag H p \<noteq> Some (key, hash))"
    using FindPointer_ok [OF assms] by blast
  have "found H (table_entries t) (key, hash) (slot_content (i, j) t)"
  proof (cases "j < length (ht_list t ! i)")
    case True
    then have "ht_list t ! i ! j \<in> set (table_entries t)" using f(3) by (auto intro: nth_mem)
    moreover have "distinct (map (tag H) (table_entries t))" using assms by (simp only: table_ok_def)
    ultimately have "found H (table_entries t) (key, hash) (Some (ht_list t ! i ! j))" using True f(5) found_Some by blast
    with True show ?thesis by (simp add: slot_content_def)
  next
    case False
    then have "found H (table_entries t) (key, hash) None" using f(4,6) found_None by (metis le_neq_implies_less)
    with False show ?thesis by (simp add: slot_content_def)
  qed
  with f show ?thesis by blast
qed

lemma HandleTable_Lookup_ok:
  assumes "table_ok H t"
  shows "\<exists>r. HandleTable_Lookup H key hash t = Some r \<and> found H (table_entries t) (key, hash) r"
  using slot_found [OF assms, of key hash] by (auto simp: HandleTable_Lookup_def)

lemma mset_concat_update:
  assumes "i < length xss"
  shows "mset (concat (xss[i := xs])) + mset (xss ! i) = mset (concat xss) + mset xs"
proof -
  have xss: "xss = take i xss @ xss ! i # drop (Suc i) xss" using assms by (rule id_take_nth_drop)
  have "xss[i := xs] = take i xss @ xs # drop (Suc i) xss" using assms by (rule upd_conv_take_nth_drop)
  then show ?thesis by (subst (3) xss) (simp add: ac_simps)
qed

lemma buckets_update:
  assumes "buckets_ok H len list" "i < length list" "\<forall>p \<in> set xs. \<exists>h. H p = Some h \<and> bucket_of (h_hash h) len = i"
  shows "buckets_ok H len (list[i := xs])"
  using assms unfolding buckets_ok_def by (auto simp: nth_list_update)

lemma HandleTable_Remove_ok:
  assumes "table_ok H t"
  shows "\<exists>r t'. HandleTable_Remove H key hash t = Some (r, t') \<and> found H (table_entries t) (key, hash) r \<and> table_ok H t' \<and>
    mset (table_entries t) = mset (table_entries t') + mset_set (set_option r)"
proof -
  obtain i j where f: "FindPointer H key hash t = Some (i, j)" "i = bucket_of hash (ht_length t)" "i < length (ht_list t)"
    "j \<le> length (ht_list t ! i)" "found H (table_entries t) (key, hash) (slot_content (i, j) t)"
    using slot_found [OF assms] by blast
  let ?c = "ht_list t ! i"
  show ?thesis
  proof (cases "j < length ?c")
    case False
    with f assms show ?thesis by (auto simp: HandleTable_Remove_def slot_content_def)
  next
    case True
    let ?t = "t\<lparr>ht_list := (ht_list t)[i := take j ?c @ drop (Suc j) ?c], ht_elems := ht_elems t - 1\<rparr>"
    have c: "mset ?c = add_mset (?c ! j) (mset (take j ?c @ drop (Suc j) ?c))"
      by (subst id_take_nth_drop [OF True]) simp
    have ms: "mset (table_entries t) = add_mset (?c ! j) (mset (table_entries ?t))"
      using mset_concat_update [OF f(3), of "take j ?c @ drop (Suc j) ?c"] by (simp add: c)
    have sub: "set (take j ?c @ drop (Suc j) ?c) \<subseteq> set ?c" using set_take_subset [of j ?c] set_drop_subset [of "Suc j" ?c] by auto
    have b: "buckets_ok H (ht_length t) (ht_list t)" using assms by (simp add: table_ok_def)
    have "\<forall>p \<in> set ?c. \<exists>h. H p = Some h \<and> bucket_of (h_hash h) (ht_length t) = i"
      using buckets_okD [OF b f(3)] by blast
    then have "buckets_ok H (ht_length t) ((ht_list t)[i := take j ?c @ drop (Suc j) ?c])"
      using buckets_update [OF b f(3), of "take j ?c @ drop (Suc j) ?c"] sub by blast
    then have "buckets_ok H (ht_length ?t) (ht_list ?t)" by simp
    moreover have "distinct (map (tag H) (table_entries ?t))"
    proof -
      have "image_mset (tag H) (mset (table_entries t)) = add_mset (tag H (?c ! j)) (image_mset (tag H) (mset (table_entries ?t)))"
        by (simp only: ms image_mset_add_mset)
      then have "mset (map (tag H) (table_entries t)) = mset (tag H (?c ! j) # map (tag H) (table_entries ?t))" by (simp only: mset_map mset.simps)
      then have "distinct (tag H (?c ! j) # map (tag H) (table_entries ?t))"
        using assms mset_eq_imp_distinct_iff unfolding table_ok_def by blast
      then show ?thesis by simp
    qed
    moreover have len: "length (table_entries t) = Suc (length (table_entries ?t))"
      using arg_cong [OF ms, of size] by (simp only: size_mset size_add_mset)
    moreover have "unat (ht_elems ?t) = length (table_entries ?t)"
    proof -
      have "unat (ht_elems t) = Suc (length (table_entries ?t))" using assms len by (simp add: table_ok_def)
      moreover from this have "ht_elems t \<noteq> 0" by auto
      ultimately show ?thesis by (simp add: unat_minus_one)
    qed
    ultimately have "table_ok H ?t" using assms unfolding table_ok_def by simp
    moreover have "HandleTable_Remove H key hash t = Some (Some (?c ! j), ?t)"
      using f(1) True by (simp add: HandleTable_Remove_def slot_content_def Let_def)
    moreover have "found H (table_entries t) (key, hash) (Some (?c ! j))" using f(5) True by (simp add: slot_content_def)
    ultimately show ?thesis using ms by auto
  qed
qed

text \<open>Growing: enough buckets are found, and every chain is dealt out to them.\<close>

lemma grow_length_ok:
  assumes "unat elems \<le> 2 ^ 31" "unat len = 2 ^ k" "k \<le> 31"
  shows "\<exists>n k'. grow_length len elems = Some n \<and> unat n = 2 ^ k'"
  using assms(2,3)
proof (induction "31 - k" arbitrary: k len)
  case 0
  then have "\<not> len < elems" using assms(1) by (simp add: word_less_nat_alt)
  with 0(2) show ?case by (subst grow_length.simps) (auto simp del: numeral_Bit0)
next
  case (Suc d)
  then have k: "k < 31" by simp
  have "(2::nat) ^ Suc k \<le> 2 ^ 31" using k by (intro power_increasing) simp_all
  then have double: "unat (len * 2) = 2 ^ Suc k"
    using Suc.prems(1) by (simp add: unat_word_ariths)
  have "\<exists>n k'. grow_length (len * 2) elems = Some n \<and> unat n = 2 ^ k'"
    using Suc.hyps(1) [of "Suc k" "len * 2"] Suc.hyps(2) double k by simp
  then show ?case using Suc.prems by (subst grow_length.simps) auto
qed

lemma rehash_chain_ok:
  assumes "\<forall>p \<in> set chain. H p \<noteq> None" "buckets_ok H n new_list"
  shows "\<exists>new_list'. rehash_chain H n chain new_list = Some new_list' \<and> buckets_ok H n new_list' \<and>
    mset (concat new_list') = mset chain + mset (concat new_list)"
  using assms
proof (induction chain arbitrary: new_list)
  case (Cons p chain)
  obtain h where h: "H p = Some h" using Cons.prems(1) by auto
  define i where "i = bucket_of (h_hash h) n"
  obtain k where k: "unat n = 2 ^ k" "length new_list = unat n" using Cons.prems(2) by (auto simp: buckets_ok_def)
  have i: "i < length new_list" using bucket_of_less [OF k(1)] k(2) by (simp add: i_def)
  have "buckets_ok H n (new_list[i := p # new_list ! i])"
    using buckets_update [OF Cons.prems(2) i] buckets_okD [OF Cons.prems(2) i] h by (simp add: i_def)
  from Cons.IH [OF _ this] Cons.prems(1) obtain new_list' where n: "rehash_chain H n chain (new_list[i := p # new_list ! i]) = Some new_list'"
    "buckets_ok H n new_list'" "mset (concat new_list') = mset chain + mset (concat (new_list[i := p # new_list ! i]))" by auto
  have "mset (concat (new_list[i := p # new_list ! i])) = add_mset p (mset (concat new_list))"
    using mset_concat_update [OF i, of "p # new_list ! i"] by simp
  with n h show ?case by (simp add: i_def Let_def)
qed simp

lemma rehash_ok:
  assumes "\<forall>p \<in> set (concat list). H p \<noteq> None" "buckets_ok H n new_list"
  shows "\<exists>new_list'. rehash H n list new_list = Some new_list' \<and> buckets_ok H n new_list' \<and>
    mset (concat new_list') = mset (concat list) + mset (concat new_list)"
  using assms
proof (induction list arbitrary: new_list)
  case (Cons chain list)
  obtain nl where nl: "rehash_chain H n chain new_list = Some nl" "buckets_ok H n nl" "mset (concat nl) = mset chain + mset (concat new_list)"
    using rehash_chain_ok [of chain H n new_list] Cons.prems by auto
  from Cons.IH [OF _ nl(2)] Cons.prems(1) nl show ?case by (auto simp: ac_simps)
qed simp

lemma HandleTable_Resize_ok:
  assumes "\<forall>p \<in> set (table_entries t). H p \<noteq> None" "length (table_entries t) < 2 ^ 31"
    "unat (ht_elems t) = length (table_entries t)" "distinct (map (tag H) (table_entries t))"
  shows "\<exists>t'. HandleTable_Resize H t = Some t' \<and> table_ok H t' \<and> mset (table_entries t') = mset (table_entries t)"
proof -
  obtain n k where n: "grow_length 4 (ht_elems t) = Some n" "unat n = 2 ^ k"
    using grow_length_ok [of "ht_elems t" 4 2] assms(2,3) by auto
  have "buckets_ok H n (replicate (unat n) [])" using n(2) by (auto simp: buckets_ok_def)
  from rehash_ok [OF assms(1) this] obtain list where l: "rehash H n (ht_list t) (replicate (unat n) []) = Some list"
    "buckets_ok H n list" "mset (concat list) = mset (table_entries t)" by auto
  have len: "length (concat list) = length (table_entries t)" using arg_cong [OF l(3), of size] by (simp only: size_mset)
  have "mset (map (tag H) (concat list)) = mset (map (tag H) (table_entries t))" by (simp only: mset_map l(3))
  then have "distinct (map (tag H) (concat list))" using assms(4) mset_eq_imp_distinct_iff by blast
  with l n(1) len assms(2,3) show ?thesis by (simp add: HandleTable_Resize_def table_ok_def del: length_concat)
qed

lemma HandleTable_make_ok: "\<exists>t. HandleTable_make H = Some t \<and> table_ok H t \<and> table_entries t = []"
  using HandleTable_Resize_ok [of "\<lparr>ht_length = 0, ht_elems = 0, ht_list = []\<rparr>" H]
  by (auto simp: HandleTable_make_def)

lemma table_entries_valid: "table_ok H t \<Longrightarrow> p \<in> set (table_entries t) \<Longrightarrow> \<exists>h. H p = Some h"
proof -
  assume t: "table_ok H t" and "p \<in> set (table_entries t)"
  then obtain i where "i < length (ht_list t)" "p \<in> set (ht_list t ! i)" by (metis in_set_conv_nth set_concat UN_E)
  then show ?thesis using t buckets_okD unfolding table_ok_def by blast
qed

lemma mset_exchange:
  assumes "A + C = E + C'" "C' + {#q#} = add_mset p C"
  shows "A + {#q#} = add_mset p E"
proof -
  have "(A + {#q#}) + C = E + (C' + {#q#})" using assms(1) by (simp add: ac_simps)
  also have "\<dots> = add_mset p E + C" by (simp only: assms(2)) simp
  finally show ?thesis by simp
qed

lemma HandleTable_Insert_ok:
  assumes "table_ok H t" "H p = Some h" "p \<notin> set (table_entries t)" "Suc (length (table_entries t)) < 2 ^ 31"
  shows "\<exists>r t'. HandleTable_Insert H p t = Some (r, t') \<and> found H (table_entries t) (h_key h, h_hash h) r \<and> table_ok H t' \<and>
    mset (table_entries t') + mset_set (set_option r) = add_mset p (mset (table_entries t))"
proof -
  obtain i j where f: "FindPointer H (h_key h) (h_hash h) t = Some (i, j)" "i = bucket_of (h_hash h) (ht_length t)"
    "i < length (ht_list t)" "j \<le> length (ht_list t ! i)"
    "found H (table_entries t) (h_key h, h_hash h) (slot_content (i, j) t)"
    using slot_found [OF assms(1)] by blast
  let ?c = "ht_list t ! i"
  have b: "buckets_ok H (ht_length t) (ht_list t)" and d: "distinct (map (tag H) (table_entries t))"
    and el: "unat (ht_elems t) = length (table_entries t)" using assms(1) by (simp_all only: table_ok_def)
  have here: "\<exists>h'. H p = Some h' \<and> bucket_of (h_hash h') (ht_length t) = i" using assms(2) f(2) by simp
  have tag: "tag H p = Some (h_key h, h_hash h)" using assms(2) by (simp add: tag_def)
  show ?thesis
  proof (cases "j < length ?c")
    case True
    let ?old = "?c ! j" and ?t = "t\<lparr>ht_list := (ht_list t)[i := ?c[j := p]]\<rparr>"
    have old: "found H (table_entries t) (h_key h, h_hash h) (Some ?old)" using f(5) True by (simp add: slot_content_def)
    have "mset (?c[j := p]) + {#?old#} = add_mset p (mset ?c)"
      using True by (simp add: mset_update)
    from mset_exchange [OF mset_concat_update [OF f(3)] this]
    have ms: "mset (table_entries ?t) + {#?old#} = add_mset p (mset (table_entries t))" by simp
    have "set (?c[j := p]) \<subseteq> insert p (set ?c)" by (rule set_update_subset_insert)
    then have "buckets_ok H (ht_length ?t) (ht_list ?t)"
      using buckets_update [OF b f(3), of "?c[j := p]"] here buckets_okD [OF b f(3)] by auto
    moreover have "distinct (map (tag H) (table_entries ?t))"
    proof -
      have "tag H ?old = tag H p" using old tag unfolding found_def by metis
      then have "mset (map (tag H) (table_entries ?t)) = mset (map (tag H) (table_entries t))"
        using arg_cong [OF ms, of "image_mset (tag H)"] by simp
      then show ?thesis using d mset_eq_imp_distinct_iff by blast
    qed
    moreover have len: "length (table_entries ?t) = length (table_entries t)"
      using arg_cong [OF ms, of size] by (simp only: size_mset size_add_mset size_union size_single) simp
    ultimately have "table_ok H ?t" using assms(1) el unfolding table_ok_def by simp
    moreover have "HandleTable_Insert H p t = Some (Some ?old, ?t)"
      using f(1) True assms(2) by (simp add: HandleTable_Insert_def slot_content_def Let_def)
    ultimately show ?thesis using old ms by (intro exI [of _ "Some ?old"] exI [of _ ?t]) simp
  next
    case False
    let ?t = "t\<lparr>ht_list := (ht_list t)[i := ?c @ [p]], ht_elems := ht_elems t + 1\<rparr>"
    have none: "found H (table_entries t) (h_key h, h_hash h) None" using f(5) False by (simp add: slot_content_def)
    have ms: "mset (table_entries ?t) = add_mset p (mset (table_entries t))"
      using mset_concat_update [OF f(3), of "?c @ [p]"] by simp
    have "buckets_ok H (ht_length ?t) (ht_list ?t)"
      using buckets_update [OF b f(3), of "?c @ [p]"] here buckets_okD [OF b f(3)] by auto
    moreover have dt: "distinct (map (tag H) (table_entries ?t))"
    proof -
      have "mset (map (tag H) (table_entries ?t)) = mset (tag H p # map (tag H) (table_entries t))"
        by (simp only: mset_map ms mset.simps image_mset_add_mset)
      moreover have "distinct (tag H p # map (tag H) (table_entries t))" using d none tag by (auto simp: found_def)
      ultimately show ?thesis using mset_eq_imp_distinct_iff by blast
    qed
    moreover have len: "length (table_entries ?t) = Suc (length (table_entries t))"
      using arg_cong [OF ms, of size] by (simp only: size_mset size_add_mset)
    moreover have el': "unat (ht_elems ?t) = length (table_entries ?t)"
      using unat_Suc_u32 [of "ht_elems t"] el len assms(4) by simp
    ultimately have ok: "table_ok H ?t" using assms(4) unfolding table_ok_def by simp
    have eval: "HandleTable_Insert H p t = do {
        t \<leftarrow> (if ht_length ?t < ht_elems ?t then HandleTable_Resize H ?t else Some ?t); Some (None, t) }"
      using f(1,4) False assms(2) by (simp add: HandleTable_Insert_def slot_content_def Let_def)
    show ?thesis
    proof (cases "ht_length ?t < ht_elems ?t")
      case True
      obtain t' where "HandleTable_Resize H ?t = Some t'" "table_ok H t'" "mset (table_entries t') = mset (table_entries ?t)"
        using HandleTable_Resize_ok [of ?t H] table_entries_valid [OF ok] len assms(4) el' dt by auto
      with True none ms eval show ?thesis by (intro exI [of _ None] exI [of _ t']) simp
    next
      case False
      with ok none ms eval show ?thesis by (intro exI [of _ None] exI [of _ ?t]) simp
    qed
  qed
qed

end
