(* ===== verification/Lru_Cache.thy ===== *)
theory Lru_Cache
  imports Handle_Table
begin

text \<open>
  \<^verbatim>\<open>include/leveldb/cache.h\<close> and \<^verbatim>\<open>util/cache.cc\<close>: the LRU cache and its shards.  The circular lists
  \<open>lru_\<close> and \<open>in_use_\<close> are the lists of their addresses, oldest first; entries live in a heap that
  all shards share, and a log records the calls of the deleters.  Locks are not modelled: every
  operation holds the mutex of its shard from its first line to its last.
\<close>

record 'v cache_heap =
  ch_handles :: "'v handles"
  ch_fresh :: addr
  ch_deleted :: "(addr \<times> bytes \<times> 'v) list"

record lru_cache =
  lc_capacity :: u64
  lc_usage :: u64
  lc_lru :: "addr list"
  lc_in_use :: "addr list"
  lc_table :: handle_table

type_synonym 'v cache_state = "'v cache_heap \<times> lru_cache"

definition LRUCache_make :: "lru_cache option" where
  "LRUCache_make = do {
     t \<leftarrow> HandleTable_make (\<lambda>_. None :: unit lru_handle option);
     Some \<lparr>lc_capacity = 0, lc_usage = 0, lc_lru = [], lc_in_use = [], lc_table = t\<rparr> }"

definition LRUCache_SetCapacity :: "u64 \<Rightarrow> lru_cache \<Rightarrow> lru_cache" where
  "LRUCache_SetCapacity capacity C = C\<lparr>lc_capacity := capacity\<rparr>"

definition LRU_Remove :: "addr \<Rightarrow> lru_cache \<Rightarrow> lru_cache" where
  "LRU_Remove e C = C\<lparr>lc_lru := remove1 e (lc_lru C), lc_in_use := remove1 e (lc_in_use C)\<rparr>"

definition LRU_Append_lru :: "addr \<Rightarrow> lru_cache \<Rightarrow> lru_cache" where
  "LRU_Append_lru e C = C\<lparr>lc_lru := lc_lru C @ [e]\<rparr>"

definition LRU_Append_in_use :: "addr \<Rightarrow> lru_cache \<Rightarrow> lru_cache" where
  "LRU_Append_in_use e C = C\<lparr>lc_in_use := lc_in_use C @ [e]\<rparr>"

definition LRUCache_Ref :: "addr \<Rightarrow> 'v cache_state \<Rightarrow> 'v cache_state option" where
  "LRUCache_Ref e = (\<lambda>(M, C). do {
     h \<leftarrow> ch_handles M e;
     let C = (if h_refs h = 1 \<and> h_in_cache h then LRU_Append_in_use e (LRU_Remove e C) else C);
     Some (M\<lparr>ch_handles := (ch_handles M)(e \<mapsto> h\<lparr>h_refs := h_refs h + 1\<rparr>)\<rparr>, C) })"

definition LRUCache_Unref :: "addr \<Rightarrow> 'v cache_state \<Rightarrow> 'v cache_state option" where
  "LRUCache_Unref e = (\<lambda>(M, C). do {
     h \<leftarrow> ch_handles M e;
     if h_refs h = 0 then None
     else let refs = h_refs h - 1 in
       if refs = 0 then
         (if h_in_cache h then None
          else Some (M\<lparr>ch_handles := (ch_handles M)(e := None), ch_deleted := ch_deleted M @ [(e, h_key h, h_value h)]\<rparr>, C))
       else let M = M\<lparr>ch_handles := (ch_handles M)(e \<mapsto> h\<lparr>h_refs := refs\<rparr>)\<rparr> in
         if h_in_cache h \<and> refs = 1 then Some (M, LRU_Append_lru e (LRU_Remove e C)) else Some (M, C) })"

definition LRUCache_FinishErase :: "addr option \<Rightarrow> 'v cache_state \<Rightarrow> (bool \<times> 'v cache_state) option" where
  "LRUCache_FinishErase e = (\<lambda>(M, C).
     case e of None \<Rightarrow> Some (False, M, C)
     | Some e \<Rightarrow> do {
         h \<leftarrow> ch_handles M e;
         if \<not> h_in_cache h then None else do {
           let C = LRU_Remove e C;
           let M = M\<lparr>ch_handles := (ch_handles M)(e \<mapsto> h\<lparr>h_in_cache := False\<rparr>)\<rparr>;
           let C = C\<lparr>lc_usage := lc_usage C - h_charge h\<rparr>;
           s \<leftarrow> LRUCache_Unref e (M, C);
           Some (True, s) } })"

definition LRUCache_Lookup :: "bytes \<Rightarrow> u32 \<Rightarrow> 'v cache_state \<Rightarrow> (addr option \<times> 'v cache_state) option" where
  "LRUCache_Lookup key hash = (\<lambda>(M, C). do {
     e \<leftarrow> HandleTable_Lookup (ch_handles M) key hash (lc_table C);
     (case e of None \<Rightarrow> Some (None, M, C) | Some p \<Rightarrow> do { s \<leftarrow> LRUCache_Ref p (M, C); Some (Some p, s) }) })"

definition LRUCache_Release :: "addr \<Rightarrow> 'v cache_state \<Rightarrow> 'v cache_state option" where
  "LRUCache_Release handle = LRUCache_Unref handle"

text \<open>The body of the loops in \<open>Insert\<close> and \<open>Prune\<close>: the oldest unused entry is removed.\<close>

definition evict_oldest :: "'v cache_state \<Rightarrow> 'v cache_state option" where
  "evict_oldest = (\<lambda>(M, C). do {
     let old = hd (lc_lru C);
     h \<leftarrow> ch_handles M old;
     if h_refs h \<noteq> 1 then None else do {
       (e, t) \<leftarrow> HandleTable_Remove (ch_handles M) (h_key h) (h_hash h) (lc_table C);
       (erased, s) \<leftarrow> LRUCache_FinishErase e (M, C\<lparr>lc_table := t\<rparr>);
       if erased then Some s else None } })"

partial_function (option) evict_excess :: "'v cache_state \<Rightarrow> 'v cache_state option" where
  "evict_excess s =
     (if lc_capacity (snd s) < lc_usage (snd s) \<and> lc_lru (snd s) \<noteq> [] then evict_oldest s \<bind> evict_excess else Some s)"

definition LRUCache_Insert ::
  "bytes \<Rightarrow> u32 \<Rightarrow> 'v \<Rightarrow> u64 \<Rightarrow> 'v cache_state \<Rightarrow> (addr \<times> 'v cache_state) option" where
  "LRUCache_Insert key hash val charge = (\<lambda>(M, C). do {
     let e = ch_fresh M;
     let h = \<lparr>h_value = val, h_charge = charge, h_key = key, h_in_cache = False, h_refs = 1, h_hash = hash\<rparr>;
     s \<leftarrow> (if 0 < lc_capacity C then do {
             let h = h\<lparr>h_refs := h_refs h + 1, h_in_cache := True\<rparr>;
             let M = M\<lparr>ch_handles := (ch_handles M)(e \<mapsto> h), ch_fresh := Suc e\<rparr>;
             let C = LRU_Append_in_use e C;
             let C = C\<lparr>lc_usage := lc_usage C + charge\<rparr>;
             (old, t) \<leftarrow> HandleTable_Insert (ch_handles M) e (lc_table C);
             (erased, s) \<leftarrow> LRUCache_FinishErase old (M, C\<lparr>lc_table := t\<rparr>);
             Some s }
           else Some (M\<lparr>ch_handles := (ch_handles M)(e \<mapsto> h), ch_fresh := Suc e\<rparr>, C));
     s \<leftarrow> evict_excess s;
     Some (e, s) })"

definition LRUCache_Erase :: "bytes \<Rightarrow> u32 \<Rightarrow> 'v cache_state \<Rightarrow> 'v cache_state option" where
  "LRUCache_Erase key hash = (\<lambda>(M, C). do {
     (e, t) \<leftarrow> HandleTable_Remove (ch_handles M) key hash (lc_table C);
     (_, s) \<leftarrow> LRUCache_FinishErase e (M, C\<lparr>lc_table := t\<rparr>);
     Some s })"

partial_function (option) LRUCache_Prune :: "'v cache_state \<Rightarrow> 'v cache_state option" where
  "LRUCache_Prune s = (if lc_lru (snd s) \<noteq> [] then evict_oldest s \<bind> LRUCache_Prune else Some s)"

definition LRUCache_TotalCharge :: "lru_cache \<Rightarrow> u64" where
  "LRUCache_TotalCharge C = lc_usage C"

text \<open>The destructor; it asserts that no handle is outstanding.\<close>

fun destroy_entries :: "addr list \<Rightarrow> 'v cache_state \<Rightarrow> 'v cache_state option" where
  "destroy_entries [] s = Some s"
| "destroy_entries (e # es) (M, C) = do {
     h \<leftarrow> ch_handles M e;
     if \<not> h_in_cache h \<or> h_refs h \<noteq> 1 then None else do {
       s \<leftarrow> LRUCache_Unref e (M\<lparr>ch_handles := (ch_handles M)(e \<mapsto> h\<lparr>h_in_cache := False\<rparr>)\<rparr>, C);
       destroy_entries es s } }"

definition LRUCache_destroy :: "'v cache_state \<Rightarrow> 'v cache_state option" where
  "LRUCache_destroy s = (if lc_in_use (snd s) \<noteq> [] then None else destroy_entries (lc_lru (snd s)) s)"

subsection \<open>The shards\<close>

definition kNumShardBits :: nat where "kNumShardBits = 4"
definition kNumShards :: nat where "kNumShards = 2 ^ kNumShardBits"

record 'v sharded_cache =
  sc_heap :: "'v cache_heap"
  sc_shard :: "lru_cache list"
  sc_last_id :: u64

definition HashSlice :: "bytes \<Rightarrow> u32" where "HashSlice s = Hash s 0"

definition Shard :: "u32 \<Rightarrow> nat" where "Shard hash = unat (drop_bit (32 - kNumShardBits) hash)"

definition ShardedLRUCache_make :: "u64 \<Rightarrow> 'v sharded_cache option" where
  "ShardedLRUCache_make capacity = do {
     let per_shard = (capacity + (word_of_nat kNumShards - 1)) div word_of_nat kNumShards;
     C \<leftarrow> LRUCache_make;
     Some \<lparr>sc_heap = \<lparr>ch_handles = (\<lambda>_. None), ch_fresh = 0, ch_deleted = []\<rparr>,
           sc_shard = replicate kNumShards (LRUCache_SetCapacity per_shard C), sc_last_id = 0\<rparr> }"

text \<open>An operation of one shard on the common heap.\<close>

definition on_shard :: "nat \<Rightarrow> ('v cache_state \<Rightarrow> ('r \<times> 'v cache_state) option) \<Rightarrow> 'v sharded_cache \<Rightarrow> ('r \<times> 'v sharded_cache) option" where
  "on_shard i f S = do {
     (r, M, C) \<leftarrow> f (sc_heap S, sc_shard S ! i);
     Some (r, S\<lparr>sc_heap := M, sc_shard := (sc_shard S)[i := C]\<rparr>) }"

definition Cache_Insert :: "bytes \<Rightarrow> 'v \<Rightarrow> u64 \<Rightarrow> 'v sharded_cache \<Rightarrow> (addr \<times> 'v sharded_cache) option" where
  "Cache_Insert key val charge S = (let hash = HashSlice key in on_shard (Shard hash) (LRUCache_Insert key hash val charge) S)"

definition Cache_Lookup :: "bytes \<Rightarrow> 'v sharded_cache \<Rightarrow> (addr option \<times> 'v sharded_cache) option" where
  "Cache_Lookup key S = (let hash = HashSlice key in on_shard (Shard hash) (LRUCache_Lookup key hash) S)"

definition Cache_Release :: "addr \<Rightarrow> 'v sharded_cache \<Rightarrow> 'v sharded_cache option" where
  "Cache_Release handle S = do {
     h \<leftarrow> ch_handles (sc_heap S) handle;
     (_, S) \<leftarrow> on_shard (Shard (h_hash h)) (map_option (Pair ()) \<circ> LRUCache_Release handle) S;
     Some S }"

definition Cache_Erase :: "bytes \<Rightarrow> 'v sharded_cache \<Rightarrow> 'v sharded_cache option" where
  "Cache_Erase key S = (let hash = HashSlice key in do {
     (_, S) \<leftarrow> on_shard (Shard hash) (map_option (Pair ()) \<circ> LRUCache_Erase key hash) S;
     Some S })"

definition Cache_Value :: "addr \<Rightarrow> 'v sharded_cache \<Rightarrow> 'v option" where
  "Cache_Value handle S = map_option h_value (ch_handles (sc_heap S) handle)"

definition Cache_NewId :: "'v sharded_cache \<Rightarrow> u64 \<times> 'v sharded_cache" where
  "Cache_NewId S = (sc_last_id S + 1, S\<lparr>sc_last_id := sc_last_id S + 1\<rparr>)"

fun prune_shards :: "nat list \<Rightarrow> 'v sharded_cache \<Rightarrow> 'v sharded_cache option" where
  "prune_shards [] S = Some S"
| "prune_shards (i # is) S = do {
     (_, S) \<leftarrow> on_shard i (map_option (Pair ()) \<circ> LRUCache_Prune) S;
     prune_shards is S }"

definition Cache_Prune :: "'v sharded_cache \<Rightarrow> 'v sharded_cache option" where
  "Cache_Prune S = prune_shards [0..<kNumShards] S"

fun destroy_shards :: "lru_cache list \<Rightarrow> 'v cache_heap \<Rightarrow> 'v cache_heap option" where
  "destroy_shards [] M = Some M"
| "destroy_shards (C # Cs) M = do { (M, _) \<leftarrow> LRUCache_destroy (M, C); destroy_shards Cs M }"

definition Cache_destroy :: "'v sharded_cache \<Rightarrow> 'v cache_heap option" where
  "Cache_destroy S = destroy_shards (rev (sc_shard S)) (sc_heap S)"

definition Cache_TotalCharge :: "'v sharded_cache \<Rightarrow> u64" where
  "Cache_TotalCharge S = foldl (\<lambda>total C. total + LRUCache_TotalCharge C) 0 (sc_shard S)"

subsection \<open>The invariant of a shard\<close>

definition heap_ok :: "'v cache_heap \<Rightarrow> bool" where
  "heap_ok M \<longleftrightarrow> (\<forall>p. ch_handles M p \<noteq> None \<longrightarrow> p < ch_fresh M) \<and> distinct (map fst (ch_deleted M)) \<and>
     (\<forall>p \<in> fst ` set (ch_deleted M). p < ch_fresh M \<and> ch_handles M p = None) \<and>
     (\<forall>p < ch_fresh M. ch_handles M p \<noteq> None \<or> p \<in> fst ` set (ch_deleted M))"

abbreviation charge_at :: "'v cache_heap \<Rightarrow> addr \<Rightarrow> u64" where
  "charge_at M p \<equiv> (case ch_handles M p of None \<Rightarrow> 0 | Some h \<Rightarrow> h_charge h)"

text \<open>
  \<open>A\<close> are the cached entries and \<open>held\<close> the handles given out, with multiplicity.  Every cached or
  held entry is alive with one reference per handle and one of the cache; the unused ones are on
  the LRU list, the others on the in-use list.
\<close>

definition refs_at :: "'v handles \<Rightarrow> addr multiset \<Rightarrow> addr set \<Rightarrow> addr \<Rightarrow> bool" where
  "refs_at H held A p \<longleftrightarrow> (\<exists>h. H p = Some h \<and> unat (h_refs h) = count held p + (if p \<in> A then 1 else 0) \<and> (h_in_cache h \<longleftrightarrow> p \<in> A))"

definition lists_ok :: "lru_cache \<Rightarrow> addr multiset \<Rightarrow> addr set \<Rightarrow> bool" where
  "lists_ok C held A \<longleftrightarrow> distinct (lc_lru C @ lc_in_use C) \<and> set (lc_lru C @ lc_in_use C) = A \<and>
     (\<forall>p \<in> set (lc_lru C). p \<notin># held) \<and> (\<forall>p \<in> set (lc_in_use C). p \<in># held)"

definition lists_inv :: "'v cache_heap \<Rightarrow> lru_cache \<Rightarrow> addr multiset \<Rightarrow> addr set \<Rightarrow> bool" where
  "lists_inv M C held A \<longleftrightarrow> heap_ok M \<and> lists_ok C held A \<and> (\<forall>p \<in> A \<union> set_mset held. refs_at (ch_handles M) held A p) \<and>
     lc_usage C = (\<Sum>p\<in>A. charge_at M p)"

definition own :: "addr multiset \<Rightarrow> addr set \<Rightarrow> addr set" where
  "own held A = A \<union> set_mset held"

definition static :: "'v lru_handle \<Rightarrow> bytes \<times> u32 \<times> 'v \<times> u64" where
  "static h = (h_key h, h_hash h, h_value h, h_charge h)"

text \<open>What an operation may do to the heap: other entries stay, keys and values stay, and exactly the entries in \<open>B\<close> are left.\<close>

definition heap_step :: "'v cache_heap \<Rightarrow> 'v cache_heap \<Rightarrow> addr set \<Rightarrow> addr set \<Rightarrow> bool" where
  "heap_step M M' A B \<longleftrightarrow> ch_fresh M \<le> ch_fresh M' \<and> A \<subseteq> {..<ch_fresh M} \<and> B \<subseteq> A \<union> {ch_fresh M..<ch_fresh M'} \<and>
     (\<forall>p. p \<notin> A \<longrightarrow> p < ch_fresh M \<longrightarrow> ch_handles M' p = ch_handles M p) \<and>
     (\<forall>p \<in> A. \<forall>h'. ch_handles M' p = Some h' \<longrightarrow> (\<exists>h. ch_handles M p = Some h \<and> static h' = static h)) \<and>
     (\<forall>p \<in> A \<union> {ch_fresh M..<ch_fresh M'}. ch_handles M' p \<noteq> None \<longleftrightarrow> p \<in> B)"

lemma heap_step_trans:
  assumes "heap_step M M' A B" "heap_step M' M'' B D"
  shows "heap_step M M'' A D"
proof -
  note 1 = assms(1) [unfolded heap_step_def] and 2 = assms(2) [unfolded heap_step_def]
  have fresh: "ch_fresh M \<le> ch_fresh M'" "ch_fresh M' \<le> ch_fresh M''" using 1 2 by simp_all
  have dead: "ch_handles M'' p = None \<and> p \<notin> D" if "p \<notin> B" "p \<in> A \<union> {ch_fresh M..<ch_fresh M'}" for p
  proof -
    have "p < ch_fresh M'" using that 1 fresh by auto
    moreover have "ch_handles M' p = None" using 1 that by blast
    moreover have "p \<notin> {ch_fresh M'..<ch_fresh M''}" using \<open>p < ch_fresh M'\<close> by simp
    ultimately show ?thesis using 2 that(1) by (metis UnE subsetD)
  qed
  have keep: "ch_handles M'' p = ch_handles M p" if "p \<notin> A" "p < ch_fresh M" for p
  proof -
    have "p \<notin> B" using 1 that by fastforce
    then show ?thesis using 1 2 that fresh by (metis order_less_le_trans)
  qed
  have static: "\<exists>h. ch_handles M p = Some h \<and> static h'' = static h" if pA: "p \<in> A" and h'': "ch_handles M'' p = Some h''" for p h''
  proof -
    have "p \<in> B" using dead pA h'' by fastforce
    then obtain h' where "ch_handles M' p = Some h'" "static h'' = static h'" using 2 h'' by blast
    then show ?thesis using 1 pA by metis
  qed
  have alive: "ch_handles M'' p \<noteq> None \<longleftrightarrow> p \<in> D" if "p \<in> A \<union> {ch_fresh M..<ch_fresh M''}" for p
  proof (cases "p \<in> B \<union> {ch_fresh M'..<ch_fresh M''}")
    case True
    then show ?thesis using 2 by blast
  next
    case False
    then have "p \<in> A \<union> {ch_fresh M..<ch_fresh M'}" using that by auto
    moreover have "p \<notin> B" using False by simp
    ultimately show ?thesis using dead [of p] by simp
  qed
  have "{ch_fresh M..<ch_fresh M'} \<subseteq> {ch_fresh M..<ch_fresh M''}" "{ch_fresh M'..<ch_fresh M''} \<subseteq> {ch_fresh M..<ch_fresh M''}"
    using fresh by auto
  moreover have "D \<subseteq> B \<union> {ch_fresh M'..<ch_fresh M''}" "B \<subseteq> A \<union> {ch_fresh M..<ch_fresh M'}" using 1 2 by simp_all
  ultimately have "D \<subseteq> A \<union> {ch_fresh M..<ch_fresh M''}" by blast
  moreover have "ch_fresh M \<le> ch_fresh M''" "A \<subseteq> {..<ch_fresh M}" using fresh 1 by simp_all
  moreover have "\<forall>p. p \<notin> A \<longrightarrow> p < ch_fresh M \<longrightarrow> ch_handles M'' p = ch_handles M p" using keep by blast
  moreover have "\<forall>p \<in> A. \<forall>h'. ch_handles M'' p = Some h' \<longrightarrow> (\<exists>h. ch_handles M p = Some h \<and> static h' = static h)"
    using static by blast
  moreover have "\<forall>p \<in> A \<union> {ch_fresh M..<ch_fresh M''}. ch_handles M'' p \<noteq> None \<longleftrightarrow> p \<in> D" using alive by blast
  ultimately show ?thesis unfolding heap_step_def by (intro conjI)
qed

lemma lists_invD:
  assumes "lists_inv M C held A" "p \<in> A \<union> set_mset held"
  obtains h where "ch_handles M p = Some h" "unat (h_refs h) = count held p + (if p \<in> A then 1 else 0)" "h_in_cache h \<longleftrightarrow> p \<in> A"
  using assms unfolding lists_inv_def refs_at_def by blast

lemma lists_inv_own:
  assumes "lists_inv M C held A"
  shows "own held A \<subseteq> {..<ch_fresh M}" "\<forall>p \<in> own held A. ch_handles M p \<noteq> None"
proof -
  have "ch_handles M p \<noteq> None \<and> p < ch_fresh M" if "p \<in> own held A" for p
    using lists_invD [OF assms, of p] that assms unfolding own_def lists_inv_def heap_ok_def by (metis option.distinct(1))
  then show "own held A \<subseteq> {..<ch_fresh M}" "\<forall>p \<in> own held A. ch_handles M p \<noteq> None" by auto
qed

lemma heap_step_refl: "lists_inv M C held A \<Longrightarrow> heap_step M M (own held A) (own held A)"
  using lists_inv_own [of M C held A] unfolding heap_step_def by auto

text \<open>Changes at one address.\<close>

lemma refs_at_other: "refs_at H held A q \<Longrightarrow> H' q = H q \<Longrightarrow> count held' q = count held q \<Longrightarrow> (q \<in> A' \<longleftrightarrow> q \<in> A) \<Longrightarrow> refs_at H' held' A' q"
  by (simp add: refs_at_def)

lemma heap_step_write:
  assumes "lists_inv M C held A" "p \<in> own held A" "ch_handles M p = Some h" "static h' = static h"
    and "own held' A' = own held A"
  shows "heap_step M (M\<lparr>ch_handles := (ch_handles M)(p \<mapsto> h')\<rparr>) (own held A) (own held' A')"
  using lists_inv_own [OF assms(1)] assms(2-4) unfolding heap_step_def assms(5) by auto

lemma heap_step_delete:
  assumes "lists_inv M C held A" "p \<in> own held A" "own held' A' = own held A - {p}"
  shows "heap_step M (M\<lparr>ch_handles := (ch_handles M)(p := None), ch_deleted := d\<rparr>) (own held A) (own held' A')"
  using lists_inv_own [OF assms(1)] assms(2) unfolding heap_step_def assms(3) by auto

lemma heap_ok_write: "heap_ok M \<Longrightarrow> ch_handles M p = Some h \<Longrightarrow> heap_ok (M\<lparr>ch_handles := (ch_handles M)(p \<mapsto> h')\<rparr>)"
  unfolding heap_ok_def by auto

lemma heap_ok_delete: "heap_ok M \<Longrightarrow> ch_handles M p = Some h \<Longrightarrow>
    heap_ok (M\<lparr>ch_handles := (ch_handles M)(p := None), ch_deleted := ch_deleted M @ [(p, x)]\<rparr>)"
  unfolding heap_ok_def by auto

lemma charge_sum_cong: "(\<And>p. p \<in> A \<Longrightarrow> charge_at M' p = charge_at M p) \<Longrightarrow> (\<Sum>p\<in>A. charge_at M' p) = (\<Sum>p\<in>A. charge_at M p)"
  by (rule sum.cong) auto

lemma charge_sum_write:
  "ch_handles M p = Some h \<Longrightarrow> static h' = static h \<Longrightarrow>
   (\<Sum>q\<in>A. charge_at (M\<lparr>ch_handles := (ch_handles M)(p \<mapsto> h')\<rparr>) q) = (\<Sum>q\<in>A. charge_at M q)"
  by (rule charge_sum_cong) (auto simp: static_def)

text \<open>A handle is given back.\<close>

lemma in_minus_single: "q \<in># held - {#p#} \<longleftrightarrow> (if q = p then 1 < count held p else q \<in># held)"
  by (simp only: count_greater_zero_iff [symmetric]) simp

lemma Unref_lists:
  assumes inv: "lists_inv M C held A" and p: "p \<in># held"
  shows "\<exists>M' C'. LRUCache_Unref p (M, C) = Some (M', C') \<and> lists_inv M' C' (held - {#p#}) A \<and>
    heap_step M M' (own held A) (own (held - {#p#}) A) \<and> lc_table C' = lc_table C \<and> lc_capacity C' = lc_capacity C \<and>
    (p \<notin> A \<longrightarrow> C' = C) \<and> lc_usage C' = lc_usage C"
proof -
  obtain h where h: "ch_handles M p = Some h" "unat (h_refs h) = count held p + (if p \<in> A then 1 else 0)" "h_in_cache h \<longleftrightarrow> p \<in> A"
    using lists_invD [OF inv, of p] p by blast
  have pos: "0 < count held p" using p by simp
  have nz: "h_refs h \<noteq> 0" using h(2) pos by (metis add_is_0 not_less_zero unat_0)
  have less: "unat (h_refs h - 1) = count held p - 1 + (if p \<in> A then 1 else 0)"
    using h(2) pos nz by (simp add: unat_minus_one)
  have own_p: "p \<in> own held A" using p by (simp add: own_def)
  have lists: "lists_ok C held A" and heap: "heap_ok M" and usage: "lc_usage C = (\<Sum>p\<in>A. charge_at M p)"
    using inv by (simp_all add: lists_inv_def)
  have refs: "refs_at (ch_handles M) held A q" if "q \<in> A \<union> set_mset (held - {#p#})" for q
    using inv that in_diffD [of q held] unfolding lists_inv_def by blast
  show ?thesis
  proof (cases "h_refs h - 1 = 0")
    case True
    then have "count held p - 1 + (if p \<in> A then 1 else 0) = 0" using less by simp
    then have "p \<notin> A" "count held p - 1 = 0" by (simp_all split: if_splits)
    then have c: "count held p = 1" "p \<notin> A" using pos by linarith+
    let ?M = "M\<lparr>ch_handles := (ch_handles M)(p := None), ch_deleted := ch_deleted M @ [(p, h_key h, h_value h)]\<rparr>"
    have gone: "p \<notin># held - {#p#}" using c by (simp add: not_in_iff)
    have eval: "LRUCache_Unref p (M, C) = Some (?M, C)"
      using h c nz True by (simp add: LRUCache_Unref_def)
    have ownB: "own (held - {#p#}) A = own held A - {p}" using c by (auto simp: own_def in_minus_single split: if_splits)
    have "lists_ok C (held - {#p#}) A" using lists c unfolding lists_ok_def by (auto simp: in_minus_single split: if_splits)
    moreover have "refs_at (ch_handles ?M) (held - {#p#}) A q" if q: "q \<in> A \<union> set_mset (held - {#p#})" for q
    proof -
      have "q \<noteq> p" using q gone c(2) by auto
      then show ?thesis using refs [OF q] by (auto elim: refs_at_other)
    qed
    moreover have "(\<Sum>q\<in>A. charge_at ?M q) = (\<Sum>q\<in>A. charge_at M q)" by (rule charge_sum_cong) (use c(2) in auto)
    ultimately have "lists_inv ?M C (held - {#p#}) A"
      using heap_ok_delete [OF heap h(1)] usage by (simp add: lists_inv_def)
    with eval heap_step_delete [OF inv own_p ownB] show ?thesis by auto
  next
    case False
    let ?h = "h\<lparr>h_refs := h_refs h - 1\<rparr>"
    let ?M = "M\<lparr>ch_handles := (ch_handles M)(p \<mapsto> ?h)\<rparr>"
    have static: "static ?h = static h" by (simp add: static_def)
    have "unat (h_refs h - 1) \<noteq> 0" using False by (metis unat_eq_zero)
    then have still: "p \<in> A \<or> 1 < count held p" unfolding less by (simp split: if_splits)
    have ownB: "own (held - {#p#}) A = own held A"
      using still p by (auto simp: own_def in_minus_single split: if_splits)
    have refs': "refs_at (ch_handles ?M) (held - {#p#}) A q" if q: "q \<in> A \<union> set_mset (held - {#p#})" for q
    proof (cases "q = p")
      case True
      then show ?thesis using less h(3) by (simp add: refs_at_def)
    next
      case False
      then show ?thesis using refs [OF q] by (auto elim: refs_at_other)
    qed
    let ?C = "if p \<in> A \<and> count held p = 1 then LRU_Append_lru p (LRU_Remove p C) else C"
    have "h_refs h - 1 = 1 \<longleftrightarrow> count held p - 1 + (if p \<in> A then 1 else 0) = 1"
      unfolding less [symmetric] by (metis unat_1 word_unat_eq_iff)
    then have "h_in_cache h \<and> h_refs h - 1 = 1 \<longleftrightarrow> p \<in> A \<and> count held p = 1" using h(3) pos by auto
    then have eval: "LRUCache_Unref p (M, C) = Some (?M, ?C)"
      using h(1) nz False by (simp add: LRUCache_Unref_def Let_def)
    have "lists_ok ?C (held - {#p#}) A"
    proof (cases "p \<in> A \<and> count held p = 1")
      case True
      then have "p \<in> set (lc_in_use C)" "p \<notin> set (lc_lru C)" using lists p unfolding lists_ok_def by auto
      then show ?thesis using lists True unfolding lists_ok_def LRU_Append_lru_def LRU_Remove_def
        by (auto simp: in_minus_single remove1_idem split: if_splits)
    next
      case False
      then have "1 < count held p \<or> p \<notin> A" using pos by linarith
      moreover have "p \<notin> set (lc_lru C)" using lists p unfolding lists_ok_def by blast
      ultimately show ?thesis using lists False still unfolding lists_ok_def
        by (auto simp: in_minus_single split: if_splits)
    qed
    moreover have "lc_usage ?C = lc_usage C" "lc_table ?C = lc_table C" "lc_capacity ?C = lc_capacity C"
      by (simp_all add: LRU_Append_lru_def LRU_Remove_def)
    ultimately have "lists_inv ?M ?C (held - {#p#}) A"
      using heap_ok_write [OF heap h(1)] refs' usage charge_sum_write [OF h(1) static] by (simp add: lists_inv_def)
    with eval heap_step_write [OF inv own_p h(1) static ownB] show ?thesis
      by (intro exI [of _ ?M] exI [of _ ?C]) (simp add: LRU_Append_lru_def LRU_Remove_def)
  qed
qed

text \<open>A further handle of a cached entry is given out.\<close>

lemma Ref_lists:
  assumes inv: "lists_inv M C held A" and p: "p \<in> A" and few: "size held + 2 < 2 ^ 32"
  shows "\<exists>M' C'. LRUCache_Ref p (M, C) = Some (M', C') \<and> lists_inv M' C' (add_mset p held) A \<and>
    heap_step M M' (own held A) (own (add_mset p held) A) \<and> lc_table C' = lc_table C \<and> lc_capacity C' = lc_capacity C \<and>
    lc_usage C' = lc_usage C"
proof -
  obtain h where h: "ch_handles M p = Some h" "unat (h_refs h) = count held p + 1" "h_in_cache h"
    using lists_invD [OF inv, of p] p by auto
  have lists: "lists_ok C held A" and heap: "heap_ok M" and usage: "lc_usage C = (\<Sum>p\<in>A. charge_at M p)"
    using inv by (simp_all add: lists_inv_def)
  let ?h = "h\<lparr>h_refs := h_refs h + 1\<rparr>"
  let ?M = "M\<lparr>ch_handles := (ch_handles M)(p \<mapsto> ?h)\<rparr>"
  let ?C = "if count held p = 0 then LRU_Append_in_use p (LRU_Remove p C) else C"
  have static: "static ?h = static h" by (simp add: static_def)
  have "count held p \<le> size held" by (rule count_le_size)
  then have more: "unat (h_refs h + 1) = count held p + 2" using unat_Suc_u32 [of "h_refs h"] few h(2) by simp
  have "h_refs h = 1 \<longleftrightarrow> count held p = 0" using h(2) by (metis One_nat_def Suc_eq_plus1 add_cancel_left_left unat_1 word_unat_eq_iff)
  then have eval: "LRUCache_Ref p (M, C) = Some (?M, ?C)" using h by (simp add: LRUCache_Ref_def Let_def)
  have ownB: "own (add_mset p held) A = own held A" using p by (auto simp: own_def)
  have own_p: "p \<in> own held A" using p by (simp add: own_def)
  have refs: "refs_at (ch_handles ?M) (add_mset p held) A q" if q: "q \<in> A \<union> set_mset (add_mset p held)" for q
  proof (cases "q = p")
    case True
    then show ?thesis using more h(3) p by (simp add: refs_at_def)
  next
    case False
    then have "refs_at (ch_handles M) held A q" using inv q unfolding lists_inv_def by auto
    with False show ?thesis by (auto elim: refs_at_other)
  qed
  have "lists_ok ?C (add_mset p held) A"
  proof (cases "count held p = 0")
    case True
    then have "p \<notin># held" by (simp add: not_in_iff)
    then have "p \<in> set (lc_lru C)" "p \<notin> set (lc_in_use C)" using lists p unfolding lists_ok_def by auto
    then show ?thesis using lists True unfolding lists_ok_def LRU_Append_in_use_def LRU_Remove_def by (auto simp: remove1_idem)
  next
    case False
    then have "p \<in># held" "p \<notin> set (lc_lru C)" using lists unfolding lists_ok_def by (metis count_eq_zero_iff)+
    then show ?thesis using lists unfolding if_not_P [OF False] lists_ok_def by auto
  qed
  then have "lists_inv ?M ?C (add_mset p held) A"
    using heap_ok_write [OF heap h(1)] refs usage charge_sum_write [OF h(1) static]
    by (simp add: lists_inv_def LRU_Append_in_use_def LRU_Remove_def)
  with eval heap_step_write [OF inv own_p h(1) static ownB] show ?thesis
    by (intro exI [of _ ?M] exI [of _ ?C]) (simp add: LRU_Append_in_use_def LRU_Remove_def)
qed

text \<open>An entry leaves the cache.\<close>

lemma FinishErase_lists:
  assumes inv: "lists_inv M C held A" and p: "p \<in> A"
  shows "\<exists>M' C'. LRUCache_FinishErase (Some p) (M, C) = Some (True, M', C') \<and> lists_inv M' C' held (A - {p}) \<and>
    heap_step M M' (own held A) (own held (A - {p})) \<and> lc_table C' = lc_table C \<and> lc_capacity C' = lc_capacity C \<and>
    lc_lru C' = remove1 p (lc_lru C)"
proof -
  obtain h where h: "ch_handles M p = Some h" "unat (h_refs h) = count held p + 1" "h_in_cache h"
    using lists_invD [OF inv, of p] p by auto
  have lists: "lists_ok C held A" and heap: "heap_ok M" and usage: "lc_usage C = (\<Sum>p\<in>A. charge_at M p)"
    using inv by (simp_all add: lists_inv_def)
  let ?h = "h\<lparr>h_in_cache := False\<rparr>"
  let ?M = "M\<lparr>ch_handles := (ch_handles M)(p \<mapsto> ?h)\<rparr>"
  let ?C = "(LRU_Remove p C)\<lparr>lc_usage := lc_usage C - h_charge h\<rparr>"
  have static: "static ?h = static h" by (simp add: static_def)
  have own_p: "p \<in> own held A" using p by (simp add: own_def)
  have ownB: "own (add_mset p held) (A - {p}) = own held A" using p by (auto simp: own_def)
  have refs: "refs_at (ch_handles ?M) (add_mset p held) (A - {p}) q" if q: "q \<in> A - {p} \<union> set_mset (add_mset p held)" for q
  proof (cases "q = p")
    case True
    then show ?thesis using h by (simp add: refs_at_def)
  next
    case False
    then have "refs_at (ch_handles M) held A q" using inv q unfolding lists_inv_def by auto
    with False show ?thesis by (auto elim: refs_at_other)
  qed
  have fin: "finite A" using lists unfolding lists_ok_def by (metis List.finite_set)
  have "(\<Sum>q\<in>A. charge_at M q) = h_charge h + (\<Sum>q\<in>A - {p}. charge_at M q)"
    using sum.remove [OF fin p, of "charge_at M"] h(1) by simp
  then have "lc_usage C - h_charge h = (\<Sum>q\<in>A - {p}. charge_at ?M q)"
    unfolding usage charge_sum_write [OF h(1) static] by simp
  moreover have "lists_ok ?C (add_mset p held) (A - {p})"
    using lists unfolding lists_ok_def LRU_Remove_def by auto
  ultimately have inv1: "lists_inv ?M ?C (add_mset p held) (A - {p})"
    using heap_ok_write [OF heap h(1)] refs by (simp add: lists_inv_def)
  obtain M' C' where u: "LRUCache_Unref p (?M, ?C) = Some (M', C')" "lists_inv M' C' (add_mset p held - {#p#}) (A - {p})"
    "heap_step ?M M' (own (add_mset p held) (A - {p})) (own (add_mset p held - {#p#}) (A - {p}))" "p \<notin> A - {p} \<longrightarrow> C' = ?C"
    using Unref_lists [OF inv1, of p] by auto
  have C': "C' = ?C" using u(4) by simp
  have eval: "LRUCache_FinishErase (Some p) (M, C) = Some (True, M', C')"
    using h(1,3) u(1) by (simp add: LRUCache_FinishErase_def LRU_Remove_def)
  have "heap_step M M' (own held A) (own held (A - {p}))"
    using heap_step_trans [OF heap_step_write [OF inv own_p h(1) static ownB]] u(3) by simp
  with eval u(2) C' show ?thesis by (intro exI [of _ M'] exI [of _ C']) (simp add: LRU_Remove_def)
qed

subsection \<open>The operations of a shard\<close>

definition shard_ok :: "'v cache_heap \<Rightarrow> lru_cache \<Rightarrow> addr multiset \<Rightarrow> addr set \<Rightarrow> bool" where
  "shard_ok M C held A \<longleftrightarrow> lists_inv M C held A \<and> table_ok (ch_handles M) (lc_table C) \<and> set (table_entries (lc_table C)) = A"

lemma heap_step_static:
  assumes "heap_step M M' A B" "p \<in> A" "p \<in> B"
  shows "\<exists>h h'. ch_handles M p = Some h \<and> ch_handles M' p = Some h' \<and> static h' = static h"
  using assms unfolding heap_step_def by (metis UnI1 option.exhaust)

lemma heap_step_tag:
  assumes "heap_step M M' A B" "p \<in> A" "p \<in> B"
  shows "tag (ch_handles M') p = tag (ch_handles M) p"
  using heap_step_static [OF assms] by (auto simp: tag_def static_def)

lemma table_ok_cong:
  assumes "table_ok H t" "\<forall>p \<in> set (table_entries t). tag H' p = tag H p"
  shows "table_ok H' t"
proof -
  have "map (tag H') (table_entries t) = map (tag H) (table_entries t)" using assms(2) by simp
  moreover have "buckets_ok H' (ht_length t) (ht_list t)"
  proof -
    have "\<exists>h. H' p = Some h \<and> bucket_of (h_hash h) (ht_length t) = i" if i: "i < length (ht_list t)" "p \<in> set (ht_list t ! i)" for i p
    proof -
      have b: "buckets_ok H (ht_length t) (ht_list t)" using assms(1) by (simp add: table_ok_def)
      have "tag H' p = tag H p" using assms(2) i by (auto intro: nth_mem)
      with buckets_okD [OF b i] show ?thesis by (auto simp: tag_def)
    qed
    then show ?thesis using assms(1) unfolding table_ok_def buckets_ok_def by blast
  qed
  ultimately show ?thesis using assms(1) unfolding table_ok_def by (simp only:)
qed

lemma lists_inv_table: "lists_inv M (C\<lparr>lc_table := t\<rparr>) held A \<longleftrightarrow> lists_inv M C held A"
  by (simp add: lists_inv_def lists_ok_def)

lemma FinishErase_shard:
  assumes "lists_inv M C held A" "p \<in> A" "table_ok (ch_handles M) (lc_table C)" "set (table_entries (lc_table C)) = A - {p}"
  shows "\<exists>M' C'. LRUCache_FinishErase (Some p) (M, C) = Some (True, M', C') \<and> shard_ok M' C' held (A - {p}) \<and>
    heap_step M M' (own held A) (own held (A - {p})) \<and> lc_capacity C' = lc_capacity C \<and> lc_lru C' = remove1 p (lc_lru C)"
proof -
  obtain M' C' where f: "LRUCache_FinishErase (Some p) (M, C) = Some (True, M', C')" "lists_inv M' C' held (A - {p})"
    "heap_step M M' (own held A) (own held (A - {p}))" "lc_table C' = lc_table C" "lc_capacity C' = lc_capacity C"
    "lc_lru C' = remove1 p (lc_lru C)" using FinishErase_lists [OF assms(1,2)] by blast
  have "table_ok (ch_handles M') (lc_table C)"
    by (rule table_ok_cong [OF assms(3)]) (use heap_step_tag [OF f(3)] assms(4) in \<open>auto simp: own_def\<close>)
  with f assms(4) show ?thesis by (intro exI [of _ M'] exI [of _ C']) (simp add: shard_ok_def)
qed

lemma Remove_shard:
  assumes "shard_ok M C held A"
  shows "\<exists>r t. HandleTable_Remove (ch_handles M) key hash (lc_table C) = Some (r, t) \<and>
    (\<forall>p. r = Some p \<longleftrightarrow> p \<in> A \<and> tag (ch_handles M) p = Some (key, hash)) \<and>
    table_ok (ch_handles M) t \<and> set (table_entries t) = A - set_option r"
proof -
  have t: "table_ok (ch_handles M) (lc_table C)" "set (table_entries (lc_table C)) = A" using assms by (simp_all add: shard_ok_def)
  obtain r t where r: "HandleTable_Remove (ch_handles M) key hash (lc_table C) = Some (r, t)"
    "found (ch_handles M) (table_entries (lc_table C)) (key, hash) r" "table_ok (ch_handles M) t"
    "mset (table_entries (lc_table C)) = mset (table_entries t) + mset_set (set_option r)"
    using HandleTable_Remove_ok [OF t(1)] by blast
  have "distinct (table_entries (lc_table C))" using t(1) distinct_tag_entries unfolding table_ok_def by blast
  then have "set (table_entries t) = A - set_option r"
  proof (cases r)
    case None
    with r(4) t(2) show ?thesis by (metis Diff_empty add.right_neutral mset_set.empty option.set(1) set_mset_mset)
  next
    case (Some p)
    then have "mset (table_entries (lc_table C)) = mset (p # table_entries t)" using r(4) by simp
    with \<open>distinct (table_entries (lc_table C))\<close> have "distinct (p # table_entries t)" "set (table_entries (lc_table C)) = set (p # table_entries t)"
      using mset_eq_imp_distinct_iff mset_eq_setD by blast+
    with t(2) Some show ?thesis by auto
  qed
  with r t(2) show ?thesis unfolding found_def by blast
qed

lemma evict_oldest_ok:
  assumes "shard_ok M C held A" "lc_lru C = p # ps"
  shows "\<exists>M' C'. evict_oldest (M, C) = Some (M', C') \<and> shard_ok M' C' held (A - {p}) \<and>
    heap_step M M' (own held A) (own held (A - {p})) \<and> lc_capacity C' = lc_capacity C \<and> lc_lru C' = ps"
proof -
  have inv: "lists_inv M C held A" using assms(1) by (simp add: shard_ok_def)
  then have p: "p \<in> A" "p \<notin># held" using assms(2) unfolding lists_inv_def lists_ok_def by auto
  obtain h where h: "ch_handles M p = Some h" "unat (h_refs h) = count held p + 1" using lists_invD [OF inv, of p] p(1) by auto
  have "unat (h_refs h) = 1" using h(2) p(2) by (simp add: not_in_iff)
  then have one: "h_refs h = 1" by (metis unat_1 word_unat_eq_iff)
  obtain r t where r: "HandleTable_Remove (ch_handles M) (h_key h) (h_hash h) (lc_table C) = Some (r, t)"
    "\<forall>q. r = Some q \<longleftrightarrow> q \<in> A \<and> tag (ch_handles M) q = Some (h_key h, h_hash h)"
    "table_ok (ch_handles M) t" "set (table_entries t) = A - set_option r" using Remove_shard [OF assms(1)] by blast
  have rp: "r = Some p" using r(2) p(1) h(1) by (simp add: tag_def)
  have inv1: "lists_inv M (C\<lparr>lc_table := t\<rparr>) held A" using inv by (simp add: lists_inv_table)
  obtain M' C' where f: "LRUCache_FinishErase (Some p) (M, C\<lparr>lc_table := t\<rparr>) = Some (True, M', C')" "shard_ok M' C' held (A - {p})"
    "heap_step M M' (own held A) (own held (A - {p}))" "lc_capacity C' = lc_capacity C" "lc_lru C' = remove1 p (lc_lru C)"
    using FinishErase_shard [OF inv1 p(1)] r(3,4) rp by auto
  have "evict_oldest (M, C) = Some (M', C')"
    using h(1) one r(1) rp f(1) assms(2) by (simp add: evict_oldest_def)
  with f assms(2) show ?thesis by (intro exI [of _ M'] exI [of _ C']) simp
qed

lemma evict_excess_ok:
  assumes "shard_ok M C held A"
  shows "\<exists>n M' C'. evict_excess (M, C) = Some (M', C') \<and> shard_ok M' C' held (A - set (take n (lc_lru C))) \<and>
    heap_step M M' (own held A) (own held (A - set (take n (lc_lru C)))) \<and> lc_capacity C' = lc_capacity C \<and>
    lc_lru C' = drop n (lc_lru C) \<and> (lc_usage C' \<le> lc_capacity C' \<or> lc_lru C' = [])"
  using assms
proof (induction "lc_lru C" arbitrary: M C A)
  case Nil
  then show ?case using heap_step_refl [of M C held A]
    by (intro exI [of _ 0] exI [of _ M] exI [of _ C]) (auto simp: evict_excess.simps [of "(M, C)"] shard_ok_def)
next
  case (Cons p ps)
  show ?case
  proof (cases "lc_capacity C < lc_usage C")
    case False
    then show ?thesis using Cons.prems heap_step_refl [of M C held A]
      by (intro exI [of _ 0] exI [of _ M] exI [of _ C]) (auto simp: evict_excess.simps [of "(M, C)"] shard_ok_def)
  next
    case True
    obtain M1 C1 where e: "evict_oldest (M, C) = Some (M1, C1)" "shard_ok M1 C1 held (A - {p})"
      "heap_step M M1 (own held A) (own held (A - {p}))" "lc_capacity C1 = lc_capacity C" "lc_lru C1 = ps"
      using evict_oldest_ok [OF Cons.prems, of p ps] Cons.hyps(2) by auto
    obtain n M' C' where r: "evict_excess (M1, C1) = Some (M', C')" "shard_ok M' C' held (A - {p} - set (take n ps))"
      "heap_step M1 M' (own held (A - {p})) (own held (A - {p} - set (take n ps)))" "lc_capacity C' = lc_capacity C1"
      "lc_lru C' = drop n ps" "lc_usage C' \<le> lc_capacity C' \<or> lc_lru C' = []"
      using Cons.hyps(1) [OF e(5) [symmetric] e(2)] unfolding e(5) by blast
    have set: "A - {p} - set (take n ps) = A - set (take (Suc n) (lc_lru C))" using Cons.hyps(2) [symmetric] by auto
    have "evict_excess (M, C) = Some (M', C')"
      using True e(1) r(1) Cons.hyps(2) by (subst evict_excess.simps) (metis bind.bind_lunit list.distinct(1) snd_conv)
    with r heap_step_trans [OF e(3) r(3)] e(4) show ?thesis unfolding set
      by (intro exI [of _ "Suc n"] exI [of _ M'] exI [of _ C']) (simp add: Cons.hyps(2) [symmetric])
  qed
qed

lemma Prune_ok:
  assumes "shard_ok M C held A"
  shows "\<exists>M' C'. LRUCache_Prune (M, C) = Some (M', C') \<and> shard_ok M' C' held (A - set (lc_lru C)) \<and>
    heap_step M M' (own held A) (own held (A - set (lc_lru C))) \<and> lc_lru C' = [] \<and> lc_capacity C' = lc_capacity C"
  using assms
proof (induction "lc_lru C" arbitrary: M C A)
  case Nil
  then show ?case using heap_step_refl [of M C held A]
    by (intro exI [of _ M] exI [of _ C]) (auto simp: LRUCache_Prune.simps [of "(M, C)"] shard_ok_def)
next
  case (Cons p ps)
  obtain M1 C1 where e: "evict_oldest (M, C) = Some (M1, C1)" "shard_ok M1 C1 held (A - {p})"
    "heap_step M M1 (own held A) (own held (A - {p}))" "lc_lru C1 = ps" "lc_capacity C1 = lc_capacity C"
    using evict_oldest_ok [OF Cons.prems, of p ps] Cons.hyps(2) by auto
  obtain M' C' where r: "LRUCache_Prune (M1, C1) = Some (M', C')" "shard_ok M' C' held (A - {p} - set ps)"
    "heap_step M1 M' (own held (A - {p})) (own held (A - {p} - set ps))" "lc_lru C' = []" "lc_capacity C' = lc_capacity C1"
    using Cons.hyps(1) [OF e(4) [symmetric] e(2)] unfolding e(4) by blast
  have set: "A - {p} - set ps = A - set (lc_lru C)" using Cons.hyps(2) [symmetric] by auto
  have "LRUCache_Prune (M, C) = Some (M', C')"
    using e(1) r(1) Cons.hyps(2) by (subst LRUCache_Prune.simps) (metis bind.bind_lunit list.distinct(1) snd_conv)
  with r heap_step_trans [OF e(3) r(3)] e(5) show ?case unfolding set by auto
qed

lemma shard_table_cong:
  assumes "shard_ok M C held A" "heap_step M M' (own held A) (own held' A)"
  shows "table_ok (ch_handles M') (lc_table C)"
proof (rule table_ok_cong)
  show "table_ok (ch_handles M) (lc_table C)" using assms(1) by (simp add: shard_ok_def)
  show "\<forall>p \<in> set (table_entries (lc_table C)). tag (ch_handles M') p = tag (ch_handles M) p"
    using heap_step_tag [OF assms(2)] assms(1) unfolding shard_ok_def own_def by blast
qed

lemma Release_shard:
  assumes "shard_ok M C held A" "p \<in># held"
  shows "\<exists>M' C'. LRUCache_Release p (M, C) = Some (M', C') \<and> shard_ok M' C' (held - {#p#}) A \<and>
    heap_step M M' (own held A) (own (held - {#p#}) A) \<and> lc_capacity C' = lc_capacity C"
proof -
  have "lists_inv M C held A" using assms(1) by (simp add: shard_ok_def)
  then obtain M' C' where u: "LRUCache_Unref p (M, C) = Some (M', C')" "lists_inv M' C' (held - {#p#}) A"
    "heap_step M M' (own held A) (own (held - {#p#}) A)" "lc_table C' = lc_table C" "lc_capacity C' = lc_capacity C"
    using Unref_lists [OF _ assms(2)] by blast
  with shard_table_cong [OF assms(1) u(3)] assms(1) show ?thesis
    by (intro exI [of _ M'] exI [of _ C']) (simp add: shard_ok_def LRUCache_Release_def)
qed

lemma Lookup_shard:
  assumes "shard_ok M C held A" "size held + 2 < 2 ^ 32"
  shows "\<exists>r M' C'. LRUCache_Lookup key hash (M, C) = Some (r, M', C') \<and>
    (\<forall>p. r = Some p \<longleftrightarrow> p \<in> A \<and> tag (ch_handles M) p = Some (key, hash)) \<and>
    shard_ok M' C' (held + mset_set (set_option r)) A \<and>
    heap_step M M' (own held A) (own (held + mset_set (set_option r)) A) \<and> lc_capacity C' = lc_capacity C"
proof -
  have t: "table_ok (ch_handles M) (lc_table C)" "set (table_entries (lc_table C)) = A" and inv: "lists_inv M C held A"
    using assms(1) by (simp_all add: shard_ok_def)
  obtain r where r: "HandleTable_Lookup (ch_handles M) key hash (lc_table C) = Some r"
    "found (ch_handles M) (table_entries (lc_table C)) (key, hash) r"
    using HandleTable_Lookup_ok [OF t(1)] by blast
  have iff: "\<forall>p. r = Some p \<longleftrightarrow> p \<in> A \<and> tag (ch_handles M) p = Some (key, hash)" using r(2) t(2) unfolding found_def by blast
  show ?thesis
  proof (cases r)
    case None
    with r(1) iff assms(1) heap_step_refl [OF inv] show ?thesis
      by (intro exI [of _ None] exI [of _ M] exI [of _ C]) (simp add: LRUCache_Lookup_def)
  next
    case (Some p)
    then have p: "p \<in> A" using iff by blast
    obtain M' C' where f: "LRUCache_Ref p (M, C) = Some (M', C')" "lists_inv M' C' (add_mset p held) A"
      "heap_step M M' (own held A) (own (add_mset p held) A)" "lc_table C' = lc_table C" "lc_capacity C' = lc_capacity C"
      using Ref_lists [OF inv p assms(2)] by blast
    have "LRUCache_Lookup key hash (M, C) = Some (Some p, M', C')" using r(1) Some f(1) by (simp add: LRUCache_Lookup_def)
    moreover have "shard_ok M' C' (held + mset_set (set_option (Some p))) A"
      using shard_table_cong [OF assms(1) f(3)] t(2) f(2,4) by (simp add: shard_ok_def)
    moreover have "heap_step M M' (own held A) (own (held + mset_set (set_option (Some p))) A)" using f(3) by simp
    ultimately show ?thesis using iff f(5) unfolding Some by blast
  qed
qed

lemma Erase_shard:
  assumes "shard_ok M C held A"
  shows "\<exists>M' C' A'. LRUCache_Erase key hash (M, C) = Some (M', C') \<and> shard_ok M' C' held A' \<and>
    heap_step M M' (own held A) (own held A') \<and> A' = {p \<in> A. tag (ch_handles M) p \<noteq> Some (key, hash)} \<and> lc_capacity C' = lc_capacity C"
proof -
  have inv: "lists_inv M C held A" using assms by (simp add: shard_ok_def)
  obtain r t where r: "HandleTable_Remove (ch_handles M) key hash (lc_table C) = Some (r, t)"
    "\<forall>q. r = Some q \<longleftrightarrow> q \<in> A \<and> tag (ch_handles M) q = Some (key, hash)"
    "table_ok (ch_handles M) t" "set (table_entries t) = A - set_option r" using Remove_shard [OF assms] by blast
  have A': "{p \<in> A. tag (ch_handles M) p \<noteq> Some (key, hash)} = A - set_option r" using r(2) by auto
  have inv1: "lists_inv M (C\<lparr>lc_table := t\<rparr>) held A" using inv by (simp add: lists_inv_table)
  show ?thesis
  proof (cases r)
    case None
    with r inv1 A' heap_step_refl [OF inv] show ?thesis
      by (intro exI [of _ M] exI [of _ "C\<lparr>lc_table := t\<rparr>"] exI [of _ A])
         (simp add: LRUCache_Erase_def LRUCache_FinishErase_def shard_ok_def)
  next
    case (Some p)
    then have p: "p \<in> A" using r(2) by blast
    obtain M' C' where f: "LRUCache_FinishErase (Some p) (M, C\<lparr>lc_table := t\<rparr>) = Some (True, M', C')" "shard_ok M' C' held (A - {p})"
      "heap_step M M' (own held A) (own held (A - {p}))" "lc_capacity C' = lc_capacity C"
      using FinishErase_shard [OF inv1 p] r(3,4) Some by auto
    with r(1) Some A' show ?thesis
      by (intro exI [of _ M'] exI [of _ C'] exI [of _ "A - {p}"]) (simp add: LRUCache_Erase_def)
  qed
qed

text \<open>A new entry, cached or not.\<close>

lemma new_entry:
  assumes inv: "lists_inv M C held A" and h: "unat (h_refs h) = 1 + (if cached then 1 else 0)" "h_in_cache h \<longleftrightarrow> cached"
    and M1: "M1 = M\<lparr>ch_handles := (ch_handles M)(ch_fresh M \<mapsto> h), ch_fresh := Suc (ch_fresh M)\<rparr>"
    and C1: "C1 = (if cached then (LRU_Append_in_use (ch_fresh M) C)\<lparr>lc_usage := lc_usage C + h_charge h\<rparr> else C)"
    and A1: "A1 = (if cached then insert (ch_fresh M) A else A)"
  shows "lists_inv M1 C1 (add_mset (ch_fresh M) held) A1 \<and> heap_step M M1 (own held A) (own (add_mset (ch_fresh M) held) A1) \<and>
    ch_fresh M \<notin> own held A"
proof -
  let ?p = "ch_fresh M"
  have lists: "lists_ok C held A" and heap: "heap_ok M" and usage: "lc_usage C = (\<Sum>p\<in>A. charge_at M p)"
    using inv by (simp_all add: lists_inv_def)
  have fresh: "?p \<notin> own held A" using lists_inv_own(1) [OF inv] by auto
  then have new: "?p \<notin> A" "?p \<notin># held" by (simp_all add: own_def)
  have "refs_at (ch_handles M1) (add_mset ?p held) A1 q" if q: "q \<in> A1 \<union> set_mset (add_mset ?p held)" for q
  proof (cases "q = ?p")
    case True
    then show ?thesis using h new by (simp add: refs_at_def M1 A1 not_in_iff)
  next
    case False
    then have "refs_at (ch_handles M) held A q" using inv q unfolding lists_inv_def by (auto simp: A1 split: if_splits)
    with False show ?thesis by (auto simp: M1 A1 elim: refs_at_other)
  qed
  moreover have "heap_ok M1" using heap unfolding heap_ok_def M1 by (auto simp: less_SucI)
  moreover have "lists_ok C1 (add_mset ?p held) A1"
    using lists new unfolding lists_ok_def C1 A1 LRU_Append_in_use_def by (cases cached) auto
  moreover have "lc_usage C1 = (\<Sum>p\<in>A1. charge_at M1 p)"
  proof -
    have "finite A" using lists unfolding lists_ok_def by (metis List.finite_set)
    moreover have "(\<Sum>q\<in>A. charge_at M1 q) = (\<Sum>q\<in>A. charge_at M q)"
      by (rule charge_sum_cong) (use new(1) in \<open>auto simp: M1\<close>)
    ultimately show ?thesis using new(1) usage by (auto simp: C1 A1 M1 LRU_Append_in_use_def)
  qed
  moreover have "heap_step M M1 (own held A) (own (add_mset ?p held) A1)"
    using lists_inv_own [OF inv] fresh unfolding heap_step_def
    by (auto simp: M1 A1 own_def less_Suc_eq split: if_splits)
  ultimately show ?thesis using fresh by (simp add: lists_inv_def)
qed

lemma Insert_shard:
  assumes ok: "shard_ok M C held A" and room: "card A + 1 < 2 ^ 31"
  shows "\<exists>M' C' A'. LRUCache_Insert key hash v charge (M, C) = Some (ch_fresh M, M', C') \<and>
    shard_ok M' C' (add_mset (ch_fresh M) held) A' \<and>
    heap_step M M' (own held A) (own (add_mset (ch_fresh M) held) A') \<and>
    (\<exists>h. ch_handles M' (ch_fresh M) = Some h \<and> static h = (key, hash, v, charge)) \<and>
    (if 0 < lc_capacity C then ch_fresh M \<in> A' \<and> A' \<subseteq> insert (ch_fresh M) {p \<in> A. tag (ch_handles M) p \<noteq> Some (key, hash)}
     else A' \<subseteq> A) \<and>
    lc_capacity C' = lc_capacity C \<and> (lc_usage C' \<le> lc_capacity C' \<or> lc_lru C' = []) \<and> ch_fresh M \<notin> own held A"
proof -
  let ?p = "ch_fresh M" and ?cached = "0 < lc_capacity C"
  have inv: "lists_inv M C held A" and t: "table_ok (ch_handles M) (lc_table C)" "set (table_entries (lc_table C)) = A"
    using ok by (simp_all add: shard_ok_def)
  define h where "h = \<lparr>h_value = v, h_charge = charge, h_key = key, h_in_cache = ?cached, h_refs = (if ?cached then 1 + 1 else 1), h_hash = hash\<rparr>"
  define M1 where "M1 = M\<lparr>ch_handles := (ch_handles M)(?p \<mapsto> h), ch_fresh := Suc ?p\<rparr>"
  define C1 where "C1 = (if ?cached then (LRU_Append_in_use ?p C)\<lparr>lc_usage := lc_usage C + h_charge h\<rparr> else C)"
  define A1 where "A1 = (if ?cached then insert ?p A else A)"
  have static: "static h = (key, hash, v, charge)" by (simp add: static_def h_def)
  have "unat (h_refs h) = 1 + (if ?cached then 1 else 0)" "h_in_cache h \<longleftrightarrow> ?cached" by (simp_all add: h_def)
  from new_entry [OF inv this M1_def C1_def A1_def]
  have n: "lists_inv M1 C1 (add_mset ?p held) A1" "heap_step M M1 (own held A) (own (add_mset ?p held) A1)" "?p \<notin> own held A" by simp_all
  have "\<exists>M2 C2 A2. LRUCache_Insert key hash v charge (M, C) = evict_excess (M2, C2) \<bind> (\<lambda>s. Some (?p, s)) \<and>
      shard_ok M2 C2 (add_mset ?p held) A2 \<and> heap_step M M2 (own held A) (own (add_mset ?p held) A2) \<and>
      (\<exists>h. ch_handles M2 ?p = Some h \<and> static h = (key, hash, v, charge)) \<and>
      (if ?cached then ?p \<in> A2 \<and> A2 \<subseteq> insert ?p {p \<in> A. tag (ch_handles M) p \<noteq> Some (key, hash)} else A2 \<subseteq> A) \<and>
      lc_capacity C2 = lc_capacity C"
  proof (cases ?cached)
    case False
    have same: "M1 = M\<lparr>ch_handles := (ch_handles M)(?p \<mapsto> \<lparr>h_value = v, h_charge = charge, h_key = key, h_in_cache = False, h_refs = 1, h_hash = hash\<rparr>),
        ch_fresh := Suc ?p\<rparr>" "C1 = C" "A1 = A" using False by (simp_all add: M1_def h_def C1_def A1_def)
    have "table_ok (ch_handles M1) (lc_table C)"
      by (rule table_ok_cong [OF t(1)]) (use heap_step_tag [OF n(2)] t(2) same(3) in \<open>auto simp: own_def\<close>)
    then have "shard_ok M1 C (add_mset ?p held) A" using n(1) t(2) same by (simp add: shard_ok_def)
    moreover have "LRUCache_Insert key hash v charge (M, C) = evict_excess (M1, C) \<bind> (\<lambda>s. Some (?p, s))"
      using False by (simp add: LRUCache_Insert_def same(1) Let_def)
    ultimately show ?thesis using n(2) static False same(2,3)
      by (intro exI [of _ M1] exI [of _ C] exI [of _ A]) (simp add: M1_def)
  next
    case True
    have A1: "A1 = insert ?p A" and table: "lc_table C1 = lc_table C" "lc_capacity C1 = lc_capacity C"
      using True by (simp_all add: A1_def C1_def LRU_Append_in_use_def)
    have tags: "\<forall>p \<in> A. tag (ch_handles M1) p = tag (ch_handles M) p"
      using heap_step_tag [OF n(2)] A1 by (auto simp: own_def)
    have t1: "table_ok (ch_handles M1) (lc_table C)"
      by (rule table_ok_cong [OF t(1)]) (use tags t(2) in auto)
    have hp: "ch_handles M1 ?p = Some h" by (simp add: M1_def)
    have "distinct (table_entries (lc_table C))" using t(1) distinct_tag_entries unfolding table_ok_def by blast
    then have len: "length (table_entries (lc_table C)) = card A" using distinct_card t(2) by metis
    have pA: "?p \<notin> A" using n(3) by (simp add: own_def)
    obtain r t' where r: "HandleTable_Insert (ch_handles M1) ?p (lc_table C) = Some (r, t')"
      "found (ch_handles M1) (table_entries (lc_table C)) (h_key h, h_hash h) r" "table_ok (ch_handles M1) t'"
      "mset (table_entries t') + mset_set (set_option r) = add_mset ?p (mset (table_entries (lc_table C)))"
      using HandleTable_Insert_ok [OF t1 hp] t(2) pA len room by auto
    have iff: "r = Some q \<longleftrightarrow> q \<in> A \<and> tag (ch_handles M) q = Some (key, hash)" for q
      using r(2) t(2) tags unfolding found_def by (auto simp: h_def)
    have inv1: "lists_inv M1 (C1\<lparr>lc_table := t'\<rparr>) (add_mset ?p held) A1" using n(1) by (simp add: lists_inv_table)
    have eval: "LRUCache_Insert key hash v charge (M, C) = LRUCache_FinishErase r (M1, C1\<lparr>lc_table := t'\<rparr>) \<bind>
        (\<lambda>(erased, s). evict_excess s \<bind> (\<lambda>s. Some (?p, s)))"
    proof -
      have "\<lparr>h_value = v, h_charge = charge, h_key = key, h_in_cache = True, h_refs = 1 + 1, h_hash = hash\<rparr> = h" using True by (simp add: h_def)
      moreover have "(LRU_Append_in_use ?p C)\<lparr>lc_usage := lc_usage (LRU_Append_in_use ?p C) + charge\<rparr> = C1"
        using True by (simp add: C1_def LRU_Append_in_use_def h_def)
      moreover have "(ch_handles M)(?p \<mapsto> h) = ch_handles M1" by (simp add: M1_def)
      moreover have "lc_table (LRU_Append_in_use ?p C) = lc_table C" by (simp add: LRU_Append_in_use_def)
      moreover have "M\<lparr>ch_handles := ch_handles M1, ch_fresh := Suc ?p\<rparr> = M1" by (simp add: M1_def)
      ultimately show ?thesis using True r(1)
        by (simp add: LRUCache_Insert_def Let_def case_prod_unfold)
    qed
    show ?thesis
    proof (cases r)
      case None
      then have "mset (table_entries t') = mset (?p # table_entries (lc_table C))" using r(4) by (simp del: mset_concat)
      from mset_eq_setD [OF this] have st: "set (table_entries t') = A1" using A1 t(2) by simp
      have "A1 \<subseteq> insert ?p {p \<in> A. tag (ch_handles M) p \<noteq> Some (key, hash)}" using A1 iff None by auto
      with inv1 r(3) st n(2) eval None hp static True table A1 show ?thesis
        by (intro exI [of _ M1] exI [of _ "C1\<lparr>lc_table := t'\<rparr>"] exI [of _ A1]) (simp add: shard_ok_def LRUCache_FinishErase_def)
    next
      case (Some q)
      then have q: "q \<in> A" "tag (ch_handles M) q = Some (key, hash)" using iff by blast+
      have ms: "mset (q # table_entries t') = mset (?p # table_entries (lc_table C))" using r(4) Some by simp
      moreover have "distinct (?p # table_entries (lc_table C))" using \<open>distinct (table_entries (lc_table C))\<close> t(2) pA by simp
      ultimately have "distinct (q # table_entries t')" "set (q # table_entries t') = A1"
        using mset_eq_imp_distinct_iff [OF ms] mset_eq_setD [OF ms] A1 t(2) by simp_all
      then have st: "set (table_entries t') = A1 - {q}" by auto
      have qA1: "q \<in> A1" using q A1 by simp
      obtain M2 C2 where f: "LRUCache_FinishErase (Some q) (M1, C1\<lparr>lc_table := t'\<rparr>) = Some (True, M2, C2)"
        "shard_ok M2 C2 (add_mset ?p held) (A1 - {q})" "heap_step M1 M2 (own (add_mset ?p held) A1) (own (add_mset ?p held) (A1 - {q}))"
        "lc_capacity C2 = lc_capacity C1" using FinishErase_shard [OF inv1 qA1] r(3) st by auto
      have p_own: "?p \<in> own (add_mset ?p held) A1" "?p \<in> own (add_mset ?p held) (A1 - {q})" by (simp_all add: own_def)
      have "\<exists>h. ch_handles M2 ?p = Some h \<and> static h = (key, hash, v, charge)"
        using heap_step_static [OF f(3) p_own] hp static by auto
      moreover have "A1 - {q} \<subseteq> insert ?p {p \<in> A. tag (ch_handles M) p \<noteq> Some (key, hash)}"
      proof -
        have "x = q" if "x \<in> A" "tag (ch_handles M) x = Some (key, hash)" for x using iff [of x] that Some by simp
        then show ?thesis using A1 by blast
      qed
      moreover have "?p \<in> A1 - {q}" using A1 q(1) pA by auto
      ultimately show ?thesis using f eval Some heap_step_trans [OF n(2) f(3)] table(2) True
        by (intro exI [of _ M2] exI [of _ C2] exI [of _ "A1 - {q}"]) simp
    qed
  qed
  then obtain M2 C2 A2 where 2: "LRUCache_Insert key hash v charge (M, C) = evict_excess (M2, C2) \<bind> (\<lambda>s. Some (?p, s))"
      "shard_ok M2 C2 (add_mset ?p held) A2" "heap_step M M2 (own held A) (own (add_mset ?p held) A2)"
      "\<exists>h. ch_handles M2 ?p = Some h \<and> static h = (key, hash, v, charge)"
      "if ?cached then ?p \<in> A2 \<and> A2 \<subseteq> insert ?p {p \<in> A. tag (ch_handles M) p \<noteq> Some (key, hash)} else A2 \<subseteq> A"
      "lc_capacity C2 = lc_capacity C" by blast
  obtain n M' C' where 3: "evict_excess (M2, C2) = Some (M', C')" "shard_ok M' C' (add_mset ?p held) (A2 - set (take n (lc_lru C2)))"
    "heap_step M2 M' (own (add_mset ?p held) A2) (own (add_mset ?p held) (A2 - set (take n (lc_lru C2))))" "lc_capacity C' = lc_capacity C2"
    "lc_usage C' \<le> lc_capacity C' \<or> lc_lru C' = []"
    using evict_excess_ok [OF 2(2)] by blast
  have "?p \<notin> set (lc_lru C2)" using 2(2) unfolding shard_ok_def lists_inv_def lists_ok_def by auto
  then have stays: "?p \<in> A2 \<longrightarrow> ?p \<in> A2 - set (take n (lc_lru C2))" using set_take_subset [of n "lc_lru C2"] by blast
  have p_own: "?p \<in> own (add_mset ?p held) A2" "?p \<in> own (add_mset ?p held) (A2 - set (take n (lc_lru C2)))" by (simp_all add: own_def)
  have "\<exists>h. ch_handles M' ?p = Some h \<and> static h = (key, hash, v, charge)"
    using heap_step_static [OF 3(3) p_own] 2(4) by auto
  with 2 3 stays heap_step_trans [OF 2(3) 3(3)] n(3) show ?thesis
    by (intro exI [of _ M'] exI [of _ C'] exI [of _ "A2 - set (take n (lc_lru C2))"]) (auto split: if_splits)
qed

end
