(* ===== verification/Sharded_Cache.thy ===== *)
theory Sharded_Cache
  imports Lru_Cache
begin

text \<open>
  The cache as its clients see it: sixteen shards on one heap.  A run of the cache is an inductive
  relation that carries the handles given out, with the value each was given out for, and the last
  value inserted under every key; the properties say that the cache is a map that may forget.
\<close>

definition shard_of :: "'v cache_heap \<Rightarrow> addr \<Rightarrow> nat option" where
  "shard_of M p = map_option (\<lambda>h. Shard (h_hash h)) (ch_handles M p)"

definition held_in :: "'v cache_heap \<Rightarrow> nat \<Rightarrow> addr multiset \<Rightarrow> addr multiset" where
  "held_in M i held = filter_mset (\<lambda>p. shard_of M p = Some i) held"

definition sharded_ok :: "'v sharded_cache \<Rightarrow> addr multiset \<Rightarrow> (nat \<Rightarrow> addr set) \<Rightarrow> bool" where
  "sharded_ok S held A \<longleftrightarrow> length (sc_shard S) = kNumShards \<and>
     (\<forall>i < kNumShards. shard_ok (sc_heap S) (sc_shard S ! i) (held_in (sc_heap S) i held) (A i) \<and>
        (\<forall>p \<in> A i. shard_of (sc_heap S) p = Some i)) \<and>
     (\<forall>p. ch_handles (sc_heap S) p \<noteq> None \<longleftrightarrow> p \<in># held \<or> (\<exists>i < kNumShards. p \<in> A i))"

lemma filter_mset_none: "(\<forall>x \<in># N. \<not> P x) \<Longrightarrow> filter_mset P N = {#}"
  by (induction N) auto

lemma filter_mset_all: "(\<forall>x \<in># N. P x) \<Longrightarrow> filter_mset P N = N"
  by (induction N) auto

lemma Shard_less: "Shard hash < kNumShards"
proof -
  have "unat (drop_bit 28 hash) < 2 ^ 4"
  proof -
    have "unat hash < 2 ^ 32" by (rule order_less_le_trans [OF unsigned_less]) simp
    then show ?thesis by (simp add: drop_bit_eq_div unat_div)
  qed
  then show ?thesis by (simp add: Shard_def kNumShards_def kNumShardBits_def)
qed

lemma shard_of_less: "shard_of M p = Some i \<Longrightarrow> i < kNumShards"
  using Shard_less by (auto simp: shard_of_def)

lemma shard_heap_ok: "shard_ok M C held A \<Longrightarrow> heap_ok M"
  by (simp add: shard_ok_def lists_inv_def)

lemma shard_ok_frame:
  assumes "shard_ok M C held A" "heap_ok M'" "\<forall>p \<in> own held A. ch_handles M' p = ch_handles M p"
  shows "shard_ok M' C held A"
proof -
  have inv: "lists_inv M C held A" and t: "table_ok (ch_handles M) (lc_table C)" "set (table_entries (lc_table C)) = A"
    using assms(1) by (simp_all add: shard_ok_def)
  have "refs_at (ch_handles M') held A p" if "p \<in> A \<union> set_mset held" for p
    using inv that assms(3) unfolding lists_inv_def own_def refs_at_def by metis
  moreover have "(\<Sum>p\<in>A. charge_at M' p) = (\<Sum>p\<in>A. charge_at M p)"
    by (rule charge_sum_cong) (use assms(3) in \<open>simp add: own_def\<close>)
  ultimately have "lists_inv M' C held A" using inv assms(2) by (simp add: lists_inv_def)
  moreover have "table_ok (ch_handles M') (lc_table C)"
    by (rule table_ok_cong [OF t(1)]) (use assms(3) t(2) in \<open>auto simp: tag_def own_def\<close>)
  ultimately show ?thesis using t(2) by (simp add: shard_ok_def)
qed

lemma own_shard:
  assumes "sharded_ok S held A" "i < kNumShards" "p \<in> own (held_in (sc_heap S) i held) (A i)"
  shows "shard_of (sc_heap S) p = Some i"
  using assms by (auto simp: sharded_ok_def own_def held_in_def)

text \<open>An operation on one shard leaves the others alone.\<close>

lemma step_shard:
  assumes ok: "sharded_ok S held A" and i: "i < kNumShards"
    and op: "shard_ok M' C' heldi (Ai)"
    and step: "heap_step (sc_heap S) M' (own (held_in (sc_heap S) i held) (A i)) (own heldi Ai)"
    and new: "\<forall>p. ch_fresh (sc_heap S) \<le> p \<longrightarrow> ch_handles M' p \<noteq> None \<longrightarrow> shard_of M' p = Some i"
  shows "sharded_ok (S\<lparr>sc_heap := M', sc_shard := (sc_shard S)[i := C']\<rparr>)
    (filter_mset (\<lambda>p. shard_of (sc_heap S) p \<noteq> Some i) held + heldi) (A(i := Ai))"
proof -
  let ?M = "sc_heap S" and ?own = "\<lambda>j. own (held_in (sc_heap S) j held) (A j)"
  let ?held = "filter_mset (\<lambda>p. shard_of (sc_heap S) p \<noteq> Some i) held + heldi"
  have len: "length (sc_shard S) = kNumShards" using ok by (simp add: sharded_ok_def)
  have shard: "shard_ok ?M (sc_shard S ! j) (held_in ?M j held) (A j)" if "j < kNumShards" for j
    using ok that by (simp add: sharded_ok_def)
  have live: "ch_handles ?M p \<noteq> None \<longleftrightarrow> p \<in># held \<or> (\<exists>j < kNumShards. p \<in> A j)" for p
    using ok unfolding sharded_ok_def by blast
  have fresh: "p < ch_fresh ?M" if "ch_handles ?M p \<noteq> None" for p
    using shard_heap_ok [OF shard [OF i]] that unfolding heap_ok_def by blast
  have same: "ch_handles M' p = ch_handles ?M p" if "ch_handles ?M p \<noteq> None" "shard_of ?M p \<noteq> Some i" for p
    using step own_shard [OF ok i] fresh that unfolding heap_step_def by blast
  have mine: "shard_of M' p = Some i" if p: "p \<in> own heldi Ai" for p
  proof (cases "p \<in> ?own i")
    case True
    obtain h h' where "ch_handles ?M p = Some h" "ch_handles M' p = Some h'" "static h' = static h"
      using heap_step_static [OF step True p] by blast
    then show ?thesis using own_shard [OF ok i True] by (simp add: shard_of_def static_def)
  next
    case False
    then have "p \<in> {ch_fresh ?M..<ch_fresh M'}" using step p unfolding heap_step_def by blast
    moreover from this have "ch_handles M' p \<noteq> None" using step p unfolding heap_step_def by blast
    ultimately show ?thesis using new by simp
  qed
  have other: "shard_of M' p = shard_of ?M p" if "p \<in># held" "shard_of ?M p \<noteq> Some i" for p
    using same that live by (simp add: shard_of_def)
  have held_j: "held_in M' j ?held = (if j = i then heldi else held_in ?M j held)" if "j < kNumShards" for j
  proof (cases "j = i")
    case True
    have "held_in M' i heldi = heldi" unfolding held_in_def by (rule filter_mset_all) (use mine in \<open>simp add: own_def\<close>)
    moreover have "held_in M' i (filter_mset (\<lambda>p. shard_of ?M p \<noteq> Some i) held) = {#}"
      unfolding held_in_def by (rule filter_mset_none) (use other in auto)
    ultimately show ?thesis using True by (simp add: held_in_def)
  next
    case False
    have "held_in M' j heldi = {#}"
      unfolding held_in_def by (rule filter_mset_none) (use mine False in \<open>auto simp: own_def\<close>)
    moreover have "held_in M' j (filter_mset (\<lambda>p. shard_of ?M p \<noteq> Some i) held) = held_in ?M j held"
      unfolding held_in_def filter_filter_mset by (rule filter_mset_cong) (use other False in auto)
    ultimately show ?thesis using False by (simp add: held_in_def)
  qed
  have "shard_ok M' ((sc_shard S)[i := C'] ! j) (held_in M' j ?held) ((A(i := Ai)) j) \<and>
      (\<forall>p \<in> (A(i := Ai)) j. shard_of M' p = Some j)" if j: "j < kNumShards" for j
  proof (cases "j = i")
    case True
    then show ?thesis using op held_j [OF j] len j mine by (simp add: own_def)
  next
    case False
    have "\<forall>p \<in> ?own j. ch_handles M' p = ch_handles ?M p"
    proof
      fix p assume p: "p \<in> ?own j"
      have "shard_of ?M p = Some j" by (rule own_shard [OF ok j p])
      then show "ch_handles M' p = ch_handles ?M p" using same [of p] False by (auto simp: shard_of_def)
    qed
    then have "shard_ok M' (sc_shard S ! j) (held_in ?M j held) (A j)" "\<forall>p \<in> A j. shard_of M' p = Some j"
      using shard_ok_frame [OF shard [OF j] shard_heap_ok [OF op]] ok j
      unfolding sharded_ok_def own_def shard_of_def by (blast, metis UnI1)
    then show ?thesis using False held_j [OF j] by simp
  qed
  moreover have "ch_handles M' p \<noteq> None \<longleftrightarrow> p \<in># ?held \<or> (\<exists>j < kNumShards. p \<in> (A(i := Ai)) j)" for p
  proof -
    have rhs: "p \<in># ?held \<or> (\<exists>j < kNumShards. p \<in> (A(i := Ai)) j) \<longleftrightarrow> p \<in> own heldi Ai \<or>
        (p \<in># held \<and> shard_of ?M p \<noteq> Some i) \<or> (\<exists>j < kNumShards. j \<noteq> i \<and> p \<in> A j)"
      using i by (auto simp: own_def split: if_splits)
    have others: "ch_handles ?M p \<noteq> None" "p \<notin> ?own i" if "(p \<in># held \<and> shard_of ?M p \<noteq> Some i) \<or> (\<exists>j < kNumShards. j \<noteq> i \<and> p \<in> A j)"
      using that live own_shard [OF ok i, of p] ok unfolding sharded_ok_def by (blast, metis option.inject)
    have own': "own heldi Ai \<subseteq> ?own i \<union> {ch_fresh ?M..<ch_fresh M'}" using step by (simp add: heap_step_def)
    show ?thesis
    proof (cases "p \<in> ?own i \<union> {ch_fresh ?M..<ch_fresh M'}")
      case True
      then have "ch_handles M' p \<noteq> None \<longleftrightarrow> p \<in> own heldi Ai" using step unfolding heap_step_def by blast
      moreover have "\<not> ((p \<in># held \<and> shard_of ?M p \<noteq> Some i) \<or> (\<exists>j < kNumShards. j \<noteq> i \<and> p \<in> A j))"
      proof
        assume x: "(p \<in># held \<and> shard_of ?M p \<noteq> Some i) \<or> (\<exists>j < kNumShards. j \<noteq> i \<and> p \<in> A j)"
        from others [OF x] fresh [of p] True show False by simp
      qed
      ultimately show ?thesis using rhs by blast
    next
      case False
      then have notown: "p \<notin> own heldi Ai" using own' by blast
      show ?thesis
      proof (cases "p < ch_fresh ?M")
        case True
        then have "ch_handles M' p = ch_handles ?M p" using step False unfolding heap_step_def by blast
        moreover have "p \<in># held \<and> shard_of ?M p \<noteq> Some i \<or> (\<exists>j < kNumShards. j \<noteq> i \<and> p \<in> A j) \<longleftrightarrow>
            p \<in># held \<or> (\<exists>j < kNumShards. p \<in> A j)"
          using False i by (auto simp: own_def held_in_def)
        ultimately show ?thesis using live [of p] rhs notown by simp
      next
        case old: False
        then have "\<not> p < ch_fresh M'" using False by simp
        then have "ch_handles M' p = None" using shard_heap_ok [OF op] unfolding heap_ok_def by blast
        moreover have "ch_handles ?M p = None" using fresh old by blast
        ultimately show ?thesis using rhs notown others by blast
      qed
    qed
  qed
  ultimately show ?thesis using len by (simp add: sharded_ok_def)
qed

subsection \<open>Runs of the cache\<close>

text \<open>
  \<open>held\<close> are the outstanding handles, each with the value it was given out for; \<open>m\<close> maps a key to
  the value inserted last, unless it was erased since.  The guards are the limits of the counters:
  fewer than \<open>2 ^ 31\<close> live entries in a table of 32-bit sizes, and fewer than \<open>2 ^ 32\<close> handles.
\<close>

definition live_entries :: "'v sharded_cache \<Rightarrow> nat" where
  "live_entries S = card {p. ch_handles (sc_heap S) p \<noteq> None}"

inductive cache_run :: "'v sharded_cache \<Rightarrow> (addr \<times> 'v) multiset \<Rightarrow> (bytes \<rightharpoonup> 'v) \<Rightarrow> bool" where
  make: "ShardedLRUCache_make capacity = Some S \<Longrightarrow> cache_run S {#} Map.empty"
| insert: "cache_run S held m \<Longrightarrow> live_entries S + 1 < 2 ^ 31 \<Longrightarrow> Cache_Insert key v charge S = Some (p, S') \<Longrightarrow>
    cache_run S' (add_mset (p, v) held) (m(key \<mapsto> v))"
| miss: "cache_run S held m \<Longrightarrow> size held + 2 < 2 ^ 32 \<Longrightarrow> Cache_Lookup key S = Some (None, S') \<Longrightarrow> cache_run S' held m"
| hit: "cache_run S held m \<Longrightarrow> size held + 2 < 2 ^ 32 \<Longrightarrow> Cache_Lookup key S = Some (Some p, S') \<Longrightarrow> m key = Some v \<Longrightarrow>
    cache_run S' (add_mset (p, v) held) m"
| release: "cache_run S held m \<Longrightarrow> (p, v) \<in># held \<Longrightarrow> Cache_Release p S = Some S' \<Longrightarrow> cache_run S' (held - {#(p, v)#}) m"
| erase: "cache_run S held m \<Longrightarrow> Cache_Erase key S = Some S' \<Longrightarrow> cache_run S' held (m(key := None))"
| prune: "cache_run S held m \<Longrightarrow> Cache_Prune S = Some S' \<Longrightarrow> cache_run S' held m"
| new_id: "cache_run S held m \<Longrightarrow> Cache_NewId S = (i, S') \<Longrightarrow> cache_run S' held m"

text \<open>The invariant of a run.\<close>

definition agrees :: "'v cache_heap \<Rightarrow> (bytes \<rightharpoonup> 'v) \<Rightarrow> addr \<Rightarrow> bool" where
  "agrees M m p \<longleftrightarrow> (\<exists>h. ch_handles M p = Some h \<and> h_hash h = HashSlice (h_key h) \<and> m (h_key h) = Some (h_value h))"

definition run_ok :: "'v sharded_cache \<Rightarrow> (addr \<times> 'v) multiset \<Rightarrow> (bytes \<rightharpoonup> 'v) \<Rightarrow> (nat \<Rightarrow> addr set) \<Rightarrow> bool" where
  "run_ok S held m A \<longleftrightarrow> sharded_ok S (image_mset fst held) A \<and>
     (\<forall>x \<in># held. Cache_Value (fst x) S = Some (snd x)) \<and>
     (\<forall>i < kNumShards. (lc_capacity (sc_shard S ! i) = 0 \<longrightarrow> A i = {}) \<and> (\<forall>p \<in> A i. agrees (sc_heap S) m p))"

lemma held_value_step:
  assumes "heap_step M M' (own heldi Ai) B" "ch_handles M p \<noteq> None" "ch_handles M' p \<noteq> None" "heap_ok M"
  shows "map_option static (ch_handles M' p) = map_option static (ch_handles M p)"
proof (cases "p \<in> own heldi Ai")
  case True
  with assms(1,3) show ?thesis unfolding heap_step_def by fastforce
next
  case False
  moreover have "p < ch_fresh M" using assms(2,4) unfolding heap_ok_def by blast
  ultimately show ?thesis using assms(1) unfolding heap_step_def by metis
qed

text \<open>A step on one shard, for the invariant of the run.\<close>

lemma run_step:
  assumes run: "run_ok S held m A" and i: "i < kNumShards"
    and op: "shard_ok M' C' heldi Ai" "lc_capacity C' = lc_capacity (sc_shard S ! i)"
    and step: "heap_step (sc_heap S) M' (own (held_in (sc_heap S) i (image_mset fst held)) (A i)) (own heldi Ai)"
    and new: "\<forall>p. ch_fresh (sc_heap S) \<le> p \<longrightarrow> ch_handles M' p \<noteq> None \<longrightarrow> shard_of M' p = Some i"
    and held': "image_mset fst held' = filter_mset (\<lambda>p. shard_of (sc_heap S) p \<noteq> Some i) (image_mset fst held) + heldi"
    and vals: "\<forall>x \<in># held'. x \<in># held \<or> map_option h_value (ch_handles M' (fst x)) = Some (snd x)"
    and Ai: "\<forall>p \<in> Ai. agrees M' m' p" "lc_capacity C' = 0 \<longrightarrow> Ai = {}"
    and others: "\<forall>j < kNumShards. j \<noteq> i \<longrightarrow> (\<forall>p \<in> A j. agrees (sc_heap S) m p \<longrightarrow> agrees (sc_heap S) m' p)"
  shows "run_ok (S\<lparr>sc_heap := M', sc_shard := (sc_shard S)[i := C']\<rparr>) held' m' (A(i := Ai))"
proof -
  let ?S = "S\<lparr>sc_heap := M', sc_shard := (sc_shard S)[i := C']\<rparr>" and ?M = "sc_heap S"
  have ok: "sharded_ok S (image_mset fst held) A" using run by (simp add: run_ok_def)
  have ok': "sharded_ok ?S (image_mset fst held') (A(i := Ai))" unfolding held' by (rule step_shard [OF ok i op(1) step new])
  have heap: "heap_ok ?M" using ok i shard_heap_ok unfolding sharded_ok_def by blast
  have "Cache_Value (fst x) ?S = Some (snd x)" if x: "x \<in># held'" for x
  proof (cases "x \<in># held")
    case True
    then have v: "map_option h_value (ch_handles ?M (fst x)) = Some (snd x)" using run by (simp add: run_ok_def Cache_Value_def)
    have "ch_handles M' (fst x) \<noteq> None" using ok' x unfolding sharded_ok_def by auto
    from held_value_step [OF step _ this heap] v show ?thesis by (auto simp: Cache_Value_def static_def)
  next
    case False
    with vals x show ?thesis unfolding Cache_Value_def by auto
  qed
  moreover have "(lc_capacity ((sc_shard S)[i := C'] ! j) = 0 \<longrightarrow> (A(i := Ai)) j = {}) \<and> (\<forall>p \<in> (A(i := Ai)) j. agrees M' m' p)"
    if j: "j < kNumShards" for j
  proof (cases "j = i")
    case True
    then show ?thesis using Ai j ok by (auto simp: sharded_ok_def)
  next
    case False
    have "agrees M' m' p" if p: "p \<in> A j" for p
    proof -
      have "agrees ?M m' p" using others run j p False unfolding run_ok_def by blast
      moreover have "ch_handles M' p \<noteq> None" using ok' j p False unfolding sharded_ok_def by auto
      ultimately show ?thesis using held_value_step [OF step _ _ heap, of p] by (auto simp: agrees_def static_def)
    qed
    with False run j show ?thesis by (simp add: run_ok_def)
  qed
  ultimately show ?thesis using ok' by (simp add: run_ok_def)
qed

lemma held_split: "image_mset fst held = filter_mset (\<lambda>p. shard_of M p \<noteq> Some i) (image_mset fst held) + held_in M i (image_mset fst held)"
  by (simp add: held_in_def)

lemma on_shard_eval:
  "f (sc_heap S, sc_shard S ! i) = Some (r, M', C') \<Longrightarrow>
   on_shard i f S = Some (r, S\<lparr>sc_heap := M', sc_shard := (sc_shard S)[i := C']\<rparr>)"
  by (simp add: on_shard_def)

lemma run_shard:
  assumes "run_ok S held m A" "i < kNumShards"
  shows "shard_ok (sc_heap S) (sc_shard S ! i) (held_in (sc_heap S) i (image_mset fst held)) (A i)"
    "lc_capacity (sc_shard S ! i) = 0 \<Longrightarrow> A i = {}" "\<forall>p \<in> A i. agrees (sc_heap S) m p"
    "\<forall>p \<in> A i. shard_of (sc_heap S) p = Some i"
  using assms by (simp_all add: run_ok_def sharded_ok_def)

lemma agrees_step:
  assumes "heap_step M M' (own heldi Ai) (own heldi' Ai')" "p \<in> Ai" "p \<in> Ai'" "agrees M m p" "m' = m \<or> tag (ch_handles M) p \<noteq> Some (k, HashSlice k) \<and> m' = m(k := x)"
  shows "agrees M' m' p"
proof -
  have "p \<in> own heldi Ai" "p \<in> own heldi' Ai'" using assms(2,3) by (simp_all add: own_def)
  from heap_step_static [OF assms(1) this] assms(4,5) show ?thesis by (auto simp: agrees_def static_def tag_def)
qed

text \<open>Without a new entry there is nothing to say about new addresses.\<close>

lemma step_nothing_new:
  assumes "heap_step M M' X Y" "Y \<subseteq> X" "heap_ok M'"
  shows "\<forall>p. ch_fresh M \<le> p \<longrightarrow> ch_handles M' p \<noteq> None \<longrightarrow> shard_of M' p = Some i"
proof (intro allI impI)
  fix p assume p: "ch_fresh M \<le> p" "ch_handles M' p \<noteq> None"
  then have "p < ch_fresh M'" using assms(3) unfolding heap_ok_def by blast
  then have "p \<in> Y" using assms(1) p unfolding heap_step_def by fastforce
  then show "shard_of M' p = Some i" using assms(1,2) p(1) unfolding heap_step_def by fastforce
qed

lemma insert_run:
  assumes run: "run_ok S held m A" and room: "live_entries S + 1 < 2 ^ 31"
  shows "\<exists>p S' A'. Cache_Insert key v charge S = Some (p, S') \<and> run_ok S' (add_mset (p, v) held) (m(key \<mapsto> v)) A' \<and>
    (let i = Shard (HashSlice key); C = sc_shard S' ! i in
     (0 < lc_capacity C \<longrightarrow> p \<in> A' i \<and> tag (ch_handles (sc_heap S')) p = Some (key, HashSlice key)) \<and>
     (lc_usage C \<le> lc_capacity C \<or> lc_lru C = []))"
proof -
  let ?M = "sc_heap S" and ?hash = "HashSlice key"
  define i where "i = Shard ?hash"
  have i: "i < kNumShards" by (simp add: i_def Shard_less)
  note shard = run_shard [OF run i]
  let ?C = "sc_shard S ! i" and ?held = "held_in ?M i (image_mset fst held)" and ?p = "ch_fresh ?M"
  have heap: "heap_ok ?M" by (rule shard_heap_ok [OF shard(1)])
  have "finite {p. ch_handles ?M p \<noteq> None}"
    by (rule finite_subset [of _ "{..<ch_fresh ?M}"]) (use heap in \<open>auto simp: heap_ok_def\<close>)
  moreover have "A i \<subseteq> {p. ch_handles ?M p \<noteq> None}" using shard(3) by (auto simp: agrees_def)
  ultimately have "card (A i) \<le> live_entries S" unfolding live_entries_def by (rule card_mono)
  then have "card (A i) + 1 < 2 ^ 31" using room by simp
  from Insert_shard [OF shard(1) this, of key ?hash v charge]
  obtain M' C' A' where op: "LRUCache_Insert key ?hash v charge (?M, ?C) = Some (?p, M', C')" "shard_ok M' C' (add_mset ?p ?held) A'"
    "heap_step ?M M' (own ?held (A i)) (own (add_mset ?p ?held) A')"
    "\<exists>h. ch_handles M' ?p = Some h \<and> static h = (key, ?hash, v, charge)"
    "if 0 < lc_capacity ?C then ?p \<in> A' \<and> A' \<subseteq> insert ?p {p \<in> A i. tag (ch_handles ?M) p \<noteq> Some (key, ?hash)} else A' \<subseteq> A i"
    "lc_capacity C' = lc_capacity ?C" "?p \<notin> own ?held (A i)" "lc_usage C' \<le> lc_capacity C' \<or> lc_lru C' = []" by blast
  have A': "A' \<subseteq> insert ?p {p \<in> A i. tag (ch_handles ?M) p \<noteq> Some (key, ?hash)}" "lc_capacity C' = 0 \<longrightarrow> A' = {}"
    using op(5,6) shard(2) by (cases "lc_capacity ?C = 0"; auto simp: word_gt_0)+
  let ?S = "S\<lparr>sc_heap := M', sc_shard := (sc_shard S)[i := C']\<rparr>"
  have "run_ok ?S (add_mset (?p, v) held) (m(key \<mapsto> v)) (A(i := A'))"
  proof (rule run_step [OF run i op(2,6,3)])
    show "\<forall>p. ?p \<le> p \<longrightarrow> ch_handles M' p \<noteq> None \<longrightarrow> shard_of M' p = Some i"
    proof (intro allI impI)
      fix p assume p: "?p \<le> p" "ch_handles M' p \<noteq> None"
      then have "p < ch_fresh M'" using shard_heap_ok [OF op(2)] unfolding heap_ok_def by blast
      then have "p \<in> own (add_mset ?p ?held) A'" using op(3) p unfolding heap_step_def by fastforce
      then have "p = ?p \<or> p \<in> own ?held (A i)" using A'(1) by (auto simp: own_def)
      moreover have "p \<notin> own ?held (A i)" using op(3) p(1) unfolding heap_step_def by fastforce
      ultimately show "shard_of M' p = Some i" using op(4) by (auto simp: shard_of_def static_def i_def)
    qed
    show "image_mset fst (add_mset (?p, v) held) = filter_mset (\<lambda>p. shard_of ?M p \<noteq> Some i) (image_mset fst held) + add_mset ?p ?held"
      using held_split [of held ?M i] by simp
    show "\<forall>x \<in># add_mset (?p, v) held. x \<in># held \<or> map_option h_value (ch_handles M' (fst x)) = Some (snd x)"
      using op(4) by (auto simp: static_def)
    show "\<forall>p \<in> A'. agrees M' (m(key \<mapsto> v)) p"
    proof
      fix p assume p: "p \<in> A'"
      show "agrees M' (m(key \<mapsto> v)) p"
      proof (cases "p = ?p")
        case True
        with op(4) show ?thesis by (auto simp: agrees_def static_def)
      next
        case False
        then have "p \<in> A i" "tag (ch_handles ?M) p \<noteq> Some (key, ?hash)" using A'(1) p by auto
        then show ?thesis using agrees_step [OF op(3) _ p] shard(3) by blast
      qed
    qed
    show "lc_capacity C' = 0 \<longrightarrow> A' = {}" by (rule A'(2))
    show "\<forall>j < kNumShards. j \<noteq> i \<longrightarrow> (\<forall>p \<in> A j. agrees ?M m p \<longrightarrow> agrees ?M (m(key \<mapsto> v)) p)"
      using run_shard(4) [OF run] by (fastforce simp: agrees_def shard_of_def i_def)
  qed
  moreover have "Cache_Insert key v charge S = Some (?p, ?S)"
    using on_shard_eval [of "LRUCache_Insert key ?hash v charge" S i, OF op(1)] by (simp add: Cache_Insert_def i_def)
  moreover have "sc_shard ?S ! i = C'" using i run by (simp add: run_ok_def sharded_ok_def)
  moreover have "0 < lc_capacity C' \<longrightarrow> ?p \<in> A' \<and> tag (ch_handles M') ?p = Some (key, ?hash)"
    using op(4-6) by (auto simp: tag_def static_def)
  ultimately show ?thesis using op(8) unfolding i_def [symmetric] by (intro exI [of _ ?p] exI [of _ ?S] exI [of _ "A(i := A')"]) (simp add: Let_def)
qed

lemma lookup_run:
  assumes run: "run_ok S held m A" and few: "size held + 2 < 2 ^ 32"
  shows "\<exists>r S' A'. Cache_Lookup key S = Some (r, S') \<and>
    (case r of None \<Rightarrow> run_ok S' held m A' | Some p \<Rightarrow> \<exists>v. m key = Some v \<and> run_ok S' (add_mset (p, v) held) m A')"
proof -
  let ?M = "sc_heap S" and ?hash = "HashSlice key"
  define i where "i = Shard ?hash"
  have i: "i < kNumShards" by (simp add: i_def Shard_less)
  note shard = run_shard [OF run i]
  let ?C = "sc_shard S ! i" and ?held = "held_in ?M i (image_mset fst held)"
  have "size ?held \<le> size held" using size_filter_mset_lesseq [of _ "image_mset fst held"] by (simp add: held_in_def)
  then have "size ?held + 2 < 2 ^ 32" using few by simp
  from Lookup_shard [OF shard(1) this, of key ?hash] obtain r M' C' where op:
    "LRUCache_Lookup key ?hash (?M, ?C) = Some (r, M', C')"
    "\<forall>p. r = Some p \<longleftrightarrow> p \<in> A i \<and> tag (ch_handles ?M) p = Some (key, ?hash)"
    "shard_ok M' C' (?held + mset_set (set_option r)) (A i)"
    "heap_step ?M M' (own ?held (A i)) (own (?held + mset_set (set_option r)) (A i))" "lc_capacity C' = lc_capacity ?C" by blast
  have sub: "own (?held + mset_set (set_option r)) (A i) \<subseteq> own ?held (A i)" using op(2) by (cases r) (auto simp: own_def)
  have hit: "\<exists>v. m key = Some v \<and> map_option h_value (ch_handles M' p) = Some v" if "r = Some p" for p
  proof -
    have p: "p \<in> A i" "tag (ch_handles ?M) p = Some (key, ?hash)" using op(2) that by blast+
    then have "agrees M' m p" using agrees_step [OF op(4) p(1) p(1)] shard(3) by blast
    moreover have "tag (ch_handles M') p = Some (key, ?hash)"
      using heap_step_tag [OF op(4)] p by (simp add: own_def)
    ultimately show ?thesis by (auto simp: agrees_def tag_def)
  qed
  let ?S = "S\<lparr>sc_heap := M', sc_shard := (sc_shard S)[i := C']\<rparr>"
  have "\<exists>A'. run_ok ?S (held + image_mset (\<lambda>p. (p, the (m key))) (mset_set (set_option r))) m A'"
  proof (rule exI, rule run_step [OF run i op(3,5,4) step_nothing_new [OF op(4) sub shard_heap_ok [OF op(3)]]])
    show "image_mset fst (held + image_mset (\<lambda>p. (p, the (m key))) (mset_set (set_option r))) =
        filter_mset (\<lambda>p. shard_of ?M p \<noteq> Some i) (image_mset fst held) + (?held + mset_set (set_option r))"
      using held_split [of held ?M i] by (cases r) simp_all
    show "\<forall>x \<in># held + image_mset (\<lambda>p. (p, the (m key))) (mset_set (set_option r)). x \<in># held \<or>
        map_option h_value (ch_handles M' (fst x)) = Some (snd x)"
      using hit by (cases r) auto
    show "\<forall>p \<in> A i. agrees M' m p" using agrees_step [OF op(4)] shard(3) by blast
    show "lc_capacity C' = 0 \<longrightarrow> A i = {}" using op(5) shard(2) by simp
  qed auto
  then obtain A' where run': "run_ok ?S (held + image_mset (\<lambda>p. (p, the (m key))) (mset_set (set_option r))) m A'" by blast
  have eval: "Cache_Lookup key S = Some (r, ?S)"
    using on_shard_eval [of "LRUCache_Lookup key ?hash" S i, OF op(1)] by (simp add: Cache_Lookup_def i_def)
  show ?thesis
  proof (cases r)
    case None
    with run' eval show ?thesis by auto
  next
    case (Some p)
    with run' eval hit show ?thesis by (intro exI [of _ "Some p"] exI [of _ ?S] exI [of _ A']) auto
  qed
qed

lemma release_run:
  assumes run: "run_ok S held m A" and x: "(p, v) \<in># held"
  shows "\<exists>S' A'. Cache_Release p S = Some S' \<and> run_ok S' (held - {#(p, v)#}) m A'"
proof -
  let ?M = "sc_heap S"
  have "Cache_Value p S = Some v" using run x by (auto simp: run_ok_def)
  then obtain h where h: "ch_handles ?M p = Some h" by (auto simp: Cache_Value_def)
  define i where "i = Shard (h_hash h)"
  have i: "i < kNumShards" by (simp add: i_def Shard_less)
  note shard = run_shard [OF run i]
  let ?C = "sc_shard S ! i" and ?held = "held_in ?M i (image_mset fst held)"
  have "p \<in># image_mset fst held" using x by force
  then have p: "p \<in># ?held" using h by (simp add: held_in_def shard_of_def i_def)
  obtain M' C' where op: "LRUCache_Release p (?M, ?C) = Some (M', C')" "shard_ok M' C' (?held - {#p#}) (A i)"
    "heap_step ?M M' (own ?held (A i)) (own (?held - {#p#}) (A i))" "lc_capacity C' = lc_capacity ?C"
    using Release_shard [OF shard(1) p] by blast
  have sub: "own (?held - {#p#}) (A i) \<subseteq> own ?held (A i)" by (auto simp: own_def dest: in_diffD)
  let ?S = "S\<lparr>sc_heap := M', sc_shard := (sc_shard S)[i := C']\<rparr>"
  have "\<exists>A'. run_ok ?S (held - {#(p, v)#}) m A'"
  proof (rule exI, rule run_step [OF run i op(2,4,3) step_nothing_new [OF op(3) sub shard_heap_ok [OF op(2)]]])
    show "image_mset fst (held - {#(p, v)#}) = filter_mset (\<lambda>p. shard_of ?M p \<noteq> Some i) (image_mset fst held) + (?held - {#p#})"
      using held_split [of held ?M i] p x by (simp add: image_mset_Diff)
    show "\<forall>x \<in># held - {#(p, v)#}. x \<in># held \<or> map_option h_value (ch_handles M' (fst x)) = Some (snd x)"
      by (auto dest: in_diffD)
    show "\<forall>p \<in> A i. agrees M' m p" using agrees_step [OF op(3)] shard(3) by blast
    show "lc_capacity C' = 0 \<longrightarrow> A i = {}" using op(4) shard(2) by simp
  qed auto
  moreover have "Cache_Release p S = Some ?S"
    using h on_shard_eval [of "map_option (Pair ()) \<circ> LRUCache_Release p" S i] op(1) by (simp add: Cache_Release_def i_def)
  ultimately show ?thesis by blast
qed

lemma erase_run:
  assumes run: "run_ok S held m A"
  shows "\<exists>S' A'. Cache_Erase key S = Some S' \<and> run_ok S' held (m(key := None)) A'"
proof -
  let ?M = "sc_heap S" and ?hash = "HashSlice key"
  define i where "i = Shard ?hash"
  have i: "i < kNumShards" by (simp add: i_def Shard_less)
  note shard = run_shard [OF run i]
  let ?C = "sc_shard S ! i" and ?held = "held_in ?M i (image_mset fst held)"
  obtain M' C' A' where op: "LRUCache_Erase key ?hash (?M, ?C) = Some (M', C')" "shard_ok M' C' ?held A'"
    "heap_step ?M M' (own ?held (A i)) (own ?held A')" "A' = {p \<in> A i. tag (ch_handles ?M) p \<noteq> Some (key, ?hash)}"
    "lc_capacity C' = lc_capacity ?C" using Erase_shard [OF shard(1), of key ?hash] by blast
  have sub: "own ?held A' \<subseteq> own ?held (A i)" using op(4) by (auto simp: own_def)
  let ?S = "S\<lparr>sc_heap := M', sc_shard := (sc_shard S)[i := C']\<rparr>"
  have "\<exists>A'. run_ok ?S held (m(key := None)) A'"
  proof (rule exI, rule run_step [OF run i op(2,5,3) step_nothing_new [OF op(3) sub shard_heap_ok [OF op(2)]]])
    show "image_mset fst held = filter_mset (\<lambda>p. shard_of ?M p \<noteq> Some i) (image_mset fst held) + ?held" by (rule held_split)
    show "\<forall>p \<in> A'. agrees M' (m(key := None)) p" using agrees_step [OF op(3)] shard(3) op(4) by blast
    show "lc_capacity C' = 0 \<longrightarrow> A' = {}" using op(4,5) shard(2) by auto
    show "\<forall>j < kNumShards. j \<noteq> i \<longrightarrow> (\<forall>p \<in> A j. agrees ?M m p \<longrightarrow> agrees ?M (m(key := None)) p)"
      using run_shard(4) [OF run] by (fastforce simp: agrees_def shard_of_def i_def)
  qed auto
  moreover have "Cache_Erase key S = Some ?S"
    using on_shard_eval [of "map_option (Pair ()) \<circ> LRUCache_Erase key ?hash" S i] op(1) by (simp add: Cache_Erase_def i_def)
  ultimately show ?thesis by blast
qed

lemma prune_shards_run:
  "run_ok S held m A \<Longrightarrow> \<forall>i \<in> set is. i < kNumShards \<Longrightarrow> \<exists>S' A'. prune_shards is S = Some S' \<and> run_ok S' held m A'"
proof (induction "is" arbitrary: S A)
  case (Cons i "is")
  let ?M = "sc_heap S"
  have i: "i < kNumShards" using Cons.prems(2) by simp
  note shard = run_shard [OF Cons.prems(1) i]
  let ?C = "sc_shard S ! i" and ?held = "held_in ?M i (image_mset fst held)"
  obtain M' C' where op: "LRUCache_Prune (?M, ?C) = Some (M', C')" "shard_ok M' C' ?held (A i - set (lc_lru ?C))"
    "heap_step ?M M' (own ?held (A i)) (own ?held (A i - set (lc_lru ?C)))" "lc_capacity C' = lc_capacity ?C"
    using Prune_ok [OF shard(1)] by blast
  have sub: "own ?held (A i - set (lc_lru ?C)) \<subseteq> own ?held (A i)" by (auto simp: own_def)
  let ?S = "S\<lparr>sc_heap := M', sc_shard := (sc_shard S)[i := C']\<rparr>"
  have "\<exists>A'. run_ok ?S held m A'"
  proof (rule exI, rule run_step [OF Cons.prems(1) i op(2,4,3) step_nothing_new [OF op(3) sub shard_heap_ok [OF op(2)]]])
    show "image_mset fst held = filter_mset (\<lambda>p. shard_of ?M p \<noteq> Some i) (image_mset fst held) + ?held" by (rule held_split)
    show "\<forall>p \<in> A i - set (lc_lru ?C). agrees M' m p" using agrees_step [OF op(3)] shard(3) by blast
    show "lc_capacity C' = 0 \<longrightarrow> A i - set (lc_lru ?C) = {}" using op(4) shard(2) by auto
  qed auto
  then obtain A' where run': "run_ok ?S held m A'" by blast
  have "on_shard i (map_option (Pair ()) \<circ> LRUCache_Prune) S = Some ((), ?S)"
    by (rule on_shard_eval) (simp add: op(1))
  with Cons.IH [OF run'] Cons.prems(2) show ?case by simp
qed auto

lemma table_ok_empty: "table_ok H t \<Longrightarrow> table_entries t = [] \<Longrightarrow> table_ok H' t"
proof -
  assume t: "table_ok H t" and e: "table_entries t = []"
  have "ht_list t ! i = []" if "i < length (ht_list t)" for i using e that by simp
  then show ?thesis using t e unfolding table_ok_def buckets_ok_def by (simp del: concat_eq_Nil_conv)
qed

lemma make_run: "\<exists>S :: 'a sharded_cache. ShardedLRUCache_make capacity = Some S \<and> run_ok S {#} Map.empty (\<lambda>_. {})"
proof -
  let ?M = "\<lparr>ch_handles = (\<lambda>_. None), ch_fresh = 0, ch_deleted = []\<rparr> :: 'a cache_heap"
  obtain t where t: "HandleTable_make (\<lambda>_. None :: unit lru_handle option) = Some t"
    "table_ok (\<lambda>_. None :: unit lru_handle option) t" "table_entries t = []" using HandleTable_make_ok by blast
  define C where "C = LRUCache_SetCapacity ((capacity + (word_of_nat kNumShards - 1)) div word_of_nat kNumShards)
    \<lparr>lc_capacity = 0, lc_usage = 0, lc_lru = [], lc_in_use = [], lc_table = t\<rparr>"
  have "table_ok (\<lambda>_. None :: 'a lru_handle option) t" by (rule table_ok_empty [OF t(2,3)])
  then have "shard_ok ?M C {#} {}"
    using t(3) by (simp add: shard_ok_def lists_inv_def lists_ok_def heap_ok_def C_def LRUCache_SetCapacity_def)
  then have "run_ok \<lparr>sc_heap = ?M, sc_shard = replicate kNumShards C, sc_last_id = 0\<rparr> {#} Map.empty (\<lambda>_. {})"
    by (simp add: run_ok_def sharded_ok_def held_in_def)
  then show ?thesis by (simp add: ShardedLRUCache_make_def LRUCache_make_def t(1) C_def Let_def)
qed

lemma cache_run_ok: "cache_run S held m \<Longrightarrow> \<exists>A. run_ok S held m A"
proof (induction rule: cache_run.induct)
  case (make capacity S)
  then show ?case using make_run [of capacity] by (metis option.inject)
next
  case (insert S held m key v charge p S')
  then obtain A where "run_ok S held m A" by blast
  with insert.hyps insert_run [of S held m A key v charge] show ?case by (simp only: option.inject prod.inject) blast
next
  case (miss S held m key S')
  then show ?case using lookup_run [of S held m _ key] by auto
next
  case (hit S held m key p S' v)
  then show ?case using lookup_run [of S held m _ key] by auto
next
  case (release S held m p v S')
  then show ?case using release_run [of S held m _ p v] by auto
next
  case (erase S held m key S')
  then obtain A where "run_ok S held m A" by blast
  with erase.hyps erase_run [of S held m A key] show ?case by (simp only: option.inject) blast
next
  case (prune S held m S')
  then show ?case using prune_shards_run [of S held m _ "[0..<kNumShards]"] by (auto simp: Cache_Prune_def)
next
  case (new_id S held m i S')
  then obtain A where "run_ok S held m A" by blast
  with new_id.hyps have "run_ok S' held m A" by (auto simp: Cache_NewId_def run_ok_def sharded_ok_def Cache_Value_def)
  then show ?case by blast
qed

subsection \<open>Destruction\<close>

lemma destroy_entries_ok:
  assumes "distinct es" "\<forall>p \<in> set es. \<exists>h. ch_handles M p = Some h \<and> h_in_cache h \<and> h_refs h = 1" "heap_ok M"
  shows "\<exists>M'. destroy_entries es (M, C) = Some (M', C) \<and> heap_ok M' \<and> ch_fresh M' = ch_fresh M \<and>
    ch_handles M' = (\<lambda>p. if p \<in> set es then None else ch_handles M p)"
  using assms
proof (induction es arbitrary: M)
  case (Cons e es)
  obtain h where h: "ch_handles M e = Some h" "h_in_cache h" "h_refs h = 1" using Cons.prems(2) by auto
  let ?M1 = "M\<lparr>ch_handles := (ch_handles M)(e \<mapsto> h\<lparr>h_in_cache := False\<rparr>)\<rparr>"
  let ?M = "?M1\<lparr>ch_handles := (ch_handles ?M1)(e := None), ch_deleted := ch_deleted ?M1 @ [(e, h_key h, h_value h)]\<rparr>"
  have u: "LRUCache_Unref e (?M1, C) = Some (?M, C)" using h by (simp add: LRUCache_Unref_def)
  have "heap_ok ?M1" by (rule heap_ok_write [OF Cons.prems(3) h(1)])
  then have "heap_ok ?M" by (rule heap_ok_delete) simp
  moreover have "\<forall>p \<in> set es. \<exists>h. ch_handles ?M p = Some h \<and> h_in_cache h \<and> h_refs h = 1" using Cons.prems(1,2) by auto
  ultimately obtain M' where r: "destroy_entries es (?M, C) = Some (M', C)" "heap_ok M'" "ch_fresh M' = ch_fresh ?M"
    "ch_handles M' = (\<lambda>p. if p \<in> set es then None else ch_handles ?M p)" using Cons.IH [of ?M] Cons.prems(1) by auto
  have "destroy_entries (e # es) (M, C) = Some (M', C)" using h u r(1) by simp
  with r(2-4) show ?case by (auto intro!: exI [of _ M'])
qed auto

lemma destroy_shard_ok:
  assumes "shard_ok M C {#} A"
  shows "\<exists>M' C'. LRUCache_destroy (M, C) = Some (M', C') \<and> heap_ok M' \<and> ch_fresh M' = ch_fresh M \<and>
    ch_handles M' = (\<lambda>p. if p \<in> A then None else ch_handles M p)"
proof -
  have inv: "lists_inv M C {#} A" using assms by (simp add: shard_ok_def)
  then have lists: "lc_in_use C = []" "distinct (lc_lru C)" "set (lc_lru C) = A" "heap_ok M"
    unfolding lists_inv_def lists_ok_def by (cases "lc_in_use C"; auto)+
  have refs: "\<forall>p \<in> set (lc_lru C). \<exists>h. ch_handles M p = Some h \<and> h_in_cache h \<and> h_refs h = 1"
  proof
    fix p assume "p \<in> set (lc_lru C)"
    then have p: "p \<in> A" using lists(3) by simp
    then obtain h where h: "ch_handles M p = Some h" "unat (h_refs h) = 1" "h_in_cache h" using lists_invD [OF inv, of p] by auto
    then have "h_refs h = 1" by (metis unat_1 word_unat_eq_iff)
    with h show "\<exists>h. ch_handles M p = Some h \<and> h_in_cache h \<and> h_refs h = 1" by blast
  qed
  obtain M' where "destroy_entries (lc_lru C) (M, C) = Some (M', C)" "heap_ok M'" "ch_fresh M' = ch_fresh M"
    "ch_handles M' = (\<lambda>p. if p \<in> A then None else ch_handles M p)"
    using destroy_entries_ok [OF lists(2) refs lists(4), of C] lists(3) by blast
  with lists(1) show ?thesis by (simp add: LRUCache_destroy_def)
qed

lemma destroy_shards_ok:
  assumes "heap_ok M" "\<forall>x \<in> set xs. shard_ok M (fst x) {#} (snd x)" "sorted_wrt (\<lambda>x y. snd x \<inter> snd y = {}) xs"
    and "\<forall>p. ch_handles M p \<noteq> None \<longrightarrow> (\<exists>x \<in> set xs. p \<in> snd x)"
  shows "\<exists>M'. destroy_shards (map fst xs) M = Some M' \<and> heap_ok M' \<and> ch_fresh M' = ch_fresh M \<and> ch_handles M' = (\<lambda>_. None)"
  using assms
proof (induction xs arbitrary: M)
  case Nil
  then show ?case by auto
next
  case (Cons x xs)
  have head: "shard_ok M (fst x) {#} (snd x)" using Cons.prems(2) by simp
  obtain M1 C1 where d: "LRUCache_destroy (M, fst x) = Some (M1, C1)" "heap_ok M1" "ch_fresh M1 = ch_fresh M"
    "ch_handles M1 = (\<lambda>p. if p \<in> snd x then None else ch_handles M p)" using destroy_shard_ok [OF head] by blast
  have "shard_ok M1 (fst y) {#} (snd y)" if y: "y \<in> set xs" for y
  proof (rule shard_ok_frame [OF _ d(2)])
    show "shard_ok M (fst y) {#} (snd y)" using Cons.prems(2) y by simp
    have "snd x \<inter> snd y = {}" using Cons.prems(3) y by simp
    then show "\<forall>p \<in> own {#} (snd y). ch_handles M1 p = ch_handles M p" by (auto simp: d(4) own_def)
  qed
  moreover have "\<forall>p. ch_handles M1 p \<noteq> None \<longrightarrow> (\<exists>x \<in> set xs. p \<in> snd x)"
    using Cons.prems(4) by (auto simp: d(4) split: if_splits)
  ultimately obtain M' where "destroy_shards (map fst xs) M1 = Some M'" "heap_ok M'" "ch_fresh M' = ch_fresh M1" "ch_handles M' = (\<lambda>_. None)"
    using Cons.IH [of M1] d(2) Cons.prems(3) by auto
  with d(1,3) show ?case by (intro exI [of _ M']) simp
qed

lemma Cache_destroy_ok:
  assumes "cache_run S {#} m"
  shows "\<exists>M. Cache_destroy S = Some M \<and> heap_ok M \<and> ch_fresh M = ch_fresh (sc_heap S) \<and> ch_handles M = (\<lambda>_. None)"
proof -
  obtain A where "run_ok S {#} m A" using cache_run_ok [OF assms] by blast
  then have ok: "sharded_ok S {#} A" by (simp add: run_ok_def)
  let ?M = "sc_heap S"
  define xs where "xs = rev (map (\<lambda>i. (sc_shard S ! i, A i)) [0..<kNumShards])"
  have len: "length (sc_shard S) = kNumShards" using ok by (simp add: sharded_ok_def)
  have sh: "map fst xs = rev (sc_shard S)" unfolding xs_def by (simp add: rev_map [symmetric] o_def len [symmetric] map_nth)
  have "\<forall>x \<in> set xs. shard_ok ?M (fst x) {#} (snd x)"
    using ok by (auto simp: xs_def sharded_ok_def held_in_def)
  moreover have "sorted_wrt (\<lambda>x y. snd x \<inter> snd y = {}) xs"
  proof -
    have "A i \<inter> A j = {}" if "i < kNumShards" "j < kNumShards" "i \<noteq> j" for i j
      using ok that unfolding sharded_ok_def by (metis disjoint_iff option.inject)
    then show ?thesis unfolding xs_def sorted_wrt_rev sorted_wrt_map by (auto simp: sorted_wrt_iff_nth_less)
  qed
  moreover have "\<forall>p. ch_handles ?M p \<noteq> None \<longrightarrow> (\<exists>x \<in> set xs. p \<in> snd x)"
    using ok unfolding sharded_ok_def xs_def by fastforce
  moreover have "heap_ok ?M" using ok shard_heap_ok unfolding sharded_ok_def by (metis kNumShardBits_def kNumShards_def zero_less_numeral zero_less_power)
  ultimately show ?thesis using destroy_shards_ok [of ?M xs] sh by (simp add: Cache_destroy_def)
qed

subsection \<open>The interface for the clients of a cache\<close>

record ('c, 'v) cache_ops =
  ca_Insert :: "bytes \<Rightarrow> 'v \<Rightarrow> u64 \<Rightarrow> 'c \<Rightarrow> (addr \<times> 'c) option"
  ca_Lookup :: "bytes \<Rightarrow> 'c \<Rightarrow> (addr option \<times> 'c) option"
  ca_Release :: "addr \<Rightarrow> 'c \<Rightarrow> 'c option"
  ca_Value :: "addr \<Rightarrow> 'c \<Rightarrow> 'v option"
  ca_Erase :: "bytes \<Rightarrow> 'c \<Rightarrow> 'c option"
  ca_NewId :: "'c \<Rightarrow> u64 \<times> 'c"
  ca_Prune :: "'c \<Rightarrow> 'c option"
  ca_TotalCharge :: "'c \<Rightarrow> u64"

definition ShardedLRUCache :: "('v sharded_cache, 'v) cache_ops" where
  "ShardedLRUCache = \<lparr>ca_Insert = Cache_Insert, ca_Lookup = Cache_Lookup, ca_Release = Cache_Release, ca_Value = Cache_Value,
     ca_Erase = Cache_Erase, ca_NewId = Cache_NewId, ca_Prune = Cache_Prune, ca_TotalCharge = Cache_TotalCharge\<rparr>"

text \<open>
  \<open>run c held m\<close>: the state \<open>c\<close> is reachable, with the handles \<open>held\<close> outstanding and \<open>m\<close> the last
  insertions; \<open>room\<close> is the limit of the counters.
\<close>

locale cache_contract =
  fixes K :: "('c, 'v) cache_ops" and run :: "'c \<Rightarrow> (addr \<times> 'v) multiset \<Rightarrow> (bytes \<rightharpoonup> 'v) \<Rightarrow> bool"
    and room :: "'c \<Rightarrow> (addr \<times> 'v) multiset \<Rightarrow> bool"
  assumes lookup: "run c held m \<Longrightarrow> room c held \<Longrightarrow> \<exists>r c'. ca_Lookup K key c = Some (r, c') \<and>
      (case r of None \<Rightarrow> run c' held m \<and> room c' held
       | Some p \<Rightarrow> \<exists>v. m key = Some v \<and> ca_Value K p c' = Some v \<and> run c' (add_mset (p, v) held) m)"
    and insert: "run c held m \<Longrightarrow> room c held \<Longrightarrow> \<exists>p c'. ca_Insert K key v charge c = Some (p, c') \<and>
      ca_Value K p c' = Some v \<and> run c' (add_mset (p, v) held) (m(key \<mapsto> v))"
    and release: "run c held m \<Longrightarrow> (p, v) \<in># held \<Longrightarrow> \<exists>c'. ca_Release K p c = Some c' \<and> run c' (held - {#(p, v)#}) m"
    and new_id: "run c held m \<Longrightarrow> run (snd (ca_NewId K c)) held m"

definition cache_room :: "'v sharded_cache \<Rightarrow> (addr \<times> 'v) multiset \<Rightarrow> bool" where
  "cache_room S held \<longleftrightarrow> size held + 2 < 2 ^ 32 \<and> live_entries S + 1 < 2 ^ 31"

lemma run_value: "run_ok S held m A \<Longrightarrow> (p, v) \<in># held \<Longrightarrow> Cache_Value p S = Some v"
  by (auto simp: run_ok_def)

lemma lookup_miss_same: "Cache_Lookup key S = Some (None, S') \<Longrightarrow> sc_heap S' = sc_heap S"
  by (auto simp: Cache_Lookup_def on_shard_def LRUCache_Lookup_def Let_def Option.bind_eq_Some_conv split: option.splits)

interpretation lru_cache: cache_contract ShardedLRUCache cache_run cache_room
proof
  fix S :: "'v sharded_cache" and held m key
  assume run: "cache_run S held m" and room: "cache_room S held"
  obtain A where A: "run_ok S held m A" using cache_run_ok [OF run] by blast
  obtain r S' A' where r: "Cache_Lookup key S = Some (r, S')"
    "case r of None \<Rightarrow> run_ok S' held m A' | Some p \<Rightarrow> \<exists>v. m key = Some v \<and> run_ok S' (add_mset (p, v) held) m A'"
    using lookup_run [OF A, of key] room by (auto simp: cache_room_def)
  show "\<exists>r c'. ca_Lookup ShardedLRUCache key S = Some (r, c') \<and> (case r of None \<Rightarrow> cache_run c' held m \<and> cache_room c' held
       | Some p \<Rightarrow> \<exists>v. m key = Some v \<and> ca_Value ShardedLRUCache p c' = Some v \<and> cache_run c' (add_mset (p, v) held) m)"
  proof (cases r)
    case None
    with r(1) cache_run.miss [OF run _ r(1) [unfolded None]] lookup_miss_same [OF r(1) [unfolded None]] room show ?thesis
      by (intro exI [of _ None] exI [of _ S']) (simp add: ShardedLRUCache_def cache_room_def live_entries_def)
  next
    case (Some p)
    then obtain v where v: "m key = Some v" "run_ok S' (add_mset (p, v) held) m A'" using r(2) by auto
    have "cache_run S' (add_mset (p, v) held) m"
      using cache_run.hit [OF run _ r(1) [unfolded Some] v(1)] room by (simp add: cache_room_def)
    with r(1) Some v run_value [OF v(2)] show ?thesis
      by (intro exI [of _ "Some p"] exI [of _ S']) (simp add: ShardedLRUCache_def)
  qed
next
  fix S :: "'v sharded_cache" and held m key v charge
  assume run: "cache_run S held m" and room: "cache_room S held"
  obtain A where A: "run_ok S held m A" using cache_run_ok [OF run] by blast
  obtain p S' A' where p: "Cache_Insert key v charge S = Some (p, S')" "run_ok S' (add_mset (p, v) held) (m(key \<mapsto> v)) A'"
    using insert_run [OF A, of key v charge] room by (auto simp: cache_room_def)
  with cache_run.insert [OF run _ p(1)] room run_value [OF p(2)]
  show "\<exists>p c'. ca_Insert ShardedLRUCache key v charge S = Some (p, c') \<and> ca_Value ShardedLRUCache p c' = Some v \<and>
      cache_run c' (add_mset (p, v) held) (m(key \<mapsto> v))"
    by (intro exI [of _ p] exI [of _ S']) (simp add: ShardedLRUCache_def cache_room_def)
next
  fix S :: "'v sharded_cache" and held m p v
  assume run: "cache_run S held m" and x: "(p, v) \<in># held"
  obtain A where A: "run_ok S held m A" using cache_run_ok [OF run] by blast
  obtain S' where "Cache_Release p S = Some S'" using release_run [OF A x] by blast
  with cache_run.release [OF run x this]
  show "\<exists>c'. ca_Release ShardedLRUCache p S = Some c' \<and> cache_run c' (held - {#(p, v)#}) m"
    by (simp add: ShardedLRUCache_def)
next
  fix S :: "'v sharded_cache" and held m
  assume "cache_run S held m"
  from cache_run.new_id [OF this] show "cache_run (snd (ca_NewId ShardedLRUCache S)) held m"
    by (simp add: ShardedLRUCache_def Cache_NewId_def)
qed

subsection \<open>Properties\<close>

lemma first_insert:
  "\<exists>S p S'. ShardedLRUCache_make 160 = Some S \<and> Cache_Insert [1] (7 :: nat) 1 S = Some (p, S') \<and>
     cache_run S' {#(p, 7)#} [[1] \<mapsto> 7]"
proof -
  obtain S :: "nat sharded_cache" where S: "ShardedLRUCache_make 160 = Some S" "run_ok S {#} Map.empty (\<lambda>_. {})"
    using make_run by blast
  have "live_entries S = 0" using S(2) by (simp add: live_entries_def run_ok_def sharded_ok_def)
  then have "cache_room S {#}" by (simp add: cache_room_def)
  with lru_cache.insert [OF cache_run.make [OF S(1)], of "[1]" 7 1] S(1) show ?thesis
    by (auto simp: ShardedLRUCache_def)
qed

text \<open>
  C5: the cache is a map that may forget, but never lies.  In every reachable state, every handle a
  client still holds reads the value it was given out for and can be given back; a lookup returns,
  and a hit yields the value inserted last under the key; an insertion returns a handle of the new
  value, is found by the next lookup when the shard caches at all, and leaves the shard within its
  capacity unless every entry is in use.  No assertion of the cache fails on the way.
\<close>

theorem cache_forgets_but_never_lies:
  assumes "cache_run S held m"
  shows "(\<forall>(p, v) \<in># held. Cache_Value p S = Some v \<and> Cache_Release p S \<noteq> None) \<and>
    (cache_room S held \<longrightarrow> (\<forall>key. \<exists>r S'. Cache_Lookup key S = Some (r, S') \<and>
       (\<forall>p. r = Some p \<longrightarrow> m key \<noteq> None \<and> Cache_Value p S' = m key))) \<and>
    (cache_room S held \<longrightarrow> (\<forall>key v charge. \<exists>p S'. Cache_Insert key v charge S = Some (p, S') \<and> Cache_Value p S' = Some v \<and>
       (let C = sc_shard S' ! Shard (HashSlice key) in
        (0 < lc_capacity C \<and> size held + 3 < 2 ^ 32 \<longrightarrow> (\<exists>S''. Cache_Lookup key S' = Some (Some p, S''))) \<and>
        (lc_usage C \<le> lc_capacity C \<or> lc_lru C = [])))) \<and>
    (\<forall>key. Cache_Erase key S \<noteq> None) \<and> Cache_Prune S \<noteq> None"
proof -
  obtain A where A: "run_ok S held m A" using cache_run_ok [OF assms] by blast
  have 1: "Cache_Value p S = Some v \<and> Cache_Release p S \<noteq> None" if "(p, v) \<in># held" for p v
    using run_value [OF A that] release_run [OF A that] by auto
  have 2: "\<exists>r S'. Cache_Lookup key S = Some (r, S') \<and> (\<forall>p. r = Some p \<longrightarrow> m key \<noteq> None \<and> Cache_Value p S' = m key)"
    if "cache_room S held" for key
    using lru_cache.lookup [OF assms that, of key] by (auto simp: ShardedLRUCache_def split: option.splits)
  have 3: "\<exists>p S'. Cache_Insert key v charge S = Some (p, S') \<and> Cache_Value p S' = Some v \<and>
       (let C = sc_shard S' ! Shard (HashSlice key) in
        (0 < lc_capacity C \<and> size held + 3 < 2 ^ 32 \<longrightarrow> (\<exists>S''. Cache_Lookup key S' = Some (Some p, S''))) \<and>
        (lc_usage C \<le> lc_capacity C \<or> lc_lru C = []))" if room: "cache_room S held" for key v charge
  proof -
    let ?i = "Shard (HashSlice key)"
    obtain p S' A' where p: "Cache_Insert key v charge S = Some (p, S')" "run_ok S' (add_mset (p, v) held) (m(key \<mapsto> v)) A'"
      "0 < lc_capacity (sc_shard S' ! ?i) \<longrightarrow> p \<in> A' ?i \<and> tag (ch_handles (sc_heap S')) p = Some (key, HashSlice key)"
      "lc_usage (sc_shard S' ! ?i) \<le> lc_capacity (sc_shard S' ! ?i) \<or> lc_lru (sc_shard S' ! ?i) = []"
      using insert_run [OF A, of key v charge] room by (auto simp: cache_room_def Let_def)
    have "\<exists>S''. Cache_Lookup key S' = Some (Some p, S'')" if "0 < lc_capacity (sc_shard S' ! ?i)" "size held + 3 < 2 ^ 32"
    proof -
      let ?held = "held_in (sc_heap S') ?i (image_mset fst (add_mset (p, v) held))"
      have "size ?held \<le> size (add_mset (p, v) held)"
        using size_filter_mset_lesseq [of _ "image_mset fst (add_mset (p, v) held)"] by (simp add: held_in_def del: image_mset_add_mset)
      then have few: "size ?held + 2 < 2 ^ 32" using that(2) by simp
      obtain r M C where "LRUCache_Lookup key (HashSlice key) (sc_heap S', sc_shard S' ! ?i) = Some (r, M, C)"
        "\<forall>q. r = Some q \<longleftrightarrow> q \<in> A' ?i \<and> tag (ch_handles (sc_heap S')) q = Some (key, HashSlice key)"
        using Lookup_shard [OF run_shard(1) [OF p(2) Shard_less] few, of key "HashSlice key"] by blast
      moreover from this p(3) that(1) have "r = Some p" by blast
      ultimately show ?thesis by (simp add: Cache_Lookup_def on_shard_def)
    qed
    with p(1,4) run_value [OF p(2)] show ?thesis by (intro exI [of _ p] exI [of _ S']) (simp add: Let_def)
  qed
  have "Cache_Erase key S \<noteq> None" for key using erase_run [OF A, of key] by auto
  moreover have "Cache_Prune S \<noteq> None" using prune_shards_run [OF A, of "[0..<kNumShards]"] by (auto simp: Cache_Prune_def)
  ultimately show ?thesis using 1 2 3 by blast
qed

theorem cache_forgets_but_never_lies_witness:
  "\<exists>S p S'. ShardedLRUCache_make 160 = Some S \<and> Cache_Insert [1] (7 :: nat) 1 S = Some (p, S') \<and>
     Cache_Value p S' = Some 7 \<and> Cache_Release p S' \<noteq> None \<and> Cache_Erase [1] S' \<noteq> None"
proof -
  obtain S p S' where S: "ShardedLRUCache_make 160 = Some S" "Cache_Insert [1] (7 :: nat) 1 S = Some (p, S')"
    "cache_run S' {#(p, 7)#} [[1] \<mapsto> 7]" using first_insert by blast
  with cache_forgets_but_never_lies [OF S(3)] show ?thesis by auto
qed

text \<open>
  C40: nothing leaks and nothing is freed twice.  When every handle has been given back, the
  destructor passes its assertions, and then every entry ever allocated has been passed to its
  deleter exactly once.
\<close>

theorem cache_deletes_every_entry_once:
  assumes "cache_run S {#} m"
  shows "\<exists>M. Cache_destroy S = Some M \<and> distinct (map fst (ch_deleted M)) \<and>
    fst ` set (ch_deleted M) = {..<ch_fresh (sc_heap S)} \<and> (\<forall>p. ch_handles M p = None)"
proof -
  obtain M where M: "Cache_destroy S = Some M" "heap_ok M" "ch_fresh M = ch_fresh (sc_heap S)" "ch_handles M = (\<lambda>_. None)"
    using Cache_destroy_ok [OF assms] by blast
  then show ?thesis unfolding heap_ok_def by auto
qed

theorem cache_deletes_every_entry_once_witness:
  "\<exists>S p S1 S2 M. ShardedLRUCache_make 160 = Some S \<and> Cache_Insert [1] (7 :: nat) 1 S = Some (p, S1) \<and>
     Cache_Release p S1 = Some S2 \<and> Cache_destroy S2 = Some M \<and> distinct (map fst (ch_deleted M)) \<and>
     fst ` set (ch_deleted M) = {..<ch_fresh (sc_heap S2)}"
proof -
  obtain S p S' where S: "ShardedLRUCache_make 160 = Some S" "Cache_Insert [1] (7 :: nat) 1 S = Some (p, S')"
    "cache_run S' {#(p, 7)#} [[1] \<mapsto> 7]" using first_insert by blast
  obtain S2 where "Cache_Release p S' = Some S2" "cache_run S2 {#} [[1] \<mapsto> 7]"
    using lru_cache.release [OF S(3), of p 7] by (auto simp: ShardedLRUCache_def)
  with S cache_deletes_every_entry_once [OF this(2)] show ?thesis by blast
qed

end
