(* ===== verification/Table.thy ===== *)
theory Table
  imports Table_Builder Two_Level_Iterator Sharded_Cache
begin

text \<open>
  \<^verbatim>\<open>table/table.cc\<close>: the reader of a table file, over the file interface of \<open>Format\<close>.  A block is
  read through the block cache, if there is one, whose operations are those of \<open>Sharded_Cache\<close>; the
  iterator of a block carries the cleanup functions registered with it, and \<open>InternalGet\<close> runs them when it
  deletes its iterator.  The two-level iterator of a table keeps its data blocks for as long as it lives.
\<close>

record read_options =
  ro_verify_checksums :: bool
  ro_fill_cache :: bool

record table =
  t_options :: table_options
  t_file :: random_access_file
  t_cache_id :: u64
  t_filter :: "filter_block_reader option"
  t_metaindex_handle :: block_handle
  t_index_block :: block

datatype block_cleanup = DeleteBlock | ReleaseBlock addr

type_synonym block_iterator = "(status + block_iter) \<times> block_cleanup list"

definition Block_Iterator :: "(status + block_iter) iterator" where
  "Block_Iterator = either_iterator EmptyIterator Block_Iter"

definition Table_ReadFilter :: "bytes \<Rightarrow> table \<Rightarrow> table option" where
  "Table_ReadFilter filter_handle_value table =
     (let (s, filter_handle, _) = BlockHandle_DecodeFrom BlockHandle_make filter_handle_value in
      if \<not> Status_ok s then Some table
      else do {
        (s, block) \<leftarrow> ReadBlock (t_file table) (opt_paranoid_checks (t_options table)) filter_handle;
        if \<not> Status_ok s then Some table
        else do {
          p \<leftarrow> opt_filter_policy (t_options table);
          Some (table\<lparr>t_filter := Some (FilterBlockReader_make p (bc_data block))\<rparr>) } })"

definition Table_ReadMeta :: "footer \<Rightarrow> table \<Rightarrow> table option" where
  "Table_ReadMeta footer table =
     (case opt_filter_policy (t_options table) of
        None \<Rightarrow> Some table
      | Some p \<Rightarrow> do {
          (s, contents) \<leftarrow> ReadBlock (t_file table) (opt_paranoid_checks (t_options table)) (ft_metaindex_handle footer);
          if \<not> Status_ok s then Some table
          else do {
            let key = lit ''filter.'' @ fp_Name p;
            iter \<leftarrow> it_Seek Block_Iterator key (Block_NewIterator (Block_make (bc_data contents)) BytewiseComparator);
            if it_Valid Block_Iterator iter \<and> it_key Block_Iterator iter = key
            then Table_ReadFilter (it_value Block_Iterator iter) table
            else Some table } })"

definition Table_Open :: "('c, block) cache_ops \<Rightarrow> table_options \<Rightarrow> 'c option \<Rightarrow> random_access_file \<Rightarrow> u64 \<Rightarrow>
    ((status \<times> table option) \<times> 'c option) option" where
  "Table_Open K options cache f file_size =
     (if unat file_size < Footer_kEncodedLength
      then Some ((Status_Corruption (lit ''file is too short to be an sstable'') [], None), cache)
      else do {
        (s, footer_input) \<leftarrow> raf_Read f (file_size - word_of_nat Footer_kEncodedLength) (word_of_nat Footer_kEncodedLength);
        if \<not> Status_ok s then Some ((s, None), cache)
        else do {
          (s, footer, _) \<leftarrow> Footer_DecodeFrom footer_input;
          if \<not> Status_ok s then Some ((s, None), cache)
          else do {
            (s, index_block_contents) \<leftarrow> ReadBlock f (opt_paranoid_checks options) (ft_index_handle footer);
            if Status_ok s then do {
              let (cache_id, cache) = (case cache of Some c \<Rightarrow> map_prod id Some (ca_NewId K c) | None \<Rightarrow> (0, None));
              table \<leftarrow> Table_ReadMeta footer
                \<lparr>t_options = options, t_file = f, t_cache_id = cache_id, t_filter = None,
                 t_metaindex_handle = ft_metaindex_handle footer, t_index_block = Block_make (bc_data index_block_contents)\<rparr>;
              Some ((s, Some table), cache) }
            else Some ((s, None), cache) } } })"

text \<open>The cache key of a block: the cache id of the table and the offset of the block.\<close>

definition block_cache_key :: "table \<Rightarrow> block_handle \<Rightarrow> bytes" where
  "block_cache_key table handle = EncodeFixed64 (t_cache_id table) @ EncodeFixed64 (bh_offset handle)"

definition Table_BlockReader :: "('c, block) cache_ops \<Rightarrow> table \<Rightarrow> 'c option \<Rightarrow> read_options \<Rightarrow> bytes \<Rightarrow>
    (block_iterator \<times> 'c option) option" where
  "Table_BlockReader K table block_cache options index_value =
     (let (s, handle, _) = BlockHandle_DecodeFrom BlockHandle_make index_value in do {
        (s, block, cache_handle, block_cache) \<leftarrow>
          (if \<not> Status_ok s then Some (s, None, None, block_cache)
           else case block_cache of
             Some cache \<Rightarrow> do {
               let key = block_cache_key table handle;
               (cache_handle, cache) \<leftarrow> ca_Lookup K key cache;
               (case cache_handle of
                  Some h \<Rightarrow> do { block \<leftarrow> ca_Value K h cache; Some (s, Some block, Some h, Some cache) }
                | None \<Rightarrow> do {
                    (s, contents) \<leftarrow> ReadBlock (t_file table) (ro_verify_checksums options) handle;
                    if Status_ok s then
                      (let block = Block_make (bc_data contents) in
                       if bc_cachable contents \<and> ro_fill_cache options then do {
                         (h, cache) \<leftarrow> ca_Insert K key block (word_of_nat (blk_size block)) cache;
                         Some (s, Some block, Some h, Some cache) }
                       else Some (s, Some block, None, Some cache))
                    else Some (s, None, None, Some cache) }) }
           | None \<Rightarrow> do {
               (s, contents) \<leftarrow> ReadBlock (t_file table) (ro_verify_checksums options) handle;
               Some (s, if Status_ok s then Some (Block_make (bc_data contents)) else None, None, None) });
        Some (case block of
            Some b \<Rightarrow> ((Block_NewIterator b (opt_comparator (t_options table)),
              RegisterCleanup (case cache_handle of None \<Rightarrow> DeleteBlock | Some h \<Rightarrow> ReleaseBlock h) []), block_cache)
          | None \<Rightarrow> ((Inl (NewErrorIterator s), []), block_cache)) })"

text \<open>\<open>NewIterator\<close> and the class of its result.\<close>

type_synonym 'c table_iterator = "(status + block_iter, block_iterator, 'c option, read_options) two_level_iterator"

definition Table_NewIterator :: "table \<Rightarrow> 'c option \<Rightarrow> read_options \<Rightarrow> 'c table_iterator" where
  "Table_NewIterator table block_cache options =
     NewTwoLevelIterator Block_Iterator (Block_NewIterator (t_index_block table) (opt_comparator (t_options table)))
       block_cache options"

definition Table_Iterator :: "('c, block) cache_ops \<Rightarrow> table \<Rightarrow> 'c table_iterator iterator" where
  "Table_Iterator K table = TwoLevelIterator Block_Iterator (with_cleanups Block_Iterator) (Table_BlockReader K table)"

text \<open>
  The functions \<open>DeleteBlock\<close> and \<open>ReleaseBlock\<close>, which deleting the iterator of a block runs: a block of its own is freed, the handle
  of a cached one given back to the cache.
\<close>

definition run_block_cleanup :: "('c, block) cache_ops \<Rightarrow> block_cleanup \<Rightarrow> 'c option \<Rightarrow> 'c option option" where
  "run_block_cleanup K cleanup block_cache =
     (case cleanup of
        DeleteBlock \<Rightarrow> Some block_cache
      | ReleaseBlock h \<Rightarrow> do { cache \<leftarrow> block_cache; cache \<leftarrow> ca_Release K h cache; Some (Some cache) })"

definition Table_InternalGet :: "('c, block) cache_ops \<Rightarrow> table \<Rightarrow> 'c option \<Rightarrow> read_options \<Rightarrow> bytes \<Rightarrow> 'a \<Rightarrow>
    ('a \<Rightarrow> bytes \<Rightarrow> bytes \<Rightarrow> 'a) \<Rightarrow> (status \<times> 'a \<times> 'c option) option" where
  "Table_InternalGet K table block_cache options k arg handle_result = do {
     iiter \<leftarrow> it_Seek Block_Iterator k (Block_NewIterator (t_index_block table) (opt_comparator (t_options table)));
     (s, arg, block_cache) \<leftarrow>
       (if it_Valid Block_Iterator iiter then
          let handle_value = it_value Block_Iterator iiter;
              (hs, handle, _) = BlockHandle_DecodeFrom BlockHandle_make handle_value
          in if (case t_filter table of None \<Rightarrow> False
                 | Some flt \<Rightarrow> Status_ok hs \<and> \<not> FilterBlockReader_KeyMayMatch flt (bh_offset handle) k)
             then Some (Status_OK, arg, block_cache)
             else do {
               (block_iter, block_cache) \<leftarrow> Table_BlockReader K table block_cache options (it_value Block_Iterator iiter);
               block_iter \<leftarrow> it_Seek (with_cleanups Block_Iterator) k block_iter;
               let arg = (if it_Valid (with_cleanups Block_Iterator) block_iter
                 then handle_result arg (it_key (with_cleanups Block_Iterator) block_iter) (it_value (with_cleanups Block_Iterator) block_iter)
                 else arg);
               let s = it_status (with_cleanups Block_Iterator) block_iter;
               block_cache \<leftarrow> run_cleanups (run_block_cleanup K) (snd block_iter) block_cache;
               Some (s, arg, block_cache) }
        else Some (Status_OK, arg, block_cache));
     Some (if Status_ok s then it_status Block_Iterator iiter else s, arg, block_cache) }"

definition Table_ApproximateOffsetOf :: "table \<Rightarrow> bytes \<Rightarrow> u64 option" where
  "Table_ApproximateOffsetOf table key = do {
     index_iter \<leftarrow> it_Seek Block_Iterator key (Block_NewIterator (t_index_block table) (opt_comparator (t_options table)));
     Some (if it_Valid Block_Iterator index_iter then
             let (s, handle, _) = BlockHandle_DecodeFrom BlockHandle_make (it_value Block_Iterator index_iter)
             in if Status_ok s then bh_offset handle else bh_offset (t_metaindex_handle table)
           else bh_offset (t_metaindex_handle table)) }"

end
