(* ===== verification/Cache_Room.thy ===== *)
theory Cache_Room
  imports Sharded_Cache
begin

text \<open>
  How much room operations on the block cache take: an insertion adds at most one live entry, a lookup
  and a release add none.  A client that bounds its operations thereby never meets the limits of the counters.
\<close>

lemma live_step:
  assumes "heap_step M M' A B" "heap_ok M" "heap_ok M'" "B \<subseteq> A \<union> D" "finite D"
  shows "card {p. ch_handles M' p \<noteq> None} \<le> card {p. ch_handles M p \<noteq> None} + card D"
proof -
  have "{p. ch_handles M' p \<noteq> None} \<subseteq> {p. ch_handles M p \<noteq> None} \<union> D"
  proof (intro subsetI, rule UnCI)
    fix p assume p: "p \<in> {p. ch_handles M' p \<noteq> None}" "p \<notin> D"
    then have "p < ch_fresh M'" using assms(3) by (auto simp: heap_ok_def)
    show "p \<in> {p. ch_handles M p \<noteq> None}"
    proof (cases "p \<in> A \<union> {ch_fresh M..<ch_fresh M'}")
      case True
      then have "p \<in> B" using p assms(1) by (simp add: heap_step_def)
      then have "p \<in> A" using assms(4) p(2) by blast
      then show ?thesis using p(1) assms(1) by (fastforce simp: heap_step_def)
    next
      case False
      then show ?thesis using p(1) assms(1) \<open>p < ch_fresh M'\<close> by (fastforce simp: heap_step_def)
    qed
  qed
  moreover have "finite {p. ch_handles M p \<noteq> None}"
    by (rule finite_subset [of _ "{..<ch_fresh M}"]) (use assms(2) in \<open>auto simp: heap_ok_def\<close>)
  ultimately have "card {p. ch_handles M' p \<noteq> None} \<le> card ({p. ch_handles M p \<noteq> None} \<union> D)"
    using assms(5) by (intro card_mono) auto
  then show ?thesis using card_Un_le order_trans by blast
qed

lemma lookup_live:
  assumes "run_ok S held m A" "size held + 2 < 2 ^ 32" "Cache_Lookup key S = Some (r, S')"
  shows "live_entries S' \<le> live_entries S"
proof -
  let ?M = "sc_heap S" and ?i = "Shard (HashSlice key)"
  note shard = run_shard [OF assms(1) Shard_less, of "HashSlice key"]
  let ?held = "held_in ?M ?i (image_mset fst held)"
  have "size ?held \<le> size held" using size_filter_mset_lesseq [of _ "image_mset fst held"] by (simp add: held_in_def)
  then have "size ?held + 2 < 2 ^ 32" using assms(2) by simp
  from Lookup_shard [OF shard(1) this, of key "HashSlice key"] obtain r' M' C' where op:
    "LRUCache_Lookup key (HashSlice key) (?M, sc_shard S ! ?i) = Some (r', M', C')"
    "\<forall>p. r' = Some p \<longleftrightarrow> p \<in> A ?i \<and> tag (ch_handles ?M) p = Some (key, HashSlice key)"
    "shard_ok M' C' (?held + mset_set (set_option r')) (A ?i)"
    "heap_step ?M M' (own ?held (A ?i)) (own (?held + mset_set (set_option r')) (A ?i))" by blast
  have S': "sc_heap S' = M'" using assms(3) op(1) by (auto simp: Cache_Lookup_def on_shard_def)
  have "own (?held + mset_set (set_option r')) (A ?i) \<subseteq> own ?held (A ?i) \<union> {}" using op(2) by (cases r') (auto simp: own_def)
  from live_step [OF op(4) shard_heap_ok [OF shard(1)] shard_heap_ok [OF op(3)] this] show ?thesis by (simp add: live_entries_def S')
qed

lemma insert_live:
  assumes "run_ok S held m A" "live_entries S + 1 < 2 ^ 31" "Cache_Insert key v charge S = Some (p, S')"
  shows "live_entries S' \<le> live_entries S + 1"
proof -
  let ?M = "sc_heap S" and ?i = "Shard (HashSlice key)"
  note shard = run_shard [OF assms(1) Shard_less, of "HashSlice key"]
  let ?held = "held_in ?M ?i (image_mset fst held)" and ?p = "ch_fresh ?M"
  note heap = shard_heap_ok [OF shard(1)]
  have "finite {p. ch_handles ?M p \<noteq> None}"
    by (rule finite_subset [of _ "{..<ch_fresh ?M}"]) (use heap in \<open>auto simp: heap_ok_def\<close>)
  moreover have "A ?i \<subseteq> {p. ch_handles ?M p \<noteq> None}" using shard(3) by (auto simp: agrees_def)
  ultimately have "card (A ?i) \<le> live_entries S" unfolding live_entries_def by (rule card_mono)
  then have "card (A ?i) + 1 < 2 ^ 31" using assms(2) by simp
  from Insert_shard [OF shard(1) this, of key "HashSlice key" v charge]
  obtain M' C' A' where op: "LRUCache_Insert key (HashSlice key) v charge (?M, sc_shard S ! ?i) = Some (?p, M', C')"
    "shard_ok M' C' (add_mset ?p ?held) A'" "heap_step ?M M' (own ?held (A ?i)) (own (add_mset ?p ?held) A')"
    "if 0 < lc_capacity (sc_shard S ! ?i) then ?p \<in> A' \<and> A' \<subseteq> insert ?p {p \<in> A ?i. tag (ch_handles ?M) p \<noteq> Some (key, HashSlice key)} else A' \<subseteq> A ?i" by blast
  have S': "sc_heap S' = M'" using assms(3) op(1) by (auto simp: Cache_Insert_def on_shard_def)
  have "own (add_mset ?p ?held) A' \<subseteq> own ?held (A ?i) \<union> {?p}" using op(4) by (auto simp: own_def split: if_splits)
  from live_step [OF op(3) heap shard_heap_ok [OF op(2)] this] show ?thesis by (simp add: live_entries_def S')
qed

lemma release_live:
  assumes "run_ok S held m A" "(p, v) \<in># held" "Cache_Release p S = Some S'"
  shows "live_entries S' \<le> live_entries S"
proof -
  let ?M = "sc_heap S"
  have "Cache_Value p S = Some v" using assms(1,2) by (auto simp: run_ok_def)
  then obtain h where h: "ch_handles ?M p = Some h" by (auto simp: Cache_Value_def)
  let ?i = "Shard (h_hash h)"
  note shard = run_shard [OF assms(1) Shard_less, of "h_hash h"]
  let ?held = "held_in ?M ?i (image_mset fst held)"
  have "p \<in># image_mset fst held" using assms(2) by force
  then have p: "p \<in># ?held" using h by (simp add: held_in_def shard_of_def)
  obtain M' C' where op: "LRUCache_Release p (?M, sc_shard S ! ?i) = Some (M', C')" "shard_ok M' C' (?held - {#p#}) (A ?i)"
    "heap_step ?M M' (own ?held (A ?i)) (own (?held - {#p#}) (A ?i))"
    using Release_shard [OF shard(1) p] by blast
  have S': "sc_heap S' = M'" using assms(3) op(1) h by (auto simp: Cache_Release_def on_shard_def)
  have "own (?held - {#p#}) (A ?i) \<subseteq> own ?held (A ?i) \<union> {}" by (auto simp: own_def dest: in_diffD)
  from live_step [OF op(3) shard_heap_ok [OF shard(1)] shard_heap_ok [OF op(2)] this] show ?thesis by (simp add: live_entries_def S')
qed

text \<open>The counter of ids only moves when an id is given out.\<close>

lemma on_shard_id: "on_shard i f S = Some (r, S') \<Longrightarrow> sc_last_id S' = sc_last_id S"
  by (auto simp: on_shard_def bind_eq_Some_conv)

lemma last_id_kept:
  "Cache_Lookup key S = Some (r, S') \<Longrightarrow> sc_last_id S' = sc_last_id S"
  "Cache_Insert key v charge S = Some (p, S') \<Longrightarrow> sc_last_id S' = sc_last_id S"
  "Cache_Release p S = Some S' \<Longrightarrow> sc_last_id S' = sc_last_id S"
  by (auto simp: Cache_Lookup_def Cache_Insert_def Cache_Release_def Let_def bind_eq_Some_conv dest: on_shard_id)

text \<open>
  A cache with a measure of the room it takes, and with the number of ids it has given out; ids are the numbers from 1 on.
\<close>

locale roomy_cache = cache_contract K run room
  for K :: "('c, 'v) cache_ops" and run :: "'c \<Rightarrow> (addr \<times> 'v) multiset \<Rightarrow> (bytes \<rightharpoonup> 'v) \<Rightarrow> bool"
    and room :: "'c \<Rightarrow> (addr \<times> 'v) multiset \<Rightarrow> bool" +
  fixes load :: "'c \<Rightarrow> nat" and ids :: "'c \<Rightarrow> nat"
  assumes load_room: "run c held m \<Longrightarrow> size held + load c + 3 < 2 ^ 31 \<Longrightarrow> room c held"
    and lookup_load: "run c held m \<Longrightarrow> room c held \<Longrightarrow> ca_Lookup K key c = Some (r, c') \<Longrightarrow> load c' \<le> load c \<and> ids c' = ids c"
    and insert_load: "run c held m \<Longrightarrow> room c held \<Longrightarrow> ca_Insert K key v charge c = Some (p, c') \<Longrightarrow> load c' \<le> load c + 1 \<and> ids c' = ids c"
    and release_load: "run c held m \<Longrightarrow> (p, v) \<in># held \<Longrightarrow> ca_Release K p c = Some c' \<Longrightarrow> load c' \<le> load c \<and> ids c' = ids c"
    and new_id_load: "run c held m \<Longrightarrow> ca_NewId K c = (i, c') \<Longrightarrow>
      load c' = load c \<and> (ids c + 1 < 2 ^ 64 \<longrightarrow> ids c' = ids c + 1 \<and> unat i = ids c + 1)"
begin

text \<open>A new id is above the old ones.\<close>

lemma new_id_fresh:
  assumes "run c held m" "ids c + 1 < 2 ^ 64"
  shows "run (snd (ca_NewId K c)) held m \<and> load (snd (ca_NewId K c)) = load c \<and> ids (snd (ca_NewId K c)) = ids c + 1 \<and>
    unat (fst (ca_NewId K c)) = ids c + 1"
  using new_id [OF assms(1)] new_id_load [OF assms(1), of "fst (ca_NewId K c)" "snd (ca_NewId K c)"] assms(2) by simp

end

definition last_id :: "'v sharded_cache \<Rightarrow> nat" where
  "last_id S = unat (sc_last_id S)"

interpretation roomy_lru: roomy_cache ShardedLRUCache cache_run cache_room live_entries last_id
proof
  fix S S' :: "'v sharded_cache" and held m key r v charge p i
  assume run: "cache_run S held m"
  obtain A where A: "run_ok S held m A" using cache_run_ok [OF run] by blast
  show "cache_room S held" if "size held + live_entries S + 3 < 2 ^ 31" using that by (simp add: cache_room_def)
  show "live_entries S' \<le> live_entries S \<and> last_id S' = last_id S" if "cache_room S held" "ca_Lookup ShardedLRUCache key S = Some (r, S')"
    using lookup_live [OF A] that by (auto simp: cache_room_def ShardedLRUCache_def last_id_def dest: last_id_kept)
  show "live_entries S' \<le> live_entries S + 1 \<and> last_id S' = last_id S" if "cache_room S held" "ca_Insert ShardedLRUCache key v charge S = Some (p, S')"
    using insert_live [OF A] that by (auto simp: cache_room_def ShardedLRUCache_def last_id_def dest: last_id_kept)
  show "live_entries S' \<le> live_entries S \<and> last_id S' = last_id S" if "(p, v) \<in># held" "ca_Release ShardedLRUCache p S = Some S'"
    using release_live [OF A] that by (auto simp: ShardedLRUCache_def last_id_def dest: last_id_kept)
  show "live_entries S' = live_entries S \<and> (last_id S + 1 < 2 ^ 64 \<longrightarrow> last_id S' = last_id S + 1 \<and> unat i = last_id S + 1)"
    if "ca_NewId ShardedLRUCache S = (i, S')"
    using that unat_Suc_u64 [of "sc_last_id S"] by (auto simp: ShardedLRUCache_def Cache_NewId_def live_entries_def last_id_def)
qed

end
