(* ===== verification/Table_Reads.thy ===== *)
theory Table_Reads
  imports Table Cache_Room
begin

text \<open>
  What a table reader gives back of a file with the layout of \<open>Table_Builder\<close>: the iterator over its
  two levels presents the entries, a lookup finds a key that is there, with a filter or without, and
  with a block cache or without.
\<close>

subsection \<open>Iterators over the blocks of a table\<close>

definition block_ptr_view :: "comparator \<Rightarrow> (bytes \<Rightarrow> bool) \<Rightarrow> status + block_iter \<Rightarrow> (bytes \<times> bytes) list \<Rightarrow> nat \<Rightarrow> bool" where
  "block_ptr_view c keys = case_sum empty_view (block_view c keys)"

interpretation block_ptr: iterator_contract Block_Iterator "cmp_Compare c" keys "block_ptr_view c keys"
  for c keys
  unfolding Block_Iterator_def block_ptr_view_def
  by (rule either_contract [OF empty_iterator.iterator_contract_axioms block.iterator_contract_axioms])

interpretation block_obj: iterator_contract "with_cleanups Block_Iterator" "cmp_Compare c" keys "\<lambda>it. block_ptr_view c keys (fst it)"
  for c keys
  by (rule with_cleanups_contract [OF block_ptr.iterator_contract_axioms])

definition sorted_entries :: "comparator \<Rightarrow> (bytes \<Rightarrow> bool) \<Rightarrow> (bytes \<times> bytes) list \<Rightarrow> bool" where
  "sorted_entries c keys es \<longleftrightarrow> key_order (cmp_Compare c) keys \<and>
     sorted_wrt (\<lambda>a b. cmp_Compare c (fst a) (fst b) < 0) es \<and> (\<forall>e \<in> set es. keys (fst e))"

lemma built_block_view:
  assumes "built_from data es" "length data < 2 ^ 32" "sorted_entries c keys es"
  shows "block_ptr_view c keys (Block_NewIterator (Block_make data) c) es (length es)"
proof -
  obtain ls rs where l: "block_layout data ls rs" "map snd ls = es"
    using assms(1,2) by (auto simp: built_from_def block_layout_def)
  let ?it = "BlockIter_make c data (word_of_nat (length (enc_entries ls))) (word_of_nat (length rs))"
  have "iter_of c ls rs ?it" "bi_current ?it = bi_restarts ?it" using l(1) by (simp_all add: iter_of_def BlockIter_make_def)
  then have "block_view c keys ?it es (length es)"
    unfolding block_view_def using assms(3)[unfolded sorted_entries_def] l(2) by (intro conjI exI [of _ ls] exI [of _ rs]) auto
  then show ?thesis using Block_make_layout [OF l(1)] by (simp add: block_ptr_view_def)
qed

lemma sorted_entries_append: "sorted_entries c keys (xs @ ys) \<Longrightarrow> sorted_entries c keys xs \<and> sorted_entries c keys ys"
  by (auto simp: sorted_entries_def sorted_wrt_append)

subsection \<open>The blocks of a table\<close>

text \<open>\<open>indexed\<close>: the blocks are not empty, in order, and their index keys separate them.\<close>

definition indexed :: "comparator \<Rightarrow> (bytes \<Rightarrow> bool) \<Rightarrow> table_block list \<Rightarrow> bool" where
  "indexed c keys bs \<longleftrightarrow> sorted_entries c keys (all_entries bs) \<and> (\<forall>b \<in> set bs. blk_entries b \<noteq> []) \<and>
     (\<forall>i < length bs. keys (blk_index_key (bs ! i)) \<and> index_separates c bs i [])"

lemma all_entries_split:
  "i < length bs \<Longrightarrow> all_entries bs = all_entries (take i bs) @ blk_entries (bs ! i) @ all_entries (drop (Suc i) bs)"
  by (metis all_entries_simps(2,3) id_take_nth_drop)

lemma part_sorted: "indexed c keys bs \<Longrightarrow> i < length bs \<Longrightarrow> sorted_entries c keys (blk_entries (bs ! i))"
  using all_entries_split [of i bs] sorted_entries_append unfolding indexed_def by metis

lemma length_index_entries [simp]: "length (index_entries bs) = length bs"
  by (simp add: index_entries_def)

lemma nth_index_entries [simp]: "i < length bs \<Longrightarrow> index_entries bs ! i = index_entry bs i"
  by (simp add: index_entries_def)

lemma index_entry_key [simp]: "fst (index_entry bs i) = blk_index_key (bs ! i)"
  by (simp add: index_entry_def)

lemma index_entry_handle: "snd (index_entry bs i) = BlockHandle_EncodeTo (block_handle_of bs i) []"
  by (simp add: index_entry_def)

lemma all_entries_nth: "j < length bs \<Longrightarrow> e \<in> set (blk_entries (bs ! j)) \<Longrightarrow> i \<le> j \<Longrightarrow> e \<in> set (all_entries (drop i bs))"
  by (force simp: all_entries_def in_set_conv_nth intro: exI [of _ "j - i"])

lemma all_entries_nth': "j < i \<Longrightarrow> j < length bs \<Longrightarrow> e \<in> set (blk_entries (bs ! j)) \<Longrightarrow> e \<in> set (all_entries (take i bs))"
  by (force simp: all_entries_def in_set_conv_nth)

lemma in_all_entries: "e \<in> set (all_entries bs) \<longleftrightarrow> (\<exists>i < length bs. e \<in> set (blk_entries (bs ! i)))"
proof -
  have "e \<in> set (all_entries bs) \<longleftrightarrow> (\<exists>b \<in> set bs. e \<in> set (blk_entries b))" by (simp add: all_entries_def)
  then show ?thesis by (metis in_set_conv_nth)
qed

lemma index_below:
  assumes "indexed c keys bs" "i < j" "j < length bs" "e \<in> set (blk_entries (bs ! j))"
  shows "cmp_Compare c (blk_index_key (bs ! i)) (fst e) < 0"
proof -
  have "e \<in> set (all_entries (drop (Suc i) bs))" using all_entries_nth [OF assms(3,4), of "Suc i"] assms(2) by simp
  moreover have "index_separates c bs i []" using assms(1-3) by (simp add: indexed_def)
  ultimately show ?thesis unfolding index_separates_def by simp
qed

lemma index_above:
  assumes "indexed c keys bs" "j < length bs" "e \<in> set (blk_entries (bs ! j))"
  shows "cmp_Compare c (fst e) (blk_index_key (bs ! j)) \<le> 0"
proof -
  have "e \<in> set (all_entries (take (Suc j) bs))" using all_entries_nth' [of j "Suc j" bs e] assms(2,3) by simp
  moreover have "index_separates c bs j []" using assms(1,2) by (simp add: indexed_def)
  ultimately show ?thesis unfolding index_separates_def by simp
qed

lemma index_sorted:
  assumes "indexed c keys bs"
  shows "sorted_entries c keys (index_entries bs)"
proof -
  have order: "key_order (cmp_Compare c) keys" using assms by (simp add: indexed_def sorted_entries_def)
  have keys: "keys (blk_index_key (bs ! i))" if "i < length bs" for i using assms that by (simp add: indexed_def)
  have "cmp_Compare c (blk_index_key (bs ! i)) (blk_index_key (bs ! j)) < 0" if ij: "i < j" "j < length bs" for i j
  proof -
    obtain e where e: "e \<in> set (blk_entries (bs ! j))" using assms ij(2) unfolding indexed_def by (metis hd_in_set nth_mem)
    have "cmp_Compare c (blk_index_key (bs ! i)) (fst e) < 0" by (rule index_below [OF assms ij e])
    moreover have "cmp_Compare c (fst e) (blk_index_key (bs ! j)) \<le> 0" by (rule index_above [OF assms ij(2) e])
    moreover have "keys (fst e)"
      using part_sorted [OF assms ij(2)] e by (simp add: sorted_entries_def)
    ultimately show ?thesis using key_order.compare_less_le_trans [OF order] keys ij by simp
  qed
  moreover have "\<forall>e \<in> set (index_entries bs). keys (fst e)"
    using keys by (auto simp: index_entries_def)
  ultimately show ?thesis using order by (simp add: sorted_entries_def sorted_wrt_iff_nth_less)
qed

text \<open>Where the blocks lie.\<close>

lemma data_part_split:
  "i < length bs \<Longrightarrow> data_part bs = data_part (take i bs) @ raw_block (blk_bytes (bs ! i)) kNoCompression @ data_part (drop (Suc i) bs)"
  by (metis (no_types, lifting) concat_append concat.simps(2) data_part_def id_take_nth_drop list.simps(9) map_append)

lemma data_part_less:
  assumes "i < j" "j \<le> length bs"
  shows "length (data_part (take i bs)) < length (data_part (take j bs))"
proof -
  have "data_part (take j bs) = data_part (take i bs) @ raw_block (blk_bytes (bs ! i)) kNoCompression @ data_part (drop (Suc i) (take j bs))"
    using data_part_split [of i "take j bs"] assms by (simp add: min_def)
  from arg_cong [OF this, of length] show ?thesis by (simp add: kBlockTrailerSize_def)
qed

lemma block_offsets_distinct:
  assumes "length (data_part bs) < 2 ^ 64" "i < length bs" "j < length bs" "bh_offset (block_handle_of bs i) = bh_offset (block_handle_of bs j)"
  shows "i = j"
proof (rule ccontr)
  assume "i \<noteq> j"
  have small: "length (data_part (take k bs)) < 2 ^ 64" if "k < length bs" for k
    using data_part_less [of k "length bs" bs] that assms(1) by simp
  have "unat (word_of_nat (length (data_part (take i bs))) :: u64) = unat (word_of_nat (length (data_part (take j bs))) :: u64)"
    using assms(4) by (simp add: block_handle_of_def handle_at_def)
  then have "length (data_part (take i bs)) = length (data_part (take j bs))"
    using small [OF assms(2)] small [OF assms(3)] by (simp add: unat_of_nat_small)
  with \<open>i \<noteq> j\<close> data_part_less [of i j bs] data_part_less [of j i bs] assms(2,3) show False by (cases i j rule: linorder_cases) auto
qed

text \<open>The entries of the block a handle names.\<close>

definition part_of :: "table_block list \<Rightarrow> bytes \<rightharpoonup> (bytes \<times> bytes) list" where
  "part_of bs = map_of (zip (map snd (index_entries bs)) (map blk_entries bs))"

lemma handles_distinct:
  assumes "length (data_part bs) < 2 ^ 64"
  shows "distinct (map snd (index_entries bs))"
proof -
  have "i = j" if "i < length bs" "j < length bs" "snd (index_entry bs i) = snd (index_entry bs j)" for i j
  proof -
    have "block_handle_of bs i = block_handle_of bs j"
      using that(3) BlockHandle_round_trip [of BlockHandle_make "block_handle_of bs i" "[]"]
        BlockHandle_round_trip [of BlockHandle_make "block_handle_of bs j" "[]"] by (simp add: index_entry_handle)
    with block_offsets_distinct [OF assms that(1,2)] show ?thesis by simp
  qed
  then show ?thesis by (auto simp: distinct_conv_nth)
qed

lemma part_of_handle:
  assumes "length (data_part bs) < 2 ^ 64" "i < length bs"
  shows "part_of bs (snd (index_entry bs i)) = Some (blk_entries (bs ! i))"
proof -
  have "map snd (index_entries bs) ! i = snd (index_entry bs i)" using assms(2) by simp
  with map_of_zip_nth [OF _ handles_distinct [OF assms(1)], of "map blk_entries bs" i] assms(2) show ?thesis by (simp add: part_of_def)
qed

lemma part_of_some:
  assumes "part_of bs h = Some part"
  shows "\<exists>i < length bs. h = snd (index_entry bs i) \<and> part = blk_entries (bs ! i)"
proof -
  have "(h, part) \<in> set (zip (map snd (index_entries bs)) (map blk_entries bs))"
    using assms map_of_SomeD unfolding part_of_def by fastforce
  then show ?thesis by (auto simp: set_zip)
qed

lemma indexed_index_of:
  assumes "indexed c keys bs" "length (data_part bs) < 2 ^ 64"
  shows "index_of (cmp_Compare c) keys (part_of bs) (index_entries bs) (map blk_entries bs)"
  unfolding index_of_def
proof (intro conjI allI impI)
  show "key_order (cmp_Compare c) keys" using assms(1) by (simp add: indexed_def sorted_entries_def)
  show "\<forall>e \<in> set (index_entries bs) \<union> set (concat (map blk_entries bs)). keys (fst e)"
    using index_sorted [OF assms(1)] assms(1) by (auto simp: indexed_def sorted_entries_def all_entries_def)
  fix i assume i: "i < length (index_entries bs)"
  show "part_of bs (snd (index_entries bs ! i)) = Some (map blk_entries bs ! i)"
    using part_of_handle [OF assms(2)] i by simp
  have sep: "index_separates c bs i []" using assms(1) i by (simp add: indexed_def)
  show "\<forall>e \<in> set (concat (take (Suc i) (map blk_entries bs))). cmp_Compare c (fst e) (fst (index_entries bs ! i)) \<le> 0"
    "\<forall>e \<in> set (concat (drop (Suc i) (map blk_entries bs))). cmp_Compare c (fst (index_entries bs ! i)) (fst e) < 0"
    using sep i by (simp_all add: index_separates_def all_entries_def take_map drop_map)
qed simp

subsection \<open>Opening a table\<close>

definition opened :: "table_options \<Rightarrow> random_access_file \<Rightarrow> table_block list \<Rightarrow> bytes list list \<Rightarrow> bytes \<Rightarrow> table \<Rightarrow> bool" where
  "opened opts R bs fs index table \<longleftrightarrow> t_options table = opts \<and> t_file table = R \<and> t_index_block table = Block_make index \<and>
     t_filter table = map_option (\<lambda>p. FilterBlockReader_make p (filter_block_bytes p fs)) (opt_filter_policy opts) \<and>
     bh_offset (t_metaindex_handle table) = word_of_nat (length (data_part bs @ filter_part opts fs))"

lemma seek_index_single: "seek_index (cmp_Compare BytewiseComparator) k [(k, v)] = 0"
  by (simp add: seek_index_def BytewiseComparator_sel BytewiseComparator_Compare_lex)

context random_access_contract
begin

lemma ReadBlock_at:
  assumes "content = pre @ raw_block data kNoCompression @ post" "length content < 2 ^ 64"
  shows "\<exists>c. ReadBlock R verify (handle_at (length pre) data) = Some (Status_OK, c) \<and> bc_data c = data"
  using ReadBlock_raw [OF assms] by (simp add: handle_at_def)

lemma data_block_read:
  assumes "table_layout opts content bs fs meta index" "length content < 2 ^ 64" "i < length bs"
  shows "\<exists>c. ReadBlock R verify (block_handle_of bs i) = Some (Status_OK, c) \<and> bc_data c = blk_bytes (bs ! i)"
proof -
  obtain rest where "content = data_part bs @ rest" using assms(1) by (auto simp: table_layout_def Let_def)
  then have "content = data_part (take i bs) @ raw_block (blk_bytes (bs ! i)) kNoCompression @ data_part (drop (Suc i) bs) @ rest"
    by (subst (asm) data_part_split [OF assms(3)]) simp
  from ReadBlock_at [OF this assms(2)] show ?thesis by (simp add: block_handle_of_def)
qed

lemma Table_ReadFilter_ok:
  assumes "content = pre @ raw_block data kNoCompression @ post" "length content < 2 ^ 64"
    and "t_file table = R" "opt_filter_policy (t_options table) = Some p"
  shows "Table_ReadFilter (BlockHandle_EncodeTo (handle_at (length pre) data) []) table = Some (table\<lparr>t_filter := Some (FilterBlockReader_make p data)\<rparr>)"
proof -
  obtain c where "ReadBlock R (opt_paranoid_checks (t_options table)) (handle_at (length pre) data) = Some (Status_OK, c)" "bc_data c = data"
    using ReadBlock_at [OF assms(1,2)] by blast
  with assms(3,4) BlockHandle_round_trip [of BlockHandle_make "handle_at (length pre) data" "[]"]
  show ?thesis by (simp add: Table_ReadFilter_def)
qed

lemma Table_ReadMeta_ok:
  assumes layout: "table_layout opts content bs fs meta index" and small: "length content < 2 ^ 32"
    and table: "t_file table = R" "t_options table = opts" "t_filter table = None"
    and ft: "ft_metaindex_handle ft = handle_at (length (data_part bs @ filter_part opts fs)) meta"
  shows "Table_ReadMeta ft table =
    Some (table\<lparr>t_filter := map_option (\<lambda>p. FilterBlockReader_make p (filter_block_bytes p fs)) (opt_filter_policy opts)\<rparr>)"
proof (cases "opt_filter_policy opts")
  case None
  then have "table\<lparr>t_filter := None\<rparr> = table" using table by (cases table) simp
  with None table show ?thesis by (simp add: Table_ReadMeta_def)
next
  case (Some p)
  let ?fb = "filter_block_bytes p fs" and ?key = "lit ''filter.'' @ fp_Name p"
  let ?h = "BlockHandle_EncodeTo (handle_at (length (data_part bs)) ?fb) []"
  let ?I = "\<lambda>it. block_ptr_view BytewiseComparator (\<lambda>_. True) it [(?key, ?h)]"
  obtain foot where c: "content = data_part bs @ raw_block ?fb kNoCompression @ raw_block meta kNoCompression @ raw_block index kNoCompression @ foot"
    using layout Some by (auto simp: table_layout_def Let_def filter_part_def)
  have built: "built_from meta [(?key, ?h)]" using layout Some by (simp add: table_layout_def meta_entries_def)
  have len: "length content < 2 ^ 64" "length meta < 2 ^ 32" using small c by simp_all
  have cm_at: "content = (data_part bs @ filter_part opts fs) @ raw_block meta kNoCompression @ raw_block index kNoCompression @ foot"
    using c Some by (simp add: filter_part_def)
  obtain cm where cm: "ReadBlock R (opt_paranoid_checks opts) (ft_metaindex_handle ft) = Some (Status_OK, cm)" "bc_data cm = meta"
    using ReadBlock_at [OF cm_at len(1)] unfolding ft by blast
  have "sorted_entries BytewiseComparator (\<lambda>_. True) [(?key, ?h)]"
    using bytewise.key_order_axioms by (simp add: sorted_entries_def)
  then have "?I (Block_NewIterator (Block_make meta) BytewiseComparator) 1" using built_block_view [OF built len(2)] by simp
  from block_ptr.view_Seek [OF this, of ?key] obtain it where
    it: "it_Seek Block_Iterator ?key (Block_NewIterator (Block_make meta) BytewiseComparator) = Some it" "?I it 0"
    by (auto simp: seek_index_single)
  have "it_Valid Block_Iterator it" "it_key Block_Iterator it = ?key" "it_value Block_Iterator it = ?h"
    using block_ptr.view_Valid [OF it(2)] block_ptr.view_key_value [OF it(2)] by simp_all
  with cm it(1) Table_ReadFilter_ok [OF c len(1) table(1)] table Some show ?thesis
    by (simp add: Table_ReadMeta_def)
qed

lemma Footer_read:
  assumes "content = pre @ Footer_EncodeTo ft []" "length content < 2 ^ 64"
  shows "raf_Read R (word_of_nat (length content) - word_of_nat Footer_kEncodedLength) (word_of_nat Footer_kEncodedLength) =
    Some (Status_OK, Footer_EncodeTo ft [])"
proof -
  have l: "length (Footer_EncodeTo ft []) = Footer_kEncodedLength" using Footer_bytes by blast
  have n: "unat (word_of_nat Footer_kEncodedLength :: u64) = Footer_kEncodedLength" by (simp add: Footer_kEncodedLength_def BlockHandle_kMaxEncodedLength_def)
  have off: "(word_of_nat (length content) :: u64) - word_of_nat Footer_kEncodedLength = word_of_nat (length pre)"
    using l by (simp add: assms(1))
  have p: "unat (word_of_nat (length pre) :: u64) = length pre" using assms by (intro unat_of_nat_small) simp
  show ?thesis using read_inside [OF assms(2), of "word_of_nat (length pre)" "word_of_nat Footer_kEncodedLength"] l
    by (simp add: off n p assms(1))
qed

lemma Table_Open_ok:
  assumes layout: "table_layout opts content bs fs meta index" and small: "length content < 2 ^ 32"
  shows "\<exists>table. Table_Open K opts cache R (word_of_nat (length content)) =
      Some ((Status_OK, Some table), map_option (snd \<circ> ca_NewId K) cache) \<and> opened opts R bs fs index table \<and>
      (\<forall>c. cache = Some c \<longrightarrow> t_cache_id table = fst (ca_NewId K c))"
proof -
  let ?off = "length (data_part bs @ filter_part opts fs)"
  let ?ft = "\<lparr>ft_metaindex_handle = handle_at ?off meta, ft_index_handle = handle_at (?off + length (raw_block meta kNoCompression)) index\<rparr>"
  have len: "length content < 2 ^ 64" using small by simp
  have c: "content = (data_part bs @ filter_part opts fs @ raw_block meta kNoCompression @ raw_block index kNoCompression) @ Footer_EncodeTo ?ft []"
    "content = (data_part bs @ filter_part opts fs @ raw_block meta kNoCompression) @ raw_block index kNoCompression @ Footer_EncodeTo ?ft []"
    using layout by (simp_all add: table_layout_def Let_def)
  have fl: "length (Footer_EncodeTo ?ft []) = Footer_kEncodedLength" using Footer_bytes by blast
  have "Footer_kEncodedLength \<le> length content" unfolding fl [symmetric] by (subst c(1)) (simp only: length_append le_add2)
  then have big: "\<not> unat (word_of_nat (length content) :: u64) < Footer_kEncodedLength" using len by (simp add: unat_of_nat_small)
  obtain ci where ci: "ReadBlock R (opt_paranoid_checks opts) (ft_index_handle ?ft) = Some (Status_OK, ci)" "bc_data ci = index"
    using ReadBlock_at [OF c(2) len] by (auto simp: add.assoc)
  let ?id = "case cache of None \<Rightarrow> 0 | Some c \<Rightarrow> fst (ca_NewId K c)"
  let ?table = "\<lparr>t_options = opts, t_file = R, t_cache_id = ?id, t_filter = None,
    t_metaindex_handle = handle_at ?off meta, t_index_block = Block_make index\<rparr>"
  have meta: "Table_ReadMeta ?ft ?table =
      Some (?table\<lparr>t_filter := map_option (\<lambda>p. FilterBlockReader_make p (filter_block_bytes p fs)) (opt_filter_policy opts)\<rparr>)"
    by (rule Table_ReadMeta_ok [OF layout small]) simp_all
  have cache: "(case cache of None \<Rightarrow> (0, None) | Some c \<Rightarrow> map_prod id Some (ca_NewId K c)) = (?id, map_option (snd \<circ> ca_NewId K) cache)"
    by (cases cache) (simp_all add: map_prod_def split: prod.split)
  have "Table_Open K opts cache R (word_of_nat (length content)) =
      Some ((Status_OK, Some (?table\<lparr>t_filter := map_option (\<lambda>p. FilterBlockReader_make p (filter_block_bytes p fs)) (opt_filter_policy opts)\<rparr>)),
        map_option (snd \<circ> ca_NewId K) cache)"
    unfolding Table_Open_def Let_def Footer_read [OF c(1) len] if_not_P [OF big]
    using ci meta by (simp add: Footer_round_trip cache)
  then show ?thesis by (auto simp: opened_def handle_at_def)
qed

end

subsection \<open>Reading a block\<close>

definition uncached_reads :: "('c, block) cache_ops \<Rightarrow> table \<Rightarrow> comparator \<Rightarrow> (bytes \<Rightarrow> bool) \<Rightarrow> 'c option \<Rightarrow> read_options \<Rightarrow>
    (bytes \<rightharpoonup> (bytes \<times> bytes) list) \<Rightarrow> bool" where
  "uncached_reads K table c keys cache options f \<longleftrightarrow> cache = None \<and> (\<forall>handle part. f handle = Some part \<longrightarrow>
     (\<exists>d. Table_BlockReader K table None options handle = Some (d, None) \<and> block_ptr_view c keys (fst d) part (length part)))"

interpretation table_levels: two_level Block_Iterator "with_cleanups Block_Iterator" "cmp_Compare c" keys "block_ptr_view c keys"
  "\<lambda>it. block_ptr_view c keys (fst it)" "Table_BlockReader K table" "uncached_reads K table c keys"
  for K :: "('c, block) cache_ops" and table c keys
proof unfold_locales
  fix arg :: "'c option" and options f handle part
  assume "uncached_reads K table c keys arg options f" "f handle = Some part"
  then show "\<exists>d arg' m. Table_BlockReader K table arg options handle = Some (d, arg') \<and>
      uncached_reads K table c keys arg' options f \<and> block_ptr_view c keys (fst d) part m"
    unfolding uncached_reads_def by blast
qed

interpretation table_iterator: iterator_contract "Table_Iterator K table" "cmp_Compare c" keys
  "\<lambda>it. table_levels.tl_view c keys K table it"
  for K :: "('c, block) cache_ops" and table c keys
  unfolding Table_Iterator_def by (rule table_levels.contract)

text \<open>A cache agrees with a table when it holds only blocks of the table under the keys of the table.\<close>

definition cache_agrees :: "table_block list \<Rightarrow> table \<Rightarrow> (bytes \<rightharpoonup> block) \<Rightarrow> bool" where
  "cache_agrees bs table m \<longleftrightarrow> (\<forall>i < length bs. \<forall>b. m (block_cache_key table (block_handle_of bs i)) = Some b \<longrightarrow>
     b = Block_make (blk_bytes (bs ! i)))"

lemma block_cache_key_offset:
  assumes "block_cache_key table h = block_cache_key table h'"
  shows "bh_offset h = bh_offset h'"
proof -
  have "EncodeFixed64 (bh_offset h) = EncodeFixed64 (bh_offset h')" using assms by (simp add: block_cache_key_def)
  from arg_cong [OF this, of "\<lambda>x. DecodeFixed64 (x @ [])"] show ?thesis by (simp del: append_Nil2)
qed

lemma cache_agrees_insert:
  assumes "cache_agrees bs table m" "length (data_part bs) < 2 ^ 64" "i < length bs"
  shows "cache_agrees bs table (m(block_cache_key table (block_handle_of bs i) \<mapsto> Block_make (blk_bytes (bs ! i))))"
  using assms block_cache_key_offset block_offsets_distinct [OF assms(2)] unfolding cache_agrees_def
  by (metis fun_upd_apply option.inject)

text \<open>What holds of the contents of a cache while it stores blocks of the table, and agrees with the table.\<close>

definition keeps_blocks :: "table_block list \<Rightarrow> table \<Rightarrow> ((bytes \<rightharpoonup> block) \<Rightarrow> bool) \<Rightarrow> bool" where
  "keeps_blocks bs table P \<longleftrightarrow> (\<forall>m. P m \<longrightarrow> cache_agrees bs table m \<and>
     (\<forall>i < length bs. P (m(block_cache_key table (block_handle_of bs i) \<mapsto> Block_make (blk_bytes (bs ! i))))))"

lemma cache_agrees_keeps: "length (data_part bs) < 2 ^ 64 \<Longrightarrow> keeps_blocks bs table (cache_agrees bs table)"
  using cache_agrees_insert by (simp add: keeps_blocks_def)

text \<open>
  Whatever block is read, deleting its iterator leads to a cache of which \<open>Q\<close> holds.
\<close>

definition block_reads :: "('c, block) cache_ops \<Rightarrow> table \<Rightarrow> table_options \<Rightarrow> table_block list \<Rightarrow> 'c option \<Rightarrow> read_options \<Rightarrow> ('c option \<Rightarrow> bool) \<Rightarrow> bool" where
  "block_reads K table opts bs cache options Q \<longleftrightarrow> Q cache \<and> (\<forall>i < length bs. \<exists>cleanups read_cache cache'.
     Table_BlockReader K table cache options (snd (index_entry bs i)) =
       Some ((Block_NewIterator (Block_make (blk_bytes (bs ! i))) (opt_comparator opts), cleanups), read_cache) \<and>
     run_cleanups (run_block_cleanup K) cleanups read_cache = Some cache' \<and> Q cache')"

context random_access_contract
begin

lemma BlockReader_uncached:
  assumes "table_layout opts content bs fs meta index" "length content < 2 ^ 64" "opened opts R bs fs index table" "i < length bs"
  shows "Table_BlockReader K table None options (snd (index_entry bs i)) =
    Some ((Block_NewIterator (Block_make (blk_bytes (bs ! i))) (opt_comparator opts), [DeleteBlock]), None)"
proof -
  obtain c where "ReadBlock R (ro_verify_checksums options) (block_handle_of bs i) = Some (Status_OK, c)" "bc_data c = blk_bytes (bs ! i)"
    using data_block_read [OF assms(1,2,4)] by blast
  with assms(3) BlockHandle_round_trip [of BlockHandle_make "block_handle_of bs i" "[]"] show ?thesis
    by (simp add: Table_BlockReader_def index_entry_handle opened_def RegisterCleanup_def)
qed

lemma block_reads_uncached:
  assumes "table_layout opts content bs fs meta index" "length content < 2 ^ 64" "opened opts R bs fs index table"
  shows "block_reads K table opts bs None options (\<lambda>cache. cache = None)"
  unfolding block_reads_def
  by (intro conjI refl allI impI exI [of _ "[DeleteBlock]"] exI [of _ None])
    (simp_all add: BlockReader_uncached [OF assms] run_block_cleanup_def)

text \<open>
  With a cache the iterator is the same, and deleting it gives the handle of the cached block back: the clients of the cache hold
  what they held before, and at most one block is new.
\<close>

lemma block_reads_cached:
  assumes layout: "table_layout opts content bs fs meta index" "length content < 2 ^ 64" and table: "opened opts R bs fs index table"
    and cache: "roomy_cache K run room load ids" "run c outs m" "size outs + load c + 3 < 2 ^ 31" and keeps: "keeps_blocks bs table P" "P m"
  shows "block_reads K table opts bs (Some c) options
    (\<lambda>cache'. \<exists>c' m'. cache' = Some c' \<and> run c' outs m' \<and> P m' \<and> load c' \<le> load c + 1 \<and> ids c' = ids c)"
  unfolding block_reads_def
proof (intro conjI allI impI)
  show "\<exists>c' m'. Some c = Some c' \<and> run c' outs m' \<and> P m' \<and> load c' \<le> load c + 1 \<and> ids c' = ids c"
    using cache(2) keeps(2) by auto
next
  fix i assume i: "i < length bs"
  note con = roomy_cache.axioms(1) [OF cache(1)]
  note room = roomy_cache.load_room [OF cache(1-3)]
  let ?h = "block_handle_of bs i" and ?b = "Block_make (blk_bytes (bs ! i))"
  let ?key = "block_cache_key table ?h"
  let ?read = "Table_BlockReader K table (Some c) options (snd (index_entry bs i))"
  let ?it = "Block_NewIterator ?b (opt_comparator opts)"
  let ?post = "\<lambda>cache'. \<exists>c' m'. cache' = Some c' \<and> run c' outs m' \<and> P m' \<and> load c' \<le> load c + 1 \<and> ids c' = ids c"
  have h: "BlockHandle_DecodeFrom BlockHandle_make (snd (index_entry bs i)) = (Status_OK, ?h, [])"
    using BlockHandle_round_trip [of BlockHandle_make ?h "[]"] by (simp add: index_entry_handle)
  obtain r c1 where r: "ca_Lookup K ?key c = Some (r, c1)" "case r of None \<Rightarrow> run c1 outs m \<and> room c1 outs
      | Some p \<Rightarrow> \<exists>v. m ?key = Some v \<and> ca_Value K p c1 = Some v \<and> run c1 (add_mset (p, v) outs) m"
    using cache_contract.lookup [OF con cache(2) room] by blast
  have r_load: "load c1 \<le> load c" "ids c1 = ids c" using roomy_cache.lookup_load [OF cache(1,2) room r(1)] by simp_all
  have given_back: "\<exists>cleanups read_cache cache'. ?read = Some ((?it, cleanups), read_cache) \<and>
      run_cleanups (run_block_cleanup K) cleanups read_cache = Some cache' \<and> ?post cache'"
    if read: "?read = Some ((?it, [ReleaseBlock p]), Some c2)" and c2: "run c2 (add_mset (p, v) outs) m2" "P m2" "load c2 \<le> load c + 1" "ids c2 = ids c"
    for p v c2 m2
  proof -
    obtain c3 where c3: "ca_Release K p c2 = Some c3" "run c3 outs m2"
      using cache_contract.release [OF con c2(1), of p v] by auto
    have "load c3 \<le> load c2 \<and> ids c3 = ids c2" using roomy_cache.release_load [OF cache(1) c2(1) _ c3(1), of v] by simp
    with c2 c3 read show ?thesis
      by (intro exI [of _ "[ReleaseBlock p]"] exI [of _ "Some c2"] exI [of _ "Some c3"]) (auto simp: run_block_cleanup_def)
  qed
  show "\<exists>cleanups read_cache cache'. ?read = Some ((?it, cleanups), read_cache) \<and>
      run_cleanups (run_block_cleanup K) cleanups read_cache = Some cache' \<and> ?post cache'"
  proof (cases r)
    case (Some p)
    then obtain v where v: "m ?key = Some v" "ca_Value K p c1 = Some v" "run c1 (add_mset (p, v) outs) m" using r(2) by auto
    have "v = ?b" using keeps i v(1) by (simp add: keeps_blocks_def cache_agrees_def)
    with v r(1) Some table have "?read = Some ((?it, [ReleaseBlock p]), Some c1)"
      by (simp add: Table_BlockReader_def h opened_def RegisterCleanup_def)
    from given_back [OF this v(3) keeps(2)] r_load show ?thesis by simp
  next
    case None
    then have run: "run c1 outs m" "room c1 outs" using r(2) by auto
    obtain con' where con': "ReadBlock R (ro_verify_checksums options) ?h = Some (Status_OK, con')" "bc_data con' = blk_bytes (bs ! i)"
      using data_block_read [OF layout i] by blast
    show ?thesis
    proof (cases "bc_cachable con' \<and> ro_fill_cache options")
      case True
      obtain p c2 where p: "ca_Insert K ?key ?b (word_of_nat (blk_size ?b)) c1 = Some (p, c2)" "run c2 (add_mset (p, ?b) outs) (m(?key \<mapsto> ?b))"
        using cache_contract.insert [OF con run] by blast
      have "load c2 \<le> load c1 + 1 \<and> ids c2 = ids c1" by (rule roomy_cache.insert_load [OF cache(1) run p(1)])
      moreover have "?read = Some ((?it, [ReleaseBlock p]), Some c2)"
        using con' r(1) None True table p(1) by (simp add: Table_BlockReader_def h opened_def RegisterCleanup_def)
      moreover have "P (m(?key \<mapsto> ?b))" using keeps i by (simp add: keeps_blocks_def)
      ultimately show ?thesis using given_back [OF _ p(2)] r_load by simp
    next
      case False
      then have "?read = Some ((?it, [DeleteBlock]), Some c1)"
        using con' r(1) None table by (auto simp: Table_BlockReader_def h opened_def RegisterCleanup_def Let_def)
      with run(1) keeps(2) r_load show ?thesis
        by (intro exI [of _ "[DeleteBlock]"] exI [of _ "Some c1"]) (auto simp: run_block_cleanup_def)
    qed
  qed
qed

subsection \<open>The iterator of a table\<close>

lemma index_view:
  assumes "table_layout opts content bs fs meta index" "length content < 2 ^ 32" "opened opts R bs fs index table"
    and "indexed (opt_comparator opts) keys bs"
  shows "block_ptr_view (opt_comparator opts) keys (Block_NewIterator (t_index_block table) (opt_comparator opts))
    (index_entries bs) (length (index_entries bs))"
proof -
  have "built_from index (index_entries bs)" "length index < 2 ^ 32" using assms(1,2) by (auto simp: table_layout_def Let_def)
  from built_block_view [OF this index_sorted [OF assms(4)]] assms(3) show ?thesis by (simp add: opened_def)
qed

lemma part_view:
  assumes "table_layout opts content bs fs meta index" "length content < 2 ^ 32" "indexed c keys bs" "i < length bs"
  shows "block_ptr_view c keys (Block_NewIterator (Block_make (blk_bytes (bs ! i))) c) (blk_entries (bs ! i)) (length (blk_entries (bs ! i)))"
proof -
  have "length (data_part bs) \<le> length content" using assms(1) by (auto simp: table_layout_def Let_def)
  then have "length (blk_bytes (bs ! i)) < 2 ^ 32" using assms(2) arg_cong [OF data_part_split [OF assms(4)], of length] by simp
  moreover have "built_from (blk_bytes (bs ! i)) (blk_entries (bs ! i))" using assms(1,4) by (simp add: table_layout_def)
  ultimately show ?thesis using built_block_view part_sorted [OF assms(3,4)] by blast
qed

lemma Table_NewIterator_view:
  assumes layout: "table_layout opts content bs fs meta index" "length content < 2 ^ 32" and table: "opened opts R bs fs index table"
    and ix: "indexed (opt_comparator opts) keys bs"
  shows "table_levels.tl_view (opt_comparator opts) keys K table (Table_NewIterator table None options)
    (all_entries bs) (length (all_entries bs))"
proof -
  have len: "length content < 2 ^ 64" using layout(2) by simp
  have data: "length (data_part bs) < 2 ^ 64" using layout(1) len by (auto simp: table_layout_def Let_def)
  have reads: "uncached_reads K table (opt_comparator opts) keys None options (part_of bs)"
    unfolding uncached_reads_def
  proof (intro conjI allI impI)
    fix h part assume "part_of bs h = Some part"
    then obtain i where i: "i < length bs" "h = snd (index_entry bs i)" "part = blk_entries (bs ! i)" using part_of_some by blast
    show "\<exists>d. Table_BlockReader K table None options h = Some (d, None) \<and>
        block_ptr_view (opt_comparator opts) keys (fst d) part (length part)"
      using BlockReader_uncached [OF layout(1) len table i(1), of K options] part_view [OF layout ix i(1)] i(2,3) by simp
  qed simp
  have all: "all_entries bs = concat (map blk_entries bs)" by (simp add: all_entries_def)
  show ?thesis unfolding all
  proof (rule table_levels.tl_view_end [OF indexed_index_of [OF ix data]])
    show "table_levels.sound (opt_comparator opts) keys K table (part_of bs) (index_entries bs) (length (index_entries bs))
        (Table_NewIterator table None options)"
      using reads block_ptr.iw_Set_view [OF index_view [OF layout table ix]] table
      by (simp add: table_levels.sound_def Table_NewIterator_def NewTwoLevelIterator_def opened_def)
    show "table_levels.no_part (Table_NewIterator table None options)"
      by (simp add: table_levels.no_part_def Table_NewIterator_def NewTwoLevelIterator_def IteratorWrapper_make_def)
  qed
qed

end

subsection \<open>Looking up a key\<close>

text \<open>What a lookup finds: the first entry not below the key, in the one block the index names, unless the filter excludes it.\<close>

definition lookup_entry :: "table_options \<Rightarrow> table_block list \<Rightarrow> bytes list list \<Rightarrow> bytes \<Rightarrow> (bytes \<times> bytes) option" where
  "lookup_entry opts bs fs k =
     (let i = seek_index (cmp_Compare (opt_comparator opts)) k (index_entries bs) in
      if i < length bs \<and> (case opt_filter_policy opts of None \<Rightarrow> True
          | Some p \<Rightarrow> FilterBlockReader_KeyMayMatch (FilterBlockReader_make p (filter_block_bytes p fs)) (bh_offset (block_handle_of bs i)) k)
      then let j = seek_index (cmp_Compare (opt_comparator opts)) k (blk_entries (bs ! i))
           in if j < length (blk_entries (bs ! i)) then Some (blk_entries (bs ! i) ! j) else None
      else None)"

lemma Seek_with_cleanups: "it_Seek (with_cleanups I) k (it, cs) = Some bi \<Longrightarrow> snd bi = cs"
  by (auto simp: with_cleanups_def)

context random_access_contract
begin

lemma Table_InternalGet_ok:
  assumes layout: "table_layout opts content bs fs meta index" "length content < 2 ^ 32" and table: "opened opts R bs fs index table"
    and ix: "indexed (opt_comparator opts) keys bs" and k: "keys k"
    and cache: "block_reads K table opts bs cache options Q"
  shows "\<exists>cache'. Table_InternalGet K table cache options k arg handle_result =
      Some (Status_OK, case lookup_entry opts bs fs k of None \<Rightarrow> arg | Some (k', v) \<Rightarrow> handle_result arg k' v, cache') \<and> Q cache'"
proof -
  let ?c = "opt_comparator opts" and ?B = "Block_Iterator" and ?O = "with_cleanups Block_Iterator :: block_iterator iterator"
  let ?i = "seek_index (cmp_Compare ?c) k (index_entries bs)"
  have len: "length content < 2 ^ 64" using layout(2) by simp
  note t = table [unfolded opened_def]
  have kept: "Q cache" using cache by (simp add: block_reads_def)
  obtain ii where ii: "it_Seek ?B k (Block_NewIterator (t_index_block table) (opt_comparator (t_options table))) = Some ii"
    "block_ptr_view ?c keys ii (index_entries bs) ?i"
    using block_ptr.view_Seek [OF index_view [OF layout table ix] k] t by auto
  have valid: "it_Valid ?B ii \<longleftrightarrow> ?i < length bs" using block_ptr.view_Valid [OF ii(2)] by simp
  have ok: "it_status ?B ii = Status_OK" using block_ptr.view_status [OF ii(2)] by (simp add: Status_ok_def Status_OK_def)
  show ?thesis
  proof (cases "?i < length bs")
    case False
    then show ?thesis using ii(1) valid ok kept by (auto simp: Table_InternalGet_def lookup_entry_def Let_def)
  next
    case True
    have v: "it_value ?B ii = snd (index_entry bs ?i)" using block_ptr.view_key_value(2) [OF ii(2)] True by simp
    have h: "BlockHandle_DecodeFrom BlockHandle_make (snd (index_entry bs ?i)) = (Status_OK, block_handle_of bs ?i, [])"
      using BlockHandle_round_trip [of BlockHandle_make "block_handle_of bs ?i" "[]"] by (simp add: index_entry_handle)
    let ?match = "case opt_filter_policy opts of None \<Rightarrow> True
      | Some p \<Rightarrow> FilterBlockReader_KeyMayMatch (FilterBlockReader_make p (filter_block_bytes p fs)) (bh_offset (block_handle_of bs ?i)) k"
    have flt: "(case t_filter table of None \<Rightarrow> False
        | Some flt \<Rightarrow> Status_ok Status_OK \<and> \<not> FilterBlockReader_KeyMayMatch flt (bh_offset (block_handle_of bs ?i)) k) \<longleftrightarrow> \<not> ?match"
      using t by (cases "opt_filter_policy opts") auto
    show ?thesis
    proof (cases ?match)
      case False
      then show ?thesis using ii(1) valid v h flt True ok kept by (auto simp: Table_InternalGet_def lookup_entry_def Let_def)
    next
      case match: True
      obtain cleanups read_cache cache' where r: "Table_BlockReader K table cache options (snd (index_entry bs ?i)) =
          Some ((Block_NewIterator (Block_make (blk_bytes (bs ! ?i))) ?c, cleanups), read_cache)"
        "run_cleanups (run_block_cleanup K) cleanups read_cache = Some cache'" "Q cache'"
        using cache True unfolding block_reads_def by blast
      let ?es = "blk_entries (bs ! ?i)"
      let ?j = "seek_index (cmp_Compare ?c) k ?es"
      have "block_ptr_view ?c keys (fst (Block_NewIterator (Block_make (blk_bytes (bs ! ?i))) ?c, cleanups)) ?es (length ?es)"
        using part_view [OF layout ix True] by simp
      then obtain bi where bi: "it_Seek ?O k (Block_NewIterator (Block_make (blk_bytes (bs ! ?i))) ?c, cleanups) = Some bi"
        "block_ptr_view ?c keys (fst bi) ?es ?j"
        using block_obj.view_Seek [where target = k and keys = keys and c = ?c] k by blast
      note cs = Seek_with_cleanups [OF bi(1)]
      have "it_Valid ?O bi \<longleftrightarrow> ?j < length ?es" "?j < length ?es \<Longrightarrow> (it_key ?O bi, it_value ?O bi) = ?es ! ?j"
        "it_status ?O bi = Status_OK"
        using block_obj.view_Valid [OF bi(2)] block_obj.view_entry [OF bi(2)] block_obj.view_status [OF bi(2)]
        by (auto simp: Status_ok_def Status_OK_def)
      then have out: "(if it_Valid ?O bi then handle_result arg (it_key ?O bi) (it_value ?O bi) else arg) =
          (case lookup_entry opts bs fs k of None \<Rightarrow> arg | Some (k', v) \<Rightarrow> handle_result arg k' v)" "it_status ?O bi = Status_OK"
        using True match by (auto simp: lookup_entry_def Let_def split: prod.split)
      show ?thesis
        by (intro exI [of _ cache'] conjI r(3))
           (use ii(1) valid v h flt True match ok r(1,2) bi(1) cs out in \<open>simp add: Table_InternalGet_def Let_def\<close>)
    qed
  qed
qed

end

text \<open>A key that is there is found.\<close>

lemma lookup_entry_present:
  assumes ix: "indexed (opt_comparator opts) keys bs" and e: "(k, v) \<in> set (all_entries bs)"
    and len: "length (data_part bs) < 2 ^ 64" "opt_filter_policy opts \<noteq> None \<longrightarrow> filter_knows fs bs"
    and flt: "\<forall>p. opt_filter_policy opts = Some p \<longrightarrow> filter_policy_contract p (\<lambda>_. True) \<and> length (filter_block_bytes p fs) < 2 ^ 32"
  shows "lookup_entry opts bs fs k = Some (k, v)"
proof -
  let ?c = "opt_comparator opts"
  have order: "key_order (cmp_Compare ?c) keys" using ix by (simp add: indexed_def sorted_entries_def)
  obtain i where i: "i < length bs" "(k, v) \<in> set (blk_entries (bs ! i))" using e in_all_entries by blast
  then obtain j where j: "j < length (blk_entries (bs ! i))" "blk_entries (bs ! i) ! j = (k, v)" by (auto simp: in_set_conv_nth)
  have k: "keys k" using part_sorted [OF ix i(1)] i(2) by (auto simp: sorted_entries_def)
  have key: "keys (blk_index_key (bs ! i))" using ix i(1) by (simp add: indexed_def)
  have at: "seek_index (cmp_Compare ?c) k (index_entries bs) = i"
  proof (rule seek_index_eqI)
    show "cmp_Compare ?c (fst (index_entries bs ! j)) k < 0" if "j < i" for j
      using index_below [OF ix that i] that i(1) by simp
    show "\<not> cmp_Compare ?c (fst (index_entries bs ! i)) k < 0"
      using index_above [OF ix i] i(1) key_order.compare_flip [OF order key k] by simp
  qed (use i(1) in simp)
  have inside: "seek_index (cmp_Compare ?c) k (blk_entries (bs ! i)) = j"
  proof (rule seek_index_eqI)
    note sorted = part_sorted [OF ix i(1), unfolded sorted_entries_def]
    show "cmp_Compare ?c (fst (blk_entries (bs ! i) ! m)) k < 0" if "m < j" for m
      using sorted sorted_wrt_nth_less [of _ "blk_entries (bs ! i)" m j] that j by fastforce
    show "\<not> cmp_Compare ?c (fst (blk_entries (bs ! i) ! j)) k < 0"
      using j(2) key_order.compare_refl [OF order k] by simp
  qed (use j(1) in simp)
  have match: "FilterBlockReader_KeyMayMatch (FilterBlockReader_make p (filter_block_bytes p fs)) (bh_offset (block_handle_of bs i)) k"
    if p: "opt_filter_policy opts = Some p" for p
  proof -
    have "filter_slot bs i < length fs" "k \<in> set (fs ! filter_slot bs i)" using len(2) p i by (fastforce simp: filter_knows_def)+
    moreover have "length (data_part (take i bs)) < 2 ^ 64" using data_part_less [of i "length bs" bs] i(1) len(1) by simp
    then have "unat (bh_offset (block_handle_of bs i)) div kFilterBase = filter_slot bs i"
      by (simp add: block_handle_of_def handle_at_def unat_of_nat_small filter_slot_def)
    ultimately show ?thesis using filter_policy_contract.KeyMayMatch_built flt p by blast
  qed
  show ?thesis using at inside match i(1) j by (auto simp: lookup_entry_def split: option.split)
qed

text \<open>Whatever is found is the first entry of the table that is not below the key.\<close>

lemma lookup_entry_first:
  assumes ix: "indexed (opt_comparator opts) keys bs" and k: "keys k" and found: "lookup_entry opts bs fs k = Some e"
  shows "\<exists>n < length (all_entries bs). seek_index (cmp_Compare (opt_comparator opts)) k (all_entries bs) = n \<and> all_entries bs ! n = e"
proof -
  let ?c = "opt_comparator opts"
  let ?i = "seek_index (cmp_Compare ?c) k (index_entries bs)"
  let ?es = "blk_entries (bs ! ?i)"
  let ?j = "seek_index (cmp_Compare ?c) k ?es"
  have i: "?i < length bs" and j: "?j < length ?es" and e: "e = ?es ! ?j"
    using found by (auto simp: lookup_entry_def Let_def split: if_splits)
  have order: "key_order (cmp_Compare ?c) keys" using ix by (simp add: indexed_def sorted_entries_def)
  have left: "\<forall>x \<in> set (all_entries (take ?i bs)). cmp_Compare ?c (fst x) k < 0"
  proof
    fix x assume "x \<in> set (all_entries (take ?i bs))"
    then obtain m where m: "m < ?i" "m < length bs" "x \<in> set (blk_entries (bs ! m))"
      using i by (auto simp: in_all_entries)
    have "cmp_Compare ?c (fst (index_entries bs ! m)) k < 0"
      using nth_mem [of m "takeWhile (\<lambda>e. cmp_Compare ?c (fst e) k < 0) (index_entries bs)"] m(1)
      by (auto simp: seek_index_def takeWhile_nth dest: set_takeWhileD)
    then have "cmp_Compare ?c (blk_index_key (bs ! m)) k < 0" using m(2) by simp
    moreover have "keys (fst x)" using part_sorted [OF ix m(2)] m(3) by (auto simp: sorted_entries_def)
    moreover have "keys (blk_index_key (bs ! m))" using ix m(2) by (simp add: indexed_def)
    ultimately show "cmp_Compare ?c (fst x) k < 0"
      using key_order.compare_le_less_trans [OF order _ _ k] index_above [OF ix m(2,3)] by blast
  qed
  have stop: "\<not> cmp_Compare ?c (fst (?es ! ?j)) k < 0"
    using j nth_length_takeWhile [of "\<lambda>e. cmp_Compare ?c (fst e) k < 0" ?es] by (simp add: seek_index_def)
  have split: "all_entries bs = all_entries (take ?i bs) @ ?es @ all_entries (drop (Suc ?i) bs)" by (rule all_entries_split [OF i])
  have "takeWhile (\<lambda>e. cmp_Compare ?c (fst e) k < 0) (?es @ ys) = takeWhile (\<lambda>e. cmp_Compare ?c (fst e) k < 0) ?es" for ys
    by (rule takeWhile_append1 [of "?es ! ?j"]) (use j stop in auto)
  then have "seek_index (cmp_Compare ?c) k (all_entries bs) = length (all_entries (take ?i bs)) + ?j"
    by (subst split, subst seek_index_append [where compare = "cmp_Compare ?c" and target = k, OF left]) (simp add: seek_index_def)
  moreover have "all_entries bs ! (length (all_entries (take ?i bs)) + ?j) = e"
    by (subst split) (simp add: nth_append j e)
  moreover have "length (all_entries (take ?i bs)) + ?j < length (all_entries bs)"
    using arg_cong [OF split, of length] j by simp
  ultimately show ?thesis by blast
qed

end
