(* ===== verification/Table_Correct.thy ===== *)
theory Table_Correct
  imports Table_Reads
begin

text \<open>
  The table writer and reader together: a table that was built without an error, opened on any file
  with the bytes written, gives back its entries; lookups through the filter and the block cache;
  approximate offsets.
\<close>

text \<open>\<open>state\<close>: what is known of the cache, if there is one, of the handles given out and of the contents.\<close>

definition cache_serves :: "('c \<Rightarrow> (addr \<times> block) multiset \<Rightarrow> (bytes \<rightharpoonup> block) \<Rightarrow> bool) \<Rightarrow> table_block list \<Rightarrow> table \<Rightarrow> 'c option \<Rightarrow> bool" where
  "cache_serves state bs table cache \<longleftrightarrow> (\<forall>c. cache = Some c \<longrightarrow> (\<exists>outs m. state c outs m \<and> cache_agrees bs table m))"

text \<open>Exactly the handles \<open>outs\<close> are given out, and the counters leave room for \<open>n\<close> more lookups.\<close>

definition cache_budget :: "('c \<Rightarrow> (addr \<times> block) multiset \<Rightarrow> (bytes \<rightharpoonup> block) \<Rightarrow> bool) \<Rightarrow> ('c \<Rightarrow> nat) \<Rightarrow> (addr \<times> block) multiset \<Rightarrow> nat \<Rightarrow>
    'c \<Rightarrow> (addr \<times> block) multiset \<Rightarrow> (bytes \<rightharpoonup> block) \<Rightarrow> bool" where
  "cache_budget run load outs n c lent m \<longleftrightarrow> lent = outs \<and> run c outs m \<and> size outs + load c + n + 3 < 2 ^ 31"

text \<open>An open table that holds the entries \<open>es\<close>; the cache, if there is one, is a run of the cache interface.\<close>

definition table_serves :: "('c \<Rightarrow> (addr \<times> block) multiset \<Rightarrow> (bytes \<rightharpoonup> block) \<Rightarrow> bool) \<Rightarrow> (bytes \<Rightarrow> bool) \<Rightarrow>
    (bytes \<times> bytes) list \<Rightarrow> table \<Rightarrow> 'c option \<Rightarrow> bool" where
  "table_serves state keys es table cache \<longleftrightarrow> (\<exists>content bs fs meta index.
     random_access_contract (t_file table) content \<and> length content < 2 ^ 32 \<and>
     table_layout (t_options table) content bs fs meta index \<and> opened (t_options table) (t_file table) bs fs index table \<and>
     indexed (opt_comparator (t_options table)) keys bs \<and> all_entries bs = es \<and> cache_serves state bs table cache)"

text \<open>A cache serves a table from the start: nothing is stored under its fresh id.\<close>

definition cache_fresh :: "('c \<Rightarrow> (addr \<times> block) multiset \<Rightarrow> (bytes \<rightharpoonup> block) \<Rightarrow> bool) \<Rightarrow> table \<Rightarrow> 'c option \<Rightarrow> bool" where
  "cache_fresh run table cache \<longleftrightarrow> (\<forall>c. cache = Some c \<longrightarrow> (\<exists>outs m. run c outs m \<and> (\<forall>h. m (block_cache_key table h) = None)))"

lemma cache_fresh_serves: "cache_fresh run table cache \<Longrightarrow> cache_serves run bs table cache"
  unfolding cache_fresh_def cache_serves_def cache_agrees_def by (metis option.distinct(1))

lemma built_table_opens:
  assumes "writable_file_contract W valid written flushed" "comparator_contract c keys" "valid f" "written f = []"
    and opts: "opt_comparator opts = c" "0 < opt_block_restart_interval opts"
    and es: "sorted_wrt (\<lambda>a b. cmp_Compare c (fst a) (fst b) < 0) es" "\<forall>e \<in> set es. keys (fst e)"
    and built: "build_table W opts f es = Some (Status_OK, r)"
    and reads: "random_access_contract R (written (tb_file r))" "length (written (tb_file r)) < 2 ^ 32"
  shows "\<exists>table bs fs meta index. Table_Open K opts cache R (word_of_nat (length (written (tb_file r)))) =
      Some ((Status_OK, Some table), map_option (snd \<circ> ca_NewId K) cache) \<and>
    table_layout opts (written (tb_file r)) bs fs meta index \<and> opened opts R bs fs index table \<and>
    indexed (opt_comparator opts) keys bs \<and> all_entries bs = es"
proof -
  have tb: "table_building W valid written flushed c keys" using assms(1,2) by (rule table_building.intro)
  have "length (written (tb_file r)) < 2 ^ 64" using reads(2) by simp
  with table_building.build_table_ok [OF tb assms(3,4) opts es] built
  obtain bs fs meta index where t: "table_layout opts (written (tb_file r)) bs fs meta index" "all_entries bs = es"
    "\<forall>i < length bs. keys (blk_index_key (bs ! i)) \<and> index_separates c bs i []" by auto
  have order: "key_order (cmp_Compare c) keys" using assms(2) by (simp add: comparator_contract_def)
  have "indexed (opt_comparator opts) keys bs"
    using t es order opts(1) by (auto simp: indexed_def sorted_entries_def table_layout_def)
  moreover obtain table where "Table_Open K opts cache R (word_of_nat (length (written (tb_file r)))) =
      Some ((Status_OK, Some table), map_option (snd \<circ> ca_NewId K) cache)" "opened opts R bs fs index table"
    using random_access_contract.Table_Open_ok [OF reads(1) t(1) reads(2)] by blast
  ultimately show ?thesis using t(1,2) by blast
qed

lemma opened_table_serves:
  assumes "random_access_contract R content" "length content < 2 ^ 32" "table_layout opts content bs fs meta index"
    and "opened opts R bs fs index table" "indexed (opt_comparator opts) keys bs" "cache_fresh run table cache"
  shows "table_serves run keys (all_entries bs) table cache"
proof -
  have "t_options table = opts" "t_file table = R" using assms(4) by (simp_all add: opened_def)
  with assms cache_fresh_serves [OF assms(6)] show ?thesis unfolding table_serves_def by blast
qed

subsection \<open>A small table in memory\<close>

definition small_options :: table_options where
  "small_options = \<lparr>opt_comparator = BytewiseComparator, opt_block_size = 4096, opt_block_restart_interval = 16,
     opt_compression = SnappyCompression, opt_filter_policy = None, opt_paranoid_checks = True\<rparr>"

definition small_file :: "posix_writable_file \<times> mem_state" where
  "small_file = (PosixWritableFile_make [97] 3, \<lparr>ms_disk = (\<lambda>_. []), ms_rest = (\<lambda>_. []), ms_faults = []\<rparr>)"

definition small_entries :: "(bytes \<times> bytes) list" where
  "small_entries = [([97], [1]), ([98], [2])]"

lemma mem_append_ok: "length (pwf_buf this) + length data \<le> kWritableFileBufferSize \<Longrightarrow>
  wf_Append (PosixWritableFile mem_kernel) (this, k) data = Some (Status_OK, this\<lparr>pwf_buf := pwf_buf this @ data\<rparr>, k)"
  by (cases "data = []") (auto simp: PosixWritableFile_def PosixWritableFile_Append_def Let_def min_def)

lemma mem_flush_ok: "ms_faults k = [] \<Longrightarrow> wf_Flush (PosixWritableFile mem_kernel) (this, k) =
  Some (Status_OK, this\<lparr>pwf_buf := []\<rparr>, k\<lparr>ms_disk := (ms_disk k)(pwf_fd this := ms_disk k (pwf_fd this) @ pwf_buf this)\<rparr>)"
  by (cases k; cases "pwf_buf this = []")
     (simp_all add: PosixWritableFile_def PosixWritableFile_Flush_def FlushBuffer_def Let_def mem_kernel_def WriteUnbuffered.simps mem_call_def)

lemma mem_WriteRawBlock:
  "tb_file r = (this, k) \<Longrightarrow> length (pwf_buf this) + length contents + 5 \<le> kWritableFileBufferSize \<Longrightarrow>
   TableBuilder_WriteRawBlock (PosixWritableFile mem_kernel) contents kNoCompression r =
     Some (\<lparr>bh_offset = tb_offset r, bh_size = word_of_nat (length contents)\<rparr>,
       r\<lparr>tb_file := (this\<lparr>pwf_buf := pwf_buf this @ raw_block contents kNoCompression\<rparr>, k), tb_status := Status_OK,
         tb_offset := tb_offset r + word_of_nat (length contents + 5)\<rparr>)"
  by (simp add: TableBuilder_WriteRawBlock_def Let_def mem_append_ok kBlockTrailerSize_def raw_block_def Value_def flip: Extend_append)

lemma mem_WriteBlock:
  assumes "tb_file r = (this, k)" "length (pwf_buf this) + length (fst (BlockBuilder_Finish b)) + 5 \<le> kWritableFileBufferSize"
  shows "TableBuilder_WriteBlock (PosixWritableFile mem_kernel) b r =
     Some (\<lparr>bh_offset = tb_offset r, bh_size = word_of_nat (length (fst (BlockBuilder_Finish b)))\<rparr>, BlockBuilder_make,
       r\<lparr>tb_file := (this\<lparr>pwf_buf := pwf_buf this @ raw_block (fst (BlockBuilder_Finish b)) kNoCompression\<rparr>, k), tb_status := Status_OK,
         tb_offset := tb_offset r + word_of_nat (length (fst (BlockBuilder_Finish b)) + 5)\<rparr>)"
  using assms mem_WriteRawBlock [OF assms(1), of "fst (BlockBuilder_Finish b)"]
  by (cases "BlockBuilder_Finish b"; cases "opt_compression (tb_options r)") (simp_all add: TableBuilder_WriteBlock_def Snappy_Compress_def BlockBuilder_Reset_make)

lemmas small_defs = small_options_def small_file_def small_entries_def TableBuilder_make_def BlockBuilder_make_def
  BlockBuilder_Add_def PutVarint32_def EncodeVarint32_def PutFixed32_def resize_def Let_def BytewiseComparator_sel

lemma small_entries_added:
  "add_entries (PosixWritableFile mem_kernel) small_entries (TableBuilder_make small_options small_file) =
     Some ((TableBuilder_make small_options small_file)\<lparr>
       tb_data_block := \<lparr>bb_buffer = [0, 1, 1, 97, 1, 0, 1, 1, 98, 2], bb_restarts = [0], bb_counter = 2, bb_finished = False,
         bb_last_key = [98]\<rparr>, tb_last_key := [98], tb_num_entries := 2\<rparr>)"
  by (simp add: small_defs TableBuilder_Add_def BlockBuilder_CurrentSizeEstimate_def)

lemma small_varints: "EncodeVarint64 0 = [0]" "EncodeVarint64 18 = [18]"
  by (subst EncodeVarint64.simps, simp)+

lemma length_Footer: "length (Footer_EncodeTo ft []) = 48"
  using Footer_bytes [of ft] by (auto simp: Footer_kEncodedLength_def BlockHandle_kMaxEncodedLength_def)

lemma small_table:
  "\<exists>r. build_table (PosixWritableFile mem_kernel) small_options small_file small_entries = Some (Status_OK, r) \<and>
     length (mem.posix_written (tb_file r)) < 2 ^ 32"
  unfolding build_table_def small_entries_added
  by (simp add: small_defs TableBuilder_Finish_def TableBuilder_Flush_def mem_WriteBlock mem_flush_ok mem_append_ok
      BlockBuilder_Finish_def Finish_filter_block_def Finish_metaindex_block_def Finish_index_block_def Finish_footer_def
      BlockBuilder_empty_def kWritableFileBufferSize_def PosixWritableFile_make_def small_varints length_Footer kBlockTrailerSize_def
      BytewiseComparator_FindShortSuccessor_def BlockHandle_EncodeTo_def PutVarint64_def mem.posix_written_def mem.posix_flushed_def)

subsection \<open>Approximate offsets\<close>

definition approximate_offset :: "table_options \<Rightarrow> table_block list \<Rightarrow> bytes list list \<Rightarrow> bytes \<Rightarrow> nat" where
  "approximate_offset opts bs fs k = (let i = seek_index (cmp_Compare (opt_comparator opts)) k (index_entries bs) in
     if i < length bs then length (data_part (take i bs)) else length (data_part bs @ filter_part opts fs))"

lemma Table_ApproximateOffsetOf_ok:
  assumes "random_access_contract R content" "table_layout opts content bs fs meta index" "length content < 2 ^ 32"
    and table: "opened opts R bs fs index table" and ix: "indexed (opt_comparator opts) keys bs" and k: "keys k"
  shows "Table_ApproximateOffsetOf table k = Some (word_of_nat (approximate_offset opts bs fs k))"
proof -
  let ?c = "opt_comparator opts"
  let ?i = "seek_index (cmp_Compare ?c) k (index_entries bs)"
  obtain ii where ii: "it_Seek Block_Iterator k (Block_NewIterator (t_index_block table) ?c) = Some ii"
    "block_ptr_view ?c keys ii (index_entries bs) ?i"
    using block_ptr.view_Seek [OF random_access_contract.index_view [OF assms(1-3) table ix] k] by blast
  have valid: "it_Valid Block_Iterator ii \<longleftrightarrow> ?i < length bs" using block_ptr.view_Valid [OF ii(2)] by simp
  have v: "it_value Block_Iterator ii = BlockHandle_EncodeTo (block_handle_of bs ?i) []" if "?i < length bs"
    using block_ptr.view_key_value(2) [OF ii(2)] that by (simp add: index_entry_handle)
  show ?thesis
  proof (cases "?i < length bs")
    case True
    with ii(1) valid v table BlockHandle_round_trip [of BlockHandle_make "block_handle_of bs ?i" "[]"] show ?thesis
      by (simp add: Table_ApproximateOffsetOf_def approximate_offset_def opened_def block_handle_of_def handle_at_def)
  next
    case False
    with ii(1) valid table show ?thesis by (simp add: Table_ApproximateOffsetOf_def approximate_offset_def opened_def)
  qed
qed

lemma table_layout_sizes:
  assumes "table_layout opts content bs fs meta index"
  shows "length (data_part bs) \<le> length content" "opt_filter_policy opts \<noteq> None \<longrightarrow> filter_knows fs bs"
    "opt_filter_policy opts = Some p \<Longrightarrow> length (filter_block_bytes p fs) \<le> length content"
    "length (data_part bs @ filter_part opts fs) \<le> length content"
  using assms by (auto simp: table_layout_def Let_def filter_part_def)

lemma seek_index_mono:
  assumes "key_order compare keys" "keys a" "keys b" "compare a b \<le> 0" "\<forall>e \<in> set es. keys (fst e)"
  shows "seek_index compare a es \<le> seek_index compare b es"
  using assms(5)
proof (induction es)
  case (Cons e es)
  then show ?case using key_order.compare_less_le_trans [OF assms(1) _ assms(2,3) _ assms(4), of "fst e"] by (auto simp: seek_index_def)
qed (simp add: seek_index_def)

lemma approximate_offset_mono:
  assumes "indexed (opt_comparator opts) keys bs" "keys a" "keys b" "cmp_Compare (opt_comparator opts) a b \<le> 0"
  shows "approximate_offset opts bs fs a \<le> approximate_offset opts bs fs b"
proof -
  let ?i = "\<lambda>k. seek_index (cmp_Compare (opt_comparator opts)) k (index_entries bs)"
  have "?i a \<le> ?i b"
    using seek_index_mono [where compare = "cmp_Compare (opt_comparator opts)" and keys = keys and a = a and b = b] assms(2-4) index_sorted [OF assms(1)] by (simp add: sorted_entries_def)
  moreover have "length (data_part (take (?i a) bs)) \<le> length (data_part (take (?i b) bs))" if "?i a < ?i b" "?i b < length bs"
    using data_part_less [of "?i a" "?i b" bs] that by simp
  moreover have "length (data_part (take (?i a) bs)) \<le> length (data_part bs)" if "?i a < length bs"
    using data_part_less [of "?i a" "length bs" bs] that by simp
  ultimately show ?thesis unfolding approximate_offset_def Let_def by (cases "?i a = ?i b") auto
qed

subsection \<open>The block cache over a lookup\<close>

lemma table_block_reads:
  assumes K: "roomy_cache K run room load ids" and R: "random_access_contract (t_file table) content"
    and l: "table_layout (t_options table) content bs fs meta index" "length content < 2 ^ 32"
    "opened (t_options table) (t_file table) bs fs index table" "cache_serves (cache_budget run load outs (Suc n)) bs table cache"
  shows "\<exists>Q. block_reads K table (t_options table) bs cache options Q \<and>
    (\<forall>cache'. Q cache' \<longrightarrow> cache_serves (cache_budget run load outs n) bs table cache' \<and> (cache' = None \<longleftrightarrow> cache = None))"
proof -
  have len: "length content < 2 ^ 64" using l(2) by simp
  show ?thesis
  proof (cases cache)
    case None
    with random_access_contract.block_reads_uncached [OF R l(1) len l(3), of K options] show ?thesis
      by (intro exI [of _ "\<lambda>cache. cache = None"]) (simp add: cache_serves_def)
  next
    case (Some c)
    then obtain m where m: "run c outs m" "size outs + load c + Suc n + 3 < 2 ^ 31" "cache_agrees bs table m"
      using l(4) by (auto simp: cache_serves_def cache_budget_def)
    have "length (data_part bs) < 2 ^ 64" using table_layout_sizes(1) [OF l(1)] len by simp
    note keeps = cache_agrees_keeps [OF this, of table]
    have room: "size outs + load c + 3 < 2 ^ 31" using m(2) by simp
    let ?Q = "\<lambda>cache'. \<exists>c' m'. cache' = Some c' \<and> run c' outs m' \<and> cache_agrees bs table m' \<and> load c' \<le> load c + 1 \<and> ids c' = ids c"
    have "block_reads K table (t_options table) bs cache options ?Q"
      using random_access_contract.block_reads_cached [OF R l(1) len l(3) K m(1) room keeps m(3)] Some by simp
    moreover have "cache_serves (cache_budget run load outs n) bs table cache' \<and> (cache' = None \<longleftrightarrow> cache = None)" if "?Q cache'" for cache'
      using that m(2) Some by (auto simp: cache_serves_def cache_budget_def)
    ultimately show ?thesis by blast
  qed
qed

subsection \<open>Properties\<close>

text \<open>
  C1: a table gives back what was put into it.  When a builder has been given entries in strictly
  ascending key order and every call reported success, then opening any file that reads like the
  bytes written succeeds, and the iterator of the table reads exactly the entries forwards from
  \<open>SeekToFirst\<close>, backwards from \<open>SeekToLast\<close>, and from the first key not below any target.
\<close>

theorem table_round_trip:
  assumes "writable_file_contract W valid written flushed" "comparator_contract c keys" "valid f" "written f = []"
    and "opt_comparator opts = c" "0 < opt_block_restart_interval opts"
    and "sorted_wrt (\<lambda>a b. cmp_Compare c (fst a) (fst b) < 0) es" "\<forall>e \<in> set es. keys (fst e)"
    and "build_table W opts f es = Some (Status_OK, r)"
    and "random_access_contract R (written (tb_file r))" "length (written (tb_file r)) < 2 ^ 32" "keys target"
  shows "\<exists>table. Table_Open K opts None R (word_of_nat (length (written (tb_file r)))) = Some ((Status_OK, Some table), None) \<and>
    (let I = Table_Iterator K table; it = Table_NewIterator table None options in
      (\<exists>it'. it_SeekToFirst I it = Some it' \<and> scan I it' = Some es) \<and>
      (\<exists>it'. it_SeekToLast I it = Some it' \<and> scan_back I it' = Some (rev es)) \<and>
      (\<exists>it'. it_Seek I target it = Some it' \<and> scan I it' = Some (dropWhile (\<lambda>e. cmp_Compare c (fst e) target < 0) es)))"
proof -
  obtain table bs fs meta index where
    t: "Table_Open K opts None R (word_of_nat (length (written (tb_file r)))) = Some ((Status_OK, Some table), None)"
    and l: "table_layout opts (written (tb_file r)) bs fs meta index" "opened opts R bs fs index table"
    "indexed (opt_comparator opts) keys bs" "all_entries bs = es"
    using built_table_opens [OF assms(1-11), of K None] by auto
  from random_access_contract.Table_NewIterator_view [OF assms(10) l(1) assms(11) l(2,3), of K options]
  have "table_levels.tl_view c keys K table (Table_NewIterator table None options) es (length es)"
    by (simp add: l(4) assms(5))
  from table_iterator.reads_all [OF this assms(12)] t show ?thesis by (simp add: Let_def)
qed

theorem table_round_trip_witness:
  "\<exists>r table it. build_table (PosixWritableFile mem_kernel) small_options small_file small_entries = Some (Status_OK, r) \<and>
     Table_Open ShardedLRUCache small_options None (PosixMmapReadableFile (mem.posix_written (tb_file r)) [] [])
       (word_of_nat (length (mem.posix_written (tb_file r)))) = Some ((Status_OK, Some table), None) \<and>
     it_Seek (Table_Iterator ShardedLRUCache table) [97, 1] (Table_NewIterator table None \<lparr>ro_verify_checksums = True, ro_fill_cache = True\<rparr>) = Some it \<and>
     scan (Table_Iterator ShardedLRUCache table) it = Some [([98], [2])]"
proof -
  let ?W = "PosixWritableFile mem_kernel" and ?opts = "\<lparr>ro_verify_checksums = True, ro_fill_cache = True\<rparr>"
  obtain r where r: "build_table ?W small_options small_file small_entries = Some (Status_OK, r)"
    "length (mem.posix_written (tb_file r)) < 2 ^ 32" using small_table by blast
  have "mem.posix_valid 3 small_file" "mem.posix_written small_file = []"
    by (simp_all add: small_file_def PosixWritableFile_make_def mem.posix_defs)
  moreover have "sorted_wrt (\<lambda>a b. cmp_Compare BytewiseComparator (fst a) (fst b) < 0) small_entries"
    by (simp add: small_entries_def BytewiseComparator_sel BytewiseComparator_Compare_lex)
  moreover have "dropWhile (\<lambda>e. cmp_Compare BytewiseComparator (fst e) [97, 1] < 0) small_entries = [([98], [2])]"
    by (simp add: small_entries_def BytewiseComparator_sel BytewiseComparator_Compare_lex)
  ultimately show ?thesis
    using table_round_trip [OF mem.writable.writable_file_contract_axioms [of 3] bytewise.comparator_contract_axioms _ _ _ _ _ _ r(1)
        mmap.random_access_contract_axioms [of _ "[]" "[]"] r(2), where target = "[97, 1]" and K = ShardedLRUCache and options = ?opts] r(1)
    by (auto simp: Let_def small_options_def)
qed

text \<open>
  C2: a lookup through the filter and the block cache finds what is there and leaves the cache as it needs to be.  On an open
  table, with no cache or with one in which the handles \<open>outs\<close> are given out and there is room for a lookup, \<open>InternalGet\<close>
  returns OK; it hands a stored key and its value to the handler, whatever the filter policy and the cache do; it hands on
  nothing else than the first entry at or after the key; and when it returns every handle it took from the cache has
  been given back, the blocks in the cache are those of the table, and there is room for one lookup less.
\<close>

theorem table_get_finds:
  assumes "roomy_cache K run room load ids" "table_serves (cache_budget run load outs (Suc n)) keys es table cache" "keys k"
    and "\<forall>p. opt_filter_policy (t_options table) = Some p \<longrightarrow> filter_policy_contract p (\<lambda>_. True)"
  shows "\<exists>arg' cache'. Table_InternalGet K table cache options k arg handle_result = Some (Status_OK, arg', cache') \<and>
    table_serves (cache_budget run load outs n) keys es table cache' \<and> (cache' = None \<longleftrightarrow> cache = None) \<and>
    (\<forall>v. (k, v) \<in> set es \<longrightarrow> arg' = handle_result arg k v) \<and>
    (arg' = arg \<or> (\<exists>j < length es. seek_index (cmp_Compare (opt_comparator (t_options table))) k es = j \<and>
       arg' = handle_result arg (fst (es ! j)) (snd (es ! j))))"
proof -
  let ?opts = "t_options table"
  obtain content bs fs meta index where R: "random_access_contract (t_file table) content" "length content < 2 ^ 32"
    and l: "table_layout ?opts content bs fs meta index" "opened ?opts (t_file table) bs fs index table"
    "indexed (opt_comparator ?opts) keys bs" "all_entries bs = es" "cache_serves (cache_budget run load outs (Suc n)) bs table cache"
    using assms(2) by (auto simp: table_serves_def)
  let ?found = "lookup_entry ?opts bs fs k"
  obtain Q where reads: "block_reads K table ?opts bs cache options Q"
    and Q: "\<forall>cache'. Q cache' \<longrightarrow> cache_serves (cache_budget run load outs n) bs table cache' \<and> (cache' = None \<longleftrightarrow> cache = None)"
    using table_block_reads [OF assms(1) R(1) l(1) R(2) l(2,5), of options] by (elim exE conjE)
  obtain cache' where get: "Table_InternalGet K table cache options k arg handle_result =
      Some (Status_OK, case ?found of None \<Rightarrow> arg | Some (k', v) \<Rightarrow> handle_result arg k' v, cache')" "Q cache'"
    using random_access_contract.Table_InternalGet_ok [OF R(1) l(1) R(2) l(2,3) assms(3) reads, where arg = arg and handle_result = handle_result]
    by (elim exE conjE)
  have "length (data_part bs) < 2 ^ 64" "opt_filter_policy ?opts \<noteq> None \<longrightarrow> filter_knows fs bs"
    "\<forall>p. opt_filter_policy ?opts = Some p \<longrightarrow> filter_policy_contract p (\<lambda>_. True) \<and> length (filter_block_bytes p fs) < 2 ^ 32"
    using table_layout_sizes [OF l(1)] R(2) assms(4) by (auto intro: order_le_less_trans)
  then have present: "?found = Some (k, v)" if "(k, v) \<in> set es" for v
    using lookup_entry_present [OF l(3)] that l(4) by blast
  have first: "\<exists>n < length es. seek_index (cmp_Compare (opt_comparator ?opts)) k es = n \<and> es ! n = e" if "?found = Some e" for e
    using lookup_entry_first [OF l(3) assms(3) that] l(4) by simp
  let ?arg = "case ?found of None \<Rightarrow> arg | Some (k', v) \<Rightarrow> handle_result arg k' v"
  have "table_serves (cache_budget run load outs n) keys es table cache'" "cache' = None \<longleftrightarrow> cache = None"
    unfolding table_serves_def using R l(1-4) Q [rule_format, OF get(2)] by blast+
  moreover have "?arg = handle_result arg k v" if "(k, v) \<in> set es" for v using present [OF that] by simp
  moreover have "?arg = arg \<or> (\<exists>n < length es. seek_index (cmp_Compare (opt_comparator ?opts)) k es = n \<and>
      ?arg = handle_result arg (fst (es ! n)) (snd (es ! n)))"
  proof (cases ?found)
    case (Some e)
    with first [OF Some] show ?thesis by (auto simp: case_prod_beta)
  qed simp
  ultimately show ?thesis using get(1) by blast
qed

lemma small_table_serves:
  "\<exists>r table S. build_table (PosixWritableFile mem_kernel) small_options small_file small_entries = Some (Status_OK, r) \<and>
     Table_Open ShardedLRUCache small_options (ShardedLRUCache_make 160) (PosixMmapReadableFile (mem.posix_written (tb_file r)) [] [])
       (word_of_nat (length (mem.posix_written (tb_file r)))) = Some ((Status_OK, Some table), Some S) \<and>
     t_options table = small_options \<and> table_serves (cache_budget cache_run live_entries {#} 1) (\<lambda>_. True) small_entries table (Some S)"
proof -
  let ?W = "PosixWritableFile mem_kernel"
  obtain r where r: "build_table ?W small_options small_file small_entries = Some (Status_OK, r)"
    "length (mem.posix_written (tb_file r)) < 2 ^ 32" using small_table by blast
  let ?R = "PosixMmapReadableFile (mem.posix_written (tb_file r)) [] []"
  obtain S0 :: "block sharded_cache" where S: "ShardedLRUCache_make 160 = Some S0" "run_ok S0 {#} Map.empty (\<lambda>_. {})"
    using make_run by blast
  let ?S = "snd (ca_NewId ShardedLRUCache S0)"
  have "live_entries S0 = 0" using S(2) by (simp add: live_entries_def run_ok_def sharded_ok_def)
  then have "live_entries ?S = 0" by (simp add: live_entries_def ShardedLRUCache_def Cache_NewId_def)
  moreover have "cache_run ?S {#} Map.empty" using lru_cache.new_id [OF cache_run.make [OF S(1)]] .
  ultimately have fresh: "cache_fresh (cache_budget cache_run live_entries {#} 1) table (Some ?S)" for table
    unfolding cache_fresh_def cache_budget_def by fastforce
  have "mem.posix_valid 3 small_file" "mem.posix_written small_file = []"
    by (simp_all add: small_file_def PosixWritableFile_make_def mem.posix_defs)
  moreover have "sorted_wrt (\<lambda>a b. cmp_Compare BytewiseComparator (fst a) (fst b) < 0) small_entries"
    by (simp add: small_entries_def BytewiseComparator_sel BytewiseComparator_Compare_lex)
  ultimately obtain table bs fs meta index where
    t: "Table_Open ShardedLRUCache small_options (Some S0) ?R (word_of_nat (length (mem.posix_written (tb_file r)))) =
      Some ((Status_OK, Some table), Some ?S)"
    and l: "table_layout small_options (mem.posix_written (tb_file r)) bs fs meta index" "opened small_options ?R bs fs index table"
    "indexed (opt_comparator small_options) (\<lambda>_. True) bs" "all_entries bs = small_entries"
    using built_table_opens [OF mem.writable.writable_file_contract_axioms [of 3] bytewise.comparator_contract_axioms _ _ _ _ _ _ r(1)
        mmap.random_access_contract_axioms [of _ "[]" "[]"] r(2), of ShardedLRUCache "Some S0"]
    by (auto simp: small_options_def)
  have "table_serves (cache_budget cache_run live_entries {#} 1) (\<lambda>_. True) small_entries table (Some ?S)"
    using opened_table_serves [OF mmap.random_access_contract_axioms [of _ "[]" "[]"] r(2) l(1,2,3) fresh] l(4) by simp
  moreover have "t_options table = small_options" using l(2) by (simp add: opened_def)
  ultimately show ?thesis using r(1) t S(1) by auto
qed

theorem table_get_finds_witness:
  "\<exists>r table S S'. build_table (PosixWritableFile mem_kernel) small_options small_file small_entries = Some (Status_OK, r) \<and>
     Table_Open ShardedLRUCache small_options (ShardedLRUCache_make 160) (PosixMmapReadableFile (mem.posix_written (tb_file r)) [] [])
       (word_of_nat (length (mem.posix_written (tb_file r)))) = Some ((Status_OK, Some table), Some S) \<and>
     Table_InternalGet ShardedLRUCache table (Some S) \<lparr>ro_verify_checksums = True, ro_fill_cache = True\<rparr> [98] []
       (\<lambda>arg k v. (k, v) # arg) = Some (Status_OK, [([98], [2])], Some S') \<and>
     table_serves (cache_budget cache_run live_entries {#} 0) (\<lambda>_. True) small_entries table (Some S')"
proof -
  obtain r table and S :: "block sharded_cache" where
    t: "build_table (PosixWritableFile mem_kernel) small_options small_file small_entries = Some (Status_OK, r)"
      "Table_Open ShardedLRUCache small_options (ShardedLRUCache_make 160) (PosixMmapReadableFile (mem.posix_written (tb_file r)) [] [])
        (word_of_nat (length (mem.posix_written (tb_file r)))) = Some ((Status_OK, Some table), Some S)"
      "t_options table = small_options" "table_serves (cache_budget cache_run live_entries {#} 1) (\<lambda>_. True) small_entries table (Some S)"
    using small_table_serves by blast
  have e: "([98], [2]) \<in> set small_entries" by (simp add: small_entries_def)
  have "\<forall>p. opt_filter_policy (t_options table) = Some p \<longrightarrow> filter_policy_contract p (\<lambda>_. True)"
    using t(3) by (simp add: small_options_def)
  from table_get_finds [OF roomy_lru.roomy_cache_axioms t(4) [unfolded One_nat_def] TrueI this,
      of "\<lparr>ro_verify_checksums = True, ro_fill_cache = True\<rparr>" "[98]" "[]" "\<lambda>arg k v. (k, v) # arg"] e
  obtain S' where "Table_InternalGet ShardedLRUCache table (Some S) \<lparr>ro_verify_checksums = True, ro_fill_cache = True\<rparr> [98] []
       (\<lambda>arg k v. (k, v) # arg) = Some (Status_OK, [([98], [2])], Some S')"
    "table_serves (cache_budget cache_run live_entries {#} 0) (\<lambda>_. True) small_entries table (Some S')" by fastforce
  with t(1,2) show ?thesis by blast
qed

text \<open>
  Approximate offsets respect the order of keys: they are defined for every key and never
  decrease as the key grows, so the size computed for a range is not negative.
\<close>

lemma approximate_offsets_monotone:
  assumes "table_serves state keys es table cache" "keys a" "keys b" "cmp_Compare (opt_comparator (t_options table)) a b \<le> 0"
  shows "\<exists>m n. Table_ApproximateOffsetOf table a = Some m \<and> Table_ApproximateOffsetOf table b = Some n \<and> m \<le> n"
proof -
  let ?opts = "t_options table"
  obtain content bs fs meta index where R: "random_access_contract (t_file table) content" "length content < 2 ^ 32"
    and l: "table_layout ?opts content bs fs meta index" "opened ?opts (t_file table) bs fs index table"
    "indexed (opt_comparator ?opts) keys bs"
    using assms(1) by (auto simp: table_serves_def)
  let ?off = "\<lambda>k. approximate_offset ?opts bs fs k"
  have "length (data_part (take i bs)) \<le> length (data_part bs)" if "i < length bs" for i
    using data_part_less [of i "length bs" bs] that by simp
  moreover have "length (data_part bs @ filter_part ?opts fs) \<le> length content"
    by (rule table_layout_sizes(4) [OF l(1)])
  ultimately have small: "?off k < 2 ^ 64" for k
    using R(2) by (fastforce simp: approximate_offset_def Let_def)
  have "(word_of_nat (?off a) :: u64) \<le> word_of_nat (?off b)"
    using approximate_offset_mono [OF l(3) assms(2-4), of fs] small
    by (simp add: word_le_nat_alt unat_of_nat_small)
  then show ?thesis
    using Table_ApproximateOffsetOf_ok [OF R(1) l(1) R(2) l(2,3)] assms(2,3) by blast
qed

lemma approximate_offsets_monotone_witness:
  "\<exists>r table S m n. build_table (PosixWritableFile mem_kernel) small_options small_file small_entries = Some (Status_OK, r) \<and>
     Table_Open ShardedLRUCache small_options (ShardedLRUCache_make 160) (PosixMmapReadableFile (mem.posix_written (tb_file r)) [] [])
       (word_of_nat (length (mem.posix_written (tb_file r)))) = Some ((Status_OK, Some table), Some S) \<and>
     Table_ApproximateOffsetOf table [97] = Some m \<and> Table_ApproximateOffsetOf table [105] = Some n \<and> m \<le> n"
proof -
  obtain r table and S :: "block sharded_cache" where
    t: "build_table (PosixWritableFile mem_kernel) small_options small_file small_entries = Some (Status_OK, r)"
      "Table_Open ShardedLRUCache small_options (ShardedLRUCache_make 160) (PosixMmapReadableFile (mem.posix_written (tb_file r)) [] [])
        (word_of_nat (length (mem.posix_written (tb_file r)))) = Some ((Status_OK, Some table), Some S)"
      "t_options table = small_options" "table_serves (cache_budget cache_run live_entries {#} 1) (\<lambda>_. True) small_entries table (Some S)"
    using small_table_serves by blast
  have "cmp_Compare (opt_comparator (t_options table)) [97] [105] \<le> 0"
    by (simp add: t(3) small_options_def BytewiseComparator_sel BytewiseComparator_Compare_lex)
  from approximate_offsets_monotone [OF t(4) TrueI TrueI this] t(1,2) show ?thesis by blast
qed

end
