(* ===== verification/Version_Edit.thy ===== *)
theory Version_Edit
  imports Dbformat "HOL-Library.FSet" "HOL-Library.Product_Lexorder" "HOL-Library.Monad_Syntax"
begin

text \<open>
  \<^verbatim>\<open>db/version_edit.cc\<close> and \<^verbatim>\<open>db/version_edit.h\<close>: the changes of the set of files that a record of
  the manifest holds, with their encoding.  The set of deleted files is a \<open>std::set\<close> of pairs, which
  is walked in ascending order.
\<close>

record file_meta =
  fm_refs :: int
  fm_allowed_seeks :: int
  fm_number :: u64
  fm_file_size :: u64
  fm_smallest :: InternalKey
  fm_largest :: InternalKey

text \<open>The constructor does not set the number; it is always assigned before it is read.\<close>

definition FileMetaData_make :: "u64 \<Rightarrow> u64 \<Rightarrow> InternalKey \<Rightarrow> InternalKey \<Rightarrow> file_meta" where
  "FileMetaData_make number file_size smallest largest =
     \<lparr>fm_refs = 0, fm_allowed_seeks = 2 ^ 30, fm_number = number, fm_file_size = file_size,
      fm_smallest = smallest, fm_largest = largest\<rparr>"

record version_edit =
  ve_comparator :: bytes
  ve_log_number :: u64
  ve_prev_log_number :: u64
  ve_next_file_number :: u64
  ve_last_sequence :: u64
  ve_has_comparator :: bool
  ve_has_log_number :: bool
  ve_has_prev_log_number :: bool
  ve_has_next_file_number :: bool
  ve_has_last_sequence :: bool
  ve_compact_pointers :: "(int \<times> InternalKey) list"
  ve_deleted_files :: "(int \<times> u64) fset"
  ve_new_files :: "(int \<times> file_meta) list"

text \<open>\<open>Clear\<close> leaves the compaction pointers alone.\<close>

definition VersionEdit_Clear :: "version_edit \<Rightarrow> version_edit" where
  "VersionEdit_Clear e = e\<lparr>ve_comparator := [], ve_log_number := 0, ve_prev_log_number := 0, ve_last_sequence := 0,
     ve_next_file_number := 0, ve_has_comparator := False, ve_has_log_number := False, ve_has_prev_log_number := False,
     ve_has_next_file_number := False, ve_has_last_sequence := False, ve_deleted_files := {||}, ve_new_files := []\<rparr>"

definition VersionEdit_make :: version_edit where
  "VersionEdit_make =
     \<lparr>ve_comparator = [], ve_log_number = 0, ve_prev_log_number = 0, ve_next_file_number = 0, ve_last_sequence = 0,
      ve_has_comparator = False, ve_has_log_number = False, ve_has_prev_log_number = False,
      ve_has_next_file_number = False, ve_has_last_sequence = False,
      ve_compact_pointers = [], ve_deleted_files = {||}, ve_new_files = []\<rparr>"

definition SetComparatorName :: "bytes \<Rightarrow> version_edit \<Rightarrow> version_edit" where
  "SetComparatorName name e = e\<lparr>ve_has_comparator := True, ve_comparator := name\<rparr>"

definition SetLogNumber :: "u64 \<Rightarrow> version_edit \<Rightarrow> version_edit" where
  "SetLogNumber num e = e\<lparr>ve_has_log_number := True, ve_log_number := num\<rparr>"

definition SetPrevLogNumber :: "u64 \<Rightarrow> version_edit \<Rightarrow> version_edit" where
  "SetPrevLogNumber num e = e\<lparr>ve_has_prev_log_number := True, ve_prev_log_number := num\<rparr>"

definition SetNextFile :: "u64 \<Rightarrow> version_edit \<Rightarrow> version_edit" where
  "SetNextFile num e = e\<lparr>ve_has_next_file_number := True, ve_next_file_number := num\<rparr>"

definition SetLastSequence :: "u64 \<Rightarrow> version_edit \<Rightarrow> version_edit" where
  "SetLastSequence s e = e\<lparr>ve_has_last_sequence := True, ve_last_sequence := s\<rparr>"

definition SetCompactPointer :: "int \<Rightarrow> InternalKey \<Rightarrow> version_edit \<Rightarrow> version_edit" where
  "SetCompactPointer level key e = e\<lparr>ve_compact_pointers := ve_compact_pointers e @ [(level, key)]\<rparr>"

definition VersionEdit_AddFile :: "int \<Rightarrow> u64 \<Rightarrow> u64 \<Rightarrow> InternalKey \<Rightarrow> InternalKey \<Rightarrow> version_edit \<Rightarrow> version_edit" where
  "VersionEdit_AddFile level number file_size smallest largest e =
     e\<lparr>ve_new_files := ve_new_files e @ [(level, FileMetaData_make number file_size smallest largest)]\<rparr>"

definition VersionEdit_DeleteFile :: "int \<Rightarrow> u64 \<Rightarrow> version_edit \<Rightarrow> version_edit" where
  "VersionEdit_DeleteFile level number e = e\<lparr>ve_deleted_files := finsert (level, number) (ve_deleted_files e)\<rparr>"

subsection \<open>The encoding\<close>

definition kComparator :: u32 where "kComparator = 1"
definition kLogNumber :: u32 where "kLogNumber = 2"
definition kNextFileNumber :: u32 where "kNextFileNumber = 3"
definition kLastSequence :: u32 where "kLastSequence = 4"
definition kCompactPointer :: u32 where "kCompactPointer = 5"
definition kDeletedFile :: u32 where "kDeletedFile = 6"
definition kNewFile :: u32 where "kNewFile = 7"
definition kPrevLogNumber :: u32 where "kPrevLogNumber = 9"

lemmas tag_defs = kComparator_def kLogNumber_def kNextFileNumber_def kLastSequence_def kCompactPointer_def
  kDeletedFile_def kNewFile_def kPrevLogNumber_def

definition encode_compact_pointer :: "int \<times> InternalKey \<Rightarrow> bytes \<Rightarrow> bytes" where
  "encode_compact_pointer p dst =
     PutLengthPrefixedSlice (PutVarint32 (PutVarint32 dst kCompactPointer) (word_of_int (fst p))) (snd p)"

definition encode_deleted_file :: "int \<times> u64 \<Rightarrow> bytes \<Rightarrow> bytes" where
  "encode_deleted_file p dst = PutVarint64 (PutVarint32 (PutVarint32 dst kDeletedFile) (word_of_int (fst p))) (snd p)"

definition encode_new_file :: "int \<times> file_meta \<Rightarrow> bytes \<Rightarrow> bytes" where
  "encode_new_file p dst =
     (let f = snd p;
          dst = PutVarint32 (PutVarint32 dst kNewFile) (word_of_int (fst p));
          dst = PutVarint64 (PutVarint64 dst (fm_number f)) (fm_file_size f)
      in PutLengthPrefixedSlice (PutLengthPrefixedSlice dst (fm_smallest f)) (fm_largest f))"

definition VersionEdit_EncodeTo :: "version_edit \<Rightarrow> bytes \<Rightarrow> bytes" where
  "VersionEdit_EncodeTo e dst =
     (let dst = (if ve_has_comparator e then PutLengthPrefixedSlice (PutVarint32 dst kComparator) (ve_comparator e) else dst);
          dst = (if ve_has_log_number e then PutVarint64 (PutVarint32 dst kLogNumber) (ve_log_number e) else dst);
          dst = (if ve_has_prev_log_number e then PutVarint64 (PutVarint32 dst kPrevLogNumber) (ve_prev_log_number e) else dst);
          dst = (if ve_has_next_file_number e then PutVarint64 (PutVarint32 dst kNextFileNumber) (ve_next_file_number e) else dst);
          dst = (if ve_has_last_sequence e then PutVarint64 (PutVarint32 dst kLastSequence) (ve_last_sequence e) else dst);
          dst = fold encode_compact_pointer (ve_compact_pointers e) dst;
          dst = fold encode_deleted_file (sorted_list_of_fset (ve_deleted_files e)) dst
      in fold encode_new_file (ve_new_files e) dst)"

definition GetInternalKey :: "bytes \<Rightarrow> InternalKey option \<times> bytes" where
  "GetInternalKey input = GetLengthPrefixedSlice input"

definition GetLevel :: "bytes \<Rightarrow> int option \<times> bytes" where
  "GetLevel input =
     (case GetVarint32 input of
        (Some v, input) \<Rightarrow> (if unat v < kNumLevels then Some (uint v) else None, input)
      | (None, input) \<Rightarrow> (None, input))"

text \<open>A reader that stops at the first failure, as a chain of \<open>&&\<close> does.\<close>

definition get_then :: "(bytes \<Rightarrow> 'a option \<times> bytes) \<Rightarrow> ('a \<Rightarrow> bytes \<Rightarrow> 'b option \<times> bytes) \<Rightarrow> bytes \<Rightarrow> 'b option \<times> bytes" where
  "get_then get rest input = (case get input of (Some a, input) \<Rightarrow> rest a input | (None, input) \<Rightarrow> (None, input))"

definition get_number :: "(u64 \<Rightarrow> version_edit) \<Rightarrow> bytes \<Rightarrow> version_edit option \<times> bytes" where
  "get_number upd = get_then GetVarint64 (\<lambda>n input. (Some (upd n), input))"

text \<open>One turn of the loop after its tag: the edit with the field, or the message of the failure.\<close>

definition field :: "string \<Rightarrow> version_edit option \<times> bytes \<Rightarrow> (bytes + version_edit) \<times> bytes" where
  "field msg r = (case r of (Some e, input) \<Rightarrow> (Inr e, input) | (None, input) \<Rightarrow> (Inl (lit msg), input))"

definition decode_field :: "u32 \<Rightarrow> version_edit \<Rightarrow> bytes \<Rightarrow> (bytes + version_edit) \<times> bytes" where
  "decode_field tag e input =
     (if tag = kComparator then
        field ''comparator name'' (get_then GetLengthPrefixedSlice (\<lambda>str input. (Some (SetComparatorName str e), input)) input)
      else if tag = kLogNumber then field ''log number'' (get_number (\<lambda>n. SetLogNumber n e) input)
      else if tag = kPrevLogNumber then field ''previous log number'' (get_number (\<lambda>n. SetPrevLogNumber n e) input)
      else if tag = kNextFileNumber then field ''next file number'' (get_number (\<lambda>n. SetNextFile n e) input)
      else if tag = kLastSequence then field ''last sequence number'' (get_number (\<lambda>n. SetLastSequence n e) input)
      else if tag = kCompactPointer then
        field ''compaction pointer'' (get_then GetLevel (\<lambda>level. get_then GetInternalKey (\<lambda>key input.
          (Some (SetCompactPointer level key e), input))) input)
      else if tag = kDeletedFile then
        field ''deleted file'' (get_then GetLevel (\<lambda>level. get_then GetVarint64 (\<lambda>number input.
          (Some (VersionEdit_DeleteFile level number e), input))) input)
      else if tag = kNewFile then
        field ''new-file entry'' (get_then GetLevel (\<lambda>level. get_then GetVarint64 (\<lambda>number. get_then GetVarint64 (\<lambda>file_size.
          get_then GetInternalKey (\<lambda>smallest. get_then GetInternalKey (\<lambda>largest input.
            (Some (VersionEdit_AddFile level number file_size smallest largest e), input)))))) input)
      else (Inl (lit ''unknown tag''), input))"

subsection \<open>The decoding loop\<close>

definition shrinks :: "(bytes \<Rightarrow> 'a option \<times> bytes) \<Rightarrow> bool" where
  "shrinks get \<longleftrightarrow> (\<forall>input. length (snd (get input)) \<le> length input)"

lemma GetVarint32_shorter: "GetVarint32 input = (Some v, rest) \<Longrightarrow> length rest < length input"
  using GetVarint32Ptr_bounds [of input v rest] by (auto simp: GetVarint32_def split: option.splits prod.splits)

lemma GetVarint64Ptr_loop_shrinks: "GetVarint64Ptr_loop shift r p = Some (v, q) \<Longrightarrow> length q \<le> length p"
  by (induction shift r p rule: GetVarint64Ptr_loop.induct) (fastforce simp: Let_def split: if_splits)+

lemma shrinks_GetVarint32: "shrinks GetVarint32"
  using GetVarint32_shorter by (fastforce simp: shrinks_def GetVarint32_def split: option.splits)

lemma shrinks_GetVarint64: "shrinks GetVarint64"
  using GetVarint64Ptr_loop_shrinks by (force simp: shrinks_def GetVarint64_def GetVarint64Ptr_def split: option.splits)

lemma shrinks_GetLengthPrefixedSlice: "shrinks GetLengthPrefixedSlice"
  using shrinks_GetVarint32 unfolding shrinks_def GetLengthPrefixedSlice_def
  by (auto split: prod.splits option.splits) (metis diff_le_self le_trans snd_conv)+

lemma shrinks_GetLevel: "shrinks GetLevel"
  using shrinks_GetVarint32 unfolding shrinks_def GetLevel_def
  by (auto split: prod.splits option.splits) (metis snd_conv)+

lemma shrinks_get_then: "shrinks get \<Longrightarrow> (\<And>a. shrinks (rest a)) \<Longrightarrow> shrinks (get_then get rest)"
  unfolding shrinks_def get_then_def by (auto split: prod.splits option.splits) (metis le_trans snd_conv)+

lemma shrinks_done: "shrinks (\<lambda>input. (Some x, input))"
  by (simp add: shrinks_def)

lemmas shrinks_rules = shrinks_get_then shrinks_done shrinks_GetVarint64 shrinks_GetLengthPrefixedSlice shrinks_GetLevel

lemma snd_field [simp]: "snd (field msg r) = snd r"
  by (simp add: field_def split: prod.split option.split)

lemma decode_field_shrinks: "length (snd (decode_field tag e input)) \<le> length input"
proof -
  have s: "length (snd (get input)) \<le> length input" if "shrinks get" for get :: "bytes \<Rightarrow> version_edit option \<times> bytes"
    using that by (simp add: shrinks_def)
  have "shrinks (get_number upd)" for upd unfolding get_number_def by (intro shrinks_rules)
  moreover have "shrinks GetInternalKey" using shrinks_GetLengthPrefixedSlice by (simp add: shrinks_def GetInternalKey_def)
  moreover note rules = calculation
  have "shrinks (get_then GetLengthPrefixedSlice (\<lambda>str input. (Some (SetComparatorName str e), input)))"
    by (intro shrinks_rules)
  moreover have "shrinks (get_then GetLevel (\<lambda>level. get_then GetInternalKey (\<lambda>key input. (Some (SetCompactPointer level key e), input))))"
    by (intro shrinks_rules rules)
  moreover have "shrinks (get_then GetLevel (\<lambda>level. get_then GetVarint64 (\<lambda>number input. (Some (VersionEdit_DeleteFile level number e), input))))"
    by (intro shrinks_rules)
  moreover have "shrinks (get_then GetLevel (\<lambda>level. get_then GetVarint64 (\<lambda>number. get_then GetVarint64 (\<lambda>file_size.
      get_then GetInternalKey (\<lambda>smallest. get_then GetInternalKey (\<lambda>largest input.
        (Some (VersionEdit_AddFile level number file_size smallest largest e), input)))))))"
    by (intro shrinks_rules rules)
  ultimately show ?thesis unfolding decode_field_def by (simp add: s)
qed

function decode_fields :: "version_edit \<Rightarrow> bytes \<Rightarrow> bytes option \<times> version_edit \<times> bytes" where
  "decode_fields e input =
     (case GetVarint32 input of
        (None, input) \<Rightarrow> (None, e, input)
      | (Some tag, input') \<Rightarrow>
          (case decode_field tag e input' of
             (Inl msg, rest) \<Rightarrow> (Some msg, e, rest)
           | (Inr e', rest) \<Rightarrow> decode_fields e' rest))"
  by pat_completeness auto
termination
proof (relation "measure (\<lambda>(e, input). length input)", simp, clarsimp)
  fix input tag input' e e' rest
  assume "(Some tag, input') = GetVarint32 input" "(Inr e', rest) = decode_field tag e input'"
  then show "length rest < length input"
    using GetVarint32_shorter [of input tag input'] decode_field_shrinks [of tag e input'] by (metis le_less_trans snd_conv)
qed

declare decode_fields.simps [simp del]

definition VersionEdit_DecodeFrom :: "bytes \<Rightarrow> version_edit \<Rightarrow> status \<times> version_edit" where
  "VersionEdit_DecodeFrom src e =
     (let (msg, e, input) = decode_fields (VersionEdit_Clear e) src;
          msg = (if msg = None \<and> input \<noteq> [] then Some (lit ''invalid tag'') else msg)
      in (case msg of Some m \<Rightarrow> Status_Corruption (lit ''VersionEdit'') m | None \<Rightarrow> Status_OK, e))"

subsection \<open>The text of an edit\<close>

definition VersionEdit_DebugString :: "version_edit \<Rightarrow> bytes" where
  "VersionEdit_DebugString e =
     (let nl = [0x0a];
          number = (\<lambda>has name n r. if has then AppendNumberTo (r @ nl @ lit name) n else r);
          r = lit ''VersionEdit {'';
          r = (if ve_has_comparator e then r @ nl @ lit ''  Comparator: '' @ ve_comparator e else r);
          r = number (ve_has_log_number e) ''  LogNumber: '' (ve_log_number e) r;
          r = number (ve_has_prev_log_number e) ''  PrevLogNumber: '' (ve_prev_log_number e) r;
          r = number (ve_has_next_file_number e) ''  NextFile: '' (ve_next_file_number e) r;
          r = number (ve_has_last_sequence e) ''  LastSeq: '' (ve_last_sequence e) r;
          r = fold (\<lambda>(level, key) r. AppendNumberTo (r @ nl @ lit ''  CompactPointer: '') (word_of_int level) @ lit '' '' @
                InternalKey_DebugString key) (ve_compact_pointers e) r;
          r = fold (\<lambda>(level, n) r. AppendNumberTo (AppendNumberTo (r @ nl @ lit ''  DeleteFile: '') (word_of_int level) @ lit '' '') n)
                (sorted_list_of_fset (ve_deleted_files e)) r;
          r = fold (\<lambda>(level, f) r.
                AppendNumberTo (AppendNumberTo (AppendNumberTo (r @ nl @ lit ''  AddFile: '') (word_of_int level) @ lit '' '')
                  (fm_number f) @ lit '' '') (fm_file_size f) @ lit '' '' @
                InternalKey_DebugString (fm_smallest f) @ lit '' .. '' @ InternalKey_DebugString (fm_largest f)) (ve_new_files e) r
      in r @ nl @ lit ''}'' @ nl)"

subsection \<open>Well-formed edits and the round trip\<close>

definition level_ok :: "int \<Rightarrow> bool" where
  "level_ok level \<longleftrightarrow> 0 \<le> level \<and> level < int kNumLevels"

definition new_file_ok :: "int \<times> file_meta \<Rightarrow> bool" where
  "new_file_ok p \<longleftrightarrow> level_ok (fst p) \<and> length (fm_smallest (snd p)) < 2 ^ 32 \<and> length (fm_largest (snd p)) < 2 ^ 32 \<and>
     fm_refs (snd p) = 0 \<and> fm_allowed_seeks (snd p) = 2 ^ 30"

definition edit_ok :: "version_edit \<Rightarrow> bool" where
  "edit_ok e \<longleftrightarrow> (\<not> ve_has_comparator e \<longrightarrow> ve_comparator e = []) \<and> (\<not> ve_has_log_number e \<longrightarrow> ve_log_number e = 0) \<and>
     (\<not> ve_has_prev_log_number e \<longrightarrow> ve_prev_log_number e = 0) \<and> (\<not> ve_has_next_file_number e \<longrightarrow> ve_next_file_number e = 0) \<and>
     (\<not> ve_has_last_sequence e \<longrightarrow> ve_last_sequence e = 0) \<and> length (ve_comparator e) < 2 ^ 32 \<and>
     (\<forall>p \<in> set (ve_compact_pointers e). level_ok (fst p) \<and> length (snd p) < 2 ^ 32) \<and>
     (\<forall>p. p |\<in>| ve_deleted_files e \<longrightarrow> level_ok (fst p)) \<and> (\<forall>p \<in> set (ve_new_files e). new_file_ok p)"

lemma decode_fields_end [simp]: "decode_fields e [] = (None, e, [])"
  by (subst decode_fields.simps) (simp add: GetVarint32_def GetVarint32Ptr_def GetVarint32PtrFallback_def)

lemma decode_fields_step:
  "decode_field tag e (payload @ rest) = (Inr e', rest) \<Longrightarrow> decode_fields e (EncodeVarint32 tag @ payload @ rest) = decode_fields e' rest"
  by (subst decode_fields.simps) simp

lemma GetLevel_Encode [simp]: "level_ok l \<Longrightarrow> GetLevel (EncodeVarint32 (word_of_int l) @ rest) = (Some l, rest)"
  by (auto simp: GetLevel_def level_ok_def kNumLevels_def uint_word_of_int_eq unat_eq_nat_uint take_bit_int_eq_self)

lemmas put_defs = PutVarint32_def PutVarint64_def PutLengthPrefixedSlice_def

lemma decode_number:
  "decode_fields e (EncodeVarint32 kLogNumber @ EncodeVarint64 n @ rest) = decode_fields (SetLogNumber n e) rest"
  "decode_fields e (EncodeVarint32 kPrevLogNumber @ EncodeVarint64 n @ rest) = decode_fields (SetPrevLogNumber n e) rest"
  "decode_fields e (EncodeVarint32 kNextFileNumber @ EncodeVarint64 n @ rest) = decode_fields (SetNextFile n e) rest"
  "decode_fields e (EncodeVarint32 kLastSequence @ EncodeVarint64 n @ rest) = decode_fields (SetLastSequence n e) rest"
  by (rule decode_fields_step, simp add: decode_field_def tag_defs field_def get_number_def get_then_def)+

lemma decode_comparator:
  "length name < 2 ^ 32 \<Longrightarrow>
   decode_fields e (EncodeVarint32 kComparator @ PutLengthPrefixedSlice [] name @ rest) = decode_fields (SetComparatorName name e) rest"
  by (rule decode_fields_step) (simp add: decode_field_def tag_defs field_def get_then_def)

lemma fold_appends: "(\<And>x dst. put x dst = dst @ enc x) \<Longrightarrow> fold put xs dst = dst @ concat (map enc xs)"
  by (induction xs arbitrary: dst) simp_all

lemma encode_compact_pointer_append: "encode_compact_pointer p dst = dst @ encode_compact_pointer p []"
  and encode_deleted_file_append: "encode_deleted_file d dst = dst @ encode_deleted_file d []"
  and encode_new_file_append: "encode_new_file q dst = dst @ encode_new_file q []"
  by (simp_all add: encode_compact_pointer_def encode_deleted_file_def encode_new_file_def Let_def put_defs)

lemma decode_compact_pointers:
  "\<forall>p \<in> set ps. level_ok (fst p) \<and> length (snd p) < 2 ^ 32 \<Longrightarrow>
   decode_fields e (concat (map (\<lambda>p. encode_compact_pointer p []) ps) @ rest) =
     decode_fields (e\<lparr>ve_compact_pointers := ve_compact_pointers e @ ps\<rparr>) rest"
proof (induction ps arbitrary: e)
  case (Cons p ps)
  have "decode_fields e (EncodeVarint32 kCompactPointer @ (EncodeVarint32 (word_of_int (fst p)) @ PutLengthPrefixedSlice [] (snd p)) @ z) =
      decode_fields (SetCompactPointer (fst p) (snd p) e) z" for z
    by (rule decode_fields_step) (use Cons.prems in \<open>simp add: decode_field_def tag_defs field_def get_then_def GetInternalKey_def\<close>)
  then have "decode_fields e (encode_compact_pointer p [] @ z) = decode_fields (SetCompactPointer (fst p) (snd p) e) z" for z
    by (simp add: encode_compact_pointer_def put_defs)
  with Cons show ?case by (simp add: SetCompactPointer_def)
qed simp

lemma decode_deleted_files:
  "\<forall>p \<in> set ps. level_ok (fst p) \<Longrightarrow>
   decode_fields e (concat (map (\<lambda>p. encode_deleted_file p []) ps) @ rest) =
     decode_fields (e\<lparr>ve_deleted_files := ve_deleted_files e |\<union>| fset_of_list ps\<rparr>) rest"
proof (induction ps arbitrary: e)
  case (Cons p ps)
  have "decode_fields e (EncodeVarint32 kDeletedFile @ (EncodeVarint32 (word_of_int (fst p)) @ EncodeVarint64 (snd p)) @ z) =
      decode_fields (VersionEdit_DeleteFile (fst p) (snd p) e) z" for z
    by (rule decode_fields_step) (use Cons.prems in \<open>simp add: decode_field_def tag_defs field_def get_then_def\<close>)
  then have "decode_fields e (encode_deleted_file p [] @ z) = decode_fields (VersionEdit_DeleteFile (fst p) (snd p) e) z" for z
    by (simp add: encode_deleted_file_def put_defs)
  with Cons show ?case by (simp add: VersionEdit_DeleteFile_def)
qed simp

lemma decode_new_files:
  "\<forall>p \<in> set ps. new_file_ok p \<Longrightarrow>
   decode_fields e (concat (map (\<lambda>p. encode_new_file p []) ps) @ rest) = decode_fields (e\<lparr>ve_new_files := ve_new_files e @ ps\<rparr>) rest"
proof (induction ps arbitrary: e)
  case (Cons p ps)
  obtain level f where p: "p = (level, f)" by fastforce
  have ok: "level_ok level" "length (fm_smallest f) < 2 ^ 32" "length (fm_largest f) < 2 ^ 32"
    "FileMetaData_make (fm_number f) (fm_file_size f) (fm_smallest f) (fm_largest f) = f"
    using Cons.prems by (simp_all add: p new_file_ok_def FileMetaData_make_def)
  have "decode_fields e (EncodeVarint32 kNewFile @ (EncodeVarint32 (word_of_int level) @ EncodeVarint64 (fm_number f) @
        EncodeVarint64 (fm_file_size f) @ PutLengthPrefixedSlice [] (fm_smallest f) @ PutLengthPrefixedSlice [] (fm_largest f)) @ z) =
      decode_fields (e\<lparr>ve_new_files := ve_new_files e @ [p]\<rparr>) z" for z
    by (rule decode_fields_step)
       (use ok in \<open>simp add: decode_field_def tag_defs field_def get_then_def GetInternalKey_def VersionEdit_AddFile_def p\<close>)
  then have "decode_fields e (encode_new_file p [] @ z) = decode_fields (e\<lparr>ve_new_files := ve_new_files e @ [p]\<rparr>) z" for z
    by (simp add: encode_new_file_def Let_def p put_defs)
  with Cons show ?case by simp
qed simp

lemma VersionEdit_EncodeTo_bytes:
  "VersionEdit_EncodeTo e [] =
     (if ve_has_comparator e then EncodeVarint32 kComparator @ PutLengthPrefixedSlice [] (ve_comparator e) else []) @
     (if ve_has_log_number e then EncodeVarint32 kLogNumber @ EncodeVarint64 (ve_log_number e) else []) @
     (if ve_has_prev_log_number e then EncodeVarint32 kPrevLogNumber @ EncodeVarint64 (ve_prev_log_number e) else []) @
     (if ve_has_next_file_number e then EncodeVarint32 kNextFileNumber @ EncodeVarint64 (ve_next_file_number e) else []) @
     (if ve_has_last_sequence e then EncodeVarint32 kLastSequence @ EncodeVarint64 (ve_last_sequence e) else []) @
     concat (map (\<lambda>p. encode_compact_pointer p []) (ve_compact_pointers e)) @
     concat (map (\<lambda>p. encode_deleted_file p []) (sorted_list_of_fset (ve_deleted_files e))) @
     concat (map (\<lambda>p. encode_new_file p []) (ve_new_files e))"
  unfolding VersionEdit_EncodeTo_def Let_def fold_appends [OF encode_compact_pointer_append]
    fold_appends [OF encode_deleted_file_append] fold_appends [OF encode_new_file_append]
  by (simp add: put_defs)

lemma DecodeFrom_EncodeTo:
  assumes ok: "edit_ok e"
  shows "VersionEdit_DecodeFrom (VersionEdit_EncodeTo e []) VersionEdit_make = (Status_OK, e)"
proof -
  let ?e0 = "VersionEdit_make"
  let ?e1 = "if ve_has_comparator e then SetComparatorName (ve_comparator e) ?e0 else ?e0"
  let ?e2 = "if ve_has_log_number e then SetLogNumber (ve_log_number e) ?e1 else ?e1"
  let ?e3 = "if ve_has_prev_log_number e then SetPrevLogNumber (ve_prev_log_number e) ?e2 else ?e2"
  let ?e4 = "if ve_has_next_file_number e then SetNextFile (ve_next_file_number e) ?e3 else ?e3"
  let ?e5 = "if ve_has_last_sequence e then SetLastSequence (ve_last_sequence e) ?e4 else ?e4"
  have small: "length (ve_comparator e) < 2 ^ 32" and cps: "\<forall>p \<in> set (ve_compact_pointers e). level_ok (fst p) \<and> length (snd p) < 2 ^ 32"
    and del: "\<forall>p \<in> set (sorted_list_of_fset (ve_deleted_files e)). level_ok (fst p)" and new: "\<forall>p \<in> set (ve_new_files e). new_file_ok p"
    using ok by (auto simp: edit_ok_def)
  have pre: "decode_fields ?e0 (VersionEdit_EncodeTo e []) = decode_fields ?e5
      (concat (map (\<lambda>p. encode_compact_pointer p []) (ve_compact_pointers e)) @
       concat (map (\<lambda>p. encode_deleted_file p []) (sorted_list_of_fset (ve_deleted_files e))) @
       concat (map (\<lambda>p. encode_new_file p []) (ve_new_files e)))"
    unfolding VersionEdit_EncodeTo_bytes by (simp add: decode_comparator [OF small] decode_number)
  have "decode_fields ?e0 (VersionEdit_EncodeTo e []) =
      decode_fields (?e5\<lparr>ve_compact_pointers := ve_compact_pointers e, ve_deleted_files := ve_deleted_files e, ve_new_files := ve_new_files e\<rparr>) []"
    unfolding pre decode_compact_pointers [OF cps] decode_deleted_files [OF del]
    using decode_new_files [OF new, where rest = "[]"]
    by (simp add: VersionEdit_make_def SetComparatorName_def SetLogNumber_def SetPrevLogNumber_def SetNextFile_def SetLastSequence_def)
  also have "?e5\<lparr>ve_compact_pointers := ve_compact_pointers e, ve_deleted_files := ve_deleted_files e, ve_new_files := ve_new_files e\<rparr> = e"
    using ok by (simp add: edit_ok_def VersionEdit_make_def SetComparatorName_def SetLogNumber_def SetPrevLogNumber_def
        SetNextFile_def SetLastSequence_def)
  finally show ?thesis
    by (simp add: VersionEdit_DecodeFrom_def Let_def VersionEdit_Clear_def VersionEdit_make_def)
qed

subsection \<open>Every edit is well formed\<close>

text \<open>The operations a client builds an edit with.\<close>

datatype edit_op =
    Op_Comparator bytes | Op_LogNumber u64 | Op_PrevLogNumber u64 | Op_NextFile u64 | Op_LastSequence u64
  | Op_CompactPointer int InternalKey | Op_AddFile int u64 u64 InternalKey InternalKey | Op_DeleteFile int u64

fun do_edit_op :: "edit_op \<Rightarrow> version_edit \<Rightarrow> version_edit" where
  "do_edit_op (Op_Comparator name) = SetComparatorName name"
| "do_edit_op (Op_LogNumber n) = SetLogNumber n"
| "do_edit_op (Op_PrevLogNumber n) = SetPrevLogNumber n"
| "do_edit_op (Op_NextFile n) = SetNextFile n"
| "do_edit_op (Op_LastSequence n) = SetLastSequence n"
| "do_edit_op (Op_CompactPointer level key) = SetCompactPointer level key"
| "do_edit_op (Op_AddFile level n sz smallest largest) = VersionEdit_AddFile level n sz smallest largest"
| "do_edit_op (Op_DeleteFile level n) = VersionEdit_DeleteFile level n"

fun edit_op_ok :: "edit_op \<Rightarrow> bool" where
  "edit_op_ok (Op_Comparator name) \<longleftrightarrow> length name < 2 ^ 32"
| "edit_op_ok (Op_CompactPointer level key) \<longleftrightarrow> level_ok level \<and> length key < 2 ^ 32"
| "edit_op_ok (Op_AddFile level n sz smallest largest) \<longleftrightarrow> level_ok level \<and> length smallest < 2 ^ 32 \<and> length largest < 2 ^ 32"
| "edit_op_ok (Op_DeleteFile level n) \<longleftrightarrow> level_ok level"
| "edit_op_ok _ \<longleftrightarrow> True"

lemmas edit_setters = SetComparatorName_def SetLogNumber_def SetPrevLogNumber_def SetNextFile_def SetLastSequence_def
  SetCompactPointer_def VersionEdit_AddFile_def VersionEdit_DeleteFile_def

lemma edit_ok_make [simp]: "edit_ok VersionEdit_make"
  by (simp add: edit_ok_def VersionEdit_make_def)

lemma edit_ok_op: "edit_ok e \<Longrightarrow> edit_op_ok op \<Longrightarrow> edit_ok (do_edit_op op e)"
  by (cases op) (auto simp: edit_ok_def edit_setters new_file_ok_def FileMetaData_make_def)

lemma edit_ok_ops: "edit_ok e \<Longrightarrow> \<forall>op \<in> set ops. edit_op_ok op \<Longrightarrow> edit_ok (fold do_edit_op ops e)"
  by (induction ops arbitrary: e) (simp_all add: edit_ok_op)

lemma GetLevel_ok:
  assumes "GetLevel input = (Some level, rest)"
  shows "level_ok level"
proof -
  obtain v :: u32 where v: "level = uint v" "unat v < kNumLevels"
    using assms unfolding GetLevel_def by (simp split: prod.splits option.splits if_splits) blast
  have "int (unat v) < int kNumLevels" using v(2) by (simp only: of_nat_less_iff)
  then show ?thesis by (simp add: level_ok_def v(1))
qed

lemma GetLengthPrefixedSlice_short:
  assumes "GetLengthPrefixedSlice input = (Some str, rest)"
  shows "length str < 2 ^ 32"
proof -
  obtain len :: u32 and i where "str = take (unat len) i"
    using assms by (auto simp: GetLengthPrefixedSlice_def split: prod.splits option.splits if_splits)
  then have "length str \<le> unat len" by simp
  then show ?thesis using unat_u32_less by (rule le_less_trans)
qed

lemma op_exI: "edit_op_ok op \<Longrightarrow> \<exists>op'. edit_op_ok op' \<and> do_edit_op op e = do_edit_op op' e"
  by blast

lemmas op_exIs = op_exI [where op = "Op_Comparator name" for name, simplified] op_exI [where op = "Op_LogNumber n" for n, simplified]
  op_exI [where op = "Op_PrevLogNumber n" for n, simplified] op_exI [where op = "Op_NextFile n" for n, simplified]
  op_exI [where op = "Op_LastSequence n" for n, simplified] op_exI [where op = "Op_CompactPointer l k" for l k, simplified]
  op_exI [where op = "Op_DeleteFile l n" for l n, simplified] op_exI [where op = "Op_AddFile l n z a b" for l n z a b, simplified]

text \<open>A field that is decoded is one of the operations.\<close>

lemma decode_field_op:
  assumes "decode_field tag e input = (Inr e', rest)"
  shows "\<exists>op. edit_op_ok op \<and> e' = do_edit_op op e"
proof -
  note short = GetLengthPrefixedSlice_short [simplified]
  have r: "field msg r = (Inr e', rest) \<longleftrightarrow> r = (Some e', rest)" for msg r
    by (auto simp: field_def split: prod.split option.split)
  have g: "get_then get f i = (Some x, z) \<longleftrightarrow> (\<exists>a i'. get i = (Some a, i') \<and> f a i' = (Some x, z))" for get f i x z
    by (auto simp: get_then_def split: prod.split option.split)
  note defs = r g get_number_def GetInternalKey_def
  consider "tag = kComparator" | "tag = kLogNumber" | "tag = kPrevLogNumber" | "tag = kNextFileNumber" | "tag = kLastSequence"
    | "tag = kCompactPointer" | "tag = kDeletedFile" | "tag = kNewFile"
    using assms by (auto simp: decode_field_def split: if_splits)
  then show ?thesis
  proof cases
    case 1
    then show ?thesis using assms short by (auto simp: decode_field_def defs intro!: op_exIs)
  next
    case 2
    then show ?thesis using assms by (auto simp: decode_field_def defs tag_defs intro!: op_exIs)
  next
    case 3
    then show ?thesis using assms by (auto simp: decode_field_def defs tag_defs intro!: op_exIs)
  next
    case 4
    then show ?thesis using assms by (auto simp: decode_field_def defs tag_defs intro!: op_exIs)
  next
    case 5
    then show ?thesis using assms by (auto simp: decode_field_def defs tag_defs intro!: op_exIs)
  next
    case 6
    then show ?thesis using assms short GetLevel_ok
      by (auto simp: decode_field_def defs tag_defs intro!: op_exIs)
  next
    case 7
    then show ?thesis using assms GetLevel_ok by (auto simp: decode_field_def defs tag_defs intro!: op_exIs)
  next
    case 8
    then show ?thesis using assms short GetLevel_ok
      by (auto simp: decode_field_def defs tag_defs intro!: op_exIs)
  qed
qed

lemma decode_fields_ops: "decode_fields e input = (msg, e', rest) \<Longrightarrow> \<exists>ops. (\<forall>op \<in> set ops. edit_op_ok op) \<and> e' = fold do_edit_op ops e"
proof (induction e input rule: decode_fields.induct)
  case (1 e input)
  obtain t i where t: "GetVarint32 input = (t, i)" by fastforce
  show ?case
  proof (cases t)
    case None
    with 1(2) t show ?thesis by (subst (asm) decode_fields.simps) (auto intro: exI [of _ "[]"])
  next
    case (Some tag)
    obtain r z where r: "decode_field tag e i = (r, z)" by fastforce
    show ?thesis
    proof (cases r)
      case (Inl m)
      with 1(2) t r Some show ?thesis by (subst (asm) decode_fields.simps) (auto intro: exI [of _ "[]"])
    next
      case (Inr e1)
      have "decode_fields e1 z = (msg, e', rest)" using 1(2) t r Some Inr by (subst (asm) decode_fields.simps) simp
      then obtain ops where "\<forall>op \<in> set ops. edit_op_ok op" "e' = fold do_edit_op ops e1"
        using 1(1) [OF t [symmetric] Some r [unfolded Inr, symmetric]] Inr by blast
      moreover obtain op where "edit_op_ok op" "e1 = do_edit_op op e" using decode_field_op r Inr by blast
      ultimately show ?thesis by (intro exI [of _ "op # ops"]) simp
    qed
  qed
qed

subsection \<open>Properties\<close>

text \<open>
  C21: a record of the manifest decodes to the edit it was made from.  Whatever a client sets, adds
  and deletes, with levels in range and keys below 4 GB, decoding the encoding into a fresh edit
  returns OK and the same edit.
\<close>

theorem version_edit_round_trip:
  assumes "\<forall>op \<in> set ops. edit_op_ok op"
  shows "VersionEdit_DecodeFrom (VersionEdit_EncodeTo (fold do_edit_op ops VersionEdit_make) []) VersionEdit_make =
    (Status_OK, fold do_edit_op ops VersionEdit_make)"
  by (rule DecodeFrom_EncodeTo) (rule edit_ok_ops [OF edit_ok_make assms])

theorem version_edit_round_trip_witness:
  "VersionEdit_DecodeFrom (VersionEdit_EncodeTo (VersionEdit_DeleteFile 1 5 (VersionEdit_AddFile 2 7 100 [97] [98] VersionEdit_make)) [])
     VersionEdit_make = (Status_OK, VersionEdit_DeleteFile 1 5 (VersionEdit_AddFile 2 7 100 [97] [98] VersionEdit_make))"
  using version_edit_round_trip [of "[Op_AddFile 2 7 100 [97] [98], Op_DeleteFile 1 5]"]
  by (simp add: level_ok_def kNumLevels_def)

text \<open>
  C22: whatever bytes the manifest holds, decoding returns an edit whose levels are all in range, so
  that it can index the arrays of levels, and that is itself encoded and decoded faithfully.
\<close>

theorem version_edit_decodes_well_formed:
  "\<exists>s e. VersionEdit_DecodeFrom src VersionEdit_make = (s, e) \<and>
     (\<forall>p \<in> set (ve_compact_pointers e). 0 \<le> fst p \<and> fst p < int kNumLevels) \<and>
     (\<forall>p. p |\<in>| ve_deleted_files e \<longrightarrow> 0 \<le> fst p \<and> fst p < int kNumLevels) \<and>
     (\<forall>p \<in> set (ve_new_files e). 0 \<le> fst p \<and> fst p < int kNumLevels) \<and>
     VersionEdit_DecodeFrom (VersionEdit_EncodeTo e []) VersionEdit_make = (Status_OK, e)"
proof -
  obtain msg e rest where d: "decode_fields VersionEdit_make src = (msg, e, rest)" by (metis prod_cases3)
  have clear: "VersionEdit_Clear VersionEdit_make = VersionEdit_make" by (simp add: VersionEdit_Clear_def VersionEdit_make_def)
  have ok: "edit_ok e" using decode_fields_ops [OF d] edit_ok_ops [OF edit_ok_make] by blast
  obtain s where "VersionEdit_DecodeFrom src VersionEdit_make = (s, e)"
    unfolding VersionEdit_DecodeFrom_def clear d Let_def prod.case by blast
  with DecodeFrom_EncodeTo [OF ok] ok show ?thesis by (auto simp: edit_ok_def level_ok_def new_file_ok_def)
qed

theorem version_edit_decodes_well_formed_witness:
  "\<exists>s e. VersionEdit_DecodeFrom [5, 6, 0, 8] VersionEdit_make = (s, e) \<and> (\<forall>p \<in> set (ve_compact_pointers e). fst p < 7)"
  using version_edit_decodes_well_formed [of "[5, 6, 0, 8]"] by (auto simp: kNumLevels_def)

end
