(* ===== verification/Merger.thy ===== *)
theory Merger
  imports Block
begin

text \<open>
  \<^verbatim>\<open>table/merger.cc\<close>: the merge of several iterators in key order, in both directions.  The children
  are wrappers in an array and \<open>current\<close> is an index into it.  When the keys of all children differ,
  the merge is a cursor on the merged sequence (\<open>merging_contract\<close>).
\<close>

datatype direction = kForward | kReverse

record 'i merging_iterator =
  mg_comparator :: comparator
  mg_children :: "'i iterator_wrapper list"
  mg_current :: "nat option"
  mg_direction :: direction

definition MergingIterator_make :: "'i iterator \<Rightarrow> comparator \<Rightarrow> 'i list \<Rightarrow> 'i merging_iterator" where
  "MergingIterator_make I comparator children =
     \<lparr>mg_comparator = comparator, mg_children = map (\<lambda>child. iw_Set I (Some child) IteratorWrapper_make) children,
      mg_current = None, mg_direction = kForward\<rparr>"

text \<open>A loop over the children with their indices.\<close>

fun move_children :: "(nat \<Rightarrow> 'w \<Rightarrow> 'w option) \<Rightarrow> nat \<Rightarrow> 'w list \<Rightarrow> 'w list option" where
  "move_children f i [] = Some []"
| "move_children f i (w # ws) = do { w \<leftarrow> f i w; ws \<leftarrow> move_children f (Suc i) ws; Some (w # ws) }"

definition FindSmallest :: "'i merging_iterator \<Rightarrow> 'i merging_iterator" where
  "FindSmallest m =
     (let key = (\<lambda>i. iw_key (mg_children m ! i));
          step = (\<lambda>i smallest.
            if iw_valid (mg_children m ! i) then
              (case smallest of None \<Rightarrow> Some i
               | Some s \<Rightarrow> if cmp_Compare (mg_comparator m) (key i) (key s) < 0 then Some i else Some s)
            else smallest)
      in m\<lparr>mg_current := fold step [0..<length (mg_children m)] None\<rparr>)"

definition FindLargest :: "'i merging_iterator \<Rightarrow> 'i merging_iterator" where
  "FindLargest m =
     (let key = (\<lambda>i. iw_key (mg_children m ! i));
          step = (\<lambda>i largest.
            if iw_valid (mg_children m ! i) then
              (case largest of None \<Rightarrow> Some i
               | Some s \<Rightarrow> if 0 < cmp_Compare (mg_comparator m) (key i) (key s) then Some i else Some s)
            else largest)
      in m\<lparr>mg_current := fold step (rev [0..<length (mg_children m)]) None\<rparr>)"

definition Merging_Valid :: "'i merging_iterator \<Rightarrow> bool" where
  "Merging_Valid m = (mg_current m \<noteq> None)"

definition Merging_SeekToFirst :: "'i iterator \<Rightarrow> 'i merging_iterator \<Rightarrow> 'i merging_iterator option" where
  "Merging_SeekToFirst I m = do {
     children \<leftarrow> move_children (\<lambda>_. iw_SeekToFirst I) 0 (mg_children m);
     Some ((FindSmallest (m\<lparr>mg_children := children\<rparr>))\<lparr>mg_direction := kForward\<rparr>) }"

definition Merging_SeekToLast :: "'i iterator \<Rightarrow> 'i merging_iterator \<Rightarrow> 'i merging_iterator option" where
  "Merging_SeekToLast I m = do {
     children \<leftarrow> move_children (\<lambda>_. iw_SeekToLast I) 0 (mg_children m);
     Some ((FindLargest (m\<lparr>mg_children := children\<rparr>))\<lparr>mg_direction := kReverse\<rparr>) }"

definition Merging_Seek :: "'i iterator \<Rightarrow> bytes \<Rightarrow> 'i merging_iterator \<Rightarrow> 'i merging_iterator option" where
  "Merging_Seek I target m = do {
     children \<leftarrow> move_children (\<lambda>_. iw_Seek I target) 0 (mg_children m);
     Some ((FindSmallest (m\<lparr>mg_children := children\<rparr>))\<lparr>mg_direction := kForward\<rparr>) }"

definition Merging_key :: "'i merging_iterator \<Rightarrow> bytes" where
  "Merging_key m = (case mg_current m of None \<Rightarrow> [] | Some c \<Rightarrow> iw_key (mg_children m ! c))"

definition Merging_value :: "'i iterator \<Rightarrow> 'i merging_iterator \<Rightarrow> bytes" where
  "Merging_value I m = (case mg_current m of None \<Rightarrow> [] | Some c \<Rightarrow> iw_value I (mg_children m ! c))"

text \<open>All children but the current one are moved behind, or before, the current key.\<close>

definition after_key :: "'i iterator \<Rightarrow> comparator \<Rightarrow> bytes \<Rightarrow> 'i iterator_wrapper \<Rightarrow> 'i iterator_wrapper option" where
  "after_key I comparator key child = do {
     child \<leftarrow> iw_Seek I key child;
     if iw_valid child \<and> cmp_Compare comparator key (iw_key child) = 0 then iw_Next I child else Some child }"

definition before_key :: "'i iterator \<Rightarrow> bytes \<Rightarrow> 'i iterator_wrapper \<Rightarrow> 'i iterator_wrapper option" where
  "before_key I key child = do {
     child \<leftarrow> iw_Seek I key child;
     if iw_valid child then iw_Prev I child else iw_SeekToLast I child }"

definition Merging_Next :: "'i iterator \<Rightarrow> 'i merging_iterator \<Rightarrow> 'i merging_iterator option" where
  "Merging_Next I m = do {
     c \<leftarrow> mg_current m;
     m \<leftarrow> (if mg_direction m \<noteq> kForward then do {
             children \<leftarrow> move_children (\<lambda>i child. if i \<noteq> c then after_key I (mg_comparator m) (Merging_key m) child else Some child)
               0 (mg_children m);
             Some (m\<lparr>mg_children := children, mg_direction := kForward\<rparr>) }
           else Some m);
     child \<leftarrow> iw_Next I (mg_children m ! c);
     Some (FindSmallest (m\<lparr>mg_children := (mg_children m)[c := child]\<rparr>)) }"

definition Merging_Prev :: "'i iterator \<Rightarrow> 'i merging_iterator \<Rightarrow> 'i merging_iterator option" where
  "Merging_Prev I m = do {
     c \<leftarrow> mg_current m;
     m \<leftarrow> (if mg_direction m \<noteq> kReverse then do {
             children \<leftarrow> move_children (\<lambda>i child. if i \<noteq> c then before_key I (Merging_key m) child else Some child)
               0 (mg_children m);
             Some (m\<lparr>mg_children := children, mg_direction := kReverse\<rparr>) }
           else Some m);
     child \<leftarrow> iw_Prev I (mg_children m ! c);
     Some (FindLargest (m\<lparr>mg_children := (mg_children m)[c := child]\<rparr>)) }"

text \<open>The status of the first child whose status is not OK.\<close>

fun first_error :: "status list \<Rightarrow> status" where
  "first_error [] = Status_OK"
| "first_error (s # ss) = (if Status_ok s then first_error ss else s)"

definition Merging_status :: "'i iterator \<Rightarrow> 'i merging_iterator \<Rightarrow> status" where
  "Merging_status I m = first_error (map (iw_status I) (mg_children m))"

definition MergingIterator :: "'i iterator \<Rightarrow> 'i merging_iterator iterator" where
  "MergingIterator I = \<lparr>
     it_Valid = Merging_Valid,
     it_SeekToFirst = Merging_SeekToFirst I, it_SeekToLast = Merging_SeekToLast I, it_Seek = Merging_Seek I,
     it_Next = Merging_Next I, it_Prev = Merging_Prev I,
     it_key = Merging_key, it_value = Merging_value I, it_status = Merging_status I\<rparr>"

text \<open>An iterator of one of three classes.\<close>

definition NewMergingIterator :: "'i iterator \<Rightarrow> comparator \<Rightarrow> 'i list \<Rightarrow> status + ('i + 'i merging_iterator)" where
  "NewMergingIterator I comparator children =
     (case children of
        [] \<Rightarrow> Inl NewEmptyIterator
      | [child] \<Rightarrow> Inr (Inl child)
      | _ \<Rightarrow> Inr (Inr (MergingIterator_make I comparator children)))"

definition Merged_Iterator :: "'i iterator \<Rightarrow> (status + ('i + 'i merging_iterator)) iterator" where
  "Merged_Iterator I = either_iterator EmptyIterator (either_iterator I (MergingIterator I))"

subsection \<open>Merged sequences\<close>

text \<open>\<open>es\<close> is the merge of \<open>ess\<close>: \<open>owner\<close> tells from which sequence an entry comes.\<close>

definition merges :: "(bytes \<Rightarrow> bytes \<Rightarrow> int) \<Rightarrow> (bytes \<Rightarrow> bool) \<Rightarrow> (bytes \<times> bytes \<Rightarrow> nat) \<Rightarrow>
    (bytes \<times> bytes) list list \<Rightarrow> (bytes \<times> bytes) list \<Rightarrow> bool" where
  "merges compare keys owner ess es \<longleftrightarrow> key_order compare keys \<and>
     sorted_wrt (\<lambda>a b. compare (fst a) (fst b) < 0) es \<and> (\<forall>e \<in> set es. keys (fst e) \<and> owner e < length ess) \<and>
     (\<forall>i < length ess. ess ! i = filter (\<lambda>e. owner e = i) es)"

text \<open>How many of the first \<open>n\<close> entries of the merge come from sequence \<open>i\<close>.\<close>

definition cut :: "(bytes \<times> bytes \<Rightarrow> nat) \<Rightarrow> (bytes \<times> bytes) list \<Rightarrow> nat \<Rightarrow> nat \<Rightarrow> nat" where
  "cut owner es n i = length (filter (\<lambda>e. owner e = i) (take n es))"

definition pred_pos :: "'a list \<Rightarrow> nat \<Rightarrow> nat" where
  "pred_pos xs q = (if q = 0 then length xs else q - 1)"

lemma cut_0 [simp]: "cut owner es 0 i = 0"
  by (simp add: cut_def)

lemma cut_all: "merges compare keys owner ess es \<Longrightarrow> i < length ess \<Longrightarrow> cut owner es (length es) i = length (ess ! i)"
  by (simp add: cut_def merges_def)

lemma cut_Suc: "n < length es \<Longrightarrow> cut owner es (Suc n) i = (if owner (es ! n) = i then Suc (cut owner es n i) else cut owner es n i)"
  by (simp add: cut_def take_Suc_conv_app_nth)

lemma cut_le: "merges compare keys owner ess es \<Longrightarrow> i < length ess \<Longrightarrow> cut owner es n i \<le> length (ess ! i)"
  by (metis append_take_drop_id cut_def filter_append length_append le_add1 merges_def)

text \<open>The entry after the cut comes from the rest of the merge, the entry before it from its start.\<close>

lemma cut_split:
  assumes "merges compare keys owner ess es" "i < length ess"
  shows "ess ! i = filter (\<lambda>e. owner e = i) (take n es) @ filter (\<lambda>e. owner e = i) (drop n es)"
  using assms by (metis append_take_drop_id filter_append merges_def)

lemma after_cut:
  assumes "merges compare keys owner ess es" "i < length ess" "cut owner es n i < length (ess ! i)"
  shows "ess ! i ! cut owner es n i \<in> set (drop n es)" "owner (ess ! i ! cut owner es n i) = i"
proof -
  let ?d = "filter (\<lambda>e. owner e = i) (drop n es)"
  have "ess ! i ! cut owner es n i = ?d ! 0" "0 < length ?d"
    using cut_split [OF assms(1,2), of n] assms(3) by (simp_all add: cut_def nth_append)
  then have "ess ! i ! cut owner es n i \<in> set ?d" by (metis nth_mem)
  then show "ess ! i ! cut owner es n i \<in> set (drop n es)" "owner (ess ! i ! cut owner es n i) = i" by auto
qed

lemma before_cut:
  assumes "merges compare keys owner ess es" "i < length ess" "0 < cut owner es n i"
  shows "ess ! i ! (cut owner es n i - 1) \<in> set (take n es)" "owner (ess ! i ! (cut owner es n i - 1)) = i"
proof -
  let ?t = "filter (\<lambda>e. owner e = i) (take n es)"
  have "ess ! i ! (cut owner es n i - 1) = ?t ! (cut owner es n i - 1)" "cut owner es n i - 1 < length ?t"
    using cut_split [OF assms(1,2), of n] assms(3) by (simp_all add: cut_def nth_append)
  then have "ess ! i ! (cut owner es n i - 1) \<in> set ?t" by (metis nth_mem)
  then show "ess ! i ! (cut owner es n i - 1) \<in> set (take n es)" "owner (ess ! i ! (cut owner es n i - 1)) = i" by auto
qed

lemma at_cut:
  assumes "merges compare keys owner ess es" "n < length es"
  shows "owner (es ! n) < length ess" "cut owner es n (owner (es ! n)) < length (ess ! owner (es ! n))"
    "ess ! owner (es ! n) ! cut owner es n (owner (es ! n)) = es ! n"
proof -
  show o: "owner (es ! n) < length ess" using assms by (simp add: merges_def)
  have "drop n es = es ! n # drop (Suc n) es" using assms(2) by (simp add: Cons_nth_drop_Suc)
  with cut_split [OF assms(1) o, of n]
  show "cut owner es n (owner (es ! n)) < length (ess ! owner (es ! n))" "ess ! owner (es ! n) ! cut owner es n (owner (es ! n)) = es ! n"
    by (simp_all add: cut_def)
qed

lemma takeWhile_filter_sorted:
  "sorted_wrt (\<lambda>a b. compare (fst a) (fst b) < 0) es \<Longrightarrow> key_order compare keys \<Longrightarrow> keys target \<Longrightarrow> \<forall>e \<in> set es. keys (fst e) \<Longrightarrow>
   takeWhile (\<lambda>e. compare (fst e) target < 0) (filter P es) = filter P (takeWhile (\<lambda>e. compare (fst e) target < 0) es)"
proof (induction es)
  case (Cons e es)
  have "\<not> compare (fst x) target < 0" if "\<not> compare (fst e) target < 0" "x \<in> set es" for x
    using Cons.prems that key_order.compare_less_trans [OF Cons.prems(2), of "fst e" "fst x" target] by auto
  then have "takeWhile (\<lambda>e. compare (fst e) target < 0) (filter P es) = []" if "\<not> compare (fst e) target < 0"
    using that by (metis filter_is_subset hd_in_set subsetD takeWhile_eq_Nil_iff)
  with Cons show ?case by auto
qed simp

lemma cut_seek:
  assumes m: "merges compare keys owner ess es" and "i < length ess" "keys target"
  shows "seek_index compare target (ess ! i) = cut owner es (seek_index compare target es) i"
proof -
  have "take (seek_index compare target es) es = takeWhile (\<lambda>e. compare (fst e) target < 0) es"
    by (simp add: seek_index_def takeWhile_eq_take [symmetric])
  then show ?thesis
    using takeWhile_filter_sorted [where P = "\<lambda>e. owner e = i" and es = es and target = target and compare = compare and keys = keys] assms
    by (simp add: cut_def seek_index_def merges_def)
qed

lemma seek_index_key: "merges compare keys owner ess es \<Longrightarrow> n < length es \<Longrightarrow> seek_index compare (fst (es ! n)) es = n"
proof (rule seek_index_eqI)
  assume m: "merges compare keys owner ess es" "n < length es"
  then show "compare (fst (es ! i)) (fst (es ! n)) < 0" if "i < n" for i
    using that sorted_wrt_nth_less [of "\<lambda>a b. compare (fst a) (fst b) < 0" es i n] by (simp add: merges_def)
  show "\<not> compare (fst (es ! n)) (fst (es ! n)) < 0"
    using m key_order.compare_refl [of compare keys] by (simp add: merges_def)
qed simp

subsection \<open>Choosing the current child\<close>

lemma fold_choose:
  assumes "\<And>i best. step i best = (if valid i then (case best of None \<Rightarrow> Some i | Some s \<Rightarrow> if better i s then Some i else Some s) else best)"
  shows "c \<in> set is \<Longrightarrow> valid c \<Longrightarrow> (\<And>i. i \<in> set is \<Longrightarrow> i \<noteq> c \<Longrightarrow> valid i \<Longrightarrow> better c i \<and> \<not> better i c) \<Longrightarrow>
    \<not> better c c \<Longrightarrow> (\<forall>s. best = Some s \<longrightarrow> better c s \<and> s \<notin> set is) \<Longrightarrow> distinct is \<Longrightarrow> fold step is best = Some c"
    and "\<forall>i \<in> set is. \<not> valid i \<Longrightarrow> fold step is best = best"
proof -
  have keep: "fold step js (Some c) = Some c" if "\<And>i. i \<in> set js \<Longrightarrow> valid i \<Longrightarrow> \<not> better i c" for js
    using that by (induction js) (auto simp: assms)
  show "c \<in> set is \<Longrightarrow> valid c \<Longrightarrow> (\<And>i. i \<in> set is \<Longrightarrow> i \<noteq> c \<Longrightarrow> valid i \<Longrightarrow> better c i \<and> \<not> better i c) \<Longrightarrow>
    \<not> better c c \<Longrightarrow> (\<forall>s. best = Some s \<longrightarrow> better c s \<and> s \<notin> set is) \<Longrightarrow> distinct is \<Longrightarrow> fold step is best = Some c"
  proof (induction "is" arbitrary: best)
    case (Cons i js)
    show ?case
    proof (cases "i = c")
      case True
      then have "step i best = Some c" using Cons.prems by (auto simp: assms split: option.split)
      then show ?thesis using keep [of js] Cons.prems by (auto simp: True)
    next
      case False
      have "\<forall>s. step i best = Some s \<longrightarrow> better c s \<and> s \<notin> set js"
        using Cons.prems False by (auto simp: assms split: option.splits if_splits)
      then show ?thesis using Cons.IH [of "step i best"] Cons.prems False by auto
    qed
  qed simp
  show "\<forall>i \<in> set is. \<not> valid i \<Longrightarrow> fold step is best = best"
    by (induction "is" arbitrary: best) (simp_all add: assms)
qed

lemma move_children_ok:
  "(\<And>j. j < length ws \<Longrightarrow> \<exists>w'. f (i + j) (ws ! j) = Some w' \<and> Q j w') \<Longrightarrow>
   \<exists>ws'. move_children f i ws = Some ws' \<and> length ws' = length ws \<and> (\<forall>j < length ws. Q j (ws' ! j))"
proof (induction ws arbitrary: i Q)
  case (Cons w ws)
  obtain w' where w': "f i w = Some w'" "Q 0 w'" using Cons.prems [of 0] by auto
  have "\<exists>w'. f (Suc i + j) (ws ! j) = Some w' \<and> Q (Suc j) w'" if "j < length ws" for j
    using Cons.prems [of "Suc j"] that by simp
  then obtain ws' where "move_children f (Suc i) ws = Some ws'" "length ws' = length ws" "\<forall>j < length ws. Q (Suc j) (ws' ! j)"
    using Cons.IH [of "Suc i" "\<lambda>j. Q (Suc j)"] by blast
  with w' show ?case by (intro exI [of _ "w' # ws'"]) (simp add: All_less_Suc2)
qed simp

lemma first_error_ok: "\<forall>s \<in> set ss. Status_ok s \<Longrightarrow> Status_ok (first_error ss)"
  by (induction ss) auto

subsection \<open>The contract\<close>

context iterator_contract
begin

text \<open>Every child stands at the position \<open>pos\<close> gives.\<close>

definition children_at :: "'i iterator_wrapper list \<Rightarrow> (bytes \<times> bytes) list list \<Rightarrow> (nat \<Rightarrow> nat) \<Rightarrow> bool" where
  "children_at ws ess pos \<longleftrightarrow> length ws = length ess \<and> (\<forall>i < length ess. iw_view view (ws ! i) (ess ! i) (pos i))"

definition merge_view :: "comparator \<Rightarrow> 'i merging_iterator \<Rightarrow> (bytes \<times> bytes) list \<Rightarrow> nat \<Rightarrow> bool" where
  "merge_view c m es n \<longleftrightarrow> mg_comparator m = c \<and> cmp_Compare c = compare \<and> n \<le> length es \<and>
     (\<exists>owner ess. merges compare keys owner ess es \<and>
       (if n < length es then mg_current m = Some (owner (es ! n)) \<and>
          children_at (mg_children m) ess (\<lambda>i. if mg_direction m = kForward \<or> i = owner (es ! n) then cut owner es n i
            else pred_pos (ess ! i) (cut owner es n i))
        else mg_current m = None \<and> (\<exists>pos. children_at (mg_children m) ess pos)))"

lemma childD: "children_at ws ess pos \<Longrightarrow> i < length ess \<Longrightarrow> iw_view view (ws ! i) (ess ! i) (pos i)"
  by (simp add: children_at_def)

lemma iw_view_valid: "iw_view view w xs p \<Longrightarrow> iw_valid w \<longleftrightarrow> p < length xs"
  by (simp add: iw_view_def)

lemma iw_view_key: "iw_view view w xs p \<Longrightarrow> p < length xs \<Longrightarrow> iw_key w = fst (xs ! p)"
  by (simp add: iw_view_def)

lemma FindSmallest_ok:
  assumes m: "merges compare keys owner ess es" and c: "mg_comparator m = c" "cmp_Compare c = compare" and n: "n \<le> length es"
    and at: "children_at (mg_children m) ess (cut owner es n)"
  shows "merge_view c ((FindSmallest m)\<lparr>mg_direction := kForward\<rparr>) es n"
proof -
  let ?key = "\<lambda>i. iw_key (mg_children m ! i)" and ?valid = "\<lambda>i. iw_valid (mg_children m ! i)"
  let ?step = "\<lambda>i smallest. if ?valid i then (case smallest of None \<Rightarrow> Some i
      | Some s \<Rightarrow> if compare (?key i) (?key s) < 0 then Some i else Some s) else smallest"
  have len: "length (mg_children m) = length ess" using at by (simp add: children_at_def)
  have valid: "?valid i \<longleftrightarrow> cut owner es n i < length (ess ! i)" if "i < length ess" for i
    using iw_view_valid [OF childD [OF at that]] .
  have key: "?key i = fst (ess ! i ! cut owner es n i)" if "i < length ess" "cut owner es n i < length (ess ! i)" for i
    using iw_view_key [OF childD [OF at that(1)] that(2)] .
  have cur: "mg_current (FindSmallest m) = fold ?step [0..<length ess] None" unfolding FindSmallest_def Let_def c len by simp
  have rest: "mg_children (FindSmallest m) = mg_children m" "mg_comparator (FindSmallest m) = c" by (simp_all add: FindSmallest_def Let_def c)
  have order: "key_order compare keys" and sorted: "sorted_wrt (\<lambda>a b. compare (fst a) (fst b) < 0) es"
    and keys: "\<forall>e \<in> set es. keys (fst e)" using m by (simp_all add: merges_def)
  show ?thesis
  proof (cases "n < length es")
    case True
    let ?o = "owner (es ! n)"
    note o = at_cut [OF m True]
    have ko: "?key ?o = fst (es ! n)" using key o by simp
    have "compare (?key ?o) (?key i) < 0 \<and> \<not> compare (?key i) (?key ?o) < 0" if i: "i < length ess" "i \<noteq> ?o" "?valid i" for i
    proof -
      note a = after_cut [OF m i(1)] valid [OF i(1)] key [OF i(1)]
      have "ess ! i ! cut owner es n i \<in> set (drop (Suc n) es)"
        using a i True by (metis Cons_nth_drop_Suc set_ConsD)
      then have "compare (fst (es ! n)) (fst (ess ! i ! cut owner es n i)) < 0"
        using sorted True by (metis (no_types, lifting) Cons_nth_drop_Suc sorted_wrt.simps(2) sorted_wrt_drop)
      then show ?thesis using a i ko key_order.compare_flip [OF order, of "?key i" "?key ?o"] keys True
        by (metis (no_types, lifting) in_set_dropD nth_mem order_less_not_sym)
    qed
    moreover have "\<not> compare (?key ?o) (?key ?o) < 0" using ko key_order.compare_refl [OF order] keys True by simp
    ultimately have "fold ?step [0..<length ess] None = Some ?o"
      by (intro fold_choose(1) [where valid = ?valid and better = "\<lambda>i s. compare (?key i) (?key s) < 0"]) (use o valid in auto)
    with True at n m rest cur c(2) show ?thesis
      unfolding merge_view_def by (auto intro!: exI [of _ owner] exI [of _ ess])
  next
    case False
    then have e: "n = length es" using n by simp
    have "\<not> ?valid i" if "i < length ess" for i using valid [OF that] cut_all [OF m that] e by simp
    then have "fold ?step [0..<length ess] None = None"
      by (intro fold_choose(2) [where valid = ?valid and better = "\<lambda>i s. compare (?key i) (?key s) < 0"]) auto
    with False at n m rest cur c(2) show ?thesis
      unfolding merge_view_def by (auto intro!: exI [of _ owner] exI [of _ ess])
  qed
qed

lemma FindLargest_ok:
  assumes m: "merges compare keys owner ess es" and c: "mg_comparator m = c" "cmp_Compare c = compare" and n: "n \<le> length es"
    and at: "children_at (mg_children m) ess (\<lambda>i. pred_pos (ess ! i) (cut owner es n i))"
  shows "merge_view c ((FindLargest m)\<lparr>mg_direction := kReverse\<rparr>) es (if n = 0 then length es else n - 1)"
proof -
  let ?p = "\<lambda>i. pred_pos (ess ! i) (cut owner es n i)"
  let ?key = "\<lambda>i. iw_key (mg_children m ! i)" and ?valid = "\<lambda>i. iw_valid (mg_children m ! i)"
  let ?step = "\<lambda>i largest. if ?valid i then (case largest of None \<Rightarrow> Some i
      | Some s \<Rightarrow> if 0 < compare (?key i) (?key s) then Some i else Some s) else largest"
  have len: "length (mg_children m) = length ess" using at by (simp add: children_at_def)
  have valid: "?valid i \<longleftrightarrow> 0 < cut owner es n i" if "i < length ess" for i
    using iw_view_valid [OF childD [OF at that]] cut_le [OF m that, of n] by (auto simp: pred_pos_def)
  have key: "?key i = fst (ess ! i ! (cut owner es n i - 1))" if "i < length ess" "0 < cut owner es n i" for i
    using iw_view_key [OF childD [OF at that(1)]] cut_le [OF m that(1), of n] that(2) by (simp add: pred_pos_def)
  have cur: "mg_current (FindLargest m) = fold ?step (rev [0..<length ess]) None" unfolding FindLargest_def Let_def c len by simp
  have rest: "mg_children (FindLargest m) = mg_children m" "mg_comparator (FindLargest m) = c" by (simp_all add: FindLargest_def Let_def c)
  have order: "key_order compare keys" and sorted: "sorted_wrt (\<lambda>a b. compare (fst a) (fst b) < 0) es"
    and keys: "\<forall>e \<in> set es. keys (fst e)" using m by (simp_all add: merges_def)
  show ?thesis
  proof (cases "n = 0")
    case True
    have "\<not> ?valid i" if "i < length ess" for i using valid [OF that] True by simp
    then have "fold ?step (rev [0..<length ess]) None = None"
      by (intro fold_choose(2) [where valid = ?valid and better = "\<lambda>i s. 0 < compare (?key i) (?key s)"]) auto
    with True at m rest cur c(2) show ?thesis
      unfolding merge_view_def by (auto intro!: exI [of _ owner] exI [of _ ess])
  next
    case False
    then obtain k where k: "n = Suc k" by (cases n) auto
    have lt: "k < length es" using n k by simp
    let ?o = "owner (es ! k)"
    note o = at_cut [OF m lt]
    have co: "cut owner es n ?o = Suc (cut owner es k ?o)" using cut_Suc [OF lt] k by simp
    have ko: "?key ?o = fst (es ! k)" using key [OF o(1)] co o(3) by simp
    have "0 < compare (?key ?o) (?key i) \<and> \<not> 0 < compare (?key i) (?key ?o)" if i: "i < length ess" "i \<noteq> ?o" "?valid i" for i
    proof -
      have pos: "0 < cut owner es n i" using valid [OF i(1)] i(3) by simp
      let ?e = "ess ! i ! (cut owner es n i - 1)"
      have e: "?e \<in> set (take n es)" "owner ?e = i" using before_cut [OF m i(1) pos] by simp_all
      then have "?e \<noteq> es ! k" using i(2) by auto
      then obtain j where j: "j < k" "?e = es ! j" using e(1) k lt by (auto simp: in_set_conv_nth less_Suc_eq)
      then have less: "compare (fst ?e) (fst (es ! k)) < 0"
        using sorted_wrt_nth_less [OF sorted, of j k] lt by simp
      have "keys (fst ?e)" "keys (fst (es ! k))" using j keys lt by auto
      with less show ?thesis
        unfolding ko key [OF i(1) pos] using key_order.compare_flip [OF order, of "fst ?e" "fst (es ! k)"] by simp
    qed
    moreover have "\<not> 0 < compare (?key ?o) (?key ?o)" using ko key_order.compare_refl [OF order] keys lt by simp
    moreover have "?valid ?o" using valid [OF o(1)] co by simp
    ultimately have "fold ?step (rev [0..<length ess]) None = Some ?o"
      by (intro fold_choose(1) [where valid = ?valid and better = "\<lambda>i s. 0 < compare (?key i) (?key s)"]) (use o in auto)
    moreover have "children_at (mg_children m) ess (\<lambda>i. if i = ?o then cut owner es k i else pred_pos (ess ! i) (cut owner es k i))"
    proof -
      have "(if i = ?o then cut owner es k i else pred_pos (ess ! i) (cut owner es k i)) = ?p i" for i
        using cut_Suc [OF lt, of owner i] k by (auto simp: pred_pos_def)
      with at show ?thesis by (simp add: children_at_def)
    qed
    ultimately have "merge_view c ((FindLargest m)\<lparr>mg_direction := kReverse\<rparr>) es k" using m lt rest cur c(2)
      unfolding merge_view_def by (auto intro!: exI [of _ owner] exI [of _ ess])
    then show ?thesis using k by simp
  qed
qed

text \<open>The loops that move the children.\<close>

lemma children_move:
  assumes "children_at ws ess pos" "\<And>i w. i < length ess \<Longrightarrow> iw_view view w (ess ! i) (pos i) \<Longrightarrow>
    \<exists>w'. f i w = Some w' \<and> iw_view view w' (ess ! i) (pos' i)"
  shows "\<exists>ws'. move_children f 0 ws = Some ws' \<and> children_at ws' ess pos'"
  using move_children_ok [of ws f 0 "\<lambda>i w. iw_view view w (ess ! i) (pos' i)"] assms by (auto simp: children_at_def)

lemma children_update:
  "children_at ws ess pos \<Longrightarrow> c < length ess \<Longrightarrow> iw_view view w (ess ! c) p \<Longrightarrow> children_at (ws[c := w]) ess (pos(c := p))"
  by (simp add: children_at_def nth_list_update)

lemma merge_viewE:
  assumes "merge_view c m es n"
  obtains owner ess pos where "merges compare keys owner ess es" "children_at (mg_children m) ess pos"
    "mg_comparator m = c" "cmp_Compare c = compare" "n \<le> length es"
    "n < length es \<Longrightarrow> mg_current m = Some (owner (es ! n)) \<and> pos = (\<lambda>i. if mg_direction m = kForward \<or> i = owner (es ! n) then cut owner es n i
            else pred_pos (ess ! i) (cut owner es n i))"
    "\<not> n < length es \<Longrightarrow> mg_current m = None"
proof (cases "n < length es")
  case True
  with assms that show ?thesis unfolding merge_view_def by auto
next
  case False
  with assms obtain owner ess pos where "merges compare keys owner ess es" "children_at (mg_children m) ess pos"
    "mg_comparator m = c" "cmp_Compare c = compare" "n \<le> length es" "mg_current m = None"
    unfolding merge_view_def by auto
  with False that show ?thesis by blast
qed

lemma Merging_SeekToFirst_ok: "merge_view c m es n \<Longrightarrow> \<exists>m'. Merging_SeekToFirst I m = Some m' \<and> merge_view c m' es 0"
proof (erule merge_viewE)
  fix owner ess pos
  assume m: "merges compare keys owner ess es" "children_at (mg_children m) ess pos" "mg_comparator m = c" "cmp_Compare c = compare"
  obtain ws where ws: "move_children (\<lambda>_. iw_SeekToFirst I) 0 (mg_children m) = Some ws" "children_at ws ess (cut owner es 0)"
    using children_move [OF m(2), of "\<lambda>_. iw_SeekToFirst I" "cut owner es 0"] iw_moves(1) by auto
  show ?thesis
    using FindSmallest_ok [of owner ess es "m\<lparr>mg_children := ws\<rparr>" c 0] m ws by (simp add: Merging_SeekToFirst_def)
qed

lemma Merging_Seek_ok:
  assumes "keys target"
  shows "merge_view c m es n \<Longrightarrow> \<exists>m'. Merging_Seek I target m = Some m' \<and> merge_view c m' es (seek_index compare target es)"
proof (erule merge_viewE)
  fix owner :: "bytes \<times> bytes \<Rightarrow> nat" and ess :: "(bytes \<times> bytes) list list" and pos
  let ?n = "seek_index compare target es"
  assume m: "merges compare keys owner ess es" "children_at (mg_children m) ess pos" "mg_comparator m = c" "cmp_Compare c = compare"
  have move: "\<exists>w'. iw_Seek I target w = Some w' \<and> iw_view view w' (ess ! i) (cut owner es ?n i)"
    if i: "i < length ess" and w: "iw_view view w (ess ! i) p" for i w p
    using iw_moves(3) [OF w assms] cut_seek [OF m(1) i assms] by simp
  obtain ws where ws: "move_children (\<lambda>_. iw_Seek I target) 0 (mg_children m) = Some ws" "children_at ws ess (cut owner es ?n)"
    using children_move [OF m(2), of "\<lambda>_. iw_Seek I target" "cut owner es ?n"] move by blast
  show ?thesis
    using FindSmallest_ok [of owner ess es "m\<lparr>mg_children := ws\<rparr>" c ?n] m ws seek_index_le [of compare target es]
    by (simp add: Merging_Seek_def)
qed

lemma Merging_SeekToLast_ok: "merge_view c m es n \<Longrightarrow> \<exists>m'. Merging_SeekToLast I m = Some m' \<and> merge_view c m' es (length es - 1)"
proof (erule merge_viewE)
  fix owner ess pos
  assume m: "merges compare keys owner ess es" "children_at (mg_children m) ess pos" "mg_comparator m = c" "cmp_Compare c = compare"
  let ?p = "\<lambda>i. pred_pos (ess ! i) (cut owner es (length es) i)"
  have "?p i = length (ess ! i) - 1" if "i < length ess" for i using cut_all [OF m(1) that] by (simp add: pred_pos_def)
  then have "\<exists>w'. iw_SeekToLast I w = Some w' \<and> iw_view view w' (ess ! i) (?p i)"
    if i: "i < length ess" and w: "iw_view view w (ess ! i) p" for i w p
    using iw_moves(2) [OF w] i by simp
  then obtain ws where ws: "move_children (\<lambda>_. iw_SeekToLast I) 0 (mg_children m) = Some ws" "children_at ws ess ?p"
    using children_move [OF m(2), of "\<lambda>_. iw_SeekToLast I" ?p] by blast
  have "(if length es = 0 then length es else length es - 1) = length es - 1" by simp
  then show ?thesis
    using FindLargest_ok [of owner ess es "m\<lparr>mg_children := ws\<rparr>" c "length es"] m ws by (simp add: Merging_SeekToLast_def)
qed

text \<open>Turning round: the children other than the current one.\<close>

lemma seek_cut:
  assumes "merges compare keys owner ess es" "n < length es" "i < length ess" "iw_view view w (ess ! i) p"
  shows "\<exists>w'. iw_Seek I (fst (es ! n)) w = Some w' \<and> iw_view view w' (ess ! i) (cut owner es n i)"
proof -
  have k: "keys (fst (es ! n))" using assms(1,2) by (simp add: merges_def)
  show ?thesis
    using iw_moves(3) [OF assms(4) k] cut_seek [OF assms(1,3) k] seek_index_key [OF assms(1,2)] by simp
qed

lemma after_key_ok:
  assumes m: "merges compare keys owner ess es" "n < length es" and i: "i < length ess" "i \<noteq> owner (es ! n)"
    and w: "iw_view view w (ess ! i) p" and c: "cmp_Compare c = compare"
  shows "\<exists>w'. after_key I c (fst (es ! n)) w = Some w' \<and> iw_view view w' (ess ! i) (cut owner es n i)"
proof -
  obtain w1 where w1: "iw_Seek I (fst (es ! n)) w = Some w1" "iw_view view w1 (ess ! i) (cut owner es n i)"
    using seek_cut [OF m i(1) w] by blast
  have "compare (fst (es ! n)) (iw_key w1) \<noteq> 0" if "iw_valid w1"
  proof -
    have lt: "cut owner es n i < length (ess ! i)" using iw_view_valid [OF w1(2)] that by simp
    have "ess ! i ! cut owner es n i \<in> set (drop (Suc n) es)"
      using after_cut [OF m(1) i(1) lt] i(2) m(2) by (metis Cons_nth_drop_Suc set_ConsD)
    then have "compare (fst (es ! n)) (fst (ess ! i ! cut owner es n i)) < 0"
      using m unfolding merges_def by (metis (no_types, lifting) Cons_nth_drop_Suc sorted_wrt.simps(2) sorted_wrt_drop)
    then show ?thesis using iw_view_key [OF w1(2) lt] by simp
  qed
  with w1 c show ?thesis by (auto simp: after_key_def)
qed

lemma before_key_ok:
  assumes m: "merges compare keys owner ess es" "n < length es" and i: "i < length ess" and w: "iw_view view w (ess ! i) p"
  shows "\<exists>w'. before_key I (fst (es ! n)) w = Some w' \<and> iw_view view w' (ess ! i) (pred_pos (ess ! i) (cut owner es n i))"
proof -
  obtain w1 where w1: "iw_Seek I (fst (es ! n)) w = Some w1" "iw_view view w1 (ess ! i) (cut owner es n i)"
    using seek_cut [OF m i(1) w] by blast
  show ?thesis
  proof (cases "iw_valid w1")
    case True
    then have "cut owner es n i < length (ess ! i)" using iw_view_valid [OF w1(2)] by simp
    from iw_moves(5) [OF w1(2) this] True w1(1) show ?thesis by (simp add: before_key_def pred_pos_def)
  next
    case False
    then have "cut owner es n i = length (ess ! i)" using iw_view_valid [OF w1(2)] cut_le [OF m(1) i, of n] by simp
    then have "pred_pos (ess ! i) (cut owner es n i) = length (ess ! i) - 1" by (simp add: pred_pos_def)
    with iw_moves(2) [OF w1(2)] False w1(1) show ?thesis by (simp add: before_key_def)
  qed
qed

lemma Find_direction:
  "mg_direction m = kForward \<Longrightarrow> (FindSmallest m)\<lparr>mg_direction := kForward\<rparr> = FindSmallest m"
  "mg_direction m = kReverse \<Longrightarrow> (FindLargest m)\<lparr>mg_direction := kReverse\<rparr> = FindLargest m"
  by (cases m; simp add: FindSmallest_def FindLargest_def Let_def)+

lemma merge_view_key:
  assumes "merge_view c m es n" "n < length es"
  shows "Merging_key m = fst (es ! n)" "Merging_value I m = snd (es ! n)"
  using assms(1)
proof (atomize (full), elim merge_viewE)
  fix owner :: "bytes \<times> bytes \<Rightarrow> nat" and ess :: "(bytes \<times> bytes) list list" and pos
  let ?o = "owner (es ! n)"
  assume m: "merges compare keys owner ess es" "children_at (mg_children m) ess pos"
    "n < length es \<Longrightarrow> mg_current m = Some ?o \<and> pos = (\<lambda>i. if mg_direction m = kForward \<or> i = ?o then cut owner es n i
            else pred_pos (ess ! i) (cut owner es n i))"
  note o = at_cut [OF m(1) assms(2)]
  have w: "iw_view view (mg_children m ! ?o) (ess ! ?o) (cut owner es n ?o)" using childD [OF m(2) o(1)] m(3) assms(2) by simp
  show "Merging_key m = fst (es ! n) \<and> Merging_value I m = snd (es ! n)"
    using m(3) assms(2) iw_view_key [OF w o(2)] iw_view_value [OF w o(2)] o(3) by (simp add: Merging_key_def Merging_value_def)
qed

lemma Merging_Next_ok:
  assumes v: "merge_view c m es n" and n: "n < length es"
  shows "\<exists>m'. Merging_Next I m = Some m' \<and> merge_view c m' es (Suc n)"
  using v
proof (elim merge_viewE)
  fix owner :: "bytes \<times> bytes \<Rightarrow> nat" and ess :: "(bytes \<times> bytes) list list" and pos
  let ?o = "owner (es ! n)"
  assume m: "merges compare keys owner ess es" "children_at (mg_children m) ess pos" "mg_comparator m = c" "cmp_Compare c = compare"
    "n < length es \<Longrightarrow> mg_current m = Some ?o \<and> pos = (\<lambda>i. if mg_direction m = kForward \<or> i = ?o then cut owner es n i
            else pred_pos (ess ! i) (cut owner es n i))"
  note o = at_cut [OF m(1) n] and key = merge_view_key(1) [OF v n] and cur = m(5) [OF n]
  have "\<exists>ws. (if mg_direction m \<noteq> kForward then do {
             children \<leftarrow> move_children (\<lambda>i child. if i \<noteq> ?o then after_key I (mg_comparator m) (Merging_key m) child else Some child)
               0 (mg_children m);
             Some (m\<lparr>mg_children := children, mg_direction := kForward\<rparr>) }
           else Some m) = Some (m\<lparr>mg_children := ws, mg_direction := kForward\<rparr>) \<and> children_at ws ess (cut owner es n)"
  proof (cases "mg_direction m = kForward")
    case True
    then have "m = m\<lparr>mg_children := mg_children m, mg_direction := kForward\<rparr>" by (cases m) simp
    moreover have "children_at (mg_children m) ess (cut owner es n)" using m(2) cur True by (simp add: children_at_def)
    ultimately show ?thesis using True by (intro exI [of _ "mg_children m"]) simp
  next
    case False
    have "\<exists>w'. (if i \<noteq> ?o then after_key I c (fst (es ! n)) w else Some w) = Some w' \<and> iw_view view w' (ess ! i) (cut owner es n i)"
      if i: "i < length ess" "iw_view view w (ess ! i) (pos i)" for i w
      using after_key_ok [OF m(1) n i(1) _ i(2) m(4)] i(2) cur by auto
    with children_move [OF m(2), where f = "\<lambda>i child. if i \<noteq> ?o then after_key I c (fst (es ! n)) child else Some child"
        and pos' = "cut owner es n"] False show ?thesis unfolding key m(3) by auto
  qed
  then obtain ws where ws: "(if mg_direction m \<noteq> kForward then do {
             children \<leftarrow> move_children (\<lambda>i child. if i \<noteq> ?o then after_key I (mg_comparator m) (Merging_key m) child else Some child)
               0 (mg_children m);
             Some (m\<lparr>mg_children := children, mg_direction := kForward\<rparr>) }
           else Some m) = Some (m\<lparr>mg_children := ws, mg_direction := kForward\<rparr>)" "children_at ws ess (cut owner es n)" by blast
  obtain w where w: "iw_Next I (ws ! ?o) = Some w" "iw_view view w (ess ! ?o) (Suc (cut owner es n ?o))"
    using iw_moves(4) [OF childD [OF ws(2) o(1)] o(2)] by blast
  have "(cut owner es n)(?o := Suc (cut owner es n ?o)) = cut owner es (Suc n)"
    by (auto simp: fun_eq_iff cut_Suc [OF n])
  then have "children_at (ws[?o := w]) ess (cut owner es (Suc n))" using children_update [OF ws(2) o(1) w(2)] by simp
  then have "merge_view c (FindSmallest (m\<lparr>mg_direction := kForward, mg_children := ws[?o := w]\<rparr>)) es (Suc n)"
    using FindSmallest_ok [of owner ess es "m\<lparr>mg_direction := kForward, mg_children := ws[?o := w]\<rparr>" c "Suc n"] m n
      Find_direction(1) [of "m\<lparr>mg_direction := kForward, mg_children := ws[?o := w]\<rparr>"] by simp
  moreover have "Merging_Next I m = Some (FindSmallest (m\<lparr>mg_direction := kForward, mg_children := ws[?o := w]\<rparr>))"
    unfolding Merging_Next_def using cur ws(1) w(1) by simp
  ultimately show ?thesis by blast
qed

lemma Merging_Prev_ok:
  assumes v: "merge_view c m es n" and n: "n < length es"
  shows "\<exists>m'. Merging_Prev I m = Some m' \<and> merge_view c m' es (if n = 0 then length es else n - 1)"
  using v
proof (elim merge_viewE)
  fix owner :: "bytes \<times> bytes \<Rightarrow> nat" and ess :: "(bytes \<times> bytes) list list" and pos
  let ?o = "owner (es ! n)"
  let ?p = "\<lambda>i. pred_pos (ess ! i) (cut owner es n i)"
  let ?q = "\<lambda>i. if i = ?o then cut owner es n i else ?p i"
  assume m: "merges compare keys owner ess es" "children_at (mg_children m) ess pos" "mg_comparator m = c" "cmp_Compare c = compare"
    "n < length es \<Longrightarrow> mg_current m = Some ?o \<and> pos = (\<lambda>i. if mg_direction m = kForward \<or> i = ?o then cut owner es n i
            else pred_pos (ess ! i) (cut owner es n i))"
  note o = at_cut [OF m(1) n] and key = merge_view_key(1) [OF v n] and cur = m(5) [OF n]
  have "\<exists>ws. (if mg_direction m \<noteq> kReverse then do {
             children \<leftarrow> move_children (\<lambda>i child. if i \<noteq> ?o then before_key I (Merging_key m) child else Some child)
               0 (mg_children m);
             Some (m\<lparr>mg_children := children, mg_direction := kReverse\<rparr>) }
           else Some m) = Some (m\<lparr>mg_children := ws, mg_direction := kReverse\<rparr>) \<and> children_at ws ess ?q"
  proof (cases "mg_direction m = kReverse")
    case True
    then have "m = m\<lparr>mg_children := mg_children m, mg_direction := kReverse\<rparr>" by (cases m) simp
    moreover have "children_at (mg_children m) ess ?q" using m(2) cur True by (simp add: children_at_def)
    ultimately show ?thesis using True by (intro exI [of _ "mg_children m"]) simp
  next
    case False
    have "\<exists>w'. (if i \<noteq> ?o then before_key I (fst (es ! n)) w else Some w) = Some w' \<and> iw_view view w' (ess ! i) (?q i)"
      if i: "i < length ess" "iw_view view w (ess ! i) (pos i)" for i w
      using before_key_ok [OF m(1) n i] i(2) cur by auto
    with children_move [OF m(2), where f = "\<lambda>i child. if i \<noteq> ?o then before_key I (fst (es ! n)) child else Some child"
        and pos' = ?q] False show ?thesis unfolding key by auto
  qed
  then obtain ws where ws: "(if mg_direction m \<noteq> kReverse then do {
             children \<leftarrow> move_children (\<lambda>i child. if i \<noteq> ?o then before_key I (Merging_key m) child else Some child)
               0 (mg_children m);
             Some (m\<lparr>mg_children := children, mg_direction := kReverse\<rparr>) }
           else Some m) = Some (m\<lparr>mg_children := ws, mg_direction := kReverse\<rparr>)" "children_at ws ess ?q" by blast
  have "iw_view view (ws ! ?o) (ess ! ?o) (cut owner es n ?o)" using childD [OF ws(2) o(1)] by simp
  then obtain w where w: "iw_Prev I (ws ! ?o) = Some w" "iw_view view w (ess ! ?o) (?p ?o)"
    using iw_moves(5) [OF _ o(2)] by (auto simp: pred_pos_def)
  have "?q(?o := ?p ?o) = ?p" by (simp add: fun_eq_iff)
  then have "children_at (ws[?o := w]) ess ?p" using children_update [OF ws(2) o(1) w(2)] by simp
  then have "merge_view c (FindLargest (m\<lparr>mg_direction := kReverse, mg_children := ws[?o := w]\<rparr>)) es (if n = 0 then length es else n - 1)"
    using FindLargest_ok [of owner ess es "m\<lparr>mg_direction := kReverse, mg_children := ws[?o := w]\<rparr>" c n] m n
      Find_direction(2) [of "m\<lparr>mg_direction := kReverse, mg_children := ws[?o := w]\<rparr>"] by simp
  moreover have "Merging_Prev I m = Some (FindLargest (m\<lparr>mg_direction := kReverse, mg_children := ws[?o := w]\<rparr>))"
    unfolding Merging_Prev_def using cur ws(1) w(1) by simp
  ultimately show ?thesis by blast
qed

lemma Merging_status_ok: "merge_view c m es n \<Longrightarrow> Status_ok (Merging_status I m)"
proof (elim merge_viewE)
  fix owner ess pos
  assume m: "children_at (mg_children m) ess pos"
  then have "\<forall>w \<in> set (mg_children m). \<exists>xs p. iw_view view w xs p" by (metis children_at_def in_set_conv_nth)
  then show ?thesis unfolding Merging_status_def using iw_view_status by (intro first_error_ok) fastforce
qed

lemma merging_contract: "iterator_contract (MergingIterator I) compare keys (merge_view c)"
proof
  fix m es n
  assume v: "merge_view c m es n"
  show "n \<le> length es" using v by (simp add: merge_view_def)
  show "it_Valid (MergingIterator I) m \<longleftrightarrow> n < length es"
    using v by (auto simp: merge_view_def MergingIterator_def Merging_Valid_def split: if_splits)
  show "Status_ok (it_status (MergingIterator I) m)" using Merging_status_ok [OF v] by (simp add: MergingIterator_def)
  show "\<exists>it'. it_SeekToFirst (MergingIterator I) m = Some it' \<and> merge_view c it' es 0"
    using Merging_SeekToFirst_ok [OF v] by (simp add: MergingIterator_def)
  show "\<exists>it'. it_SeekToLast (MergingIterator I) m = Some it' \<and> merge_view c it' es (length es - 1)"
    using Merging_SeekToLast_ok [OF v] by (simp add: MergingIterator_def)
  show "\<exists>it'. it_Seek (MergingIterator I) target m = Some it' \<and> merge_view c it' es (seek_index compare target es)"
    if "keys target" for target
    using Merging_Seek_ok [OF that v] by (simp add: MergingIterator_def)
  assume n: "n < length es"
  show "(it_key (MergingIterator I) m, it_value (MergingIterator I) m) = es ! n"
    using merge_view_key [OF v n] by (simp add: MergingIterator_def)
  show "\<exists>it'. it_Next (MergingIterator I) m = Some it' \<and> merge_view c it' es (Suc n)"
    using Merging_Next_ok [OF v n] by (simp add: MergingIterator_def)
  show "\<exists>it'. it_Prev (MergingIterator I) m = Some it' \<and> merge_view c it' es (if n = 0 then length es else n - 1)"
    using Merging_Prev_ok [OF v n] by (simp add: MergingIterator_def)
qed

lemma merge_view_make:
  assumes "merges compare keys owner ess es" "cmp_Compare c = compare" "length its = length ess"
    and "\<And>i. i < length ess \<Longrightarrow> \<exists>p. view (its ! i) (ess ! i) p"
  shows "merge_view c (MergingIterator_make I c its) es (length es)"
proof -
  obtain pos where pos: "\<And>i. i < length ess \<Longrightarrow> view (its ! i) (ess ! i) (pos i)" using assms(4) by metis
  have "children_at (map (\<lambda>child. iw_Set I (Some child) IteratorWrapper_make) its) ess pos"
    using pos assms(3) iw_Set_view by (simp add: children_at_def)
  with assms(1,2) show ?thesis unfolding merge_view_def by (auto simp: MergingIterator_make_def)
qed

text \<open>All classes of \<open>NewMergingIterator\<close>.\<close>

definition merged_view :: "comparator \<Rightarrow> status + ('i + 'i merging_iterator) \<Rightarrow> (bytes \<times> bytes) list \<Rightarrow> nat \<Rightarrow> bool" where
  "merged_view c = case_sum empty_view (case_sum view (merge_view c))"

lemma merged_contract: "iterator_contract (Merged_Iterator I) compare keys (merged_view c)"
  unfolding Merged_Iterator_def merged_view_def
  by (rule either_contract [OF empty_iterator.iterator_contract_axioms either_contract [OF iterator_contract_axioms merging_contract]])

lemma NewMergingIterator_view:
  assumes m: "merges compare keys owner ess es" "cmp_Compare c = compare" "length its = length ess"
    and its: "\<And>i. i < length ess \<Longrightarrow> \<exists>p. view (its ! i) (ess ! i) p"
  shows "\<exists>p. merged_view c (NewMergingIterator I c its) es p"
proof -
  consider "its = []" | it where "its = [it]" | a b r where "its = a # b # r" by (metis neq_Nil_conv)
  then show ?thesis
  proof cases
    case 1
    then have "es = []" using m(1,3) by (cases es) (auto simp: merges_def)
    with 1 show ?thesis by (auto simp: NewMergingIterator_def merged_view_def empty_view_def NewEmptyIterator_def)
  next
    case (2 it)
    then have "ess \<noteq> []" and "length ess = 1" using m(3) by auto
    then have "ess ! 0 = es" using m(1) by (auto simp: merges_def intro: filter_True)
    with its [of 0] 2 m(3) \<open>ess \<noteq> []\<close> show ?thesis by (auto simp: NewMergingIterator_def merged_view_def)
  next
    case 3
    with merge_view_make [OF m its] show ?thesis by (auto simp: NewMergingIterator_def merged_view_def)
  qed
qed

end

subsection \<open>The merge of sequences with different keys\<close>

lemma sorted_entries_unique:
  "key_order compare keys \<Longrightarrow> sorted_wrt (\<lambda>a b. compare (fst a) (fst b) < 0) xs \<Longrightarrow> sorted_wrt (\<lambda>a b. compare (fst a) (fst b) < 0) ys \<Longrightarrow>
   set xs = set ys \<Longrightarrow> \<forall>e \<in> set xs. keys (fst e) \<Longrightarrow> xs = ys"
proof (induction xs arbitrary: ys)
  case (Cons x xs)
  then obtain y ys' where ys: "ys = y # ys'" by (cases ys) auto
  have irrefl: "\<not> compare (fst e) (fst e) < 0" if "e \<in> set (x # xs)" for e
    using Cons.prems(1,5) that key_order.compare_refl [of compare keys "fst e"] by auto
  have "x = y"
  proof (rule ccontr)
    assume "x \<noteq> y"
    then have "x \<in> set ys'" "y \<in> set xs" using Cons.prems(4) ys by auto
    then have "compare (fst y) (fst x) < 0" "compare (fst x) (fst y) < 0" using Cons.prems(2,3) ys by auto
    then show False using key_order.compare_flip [OF Cons.prems(1), of "fst x" "fst y"] Cons.prems(5) \<open>y \<in> set xs\<close> by auto
  qed
  moreover have "x \<notin> set xs" "y \<notin> set ys'" using Cons.prems(2,3) irrefl [of x] \<open>x = y\<close> ys by auto
  then have "set xs = set ys'" using Cons.prems(4) ys \<open>x = y\<close> by auto
  ultimately show ?case using Cons.IH [of ys'] Cons.prems ys by auto
qed simp

lemma sorted_merge_exists:
  assumes order: "key_order compare keys"
  shows "\<forall>e \<in> set xs. keys (fst e) \<Longrightarrow> sorted_wrt (\<lambda>a b. compare (fst a) (fst b) \<noteq> 0) xs \<Longrightarrow>
    \<exists>es. sorted_wrt (\<lambda>a b. compare (fst a) (fst b) < 0) es \<and> mset es = mset xs"
proof (induction xs)
  case (Cons x xs)
  then obtain es where es: "sorted_wrt (\<lambda>a b. compare (fst a) (fst b) < 0) es" "mset es = mset xs" by auto
  let ?P = "\<lambda>e. compare (fst e) (fst x) < 0"
  have set: "set es = set xs" using es(2) by (metis set_mset_mset)
  have split: "es = takeWhile ?P es @ dropWhile ?P es" by simp
  have sorted_split: "sorted_wrt (\<lambda>a b. compare (fst a) (fst b) < 0) (takeWhile ?P es) \<and>
      sorted_wrt (\<lambda>a b. compare (fst a) (fst b) < 0) (dropWhile ?P es) \<and>
      (\<forall>a \<in> set (takeWhile ?P es). \<forall>b \<in> set (dropWhile ?P es). compare (fst a) (fst b) < 0)"
  proof -
    have "sorted_wrt (\<lambda>a b. compare (fst a) (fst b) < 0) (takeWhile ?P es @ dropWhile ?P es)" using es(1) by simp
    then show ?thesis by (rule sorted_wrt_append [THEN iffD1])
  qed
  have keys: "\<forall>e \<in> set es. keys (fst e)" "keys (fst x)" using Cons.prems(1) set by auto
  have ne: "compare (fst x) (fst e) \<noteq> 0" if "e \<in> set es" for e using Cons.prems(2) set that by auto
  have "compare (fst x) (fst e) < 0" if e: "e \<in> set (dropWhile ?P es)" for e
  proof -
    obtain h t where ht: "dropWhile ?P es = h # t" using e by (cases "dropWhile ?P es") auto
    have h: "h \<in> set es" using ht by (metis list.set_intros(1) set_dropWhileD)
    have nh: "\<not> ?P h" using ht hd_dropWhile [of ?P es] by simp
    have "compare (fst x) (fst h) < 0"
      using nh ne [OF h] key_order.compare_flip [OF order, of "fst x" "fst h"] key_order.compare_flip [OF order, of "fst h" "fst x"] keys h
      by (metis linorder_neqE_linordered_idom)
    moreover have "e = h \<or> compare (fst h) (fst e) < 0"
      using e ht sorted_split by auto
    ultimately show ?thesis
      using key_order.compare_less_trans [OF order, of "fst x" "fst h" "fst e"] keys h set_dropWhileD [OF e] by auto
  qed
  moreover have "sorted_wrt (\<lambda>a b. compare (fst a) (fst b) < 0) (takeWhile ?P es)" "sorted_wrt (\<lambda>a b. compare (fst a) (fst b) < 0) (dropWhile ?P es)"
    "\<forall>a \<in> set (takeWhile ?P es). \<forall>b \<in> set (dropWhile ?P es). compare (fst a) (fst b) < 0"
    using sorted_split by blast+
  moreover have "?P a" if "a \<in> set (takeWhile ?P es)" for a using that by (rule set_takeWhileD [THEN conjunct2])
  ultimately have "sorted_wrt (\<lambda>a b. compare (fst a) (fst b) < 0) (takeWhile ?P es @ x # dropWhile ?P es)"
    unfolding sorted_wrt_append sorted_wrt.simps list.set by blast
  moreover have "mset (takeWhile ?P es @ x # dropWhile ?P es) = add_mset x (mset es)"
  proof -
    have "mset (takeWhile ?P es) + mset (dropWhile ?P es) = mset es" by (metis mset_append takeWhile_dropWhile_id)
    then show ?thesis by simp
  qed
  ultimately show ?case using es(2) by (intro exI [of _ "takeWhile ?P es @ x # dropWhile ?P es"]) simp
qed simp

text \<open>The children of a merge: sorted, and no key occurs in two of them.\<close>

definition mergeable :: "(bytes \<Rightarrow> bytes \<Rightarrow> int) \<Rightarrow> (bytes \<Rightarrow> bool) \<Rightarrow> (bytes \<times> bytes) list list \<Rightarrow> bool" where
  "mergeable compare keys ess \<longleftrightarrow>
     (\<forall>xs \<in> set ess. sorted_wrt (\<lambda>a b. compare (fst a) (fst b) < 0) xs \<and> (\<forall>e \<in> set xs. keys (fst e))) \<and>
     (\<forall>i < length ess. \<forall>j < i. \<forall>a \<in> set (ess ! j). \<forall>b \<in> set (ess ! i). compare (fst a) (fst b) \<noteq> 0)"

lemma in_set_concat_nth: "e \<in> set (concat xss) \<longleftrightarrow> (\<exists>i < length xss. e \<in> set (xss ! i))"
  by (metis UN_iff in_set_conv_nth set_concat)

lemma mergeable_merges:
  assumes order: "key_order compare keys" and m: "mergeable compare keys ess"
  shows "\<exists>es owner. mset es = mset (concat ess) \<and> merges compare keys owner ess es"
proof -
  have k: "\<forall>e \<in> set (concat ess). keys (fst e)" using m by (auto simp: mergeable_def)
  have refl: "compare (fst a) (fst a) = 0" if "keys (fst a)" for a :: "bytes \<times> bytes" using key_order.compare_refl [OF order that] .
  have "sorted_wrt (\<lambda>a b. compare (fst a) (fst b) \<noteq> 0) (concat ess)"
    using m
  proof (induction ess rule: rev_induct)
    case (snoc xs ess)
    have "mergeable compare keys ess"
      unfolding mergeable_def
    proof (intro conjI allI impI)
      fix i j assume "i < length ess" "j < i"
      then have "\<forall>a \<in> set ((ess @ [xs]) ! j). \<forall>b \<in> set ((ess @ [xs]) ! i). compare (fst a) (fst b) \<noteq> 0"
        using snoc.prems less_SucI unfolding mergeable_def length_append_singleton by blast
      with \<open>i < length ess\<close> \<open>j < i\<close> show "\<forall>a \<in> set (ess ! j). \<forall>b \<in> set (ess ! i). compare (fst a) (fst b) \<noteq> 0"
        by (simp add: nth_append)
    qed (use snoc.prems in \<open>auto simp: mergeable_def\<close>)
    moreover have "compare (fst a) (fst b) \<noteq> 0" if ab: "a \<in> set (concat ess)" "b \<in> set xs" for a b
    proof -
      obtain j where "j < length ess" "a \<in> set (ess ! j)" using ab(1) by (auto simp only: in_set_concat_nth)
      moreover have "\<forall>j < length ess. \<forall>a \<in> set ((ess @ [xs]) ! j). \<forall>b \<in> set ((ess @ [xs]) ! length ess). compare (fst a) (fst b) \<noteq> 0"
        using snoc.prems lessI [of "length ess"] unfolding mergeable_def length_append_singleton by blast
      ultimately show ?thesis using ab(2) by (simp add: nth_append)
    qed
    moreover have "sorted_wrt (\<lambda>a b. compare (fst a) (fst b) \<noteq> 0) xs"
      using snoc.prems by (auto simp: mergeable_def intro: sorted_wrt_mono_rel [of xs "\<lambda>a b. compare (fst a) (fst b) < 0"])
    ultimately show ?case using snoc.IH by (auto simp: sorted_wrt_append)
  qed simp
  then obtain es where es: "sorted_wrt (\<lambda>a b. compare (fst a) (fst b) < 0) es" "mset es = mset (concat ess)"
    using sorted_merge_exists [OF order k] by blast
  have set: "set es = set (concat ess)" using es(2) by (metis set_mset_mset)
  let ?owner = "\<lambda>e. LEAST i. i < length ess \<and> e \<in> set (ess ! i)"
  have owner: "?owner e = i" if "i < length ess" "e \<in> set (ess ! i)" for e i
  proof (rule Least_equality)
    fix j assume j: "j < length ess \<and> e \<in> set (ess ! j)"
    have "e \<in> set (concat ess)" using that in_set_concat_nth [of e ess] by blast
    then have "compare (fst e) (fst e) = 0" using k by (intro refl) blast
    then show "i \<le> j" using m j that unfolding mergeable_def by (metis not_le)
  qed (use that in simp)
  have "ess ! i = filter (\<lambda>e. ?owner e = i) es" if i: "i < length ess" for i
  proof (rule sorted_entries_unique [OF order])
    show "sorted_wrt (\<lambda>a b. compare (fst a) (fst b) < 0) (ess ! i)" "\<forall>e \<in> set (ess ! i). keys (fst e)"
      using m i by (auto simp: mergeable_def)
    show "sorted_wrt (\<lambda>a b. compare (fst a) (fst b) < 0) (filter (\<lambda>e. ?owner e = i) es)" using es(1) by (rule sorted_wrt_filter)
    show "set (ess ! i) = set (filter (\<lambda>e. ?owner e = i) es)"
    proof
      show "set (ess ! i) \<subseteq> set (filter (\<lambda>e. ?owner e = i) es)" using owner [OF i] set i by auto
      show "set (filter (\<lambda>e. ?owner e = i) es) \<subseteq> set (ess ! i)"
      proof
        fix e assume "e \<in> set (filter (\<lambda>e. ?owner e = i) es)"
        then have e: "e \<in> set (concat ess)" "?owner e = i" using set by auto
        then obtain j where j: "j < length ess" "e \<in> set (ess ! j)" by (auto simp only: in_set_concat_nth)
        with owner [OF j] e(2) show "e \<in> set (ess ! i)" by simp
      qed
    qed
  qed
  moreover have "?owner e < length ess" if e: "e \<in> set es" for e
  proof -
    obtain j where "j < length ess" "e \<in> set (ess ! j)" using e set by (auto simp only: in_set_concat_nth)
    with owner show ?thesis by simp
  qed
  ultimately show ?thesis
    using es order k set unfolding merges_def by (intro exI [of _ es] exI [of _ ?owner]) auto
qed

subsection \<open>Shared keys\<close>

text \<open>
  The header file says that a key in several children is yielded once for each.  After a change of direction it is not: on two children with
  the one key 97, \<open>Next\<close> from the first entry leads to the second, and \<open>Prev\<close> from there moves every other child before the
  key and leaves the sequence.  The children here are the simplest iterators, lists of keys with an index.
\<close>

definition key_cursor :: "(bytes list \<times> nat) iterator" where
  "key_cursor = \<lparr>
     it_Valid = (\<lambda>(ks, n). n < length ks), it_SeekToFirst = (\<lambda>(ks, n). Some (ks, 0)), it_SeekToLast = (\<lambda>(ks, n). Some (ks, length ks - 1)),
     it_Seek = (\<lambda>t (ks, n). Some (ks, length (takeWhile (\<lambda>k. BytewiseComparator_Compare k t < 0) ks))),
     it_Next = (\<lambda>(ks, n). Some (ks, Suc n)), it_Prev = (\<lambda>(ks, n). Some (ks, if n = 0 then length ks else n - 1)),
     it_key = (\<lambda>(ks, n). ks ! n), it_value = (\<lambda>_. []), it_status = (\<lambda>_. Status_OK)\<rparr>"

lemma shared_keys_are_lost:
  "\<exists>it1 it2 it3. let J = Merged_Iterator key_cursor in
     it_SeekToFirst J (NewMergingIterator key_cursor BytewiseComparator [([[97]], 0), ([[97]], 0)]) = Some it1 \<and> it_Valid J it1 \<and> it_key J it1 = [97] \<and>
     it_Next J it1 = Some it2 \<and> it_Valid J it2 \<and> it_key J it2 = [97] \<and>
     it_Prev J it2 = Some it3 \<and> \<not> it_Valid J it3"
  by (simp add: Let_def Merged_Iterator_def NewMergingIterator_def either_iterator_def MergingIterator_def MergingIterator_make_def
      Merging_SeekToFirst_def Merging_Next_def Merging_Prev_def Merging_Valid_def Merging_key_def FindSmallest_def FindLargest_def before_key_def
      key_cursor_def iw_Set_def iw_Update_def iw_SeekToFirst_def iw_Next_def iw_Seek_def iw_Prev_def iw_SeekToLast_def IteratorWrapper_make_def BytewiseComparator_sel BytewiseComparator_Compare_lex upt_rec)

subsection \<open>Properties\<close>

text \<open>
  C7: merging presents the union of its children in order, when no two children share a key.  For children that are cursors on sorted
  sequences whose keys all differ, as the internal keys of a database do, whatever the classes and positions of the children, the new iterator presents one
  ascending sequence with exactly the entries of all children: forwards from \<open>SeekToFirst\<close>, backwards
  from \<open>SeekToLast\<close>, from the first key not below a target, and after any mixture of \<open>Next\<close> and \<open>Prev\<close>
  steps.  With shared keys the last part is false, as \<open>shared_keys_are_lost\<close> shows.
\<close>

theorem merging_iterator_is_sorted_union:
  assumes "iterator_contract I (cmp_Compare c) keys view" "key_order (cmp_Compare c) keys" "mergeable (cmp_Compare c) keys ess"
    and "length its = length ess" "\<forall>i < length ess. \<exists>p. view (its ! i) (ess ! i) p" "keys target"
  shows "\<exists>es. sorted_wrt (\<lambda>a b. cmp_Compare c (fst a) (fst b) < 0) es \<and> mset es = mset (concat ess) \<and>
    (let J = Merged_Iterator I; it = NewMergingIterator I c its in
      (\<exists>it'. it_SeekToFirst J it = Some it' \<and> scan J it' = Some es) \<and>
      (\<exists>it'. it_SeekToLast J it = Some it' \<and> scan_back J it' = Some (rev es)) \<and>
      (\<exists>it'. it_Seek J target it = Some it' \<and> scan J it' = Some (dropWhile (\<lambda>e. cmp_Compare c (fst e) target < 0) es)) \<and>
      (\<forall>fs n. walk_index (length es) fs 0 = Some n \<longrightarrow>
        (\<exists>it'. (it_SeekToFirst J it \<bind> walk J fs) = Some it' \<and> scan J it' = Some (drop n es))))"
proof -
  obtain es owner where es: "mset es = mset (concat ess)" "merges (cmp_Compare c) keys owner ess es"
    using mergeable_merges [OF assms(2,3)] by blast
  note J = iterator_contract.merged_contract [OF assms(1), of c]
  obtain p where p: "iterator_contract.merged_view (cmp_Compare c) keys view c (NewMergingIterator I c its) es p"
    using iterator_contract.NewMergingIterator_view [OF assms(1) es(2) refl assms(4)] assms(5) by blast
  have "\<exists>it'. (it_SeekToFirst (Merged_Iterator I) (NewMergingIterator I c its) \<bind> walk (Merged_Iterator I) fs) = Some it' \<and>
      scan (Merged_Iterator I) it' = Some (drop n es)" if fs: "walk_index (length es) fs 0 = Some n" for fs n
  proof -
    obtain it0 where it0: "it_SeekToFirst (Merged_Iterator I) (NewMergingIterator I c its) = Some it0"
      "iterator_contract.merged_view (cmp_Compare c) keys view c it0 es 0"
      using iterator_contract.view_SeekToFirst [OF J p] by blast
    obtain it' where "walk (Merged_Iterator I) fs it0 = Some it'" "iterator_contract.merged_view (cmp_Compare c) keys view c it' es n"
      using walk_view [OF J it0(2) fs] by blast
    with it0(1) iterator_contract.scan_view [OF J] show ?thesis by auto
  qed
  moreover have "length es = length (concat ess)" using es(1) by (metis size_mset)
  ultimately show ?thesis
    using iterator_contract.reads_all [OF J p assms(6)] es by (intro exI [of _ es]) (simp add: Let_def merges_def)
qed

theorem merging_iterator_is_sorted_union_witness:
  "\<exists>it1 it2 J it es. Block_NewIterator (Block_make (fst (BlockBuilder_Finish (build_block 16 [([97], [1]), ([99], [3])])))) BytewiseComparator = Inr it1 \<and>
     Block_NewIterator (Block_make (fst (BlockBuilder_Finish (build_block 16 [([98], [2])])))) BytewiseComparator = Inr it2 \<and>
     it_SeekToFirst (Merged_Iterator Block_Iter) (NewMergingIterator Block_Iter BytewiseComparator [it1, it2]) = Some it \<and>
     scan (Merged_Iterator Block_Iter) it = Some es \<and> mset es = {#([97], [1]), ([98], [2]), ([99], [3])#}"
proof -
  let ?c = BytewiseComparator and ?k = "\<lambda>_ :: bytes. True"
  let ?e1 = "[([97], [1]), ([99], [3])] :: (bytes \<times> bytes) list" and ?e2 = "[([98], [2])] :: (bytes \<times> bytes) list"
  have sorted: "sorted_wrt (\<lambda>a b. cmp_Compare ?c (fst a) (fst b) < 0) ?e1" "sorted_wrt (\<lambda>a b. cmp_Compare ?c (fst a) (fst b) < 0) ?e2"
    by (simp_all add: BytewiseComparator_sel BytewiseComparator_Compare_lex)
  have small: "length (fst (BlockBuilder_Finish (build_block 16 ?e1))) < 2 ^ 32" "length (fst (BlockBuilder_Finish (build_block 16 ?e2))) < 2 ^ 32"
    by (simp_all add: build_block_def BlockBuilder_Finish_def BlockBuilder_Add_def BlockBuilder_make_def Let_def PutVarint32_def
        PutFixed32_def EncodeVarint32_def resize_def)
  obtain it1 it2 where
    it1: "Block_NewIterator (Block_make (fst (BlockBuilder_Finish (build_block 16 ?e1)))) ?c = Inr it1" "block_view ?c ?k it1 ?e1 2" and
    it2: "Block_NewIterator (Block_make (fst (BlockBuilder_Finish (build_block 16 ?e2)))) ?c = Inr it2" "block_view ?c ?k it2 ?e2 1"
    using block_view_make [OF bytewise.key_order_axioms sorted(1) _ _ small(1)] block_view_make [OF bytewise.key_order_axioms sorted(2) _ _ small(2)]
    by (auto simp: numeral_2_eq_2)
  have "mergeable (cmp_Compare ?c) ?k [?e1, ?e2]"
    using sorted by (simp add: mergeable_def All_less_Suc BytewiseComparator_sel BytewiseComparator_Compare_lex)
  moreover have "\<forall>i < length [?e1, ?e2]. \<exists>p. block_view ?c ?k ([it1, it2] ! i) ([?e1, ?e2] ! i) p"
    using it1(2) it2(2) by (auto simp: All_less_Suc)
  ultimately show ?thesis
    using merging_iterator_is_sorted_union [OF block.iterator_contract_axioms bytewise.key_order_axioms, of "[?e1, ?e2]" "[it1, it2]" "[]"]
      it1(1) it2(1) by (fastforce simp: Let_def)
qed

end
