(* ===== verification/Db_Iter.thy ===== *)
theory Db_Iter
  imports Dbformat Merger Random_Arena
begin

text \<open>
  \<^verbatim>\<open>db/db_iter.cc\<close>: the iterator of the database, which shows of the entries of an internal iterator
  the newest value of every user key at a snapshot.  The calls of \<open>RecordReadSample\<close> on the database
  are recorded in order.  The contract is proved in the locale \<open>db_iterating\<close>.
\<close>

definition kReadBytesPeriod :: nat where "kReadBytesPeriod = 1048576"

datatype direction = kForward | kReverse

record read_sampling =
  rs_rnd :: Random
  rs_bytes_until_read_sampling :: nat
  rs_samples :: "bytes list"

record 'i db_iter =
  di_user_comparator :: comparator
  di_iter :: 'i
  di_sequence :: u64
  di_status :: status
  di_saved_key :: bytes
  di_saved_value :: bytes
  di_direction :: direction
  di_valid :: bool
  di_sampling :: read_sampling

definition RandomCompactionPeriod :: "Random \<Rightarrow> nat \<times> Random" where
  "RandomCompactionPeriod rnd = (let (n, rnd) = Random_Uniform rnd (word_of_nat (2 * kReadBytesPeriod)) in (unat n, rnd))"

definition DBIter_make :: "comparator \<Rightarrow> 'i \<Rightarrow> u64 \<Rightarrow> u32 \<Rightarrow> 'i db_iter" where
  "DBIter_make cmp iter s seed =
     (let (period, rnd) = RandomCompactionPeriod (Random_make seed)
      in \<lparr>di_user_comparator = cmp, di_iter = iter, di_sequence = s, di_status = Status_OK, di_saved_key = [], di_saved_value = [],
          di_direction = kForward, di_valid = False,
          di_sampling = \<lparr>rs_rnd = rnd, rs_bytes_until_read_sampling = period, rs_samples = []\<rparr>\<rparr>)"

text \<open>The loop of \<open>ParseKey\<close>; a period may be 0, so that its end rests on the generator.\<close>

partial_function (option) sample_reads :: "bytes \<Rightarrow> nat \<Rightarrow> read_sampling \<Rightarrow> read_sampling option" where
  "sample_reads k bytes_read s =
     (if rs_bytes_until_read_sampling s < bytes_read then
        let (period, rnd) = RandomCompactionPeriod (rs_rnd s)
        in sample_reads k bytes_read
             (s\<lparr>rs_rnd := rnd, rs_bytes_until_read_sampling := rs_bytes_until_read_sampling s + period,
                rs_samples := rs_samples s @ [k]\<rparr>)
      else Some (s\<lparr>rs_bytes_until_read_sampling := rs_bytes_until_read_sampling s - bytes_read\<rparr>))"

definition ParseKey :: "'i iterator \<Rightarrow> 'i db_iter \<Rightarrow> (ParsedInternalKey option \<times> 'i db_iter) option" where
  "ParseKey I d = do {
     let k = it_key I (di_iter d);
     sampling \<leftarrow> sample_reads k (length k + length (it_value I (di_iter d))) (di_sampling d);
     let d = d\<lparr>di_sampling := sampling\<rparr>;
     Some (case ParseInternalKey k of
             None \<Rightarrow> (None, d\<lparr>di_status := Status_Corruption (lit ''corrupted internal key in DBIter'') []\<rparr>)
           | Some ikey \<Rightarrow> (Some ikey, d)) }"

text \<open>\<open>skip\<close> is always the address of \<open>saved_key_\<close>.\<close>

partial_function (option) FindNextUserEntry :: "'i iterator \<Rightarrow> bool \<Rightarrow> 'i db_iter \<Rightarrow> 'i db_iter option" where
  "FindNextUserEntry I skipping d = do {
     (key, d) \<leftarrow> ParseKey I d;
     let (found, skipping, d) =
       (case key of
          None \<Rightarrow> (False, skipping, d)
        | Some ikey \<Rightarrow>
            if pik_sequence ikey \<le> di_sequence d then
              (case pik_type ikey of
                 kTypeDeletion \<Rightarrow> (False, True, d\<lparr>di_saved_key := pik_user_key ikey\<rparr>)
               | kTypeValue \<Rightarrow>
                   (\<not> (skipping \<and> cmp_Compare (di_user_comparator d) (pik_user_key ikey) (di_saved_key d) \<le> 0), skipping, d))
            else (False, skipping, d));
     if found then Some (d\<lparr>di_valid := True, di_saved_key := []\<rparr>)
     else do {
       it \<leftarrow> it_Next I (di_iter d);
       let d = d\<lparr>di_iter := it\<rparr>;
       if it_Valid I it then FindNextUserEntry I skipping d
       else Some (d\<lparr>di_saved_key := [], di_valid := False\<rparr>) } }"

partial_function (option) find_prev_loop :: "'i iterator \<Rightarrow> ValueType \<Rightarrow> 'i db_iter \<Rightarrow> (ValueType \<times> 'i db_iter) option" where
  "find_prev_loop I value_type d = do {
     (key, d) \<leftarrow> ParseKey I d;
     let (stop, value_type, d) =
       (case key of
          None \<Rightarrow> (False, value_type, d)
        | Some ikey \<Rightarrow>
            if pik_sequence ikey \<le> di_sequence d then
              if value_type \<noteq> kTypeDeletion \<and> cmp_Compare (di_user_comparator d) (pik_user_key ikey) (di_saved_key d) < 0
              then (True, value_type, d)
              else if pik_type ikey = kTypeDeletion
              then (False, kTypeDeletion, d\<lparr>di_saved_key := [], di_saved_value := []\<rparr>)
              else (False, pik_type ikey, d\<lparr>di_saved_key := ExtractUserKey (it_key I (di_iter d)),
                                            di_saved_value := it_value I (di_iter d)\<rparr>)
            else (False, value_type, d));
     if stop then Some (value_type, d)
     else do {
       it \<leftarrow> it_Prev I (di_iter d);
       let d = d\<lparr>di_iter := it\<rparr>;
       if it_Valid I it then find_prev_loop I value_type d else Some (value_type, d) } }"

definition FindPrevUserEntry :: "'i iterator \<Rightarrow> 'i db_iter \<Rightarrow> 'i db_iter option" where
  "FindPrevUserEntry I d = do {
     (value_type, d) \<leftarrow> (if it_Valid I (di_iter d) then find_prev_loop I kTypeDeletion d else Some (kTypeDeletion, d));
     Some (if value_type = kTypeDeletion
           then d\<lparr>di_valid := False, di_saved_key := [], di_saved_value := [], di_direction := kForward\<rparr>
           else d\<lparr>di_valid := True\<rparr>) }"

definition DBIter_Next :: "'i iterator \<Rightarrow> 'i db_iter \<Rightarrow> 'i db_iter option" where
  "DBIter_Next I d =
     (if \<not> di_valid d then None
      else if di_direction d = kReverse then do {
        let d = d\<lparr>di_direction := kForward\<rparr>;
        it \<leftarrow> (if \<not> it_Valid I (di_iter d) then it_SeekToFirst I (di_iter d) else it_Next I (di_iter d));
        let d = d\<lparr>di_iter := it\<rparr>;
        if \<not> it_Valid I it then Some (d\<lparr>di_valid := False, di_saved_key := []\<rparr>)
        else FindNextUserEntry I True d }
      else FindNextUserEntry I True (d\<lparr>di_saved_key := ExtractUserKey (it_key I (di_iter d))\<rparr>))"

text \<open>The loop that leaves the entries of the current user key: \<open>None\<close> inside when there is nothing before them.\<close>

partial_function (option) before_user_key :: "'i iterator \<Rightarrow> comparator \<Rightarrow> bytes \<Rightarrow> 'i \<Rightarrow> 'i option" where
  "before_user_key I user_comparator saved_key it = do {
     it \<leftarrow> it_Prev I it;
     if \<not> it_Valid I it then Some it
     else if cmp_Compare user_comparator (ExtractUserKey (it_key I it)) saved_key < 0 then Some it
     else before_user_key I user_comparator saved_key it }"

definition DBIter_Prev :: "'i iterator \<Rightarrow> 'i db_iter \<Rightarrow> 'i db_iter option" where
  "DBIter_Prev I d =
     (if \<not> di_valid d then None
      else if di_direction d = kForward then do {
        let d = d\<lparr>di_saved_key := ExtractUserKey (it_key I (di_iter d))\<rparr>;
        it \<leftarrow> before_user_key I (di_user_comparator d) (di_saved_key d) (di_iter d);
        let d = d\<lparr>di_iter := it\<rparr>;
        if \<not> it_Valid I it then Some (d\<lparr>di_valid := False, di_saved_key := [], di_saved_value := []\<rparr>)
        else FindPrevUserEntry I (d\<lparr>di_direction := kReverse\<rparr>) }
      else FindPrevUserEntry I d)"

definition DBIter_Seek :: "'i iterator \<Rightarrow> bytes \<Rightarrow> 'i db_iter \<Rightarrow> 'i db_iter option" where
  "DBIter_Seek I target d = do {
     let d = d\<lparr>di_direction := kForward, di_saved_value := [],
       di_saved_key := AppendInternalKey [] \<lparr>pik_user_key = target, pik_sequence = di_sequence d, pik_type = kValueTypeForSeek\<rparr>\<rparr>;
     it \<leftarrow> it_Seek I (di_saved_key d) (di_iter d);
     let d = d\<lparr>di_iter := it\<rparr>;
     if it_Valid I it then FindNextUserEntry I False d else Some (d\<lparr>di_valid := False\<rparr>) }"

definition DBIter_SeekToFirst :: "'i iterator \<Rightarrow> 'i db_iter \<Rightarrow> 'i db_iter option" where
  "DBIter_SeekToFirst I d = do {
     let d = d\<lparr>di_direction := kForward, di_saved_value := []\<rparr>;
     it \<leftarrow> it_SeekToFirst I (di_iter d);
     let d = d\<lparr>di_iter := it\<rparr>;
     if it_Valid I it then FindNextUserEntry I False d else Some (d\<lparr>di_valid := False\<rparr>) }"

definition DBIter_SeekToLast :: "'i iterator \<Rightarrow> 'i db_iter \<Rightarrow> 'i db_iter option" where
  "DBIter_SeekToLast I d = do {
     let d = d\<lparr>di_direction := kReverse, di_saved_value := []\<rparr>;
     it \<leftarrow> it_SeekToLast I (di_iter d);
     FindPrevUserEntry I (d\<lparr>di_iter := it\<rparr>) }"

definition DBIter_key :: "'i iterator \<Rightarrow> 'i db_iter \<Rightarrow> bytes" where
  "DBIter_key I d = (if di_direction d = kForward then ExtractUserKey (it_key I (di_iter d)) else di_saved_key d)"

definition DBIter_value :: "'i iterator \<Rightarrow> 'i db_iter \<Rightarrow> bytes" where
  "DBIter_value I d = (if di_direction d = kForward then it_value I (di_iter d) else di_saved_value d)"

definition DBIter_status :: "'i iterator \<Rightarrow> 'i db_iter \<Rightarrow> status" where
  "DBIter_status I d = (if Status_ok (di_status d) then it_status I (di_iter d) else di_status d)"

definition DBIterator :: "'i iterator \<Rightarrow> 'i db_iter iterator" where
  "DBIterator I = \<lparr>
     it_Valid = di_valid,
     it_SeekToFirst = DBIter_SeekToFirst I, it_SeekToLast = DBIter_SeekToLast I, it_Seek = DBIter_Seek I,
     it_Next = DBIter_Next I, it_Prev = DBIter_Prev I,
     it_key = DBIter_key I, it_value = DBIter_value I, it_status = DBIter_status I\<rparr>"

subsection \<open>The sampling loop ends\<close>

lemma RandomCompactionPeriod_next:
  assumes "valid_seed r"
  shows "valid_seed (snd (RandomCompactionPeriod r))"
    "unat (snd (RandomCompactionPeriod r)) = unat r * 16807 mod 2147483647"
    "fst (RandomCompactionPeriod r) = unat r * 16807 mod 2147483647 mod 2097152"
proof -
  have p: "RandomCompactionPeriod r = (unat (fst (Random_Next r) mod word_of_nat (2 * kReadBytesPeriod)), snd (Random_Next r))"
    by (simp add: RandomCompactionPeriod_def Random_Uniform_def Let_def case_prod_beta)
  show "valid_seed (snd (RandomCompactionPeriod r))" using Random_Next_valid [OF assms] unfolding p snd_conv by blast
  show "unat (snd (RandomCompactionPeriod r)) = unat r * 16807 mod 2147483647"
    using Random_Next_valid [OF assms] Random_Next_eq [OF assms] unfolding p snd_conv by metis
  show "fst (RandomCompactionPeriod r) = unat r * 16807 mod 2147483647 mod 2097152"
    unfolding p fst_conv unat_mod by (simp add: Random_Next_eq [OF assms] kReadBytesPeriod_def)
qed

text \<open>A period is 0 when the generator is at a multiple of \<open>2 ^ 21\<close>; the period after it is then not 0.\<close>

lemma multiple_then_not:
  assumes "0 < k" "k < 1024"
  shows "k * 2097152 * 16807 mod 2147483647 mod 2097152 \<noteq> (0 :: nat)"
proof -
  let ?a = "k * 16807 div 1024" and ?b = "k * 16807 mod 1024"
  have b: "?b < 1024" by simp
  have a: "0 < ?a" "?a < 16807" using assms by simp_all
  have "k * 16807 = ?a * 1024 + ?b" by simp
  then have "k * 2097152 * 16807 = (?a * 1024 + ?b) * 2097152" by (metis mult.assoc mult.commute)
  also have "\<dots> = (?a + ?b * 2097152) + 2147483647 * ?a" by (simp only: algebra_simps)
  finally have "k * 2097152 * 16807 mod 2147483647 = (?a + ?b * 2097152) mod 2147483647" by (simp only: mod_mult_self2)
  also have "\<dots> = ?a + ?b * 2097152" using a(2) b by (intro mod_less) linarith
  finally show ?thesis using a by simp
qed

lemma no_two_zero_periods:
  assumes "valid_seed r" "fst (RandomCompactionPeriod r) = 0"
  shows "0 < fst (RandomCompactionPeriod (snd (RandomCompactionPeriod r)))"
proof -
  let ?r = "snd (RandomCompactionPeriod r)"
  note r = RandomCompactionPeriod_next [OF assms(1)]
  have "unat ?r mod 2097152 = 0" using r(2,3) assms(2) by simp
  then obtain k where k: "unat ?r = k * 2097152" by (metis mod_0_imp_dvd dvd_def mult.commute)
  have "0 < k" "k < 1024" using r(1) k by (auto simp: valid_seed_def)
  from multiple_then_not [OF this] show ?thesis using RandomCompactionPeriod_next(3) [OF r(1)] k by simp
qed

lemma sample_reads_total:
  assumes "valid_seed (rs_rnd s)"
  shows "\<exists>s'. sample_reads k n s = Some s' \<and> valid_seed (rs_rnd s')"
  using assms
proof (induction "2 * (n - rs_bytes_until_read_sampling s) + (if fst (RandomCompactionPeriod (rs_rnd s)) = 0 then 1 else 0)"
    arbitrary: s rule: less_induct)
  case less
  show ?case
  proof (cases "rs_bytes_until_read_sampling s < n")
    case True
    let ?p = "RandomCompactionPeriod (rs_rnd s)"
    let ?s = "s\<lparr>rs_rnd := snd ?p, rs_bytes_until_read_sampling := rs_bytes_until_read_sampling s + fst ?p, rs_samples := rs_samples s @ [k]\<rparr>"
    have "2 * (n - rs_bytes_until_read_sampling ?s) + (if fst (RandomCompactionPeriod (rs_rnd ?s)) = 0 then 1 else 0) <
        2 * (n - rs_bytes_until_read_sampling s) + (if fst ?p = 0 then 1 else 0)"
      using True no_two_zero_periods [OF less.prems] by (cases "fst ?p = 0") auto
    moreover have "valid_seed (rs_rnd ?s)" using RandomCompactionPeriod_next(1) [OF less.prems] by simp
    ultimately obtain s' where "sample_reads k n ?s = Some s'" "valid_seed (rs_rnd s')" using less.hyps by blast
    then show ?thesis using True by (subst sample_reads.simps) (simp add: case_prod_beta)
  next
    case False
    then show ?thesis using less.prems by (subst sample_reads.simps) simp
  qed
qed

subsection \<open>What is visible at a snapshot\<close>

text \<open>An entry is acceptable at snapshot \<open>s\<close> when it is not newer; the visible entries are the first acceptable ones of each user key that are values.\<close>

definition acceptable :: "u64 \<Rightarrow> bytes \<times> bytes \<Rightarrow> bool" where
  "acceptable s e = (case ParseInternalKey (fst e) of None \<Rightarrow> False | Some p \<Rightarrow> pik_sequence p \<le> s)"

definition is_value :: "bytes \<times> bytes \<Rightarrow> bool" where
  "is_value e = (case ParseInternalKey (fst e) of None \<Rightarrow> False | Some p \<Rightarrow> pik_type p = kTypeValue)"

definition visible_at :: "comparator \<Rightarrow> u64 \<Rightarrow> (bytes \<times> bytes) list \<Rightarrow> nat \<Rightarrow> bool" where
  "visible_at u s ies i \<longleftrightarrow> acceptable s (ies ! i) \<and> is_value (ies ! i) \<and>
     (\<forall>e \<in> set (take i ies). acceptable s e \<longrightarrow> cmp_Compare u (ExtractUserKey (fst e)) (ExtractUserKey (fst (ies ! i))) \<noteq> 0)"

definition user_entry :: "bytes \<times> bytes \<Rightarrow> bytes \<times> bytes" where
  "user_entry e = (ExtractUserKey (fst e), snd e)"

definition visible :: "comparator \<Rightarrow> u64 \<Rightarrow> (bytes \<times> bytes) list \<Rightarrow> (bytes \<times> bytes) list" where
  "visible u s ies = map (\<lambda>i. user_entry (ies ! i)) (filter (visible_at u s ies) [0..<length ies])"

definition internal_entries :: "comparator \<Rightarrow> (bytes \<Rightarrow> bool) \<Rightarrow> (bytes \<times> bytes) list \<Rightarrow> bool" where
  "internal_entries u ukeys ies \<longleftrightarrow>
     sorted_wrt (\<lambda>a b. InternalKeyComparator_Compare u (fst a) (fst b) < 0) ies \<and>
     (\<forall>e \<in> set ies. ParseInternalKey (fst e) \<noteq> None \<and> ukeys (ExtractUserKey (fst e)))"

lemma Parse_user_key: "ParseInternalKey k = Some q \<Longrightarrow> pik_user_key q = ExtractUserKey k"
  using ParseInternalKey_bytes ExtractUserKey_Append by metis

subsection \<open>Counting\<close>

lemma length_filter_upt_Suc: "length (filter P [0..<Suc r]) = length (filter P [0..<r]) + (if P r then 1 else 0)"
  by simp

lemma length_filter_upt_same:
  assumes "a \<le> b" "\<And>i. a \<le> i \<Longrightarrow> i < b \<Longrightarrow> \<not> P i"
  shows "length (filter P [0..<b]) = length (filter P [0..<a])"
proof -
  have "[0..<b] = [0..<a] @ [a..<b]" using assms(1) upt_add_eq_append [of 0 a "b - a"] by simp
  moreover have "filter P [a..<b] = []" using assms(2) by (auto simp: filter_empty_conv)
  ultimately show ?thesis by simp
qed

lemma nth_filter_upt:
  assumes "P r" "r < m"
  shows "length (filter P [0..<r]) < length (filter P [0..<m])" "filter P [0..<m] ! length (filter P [0..<r]) = r"
proof -
  have "[0..<m] = [0..<r] @ r # [Suc r..<m]"
    using assms(2) upt_add_eq_append [of 0 r "m - r"] by (simp add: upt_conv_Cons)
  with assms(1) show "length (filter P [0..<r]) < length (filter P [0..<m])" "filter P [0..<m] ! length (filter P [0..<r]) = r"
    by simp_all
qed

subsection \<open>The loops of the iterator\<close>

locale db_iterating = user: key_order "cmp_Compare u" ukeys +
    internal: iterator_contract I "InternalKeyComparator_Compare u" "internal_keys ukeys" view
  for u :: comparator and ukeys :: "bytes \<Rightarrow> bool" and I :: "'i iterator"
    and view :: "'i \<Rightarrow> (bytes \<times> bytes) list \<Rightarrow> nat \<Rightarrow> bool"
begin

abbreviation U :: "(bytes \<times> bytes) list \<Rightarrow> nat \<Rightarrow> bytes" where
  "U ies i \<equiv> ExtractUserKey (fst (ies ! i))"

abbreviation acc :: "u64 \<Rightarrow> (bytes \<times> bytes) list \<Rightarrow> nat \<Rightarrow> bool" where
  "acc s ies i \<equiv> acceptable s (ies ! i)"

abbreviation before :: "bytes \<Rightarrow> bytes \<Rightarrow> bool" where
  "before a b \<equiv> cmp_Compare u a b < 0"

abbreviation upto_key :: "bytes \<Rightarrow> bytes \<Rightarrow> bool" where
  "upto_key a b \<equiv> cmp_Compare u a b \<le> 0"

lemma U_key: "internal_entries u ukeys ies \<Longrightarrow> i < length ies \<Longrightarrow> ukeys (U ies i)"
  by (simp add: internal_entries_def)

lemma U_mono:
  assumes "internal_entries u ukeys ies" "i \<le> j" "j < length ies"
  shows "upto_key (U ies i) (U ies j)"
proof (cases "i = j")
  case True
  then show ?thesis using user.compare_refl U_key [OF assms(1,3)] by simp
next
  case False
  then have "InternalKeyComparator_Compare u (fst (ies ! i)) (fst (ies ! j)) < 0"
    using sorted_wrt_nth_less [OF conjunct1 [OF assms(1) [unfolded internal_entries_def]], of i j] assms(2,3) by simp
  then show ?thesis by (auto simp: InternalKeyComparator_Compare_simps)
qed

lemma visible_at_nth:
  assumes "i < length ies"
  shows "visible_at u s ies i \<longleftrightarrow> acc s ies i \<and> is_value (ies ! i) \<and>
    (\<forall>j < i. acc s ies j \<longrightarrow> cmp_Compare u (U ies j) (U ies i) \<noteq> 0)"
proof -
  have "set (take i ies) = (\<lambda>j. ies ! j) ` {..<i}"
    using assms nth_image [of i ies] by (simp add: lessThan_atLeast0)
  then show ?thesis by (auto simp: visible_at_def)
qed

text \<open>What every step keeps.\<close>

definition core :: "u64 \<Rightarrow> 'i db_iter \<Rightarrow> bool" where
  "core s d \<longleftrightarrow> di_user_comparator d = u \<and> di_sequence d = s \<and> Status_ok (di_status d) \<and>
     valid_seed (rs_rnd (di_sampling d)) \<and> s \<le> kMaxSequenceNumber"

lemma ParseKey_view:
  assumes "core s d" "internal_entries u ukeys ies" "view (di_iter d) ies p" "p < length ies"
  shows "\<exists>q smp. ParseInternalKey (fst (ies ! p)) = Some q \<and> pik_user_key q = U ies p \<and>
    (pik_sequence q \<le> s \<longleftrightarrow> acc s ies p) \<and> (pik_type q = kTypeValue \<longleftrightarrow> is_value (ies ! p)) \<and>
    ParseKey I d = Some (Some q, d\<lparr>di_sampling := smp\<rparr>) \<and> core s (d\<lparr>di_sampling := smp\<rparr>)"
proof -
  obtain q where q: "ParseInternalKey (fst (ies ! p)) = Some q"
    using assms(2,4) by (auto simp: internal_entries_def dest: nth_mem)
  obtain smp where "sample_reads (fst (ies ! p)) (length (fst (ies ! p)) + length (snd (ies ! p))) (di_sampling d) = Some smp"
    "valid_seed (rs_rnd smp)"
    using sample_reads_total assms(1) unfolding core_def by blast
  then show ?thesis
    using q assms(1) internal.view_key_value [OF assms(3,4)] Parse_user_key [OF q]
    by (intro exI [of _ q] exI [of _ smp]) (simp add: ParseKey_def acceptable_def is_value_def core_def)
qed

text \<open>The loop of \<open>FindNextUserEntry\<close>: the entries it may stop at, and its invariant.\<close>

definition pending :: "u64 \<Rightarrow> (bytes \<times> bytes) list \<Rightarrow> bool \<Rightarrow> bytes \<Rightarrow> nat \<Rightarrow> bool" where
  "pending s ies skipping skip i \<longleftrightarrow> visible_at u s ies i \<and> (skipping \<longrightarrow> before skip (U ies i))"

definition forward_inv :: "u64 \<Rightarrow> (bytes \<times> bytes) list \<Rightarrow> bool \<Rightarrow> bytes \<Rightarrow> nat \<Rightarrow> bool" where
  "forward_inv s ies skipping skip p \<longleftrightarrow>
     (\<forall>j < p. acc s ies j \<longrightarrow> (\<forall>i. p \<le> i \<longrightarrow> i < length ies \<longrightarrow> before (U ies j) (U ies i)) \<or> skipping \<and> upto_key (U ies j) skip) \<and>
     (skipping \<longrightarrow> ukeys skip \<and> (\<forall>i. p \<le> i \<longrightarrow> i < length ies \<longrightarrow> acc s ies i \<longrightarrow> upto_key skip (U ies i)))"

lemma forward_stop:
  assumes "internal_entries u ukeys ies" "p < length ies" "forward_inv s ies skipping skip p"
    and "acc s ies p" "is_value (ies ! p)" "\<not> (skipping \<and> upto_key (U ies p) skip)"
  shows "pending s ies skipping skip p"
proof -
  have skip: "before skip (U ies p)" if "skipping"
    using that assms user.compare_flip [of skip "U ies p"] U_key by (auto simp: forward_inv_def not_le)
  have "cmp_Compare u (U ies j) (U ies p) \<noteq> 0" if j: "j < p" "acc s ies j" for j
  proof -
    have "before (U ies j) (U ies p) \<or> skipping \<and> upto_key (U ies j) skip" using assms(2,3) j by (auto simp: forward_inv_def)
    moreover have "before (U ies j) (U ies p)" if k: "skipping" "upto_key (U ies j) skip"
      using user.compare_le_less_trans [of "U ies j" skip "U ies p"] k skip assms(1-3) j U_key by (auto simp: forward_inv_def)
    ultimately show ?thesis by fastforce
  qed
  with skip assms show ?thesis by (simp add: pending_def visible_at_nth)
qed

lemma forward_skip:
  assumes "forward_inv s ies skipping skip p" "acc s ies p \<Longrightarrow> skipping \<and> upto_key (U ies p) skip"
  shows "forward_inv s ies skipping skip (Suc p)"
  using assms by (auto simp: forward_inv_def less_Suc_eq)

lemma skipped_not_pending:
  assumes "internal_entries u ukeys ies" "p < length ies" "forward_inv s ies skipping skip p" "acc s ies p \<Longrightarrow> skipping \<and> upto_key (U ies p) skip"
  shows "\<not> pending s ies skipping skip p"
proof
  assume "pending s ies skipping skip p"
  then have "acc s ies p" "skipping \<longrightarrow> before skip (U ies p)" using assms(2) by (auto simp: pending_def visible_at_nth)
  with assms show False using user.compare_flip [of skip "U ies p"] U_key by (auto simp: forward_inv_def)
qed

lemma forward_deletion:
  assumes "internal_entries u ukeys ies" "p < length ies" "forward_inv s ies skipping skip p" "acc s ies p"
  shows "forward_inv s ies True (U ies p) (Suc p)"
    "Suc p \<le> i \<Longrightarrow> i < length ies \<Longrightarrow> pending s ies True (U ies p) i \<longleftrightarrow> pending s ies skipping skip i"
proof -
  show "forward_inv s ies True (U ies p) (Suc p)"
    using assms(1,2) U_mono U_key by (auto simp: forward_inv_def less_Suc_eq)
  assume i: "Suc p \<le> i" "i < length ies"
  have le: "upto_key (U ies p) (U ies i)" using U_mono [OF assms(1)] i by simp
  have "cmp_Compare u (U ies p) (U ies i) \<noteq> 0" if "visible_at u s ies i" using that i assms(4) by (simp add: visible_at_nth)
  with le have 1: "before (U ies p) (U ies i)" if "visible_at u s ies i" using that by fastforce
  moreover have "before skip (U ies i)" if "skipping" "before (U ies p) (U ies i)"
    using user.compare_le_less_trans [of skip "U ies p" "U ies i"] that assms i U_key by (auto simp: forward_inv_def)
  ultimately show "pending s ies True (U ies p) i \<longleftrightarrow> pending s ies skipping skip i" by (auto simp: pending_def)
qed

text \<open>The result: the iterator stands on the first pending entry from \<open>p\<close> on.\<close>

definition found_next :: "u64 \<Rightarrow> (bytes \<times> bytes) list \<Rightarrow> bool \<Rightarrow> bytes \<Rightarrow> nat \<Rightarrow> 'i db_iter \<Rightarrow> bool" where
  "found_next s ies skipping skip p d \<longleftrightarrow>
     (\<exists>i. p \<le> i \<and> (\<forall>j. p \<le> j \<longrightarrow> j < i \<longrightarrow> \<not> pending s ies skipping skip j) \<and> view (di_iter d) ies i \<and> i \<le> length ies \<and>
        (di_valid d \<longleftrightarrow> i < length ies) \<and> (i < length ies \<longrightarrow> pending s ies skipping skip i))"

lemma found_next_Suc:
  assumes "found_next s ies skipping' skip' (Suc p) d" "\<not> pending s ies skipping skip p"
    and "\<And>i. Suc p \<le> i \<Longrightarrow> i < length ies \<Longrightarrow> pending s ies skipping' skip' i \<longleftrightarrow> pending s ies skipping skip i"
  shows "found_next s ies skipping skip p d"
proof -
  obtain i where i: "Suc p \<le> i" "\<forall>j. Suc p \<le> j \<longrightarrow> j < i \<longrightarrow> \<not> pending s ies skipping' skip' j" "view (di_iter d) ies i" "i \<le> length ies"
    "di_valid d \<longleftrightarrow> i < length ies" "i < length ies \<longrightarrow> pending s ies skipping' skip' i"
    using assms(1) by (auto simp: found_next_def)
  have "\<not> pending s ies skipping skip j" if j: "p \<le> j" "j < i" for j
  proof (cases "j = p")
    case False
    then show ?thesis using j i(2,4) assms(3) [of j] by simp
  qed (use assms(2) in simp)
  with i assms(3) [of i] show ?thesis unfolding found_next_def by (intro exI [of _ i]) simp
qed

lemma FindNextUserEntry_view:
  assumes "core s d" "internal_entries u ukeys ies" "view (di_iter d) ies p" "p < length ies"
    and "forward_inv s ies skipping (di_saved_key d) p"
  shows "\<exists>d'. FindNextUserEntry I skipping d = Some d' \<and> core s d' \<and> di_direction d' = di_direction d \<and>
    found_next s ies skipping (di_saved_key d) p d'"
  using assms
proof (induction "length ies - p" arbitrary: p d skipping rule: less_induct)
  case less
  obtain q smp where q: "pik_user_key q = U ies p" "pik_sequence q \<le> s \<longleftrightarrow> acc s ies p" "pik_type q = kTypeValue \<longleftrightarrow> is_value (ies ! p)"
    "ParseKey I d = Some (Some q, d\<lparr>di_sampling := smp\<rparr>)" "core s (d\<lparr>di_sampling := smp\<rparr>)"
    using ParseKey_view [OF less.prems(1-4)] by blast
  have du: "di_user_comparator d = u" "di_sequence d = s" using less.prems(1) by (simp_all add: core_def)
  define del where "del \<longleftrightarrow> acc s ies p \<and> \<not> is_value (ies ! p)"
  define stop where "stop \<longleftrightarrow> acc s ies p \<and> is_value (ies ! p) \<and> \<not> (skipping \<and> upto_key (U ies p) (di_saved_key d))"
  define d1 where "d1 = (if del then d\<lparr>di_sampling := smp, di_saved_key := U ies p\<rparr> else d\<lparr>di_sampling := smp\<rparr>)"
  have d1: "core s d1" "di_iter d1 = di_iter d" "di_direction d1 = di_direction d" using q(5) by (auto simp: d1_def core_def)
  have step: "FindNextUserEntry I skipping d =
      (if stop then Some (d1\<lparr>di_valid := True, di_saved_key := []\<rparr>)
       else it_Next I (di_iter d) \<bind> (\<lambda>it. if it_Valid I it then FindNextUserEntry I (skipping \<or> del) (d1\<lparr>di_iter := it\<rparr>)
            else Some (d1\<lparr>di_iter := it, di_saved_key := [], di_valid := False\<rparr>)))"
    using q du d1(2) by (subst FindNextUserEntry.simps) (auto simp: stop_def del_def d1_def Let_def cong: if_cong split: ValueType.split)
  show ?case
  proof (cases stop)
    case True
    then have "pending s ies skipping (di_saved_key d) p"
      using forward_stop [OF less.prems(2,4,5)] by (simp add: stop_def)
    then show ?thesis using True less.prems(3,4) d1 unfolding step
      by (intro exI [of _ "d1\<lparr>di_valid := True, di_saved_key := []\<rparr>"]) (auto simp: found_next_def core_def intro!: exI [of _ p])
  next
    case False
    obtain it where it: "it_Next I (di_iter d) = Some it" "view it ies (Suc p)" using internal.view_Next [OF less.prems(3,4)] by blast
    let ?sk = "skipping \<or> del" and ?k = "di_saved_key d1"
    have nxt: "forward_inv s ies ?sk ?k (Suc p)" "\<not> pending s ies skipping (di_saved_key d) p"
      "\<And>i. Suc p \<le> i \<Longrightarrow> i < length ies \<Longrightarrow> pending s ies ?sk ?k i \<longleftrightarrow> pending s ies skipping (di_saved_key d) i"
      using forward_deletion [OF less.prems(2,4,5)] forward_skip [OF less.prems(5)] skipped_not_pending [OF less.prems(2,4,5)] False less.prems(4)
      by (auto simp: d1_def del_def stop_def pending_def visible_at_nth)
    have "\<exists>d'. FindNextUserEntry I skipping d = Some d' \<and> core s d' \<and> di_direction d' = di_direction d \<and> found_next s ies ?sk ?k (Suc p) d'"
    proof (cases "Suc p < length ies")
      case True
      have "\<exists>d'. FindNextUserEntry I ?sk (d1\<lparr>di_iter := it\<rparr>) = Some d' \<and> core s d' \<and>
          di_direction d' = di_direction (d1\<lparr>di_iter := it\<rparr>) \<and> found_next s ies ?sk (di_saved_key (d1\<lparr>di_iter := it\<rparr>)) (Suc p) d'"
        by (rule less.hyps) (use less.prems it True nxt(1) d1 in \<open>auto simp: core_def\<close>)
      then show ?thesis using False it True d1 internal.view_Valid [OF it(2)] unfolding step by simp
    next
      case last: False
      then show ?thesis using False it d1 internal.view_Valid [OF it(2)] internal.view_le [OF it(2)] unfolding step
        by (auto simp: found_next_def core_def intro!: exI [of _ "Suc p"])
    qed
    then show ?thesis using found_next_Suc nxt(2,3) by blast
  qed
qed

text \<open>
  The loop of \<open>FindPrevUserEntry\<close> looks at the entries below a bound, which stands for the position before it;
  \<open>back_inv\<close> says what is known of the entries from \<open>m\<close> up to the bound \<open>b\<close>.
\<close>

definition bound_pos :: "(bytes \<times> bytes) list \<Rightarrow> nat \<Rightarrow> nat" where
  "bound_pos ies m = (if m = 0 then length ies else m - 1)"

definition back_inv :: "u64 \<Rightarrow> (bytes \<times> bytes) list \<Rightarrow> nat \<Rightarrow> nat \<Rightarrow> ValueType \<Rightarrow> bytes \<times> bytes \<Rightarrow> bool" where
  "back_inv s ies b m vt saved \<longleftrightarrow>
     (case vt of
        kTypeDeletion \<Rightarrow> \<forall>j. m \<le> j \<longrightarrow> j < b \<longrightarrow> \<not> visible_at u s ies j
      | kTypeValue \<Rightarrow> \<exists>a. m \<le> a \<and> a < b \<and> acc s ies a \<and> is_value (ies ! a) \<and> saved = user_entry (ies ! a) \<and>
          (\<forall>j. m \<le> j \<longrightarrow> j < a \<longrightarrow> \<not> acc s ies j) \<and> (\<forall>j. a < j \<longrightarrow> j < b \<longrightarrow> \<not> visible_at u s ies j))"

definition saved_entry :: "'i db_iter \<Rightarrow> bytes \<times> bytes" where
  "saved_entry d = (di_saved_key d, di_saved_value d)"

text \<open>The iterator moves backwards and has saved the visible entry \<open>r\<close>.\<close>

definition reverse_at :: "u64 \<Rightarrow> (bytes \<times> bytes) list \<Rightarrow> nat \<Rightarrow> 'i db_iter \<Rightarrow> bool" where
  "reverse_at s ies r d \<longleftrightarrow> r < length ies \<and> visible_at u s ies r \<and> saved_entry d = user_entry (ies ! r) \<and>
     (\<exists>m \<le> r. view (di_iter d) ies (bound_pos ies m) \<and> (\<forall>j. m \<le> j \<longrightarrow> j < r \<longrightarrow> \<not> acc s ies j) \<and>
        (\<forall>j < m. before (U ies j) (U ies r)))"

definition stops_back :: "u64 \<Rightarrow> (bytes \<times> bytes) list \<Rightarrow> nat \<Rightarrow> ValueType \<Rightarrow> bytes \<times> bytes \<Rightarrow> bool" where
  "stops_back s ies p vt saved \<longleftrightarrow> acc s ies p \<and> vt \<noteq> kTypeDeletion \<and> before (U ies p) (fst saved)"

lemma back_replaced:
  assumes "internal_entries u ukeys ies" "b \<le> length ies" "p < b" "back_inv s ies b (Suc p) vt saved" "acc s ies p"
    "\<not> stops_back s ies p vt saved"
  shows "Suc p \<le> j \<Longrightarrow> j < b \<Longrightarrow> \<not> visible_at u s ies j"
proof (cases vt)
  case kTypeDeletion
  then show "Suc p \<le> j \<Longrightarrow> j < b \<Longrightarrow> \<not> visible_at u s ies j" using assms(4) by (simp add: back_inv_def)
next
  case kTypeValue
  then obtain a where a: "Suc p \<le> a" "a < b" "fst saved = U ies a" "\<forall>j. Suc p \<le> j \<longrightarrow> j < a \<longrightarrow> \<not> acc s ies j"
    "\<forall>j. a < j \<longrightarrow> j < b \<longrightarrow> \<not> visible_at u s ies j"
    using assms(4) by (auto simp: back_inv_def user_entry_def)
  assume j: "Suc p \<le> j" "j < b"
  show "\<not> visible_at u s ies j"
  proof (cases "j = a")
    case True
    have "\<not> before (U ies p) (U ies a)" using assms(5,6) kTypeValue a(3) by (simp add: stops_back_def)
    moreover have "upto_key (U ies p) (U ies a)" using U_mono [OF assms(1)] a assms(2) by simp
    ultimately have "cmp_Compare u (U ies p) (U ies a) = 0" by simp
    then show ?thesis using True a(1,2) assms(2,5) by (auto simp: visible_at_nth intro!: exI [of _ p])
  next
    case False
    then show ?thesis using j a assms(2) by (cases "j < a") (auto simp: visible_at_nth)
  qed
qed

lemma back_step:
  assumes "internal_entries u ukeys ies" "b \<le> length ies" "p < b" "back_inv s ies b (Suc p) vt saved" "\<not> stops_back s ies p vt saved"
  shows "\<not> acc s ies p \<Longrightarrow> back_inv s ies b p vt saved"
    "acc s ies p \<Longrightarrow> \<not> is_value (ies ! p) \<Longrightarrow> back_inv s ies b p kTypeDeletion saved'"
    "acc s ies p \<Longrightarrow> is_value (ies ! p) \<Longrightarrow> back_inv s ies b p kTypeValue (user_entry (ies ! p))"
proof -
  have split: "p \<le> j \<longleftrightarrow> j = p \<or> Suc p \<le> j" for j by auto
  show "back_inv s ies b p vt saved" if "\<not> acc s ies p"
    using that assms(2-4) by (cases vt) (auto simp: back_inv_def split visible_at_nth)
  assume acc: "acc s ies p"
  note none = back_replaced [OF assms(1-4) acc assms(5)]
  show "back_inv s ies b p kTypeDeletion saved'" if "\<not> is_value (ies ! p)"
    using that none assms(2,3) by (auto simp: back_inv_def split visible_at_nth)
  show "back_inv s ies b p kTypeValue (user_entry (ies ! p))" if "is_value (ies ! p)"
    using that none acc assms(3) by (auto simp: back_inv_def intro!: exI [of _ p])
qed

lemma back_end:
  assumes "internal_entries u ukeys ies" "b \<le> length ies" "back_inv s ies b m kTypeValue (saved_entry d)"
    and "view (di_iter d) ies (bound_pos ies m)" "\<And>j. j < m \<Longrightarrow> before (U ies j) (di_saved_key d)"
  shows "\<exists>r < b. (\<forall>j. r < j \<longrightarrow> j < b \<longrightarrow> \<not> visible_at u s ies j) \<and> reverse_at s ies r d"
proof -
  obtain a where a: "m \<le> a" "a < b" "acc s ies a" "is_value (ies ! a)" "saved_entry d = user_entry (ies ! a)"
    "\<forall>j. m \<le> j \<longrightarrow> j < a \<longrightarrow> \<not> acc s ies j" "\<forall>j. a < j \<longrightarrow> j < b \<longrightarrow> \<not> visible_at u s ies j"
    using assms(3) by (auto simp: back_inv_def)
  have k: "di_saved_key d = U ies a" using a(5) by (simp add: saved_entry_def user_entry_def)
  have "visible_at u s ies a"
    unfolding visible_at_nth [OF less_le_trans [OF a(2) assms(2)]]
  proof (intro conjI allI impI)
    fix j assume j: "j < a" "acc s ies j"
    then have "j < m" using a(6) by (meson not_le)
    then show "cmp_Compare u (U ies j) (U ies a) \<noteq> 0" using assms(5) [of j] k by simp
  qed (use a in simp_all)
  with a assms(2,4) assms(5) [unfolded k] show ?thesis by (intro exI [of _ a]) (auto simp: reverse_at_def)
qed

lemma find_prev_loop_view:
  assumes "core s d" "internal_entries u ukeys ies" "view (di_iter d) ies p" "p < b" "b \<le> length ies"
    and "back_inv s ies b (Suc p) vt (saved_entry d)"
  shows "\<exists>vt' d'. find_prev_loop I vt d = Some (vt', d') \<and> core s d' \<and> di_direction d' = di_direction d \<and>
    (if vt' = kTypeDeletion then view (di_iter d') ies (length ies) \<and> (\<forall>j < b. \<not> visible_at u s ies j)
     else \<exists>r < b. (\<forall>j. r < j \<longrightarrow> j < b \<longrightarrow> \<not> visible_at u s ies j) \<and> reverse_at s ies r d')"
  using assms
proof (induction p arbitrary: d vt rule: less_induct)
  case (less p)
  have p: "p < length ies" using less.prems(4,5) by simp
  obtain q smp where q: "pik_user_key q = U ies p" "pik_sequence q \<le> s \<longleftrightarrow> acc s ies p" "pik_type q = kTypeValue \<longleftrightarrow> is_value (ies ! p)"
    "ParseKey I d = Some (Some q, d\<lparr>di_sampling := smp\<rparr>)" "core s (d\<lparr>di_sampling := smp\<rparr>)"
    using ParseKey_view [OF less.prems(1-3) p] by blast
  have du: "di_user_comparator d = u" "di_sequence d = s" using less.prems(1) by (simp_all add: core_def)
  define d0 where "d0 = d\<lparr>di_sampling := smp\<rparr>"
  have d0: "core s d0" "di_iter d0 = di_iter d" "di_direction d0 = di_direction d" "saved_entry d0 = saved_entry d"
    using q(5) by (simp_all add: d0_def saved_entry_def)
  define vt1 where "vt1 = (if acc s ies p then pik_type q else vt)"
  define d1 where "d1 = (if \<not> acc s ies p then d0
    else if is_value (ies ! p) then d0\<lparr>di_saved_key := U ies p, di_saved_value := snd (ies ! p)\<rparr>
    else d0\<lparr>di_saved_key := [], di_saved_value := []\<rparr>)"
  have d1: "core s d1" "di_direction d1 = di_direction d" using d0 by (auto simp: d1_def core_def)
  have step: "find_prev_loop I vt d =
      (if stops_back s ies p vt (saved_entry d) then Some (vt, d0)
       else it_Prev I (di_iter d) \<bind> (\<lambda>it. if it_Valid I it then find_prev_loop I vt1 (d1\<lparr>di_iter := it\<rparr>)
            else Some (vt1, d1\<lparr>di_iter := it\<rparr>)))"
    using q(1-4) du internal.view_key_value [OF less.prems(3) p]
    by (subst find_prev_loop.simps, cases "pik_type q")
       (auto simp: stops_back_def saved_entry_def d0_def d1_def vt1_def Let_def cong: if_cong)
  show ?case
  proof (cases "stops_back s ies p vt (saved_entry d)")
    case True
    then have vt: "vt = kTypeValue" and k: "before (U ies p) (di_saved_key d0)" using d0(4)
      by (auto simp: stops_back_def saved_entry_def dest: ValueType.exhaust) (metis ValueType.exhaust)
    obtain a where a: "a < length ies" "di_saved_key d0 = U ies a"
      using less.prems(5,6) vt d0(4) by (auto simp: back_inv_def saved_entry_def user_entry_def dest: less_le_trans)
    have "before (U ies j) (di_saved_key d0)" if "j < Suc p" for j
      using user.compare_le_less_trans [of "U ies j" "U ies p" "U ies a"] U_mono [OF less.prems(2), of j p] U_key [OF less.prems(2)] that k a p by simp
    then have "\<exists>r < b. (\<forall>j. r < j \<longrightarrow> j < b \<longrightarrow> \<not> visible_at u s ies j) \<and> reverse_at s ies r d0"
      using back_end [OF less.prems(2,5), of s "Suc p" d0] less.prems(3,6) vt d0 by (simp add: bound_pos_def)
    then show ?thesis using True step vt d0 by simp
  next
    case False
    note b = back_step [OF less.prems(2,5,4,6) False]
    have inv: "back_inv s ies b p vt1 (saved_entry d1)"
      using b q(3) d0(4) by (cases "pik_type q") (auto simp: vt1_def d1_def saved_entry_def user_entry_def)
    obtain it where it: "it_Prev I (di_iter d) = Some it" "view it ies (bound_pos ies p)"
      using internal.view_Prev [OF less.prems(3) p] by (auto simp: bound_pos_def)
    show ?thesis
    proof (cases "p = 0")
      case True
      then have v: "\<not> it_Valid I it" "view it ies (length ies)" using it(2) internal.view_Valid [OF it(2)] by (simp_all add: bound_pos_def)
      show ?thesis
      proof (cases vt1)
        case kTypeDeletion
        then show ?thesis using False step it v d1 inv True by (simp add: core_def back_inv_def)
      next
        case kTypeValue
        then show ?thesis using False step it v d1 inv True back_end [OF less.prems(2,5), of s 0 "d1\<lparr>di_iter := it\<rparr>"]
          by (simp add: core_def saved_entry_def)
      qed
    next
      case pos: False
      have v: "it_Valid I it" "view it ies (p - 1)" using it(2) internal.view_Valid [OF it(2)] pos p by (auto simp: bound_pos_def)
      have "\<exists>vt' d'. find_prev_loop I vt1 (d1\<lparr>di_iter := it\<rparr>) = Some (vt', d') \<and> core s d' \<and> di_direction d' = di_direction (d1\<lparr>di_iter := it\<rparr>) \<and>
        (if vt' = kTypeDeletion then view (di_iter d') ies (length ies) \<and> (\<forall>j < b. \<not> visible_at u s ies j)
         else \<exists>r < b. (\<forall>j. r < j \<longrightarrow> j < b \<longrightarrow> \<not> visible_at u s ies j) \<and> reverse_at s ies r d')"
        by (rule less.IH [of "p - 1"]) (use pos v d1 less.prems inv in \<open>auto simp: core_def saved_entry_def\<close>)
      then show ?thesis using False step it v(1) d1 by simp
    qed
  qed
qed

text \<open>The view of the database iterator.\<close>

definition cnt :: "u64 \<Rightarrow> (bytes \<times> bytes) list \<Rightarrow> nat \<Rightarrow> nat" where
  "cnt s ies r = length (filter (visible_at u s ies) [0..<r])"

definition db_view :: "u64 \<Rightarrow> (bytes \<times> bytes) list \<Rightarrow> 'i db_iter \<Rightarrow> (bytes \<times> bytes) list \<Rightarrow> nat \<Rightarrow> bool" where
  "db_view s ies d es n \<longleftrightarrow> core s d \<and> internal_entries u ukeys ies \<and> es = visible u s ies \<and> n \<le> length es \<and>
     (di_valid d \<longleftrightarrow> n < length es) \<and> (\<exists>p. view (di_iter d) ies p) \<and>
     (n < length es \<longrightarrow> (\<exists>r. n = cnt s ies r \<and>
        (if di_direction d = kForward then view (di_iter d) ies r \<and> r < length ies \<and> visible_at u s ies r else reverse_at s ies r d)))"

lemma length_visible: "length (visible u s ies) = cnt s ies (length ies)"
  by (simp add: visible_def cnt_def)

lemma cnt_visible:
  assumes "visible_at u s ies r" "r < length ies"
  shows "cnt s ies r < length (visible u s ies)" "visible u s ies ! cnt s ies r = user_entry (ies ! r)"
    "cnt s ies (Suc r) = Suc (cnt s ies r)"
  using nth_filter_upt [of "visible_at u s ies", OF assms] assms(1) by (simp_all add: visible_def cnt_def)

lemma cnt_same: "a \<le> b \<Longrightarrow> (\<And>i. a \<le> i \<Longrightarrow> i < b \<Longrightarrow> \<not> visible_at u s ies i) \<Longrightarrow> cnt s ies b = cnt s ies a"
  unfolding cnt_def by (rule length_filter_upt_same)

lemma cnt_le: "r \<le> length ies \<Longrightarrow> cnt s ies r \<le> length (visible u s ies)"
proof -
  assume "r \<le> length ies"
  then have "[0..<length ies] = [0..<r] @ [r..<length ies]" using upt_add_eq_append [of 0 r "length ies - r"] by simp
  then show ?thesis by (simp add: length_visible cnt_def)
qed

lemma found_next_view:
  assumes "core s d" "internal_entries u ukeys ies" "di_direction d = kForward" "found_next s ies skipping skip p d"
    and "p \<le> a" "a \<le> length ies" "\<And>i. p \<le> i \<Longrightarrow> i < length ies \<Longrightarrow> pending s ies skipping skip i \<longleftrightarrow> a \<le> i \<and> visible_at u s ies i"
  shows "db_view s ies d (visible u s ies) (cnt s ies a)"
proof -
  obtain i where i: "p \<le> i" "\<forall>j. p \<le> j \<longrightarrow> j < i \<longrightarrow> \<not> pending s ies skipping skip j" "view (di_iter d) ies i" "i \<le> length ies"
    "di_valid d \<longleftrightarrow> i < length ies" "i < length ies \<longrightarrow> pending s ies skipping skip i"
    using assms(4) by (auto simp: found_next_def)
  have none: "\<not> visible_at u s ies j" if "a \<le> j" "j < i" for j using i(2,4) assms(5) assms(7) [of j] that by auto
  show ?thesis
  proof (cases "i < length ies")
    case True
    then have v: "visible_at u s ies i" "a \<le> i" using i assms(7) by blast+
    have "cnt s ies i = cnt s ies a" using cnt_same [OF v(2)] none by blast
    then show ?thesis using cnt_visible(1) [OF v(1) True] True i(3,5) v(1) assms(1-3) unfolding db_view_def
      by (auto intro!: exI [of _ i])
  next
    case False
    then have "cnt s ies a = cnt s ies (length ies)" using cnt_same [OF assms(6)] none i(4) by auto
    then show ?thesis using False i assms(1-3) by (auto simp: db_view_def length_visible)
  qed
qed

lemma skip_visible:
  assumes "internal_entries u ukeys ies" "r < length ies" "visible_at u s ies r" "m \<le> r" "\<And>j. m \<le> j \<Longrightarrow> j < r \<Longrightarrow> \<not> acc s ies j"
  shows "forward_inv s ies True (U ies r) m"
    "m \<le> i \<Longrightarrow> i < length ies \<Longrightarrow> pending s ies True (U ies r) i \<longleftrightarrow> Suc r \<le> i \<and> visible_at u s ies i"
proof -
  have le: "upto_key (U ies r) (U ies i)" if "m \<le> i" "i < length ies" "acc s ies i" for i
    using U_mono [OF assms(1), of r i] assms(5) that by (meson not_le)
  then show "forward_inv s ies True (U ies r) m"
    using U_mono [OF assms(1)] U_key [OF assms(1,2)] assms(2,4) by (auto simp: forward_inv_def)
  assume i: "m \<le> i" "i < length ies"
  have "acc s ies r" using assms(2,3) by (simp add: visible_at_nth)
  then have ne: "cmp_Compare u (U ies r) (U ies i) \<noteq> 0" if "r < i" "visible_at u s ies i" using that i(2) by (simp add: visible_at_nth)
  have "before (U ies r) (U ies i) \<longleftrightarrow> r < i" if v: "visible_at u s ies i"
  proof (cases "r < i")
    case True
    then show ?thesis using ne v U_mono [OF assms(1), of r i] i(2) by fastforce
  next
    case False
    have "acc s ies i" using v i(2) by (simp add: visible_at_nth)
    then have "i = r" using assms(5) [OF i(1)] False by (meson linorder_neqE_nat)
    then show ?thesis using user.compare_refl [OF U_key [OF assms(1,2)]] by simp
  qed
  then show "pending s ies True (U ies r) i \<longleftrightarrow> Suc r \<le> i \<and> visible_at u s ies i" by (auto simp: pending_def)
qed

lemma before_user_key_view:
  assumes "view it ies q" "q < length ies"
  shows "\<exists>it' m. before_user_key I u k it = Some it' \<and> m \<le> q \<and> view it' ies (bound_pos ies m) \<and>
    (\<forall>j. m \<le> j \<longrightarrow> j < q \<longrightarrow> \<not> before (U ies j) k) \<and> (it_Valid I it' \<longleftrightarrow> 0 < m)"
  using assms
proof (induction q arbitrary: it rule: less_induct)
  case (less q)
  obtain it1 where it1: "it_Prev I it = Some it1" "view it1 ies (bound_pos ies q)"
    using internal.view_Prev [OF less.prems] by (auto simp: bound_pos_def)
  have v: "it_Valid I it1 \<longleftrightarrow> 0 < q" using internal.view_Valid [OF it1(2)] less.prems(2) by (auto simp: bound_pos_def)
  show ?case
  proof (cases "q = 0")
    case True
    then show ?thesis using it1 v by (subst before_user_key.simps) (auto intro!: exI [of _ it1])
  next
    case False
    then have q: "view it1 ies (q - 1)" "q - 1 < length ies" using it1(2) less.prems(2) by (simp_all add: bound_pos_def)
    show ?thesis
    proof (cases "before (U ies (q - 1)) k")
      case True
      then show ?thesis using it1 v False internal.view_key_value [OF q]
        by (subst before_user_key.simps) (auto intro!: exI [of _ it1] exI [of _ q])
    next
      case far: False
      obtain it' m where it': "before_user_key I u k it1 = Some it'" "m \<le> q - 1" "view it' ies (bound_pos ies m)"
        "\<forall>j. m \<le> j \<longrightarrow> j < q - 1 \<longrightarrow> \<not> before (U ies j) k" "it_Valid I it' \<longleftrightarrow> 0 < m"
        using less.IH [OF _ q] False by auto
      have "\<not> before (U ies j) k" if "m \<le> j" "j < q" for j using that it'(4) far by (cases "j = q - 1") auto
      moreover have "before_user_key I u k it = Some it'"
        using it1 v False far it'(1) internal.view_key_value [OF q] by (subst before_user_key.simps) simp
      ultimately show ?thesis using it'(2,3,5) by (auto intro!: exI [of _ m])
    qed
  qed
qed

lemma FindPrevUserEntry_view:
  assumes "core s d" "internal_entries u ukeys ies" "view (di_iter d) ies (bound_pos ies m)" "m \<le> length ies" "di_direction d = kReverse"
  shows "\<exists>d'. FindPrevUserEntry I d = Some d' \<and>
    db_view s ies d' (visible u s ies) (if cnt s ies m = 0 then length (visible u s ies) else cnt s ies m - 1)"
proof -
  have "\<exists>vt d'. (if it_Valid I (di_iter d) then find_prev_loop I kTypeDeletion d else Some (kTypeDeletion, d)) = Some (vt, d') \<and>
      core s d' \<and> di_direction d' = kReverse \<and>
      (if vt = kTypeDeletion then view (di_iter d') ies (length ies) \<and> (\<forall>j < m. \<not> visible_at u s ies j)
       else \<exists>r < m. (\<forall>j. r < j \<longrightarrow> j < m \<longrightarrow> \<not> visible_at u s ies j) \<and> reverse_at s ies r d')"
  proof (cases "m = 0")
    case True
    then show ?thesis using assms internal.view_Valid [OF assms(3)] by (simp add: bound_pos_def)
  next
    case False
    then have "view (di_iter d) ies (m - 1)" "m - 1 < m" "it_Valid I (di_iter d)"
      using assms(3,4) internal.view_Valid [OF assms(3)] by (simp_all add: bound_pos_def)
    then show ?thesis using find_prev_loop_view [OF assms(1,2), of "m - 1" m kTypeDeletion] assms(4,5) by (simp add: back_inv_def)
  qed
  then obtain vt d' where d': "(if it_Valid I (di_iter d) then find_prev_loop I kTypeDeletion d else Some (kTypeDeletion, d)) = Some (vt, d')"
    "core s d'" "di_direction d' = kReverse"
    "if vt = kTypeDeletion then view (di_iter d') ies (length ies) \<and> (\<forall>j < m. \<not> visible_at u s ies j)
       else \<exists>r < m. (\<forall>j. r < j \<longrightarrow> j < m \<longrightarrow> \<not> visible_at u s ies j) \<and> reverse_at s ies r d'" by blast
  show ?thesis
  proof (cases "vt = kTypeDeletion")
    case True
    then have "cnt s ies m = cnt s ies 0" using d'(4) cnt_same [of 0 m] by simp
    then have "cnt s ies m = 0" by (simp add: cnt_def)
    then show ?thesis using d' True assms(2) by (auto simp: FindPrevUserEntry_def db_view_def core_def)
  next
    case False
    then obtain r where r: "r < m" "\<forall>j. r < j \<longrightarrow> j < m \<longrightarrow> \<not> visible_at u s ies j" "reverse_at s ies r d'" using d'(4) by auto
    have v: "visible_at u s ies r" "r < length ies" using r(3) by (simp_all add: reverse_at_def)
    have c: "cnt s ies m = Suc (cnt s ies r)" using cnt_same [of "Suc r" m] r(1,2) cnt_visible(3) [OF v] by simp
    have "reverse_at s ies r (d'\<lparr>di_valid := True\<rparr>)" using r(3) by (simp add: reverse_at_def saved_entry_def)
    moreover have "\<exists>p. view (di_iter d') ies p" using r(3) by (auto simp: reverse_at_def)
    ultimately show ?thesis using c d' False assms(2) cnt_visible(1) [OF v]
      by (auto simp: FindPrevUserEntry_def db_view_def core_def intro!: exI [of _ r])
  qed
qed

text \<open>The operations.\<close>

lemma DBIter_SeekToFirst_view:
  assumes "db_view s ies d es n"
  shows "\<exists>d'. DBIter_SeekToFirst I d = Some d' \<and> db_view s ies d' es 0"
proof -
  obtain p where d: "core s d" "internal_entries u ukeys ies" "es = visible u s ies" "view (di_iter d) ies p"
    using assms by (auto simp: db_view_def)
  obtain it where it: "it_SeekToFirst I (di_iter d) = Some it" "view it ies 0" using internal.view_SeekToFirst [OF d(4)] by blast
  let ?d = "d\<lparr>di_direction := kForward, di_saved_value := [], di_iter := it\<rparr>"
  have c: "core s ?d" using d(1) by (simp add: core_def)
  show ?thesis
  proof (cases "ies = []")
    case True
    then show ?thesis using it d c internal.view_Valid [OF it(2)]
      by (auto simp: DBIter_SeekToFirst_def db_view_def visible_def core_def)
  next
    case False
    then obtain d' where d': "FindNextUserEntry I False ?d = Some d'" "core s d'" "di_direction d' = kForward"
      "found_next s ies False (di_saved_key ?d) 0 d'"
      using FindNextUserEntry_view [OF c d(2), of 0 False] it(2) by (auto simp: forward_inv_def)
    have "db_view s ies d' es (cnt s ies 0)"
      unfolding d(3) by (rule found_next_view [OF d'(2) d(2) d'(3,4)]) (simp_all add: pending_def)
    then show ?thesis using it d'(1) False internal.view_Valid [OF it(2)] by (simp add: DBIter_SeekToFirst_def cnt_def)
  qed
qed

lemma DBIter_SeekToLast_view:
  assumes "db_view s ies d es n"
  shows "\<exists>d'. DBIter_SeekToLast I d = Some d' \<and> db_view s ies d' es (length es - 1)"
proof -
  obtain p where d: "core s d" "internal_entries u ukeys ies" "es = visible u s ies" "view (di_iter d) ies p"
    using assms by (auto simp: db_view_def)
  obtain it where it: "it_SeekToLast I (di_iter d) = Some it" "view it ies (length ies - 1)" using internal.view_SeekToLast [OF d(4)] by blast
  let ?d = "d\<lparr>di_direction := kReverse, di_saved_value := [], di_iter := it\<rparr>"
  have "core s ?d" "view (di_iter ?d) ies (bound_pos ies (length ies))" "di_direction ?d = kReverse"
    using d(1) it(2) by (cases ies; simp add: core_def bound_pos_def)+
  from FindPrevUserEntry_view [OF this(1) d(2) this(2) order_refl this(3)] show ?thesis
    using it(1) d(3) by (auto simp: DBIter_SeekToLast_def length_visible split: if_splits)
qed

lemma seek_bound:
  assumes "internal_entries u ukeys ies" "s \<le> kMaxSequenceNumber" "ukeys target"
    and "j < seek_index (InternalKeyComparator_Compare u) (AppendInternalKey [] \<lparr>pik_user_key = target, pik_sequence = s, pik_type = kValueTypeForSeek\<rparr>) ies"
    and "acc s ies j"
  shows "before (U ies j) target"
proof -
  let ?t = "AppendInternalKey [] \<lparr>pik_user_key = target, pik_sequence = s, pik_type = kValueTypeForSeek\<rparr>"
  obtain q where q: "ParseInternalKey (fst (ies ! j)) = Some q" "pik_sequence q \<le> s" using assms(5) by (auto simp: acceptable_def split: option.splits)
  have b: "fst (ies ! j) = AppendInternalKey [] q" using ParseInternalKey_bytes [OF q(1)] by simp
  have "InternalKeyComparator_Compare u (fst (ies ! j)) ?t < 0"
    using assms(4) nth_length_takeWhile takeWhile_nth [of j "\<lambda>e. InternalKeyComparator_Compare u (fst e) ?t < 0" ies]
      nth_mem [of j "takeWhile (\<lambda>e. InternalKeyComparator_Compare u (fst e) ?t < 0) ies"]
    by (auto simp: seek_index_def dest: set_takeWhileD)
  moreover have "\<not> key_tag ?t < key_tag (fst (ies ! j))"
    using q(2) assms(2) unat_Pack [OF assms(2), of kTypeValue] unat_Pack [of "pik_sequence q" "pik_type q"]
    by (cases "pik_type q") (auto simp: b AppendInternalKey_def word_less_nat_alt word_le_nat_alt ValueType_byte_def kValueTypeForSeek_def)
  ultimately show ?thesis by (auto simp: InternalKeyComparator_Compare_simps)
qed

lemma not_before_seek:
  assumes "internal_entries u ukeys ies" "ukeys target" "i < length ies"
    and "seek_index (InternalKeyComparator_Compare u) (AppendInternalKey [] \<lparr>pik_user_key = target, pik_sequence = s, pik_type = t\<rparr>) ies \<le> i"
  shows "\<not> before (U ies i) target"
proof -
  let ?t = "AppendInternalKey [] \<lparr>pik_user_key = target, pik_sequence = s, pik_type = t\<rparr>"
  let ?P = "\<lambda>e. InternalKeyComparator_Compare u (fst e) ?t < 0"
  let ?n = "seek_index (InternalKeyComparator_Compare u) ?t ies"
  have n: "?n < length ies" using assms(3,4) by simp
  then have "\<not> ?P (ies ! ?n)" using nth_length_takeWhile [of ?P ies] by (simp add: seek_index_def)
  then have "\<not> before (U ies ?n) target" by (auto simp: InternalKeyComparator_Compare_simps)
  moreover have "upto_key (U ies ?n) (U ies i)" using U_mono [OF assms(1,4,3)] .
  ultimately show ?thesis
    using user.compare_le_less_trans [of "U ies ?n" "U ies i" target] U_key [OF assms(1)] n assms(2,3) by blast
qed

lemma takeWhile_none: "(\<And>x. x \<in> set xs \<Longrightarrow> \<not> P x) \<Longrightarrow> takeWhile P xs = []"
  by (cases xs) simp_all

lemma seek_index_visible:
  assumes "internal_entries u ukeys ies" "p \<le> length ies"
    and "\<And>j. j < p \<Longrightarrow> acc s ies j \<Longrightarrow> before (U ies j) target" "\<And>i. p \<le> i \<Longrightarrow> i < length ies \<Longrightarrow> \<not> before (U ies i) target"
  shows "seek_index (cmp_Compare u) target (visible u s ies) = cnt s ies p"
proof -
  let ?ix = "filter (visible_at u s ies)"
  have "[0..<length ies] = [0..<p] @ [p..<length ies]" using assms(2) upt_add_eq_append [of 0 p "length ies - p"] by simp
  then have split: "visible u s ies = map (\<lambda>i. user_entry (ies ! i)) (?ix [0..<p]) @ map (\<lambda>i. user_entry (ies ! i)) (?ix [p..<length ies])"
    by (simp add: visible_def)
  have "takeWhile (\<lambda>e. before (fst e) target) (visible u s ies) = map (\<lambda>i. user_entry (ies ! i)) (?ix [0..<p])"
    unfolding split
  proof (subst takeWhile_append2)
    show "before (fst e) target" if "e \<in> set (map (\<lambda>i. user_entry (ies ! i)) (?ix [0..<p]))" for e
      using that assms(2,3) by (auto simp: user_entry_def visible_at_nth)
    have "takeWhile (\<lambda>e. before (fst e) target) (map (\<lambda>i. user_entry (ies ! i)) (?ix [p..<length ies])) = []"
      by (rule takeWhile_none) (use assms(4) in \<open>auto simp: user_entry_def\<close>)
    then show "map (\<lambda>i. user_entry (ies ! i)) (?ix [0..<p]) @
        takeWhile (\<lambda>e. before (fst e) target) (map (\<lambda>i. user_entry (ies ! i)) (?ix [p..<length ies])) =
      map (\<lambda>i. user_entry (ies ! i)) (?ix [0..<p])"
      by simp
  qed
  then show ?thesis by (simp add: seek_index_def cnt_def)
qed

lemma DBIter_Seek_view:
  assumes "db_view s ies d es n" "ukeys target"
  shows "\<exists>d'. DBIter_Seek I target d = Some d' \<and> db_view s ies d' es (seek_index (cmp_Compare u) target es)"
proof -
  obtain p0 where d: "core s d" "internal_entries u ukeys ies" "es = visible u s ies" "view (di_iter d) ies p0"
    using assms(1) by (auto simp: db_view_def)
  let ?t = "AppendInternalKey [] \<lparr>pik_user_key = target, pik_sequence = s, pik_type = kValueTypeForSeek\<rparr>"
  define p where "p = seek_index (InternalKeyComparator_Compare u) ?t ies"
  obtain it where it: "it_Seek I ?t (di_iter d) = Some it" "view it ies p"
    unfolding p_def using internal.view_Seek [OF d(4), of ?t] assms(2) by auto
  have s: "di_sequence d = s" "s \<le> kMaxSequenceNumber" using d(1) by (simp_all add: core_def)
  have lo: "before (U ies j) target" if "j < p" "acc s ies j" for j using seek_bound [OF d(2) s(2) assms(2)] that by (simp add: p_def)
  have hi: "\<not> before (U ies i) target" if "p \<le> i" "i < length ies" for i
    using not_before_seek [OF d(2) assms(2) that(2)] that(1) unfolding p_def by blast
  have p: "p \<le> length ies" by (simp add: p_def seek_index_le)
  have cnt: "seek_index (cmp_Compare u) target es = cnt s ies p" unfolding d(3) by (rule seek_index_visible [OF d(2) p lo hi])
  let ?d = "d\<lparr>di_direction := kForward, di_saved_value := [], di_saved_key := ?t, di_iter := it\<rparr>"
  have c: "core s ?d" using d(1) by (simp add: core_def)
  have step: "DBIter_Seek I target d = (if it_Valid I it then FindNextUserEntry I False ?d else Some (?d\<lparr>di_valid := False\<rparr>))"
    using it(1) s(1) by (simp add: DBIter_Seek_def Let_def)
  show ?thesis
  proof (cases "p < length ies")
    case True
    have le: "before (U ies j) (U ies i)" if "j < p" "acc s ies j" "p \<le> i" "i < length ies" for i j
      using user.compare_less_le_trans [of "U ies j" target "U ies i"] user.compare_le_iff [of "U ies i" target]
        lo [OF that(1,2)] hi [OF that(3,4)] that U_key [OF d(2)] assms(2) p by simp
    obtain d' where d': "FindNextUserEntry I False ?d = Some d'" "core s d'" "di_direction d' = kForward"
      "found_next s ies False (di_saved_key ?d) p d'"
      using FindNextUserEntry_view [OF c d(2), of p False] it(2) True le by (auto simp: forward_inv_def)
    have "db_view s ies d' es (cnt s ies p)"
      unfolding d(3) by (rule found_next_view [OF d'(2) d(2) d'(3,4) order_refl p]) (simp add: pending_def)
    then show ?thesis using d'(1) True internal.view_Valid [OF it(2)] cnt step by simp
  next
    case False
    then show ?thesis using p cnt c d it(2) internal.view_Valid [OF it(2)] step
      by (auto simp: db_view_def core_def length_visible)
  qed
qed

lemma DBIter_Next_view:
  assumes "db_view s ies d es n" "n < length es"
  shows "\<exists>d'. DBIter_Next I d = Some d' \<and> db_view s ies d' es (Suc n)"
proof -
  obtain r where d: "core s d" "internal_entries u ukeys ies" "es = visible u s ies" "di_valid d" "n = cnt s ies r"
    "if di_direction d = kForward then view (di_iter d) ies r \<and> r < length ies \<and> visible_at u s ies r else reverse_at s ies r d"
    using assms by (auto simp: db_view_def)
  have r: "r < length ies" "visible_at u s ies r" using d(6) by (simp_all add: reverse_at_def split: if_splits)
  obtain d1 m where d1: "m \<le> r" "\<And>j. m \<le> j \<Longrightarrow> j < r \<Longrightarrow> \<not> acc s ies j" "view (di_iter d1) ies m" "di_saved_key d1 = U ies r" "core s d1"
    "di_direction d1 = kForward" "DBIter_Next I d = FindNextUserEntry I True d1"
  proof (cases "di_direction d")
    case kForward
    then have "DBIter_Next I d = FindNextUserEntry I True (d\<lparr>di_saved_key := U ies r\<rparr>)" "view (di_iter d) ies r"
      using d(4,6) internal.view_key_value [of "di_iter d" ies r] r(1) by (simp_all add: DBIter_Next_def)
    then show ?thesis using that [of r "d\<lparr>di_saved_key := U ies r\<rparr>"] kForward d(1) by (simp add: core_def)
  next
    case kReverse
    then obtain m where m: "m \<le> r" "view (di_iter d) ies (bound_pos ies m)" "\<forall>j. m \<le> j \<longrightarrow> j < r \<longrightarrow> \<not> acc s ies j" "di_saved_key d = U ies r"
      using d(6) by (auto simp: reverse_at_def saved_entry_def user_entry_def)
    have "\<exists>it. (if \<not> it_Valid I (di_iter d) then it_SeekToFirst I (di_iter d) else it_Next I (di_iter d)) = Some it \<and> view it ies m"
      using internal.view_SeekToFirst [OF m(2)] internal.view_Next [OF m(2)] internal.view_Valid [OF m(2)] m(1) r(1)
      by (auto simp: bound_pos_def split: if_splits)
    then obtain it where it: "(if \<not> it_Valid I (di_iter d) then it_SeekToFirst I (di_iter d) else it_Next I (di_iter d)) = Some it" "view it ies m"
      by blast
    have "it_Valid I it" using internal.view_Valid [OF it(2)] m(1) r(1) by simp
    then have "DBIter_Next I d = FindNextUserEntry I True (d\<lparr>di_direction := kForward, di_iter := it\<rparr>)"
      using it(1) d(4) kReverse by (simp add: DBIter_Next_def Let_def split: if_splits)
    then show ?thesis using that [of m "d\<lparr>di_direction := kForward, di_iter := it\<rparr>"] m it(2) d(1) by (simp add: core_def)
  qed
  note v = skip_visible [OF d(2) r d1(1,2)]
  obtain d' where d': "FindNextUserEntry I True d1 = Some d'" "core s d'" "di_direction d' = kForward" "found_next s ies True (U ies r) m d'"
    using FindNextUserEntry_view [OF d1(5) d(2) d1(3), of True] v(1) d1(1,4,6) r(1) by auto
  have "db_view s ies d' es (cnt s ies (Suc r))"
    unfolding d(3) by (rule found_next_view [OF d'(2) d(2) d'(3,4)]) (use d1(1) r(1) v(2) in auto)
  then show ?thesis using d1(7) d'(1) d(5) cnt_visible(3) [OF r(2,1)] by simp
qed

lemma DBIter_Prev_view:
  assumes "db_view s ies d es n" "n < length es"
  shows "\<exists>d'. DBIter_Prev I d = Some d' \<and> db_view s ies d' es (if n = 0 then length es else n - 1)"
proof -
  obtain r where d: "core s d" "internal_entries u ukeys ies" "es = visible u s ies" "di_valid d" "n = cnt s ies r"
    "if di_direction d = kForward then view (di_iter d) ies r \<and> r < length ies \<and> visible_at u s ies r else reverse_at s ies r d"
    using assms by (auto simp: db_view_def)
  have r: "r < length ies" "visible_at u s ies r" using d(6) by (simp_all add: reverse_at_def split: if_splits)
  show ?thesis
  proof (cases "di_direction d")
    case kReverse
    then obtain m where m: "m \<le> r" "view (di_iter d) ies (bound_pos ies m)" "\<forall>j. m \<le> j \<longrightarrow> j < r \<longrightarrow> \<not> acc s ies j"
      using d(6) by (auto simp: reverse_at_def)
    have "\<not> visible_at u s ies j" if "m \<le> j" "j < r" for j using m(3) that r(1) by (simp add: visible_at_nth)
    then have "cnt s ies m = n" using cnt_same [OF m(1)] d(5) by simp
    moreover have "m \<le> length ies" using m(1) r(1) by simp
    ultimately show ?thesis
      using FindPrevUserEntry_view [OF d(1,2) m(2) _ kReverse] d(3,4) kReverse by (cases "n = 0") (simp_all add: DBIter_Prev_def)
  next
    case kForward
    then have v: "view (di_iter d) ies r" using d(6) by simp
    obtain it m where it: "before_user_key I u (U ies r) (di_iter d) = Some it" "m \<le> r" "view it ies (bound_pos ies m)"
      "\<forall>j. m \<le> j \<longrightarrow> j < r \<longrightarrow> \<not> before (U ies j) (U ies r)" "it_Valid I it \<longleftrightarrow> 0 < m"
      using before_user_key_view [OF v r(1)] by blast
    have none: "\<not> visible_at u s ies j" if j: "m \<le> j" "j < r" for j
    proof
      assume "visible_at u s ies j"
      then have "cmp_Compare u (U ies j) (U ies r) \<noteq> 0" using r j by (simp add: visible_at_nth)
      with U_mono [OF d(2), of j r] it(4) j r(1) show False by fastforce
    qed
    have c: "cnt s ies m = n" using cnt_same [OF it(2)] none d(5) by simp
    let ?d = "d\<lparr>di_saved_key := U ies r, di_iter := it\<rparr>"
    have step: "DBIter_Prev I d = (if \<not> it_Valid I it then Some (?d\<lparr>di_valid := False, di_saved_key := [], di_saved_value := []\<rparr>)
        else FindPrevUserEntry I (?d\<lparr>di_direction := kReverse\<rparr>))"
      using d(1,4) kForward it(1) internal.view_key_value [OF v r(1)] by (simp add: DBIter_Prev_def core_def Let_def)
    show ?thesis
    proof (cases "m = 0")
      case True
      then have "n = 0" using c by (simp add: cnt_def)
      then show ?thesis using step True it(3,5) d(1-3) by (auto simp: db_view_def core_def)
    next
      case False
      have "core s (?d\<lparr>di_direction := kReverse\<rparr>)" using d(1) by (simp add: core_def)
      from FindPrevUserEntry_view [OF this d(2), of m] show ?thesis using step False it(2,3,5) c r(1) d(3) by (cases "n = 0") simp_all
    qed
  qed
qed

lemma db_contract: "iterator_contract (DBIterator I) (cmp_Compare u) ukeys (db_view s ies)"
proof
  fix d es n
  assume v: "db_view s ies d es n"
  show "n \<le> length es" "it_Valid (DBIterator I) d \<longleftrightarrow> n < length es" using v by (auto simp: DBIterator_def db_view_def)
  obtain p where p: "view (di_iter d) ies p" "core s d" using v by (auto simp: db_view_def)
  show "Status_ok (it_status (DBIterator I) d)"
    using internal.view_status [OF p(1)] p(2) by (simp add: DBIterator_def DBIter_status_def core_def)
  show "\<exists>d'. it_SeekToFirst (DBIterator I) d = Some d' \<and> db_view s ies d' es 0"
    using DBIter_SeekToFirst_view [OF v] by (simp add: DBIterator_def)
  show "\<exists>d'. it_SeekToLast (DBIterator I) d = Some d' \<and> db_view s ies d' es (length es - 1)"
    using DBIter_SeekToLast_view [OF v] by (simp add: DBIterator_def)
  show "\<exists>d'. it_Seek (DBIterator I) target d = Some d' \<and> db_view s ies d' es (seek_index (cmp_Compare u) target es)" if "ukeys target" for target
    using DBIter_Seek_view [OF v that] by (simp add: DBIterator_def)
  assume n: "n < length es"
  show "\<exists>d'. it_Next (DBIterator I) d = Some d' \<and> db_view s ies d' es (Suc n)"
    using DBIter_Next_view [OF v n] by (simp add: DBIterator_def)
  show "\<exists>d'. it_Prev (DBIterator I) d = Some d' \<and> db_view s ies d' es (if n = 0 then length es else n - 1)"
    using DBIter_Prev_view [OF v n] by (simp add: DBIterator_def)
  obtain r where r: "es = visible u s ies" "n = cnt s ies r"
    "if di_direction d = kForward then view (di_iter d) ies r \<and> r < length ies \<and> visible_at u s ies r else reverse_at s ies r d"
    using v n by (auto simp: db_view_def)
  have "r < length ies" "visible_at u s ies r" using r(3) by (simp_all add: reverse_at_def split: if_splits)
  then have "es ! n = user_entry (ies ! r)" using cnt_visible(2) r(1,2) by simp
  then show "(it_key (DBIterator I) d, it_value (DBIterator I) d) = es ! n"
    using r(3) internal.view_key_value [of "di_iter d" ies r]
    by (cases "di_direction d") (auto simp: DBIterator_def DBIter_key_def DBIter_value_def user_entry_def reverse_at_def saved_entry_def)
qed

lemma DBIter_make_view:
  assumes "internal_entries u ukeys ies" "view iter ies p" "s \<le> kMaxSequenceNumber"
  shows "db_view s ies (DBIter_make u iter s seed) (visible u s ies) (length (visible u s ies))"
proof -
  have "valid_seed (snd (RandomCompactionPeriod (Random_make seed)))"
    using RandomCompactionPeriod_next(1) Random_make_valid by blast
  then show ?thesis using assms by (auto simp: db_view_def DBIter_make_def core_def case_prod_beta Let_def)
qed

end

interpretation db_merged: db_iterating BytewiseComparator "\<lambda>_. True" "Merged_Iterator Block_Iter"
  "block.merged_view (InternalKeyComparator BytewiseComparator) (internal_keys (\<lambda>_. True)) (InternalKeyComparator BytewiseComparator)"
  by (rule db_iterating.intro [OF bytewise.key_order_axioms])
     (use block.merged_contract [of "InternalKeyComparator BytewiseComparator"] in simp)

subsection \<open>Properties\<close>

text \<open>What a snapshot says of a user key: the newest acceptable entry decides.\<close>

definition snapshot_lookup :: "comparator \<Rightarrow> u64 \<Rightarrow> (bytes \<times> bytes) list \<Rightarrow> bytes \<Rightarrow> bytes option" where
  "snapshot_lookup u s ies k =
     (case find (\<lambda>e. acceptable s e \<and> cmp_Compare u (ExtractUserKey (fst e)) k = 0) ies of
        None \<Rightarrow> None
      | Some e \<Rightarrow> if is_value e then Some (snd e) else None)"

lemma visible_sorted:
  assumes "key_order (cmp_Compare u) ukeys" "internal_entries u ukeys ies"
  shows "sorted_wrt (\<lambda>a b. cmp_Compare u (fst a) (fst b) < 0) (visible u s ies)"
proof -
  have "cmp_Compare u (ExtractUserKey (fst (ies ! i))) (ExtractUserKey (fst (ies ! j))) < 0"
    if ij: "i < j" "j < length ies" and v: "visible_at u s ies i" "visible_at u s ies j" for i j
  proof -
    have "InternalKeyComparator_Compare u (fst (ies ! i)) (fst (ies ! j)) < 0"
      using sorted_wrt_nth_less [OF conjunct1 [OF assms(2) [unfolded internal_entries_def]] ij] .
    moreover have "ies ! i \<in> set (take j ies)" using ij by (metis in_set_conv_nth length_take min_less_iff_conj nth_take order.strict_trans)
    then have "cmp_Compare u (ExtractUserKey (fst (ies ! i))) (ExtractUserKey (fst (ies ! j))) \<noteq> 0"
      using v by (simp add: visible_at_def)
    ultimately show ?thesis by (auto simp: InternalKeyComparator_Compare_simps)
  qed
  then have "sorted_wrt (\<lambda>i j. cmp_Compare u (ExtractUserKey (fst (ies ! i))) (ExtractUserKey (fst (ies ! j))) < 0)
      (filter (visible_at u s ies) [0..<length ies])"
    by (intro sorted_wrt_mono_rel [OF _ sorted_wrt_filter [OF sorted_wrt_upt]]) auto
  then show ?thesis by (simp add: visible_def sorted_wrt_map user_entry_def)
qed

lemma visible_lookup:
  assumes "key_order (cmp_Compare u) ukeys" "internal_entries u ukeys ies" "ukeys k"
  shows "snapshot_lookup u s ies k = Some v \<longleftrightarrow> (\<exists>k'. (k', v) \<in> set (visible u s ies) \<and> cmp_Compare u k' k = 0)"
proof -
  let ?U = "\<lambda>i. ExtractUserKey (fst (ies ! i))"
  have key: "ukeys (?U i)" if "i < length ies" for i using assms(2) that by (simp add: internal_entries_def)
  have eq: "cmp_Compare u (?U j) (?U i) \<noteq> 0 \<longleftrightarrow> cmp_Compare u (?U j) k \<noteq> 0" if "i < length ies" "j < length ies" "cmp_Compare u (?U i) k = 0" for i j
    using key_order.compare_eq_trans [OF assms(1)] key_order.compare_eq_sym [OF assms(1)] key assms(3) that by metis
  have take: "(\<forall>e \<in> set (take i ies). P e) \<longleftrightarrow> (\<forall>j < i. P (ies ! j))" if "i < length ies" for i and P :: "bytes \<times> bytes \<Rightarrow> bool"
  proof -
    have "set (take i ies) = (\<lambda>j. ies ! j) ` {..<i}" using that nth_image [of i ies] by (simp add: lessThan_atLeast0)
    then show ?thesis by auto
  qed
  have "snapshot_lookup u s ies k = Some v \<longleftrightarrow>
      (\<exists>i < length ies. acceptable s (ies ! i) \<and> cmp_Compare u (?U i) k = 0 \<and> is_value (ies ! i) \<and> snd (ies ! i) = v \<and>
         (\<forall>j < i. \<not> (acceptable s (ies ! j) \<and> cmp_Compare u (?U j) k = 0)))"
    (is "_ \<longleftrightarrow> ?R")
  proof (cases "find (\<lambda>e. acceptable s e \<and> cmp_Compare u (ExtractUserKey (fst e)) k = 0) ies")
    case None
    then have "\<not> ?R" unfolding find_None_iff using nth_mem by blast
    with None show ?thesis by (simp add: snapshot_lookup_def)
  next
    case (Some e)
    then obtain i where i: "i < length ies" "acceptable s (ies ! i) \<and> cmp_Compare u (?U i) k = 0" "e = ies ! i"
      "\<forall>j < i. \<not> (acceptable s (ies ! j) \<and> cmp_Compare u (?U j) k = 0)" by (auto simp: find_Some_iff)
    have "?R \<longleftrightarrow> is_value e \<and> snd e = v" using i by (metis linorder_neqE_nat)
    then show ?thesis using Some by (simp add: snapshot_lookup_def)
  qed
  also have "\<dots> \<longleftrightarrow> (\<exists>i < length ies. visible_at u s ies i \<and> cmp_Compare u (?U i) k = 0 \<and> snd (ies ! i) = v)"
  proof -
    have "acceptable s (ies ! i) \<and> cmp_Compare u (?U i) k = 0 \<and> is_value (ies ! i) \<and> snd (ies ! i) = v \<and>
        (\<forall>j < i. \<not> (acceptable s (ies ! j) \<and> cmp_Compare u (?U j) k = 0)) \<longleftrightarrow>
      visible_at u s ies i \<and> cmp_Compare u (?U i) k = 0 \<and> snd (ies ! i) = v" if "i < length ies" for i
      using that eq [OF that] by (auto simp: visible_at_def take)
    then show ?thesis by blast
  qed
  also have "\<dots> \<longleftrightarrow> (\<exists>k'. (k', v) \<in> set (visible u s ies) \<and> cmp_Compare u k' k = 0)"
    by (auto simp: visible_def user_entry_def)
  finally show ?thesis .
qed

text \<open>
  C6: the iterator of the database shows exactly a snapshot.  Over any internal iterator whose keys
  parse, at a sequence number that fits, it presents one entry for every user key whose newest entry
  at the snapshot is a value, with that value, in ascending order: forwards, backwards, from a sought
  key, and after any mixture of \<open>Next\<close> and \<open>Prev\<close>, which all return.
\<close>

theorem db_iterator_shows_snapshot:
  assumes "iterator_contract I (InternalKeyComparator_Compare u) (internal_keys ukeys) view" "key_order (cmp_Compare u) ukeys"
    and "internal_entries u ukeys ies" "view iter ies p" "s \<le> kMaxSequenceNumber" "ukeys target"
  shows "\<exists>es. sorted_wrt (\<lambda>a b. cmp_Compare u (fst a) (fst b) < 0) es \<and>
    (\<forall>k v. ukeys k \<longrightarrow> (snapshot_lookup u s ies k = Some v \<longleftrightarrow> (\<exists>k'. (k', v) \<in> set es \<and> cmp_Compare u k' k = 0))) \<and>
    (let J = DBIterator I; it = DBIter_make u iter s seed in
      (\<exists>it'. it_SeekToFirst J it = Some it' \<and> scan J it' = Some es) \<and>
      (\<exists>it'. it_SeekToLast J it = Some it' \<and> scan_back J it' = Some (rev es)) \<and>
      (\<exists>it'. it_Seek J target it = Some it' \<and> scan J it' = Some (dropWhile (\<lambda>e. cmp_Compare u (fst e) target < 0) es)) \<and>
      (\<forall>fs n. walk_index (length es) fs 0 = Some n \<longrightarrow>
        (\<exists>it'. (it_SeekToFirst J it \<bind> walk J fs) = Some it' \<and> scan J it' = Some (drop n es))))"
proof -
  have L: "db_iterating u ukeys I view" using assms(1,2) by (simp add: db_iterating_def)
  note J = db_iterating.db_contract [OF L, of s ies]
  note v = db_iterating.DBIter_make_view [OF L assms(3,4,5), of seed]
  have "\<exists>it'. (it_SeekToFirst (DBIterator I) (DBIter_make u iter s seed) \<bind> walk (DBIterator I) fs) = Some it' \<and>
      scan (DBIterator I) it' = Some (drop n (visible u s ies))" if fs: "walk_index (length (visible u s ies)) fs 0 = Some n" for fs n
  proof -
    obtain it0 where it0: "it_SeekToFirst (DBIterator I) (DBIter_make u iter s seed) = Some it0"
      "db_iterating.db_view u ukeys view s ies it0 (visible u s ies) 0"
      using iterator_contract.view_SeekToFirst [OF J v] by blast
    obtain it' where "walk (DBIterator I) fs it0 = Some it'" "db_iterating.db_view u ukeys view s ies it' (visible u s ies) n"
      using walk_view [OF J it0(2) fs] by blast
    with it0(1) iterator_contract.scan_view [OF J] show ?thesis by auto
  qed
  then show ?thesis
    using iterator_contract.reads_all [OF J v assms(6)] visible_sorted [OF assms(2,3)] visible_lookup [OF assms(2,3)]
    unfolding Let_def by (intro exI [of _ "visible u s ies"] conjI) auto
qed

theorem db_iterator_shows_snapshot_witness:
  "\<exists>it it'. Block_NewIterator (Block_make (fst (BlockBuilder_Finish (build_block 16
       [(InternalKey_make [97] 5 kTypeValue, [1]), (InternalKey_make [97] 3 kTypeValue, [2]), (InternalKey_make [98] 4 kTypeDeletion, [])]))))
       (InternalKeyComparator BytewiseComparator) = Inr it \<and>
     it_SeekToFirst (DBIterator Block_Iter) (DBIter_make BytewiseComparator it 4 301) = Some it' \<and>
     scan (DBIterator Block_Iter) it' = Some [([97], [2])]"
proof -
  let ?c = "InternalKeyComparator BytewiseComparator" and ?k = "internal_keys (\<lambda>_. True)"
  let ?es = "[(InternalKey_make [97] 5 kTypeValue, [1]), (InternalKey_make [97] 3 kTypeValue, [2]), (InternalKey_make [98] 4 kTypeDeletion, [])]
    :: (bytes \<times> bytes) list"
  have seq: "5 \<le> kMaxSequenceNumber" "4 \<le> kMaxSequenceNumber" "3 \<le> kMaxSequenceNumber" by (simp_all add: kMaxSequenceNumber_val)
  have parse: "ParseInternalKey (InternalKey_make k s t) = Some \<lparr>pik_user_key = k, pik_sequence = s, pik_type = t\<rparr>"
    if "s \<le> kMaxSequenceNumber" for k s t using ParseInternalKey_Append [OF that] by (simp add: InternalKey_make_def)
  have tags: "PackSequenceAndType 3 kTypeValue < PackSequenceAndType 5 kTypeValue"
    using seq by (simp add: word_less_nat_alt unat_Pack)
  have sorted: "sorted_wrt (\<lambda>a b. cmp_Compare ?c (fst a) (fst b) < 0) ?es"
    using tags InternalKey_make_parts(3) [of "[97]"] by (simp add: InternalKeyComparator_Compare_simps BytewiseComparator_sel BytewiseComparator_Compare_lex)
  have bytes: "InternalKey_make [97] 5 kTypeValue = [97, 1, 5, 0, 0, 0, 0, 0, 0]" "InternalKey_make [97] 3 kTypeValue = [97, 1, 3, 0, 0, 0, 0, 0, 0]"
    "InternalKey_make [98] 4 kTypeDeletion = [98, 0, 4, 0, 0, 0, 0, 0, 0]"
    by code_simp+
  have small: "length (fst (BlockBuilder_Finish (build_block 16 ?es))) < 2 ^ 32"
    unfolding bytes
    by (simp add: build_block_def BlockBuilder_Finish_def BlockBuilder_Add_def BlockBuilder_make_def Let_def PutVarint32_def
        PutFixed32_def EncodeVarint32_def resize_def)
  obtain it p where it: "Block_NewIterator (Block_make (fst (BlockBuilder_Finish (build_block 16 ?es)))) ?c = Inr it"
    "block_view ?c ?k it ?es p"
    using block_view_make [OF internal_bytewise.key_order_axioms sorted _ _ small] by (auto simp: internal_keys_def)
  define ies where "ies = ?es"
  have "internal_entries BytewiseComparator (\<lambda>_. True) ies"
    using sorted parse seq by (simp add: internal_entries_def ies_def)
  from db_iterator_shows_snapshot [OF block.iterator_contract_axioms [of ?c ?k, unfolded InternalKeyComparator_sel]
      bytewise.key_order_axioms this it(2) [folded ies_def] seq(2) TrueI, where seed = 301 and target = "[]", unfolded Let_def]
  obtain es where es0: "sorted_wrt (\<lambda>a b. cmp_Compare BytewiseComparator (fst a) (fst b) < 0) es"
    "\<forall>k v. True \<longrightarrow> (snapshot_lookup BytewiseComparator 4 ies k = Some v \<longleftrightarrow> (\<exists>k'. (k', v) \<in> set es \<and> cmp_Compare BytewiseComparator k' k = 0))"
    "\<exists>it'. it_SeekToFirst (DBIterator Block_Iter) (DBIter_make BytewiseComparator it 4 301) = Some it' \<and> scan (DBIterator Block_Iter) it' = Some es"
    by blast
  then obtain it' where es: "sorted_wrt (\<lambda>a b. cmp_Compare BytewiseComparator (fst a) (fst b) < 0) es"
    "\<forall>k v. snapshot_lookup BytewiseComparator 4 ies k = Some v \<longleftrightarrow> (\<exists>k'. (k', v) \<in> set es \<and> cmp_Compare BytewiseComparator k' k = 0)"
    "it_SeekToFirst (DBIterator Block_Iter) (DBIter_make BytewiseComparator it 4 301) = Some it'" "scan (DBIterator Block_Iter) it' = Some es"
    by blast
  have eq: "cmp_Compare BytewiseComparator a b = 0 \<longleftrightarrow> a = b" for a b by (simp add: BytewiseComparator_sel)
  have "snapshot_lookup BytewiseComparator 4 ies k = (if k = [97] then Some [2] else None)" for k
    using seq by (auto simp: snapshot_lookup_def acceptable_def is_value_def parse eq ies_def)
  then have "(k, v) \<in> set es \<longleftrightarrow> (k, v) = ([97], [2])" for k v using es(2) by (metis eq option.inject option.distinct(1) prod.inject)
  then have "set es = {([97], [2])}" by auto
  moreover have "cmp_Compare BytewiseComparator [97] [97] = 0" using eq by simp
  ultimately have "es = [([97], [2])]" using es(1) by (cases es rule: list.exhaust; cases "tl es") (auto simp: subset_singleton_iff)
  with it(1) es(3,4) show ?thesis by blast
qed

text \<open>
  C37: \<open>ParseKey\<close> always returns: the loop that records read samples ends, although a sampling period
  may be 0, because the generator never draws two such periods in a row.  It returns in a state from
  which it returns again.
\<close>

theorem ParseKey_returns:
  assumes "valid_seed (rs_rnd (di_sampling d))"
  shows "\<exists>key d'. ParseKey I d = Some (key, d') \<and> di_iter d' = di_iter d \<and> valid_seed (rs_rnd (di_sampling d'))"
proof -
  obtain smp where "sample_reads (it_key I (di_iter d)) (length (it_key I (di_iter d)) + length (it_value I (di_iter d))) (di_sampling d) = Some smp"
    "valid_seed (rs_rnd smp)"
    using sample_reads_total [OF assms] by blast
  then show ?thesis by (cases "ParseInternalKey (it_key I (di_iter d))") (simp_all add: ParseKey_def)
qed

theorem ParseKey_returns_witness:
  "\<exists>key d'. ParseKey EmptyIterator (DBIter_make BytewiseComparator NewEmptyIterator 0 0) = Some (key, d')"
proof -
  have "valid_seed (rs_rnd (di_sampling (DBIter_make BytewiseComparator NewEmptyIterator 0 0)))"
    using RandomCompactionPeriod_next(1) [OF Random_make_valid] by (simp add: DBIter_make_def case_prod_beta Let_def)
  from ParseKey_returns [OF this] show ?thesis by blast
qed

end
