(* ===== verification/Version_Files.thy ===== *)
theory Version_Files
  imports Version_Edit Iterator "HOL-Library.Monad_Syntax"
begin

text \<open>
  \<^verbatim>\<open>db/version_set.cc\<close>, the routines that search the file lists of a version: \<open>FindFile\<close>,
  \<open>SomeFileOverlapsRange\<close>, \<open>GetOverlappingInputs\<close>, the boundary files of a compaction and the iterator
  of a level.  A vector of pointers to \<open>FileMetaData\<close> is the list of the records, of which these
  routines only read the number, the size and the two keys.  \<open>u\<close> is the user's comparator.
\<close>

subsection \<open>Sizes\<close>

type_synonym i64 = "64 word"

definition TargetFileSize :: "u64 \<Rightarrow> u64" where
  "TargetFileSize max_file_size = max_file_size"

definition MaxGrandParentOverlapBytes :: "u64 \<Rightarrow> i64" where
  "MaxGrandParentOverlapBytes max_file_size = 10 * TargetFileSize max_file_size"

definition ExpandedCompactionByteSizeLimit :: "u64 \<Rightarrow> i64" where
  "ExpandedCompactionByteSizeLimit max_file_size = 25 * TargetFileSize max_file_size"

definition MaxFileSizeForLevel :: "u64 \<Rightarrow> int \<Rightarrow> u64" where
  "MaxFileSizeForLevel max_file_size level = TargetFileSize max_file_size"

text \<open>The sum is an \<open>int64_t\<close> to which unsigned sizes are added; comparisons of such sums are signed.\<close>

definition TotalFileSize :: "file_meta list \<Rightarrow> i64" where
  "TotalFileSize files = foldl (\<lambda>sum f. sum + fm_file_size f) 0 files"

subsection \<open>Searching a level\<close>

text \<open>The indexes are \<open>uint32_t\<close>; \<open>None\<close> when the search leaves the vector or does not end.\<close>

partial_function (option) find_file_loop :: "comparator \<Rightarrow> file_meta list \<Rightarrow> bytes \<Rightarrow> u32 \<Rightarrow> u32 \<Rightarrow> u32 option" where
  "find_file_loop u files key left right =
     (if left < right then
        let mid = (left + right) div 2 in
        if length files \<le> unat mid then None
        else if InternalKeyComparator_Compare u (fm_largest (files ! unat mid)) key < 0
        then find_file_loop u files key (mid + 1) right
        else find_file_loop u files key left mid
      else Some right)"

definition FindFile :: "comparator \<Rightarrow> file_meta list \<Rightarrow> bytes \<Rightarrow> u32 option" where
  "FindFile u files key = find_file_loop u files key 0 (word_of_nat (length files))"

definition AfterFile :: "comparator \<Rightarrow> bytes option \<Rightarrow> file_meta \<Rightarrow> bool" where
  "AfterFile u user_key f =
     (case user_key of None \<Rightarrow> False | Some k \<Rightarrow> 0 < cmp_Compare u k (ExtractUserKey (fm_largest f)))"

definition BeforeFile :: "comparator \<Rightarrow> bytes option \<Rightarrow> file_meta \<Rightarrow> bool" where
  "BeforeFile u user_key f =
     (case user_key of None \<Rightarrow> False | Some k \<Rightarrow> cmp_Compare u k (ExtractUserKey (fm_smallest f)) < 0)"

definition SomeFileOverlapsRange ::
    "comparator \<Rightarrow> bool \<Rightarrow> file_meta list \<Rightarrow> bytes option \<Rightarrow> bytes option \<Rightarrow> bool option" where
  "SomeFileOverlapsRange u disjoint_sorted_files files smallest_user_key largest_user_key =
     (if \<not> disjoint_sorted_files
      then Some (list_ex (\<lambda>f. \<not> (AfterFile u smallest_user_key f \<or> BeforeFile u largest_user_key f)) files)
      else do {
        index \<leftarrow> (case smallest_user_key of
          None \<Rightarrow> Some 0
        | Some k \<Rightarrow> FindFile u files (InternalKey_make k kMaxSequenceNumber kValueTypeForSeek));
        Some (if length files \<le> unat index then False else \<not> BeforeFile u largest_user_key (files ! unat index)) })"

subsection \<open>The files that overlap a range\<close>

text \<open>The loop of \<open>GetOverlappingInputs\<close>; a widened range of level 0 starts it again.\<close>

partial_function (option) overlap_loop ::
    "comparator \<Rightarrow> int \<Rightarrow> file_meta list \<Rightarrow> nat \<Rightarrow> bytes option \<Rightarrow> bytes option \<Rightarrow> file_meta list \<Rightarrow> file_meta list option" where
  "overlap_loop u level files i user_begin user_end inputs =
     (if i < length files then
        let f = files ! i;
            file_start = ExtractUserKey (fm_smallest f);
            file_limit = ExtractUserKey (fm_largest f)
        in if (case user_begin of None \<Rightarrow> False | Some b \<Rightarrow> cmp_Compare u file_limit b < 0)
           then overlap_loop u level files (i + 1) user_begin user_end inputs
           else if (case user_end of None \<Rightarrow> False | Some e \<Rightarrow> 0 < cmp_Compare u file_start e)
           then overlap_loop u level files (i + 1) user_begin user_end inputs
           else if level = 0 \<and> (case user_begin of None \<Rightarrow> False | Some b \<Rightarrow> cmp_Compare u file_start b < 0)
           then overlap_loop u level files 0 (Some file_start) user_end []
           else if level = 0 \<and> (case user_end of None \<Rightarrow> False | Some e \<Rightarrow> 0 < cmp_Compare u file_limit e)
           then overlap_loop u level files 0 user_begin (Some file_limit) []
           else overlap_loop u level files (i + 1) user_begin user_end (inputs @ [f])
      else Some inputs)"

definition GetOverlappingInputs ::
    "comparator \<Rightarrow> file_meta list list \<Rightarrow> int \<Rightarrow> InternalKey option \<Rightarrow> InternalKey option \<Rightarrow> file_meta list option" where
  "GetOverlappingInputs u files level begin_key end_key =
     (if level < 0 \<or> int kNumLevels \<le> level then None
      else overlap_loop u level (files ! nat level) 0 (map_option ExtractUserKey begin_key) (map_option ExtractUserKey end_key) [])"

subsection \<open>Ranges and boundary files\<close>

definition GetRange :: "comparator \<Rightarrow> file_meta list \<Rightarrow> (InternalKey \<times> InternalKey) option" where
  "GetRange u inputs =
     (case inputs of
        [] \<Rightarrow> None
      | f # fs \<Rightarrow> Some (foldl (\<lambda>(smallest, largest) f.
          (if InternalKeyComparator_Compare u (fm_smallest f) smallest < 0 then fm_smallest f else smallest,
           if 0 < InternalKeyComparator_Compare u (fm_largest f) largest then fm_largest f else largest))
          (fm_smallest f, fm_largest f) fs))"

definition GetRange2 :: "comparator \<Rightarrow> file_meta list \<Rightarrow> file_meta list \<Rightarrow> (InternalKey \<times> InternalKey) option" where
  "GetRange2 u inputs1 inputs2 = GetRange u (inputs1 @ inputs2)"

definition FindLargestKey :: "comparator \<Rightarrow> file_meta list \<Rightarrow> InternalKey option" where
  "FindLargestKey u files =
     (case files of
        [] \<Rightarrow> None
      | f # fs \<Rightarrow> Some (foldl (\<lambda>largest_key f.
          if 0 < InternalKeyComparator_Compare u (fm_largest f) largest_key then fm_largest f else largest_key) (fm_largest f) fs))"

definition FindSmallestBoundaryFile :: "comparator \<Rightarrow> file_meta list \<Rightarrow> InternalKey \<Rightarrow> file_meta option" where
  "FindSmallestBoundaryFile u level_files largest_key =
     foldl (\<lambda>smallest_boundary_file f.
        if 0 < InternalKeyComparator_Compare u (fm_smallest f) largest_key \<and>
           cmp_Compare u (ExtractUserKey (fm_smallest f)) (ExtractUserKey largest_key) = 0 \<and>
           (case smallest_boundary_file of
              None \<Rightarrow> True
            | Some s \<Rightarrow> InternalKeyComparator_Compare u (fm_smallest f) (fm_smallest s) < 0)
        then Some f else smallest_boundary_file) None level_files"

partial_function (option) add_boundary_loop ::
    "comparator \<Rightarrow> file_meta list \<Rightarrow> InternalKey \<Rightarrow> file_meta list \<Rightarrow> file_meta list option" where
  "add_boundary_loop u level_files largest_key compaction_files =
     (case FindSmallestBoundaryFile u level_files largest_key of
        Some f \<Rightarrow> add_boundary_loop u level_files (fm_largest f) (compaction_files @ [f])
      | None \<Rightarrow> Some compaction_files)"

definition AddBoundaryInputs :: "comparator \<Rightarrow> file_meta list \<Rightarrow> file_meta list \<Rightarrow> file_meta list option" where
  "AddBoundaryInputs u level_files compaction_files =
     (case FindLargestKey u compaction_files of
        None \<Rightarrow> Some compaction_files
      | Some largest_key \<Rightarrow> add_boundary_loop u level_files largest_key compaction_files)"

subsection \<open>The iterator over the files of a level\<close>

record level_file_num_iterator =
  lf_flist :: "file_meta list"
  lf_index :: u32

definition LevelFileNumIterator_make :: "file_meta list \<Rightarrow> level_file_num_iterator" where
  "LevelFileNumIterator_make flist = \<lparr>lf_flist = flist, lf_index = word_of_nat (length flist)\<rparr>"

definition level_Valid :: "level_file_num_iterator \<Rightarrow> bool" where
  "level_Valid l \<longleftrightarrow> unat (lf_index l) < length (lf_flist l)"

definition level_Seek :: "comparator \<Rightarrow> bytes \<Rightarrow> level_file_num_iterator \<Rightarrow> level_file_num_iterator option" where
  "level_Seek u target l = do { index \<leftarrow> FindFile u (lf_flist l) target; Some (l\<lparr>lf_index := index\<rparr>) }"

definition level_SeekToFirst :: "level_file_num_iterator \<Rightarrow> level_file_num_iterator option" where
  "level_SeekToFirst l = Some (l\<lparr>lf_index := 0\<rparr>)"

definition level_SeekToLast :: "level_file_num_iterator \<Rightarrow> level_file_num_iterator option" where
  "level_SeekToLast l = Some (l\<lparr>lf_index := if lf_flist l = [] then 0 else word_of_nat (length (lf_flist l) - 1)\<rparr>)"

definition level_Next :: "level_file_num_iterator \<Rightarrow> level_file_num_iterator option" where
  "level_Next l = (if level_Valid l then Some (l\<lparr>lf_index := lf_index l + 1\<rparr>) else None)"

definition level_Prev :: "level_file_num_iterator \<Rightarrow> level_file_num_iterator option" where
  "level_Prev l =
     (if level_Valid l
      then Some (l\<lparr>lf_index := if lf_index l = 0 then word_of_nat (length (lf_flist l)) else lf_index l - 1\<rparr>)
      else None)"

definition level_key :: "level_file_num_iterator \<Rightarrow> bytes" where
  "level_key l = fm_largest (lf_flist l ! unat (lf_index l))"

definition level_value :: "level_file_num_iterator \<Rightarrow> bytes" where
  "level_value l =
     (let f = lf_flist l ! unat (lf_index l) in EncodeFixed64 (fm_number f) @ EncodeFixed64 (fm_file_size f))"

definition LevelFileNumIterator :: "comparator \<Rightarrow> level_file_num_iterator iterator" where
  "LevelFileNumIterator u = \<lparr>
     it_Valid = level_Valid, it_SeekToFirst = level_SeekToFirst, it_SeekToLast = level_SeekToLast, it_Seek = level_Seek u,
     it_Next = level_Next, it_Prev = level_Prev, it_key = level_key, it_value = level_value, it_status = (\<lambda>_. Status_OK)\<rparr>"

subsection \<open>Well-formed levels\<close>

definition key_ok :: "(bytes \<Rightarrow> bool) \<Rightarrow> InternalKey \<Rightarrow> bool" where
  "key_ok ukeys k \<longleftrightarrow> ParseInternalKey k \<noteq> None \<and> ukeys (ExtractUserKey k)"

definition file_ok :: "comparator \<Rightarrow> (bytes \<Rightarrow> bool) \<Rightarrow> file_meta \<Rightarrow> bool" where
  "file_ok u ukeys f \<longleftrightarrow> key_ok ukeys (fm_smallest f) \<and> key_ok ukeys (fm_largest f) \<and>
     InternalKeyComparator_Compare u (fm_smallest f) (fm_largest f) \<le> 0"

text \<open>The files of a level above 0 are disjoint and in order.\<close>

definition level_files_ok :: "comparator \<Rightarrow> (bytes \<Rightarrow> bool) \<Rightarrow> file_meta list \<Rightarrow> bool" where
  "level_files_ok u ukeys files \<longleftrightarrow> (\<forall>f \<in> set files. file_ok u ukeys f) \<and>
     sorted_wrt (\<lambda>f g. InternalKeyComparator_Compare u (fm_largest f) (fm_smallest g) < 0) files"

lemma key_ok_internal: "key_ok ukeys k \<Longrightarrow> internal_keys ukeys k"
  by (auto simp: key_ok_def internal_keys_def ParseInternalKey_def Let_def split: if_splits)

text \<open>\<open>FindFile\<close> on a list whose largest keys ascend past the key once.\<close>

lemma find_file_loop_eq:
  assumes "length files < 2 ^ 31"
    and below: "\<And>i j. i \<le> j \<Longrightarrow> j < length files \<Longrightarrow> InternalKeyComparator_Compare u (fm_largest (files ! j)) key < 0 \<Longrightarrow>
      InternalKeyComparator_Compare u (fm_largest (files ! i)) key < 0"
    and "unat left \<le> unat right" "unat right \<le> length files"
    and "\<And>i. i < unat left \<Longrightarrow> InternalKeyComparator_Compare u (fm_largest (files ! i)) key < 0"
    and "\<And>i. unat right \<le> i \<Longrightarrow> i < length files \<Longrightarrow> \<not> InternalKeyComparator_Compare u (fm_largest (files ! i)) key < 0"
  shows "\<exists>r. find_file_loop u files key left right = Some r \<and>
    unat r = length (takeWhile (\<lambda>f. InternalKeyComparator_Compare u (fm_largest f) key < 0) files)"
  using assms(3-6)
proof (induction "unat right - unat left" arbitrary: left right rule: less_induct)
  case less
  let ?P = "\<lambda>f. InternalKeyComparator_Compare u (fm_largest f) key < 0"
  show ?case
  proof (cases "left < right")
    case True
    let ?mid = "(left + right) div 2"
    have lr: "unat left < unat right" "unat right < 2 ^ 31" using True less.prems(2) assms(1) by (simp_all add: word_less_nat_alt)
    then have mid: "unat ?mid = (unat left + unat right) div 2" by (simp add: unat_div unat_word_ariths)
    then have m: "unat left \<le> unat ?mid" "unat ?mid < unat right" "unat (?mid + 1) = Suc (unat ?mid)"
      using lr by (simp_all add: unat_Suc_u32)
    show ?thesis
    proof (cases "?P (files ! unat ?mid)")
      case up: True
      have "?P (files ! i)" if "i < Suc (unat ?mid)" for i using below [of i "unat ?mid"] up that m(2) less.prems(2) by simp
      then have "\<exists>r. find_file_loop u files key (?mid + 1) right = Some r \<and> unat r = length (takeWhile ?P files)"
        by (intro less.hyps) (use m less.prems in auto)
      then show ?thesis using True up m less.prems(2) by (subst find_file_loop.simps) (simp add: Let_def)
    next
      case down: False
      have "\<exists>r. find_file_loop u files key left ?mid = Some r \<and> unat r = length (takeWhile ?P files)"
        by (rule less.hyps) (use m less.prems lr down below in auto)
      then show ?thesis using True down m less.prems(2) by (subst find_file_loop.simps) (simp add: Let_def)
    qed
  next
    case False
    then have eq: "unat left = unat right" using less.prems(1) by (simp add: word_less_nat_alt)
    have "takeWhile ?P files = take (unat right) files"
      by (rule takeWhile_eq_take_P_nth) (use less.prems eq in auto)
    then show ?thesis using False less.prems(2) by (subst find_file_loop.simps) simp
  qed
qed

lemma parsed_sequence_le:
  assumes "ParseInternalKey k = Some q"
  shows "pik_sequence q \<le> kMaxSequenceNumber"
proof -
  have "pik_sequence q = drop_bit 8 (DecodeFixed64 (drop (length k - 8) k))"
    using assms by (auto simp: ParseInternalKey_def Let_def split: if_splits)
  moreover have "unat (drop_bit 8 (DecodeFixed64 (drop (length k - 8) k))) < 2 ^ 56"
  proof -
    have "unat (w div 256) < 2 ^ 56" for w :: u64 using unsigned_less [of w, where ?'a = nat] by (simp add: unat_div)
    then show ?thesis by (simp add: drop_bit_eq_div)
  qed
  ultimately show ?thesis by (simp add: kMaxSequenceNumber_val word_le_nat_alt)
qed

context comparator_contract
begin

lemma level_largest_less:
  assumes "level_files_ok c keys files" "i < j" "j < length files"
  shows "InternalKeyComparator_Compare c (fm_largest (files ! i)) (fm_largest (files ! j)) < 0"
proof -
  have "file_ok c keys (files ! i)" "file_ok c keys (files ! j)" using assms by (simp_all add: level_files_ok_def)
  moreover have "InternalKeyComparator_Compare c (fm_largest (files ! i)) (fm_smallest (files ! j)) < 0"
    using sorted_wrt_nth_less [OF conjunct2 [OF assms(1) [unfolded level_files_ok_def]] assms(2,3)] .
  ultimately show ?thesis
    using key_order.compare_less_le_trans [OF internal_order] key_ok_internal by (meson file_ok_def)
qed

lemma FindFile_level:
  assumes "level_files_ok c keys files" "length files < 2 ^ 31" "internal_keys keys key"
  shows "\<exists>r. FindFile c files key = Some r \<and>
    unat r = length (takeWhile (\<lambda>f. InternalKeyComparator_Compare c (fm_largest f) key < 0) files)"
  unfolding FindFile_def
proof (rule find_file_loop_eq [OF assms(2)])
  fix i j
  assume ij: "i \<le> j" "j < length files" "InternalKeyComparator_Compare c (fm_largest (files ! j)) key < 0"
  have "internal_keys keys (fm_largest (files ! i))" "internal_keys keys (fm_largest (files ! j))"
    using assms(1) ij by (auto simp: level_files_ok_def file_ok_def intro!: key_ok_internal)
  then show "InternalKeyComparator_Compare c (fm_largest (files ! i)) key < 0"
    using key_order.compare_less_trans [OF internal_order _ _ assms(3)] level_largest_less [OF assms(1)] ij
    by (cases "i = j") auto
qed (use assms(2) in \<open>simp_all add: unsigned_of_nat take_bit_nat_eq_self\<close>)

text \<open>The largest possible tag comes first among the entries of a user key.\<close>

lemma seek_key_before:
  assumes "key_ok keys k" "keys a"
  shows "InternalKeyComparator_Compare c k (InternalKey_make a kMaxSequenceNumber kValueTypeForSeek) < 0 \<longleftrightarrow>
    cmp_Compare c (ExtractUserKey k) a < 0"
proof -
  obtain q where q: "ParseInternalKey k = Some q" using assms(1) by (auto simp: key_ok_def)
  have k: "k = AppendInternalKey [] q" using ParseInternalKey_bytes [OF q] by simp
  have s: "pik_sequence q \<le> kMaxSequenceNumber" by (rule parsed_sequence_le [OF q])
  have "\<not> PackSequenceAndType kMaxSequenceNumber kValueTypeForSeek < key_tag k"
    using unat_Pack [OF s, of "pik_type q"] unat_Pack [of kMaxSequenceNumber kValueTypeForSeek] s
    by (cases "pik_type q") (auto simp: k AppendInternalKey_def word_less_nat_alt word_le_nat_alt ValueType_byte_def kValueTypeForSeek_def)
  then show ?thesis by (auto simp: InternalKeyComparator_Compare_simps)
qed

lemma SomeFileOverlapsRange_level:
  assumes "level_files_ok c keys files" "length files < 2 ^ 31" "\<And>k. smallest = Some k \<Longrightarrow> keys k" "\<And>k. largest = Some k \<Longrightarrow> keys k"
  shows "SomeFileOverlapsRange c True files smallest largest = SomeFileOverlapsRange c False files smallest largest"
proof -
  let ?before = "\<lambda>f. AfterFile c smallest f"
  have key: "keys (ExtractUserKey (fm_largest f))" "keys (ExtractUserKey (fm_smallest f))" if "f \<in> set files" for f
    using assms(1) that by (simp_all add: level_files_ok_def file_ok_def key_ok_def)
  have "\<exists>r. (case smallest of None \<Rightarrow> Some 0 | Some k \<Rightarrow> FindFile c files (InternalKey_make k kMaxSequenceNumber kValueTypeForSeek)) = Some r \<and>
      unat r = length (takeWhile ?before files)"
  proof (cases smallest)
    case None
    then show ?thesis by (simp add: AfterFile_def takeWhile_eq_Nil_iff)
  next
    case (Some a)
    have "InternalKeyComparator_Compare c (fm_largest f) (InternalKey_make a kMaxSequenceNumber kValueTypeForSeek) < 0 \<longleftrightarrow> ?before f"
      if "f \<in> set files" for f
      using seek_key_before [of "fm_largest f" a] compare_flip [of "ExtractUserKey (fm_largest f)" a] assms(1,3) that key(1) [OF that] Some
      by (auto simp: level_files_ok_def file_ok_def AfterFile_def)
    then have "takeWhile (\<lambda>f. InternalKeyComparator_Compare c (fm_largest f) (InternalKey_make a kMaxSequenceNumber kValueTypeForSeek) < 0) files =
        takeWhile ?before files" by (intro takeWhile_cong) auto
    moreover have "internal_keys keys (InternalKey_make a kMaxSequenceNumber kValueTypeForSeek)"
      using assms(3) Some by (simp add: InternalKey_make_def)
    ultimately show ?thesis using FindFile_level [OF assms(1,2), of "InternalKey_make a kMaxSequenceNumber kValueTypeForSeek"] Some by simp
  qed
  then obtain r where r: "(case smallest of None \<Rightarrow> Some 0 | Some k \<Rightarrow> FindFile c files (InternalKey_make k kMaxSequenceNumber kValueTypeForSeek)) = Some r"
    "unat r = length (takeWhile ?before files)" by blast
  let ?n = "length (takeWhile ?before files)"
  have "(?n < length files \<and> \<not> BeforeFile c largest (files ! ?n)) \<longleftrightarrow> (\<exists>f \<in> set files. \<not> (?before f \<or> BeforeFile c largest f))" (is "?L \<longleftrightarrow> ?R")
  proof
    assume l: ?L
    then have "\<not> ?before (files ! ?n)" using nth_length_takeWhile by blast
    then show ?R using l by (intro bexI [of _ "files ! ?n"]) auto
  next
    assume ?R
    then obtain j where j: "j < length files" "\<not> ?before (files ! j)" "\<not> BeforeFile c largest (files ! j)" by (auto simp: in_set_conv_nth)
    have nj: "?n \<le> j" using j(2) nth_mem [of j "takeWhile ?before files"] takeWhile_nth [of j ?before files]
      by (metis not_le set_takeWhileD)
    have "\<not> BeforeFile c largest (files ! ?n)"
    proof (cases "?n = j")
      case False
      have "InternalKeyComparator_Compare c (fm_largest (files ! ?n)) (fm_smallest (files ! j)) < 0"
        using sorted_wrt_nth_less [OF conjunct2 [OF assms(1) [unfolded level_files_ok_def]]] nj False j(1) by simp
      moreover have "InternalKeyComparator_Compare c (fm_smallest (files ! ?n)) (fm_largest (files ! ?n)) \<le> 0"
        using assms(1) nj j(1) by (simp add: level_files_ok_def file_ok_def)
      moreover have n: "files ! ?n \<in> set files" "files ! j \<in> set files" using nj j(1) by simp_all
      ultimately have "cmp_Compare c (ExtractUserKey (fm_smallest (files ! ?n))) (ExtractUserKey (fm_smallest (files ! j))) \<le> 0"
        using compare_trans [of "ExtractUserKey (fm_smallest (files ! ?n))" "ExtractUserKey (fm_largest (files ! ?n))" "ExtractUserKey (fm_smallest (files ! j))"]
          key [OF n(1)] key [OF n(2)] by (auto simp: InternalKeyComparator_Compare_simps)
      then show ?thesis
        using j(3) assms(4) key(2) [OF n(1)] key(2) [OF n(2)]
          compare_less_le_trans [of "the largest" "ExtractUserKey (fm_smallest (files ! ?n))" "ExtractUserKey (fm_smallest (files ! j))"]
        by (cases largest) (auto simp: BeforeFile_def)
    qed (use j in simp)
    then show ?L using nj j(1) by simp
  qed
  then show ?thesis using r by (auto simp: SomeFileOverlapsRange_def list_ex_iff)
qed

end

subsection \<open>Overlapping files\<close>

abbreviation file_start :: "file_meta \<Rightarrow> bytes" where
  "file_start f \<equiv> ExtractUserKey (fm_smallest f)"

abbreviation file_limit :: "file_meta \<Rightarrow> bytes" where
  "file_limit f \<equiv> ExtractUserKey (fm_largest f)"

text \<open>The range of user keys of a file meets a range; \<open>None\<close> is an open end.\<close>

definition overlaps :: "comparator \<Rightarrow> bytes option \<Rightarrow> bytes option \<Rightarrow> file_meta \<Rightarrow> bool" where
  "overlaps u b e f \<longleftrightarrow> (\<forall>x. b = Some x \<longrightarrow> \<not> cmp_Compare u (file_limit f) x < 0) \<and> (\<forall>y. e = Some y \<longrightarrow> \<not> 0 < cmp_Compare u (file_start f) y)"

definition within :: "comparator \<Rightarrow> bytes option \<Rightarrow> bytes option \<Rightarrow> file_meta \<Rightarrow> bool" where
  "within u b e f \<longleftrightarrow> (\<forall>x. b = Some x \<longrightarrow> \<not> cmp_Compare u (file_start f) x < 0) \<and> (\<forall>y. e = Some y \<longrightarrow> \<not> 0 < cmp_Compare u (file_limit f) y)"

text \<open>The files that a range reaches, directly or through other files.\<close>

inductive touched :: "comparator \<Rightarrow> file_meta list \<Rightarrow> bytes option \<Rightarrow> bytes option \<Rightarrow> file_meta \<Rightarrow> bool"
  for u files b e where
  touched_range: "f \<in> set files \<Longrightarrow> overlaps u b e f \<Longrightarrow> touched u files b e f"
| touched_file: "touched u files b e g \<Longrightarrow> f \<in> set files \<Longrightarrow> overlaps u (Some (file_start g)) (Some (file_limit g)) f \<Longrightarrow>
    touched u files b e f"

lemma touched_in: "touched u files b e f \<Longrightarrow> f \<in> set files"
  by (induction rule: touched.induct)

lemma overlap_loop_step:
  assumes "i < length files"
  shows "overlap_loop u level files i b e inputs =
    (if \<not> overlaps u b e (files ! i) then overlap_loop u level files (Suc i) b e inputs
     else if level = 0 \<and> (\<exists>x. b = Some x \<and> cmp_Compare u (file_start (files ! i)) x < 0)
     then overlap_loop u level files 0 (Some (file_start (files ! i))) e []
     else if level = 0 \<and> (\<exists>y. e = Some y \<and> 0 < cmp_Compare u (file_limit (files ! i)) y)
     then overlap_loop u level files 0 b (Some (file_limit (files ! i))) []
     else overlap_loop u level files (Suc i) b e (inputs @ [files ! i]))"
  using assms by (subst overlap_loop.simps) (cases b; cases e; simp add: overlaps_def Let_def)

lemma overlap_loop_end: "\<not> i < length files \<Longrightarrow> overlap_loop u level files i b e inputs = Some inputs"
  by (subst overlap_loop.simps) simp

lemma overlap_loop_level:
  assumes "level \<noteq> 0" "i \<le> length files"
  shows "overlap_loop u level files i b e inputs = Some (inputs @ filter (overlaps u b e) (drop i files))"
  using assms(2)
proof (induction "length files - i" arbitrary: i inputs)
  case 0
  then show ?case by (simp add: overlap_loop_end)
next
  case (Suc n)
  then have i: "i < length files" "n = length files - Suc i" "Suc i \<le> length files" by simp_all
  show ?case using Suc(1) [OF i(2,3)] Cons_nth_drop_Suc [OF i(1), symmetric] assms(1) by (simp add: overlap_loop_step [OF i(1)])
qed

definition above_begin :: "comparator \<Rightarrow> bytes option \<Rightarrow> file_meta list \<Rightarrow> nat" where
  "above_begin u b files = length (filter (\<lambda>f. \<exists>x. b = Some x \<and> cmp_Compare u (file_start f) x < 0) files)"

definition below_end :: "comparator \<Rightarrow> bytes option \<Rightarrow> file_meta list \<Rightarrow> nat" where
  "below_end u e files = length (filter (\<lambda>f. \<exists>y. e = Some y \<and> 0 < cmp_Compare u (file_limit f) y) files)"

lemma length_filter_less:
  "(\<And>x. x \<in> set xs \<Longrightarrow> P x \<Longrightarrow> Q x) \<Longrightarrow> y \<in> set xs \<Longrightarrow> Q y \<Longrightarrow> \<not> P y \<Longrightarrow> length (filter P xs) < length (filter Q xs)"
proof (induction xs)
  case (Cons x xs)
  have "\<forall>z \<in> set xs. P z \<longrightarrow> Q z" using Cons.prems(1) by simp
  then have le: "length (filter P xs) \<le> length (filter Q xs)" by (induction xs) auto
  show ?case
  proof (cases "y = x")
    case True
    then show ?thesis using Cons.prems(3,4) le by simp
  next
    case False
    then have "length (filter P xs) < length (filter Q xs)" using Cons by auto
    then show ?thesis using Cons.prems(1) by auto
  qed
qed simp

context comparator_contract
begin

definition range_ok :: "file_meta \<Rightarrow> bool" where
  "range_ok f \<longleftrightarrow> keys (file_start f) \<and> keys (file_limit f) \<and> cmp_Compare c (file_start f) (file_limit f) \<le> 0"

lemma file_range_ok: "file_ok c keys f \<Longrightarrow> range_ok f"
  by (auto simp: file_ok_def range_ok_def key_ok_def InternalKeyComparator_Compare_simps)

lemma not_less_iff: "keys a \<Longrightarrow> keys b \<Longrightarrow> \<not> cmp_Compare c a b < 0 \<longleftrightarrow> cmp_Compare c b a \<le> 0"
  using compare_le_iff [of a b] by auto

lemma not_greater_iff: "\<not> 0 < cmp_Compare c a b \<longleftrightarrow> cmp_Compare c a b \<le> 0"
  by linarith

lemma widen_begin:
  assumes "range_ok f" "range_ok g" "keys x" "overlaps c (Some x) e g" "cmp_Compare c (file_start g) x < 0"
    "overlaps c (Some (file_start g)) e f"
  shows "overlaps c (Some x) e f \<or> overlaps c (Some (file_start g)) (Some (file_limit g)) f"
proof (cases "cmp_Compare c (file_limit f) x < 0")
  case True
  have "cmp_Compare c x (file_limit g) \<le> 0" using assms(2-4) not_less_iff by (simp add: overlaps_def range_ok_def)
  moreover have "cmp_Compare c (file_start f) (file_limit f) \<le> 0" using assms(1) by (simp add: range_ok_def)
  ultimately have "cmp_Compare c (file_start f) (file_limit g) \<le> 0"
    using True assms(1-3) compare_trans [of "file_start f" "file_limit f" x] compare_trans [of "file_start f" x "file_limit g"]
    by (simp add: range_ok_def)
  then show ?thesis using assms(6) by (auto simp: overlaps_def)
next
  case False
  then show ?thesis using assms(6) by (simp add: overlaps_def)
qed

lemma widen_end:
  assumes "range_ok f" "range_ok g" "keys y" "overlaps c b (Some y) g" "0 < cmp_Compare c (file_limit g) y"
    "overlaps c b (Some (file_limit g)) f"
  shows "overlaps c b (Some y) f \<or> overlaps c (Some (file_start g)) (Some (file_limit g)) f"
proof (cases "0 < cmp_Compare c (file_start f) y")
  case True
  have k: "keys (file_start f)" "keys (file_limit f)" "keys (file_start g)" using assms(1,2) by (simp_all add: range_ok_def)
  have "cmp_Compare c (file_start g) y \<le> 0" using assms(4) by (simp add: overlaps_def)
  moreover have "cmp_Compare c y (file_start f) \<le> 0" using True compare_flip [OF assms(3) k(1)] by simp
  ultimately have "cmp_Compare c (file_start g) (file_limit f) \<le> 0"
    using assms(1,3) k compare_trans [of "file_start g" y "file_start f"] compare_trans [of "file_start g" "file_start f" "file_limit f"]
    by (simp add: range_ok_def)
  then show ?thesis using assms(6) not_less_iff [OF k(2,3)] by (auto simp: overlaps_def)
next
  case False
  then show ?thesis using assms(6) by (simp add: overlaps_def)
qed

lemma within_overlaps:
  assumes "range_ok f" "range_ok g" "\<And>x. b = Some x \<Longrightarrow> keys x" "\<And>y. e = Some y \<Longrightarrow> keys y"
    and "within c b e g" "overlaps c (Some (file_start g)) (Some (file_limit g)) f"
  shows "overlaps c b e f"
proof -
  have k: "keys (file_start f)" "keys (file_limit f)" "keys (file_start g)" "keys (file_limit g)" using assms(1,2) by (simp_all add: range_ok_def)
  have "\<not> cmp_Compare c (file_limit f) x < 0" if "b = Some x" for x
    using compare_less_le_trans [of "file_limit f" x "file_start g"] not_less_iff [OF k(3) assms(3) [OF that]] assms(3,5,6) k that
    by (auto simp: overlaps_def within_def)
  moreover have "\<not> 0 < cmp_Compare c (file_start f) y" if "e = Some y" for y
    using compare_trans [of "file_start f" "file_limit g" y] assms(4,5,6) k that by (auto simp: overlaps_def within_def not_less)
  ultimately show ?thesis by (simp add: overlaps_def)
qed

lemma overlap_loop_0:
  assumes files: "\<forall>f \<in> set files. range_ok f"
    and bounds: "\<And>x. b = Some x \<Longrightarrow> keys x" "\<And>y. e = Some y \<Longrightarrow> keys y"
    and i: "i \<le> length files" "inputs = filter (overlaps c b e) (take i files)" "\<forall>f \<in> set inputs. within c b e f"
    and wider: "\<forall>f \<in> set files. overlaps c b0 e0 f \<longrightarrow> overlaps c b e f"
    and reached: "\<forall>f \<in> set files. overlaps c b e f \<longrightarrow> touched c files b0 e0 f"
  shows "overlap_loop c 0 files i b e inputs = Some (filter (touched c files b0 e0) files)"
  using bounds i wider reached
proof (induction "(above_begin c b files + below_end c e files) * Suc (length files) + (length files - i)" arbitrary: b e i inputs rule: less_induct)
  case less
  show ?case
  proof (cases "i < length files")
    case False
    then have all: "inputs = filter (overlaps c b e) files" using less.prems(3,4) by simp
    have "overlaps c b e f" if "touched c files b0 e0 f" for f
      using that
    proof (induction rule: touched.induct)
      case (touched_file g f)
      then have "within c b e g" using less.prems(5) all touched_in by auto
      then show ?case using within_overlaps [of f g b e] touched_file less.prems(1,2) files touched_in by blast
    qed (use less.prems(6) in blast)
    then have "filter (overlaps c b e) files = filter (touched c files b0 e0) files"
      using less.prems(7) by (intro filter_cong) auto
    then show ?thesis using False all by (simp add: overlap_loop_end)
  next
    case True
    let ?f = "files ! i"
    have f: "?f \<in> set files" "range_ok ?f" using True files by simp_all
    have nxt: "take (Suc i) files = take i files @ [?f]" using True by (simp add: take_Suc_conv_app_nth)
    have smaller: "(above_begin c b' files + below_end c e' files) * Suc (length files) + (length files - j)
        < (above_begin c b files + below_end c e files) * Suc (length files) + (length files - i)"
      if "above_begin c b' files + below_end c e' files < above_begin c b files + below_end c e files" for b' e' j
    proof -
      have "Suc (above_begin c b' files + below_end c e' files) * Suc (length files) \<le> (above_begin c b files + below_end c e files) * Suc (length files)"
        using that by (intro mult_le_mono1) simp
      then show ?thesis using True by simp
    qed
    consider (skip) "\<not> overlaps c b e ?f"
      | (begin') x where "overlaps c b e ?f" "b = Some x" "cmp_Compare c (file_start ?f) x < 0"
      | (end') y where "overlaps c b e ?f" "\<not> (\<exists>x. b = Some x \<and> cmp_Compare c (file_start ?f) x < 0)" "e = Some y" "0 < cmp_Compare c (file_limit ?f) y"
      | (take) "overlaps c b e ?f" "within c b e ?f"
      by (auto simp: within_def)
    then show ?thesis
    proof cases
      case skip
      then have "overlap_loop c 0 files (Suc i) b e inputs = Some (filter (touched c files b0 e0) files)"
        by (intro less.hyps) (use True less.prems nxt in auto)
      then show ?thesis using skip overlap_loop_step [OF True] by simp
    next
      case take
      then have "overlap_loop c 0 files (Suc i) b e (inputs @ [?f]) = Some (filter (touched c files b0 e0) files)"
        by (intro less.hyps) (use True less.prems nxt in auto)
      then show ?thesis using take unfolding overlap_loop_step [OF True] by (auto simp: within_def)
    next
      case begin'
      let ?b = "Some (file_start ?f)"
      have k: "keys x" "keys (file_start ?f)" using less.prems(1) begin'(2) f(2) by (simp_all add: range_ok_def)
      have lt: "above_begin c ?b files < above_begin c b files"
        unfolding above_begin_def
      proof (rule length_filter_less [OF _ f(1)])
        show "\<exists>x. b = Some x \<and> cmp_Compare c (file_start g) x < 0"
          if "g \<in> set files" "\<exists>x. ?b = Some x \<and> cmp_Compare c (file_start g) x < 0" for g
          using compare_less_trans [of "file_start g" "file_start ?f" x] that k begin'(2,3) files by (auto simp: range_ok_def)
      qed (use begin' compare_refl [OF k(2)] in auto)
      have w: "overlaps c ?b e g" if "overlaps c b e g" "g \<in> set files" for g
        using that begin'(2,3) k files compare_less_trans [of "file_limit g" "file_start ?f" x] by (auto simp: overlaps_def range_ok_def)
      have r: "touched c files b0 e0 g" if g: "overlaps c ?b e g" "g \<in> set files" for g
        using widen_begin [of g ?f x e] files f begin' g k(1) less.prems(7) touched_file by blast
      have "overlap_loop c 0 files 0 ?b e [] = Some (filter (touched c files b0 e0) files)"
        by (rule less.hyps) (use smaller [of ?b e 0] lt less.prems k w r in auto)
      then show ?thesis using begin' overlap_loop_step [OF True] by simp
    next
      case end'
      let ?e = "Some (file_limit ?f)"
      have k: "keys y" "keys (file_limit ?f)" using less.prems(2) end'(3) f(2) by (simp_all add: range_ok_def)
      have gt: "0 < cmp_Compare c (file_limit g) y" if "g \<in> set files" "0 < cmp_Compare c (file_limit g) (file_limit ?f)" for g
        using compare_less_trans [of y "file_limit ?f" "file_limit g"] compare_flip that k end'(4) files by (simp add: range_ok_def)
      have lt: "below_end c ?e files < below_end c e files"
        unfolding below_end_def
        by (rule length_filter_less [OF _ f(1)]) (use end' gt compare_refl [OF k(2)] in auto)
      have w: "overlaps c b ?e g" if g: "overlaps c b e g" "g \<in> set files" for g
      proof -
        have "cmp_Compare c (file_start g) y \<le> 0" using g(1) end'(3) by (simp add: overlaps_def)
        moreover have "cmp_Compare c y (file_limit ?f) \<le> 0" using end'(4) compare_flip [OF k] by simp
        ultimately have "cmp_Compare c (file_start g) (file_limit ?f) \<le> 0"
          using compare_trans [of "file_start g" y "file_limit ?f"] k files g(2) by (simp add: range_ok_def)
        then show ?thesis using g(1) by (simp add: overlaps_def)
      qed
      have r: "touched c files b0 e0 g" if g: "overlaps c b ?e g" "g \<in> set files" for g
        using widen_end [of g ?f y b] files f end' g k(1) less.prems(7) touched_file by blast
      have "overlap_loop c 0 files 0 b ?e [] = Some (filter (touched c files b0 e0) files)"
        by (rule less.hyps) (use smaller [of b ?e 0] lt less.prems k w r in auto)
      then show ?thesis using end' overlap_loop_step [OF True] by auto
    qed
  qed
qed

end

subsection \<open>Boundary files\<close>

definition boundary :: "comparator \<Rightarrow> InternalKey \<Rightarrow> file_meta \<Rightarrow> bool" where
  "boundary u largest_key f \<longleftrightarrow> 0 < InternalKeyComparator_Compare u (fm_smallest f) largest_key \<and>
     cmp_Compare u (file_start f) (ExtractUserKey largest_key) = 0"

text \<open>Folding with the greatest or the least.\<close>

lemma FindLargestKey_max:
  assumes order: "key_order (InternalKeyComparator_Compare u) ikeys" and keys: "\<forall>f \<in> set files. ikeys (fm_largest f)"
    and k: "FindLargestKey u files = Some k"
  shows "k \<in> fm_largest ` set files" "\<forall>f \<in> set files. InternalKeyComparator_Compare u (fm_largest f) k \<le> 0"
proof -
  let ?step = "\<lambda>largest_key f. if 0 < InternalKeyComparator_Compare u (fm_largest f) largest_key then fm_largest f else largest_key"
  have fold: "ikeys (foldl ?step k0 fs) \<and> foldl ?step k0 fs \<in> insert k0 (fm_largest ` set fs) \<and>
      InternalKeyComparator_Compare u k0 (foldl ?step k0 fs) \<le> 0 \<and>
      (\<forall>f \<in> set fs. InternalKeyComparator_Compare u (fm_largest f) (foldl ?step k0 fs) \<le> 0)"
    if "ikeys k0" "\<forall>f \<in> set fs. ikeys (fm_largest f)" for k0 fs
    using that
  proof (induction fs arbitrary: k0)
    case Nil
    then show ?case using key_order.compare_refl [OF order] by simp
  next
    case (Cons f fs)
    let ?k = "?step k0 f"
    have k: "ikeys ?k" "ikeys (fm_largest f)" using Cons.prems by simp_all
    have le: "InternalKeyComparator_Compare u k0 ?k \<le> 0" "InternalKeyComparator_Compare u (fm_largest f) ?k \<le> 0"
      using key_order.compare_refl [OF order] key_order.compare_flip [OF order Cons.prems(1) k(2)] Cons.prems(1) k(2) by auto
    note IH = Cons.IH [OF k(1)]
    have ih: "ikeys (foldl ?step ?k fs)" "foldl ?step ?k fs \<in> insert ?k (fm_largest ` set fs)"
      "InternalKeyComparator_Compare u ?k (foldl ?step ?k fs) \<le> 0"
      "\<forall>f \<in> set fs. InternalKeyComparator_Compare u (fm_largest f) (foldl ?step ?k fs) \<le> 0"
      using IH Cons.prems(2) by auto
    have "InternalKeyComparator_Compare u k0 (foldl ?step ?k fs) \<le> 0" "InternalKeyComparator_Compare u (fm_largest f) (foldl ?step ?k fs) \<le> 0"
      using key_order.compare_trans [OF order _ k(1) ih(1) _ ih(3)] le Cons.prems(1) k(2) by blast+
    then show ?case using ih by (auto split: if_splits)
  qed
  obtain f fs where "files = f # fs" "k = foldl ?step (fm_largest f) fs" using k by (cases files) (auto simp: FindLargestKey_def)
  with fold [of "fm_largest f" fs] keys show "k \<in> fm_largest ` set files" "\<forall>f \<in> set files. InternalKeyComparator_Compare u (fm_largest f) k \<le> 0"
    by auto
qed

text \<open>The files the loop adds: each the first in the level that goes on where the one before it ends.\<close>

fun boundary_chain :: "comparator \<Rightarrow> file_meta list \<Rightarrow> InternalKey \<Rightarrow> file_meta list \<Rightarrow> bool" where
  "boundary_chain u level_files k [] \<longleftrightarrow> (\<forall>g \<in> set level_files. \<not> boundary u k g)"
| "boundary_chain u level_files k (f # fs) \<longleftrightarrow> f \<in> set level_files \<and> boundary u k f \<and>
     (\<forall>g \<in> set level_files. boundary u k g \<longrightarrow> InternalKeyComparator_Compare u (fm_smallest f) (fm_smallest g) \<le> 0) \<and>
     boundary_chain u level_files (fm_largest f) fs"

abbreviation chain_end :: "InternalKey \<Rightarrow> file_meta list \<Rightarrow> InternalKey" where
  "chain_end k fs \<equiv> fold (\<lambda>f _. fm_largest f) fs k"

lemma FindSmallestBoundaryFile_found:
  "(case FindSmallestBoundaryFile u level_files largest_key of
      None \<Rightarrow> \<forall>f \<in> set level_files. \<not> boundary u largest_key f
    | Some f \<Rightarrow> f \<in> set level_files \<and> boundary u largest_key f)"
proof -
  define step where "step r f = (if boundary u largest_key f \<and>
      (case r of None \<Rightarrow> True | Some s \<Rightarrow> InternalKeyComparator_Compare u (fm_smallest f) (fm_smallest s) < 0) then Some f else r)" for r f
  have fold: "(case foldl step r fs of
      None \<Rightarrow> r = None \<and> (\<forall>f \<in> set fs. \<not> boundary u largest_key f)
    | Some f \<Rightarrow> r = Some f \<or> f \<in> set fs \<and> boundary u largest_key f)" for r fs
  proof (induction fs arbitrary: r)
    case Nil
    then show ?case by (simp split: option.splits)
  next
    case (Cons f fs)
    have "step r f = Some f \<and> boundary u largest_key f \<or> step r f = r \<and> (r = None \<longrightarrow> \<not> boundary u largest_key f)"
      by (auto simp: step_def split: option.splits)
    then show ?case using Cons.IH [of "step r f"] by (cases "foldl step (step r f) fs") auto
  qed
  have "FindSmallestBoundaryFile u level_files largest_key = foldl step None level_files"
    unfolding FindSmallestBoundaryFile_def by (rule arg_cong [of _ _ "\<lambda>g. foldl g None level_files"]) (auto simp: fun_eq_iff step_def boundary_def)
  then show ?thesis using fold [of None level_files] by (cases "foldl step None level_files") auto
qed

context comparator_contract
begin

lemma FindSmallestBoundaryFile_least:
  assumes files: "\<forall>f \<in> set level_files. file_ok c keys f" and f: "FindSmallestBoundaryFile c level_files largest_key = Some f"
    and g: "g \<in> set level_files" "boundary c largest_key g"
  shows "InternalKeyComparator_Compare c (fm_smallest f) (fm_smallest g) \<le> 0"
proof -
  define step where "step r f = (if boundary c largest_key f \<and>
      (case r of None \<Rightarrow> True | Some s \<Rightarrow> InternalKeyComparator_Compare c (fm_smallest f) (fm_smallest s) < 0) then Some f else r)" for r f
  note order = internal_order
  have fold: "InternalKeyComparator_Compare c (fm_smallest x) (fm_smallest g) \<le> 0"
    if "foldl step r fs = Some x" "\<forall>h \<in> set fs \<union> set_option r. internal_keys keys (fm_smallest h)"
      "g \<in> set_option r \<or> g \<in> set fs \<and> boundary c largest_key g" for r fs x g
    using that
  proof (induction fs arbitrary: r g)
    case Nil
    then show ?case using key_order.compare_refl [OF order] by auto
  next
    case (Cons h fs)
    have keep: "set_option (step r h) \<subseteq> insert h (set_option r)" by (auto simp: step_def split: option.splits)
    then have ih: "InternalKeyComparator_Compare c (fm_smallest x) (fm_smallest g') \<le> 0"
      if "g' \<in> set_option (step r h) \<or> g' \<in> set fs \<and> boundary c largest_key g'" for g'
      using Cons.IH [of "step r h" g'] Cons.prems(1,2) that by auto
    show ?case
    proof (cases "g \<in> set fs \<and> boundary c largest_key g")
      case False
      with Cons.prems(3) have "g \<in> set_option r \<or> g = h \<and> boundary c largest_key h" by auto
      then obtain s where s: "step r h = Some s" "InternalKeyComparator_Compare c (fm_smallest s) (fm_smallest g) \<le> 0"
        using key_order.compare_refl [OF order, of "fm_smallest g"] key_order.compare_flip [OF order, of "fm_smallest g"] Cons.prems(2)
        by (cases r) (fastforce simp: step_def split: if_splits)+
      have x: "internal_keys keys (fm_smallest x)"
      proof -
        have "x \<in> set_option r' \<or> x \<in> set hs" if "foldl step r' hs = Some x" for r' hs
          using that by (induction hs arbitrary: r') (auto simp: step_def split: if_splits option.splits)
        with Cons.prems(1,2) show ?thesis by blast
      qed
      have k: "internal_keys keys (fm_smallest s)" "internal_keys keys (fm_smallest g)"
        using keep s(1) Cons.prems(2,3) by auto
      show ?thesis using key_order.compare_trans [OF order x k ih s(2)] s(1) by simp
    qed (use ih in blast)
  qed
  have "FindSmallestBoundaryFile c level_files largest_key = foldl step None level_files"
    unfolding FindSmallestBoundaryFile_def by (rule arg_cong [of _ _ "\<lambda>g. foldl g None level_files"]) (auto simp: fun_eq_iff step_def boundary_def)
  with f files g fold [of None level_files f g] show ?thesis
    by (auto simp: file_ok_def intro: key_ok_internal)
qed

lemma boundary_chain_between:
  assumes files: "level_files_ok c keys level_files" and k: "internal_keys keys k"
    and chain: "boundary_chain c level_files k fs"
  shows "distinct fs \<and> set fs = {f \<in> set level_files. 0 < InternalKeyComparator_Compare c (fm_smallest f) k \<and>
     InternalKeyComparator_Compare c (fm_smallest f) (chain_end k fs) \<le> 0}"
  using k chain
proof (induction fs arbitrary: k)
  case (Cons f fs)
  note order = internal_order
  have ik: "internal_keys keys (fm_smallest g)" "internal_keys keys (fm_largest g)"
    "InternalKeyComparator_Compare c (fm_smallest g) (fm_largest g) \<le> 0" if "g \<in> set level_files" for g
    using files that by (auto simp: level_files_ok_def file_ok_def intro: key_ok_internal)
  have f: "f \<in> set level_files" "boundary c k f" using Cons.prems by auto
  note fk = ik [OF f(1)]
  let ?e = "chain_end (fm_largest f) fs"
  have IH: "distinct fs" "set fs = {g \<in> set level_files. 0 < InternalKeyComparator_Compare c (fm_smallest g) (fm_largest f) \<and>
      InternalKeyComparator_Compare c (fm_smallest g) ?e \<le> 0}"
    using Cons.IH [OF fk(2)] Cons.prems by auto
  have up: "InternalKeyComparator_Compare c k (fm_smallest f) < 0"
    using f(2) key_order.compare_flip [OF order Cons.prems(1) fk(1)] by (simp add: boundary_def)
  have up': "InternalKeyComparator_Compare c k (fm_largest f) < 0"
    using key_order.compare_less_le_trans [OF order Cons.prems(1) fk(1,2) up fk(3)] .
  have ke: "internal_keys keys ?e"
    using IH(2) fk(2) ik(2) by (cases fs rule: rev_cases) auto
  have le: "InternalKeyComparator_Compare c (fm_largest f) ?e \<le> 0"
  proof (cases fs)
    case Nil
    then show ?thesis using key_order.compare_refl [OF order fk(2)] by simp
  next
    case (Cons g gs)
    then have "g \<in> set fs" by simp
    then have g: "g \<in> set level_files" "0 < InternalKeyComparator_Compare c (fm_smallest g) (fm_largest f)"
      "InternalKeyComparator_Compare c (fm_smallest g) ?e \<le> 0" unfolding IH(2) by auto
    then have "InternalKeyComparator_Compare c (fm_largest f) (fm_smallest g) \<le> 0"
      using key_order.compare_flip [OF order fk(2) ik(1)] by fastforce
    then show ?thesis using key_order.compare_trans [OF order fk(2) ik(1) [OF g(1)] ke] g(3) by blast
  qed
  have sub: "0 < InternalKeyComparator_Compare c (fm_smallest g) k" "InternalKeyComparator_Compare c (fm_smallest g) ?e \<le> 0" if "g \<in> set (f # fs)" for g
  proof -
    have "0 < InternalKeyComparator_Compare c (fm_smallest g) k" if "g \<in> set fs"
      using that key_order.compare_less_trans [OF order Cons.prems(1) fk(2) ik(1) [of g] up'] key_order.compare_flip [OF order _ ik(1) [of g]]
        Cons.prems(1) fk(2) unfolding IH(2) by auto
    then show "0 < InternalKeyComparator_Compare c (fm_smallest g) k" using that f(2) by (auto simp: boundary_def)
    show "InternalKeyComparator_Compare c (fm_smallest g) ?e \<le> 0"
      using that key_order.compare_trans [OF order fk(1,2) ke fk(3) le] unfolding set_simps IH(2) by auto
  qed
  have sup: "g \<in> set (f # fs)" if g: "g \<in> set level_files" "0 < InternalKeyComparator_Compare c (fm_smallest g) k"
    "InternalKeyComparator_Compare c (fm_smallest g) ?e \<le> 0" for g
  proof -
    note gk = ik [OF g(1)]
    have "g = f \<or> InternalKeyComparator_Compare c (fm_largest g) (fm_smallest f) < 0 \<or> InternalKeyComparator_Compare c (fm_largest f) (fm_smallest g) < 0"
      using files f(1) g(1) unfolding level_files_ok_def in_set_conv_nth
      by (metis linorder_neqE_nat sorted_wrt_nth_less)
    then consider "g = f" | "InternalKeyComparator_Compare c (fm_largest g) (fm_smallest f) < 0"
      | "InternalKeyComparator_Compare c (fm_largest f) (fm_smallest g) < 0" by blast
    then show ?thesis
    proof cases
      case 2
      then have lt: "InternalKeyComparator_Compare c (fm_smallest g) (fm_smallest f) < 0"
        using key_order.compare_le_less_trans [OF order gk(1,2) fk(1) gk(3)] by blast
      have "InternalKeyComparator_Compare c k (fm_smallest g) < 0"
        using g(2) key_order.compare_flip [OF order Cons.prems(1) gk(1)] by simp
      then have "cmp_Compare c (ExtractUserKey k) (file_start g) \<le> 0" "cmp_Compare c (file_start g) (file_start f) \<le> 0"
        using lt by (auto simp: InternalKeyComparator_Compare_simps)
      moreover have "cmp_Compare c (ExtractUserKey k) (file_start f) = 0"
        using f(2) compare_eq_sym [of "ExtractUserKey k" "file_start f"] Cons.prems(1) fk(1) by (simp add: boundary_def internal_keys_def)
      ultimately have "cmp_Compare c (file_start g) (ExtractUserKey k) = 0"
        using user_order [of "ExtractUserKey k" "file_start g" "file_start f"] compare_eq_sym [of "ExtractUserKey k" "file_start g"]
          Cons.prems(1) gk(1) fk(1) by (auto simp: internal_keys_def)
      then have "boundary c k g" using g(2) by (simp add: boundary_def)
      then have "InternalKeyComparator_Compare c (fm_smallest f) (fm_smallest g) \<le> 0" using Cons.prems(2) g(1) by simp
      then show ?thesis using lt key_order.compare_flip [OF order gk(1) fk(1)] by simp
    next
      case 3
      then have "0 < InternalKeyComparator_Compare c (fm_smallest g) (fm_largest f)"
        using key_order.compare_flip [OF order fk(2) gk(1)] by simp
      then show ?thesis using g(1,3) IH(2) by simp
    qed simp
  qed
  have "f \<notin> set fs" using fk(3) unfolding IH(2) by simp
  then have d: "distinct (f # fs)" using IH(1) by simp
  have mem: "g \<in> set level_files" if "g \<in> set (f # fs)" for g using that f(1) unfolding set_simps IH(2) by blast
  have "set (f # fs) = {g \<in> set level_files. 0 < InternalKeyComparator_Compare c (fm_smallest g) k \<and>
     InternalKeyComparator_Compare c (fm_smallest g) ?e \<le> 0}"
    by (rule set_eqI) (use mem sub sup in blast)
  with d show ?case by simp
qed simp

lemma add_boundary_loop_ends:
  assumes files: "\<forall>f \<in> set level_files. file_ok c keys f" and k: "internal_keys keys largest_key"
    and cf: "\<forall>f \<in> set cf. file_ok c keys f" "FindLargestKey c cf = Some largest_key"
    "\<forall>f \<in> set cf. InternalKeyComparator_Compare c (fm_largest f) largest_key \<le> 0"
  shows "\<exists>cf' k'. add_boundary_loop c level_files largest_key cf = Some (cf @ cf') \<and> set cf' \<subseteq> set level_files \<and>
    FindLargestKey c (cf @ cf') = Some k' \<and> (\<forall>f \<in> set level_files. \<not> boundary c k' f) \<and> internal_keys keys k' \<and>
    (\<forall>f \<in> set (cf @ cf'). InternalKeyComparator_Compare c (fm_largest f) k' \<le> 0) \<and>
    boundary_chain c level_files largest_key cf' \<and> k' = chain_end largest_key cf'"
  using k cf
proof (induction "length (filter (\<lambda>f. 0 < InternalKeyComparator_Compare c (fm_smallest f) largest_key) level_files)"
    arbitrary: largest_key cf rule: less_induct)
  case less
  note order = internal_order
  show ?case
  proof (cases "FindSmallestBoundaryFile c level_files largest_key")
    case None
    then show ?thesis using FindSmallestBoundaryFile_found [where u = c and level_files = level_files and largest_key = largest_key] less.prems
      by (subst add_boundary_loop.simps) (auto intro!: exI [of _ "[]"])
  next
    case (Some f)
    then have f: "f \<in> set level_files" "boundary c largest_key f" using FindSmallestBoundaryFile_found [where u = c and level_files = level_files and largest_key = largest_key] by auto
    then have ok: "file_ok c keys f" using files by blast
    have kk: "internal_keys keys (fm_smallest f)" "internal_keys keys (fm_largest f)" using ok by (auto simp: file_ok_def intro: key_ok_internal)
    have up: "InternalKeyComparator_Compare c largest_key (fm_smallest f) < 0"
      using f(2) key_order.compare_flip [OF order less.prems(1) kk(1)] by (simp add: boundary_def)
    have "InternalKeyComparator_Compare c (fm_smallest f) (fm_largest f) \<le> 0" using ok by (simp add: file_ok_def)
    then have up': "InternalKeyComparator_Compare c largest_key (fm_largest f) < 0"
      using key_order.compare_less_le_trans [OF order less.prems(1) kk up] by blast
    have gt: "0 < InternalKeyComparator_Compare c (fm_largest f) largest_key" using up' key_order.compare_flip [OF order less.prems(1) kk(2)] by simp
    have "length (filter (\<lambda>g. 0 < InternalKeyComparator_Compare c (fm_smallest g) (fm_largest f)) level_files)
        < length (filter (\<lambda>g. 0 < InternalKeyComparator_Compare c (fm_smallest g) largest_key) level_files)"
    proof (rule length_filter_less [OF _ f(1)])
      fix g assume g: "g \<in> set level_files" "0 < InternalKeyComparator_Compare c (fm_smallest g) (fm_largest f)"
      have kg: "internal_keys keys (fm_smallest g)" using files g(1) by (auto simp: file_ok_def intro: key_ok_internal)
      then show "0 < InternalKeyComparator_Compare c (fm_smallest g) largest_key"
        using key_order.compare_less_trans [OF order less.prems(1) kk(2) kg up'] key_order.compare_flip [OF order] g(2) kk(2) less.prems(1) by blast
    next
      show "0 < InternalKeyComparator_Compare c (fm_smallest f) largest_key" using f(2) by (simp add: boundary_def)
      show "\<not> 0 < InternalKeyComparator_Compare c (fm_smallest f) (fm_largest f)" using ok by (simp add: file_ok_def)
    qed
    moreover have "FindLargestKey c (cf @ [f]) = Some (fm_largest f)"
      using less.prems(3) gt by (cases cf) (auto simp: FindLargestKey_def)
    moreover have "\<forall>g \<in> set (cf @ [f]). InternalKeyComparator_Compare c (fm_largest g) (fm_largest f) \<le> 0"
    proof
      fix g assume "g \<in> set (cf @ [f])"
      then consider "g \<in> set cf" | "g = f" by auto
      then show "InternalKeyComparator_Compare c (fm_largest g) (fm_largest f) \<le> 0"
      proof cases
        case 1
        then have "internal_keys keys (fm_largest g)" using less.prems(2) by (auto simp: file_ok_def intro: key_ok_internal)
        then show ?thesis using key_order.compare_le_less_trans [OF order _ less.prems(1) kk(2)] less.prems(4) 1 up' by force
      next
        case 2
        then show ?thesis using key_order.compare_refl [OF order kk(2)] by simp
      qed
    qed
    ultimately obtain cf' k' where "add_boundary_loop c level_files (fm_largest f) (cf @ [f]) = Some ((cf @ [f]) @ cf')" "set cf' \<subseteq> set level_files"
      "FindLargestKey c ((cf @ [f]) @ cf') = Some k'" "\<forall>g \<in> set level_files. \<not> boundary c k' g" "internal_keys keys k'"
      "\<forall>g \<in> set ((cf @ [f]) @ cf'). InternalKeyComparator_Compare c (fm_largest g) k' \<le> 0"
      "boundary_chain c level_files (fm_largest f) cf'" "k' = chain_end (fm_largest f) cf'"
      using less.hyps [of "fm_largest f" "cf @ [f]"] kk(2) less.prems(2) ok by auto
    then show ?thesis using Some f FindSmallestBoundaryFile_least [OF files Some]
      by (subst add_boundary_loop.simps) (auto intro!: exI [of _ "f # cf'"])
  qed
qed

lemma AddBoundaryInputs_ends:
  assumes "\<forall>f \<in> set level_files. file_ok c keys f" "\<forall>f \<in> set cf. file_ok c keys f"
  shows "\<exists>cf'. AddBoundaryInputs c level_files cf = Some (cf @ cf') \<and> set cf' \<subseteq> set level_files \<and>
    (\<forall>k. FindLargestKey c (cf @ cf') = Some k \<longrightarrow> (\<forall>f \<in> set level_files. \<not> boundary c k f) \<and>
      (\<forall>k0. FindLargestKey c cf = Some k0 \<longrightarrow> k = chain_end k0 cf' \<and> boundary_chain c level_files k0 cf'))"
proof (cases "FindLargestKey c cf")
  case None
  then show ?thesis by (cases cf) (auto simp: AddBoundaryInputs_def FindLargestKey_def)
next
  case (Some k)
  have ik: "\<forall>f \<in> set cf. internal_keys keys (fm_largest f)" using assms(2) by (auto simp: file_ok_def intro: key_ok_internal)
  note m = FindLargestKey_max [OF internal_order ik Some]
  then have "internal_keys keys k" using ik by auto
  from add_boundary_loop_ends [OF assms(1) this assms(2) Some m(2)] show ?thesis using Some by (auto simp: AddBoundaryInputs_def)
qed

end

subsection \<open>The iterator of a level meets the iterator contract\<close>

definition level_entry :: "file_meta \<Rightarrow> bytes \<times> bytes" where
  "level_entry f = (fm_largest f, EncodeFixed64 (fm_number f) @ EncodeFixed64 (fm_file_size f))"

definition level_view :: "comparator \<Rightarrow> (bytes \<Rightarrow> bool) \<Rightarrow> level_file_num_iterator \<Rightarrow> (bytes \<times> bytes) list \<Rightarrow> nat \<Rightarrow> bool" where
  "level_view u ukeys l es n \<longleftrightarrow> level_files_ok u ukeys (lf_flist l) \<and> length (lf_flist l) < 2 ^ 31 \<and>
     es = map level_entry (lf_flist l) \<and> n = unat (lf_index l) \<and> n \<le> length es"

context comparator_contract
begin

lemma level_contract:
  "iterator_contract (LevelFileNumIterator c) (InternalKeyComparator_Compare c) (internal_keys keys) (level_view c keys)"
proof
  fix l es n
  assume v: "level_view c keys l es n"
  let ?I = "LevelFileNumIterator c"
  have small: "unat (word_of_nat m :: u32) = m" if "m \<le> length es" for m
    using v that by (simp add: level_view_def unsigned_of_nat take_bit_nat_eq_self)
  have keep: "level_view c keys (l\<lparr>lf_index := i\<rparr>) es m" if "unat i = m" "m \<le> length es" for i m
    using v that by (simp add: level_view_def)
  show "n \<le> length es" "it_Valid ?I l \<longleftrightarrow> n < length es" "Status_ok (it_status ?I l)"
    using v by (auto simp: level_view_def LevelFileNumIterator_def level_Valid_def)
  show "\<exists>l'. it_SeekToFirst ?I l = Some l' \<and> level_view c keys l' es 0"
    using keep [of 0 0] by (simp add: LevelFileNumIterator_def level_SeekToFirst_def)
  have "lf_flist l = [] \<longleftrightarrow> es = []" "length (lf_flist l) = length es" using v by (auto simp: level_view_def)
  then show "\<exists>l'. it_SeekToLast ?I l = Some l' \<and> level_view c keys l' es (length es - 1)"
    using keep [of 0 0] keep [of "word_of_nat (length es - 1)" "length es - 1"] small [of "length es - 1"]
    by (auto simp: LevelFileNumIterator_def level_SeekToLast_def)
  show "\<exists>l'. it_Seek ?I target l = Some l' \<and> level_view c keys l' es (seek_index (InternalKeyComparator_Compare c) target es)"
    if t: "internal_keys keys target" for target
  proof -
    obtain r where r: "FindFile c (lf_flist l) target = Some r"
      "unat r = length (takeWhile (\<lambda>f. InternalKeyComparator_Compare c (fm_largest f) target < 0) (lf_flist l))"
      using FindFile_level [OF _ _ t] v by (auto simp: level_view_def)
    have "takeWhile (\<lambda>e. InternalKeyComparator_Compare c (fst e) target < 0) es =
        map level_entry (takeWhile (\<lambda>f. InternalKeyComparator_Compare c (fm_largest f) target < 0) (lf_flist l))"
      using v by (simp add: level_view_def takeWhile_map comp_def level_entry_def)
    then have "unat r = seek_index (InternalKeyComparator_Compare c) target es" using r(2) by (simp add: seek_index_def)
    then show ?thesis using r(1) keep [of r] seek_index_le [of "InternalKeyComparator_Compare c" target es]
      by (auto simp: LevelFileNumIterator_def level_Seek_def)
  qed
  assume n: "n < length es"
  have len: "length es < 2 ^ 31" "n = unat (lf_index l)" "level_Valid l" using v n by (auto simp: level_view_def level_Valid_def)
  show "(it_key ?I l, it_value ?I l) = es ! n"
    using v n by (auto simp: level_view_def LevelFileNumIterator_def level_key_def level_value_def level_entry_def Let_def)
  show "\<exists>l'. it_Next ?I l = Some l' \<and> level_view c keys l' es (Suc n)"
    using keep [of "lf_index l + 1" "Suc n"] n len by (simp add: LevelFileNumIterator_def level_Next_def unat_Suc_u32)
  have "unat (lf_index l - 1) = n - 1" if "lf_index l \<noteq> 0"
    using that len(2) unat_minus_one by blast
  moreover have "n = 0 \<longleftrightarrow> lf_index l = 0" using len(2) by (simp add: unat_eq_0)
  ultimately show "\<exists>l'. it_Prev ?I l = Some l' \<and> level_view c keys l' es (if n = 0 then length es else n - 1)"
    using keep [of "word_of_nat (length es)" "length es"] keep [of "lf_index l - 1" "n - 1"] small [of "length es"] n len(3)
      \<open>length (lf_flist l) = length es\<close>
    by (auto simp: LevelFileNumIterator_def level_Prev_def)
qed

end

interpretation level_bytewise: iterator_contract "LevelFileNumIterator BytewiseComparator"
  "InternalKeyComparator_Compare BytewiseComparator" "internal_keys (\<lambda>_. True)" "level_view BytewiseComparator (\<lambda>_. True)"
  by (rule bytewise.level_contract)

subsection \<open>Properties\<close>

text \<open>
  C17: \<open>GetOverlappingInputs\<close> returns, and gives the files of a level whose user keys meet the range; in
  level 0, where files overlap each other, it gives exactly the files that the range reaches directly or
  through other files, so that no file that overlaps a chosen one is left out.
\<close>

theorem GetOverlappingInputs_complete:
  assumes "comparator_contract u ukeys" "0 \<le> level" "level < int kNumLevels"
    and "\<forall>f \<in> set (files ! nat level). file_ok u ukeys f"
    and "\<forall>k. b = Some k \<longrightarrow> key_ok ukeys k" "\<forall>k. e = Some k \<longrightarrow> key_ok ukeys k"
  shows "GetOverlappingInputs u files level b e = Some (filter
    (if level = 0 then touched u (files ! 0) (map_option ExtractUserKey b) (map_option ExtractUserKey e)
     else overlaps u (map_option ExtractUserKey b) (map_option ExtractUserKey e)) (files ! nat level))"
proof (cases "level = 0")
  case True
  have ok: "\<forall>f \<in> set (files ! 0). comparator_contract.range_ok u ukeys f"
    using assms(1,4) True comparator_contract.file_range_ok by auto
  have "overlap_loop u 0 (files ! 0) 0 (map_option ExtractUserKey b) (map_option ExtractUserKey e) [] =
      Some (filter (touched u (files ! 0) (map_option ExtractUserKey b) (map_option ExtractUserKey e)) (files ! 0))"
    by (rule comparator_contract.overlap_loop_0 [OF assms(1) ok]) (use assms(5,6) in \<open>auto simp: key_ok_def intro: touched_range\<close>)
  then show ?thesis using True assms(3) by (simp add: GetOverlappingInputs_def)
next
  case False
  then show ?thesis using assms(2,3) overlap_loop_level [OF False, of 0] by (simp add: GetOverlappingInputs_def)
qed

text \<open>Four files of which the second and third chain the first to the range.\<close>

definition sample_file :: "u64 \<Rightarrow> byte \<Rightarrow> byte \<Rightarrow> file_meta" where
  "sample_file number lo hi = FileMetaData_make number 100 (InternalKey_make [lo] 9 kTypeValue) (InternalKey_make [hi] 1 kTypeValue)"

lemma ParseInternalKey_make: "s \<le> kMaxSequenceNumber \<Longrightarrow>
    ParseInternalKey (InternalKey_make k s t) = Some \<lparr>pik_user_key = k, pik_sequence = s, pik_type = t\<rparr>"
  using ParseInternalKey_Append by (simp add: InternalKey_make_def)

lemma drop_InternalKey_make: "drop (Suc 0) (InternalKey_make [x] s t) = EncodeFixed64 (PackSequenceAndType s t)"
  using InternalKey_make_parts(3) [of "[x]"] by simp

lemma sample_file_ok: "lo \<le> hi \<Longrightarrow> file_ok BytewiseComparator (\<lambda>_. True) (sample_file number lo hi)"
proof -
  have "PackSequenceAndType 1 kTypeValue \<le> PackSequenceAndType 9 kTypeValue"
    by (simp add: word_le_nat_alt unat_Pack kMaxSequenceNumber_val)
  moreover assume "lo \<le> hi"
  ultimately show ?thesis
    by (auto simp: file_ok_def key_ok_def sample_file_def FileMetaData_make_def ParseInternalKey_make kMaxSequenceNumber_val
        InternalKeyComparator_Compare_simps BytewiseComparator_sel BytewiseComparator_Compare_lex drop_InternalKey_make)
qed

theorem GetOverlappingInputs_complete_witness:
  "\<exists>fs. GetOverlappingInputs BytewiseComparator [[sample_file 4 1 3, sample_file 5 3 6, sample_file 6 8 9]] 0
      (Some (InternalKey_make [5] 9 kTypeValue)) (Some (InternalKey_make [7] 1 kTypeValue)) = Some fs \<and>
    sample_file 4 1 3 \<in> set fs \<and> sample_file 5 3 6 \<in> set fs"
proof -
  let ?files = "[sample_file 4 1 3, sample_file 5 3 6, sample_file 6 8 9]"
  have cmp: "cmp_Compare BytewiseComparator [x] [y] < 0 \<longleftrightarrow> x < y" for x y :: byte
    by (simp add: BytewiseComparator_sel BytewiseComparator_Compare_lex)
  have gt: "0 < cmp_Compare BytewiseComparator [x] [y] \<longleftrightarrow> y < x" for x y :: byte
    using bytewise.compare_flip [of "[x]" "[y]"] bytewise.compare_flip [of "[y]" "[x]"] cmp by simp
  have ends: "file_start (sample_file n lo hi) = [lo]" "file_limit (sample_file n lo hi) = [hi]" for n lo hi
    by (simp_all add: sample_file_def FileMetaData_make_def)
  have "touched BytewiseComparator ?files (Some [5]) (Some [7]) (sample_file 5 3 6)"
    by (rule touched_range) (simp_all add: overlaps_def ends cmp gt)
  moreover from this have "touched BytewiseComparator ?files (Some [5]) (Some [7]) (sample_file 4 1 3)"
    by (rule touched_file) (simp_all add: overlaps_def ends cmp gt)
  ultimately show ?thesis
    using GetOverlappingInputs_complete [OF bytewise.comparator_contract_axioms, of 0 "[?files]" "Some (InternalKey_make [5] 9 kTypeValue)"
        "Some (InternalKey_make [7] 1 kTypeValue)"]
    by (simp add: kNumLevels_def sample_file_ok key_ok_def ParseInternalKey_make kMaxSequenceNumber_val)
qed

text \<open>
  C20: on the disjoint files of a level the binary search for an overlap with a range of user keys
  decides the same as looking at every file, for ranges with open ends as well.
\<close>

theorem overlap_search_is_exact:
  assumes "comparator_contract u ukeys" "level_files_ok u ukeys files" "length files < 2 ^ 31"
    and "\<forall>k. smallest = Some k \<longrightarrow> ukeys k" "\<forall>k. largest = Some k \<longrightarrow> ukeys k"
  shows "SomeFileOverlapsRange u True files smallest largest = Some (\<exists>f \<in> set files. overlaps u smallest largest f)"
proof -
  have "\<not> (AfterFile u smallest f \<or> BeforeFile u largest f) \<longleftrightarrow> overlaps u smallest largest f" if "f \<in> set files" for f
  proof -
    have "ukeys (file_start f)" "ukeys (file_limit f)" using assms(2) that by (simp_all add: level_files_ok_def file_ok_def key_ok_def)
    then show ?thesis
      using assms(4,5) key_order.compare_flip [OF comparator_contract.axioms(1) [OF assms(1)]]
      by (cases smallest; cases largest) (auto simp: AfterFile_def BeforeFile_def overlaps_def)
  qed
  then have "SomeFileOverlapsRange u False files smallest largest = Some (\<exists>f \<in> set files. overlaps u smallest largest f)"
    by (auto simp: SomeFileOverlapsRange_def list_ex_iff)
  then show ?thesis using comparator_contract.SomeFileOverlapsRange_level [OF assms(1-3)] assms(4,5) by simp
qed

theorem overlap_search_is_exact_witness:
  "SomeFileOverlapsRange BytewiseComparator True [sample_file 4 1 3, sample_file 5 4 6] None (Some [2]) = Some True"
proof -
  have cmp: "cmp_Compare BytewiseComparator [x] [y] < 0 \<longleftrightarrow> x < y" for x y :: byte
    by (simp add: BytewiseComparator_sel BytewiseComparator_Compare_lex)
  have "level_files_ok BytewiseComparator (\<lambda>_. True) [sample_file 4 1 3, sample_file 5 4 6]"
    by (simp add: level_files_ok_def sample_file_ok InternalKeyComparator_Compare_simps cmp) (simp add: sample_file_def FileMetaData_make_def cmp)
  from overlap_search_is_exact [OF bytewise.comparator_contract_axioms this, of None "Some [2]"]
  show ?thesis using cmp [of 2 1] bytewise.compare_flip [of "[1]" "[2]"] bytewise.compare_flip [of "[2]" "[1]"] cmp [of 1 2]
    by (auto simp: overlaps_def sample_file_def FileMetaData_make_def)
qed




text \<open>
  The loop rests on the keys of a file being in order: on a file that ends before it starts, which only a
  bad manifest can name, it adds the file for ever.
\<close>

lemma AddBoundaryInputs_diverges:
  assumes "FindSmallestBoundaryFile u level_files (fm_largest f) = Some f"
  shows "add_boundary_loop u level_files (fm_largest f) cf = None"
proof -
  have "u' = u \<longrightarrow> l = level_files \<longrightarrow> k \<noteq> fm_largest f" if "add_boundary_loop u' l k cf = Some r" for u' l k cf r
  proof (rule add_boundary_loop.raw_induct [OF _ that])
    fix loop u' l k cf r
    assume IH: "\<And>u' l k cf r. loop u' l k cf = Some r \<Longrightarrow> u' = u \<longrightarrow> l = level_files \<longrightarrow> k \<noteq> fm_largest f"
      and "(case FindSmallestBoundaryFile u' l k of None \<Rightarrow> Some cf | Some f \<Rightarrow> loop u' l (fm_largest f) (cf @ [f])) = Some r"
    then show "u' = u \<longrightarrow> l = level_files \<longrightarrow> k \<noteq> fm_largest f" using assms IH [of u level_files "fm_largest f"] by (cases "FindSmallestBoundaryFile u' l k") auto
  qed
  then show ?thesis by (metis not_None_eq)
qed

end
