(* ===== verification/Version_Set.thy ===== *)
theory Version_Set
  imports Version_Files "HOL-Library.Multiset" "HOL-Library.Log_Nat"
begin

text \<open>
  \<^verbatim>\<open>db/version_set.cc\<close> and \<^verbatim>\<open>db/version_set.h\<close>: versions, their reference counts, the builder that
  applies edits, and the choice of the level to compact.  \<open>FileMetaData\<close> and \<open>Version\<close> objects are
  shared and mutated through pointers, so they live in explicit stores; a new object gets an address
  that was never used.  A failed assertion or a pointer to a deleted object is \<open>None\<close>.
\<close>

type_synonym file_ptr = nat
type_synonym version_ptr = nat

record version =
  v_refs :: int
  v_files :: "file_ptr list list"
  v_file_to_compact :: "file_ptr option"
  v_file_to_compact_level :: int
  v_compaction_score :: rat
  v_compaction_level :: int

text \<open>\<open>vs_list\<close> is the circular list behind \<open>dummy_versions_\<close>, oldest version first.\<close>

record version_set =
  vs_file_heap :: "file_ptr \<Rightarrow> file_meta option"
  vs_version_heap :: "version_ptr \<Rightarrow> version option"
  vs_fresh :: nat
  vs_list :: "version_ptr list"
  vs_current :: "version_ptr option"
  vs_next_file_number :: u64
  vs_manifest_file_number :: u64
  vs_last_sequence :: u64
  vs_log_number :: u64
  vs_prev_log_number :: u64
  vs_compact_pointer :: "bytes list"

subsection \<open>Versions and references\<close>

definition version_make :: version where
  "version_make = \<lparr>v_refs = 0, v_files = replicate kNumLevels [], v_file_to_compact = None, v_file_to_compact_level = -1,
     v_compaction_score = -1, v_compaction_level = -1\<rparr>"

definition new_version :: "version_set \<Rightarrow> version_ptr \<times> version_set" where
  "new_version s = (vs_fresh s, s\<lparr>vs_version_heap := (vs_version_heap s)(vs_fresh s \<mapsto> version_make), vs_fresh := vs_fresh s + 1\<rparr>)"

definition new_file :: "file_meta \<Rightarrow> version_set \<Rightarrow> file_ptr \<times> version_set" where
  "new_file f s = (vs_fresh s, s\<lparr>vs_file_heap := (vs_file_heap s)(vs_fresh s \<mapsto> f), vs_fresh := vs_fresh s + 1\<rparr>)"

definition file_at :: "version_set \<Rightarrow> file_ptr \<Rightarrow> file_meta" where
  "file_at s f = the (vs_file_heap s f)"

text \<open>Dropping a reference to a file.\<close>

definition drop_file :: "file_ptr \<Rightarrow> version_set \<Rightarrow> version_set option" where
  "drop_file f s = do {
     m \<leftarrow> vs_file_heap s f;
     if fm_refs m \<le> 0 then None
     else if fm_refs m - 1 \<le> 0 then Some (s\<lparr>vs_file_heap := (vs_file_heap s)(f := None)\<rparr>)
     else Some (s\<lparr>vs_file_heap := (vs_file_heap s)(f \<mapsto> m\<lparr>fm_refs := fm_refs m - 1\<rparr>)\<rparr>) }"

primrec drop_files :: "file_ptr list \<Rightarrow> version_set \<Rightarrow> version_set option" where
  "drop_files [] s = Some s"
| "drop_files (f # fs) s = drop_file f s \<bind> drop_files fs"

definition delete_version :: "version_ptr \<Rightarrow> version_set \<Rightarrow> version_set option" where
  "delete_version p s = do {
     v \<leftarrow> vs_version_heap s p;
     if v_refs v \<noteq> 0 then None
     else drop_files (concat (v_files v))
       (s\<lparr>vs_list := removeAll p (vs_list s), vs_version_heap := (vs_version_heap s)(p := None)\<rparr>) }"

definition Version_Ref :: "version_ptr \<Rightarrow> version_set \<Rightarrow> version_set option" where
  "Version_Ref p s = do {
     v \<leftarrow> vs_version_heap s p;
     Some (s\<lparr>vs_version_heap := (vs_version_heap s)(p \<mapsto> v\<lparr>v_refs := v_refs v + 1\<rparr>)\<rparr>) }"

definition Version_Unref :: "version_ptr \<Rightarrow> version_set \<Rightarrow> version_set option" where
  "Version_Unref p s = do {
     v \<leftarrow> vs_version_heap s p;
     if v_refs v < 1 then None
     else let s = s\<lparr>vs_version_heap := (vs_version_heap s)(p \<mapsto> v\<lparr>v_refs := v_refs v - 1\<rparr>)\<rparr>
          in if v_refs v - 1 = 0 then delete_version p s else Some s }"

definition AppendVersion :: "version_ptr \<Rightarrow> version_set \<Rightarrow> version_set option" where
  "AppendVersion p s = do {
     v \<leftarrow> vs_version_heap s p;
     if v_refs v \<noteq> 0 \<or> vs_current s = Some p then None
     else do {
       s \<leftarrow> (case vs_current s of None \<Rightarrow> Some s | Some q \<Rightarrow> Version_Unref q s);
       s \<leftarrow> Version_Ref p (s\<lparr>vs_current := Some p\<rparr>);
       Some (s\<lparr>vs_list := vs_list s @ [p]\<rparr>) } }"

definition VersionSet_make :: "version_set option" where
  "VersionSet_make =
     (let s = \<lparr>vs_file_heap = (\<lambda>_. None), vs_version_heap = (\<lambda>_. None), vs_fresh = 0, vs_list = [], vs_current = None,
          vs_next_file_number = 2, vs_manifest_file_number = 0, vs_last_sequence = 0, vs_log_number = 0, vs_prev_log_number = 0,
          vs_compact_pointer = replicate kNumLevels []\<rparr>;
        (p, s) = new_version s
      in AppendVersion p s)"

text \<open>The destructor: the list must be empty when the current version has been dropped.\<close>

definition VersionSet_destroy :: "version_set \<Rightarrow> version_set option" where
  "VersionSet_destroy s = do {
     p \<leftarrow> vs_current s;
     s \<leftarrow> Version_Unref p s;
     if vs_list s = [] then Some s else None }"

definition AddLiveFiles :: "version_set \<Rightarrow> u64 set \<Rightarrow> u64 set" where
  "AddLiveFiles s live =
     foldl (\<lambda>live p. foldl (\<lambda>live f. insert (fm_number (file_at s f)) live) live (concat (v_files (the (vs_version_heap s p)))))
       live (vs_list s)"

definition NumLevelFiles :: "version_set \<Rightarrow> int \<Rightarrow> nat option" where
  "NumLevelFiles s level = do {
     p \<leftarrow> vs_current s; v \<leftarrow> vs_version_heap s p;
     if level < 0 \<or> int kNumLevels \<le> level then None else Some (length (v_files v ! nat level)) }"

definition version_files :: "version_set \<Rightarrow> version \<Rightarrow> file_meta list list" where
  "version_files s v = map (map (file_at s)) (v_files v)"

definition NumLevelBytes :: "version_set \<Rightarrow> int \<Rightarrow> i64 option" where
  "NumLevelBytes s level = do {
     p \<leftarrow> vs_current s; v \<leftarrow> vs_version_heap s p;
     if level < 0 \<or> int kNumLevels \<le> level then None else Some (TotalFileSize (version_files s v ! nat level)) }"

subsection \<open>Numbers\<close>

definition NewFileNumber :: "version_set \<Rightarrow> u64 \<times> version_set" where
  "NewFileNumber s = (vs_next_file_number s, s\<lparr>vs_next_file_number := vs_next_file_number s + 1\<rparr>)"

definition ReuseFileNumber :: "u64 \<Rightarrow> version_set \<Rightarrow> version_set" where
  "ReuseFileNumber file_number s =
     (if vs_next_file_number s = file_number + 1 then s\<lparr>vs_next_file_number := file_number\<rparr> else s)"

definition MarkFileNumberUsed :: "u64 \<Rightarrow> version_set \<Rightarrow> version_set" where
  "MarkFileNumberUsed number s =
     (if vs_next_file_number s \<le> number then s\<lparr>vs_next_file_number := number + 1\<rparr> else s)"

definition SetLastSequence_vs :: "u64 \<Rightarrow> version_set \<Rightarrow> version_set option" where
  "SetLastSequence_vs n s = (if vs_last_sequence s \<le> n then Some (s\<lparr>vs_last_sequence := n\<rparr>) else None)"

subsection \<open>The builder\<close>

definition BySmallestKey :: "comparator \<Rightarrow> file_meta \<Rightarrow> file_meta \<Rightarrow> bool" where
  "BySmallestKey u f1 f2 =
     (let r = InternalKeyComparator_Compare u (fm_smallest f1) (fm_smallest f2)
      in if r \<noteq> 0 then r < 0 else fm_number f1 < fm_number f2)"

text \<open>A \<open>std::set\<close> is the list of its elements in order; an equivalent element keeps a new one out.\<close>

primrec set_insert :: "('a \<Rightarrow> 'a \<Rightarrow> bool) \<Rightarrow> 'a \<Rightarrow> 'a list \<Rightarrow> 'a list" where
  "set_insert lt x [] = [x]"
| "set_insert lt x (y # ys) = (if lt x y then x # y # ys else if lt y x then y # set_insert lt x ys else y # ys)"

record level_state =
  ls_deleted_files :: "u64 set"
  ls_added_files :: "file_ptr list"

record builder =
  b_base :: version_ptr
  b_levels :: "level_state list"

definition Builder_make :: "version_ptr \<Rightarrow> version_set \<Rightarrow> (builder \<times> version_set) option" where
  "Builder_make base s = do {
     s \<leftarrow> Version_Ref base s;
     Some (\<lparr>b_base = base, b_levels = replicate kNumLevels \<lparr>ls_deleted_files = {}, ls_added_files = []\<rparr>\<rparr>, s) }"

text \<open>The destructor drops one reference of every added file, also when none is counted.\<close>

definition unref_file :: "file_ptr \<Rightarrow> version_set \<Rightarrow> version_set option" where
  "unref_file f s = do {
     m \<leftarrow> vs_file_heap s f;
     if fm_refs m - 1 \<le> 0 then Some (s\<lparr>vs_file_heap := (vs_file_heap s)(f := None)\<rparr>)
     else Some (s\<lparr>vs_file_heap := (vs_file_heap s)(f \<mapsto> m\<lparr>fm_refs := fm_refs m - 1\<rparr>)\<rparr>) }"

primrec unref_files :: "file_ptr list \<Rightarrow> version_set \<Rightarrow> version_set option" where
  "unref_files [] s = Some s"
| "unref_files (f # fs) s = unref_file f s \<bind> unref_files fs"

definition Builder_destroy :: "builder \<Rightarrow> version_set \<Rightarrow> version_set option" where
  "Builder_destroy b s = do {
     s \<leftarrow> unref_files (concat (map ls_added_files (b_levels b))) s;
     Version_Unref (b_base b) s }"

definition allowed_seeks_of :: "u64 \<Rightarrow> int" where
  "allowed_seeks_of file_size =
     (let allowed_seeks = sint (ucast (file_size div 16384) :: 32 word) in if allowed_seeks < 100 then 100 else allowed_seeks)"

definition apply_new_file :: "comparator \<Rightarrow> int \<times> file_meta \<Rightarrow> builder \<times> version_set \<Rightarrow> builder \<times> version_set" where
  "apply_new_file u new bs =
     (let (level, meta) = new;
          (b, s) = bs;
          (f, s) = new_file (meta\<lparr>fm_refs := 1, fm_allowed_seeks := allowed_seeks_of (fm_file_size meta)\<rparr>) s;
          l = b_levels b ! nat level;
          l = l\<lparr>ls_deleted_files := ls_deleted_files l - {fm_number meta},
                ls_added_files := set_insert (\<lambda>x y. BySmallestKey u (file_at s x) (file_at s y)) f (ls_added_files l)\<rparr>
      in (b\<lparr>b_levels := (b_levels b)[nat level := l]\<rparr>, s))"

definition apply_deletion :: "int \<times> u64 \<Rightarrow> builder \<Rightarrow> builder" where
  "apply_deletion del b =
     (let (level, number) = del;
          l = b_levels b ! nat level
      in b\<lparr>b_levels := (b_levels b)[nat level := l\<lparr>ls_deleted_files := insert number (ls_deleted_files l)\<rparr>]\<rparr>)"

text \<open>The levels of an edit index arrays of \<open>kNumLevels\<close> elements.\<close>

definition Builder_Apply :: "comparator \<Rightarrow> version_edit \<Rightarrow> builder \<Rightarrow> version_set \<Rightarrow> (builder \<times> version_set) option" where
  "Builder_Apply u edit b s =
     (if \<not> (\<forall>l \<in> fst ` set (ve_compact_pointers edit) \<union> fst ` fset (ve_deleted_files edit) \<union> fst ` set (ve_new_files edit). level_ok l)
      then None
      else let s = s\<lparr>vs_compact_pointer := foldl (\<lambda>ps (level, key). ps[nat level := key]) (vs_compact_pointer s) (ve_compact_pointers edit)\<rparr>;
               b = foldl (\<lambda>b del. apply_deletion del b) b (sorted_list_of_fset (ve_deleted_files edit))
           in Some (foldl (\<lambda>bs new. apply_new_file u new bs) (b, s) (ve_new_files edit)))"

text \<open>Adding a file to a level of the version \<open>p\<close> that is being built.\<close>

definition MaybeAddFile :: "comparator \<Rightarrow> builder \<Rightarrow> version_ptr \<Rightarrow> nat \<Rightarrow> file_ptr \<Rightarrow> version_set \<Rightarrow> version_set option" where
  "MaybeAddFile u b p level f s = do {
     m \<leftarrow> vs_file_heap s f;
     v \<leftarrow> vs_version_heap s p;
     if fm_number m \<in> ls_deleted_files (b_levels b ! level) then Some s
     else let files = v_files v ! level in
       if 0 < level \<and> files \<noteq> [] \<and> \<not> InternalKeyComparator_Compare u (fm_largest (file_at s (last files))) (fm_smallest m) < 0 then None
       else Some (s\<lparr>vs_file_heap := (vs_file_heap s)(f \<mapsto> m\<lparr>fm_refs := fm_refs m + 1\<rparr>),
                    vs_version_heap := (vs_version_heap s)(p \<mapsto> v\<lparr>v_files := (v_files v)[level := files @ [f]]\<rparr>)\<rparr>) }"

primrec MaybeAddFiles :: "comparator \<Rightarrow> builder \<Rightarrow> version_ptr \<Rightarrow> nat \<Rightarrow> file_ptr list \<Rightarrow> version_set \<Rightarrow> version_set option" where
  "MaybeAddFiles u b p level [] s = Some s"
| "MaybeAddFiles u b p level (f # fs) s = MaybeAddFile u b p level f s \<bind> MaybeAddFiles u b p level fs"

text \<open>\<open>std::upper_bound\<close>: the base files up to the first one that the added file precedes.\<close>

fun save_level :: "comparator \<Rightarrow> builder \<Rightarrow> version_ptr \<Rightarrow> nat \<Rightarrow> file_ptr list \<Rightarrow> file_ptr list \<Rightarrow> version_set \<Rightarrow> version_set option" where
  "save_level u b p level [] base s = MaybeAddFiles u b p level base s"
| "save_level u b p level (f # added) base s = do {
     let upto = takeWhile (\<lambda>x. \<not> BySmallestKey u (file_at s f) (file_at s x)) base;
     s \<leftarrow> MaybeAddFiles u b p level upto s;
     s \<leftarrow> MaybeAddFile u b p level f s;
     save_level u b p level added (drop (length upto) base) s }"

definition no_overlap :: "comparator \<Rightarrow> file_meta list \<Rightarrow> bool" where
  "no_overlap u files \<longleftrightarrow>
     list_all (\<lambda>i. InternalKeyComparator_Compare u (fm_largest (files ! (i - 1))) (fm_smallest (files ! i)) < 0) [1..<length files]"

primrec save_levels :: "comparator \<Rightarrow> builder \<Rightarrow> version_ptr \<Rightarrow> nat list \<Rightarrow> version_set \<Rightarrow> version_set option" where
  "save_levels u b p [] s = Some s"
| "save_levels u b p (level # levels) s = do {
     base \<leftarrow> vs_version_heap s (b_base b);
     s \<leftarrow> save_level u b p level (ls_added_files (b_levels b ! level)) (v_files base ! level) s;
     v \<leftarrow> vs_version_heap s p;
     if 0 < level \<and> \<not> no_overlap u (map (file_at s) (v_files v ! level)) then None else save_levels u b p levels s }"

definition Builder_SaveTo :: "comparator \<Rightarrow> builder \<Rightarrow> version_ptr \<Rightarrow> version_set \<Rightarrow> version_set option" where
  "Builder_SaveTo u b p s = save_levels u b p [0..<kNumLevels] s"

subsection \<open>What saving a builder does\<close>

text \<open>The files of a level in the order of \<open>SaveTo\<close>, before the deleted ones are dropped.\<close>

fun merge_runs :: "('a \<Rightarrow> 'a \<Rightarrow> bool) \<Rightarrow> 'a list \<Rightarrow> 'a list \<Rightarrow> 'a list" where
  "merge_runs lt [] base = base"
| "merge_runs lt (f # added) base =
     takeWhile (\<lambda>x. \<not> lt f x) base @ f # merge_runs lt added (dropWhile (\<lambda>x. \<not> lt f x) base)"

definition add_refs :: "file_ptr list \<Rightarrow> (file_ptr \<Rightarrow> file_meta option) \<Rightarrow> file_ptr \<Rightarrow> file_meta option" where
  "add_refs fs heap = (\<lambda>f. map_option (\<lambda>m. m\<lparr>fm_refs := fm_refs m + int (count (mset fs) f)\<rparr>) (heap f))"

definition before_file :: "comparator \<Rightarrow> (file_ptr \<Rightarrow> file_meta option) \<Rightarrow> file_ptr \<Rightarrow> file_ptr \<Rightarrow> bool" where
  "before_file u heap x y \<longleftrightarrow> BySmallestKey u (the (heap x)) (the (heap y))"

definition kept :: "builder \<Rightarrow> nat \<Rightarrow> (file_ptr \<Rightarrow> file_meta option) \<Rightarrow> file_ptr list \<Rightarrow> file_ptr list" where
  "kept b level heap fs = filter (\<lambda>f. fm_number (the (heap f)) \<notin> ls_deleted_files (b_levels b ! level)) fs"

definition chained :: "comparator \<Rightarrow> (file_ptr \<Rightarrow> file_meta option) \<Rightarrow> file_ptr list \<Rightarrow> bool" where
  "chained u heap fs \<longleftrightarrow>
     successively (\<lambda>x y. InternalKeyComparator_Compare u (fm_largest (the (heap x))) (fm_smallest (the (heap y))) < 0) fs"

lemma add_refs_Nil [simp]: "add_refs [] heap = heap"
  by (auto simp: add_refs_def option.map_ident)

lemma add_refs_add_refs [simp]: "add_refs gs (add_refs fs heap) = add_refs (fs @ gs) heap"
  by (auto simp: add_refs_def fun_eq_iff option.map_comp comp_def add.assoc)

lemma dom_add_refs [simp]: "dom (add_refs fs heap) = dom heap"
  by (auto simp: add_refs_def dom_def)

lemma add_refs_None [simp]: "add_refs fs heap f = None \<longleftrightarrow> heap f = None"
  by (simp add: add_refs_def)

lemma add_refs_content [simp]:
  "f \<in> dom heap \<Longrightarrow> fm_number (the (add_refs fs heap f)) = fm_number (the (heap f))"
  "f \<in> dom heap \<Longrightarrow> fm_file_size (the (add_refs fs heap f)) = fm_file_size (the (heap f))"
  "f \<in> dom heap \<Longrightarrow> fm_smallest (the (add_refs fs heap f)) = fm_smallest (the (heap f))"
  "f \<in> dom heap \<Longrightarrow> fm_largest (the (add_refs fs heap f)) = fm_largest (the (heap f))"
  by (auto simp: add_refs_def)

lemma before_file_add_refs: "x \<in> dom heap \<Longrightarrow> y \<in> dom heap \<Longrightarrow> before_file u (add_refs fs heap) x y = before_file u heap x y"
  by (simp add: before_file_def BySmallestKey_def)

lemma kept_add_refs: "set xs \<subseteq> dom heap \<Longrightarrow> kept b level (add_refs fs heap) xs = kept b level heap xs"
  unfolding kept_def by (intro filter_cong refl) (metis add_refs_content(1) subsetD)

lemma kept_append [simp]: "kept b level heap (xs @ ys) = kept b level heap xs @ kept b level heap ys"
  by (simp add: kept_def)

lemma set_kept: "set (kept b level heap xs) \<subseteq> set xs"
  by (auto simp: kept_def)

lemma kept_subset: "set xs \<subseteq> A \<Longrightarrow> set (kept b level heap xs) \<subseteq> A"
  using set_kept by fastforce

lemma chained_add_refs: "set xs \<subseteq> dom heap \<Longrightarrow> chained u (add_refs fs heap) xs = chained u heap xs"
  unfolding chained_def by (rule successively_cong) (simp_all add: subset_eq)

lemma chained_prefix: "chained u heap (xs @ ys) \<Longrightarrow> chained u heap xs"
  by (simp add: chained_def successively_append_iff)

lemma set_merge_runs: "set (merge_runs lt added base) = set added \<union> set base"
proof (induction added arbitrary: base)
  case (Cons f added)
  have "set (takeWhile (\<lambda>x. \<not> lt f x) base) \<union> set (dropWhile (\<lambda>x. \<not> lt f x) base) = set base"
    by (metis set_append takeWhile_dropWhile_id)
  then show ?case using Cons by auto
qed simp

lemma merge_runs_cong:
  "(\<And>x y. x \<in> set added \<Longrightarrow> y \<in> set base \<Longrightarrow> lt x y = lt' x y) \<Longrightarrow> merge_runs lt added base = merge_runs lt' added base"
proof (induction added arbitrary: base)
  case (Cons f added)
  have "takeWhile (\<lambda>x. \<not> lt f x) base = takeWhile (\<lambda>x. \<not> lt' f x) base" "dropWhile (\<lambda>x. \<not> lt f x) base = dropWhile (\<lambda>x. \<not> lt' f x) base"
    using Cons.prems by (auto intro: takeWhile_cong dropWhile_cong)
  moreover have "merge_runs lt added (dropWhile (\<lambda>x. \<not> lt' f x) base) = merge_runs lt' added (dropWhile (\<lambda>x. \<not> lt' f x) base)"
    by (rule Cons.IH) (use Cons.prems set_dropWhileD in fastforce)
  ultimately show ?case by simp
qed simp

text \<open>The state after files have been added to a level of the version \<open>p\<close>.\<close>

definition grown :: "version_ptr \<Rightarrow> nat \<Rightarrow> file_ptr list \<Rightarrow> version_set \<Rightarrow> version_set" where
  "grown p level fs s = s\<lparr>vs_file_heap := add_refs fs (vs_file_heap s),
     vs_version_heap := (vs_version_heap s)(p := map_option (\<lambda>v. v\<lparr>v_files := (v_files v)[level := v_files v ! level @ fs]\<rparr>) (vs_version_heap s p))\<rparr>"

lemma grown_Nil: "grown p level [] s = s"
proof -
  have "map_option (\<lambda>v. v\<lparr>v_files := (v_files v)[level := v_files v ! level]\<rparr>) (vs_version_heap s p) = vs_version_heap s p"
    by (cases "vs_version_heap s p") simp_all
  then show ?thesis by (simp add: grown_def)
qed

lemma grown_grown:
  assumes "vs_version_heap s p = Some v" "level < length (v_files v)"
  shows "grown p level gs (grown p level fs s) = grown p level (fs @ gs) s"
  using assms by (simp add: grown_def)

lemma grown_sel [simp]:
  "vs_file_heap (grown p level fs s) = add_refs fs (vs_file_heap s)"
  "q \<noteq> p \<Longrightarrow> vs_version_heap (grown p level fs s) q = vs_version_heap s q"
  "vs_version_heap (grown p level fs s) p = map_option (\<lambda>v. v\<lparr>v_files := (v_files v)[level := v_files v ! level @ fs]\<rparr>) (vs_version_heap s p)"
  by (simp_all add: grown_def)

lemma MaybeAddFile_eq:
  assumes v: "vs_version_heap s p = Some v" "level < length (v_files v)"
    and f: "f \<in> dom (vs_file_heap s)" "set (v_files v ! level) \<subseteq> dom (vs_file_heap s)"
    and chain: "0 < level \<Longrightarrow> chained u (vs_file_heap s) (v_files v ! level @ kept b level (vs_file_heap s) [f])"
  shows "MaybeAddFile u b p level f s = Some (grown p level (kept b level (vs_file_heap s) [f]) s)"
proof -
  obtain m where m: "vs_file_heap s f = Some m" using f(1) by blast
  show ?thesis
  proof (cases "fm_number m \<in> ls_deleted_files (b_levels b ! level)")
    case True
    then show ?thesis using m v by (simp add: MaybeAddFile_def kept_def grown_Nil)
  next
    case False
    have refs: "add_refs [f] (vs_file_heap s) = (vs_file_heap s)(f \<mapsto> m\<lparr>fm_refs := fm_refs m + 1\<rparr>)"
      using m by (auto simp: add_refs_def fun_eq_iff option.map_ident)
    have "InternalKeyComparator_Compare u (fm_largest (file_at s (last (v_files v ! level)))) (fm_smallest m) < 0"
      if "0 < level" "v_files v ! level \<noteq> []"
      using chain [OF that(1)] that(2) m False by (simp add: chained_def kept_def successively_append_iff file_at_def)
    then show ?thesis using m v False refs by (auto simp: MaybeAddFile_def kept_def grown_def Let_def)
  qed
qed

lemma MaybeAddFiles_eq:
  assumes "vs_version_heap s p = Some v" "level < length (v_files v)"
    and "set fs \<subseteq> dom (vs_file_heap s)" "set (v_files v ! level) \<subseteq> dom (vs_file_heap s)"
    and "0 < level \<Longrightarrow> chained u (vs_file_heap s) (v_files v ! level @ kept b level (vs_file_heap s) fs)"
  shows "MaybeAddFiles u b p level fs s = Some (grown p level (kept b level (vs_file_heap s) fs) s)"
  using assms
proof (induction fs arbitrary: s v)
  case Nil
  then show ?case by (simp add: kept_def grown_Nil)
next
  case (Cons f fs)
  let ?h = "vs_file_heap s"
  let ?k = "kept b level ?h [f]"
  have split: "kept b level ?h (f # fs) = ?k @ kept b level ?h fs" using kept_append [of b level ?h "[f]" fs] by simp
  have k: "set ?k \<subseteq> dom ?h" using set_kept [of b level ?h "[f]"] Cons.prems(3) by auto
  have sub: "set (v_files v ! level @ ?k @ kept b level ?h fs) \<subseteq> dom ?h"
    using k set_kept [of b level ?h fs] Cons.prems(3,4) by auto
  have "0 < level \<Longrightarrow> chained u ?h (v_files v ! level @ ?k)"
    using Cons.prems(5) chained_prefix [of u ?h "v_files v ! level @ ?k"] unfolding split by simp
  then have one: "MaybeAddFile u b p level f s = Some (grown p level ?k s)"
    using MaybeAddFile_eq [OF Cons.prems(1,2)] Cons.prems(3,4) by simp
  have "MaybeAddFiles u b p level fs (grown p level ?k s) =
      Some (grown p level (kept b level (vs_file_heap (grown p level ?k s)) fs) (grown p level ?k s))"
  proof (rule Cons.IH)
    show "vs_version_heap (grown p level ?k s) p = Some (v\<lparr>v_files := (v_files v)[level := v_files v ! level @ ?k]\<rparr>)"
      using Cons.prems(1) by simp
    show "0 < level \<Longrightarrow> chained u (vs_file_heap (grown p level ?k s))
        (v_files (v\<lparr>v_files := (v_files v)[level := v_files v ! level @ ?k]\<rparr>) ! level @ kept b level (vs_file_heap (grown p level ?k s)) fs)"
      using Cons.prems(2,3,5) chained_add_refs [OF sub, of u ?k] unfolding split by (simp add: kept_add_refs)
  qed (use Cons.prems k in auto)
  then show ?case using one Cons.prems(1-3) split by (simp add: kept_add_refs grown_grown)
qed

lemma drop_length_takeWhile: "drop (length (takeWhile P xs)) xs = dropWhile P xs"
  by (simp add: dropWhile_eq_drop)

lemma save_level_eq:
  assumes "vs_version_heap s p = Some v" "level < length (v_files v)"
    and "set added \<subseteq> dom (vs_file_heap s)" "set base \<subseteq> dom (vs_file_heap s)" "set (v_files v ! level) \<subseteq> dom (vs_file_heap s)"
    and "0 < level \<Longrightarrow> chained u (vs_file_heap s)
      (v_files v ! level @ kept b level (vs_file_heap s) (merge_runs (before_file u (vs_file_heap s)) added base))"
  shows "save_level u b p level added base s =
    Some (grown p level (kept b level (vs_file_heap s) (merge_runs (before_file u (vs_file_heap s)) added base)) s)"
  using assms
proof (induction added arbitrary: s v base)
  case Nil
  then show ?case using MaybeAddFiles_eq [OF Nil(1,2,4,5)] by simp
next
  case (Cons f added)
  let ?h = "vs_file_heap s"
  let ?P = "\<lambda>x. \<not> before_file u ?h f x"
  let ?upto = "takeWhile ?P base" and ?rest = "dropWhile ?P base"
  let ?tail = "kept b level ?h (merge_runs (before_file u ?h) added ?rest)"
  let ?k1 = "kept b level ?h ?upto" and ?k2 = "kept b level ?h [f]"
  have upto: "(\<lambda>x. \<not> BySmallestKey u (file_at s f) (file_at s x)) = ?P" by (simp add: before_file_def file_at_def)
  have all: "kept b level ?h (merge_runs (before_file u ?h) (f # added) base) = ?k1 @ ?k2 @ ?tail"
    by (simp add: kept_def)
  have sub: "set ?upto \<subseteq> dom ?h" "set ?rest \<subseteq> dom ?h" "set ?k1 \<subseteq> dom ?h" "set ?k2 \<subseteq> dom ?h" "set ?tail \<subseteq> dom ?h" "f \<in> dom ?h"
  proof -
    show u: "set ?upto \<subseteq> dom ?h" and r: "set ?rest \<subseteq> dom ?h" and f: "f \<in> dom ?h"
      using Cons.prems(3,4) by (auto dest!: set_takeWhileD set_dropWhileD)
    show "set ?k1 \<subseteq> dom ?h" "set ?k2 \<subseteq> dom ?h" "set ?tail \<subseteq> dom ?h"
      by (rule kept_subset; use u r f Cons.prems(3) set_merge_runs [of "before_file u ?h" added ?rest] in simp)+
  qed
  let ?s1 = "grown p level ?k1 s" and ?v1 = "v\<lparr>v_files := (v_files v)[level := v_files v ! level @ ?k1]\<rparr>"
  let ?s2 = "grown p level (?k1 @ ?k2) s" and ?v2 = "v\<lparr>v_files := (v_files v)[level := v_files v ! level @ ?k1 @ ?k2]\<rparr>"
  have c: "0 < level \<Longrightarrow> chained u ?h (v_files v ! level @ ?k1 @ ?k2 @ ?tail)" using Cons.prems(6) unfolding all .
  have one: "MaybeAddFiles u b p level ?upto s = Some ?s1"
    by (rule MaybeAddFiles_eq) (use Cons.prems(1,2,5) sub(1) c chained_prefix [of u ?h "v_files v ! level @ ?k1"] in auto)
  have k2: "kept b level (vs_file_heap ?s1) [f] = ?k2" using sub(6) by (simp add: kept_add_refs)
  have "MaybeAddFile u b p level f ?s1 = Some (grown p level (kept b level (vs_file_heap ?s1) [f]) ?s1)"
  proof (rule MaybeAddFile_eq)
    show "vs_version_heap ?s1 p = Some ?v1" using Cons.prems(1) by simp
    show "0 < level \<Longrightarrow> chained u (vs_file_heap ?s1) (v_files ?v1 ! level @ kept b level (vs_file_heap ?s1) [f])"
      using chained_prefix [of u ?h "v_files v ! level @ ?k1 @ ?k2"] c Cons.prems(2,5) sub
        chained_add_refs [of "v_files v ! level @ ?k1 @ ?k2" ?h u ?k1] k2 by simp
  qed (use Cons.prems(2,5) sub in auto)
  then have two: "MaybeAddFile u b p level f ?s1 = Some ?s2" using Cons.prems(1,2) k2 by (simp add: grown_grown)
  have runs: "merge_runs (before_file u (vs_file_heap ?s2)) added ?rest = merge_runs (before_file u ?h) added ?rest"
    by (rule merge_runs_cong) (use Cons.prems(3) sub(2) in \<open>auto intro!: before_file_add_refs\<close>)
  have tail: "kept b level (vs_file_heap ?s2) (merge_runs (before_file u (vs_file_heap ?s2)) added ?rest) = ?tail"
    unfolding runs using Cons.prems(3) sub(2) by (simp add: kept_add_refs set_merge_runs)
  have "save_level u b p level added ?rest ?s2 =
      Some (grown p level (kept b level (vs_file_heap ?s2) (merge_runs (before_file u (vs_file_heap ?s2)) added ?rest)) ?s2)"
  proof (rule Cons.IH)
    show "vs_version_heap ?s2 p = Some ?v2" using Cons.prems(1) by simp
    show "0 < level \<Longrightarrow> chained u (vs_file_heap ?s2)
        (v_files ?v2 ! level @ kept b level (vs_file_heap ?s2) (merge_runs (before_file u (vs_file_heap ?s2)) added ?rest))"
      using c Cons.prems(2,5) sub chained_add_refs [of "v_files v ! level @ ?k1 @ ?k2 @ ?tail" ?h u "?k1 @ ?k2"] unfolding tail by simp
  qed (use Cons.prems(2,3,5) sub in auto)
  then have "save_level u b p level added ?rest ?s2 = Some (grown p level ?tail ?s2)" unfolding tail .
  then show ?case
    using one two Cons.prems(1,2) unfolding all by (simp add: upto drop_length_takeWhile grown_grown)
qed

lemma ball_upt_pred: "(\<forall>i \<in> set [1..<n]. P (i - 1) i) \<longleftrightarrow> (\<forall>i. Suc i < n \<longrightarrow> P i (Suc i))" (is "?L \<longleftrightarrow> ?R")
proof
  assume l: ?L
  show ?R
  proof (intro allI impI)
    fix i assume "Suc i < n"
    then have "Suc i \<in> set [1..<n]" by simp
    with l have "P (Suc i - 1) (Suc i)" by (rule bspec)
    then show "P i (Suc i)" by simp
  qed
next
  assume r: ?R
  show ?L
  proof
    fix i assume "i \<in> set [1..<n]"
    then show "P (i - 1) i" using r [rule_format, of "i - 1"] by simp
  qed
qed

lemma no_overlap_chained: "no_overlap u (map (file_at s) fs) \<longleftrightarrow> chained u (vs_file_heap s) fs"
proof -
  let ?P = "\<lambda>i j. InternalKeyComparator_Compare u (fm_largest (file_at s (fs ! i))) (fm_smallest (file_at s (fs ! j))) < 0"
  have "no_overlap u (map (file_at s) fs) \<longleftrightarrow> (\<forall>i \<in> set [1..<length fs]. ?P (i - 1) i)"
    unfolding no_overlap_def list_all_iff length_map by (intro ball_cong) auto
  also have "\<dots> \<longleftrightarrow> (\<forall>i. Suc i < length fs \<longrightarrow> ?P i (Suc i))"
    by (rule ball_upt_pred)
  finally show ?thesis unfolding chained_def successively_conv_nth file_at_def .
qed

definition plan :: "comparator \<Rightarrow> builder \<Rightarrow> (file_ptr \<Rightarrow> file_meta option) \<Rightarrow> file_ptr list list \<Rightarrow> nat \<Rightarrow> file_ptr list" where
  "plan u b heap base level = kept b level heap (merge_runs (before_file u heap) (ls_added_files (b_levels b ! level)) (base ! level))"

lemma plan_add_refs:
  assumes "set (ls_added_files (b_levels b ! level)) \<subseteq> dom heap" "set (base ! level) \<subseteq> dom heap"
  shows "plan u b (add_refs fs heap) base level = plan u b heap base level"
proof -
  have "merge_runs (before_file u (add_refs fs heap)) (ls_added_files (b_levels b ! level)) (base ! level) =
      merge_runs (before_file u heap) (ls_added_files (b_levels b ! level)) (base ! level)"
    by (rule merge_runs_cong) (use assms in \<open>auto intro!: before_file_add_refs\<close>)
  then show ?thesis unfolding plan_def using assms by (simp add: kept_add_refs set_merge_runs)
qed

lemma plan_dom:
  assumes "set (ls_added_files (b_levels b ! level)) \<subseteq> dom heap" "set (base ! level) \<subseteq> dom heap"
  shows "set (plan u b heap base level) \<subseteq> dom heap"
  unfolding plan_def by (rule kept_subset) (use assms in \<open>simp add: set_merge_runs\<close>)

text \<open>The conditions on a builder: its files exist, and above level 0 the result has no overlaps.\<close>

definition saveable :: "comparator \<Rightarrow> builder \<Rightarrow> (file_ptr \<Rightarrow> file_meta option) \<Rightarrow> file_ptr list list \<Rightarrow> nat \<Rightarrow> bool" where
  "saveable u b heap base level \<longleftrightarrow> set (ls_added_files (b_levels b ! level)) \<subseteq> dom heap \<and> set (base ! level) \<subseteq> dom heap \<and>
     (0 < level \<longrightarrow> chained u heap (plan u b heap base level))"

lemma save_levels_eq:
  assumes "vs_version_heap s p = Some v" "b_base b \<noteq> p" "vs_version_heap s (b_base b) = Some w" "distinct levels"
    and "\<forall>l \<in> set levels. l < length (v_files v) \<and> v_files v ! l = [] \<and> saveable u b (vs_file_heap s) (v_files w) l"
  shows "\<exists>s' v'. save_levels u b p levels s = Some s' \<and>
    s' = s\<lparr>vs_file_heap := add_refs (concat (map (plan u b (vs_file_heap s) (v_files w)) levels)) (vs_file_heap s),
           vs_version_heap := (vs_version_heap s)(p \<mapsto> v')\<rparr> \<and>
    v' = v\<lparr>v_files := v_files v'\<rparr> \<and> length (v_files v') = length (v_files v) \<and>
    (\<forall>l < length (v_files v). v_files v' ! l = (if l \<in> set levels then plan u b (vs_file_heap s) (v_files w) l else v_files v ! l))"
  using assms
proof (induction levels arbitrary: s v)
  case Nil
  have "(vs_version_heap s)(p \<mapsto> v) = vs_version_heap s" using Nil.prems(1) by auto
  then show ?case by (intro exI [of _ s] exI [of _ v]) simp
next
  case (Cons l levels)
  let ?h = "vs_file_heap s"
  let ?pl = "plan u b ?h (v_files w)"
  have l: "l < length (v_files v)" "v_files v ! l = []" "saveable u b ?h (v_files w) l" using Cons.prems(5) by auto
  have sub: "set (ls_added_files (b_levels b ! l)) \<subseteq> dom ?h" "set (v_files w ! l) \<subseteq> dom ?h" "0 < l \<longrightarrow> chained u ?h (?pl l)"
    using l(3) by (simp_all add: saveable_def)
  let ?s = "grown p l (?pl l) s" and ?v = "v\<lparr>v_files := (v_files v)[l := ?pl l]\<rparr>"
  have pd: "set (?pl l) \<subseteq> dom ?h" using plan_dom [OF sub(1,2)] .
  have one: "save_level u b p l (ls_added_files (b_levels b ! l)) (v_files w ! l) s = Some ?s"
    using save_level_eq [OF Cons.prems(1) l(1) sub(1,2), of u b] l(2) sub(3) by (simp add: plan_def)
  have v: "vs_version_heap ?s p = Some ?v" using Cons.prems(1) l(2) by simp
  have ok: "0 < l \<longrightarrow> no_overlap u (map (file_at ?s) (v_files ?v ! l))"
    using sub(3) l(1) pd by (simp add: no_overlap_chained chained_add_refs)
  have pl: "plan u b (add_refs (?pl l) ?h) (v_files w) k = ?pl k" "saveable u b (add_refs (?pl l) ?h) (v_files w) k = saveable u b ?h (v_files w) k"
    if "k \<in> set levels" for k
  proof -
    have k: "set (ls_added_files (b_levels b ! k)) \<subseteq> dom ?h" "set (v_files w ! k) \<subseteq> dom ?h"
      using Cons.prems(5) that by (simp_all add: saveable_def)
    show 1: "plan u b (add_refs (?pl l) ?h) (v_files w) k = ?pl k" by (rule plan_add_refs [OF k])
    show "saveable u b (add_refs (?pl l) ?h) (v_files w) k = saveable u b ?h (v_files w) k"
      unfolding saveable_def 1 using k plan_dom [OF k] by (simp add: chained_add_refs)
  qed
  have next_ok: "vs_version_heap ?s (b_base b) = Some w" "distinct levels"
    "\<forall>k \<in> set levels. k < length (v_files ?v) \<and> v_files ?v ! k = [] \<and> saveable u b (vs_file_heap ?s) (v_files w) k"
    using Cons.prems(2-5) pl(2) by (auto simp: nth_list_update)
  obtain s' v' where s': "save_levels u b p levels ?s = Some s'"
    "s' = ?s\<lparr>vs_file_heap := add_refs (concat (map (plan u b (vs_file_heap ?s) (v_files w)) levels)) (vs_file_heap ?s),
             vs_version_heap := (vs_version_heap ?s)(p \<mapsto> v')\<rparr>"
    "v' = ?v\<lparr>v_files := v_files v'\<rparr>" "length (v_files v') = length (v_files ?v)"
    "\<forall>k < length (v_files ?v). v_files v' ! k = (if k \<in> set levels then plan u b (vs_file_heap ?s) (v_files w) k else v_files ?v ! k)"
    using Cons.IH [OF v Cons.prems(2) next_ok] by blast
  have eq: "map (plan u b (add_refs (?pl l) ?h) (v_files w)) levels = map ?pl levels" using pl(1) by simp
  have "save_levels u b p (l # levels) s = Some s'"
    using one s'(1) Cons.prems(1-3) l(2) ok by auto
  moreover have "s' = s\<lparr>vs_file_heap := add_refs (concat (map ?pl (l # levels))) ?h, vs_version_heap := (vs_version_heap s)(p \<mapsto> v')\<rparr>"
    unfolding s'(2) by (simp add: eq) (simp add: grown_def)
  moreover have "v' = v\<lparr>v_files := v_files v'\<rparr>" by (subst s'(3)) simp
  moreover have "\<forall>k < length (v_files v). v_files v' ! k = (if k \<in> set (l # levels) then ?pl k else v_files v ! k)"
    using s'(5) Cons.prems(4) pl(1) by (auto simp: nth_list_update)
  moreover have "length (v_files v') = length (v_files v)" using s'(4) by simp
  ultimately show ?case by blast
qed

end
