(* ===== verification/Version_Refs.thy ===== *)
theory Version_Refs
  imports Version_Set
begin

text \<open>
  \<^verbatim>\<open>db/version_set.cc\<close>, the life of versions and files: building the next version from an edit as
  \<open>LogAndApply\<close> and \<open>Recover\<close> do, \<open>Finalize\<close>, and the reference counts.  The invariant \<open>vs_inv\<close> says that
  a file object lives exactly as long as a version or a builder points to it, and a version exactly as long
  as it is current or a client holds it.
\<close>

subsection \<open>The level to compact\<close>

text \<open>A \<open>double\<close> is the rational it stands for; positive results are rounded to 53 bits, ties to even.\<close>

definition round_half_even :: "rat \<Rightarrow> int" where
  "round_half_even x =
     (let f = \<lfloor>x\<rfloor>; d = x - of_int f in if d < 1 / 2 then f else if 1 / 2 < d then f + 1 else if even f then f else f + 1)"

definition floor_log2 :: "rat \<Rightarrow> int" where
  "floor_log2 x = (let (p, q) = quotient_of x; k = bitlen p - bitlen q in if 2 powi k \<le> x then k else k - 1)"

definition double_of :: "rat \<Rightarrow> rat" where
  "double_of x = (if x \<le> 0 then 0 else let e = floor_log2 x - 52 in of_int (round_half_even (x / 2 powi e)) * 2 powi e)"

fun MaxBytesForLevel :: "nat \<Rightarrow> rat" where
  "MaxBytesForLevel level = (if 1 < level then double_of (MaxBytesForLevel (level - 1) * 10) else 10 * 1048576)"

definition level_score :: "file_meta list list \<Rightarrow> nat \<Rightarrow> rat" where
  "level_score files level =
     (if level = 0 then double_of (double_of (of_nat (length (files ! 0))) / of_nat kL0_CompactionTrigger)
      else double_of (double_of (of_nat (unat (TotalFileSize (files ! level)))) / MaxBytesForLevel level))"

definition best_level :: "file_meta list list \<Rightarrow> int \<times> rat" where
  "best_level files =
     foldl (\<lambda>(best_level, best_score) level.
        let score = level_score files level
        in if best_score < score then (int level, score) else (best_level, best_score)) (-1, -1) [0..<kNumLevels - 1]"

definition Finalize :: "version_ptr \<Rightarrow> version_set \<Rightarrow> version_set option" where
  "Finalize p s = do {
     v \<leftarrow> vs_version_heap s p;
     let (level, score) = best_level (version_files s v);
     Some (s\<lparr>vs_version_heap := (vs_version_heap s)(p \<mapsto> v\<lparr>v_compaction_level := level, v_compaction_score := score\<rparr>)\<rparr>) }"

definition NeedsCompaction :: "version_set \<Rightarrow> bool option" where
  "NeedsCompaction s = do {
     p \<leftarrow> vs_current s;
     v \<leftarrow> vs_version_heap s p;
     Some (1 \<le> v_compaction_score v \<or> v_file_to_compact v \<noteq> None) }"

text \<open>The next version: a builder on the current one, the edits, the saved files, and the builder gone again.\<close>

definition apply_edits :: "comparator \<Rightarrow> version_edit list \<Rightarrow> builder \<Rightarrow> version_set \<Rightarrow> (builder \<times> version_set) option" where
  "apply_edits u edits b s = foldl (\<lambda>r edit. do { (b, s) \<leftarrow> r; Builder_Apply u edit b s }) (Some (b, s)) edits"

definition build_version :: "comparator \<Rightarrow> version_edit \<Rightarrow> version_set \<Rightarrow> (version_ptr \<times> version_set) option" where
  "build_version u edit s = do {
     current \<leftarrow> vs_current s;
     let (p, s) = new_version s;
     (b, s) \<leftarrow> Builder_make current s;
     (b, s) \<leftarrow> Builder_Apply u edit b s;
     s \<leftarrow> Builder_SaveTo u b p s;
     s \<leftarrow> Builder_destroy b s;
     s \<leftarrow> Finalize p s;
     Some (p, s) }"

subsection \<open>The references to files\<close>

definition held_files :: "(version_ptr \<Rightarrow> version option) \<Rightarrow> file_ptr multiset" where
  "held_files heap = (\<Sum>p \<in> dom heap. mset (concat (v_files (the (heap p)))))"

lemma held_files_update:
  assumes "finite (dom heap)"
  shows "held_files (heap(p \<mapsto> v)) = held_files (heap(p := None)) + mset (concat (v_files v))"
proof -
  have "held_files (heap(p \<mapsto> v)) = mset (concat (v_files v)) + (\<Sum>q \<in> dom heap - {p}. mset (concat (v_files (the ((heap(p \<mapsto> v)) q)))))"
    using assms by (simp add: held_files_def sum.insert_remove)
  also have "(\<Sum>q \<in> dom heap - {p}. mset (concat (v_files (the ((heap(p \<mapsto> v)) q))))) = held_files (heap(p := None))"
    by (simp add: held_files_def)
  finally show ?thesis by (simp only: add.commute)
qed

lemma held_files_split:
  assumes "finite (dom heap)" "heap p = Some v"
  shows "held_files heap = held_files (heap(p := None)) + mset (concat (v_files v))"
  using held_files_update [OF assms(1), of p v] assms(2) by (simp add: fun_upd_idem)

text \<open>Every file in the store counts its references, and every reference is to a file in the store.\<close>

definition refs_ok :: "(file_ptr \<Rightarrow> file_meta option) \<Rightarrow> file_ptr multiset \<Rightarrow> bool" where
  "refs_ok heap refs \<longleftrightarrow> (\<forall>f. heap f \<noteq> None \<longleftrightarrow> f \<in># refs) \<and> (\<forall>f m. heap f = Some m \<longrightarrow> fm_refs m = int (count refs f))"

lemma refs_okD: "refs_ok heap refs \<Longrightarrow> f \<in># refs \<Longrightarrow> \<exists>m. heap f = Some m \<and> fm_refs m = int (count refs f) \<and> 0 < fm_refs m"
  by (fastforce simp: refs_ok_def count_greater_zero_iff)

lemma drop_file_refs:
  assumes "refs_ok (vs_file_heap s) (add_mset f refs)"
  shows "\<exists>h. drop_file f s = Some (s\<lparr>vs_file_heap := h\<rparr>) \<and> unref_file f s = Some (s\<lparr>vs_file_heap := h\<rparr>) \<and> refs_ok h refs \<and>
    (\<forall>g m. h g = Some m \<longrightarrow> (\<exists>m'. vs_file_heap s g = Some m' \<and> m = m'\<lparr>fm_refs := fm_refs m\<rparr>))"
proof -
  obtain m where m: "vs_file_heap s f = Some m" "fm_refs m = int (Suc (count refs f))"
    using refs_okD [OF assms, of f] by auto
  have d: "\<And>g. vs_file_heap s g \<noteq> None \<longleftrightarrow> g = f \<or> g \<in># refs" "\<And>g n. vs_file_heap s g = Some n \<Longrightarrow> fm_refs n = int (count (add_mset f refs) g)"
    using assms unfolding refs_ok_def by (simp_all only: set_mset_add_mset_insert insert_iff)
  show ?thesis
  proof (cases "f \<in># refs")
    case True
    let ?h = "(vs_file_heap s)(f \<mapsto> m\<lparr>fm_refs := fm_refs m - 1\<rparr>)"
    have "refs_ok ?h refs" using True m d by (auto simp: refs_ok_def)
    then show ?thesis using m True by (intro exI [of _ ?h]) (auto simp: drop_file_def unref_file_def count_eq_zero_iff)
  next
    case False
    then have c: "count refs f = 0" by (simp add: not_in_iff)
    let ?h = "(vs_file_heap s)(f := None)"
    have "refs_ok ?h refs" unfolding refs_ok_def
    proof (intro conjI allI impI)
      show "?h g \<noteq> None \<longleftrightarrow> g \<in># refs" for g using False d [of g] by (cases "g = f") simp_all
      show "fm_refs n = int (count refs g)" if "?h g = Some n" for g n using d(2) [of g n] that by (cases "g = f") simp_all
    qed
    then show ?thesis using m c by (intro exI [of _ ?h]) (auto simp: drop_file_def unref_file_def)
  qed
qed

lemma drop_files_refs:
  assumes "refs_ok (vs_file_heap s) (mset fs + refs)"
  shows "\<exists>h. drop_files fs s = Some (s\<lparr>vs_file_heap := h\<rparr>) \<and> unref_files fs s = Some (s\<lparr>vs_file_heap := h\<rparr>) \<and> refs_ok h refs \<and>
    (\<forall>g m. h g = Some m \<longrightarrow> (\<exists>m'. vs_file_heap s g = Some m' \<and> m = m'\<lparr>fm_refs := fm_refs m\<rparr>))"
  using assms
proof (induction fs arbitrary: s)
  case Nil
  then show ?case by (intro exI [of _ "vs_file_heap s"]) auto
next
  case (Cons f fs)
  obtain h where h: "drop_file f s = Some (s\<lparr>vs_file_heap := h\<rparr>)" "unref_file f s = Some (s\<lparr>vs_file_heap := h\<rparr>)" "refs_ok h (mset fs + refs)"
    "\<forall>g m. h g = Some m \<longrightarrow> (\<exists>m'. vs_file_heap s g = Some m' \<and> m = m'\<lparr>fm_refs := fm_refs m\<rparr>)"
    using drop_file_refs [of s f "mset fs + refs"] Cons.prems by auto
  obtain h' where h': "drop_files fs (s\<lparr>vs_file_heap := h\<rparr>) = Some (s\<lparr>vs_file_heap := h'\<rparr>)"
    "unref_files fs (s\<lparr>vs_file_heap := h\<rparr>) = Some (s\<lparr>vs_file_heap := h'\<rparr>)" "refs_ok h' refs"
    "\<forall>g m. h' g = Some m \<longrightarrow> (\<exists>m'. h g = Some m' \<and> m = m'\<lparr>fm_refs := fm_refs m\<rparr>)"
    using Cons.IH [of "s\<lparr>vs_file_heap := h\<rparr>"] h(3) by auto
  have "\<forall>g m. h' g = Some m \<longrightarrow> (\<exists>m'. vs_file_heap s g = Some m' \<and> m = m'\<lparr>fm_refs := fm_refs m\<rparr>)"
  proof (intro allI impI)
    fix g m assume "h' g = Some m"
    then obtain m' where m': "h g = Some m'" "m = m'\<lparr>fm_refs := fm_refs m\<rparr>" using h'(4) by blast
    then obtain m'' where "vs_file_heap s g = Some m''" "m' = m''\<lparr>fm_refs := fm_refs m'\<rparr>" using h(4) by blast
    with m'(2) show "\<exists>m'. vs_file_heap s g = Some m' \<and> m = m'\<lparr>fm_refs := fm_refs m\<rparr>"
      by (intro exI [of _ m'']) (metis (no_types, lifting) file_meta.surjective file_meta.update_convs(1) file_meta.unfold_congs(1))
  qed
  then show ?case using h h' by (intro exI [of _ h']) simp
qed

lemma add_refs_ok:
  assumes "refs_ok heap refs" "set fs \<subseteq> dom heap"
  shows "refs_ok (add_refs fs heap) (mset fs + refs)"
  using assms by (auto simp: refs_ok_def add_refs_def)

subsection \<open>The invariant\<close>

text \<open>
  \<open>holds\<close> counts who holds a version (the current pointer, clients, builders), \<open>building\<close> are versions that
  are not in the list yet, \<open>extra\<close> are the references to files that builders own.
\<close>

definition versions_ok :: "(version_ptr \<Rightarrow> version option) \<Rightarrow> version_ptr list \<Rightarrow> version_ptr multiset \<Rightarrow> version_ptr set \<Rightarrow> bool" where
  "versions_ok heap list holds building \<longleftrightarrow>
     finite (dom heap) \<and> (\<forall>p. heap p \<noteq> None \<longleftrightarrow> p \<in># holds \<or> p \<in> building) \<and> (\<forall>p \<in> building. p \<notin># holds) \<and>
     (\<forall>p v. heap p = Some v \<longrightarrow> v_refs v = int (count holds p) \<and> length (v_files v) = kNumLevels) \<and>
     distinct list \<and> set list = set_mset holds"

definition vs_inv :: "version_set \<Rightarrow> version_ptr multiset \<Rightarrow> version_ptr set \<Rightarrow> file_ptr multiset \<Rightarrow> bool" where
  "vs_inv s holds building extra \<longleftrightarrow>
     versions_ok (vs_version_heap s) (vs_list s) holds building \<and>
     refs_ok (vs_file_heap s) (held_files (vs_version_heap s) + extra) \<and>
     (\<forall>p. vs_version_heap s p \<noteq> None \<longrightarrow> p < vs_fresh s) \<and> (\<forall>f. vs_file_heap s f \<noteq> None \<longrightarrow> f < vs_fresh s) \<and>
     length (vs_compact_pointer s) = kNumLevels"

lemma versions_okD:
  assumes "versions_ok heap list holds building"
  shows "p \<in># holds \<or> p \<in> building \<Longrightarrow> \<exists>v. heap p = Some v \<and> v_refs v = int (count holds p) \<and> length (v_files v) = kNumLevels"
    "heap p = None \<Longrightarrow> p \<notin># holds" "heap p = None \<Longrightarrow> p \<notin> building"
  using assms unfolding versions_ok_def by (metis not_None_eq)+

lemma held_files_None [simp]: "heap p = None \<Longrightarrow> held_files (heap(p := None)) = held_files heap"
  by (simp add: fun_upd_idem)

lemma vs_inv_file: "vs_inv s holds building extra \<Longrightarrow> vs_version_heap s p = Some v \<Longrightarrow> f \<in> set (concat (v_files v)) \<Longrightarrow>
    vs_file_heap s f \<noteq> None"
  using held_files_split [of "vs_version_heap s" p v] by (auto simp: vs_inv_def versions_ok_def refs_ok_def)

lemma new_version_inv:
  assumes "vs_inv s holds building extra"
  shows "vs_inv (snd (new_version s)) holds (insert (vs_fresh s) building) extra"
    "vs_version_heap (snd (new_version s)) (vs_fresh s) = Some version_make" "vs_fresh s \<notin># holds" "vs_fresh s \<notin> building"
    "vs_version_heap s (vs_fresh s) = None"
proof -
  have v: "versions_ok (vs_version_heap s) (vs_list s) holds building" using assms by (simp add: vs_inv_def)
  show none: "vs_version_heap s (vs_fresh s) = None" using assms by (auto simp: vs_inv_def)
  show n: "vs_fresh s \<notin># holds" "vs_fresh s \<notin> building" using versions_okD(2,3) [OF v none] .
  have "versions_ok ((vs_version_heap s)(vs_fresh s \<mapsto> version_make)) (vs_list s) holds (insert (vs_fresh s) building)"
    using v n by (auto simp: versions_ok_def version_make_def count_eq_zero_iff)
  moreover have "held_files ((vs_version_heap s)(vs_fresh s \<mapsto> version_make)) = held_files (vs_version_heap s)"
    using held_files_update [of "vs_version_heap s" "vs_fresh s" version_make] v none by (simp add: versions_ok_def version_make_def)
  ultimately show "vs_inv (snd (new_version s)) holds (insert (vs_fresh s) building) extra"
    using assms by (auto simp: vs_inv_def new_version_def less_Suc_eq)
  show "vs_version_heap (snd (new_version s)) (vs_fresh s) = Some version_make" by (simp add: new_version_def)
qed

lemma held_files_same_files:
  assumes "finite (dom heap)" "heap p = Some v" "v_files v' = v_files v"
  shows "held_files (heap(p \<mapsto> v')) = held_files heap"
  using held_files_update [OF assms(1), of p v'] held_files_split [OF assms(1,2)] assms(3) by simp

text \<open>Changing a version without its files and references.\<close>

lemma version_change_inv:
  assumes "vs_inv s holds building extra" "vs_version_heap s p = Some v" "v_files v' = v_files v" "v_refs v' = v_refs v"
  shows "vs_inv (s\<lparr>vs_version_heap := (vs_version_heap s)(p \<mapsto> v')\<rparr>) holds building extra"
  using assms held_files_same_files [of "vs_version_heap s" p v v'] by (auto simp: vs_inv_def versions_ok_def)

lemma versions_ok_update:
  assumes "versions_ok heap list holds building" "heap p = Some v" "v_files v' = v_files v" "v_refs v' = int (count holds' p)"
    "p \<in># holds" "p \<in># holds'" "\<And>q. q \<noteq> p \<Longrightarrow> count holds' q = count holds q"
  shows "versions_ok (heap(p \<mapsto> v')) list holds' building"
proof -
  have set: "set_mset holds' = set_mset holds"
    using assms(5-7) by (metis (no_types, lifting) count_eq_zero_iff subsetI subset_antisym)
  show ?thesis
    using assms(1-4,7) unfolding versions_ok_def set by auto
qed

lemma Version_Ref_inv:
  assumes "vs_inv s holds building extra" "p \<in># holds"
  shows "\<exists>v. vs_version_heap s p = Some v \<and>
    Version_Ref p s = Some (s\<lparr>vs_version_heap := (vs_version_heap s)(p \<mapsto> v\<lparr>v_refs := v_refs v + 1\<rparr>)\<rparr>) \<and>
    vs_inv (s\<lparr>vs_version_heap := (vs_version_heap s)(p \<mapsto> v\<lparr>v_refs := v_refs v + 1\<rparr>)\<rparr>) (add_mset p holds) building extra"
proof -
  obtain v where v: "vs_version_heap s p = Some v" using versions_okD(1) [of "vs_version_heap s"] assms unfolding vs_inv_def by blast
  let ?v = "v\<lparr>v_refs := v_refs v + 1\<rparr>"
  have ok: "versions_ok (vs_version_heap s) (vs_list s) holds building" using assms(1) by (simp add: vs_inv_def)
  have "versions_ok ((vs_version_heap s)(p \<mapsto> ?v)) (vs_list s) (add_mset p holds) building"
    by (rule versions_ok_update [OF ok v]) (use assms(2) versions_okD(1) [OF ok, of p] v in auto)
  moreover have "held_files ((vs_version_heap s)(p \<mapsto> ?v)) = held_files (vs_version_heap s)"
    by (rule held_files_same_files) (use ok v in \<open>auto simp: versions_ok_def\<close>)
  moreover have "p < vs_fresh s" using assms(1) v unfolding vs_inv_def by blast
  ultimately have "vs_inv (s\<lparr>vs_version_heap := (vs_version_heap s)(p \<mapsto> ?v)\<rparr>) (add_mset p holds) building extra"
    using assms(1) by (simp add: vs_inv_def)
  then show ?thesis using v by (simp add: Version_Ref_def)
qed

text \<open>The files of other versions keep their contents when a version goes.\<close>

definition files_kept :: "(file_ptr \<Rightarrow> file_meta option) \<Rightarrow> (file_ptr \<Rightarrow> file_meta option) \<Rightarrow> bool" where
  "files_kept h h' \<longleftrightarrow> (\<forall>g m. h' g = Some m \<longrightarrow> (\<exists>m'. h g = Some m' \<and> m = m'\<lparr>fm_refs := fm_refs m\<rparr>))"

lemma Version_Unref_inv:
  assumes "vs_inv s (add_mset p holds) building extra"
  shows "\<exists>s'. Version_Unref p s = Some s' \<and> vs_inv s' holds building extra \<and>
    (\<forall>q. q \<noteq> p \<longrightarrow> vs_version_heap s' q = vs_version_heap s q) \<and>
    (p \<in># holds \<longrightarrow> (\<exists>v. vs_version_heap s p = Some v \<and> vs_version_heap s' p = Some (v\<lparr>v_refs := v_refs v - 1\<rparr>))) \<and>
    files_kept (vs_file_heap s) (vs_file_heap s') \<and> vs_fresh s' = vs_fresh s \<and> vs_current s' = vs_current s \<and>
    vs_compact_pointer s' = vs_compact_pointer s \<and>
    vs_list s' = (if p \<in># holds then vs_list s else removeAll p (vs_list s))"
proof -
  let ?h = "vs_version_heap s"
  have ok: "versions_ok ?h (vs_list s) (add_mset p holds) building" "refs_ok (vs_file_heap s) (held_files ?h + extra)" "finite (dom ?h)"
    using assms by (auto simp: vs_inv_def versions_ok_def)
  obtain v where v: "?h p = Some v" "v_refs v = int (Suc (count holds p))" using versions_okD(1) [OF ok(1), of p] by auto
  let ?v = "v\<lparr>v_refs := v_refs v - 1\<rparr>"
  show ?thesis
  proof (cases "p \<in># holds")
    case True
    let ?s = "s\<lparr>vs_version_heap := ?h(p \<mapsto> ?v)\<rparr>"
    have "versions_ok (?h(p \<mapsto> ?v)) (vs_list s) holds building"
      by (rule versions_ok_update [OF ok(1) v(1)]) (use v(2) True in auto)
    moreover have "p < vs_fresh s" using assms v(1) unfolding vs_inv_def by blast
    ultimately have "vs_inv ?s holds building extra"
      using assms held_files_same_files [OF ok(3) v(1), of ?v] by (simp add: vs_inv_def)
    moreover have "Version_Unref p s = Some ?s" using v True by (simp add: Version_Unref_def count_eq_zero_iff)
    moreover have "files_kept (vs_file_heap s) (vs_file_heap s)" by (simp add: files_kept_def)
    ultimately show ?thesis using v(1) True by (intro exI [of _ ?s]) simp
  next
    case False
    then have c: "count holds p = 0" by (simp add: count_eq_zero_iff)
    let ?s1 = "s\<lparr>vs_list := removeAll p (vs_list s), vs_version_heap := ?h(p := None)\<rparr>"
    have "refs_ok (vs_file_heap ?s1) (mset (concat (v_files v)) + (held_files (?h(p := None)) + extra))"
      using ok(2) held_files_split [OF ok(3) v(1)] by (simp add: ac_simps)
    from drop_files_refs [OF this] obtain h where
      h: "drop_files (concat (v_files v)) ?s1 = Some (?s1\<lparr>vs_file_heap := h\<rparr>)" "refs_ok h (held_files (?h(p := None)) + extra)"
      "files_kept (vs_file_heap s) h" by (auto simp: files_kept_def)
    let ?s = "?s1\<lparr>vs_file_heap := h\<rparr>"
    have "versions_ok (?h(p := None)) (removeAll p (vs_list s)) holds building"
      using ok(1) v False unfolding versions_ok_def by (auto simp: distinct_removeAll split: if_splits)
    moreover have "f < vs_fresh s" if f: "h f = Some m" for f m
    proof -
      obtain m' where "vs_file_heap s f = Some m'" using h(3) f by (auto simp: files_kept_def)
      then show ?thesis using assms by (auto simp: vs_inv_def)
    qed
    ultimately have "vs_inv ?s holds building extra" using assms h(2) by (auto simp: vs_inv_def)
    moreover have "Version_Unref p s = Some ?s" using v c h(1) by (simp add: Version_Unref_def delete_version_def)
    ultimately show ?thesis using h(3) False by (intro exI [of _ ?s]) simp
  qed
qed

subsection \<open>Applying edits to a builder\<close>

lemma std_set_insert_sorted:
  assumes trans: "\<And>a b d. a \<in> insert x (set xs) \<Longrightarrow> b \<in> insert x (set xs) \<Longrightarrow> d \<in> insert x (set xs) \<Longrightarrow> lt a b \<Longrightarrow> lt b d \<Longrightarrow> lt a d"
    and total: "\<forall>y \<in> set xs. lt x y \<or> lt y x" and sorted: "sorted_wrt lt xs"
  shows "mset (set_insert lt x xs) = add_mset x (mset xs)" "sorted_wrt lt (set_insert lt x xs)"
proof -
  have "mset (set_insert lt x xs) = add_mset x (mset xs) \<and> sorted_wrt lt (set_insert lt x xs)"
    using assms
  proof (induction xs)
    case (Cons y ys)
    show ?case
    proof (cases "lt x y")
      case True
      moreover have "\<forall>z \<in> set ys. lt x z"
        using Cons.prems(1) [of x y] Cons.prems(3) True by auto
      ultimately show ?thesis using Cons.prems(3) by simp
    next
      case False
      then have yx: "lt y x" using Cons.prems(2) by auto
      have ih: "mset (set_insert lt x ys) = add_mset x (mset ys)" "sorted_wrt lt (set_insert lt x ys)"
        using Cons.IH Cons.prems by auto
      then have "set (set_insert lt x ys) = insert x (set ys)" by (metis set_mset_add_mset_insert set_mset_mset)
      then show ?thesis using False yx ih Cons.prems(3) by simp
    qed
  qed simp
  then show "mset (set_insert lt x xs) = add_mset x (mset xs)" "sorted_wrt lt (set_insert lt x xs)" by simp_all
qed

text \<open>\<open>BySmallestKey\<close> orders files whose numbers differ.\<close>

definition file_keys_ok :: "(bytes \<Rightarrow> bool) \<Rightarrow> file_meta \<Rightarrow> bool" where
  "file_keys_ok ukeys f \<longleftrightarrow> internal_keys ukeys (fm_smallest f) \<and> internal_keys ukeys (fm_largest f)"

context comparator_contract
begin

lemma BySmallestKey_trans:
  assumes "file_keys_ok keys a" "file_keys_ok keys b" "file_keys_ok keys d" "BySmallestKey c a b" "BySmallestKey c b d"
  shows "BySmallestKey c a d"
proof -
  note k = assms(1-3) [unfolded file_keys_ok_def, THEN conjunct1]
  let ?cmp = "InternalKeyComparator_Compare c"
  have "?cmp (fm_smallest a) (fm_smallest b) < 0 \<or> ?cmp (fm_smallest a) (fm_smallest b) = 0 \<and> fm_number a < fm_number b"
    "?cmp (fm_smallest b) (fm_smallest d) < 0 \<or> ?cmp (fm_smallest b) (fm_smallest d) = 0 \<and> fm_number b < fm_number d"
    using assms(4,5) by (auto simp: BySmallestKey_def Let_def split: if_splits)
  then show ?thesis
    using key_order.compare_less_trans [OF internal_order k] key_order.compare_less_le_trans [OF internal_order k]
      key_order.compare_le_less_trans [OF internal_order k] key_order.compare_eq_trans [OF internal_order k] less_trans [of "fm_number a" "fm_number b" "fm_number d"]
    by (auto simp: BySmallestKey_def Let_def)
qed

lemma BySmallestKey_total:
  assumes "file_keys_ok keys a" "file_keys_ok keys b" "fm_number a \<noteq> fm_number b"
  shows "BySmallestKey c a b \<or> BySmallestKey c b a"
proof -
  have "0 < InternalKeyComparator_Compare c (fm_smallest b) (fm_smallest a) \<longleftrightarrow> InternalKeyComparator_Compare c (fm_smallest a) (fm_smallest b) < 0"
    "InternalKeyComparator_Compare c (fm_smallest b) (fm_smallest a) = 0 \<longleftrightarrow> InternalKeyComparator_Compare c (fm_smallest a) (fm_smallest b) = 0"
    using key_order.compare_flip [OF internal_order] key_order.compare_eq_sym [OF internal_order] assms(1,2) by (simp_all add: file_keys_ok_def)
  then show ?thesis using assms(3) by (auto simp: BySmallestKey_def Let_def)
qed

end

text \<open>The files a builder has added, and the numbers it deletes.\<close>

definition added_at :: "builder \<Rightarrow> nat \<Rightarrow> file_ptr list" where
  "added_at b l = ls_added_files (b_levels b ! l)"

definition deleted_at :: "builder \<Rightarrow> nat \<Rightarrow> u64 set" where
  "deleted_at b l = ls_deleted_files (b_levels b ! l)"

definition all_added :: "builder \<Rightarrow> file_ptr multiset" where
  "all_added b = mset (concat (map ls_added_files (b_levels b)))"

definition builder_inv :: "comparator \<Rightarrow> (bytes \<Rightarrow> bool) \<Rightarrow> builder \<Rightarrow> version_set \<Rightarrow> bool" where
  "builder_inv u ukeys b s \<longleftrightarrow> length (b_levels b) = kNumLevels \<and>
     (\<forall>l < kNumLevels. (\<forall>f \<in> set (added_at b l). vs_file_heap s f \<noteq> None \<and> file_keys_ok ukeys (file_at s f)) \<and>
        sorted_wrt (\<lambda>x y. BySmallestKey u (file_at s x) (file_at s y)) (added_at b l))"

lemma deletions_eq:
  assumes "\<forall>(l, n) \<in> set dels. 0 \<le> l \<and> nat l < length (b_levels b)"
  shows "length (b_levels (foldl (\<lambda>b del. apply_deletion del b) b dels)) = length (b_levels b) \<and>
    b_base (foldl (\<lambda>b del. apply_deletion del b) b dels) = b_base b \<and>
    (\<forall>l < length (b_levels b). added_at (foldl (\<lambda>b del. apply_deletion del b) b dels) l = added_at b l \<and>
      deleted_at (foldl (\<lambda>b del. apply_deletion del b) b dels) l = deleted_at b l \<union> {n. (int l, n) \<in> set dels})"
  using assms
proof (induction dels arbitrary: b)
  case (Cons d dels)
  obtain l n where d: "d = (l, n)" "0 \<le> l" "nat l < length (b_levels b)" using Cons.prems by (cases d) auto
  let ?b = "apply_deletion d b"
  have b: "length (b_levels ?b) = length (b_levels b)" "b_base ?b = b_base b" "\<forall>k < length (b_levels b). added_at ?b k = added_at b k"
    "\<forall>k < length (b_levels b). deleted_at ?b k = deleted_at b k \<union> (if k = nat l then {n} else {})"
    using d by (auto simp: apply_deletion_def Let_def added_at_def deleted_at_def nth_list_update)
  have "\<forall>(l, n) \<in> set dels. 0 \<le> l \<and> nat l < length (b_levels ?b)" using Cons.prems b(1) by auto
  from Cons.IH [OF this] show ?case using b d(1,2) by auto
qed simp

lemma concat_map_update:
  "i < length xs \<Longrightarrow> mset (g y) = mset (g (xs ! i)) + M \<Longrightarrow> mset (concat (map g (xs[i := y]))) = mset (concat (map g xs)) + M"
  by (induction xs arbitrary: i) (auto split: nat.splits simp: ac_simps)

text \<open>One new file: it gets a fresh object with one reference, owned by the builder.\<close>

lemma new_file_inv:
  assumes "vs_inv s holds building extra" "fm_refs m = 1"
  shows "vs_inv (snd (new_file m s)) holds building (add_mset (vs_fresh s) extra)" "vs_file_heap s (vs_fresh s) = None"
proof -
  show none: "vs_file_heap s (vs_fresh s) = None" using assms(1) by (auto simp: vs_inv_def)
  have r: "refs_ok (vs_file_heap s) (held_files (vs_version_heap s) + extra)" using assms(1) by (simp add: vs_inv_def)
  then have n: "vs_fresh s \<notin># held_files (vs_version_heap s) + extra" using none unfolding refs_ok_def by blast
  then have "count (held_files (vs_version_heap s) + extra) (vs_fresh s) = 0" by (metis count_eq_zero_iff)
  then have "refs_ok ((vs_file_heap s)(vs_fresh s \<mapsto> m)) (add_mset (vs_fresh s) (held_files (vs_version_heap s) + extra))"
    using r assms(2) unfolding refs_ok_def by auto
  then show "vs_inv (snd (new_file m s)) holds building (add_mset (vs_fresh s) extra)"
    using assms(1) by (auto simp: vs_inv_def new_file_def less_Suc_eq)
qed

text \<open>The part of a file record that never changes.\<close>

definition file_info :: "file_meta \<Rightarrow> u64 \<times> u64 \<times> InternalKey \<times> InternalKey" where
  "file_info m = (fm_number m, fm_file_size m, fm_smallest m, fm_largest m)"

definition added_infos :: "builder \<Rightarrow> version_set \<Rightarrow> nat \<Rightarrow> (u64 \<times> u64 \<times> InternalKey \<times> InternalKey) set" where
  "added_infos b s l = (\<lambda>f. file_info (file_at s f)) ` set (added_at b l)"

definition news_at :: "(int \<times> file_meta) list \<Rightarrow> nat \<Rightarrow> file_meta set" where
  "news_at news l = {m. (int l, m) \<in> set news}"

definition new_ok :: "(bytes \<Rightarrow> bool) \<Rightarrow> int \<times> file_meta \<Rightarrow> bool" where
  "new_ok ukeys new \<longleftrightarrow> level_ok (fst new) \<and> file_keys_ok ukeys (snd new)"

text \<open>An edit applied to the set of files of a level, and what it must satisfy.\<close>

definition deletions_at :: "version_edit \<Rightarrow> nat \<Rightarrow> u64 set" where
  "deletions_at edit l = {n. (int l, n) |\<in>| ve_deleted_files edit}"

definition infos_at :: "version_set \<Rightarrow> file_ptr list list \<Rightarrow> nat \<Rightarrow> (u64 \<times> u64 \<times> InternalKey \<times> InternalKey) set" where
  "infos_at s files l = (\<lambda>f. file_info (file_at s f)) ` set (files ! l)"

definition next_infos :: "version_edit \<Rightarrow> nat \<Rightarrow> (u64 \<times> u64 \<times> InternalKey \<times> InternalKey) set \<Rightarrow> (u64 \<times> u64 \<times> InternalKey \<times> InternalKey) set" where
  "next_infos edit l infos = {i \<in> infos. fst i \<notin> deletions_at edit l} \<union> file_info ` news_at (ve_new_files edit) l"

definition edit_fits :: "(bytes \<Rightarrow> bool) \<Rightarrow> version_edit \<Rightarrow> bool" where
  "edit_fits ukeys edit \<longleftrightarrow> (\<forall>l \<in> fst ` set (ve_compact_pointers edit) \<union> fst ` fset (ve_deleted_files edit). level_ok l) \<and>
     (\<forall>new \<in> set (ve_new_files edit). new_ok ukeys new) \<and> distinct (map (\<lambda>(l, m). (l, fm_number m)) (ve_new_files edit))"

text \<open>A version whose levels are sorted, and files with disjoint ranges.\<close>

definition version_ok :: "comparator \<Rightarrow> (bytes \<Rightarrow> bool) \<Rightarrow> version_set \<Rightarrow> file_ptr list list \<Rightarrow> bool" where
  "version_ok u ukeys s files \<longleftrightarrow> length files = kNumLevels \<and>
     (\<forall>l < kNumLevels. (\<forall>f \<in> set (files ! l). vs_file_heap s f \<noteq> None \<and> file_keys_ok ukeys (file_at s f)) \<and>
        sorted_wrt (\<lambda>x y. BySmallestKey u (file_at s x) (file_at s y)) (files ! l))"

definition disjoint_infos :: "comparator \<Rightarrow> (bytes \<Rightarrow> bool) \<Rightarrow> (u64 \<times> u64 \<times> InternalKey \<times> InternalKey) set \<Rightarrow> bool" where
  "disjoint_infos u ukeys infos \<longleftrightarrow>
     (\<forall>i \<in> infos. case i of (_, _, s, l) \<Rightarrow> internal_keys ukeys s \<and> internal_keys ukeys l \<and> InternalKeyComparator_Compare u s l \<le> 0) \<and>
     (\<forall>i \<in> infos. \<forall>j \<in> infos. i \<noteq> j \<longrightarrow> (case (i, j) of ((_, _, s, l), (_, _, s', l')) \<Rightarrow>
        InternalKeyComparator_Compare u l s' < 0 \<or> InternalKeyComparator_Compare u l' s < 0))"

text \<open>What applying leaves alone, and that it only extends the file store.\<close>

definition extends :: "version_set \<Rightarrow> version_set \<Rightarrow> bool" where
  "extends s s' \<longleftrightarrow> vs_version_heap s' = vs_version_heap s \<and> vs_list s' = vs_list s \<and> vs_current s' = vs_current s \<and>
     (\<forall>g m. vs_file_heap s g = Some m \<longrightarrow> vs_file_heap s' g = Some m)"

lemma extends_refl: "extends s s"
  by (simp add: extends_def)

lemma extends_trans: "extends s s' \<Longrightarrow> extends s' s'' \<Longrightarrow> extends s s''"
  by (simp add: extends_def)

lemma extends_file_at: "extends s s' \<Longrightarrow> vs_file_heap s f \<noteq> None \<Longrightarrow> file_at s' f = file_at s f"
  by (auto simp: extends_def file_at_def)

context comparator_contract
begin

lemma apply_new_file_inv:
  assumes inv: "vs_inv s holds building (all_added b)" "builder_inv c keys b s"
    and new: "new_ok keys (level, m)" "fm_number m \<notin> (\<lambda>f. fm_number (file_at s f)) ` set (added_at b (nat level))"
    and r: "apply_new_file c (level, m) (b, s) = (b', s')"
  shows "vs_inv s' holds building (all_added b')" "builder_inv c keys b' s'" "extends s s'" "b_base b' = b_base b"
    "l < kNumLevels \<Longrightarrow> added_infos b' s' l = added_infos b s l \<union> (if int l = level then {file_info m} else {})"
    "l < kNumLevels \<Longrightarrow> deleted_at b' l = deleted_at b l - (if int l = level then {fm_number m} else {})"
proof -
  let ?m = "m\<lparr>fm_refs := 1, fm_allowed_seeks := allowed_seeks_of (fm_file_size m)\<rparr>"
  let ?f = "vs_fresh s" and ?s = "snd (new_file ?m s)" and ?l = "nat level"
  let ?lt = "\<lambda>x y. BySmallestKey c (file_at ?s x) (file_at ?s y)"
  have lev: "?l < kNumLevels" "int ?l = level" using new(1) by (auto simp: new_ok_def level_ok_def)
  have bl: "length (b_levels b) = kNumLevels" using inv(2) by (simp add: builder_inv_def)
  note nf = new_file_inv [OF inv(1), of ?m, simplified]
  have s': "s' = ?s" and b': "b' = b\<lparr>b_levels := (b_levels b)[?l := (b_levels b ! ?l)\<lparr>ls_deleted_files := deleted_at b ?l - {fm_number m},
      ls_added_files := set_insert ?lt ?f (added_at b ?l)\<rparr>]\<rparr>"
    using r by (auto simp: apply_new_file_def new_file_def Let_def added_at_def deleted_at_def)
  have ext: "extends s ?s" using nf(2) by (auto simp: extends_def new_file_def)
  have at: "file_at ?s ?f = ?m" by (simp add: file_at_def new_file_def)
  have old: "vs_file_heap s f \<noteq> None" "file_keys_ok keys (file_at s f)" "file_at ?s f = file_at s f" if "k < kNumLevels" "f \<in> set (added_at b k)" for k f
    using inv(2) that extends_file_at [OF ext, of f] by (auto simp: builder_inv_def)
  have ok: "file_keys_ok keys (file_at ?s f)" if "f \<in> insert ?f (set (added_at b ?l))" for f
    using that old [OF lev(1)] new(1) at by (auto simp: new_ok_def file_keys_ok_def)
  have total: "\<forall>y \<in> set (added_at b ?l). ?lt ?f y \<or> ?lt y ?f"
  proof
    fix y assume y: "y \<in> set (added_at b ?l)"
    have "fm_number (file_at ?s ?f) \<noteq> fm_number (file_at ?s y)" using new(2) y unfolding at old(3) [OF lev(1) y] by auto
    then show "?lt ?f y \<or> ?lt y ?f" using BySmallestKey_total [of "file_at ?s ?f" "file_at ?s y"] ok y by blast
  qed
  have srt: "sorted_wrt ?lt (added_at b k)" if "k < kNumLevels" for k
    using inv(2) that old(3) [OF that] by (auto simp: builder_inv_def intro: sorted_wrt_mono_rel [rotated])
  have ins: "mset (set_insert ?lt ?f (added_at b ?l)) = add_mset ?f (mset (added_at b ?l))" "sorted_wrt ?lt (set_insert ?lt ?f (added_at b ?l))"
    by (rule std_set_insert_sorted; use BySmallestKey_trans ok total srt [OF lev(1)] in blast)+
  have set_ins: "set (set_insert ?lt ?f (added_at b ?l)) = insert ?f (set (added_at b ?l))"
    using ins(1) by (metis set_mset_add_mset_insert set_mset_mset)
  have added: "added_at b' k = (if k = ?l then set_insert ?lt ?f (added_at b ?l) else added_at b k)"
    and deleted: "deleted_at b' k = (if k = ?l then deleted_at b ?l - {fm_number m} else deleted_at b k)" if "k < kNumLevels" for k
    using that bl lev(1) unfolding b' by (simp_all add: added_at_def deleted_at_def nth_list_update)
  have "all_added b' = add_mset ?f (all_added b)"
    using concat_map_update [of ?l "b_levels b" ls_added_files _ "{#?f#}"] ins(1) bl lev(1) unfolding b' all_added_def
    by (simp add: added_at_def)
  then show "vs_inv s' holds building (all_added b')" using nf(1) s' by simp
  show "extends s s'" "b_base b' = b_base b" using ext s' b' by simp_all
  have live: "vs_file_heap ?s f \<noteq> None" if "k < kNumLevels" "f \<in> set (added_at b k)" for k f
    using old(1) [OF that] ext by (auto simp: extends_def)
  have live_new: "vs_file_heap ?s ?f \<noteq> None" by (simp add: new_file_def)
  show "builder_inv c keys b' s'"
    unfolding builder_inv_def s'
  proof (intro conjI allI impI ballI)
    show "length (b_levels b') = kNumLevels" using bl b' by simp
    fix k assume k: "k < kNumLevels"
    show "sorted_wrt ?lt (added_at b' k)" using added [OF k] ins(2) srt [OF k] by simp
    fix f assume f: "f \<in> set (added_at b' k)"
    then consider "k = ?l" "f \<in> insert ?f (set (added_at b ?l))" | "f \<in> set (added_at b k)" using added [OF k] set_ins by (auto split: if_splits)
    then show "vs_file_heap ?s f \<noteq> None" "file_keys_ok keys (file_at ?s f)"
      using ok live [OF k] live_new old(2,3) [OF k, of f] live [OF lev(1)] by (cases; auto)+
  qed
  show "l < kNumLevels \<Longrightarrow> added_infos b' s' l = added_infos b s l \<union> (if int l = level then {file_info m} else {})"
    using added set_ins at old(3) lev(2) s' by (auto simp: added_infos_def file_info_def image_iff)
  show "l < kNumLevels \<Longrightarrow> deleted_at b' l = deleted_at b l - (if int l = level then {fm_number m} else {})"
    using deleted lev(2) by auto
qed

lemma apply_news_inv:
  assumes "vs_inv s holds building (all_added b)" "builder_inv c keys b s" "\<forall>new \<in> set news. new_ok keys new"
    and "distinct (map (\<lambda>(l, m). (l, fm_number m)) news)" "\<forall>(l, m) \<in> set news. fm_number m \<notin> fst ` added_infos b s (nat l)"
  shows "\<exists>b' s'. foldl (\<lambda>bs new. apply_new_file c new bs) (b, s) news = (b', s') \<and>
    vs_inv s' holds building (all_added b') \<and> builder_inv c keys b' s' \<and> extends s s' \<and> b_base b' = b_base b \<and>
    (\<forall>l < kNumLevels. added_infos b' s' l = added_infos b s l \<union> file_info ` news_at news l \<and>
       deleted_at b' l = deleted_at b l - fm_number ` news_at news l)"
  using assms
proof (induction news arbitrary: b s)
  case Nil
  then show ?case by (simp add: extends_refl news_at_def)
next
  case (Cons new news)
  obtain level m where new: "new = (level, m)" by fastforce
  have lev: "0 \<le> level" "nat level < kNumLevels" using Cons.prems(3) new by (auto simp: new_ok_def level_ok_def)
  obtain b1 s1 where r: "apply_new_file c (level, m) (b, s) = (b1, s1)" by fastforce
  have n: "new_ok keys (level, m)" "fm_number m \<notin> (\<lambda>f. fm_number (file_at s f)) ` set (added_at b (nat level))"
    using Cons.prems(3,5) new by (auto simp: added_infos_def file_info_def image_iff)
  note one = apply_new_file_inv [OF Cons.prems(1,2) n r]
  have "\<forall>(l, m) \<in> set news. fm_number m \<notin> fst ` added_infos b1 s1 (nat l)"
  proof (intro ballI, clarify)
    fix l m' info assume m': "(l, m') \<in> set news" "info \<in> added_infos b1 s1 (nat l)" "fm_number m' = fst info"
    have l: "0 \<le> l" "nat l < kNumLevels" using Cons.prems(3) m'(1) by (auto simp: new_ok_def level_ok_def)
    have "info \<in> added_infos b s (nat l) \<or> l = level \<and> info = file_info m"
      using one(5) [OF l(2)] m'(2) l(1) by (auto split: if_splits)
    then show False using Cons.prems(4,5) m' new by (force simp: file_info_def)
  qed
  then obtain b' s' where rest: "foldl (\<lambda>bs new. apply_new_file c new bs) (b1, s1) news = (b', s')"
    "vs_inv s' holds building (all_added b')" "builder_inv c keys b' s'" "extends s1 s'" "b_base b' = b_base b1"
    "\<forall>l < kNumLevels. added_infos b' s' l = added_infos b1 s1 l \<union> file_info ` news_at news l \<and>
       deleted_at b' l = deleted_at b1 l - fm_number ` news_at news l"
    using Cons.IH [OF one(1,2)] Cons.prems(3,4) by auto
  have "news_at (new # news) l = news_at news l \<union> (if int l = level then {m} else {})" for l
    by (auto simp: news_at_def new)
  then show ?case using r new rest one(4-6) extends_trans [OF one(3) rest(4)] by (auto simp: image_Un)
qed

lemma Builder_Apply_inv:
  assumes inv: "vs_inv s holds building (all_added b)" "builder_inv c keys b s" and fits: "edit_fits keys edit"
    and fresh: "\<forall>(l, m) \<in> set (ve_new_files edit). fm_number m \<notin> fst ` added_infos b s (nat l)"
  shows "\<exists>b' s'. Builder_Apply c edit b s = Some (b', s') \<and>
    vs_inv s' holds building (all_added b') \<and> builder_inv c keys b' s' \<and> extends s s' \<and> b_base b' = b_base b \<and>
    (\<forall>l < kNumLevels. added_infos b' s' l = added_infos b s l \<union> file_info ` news_at (ve_new_files edit) l \<and>
       deleted_at b' l = (deleted_at b l \<union> deletions_at edit l) - fm_number ` news_at (ve_new_files edit) l)"
proof -
  let ?ptrs = "foldl (\<lambda>ps (level, key). ps[nat level := key]) (vs_compact_pointer s) (ve_compact_pointers edit)"
  let ?s = "s\<lparr>vs_compact_pointer := ?ptrs\<rparr>"
  let ?b = "foldl (\<lambda>b del. apply_deletion del b) b (sorted_list_of_fset (ve_deleted_files edit))"
  have levels: "\<forall>l \<in> fst ` set (ve_compact_pointers edit) \<union> fst ` fset (ve_deleted_files edit) \<union> fst ` set (ve_new_files edit). level_ok l"
    using fits by (auto simp: edit_fits_def new_ok_def)
  have len: "length ps = length (vs_compact_pointer s)"
    if "ps = foldl (\<lambda>ps (level, key). ps[nat level := key]) (vs_compact_pointer s) xs" for ps xs
    unfolding that by (induction xs rule: rev_induct) auto
  have bl: "length (b_levels b) = kNumLevels" using inv(2) by (simp add: builder_inv_def)
  have "\<forall>(l, n) \<in> set (sorted_list_of_fset (ve_deleted_files edit)). 0 \<le> l \<and> nat l < length (b_levels b)"
  proof (intro ballI, clarify)
    fix l n assume "(l, n) \<in> set (sorted_list_of_fset (ve_deleted_files edit))"
    then have "l \<in> fst ` fset (ve_deleted_files edit)" by force
    then have "level_ok l" using fits unfolding edit_fits_def by blast
    then show "0 \<le> l \<and> nat l < length (b_levels b)" using bl by (simp add: level_ok_def nat_less_iff)
  qed
  note d = deletions_eq [OF this]
  have bd: "length (b_levels ?b) = kNumLevels" "b_base ?b = b_base b" "\<And>l. l < kNumLevels \<Longrightarrow> added_at ?b l = added_at b l"
    "\<And>l. l < kNumLevels \<Longrightarrow> deleted_at ?b l = deleted_at b l \<union> deletions_at edit l"
    using d bl by (auto simp: deletions_at_def)
  have "map ls_added_files (b_levels ?b) = map ls_added_files (b_levels b)"
    using bd(1,3) bl by (intro nth_equalityI) (auto simp: added_at_def)
  then have all: "all_added ?b = all_added b" by (simp add: all_added_def)
  have s1: "vs_inv ?s holds building (all_added ?b)" "builder_inv c keys ?b ?s" "extends s ?s"
    using inv all bd len [OF refl] by (simp_all add: vs_inv_def builder_inv_def extends_def file_at_def)
  have infos: "added_infos ?b ?s l = added_infos b s l" if "l < kNumLevels" for l
    using bd(3) [OF that] by (simp add: added_infos_def file_at_def)
  have fr: "\<forall>(l, m) \<in> set (ve_new_files edit). fm_number m \<notin> fst ` added_infos ?b ?s (nat l)"
  proof
    fix new assume n: "new \<in> set (ve_new_files edit)"
    obtain l m where new: "new = (l, m)" by fastforce
    have "level_ok l" using fits n new by (auto simp: edit_fits_def new_ok_def)
    then have "nat l < kNumLevels" by (simp add: level_ok_def nat_less_iff)
    moreover have "fm_number m \<notin> fst ` added_infos b s (nat l)" using fresh n new by auto
    ultimately show "case new of (l, m) \<Rightarrow> fm_number m \<notin> fst ` added_infos ?b ?s (nat l)" using infos by (simp add: new)
  qed
  have news: "\<forall>new \<in> set (ve_new_files edit). new_ok keys new" "distinct (map (\<lambda>(l, m). (l, fm_number m)) (ve_new_files edit))"
    using fits by (simp_all add: edit_fits_def)
  obtain b' s' where r: "foldl (\<lambda>bs new. apply_new_file c new bs) (?b, ?s) (ve_new_files edit) = (b', s')"
    "vs_inv s' holds building (all_added b')" "builder_inv c keys b' s'" "extends ?s s'" "b_base b' = b_base ?b"
    "\<forall>l < kNumLevels. added_infos b' s' l = added_infos ?b ?s l \<union> file_info ` news_at (ve_new_files edit) l \<and>
       deleted_at b' l = deleted_at ?b l - fm_number ` news_at (ve_new_files edit) l"
    using apply_news_inv [OF s1(1,2) news fr] by blast
  then have "Builder_Apply c edit b s = Some (b', s')" using levels by (simp add: Builder_Apply_def Let_def)
  then show ?thesis using r(2,3,5,6) extends_trans [OF s1(3) r(4)] bd(2,4) infos by auto
qed

lemma merge_runs_sorted:
  assumes "\<And>a b d. a \<in> A \<Longrightarrow> b \<in> A \<Longrightarrow> d \<in> A \<Longrightarrow> lt a b \<Longrightarrow> lt b d \<Longrightarrow> lt a d"
    and "set added \<subseteq> A" "set base \<subseteq> A" "sorted_wrt lt added" "sorted_wrt lt base" "\<forall>x \<in> set added. \<forall>y \<in> set base. lt x y \<or> lt y x"
  shows "sorted_wrt lt (merge_runs lt added base)"
  using assms(2-6)
proof (induction added arbitrary: base)
  case (Cons f added)
  let ?P = "\<lambda>x. \<not> lt f x"
  have tk: "sorted_wrt lt (takeWhile ?P base)" "sorted_wrt lt (dropWhile ?P base)"
    "\<forall>x \<in> set (takeWhile ?P base). \<forall>y \<in> set (dropWhile ?P base). lt x y"
    using sorted_wrt_append [THEN iffD1, of lt "takeWhile ?P base" "dropWhile ?P base"] Cons.prems(4) by simp_all
  have before: "\<forall>x \<in> set (takeWhile ?P base). lt x f" using Cons.prems(5) by (auto dest: set_takeWhileD)
  have after: "\<forall>y \<in> set (dropWhile ?P base). lt f y"
  proof (cases "dropWhile ?P base")
    case (Cons y ys)
    then have "lt f y" using hd_dropWhile [of ?P base] by simp
    moreover have "set (dropWhile ?P base) \<subseteq> A" using Cons.prems(2) set_dropWhileD by fastforce
    ultimately show ?thesis using Cons tk(2) assms(1) [of f y] Cons.prems(1) by auto
  next
    case Nil
    show ?thesis unfolding Nil by simp
  qed
  have "sorted_wrt lt (merge_runs lt added (dropWhile ?P base))"
    by (rule Cons.IH) (use Cons.prems tk(2) in \<open>auto dest!: set_dropWhileD\<close>)
  moreover have "\<forall>x \<in> set (takeWhile ?P base). \<forall>y \<in> set added. lt x y"
  proof (intro ballI)
    fix x y assume x: "x \<in> set (takeWhile ?P base)" and y: "y \<in> set added"
    have "x \<in> A" "f \<in> A" "y \<in> A" using Cons.prems(1,2) set_takeWhileD [OF x] y by auto
    moreover have "lt x f" "lt f y" using before x y Cons.prems(3) by auto
    ultimately show "lt x y" using assms(1) by blast
  qed
  moreover have "\<forall>y \<in> set added. lt f y" using Cons.prems(3) by simp
  ultimately show ?case
    using tk(1,3) before after
    unfolding merge_runs.simps sorted_wrt_append sorted_wrt.simps list.set set_merge_runs by blast
qed simp

lemma sorted_disjoint_chained:
  assumes "sorted_wrt (before_file c heap) fs" "disjoint_infos c keys ((\<lambda>f. file_info (the (heap f))) ` set fs)"
  shows "chained c heap fs"
  unfolding chained_def
proof (rule successively_if_sorted_wrt, rule sorted_wrt_mono_rel [OF _ assms(1)])
  fix x y assume xy: "x \<in> set fs" "y \<in> set fs" and lt: "before_file c heap x y"
  let ?x = "the (heap x)" and ?y = "the (heap y)" and ?cmp = "InternalKeyComparator_Compare c"
  have k: "internal_keys keys (fm_smallest ?x)" "internal_keys keys (fm_smallest ?y)" "internal_keys keys (fm_largest ?y)"
    "?cmp (fm_smallest ?y) (fm_largest ?y) \<le> 0"
    using assms(2) xy by (auto simp: disjoint_infos_def file_info_def)
  have le: "?cmp (fm_smallest ?x) (fm_smallest ?y) \<le> 0" using lt by (auto simp: before_file_def BySmallestKey_def Let_def split: if_splits)
  have "file_info ?x \<noteq> file_info ?y"
    using lt key_order.compare_refl [OF internal_order k(1)] by (auto simp: before_file_def BySmallestKey_def Let_def file_info_def)
  then have "?cmp (fm_largest ?x) (fm_smallest ?y) < 0 \<or> ?cmp (fm_largest ?y) (fm_smallest ?x) < 0"
    using assms(2) xy by (force simp: disjoint_infos_def file_info_def)
  moreover have "\<not> ?cmp (fm_largest ?y) (fm_smallest ?x) < 0"
  proof
    assume "?cmp (fm_largest ?y) (fm_smallest ?x) < 0"
    then have "?cmp (fm_smallest ?y) (fm_smallest ?x) < 0" using key_order.compare_le_less_trans [OF internal_order k(2,3,1) k(4)] by blast
    then show False using le key_order.compare_flip [OF internal_order k(2,1)] by simp
  qed
  ultimately show "?cmp (fm_largest (the (heap x))) (fm_smallest (the (heap y))) < 0" by blast
qed

text \<open>What a builder will save at a level.\<close>

lemma plan_at:
  assumes "builder_inv c keys b s" "version_ok c keys s base" "l < kNumLevels"
    and disj: "\<forall>i \<in> added_infos b s l. \<forall>j \<in> infos_at s base l. fst i \<noteq> fst j"
  shows "(\<lambda>f. file_info (file_at s f)) ` set (plan c b (vs_file_heap s) base l) =
      {i \<in> added_infos b s l \<union> infos_at s base l. fst i \<notin> deleted_at b l}"
    "sorted_wrt (before_file c (vs_file_heap s)) (plan c b (vs_file_heap s) base l)"
    "\<forall>f \<in> set (plan c b (vs_file_heap s) base l). vs_file_heap s f \<noteq> None \<and> file_keys_ok keys (file_at s f)"
    "0 < l \<Longrightarrow> disjoint_infos c keys {i \<in> added_infos b s l \<union> infos_at s base l. fst i \<notin> deleted_at b l} \<Longrightarrow>
      saveable c b (vs_file_heap s) base l"
    "l = 0 \<Longrightarrow> saveable c b (vs_file_heap s) base l"
proof -
  let ?h = "vs_file_heap s"
  let ?A = "set (added_at b l) \<union> set (base ! l)"
  have set: "set (plan c b ?h base l) = {f \<in> ?A. fm_number (file_at s f) \<notin> deleted_at b l}"
    by (auto simp: plan_def kept_def set_merge_runs added_at_def deleted_at_def file_at_def)
  show infos: "(\<lambda>f. file_info (file_at s f)) ` set (plan c b ?h base l) = {i \<in> added_infos b s l \<union> infos_at s base l. fst i \<notin> deleted_at b l}"
    unfolding set by (auto simp: added_infos_def infos_at_def file_info_def)
  have ok: "?h f \<noteq> None" "file_keys_ok keys (file_at s f)" if "f \<in> ?A" for f
    using assms(1-3) that by (auto simp: builder_inv_def version_ok_def)
  then show "\<forall>f \<in> set (plan c b ?h base l). ?h f \<noteq> None \<and> file_keys_ok keys (file_at s f)" unfolding set by simp
  have lt: "before_file c ?h = (\<lambda>x y. BySmallestKey c (file_at s x) (file_at s y))"
    by (simp add: fun_eq_iff before_file_def file_at_def)
  have total: "\<forall>x \<in> set (added_at b l). \<forall>y \<in> set (base ! l). before_file c ?h x y \<or> before_file c ?h y x"
  proof (intro ballI)
    fix x y assume xy: "x \<in> set (added_at b l)" "y \<in> set (base ! l)"
    have "fm_number (file_at s x) \<noteq> fm_number (file_at s y)" using disj xy by (auto simp: added_infos_def infos_at_def file_info_def)
    then show "before_file c ?h x y \<or> before_file c ?h y x" unfolding lt using BySmallestKey_total ok xy by blast
  qed
  have trans: "before_file c ?h x z" if "x \<in> ?A" "y \<in> ?A" "z \<in> ?A" "before_file c ?h x y" "before_file c ?h y z" for x y z
    using BySmallestKey_trans [OF ok(2) ok(2) ok(2)] that unfolding lt by blast
  have "sorted_wrt (before_file c ?h) (merge_runs (before_file c ?h) (added_at b l) (base ! l))"
  proof (rule merge_runs_sorted [of ?A])
    show "sorted_wrt (before_file c ?h) (added_at b l)" "sorted_wrt (before_file c ?h) (base ! l)"
      using assms(1-3) by (simp_all add: lt builder_inv_def version_ok_def)
    show "set (added_at b l) \<subseteq> ?A" "set (base ! l) \<subseteq> ?A" by auto
  qed (rule trans total; assumption?)+
  then show srt: "sorted_wrt (before_file c ?h) (plan c b ?h base l)"
    unfolding plan_def kept_def added_at_def by (rule sorted_wrt_filter)
  have dom: "set (ls_added_files (b_levels b ! l)) \<subseteq> dom ?h" "set (base ! l) \<subseteq> dom ?h" using ok(1) by (auto simp: added_at_def)
  then show "l = 0 \<Longrightarrow> saveable c b ?h base l" by (simp add: saveable_def)
  show "saveable c b ?h base l" if "0 < l" "disjoint_infos c keys {i \<in> added_infos b s l \<union> infos_at s base l. fst i \<notin> deleted_at b l}"
    using dom sorted_disjoint_chained [OF srt] that(2) unfolding saveable_def infos [symmetric] by (simp add: file_at_def)
qed

end

end
