(* ===== verification/Version_Build.thy ===== *)
theory Version_Build
  imports Version_Refs
begin

text \<open>
  Building a version over the states of \<open>Version_Refs\<close>: the builder changes file records in their counters only, so that what a
  version says of its files is the same before and after.
\<close>

lemma file_info_update_refs [simp]: "file_info (m\<lparr>fm_refs := r\<rparr>) = file_info m"
  by (simp add: file_info_def)

lemma files_kept_info: "files_kept h h' \<Longrightarrow> h' f = Some m' \<Longrightarrow> \<exists>m. h f = Some m \<and> file_info m' = file_info m"
  unfolding files_kept_def by (metis file_info_update_refs)

lemma add_refs_info: "map_option file_info (add_refs fs h f) = map_option file_info (h f)"
  by (cases "h f") (simp_all add: add_refs_def)

lemma heaps_only: "t = s\<lparr>vs_file_heap := a, vs_version_heap := b\<rparr> \<Longrightarrow> t = s\<lparr>vs_file_heap := vs_file_heap t, vs_version_heap := vs_version_heap t\<rparr>"
  by simp

lemma versions_ok_files:
  "versions_ok heap list holds building \<Longrightarrow> heap p = Some v \<Longrightarrow> v_refs v' = v_refs v \<Longrightarrow> length (v_files v') = kNumLevels \<Longrightarrow>
    versions_ok (heap(p \<mapsto> v')) list holds building"
  unfolding versions_ok_def by auto

lemma later_infos:
  assumes "\<forall>i \<in> F. \<forall>j \<in> I. fst i \<noteq> fst j"
  shows "{i \<in> F \<union> I. fst i \<notin> D - fst ` F} = {i \<in> I. fst i \<notin> D} \<union> F"
proof -
  have "fst i \<notin> fst ` F" if "i \<in> I" for i using assms that by (metis imageE)
  then show ?thesis by auto
qed

lemma before_file_at: "before_file u (vs_file_heap s) = (\<lambda>x y. BySmallestKey u (file_at s x) (file_at s y))"
  by (simp add: fun_eq_iff before_file_def file_at_def)

lemma fst_file_info: "fst ` file_info ` M = fm_number ` M"
  by (simp add: image_image file_info_def)

subsection \<open>Versions keep the files they were built with\<close>

text \<open>File records of later states differ from earlier ones in their counters only.\<close>

definition infos_kept :: "(file_ptr \<Rightarrow> file_meta option) \<Rightarrow> (file_ptr \<Rightarrow> file_meta option) \<Rightarrow> bool" where
  "infos_kept h h' \<longleftrightarrow> (\<forall>f m m'. h f = Some m \<longrightarrow> h' f = Some m' \<longrightarrow> file_info m' = file_info m)"

lemma files_kept_infos: "files_kept h h' \<Longrightarrow> infos_kept h h'"
  unfolding infos_kept_def using files_kept_info by fastforce

lemma file_info_eqD: "file_info a = file_info b \<Longrightarrow>
    fm_number a = fm_number b \<and> fm_file_size a = fm_file_size b \<and> fm_smallest a = fm_smallest b \<and> fm_largest a = fm_largest b"
  by (simp add: file_info_def)

lemma version_ok_later:
  assumes "version_ok u ukeys s files" "infos_kept (vs_file_heap s) (vs_file_heap s')"
    and live: "\<forall>f \<in> set (concat files). vs_file_heap s' f \<noteq> None"
  shows "version_ok u ukeys s' files" "l < kNumLevels \<Longrightarrow> infos_at s' files l = infos_at s files l"
proof -
  have len: "length files = kNumLevels" using assms(1) by (simp add: version_ok_def)
  have old: "vs_file_heap s f \<noteq> None" if "l < kNumLevels" "f \<in> set (files ! l)" for f l
    using assms(1) that by (simp add: version_ok_def)
  have new: "vs_file_heap s' f \<noteq> None" if "l < kNumLevels" "f \<in> set (files ! l)" for f l
  proof -
    have "files ! l \<in> set files" using that(1) len by simp
    with that(2) have "f \<in> set (concat files)" by auto
    with live show ?thesis by blast
  qed
  have info: "file_info (file_at s' f) = file_info (file_at s f)" if "l < kNumLevels" "f \<in> set (files ! l)" for f l
    using assms(2) old [OF that] new [OF that] by (auto simp: infos_kept_def file_at_def)
  have by_key: "BySmallestKey u (file_at s' x) (file_at s' y) = BySmallestKey u (file_at s x) (file_at s y)"
    if "l < kNumLevels" "x \<in> set (files ! l)" "y \<in> set (files ! l)" for x y l
    using file_info_eqD [OF info [OF that(1,2)]] file_info_eqD [OF info [OF that(1,3)]] by (simp add: BySmallestKey_def)
  show "version_ok u ukeys s' files"
    unfolding version_ok_def
  proof (intro conjI allI impI ballI)
    fix l assume l: "l < kNumLevels"
    have "sorted_wrt (\<lambda>x y. BySmallestKey u (file_at s x) (file_at s y)) (files ! l)" using assms(1) l by (simp add: version_ok_def)
    then show "sorted_wrt (\<lambda>x y. BySmallestKey u (file_at s' x) (file_at s' y)) (files ! l)"
      by (rule sorted_wrt_mono_rel [rotated]) (simp add: by_key [OF l])
    fix f assume f: "f \<in> set (files ! l)"
    show "vs_file_heap s' f \<noteq> None" using new [OF l f] .
    have "file_keys_ok ukeys (file_at s f)" using assms(1) l f by (simp add: version_ok_def)
    then show "file_keys_ok ukeys (file_at s' f)" using file_info_eqD [OF info [OF l f]] by (simp add: file_keys_ok_def)
  qed (rule len)
  show "l < kNumLevels \<Longrightarrow> infos_at s' files l = infos_at s files l"
    unfolding infos_at_def using info by (intro image_cong) auto
qed

lemma files_kept_refl [simp]: "files_kept h h"
  by (simp add: files_kept_def)

lemma update_refs_twice: "m1 = m0\<lparr>fm_refs := a\<rparr> \<Longrightarrow> m2 = m1\<lparr>fm_refs := b\<rparr> \<Longrightarrow> m2 = m0\<lparr>fm_refs := fm_refs m2\<rparr>"
  by simp

lemma files_kept_trans:
  assumes "files_kept h h'" "files_kept h' h''"
  shows "files_kept h h''"
  unfolding files_kept_def
proof (intro allI impI)
  fix g m assume "h'' g = Some m"
  then obtain m1 where m1: "h' g = Some m1" "m = m1\<lparr>fm_refs := fm_refs m\<rparr>" using assms(2) unfolding files_kept_def by blast
  then obtain m0 where "h g = Some m0" "m1 = m0\<lparr>fm_refs := fm_refs m1\<rparr>" using assms(1) unfolding files_kept_def by blast
  then show "\<exists>m'. h g = Some m' \<and> m = m'\<lparr>fm_refs := fm_refs m\<rparr>" using update_refs_twice [OF _ m1(2)] by blast
qed

lemma infos_kept_add_refs: "infos_kept h (add_refs fs h)"
  unfolding infos_kept_def using add_refs_info [of fs h] by (metis (no_types, lifting) map_option_eq_Some option.simps(9))

subsection \<open>The end of a builder\<close>

lemma Builder_destroy_inv:
  assumes inv: "vs_inv s (add_mset (b_base b) holds) building (all_added b)"
  shows "\<exists>s'. Builder_destroy b s = Some s' \<and> vs_inv s' holds building {#} \<and> files_kept (vs_file_heap s) (vs_file_heap s') \<and>
    (\<forall>q. q \<noteq> b_base b \<longrightarrow> vs_version_heap s' q = vs_version_heap s q) \<and>
    (b_base b \<in># holds \<longrightarrow> (\<exists>v. vs_version_heap s (b_base b) = Some v \<and> vs_version_heap s' (b_base b) = Some (v\<lparr>v_refs := v_refs v - 1\<rparr>))) \<and>
    vs_current s' = vs_current s \<and> vs_list s' = (if b_base b \<in># holds then vs_list s else removeAll (b_base b) (vs_list s))"
proof -
  let ?fs = "concat (map ls_added_files (b_levels b))"
  have "refs_ok (vs_file_heap s) (mset ?fs + held_files (vs_version_heap s))"
    using inv by (simp add: vs_inv_def all_added_def add.commute)
  from drop_files_refs [OF this] obtain h where h: "unref_files ?fs s = Some (s\<lparr>vs_file_heap := h\<rparr>)"
    "refs_ok h (held_files (vs_version_heap s))" "files_kept (vs_file_heap s) h" by (auto simp: files_kept_def)
  let ?s = "s\<lparr>vs_file_heap := h\<rparr>"
  have "f < vs_fresh s" if f: "h f \<noteq> None" for f
  proof -
    obtain m where "vs_file_heap s f = Some m" using h(3) f by (auto simp: files_kept_def)
    then show ?thesis using inv unfolding vs_inv_def by blast
  qed
  then have "vs_inv ?s (add_mset (b_base b) holds) building {#}" using inv h(2) by (simp add: vs_inv_def)
  from Version_Unref_inv [OF this] obtain s' where s': "Version_Unref (b_base b) ?s = Some s'" "vs_inv s' holds building {#}"
    "\<forall>q. q \<noteq> b_base b \<longrightarrow> vs_version_heap s' q = vs_version_heap s q"
    "b_base b \<in># holds \<longrightarrow> (\<exists>v. vs_version_heap s (b_base b) = Some v \<and> vs_version_heap s' (b_base b) = Some (v\<lparr>v_refs := v_refs v - 1\<rparr>))"
    "files_kept h (vs_file_heap s')" "vs_current s' = vs_current s"
    "vs_list s' = (if b_base b \<in># holds then vs_list s else removeAll (b_base b) (vs_list s))" by auto
  moreover have "files_kept (vs_file_heap s) (vs_file_heap s')" by (rule files_kept_trans [OF h(3) s'(5)])
  moreover have "Builder_destroy b s = Some s'" using h(1) s'(1) by (simp add: Builder_destroy_def)
  ultimately show ?thesis by blast
qed

lemma Finalize_inv:
  assumes "vs_inv s holds building extra" "vs_version_heap s p = Some v"
  shows "\<exists>v'. Finalize p s = Some (s\<lparr>vs_version_heap := (vs_version_heap s)(p \<mapsto> v')\<rparr>) \<and> v_files v' = v_files v \<and> v_refs v' = v_refs v \<and>
    vs_inv (s\<lparr>vs_version_heap := (vs_version_heap s)(p \<mapsto> v')\<rparr>) holds building extra"
proof -
  obtain level score where bl: "best_level (version_files s v) = (level, score)" by fastforce
  let ?v = "v\<lparr>v_compaction_level := level, v_compaction_score := score\<rparr>"
  have "Finalize p s = Some (s\<lparr>vs_version_heap := (vs_version_heap s)(p \<mapsto> ?v)\<rparr>)" using assms(2) bl by (simp add: Finalize_def)
  moreover have "vs_inv (s\<lparr>vs_version_heap := (vs_version_heap s)(p \<mapsto> ?v)\<rparr>) holds building extra"
    by (rule version_change_inv [OF assms]) simp_all
  ultimately show ?thesis by (intro exI [of _ ?v]) simp
qed

context comparator_contract
begin

text \<open>Saving into a version that is being built.\<close>

lemma saved_inv:
  assumes inv: "vs_inv s holds building (all_added b)" and p: "vs_version_heap s p = Some v" "v_files v = replicate kNumLevels []" "b_base b \<noteq> p"
    and w: "vs_version_heap s (b_base b) = Some w"
    and save: "\<forall>l < kNumLevels. saveable c b (vs_file_heap s) (v_files w) l"
  shows "\<exists>s'. Builder_SaveTo c b p s = Some s' \<and> vs_inv s' holds building (all_added b) \<and>
    s' = s\<lparr>vs_file_heap := vs_file_heap s', vs_version_heap := vs_version_heap s'\<rparr> \<and>
    vs_version_heap s' = (vs_version_heap s)(p \<mapsto> v\<lparr>v_files := map (plan c b (vs_file_heap s) (v_files w)) [0..<kNumLevels]\<rparr>) \<and>
    vs_file_heap s' = add_refs (concat (map (plan c b (vs_file_heap s) (v_files w)) [0..<kNumLevels])) (vs_file_heap s)"
proof -
  let ?plan = "plan c b (vs_file_heap s) (v_files w)"
  have len: "length (v_files v) = kNumLevels" using p(2) by simp
  have ok: "\<forall>l \<in> set [0..<kNumLevels]. l < length (v_files v) \<and> v_files v ! l = [] \<and> saveable c b (vs_file_heap s) (v_files w) l"
    using p(2) save by simp
  obtain s' v' where s': "save_levels c b p [0..<kNumLevels] s = Some s'"
    "s' = s\<lparr>vs_file_heap := add_refs (concat (map ?plan [0..<kNumLevels])) (vs_file_heap s), vs_version_heap := (vs_version_heap s)(p \<mapsto> v')\<rparr>"
    "v' = v\<lparr>v_files := v_files v'\<rparr>" "length (v_files v') = length (v_files v)"
    "\<forall>l < length (v_files v). v_files v' ! l = (if l \<in> set [0..<kNumLevels] then ?plan l else v_files v ! l)"
    using save_levels_eq [OF p(1,3) w distinct_upt ok] by blast
  have "v_files v' = map ?plan [0..<kNumLevels]" by (rule nth_equalityI) (use s'(4,5) len in auto)
  then have v': "v' = v\<lparr>v_files := map ?plan [0..<kNumLevels]\<rparr>" using s'(3) by simp
  let ?fs = "concat (map ?plan [0..<kNumLevels])"
  have vok: "versions_ok (vs_version_heap s) (vs_list s) holds building" "refs_ok (vs_file_heap s) (held_files (vs_version_heap s) + all_added b)"
    using inv by (simp_all add: vs_inv_def)
  have "set ?fs \<subseteq> dom (vs_file_heap s)"
  proof
    fix f assume "f \<in> set ?fs"
    then obtain l where "l < kNumLevels" "f \<in> set (?plan l)" by auto
    moreover from this have "saveable c b (vs_file_heap s) (v_files w) l" using save by blast
    ultimately show "f \<in> dom (vs_file_heap s)"
      using plan_dom [of b l "vs_file_heap s" "v_files w" c] unfolding saveable_def by blast
  qed
  then have refs: "refs_ok (add_refs ?fs (vs_file_heap s)) (mset ?fs + (held_files (vs_version_heap s) + all_added b))"
    by (rule add_refs_ok [OF vok(2)])
  have fin: "finite (dom (vs_version_heap s))" using vok(1) by (simp add: versions_ok_def)
  have "held_files (vs_version_heap s) = held_files ((vs_version_heap s)(p := None))"
    using held_files_split [OF fin p(1)] p(2) by simp
  then have held: "held_files ((vs_version_heap s)(p \<mapsto> v')) = held_files (vs_version_heap s) + mset ?fs"
    using held_files_update [OF fin, of p v'] v' by simp
  have "versions_ok ((vs_version_heap s)(p \<mapsto> v')) (vs_list s) holds building"
    unfolding v' by (rule versions_ok_files [OF vok(1) p(1)]) simp_all
  moreover have "p < vs_fresh s" using inv p(1) unfolding vs_inv_def by blast
  ultimately have "vs_inv s' holds building (all_added b)"
    using inv refs held unfolding s'(2) by (simp add: vs_inv_def ac_simps)
  moreover have vh: "vs_version_heap s' = (vs_version_heap s)(p \<mapsto> v\<lparr>v_files := map ?plan [0..<kNumLevels]\<rparr>)"
    unfolding s'(2) v' by simp
  moreover have fh: "vs_file_heap s' = add_refs ?fs (vs_file_heap s)" unfolding s'(2) by simp
  moreover have "s' = s\<lparr>vs_file_heap := vs_file_heap s', vs_version_heap := vs_version_heap s'\<rparr>"
    using s'(2) by (rule heaps_only)
  ultimately show ?thesis using s'(1) unfolding Builder_SaveTo_def by blast
qed

text \<open>The files that a builder saves: those it added and those of its base, without the deleted ones.\<close>

definition saved_infos :: "builder \<Rightarrow> version_set \<Rightarrow> file_ptr list list \<Rightarrow> nat \<Rightarrow> (u64 \<times> u64 \<times> InternalKey \<times> InternalKey) set" where
  "saved_infos b s base l = {i \<in> added_infos b s l \<union> infos_at s base l. fst i \<notin> deleted_at b l}"

lemma SaveTo_inv:
  assumes inv: "vs_inv s holds (insert p building) (all_added b)" "builder_inv c keys b s"
    and p: "vs_version_heap s p = Some v" "v_files v = replicate kNumLevels []" "b_base b \<noteq> p"
    and w: "vs_version_heap s (b_base b) = Some w" "version_ok c keys s (v_files w)"
    and num: "\<And>l. l < kNumLevels \<Longrightarrow> \<forall>i \<in> added_infos b s l. \<forall>j \<in> infos_at s (v_files w) l. fst i \<noteq> fst j"
    and disj: "\<And>l. l < kNumLevels \<Longrightarrow> 0 < l \<Longrightarrow> disjoint_infos c keys (saved_infos b s (v_files w) l)"
  shows "\<exists>s' v'. Builder_SaveTo c b p s = Some s' \<and> vs_inv s' holds (insert p building) (all_added b) \<and>
    vs_version_heap s' = (vs_version_heap s)(p \<mapsto> v') \<and> vs_current s' = vs_current s \<and> vs_list s' = vs_list s \<and>
    infos_kept (vs_file_heap s) (vs_file_heap s') \<and> (\<forall>f. vs_file_heap s' f = None \<longleftrightarrow> vs_file_heap s f = None) \<and>
    version_ok c keys s' (v_files v') \<and> (\<forall>l < kNumLevels. infos_at s' (v_files v') l = saved_infos b s (v_files w) l)"
proof -
  let ?plan = "plan c b (vs_file_heap s) (v_files w)"
  let ?files = "map ?plan [0..<kNumLevels]"
  note pl = plan_at [OF inv(2) w(2) _ num, folded saved_infos_def]
  have save: "\<forall>l < kNumLevels. saveable c b (vs_file_heap s) (v_files w) l"
  proof (intro allI impI)
    fix l assume l: "l < kNumLevels"
    show "saveable c b (vs_file_heap s) (v_files w) l"
    proof (cases "l = 0")
      case True
      show ?thesis by (rule pl(5) [OF l l True])
    next
      case False
      with disj [OF l] show ?thesis by (intro pl(4) [OF l l]) simp_all
    qed
  qed
  obtain s' where s': "Builder_SaveTo c b p s = Some s'" "vs_inv s' holds (insert p building) (all_added b)"
    "s' = s\<lparr>vs_file_heap := vs_file_heap s', vs_version_heap := vs_version_heap s'\<rparr>"
    "vs_version_heap s' = (vs_version_heap s)(p \<mapsto> v\<lparr>v_files := ?files\<rparr>)" "vs_file_heap s' = add_refs (concat ?files) (vs_file_heap s)"
    using saved_inv [OF inv(1) p(1-3) w(1) save] by blast
  have live: "vs_file_heap s' f = None \<longleftrightarrow> vs_file_heap s f = None" for f by (simp add: s'(5) add_refs_def)
  have kept: "infos_kept (vs_file_heap s) (vs_file_heap s')" unfolding s'(5) by (rule infos_kept_add_refs)
  have ok: "version_ok c keys s ?files"
    unfolding version_ok_def
  proof (intro conjI allI impI ballI)
    fix l assume l: "l < kNumLevels"
    show "sorted_wrt (\<lambda>x y. BySmallestKey c (file_at s x) (file_at s y)) (?files ! l)"
      using pl(2) [OF l l] l unfolding before_file_at by simp
    fix f assume "f \<in> set (?files ! l)"
    then show "vs_file_heap s f \<noteq> None" "file_keys_ok keys (file_at s f)" using pl(3) [OF l l] l by simp_all
  qed simp
  have "vs_file_heap s' f \<noteq> None" if f: "f \<in> set (concat ?files)" for f
  proof -
    obtain l where l: "l < kNumLevels" "f \<in> set (?plan l)" using f by auto
    then have "vs_file_heap s f \<noteq> None" using pl(3) [OF l(1,1)] by blast
    then show ?thesis using live [of f] by simp
  qed
  then have later: "version_ok c keys s' ?files" "\<And>l. l < kNumLevels \<Longrightarrow> infos_at s' ?files l = infos_at s ?files l"
    using version_ok_later [OF ok kept] by blast+
  have "infos_at s ?files l = saved_infos b s (v_files w) l" if "l < kNumLevels" for l
    using pl(1) [OF that that] that by (simp add: infos_at_def)
  moreover have "vs_current s' = vs_current s" "vs_list s' = vs_list s" by (subst s'(3), simp)+
  ultimately show ?thesis using s'(1,2,4) live kept later by (intro exI [of _ s'] exI [of _ "v\<lparr>v_files := ?files\<rparr>"]) simp
qed

lemma build_version_inv:
  assumes inv: "vs_inv s holds building {#}" "vs_current s = Some cur" "cur \<in># holds" "vs_version_heap s cur = Some v"
    and base: "version_ok c keys s (v_files v)" and fits: "edit_fits keys edit"
    and fresh: "\<forall>(l, m) \<in> set (ve_new_files edit). fm_number m \<notin> fst ` infos_at s (v_files v) (nat l)"
    and disj: "\<forall>l < kNumLevels. 0 < l \<longrightarrow> disjoint_infos c keys (next_infos edit l (infos_at s (v_files v) l))"
  shows "\<exists>p s' v'. build_version c edit s = Some (p, s') \<and> p \<notin># holds \<and> vs_inv s' holds (insert p building) {#} \<and>
    vs_version_heap s' p = Some v' \<and> version_ok c keys s' (v_files v') \<and>
    (\<forall>l < kNumLevels. infos_at s' (v_files v') l = next_infos edit l (infos_at s (v_files v) l)) \<and>
    vs_list s' = vs_list s \<and> vs_current s' = Some cur \<and>
    (\<forall>q w. vs_version_heap s q = Some w \<longrightarrow> (\<exists>w'. vs_version_heap s' q = Some w' \<and> v_files w' = v_files w)) \<and>
    (\<forall>f m m'. vs_file_heap s f = Some m \<longrightarrow> vs_file_heap s' f = Some m' \<longrightarrow> file_info m' = file_info m)"
proof -
  define p where "p = vs_fresh s"
  define s1 where "s1 = snd (new_version s)"
  note nv = new_version_inv [OF inv(1)]
  have new: "new_version s = (p, s1)" by (simp add: p_def s1_def new_version_def)
  have s1: "vs_inv s1 holds (insert p building) {#}" "vs_version_heap s1 p = Some version_make" "p \<notin># holds" "cur \<noteq> p"
    "vs_version_heap s p = None" "vs_version_heap s1 = (vs_version_heap s)(p \<mapsto> version_make)" "vs_file_heap s1 = vs_file_heap s"
    "vs_list s1 = vs_list s" "vs_current s1 = vs_current s"
    using nv inv(3) by (auto simp: s1_def p_def new_version_def)
  let ?v = "v\<lparr>v_refs := v_refs v + 1\<rparr>"
  define s2 where "s2 = s1\<lparr>vs_version_heap := (vs_version_heap s1)(cur \<mapsto> ?v)\<rparr>"
  have cur1: "vs_version_heap s1 cur = Some v" using inv(4) s1(4,6) by simp
  have s2: "Version_Ref cur s1 = Some s2" "vs_inv s2 (add_mset cur holds) (insert p building) {#}"
    using Version_Ref_inv [OF s1(1) inv(3)] cur1 by (auto simp: s2_def)
  define b0 where "b0 = \<lparr>b_base = cur, b_levels = replicate kNumLevels \<lparr>ls_deleted_files = {}, ls_added_files = []\<rparr>\<rparr>"
  have b0: "all_added b0 = {#}" "builder_inv c keys b0 s2" "\<And>l. l < kNumLevels \<Longrightarrow> added_infos b0 s2 l = {}" "\<And>l. l < kNumLevels \<Longrightarrow> deleted_at b0 l = {}"
    by (simp_all add: b0_def all_added_def builder_inv_def added_infos_def added_at_def deleted_at_def)
  have fr: "\<forall>(l, m) \<in> set (ve_new_files edit). fm_number m \<notin> fst ` added_infos b0 s2 (nat l)"
  proof
    fix new assume n: "new \<in> set (ve_new_files edit)"
    then have "level_ok (fst new)" using fits by (simp add: edit_fits_def new_ok_def)
    then have "nat (fst new) < kNumLevels" by (simp add: level_ok_def nat_less_iff)
    then show "case new of (l, m) \<Rightarrow> fm_number m \<notin> fst ` added_infos b0 s2 (nat l)" using b0(3) by (simp add: case_prod_beta)
  qed
  obtain b s3 where b: "Builder_Apply c edit b0 s2 = Some (b, s3)" "vs_inv s3 (add_mset cur holds) (insert p building) (all_added b)"
    "builder_inv c keys b s3" "extends s2 s3" "b_base b = cur"
    "\<And>l. l < kNumLevels \<Longrightarrow> added_infos b s3 l = file_info ` news_at (ve_new_files edit) l"
    "\<And>l. l < kNumLevels \<Longrightarrow> deleted_at b l = deletions_at edit l - fm_number ` news_at (ve_new_files edit) l"
  proof -
    have i2: "vs_inv s2 (add_mset cur holds) (insert p building) (all_added b0)" using s2(2) b0(1) by simp
    obtain b s3 where "Builder_Apply c edit b0 s2 = Some (b, s3)" "vs_inv s3 (add_mset cur holds) (insert p building) (all_added b)"
      "builder_inv c keys b s3" "extends s2 s3" "b_base b = b_base b0"
      "\<forall>l < kNumLevels. added_infos b s3 l = added_infos b0 s2 l \<union> file_info ` news_at (ve_new_files edit) l \<and>
         deleted_at b l = (deleted_at b0 l \<union> deletions_at edit l) - fm_number ` news_at (ve_new_files edit) l"
      using Builder_Apply_inv [OF i2 b0(2) fits fr] by blast
    then show ?thesis using that [of b s3] b0(3,4) by (simp add: b0_def)
  qed
  have live: "vs_file_heap s f \<noteq> None" if "l < kNumLevels" "f \<in> set (v_files v ! l)" for f l
    using base that by (simp add: version_ok_def)
  have h3: "vs_file_heap s3 f = vs_file_heap s f" if "vs_file_heap s f \<noteq> None" for f
    using b(4) that by (auto simp: extends_def s2_def s1(7))
  then have at: "file_at s3 f = file_at s f" if "vs_file_heap s f \<noteq> None" for f using that by (simp add: file_at_def)
  have base3: "version_ok c keys s3 (v_files v)"
    using base h3 at unfolding version_ok_def by (auto intro: sorted_wrt_mono_rel [rotated])
  have infos3: "infos_at s3 (v_files v) l = infos_at s (v_files v) l" if "l < kNumLevels" for l
    unfolding infos_at_def using at live [OF that] by (intro image_cong) auto
  have num: "\<forall>i \<in> added_infos b s3 l. \<forall>j \<in> infos_at s3 (v_files v) l. fst i \<noteq> fst j" if l: "l < kNumLevels" for l
  proof (intro ballI)
    fix i j assume i: "i \<in> added_infos b s3 l" and j: "j \<in> infos_at s3 (v_files v) l"
    obtain m where m: "(int l, m) \<in> set (ve_new_files edit)" "i = file_info m" using i b(6) [OF l] by (auto simp: news_at_def)
    have "fm_number m \<notin> fst ` infos_at s (v_files v) l" using fresh m(1) by force
    moreover have "fst j \<in> fst ` infos_at s (v_files v) l" using j infos3 [OF l] by blast
    moreover have "fst i = fm_number m" using m(2) by (simp add: file_info_def)
    ultimately show "fst i \<noteq> fst j" by metis
  qed
  have next_eq: "saved_infos b s3 (v_files v) l = next_infos edit l (infos_at s (v_files v) l)" if "l < kNumLevels" for l
    using later_infos [OF num [OF that]] unfolding saved_infos_def b(6,7) [OF that] infos3 [OF that] next_infos_def fst_file_info .
  have vh3: "vs_version_heap s3 = (vs_version_heap s1)(cur \<mapsto> ?v)" using b(4) by (simp add: extends_def s2_def)
  have p3: "vs_version_heap s3 p = Some version_make" "vs_version_heap s3 (b_base b) = Some ?v" "b_base b \<noteq> p"
    using s1(2,4) b(5) by (simp_all add: vh3)
  have d3: "disjoint_infos c keys (saved_infos b s3 (v_files ?v) l)" if "l < kNumLevels" "0 < l" for l
    using disj that next_eq [OF that(1)] by simp
  obtain s4 v4 where s4: "Builder_SaveTo c b p s3 = Some s4" "vs_inv s4 (add_mset cur holds) (insert p building) (all_added b)"
    "vs_version_heap s4 = (vs_version_heap s3)(p \<mapsto> v4)" "vs_current s4 = vs_current s3" "vs_list s4 = vs_list s3"
    "infos_kept (vs_file_heap s3) (vs_file_heap s4)" "\<forall>f. vs_file_heap s4 f = None \<longleftrightarrow> vs_file_heap s3 f = None"
    "version_ok c keys s4 (v_files v4)" "\<forall>l < kNumLevels. infos_at s4 (v_files v4) l = saved_infos b s3 (v_files ?v) l"
    using SaveTo_inv [OF b(2,3) p3(1) _ p3(3,2) _ _ d3] base3 num by (auto simp: version_make_def)
  obtain s6 where s6: "Builder_destroy b s4 = Some s6" "vs_inv s6 holds (insert p building) {#}" "files_kept (vs_file_heap s4) (vs_file_heap s6)"
    "\<And>q. q \<noteq> cur \<Longrightarrow> vs_version_heap s6 q = vs_version_heap s4 q"
    "\<exists>w. vs_version_heap s4 cur = Some w \<and> vs_version_heap s6 cur = Some (w\<lparr>v_refs := v_refs w - 1\<rparr>)"
    "vs_current s6 = vs_current s4" "vs_list s6 = vs_list s4"
    using Builder_destroy_inv [of s4 b holds "insert p building"] s4(2) b(5) inv(3) by auto
  have p6: "vs_version_heap s6 p = Some v4" using s6(4) [of p] s1(4) s4(3) by simp
  obtain v7 where v7: "Finalize p s6 = Some (s6\<lparr>vs_version_heap := (vs_version_heap s6)(p \<mapsto> v7)\<rparr>)" "v_files v7 = v_files v4"
    "vs_inv (s6\<lparr>vs_version_heap := (vs_version_heap s6)(p \<mapsto> v7)\<rparr>) holds (insert p building) {#}"
    using Finalize_inv [OF s6(2) p6] by blast
  define s7 where "s7 = s6\<lparr>vs_version_heap := (vs_version_heap s6)(p \<mapsto> v7)\<rparr>"
  note inv7 = v7(3) [folded s7_def]
  have run: "build_version c edit s = Some (p, s7)"
    using inv(2) new s2(1) b(1) s4(1) s6(1) v7(1) by (simp add: build_version_def Builder_make_def b0_def s7_def)
  have w: "vs_version_heap s7 p = Some v7" by (simp add: s7_def)
  have h7: "vs_file_heap s7 = vs_file_heap s6" by (simp add: s7_def)
  have "\<forall>f \<in> set (concat (v_files v7)). vs_file_heap s7 f \<noteq> None" using vs_inv_file [OF inv7 w] by blast
  from version_ok_later [OF s4(8) files_kept_infos [OF s6(3), folded h7] this [unfolded v7(2)]]
  have ok7: "version_ok c keys s7 (v_files v7)" "\<And>l. l < kNumLevels \<Longrightarrow> infos_at s7 (v_files v7) l = infos_at s4 (v_files v4) l"
    unfolding v7(2) by simp_all
  have infos7: "infos_at s7 (v_files v7) l = next_infos edit l (infos_at s (v_files v) l)" if "l < kNumLevels" for l
    using ok7(2) [OF that] s4(9) next_eq [OF that] that by simp
  have others: "\<exists>w'. vs_version_heap s7 q = Some w' \<and> v_files w' = v_files w" if q: "vs_version_heap s q = Some w" for q w
  proof (cases "q = cur")
    case True
    then show ?thesis using q inv(4) s1(4) s6(5) s4(3) by (auto simp: s7_def vh3)
  next
    case False
    then show ?thesis using q s1(5,6) s6(4) [of q] s4(3) by (auto simp: s7_def vh3)
  qed
  have "file_info m' = file_info m" if f: "vs_file_heap s f = Some m" "vs_file_heap s7 f = Some m'" for f m m'
  proof -
    obtain m4 where "vs_file_heap s4 f = Some m4" "file_info m' = file_info m4" using files_kept_info [OF s6(3)] f(2) unfolding h7 by blast
    then show ?thesis using s4(6) h3 [of f] f(1) unfolding infos_kept_def by fastforce
  qed
  moreover have "vs_list s7 = vs_list s" "vs_current s7 = Some cur"
    using s6(6,7) s4(4,5) b(4) s1(8,9) inv(2) by (simp_all add: s7_def extends_def s2_def)
  ultimately show ?thesis using run s1(3) inv7 w ok7(1) infos7 others by blast
qed

end

end
