(* ===== verification/Version_Steps.thy ===== *)
theory Version_Steps
  imports Version_Build
begin

text \<open>
  The life of a \<open>VersionSet\<close> as a step relation: clients take and drop references to versions, a new
  version is built from an edit, and later installed or discarded, with the steps of other threads in
  between since \<open>LogAndApply\<close> lets the mutex go while it writes the manifest.
\<close>

subsection \<open>Installing and discarding a version\<close>

lemma building_version:
  assumes "vs_inv s holds (insert p building) extra" "p \<notin> building"
  shows "\<exists>v. vs_version_heap s p = Some v \<and> v_refs v = 0 \<and> length (v_files v) = kNumLevels" "p \<notin># holds" "p \<notin> set (vs_list s)"
proof -
  have ok: "versions_ok (vs_version_heap s) (vs_list s) holds (insert p building)" using assms(1) by (simp add: vs_inv_def)
  then show n: "p \<notin># holds" "p \<notin> set (vs_list s)" by (auto simp: versions_ok_def)
  then have "count holds p = 0" by (simp add: count_eq_zero_iff)
  then show "\<exists>v. vs_version_heap s p = Some v \<and> v_refs v = 0 \<and> length (v_files v) = kNumLevels"
    using versions_okD(1) [OF ok, of p] by auto
qed

lemma delete_version_inv:
  assumes inv: "vs_inv s holds (insert p building) extra" "p \<notin> building"
  shows "\<exists>s'. delete_version p s = Some s' \<and> vs_inv s' holds building extra \<and>
    vs_version_heap s' = (vs_version_heap s)(p := None) \<and> files_kept (vs_file_heap s) (vs_file_heap s') \<and>
    vs_list s' = vs_list s \<and> vs_current s' = vs_current s"
proof -
  let ?h = "vs_version_heap s"
  have ok: "versions_ok ?h (vs_list s) holds (insert p building)" "refs_ok (vs_file_heap s) (held_files ?h + extra)" "finite (dom ?h)"
    using inv(1) by (auto simp: vs_inv_def versions_ok_def)
  obtain v where v: "?h p = Some v" "v_refs v = 0" using building_version(1) [OF inv] by blast
  note out = building_version(2,3) [OF inv]
  let ?s1 = "s\<lparr>vs_list := removeAll p (vs_list s), vs_version_heap := ?h(p := None)\<rparr>"
  have "refs_ok (vs_file_heap ?s1) (mset (concat (v_files v)) + (held_files (?h(p := None)) + extra))"
    using ok(2) held_files_split [OF ok(3) v(1)] by (simp add: ac_simps)
  from drop_files_refs [OF this] obtain h where
    h: "drop_files (concat (v_files v)) ?s1 = Some (?s1\<lparr>vs_file_heap := h\<rparr>)" "refs_ok h (held_files (?h(p := None)) + extra)"
    "files_kept (vs_file_heap s) h" by (auto simp: files_kept_def)
  let ?s = "?s1\<lparr>vs_file_heap := h\<rparr>"
  have "versions_ok (?h(p := None)) (removeAll p (vs_list s)) holds building"
    using ok(1) out inv(2) unfolding versions_ok_def by (auto simp: distinct_removeAll split: if_splits)
  moreover have "f < vs_fresh s" if f: "h f = Some m" for f m
  proof -
    obtain m' where "vs_file_heap s f = Some m'" using h(3) f by (auto simp: files_kept_def)
    then show ?thesis using inv(1) by (auto simp: vs_inv_def)
  qed
  ultimately have "vs_inv ?s holds building extra" using inv(1) h(2) by (auto simp: vs_inv_def)
  moreover have "delete_version p s = Some ?s" using v h(1) by (simp add: delete_version_def)
  ultimately show ?thesis using h(3) out(2) by (intro exI [of _ ?s]) (simp add: removeAll_id)
qed

lemma install_inv:
  assumes inv: "vs_inv s holds (insert p building) extra" "p \<notin> building" "vs_version_heap s p = Some v"
  shows "vs_inv (s\<lparr>vs_current := Some p, vs_version_heap := (vs_version_heap s)(p \<mapsto> v\<lparr>v_refs := v_refs v + 1\<rparr>), vs_list := vs_list s @ [p]\<rparr>)
    (add_mset p holds) building extra"
proof -
  have ok: "versions_ok (vs_version_heap s) (vs_list s) holds (insert p building)" "finite (dom (vs_version_heap s))"
    using inv(1) by (auto simp: vs_inv_def versions_ok_def)
  note b = building_version [OF inv(1,2)]
  have c: "count holds p = 0" using b(2) by (simp add: count_eq_zero_iff)
  have "versions_ok ((vs_version_heap s)(p \<mapsto> v\<lparr>v_refs := v_refs v + 1\<rparr>)) (vs_list s @ [p]) (add_mset p holds) building"
    using ok(1) b c inv(2,3) unfolding versions_ok_def by auto
  moreover have "p < vs_fresh s" using inv(1,3) unfolding vs_inv_def by blast
  ultimately show ?thesis
    using inv(1) held_files_same_files [OF ok(2) inv(3), of "v\<lparr>v_refs := v_refs v + 1\<rparr>"] by (auto simp: vs_inv_def)
qed

lemma AppendVersion_inv:
  assumes inv: "vs_inv s (add_mset cur clients) (insert p building) extra" "p \<notin> building" and cur: "vs_current s = Some cur"
    and v: "vs_version_heap s p = Some v"
  shows "\<exists>s'. AppendVersion p s = Some s' \<and> vs_inv s' (add_mset p clients) building extra \<and> vs_current s' = Some p \<and>
    files_kept (vs_file_heap s) (vs_file_heap s') \<and> (\<exists>v'. vs_version_heap s' p = Some v' \<and> v_files v' = v_files v) \<and>
    (\<forall>q w'. vs_version_heap s' q = Some w' \<longrightarrow> (\<exists>w. vs_version_heap s q = Some w \<and> v_files w' = v_files w))"
proof -
  note b = building_version [OF inv]
  have pc: "p \<noteq> cur" using b(2) by auto
  have ok: "versions_ok (vs_version_heap s) (vs_list s) (add_mset cur clients) (insert p building)" using inv(1) by (simp add: vs_inv_def)
  obtain s1 where s1: "Version_Unref cur s = Some s1" "vs_inv s1 clients (insert p building) extra"
    "\<And>q. q \<noteq> cur \<Longrightarrow> vs_version_heap s1 q = vs_version_heap s q"
    "cur \<in># clients \<Longrightarrow> \<exists>w. vs_version_heap s cur = Some w \<and> vs_version_heap s1 cur = Some (w\<lparr>v_refs := v_refs w - 1\<rparr>)"
    "files_kept (vs_file_heap s) (vs_file_heap s1)"
    using Version_Unref_inv [OF inv(1)] by blast
  have v1: "vs_version_heap s1 p = Some v" using s1(3) pc v by simp
  let ?s = "s1\<lparr>vs_current := Some p, vs_version_heap := (vs_version_heap s1)(p \<mapsto> v\<lparr>v_refs := v_refs v + 1\<rparr>), vs_list := vs_list s1 @ [p]\<rparr>"
  have "v_refs v = 0" using b(1) v by simp
  then have "AppendVersion p s = Some ?s"
    using v cur pc s1(1) v1 by (simp add: AppendVersion_def Version_Ref_def)
  moreover have "vs_inv ?s (add_mset p clients) building extra" by (rule install_inv [OF s1(2) inv(2) v1])
  moreover have "\<exists>w. vs_version_heap s q = Some w \<and> v_files w' = v_files w" if w': "vs_version_heap ?s q = Some w'" for q w'
  proof (cases "q = cur")
    case True
    have "vs_version_heap s1 cur = Some w'" using w' True pc by simp
    moreover have "cur \<notin> insert p building" using ok by (auto simp: versions_ok_def)
    ultimately have "cur \<in># clients" using s1(2) by (auto simp: vs_inv_def versions_ok_def)
    then show ?thesis using s1(4) \<open>vs_version_heap s1 cur = Some w'\<close> True by fastforce
  next
    case False
    then show ?thesis using w' s1(3) v by (auto split: if_splits)
  qed
  ultimately show ?thesis using s1(5) by (intro exI [of _ ?s]) simp
qed

subsection \<open>All versions\<close>

definition all_versions_ok :: "comparator \<Rightarrow> (bytes \<Rightarrow> bool) \<Rightarrow> version_set \<Rightarrow> bool" where
  "all_versions_ok u ukeys s \<longleftrightarrow> (\<forall>p v. vs_version_heap s p = Some v \<longrightarrow> version_ok u ukeys s (v_files v))"

lemma all_versions_ok_later:
  assumes "all_versions_ok u ukeys s" "vs_inv s' holds building extra" "infos_kept (vs_file_heap s) (vs_file_heap s')"
    and "\<And>q w'. vs_version_heap s' q = Some w' \<Longrightarrow> \<exists>w. vs_version_heap s q = Some w \<and> v_files w' = v_files w"
  shows "all_versions_ok u ukeys s'"
  unfolding all_versions_ok_def
proof (intro allI impI)
  fix q w' assume w': "vs_version_heap s' q = Some w'"
  then obtain w where w: "vs_version_heap s q = Some w" "v_files w' = v_files w" using assms(4) by blast
  have "\<forall>f \<in> set (concat (v_files w')). vs_file_heap s' f \<noteq> None" using vs_inv_file [OF assms(2) w'] by blast
  moreover have "version_ok u ukeys s (v_files w)" using assms(1) w(1) by (simp add: all_versions_ok_def)
  ultimately show "version_ok u ukeys s' (v_files w')" using version_ok_later(1) [OF _ assms(3)] w(2) by metis
qed

subsection \<open>The step relation\<close>

text \<open>What \<open>LogAndApply\<close> asks of an edit: new files have new numbers, and levels above 0 stay free of overlaps.\<close>

definition applicable :: "comparator \<Rightarrow> (bytes \<Rightarrow> bool) \<Rightarrow> version_edit \<Rightarrow> version_set \<Rightarrow> bool" where
  "applicable u ukeys edit s \<longleftrightarrow> edit_fits ukeys edit \<and>
     (case vs_current s of None \<Rightarrow> False | Some cur \<Rightarrow>
        let files = v_files (the (vs_version_heap s cur))
        in (\<forall>(l, m) \<in> set (ve_new_files edit). fm_number m \<notin> fst ` infos_at s files (nat l)) \<and>
           (\<forall>l < kNumLevels. 0 < l \<longrightarrow> disjoint_infos u ukeys (next_infos edit l (infos_at s files l))))"

text \<open>\<open>clients\<close> counts the references that clients hold, the last argument is the version being built.\<close>

inductive version_states :: "comparator \<Rightarrow> (bytes \<Rightarrow> bool) \<Rightarrow> version_set \<Rightarrow> version_ptr multiset \<Rightarrow> version_ptr option \<Rightarrow> bool"
  for u ukeys where
  start: "VersionSet_make = Some s \<Longrightarrow> version_states u ukeys s {#} None"
| take: "version_states u ukeys s clients b \<Longrightarrow> vs_current s = Some p \<or> p \<in># clients \<Longrightarrow> Version_Ref p s = Some s' \<Longrightarrow>
    version_states u ukeys s' (add_mset p clients) b"
| drop: "version_states u ukeys s (add_mset p clients) b \<Longrightarrow> Version_Unref p s = Some s' \<Longrightarrow> version_states u ukeys s' clients b"
| build: "version_states u ukeys s clients None \<Longrightarrow> applicable u ukeys edit s \<Longrightarrow> build_version u edit s = Some (p, s') \<Longrightarrow>
    version_states u ukeys s' clients (Some p)"
| install: "version_states u ukeys s clients (Some p) \<Longrightarrow> AppendVersion p s = Some s' \<Longrightarrow> version_states u ukeys s' clients None"
| discard: "version_states u ukeys s clients (Some p) \<Longrightarrow> delete_version p s = Some s' \<Longrightarrow> version_states u ukeys s' clients None"
| number: "version_states u ukeys s clients b \<Longrightarrow> NewFileNumber s = (n, s') \<Longrightarrow> version_states u ukeys s' clients b"
| reuse: "version_states u ukeys s clients b \<Longrightarrow> version_states u ukeys (ReuseFileNumber n s) clients b"
| mark: "version_states u ukeys s clients b \<Longrightarrow> version_states u ukeys (MarkFileNumberUsed n s) clients b"
| sequence: "version_states u ukeys s clients b \<Longrightarrow> SetLastSequence_vs n s = Some s' \<Longrightarrow> version_states u ukeys s' clients b"
| logs: "version_states u ukeys s clients b \<Longrightarrow> version_states u ukeys (s\<lparr>vs_log_number := m, vs_prev_log_number := n\<rparr>) clients b"

definition version_set_ok :: "comparator \<Rightarrow> (bytes \<Rightarrow> bool) \<Rightarrow> version_set \<Rightarrow> version_ptr multiset \<Rightarrow> version_ptr option \<Rightarrow> bool" where
  "version_set_ok u ukeys s clients b \<longleftrightarrow> all_versions_ok u ukeys s \<and>
     (case vs_current s of None \<Rightarrow> False | Some cur \<Rightarrow> vs_inv s (add_mset cur clients) (set_option b) {#})"

lemma version_set_okD:
  assumes "version_set_ok u ukeys s clients b"
  obtains cur v where "vs_current s = Some cur" "vs_inv s (add_mset cur clients) (set_option b) {#}" "vs_version_heap s cur = Some v"
    "version_ok u ukeys s (v_files v)"
proof -
  obtain cur where c: "vs_current s = Some cur" "vs_inv s (add_mset cur clients) (set_option b) {#}" "all_versions_ok u ukeys s"
    using assms by (auto simp: version_set_ok_def split: option.splits)
  then have ok: "versions_ok (vs_version_heap s) (vs_list s) (add_mset cur clients) (set_option b)" by (simp add: vs_inv_def)
  obtain v where "vs_version_heap s cur = Some v" using versions_okD(1) [OF ok, of cur] by auto
  with c show thesis using that unfolding all_versions_ok_def by blast
qed

lemma version_set_ok_numbers:
  assumes "version_set_ok u ukeys s clients b" "vs_file_heap s' = vs_file_heap s" "vs_version_heap s' = vs_version_heap s"
    "vs_list s' = vs_list s" "vs_current s' = vs_current s" "vs_fresh s' = vs_fresh s" "vs_compact_pointer s' = vs_compact_pointer s"
  shows "version_set_ok u ukeys s' clients b"
  using assms unfolding version_set_ok_def all_versions_ok_def version_ok_def file_at_def vs_inv_def by (simp split: option.splits)

lemma VersionSet_make_ok:
  assumes "VersionSet_make = Some s"
  shows "version_set_ok u ukeys s {#} None"
proof -
  have s: "vs_current s = Some 0" "vs_version_heap s = [0 \<mapsto> version_make\<lparr>v_refs := 1\<rparr>]" "vs_file_heap s = (\<lambda>_. None)" "vs_list s = [0]"
    "vs_fresh s = 1" "vs_compact_pointer s = replicate kNumLevels []"
    using assms by (auto simp: VersionSet_make_def new_version_def AppendVersion_def Version_Ref_def version_make_def)
  have "held_files [0 \<mapsto> version_make\<lparr>v_refs := 1\<rparr>] = {#}" by (simp add: held_files_def version_make_def)
  then have "vs_inv s {#0#} {} {#}" by (auto simp: vs_inv_def versions_ok_def refs_ok_def s version_make_def split: if_splits)
  then show ?thesis by (auto simp: version_set_ok_def all_versions_ok_def s version_ok_def version_make_def split: if_splits)
qed

context comparator_contract
begin

lemma take_ok:
  assumes "version_set_ok c keys s clients b" "vs_current s = Some p \<or> p \<in># clients"
  shows "\<exists>s'. Version_Ref p s = Some s' \<and> version_set_ok c keys s' (add_mset p clients) b"
proof -
  from assms(1) obtain cur v where cur: "vs_current s = Some cur" "vs_inv s (add_mset cur clients) (set_option b) {#}" by (rule version_set_okD)
  have "p \<in># add_mset cur clients" using assms(2) cur(1) by auto
  from Version_Ref_inv [OF cur(2) this] obtain w where w: "vs_version_heap s p = Some w"
    "Version_Ref p s = Some (s\<lparr>vs_version_heap := (vs_version_heap s)(p \<mapsto> w\<lparr>v_refs := v_refs w + 1\<rparr>)\<rparr>)"
    "vs_inv (s\<lparr>vs_version_heap := (vs_version_heap s)(p \<mapsto> w\<lparr>v_refs := v_refs w + 1\<rparr>)\<rparr>) (add_mset p (add_mset cur clients)) (set_option b) {#}" by blast
  let ?s = "s\<lparr>vs_version_heap := (vs_version_heap s)(p \<mapsto> w\<lparr>v_refs := v_refs w + 1\<rparr>)\<rparr>"
  have "all_versions_ok c keys s" using assms(1) by (simp add: version_set_ok_def)
  then have "all_versions_ok c keys ?s"
    by (rule all_versions_ok_later [OF _ w(3)]) (use w(1) in \<open>auto simp: infos_kept_def split: if_splits\<close>)
  then show ?thesis using w(2,3) cur(1) by (auto simp: version_set_ok_def add_mset_commute)
qed

lemma drop_ok:
  assumes "version_set_ok c keys s (add_mset p clients) b"
  shows "\<exists>s'. Version_Unref p s = Some s' \<and> version_set_ok c keys s' clients b"
proof -
  from assms obtain cur v where cur: "vs_current s = Some cur" "vs_inv s (add_mset cur (add_mset p clients)) (set_option b) {#}" by (rule version_set_okD)
  then have "vs_inv s (add_mset p (add_mset cur clients)) (set_option b) {#}" by (simp add: add_mset_commute)
  from Version_Unref_inv [OF this] obtain s' where s': "Version_Unref p s = Some s'" "vs_inv s' (add_mset cur clients) (set_option b) {#}"
    "\<forall>q. q \<noteq> p \<longrightarrow> vs_version_heap s' q = vs_version_heap s q"
    "p \<in># add_mset cur clients \<longrightarrow> (\<exists>v. vs_version_heap s p = Some v \<and> vs_version_heap s' p = Some (v\<lparr>v_refs := v_refs v - 1\<rparr>))"
    "files_kept (vs_file_heap s) (vs_file_heap s')" "vs_current s' = vs_current s" by blast
  have pb: "p \<notin> set_option b" using cur(2) by (auto simp: vs_inv_def versions_ok_def)
  have "all_versions_ok c keys s" using assms by (simp add: version_set_ok_def)
  then have "all_versions_ok c keys s'"
  proof (rule all_versions_ok_later [OF _ s'(2) files_kept_infos [OF s'(5)]])
    fix q w' assume w': "vs_version_heap s' q = Some w'"
    show "\<exists>w. vs_version_heap s q = Some w \<and> v_files w' = v_files w"
    proof (cases "q = p")
      case True
      then have "p \<in># add_mset cur clients" using s'(2) w' pb by (auto simp: vs_inv_def versions_ok_def)
      then show ?thesis using s'(4) w' True by auto
    qed (use s'(3) w' in auto)
  qed
  then show ?thesis using s'(1,2,6) cur(1) by (auto simp: version_set_ok_def)
qed

lemma build_ok:
  assumes "version_set_ok c keys s clients None" "applicable c keys edit s" "vs_current s = Some cur" "vs_version_heap s cur = Some v"
  shows "\<exists>p s' v'. build_version c edit s = Some (p, s') \<and> version_set_ok c keys s' clients (Some p) \<and> vs_version_heap s' p = Some v' \<and>
    (\<forall>l < kNumLevels. infos_at s' (v_files v') l = next_infos edit l (infos_at s (v_files v) l)) \<and> vs_current s' = Some cur \<and>
    (\<exists>w. vs_version_heap s' cur = Some w \<and> v_files w = v_files v \<and> (\<forall>l < kNumLevels. infos_at s' (v_files w) l = infos_at s (v_files v) l))"
proof -
  have inv: "vs_inv s (add_mset cur clients) {} {#}" "all_versions_ok c keys s" using assms(1,3) by (auto simp: version_set_ok_def)
  have base: "version_ok c keys s (v_files v)" using inv(2) assms(4) by (simp add: all_versions_ok_def)
  have e: "edit_fits keys edit" "\<forall>(l, m) \<in> set (ve_new_files edit). fm_number m \<notin> fst ` infos_at s (v_files v) (nat l)"
    "\<forall>l < kNumLevels. 0 < l \<longrightarrow> disjoint_infos c keys (next_infos edit l (infos_at s (v_files v) l))"
    using assms(2-4) by (simp_all add: applicable_def Let_def)
  have cur: "cur \<in># add_mset cur clients" by simp
  obtain p s' v' where r: "build_version c edit s = Some (p, s')" "vs_inv s' (add_mset cur clients) (insert p {}) {#}"
    "vs_version_heap s' p = Some v'" "version_ok c keys s' (v_files v')"
    "\<forall>l < kNumLevels. infos_at s' (v_files v') l = next_infos edit l (infos_at s (v_files v) l)" "vs_current s' = Some cur"
    "\<forall>q w. vs_version_heap s q = Some w \<longrightarrow> (\<exists>w'. vs_version_heap s' q = Some w' \<and> v_files w' = v_files w)"
    "\<forall>f m m'. vs_file_heap s f = Some m \<longrightarrow> vs_file_heap s' f = Some m' \<longrightarrow> file_info m' = file_info m"
    using build_version_inv [OF inv(1) assms(3) cur assms(4) base e] by blast
  have ok: "versions_ok (vs_version_heap s) (vs_list s) (add_mset cur clients) {}"
    "versions_ok (vs_version_heap s') (vs_list s') (add_mset cur clients) {p}" using inv(1) r(2) by (simp_all add: vs_inv_def)
  have "all_versions_ok c keys s'"
    unfolding all_versions_ok_def
  proof (intro allI impI)
    fix q w' assume w': "vs_version_heap s' q = Some w'"
    show "version_ok c keys s' (v_files w')"
    proof (cases "q = p")
      case True
      then show ?thesis using r(3,4) w' by simp
    next
      case False
      then have "q \<in># add_mset cur clients" using ok(2) w' unfolding versions_ok_def by (metis option.distinct(1) singletonD)
      then obtain w where w: "vs_version_heap s q = Some w" using versions_okD(1) [OF ok(1), of q] by blast
      then have f: "v_files w' = v_files w" using r(7) w' by fastforce
      have "version_ok c keys s (v_files w)" using inv(2) w by (simp add: all_versions_ok_def)
      moreover have "infos_kept (vs_file_heap s) (vs_file_heap s')" using r(8) by (simp add: infos_kept_def)
      moreover have "\<forall>f \<in> set (concat (v_files w')). vs_file_heap s' f \<noteq> None" using vs_inv_file [OF r(2) w'] by blast
      ultimately show ?thesis using version_ok_later(1) f by metis
    qed
  qed
  moreover obtain w where w: "vs_version_heap s' cur = Some w" "v_files w = v_files v" using r(7) assms(4) by blast
  have "\<forall>f \<in> set (concat (v_files v)). vs_file_heap s' f \<noteq> None" using vs_inv_file [OF r(2) w(1)] w(2) by simp
  moreover have "infos_kept (vs_file_heap s) (vs_file_heap s')" using r(8) by (simp add: infos_kept_def)
  ultimately have "\<forall>l < kNumLevels. infos_at s' (v_files w) l = infos_at s (v_files v) l"
    using version_ok_later(2) [OF base] w(2) by simp
  with \<open>all_versions_ok c keys s'\<close> show ?thesis using r w by (auto simp: version_set_ok_def)
qed

lemma install_ok:
  assumes "version_set_ok c keys s clients (Some p)" "vs_version_heap s p = Some v"
  shows "\<exists>s' v'. AppendVersion p s = Some s' \<and> version_set_ok c keys s' clients None \<and> vs_current s' = Some p \<and>
    vs_version_heap s' p = Some v' \<and> (\<forall>l < kNumLevels. infos_at s' (v_files v') l = infos_at s (v_files v) l)"
proof -
  from assms(1) obtain cur w where cur: "vs_current s = Some cur" "vs_inv s (add_mset cur clients) (set_option (Some p)) {#}" by (rule version_set_okD)
  then have inv: "vs_inv s (add_mset cur clients) (insert p {}) {#}" by simp
  obtain s' v' where s': "AppendVersion p s = Some s'" "vs_inv s' (add_mset p clients) {} {#}" "vs_current s' = Some p"
    "files_kept (vs_file_heap s) (vs_file_heap s')" "vs_version_heap s' p = Some v'" "v_files v' = v_files v"
    "\<forall>q w'. vs_version_heap s' q = Some w' \<longrightarrow> (\<exists>w. vs_version_heap s q = Some w \<and> v_files w' = v_files w)"
    using AppendVersion_inv [OF inv _ cur(1) assms(2)] by auto
  have all: "all_versions_ok c keys s" using assms(1) by (simp add: version_set_ok_def)
  then have "all_versions_ok c keys s'"
    by (rule all_versions_ok_later [OF _ s'(2) files_kept_infos [OF s'(4)]]) (use s'(7) in blast)
  moreover have "\<forall>f \<in> set (concat (v_files v)). vs_file_heap s' f \<noteq> None" using vs_inv_file [OF s'(2,5)] s'(6) by simp
  from version_ok_later(2) [OF _ files_kept_infos [OF s'(4)] this] all assms(2)
  have "\<forall>l < kNumLevels. infos_at s' (v_files v') l = infos_at s (v_files v) l" unfolding all_versions_ok_def s'(6) by blast
  ultimately show ?thesis using s' by (auto simp: version_set_ok_def)
qed

lemma discard_ok:
  assumes "version_set_ok c keys s clients (Some p)"
  shows "\<exists>s'. delete_version p s = Some s' \<and> version_set_ok c keys s' clients None \<and> vs_current s' = vs_current s \<and>
    vs_version_heap s' = (vs_version_heap s)(p := None) \<and>
    (\<forall>q w. q \<noteq> p \<longrightarrow> vs_version_heap s q = Some w \<longrightarrow> (\<forall>l < kNumLevels. infos_at s' (v_files w) l = infos_at s (v_files w) l))"
proof -
  from assms obtain cur w where cur: "vs_current s = Some cur" "vs_inv s (add_mset cur clients) (set_option (Some p)) {#}" by (rule version_set_okD)
  then have inv: "vs_inv s (add_mset cur clients) (insert p {}) {#}" by simp
  obtain s' where s': "delete_version p s = Some s'" "vs_inv s' (add_mset cur clients) {} {#}" "vs_version_heap s' = (vs_version_heap s)(p := None)"
    "files_kept (vs_file_heap s) (vs_file_heap s')" "vs_current s' = vs_current s"
    using delete_version_inv [OF inv] by auto
  have all: "all_versions_ok c keys s" using assms by (simp add: version_set_ok_def)
  then have "all_versions_ok c keys s'"
    by (rule all_versions_ok_later [OF _ s'(2) files_kept_infos [OF s'(4)]]) (use s'(3) in \<open>auto split: if_splits\<close>)
  moreover have "infos_at s' (v_files w) l = infos_at s (v_files w) l"
    if q: "q \<noteq> p" "vs_version_heap s q = Some w" and l: "l < kNumLevels" for q w l
  proof -
    have "vs_version_heap s' q = Some w" using q s'(3) by simp
    then have "\<forall>f \<in> set (concat (v_files w)). vs_file_heap s' f \<noteq> None" using vs_inv_file [OF s'(2)] by blast
    from version_ok_later(2) [OF _ files_kept_infos [OF s'(4)] this l] show ?thesis using all q(2) unfolding all_versions_ok_def by blast
  qed
  ultimately show ?thesis using s' cur(1) by (auto simp: version_set_ok_def)
qed

lemma version_states_ok: "version_states c keys s clients b \<Longrightarrow> version_set_ok c keys s clients b"
proof (induction rule: version_states.induct)
  case (start s)
  then show ?case by (rule VersionSet_make_ok)
next
  case (take s clients b p s')
  then show ?case using take_ok [of s clients b p] by auto
next
  case (drop s p clients b s')
  then show ?case using drop_ok [of s p clients b] by auto
next
  case (build s clients edit p s')
  obtain cur v where "vs_current s = Some cur" "vs_version_heap s cur = Some v" using build.IH by (rule version_set_okD)
  with build show ?case using build_ok by fastforce
next
  case (install s clients p s')
  then obtain v where "vs_version_heap s p = Some v" by (cases "vs_version_heap s p") (auto simp: AppendVersion_def)
  then show ?case using install_ok [OF install.IH, of v] install.hyps by auto
next
  case (discard s clients p s')
  then show ?case using discard_ok [of s clients p] by auto
next
  case (number s clients b n s')
  then show ?case by (elim version_set_ok_numbers) (auto simp: NewFileNumber_def)
next
  case (reuse s clients b n)
  then show ?case by (elim version_set_ok_numbers) (auto simp: ReuseFileNumber_def)
next
  case (mark s clients b n)
  then show ?case by (elim version_set_ok_numbers) (auto simp: MarkFileNumberUsed_def)
next
  case (sequence s clients b n s')
  then show ?case by (elim version_set_ok_numbers) (auto simp: SetLastSequence_vs_def split: if_splits)
next
  case (logs s clients b m n)
  then show ?case by (elim version_set_ok_numbers) auto
qed

end

lemma foldl_insert: "foldl (\<lambda>live f. insert (g f) live) live fs = live \<union> g ` set fs"
  by (induction fs arbitrary: live) auto

lemma AddLiveFiles_eq:
  "AddLiveFiles s live = live \<union> (\<Union>p \<in> set (vs_list s). (\<lambda>f. fm_number (file_at s f)) ` set (concat (v_files (the (vs_version_heap s p)))))"
proof -
  have "foldl (\<lambda>live p. live \<union> g p) live ps = live \<union> (\<Union>p \<in> set ps. g p)" for g :: "version_ptr \<Rightarrow> u64 set" and ps live
    by (induction ps arbitrary: live) auto
  then show ?thesis unfolding AddLiveFiles_def foldl_insert .
qed

lemma applicable_start:
  assumes "VersionSet_make = Some s"
  shows "l < kNumLevels \<Longrightarrow> infos_at s (v_files (the (vs_version_heap s 0))) l = {}" "vs_current s = Some 0"
  using assms by (auto simp: VersionSet_make_def new_version_def AppendVersion_def Version_Ref_def version_make_def infos_at_def)

text \<open>The first version and an edit that puts one file into level 1.\<close>

definition sample_edit :: version_edit where
  "sample_edit = VersionEdit_make\<lparr>ve_new_files := [(1, sample_file 4 1 3)]\<rparr>"

lemma sample_edit_applicable:
  assumes "VersionSet_make = Some s"
  shows "applicable BytewiseComparator (\<lambda>_. True) sample_edit s"
proof -
  note start = applicable_start [OF assms]
  let ?f = "sample_file 4 1 3"
  have ok: "file_ok BytewiseComparator (\<lambda>_. True) ?f" by (rule sample_file_ok) simp
  then have k: "internal_keys (\<lambda>_. True) (fm_smallest ?f)" "internal_keys (\<lambda>_. True) (fm_largest ?f)"
    "InternalKeyComparator_Compare BytewiseComparator (fm_smallest ?f) (fm_largest ?f) \<le> 0"
    by (auto simp: file_ok_def intro: key_ok_internal)
  have n: "next_infos sample_edit l {} = (if l = 1 then {file_info ?f} else {})" for l
    by (auto simp: next_infos_def news_at_def sample_edit_def)
  have "disjoint_infos BytewiseComparator (\<lambda>_. True) (next_infos sample_edit l {})" for l
    using k unfolding n by (simp add: disjoint_infos_def file_info_def)
  moreover have "edit_fits (\<lambda>_. True) sample_edit"
    using k by (simp add: edit_fits_def sample_edit_def VersionEdit_make_def new_ok_def file_keys_ok_def level_ok_def kNumLevels_def)
  moreover have "nat 1 < kNumLevels" by (simp add: kNumLevels_def)
  ultimately show ?thesis using start by (auto simp: applicable_def sample_edit_def Let_def)
qed

lemma VersionSet_make_returns: "\<exists>s. VersionSet_make = Some s"
  by (simp add: VersionSet_make_def new_version_def AppendVersion_def Version_Ref_def version_make_def)

lemma sample_states:
  "\<exists>s p v. version_states BytewiseComparator (\<lambda>_. True) s {#} None \<and> vs_current s = Some p \<and> vs_version_heap s p = Some v \<and>
    infos_at s (v_files v) 1 = {file_info (sample_file 4 1 3)}"
proof -
  obtain s where s: "VersionSet_make = Some s" using VersionSet_make_returns by blast
  have st: "version_states BytewiseComparator (\<lambda>_. True) s {#} None" by (rule version_states.start [OF s])
  note ok = bytewise.version_states_ok [OF st]
  note app = sample_edit_applicable [OF s]
  have cur: "vs_current s = Some 0" "vs_version_heap s 0 = Some (version_make\<lparr>v_refs := 1\<rparr>)"
    using s by (auto simp: VersionSet_make_def new_version_def AppendVersion_def Version_Ref_def version_make_def)
  obtain p s1 v1 where b: "build_version BytewiseComparator sample_edit s = Some (p, s1)" "version_set_ok BytewiseComparator (\<lambda>_. True) s1 {#} (Some p)"
    "vs_version_heap s1 p = Some v1" "\<forall>l < kNumLevels. infos_at s1 (v_files v1) l = next_infos sample_edit l (infos_at s (replicate kNumLevels []) l)"
    using bytewise.build_ok [OF ok app cur] by (auto simp: version_make_def)
  obtain s2 v2 where i: "AppendVersion p s1 = Some s2" "vs_current s2 = Some p" "vs_version_heap s2 p = Some v2"
    "\<forall>l < kNumLevels. infos_at s2 (v_files v2) l = infos_at s1 (v_files v1) l"
    using bytewise.install_ok [OF b(2,3)] by blast
  have "version_states BytewiseComparator (\<lambda>_. True) s2 {#} None"
    by (rule version_states.install [OF version_states.build [OF st app b(1)] i(1)])
  moreover have "1 < kNumLevels" by (simp add: kNumLevels_def)
  then have "infos_at s2 (v_files v2) 1 = {file_info (sample_file 4 1 3)}"
    using i(4) b(4) by (auto simp: infos_at_def next_infos_def news_at_def sample_edit_def kNumLevels_def)
  ultimately show ?thesis using i(2,3) by blast
qed

subsection \<open>Properties\<close>

text \<open>
  C13: in every reachable state of the version set, whatever the interleaving of references, edits and
  installations, exactly the current version, the versions that clients hold and the version being built
  exist, and exactly the file records that one of them lists: nothing dangles and nothing leaks.
\<close>

theorem versions_own_their_files:
  assumes "comparator_contract u ukeys" "version_states u ukeys s clients b"
  shows "(\<forall>p. vs_version_heap s p \<noteq> None \<longleftrightarrow> vs_current s = Some p \<or> p \<in># clients \<or> b = Some p) \<and>
    (\<forall>f. vs_file_heap s f \<noteq> None \<longleftrightarrow> (\<exists>p v. vs_version_heap s p = Some v \<and> f \<in> set (concat (v_files v))))"
proof -
  have "version_set_ok u ukeys s clients b" by (rule comparator_contract.version_states_ok [OF assms])
  then obtain cur where cur: "vs_current s = Some cur" "vs_inv s (add_mset cur clients) (set_option b) {#}" by (rule version_set_okD)
  then have ok: "versions_ok (vs_version_heap s) (vs_list s) (add_mset cur clients) (set_option b)"
    "refs_ok (vs_file_heap s) (held_files (vs_version_heap s))" by (simp_all add: vs_inv_def)
  have "finite (dom (vs_version_heap s))" using ok(1) by (simp add: versions_ok_def)
  then have held: "f \<in># held_files (vs_version_heap s) \<longleftrightarrow> (\<exists>p v. vs_version_heap s p = Some v \<and> f \<in> set (concat (v_files v)))" for f
    by (force simp: held_files_def set_mset_sum dom_def)
  have "\<forall>p. vs_version_heap s p \<noteq> None \<longleftrightarrow> p \<in># add_mset cur clients \<or> p \<in> set_option b" using ok(1) unfolding versions_ok_def by blast
  moreover have "\<forall>f. vs_file_heap s f \<noteq> None \<longleftrightarrow> f \<in># held_files (vs_version_heap s)" using ok(2) unfolding refs_ok_def by blast
  ultimately show ?thesis unfolding held cur(1) by auto
qed

theorem versions_own_their_files_witness:
  "\<exists>s p. version_states BytewiseComparator (\<lambda>_. True) s {#} None \<and> vs_current s = Some p \<and> (\<exists>f. vs_file_heap s f \<noteq> None) \<and>
    (\<forall>q. vs_version_heap s q \<noteq> None \<longrightarrow> q = p)"
proof -
  obtain s p v where s: "version_states BytewiseComparator (\<lambda>_. True) s {#} None" "vs_current s = Some p" "vs_version_heap s p = Some v"
    "infos_at s (v_files v) 1 = {file_info (sample_file 4 1 3)}" using sample_states by blast
  have len: "length (v_files v) = kNumLevels"
    using bytewise.version_states_ok [OF s(1)] s(3) by (auto simp: version_set_ok_def all_versions_ok_def version_ok_def)
  obtain f where "f \<in> set (v_files v ! 1)" using s(4) unfolding infos_at_def by (metis image_is_empty insert_not_empty equals0I)
  moreover have "v_files v ! 1 \<in> set (v_files v)" using len by (intro nth_mem) (simp add: kNumLevels_def)
  ultimately have "f \<in> set (concat (v_files v))" by auto
  note own = versions_own_their_files [OF bytewise.comparator_contract_axioms s(1)]
  have "vs_file_heap s f \<noteq> None" using own \<open>f \<in> set (concat (v_files v))\<close> s(3) by blast
  moreover have "\<forall>q. vs_version_heap s q \<noteq> None \<longrightarrow> q = p" using own s(2) by auto
  ultimately show ?thesis using s(1,2) by blast
qed

text \<open>
  C14: \<open>AddLiveFiles\<close> collects exactly the numbers of the files that the current version and the versions
  in use by clients list, so that the removal of obsolete files spares every file that a reader can reach.
\<close>

theorem live_files_are_those_in_use:
  assumes "comparator_contract u ukeys" "version_states u ukeys s clients b"
  shows "AddLiveFiles s live = live \<union> {fm_number (file_at s f) | f p v.
    (vs_current s = Some p \<or> p \<in># clients) \<and> vs_version_heap s p = Some v \<and> f \<in> set (concat (v_files v))}"
proof -
  have "version_set_ok u ukeys s clients b" by (rule comparator_contract.version_states_ok [OF assms])
  then obtain cur where cur: "vs_current s = Some cur" "vs_inv s (add_mset cur clients) (set_option b) {#}" by (rule version_set_okD)
  then have ok: "versions_ok (vs_version_heap s) (vs_list s) (add_mset cur clients) (set_option b)" by (simp add: vs_inv_def)
  then have l: "p \<in> set (vs_list s) \<longleftrightarrow> vs_current s = Some p \<or> p \<in># clients" for p using cur(1) by (auto simp: versions_ok_def)
  have the: "vs_version_heap s p = Some (the (vs_version_heap s p))" if "p \<in> set (vs_list s)" for p
    using ok that unfolding versions_ok_def by auto
  have eq: "x \<in> (\<Union>p \<in> set (vs_list s). (\<lambda>f. fm_number (file_at s f)) ` set (concat (v_files (the (vs_version_heap s p))))) \<longleftrightarrow>
      (\<exists>f p v. x = fm_number (file_at s f) \<and> p \<in> set (vs_list s) \<and> vs_version_heap s p = Some v \<and> f \<in> set (concat (v_files v)))"
    (is "x \<in> ?L \<longleftrightarrow> ?R") for x
  proof
    assume "x \<in> ?L"
    then obtain p f where "p \<in> set (vs_list s)" "f \<in> set (concat (v_files (the (vs_version_heap s p))))" "x = fm_number (file_at s f)"
      by blast
    then show ?R using the by blast
  next
    assume ?R
    then obtain f p v where x: "x = fm_number (file_at s f)" "p \<in> set (vs_list s)" "vs_version_heap s p = Some v" "f \<in> set (concat (v_files v))"
      by blast
    have "f \<in> set (concat (v_files (the (vs_version_heap s p))))" using x(3,4) by simp
    then have "x \<in> (\<lambda>f. fm_number (file_at s f)) ` set (concat (v_files (the (vs_version_heap s p))))"
      unfolding x(1) by (rule imageI)
    with x(2) show "x \<in> ?L" by (rule UN_I)
  qed
  show ?thesis unfolding AddLiveFiles_eq l [symmetric]
    by (rule arg_cong [of _ _ "\<lambda>x. live \<union> x"], rule set_eqI, unfold mem_Collect_eq, rule eq)
qed

theorem live_files_are_those_in_use_witness:
  "\<exists>s. version_states BytewiseComparator (\<lambda>_. True) s {#} None \<and> 4 \<in> AddLiveFiles s {}"
proof -
  obtain s p v where s: "version_states BytewiseComparator (\<lambda>_. True) s {#} None" "vs_current s = Some p" "vs_version_heap s p = Some v"
    "infos_at s (v_files v) 1 = {file_info (sample_file 4 1 3)}" using sample_states by blast
  have len: "length (v_files v) = kNumLevels"
    using bytewise.version_states_ok [OF s(1)] s(3) by (auto simp: version_set_ok_def all_versions_ok_def version_ok_def)
  obtain f where f: "f \<in> set (v_files v ! 1)" "file_info (file_at s f) = file_info (sample_file 4 1 3)"
    using s(4) unfolding infos_at_def by blast
  have "v_files v ! 1 \<in> set (v_files v)" using len by (intro nth_mem) (simp add: kNumLevels_def)
  with f(1) have m: "f \<in> set (concat (v_files v))" by auto
  have "fm_number (file_at s f) = 4" using file_info_eqD [OF f(2)] by (simp add: sample_file_def FileMetaData_make_def)
  with m s(2,3) have "4 \<in> {fm_number (file_at s f) | f p v.
    (vs_current s = Some p \<or> p \<in># {#}) \<and> vs_version_heap s p = Some v \<and> f \<in> set (concat (v_files v))}" by (metis (mono_tags, lifting) mem_Collect_eq)
  then have "4 \<in> AddLiveFiles s {}"
    unfolding live_files_are_those_in_use [OF bytewise.comparator_contract_axioms s(1)] by blast
  with s(1) show ?thesis by blast
qed

text \<open>
  C15: in every reachable state the operations meet no dead object and no failing assertion: a version in
  use can be referenced, a reference can be dropped, a built version can be installed or thrown away.
\<close>

theorem version_operations_never_fail:
  assumes "comparator_contract u ukeys" "version_states u ukeys s clients b"
  shows "(\<forall>p. vs_current s = Some p \<or> p \<in># clients \<longrightarrow> Version_Ref p s \<noteq> None) \<and> (\<forall>p \<in># clients. Version_Unref p s \<noteq> None) \<and>
    (\<forall>p. b = Some p \<longrightarrow> AppendVersion p s \<noteq> None \<and> delete_version p s \<noteq> None)"
proof -
  have ok: "version_set_ok u ukeys s clients b" by (rule comparator_contract.version_states_ok [OF assms])
  show ?thesis
  proof (intro conjI allI ballI impI)
    show "Version_Ref p s \<noteq> None" if "vs_current s = Some p \<or> p \<in># clients" for p
      using comparator_contract.take_ok [OF assms(1) ok that] by auto
    show "Version_Unref p s \<noteq> None" if p: "p \<in># clients" for p
    proof -
      obtain rest where "clients = add_mset p rest" using multi_member_split [OF p] by blast
      with ok show ?thesis using comparator_contract.drop_ok [OF assms(1), of s p rest b] by auto
    qed
    show "AppendVersion p s \<noteq> None" if "b = Some p" for p
    proof -
      have "version_set_ok u ukeys s clients (Some p)" using ok that by simp
      then obtain cur where "vs_inv s (add_mset cur clients) (insert p {}) {#}" by (rule version_set_okD) simp
      with building_version(1) [of s _ p "{}"] obtain v where "vs_version_heap s p = Some v" by blast
      with that ok show ?thesis using comparator_contract.install_ok [OF assms(1), of s clients p v] by auto
    qed
    show "delete_version p s \<noteq> None" if "b = Some p" for p
      using comparator_contract.discard_ok [OF assms(1), of s clients p] ok that by auto
  qed
qed

theorem version_operations_never_fail_witness:
  "\<exists>s p s' q. version_states BytewiseComparator (\<lambda>_. True) s {#p#} (Some q) \<and> Version_Unref p s \<noteq> None \<and> AppendVersion q s = Some s'"
proof -
  obtain s where s: "VersionSet_make = Some s" using VersionSet_make_returns by blast
  have st: "version_states BytewiseComparator (\<lambda>_. True) s {#} None" by (rule version_states.start [OF s])
  have cur: "vs_current s = Some 0" "vs_version_heap s 0 = Some (version_make\<lparr>v_refs := 1\<rparr>)"
    using s by (auto simp: VersionSet_make_def new_version_def AppendVersion_def Version_Ref_def version_make_def)
  obtain q s1 where b: "build_version BytewiseComparator sample_edit s = Some (q, s1)" "vs_current s1 = Some 0"
    using bytewise.build_ok [OF bytewise.version_states_ok [OF st] sample_edit_applicable [OF s] cur] by blast
  have st1: "version_states BytewiseComparator (\<lambda>_. True) s1 {#} (Some q)" by (rule version_states.build [OF st sample_edit_applicable [OF s] b(1)])
  then obtain s2 where "Version_Ref 0 s1 = Some s2"
    using bytewise.take_ok [OF bytewise.version_states_ok [OF st1], of 0] b(2) by auto
  with st1 b(2) have "version_states BytewiseComparator (\<lambda>_. True) s2 {#0#} (Some q)" by (intro version_states.take) simp_all
  from version_operations_never_fail [OF bytewise.comparator_contract_axioms this] this show ?thesis by fastforce
qed

text \<open>
  C8: the version that is built from an edit and installed holds at every level exactly the files of the
  current version that the edit does not delete, with the files it adds, in the order of their smallest
  keys and, above level 0, one after the other without overlaps.
\<close>

theorem edit_installs_next_version:
  assumes "comparator_contract u ukeys" "version_states u ukeys s clients None" "applicable u ukeys edit s"
    and "vs_current s = Some cur" "vs_version_heap s cur = Some v"
  shows "\<exists>p s1 s2 v2. build_version u edit s = Some (p, s1) \<and> AppendVersion p s1 = Some s2 \<and>
    vs_current s2 = Some p \<and> vs_version_heap s2 p = Some v2 \<and>
    (\<forall>l < kNumLevels. infos_at s2 (v_files v2) l = next_infos edit l (infos_at s (v_files v) l) \<and>
       sorted_wrt (\<lambda>x y. BySmallestKey u (file_at s2 x) (file_at s2 y)) (v_files v2 ! l) \<and>
       (0 < l \<longrightarrow> no_overlap u (map (file_at s2) (v_files v2 ! l))))"
proof -
  note ok = comparator_contract.version_states_ok [OF assms(1,2)]
  obtain p s1 v1 where b: "build_version u edit s = Some (p, s1)" "version_set_ok u ukeys s1 clients (Some p)" "vs_version_heap s1 p = Some v1"
    "\<forall>l < kNumLevels. infos_at s1 (v_files v1) l = next_infos edit l (infos_at s (v_files v) l)"
    using comparator_contract.build_ok [OF assms(1) ok assms(3-5)] by blast
  obtain s2 v2 where i: "AppendVersion p s1 = Some s2" "version_set_ok u ukeys s2 clients None" "vs_current s2 = Some p" "vs_version_heap s2 p = Some v2"
    "\<forall>l < kNumLevels. infos_at s2 (v_files v2) l = infos_at s1 (v_files v1) l"
    using comparator_contract.install_ok [OF assms(1) b(2,3)] by blast
  have v2: "version_ok u ukeys s2 (v_files v2)" using i(2,4) by (simp add: version_set_ok_def all_versions_ok_def)
  have srt: "sorted_wrt (\<lambda>x y. BySmallestKey u (file_at s2 x) (file_at s2 y)) (v_files v2 ! l)" if "l < kNumLevels" for l
    using v2 that by (simp add: version_ok_def)
  have "no_overlap u (map (file_at s2) (v_files v2 ! l))" if l: "l < kNumLevels" "0 < l" for l
  proof -
    have "disjoint_infos u ukeys (infos_at s2 (v_files v2) l)"
      using assms(3-5) i(5) b(4) l by (simp add: applicable_def Let_def)
    then show ?thesis
      using comparator_contract.sorted_disjoint_chained [OF assms(1), of "vs_file_heap s2" "v_files v2 ! l"] srt [OF l(1)]
      unfolding no_overlap_chained before_file_at infos_at_def file_at_def by blast
  qed
  then show ?thesis using b(1,4) i(1,3-5) srt by auto
qed

theorem edit_installs_next_version_witness:
  "\<exists>s p s1 s2 v2. VersionSet_make = Some s \<and> build_version BytewiseComparator sample_edit s = Some (p, s1) \<and> AppendVersion p s1 = Some s2 \<and>
    vs_version_heap s2 p = Some v2 \<and> infos_at s2 (v_files v2) 1 = {file_info (sample_file 4 1 3)}"
proof -
  obtain s where s: "VersionSet_make = Some s" using VersionSet_make_returns by blast
  have cur: "vs_current s = Some 0" "vs_version_heap s 0 = Some (version_make\<lparr>v_refs := 1\<rparr>)"
    using s by (auto simp: VersionSet_make_def new_version_def AppendVersion_def Version_Ref_def version_make_def)
  have l: "1 < kNumLevels" by (simp add: kNumLevels_def)
  have "next_infos sample_edit 1 (infos_at s (v_files (version_make\<lparr>v_refs := 1\<rparr>)) 1) = {file_info (sample_file 4 1 3)}"
    by (auto simp: infos_at_def next_infos_def news_at_def sample_edit_def kNumLevels_def version_make_def)
  with edit_installs_next_version [OF bytewise.comparator_contract_axioms version_states.start [OF s] sample_edit_applicable [OF s] cur] s l
  show ?thesis by metis
qed

end
