(* ===== verification/Env_Files.thy ===== *)
theory Env_Files
  imports Env_Posix Filename
begin

text \<open>
  The file operations of the abstract class \<open>Env\<close> of \<^verbatim>\<open>include/leveldb/env.h\<close>, the functions of
  \<^verbatim>\<open>util/env.cc\<close> that work over them, and \<open>SetCurrentFile\<close> of \<^verbatim>\<open>db/filename.cc\<close>.  \<open>'e\<close> is the state
  of the environment, \<open>'w\<close> and \<open>'s\<close> are the file objects it hands out; a file operation works on the
  pair of the object and the environment.
\<close>

record ('e, 'w, 's) env =
  env_NewSequentialFile :: "bytes \<Rightarrow> 'e \<Rightarrow> status \<times> 's option \<times> 'e"
  env_NewWritableFile :: "bytes \<Rightarrow> 'e \<Rightarrow> status \<times> 'w option \<times> 'e"
  env_NewAppendableFile :: "bytes \<Rightarrow> 'e \<Rightarrow> status \<times> 'w option \<times> 'e"
  env_DeleteFile :: "bytes \<Rightarrow> 'e \<Rightarrow> status \<times> 'e"
  env_GetFileSize :: "bytes \<Rightarrow> 'e \<Rightarrow> status \<times> u64 \<times> 'e"
  env_RenameFile :: "bytes \<Rightarrow> bytes \<Rightarrow> 'e \<Rightarrow> status \<times> 'e"
  env_SequentialFile :: "('s \<times> 'e) sequential_file"
  env_WritableFile :: "('w \<times> 'e) writable_file"
  env_delete_sequential :: "'s \<Rightarrow> 'e \<Rightarrow> 'e"
  env_delete_writable :: "'w \<Rightarrow> 'e \<Rightarrow> 'e"

subsection \<open>Whole files\<close>

definition DoWriteStringToFile :: "('e, 'w, 's) env \<Rightarrow> bytes \<Rightarrow> bytes \<Rightarrow> bool \<Rightarrow> 'e \<Rightarrow> (status \<times> 'e) option" where
  "DoWriteStringToFile E data fname should_sync e =
     (case env_NewWritableFile E fname e of
        (s, None, e) \<Rightarrow> if Status_ok s then None else Some (s, e)
      | (s, Some w, e) \<Rightarrow>
          if \<not> Status_ok s then Some (s, e)
          else do {
            (s, w, e) \<leftarrow> wf_Append (env_WritableFile E) (w, e) data;
            (s, w, e) \<leftarrow> (if Status_ok s \<and> should_sync then wf_Sync (env_WritableFile E) (w, e) else Some (s, w, e));
            (s, w, e) \<leftarrow> (if Status_ok s then wf_Close (env_WritableFile E) (w, e) else Some (s, w, e));
            let e = env_delete_writable E w e;
            if \<not> Status_ok s then let (_, e) = env_DeleteFile E fname e in Some (s, e) else Some (s, e) })"

definition WriteStringToFile :: "('e, 'w, 's) env \<Rightarrow> bytes \<Rightarrow> bytes \<Rightarrow> 'e \<Rightarrow> (status \<times> 'e) option" where
  "WriteStringToFile E data fname = DoWriteStringToFile E data fname False"

definition WriteStringToFileSync :: "('e, 'w, 's) env \<Rightarrow> bytes \<Rightarrow> bytes \<Rightarrow> 'e \<Rightarrow> (status \<times> 'e) option" where
  "WriteStringToFileSync E data fname = DoWriteStringToFile E data fname True"

text \<open>The loop ends at the first empty read; a file that never ends is \<open>None\<close>.\<close>

partial_function (option) read_loop ::
    "('s \<times> 'e) sequential_file \<Rightarrow> 's \<times> 'e \<Rightarrow> bytes \<Rightarrow> (status \<times> bytes \<times> 's \<times> 'e) option" where
  "read_loop S f data = do {
     (s, fragment, f) \<leftarrow> sf_Read S f 8192;
     if \<not> Status_ok s then Some (s, data, f)
     else (case fragment of
             None \<Rightarrow> None
           | Some fragment \<Rightarrow> if fragment = [] then Some (s, data, f) else read_loop S f (data @ fragment)) }"

definition ReadFileToString :: "('e, 'w, 's) env \<Rightarrow> bytes \<Rightarrow> 'e \<Rightarrow> (status \<times> bytes \<times> 'e) option" where
  "ReadFileToString E fname e =
     (case env_NewSequentialFile E fname e of
        (s, None, e) \<Rightarrow> if Status_ok s then None else Some (s, [], e)
      | (s, Some f, e) \<Rightarrow>
          if \<not> Status_ok s then Some (s, [], e)
          else do {
            (s, data, f, e) \<leftarrow> read_loop (env_SequentialFile E) (f, e) [];
            Some (s, data, env_delete_sequential E f e) })"

text \<open>The assertion that the name starts with the directory holds by construction of the name.\<close>

definition SetCurrentFile :: "('e, 'w, 's) env \<Rightarrow> bytes \<Rightarrow> u64 \<Rightarrow> 'e \<Rightarrow> (status \<times> 'e) option" where
  "SetCurrentFile E dbname descriptor_number e =
     (let manifest = DescriptorFileName dbname descriptor_number
      in if \<not> Slice_starts_with manifest (dbname @ lit ''/'') then None
         else let contents = Slice_remove_prefix manifest (length dbname + 1);
                  tmp = TempFileName dbname descriptor_number
              in do {
                (s, e) \<leftarrow> WriteStringToFileSync E (contents @ [0x0a]) tmp e;
                let (s, e) = (if Status_ok s then env_RenameFile E tmp (CurrentFileName dbname) e else (s, e));
                if \<not> Status_ok s then let (_, e) = env_DeleteFile E tmp e in Some (s, e) else Some (s, e) })"

subsection \<open>What the environment documents\<close>

text \<open>
  \<open>contents\<close> are the bytes that the files of the environment hold by name, as a reader sees them, and
  \<open>written\<close> are the bytes appended to an open file.  A call touches the files it is about and no
  other; a rename replaces its target or leaves it alone; the first bytes appended after a flush fit
  into the buffer of the file.
\<close>

definition untouched :: "('e \<Rightarrow> bytes \<Rightarrow> bytes option) \<Rightarrow> ('w \<Rightarrow> bytes) \<Rightarrow> ('w \<times> 'e \<Rightarrow> bool) \<Rightarrow> ('w \<times> 'e \<Rightarrow> bytes) \<Rightarrow>
    'e \<Rightarrow> 'e \<Rightarrow> bytes set \<Rightarrow> bool" where
  "untouched contents file_name valid written e e' names \<longleftrightarrow> (\<forall>n. n \<notin> names \<longrightarrow> contents e' n = contents e n) \<and>
     (\<forall>w. file_name w \<notin> names \<longrightarrow> valid (w, e) \<longrightarrow> valid (w, e') \<and> written (w, e') = written (w, e))"

lemma untouched_refl [simp]: "untouched contents file_name valid written e e names"
  by (simp add: untouched_def)

lemma untouched_trans: "untouched contents file_name valid written e e' names \<Longrightarrow> untouched contents file_name valid written e' e'' names \<Longrightarrow>
    untouched contents file_name valid written e e'' names"
  by (simp add: untouched_def)

lemma untouched_mono: "untouched contents file_name valid written e e' A \<Longrightarrow> A \<subseteq> B \<Longrightarrow> untouched contents file_name valid written e e' B"
  by (auto simp: untouched_def)

locale env_contract =
  fixes E :: "('e, 'w, 's) env" and contents :: "'e \<Rightarrow> bytes \<Rightarrow> bytes option"
    and file_name :: "'w \<Rightarrow> bytes" and valid :: "'w \<times> 'e \<Rightarrow> bool" and written :: "'w \<times> 'e \<Rightarrow> bytes"
    and unread :: "'s \<times> 'e \<Rightarrow> bytes" and sound :: "'e \<Rightarrow> bool"
  assumes new_writable: "env_NewWritableFile E n e = (s, wo, e') \<Longrightarrow> untouched contents file_name valid written e e' {n} \<and>
      (if Status_ok s then \<exists>w. wo = Some w \<and> file_name w = n \<and> valid (w, e') \<and> written (w, e') = [] \<and> contents e' n = Some []
       else wo = None)"
    and append: "valid (w, e) \<Longrightarrow> \<exists>s w' e'. wf_Append (env_WritableFile E) (w, e) data = Some (s, w', e') \<and> valid (w', e') \<and>
      file_name w' = file_name w \<and> untouched contents file_name valid written e e' {file_name w} \<and>
      (Status_ok s \<longrightarrow> written (w', e') = written (w, e) @ data) \<and>
      (contents e (file_name w) = Some (written (w, e)) \<longrightarrow> length data < 64 \<longrightarrow> Status_ok s) \<and>
      (\<exists>c. contents e' (file_name w) = Some c \<and> prefix c (written (w, e) @ data))"
    and flush: "valid (w, e) \<Longrightarrow> \<exists>s w' e'. wf_Flush (env_WritableFile E) (w, e) = Some (s, w', e') \<and> valid (w', e') \<and>
      file_name w' = file_name w \<and> untouched contents file_name valid written e e' {file_name w} \<and>
      (Status_ok s \<longrightarrow> written (w', e') = written (w, e) \<and> contents e' (file_name w) = Some (written (w, e))) \<and>
      (\<exists>c. contents e' (file_name w) = Some c \<and> prefix c (written (w, e)))"
    and sync: "valid (w, e) \<Longrightarrow> \<exists>s w' e'. wf_Sync (env_WritableFile E) (w, e) = Some (s, w', e') \<and> valid (w', e') \<and>
      file_name w' = file_name w \<and> untouched contents file_name valid written e e' {file_name w} \<and>
      (Status_ok s \<longrightarrow> written (w', e') = written (w, e) \<and> contents e' (file_name w) = Some (written (w, e)))"
    and close: "valid (w, e) \<Longrightarrow> \<exists>s w' e'. wf_Close (env_WritableFile E) (w, e) = Some (s, w', e') \<and>
      file_name w' = file_name w \<and> untouched contents file_name valid written e e' {file_name w} \<and>
      (Status_ok s \<longrightarrow> contents e' (file_name w) = Some (written (w, e)) \<and> contents (env_delete_writable E w' e') = contents e')"
    and valid_prefix: "valid (w, e) \<Longrightarrow> \<exists>c. contents e (file_name w) = Some c \<and> prefix c (written (w, e))"
    and delete_writable: "untouched contents file_name valid written e (env_delete_writable E w e) {file_name w}"
    and delete_file: "env_DeleteFile E n e = (s, e') \<Longrightarrow> untouched contents file_name valid written e e' {n}"
    and rename: "env_RenameFile E src target e = (s, e') \<Longrightarrow> untouched contents file_name valid written e e' {src, target} \<and>
      contents e' target = (if Status_ok s then contents e src else contents e target)"
    and new_sequential: "sound e \<Longrightarrow> contents e n = Some c \<Longrightarrow> \<exists>s f e'. env_NewSequentialFile E n e = (s, Some f, e') \<and> Status_ok s \<and>
      unread (f, e') = c \<and> sound e' \<and> contents e' = contents e"
    and delete_sequential: "sound e \<Longrightarrow> sound (env_delete_sequential E f e) \<and> contents (env_delete_sequential E f e) = contents e"
    and sequential: "sequential_file_contract (env_SequentialFile E) unread (\<lambda>f. sound (snd f))"
    and read_keeps: "sf_Read (env_SequentialFile E) (f, e) m = Some (s, r, f', e') \<Longrightarrow> contents e' = contents e"
begin

abbreviation kept :: "'e \<Rightarrow> 'e \<Rightarrow> bytes set \<Rightarrow> bool" where
  "kept \<equiv> untouched contents file_name valid written"

lemma DoWriteStringToFile_returns:
  "\<exists>s e'. DoWriteStringToFile E data n sync e = Some (s, e') \<and> kept e e' {n} \<and> (Status_ok s \<longrightarrow> contents e' n = Some data)"
proof -
  obtain s wo e1 where new: "env_NewWritableFile E n e = (s, wo, e1)" by (cases "env_NewWritableFile E n e") auto
  note n = new_writable [OF new]
  show ?thesis
  proof (cases "Status_ok s")
    case False
    then show ?thesis using n new by (auto simp: DoWriteStringToFile_def)
  next
    case True
    then obtain w where w: "wo = Some w" "file_name w = n" "valid (w, e1)" "written (w, e1) = []" "kept e e1 {n}" using n by auto
    obtain s2 w2 e2 where a: "wf_Append (env_WritableFile E) (w, e1) data = Some (s2, w2, e2)" "valid (w2, e2)" "file_name w2 = n"
      "kept e1 e2 {n}" "Status_ok s2 \<longrightarrow> written (w2, e2) = data"
      using append [OF w(3), of data] w(2,4) by auto
    obtain s3 w3 e3 where b: "(if Status_ok s2 \<and> sync then wf_Sync (env_WritableFile E) (w2, e2) else Some (s2, w2, e2)) = Some (s3, w3, e3)"
      "valid (w3, e3)" "file_name w3 = n" "kept e2 e3 {n}" "Status_ok s3 \<longrightarrow> written (w3, e3) = data"
    proof (cases "Status_ok s2 \<and> sync")
      case True
      then show ?thesis using sync [OF a(2)] a(3,5) that by auto
    next
      case False
      then show ?thesis using a that [of s2 w2 e2] by auto
    qed
    obtain s4 w4 e4 where c: "(if Status_ok s3 then wf_Close (env_WritableFile E) (w3, e3) else Some (s3, w3, e3)) = Some (s4, w4, e4)"
      "file_name w4 = n" "kept e3 e4 {n}" "Status_ok s4 \<longrightarrow> contents e4 n = Some data \<and> contents (env_delete_writable E w4 e4) = contents e4"
    proof (cases "Status_ok s3")
      case True
      then show ?thesis using close [OF b(2)] b(3,5) that by auto
    next
      case False
      then show ?thesis using b that [of s3 w3 e3] by auto
    qed
    let ?e5 = "env_delete_writable E w4 e4"
    obtain sd ed where d: "env_DeleteFile E n ?e5 = (sd, ed)" by fastforce
    have "kept e4 ?e5 {n}" using delete_writable [of e4 w4] c(2) by simp
    then have "kept e ?e5 {n}" using w(5) a(4) b(4) c(3) untouched_trans by metis
    moreover from this have "kept e ed {n}" using delete_file [OF d] untouched_trans by metis
    moreover have "DoWriteStringToFile E data n sync e = Some (s4, if Status_ok s4 then ?e5 else ed)"
      using new True w(1) a(1) b(1) c(1) d by (simp add: DoWriteStringToFile_def Let_def)
    ultimately show ?thesis using c(4) by auto
  qed
qed

lemma read_loop_returns:
  assumes "sound e"
  shows "\<exists>s f' e'. read_loop (env_SequentialFile E) (f, e) data = Some (s, data @ unread (f, e), f', e') \<and> Status_ok s \<and>
    sound e' \<and> contents e' = contents e"
  using assms
proof (induction "length (unread (f, e))" arbitrary: f e data rule: less_induct)
  case less
  obtain s f1 e1 where r: "sf_Read (env_SequentialFile E) (f, e) 8192 = Some (s, Some (take 8192 (unread (f, e))), f1, e1)"
    "Status_ok s" "sound e1" "unread (f1, e1) = drop 8192 (unread (f, e))"
    using sequential_file_contract.sound_read [OF sequential, of "(f, e)" 8192] less.prems by auto
  show ?case
  proof (cases "unread (f, e) = []")
    case True
    then show ?thesis using r read_keeps [OF r(1)] by (subst read_loop.simps) simp
  next
    case False
    then have "length (unread (f1, e1)) < length (unread (f, e))" using r(4) by simp
    from less.hyps [OF this r(3), of "data @ take 8192 (unread (f, e))"] obtain s' f' e' where
      "read_loop (env_SequentialFile E) (f1, e1) (data @ take 8192 (unread (f, e))) = Some (s', data @ unread (f, e), f', e')"
      "Status_ok s'" "sound e'" "contents e' = contents e1"
      using r(4) by auto
    then show ?thesis using r False read_keeps [OF r(1)] by (subst read_loop.simps) auto
  qed
qed

lemma ReadFileToString_returns:
  assumes "sound e" "contents e n = Some c"
  shows "\<exists>s e'. ReadFileToString E n e = Some (s, c, e') \<and> Status_ok s \<and> sound e' \<and> contents e' = contents e"
proof -
  obtain s f e1 where n: "env_NewSequentialFile E n e = (s, Some f, e1)" "Status_ok s" "unread (f, e1) = c" "sound e1" "contents e1 = contents e"
    using new_sequential [OF assms] by blast
  obtain s2 f2 e2 where "read_loop (env_SequentialFile E) (f, e1) [] = Some (s2, c, f2, e2)" "Status_ok s2" "sound e2" "contents e2 = contents e1"
    using read_loop_returns [OF n(4), of f "[]"] n(3) by auto
  then show ?thesis using n delete_sequential [of e2 f2] by (auto simp: ReadFileToString_def)
qed

end

text \<open>The names that installing a manifest touches.\<close>

lemma names_differ:
  "TempFileName dbname n \<noteq> CurrentFileName dbname" "TempFileName dbname n \<noteq> DescriptorFileName dbname m"
  "CurrentFileName dbname \<noteq> DescriptorFileName dbname m"
proof -
  obtain d ds where d: "decimal_06 (unat n) = digit_byte d # ds" "d < 10" by (rule decimal_06_hd)
  have t: "base_name dbname (TempFileName dbname n) = digit_byte d # ds @ lit ''.dbtmp''"
    by (simp add: TempFileName_def MakeFileName_base d)
  have c: "base_name dbname (CurrentFileName dbname) = lit ''CURRENT''" by (simp add: CurrentFileName_def base_name_def)
  show "TempFileName dbname n \<noteq> CurrentFileName dbname" using arg_cong [of _ _ "base_name dbname"] t c letter_not_digit [of "CHR ''C''" d] d(2) by force
  show "TempFileName dbname n \<noteq> DescriptorFileName dbname m"
    using arg_cong [of _ _ "base_name dbname"] t DescriptorFileName_base [of dbname m] letter_not_digit [of "CHR ''M''" d] d(2) by force
  show "CurrentFileName dbname \<noteq> DescriptorFileName dbname m"
  proof
    assume "CurrentFileName dbname = DescriptorFileName dbname m"
    then have "lit ''CURRENT'' = lit ''MANIFEST-'' @ decimal_06 (unat m)" using c DescriptorFileName_base [of dbname m] by simp
    then show False by simp
  qed
qed

context env_contract
begin

lemma SetCurrentFile_returns:
  "\<exists>s e'. SetCurrentFile E dbname number e = Some (s, e') \<and> kept e e' {TempFileName dbname number, CurrentFileName dbname} \<and>
     contents e' (CurrentFileName dbname) =
       (if Status_ok s then Some (base_name dbname (DescriptorFileName dbname number) @ [0x0a]) else contents e (CurrentFileName dbname))"
proof -
  let ?manifest = "DescriptorFileName dbname number" and ?tmp = "TempFileName dbname number" and ?cur = "CurrentFileName dbname"
  have tc: "?tmp \<noteq> ?cur" by (rule names_differ)
  have start: "Slice_starts_with ?manifest (dbname @ lit ''/'')"
    using length_decimal_06 [of number] by (simp add: Slice_starts_with_iff DescriptorFileName_def)
  let ?data = "base_name dbname ?manifest @ [0x0a]"
  have data: "Slice_remove_prefix ?manifest (length dbname + 1) @ [0x0a] = ?data"
    by (simp add: base_name_def Slice_remove_prefix_def)
  obtain s1 e1 where w: "WriteStringToFileSync E ?data ?tmp e = Some (s1, e1)" "kept e e1 {?tmp}" "Status_ok s1 \<longrightarrow> contents e1 ?tmp = Some ?data"
    using DoWriteStringToFile_returns [of ?data ?tmp True e] by (auto simp: WriteStringToFileSync_def)
  obtain s2 e2 where r: "(if Status_ok s1 then env_RenameFile E ?tmp ?cur e1 else (s1, e1)) = (s2, e2)" by fastforce
  have r2: "kept e1 e2 {?tmp, ?cur}" "contents e2 ?cur = (if Status_ok s2 then Some ?data else contents e1 ?cur)"
  proof -
    have "kept e1 e2 {?tmp, ?cur} \<and> contents e2 ?cur = (if Status_ok s2 then Some ?data else contents e1 ?cur)"
    proof (cases "Status_ok s1")
      case True
      with r have "env_RenameFile E ?tmp ?cur e1 = (s2, e2)" by simp
      from rename [OF this] w(3) True show ?thesis by auto
    next
      case False
      with r show ?thesis by auto
    qed
    then show "kept e1 e2 {?tmp, ?cur}" "contents e2 ?cur = (if Status_ok s2 then Some ?data else contents e1 ?cur)" by simp_all
  qed
  obtain s3 e3 where d: "env_DeleteFile E ?tmp e2 = (s3, e3)" by fastforce
  note d' = delete_file [OF d]
  have k: "kept e e2 {?tmp, ?cur}" using untouched_trans [OF untouched_mono [OF w(2)] r2(1)] by simp
  have k3: "kept e e3 {?tmp, ?cur}" using untouched_trans [OF k untouched_mono [OF d']] by simp
  have c: "contents e1 ?cur = contents e ?cur" "contents e3 ?cur = contents e2 ?cur"
    using w(2) d' tc by (auto simp: untouched_def)
  have "SetCurrentFile E dbname number e = Some (s2, if Status_ok s2 then e2 else e3)"
    using start data w(1) r d by (simp add: SetCurrentFile_def Let_def split: prod.splits)
  then show ?thesis using k k3 r2(2) c by auto
qed

end

subsection \<open>An environment in memory\<close>

text \<open>
  Files by name, with a script of the outcomes of the calls that reach the disk; when it is used up they
  succeed.  Appends are buffered in the file object.
\<close>

record mem_files =
  mf_files :: "bytes \<Rightarrow> bytes option"
  mf_faults :: "bool list"

record mem_writable =
  mw_name :: bytes
  mw_buf :: bytes

definition mem_try :: "mem_files \<Rightarrow> bool \<times> mem_files" where
  "mem_try e = (case mf_faults e of [] \<Rightarrow> (True, e) | b # bs \<Rightarrow> (\<not> b, e\<lparr>mf_faults := bs\<rparr>))"

definition mem_error :: status where
  "mem_error = Status_IOError (lit ''disk'') []"

definition mem_open :: "bytes \<Rightarrow> mem_files \<Rightarrow> status \<times> mem_writable option \<times> mem_files" where
  "mem_open n e = (let (ok, e) = mem_try e in
     if ok then (Status_OK, Some \<lparr>mw_name = n, mw_buf = []\<rparr>, e\<lparr>mf_files := (mf_files e)(n \<mapsto> [])\<rparr>) else (mem_error, None, e))"

definition mem_open_append :: "bytes \<Rightarrow> mem_files \<Rightarrow> status \<times> mem_writable option \<times> mem_files" where
  "mem_open_append n e = (let (ok, e) = mem_try e in
     if ok then (Status_OK, Some \<lparr>mw_name = n, mw_buf = []\<rparr>,
       e\<lparr>mf_files := (mf_files e)(n \<mapsto> (case mf_files e n of None \<Rightarrow> [] | Some c \<Rightarrow> c))\<rparr>) else (mem_error, None, e))"

definition mem_flush :: "mem_writable \<times> mem_files \<Rightarrow> (status \<times> mem_writable \<times> mem_files) option" where
  "mem_flush f = (let (w, e) = f; (ok, e) = mem_try e in
     Some (if ok then Status_OK else mem_error, w\<lparr>mw_buf := []\<rparr>,
       if ok then e\<lparr>mf_files := (mf_files e)(mw_name w := map_option (\<lambda>c. c @ mw_buf w) (mf_files e (mw_name w)))\<rparr> else e))"

definition mem_env :: "(mem_files, mem_writable, bytes) env" where
  "mem_env = \<lparr>
     env_NewSequentialFile = (\<lambda>n e. let (ok, e) = mem_try e in
       (case mf_files e n of Some c \<Rightarrow> if ok then (Status_OK, Some c, e) else (mem_error, None, e) | None \<Rightarrow> (Status_NotFound n [], None, e))),
     env_NewWritableFile = mem_open, env_NewAppendableFile = mem_open_append,
     env_DeleteFile = (\<lambda>n e. let (ok, e) = mem_try e in
       if ok then (Status_OK, e\<lparr>mf_files := (mf_files e)(n := None)\<rparr>) else (mem_error, e)),
     env_GetFileSize = (\<lambda>n e. case mf_files e n of Some c \<Rightarrow> (Status_OK, word_of_nat (length c), e) | None \<Rightarrow> (Status_NotFound n [], 0, e)),
     env_RenameFile = (\<lambda>src target e. let (ok, e) = mem_try e in
       if ok then (Status_OK, e\<lparr>mf_files := (mf_files e)(src := None, target := mf_files e src)\<rparr>) else (mem_error, e)),
     env_SequentialFile = \<lparr>
       sf_Read = (\<lambda>(c, e) n. Some (Status_OK, Some (take n c), drop n c, e)), sf_Skip = (\<lambda>(c, e) n. Some (Status_OK, drop (unat n) c, e))\<rparr>,
     env_WritableFile = \<lparr>
       wf_Append = (\<lambda>(w, e) data. Some (Status_OK, w\<lparr>mw_buf := mw_buf w @ data\<rparr>, e)),
       wf_Flush = mem_flush, wf_Sync = mem_flush, wf_Close = mem_flush\<rparr>,
     env_delete_sequential = (\<lambda>_ e. e), env_delete_writable = (\<lambda>_ e. e)\<rparr>"

lemma mem_try_files [simp]: "mem_try e = (ok, e') \<Longrightarrow> mf_files e' = mf_files e"
  by (auto simp: mem_try_def split: list.splits)

lemma mem_error_not_ok [simp]: "\<not> Status_ok mem_error"
  by (simp add: mem_error_def Status_IOError_def)

definition mem_valid :: "mem_writable \<times> mem_files \<Rightarrow> bool" where
  "mem_valid f = (mf_files (snd f) (mw_name (fst f)) \<noteq> None)"

definition mem_written :: "mem_writable \<times> mem_files \<Rightarrow> bytes" where
  "mem_written f = the (mf_files (snd f) (mw_name (fst f))) @ mw_buf (fst f)"

definition mem_sound :: "mem_files \<Rightarrow> bool" where
  "mem_sound e = (True \<notin> set (mf_faults e))"

lemma mem_try_sound: "mem_sound e \<Longrightarrow> mem_try e = (ok, e') \<Longrightarrow> ok \<and> mem_sound e'"
  by (cases "mf_faults e") (auto simp: mem_try_def mem_sound_def)

lemma mem_untouched: "untouched mf_files mw_name mem_valid mem_written e e' names \<longleftrightarrow> (\<forall>n. n \<notin> names \<longrightarrow> mf_files e' n = mf_files e n)"
  by (auto simp: untouched_def mem_valid_def mem_written_def)

lemma mem_flush_returns:
  assumes "mem_valid (w, e)"
  shows "\<exists>s w' e'. mem_flush (w, e) = Some (s, w', e') \<and> mem_valid (w', e') \<and> mw_name w' = mw_name w \<and>
    untouched mf_files mw_name mem_valid mem_written e e' {mw_name w} \<and>
    (Status_ok s \<longrightarrow> mem_written (w', e') = mem_written (w, e) \<and> mf_files e' (mw_name w) = Some (mem_written (w, e))) \<and>
    (\<exists>c. mf_files e' (mw_name w) = Some c \<and> prefix c (mem_written (w, e)))"
proof -
  obtain c where c: "mf_files e (mw_name w) = Some c" using assms by (auto simp: mem_valid_def)
  obtain ok e1 where t: "mem_try e = (ok, e1)" by fastforce
  then have "mf_files e1 = mf_files e" by simp
  with c t show ?thesis by (cases ok) (simp_all add: mem_flush_def mem_untouched mem_valid_def mem_written_def)
qed

lemma mem_sequential: "sequential_file_contract (env_SequentialFile mem_env) fst (\<lambda>f. mem_sound (snd f))"
  by unfold_locales (auto simp: mem_env_def)

interpretation mem_files: env_contract mem_env mf_files mw_name mem_valid mem_written fst mem_sound
proof (unfold_locales, goal_cases)
  case (1 n e s wo e')
  then show ?case by (auto simp: mem_env_def mem_open_def Let_def mem_untouched mem_valid_def mem_written_def split: prod.splits if_splits)
next
  case (2 w e data)
  then show ?case by (auto simp: mem_env_def mem_valid_def mem_written_def)
next
  case (3 w e)
  then show ?case using mem_flush_returns [of w e] by (auto simp: mem_env_def)
next
  case (4 w e)
  then show ?case using mem_flush_returns [of w e] by (auto simp: mem_env_def)
next
  case (5 w e)
  then show ?case using mem_flush_returns [of w e] by (auto simp: mem_env_def)
next
  case (6 w e)
  then show ?case by (auto simp: mem_valid_def mem_written_def)
next
  case (7 e w)
  then show ?case by (simp add: mem_env_def)
next
  case (8 n e s e')
  then show ?case by (auto simp: mem_env_def mem_untouched Let_def split: prod.splits if_splits)
next
  case (9 src target e s e')
  then show ?case by (auto simp: mem_env_def mem_untouched Let_def split: prod.splits if_splits)
next
  case (10 e n c)
  then show ?case using mem_try_sound [of e] by (auto simp: mem_env_def Let_def split: prod.splits option.splits)
next
  case (11 e f)
  then show ?case by (simp add: mem_env_def)
qed (auto simp: mem_env_def mem_sound_def)

subsection \<open>Properties\<close>

text \<open>
  C29: installing a new manifest is atomic and always returns: \<open>CURRENT\<close> afterwards names the new
  manifest, ending with a newline, when the status is OK, and is untouched otherwise; apart from it and the temporary
  file every file keeps its contents, whichever of the calls below fails.
\<close>

theorem SetCurrentFile_atomic:
  assumes "env_contract E contents file_name valid written unread sound"
  shows "\<exists>s e'. SetCurrentFile E dbname number e = Some (s, e') \<and>
    contents e' (CurrentFileName dbname) =
      (if Status_ok s then Some (lit ''MANIFEST-'' @ decimal_06 (unat number) @ [0x0a]) else contents e (CurrentFileName dbname)) \<and>
    (\<forall>n. n \<noteq> CurrentFileName dbname \<and> n \<noteq> TempFileName dbname number \<longrightarrow> contents e' n = contents e n)"
  using env_contract.SetCurrentFile_returns [OF assms, of dbname number e] by (auto simp: untouched_def DescriptorFileName_base)

text \<open>The rename fails on the one environment and succeeds on the other.\<close>

theorem SetCurrentFile_atomic_witness:
  "(\<exists>s e'. SetCurrentFile mem_env (lit ''/db'') 5 \<lparr>mf_files = [CurrentFileName (lit ''/db'') \<mapsto> [1]], mf_faults = [False, False, False, True]\<rparr> = Some (s, e') \<and>
     \<not> Status_ok s \<and> mf_files e' (CurrentFileName (lit ''/db'')) = Some [1]) \<and>
   (\<exists>s e'. SetCurrentFile mem_env (lit ''/db'') 5 \<lparr>mf_files = [CurrentFileName (lit ''/db'') \<mapsto> [1]], mf_faults = []\<rparr> = Some (s, e') \<and>
     Status_ok s \<and> mf_files e' (CurrentFileName (lit ''/db'')) = Some (lit ''MANIFEST-'' @ decimal_06 5 @ [0x0a]))"
proof -
  note atomic = SetCurrentFile_atomic [OF mem_files.env_contract_axioms, of "lit ''/db''" 5]
  show ?thesis
  proof (intro conjI)
    let ?e = "\<lparr>mf_files = [CurrentFileName (lit ''/db'') \<mapsto> [1]], mf_faults = [False, False, False, True]\<rparr>"
    have "\<not> Status_ok s" if "SetCurrentFile mem_env (lit ''/db'') 5 ?e = Some (s, e')" for s e'
      using that by (simp add: SetCurrentFile_def WriteStringToFileSync_def DoWriteStringToFile_def mem_env_def mem_open_def mem_flush_def mem_try_def Let_def
        split: if_splits)
    then show "\<exists>s e'. SetCurrentFile mem_env (lit ''/db'') 5 ?e = Some (s, e') \<and> \<not> Status_ok s \<and> mf_files e' (CurrentFileName (lit ''/db'')) = Some [1]"
      using atomic [of ?e] by fastforce
  next
    let ?e = "\<lparr>mf_files = [CurrentFileName (lit ''/db'') \<mapsto> [1 :: byte]], mf_faults = []\<rparr>"
    have "Status_ok s" if "SetCurrentFile mem_env (lit ''/db'') 5 ?e = Some (s, e')" for s e'
      using that by (simp add: SetCurrentFile_def WriteStringToFileSync_def DoWriteStringToFile_def mem_env_def mem_open_def mem_flush_def mem_try_def Let_def
        split: if_splits)
    then show "\<exists>s e'. SetCurrentFile mem_env (lit ''/db'') 5 ?e = Some (s, e') \<and> Status_ok s \<and>
        mf_files e' (CurrentFileName (lit ''/db'')) = Some (lit ''MANIFEST-'' @ decimal_06 5 @ [0x0a])"
      using atomic [of ?e] by fastforce
  qed
qed

end
