(* ===== verification/Manifest.thy ===== *)
theory Manifest
  imports Version_Steps Log_Reader Env_Files
begin

text \<open>
  \<^verbatim>\<open>db/version_set.cc\<close>, the manifest: \<open>LogAndApply\<close> writes the edit that makes the next version to the
  descriptor log and installs the version, \<open>Recover\<close> reads the log of edits back, \<open>WriteSnapshot\<close> opens a
  new log.  The descriptor is the log writer with its file, or nothing before the first edit; \<open>u\<close> is
  the user comparator, \<open>dbname\<close> the directory.
\<close>

subsection \<open>Writing\<close>

definition writer_with :: "'w log_writer \<Rightarrow> 'e \<Rightarrow> ('w \<times> 'e) log_writer" where
  "writer_with w e = \<lparr>lw_dest = (lw_dest w, e), lw_block_offset = lw_block_offset w, lw_type_crc = lw_type_crc w\<rparr>"

definition writer_without :: "('w \<times> 'e) log_writer \<Rightarrow> 'w log_writer" where
  "writer_without w = \<lparr>lw_dest = fst (lw_dest w), lw_block_offset = lw_block_offset w, lw_type_crc = lw_type_crc w\<rparr>"

definition log_AddRecord :: "('e, 'w, 's) env \<Rightarrow> bytes \<Rightarrow> 'w log_writer \<Rightarrow> 'e \<Rightarrow> (status \<times> 'w log_writer \<times> 'e) option" where
  "log_AddRecord E data w e = do {
     (s, w) \<leftarrow> AddRecord (env_WritableFile E) data (writer_with w e);
     Some (s, writer_without w, snd (lw_dest w)) }"

definition snapshot_edit :: "comparator \<Rightarrow> version_set \<Rightarrow> version \<Rightarrow> version_edit" where
  "snapshot_edit u s v =
     (let edit = SetComparatorName (cmp_Name u) VersionEdit_make;
          edit = foldl (\<lambda>edit level.
            let key = vs_compact_pointer s ! level
            in if key \<noteq> [] then SetCompactPointer (int level) key edit else edit) edit [0..<kNumLevels]
      in foldl (\<lambda>edit level. foldl (\<lambda>edit f.
            let m = file_at s f
            in VersionEdit_AddFile (int level) (fm_number m) (fm_file_size m) (fm_smallest m) (fm_largest m) edit)
          edit (v_files v ! level)) edit [0..<kNumLevels])"

definition WriteSnapshot :: "('e, 'w, 's) env \<Rightarrow> comparator \<Rightarrow> version_set \<Rightarrow> 'w log_writer \<Rightarrow> 'e \<Rightarrow> (status \<times> 'w log_writer \<times> 'e) option" where
  "WriteSnapshot E u s dlog e = do {
     current \<leftarrow> vs_current s;
     v \<leftarrow> vs_version_heap s current;
     log_AddRecord E (VersionEdit_EncodeTo (snapshot_edit u s v) []) dlog e }"

text \<open>
  \<open>LogAndApply\<close> in three parts.  The first runs under the mutex: it completes the edit and builds the next
  version.  The second writes the manifest; a new one is created under the mutex, the rest runs without
  it and does not look at the version set.  The second \<open>SetNextFile\<close> for a new manifest sets the number that
  the edit has already.  The third, under the mutex again, installs the version.
\<close>

definition prepare_edit :: "version_edit \<Rightarrow> version_set \<Rightarrow> version_edit option" where
  "prepare_edit edit s = do {
     edit \<leftarrow> (if ve_has_log_number edit
              then if vs_log_number s \<le> ve_log_number edit \<and> ve_log_number edit < vs_next_file_number s then Some edit else None
              else Some (SetLogNumber (vs_log_number s) edit));
     let edit = (if ve_has_prev_log_number edit then edit else SetPrevLogNumber (vs_prev_log_number s) edit);
     Some (SetLastSequence (vs_last_sequence s) (SetNextFile (vs_next_file_number s) edit)) }"

definition open_manifest :: "('e, 'w, 's) env \<Rightarrow> comparator \<Rightarrow> bytes \<Rightarrow> version_set \<Rightarrow> 'w log_writer option \<Rightarrow> 'e \<Rightarrow>
    (status \<times> bytes option \<times> 'w log_writer option \<times> 'e) option" where
  "open_manifest E u dbname s desc e =
     (case desc of
        Some _ \<Rightarrow> Some (Status_OK, None, desc, e)
      | None \<Rightarrow>
          let new_manifest_file = DescriptorFileName dbname (vs_manifest_file_number s)
          in (case env_NewWritableFile E new_manifest_file e of
                (st, None, e) \<Rightarrow> if Status_ok st then None else Some (st, Some new_manifest_file, None, e)
              | (st, Some f, e) \<Rightarrow>
                  if \<not> Status_ok st then Some (st, Some new_manifest_file, None, e)
                  else do {
                    (st, dlog, e) \<leftarrow> WriteSnapshot E u s (Writer_make f) e;
                    Some (st, Some new_manifest_file, Some dlog, e) }))"

definition log_edit :: "('e, 'w, 's) env \<Rightarrow> bytes \<Rightarrow> u64 \<Rightarrow> version_edit \<Rightarrow> status \<Rightarrow> bytes option \<Rightarrow> 'w log_writer option \<Rightarrow> 'e \<Rightarrow>
    (status \<times> 'w log_writer option \<times> 'e) option" where
  "log_edit E dbname manifest_file_number edit st new_manifest_file desc e = do {
     (st, desc, e) \<leftarrow>
       (if Status_ok st then do {
          dlog \<leftarrow> desc;
          (st, dlog, e) \<leftarrow> log_AddRecord E (VersionEdit_EncodeTo edit []) dlog e;
          (st, f, e) \<leftarrow> (if Status_ok st then wf_Sync (env_WritableFile E) (lw_dest dlog, e) else Some (st, lw_dest dlog, e));
          Some (st, Some (dlog\<lparr>lw_dest := f\<rparr>), e) }
        else Some (st, desc, e));
     (st, e) \<leftarrow> (if Status_ok st \<and> new_manifest_file \<noteq> None then SetCurrentFile E dbname manifest_file_number e else Some (st, e));
     Some (st, desc, e) }"

definition finish_edit :: "('e, 'w, 's) env \<Rightarrow> version_edit \<Rightarrow> version_ptr \<Rightarrow> status \<Rightarrow> bytes option \<Rightarrow> version_set \<Rightarrow> 'w log_writer option \<Rightarrow> 'e \<Rightarrow>
    (version_set \<times> 'w log_writer option \<times> 'e) option" where
  "finish_edit E edit p st new_manifest_file s desc e =
     (if Status_ok st then do {
        s \<leftarrow> AppendVersion p s;
        Some (s\<lparr>vs_log_number := ve_log_number edit, vs_prev_log_number := ve_prev_log_number edit\<rparr>, desc, e) }
      else do {
        s \<leftarrow> delete_version p s;
        (case new_manifest_file of
           None \<Rightarrow> Some (s, desc, e)
         | Some name \<Rightarrow>
             let e = (case desc of None \<Rightarrow> e | Some dlog \<Rightarrow> env_delete_writable E (lw_dest dlog) e);
                 (_, e) = env_DeleteFile E name e
             in Some (s, None, e)) })"

definition LogAndApply :: "('e, 'w, 's) env \<Rightarrow> comparator \<Rightarrow> bytes \<Rightarrow> version_edit \<Rightarrow> version_set \<Rightarrow> 'w log_writer option \<Rightarrow> 'e \<Rightarrow>
    (status \<times> version_set \<times> 'w log_writer option \<times> 'e) option" where
  "LogAndApply E u dbname edit s desc e = do {
     edit \<leftarrow> prepare_edit edit s;
     (p, s) \<leftarrow> build_version u edit s;
     (st, new_manifest_file, desc, e) \<leftarrow> open_manifest E u dbname s desc e;
     (st, desc, e) \<leftarrow> log_edit E dbname (vs_manifest_file_number s) edit st new_manifest_file desc e;
     (s, desc, e) \<leftarrow> finish_edit E edit p st new_manifest_file s desc e;
     Some (st, s, desc, e) }"

subsection \<open>Recovering\<close>

record recovery =
  rc_have_log_number :: bool
  rc_have_prev_log_number :: bool
  rc_have_next_file :: bool
  rc_have_last_sequence :: bool
  rc_next_file :: u64
  rc_last_sequence :: u64
  rc_log_number :: u64
  rc_prev_log_number :: u64

definition recovery_start :: recovery where
  "recovery_start = \<lparr>rc_have_log_number = False, rc_have_prev_log_number = False, rc_have_next_file = False, rc_have_last_sequence = False,
     rc_next_file = 0, rc_last_sequence = 0, rc_log_number = 0, rc_prev_log_number = 0\<rparr>"

definition recovery_update :: "version_edit \<Rightarrow> recovery \<Rightarrow> recovery" where
  "recovery_update edit rc =
     (let rc = (if ve_has_log_number edit then rc\<lparr>rc_log_number := ve_log_number edit, rc_have_log_number := True\<rparr> else rc);
          rc = (if ve_has_prev_log_number edit then rc\<lparr>rc_prev_log_number := ve_prev_log_number edit, rc_have_prev_log_number := True\<rparr> else rc);
          rc = (if ve_has_next_file_number edit then rc\<lparr>rc_next_file := ve_next_file_number edit, rc_have_next_file := True\<rparr> else rc)
      in if ve_has_last_sequence edit then rc\<lparr>rc_last_sequence := ve_last_sequence edit, rc_have_last_sequence := True\<rparr> else rc)"

text \<open>The reporter keeps the first status that is reported while the status is OK.\<close>

definition LogReporter_Corruption :: "(u64 \<times> status) list option \<Rightarrow> status \<Rightarrow> status" where
  "LogReporter_Corruption reports st =
     (case reports of None \<Rightarrow> st | Some rs \<Rightarrow> foldl (\<lambda>st (_, s). if Status_ok st then s else st) st rs)"

definition recover_record :: "comparator \<Rightarrow> bytes \<Rightarrow> recovery \<Rightarrow> builder \<Rightarrow> version_set \<Rightarrow> (status \<times> recovery \<times> builder \<times> version_set) option" where
  "recover_record u record rc b s = do {
     let (st, edit) = VersionEdit_DecodeFrom record VersionEdit_make;
     let st = (if Status_ok st \<and> ve_has_comparator edit \<and> ve_comparator edit \<noteq> cmp_Name u
               then Status_InvalidArgument (ve_comparator edit @ lit '' does not match existing comparator '') (cmp_Name u) else st);
     (b, s) \<leftarrow> (if Status_ok st then Builder_Apply u edit b s else Some (b, s));
     Some (st, recovery_update edit rc, b, s) }"

partial_function (option) recover_loop :: "'f sequential_file \<Rightarrow> comparator \<Rightarrow> 'f log_reader \<Rightarrow> status \<Rightarrow> recovery \<Rightarrow> builder \<Rightarrow> version_set \<Rightarrow>
    (status \<times> recovery \<times> builder \<times> version_set \<times> 'f log_reader) option" where
  "recover_loop S u reader st rc b s = do {
     (ok, record, reader) \<leftarrow> ReadRecord S (reader\<lparr>lr_reporter := Some []\<rparr>);
     let st = LogReporter_Corruption (lr_reporter reader) st;
     if ok \<and> Status_ok st then do {
       (st, rc, b, s) \<leftarrow> recover_record u record rc b s;
       recover_loop S u reader st rc b s }
     else Some (st, rc, b, s, reader) }"

definition ReuseManifest :: "('e, 'w, 's) env \<Rightarrow> bool \<Rightarrow> u64 \<Rightarrow> bytes \<Rightarrow> bytes \<Rightarrow> version_set \<Rightarrow> 'w log_writer option \<Rightarrow> 'e \<Rightarrow>
    (bool \<times> version_set \<times> 'w log_writer option \<times> 'e) option" where
  "ReuseManifest E reuse_logs max_file_size dscname dscbase s desc e =
     (if \<not> reuse_logs then Some (False, s, desc, e)
      else case ParseFileName dscbase of
             None \<Rightarrow> Some (False, s, desc, e)
           | Some (manifest_number, manifest_type) \<Rightarrow>
               if manifest_type \<noteq> kDescriptorFile then Some (False, s, desc, e)
               else let (st, manifest_size, e) = env_GetFileSize E dscname e
                    in if \<not> Status_ok st \<or> TargetFileSize max_file_size \<le> manifest_size then Some (False, s, desc, e)
                       else if desc \<noteq> None then None
                       else case env_NewAppendableFile E dscname e of
                              (st, None, e) \<Rightarrow> if Status_ok st then None else Some (False, s, None, e)
                            | (st, Some f, e) \<Rightarrow>
                                if \<not> Status_ok st then None
                                else Some (True, s\<lparr>vs_manifest_file_number := manifest_number\<rparr>, Some (Writer_make_at f manifest_size), e))"

text \<open>The checks after the manifest was read.\<close>

definition recovery_status :: "recovery \<Rightarrow> status" where
  "recovery_status rc =
     (if \<not> rc_have_next_file rc then Status_Corruption (lit ''no meta-nextfile entry in descriptor'') []
      else if \<not> rc_have_log_number rc then Status_Corruption (lit ''no meta-lognumber entry in descriptor'') []
      else if \<not> rc_have_last_sequence rc then Status_Corruption (lit ''no last-sequence-number entry in descriptor'') []
      else Status_OK)"

definition install_recovered :: "comparator \<Rightarrow> recovery \<Rightarrow> u64 \<Rightarrow> builder \<Rightarrow> version_set \<Rightarrow> version_set option" where
  "install_recovered u rc prev_log_number b s = do {
     let (p, s) = new_version s;
     s \<leftarrow> Builder_SaveTo u b p s;
     s \<leftarrow> Finalize p s;
     s \<leftarrow> AppendVersion p s;
     Some (s\<lparr>vs_manifest_file_number := rc_next_file rc, vs_next_file_number := rc_next_file rc + 1,
       vs_last_sequence := rc_last_sequence rc, vs_log_number := rc_log_number rc, vs_prev_log_number := prev_log_number\<rparr>) }"

definition Recover :: "('e, 'w, 's) env \<Rightarrow> comparator \<Rightarrow> bool \<Rightarrow> u64 \<Rightarrow> bytes \<Rightarrow> version_set \<Rightarrow> 'w log_writer option \<Rightarrow> 'e \<Rightarrow>
    (status \<times> bool \<times> version_set \<times> 'w log_writer option \<times> 'e) option" where
  "Recover E u reuse_logs max_file_size dbname s desc e = do {
     (st, current, e) \<leftarrow> ReadFileToString E (CurrentFileName dbname) e;
     if \<not> Status_ok st then Some (st, False, s, desc, e)
     else if current = [] \<or> last current \<noteq> 0x0a
     then Some (Status_Corruption (lit ''CURRENT file does not end with newline'') [], False, s, desc, e)
     else let current = butlast current; dscname = dbname @ lit ''/'' @ current in
       (case env_NewSequentialFile E dscname e of
          (st, fo, e) \<Rightarrow>
            if \<not> Status_ok st
            then Some (if Status_IsNotFound st then Status_Corruption (lit ''CURRENT points to a non-existent file'') (Status_ToString st) else st,
                       False, s, desc, e)
            else do {
              f \<leftarrow> fo;
              base \<leftarrow> vs_current s;
              (b, s) \<leftarrow> Builder_make base s;
              (st, rc, b, s, reader) \<leftarrow>
                recover_loop (env_SequentialFile E) u (Reader_make (f, e) (Some []) True 0) Status_OK recovery_start b s;
              let e = env_delete_sequential E (fst (lr_file reader)) (snd (lr_file reader));
              let checked = Status_ok st;
              let st = (if checked then recovery_status rc else st);
              let prev_log_number = (if rc_have_prev_log_number rc then rc_prev_log_number rc else 0);
              let s = (if checked then MarkFileNumberUsed (rc_log_number rc) (MarkFileNumberUsed prev_log_number s) else s);
              (save_manifest, s, desc, e) \<leftarrow>
                (if Status_ok st then do {
                   s \<leftarrow> install_recovered u rc prev_log_number b s;
                   (reused, s, desc, e) \<leftarrow> ReuseManifest E reuse_logs max_file_size dscname current s desc e;
                   Some (\<not> reused, s, desc, e) }
                 else Some (False, s, desc, e));
              s \<leftarrow> Builder_destroy b s;
              Some (st, save_manifest, s, desc, e) }) }"

end
