(* ===== verification/Manifest_Correct.thy ===== *)
theory Manifest_Correct
  imports Manifest
begin

text \<open>
  What the manifest is good for: after \<open>LogAndApply\<close> returned OK, its file is the log of the edits that
  lead to the current version, \<open>CURRENT\<close> names it, and \<open>Recover\<close> rebuilds that version from the files;
  after a failure the current version is the old one and nothing leaks.
\<close>

subsection \<open>Records of the descriptor log\<close>

context env_contract
begin

lemma buffered:
  "buffered_file_contract (env_WritableFile E) (\<lambda>f. valid f \<and> file_name (fst f) = n \<and> kept e0 (snd f) {n}) written
    (\<lambda>f. the (contents (snd f) (file_name (fst f))))"
proof (unfold_locales, goal_cases)
  case (1 f)
  then show ?case using valid_prefix [of "fst f" "snd f"] by auto
next
  case (2 f data)
  obtain w e where f: "f = (w, e)" by fastforce
  then have v: "valid (w, e)" "file_name w = n" "kept e0 e {n}" using 2 by auto
  from append [OF v(1), of data] obtain s w' e' where a: "wf_Append (env_WritableFile E) (w, e) data = Some (s, w', e')" "valid (w', e')"
    "file_name w' = n" "kept e e' {n}" "Status_ok s \<longrightarrow> written (w', e') = written (w, e) @ data"
    "\<exists>c. contents e' n = Some c \<and> prefix c (written (w, e) @ data)" unfolding v(2) by blast
  then show ?case using untouched_trans [OF v(3) a(4)] by (auto simp: f)
next
  case (3 f)
  obtain w e where f: "f = (w, e)" by fastforce
  then have v: "valid (w, e)" "file_name w = n" "kept e0 e {n}" using 3 by auto
  from flush [OF v(1)] obtain s w' e' where a: "wf_Flush (env_WritableFile E) (w, e) = Some (s, w', e')" "valid (w', e')"
    "file_name w' = n" "kept e e' {n}" "Status_ok s \<longrightarrow> written (w', e') = written (w, e) \<and> contents e' n = Some (written (w, e))"
    "\<exists>c. contents e' n = Some c \<and> prefix c (written (w, e))" unfolding v(2) by blast
  then show ?case using untouched_trans [OF v(3) a(4)] by (auto simp: f)
next
  case (4 f data s f')
  obtain w e where f: "f = (w, e)" by fastforce
  then have v: "valid (w, e)" "the (contents e (file_name w)) = written (w, e)" using 4 by auto
  then have "contents e (file_name w) = Some (written (w, e))" using valid_prefix [OF v(1)] by auto
  then show ?case using append [OF v(1), of data] 4(3,4) by (auto simp: f)
qed

text \<open>The state of a log: everything that was appended is in the file.\<close>

definition log_at :: "'w log_writer \<Rightarrow> 'e \<Rightarrow> bytes \<Rightarrow> nat \<Rightarrow> bool" where
  "log_at w e data off \<longleftrightarrow> valid (lw_dest w, e) \<and> written (lw_dest w, e) = data \<and> contents e (file_name (lw_dest w)) = Some data \<and> writer_at w off"

lemma log_AddRecord_returns:
  assumes "log_at w e data off"
  shows "\<exists>s w' e'. log_AddRecord E d w e = Some (s, w', e') \<and> file_name (lw_dest w') = file_name (lw_dest w) \<and>
    valid (lw_dest w', e') \<and> kept e e' {file_name (lw_dest w)} \<and> (Status_ok s \<longrightarrow> log_at w' e' (data @ log_record off d) (log_record_end off d))"
proof -
  let ?n = "file_name (lw_dest w)"
  let ?w = "writer_with w e"
  have w: "valid (lw_dest ?w) \<and> file_name (fst (lw_dest ?w)) = ?n \<and> kept e (snd (lw_dest ?w)) {?n}"
    "the (contents (snd (lw_dest ?w)) (file_name (fst (lw_dest ?w)))) = written (lw_dest ?w)" "writer_at ?w off" "written (lw_dest ?w) = data"
    using assms by (simp_all add: log_at_def writer_with_def writer_at_def)
  from buffered_file_contract.AddRecord_returns [OF buffered w(1-3), of d] obtain s w1 where
    r: "AddRecord (env_WritableFile E) d ?w = Some (s, w1)" "valid (lw_dest w1)" "file_name (fst (lw_dest w1)) = ?n" "kept e (snd (lw_dest w1)) {?n}"
    "Status_ok s \<longrightarrow> written (lw_dest w1) = data @ log_record off d \<and>
       the (contents (snd (lw_dest w1)) (file_name (fst (lw_dest w1)))) = written (lw_dest w1) \<and> writer_at w1 (log_record_end off d)"
    unfolding w(4) by blast
  obtain f e1 where d: "lw_dest w1 = (f, e1)" by fastforce
  have v: "valid (f, e1)" "file_name f = ?n" "kept e e1 {?n}" using r(2-4) d by simp_all
  have "contents e1 ?n \<noteq> None" using valid_prefix [OF v(1)] v(2) by auto
  then have ok: "Status_ok s \<Longrightarrow> written (f, e1) = data @ log_record off d \<and> contents e1 ?n = Some (data @ log_record off d) \<and>
      writer_at w1 (log_record_end off d)"
    using r(5) d v(2) by auto
  show ?thesis
  proof (intro exI conjI)
    show "log_AddRecord E d w e = Some (s, writer_without w1, e1)" using r(1) d by (simp add: log_AddRecord_def)
    show "Status_ok s \<longrightarrow> log_at (writer_without w1) e1 (data @ log_record off d) (log_record_end off d)"
      using ok v d by (simp add: log_at_def writer_without_def writer_at_def)
  qed (use v d in \<open>simp_all add: writer_without_def\<close>)
qed

end

subsection \<open>The edit of a snapshot\<close>

definition snapshot_files :: "version_set \<Rightarrow> version \<Rightarrow> nat \<Rightarrow> (int \<times> file_meta) list" where
  "snapshot_files s v l = map (\<lambda>f. let m = file_at s f
     in (int l, FileMetaData_make (fm_number m) (fm_file_size m) (fm_smallest m) (fm_largest m))) (v_files v ! l)"

lemma snapshot_edit_eq:
  "snapshot_edit u s v = VersionEdit_make\<lparr>ve_comparator := cmp_Name u, ve_has_comparator := True,
     ve_compact_pointers := map (\<lambda>l. (int l, vs_compact_pointer s ! l)) (filter (\<lambda>l. vs_compact_pointer s ! l \<noteq> []) [0..<kNumLevels]),
     ve_new_files := concat (map (snapshot_files s v) [0..<kNumLevels])\<rparr>"
proof -
  have 1: "foldl (\<lambda>edit level. let key = vs_compact_pointer s ! level
       in if key \<noteq> [] then SetCompactPointer (int level) key edit else edit) e ls =
     e\<lparr>ve_compact_pointers := ve_compact_pointers e @ map (\<lambda>l. (int l, vs_compact_pointer s ! l)) (filter (\<lambda>l. vs_compact_pointer s ! l \<noteq> []) ls)\<rparr>" for e ls
    by (induction ls arbitrary: e) (simp_all add: SetCompactPointer_def)
  have 2: "foldl (\<lambda>edit f. let m = file_at s f
       in VersionEdit_AddFile (int l) (fm_number m) (fm_file_size m) (fm_smallest m) (fm_largest m) edit) e fs =
     e\<lparr>ve_new_files := ve_new_files e @ map (\<lambda>f. let m = file_at s f
       in (int l, FileMetaData_make (fm_number m) (fm_file_size m) (fm_smallest m) (fm_largest m))) fs\<rparr>" for e l fs
    by (induction fs arbitrary: e) (simp_all add: VersionEdit_AddFile_def Let_def)
  have 3: "foldl (\<lambda>edit level. foldl (\<lambda>edit f. let m = file_at s f
       in VersionEdit_AddFile (int level) (fm_number m) (fm_file_size m) (fm_smallest m) (fm_largest m) edit) edit (v_files v ! level)) e ls =
     e\<lparr>ve_new_files := ve_new_files e @ concat (map (snapshot_files s v) ls)\<rparr>" for e ls
    unfolding 2 by (induction ls arbitrary: e) (simp_all add: snapshot_files_def)
  show ?thesis unfolding snapshot_edit_def Let_def 1 [unfolded Let_def] 3 [unfolded Let_def] by (simp add: SetComparatorName_def VersionEdit_make_def)
qed

lemma file_info_make [simp]: "file_info (FileMetaData_make n k lo hi) = (n, k, lo, hi)"
  by (simp add: file_info_def FileMetaData_make_def)

lemma set_snapshot_files: "new \<in> set (snapshot_files s v l) \<longleftrightarrow> (\<exists>f \<in> set (v_files v ! l). new = (int l,
    FileMetaData_make (fm_number (file_at s f)) (fm_file_size (file_at s f)) (fm_smallest (file_at s f)) (fm_largest (file_at s f))))"
  by (auto simp: snapshot_files_def Let_def)

lemma snapshot_infos:
  assumes "l < kNumLevels"
  shows "next_infos (snapshot_edit u s v) l {} = infos_at s (v_files v) l"
proof -
  have "file_info ` news_at (concat (map (snapshot_files s v) [0..<kNumLevels])) l = infos_at s (v_files v) l"
  proof -
    have "news_at (concat (map (snapshot_files s v) [0..<kNumLevels])) l = (\<lambda>f. FileMetaData_make (fm_number (file_at s f))
        (fm_file_size (file_at s f)) (fm_smallest (file_at s f)) (fm_largest (file_at s f))) ` set (v_files v ! l)"
      using assms by (auto simp: news_at_def set_snapshot_files)
    then show ?thesis by (simp add: image_image infos_at_def file_info_def FileMetaData_make_def)
  qed
  then show ?thesis by (simp add: next_infos_def snapshot_edit_eq)
qed

text \<open>The levels and numbers of the files an edit adds.\<close>

definition new_ids :: "version_edit \<Rightarrow> (int \<times> u64) list" where
  "new_ids edit = map (\<lambda>(l, m). (l, fm_number m)) (ve_new_files edit)"

context comparator_contract
begin

lemma snapshot_ids:
  assumes ok: "version_ok c keys s (v_files v)" and inj: "\<forall>l < kNumLevels. inj_on fst (infos_at s (v_files v) l)"
  shows "distinct (new_ids (snapshot_edit c s v))" "set (new_ids (snapshot_edit c s v)) = {(int l, fst i) | l i. l < kNumLevels \<and> i \<in> infos_at s (v_files v) l}"
proof -
  have ids: "map (\<lambda>(l, m). (l, fm_number m)) (snapshot_files s v l) = map (\<lambda>f. (int l, fm_number (file_at s f))) (v_files v ! l)" for l
    by (simp add: snapshot_files_def Let_def FileMetaData_make_def)
  have all: "new_ids (snapshot_edit c s v) = concat (map (\<lambda>l. map (\<lambda>f. (int l, fm_number (file_at s f))) (v_files v ! l)) [0..<kNumLevels])"
    by (simp add: new_ids_def snapshot_edit_eq map_concat comp_def ids)
  have num: "distinct (map (\<lambda>f. fm_number (file_at s f)) (v_files v ! l))" if l: "l < kNumLevels" for l
  proof -
    have "sorted_wrt (\<lambda>x y. BySmallestKey c (file_at s x) (file_at s y)) (v_files v ! l)" using ok l by (simp add: version_ok_def)
    then have "sorted_wrt (\<lambda>x y. file_info (file_at s x) \<noteq> file_info (file_at s y)) (v_files v ! l)"
    proof (rule sorted_wrt_mono_rel [rotated])
      fix x y assume x: "x \<in> set (v_files v ! l)" and lt: "BySmallestKey c (file_at s x) (file_at s y)"
      have "internal_keys keys (fm_smallest (file_at s x))" using ok l x by (simp add: version_ok_def file_keys_ok_def)
      from key_order.compare_refl [OF internal_order this] lt show "file_info (file_at s x) \<noteq> file_info (file_at s y)"
        by (auto simp: BySmallestKey_def file_info_def Let_def)
    qed
    then have "sorted_wrt (\<lambda>x y. fm_number (file_at s x) \<noteq> fm_number (file_at s y)) (v_files v ! l)"
    proof (rule sorted_wrt_mono_rel [rotated])
      fix x y assume xy: "x \<in> set (v_files v ! l)" "y \<in> set (v_files v ! l)" "file_info (file_at s x) \<noteq> file_info (file_at s y)"
      have "inj_on fst (infos_at s (v_files v) l)" using inj l by blast
      then have "fst (file_info (file_at s x)) \<noteq> fst (file_info (file_at s y))"
        using xy unfolding infos_at_def inj_on_def by blast
      then show "fm_number (file_at s x) \<noteq> fm_number (file_at s y)" by (simp add: file_info_def)
    qed
    then show ?thesis by (simp add: distinct_conv_nth sorted_wrt_iff_nth_less) (metis nat_neq_iff)
  qed
  have "distinct (concat (map (\<lambda>l. map (\<lambda>f. (int l, fm_number (file_at s f))) (v_files v ! l)) ls))" if "distinct ls" "set ls \<subseteq> {..<kNumLevels}" for ls
    using that
  proof (induction ls)
    case (Cons l ls)
    have "distinct (map (\<lambda>f. (int l, fm_number (file_at s f))) (v_files v ! l))"
      using num [of l] Cons.prems(2) by (auto simp: distinct_map inj_on_def)
    then show ?case using Cons by auto
  qed simp
  then show "distinct (new_ids (snapshot_edit c s v))" unfolding all by (simp add: subset_eq)
  show "set (new_ids (snapshot_edit c s v)) = {(int l, fst i) | l i. l < kNumLevels \<and> i \<in> infos_at s (v_files v) l}"
  proof -
    have "set (new_ids (snapshot_edit c s v)) = (\<Union>l \<in> {..<kNumLevels}. (\<lambda>i. (int l, fst i)) ` infos_at s (v_files v) l)"
      unfolding all by (simp add: infos_at_def image_image file_info_def atLeast0LessThan)
    then show ?thesis by blast
  qed
qed

end

subsection \<open>Edits that lead to a version\<close>

definition level_infos :: "version_edit list \<Rightarrow> nat \<Rightarrow> (u64 \<times> u64 \<times> InternalKey \<times> InternalKey) set" where
  "level_infos edits l = foldl (\<lambda>infos edit. next_infos edit l infos) {} edits"

definition recovered :: "version_edit list \<Rightarrow> recovery" where
  "recovered edits = foldl (\<lambda>rc edit. recovery_update edit rc) recovery_start edits"

definition manifest_edits :: "comparator \<Rightarrow> (bytes \<Rightarrow> bool) \<Rightarrow> version_edit list \<Rightarrow> bool" where
  "manifest_edits u ukeys edits \<longleftrightarrow>
     (\<forall>e \<in> set edits. edit_ok e \<and> edit_fits ukeys e \<and> (ve_has_comparator e \<longrightarrow> ve_comparator e = cmp_Name u)) \<and>
     distinct (concat (map new_ids edits)) \<and> (\<forall>l < kNumLevels. 0 < l \<longrightarrow> disjoint_infos u ukeys (level_infos edits l)) \<and>
     recovery_status (recovered edits) = Status_OK"

definition edits_describe :: "comparator \<Rightarrow> (bytes \<Rightarrow> bool) \<Rightarrow> version_edit list \<Rightarrow> version_set \<Rightarrow> bool" where
  "edits_describe u ukeys edits s \<longleftrightarrow> manifest_edits u ukeys edits \<and>
     (\<exists>cur v. vs_current s = Some cur \<and> vs_version_heap s cur = Some v \<and> (\<forall>l < kNumLevels. infos_at s (v_files v) l = level_infos edits l)) \<and>
     rc_log_number (recovered edits) = vs_log_number s \<and> rc_prev_log_number (recovered edits) = vs_prev_log_number s"

text \<open>The files: \<open>CURRENT\<close> names the manifest, and that is the log of the edits.\<close>

definition encoded :: "version_edit list \<Rightarrow> bytes list" where
  "encoded edits = map (\<lambda>edit. VersionEdit_EncodeTo edit []) edits"

definition manifest_files :: "(bytes \<Rightarrow> bytes option) \<Rightarrow> bytes \<Rightarrow> version_edit list \<Rightarrow> bool" where
  "manifest_files c dbname edits \<longleftrightarrow> (\<exists>n. c (CurrentFileName dbname) = Some (base_name dbname (DescriptorFileName dbname n) @ [0x0a]) \<and>
     c (DescriptorFileName dbname n) = Some (log_bytes 0 (encoded edits)))"

text \<open>The open descriptor stands at the end of that log.\<close>

definition descriptor_ok :: "('e \<Rightarrow> bytes \<Rightarrow> bytes option) \<Rightarrow> ('w \<Rightarrow> bytes) \<Rightarrow> ('w \<times> 'e \<Rightarrow> bool) \<Rightarrow> ('w \<times> 'e \<Rightarrow> bytes) \<Rightarrow> bytes \<Rightarrow> version_edit list \<Rightarrow>
    'w log_writer \<Rightarrow> 'e \<Rightarrow> bool" where
  "descriptor_ok contents file_name valid written dbname edits w e \<longleftrightarrow>
     (\<exists>n. file_name (lw_dest w) = DescriptorFileName dbname n \<and>
        contents e (CurrentFileName dbname) = Some (base_name dbname (DescriptorFileName dbname n) @ [0x0a])) \<and>
     valid (lw_dest w, e) \<and> written (lw_dest w, e) = log_bytes 0 (encoded edits) \<and>
     contents e (file_name (lw_dest w)) = Some (log_bytes 0 (encoded edits)) \<and> writer_at w (foldl log_record_end 0 (encoded edits))"

lemma descriptor_ok_files: "descriptor_ok contents file_name valid written dbname edits w e \<Longrightarrow> manifest_files (contents e) dbname edits"
  by (auto simp: descriptor_ok_def manifest_files_def)

subsection \<open>The completed edit\<close>

lemma prepare_edit_eq:
  assumes "prepare_edit edit s = Some edit'"
  obtains a b where "edit' = edit\<lparr>ve_has_log_number := True, ve_log_number := a, ve_has_prev_log_number := True, ve_prev_log_number := b,
    ve_has_next_file_number := True, ve_next_file_number := vs_next_file_number s, ve_has_last_sequence := True, ve_last_sequence := vs_last_sequence s\<rparr>"
proof -
  obtain e1 a where 1: "e1 = edit\<lparr>ve_has_log_number := True, ve_log_number := a\<rparr>"
    "edit' = (let edit = (if ve_has_prev_log_number e1 then e1 else SetPrevLogNumber (vs_prev_log_number s) e1)
      in SetLastSequence (vs_last_sequence s) (SetNextFile (vs_next_file_number s) edit))"
  proof (cases "ve_has_log_number edit")
    case True
    then have "edit = edit\<lparr>ve_has_log_number := True, ve_log_number := ve_log_number edit\<rparr>" by simp
    moreover have "edit' = (let edit = (if ve_has_prev_log_number edit then edit else SetPrevLogNumber (vs_prev_log_number s) edit)
      in SetLastSequence (vs_last_sequence s) (SetNextFile (vs_next_file_number s) edit))"
      using assms True unfolding prepare_edit_def Let_def by (auto split: if_splits)
    ultimately show ?thesis by (rule that)
  next
    case False
    have "edit' = (let edit = (if ve_has_prev_log_number (SetLogNumber (vs_log_number s) edit) then SetLogNumber (vs_log_number s) edit
        else SetPrevLogNumber (vs_prev_log_number s) (SetLogNumber (vs_log_number s) edit))
      in SetLastSequence (vs_last_sequence s) (SetNextFile (vs_next_file_number s) edit))"
      using assms False unfolding prepare_edit_def Let_def by simp
    then show ?thesis by (intro that [OF _ \<open>edit' = _\<close>]) (simp add: SetLogNumber_def)
  qed
  show thesis
  proof (cases "ve_has_prev_log_number edit")
    case True
    then show thesis using 1
      by (intro that [of "ve_prev_log_number edit" a] version_edit.equality) (simp_all add: Let_def SetNextFile_def SetLastSequence_def)
  next
    case False
    then show thesis using 1
      by (intro that [of "vs_prev_log_number s" a] version_edit.equality) (simp_all add: Let_def SetNextFile_def SetLastSequence_def SetPrevLogNumber_def)
  qed
qed

lemma prepare_editD:
  assumes "prepare_edit edit s = Some edit'"
  shows "ve_new_files edit' = ve_new_files edit" "ve_deleted_files edit' = ve_deleted_files edit" "ve_compact_pointers edit' = ve_compact_pointers edit"
    "ve_has_comparator edit' = ve_has_comparator edit" "ve_comparator edit' = ve_comparator edit"
    "ve_has_log_number edit'" "ve_has_prev_log_number edit'" "ve_has_next_file_number edit'" "ve_has_last_sequence edit'"
    "ve_next_file_number edit' = vs_next_file_number s" "ve_last_sequence edit' = vs_last_sequence s"
    "edit_ok edit \<Longrightarrow> edit_ok edit'"
  by (rule prepare_edit_eq [OF assms]; simp add: edit_ok_def)+

lemma prepared_same:
  assumes "prepare_edit edit s = Some edit'"
  shows "next_infos edit' = next_infos edit" "edit_fits ukeys edit' = edit_fits ukeys edit" "applicable u ukeys edit' t = applicable u ukeys edit t"
    "new_ids edit' = new_ids edit"
proof -
  note d = prepare_editD [OF assms]
  show n: "next_infos edit' = next_infos edit" unfolding fun_eq_iff next_infos_def deletions_at_def d by simp
  show f: "edit_fits ukeys edit' = edit_fits ukeys edit" unfolding edit_fits_def d by (rule refl)
  show "applicable u ukeys edit' t = applicable u ukeys edit t" unfolding applicable_def n f d by (rule refl)
  show "new_ids edit' = new_ids edit" unfolding new_ids_def d by (rule refl)
qed

lemma recovery_status_update:
  "ve_has_log_number edit \<Longrightarrow> ve_has_next_file_number edit \<Longrightarrow> ve_has_last_sequence edit \<Longrightarrow> recovery_status (recovery_update edit rc) = Status_OK"
  by (simp add: recovery_status_def recovery_update_def Let_def)

lemma level_infos_snoc [simp]: "level_infos (edits @ [edit]) l = next_infos edit l (level_infos edits l)"
  by (simp add: level_infos_def)

lemma recovered_snoc [simp]: "recovered (edits @ [edit]) = recovery_update edit (recovered edits)"
  by (simp add: recovered_def)

lemma manifest_edits_snoc:
  assumes "\<forall>e \<in> set edits. edit_ok e \<and> edit_fits ukeys e \<and> (ve_has_comparator e \<longrightarrow> ve_comparator e = cmp_Name u)"
    "distinct (concat (map new_ids edits))" "prepare_edit edit s = Some edit'" "edit_ok edit" "edit_fits ukeys edit"
    "ve_has_comparator edit \<longrightarrow> ve_comparator edit = cmp_Name u" "set (new_ids edit) \<inter> set (concat (map new_ids edits)) = {}"
    "\<forall>l < kNumLevels. 0 < l \<longrightarrow> disjoint_infos u ukeys (next_infos edit l (level_infos edits l))"
  shows "manifest_edits u ukeys (edits @ [edit'])"
proof -
  note d = prepare_editD [OF assms(3)] and same = prepared_same [OF assms(3)]
  have "distinct (new_ids edit')" using assms(5) unfolding same(4) by (simp add: edit_fits_def new_ids_def)
  moreover have "recovery_status (recovered (edits @ [edit'])) = Status_OK" using recovery_status_update d(6,8,9) by simp
  ultimately show ?thesis using assms d(4,5) d(12) unfolding manifest_edits_def by (auto simp: same)
qed

subsection \<open>What building leaves alone\<close>

definition scalars :: "version_set \<Rightarrow> bytes list \<times> u64 \<times> u64 \<times> u64 \<times> u64 \<times> u64" where
  "scalars s = (vs_compact_pointer s, vs_next_file_number s, vs_manifest_file_number s, vs_last_sequence s, vs_log_number s, vs_prev_log_number s)"

named_theorems scalars_kept

lemma drop_file_scalars [scalars_kept]: "drop_file f s = Some s' \<Longrightarrow> scalars s' = scalars s"
  by (auto simp: scalars_def drop_file_def bind_eq_Some_conv split: if_splits)

lemma drop_files_scalars [scalars_kept]: "drop_files fs s = Some s' \<Longrightarrow> scalars s' = scalars s"
  by (induction fs arbitrary: s) (auto simp: bind_eq_Some_conv scalars_kept)

lemma Version_Unref_scalars [scalars_kept]: "Version_Unref p s = Some s' \<Longrightarrow> scalars s' = scalars s"
  by (auto simp: scalars_def Version_Unref_def delete_version_def bind_eq_Some_conv Let_def dest!: drop_files_scalars split: if_splits)

lemma unref_files_scalars [scalars_kept]: "unref_files fs s = Some s' \<Longrightarrow> scalars s' = scalars s"
  by (induction fs arbitrary: s) (auto simp: scalars_def unref_file_def bind_eq_Some_conv split: if_splits)

lemma MaybeAddFile_scalars [scalars_kept]: "MaybeAddFile u b p l f s = Some s' \<Longrightarrow> scalars s' = scalars s"
  by (auto simp: scalars_def MaybeAddFile_def bind_eq_Some_conv Let_def split: if_splits)

lemma MaybeAddFiles_scalars [scalars_kept]: "MaybeAddFiles u b p l fs s = Some s' \<Longrightarrow> scalars s' = scalars s"
  by (induction fs arbitrary: s) (auto simp: bind_eq_Some_conv scalars_kept)

lemma save_level_scalars [scalars_kept]: "save_level u b p l added base s = Some s' \<Longrightarrow> scalars s' = scalars s"
  by (induction u b p l added base s rule: save_level.induct) (auto simp: bind_eq_Some_conv Let_def scalars_kept)

lemma save_levels_scalars [scalars_kept]: "save_levels u b p ls s = Some s' \<Longrightarrow> scalars s' = scalars s"
  by (induction ls arbitrary: s) (auto simp: bind_eq_Some_conv scalars_kept split: if_splits)

lemma Finalize_scalars [scalars_kept]: "Finalize p s = Some s' \<Longrightarrow> scalars s' = scalars s"
  by (auto simp: scalars_def Finalize_def case_prod_beta bind_eq_Some_conv)

lemma apply_news_pointers: "vs_compact_pointer (snd (foldl (\<lambda>bs new. apply_new_file u new bs) bs news)) = vs_compact_pointer (snd bs)"
  by (induction news arbitrary: bs) (simp_all add: apply_new_file_def new_file_def Let_def case_prod_beta)

definition short_pointers :: "version_set \<Rightarrow> bool" where
  "short_pointers s \<longleftrightarrow> length (vs_compact_pointer s) = kNumLevels \<and> (\<forall>k \<in> set (vs_compact_pointer s). length k < 2 ^ 32)"

lemma Builder_Apply_pointers:
  assumes "Builder_Apply u edit b s = Some (b', s')" "short_pointers s" "edit_ok edit"
  shows "short_pointers s'"
proof -
  have step: "length (foldl (\<lambda>ps (level, key). ps[nat level := key]) ps cps) = length ps \<and>
      (\<forall>k \<in> set (foldl (\<lambda>ps (level, key). ps[nat level := key]) ps cps). length k < 2 ^ 32)"
    if "\<forall>k \<in> set ps. length k < 2 ^ 32" "\<forall>p \<in> set cps. length (snd p) < 2 ^ 32" for ps and cps :: "(int \<times> bytes) list"
    using that
  proof (induction cps arbitrary: ps)
    case (Cons cp cps)
    have "\<forall>k \<in> set (ps[nat (fst cp) := snd cp]). length k < 2 ^ 32" using Cons.prems set_update_subset_insert by fastforce
    then show ?case using Cons.IH [of "ps[nat (fst cp) := snd cp]"] Cons.prems(2) by (simp add: case_prod_beta)
  qed simp
  have "\<forall>p \<in> set (ve_compact_pointers edit). length (snd p) < 2 ^ 32" using assms(3) by (simp add: edit_ok_def)
  note r = step [OF _ this, of "vs_compact_pointer s"]
  have "vs_compact_pointer s' = foldl (\<lambda>ps (level, key). ps[nat level := key]) (vs_compact_pointer s) (ve_compact_pointers edit)"
    using assms(1) apply_news_pointers [of u] unfolding Builder_Apply_def Let_def by (auto split: if_splits dest!: arg_cong [of _ "(b', s')" snd])
  then show ?thesis using r assms(2) by (simp add: short_pointers_def)
qed

lemma build_version_pointers:
  assumes "build_version u edit s = Some (p, s')" "short_pointers s" "edit_ok edit"
  shows "short_pointers s'"
proof -
  obtain cur s1 b0 s2 b3 s3 s4 s5 where "vs_current s = Some cur" "new_version s = (p, s1)" "Builder_make cur s1 = Some (b0, s2)"
    "Builder_Apply u edit b0 s2 = Some (b3, s3)" "Builder_SaveTo u b3 p s3 = Some s4" "Builder_destroy b3 s4 = Some s5" "Finalize p s5 = Some s'"
    using assms(1) by (cases "new_version s") (auto simp: build_version_def bind_eq_Some_conv)
  moreover from this have "vs_compact_pointer s2 = vs_compact_pointer s"
    by (auto simp: new_version_def Builder_make_def Version_Ref_def bind_eq_Some_conv)
  ultimately show ?thesis using Builder_Apply_pointers [of u edit b0 s2 b3 s3] assms(2,3)
    by (auto simp: short_pointers_def scalars_def Builder_SaveTo_def Builder_destroy_def bind_eq_Some_conv dest!: scalars_kept)
qed

subsection \<open>Writing the manifest\<close>

context env_contract
begin

lemma log_at_kept: "log_at w e data off \<Longrightarrow> kept e e' names \<Longrightarrow> file_name (lw_dest w) \<notin> names \<Longrightarrow> log_at w e' data off"
  by (simp add: log_at_def untouched_def)

lemma open_manifest_returns:
  assumes "vs_current s = Some cur" "vs_version_heap s cur = Some v"
    and n_def: "n = DescriptorFileName dbname (vs_manifest_file_number s)" and d_def: "d = VersionEdit_EncodeTo (snapshot_edit u s v) []"
  shows "\<exists>st desc e'. open_manifest E u dbname s None e = Some (st, Some n, desc, e') \<and> kept e e' {n} \<and>
    (\<forall>w. desc = Some w \<longrightarrow> file_name (lw_dest w) = n \<and> valid (lw_dest w, e')) \<and>
    (Status_ok st \<longrightarrow> (\<exists>w. desc = Some w \<and> log_at w e' (log_bytes 0 [d]) (log_record_end 0 d)))"
proof -
  obtain st wo e1 where new: "env_NewWritableFile E n e = (st, wo, e1)" by (cases "env_NewWritableFile E n e") auto
  note o = new_writable [OF new]
  show ?thesis
  proof (cases "Status_ok st")
    case False
    then show ?thesis using o new by (auto simp: open_manifest_def Let_def n_def)
  next
    case True
    then obtain f where f: "wo = Some f" "file_name f = n" "valid (f, e1)" "written (f, e1) = []" "contents e1 n = Some []" "kept e e1 {n}"
      using o by auto
    have "log_at (Writer_make f) e1 [] 0" using f by (simp add: log_at_def Writer_make_def writer_at_def)
    from log_AddRecord_returns [OF this, of d] obtain s2 w2 e2 where r: "log_AddRecord E d (Writer_make f) e1 = Some (s2, w2, e2)"
      "file_name (lw_dest w2) = n" "valid (lw_dest w2, e2)" "kept e1 e2 {n}" "Status_ok s2 \<longrightarrow> log_at w2 e2 (log_record 0 d) (log_record_end 0 d)"
      using f(2) by (auto simp: Writer_make_def)
    have "open_manifest E u dbname s None e = Some (s2, Some n, Some w2, e2)"
      using new True f(1) r(1) assms(1,2) by (simp add: open_manifest_def WriteSnapshot_def n_def d_def Let_def)
    then show ?thesis using r untouched_trans [OF f(6) r(4)] by auto
  qed
qed

lemma log_edit_returns:
  assumes "\<forall>w. desc = Some w \<longrightarrow> (\<exists>m. file_name (lw_dest w) = DescriptorFileName dbname m)"
    and "Status_ok st \<longrightarrow> (\<exists>w. desc = Some w \<and> log_at w e data off)"
    and d_def: "d = VersionEdit_EncodeTo edit []"
  shows "\<exists>st' desc' e'. log_edit E dbname num edit st name desc e = Some (st', desc', e') \<and>
    map_option (\<lambda>w. file_name (lw_dest w)) desc' = map_option (\<lambda>w. file_name (lw_dest w)) desc \<and>
    contents e' (CurrentFileName dbname) =
      (if Status_ok st' \<and> name \<noteq> None then Some (base_name dbname (DescriptorFileName dbname num) @ [0x0a]) else contents e (CurrentFileName dbname)) \<and>
    (Status_ok st' \<longrightarrow> Status_ok st \<and> (\<exists>w. desc' = Some w \<and> log_at w e' (data @ log_record off d) (log_record_end off d)))"
proof (cases "Status_ok st")
  case False
  then show ?thesis by (auto simp: log_edit_def)
next
  case True
  then obtain w m where w: "desc = Some w" "log_at w e data off" "file_name (lw_dest w) = DescriptorFileName dbname m" using assms by blast
  let ?n = "DescriptorFileName dbname m"
  note names = names_differ(1) [of dbname num] names_differ(2) [of dbname num m] names_differ(3) [of dbname m]
  obtain s1 w1 e1 where a: "log_AddRecord E d w e = Some (s1, w1, e1)" "file_name (lw_dest w1) = ?n" "valid (lw_dest w1, e1)" "kept e e1 {?n}"
    "Status_ok s1 \<longrightarrow> log_at w1 e1 (data @ log_record off d) (log_record_end off d)"
    using log_AddRecord_returns [OF w(2), of d] w(3) by auto
  obtain s2 f2 e2 where b: "(if Status_ok s1 then wf_Sync (env_WritableFile E) (lw_dest w1, e1) else Some (s1, lw_dest w1, e1)) = Some (s2, f2, e2)"
    "file_name f2 = ?n" "kept e1 e2 {?n}" "Status_ok s2 \<longrightarrow> log_at (w1\<lparr>lw_dest := f2\<rparr>) e2 (data @ log_record off d) (log_record_end off d)"
  proof (cases "Status_ok s1")
    case True
    from sync [OF a(3)] obtain s2 f2 e2 where "wf_Sync (env_WritableFile E) (lw_dest w1, e1) = Some (s2, f2, e2)" "valid (f2, e2)" "file_name f2 = ?n"
      "kept e1 e2 {?n}" "Status_ok s2 \<longrightarrow> written (f2, e2) = written (lw_dest w1, e1) \<and> contents e2 ?n = Some (written (lw_dest w1, e1))"
      unfolding a(2) by blast
    then show ?thesis using True a(5) by (intro that [of s2 f2 e2]) (auto simp: log_at_def writer_at_def)
  next
    case False
    then show ?thesis using a(2) by (intro that [of s1 "lw_dest w1" e1]) auto
  qed
  let ?w = "w1\<lparr>lw_dest := f2\<rparr>"
  have k: "kept e e2 {?n}" by (rule untouched_trans [OF a(4) b(3)])
  show ?thesis
  proof (cases "Status_ok s2 \<and> name \<noteq> None")
    case False
    then have "log_edit E dbname num edit st name desc e = Some (s2, Some ?w, e2)"
      using True w(1) a(1) b(1) by (auto simp: log_edit_def d_def)
    then show ?thesis using False True k names w(1,3) b(2,4) by (auto simp: untouched_def)
  next
    case s: True
    obtain s3 e3 where c: "SetCurrentFile E dbname num e2 = Some (s3, e3)" "kept e2 e3 {TempFileName dbname num, CurrentFileName dbname}"
      "contents e3 (CurrentFileName dbname) =
        (if Status_ok s3 then Some (base_name dbname (DescriptorFileName dbname num) @ [0x0a]) else contents e2 (CurrentFileName dbname))"
      using SetCurrentFile_returns [of dbname num e2] by blast
    have "log_edit E dbname num edit st name desc e = Some (s3, Some ?w, e3)"
      using True s w(1) a(1) b(1) c(1) by (auto simp: log_edit_def d_def)
    moreover have "log_at ?w e3 (data @ log_record off d) (log_record_end off d)"
      using log_at_kept [OF _ c(2)] s b(2,4) names by simp
    ultimately show ?thesis using True s k names c(3) w(1,3) b(2) by (auto simp: untouched_def)
  qed
qed

end

subsection \<open>Logging and applying an edit\<close>

text \<open>What fits into a manifest: keys below 4 GiB, and one file per number in a level.\<close>

definition recordable :: "comparator \<Rightarrow> version_set \<Rightarrow> version \<Rightarrow> bool" where
  "recordable u s v \<longleftrightarrow> length (cmp_Name u) < 2 ^ 32 \<and> short_pointers s \<and>
     (\<forall>l < kNumLevels. inj_on fst (infos_at s (v_files v) l) \<and>
        (\<forall>i \<in> infos_at s (v_files v) l. case i of (_, _, lo, hi) \<Rightarrow> length lo < 2 ^ 32 \<and> length hi < 2 ^ 32))"

context comparator_contract
begin

lemma snapshot_ok:
  assumes ok: "version_ok c keys s (v_files v)" and r: "recordable c s v"
  shows "edit_ok (snapshot_edit c s v)" "edit_fits keys (snapshot_edit c s v)"
proof -
  let ?news = "concat (map (snapshot_files s v) [0..<kNumLevels])"
  have ptr: "length (vs_compact_pointer s ! l) < 2 ^ 32" if "l < kNumLevels" for l
    using r that by (auto simp: recordable_def short_pointers_def)
  have new: "new_file_ok x \<and> new_ok keys x" if elem: "x \<in> set ?news" for x
  proof -
    obtain l f where l: "l < kNumLevels" "f \<in> set (v_files v ! l)" and x: "x = (int l,
        FileMetaData_make (fm_number (file_at s f)) (fm_file_size (file_at s f)) (fm_smallest (file_at s f)) (fm_largest (file_at s f)))"
      using elem by (auto simp: set_snapshot_files)
    have "file_info (file_at s f) \<in> infos_at s (v_files v) l" using l(2) by (simp add: infos_at_def)
    then have "length (fm_smallest (file_at s f)) < 2 ^ 32" "length (fm_largest (file_at s f)) < 2 ^ 32"
      using r l(1) unfolding recordable_def by (fastforce simp: file_info_def)+
    moreover have "file_keys_ok keys (file_at s f)" using ok l by (simp add: version_ok_def)
    ultimately show ?thesis using l(1) unfolding x by (simp add: new_file_ok_def new_ok_def level_ok_def FileMetaData_make_def file_keys_ok_def)
  qed
  have levels: "level_ok (int l)" if "l < kNumLevels" for l using that by (simp add: level_ok_def)
  show "edit_ok (snapshot_edit c s v)"
    using ptr levels new r unfolding snapshot_edit_eq by (auto simp: edit_ok_def VersionEdit_make_def recordable_def)
  have "distinct (new_ids (snapshot_edit c s v))" by (rule snapshot_ids(1) [OF ok]) (use r in \<open>simp add: recordable_def\<close>)
  then show "edit_fits keys (snapshot_edit c s v)"
    using levels new unfolding snapshot_edit_eq by (auto simp: edit_fits_def VersionEdit_make_def new_ids_def)
qed

lemma snapshot_describes:
  assumes ok: "version_ok c keys s (v_files v)" and r: "recordable c s v" and edit: "prepare_edit edit t = Some edit'" "edit_ok edit" "edit_fits keys edit"
    "ve_has_comparator edit \<longrightarrow> ve_comparator edit = cmp_Name c"
    and fresh: "\<forall>(l, m) \<in> set (ve_new_files edit). fm_number m \<notin> fst ` infos_at s (v_files v) (nat l)"
    and disj: "\<forall>l < kNumLevels. 0 < l \<longrightarrow> disjoint_infos c keys (next_infos edit l (infos_at s (v_files v) l))"
  shows "manifest_edits c keys [snapshot_edit c s v, edit']"
    "\<And>l. l < kNumLevels \<Longrightarrow> level_infos [snapshot_edit c s v, edit'] l = next_infos edit l (infos_at s (v_files v) l)"
proof -
  let ?snap = "snapshot_edit c s v"
  have inj: "\<forall>l < kNumLevels. inj_on fst (infos_at s (v_files v) l)" using r by (simp add: recordable_def)
  note ids = snapshot_ids [OF ok inj]
  have "set (new_ids edit) \<inter> set (new_ids ?snap) = {}"
  proof (rule equals0I)
    fix x assume x: "x \<in> set (new_ids edit) \<inter> set (new_ids ?snap)"
    obtain l m where n: "(l, m) \<in> set (ve_new_files edit)" "x = (l, fm_number m)" using x by (auto simp: new_ids_def)
    obtain l' i where i: "x = (int l', fst i)" "i \<in> infos_at s (v_files v) l'" using x unfolding ids(2) by auto
    have "fm_number m \<notin> fst ` infos_at s (v_files v) (nat l)" using fresh n(1) by fast
    moreover have "nat l = l'" "fm_number m = fst i" using n(2) i(1) by auto
    ultimately show False using i(2) by simp
  qed
  moreover have level: "level_infos [?snap] l = infos_at s (v_files v) l" if "l < kNumLevels" for l
    using snapshot_infos [OF that] by (simp add: level_infos_def)
  moreover have "ve_comparator ?snap = cmp_Name c" by (simp add: snapshot_edit_eq)
  ultimately have "manifest_edits c keys ([?snap] @ [edit'])"
    using snapshot_ok [OF ok r] ids(1) edit disj by (intro manifest_edits_snoc [OF _ _ edit(1)]) auto
  then show "manifest_edits c keys [?snap, edit']" by simp
  show "level_infos [?snap, edit'] l = next_infos edit l (infos_at s (v_files v) l)" if "l < kNumLevels" for l
    using level_infos_snoc [of "[?snap]" edit' l] level [OF that] by (simp add: prepared_same [OF edit(1)])
qed

end

lemma version_set_ok_current: "version_set_ok u ukeys s clients b \<Longrightarrow> vs_current s = Some p \<Longrightarrow> vs_version_heap s p = Some v \<Longrightarrow>
    version_ok u ukeys s (v_files v)"
  by (simp add: version_set_ok_def all_versions_ok_def)

context env_contract
begin

lemma finish_edit_fails:
  assumes "comparator_contract u ukeys" "version_set_ok u ukeys s clients (Some p)" "\<not> Status_ok st"
    and "\<forall>w. desc = Some w \<longrightarrow> (\<exists>m. file_name (lw_dest w) = DescriptorFileName dbname m)" "name = None \<or> name = Some (DescriptorFileName dbname num)"
  shows "\<exists>s' desc' e'. finish_edit E edit p st name s desc e = Some (s', desc', e') \<and> version_set_ok u ukeys s' clients None \<and>
    vs_current s' = vs_current s \<and> vs_version_heap s' = (vs_version_heap s)(p := None) \<and>
    (\<forall>q w. q \<noteq> p \<longrightarrow> vs_version_heap s q = Some w \<longrightarrow> (\<forall>l < kNumLevels. infos_at s' (v_files w) l = infos_at s (v_files w) l)) \<and>
    contents e' (CurrentFileName dbname) = contents e (CurrentFileName dbname)"
proof -
  obtain s' where s': "delete_version p s = Some s'" "version_set_ok u ukeys s' clients None" "vs_current s' = vs_current s"
    "vs_version_heap s' = (vs_version_heap s)(p := None)"
    "\<forall>q w. q \<noteq> p \<longrightarrow> vs_version_heap s q = Some w \<longrightarrow> (\<forall>l < kNumLevels. infos_at s' (v_files w) l = infos_at s (v_files w) l)"
    using comparator_contract.discard_ok [OF assms(1,2)] by blast
  let ?e = "case desc of None \<Rightarrow> e | Some w \<Rightarrow> env_delete_writable E (lw_dest w) e"
  have c: "contents ?e (CurrentFileName dbname) = contents e (CurrentFileName dbname)"
  proof (cases desc)
    case (Some w)
    then obtain m where "file_name (lw_dest w) = DescriptorFileName dbname m" using assms(4) by blast
    then show ?thesis using Some delete_writable [of e "lw_dest w"] names_differ(3) [of dbname m] by (simp add: untouched_def)
  qed simp
  show ?thesis
  proof (cases name)
    case None
    then show ?thesis using s' assms(3) by (auto simp: finish_edit_def)
  next
    case (Some n)
    then have n: "n = DescriptorFileName dbname num" using assms(5) by simp
    obtain sd ed where d: "env_DeleteFile E n ?e = (sd, ed)" by fastforce
    have "contents ed (CurrentFileName dbname) = contents ?e (CurrentFileName dbname)"
      using delete_file [OF d] names_differ(3) [of dbname num] unfolding n by (simp add: untouched_def)
    then show ?thesis using s' assms(3) Some d c by (auto simp: finish_edit_def Let_def)
  qed
qed

lemma finish_edit_installs:
  assumes "comparator_contract u ukeys" "version_set_ok u ukeys s clients (Some p)" "vs_version_heap s p = Some v" "Status_ok st"
  shows "\<exists>s' v'. finish_edit E edit p st name s desc e = Some (s', desc, e) \<and> version_set_ok u ukeys s' clients None \<and>
    vs_current s' = Some p \<and> vs_version_heap s' p = Some v' \<and> (\<forall>l < kNumLevels. infos_at s' (v_files v') l = infos_at s (v_files v) l) \<and>
    vs_log_number s' = ve_log_number edit \<and> vs_prev_log_number s' = ve_prev_log_number edit"
proof -
  obtain s1 v1 where s1: "AppendVersion p s = Some s1" "version_set_ok u ukeys s1 clients None" "vs_current s1 = Some p"
    "vs_version_heap s1 p = Some v1" "\<forall>l < kNumLevels. infos_at s1 (v_files v1) l = infos_at s (v_files v) l"
    using comparator_contract.install_ok [OF assms(1-3)] by blast
  let ?s = "s1\<lparr>vs_log_number := ve_log_number edit, vs_prev_log_number := ve_prev_log_number edit\<rparr>"
  have "version_set_ok u ukeys ?s clients None" by (rule version_set_ok_numbers [OF s1(2)]) simp_all
  moreover have "infos_at ?s = infos_at s1" by (simp add: fun_eq_iff infos_at_def file_at_def)
  ultimately show ?thesis using s1 assms(4) by (intro exI [of _ ?s] exI [of _ v1]) (simp add: finish_edit_def)
qed

end

text \<open>The manifest before an edit: none was written yet, or the open one leads to the current version.\<close>

definition manifest_before :: "('e \<Rightarrow> bytes \<Rightarrow> bytes option) \<Rightarrow> ('w \<Rightarrow> bytes) \<Rightarrow> ('w \<times> 'e \<Rightarrow> bool) \<Rightarrow> ('w \<times> 'e \<Rightarrow> bytes) \<Rightarrow>
    comparator \<Rightarrow> (bytes \<Rightarrow> bool) \<Rightarrow> bytes \<Rightarrow> version_edit list \<Rightarrow> version_edit \<Rightarrow> version_set \<Rightarrow> 'w log_writer option \<Rightarrow> 'e \<Rightarrow> bool" where
  "manifest_before contents file_name valid written u ukeys dbname edits edit s desc e \<longleftrightarrow>
     (case desc of
        None \<Rightarrow> edits = [] \<and> (\<exists>cur v. vs_current s = Some cur \<and> vs_version_heap s cur = Some v \<and> recordable u s v)
      | Some w \<Rightarrow> descriptor_ok contents file_name valid written dbname edits w e \<and> edits_describe u ukeys edits s \<and>
          set (new_ids edit) \<inter> set (concat (map new_ids edits)) = {})"

context env_contract
begin

lemma write_manifest_returns:
  assumes cc: "comparator_contract u ukeys" and pre: "manifest_before contents file_name valid written u ukeys dbname edits edit s desc e"
    and cur: "vs_current s = Some cur" "vs_version_heap s cur = Some v"
    and cur1: "vs_current s1 = Some cur" "vs_version_heap s1 cur = Some v1" "version_ok u ukeys s1 (v_files v1)"
      "\<forall>l < kNumLevels. infos_at s1 (v_files v1) l = infos_at s (v_files v) l" "short_pointers s \<longrightarrow> short_pointers s1"
    and app: "applicable u ukeys edit s" and edit: "prepare_edit edit s = Some edit'" "edit_ok edit"
      "ve_has_comparator edit \<longrightarrow> ve_comparator edit = cmp_Name u"
  shows "\<exists>st name desc1 e1 st' desc' e'. open_manifest E u dbname s1 desc e = Some (st, name, desc1, e1) \<and>
    log_edit E dbname (vs_manifest_file_number s1) edit' st name desc1 e1 = Some (st', desc', e') \<and>
    (name = None \<or> name = Some (DescriptorFileName dbname (vs_manifest_file_number s1))) \<and>
    (\<forall>w. desc' = Some w \<longrightarrow> (\<exists>m. file_name (lw_dest w) = DescriptorFileName dbname m)) \<and>
    (if Status_ok st' then \<exists>w edits'. desc' = Some w \<and> descriptor_ok contents file_name valid written dbname edits' w e' \<and>
       manifest_edits u ukeys edits' \<and> last edits' = edit' \<and> edits' \<noteq> [] \<and>
       (\<forall>l < kNumLevels. level_infos edits' l = next_infos edit l (infos_at s (v_files v) l))
     else contents e' (CurrentFileName dbname) = contents e (CurrentFileName dbname))"
proof -
  have e: "edit_fits ukeys edit" "\<forall>(l, m) \<in> set (ve_new_files edit). fm_number m \<notin> fst ` infos_at s (v_files v) (nat l)"
    "\<forall>l < kNumLevels. 0 < l \<longrightarrow> disjoint_infos u ukeys (next_infos edit l (infos_at s (v_files v) l))"
    using app cur by (simp_all add: applicable_def Let_def)
  let ?num = "vs_manifest_file_number s1" and ?d = "VersionEdit_EncodeTo edit' []"
  show ?thesis
  proof (cases desc)
    case None
    then have r: "recordable u s v" using pre cur by (auto simp: manifest_before_def)
    then have r1: "recordable u s1 v1" using cur1(4,5) by (simp add: recordable_def)
    let ?n = "DescriptorFileName dbname ?num" and ?snap = "snapshot_edit u s1 v1"
    let ?ds = "VersionEdit_EncodeTo ?snap []"
    obtain st desc1 e1 where o: "open_manifest E u dbname s1 None e = Some (st, Some ?n, desc1, e1)" "kept e e1 {?n}"
      "\<forall>w. desc1 = Some w \<longrightarrow> file_name (lw_dest w) = ?n \<and> valid (lw_dest w, e1)"
      "Status_ok st \<longrightarrow> (\<exists>w. desc1 = Some w \<and> log_at w e1 (log_bytes 0 [?ds]) (log_record_end 0 ?ds))"
      using open_manifest_returns [OF cur1(1,2) refl refl, where dbname = dbname and u = u and e = e] by blast
    have d1: "\<forall>w. desc1 = Some w \<longrightarrow> (\<exists>m. file_name (lw_dest w) = DescriptorFileName dbname m)" using o(3) by blast
    obtain st' desc' e' where l: "log_edit E dbname ?num edit' st (Some ?n) desc1 e1 = Some (st', desc', e')"
      "map_option (\<lambda>w. file_name (lw_dest w)) desc' = map_option (\<lambda>w. file_name (lw_dest w)) desc1"
      "contents e' (CurrentFileName dbname) = (if Status_ok st' then Some (base_name dbname ?n @ [0x0a]) else contents e1 (CurrentFileName dbname))"
      "Status_ok st' \<longrightarrow> Status_ok st \<and> (\<exists>w. desc' = Some w \<and>
         log_at w e' (log_bytes 0 [?ds] @ log_record (log_record_end 0 ?ds) ?d) (log_record_end (log_record_end 0 ?ds) ?d))"
      using log_edit_returns [OF d1 o(4) refl, where edit = edit' and num = ?num and name = "Some ?n"] by auto
    have n: "file_name (lw_dest w) = ?n" if w: "desc' = Some w" for w
      using l(2) o(3) w by (cases desc1) auto
    have "\<forall>(l, m) \<in> set (ve_new_files edit). fm_number m \<notin> fst ` infos_at s1 (v_files v1) (nat l)"
    proof
      fix x assume x: "x \<in> set (ve_new_files edit)"
      then have "nat (fst x) < kNumLevels" using e(1) by (fastforce simp: edit_fits_def new_ok_def level_ok_def nat_less_iff)
      then show "case x of (l, m) \<Rightarrow> fm_number m \<notin> fst ` infos_at s1 (v_files v1) (nat l)" using e(2) x cur1(4) by (auto simp: case_prod_beta)
    qed
    note sd = comparator_contract.snapshot_describes [OF cc cur1(3) r1 edit(1,2) e(1) edit(3) this]
    have "\<forall>l < kNumLevels. 0 < l \<longrightarrow> disjoint_infos u ukeys (next_infos edit l (infos_at s1 (v_files v1) l))" using e(3) cur1(4) by simp
    note sd = sd [OF this]
    have "descriptor_ok contents file_name valid written dbname [?snap, edit'] w e'" if w: "desc' = Some w" and ok: "Status_ok st'" for w
      using l(3,4) n [OF w] w ok by (auto simp: descriptor_ok_def log_at_def encoded_def)
    then have "Status_ok st' \<longrightarrow> (\<exists>w edits'. desc' = Some w \<and> descriptor_ok contents file_name valid written dbname edits' w e' \<and>
       manifest_edits u ukeys edits' \<and> last edits' = edit' \<and> edits' \<noteq> [] \<and>
       (\<forall>l < kNumLevels. level_infos edits' l = next_infos edit l (infos_at s (v_files v) l)))"
      using l(4) sd cur1(4) by (intro impI) (elim impE; auto intro!: exI [of _ "[?snap, edit']"])
    moreover have "contents e1 (CurrentFileName dbname) = contents e (CurrentFileName dbname)"
      using o(2) names_differ(3) [of dbname ?num] by (simp add: untouched_def)
    ultimately show ?thesis using None o(1) l(1,3) n by (intro exI conjI) auto
  next
    case (Some w)
    then have pre: "descriptor_ok contents file_name valid written dbname edits w e" "edits_describe u ukeys edits s"
      "set (new_ids edit) \<inter> set (concat (map new_ids edits)) = {}" using pre by (auto simp: manifest_before_def)
    obtain m where m: "file_name (lw_dest w) = DescriptorFileName dbname m" "contents e (CurrentFileName dbname) = Some (base_name dbname (DescriptorFileName dbname m) @ [0x0a])"
      using pre(1) by (auto simp: descriptor_ok_def)
    have o: "open_manifest E u dbname s1 desc e = Some (Status_OK, None, Some w, e)" using Some by (simp add: open_manifest_def)
    have at: "Status_ok Status_OK \<longrightarrow> (\<exists>w'. Some w = Some w' \<and> log_at w' e (log_bytes 0 (encoded edits)) (foldl log_record_end 0 (encoded edits)))"
      using pre(1) by (simp add: descriptor_ok_def log_at_def)
    obtain st' desc' e' where l: "log_edit E dbname ?num edit' Status_OK None (Some w) e = Some (st', desc', e')"
      "map_option (\<lambda>w. file_name (lw_dest w)) desc' = Some (DescriptorFileName dbname m)"
      "contents e' (CurrentFileName dbname) = contents e (CurrentFileName dbname)"
      "Status_ok st' \<longrightarrow> (\<exists>w. desc' = Some w \<and> log_at w e' (log_bytes 0 (encoded edits) @ log_record (foldl log_record_end 0 (encoded edits)) ?d)
         (log_record_end (foldl log_record_end 0 (encoded edits)) ?d))"
      using log_edit_returns [OF _ at refl, where dbname = dbname and edit = edit' and num = ?num and name = None] m(1) by auto
    have md: "manifest_edits u ukeys edits" "\<forall>l < kNumLevels. infos_at s (v_files v) l = level_infos edits l"
      using pre(2) cur by (auto simp: edits_describe_def)
    have "manifest_edits u ukeys (edits @ [edit'])"
      using md e(1,3) pre(3) edit by (intro manifest_edits_snoc [OF _ _ edit(1)]) (simp_all add: manifest_edits_def)
    moreover have "level_infos (edits @ [edit']) l = next_infos edit l (infos_at s (v_files v) l)" if "l < kNumLevels" for l
      using md(2) that prepared_same(1) [OF edit(1)] by simp
    moreover have "descriptor_ok contents file_name valid written dbname (edits @ [edit']) w' e'" if w': "desc' = Some w'" and ok: "Status_ok st'" for w'
      using l(2-4) m(2) w' ok by (auto simp: descriptor_ok_def log_at_def encoded_def log_bytes_append)
    ultimately have "Status_ok st' \<longrightarrow> (\<exists>w edits'. desc' = Some w \<and> descriptor_ok contents file_name valid written dbname edits' w e' \<and>
       manifest_edits u ukeys edits' \<and> last edits' = edit' \<and> edits' \<noteq> [] \<and>
       (\<forall>l < kNumLevels. level_infos edits' l = next_infos edit l (infos_at s (v_files v) l)))"
      using l(4) by (intro impI) (elim impE; auto intro!: exI [of _ "edits @ [edit']"])
    then show ?thesis using o l(1-3) by (intro exI conjI) auto
  qed
qed

lemma LogAndApply_returns:
  assumes cc: "comparator_contract u ukeys" and ok: "version_set_ok u ukeys s clients None" and app: "applicable u ukeys edit s"
    and edit: "prepare_edit edit s = Some edit'" "edit_ok edit" "ve_has_comparator edit \<longrightarrow> ve_comparator edit = cmp_Name u"
    and pre: "manifest_before contents file_name valid written u ukeys dbname edits edit s desc e"
    and cur: "vs_current s = Some cur" "vs_version_heap s cur = Some v"
  shows "\<exists>st s' desc' e' p' v'. LogAndApply E u dbname edit s desc e = Some (st, s', desc', e') \<and> version_set_ok u ukeys s' clients None \<and>
    vs_current s' = Some p' \<and> vs_version_heap s' p' = Some v' \<and>
    (if Status_ok st then (\<forall>l < kNumLevels. infos_at s' (v_files v') l = next_infos edit l (infos_at s (v_files v) l)) \<and>
       (\<exists>w edits'. desc' = Some w \<and> descriptor_ok contents file_name valid written dbname edits' w e' \<and> edits_describe u ukeys edits' s' \<and>
          rc_next_file (recovered edits') = vs_next_file_number s \<and> rc_last_sequence (recovered edits') = vs_last_sequence s)
     else (\<forall>l < kNumLevels. infos_at s' (v_files v') l = infos_at s (v_files v) l) \<and>
       contents e' (CurrentFileName dbname) = contents e (CurrentFileName dbname))"
proof -
  note d = prepare_editD [OF edit(1)]
  have app': "applicable u ukeys edit' s" using app by (simp add: prepared_same(3) [OF edit(1)])
  obtain p s1 vp v1 where b: "build_version u edit' s = Some (p, s1)" "version_set_ok u ukeys s1 clients (Some p)" "vs_version_heap s1 p = Some vp"
    "\<forall>l < kNumLevels. infos_at s1 (v_files vp) l = next_infos edit l (infos_at s (v_files v) l)" "vs_current s1 = Some cur"
    "vs_version_heap s1 cur = Some v1" "\<forall>l < kNumLevels. infos_at s1 (v_files v1) l = infos_at s (v_files v) l"
    using comparator_contract.build_ok [OF cc ok app' cur] unfolding prepared_same(1) [OF edit(1)] by blast
  have ptrs: "short_pointers s \<longrightarrow> short_pointers s1" using build_version_pointers [OF b(1)] d(12) edit(2) by blast
  obtain st name desc1 e1 st' desc2 e2 where w: "open_manifest E u dbname s1 desc e = Some (st, name, desc1, e1)"
    "log_edit E dbname (vs_manifest_file_number s1) edit' st name desc1 e1 = Some (st', desc2, e2)"
    "name = None \<or> name = Some (DescriptorFileName dbname (vs_manifest_file_number s1))"
    "\<forall>w. desc2 = Some w \<longrightarrow> (\<exists>m. file_name (lw_dest w) = DescriptorFileName dbname m)"
    "if Status_ok st' then \<exists>w edits'. desc2 = Some w \<and> descriptor_ok contents file_name valid written dbname edits' w e2 \<and>
       manifest_edits u ukeys edits' \<and> last edits' = edit' \<and> edits' \<noteq> [] \<and>
       (\<forall>l < kNumLevels. level_infos edits' l = next_infos edit l (infos_at s (v_files v) l))
     else contents e2 (CurrentFileName dbname) = contents e (CurrentFileName dbname)"
    using write_manifest_returns [OF cc pre cur b(5,6) version_set_ok_current [OF b(2,5,6)] b(7) ptrs app edit] by blast
  show ?thesis
  proof (cases "Status_ok st'")
    case False
    obtain s3 desc3 e3 where f: "finish_edit E edit' p st' name s1 desc2 e2 = Some (s3, desc3, e3)" "version_set_ok u ukeys s3 clients None"
      "vs_current s3 = vs_current s1" "vs_version_heap s3 = (vs_version_heap s1)(p := None)"
      "\<forall>q w. q \<noteq> p \<longrightarrow> vs_version_heap s1 q = Some w \<longrightarrow> (\<forall>l < kNumLevels. infos_at s3 (v_files w) l = infos_at s1 (v_files w) l)"
      "contents e3 (CurrentFileName dbname) = contents e2 (CurrentFileName dbname)"
      using finish_edit_fails [OF cc b(2) False w(4,3)] by blast
    have "p \<noteq> cur" using b(2,5) building_version(2) [of s1 "add_mset cur clients" p "{}" "{#}"] by (auto simp: version_set_ok_def)
    then show ?thesis using edit(1) b(1,5-7) w(1,2,5) f False by (auto simp: LogAndApply_def)
  next
    case True
    then obtain w' edits' where e': "desc2 = Some w'" "descriptor_ok contents file_name valid written dbname edits' w' e2"
      "manifest_edits u ukeys edits'" "last edits' = edit'" "edits' \<noteq> []"
      "\<forall>l < kNumLevels. level_infos edits' l = next_infos edit l (infos_at s (v_files v) l)" using w(5) by auto
    obtain s3 v3 where f: "finish_edit E edit' p st' name s1 desc2 e2 = Some (s3, desc2, e2)" "version_set_ok u ukeys s3 clients None"
      "vs_current s3 = Some p" "vs_version_heap s3 p = Some v3" "\<forall>l < kNumLevels. infos_at s3 (v_files v3) l = infos_at s1 (v_files vp) l"
      "vs_log_number s3 = ve_log_number edit'" "vs_prev_log_number s3 = ve_prev_log_number edit'"
      using finish_edit_installs [OF cc b(2,3) True] by blast
    have snoc: "edits' = butlast edits' @ [edit']" using e'(4,5) by (metis append_butlast_last_id)
    have r: "recovered edits' = recovery_update edit' (recovered (butlast edits'))" by (subst snoc) simp
    have "edits_describe u ukeys edits' s3"
      using e'(3,6) f(3-7) b(4) d(6,7) unfolding edits_describe_def r by (simp add: recovery_update_def Let_def)
    moreover have "rc_next_file (recovered edits') = vs_next_file_number s" "rc_last_sequence (recovered edits') = vs_last_sequence s"
      using d(8-11) unfolding r by (simp_all add: recovery_update_def Let_def)
    moreover have "LogAndApply E u dbname edit s desc e = Some (st', s3, desc2, e2)" using edit(1) b(1) w(1,2) f(1) by (simp add: LogAndApply_def)
    ultimately show ?thesis using True f(2-5) b(4) e'(1,2) by auto
  qed
qed

end

subsection \<open>Reading the manifest\<close>

text \<open>The builder after the edits \<open>edits\<close> of the manifest were applied to an empty version.\<close>

definition recovering :: "comparator \<Rightarrow> (bytes \<Rightarrow> bool) \<Rightarrow> version_set \<Rightarrow> version_ptr multiset \<Rightarrow> version_edit list \<Rightarrow> builder \<Rightarrow> version_set \<Rightarrow> bool" where
  "recovering u ukeys s0 holds edits b s \<longleftrightarrow> vs_inv s holds {} (all_added b) \<and> builder_inv u ukeys b s \<and> extends s0 s \<and>
     (\<forall>l < kNumLevels. {i \<in> added_infos b s l. fst i \<notin> deleted_at b l} = level_infos edits l \<and>
        (\<forall>i \<in> added_infos b s l. (int l, fst i) \<in> set (concat (map new_ids edits))))"

context comparator_contract
begin

lemma recover_record_returns:
  assumes J: "recovering c keys s0 holds past b s" and e: "edit_ok e" "edit_fits keys e" "ve_has_comparator e \<longrightarrow> ve_comparator e = cmp_Name c"
    and fresh: "set (new_ids e) \<inter> set (concat (map new_ids past)) = {}"
  shows "\<exists>b' s'. recover_record c (VersionEdit_EncodeTo e []) rc b s = Some (Status_OK, recovery_update e rc, b', s') \<and> b_base b' = b_base b \<and>
    recovering c keys s0 holds (past @ [e]) b' s'"
proof -
  let ?ids = "set (concat (map new_ids past))"
  have level: "nat l < kNumLevels" "int (nat l) = l" if "(l, m) \<in> set (ve_new_files e)" for l m
    using e(2) that by (auto simp: edit_fits_def new_ok_def level_ok_def nat_less_iff)
  have ids: "(l, fm_number m) \<notin> ?ids" if "(l, m) \<in> set (ve_new_files e)" for l m using fresh that by (force simp: new_ids_def)
  have "\<forall>(l, m) \<in> set (ve_new_files e). fm_number m \<notin> fst ` added_infos b s (nat l)"
  proof safe
    fix l m x assume n: "(l, m) \<in> set (ve_new_files e)" and x: "fm_number m = fst x" "x \<in> added_infos b s (nat l)"
    then have "(int (nat l), fst x) \<in> ?ids" using J level(1) unfolding recovering_def by blast
    then show False using ids [OF n] level(2) [OF n] x(1) by simp
  qed
  then obtain b' s' where a: "Builder_Apply c e b s = Some (b', s')" "vs_inv s' holds {} (all_added b')" "builder_inv c keys b' s'" "extends s s'"
    "b_base b' = b_base b" "\<forall>l < kNumLevels. added_infos b' s' l = added_infos b s l \<union> file_info ` news_at (ve_new_files e) l \<and>
       deleted_at b' l = (deleted_at b l \<union> deletions_at e l) - fm_number ` news_at (ve_new_files e) l"
    using Builder_Apply_inv [of s holds "{}" b e] J e(2) unfolding recovering_def by blast
  have "{i \<in> added_infos b' s' l. fst i \<notin> deleted_at b' l} = level_infos (past @ [e]) l" if l: "l < kNumLevels" for l
  proof -
    have old: "fst i \<notin> fm_number ` news_at (ve_new_files e) l" if i: "i \<in> added_infos b s l" for i
    proof
      assume "fst i \<in> fm_number ` news_at (ve_new_files e) l"
      then obtain m where "(int l, m) \<in> set (ve_new_files e)" "fst i = fm_number m" by (auto simp: news_at_def)
      then show False using ids J i l unfolding recovering_def by fastforce
    qed
    have "{i \<in> added_infos b' s' l. fst i \<notin> deleted_at b' l} =
        {i \<in> added_infos b s l. fst i \<notin> deleted_at b l \<and> fst i \<notin> deletions_at e l} \<union> file_info ` news_at (ve_new_files e) l"
    proof -
      have sets: "{i \<in> A \<union> N. fst i \<notin> (D \<union> F) - fst ` N} = {i \<in> A. fst i \<notin> D \<and> fst i \<notin> F} \<union> N"
        if "\<forall>i \<in> A. fst i \<notin> fst ` N" for A N :: "(u64 \<times> u64 \<times> InternalKey \<times> InternalKey) set" and D F using that by auto
      show ?thesis using sets [of "added_infos b s l" "file_info ` news_at (ve_new_files e) l"] old a(6) l by (simp add: fst_file_info)
    qed
    also have "\<dots> = next_infos e l {i \<in> added_infos b s l. fst i \<notin> deleted_at b l}" by (auto simp: next_infos_def)
    finally show ?thesis using J l by (simp add: recovering_def)
  qed
  moreover have "(int l, fst i) \<in> set (concat (map new_ids (past @ [e])))" if i: "l < kNumLevels" "i \<in> added_infos b' s' l" for l i
  proof (cases "i \<in> added_infos b s l")
    case True
    then show ?thesis using J i(1) by (simp add: recovering_def)
  next
    case False
    then obtain m where "(int l, m) \<in> set (ve_new_files e)" "i = file_info m" using a(6) i by (auto simp: news_at_def)
    then show ?thesis by (auto simp: new_ids_def file_info_def intro!: rev_image_eqI [where x = "(int l, m)"])
  qed
  moreover have "extends s0 s'" using J a(4) extends_trans unfolding recovering_def by blast
  ultimately have "recovering c keys s0 holds (past @ [e]) b' s'" using a(2,3) by (simp add: recovering_def)
  then show ?thesis using a(1,5) e(3) DecodeFrom_EncodeTo [OF e(1)] by (auto simp: recover_record_def Let_def)
qed

end

context sequential_file_contract
begin

lemma recover_loop_returns:
  assumes cc: "comparator_contract u ukeys" and "reader_at r off (log_bytes off (encoded edits) @ torn)"
    and "strict_prefix torn (log_record (foldl log_record_end off (encoded edits)) d)" "Status_ok st" "recovering u ukeys s0 holds past b s"
    and "\<forall>e \<in> set edits. edit_ok e \<and> edit_fits ukeys e \<and> (ve_has_comparator e \<longrightarrow> ve_comparator e = cmp_Name u)"
    and "distinct (concat (map new_ids (past @ edits)))"
  shows "\<exists>st' b' s' r'. recover_loop S u r st rc b s = Some (st', foldl (\<lambda>rc e. recovery_update e rc) rc edits, b', s', r') \<and> Status_ok st' \<and>
    b_base b' = b_base b \<and> recovering u ukeys s0 holds (past @ edits) b' s'"
  using assms(2-)
proof (induction edits arbitrary: r off st rc past b s)
  case Nil
  let ?r = "r\<lparr>lr_reporter := Some []\<rparr>"
  have "reader_at ?r off torn" using Nil.prems(1) by (simp add: reader_at_def encoded_def)
  from ReadRecord_cut [OF this, of d] Nil.prems(2) obtain r' where "ReadRecord S ?r = Some (False, [], r')" "lr_reporter r' = Some []"
    by (auto simp: encoded_def)
  then show ?case using Nil.prems(3,4) by (subst recover_loop.simps) (simp add: LogReporter_Corruption_def)
next
  case (Cons e edits)
  let ?r = "r\<lparr>lr_reporter := Some []\<rparr>" and ?d = "VersionEdit_EncodeTo e []"
  have "reader_at ?r off (log_record off ?d @ (log_bytes (log_record_end off ?d) (encoded edits) @ torn))"
    using Cons.prems(1) by (simp add: reader_at_def encoded_def)
  from ReadRecord_record [OF this] obtain r1 where r1: "ReadRecord S ?r = Some (True, ?d, r1)"
    "reader_at r1 (log_record_end off ?d) (log_bytes (log_record_end off ?d) (encoded edits) @ torn)" "lr_reporter r1 = Some []"
    by auto
  have e: "edit_ok e" "edit_fits ukeys e" "ve_has_comparator e \<longrightarrow> ve_comparator e = cmp_Name u" using Cons.prems(5) by simp_all
  have fresh: "set (new_ids e) \<inter> set (concat (map new_ids past)) = {}" using Cons.prems(6) by auto
  obtain b1 s1 where a: "recover_record u ?d rc b s = Some (Status_OK, recovery_update e rc, b1, s1)" "b_base b1 = b_base b"
    "recovering u ukeys s0 holds (past @ [e]) b1 s1"
    using comparator_contract.recover_record_returns [OF cc Cons.prems(4) e fresh] by blast
  have t: "strict_prefix torn (log_record (foldl log_record_end (log_record_end off ?d) (encoded edits)) d)"
    using Cons.prems(2) by (simp add: encoded_def)
  have "\<forall>e \<in> set edits. edit_ok e \<and> edit_fits ukeys e \<and> (ve_has_comparator e \<longrightarrow> ve_comparator e = cmp_Name u)"
    "distinct (concat (map new_ids ((past @ [e]) @ edits)))" using Cons.prems(5,6) by simp_all
  from Cons.IH [OF r1(2) t _ a(3) this, of Status_OK "recovery_update e rc"] obtain st' b' s' r' where
    "recover_loop S u r1 Status_OK (recovery_update e rc) b1 s1 =
       Some (st', foldl (\<lambda>rc e. recovery_update e rc) (recovery_update e rc) edits, b', s', r')"
    "Status_ok st'" "b_base b' = b_base b1" "recovering u ukeys s0 holds ((past @ [e]) @ edits) b' s'" by auto
  then show ?case using r1(1,3) a(1,2) Cons.prems(3) by (subst recover_loop.simps) (auto simp: LogReporter_Corruption_def)
qed

end

subsection \<open>Installing what was read\<close>

lemma vs_inv_scalars:
  assumes "vs_inv s holds building extra"
  shows "vs_inv (s\<lparr>vs_manifest_file_number := a, vs_next_file_number := b, vs_last_sequence := c, vs_log_number := d, vs_prev_log_number := f\<rparr>) holds building extra"
  using assms by (simp add: vs_inv_def)

context comparator_contract
begin

lemma install_recovered_returns:
  assumes J: "recovering c keys s0 {#cur, cur#} edits b s" and cur: "vs_current s0 = Some cur" "b_base b = cur" "vs_version_heap s0 cur = Some v"
      "v_files v = replicate kNumLevels []"
    and disj: "\<forall>l < kNumLevels. 0 < l \<longrightarrow> disjoint_infos c keys (level_infos edits l)"
  shows "\<exists>s' p v'. install_recovered c rc prev b s = Some s' \<and> vs_inv s' {#p, cur#} {} (all_added b) \<and> p \<noteq> cur \<and> vs_current s' = Some p \<and>
    vs_version_heap s' p = Some v' \<and> version_ok c keys s' (v_files v') \<and> (\<forall>l < kNumLevels. infos_at s' (v_files v') l = level_infos edits l) \<and>
    vs_manifest_file_number s' = rc_next_file rc \<and> vs_next_file_number s' = rc_next_file rc + 1 \<and> vs_last_sequence s' = rc_last_sequence rc \<and>
    vs_log_number s' = rc_log_number rc \<and> vs_prev_log_number s' = prev"
proof -
  have inv: "vs_inv s {#cur, cur#} {} (all_added b)" "builder_inv c keys b s" "extends s0 s"
    "\<forall>l < kNumLevels. {i \<in> added_infos b s l. fst i \<notin> deleted_at b l} = level_infos edits l" using J by (simp_all add: recovering_def)
  define p where "p = vs_fresh s"
  define s1 where "s1 = snd (new_version s)"
  have new: "new_version s = (p, s1)" by (simp add: p_def s1_def new_version_def)
  note n = new_version_inv [OF inv(1), folded p_def s1_def]
  have pc: "p \<noteq> cur" using n(3) by auto
  have f1: "vs_file_heap s1 = vs_file_heap s" "vs_current s1 = vs_current s" by (simp_all add: s1_def new_version_def)
  have base: "vs_version_heap s1 (b_base b) = Some v" using inv(3) cur pc by (simp add: s1_def new_version_def p_def extends_def)
  have b1: "builder_inv c keys b s1" "added_infos b s1 = added_infos b s"
    using inv(2) f1(1) by (simp_all add: builder_inv_def added_infos_def file_at_def fun_eq_iff)
  have v1: "version_ok c keys s1 (v_files v)" using cur(4) by (simp add: version_ok_def)
  have saved: "saved_infos b s1 (v_files v) l = level_infos edits l" if "l < kNumLevels" for l
    using inv(4) that cur(4) b1(2) by (simp add: saved_infos_def infos_at_def)
  have d1: "disjoint_infos c keys (saved_infos b s1 (v_files v) l)" if "l < kNumLevels" "0 < l" for l using disj saved that by simp
  obtain s2 v2 where s2: "Builder_SaveTo c b p s1 = Some s2" "vs_inv s2 {#cur, cur#} {p} (all_added b)"
    "vs_version_heap s2 = (vs_version_heap s1)(p \<mapsto> v2)" "vs_current s2 = vs_current s1" "version_ok c keys s2 (v_files v2)"
    "\<forall>l < kNumLevels. infos_at s2 (v_files v2) l = saved_infos b s1 (v_files v) l"
    using SaveTo_inv [OF n(1) b1(1) n(2) _ _ base v1 _ d1] pc cur(2,4) by (auto simp: version_make_def infos_at_def)
  have p2: "vs_version_heap s2 p = Some v2" by (simp add: s2(3))
  obtain v3 where f: "Finalize p s2 = Some (s2\<lparr>vs_version_heap := (vs_version_heap s2)(p \<mapsto> v3)\<rparr>)" "v_files v3 = v_files v2"
    "vs_inv (s2\<lparr>vs_version_heap := (vs_version_heap s2)(p \<mapsto> v3)\<rparr>) {#cur, cur#} {p} (all_added b)"
    using Finalize_inv [OF s2(2) p2] by blast
  define s3 where "s3 = s2\<lparr>vs_version_heap := (vs_version_heap s2)(p \<mapsto> v3)\<rparr>"
  have c3: "vs_current s3 = Some cur" "vs_version_heap s3 p = Some v3" "vs_file_heap s3 = vs_file_heap s2"
    using s2(4) f1(2) inv(3) cur(1) by (simp_all add: s3_def extends_def)
  obtain s4 v4 where s4: "AppendVersion p s3 = Some s4" "vs_inv s4 {#p, cur#} {} (all_added b)" "vs_current s4 = Some p"
    "files_kept (vs_file_heap s3) (vs_file_heap s4)" "vs_version_heap s4 p = Some v4" "v_files v4 = v_files v3"
    using AppendVersion_inv [of s3 cur "{#cur#}" p "{}" "all_added b" v3] f(3) c3 by (auto simp: s3_def)
  have "\<forall>f \<in> set (concat (v_files v4)). vs_file_heap s4 f \<noteq> None" using vs_inv_file [OF s4(2,5)] by blast
  then have ok4: "version_ok c keys s4 (v_files v4)" "\<And>l. l < kNumLevels \<Longrightarrow> infos_at s4 (v_files v4) l = infos_at s2 (v_files v2) l"
    using version_ok_later [OF s2(5) files_kept_infos [OF s4(4)[unfolded c3(3)]]] s4(6) f(2) by simp_all
  let ?s = "s4\<lparr>vs_manifest_file_number := rc_next_file rc, vs_next_file_number := rc_next_file rc + 1,
       vs_last_sequence := rc_last_sequence rc, vs_log_number := rc_log_number rc, vs_prev_log_number := prev\<rparr>"
  have "install_recovered c rc prev b s = Some ?s" using new s2(1) f(1) s4(1) by (simp add: install_recovered_def s3_def)
  moreover have "vs_inv ?s {#p, cur#} {} (all_added b)" by (rule vs_inv_scalars [OF s4(2)])
  moreover have "version_ok c keys ?s (v_files v4)" "infos_at ?s = infos_at s4" using ok4(1) by (simp_all add: version_ok_def file_at_def infos_at_def fun_eq_iff)
  ultimately show ?thesis using s4(3,5) ok4(2) s2(6) saved pc by (intro exI [of _ ?s] exI [of _ p] exI [of _ v4]) simp
qed

end

lemma recovering_mark: "recovering u ukeys s0 holds edits b s \<Longrightarrow> recovering u ukeys s0 holds edits b (MarkFileNumberUsed n s)"
proof -
  have "recovering u ukeys s0 holds edits b (s\<lparr>vs_next_file_number := m\<rparr>) = recovering u ukeys s0 holds edits b s" for m
    by (simp add: recovering_def vs_inv_def builder_inv_def added_infos_def file_at_def extends_def)
  then show "recovering u ukeys s0 holds edits b s \<Longrightarrow> recovering u ukeys s0 holds edits b (MarkFileNumberUsed n s)"
    by (simp add: MarkFileNumberUsed_def)
qed

lemma recovering_start:
  assumes "VersionSet_make = Some s"
  shows "\<exists>b s1 v. vs_current s = Some 0 \<and> Builder_make 0 s = Some (b, s1) \<and> b_base b = 0 \<and> recovering u ukeys s1 {#0, 0#} [] b s1 \<and>
    vs_current s1 = Some 0 \<and> vs_version_heap s1 0 = Some v \<and> v_files v = replicate kNumLevels []"
proof -
  have s: "vs_current s = Some 0" "vs_version_heap s 0 = Some (version_make\<lparr>v_refs := 1\<rparr>)"
    using assms(1) by (auto simp: VersionSet_make_def new_version_def AppendVersion_def Version_Ref_def version_make_def)
  have inv: "vs_inv s {#0#} {} {#}"
    using VersionSet_make_ok [OF assms] s(1) by (auto simp: version_set_ok_def)
  let ?v = "version_make\<lparr>v_refs := 2\<rparr>" and ?b = "\<lparr>b_base = 0, b_levels = replicate kNumLevels \<lparr>ls_deleted_files = {}, ls_added_files = []\<rparr>\<rparr>"
  let ?s = "s\<lparr>vs_version_heap := (vs_version_heap s)(0 \<mapsto> ?v)\<rparr>"
  have r: "Version_Ref 0 s = Some ?s" "vs_inv ?s {#0, 0#} {} {#}" using Version_Ref_inv [OF inv, of 0] s(2) by auto
  have "recovering u ukeys ?s {#0, 0#} [] ?b ?s" using r(2)
    by (simp add: recovering_def all_added_def builder_inv_def added_at_def deleted_at_def added_infos_def level_infos_def extends_refl)
  then show ?thesis using s(1) r(1) by (intro exI [of _ ?b] exI [of _ ?s] exI [of _ ?v]) (simp add: Builder_make_def version_make_def)
qed

lemma recovered_prev: "\<not> rc_have_prev_log_number (recovered edits) \<Longrightarrow> rc_prev_log_number (recovered edits) = 0"
  by (induction edits rule: rev_induct) (auto simp: recovered_def recovery_start_def recovery_update_def Let_def split: if_splits)

lemma DescriptorFileName_eq: "dbname @ lit ''/'' @ base_name dbname (DescriptorFileName dbname n) = DescriptorFileName dbname n"
  using length_decimal_06 [of n] by (simp add: DescriptorFileName_def base_name_def)

lemma Builder_destroy_scalars: "Builder_destroy b s = Some s' \<Longrightarrow> scalars s' = scalars s"
  by (auto simp: Builder_destroy_def bind_eq_Some_conv scalars_kept)

lemma destroy_installed:
  assumes inv: "vs_inv s {#p, cur#} {} (all_added b)" "b_base b = cur" "p \<noteq> cur" "vs_current s = Some p" "vs_version_heap s p = Some v"
    and ok: "version_ok u ukeys s (v_files v)"
  shows "\<exists>s'. Builder_destroy b s = Some s' \<and> version_set_ok u ukeys s' {#} None \<and> vs_current s' = Some p \<and> vs_version_heap s' p = Some v \<and>
    (\<forall>l < kNumLevels. infos_at s' (v_files v) l = infos_at s (v_files v) l) \<and> scalars s' = scalars s"
proof -
  have i: "vs_inv s (add_mset (b_base b) {#p#}) {} (all_added b)" using inv(1,2) by (simp add: add_mset_commute)
  obtain s' where s': "Builder_destroy b s = Some s'" "vs_inv s' {#p#} {} {#}" "files_kept (vs_file_heap s) (vs_file_heap s')"
    "\<forall>q. q \<noteq> cur \<longrightarrow> vs_version_heap s' q = vs_version_heap s q" "vs_current s' = vs_current s"
    using Builder_destroy_inv [OF i] inv(2) by blast
  have p: "vs_version_heap s' p = Some v" using s'(4) inv(3,5) by simp
  then have "\<forall>f \<in> set (concat (v_files v)). vs_file_heap s' f \<noteq> None" using vs_inv_file [OF s'(2)] by blast
  from version_ok_later [OF ok files_kept_infos [OF s'(3)] this]
  have later: "version_ok u ukeys s' (v_files v)" "\<forall>l < kNumLevels. infos_at s' (v_files v) l = infos_at s (v_files v) l" by blast+
  have "q = p" if "vs_version_heap s' q \<noteq> None" for q using s'(2) that by (auto simp: vs_inv_def versions_ok_def)
  then have "all_versions_ok u ukeys s'" using p later(1) unfolding all_versions_ok_def by (metis option.distinct(1) option.inject)
  then show ?thesis using s' p later(2) inv(4) Builder_destroy_scalars [OF s'(1)] by (auto simp: version_set_ok_def)
qed

context env_contract
begin

lemma Recover_returns:
  assumes cc: "comparator_contract u ukeys" and s: "VersionSet_make = Some s" and edits: "manifest_edits u ukeys edits" and e: "sound e"
    and current: "contents e (CurrentFileName dbname) = Some (base_name dbname (DescriptorFileName dbname n) @ [0x0a])"
    and manifest: "contents e (DescriptorFileName dbname n) = Some (log_bytes 0 (encoded edits) @ torn)"
    and torn: "strict_prefix torn (log_record (foldl log_record_end 0 (encoded edits)) d)"
  shows "\<exists>st s' e'. Recover E u False max_file_size dbname s desc e = Some (st, True, s', desc, e') \<and> Status_ok st \<and>
    version_set_ok u ukeys s' {#} None \<and> edits_describe u ukeys edits s' \<and> vs_manifest_file_number s' = rc_next_file (recovered edits) \<and>
    vs_next_file_number s' = rc_next_file (recovered edits) + 1 \<and> vs_last_sequence s' = rc_last_sequence (recovered edits)"
proof -
  let ?n = "DescriptorFileName dbname n" and ?S = "env_SequentialFile E"
  obtain st0 e0 where r0: "ReadFileToString E (CurrentFileName dbname) e = Some (st0, base_name dbname ?n @ [0x0a], e0)" "Status_ok st0" "sound e0"
    "contents e0 = contents e" using ReadFileToString_returns [OF e current] by blast
  obtain st1 f e1 where r1: "env_NewSequentialFile E ?n e0 = (st1, Some f, e1)" "Status_ok st1" "unread (f, e1) = log_bytes 0 (encoded edits) @ torn" "sound e1"
    using new_sequential [OF r0(3)] manifest r0(4) by metis
  obtain b s1 v where b: "vs_current s = Some 0" "Builder_make 0 s = Some (b, s1)" "b_base b = 0" "recovering u ukeys s1 {#0, 0#} [] b s1"
    "vs_current s1 = Some 0" "vs_version_heap s1 0 = Some v" "v_files v = replicate kNumLevels []"
    using recovering_start [OF s] by blast
  let ?R = "Reader_make (f, e1) (Some []) True 0" and ?rc = "recovered edits"
  have at: "sequential_file_contract.reader_at unread (\<lambda>f. sound (snd f)) ?R kBlockSize (log_bytes kBlockSize (encoded edits) @ torn)"
    using sequential_file_contract.fresh_reader_at [OF sequential, of "(f, e1)" "Some []" True] r1(3,4) by (simp add: log_bytes_block_start)
  have t: "strict_prefix torn (log_record (foldl log_record_end kBlockSize (encoded edits)) d)"
    using torn by (cases "encoded edits") (simp_all add: log_record_block_start)
  have me: "\<forall>e \<in> set edits. edit_ok e \<and> edit_fits ukeys e \<and> (ve_has_comparator e \<longrightarrow> ve_comparator e = cmp_Name u)"
    "distinct (concat (map new_ids ([] @ edits)))" "\<forall>l < kNumLevels. 0 < l \<longrightarrow> disjoint_infos u ukeys (level_infos edits l)"
    "recovery_status ?rc = Status_OK" using edits by (auto simp: manifest_edits_def)
  obtain st2 b2 s2 R2 where l: "recover_loop ?S u ?R Status_OK recovery_start b s1 = Some (st2, ?rc, b2, s2, R2)" "Status_ok st2" "b_base b2 = b_base b"
    "recovering u ukeys s1 {#0, 0#} edits b2 s2"
    using sequential_file_contract.recover_loop_returns [OF sequential cc at t _ b(4) me(1,2), of Status_OK recovery_start] by (auto simp: recovered_def)
  define prev where "prev = (if rc_have_prev_log_number ?rc then rc_prev_log_number ?rc else 0)"
  have prev: "prev = rc_prev_log_number ?rc" using recovered_prev [of edits] by (auto simp: prev_def)
  let ?s3 = "MarkFileNumberUsed (rc_log_number ?rc) (MarkFileNumberUsed prev s2)"
  obtain s4 p v4 where i: "install_recovered u ?rc prev b2 ?s3 = Some s4" "vs_inv s4 {#p, 0#} {} (all_added b2)" "p \<noteq> 0" "vs_current s4 = Some p"
    "vs_version_heap s4 p = Some v4" "version_ok u ukeys s4 (v_files v4)" "\<forall>l < kNumLevels. infos_at s4 (v_files v4) l = level_infos edits l"
    "vs_manifest_file_number s4 = rc_next_file ?rc" "vs_next_file_number s4 = rc_next_file ?rc + 1" "vs_last_sequence s4 = rc_last_sequence ?rc"
    "vs_log_number s4 = rc_log_number ?rc" "vs_prev_log_number s4 = prev"
    using comparator_contract.install_recovered_returns [OF cc recovering_mark [OF recovering_mark [OF l(4)]] b(5) _ b(6,7) me(3)] l(3) b(3) by metis
  obtain s5 where d: "Builder_destroy b2 s4 = Some s5" "version_set_ok u ukeys s5 {#} None" "vs_current s5 = Some p" "vs_version_heap s5 p = Some v4"
    "\<forall>l < kNumLevels. infos_at s5 (v_files v4) l = infos_at s4 (v_files v4) l" "scalars s5 = scalars s4"
    using destroy_installed [OF i(2) _ i(3-6)] l(3) b(3) by auto
  have "Recover E u False max_file_size dbname s desc e =
      Some (Status_OK, True, s5, desc, env_delete_sequential E (fst (lr_file R2)) (snd (lr_file R2)))"
    using r0(1,2) r1(1,2) b(1,2) l(1,2) me(4) i(1) d(1)
    by (simp add: Recover_def DescriptorFileName_eq [simplified] ReuseManifest_def Let_def prev_def [symmetric])
  moreover have "edits_describe u ukeys edits s5"
    using edits d(3-6) i(7,11,12) prev by (simp add: edits_describe_def scalars_def)
  ultimately show ?thesis using d(2,6) i(8-10) by (simp add: scalars_def)
qed

end

subsection \<open>Disks without faults\<close>

text \<open>What holds of every call of the file holds of the record.\<close>

lemma AddRecord_all:
  assumes app: "\<And>f d s f'. P f \<Longrightarrow> wf_Append W f d = Some (s, f') \<Longrightarrow> Q s \<and> P f'"
    and flush: "\<And>f s f'. P f \<Longrightarrow> wf_Flush W f = Some (s, f') \<Longrightarrow> Q s \<and> P f'"
    and run: "AddRecord W data w = Some (s, w')" "P (lw_dest w)"
  shows "Q s \<and> P (lw_dest w')"
proof -
  have sw: "P (lw_dest w')" if "switch_block W w = Some w'" "P (lw_dest w)" for w w'
    using that app by (auto simp: switch_block_def Let_def bind_eq_Some_conv split: if_splits)
  have emit: "Q s \<and> P (lw_dest w')" if em: "EmitPhysicalRecord W t d w = Some (s, w')" "P (lw_dest w)" for t d w s w'
  proof -
    obtain s1 f1 where 1: "wf_Append W (lw_dest w) (record_header (lw_type_crc w) t d) = Some (s1, f1)"
      using em(1) by (auto simp: EmitPhysicalRecord_def bind_eq_Some_conv)
    note a1 = app [OF em(2) 1]
    show ?thesis
    proof (cases "Status_ok s1")
      case True
      then obtain s2 f2 where 2: "wf_Append W f1 d = Some (s2, f2)" using em(1) 1 by (auto simp: EmitPhysicalRecord_def bind_eq_Some_conv)
      note a2 = app [OF conjunct2 [OF a1] 2]
      show ?thesis
      proof (cases "Status_ok s2")
        case True
        with \<open>Status_ok s1\<close> obtain s3 f3 where 3: "wf_Flush W f2 = Some (s3, f3)"
          using em(1) 1 2 by (auto simp: EmitPhysicalRecord_def bind_eq_Some_conv)
        then show ?thesis using em(1) 1 2 \<open>Status_ok s1\<close> True flush [OF conjunct2 [OF a2] 3] by (auto simp: EmitPhysicalRecord_def)
      qed (use em(1) 1 2 True a2 in \<open>auto simp: EmitPhysicalRecord_def\<close>)
    qed (use em(1) 1 a1 in \<open>auto simp: EmitPhysicalRecord_def\<close>)
  qed
  have "W' = W \<longrightarrow> P (lw_dest w) \<longrightarrow> Q (fst r) \<and> P (lw_dest (snd r))" if "AddRecord_loop W' first data w = Some r" for W' first data w r
  proof (rule AddRecord_loop.raw_induct [OF _ that])
    fix loop W' first data w r
    assume IH: "\<And>W' first data w r. loop W' first data w = Some r \<Longrightarrow> W' = W \<longrightarrow> P (lw_dest w) \<longrightarrow> Q (fst r) \<and> P (lw_dest (snd r))"
      and step: "switch_block W' w \<bind> (\<lambda>w. let avail = kBlockSize - lw_block_offset w - kHeaderSize;
           fragment_length = if length data < avail then length data else avail; end = length data = fragment_length;
           type = if first \<and> end then kFullType else if first then kFirstType else if end then kLastType else kMiddleType
         in EmitPhysicalRecord W' type (take fragment_length data) w \<bind> (\<lambda>(s, w).
           if Status_ok s \<and> 0 < length data - fragment_length then loop W' False (drop fragment_length data) w else Some (s, w))) = Some r"
    show "W' = W \<longrightarrow> P (lw_dest w) \<longrightarrow> Q (fst r) \<and> P (lw_dest (snd r))"
    proof (intro impI)
      assume W: "W' = W" and P: "P (lw_dest w)"
      obtain w1 where 1: "switch_block W w = Some w1" using step W by (auto simp: bind_eq_Some_conv)
      then obtain t n s2 w2 where 2: "EmitPhysicalRecord W t (take n data) w1 = Some (s2, w2)"
        "(if Status_ok s2 \<and> 0 < length data - n then loop W False (drop n data) w2 else Some (s2, w2)) = Some r"
        using step W by (auto simp: Let_def bind_eq_Some_conv)
      have "Q s2 \<and> P (lw_dest w2)" by (rule emit [OF 2(1) sw [OF 1 P]])
      then show "Q (fst r) \<and> P (lw_dest (snd r))" using 2(2) IH [of W False "drop n data" w2 r] by (auto split: if_splits)
    qed
  qed
  then show ?thesis using run unfolding AddRecord_def by fastforce
qed

lemma mem_log_ok:
  assumes "log_AddRecord mem_env d w e = Some (st, w', e')" "mf_faults e = []"
  shows "Status_ok st \<and> mf_faults e' = []"
proof -
  obtain w1 where w1: "AddRecord (env_WritableFile mem_env) d (writer_with w e) = Some (st, w1)" "e' = snd (lw_dest w1)"
    using assms(1) by (auto simp: log_AddRecord_def bind_eq_Some_conv)
  have "Status_ok st \<and> mf_faults (snd (lw_dest w1)) = []"
    by (rule AddRecord_all [where P = "\<lambda>f. mf_faults (snd f) = []" and Q = Status_ok, OF _ _ w1(1)])
      (use assms(2) in \<open>auto simp: mem_env_def mem_flush_def mem_try_def writer_with_def\<close>)
  then show ?thesis using w1(2) by simp
qed

lemma mem_SetCurrentFile_ok: "SetCurrentFile mem_env dbname n e = Some (st, e') \<Longrightarrow> mf_faults e = [] \<Longrightarrow> Status_ok st \<and> mf_faults e' = []"
  by (auto simp: SetCurrentFile_def WriteStringToFileSync_def DoWriteStringToFile_def mem_env_def mem_open_def mem_flush_def mem_try_def Let_def
      split: if_splits)

lemma mem_open_manifest_ok:
  assumes "open_manifest mem_env u dbname s None e = Some (st, name, desc, e')" "mf_faults e = []"
  shows "Status_ok st" "mf_faults e' = []"
proof -
  let ?n = "DescriptorFileName dbname (vs_manifest_file_number s)"
  have "env_NewWritableFile mem_env ?n e = (Status_OK, Some \<lparr>mw_name = ?n, mw_buf = []\<rparr>, e\<lparr>mf_files := (mf_files e)(?n \<mapsto> [])\<rparr>)"
    using assms(2) by (simp add: mem_env_def mem_open_def mem_try_def)
  then obtain d w where "log_AddRecord mem_env d (Writer_make \<lparr>mw_name = ?n, mw_buf = []\<rparr>) (e\<lparr>mf_files := (mf_files e)(?n \<mapsto> [])\<rparr>) = Some (st, w, e')"
    using assms(1) by (auto simp: open_manifest_def WriteSnapshot_def Let_def bind_eq_Some_conv)
  from mem_log_ok [OF this] assms(2) show "Status_ok st" "mf_faults e' = []" by simp_all
qed

lemma mem_LogAndApply_ok:
  assumes run: "LogAndApply mem_env u dbname edit s None e = Some (st, s', desc', e')" and e: "mf_faults e = []"
  shows "Status_ok st \<and> mf_faults e' = []"
proof -
  obtain edit' p s1 st1 name desc1 e1 st2 desc2 e2 where r: "open_manifest mem_env u dbname s1 None e = Some (st1, name, desc1, e1)"
    "log_edit mem_env dbname (vs_manifest_file_number s1) edit' st1 name desc1 e1 = Some (st2, desc2, e2)"
    "finish_edit mem_env edit' p st2 name s1 desc2 e2 = Some (s', desc', e')" "st = st2"
    using run by (auto simp: LogAndApply_def bind_eq_Some_conv)
  note 1 = mem_open_manifest_ok [OF r(1) e]
  obtain w where w: "desc1 = Some w" using r(2) 1(1) by (auto simp: log_edit_def bind_eq_Some_conv)
  obtain st3 w3 e3 where 3: "log_AddRecord mem_env (VersionEdit_EncodeTo edit' []) w e1 = Some (st3, w3, e3)"
    using r(2) 1(1) w by (auto simp: log_edit_def bind_eq_Some_conv)
  note ok3 = mem_log_ok [OF 3 1(2)]
  obtain st4 f4 e4 where 4: "wf_Sync (env_WritableFile mem_env) (lw_dest w3, e3) = Some (st4, f4, e4)"
    using r(2) 1(1) w 3 ok3 by (auto simp: log_edit_def bind_eq_Some_conv)
  have ok4: "Status_ok st4" "mf_faults e4 = []" using 4 ok3 by (auto simp: mem_env_def mem_flush_def mem_try_def)
  have 5: "(if name \<noteq> None then SetCurrentFile mem_env dbname (vs_manifest_file_number s1) e4 else Some (st4, e4)) = Some (st2, e2)"
    using r(2) 1(1) w 3 ok3 4 ok4 by (auto simp: log_edit_def bind_eq_Some_conv split: if_splits)
  have ok5: "Status_ok st2" "mf_faults e2 = []" using 5 ok4 mem_SetCurrentFile_ok by (auto split: if_splits)
  then show ?thesis using r(3,4) by (auto simp: finish_edit_def bind_eq_Some_conv)
qed

subsection \<open>Properties\<close>

text \<open>
  C10: \<open>LogAndApply\<close> returns whatever the files do.  When its status is OK the edit is the last record of
  the manifest, \<open>CURRENT\<close> names the manifest, its edits lead to the current version, and that is the old one with the edit applied;
  otherwise the current version has the files it had and \<open>CURRENT\<close> is as before.  Either way no
  version and no file record leaks.
\<close>

theorem LogAndApply_installs_or_restores:
  assumes "env_contract E contents file_name valid written unread sound" "comparator_contract u ukeys"
    and "version_set_ok u ukeys s clients None" "applicable u ukeys edit s" "prepare_edit edit s = Some edit'" "edit_ok edit"
    and "ve_has_comparator edit \<longrightarrow> ve_comparator edit = cmp_Name u"
    and "manifest_before contents file_name valid written u ukeys dbname edits edit s desc e"
    and "vs_current s = Some cur" "vs_version_heap s cur = Some v"
  shows "\<exists>st s' desc' e' p' v'. LogAndApply E u dbname edit s desc e = Some (st, s', desc', e') \<and> version_set_ok u ukeys s' clients None \<and>
    vs_current s' = Some p' \<and> vs_version_heap s' p' = Some v' \<and>
    (if Status_ok st
     then (\<forall>l < kNumLevels. infos_at s' (v_files v') l = next_infos edit l (infos_at s (v_files v) l)) \<and>
       (\<exists>edits'. manifest_files (contents e') dbname edits' \<and> edits_describe u ukeys edits' s')
     else (\<forall>l < kNumLevels. infos_at s' (v_files v') l = infos_at s (v_files v) l) \<and>
       contents e' (CurrentFileName dbname) = contents e (CurrentFileName dbname))"
  using env_contract.LogAndApply_returns [OF assms(1-3,4,5,6,7-10)] by (fastforce dest: descriptor_ok_files)

text \<open>An empty directory, the first version set and the sample edit.\<close>

definition empty_disk :: mem_files where
  "empty_disk = \<lparr>mf_files = (\<lambda>_. None), mf_faults = []\<rparr>"

lemma sample_setting:
  assumes "VersionSet_make = Some s"
  obtains v edit' where "vs_current s = Some 0" "vs_version_heap s 0 = Some v" "recordable BytewiseComparator s v" "prepare_edit sample_edit s = Some edit'"
    "edit_ok sample_edit" "ve_has_comparator sample_edit \<longrightarrow> ve_comparator sample_edit = cmp_Name BytewiseComparator"
    "manifest_before mf_files mw_name mem_valid mem_written BytewiseComparator (\<lambda>_. True) dbname [] sample_edit s None e"
    "\<forall>l < kNumLevels. next_infos sample_edit l (infos_at s (v_files v) l) = (if l = 1 then {file_info (sample_file 4 1 3)} else {})"
proof -
  let ?v = "version_make\<lparr>v_refs := 1\<rparr>"
  have v: "vs_current s = Some 0" "vs_version_heap s 0 = Some ?v" "recordable BytewiseComparator s ?v" "\<forall>l < kNumLevels. infos_at s (v_files ?v) l = {}"
    using assms by (auto simp: VersionSet_make_def new_version_def AppendVersion_def Version_Ref_def version_make_def recordable_def infos_at_def
        short_pointers_def BytewiseComparator_sel)
  have e: "edit_ok sample_edit" "prepare_edit sample_edit s \<noteq> None" "\<not> ve_has_comparator sample_edit"
    by (simp_all add: edit_ok_def sample_edit_def VersionEdit_make_def prepare_edit_def new_file_ok_def sample_file_def FileMetaData_make_def
        level_ok_def kNumLevels_def Let_def)
  obtain edit' where p: "prepare_edit sample_edit s = Some edit'" using e(2) by blast
  have "next_infos sample_edit l {} = (if l = 1 then {file_info (sample_file 4 1 3)} else {})" for l
    by (auto simp: next_infos_def news_at_def sample_edit_def)
  then show thesis using v e by (intro that [OF v(1-3) p e(1)]) (auto simp: manifest_before_def)
qed

theorem LogAndApply_installs_or_restores_witness:
  "\<exists>s st s' desc' e' p' v'. VersionSet_make = Some s \<and>
    LogAndApply mem_env BytewiseComparator (lit ''/db'') sample_edit s None empty_disk = Some (st, s', desc', e') \<and> Status_ok st \<and>
    vs_current s' = Some p' \<and> vs_version_heap s' p' = Some v' \<and> infos_at s' (v_files v') 1 = {file_info (sample_file 4 1 3)} \<and>
    mf_files e' (CurrentFileName (lit ''/db'')) \<noteq> None"
proof -
  obtain s where s: "VersionSet_make = Some s" using VersionSet_make_returns by blast
  obtain v edit' where S: "vs_current s = Some 0" "vs_version_heap s 0 = Some v" "recordable BytewiseComparator s v" "prepare_edit sample_edit s = Some edit'"
    "edit_ok sample_edit" "ve_has_comparator sample_edit \<longrightarrow> ve_comparator sample_edit = cmp_Name BytewiseComparator"
    "manifest_before mf_files mw_name mem_valid mem_written BytewiseComparator (\<lambda>_. True) (lit ''/db'') [] sample_edit s None empty_disk"
    "\<forall>l < kNumLevels. next_infos sample_edit l (infos_at s (v_files v) l) = (if l = 1 then {file_info (sample_file 4 1 3)} else {})"
    using sample_setting [OF s] by metis
  obtain st s' desc' e' p' v' where r: "LogAndApply mem_env BytewiseComparator (lit ''/db'') sample_edit s None empty_disk = Some (st, s', desc', e')"
    "vs_current s' = Some p'" "vs_version_heap s' p' = Some v'"
    "if Status_ok st
     then (\<forall>l < kNumLevels. infos_at s' (v_files v') l = next_infos sample_edit l (infos_at s (v_files v) l)) \<and>
       (\<exists>edits'. manifest_files (mf_files e') (lit ''/db'') edits' \<and> edits_describe BytewiseComparator (\<lambda>_. True) edits' s')
     else (\<forall>l < kNumLevels. infos_at s' (v_files v') l = infos_at s (v_files v) l) \<and>
       mf_files e' (CurrentFileName (lit ''/db'')) = mf_files empty_disk (CurrentFileName (lit ''/db''))"
    using LogAndApply_installs_or_restores [OF mem_files.env_contract_axioms, OF bytewise.comparator_contract_axioms VersionSet_make_ok [OF s]
        sample_edit_applicable [OF s] S(4-7,1,2)] by blast
  have "Status_ok st" using mem_LogAndApply_ok [OF r(1)] by (simp add: empty_disk_def)
  moreover have "1 < kNumLevels" by (simp add: kNumLevels_def)
  ultimately show ?thesis using s r S(8) by (fastforce simp: manifest_files_def)
qed

text \<open>
  C11: \<open>Recover\<close> rebuilds the version from the files: when \<open>CURRENT\<close> names a manifest with the records of the
  edits, it returns OK and the current version has exactly the files that the edits lead to, with their log
  numbers, file number and sequence number.  A record that a crash left incomplete at the end of the manifest changes nothing.
\<close>

theorem Recover_restores_version:
  assumes "env_contract E contents file_name valid written unread sound" "comparator_contract u ukeys"
    and "VersionSet_make = Some s" "manifest_edits u ukeys edits" "sound e"
    and "contents e (CurrentFileName dbname) = Some (base_name dbname (DescriptorFileName dbname n) @ [0x0a])"
    and "contents e (DescriptorFileName dbname n) = Some (log_bytes 0 (encoded edits) @ torn)"
    and "strict_prefix torn (log_record (foldl log_record_end 0 (encoded edits)) lost)"
  shows "\<exists>st s' e'. Recover E u False max_file_size dbname s desc e = Some (st, True, s', desc, e') \<and> Status_ok st \<and>
    version_set_ok u ukeys s' {#} None \<and> edits_describe u ukeys edits s' \<and> vs_manifest_file_number s' = rc_next_file (recovered edits) \<and>
    vs_next_file_number s' = rc_next_file (recovered edits) + 1 \<and> vs_last_sequence s' = rc_last_sequence (recovered edits)"
  by (rule env_contract.Recover_returns [OF assms])

theorem Recover_restores_version_witness:
  "\<exists>s edit' st s' e' p v. VersionSet_make = Some s \<and> prepare_edit sample_edit s = Some edit' \<and>
    Recover mem_env BytewiseComparator False 0 (lit ''/db'') s None
      \<lparr>mf_files = [CurrentFileName (lit ''/db'') \<mapsto> base_name (lit ''/db'') (DescriptorFileName (lit ''/db'') 5) @ [0x0a],
         DescriptorFileName (lit ''/db'') 5 \<mapsto> log_bytes 0 (encoded [edit'])], mf_faults = []\<rparr> = Some (st, True, s', None, e') \<and>
    Status_ok st \<and> vs_current s' = Some p \<and> vs_version_heap s' p = Some v \<and> infos_at s' (v_files v) 1 = {file_info (sample_file 4 1 3)}"
proof -
  obtain s where s: "VersionSet_make = Some s" using VersionSet_make_returns by blast
  obtain v edit' where S: "vs_current s = Some 0" "vs_version_heap s 0 = Some v" "prepare_edit sample_edit s = Some edit'"
    "edit_ok sample_edit" "ve_has_comparator sample_edit \<longrightarrow> ve_comparator sample_edit = cmp_Name BytewiseComparator"
    "\<forall>l < kNumLevels. next_infos sample_edit l (infos_at s (v_files v) l) = (if l = 1 then {file_info (sample_file 4 1 3)} else {})"
    using sample_setting [OF s] by metis
  have inf: "infos_at s (v_files v) l = {}" if "l < kNumLevels" for l
    using applicable_start(1) [OF s that] S(2) by simp
  have app: "edit_fits (\<lambda>_. True) sample_edit"
    "\<forall>l < kNumLevels. 0 < l \<longrightarrow> disjoint_infos BytewiseComparator (\<lambda>_. True) (next_infos sample_edit l (level_infos [] l))"
    using sample_edit_applicable [OF s] S(1,2) inf by (auto simp: applicable_def level_infos_def Let_def)
  have "manifest_edits BytewiseComparator (\<lambda>_. True) ([] @ [edit'])"
    by (rule manifest_edits_snoc [OF _ _ S(3,4) app(1) S(5) _ app(2)]) simp_all
  then have m: "manifest_edits BytewiseComparator (\<lambda>_. True) [edit']" by simp
  let ?e = "\<lparr>mf_files = [CurrentFileName (lit ''/db'') \<mapsto> base_name (lit ''/db'') (DescriptorFileName (lit ''/db'') 5) @ [0x0a],
         DescriptorFileName (lit ''/db'') 5 \<mapsto> log_bytes 0 (encoded [edit'])], mf_faults = []\<rparr>"
  have sound: "mem_sound ?e" by (simp add: mem_sound_def)
  have files: "mf_files ?e (CurrentFileName (lit ''/db'')) = Some (base_name (lit ''/db'') (DescriptorFileName (lit ''/db'') 5) @ [0x0a])"
    "mf_files ?e (DescriptorFileName (lit ''/db'') 5) = Some (log_bytes 0 (encoded [edit']) @ [])"
    using names_differ(3) [of "lit ''/db''" 5] by (simp_all del: lit_Cons)
  have torn: "strict_prefix [] (log_record (foldl log_record_end 0 (encoded [edit'])) [])"
    by (simp add: strict_prefix_def not_sym [OF log_record_not_Nil])
  obtain st s' e' where r: "Recover mem_env BytewiseComparator False 0 (lit ''/db'') s None ?e = Some (st, True, s', None, e')" "Status_ok st"
    "edits_describe BytewiseComparator (\<lambda>_. True) [edit'] s'"
    using Recover_restores_version [OF mem_files.env_contract_axioms, OF bytewise.comparator_contract_axioms s m sound files torn, of 0 None] by blast
  obtain p w where c: "vs_current s' = Some p" "vs_version_heap s' p = Some w" "\<forall>l < kNumLevels. infos_at s' (v_files w) l = level_infos [edit'] l"
    using r(3) by (auto simp: edits_describe_def)
  have "1 < kNumLevels" by (simp add: kNumLevels_def)
  then have "infos_at s' (v_files w) 1 = {file_info (sample_file 4 1 3)}"
    using c(3) S(6) [rule_format, of 1] inf [of 1] prepared_same(1) [OF S(3)] by (simp add: level_infos_def)
  then show ?thesis using s S(3) r(1,2) c(1,2) by blast
qed

text \<open>
  C9: a version that \<open>LogAndApply\<close> installed survives a restart: \<open>Recover\<close> on the files as it left them gives
  a version with the same files at every level, the same log numbers and the same last sequence number, and a next
  file number that no logged file has reached.
\<close>

theorem logged_version_survives_restart:
  assumes "env_contract E contents file_name valid written unread sound" "comparator_contract u ukeys"
    and "version_set_ok u ukeys s clients None" "applicable u ukeys edit s" "prepare_edit edit s = Some edit'" "edit_ok edit"
    and "ve_has_comparator edit \<longrightarrow> ve_comparator edit = cmp_Name u"
    and "manifest_before contents file_name valid written u ukeys dbname edits edit s desc e"
    and "vs_current s = Some cur" "vs_version_heap s cur = Some v" "VersionSet_make = Some s0"
  shows "\<exists>st s' desc' e' p' v'. LogAndApply E u dbname edit s desc e = Some (st, s', desc', e') \<and> vs_current s' = Some p' \<and>
    vs_version_heap s' p' = Some v' \<and>
    (Status_ok st \<and> sound e' \<longrightarrow> (\<exists>st2 s2 e2 p2 v2. Recover E u False max_file_size dbname s0 None e' = Some (st2, True, s2, None, e2) \<and> Status_ok st2 \<and>
       version_set_ok u ukeys s2 {#} None \<and> vs_current s2 = Some p2 \<and> vs_version_heap s2 p2 = Some v2 \<and>
       (\<forall>l < kNumLevels. infos_at s2 (v_files v2) l = infos_at s' (v_files v') l) \<and> vs_log_number s2 = vs_log_number s' \<and>
       vs_prev_log_number s2 = vs_prev_log_number s' \<and> vs_last_sequence s2 = vs_last_sequence s \<and> vs_next_file_number s2 = vs_next_file_number s + 1))"
proof -
  obtain st s' desc' e' p' v' where r: "LogAndApply E u dbname edit s desc e = Some (st, s', desc', e')" "vs_current s' = Some p'" "vs_version_heap s' p' = Some v'"
    "Status_ok st \<longrightarrow> (\<exists>w edits'. descriptor_ok contents file_name valid written dbname edits' w e' \<and> edits_describe u ukeys edits' s' \<and>
       rc_next_file (recovered edits') = vs_next_file_number s \<and> rc_last_sequence (recovered edits') = vs_last_sequence s)"
    using env_contract.LogAndApply_returns [OF assms(1-10)] by (metis (no_types, lifting))
  have "\<exists>st2 s2 e2 p2 v2. Recover E u False max_file_size dbname s0 None e' = Some (st2, True, s2, None, e2) \<and> Status_ok st2 \<and>
       version_set_ok u ukeys s2 {#} None \<and> vs_current s2 = Some p2 \<and> vs_version_heap s2 p2 = Some v2 \<and>
       (\<forall>l < kNumLevels. infos_at s2 (v_files v2) l = infos_at s' (v_files v') l) \<and> vs_log_number s2 = vs_log_number s' \<and>
       vs_prev_log_number s2 = vs_prev_log_number s' \<and> vs_last_sequence s2 = vs_last_sequence s \<and> vs_next_file_number s2 = vs_next_file_number s + 1"
    if st: "Status_ok st" and sound: "sound e'"
  proof -
    obtain w edits' where d: "descriptor_ok contents file_name valid written dbname edits' w e'" "edits_describe u ukeys edits' s'"
      "rc_next_file (recovered edits') = vs_next_file_number s" "rc_last_sequence (recovered edits') = vs_last_sequence s" using r(4) st by blast
    obtain n where n: "contents e' (CurrentFileName dbname) = Some (base_name dbname (DescriptorFileName dbname n) @ [0x0a])"
      "contents e' (DescriptorFileName dbname n) = Some (log_bytes 0 (encoded edits') @ [])"
      using descriptor_ok_files [OF d(1)] by (auto simp: manifest_files_def)
    have t: "strict_prefix [] (log_record (foldl log_record_end 0 (encoded edits')) [])" by (simp add: strict_prefix_def not_sym [OF log_record_not_Nil])
    have me: "manifest_edits u ukeys edits'" using d(2) by (simp add: edits_describe_def)
    obtain st2 s2 e2 where s2: "Recover E u False max_file_size dbname s0 None e' = Some (st2, True, s2, None, e2)" "Status_ok st2"
      "version_set_ok u ukeys s2 {#} None" "edits_describe u ukeys edits' s2" "vs_next_file_number s2 = rc_next_file (recovered edits') + 1"
      "vs_last_sequence s2 = rc_last_sequence (recovered edits')"
      using env_contract.Recover_returns [OF assms(1,2,11) me sound n t, of max_file_size None] by blast
    obtain p2 v2 where c: "vs_current s2 = Some p2" "vs_version_heap s2 p2 = Some v2" "\<forall>l < kNumLevels. infos_at s2 (v_files v2) l = level_infos edits' l"
      using s2(4) by (auto simp: edits_describe_def)
    show ?thesis using s2 c d(2-4) r(2,3) by (intro exI [of _ st2] exI [of _ s2] exI [of _ e2] exI [of _ p2] exI [of _ v2]) (auto simp: edits_describe_def)
  qed
  then show ?thesis using r(1-3) by blast
qed

theorem logged_version_survives_restart_witness:
  "\<exists>s st s' desc' e' st2 s2 e2 p2 v2. VersionSet_make = Some s \<and>
    LogAndApply mem_env BytewiseComparator (lit ''/db'') sample_edit s None empty_disk = Some (st, s', desc', e') \<and> Status_ok st \<and>
    Recover mem_env BytewiseComparator False 0 (lit ''/db'') s None e' = Some (st2, True, s2, None, e2) \<and> Status_ok st2 \<and>
    vs_current s2 = Some p2 \<and> vs_version_heap s2 p2 = Some v2"
proof -
  obtain s where s: "VersionSet_make = Some s" using VersionSet_make_returns by blast
  obtain v edit' where S: "vs_current s = Some 0" "vs_version_heap s 0 = Some v" "recordable BytewiseComparator s v" "prepare_edit sample_edit s = Some edit'"
    "edit_ok sample_edit" "ve_has_comparator sample_edit \<longrightarrow> ve_comparator sample_edit = cmp_Name BytewiseComparator"
    "manifest_before mf_files mw_name mem_valid mem_written BytewiseComparator (\<lambda>_. True) (lit ''/db'') [] sample_edit s None empty_disk"
    using sample_setting [OF s] by metis
  note survives = logged_version_survives_restart [OF mem_files.env_contract_axioms, OF bytewise.comparator_contract_axioms VersionSet_make_ok [OF s]
      sample_edit_applicable [OF s] S(4-7,1,2) s, of 0]
  from survives obtain st s' desc' e' where r: "LogAndApply mem_env BytewiseComparator (lit ''/db'') sample_edit s None empty_disk = Some (st, s', desc', e')"
    by blast
  have ok: "Status_ok st \<and> mf_faults e' = []" using mem_LogAndApply_ok [OF r] by (simp add: empty_disk_def)
  then have "Status_ok st \<and> mem_sound e'" by (simp add: mem_sound_def)
  with survives r obtain st2 s2 e2 p2 v2 where "Recover mem_env BytewiseComparator False 0 (lit ''/db'') s None e' = Some (st2, True, s2, None, e2)"
    "Status_ok st2" "vs_current s2 = Some p2" "vs_version_heap s2 p2 = Some v2" by (metis (no_types, lifting) Pair_inject option.inject)
  then show ?thesis using s r ok by blast
qed

end
