(* ===== verification/Compaction.thy ===== *)
theory Compaction
  imports Version_Steps
begin

text \<open>
  \<^verbatim>\<open>db/version_set.cc\<close>, compactions: the class \<open>Compaction\<close>, the choice of its inputs, and the decisions of
  \<open>DBImpl::DoCompactionWork\<close> in \<^verbatim>\<open>db/db_impl.cc\<close> about the entries it merges.  \<open>files\<close> are the files of the
  input version by level, \<open>max_file_size\<close> is the option of that name.
\<close>

subsection \<open>The class\<close>

record compaction =
  c_level :: int
  c_max_output_file_size :: u64
  c_input_version :: "version_ptr option"
  c_edit :: version_edit
  c_inputs0 :: "file_meta list"
  c_inputs1 :: "file_meta list"
  c_grandparents :: "file_meta list"
  c_grandparent_index :: nat
  c_seen_key :: bool
  c_overlapped_bytes :: i64
  c_level_ptrs :: "nat list"

definition Compaction_make :: "u64 \<Rightarrow> int \<Rightarrow> compaction" where
  "Compaction_make max_file_size level = \<lparr>c_level = level, c_max_output_file_size = MaxFileSizeForLevel max_file_size level,
     c_input_version = None, c_edit = VersionEdit_make, c_inputs0 = [], c_inputs1 = [], c_grandparents = [], c_grandparent_index = 0,
     c_seen_key = False, c_overlapped_bytes = 0, c_level_ptrs = replicate kNumLevels 0\<rparr>"

definition Compaction_destroy :: "compaction \<Rightarrow> version_set \<Rightarrow> version_set option" where
  "Compaction_destroy c s = (case c_input_version c of None \<Rightarrow> Some s | Some p \<Rightarrow> Version_Unref p s)"

definition ReleaseInputs :: "compaction \<Rightarrow> version_set \<Rightarrow> (compaction \<times> version_set) option" where
  "ReleaseInputs c s =
     (case c_input_version c of
        None \<Rightarrow> Some (c, s)
      | Some p \<Rightarrow> do { s \<leftarrow> Version_Unref p s; Some (c\<lparr>c_input_version := None\<rparr>, s) })"

definition IsTrivialMove :: "u64 \<Rightarrow> compaction \<Rightarrow> bool" where
  "IsTrivialMove max_file_size c \<longleftrightarrow> length (c_inputs0 c) = 1 \<and> length (c_inputs1 c) = 0 \<and>
     sint (TotalFileSize (c_grandparents c)) \<le> sint (MaxGrandParentOverlapBytes max_file_size)"

definition AddInputDeletions :: "compaction \<Rightarrow> version_edit \<Rightarrow> version_edit" where
  "AddInputDeletions c edit =
     (let edit = foldl (\<lambda>edit f. VersionEdit_DeleteFile (c_level c) (fm_number f) edit) edit (c_inputs0 c)
      in foldl (\<lambda>edit f. VersionEdit_DeleteFile (c_level c + 1) (fm_number f) edit) edit (c_inputs1 c))"

text \<open>One level of \<open>IsBaseLevelForKey\<close>: the pointer moves to the first file that ends at or after the key.\<close>

function base_level_ptr :: "comparator \<Rightarrow> bytes \<Rightarrow> file_meta list \<Rightarrow> nat \<Rightarrow> nat \<times> bool" where
  "base_level_ptr u user_key files ptr =
     (if ptr < length files then
        let f = files ! ptr
        in if cmp_Compare u user_key (file_limit f) \<le> 0
           then (ptr, 0 \<le> cmp_Compare u user_key (file_start f))
           else base_level_ptr u user_key files (ptr + 1)
      else (ptr, False))"
  by pat_completeness auto
termination by (relation "measure (\<lambda>(_, _, files, ptr). length files - ptr)") auto

declare base_level_ptr.simps [simp del]

primrec base_levels :: "comparator \<Rightarrow> bytes \<Rightarrow> file_meta list list \<Rightarrow> nat list \<Rightarrow> nat list \<Rightarrow> bool \<times> nat list" where
  "base_levels u user_key files [] ptrs = (True, ptrs)"
| "base_levels u user_key files (lvl # lvls) ptrs =
     (let (ptr, inside) = base_level_ptr u user_key (files ! lvl) (ptrs ! lvl);
          ptrs = ptrs[lvl := ptr]
      in if inside then (False, ptrs) else base_levels u user_key files lvls ptrs)"

definition IsBaseLevelForKey :: "comparator \<Rightarrow> file_meta list list \<Rightarrow> bytes \<Rightarrow> compaction \<Rightarrow> bool \<times> compaction" where
  "IsBaseLevelForKey u files user_key c =
     (let (base, ptrs) = base_levels u user_key files [nat (c_level c + 2)..<kNumLevels] (c_level_ptrs c)
      in (base, c\<lparr>c_level_ptrs := ptrs\<rparr>))"

function skip_grandparents :: "comparator \<Rightarrow> bytes \<Rightarrow> compaction \<Rightarrow> compaction" where
  "skip_grandparents u internal_key c =
     (if c_grandparent_index c < length (c_grandparents c) \<and>
         0 < InternalKeyComparator_Compare u internal_key (fm_largest (c_grandparents c ! c_grandparent_index c))
      then skip_grandparents u internal_key
        (c\<lparr>c_overlapped_bytes := (if c_seen_key c then c_overlapped_bytes c + fm_file_size (c_grandparents c ! c_grandparent_index c)
             else c_overlapped_bytes c),
           c_grandparent_index := c_grandparent_index c + 1\<rparr>)
      else c)"
  by pat_completeness auto
termination by (relation "measure (\<lambda>(_, _, c). length (c_grandparents c) - c_grandparent_index c)") auto

declare skip_grandparents.simps [simp del]

definition ShouldStopBefore :: "comparator \<Rightarrow> u64 \<Rightarrow> bytes \<Rightarrow> compaction \<Rightarrow> bool \<times> compaction" where
  "ShouldStopBefore u max_file_size internal_key c =
     (let c = (skip_grandparents u internal_key c)\<lparr>c_seen_key := True\<rparr>
      in if sint (MaxGrandParentOverlapBytes max_file_size) < sint (c_overlapped_bytes c)
         then (True, c\<lparr>c_overlapped_bytes := 0\<rparr>) else (False, c))"

subsection \<open>Choosing the inputs\<close>

text \<open>Growing the inputs of the level without growing those of the next; the two ranges and the files come back.\<close>

definition expand_inputs :: "comparator \<Rightarrow> u64 \<Rightarrow> file_meta list list \<Rightarrow> compaction \<Rightarrow> InternalKey \<times> InternalKey \<Rightarrow> InternalKey \<times> InternalKey \<Rightarrow>
    (compaction \<times> (InternalKey \<times> InternalKey) \<times> InternalKey \<times> InternalKey) option" where
  "expand_inputs u max_file_size files c rng all =
     (if c_inputs1 c = [] then Some (c, rng, all)
      else do {
        expanded0 \<leftarrow> GetOverlappingInputs u files (c_level c) (Some (fst all)) (Some (snd all));
        expanded0 \<leftarrow> AddBoundaryInputs u (files ! nat (c_level c)) expanded0;
        let inputs1_size = TotalFileSize (c_inputs1 c);
        let expanded0_size = TotalFileSize expanded0;
        if length (c_inputs0 c) < length expanded0 \<and>
           sint (inputs1_size + expanded0_size) < sint (ExpandedCompactionByteSizeLimit max_file_size)
        then do {
          new_range \<leftarrow> GetRange u expanded0;
          expanded1 \<leftarrow> GetOverlappingInputs u files (c_level c + 1) (Some (fst new_range)) (Some (snd new_range));
          if length expanded1 = length (c_inputs1 c)
          then do {
            all \<leftarrow> GetRange2 u expanded0 expanded1;
            Some (c\<lparr>c_inputs0 := expanded0, c_inputs1 := expanded1\<rparr>, new_range, all) }
          else Some (c, rng, all) }
        else Some (c, rng, all) })"

definition SetupOtherInputs :: "comparator \<Rightarrow> u64 \<Rightarrow> file_meta list list \<Rightarrow> compaction \<Rightarrow> version_set \<Rightarrow> (compaction \<times> version_set) option" where
  "SetupOtherInputs u max_file_size files c s =
     (if c_level c < 0 \<or> int kNumLevels \<le> c_level c then None
      else do {
        inputs0 \<leftarrow> AddBoundaryInputs u (files ! nat (c_level c)) (c_inputs0 c);
        rng \<leftarrow> GetRange u inputs0;
        inputs1 \<leftarrow> GetOverlappingInputs u files (c_level c + 1) (Some (fst rng)) (Some (snd rng));
        all \<leftarrow> GetRange2 u inputs0 inputs1;
        (c, rng, all) \<leftarrow> expand_inputs u max_file_size files (c\<lparr>c_inputs0 := inputs0, c_inputs1 := inputs1\<rparr>) rng all;
        c \<leftarrow> (if c_level c + 2 < int kNumLevels
              then do { grandparents \<leftarrow> GetOverlappingInputs u files (c_level c + 2) (Some (fst all)) (Some (snd all));
                        Some (c\<lparr>c_grandparents := grandparents\<rparr>) }
              else Some c);
        Some (c\<lparr>c_edit := SetCompactPointer (c_level c) (snd rng) (c_edit c)\<rparr>,
              s\<lparr>vs_compact_pointer := (vs_compact_pointer s)[nat (c_level c) := snd rng]\<rparr>) })"

text \<open>The first file past the compaction pointer, or the first of the level.\<close>

definition next_input :: "comparator \<Rightarrow> bytes \<Rightarrow> file_meta list \<Rightarrow> file_meta option" where
  "next_input u compact_pointer files =
     (case find (\<lambda>f. compact_pointer = [] \<or> 0 < InternalKeyComparator_Compare u (fm_largest f) compact_pointer) files of
        Some f \<Rightarrow> Some f
      | None \<Rightarrow> (case files of [] \<Rightarrow> None | f # _ \<Rightarrow> Some f))"

definition PickCompaction :: "comparator \<Rightarrow> u64 \<Rightarrow> version_set \<Rightarrow> (compaction option \<times> version_set) option" where
  "PickCompaction u max_file_size s = do {
     p \<leftarrow> vs_current s;
     v \<leftarrow> vs_version_heap s p;
     let files = version_files s v;
     picked \<leftarrow>
       (if 1 \<le> v_compaction_score v then
          (let level = v_compaction_level v in
           if level < 0 \<or> int kNumLevels \<le> level + 1 then None
           else do {
             f \<leftarrow> next_input u (vs_compact_pointer s ! nat level) (files ! nat level);
             Some (Some (level, f)) })
        else case v_file_to_compact v of
          Some f \<Rightarrow> do { m \<leftarrow> vs_file_heap s f; Some (Some (v_file_to_compact_level v, m)) }
        | None \<Rightarrow> Some None);
     (case picked of
        None \<Rightarrow> Some (None, s)
      | Some (level, f) \<Rightarrow> do {
          s \<leftarrow> Version_Ref p s;
          inputs0 \<leftarrow> (if level = 0
             then do {
               rng \<leftarrow> GetRange u [f];
               inputs \<leftarrow> GetOverlappingInputs u files 0 (Some (fst rng)) (Some (snd rng));
               if inputs = [] then None else Some inputs }
             else Some [f]);
          (c, s) \<leftarrow> SetupOtherInputs u max_file_size files
            ((Compaction_make max_file_size level)\<lparr>c_input_version := Some p, c_inputs0 := inputs0\<rparr>) s;
          Some (Some c, s) }) }"

text \<open>The files of a range up to the one that reaches the limit.\<close>

fun limit_inputs :: "u64 \<Rightarrow> u64 \<Rightarrow> file_meta list \<Rightarrow> file_meta list" where
  "limit_inputs limit so_far [] = []"
| "limit_inputs limit so_far (f # fs) =
     (if limit \<le> so_far + fm_file_size f then [f] else f # limit_inputs limit (so_far + fm_file_size f) fs)"

definition CompactRange :: "comparator \<Rightarrow> u64 \<Rightarrow> int \<Rightarrow> InternalKey option \<Rightarrow> InternalKey option \<Rightarrow> version_set \<Rightarrow>
    (compaction option \<times> version_set) option" where
  "CompactRange u max_file_size level begin_key end_key s = do {
     p \<leftarrow> vs_current s;
     v \<leftarrow> vs_version_heap s p;
     let files = version_files s v;
     inputs \<leftarrow> GetOverlappingInputs u files level begin_key end_key;
     if inputs = [] then Some (None, s)
     else do {
       let inputs = (if 0 < level then limit_inputs (MaxFileSizeForLevel max_file_size level) 0 inputs else inputs);
       s \<leftarrow> Version_Ref p s;
       (c, s) \<leftarrow> SetupOtherInputs u max_file_size files
         ((Compaction_make max_file_size level)\<lparr>c_input_version := Some p, c_inputs0 := inputs\<rparr>) s;
       Some (Some c, s) } }"

text \<open>The largest overlap of a file with the next level; only statistics use it.\<close>

definition MaxNextLevelOverlappingBytes :: "comparator \<Rightarrow> version_set \<Rightarrow> i64 option" where
  "MaxNextLevelOverlappingBytes u s = do {
     p \<leftarrow> vs_current s;
     v \<leftarrow> vs_version_heap s p;
     let files = version_files s v;
     foldl (\<lambda>result (level, f). do {
         result \<leftarrow> result;
         overlaps \<leftarrow> GetOverlappingInputs u files (int level + 1) (Some (fm_smallest f)) (Some (fm_largest f));
         let sum = TotalFileSize overlaps;
         Some (if sint result < sint sum then sum else result) })
       (Some 0) (concat (map (\<lambda>level. map (Pair level) (files ! level)) [1..<kNumLevels - 1])) }"

subsection \<open>Dropping entries\<close>

text \<open>
  The part of the loop of \<open>DoCompactionWork\<close> that decides about an entry: the user key it is at, if the
  last key parsed, and the sequence number of the last entry of it.
\<close>

record drop_state =
  d_current_user_key :: "bytes option"
  d_last_sequence_for_key :: u64

definition drop_start :: drop_state where
  "drop_start = \<lparr>d_current_user_key = None, d_last_sequence_for_key = kMaxSequenceNumber\<rparr>"

definition drop_entry :: "comparator \<Rightarrow> file_meta list list \<Rightarrow> u64 \<Rightarrow> bytes \<Rightarrow> drop_state \<Rightarrow> compaction \<Rightarrow> bool \<times> drop_state \<times> compaction" where
  "drop_entry u files smallest_snapshot key d c =
     (case ParseInternalKey key of
        None \<Rightarrow> (False, drop_start, c)
      | Some ikey \<Rightarrow>
          let d = (case d_current_user_key d of
                     Some k \<Rightarrow> if cmp_Compare u (pik_user_key ikey) k \<noteq> 0
                       then \<lparr>d_current_user_key = Some (pik_user_key ikey), d_last_sequence_for_key = kMaxSequenceNumber\<rparr> else d
                   | None \<Rightarrow> \<lparr>d_current_user_key = Some (pik_user_key ikey), d_last_sequence_for_key = kMaxSequenceNumber\<rparr>);
              (dropped, c) =
                (if d_last_sequence_for_key d \<le> smallest_snapshot then (True, c)
                 else if pik_type ikey = kTypeDeletion \<and> pik_sequence ikey \<le> smallest_snapshot
                 then IsBaseLevelForKey u files (pik_user_key ikey) c
                 else (False, c))
          in (dropped, d\<lparr>d_last_sequence_for_key := pik_sequence ikey\<rparr>, c))"

text \<open>The entries of the merged input that are kept.\<close>

primrec kept_entries :: "comparator \<Rightarrow> file_meta list list \<Rightarrow> u64 \<Rightarrow> (bytes \<times> bytes) list \<Rightarrow> drop_state \<Rightarrow> compaction \<Rightarrow> (bytes \<times> bytes) list" where
  "kept_entries u files smallest_snapshot [] d c = []"
| "kept_entries u files smallest_snapshot (e # es) d c =
     (let (dropped, d, c) = drop_entry u files smallest_snapshot (fst e) d c
      in if dropped then kept_entries u files smallest_snapshot es d c
         else e # kept_entries u files smallest_snapshot es d c)"

end
