(* ===== verification/Compaction_Correct.thy ===== *)
theory Compaction_Correct
  imports Compaction "HOL-Library.Sublist"
begin

text \<open>
  What a compaction must not change.  Reads go through the levels and take the newest entry at or below
  their snapshot; the entries that \<open>DoCompactionWork\<close> drops make no difference to any read at a
  snapshot that is still alive.
\<close>

subsection \<open>Reading entries\<close>

abbreviation entry_user_key :: "bytes \<times> bytes \<Rightarrow> bytes" where
  "entry_user_key e \<equiv> ExtractUserKey (fst e)"

definition entry_sequence :: "bytes \<times> bytes \<Rightarrow> u64" where
  "entry_sequence e = pik_sequence (the (ParseInternalKey (fst e)))"

text \<open>The first entry of a user key at or below a snapshot, which in a sorted list is the newest one.\<close>

definition visible_entry :: "comparator \<Rightarrow> (bytes \<times> bytes) list \<Rightarrow> bytes \<Rightarrow> u64 \<Rightarrow> (bytes \<times> bytes) option" where
  "visible_entry u es k s = find (\<lambda>e. cmp_Compare u (entry_user_key e) k = 0 \<and> entry_sequence e \<le> s) es"

definition read_value :: "(bytes \<times> bytes) option \<Rightarrow> bytes option" where
  "read_value r = (case r of None \<Rightarrow> None | Some e \<Rightarrow>
     if pik_type (the (ParseInternalKey (fst e))) = kTypeValue then Some (snd e) else None)"

text \<open>
  The entries of files in the order in which reads visit them: an entry that comes later is an older one of its key.
\<close>

definition age_ordered :: "comparator \<Rightarrow> (bytes \<times> bytes) list \<Rightarrow> bool" where
  "age_ordered u es \<longleftrightarrow> sorted_wrt (\<lambda>a b. cmp_Compare u (entry_user_key a) (entry_user_key b) = 0 \<longrightarrow> entry_sequence b < entry_sequence a) es"

lemma visible_entry_Nil [simp]: "visible_entry u [] k s = None"
  by (simp add: visible_entry_def)

lemma visible_entry_Cons: "visible_entry u (e # es) k s =
    (if cmp_Compare u (entry_user_key e) k = 0 \<and> entry_sequence e \<le> s then Some e else visible_entry u es k s)"
  by (simp add: visible_entry_def)

lemma visible_entry_NoneI: "\<forall>e \<in> set es. cmp_Compare u (entry_user_key e) k \<noteq> 0 \<Longrightarrow> visible_entry u es k s = None"
  by (force simp: visible_entry_def find_None_iff)

lemma visible_entry_append: "visible_entry u (es @ es') k s =
    (case visible_entry u es k s of Some e \<Rightarrow> Some e | None \<Rightarrow> visible_entry u es' k s)"
  by (induction es) (simp_all add: visible_entry_Cons)

lemma parsed_user_key: "ParseInternalKey k = Some p \<Longrightarrow> pik_user_key p = ExtractUserKey k"
  by (auto simp: ParseInternalKey_def ExtractUserKey_def Let_def split: if_splits)

subsection \<open>The base level\<close>

definition levels_ok :: "comparator \<Rightarrow> (bytes \<Rightarrow> bool) \<Rightarrow> file_meta list list \<Rightarrow> bool" where
  "levels_ok u ukeys files \<longleftrightarrow> length files = kNumLevels \<and> (\<forall>l < kNumLevels. (\<forall>f \<in> set (files ! l). file_ok u ukeys f) \<and> (0 < l \<longrightarrow> level_files_ok u ukeys (files ! l)))"

text \<open>The pointers have only passed files that end before the key.\<close>

definition ptrs_before :: "comparator \<Rightarrow> file_meta list list \<Rightarrow> nat list \<Rightarrow> bytes \<Rightarrow> bool" where
  "ptrs_before u files ptrs k \<longleftrightarrow> length ptrs = kNumLevels \<and>
     (\<forall>l < kNumLevels. ptrs ! l \<le> length (files ! l) \<and> (\<forall>i < ptrs ! l. cmp_Compare u (file_limit (files ! l ! i)) k < 0))"

definition in_range :: "comparator \<Rightarrow> bytes \<Rightarrow> file_meta \<Rightarrow> bool" where
  "in_range u k f \<longleftrightarrow> cmp_Compare u (file_start f) k \<le> 0 \<and> cmp_Compare u k (file_limit f) \<le> 0"

context comparator_contract
begin

lemma level_file_keys:
  assumes "level_files_ok c keys files" "f \<in> set files"
  shows "keys (file_start f)" "keys (file_limit f)" "cmp_Compare c (file_start f) (file_limit f) \<le> 0"
proof -
  have ok: "file_ok c keys f" using assms by (simp add: level_files_ok_def)
  then show "keys (file_start f)" "keys (file_limit f)" by (simp_all add: file_ok_def key_ok_def)
  show "cmp_Compare c (file_start f) (file_limit f) \<le> 0"
    using ok key_ok_internal [of keys] by (auto simp: file_ok_def InternalKeyComparator_Compare_simps)
qed

lemma level_files_apart:
  assumes "level_files_ok c keys files" "i < j" "j < length files"
  shows "cmp_Compare c (file_limit (files ! i)) (file_start (files ! j)) \<le> 0"
proof -
  have "InternalKeyComparator_Compare c (fm_largest (files ! i)) (fm_smallest (files ! j)) < 0"
    using assms by (simp add: level_files_ok_def sorted_wrt_iff_nth_less)
  then show ?thesis by (auto simp: InternalKeyComparator_Compare_simps)
qed

lemma base_level_ptr_exact:
  assumes ok: "level_files_ok c keys files" and k: "keys k" and "ptr \<le> length files" "\<forall>i < ptr. cmp_Compare c (file_limit (files ! i)) k < 0"
  shows "fst (base_level_ptr c k files ptr) \<le> length files \<and>
    (\<forall>i < fst (base_level_ptr c k files ptr). cmp_Compare c (file_limit (files ! i)) k < 0) \<and>
    (snd (base_level_ptr c k files ptr) \<longleftrightarrow> (\<exists>f \<in> set files. in_range c k f))"
  using assms(3,4)
proof (induction "length files - ptr" arbitrary: ptr rule: less_induct)
  case less
  show ?case
  proof (cases "ptr < length files \<and> \<not> cmp_Compare c k (file_limit (files ! ptr)) \<le> 0")
    case True
    have f: "files ! ptr \<in> set files" using True by simp
    then have "cmp_Compare c (file_limit (files ! ptr)) k < 0"
      using True compare_flip [OF level_file_keys(2) [OF ok f] k] by simp
    then have "\<forall>i < Suc ptr. cmp_Compare c (file_limit (files ! i)) k < 0" using less.prems(2) by (simp add: less_Suc_eq)
    moreover have "length files - Suc ptr < length files - ptr" "Suc ptr \<le> length files" using conjunct1 [OF True] by linarith+
    ultimately show ?thesis using less.hyps [of "Suc ptr"] True by (subst (1 2 3) base_level_ptr.simps) (simp add: Let_def)
  next
    case stop: False
    have none: "\<not> in_range c k f" if i: "i < length files" "f = files ! i" "cmp_Compare c (file_limit f) k < 0 \<or> cmp_Compare c k (file_start f) < 0" for f i
      using i level_file_keys [OF ok, of f] compare_flip [of "file_limit f" k] compare_flip [of k "file_start f"] k by (auto simp: in_range_def)
    show ?thesis
    proof (cases "ptr < length files")
      case False
      then have "\<not> in_range c k f" if "f \<in> set files" for f
        using that less.prems none by (metis in_set_conv_nth le_less_trans not_le_imp_less order.strict_trans2)
      then show ?thesis using False less.prems by (subst (1 2 3) base_level_ptr.simps) auto
    next
      case True
      let ?f = "files ! ptr"
      have f: "?f \<in> set files" using True by simp
      note fk = level_file_keys [OF ok f]
      have le: "cmp_Compare c k (file_limit ?f) \<le> 0" using stop True by simp
      have inside: "0 \<le> cmp_Compare c k (file_start ?f) \<longleftrightarrow> in_range c k ?f"
        using le compare_le_iff [OF k fk(1)] by (simp add: in_range_def)
      have "in_range c k ?f" if g: "g \<in> set files" "in_range c k g" for g
      proof (rule ccontr)
        assume "\<not> in_range c k ?f"
        then have before: "cmp_Compare c k (file_start ?f) < 0" using inside by simp
        obtain j where j: "j < length files" "g = files ! j" using g(1) by (metis in_set_conv_nth)
        note gk = level_file_keys [OF ok g(1)]
        consider "j < ptr" | "j = ptr" | "ptr < j" by linarith
        then show False
        proof cases
          case 1
          then show False using less.prems(2) none [OF j(1,2)] g(2) j(2) by blast
        next
          case 2
          then show False using g(2) j(2) \<open>\<not> in_range c k ?f\<close> by simp
        next
          case 3
          have "cmp_Compare c (file_start ?f) (file_start g) \<le> 0"
            using compare_trans [OF fk(1,2) gk(1) fk(3)] level_files_apart [OF ok 3 j(1)] j(2) by simp
          then have "cmp_Compare c k (file_start g) < 0" by (rule compare_less_le_trans [OF k fk(1) gk(1) before])
          then show False using none [OF j(1,2)] g(2) by blast
        qed
      qed
      then have "(\<exists>f \<in> set files. in_range c k f) \<longleftrightarrow> in_range c k ?f" using f by blast
      then show ?thesis using True le inside less.prems by (subst (1 2 3) base_level_ptr.simps) (simp add: Let_def)
    qed
  qed
qed

lemma base_levels_exact:
  assumes ok: "levels_ok c keys files" and k: "keys k" and "ptrs_before c files ptrs k" "\<forall>l \<in> set ls. 0 < l \<and> l < kNumLevels" "distinct ls"
  shows "ptrs_before c files (snd (base_levels c k files ls ptrs)) k \<and>
    (fst (base_levels c k files ls ptrs) \<longleftrightarrow> (\<forall>l \<in> set ls. \<forall>f \<in> set (files ! l). \<not> in_range c k f))"
  using assms(3-)
proof (induction ls arbitrary: ptrs)
  case (Cons l ls)
  obtain ptr inside where b: "base_level_ptr c k (files ! l) (ptrs ! l) = (ptr, inside)" by fastforce
  have l: "0 < l" "l < kNumLevels" using Cons.prems by simp_all
  have lev: "level_files_ok c keys (files ! l)" using ok l by (simp add: levels_ok_def)
  have "ptrs ! l \<le> length (files ! l)" "\<forall>i < ptrs ! l. cmp_Compare c (file_limit (files ! l ! i)) k < 0"
    using Cons.prems(1) l by (simp_all add: ptrs_before_def)
  from base_level_ptr_exact [OF lev k this] have e: "ptr \<le> length (files ! l)" "\<forall>i < ptr. cmp_Compare c (file_limit (files ! l ! i)) k < 0"
    "inside \<longleftrightarrow> (\<exists>f \<in> set (files ! l). in_range c k f)" unfolding b by simp_all
  have p: "ptrs_before c files (ptrs[l := ptr]) k"
    unfolding ptrs_before_def
  proof (intro conjI allI impI)
    fix l' assume l': "l' < kNumLevels"
    show "ptrs[l := ptr] ! l' \<le> length (files ! l')" using Cons.prems(1) e(1) l' by (cases "l' = l") (simp_all add: ptrs_before_def)
    fix i assume "i < ptrs[l := ptr] ! l'"
    then show "cmp_Compare c (file_limit (files ! l' ! i)) k < 0" using Cons.prems(1) e(2) l' by (cases "l' = l") (simp_all add: ptrs_before_def)
  qed (use Cons.prems(1) in \<open>simp add: ptrs_before_def\<close>)
  show ?case
  proof (cases inside)
    case True
    then show ?thesis using b p e(3) by (simp add: Let_def)
  next
    case False
    then have "base_levels c k files (l # ls) ptrs = base_levels c k files ls (ptrs[l := ptr])" using b by (simp add: Let_def)
    then show ?thesis using Cons.IH [OF p] Cons.prems False e(3) by simp
  qed
qed simp

lemma IsBaseLevelForKey_exact:
  assumes "levels_ok c keys files" "keys k" "ptrs_before c files (c_level_ptrs co) k" "0 \<le> c_level co"
  shows "ptrs_before c files (c_level_ptrs (snd (IsBaseLevelForKey c files k co))) k"
    "c_level (snd (IsBaseLevelForKey c files k co)) = c_level co"
    "fst (IsBaseLevelForKey c files k co) \<longleftrightarrow> (\<forall>l \<in> {nat (c_level co + 2)..<kNumLevels}. \<forall>f \<in> set (files ! l). \<not> in_range c k f)"
proof -
  have "\<forall>l \<in> set [nat (c_level co + 2)..<kNumLevels]. 0 < l \<and> l < kNumLevels" using assms(4) by auto
  from base_levels_exact [OF assms(1-3) this distinct_upt]
  show "ptrs_before c files (c_level_ptrs (snd (IsBaseLevelForKey c files k co))) k"
    "c_level (snd (IsBaseLevelForKey c files k co)) = c_level co"
    "fst (IsBaseLevelForKey c files k co) \<longleftrightarrow> (\<forall>l \<in> {nat (c_level co + 2)..<kNumLevels}. \<forall>f \<in> set (files ! l). \<not> in_range c k f)"
    by (simp_all add: IsBaseLevelForKey_def case_prod_beta)
qed

end

subsection \<open>Dropping entries\<close>

text \<open>The merged input: entries with user keys of the database in the order of internal keys.\<close>

definition entries_ok :: "comparator \<Rightarrow> (bytes \<Rightarrow> bool) \<Rightarrow> (bytes \<times> bytes) list \<Rightarrow> bool" where
  "entries_ok u ukeys es \<longleftrightarrow> (\<forall>e \<in> set es. key_ok ukeys (fst e)) \<and> sorted_wrt (\<lambda>a b. InternalKeyComparator_Compare u (fst a) (fst b) < 0) es"

text \<open>A key that an entry at or below the oldest snapshot hides, and the state before the entries \<open>es\<close>.\<close>

definition hides :: "comparator \<Rightarrow> u64 \<Rightarrow> drop_state \<Rightarrow> bytes \<Rightarrow> bool" where
  "hides u smallest d k \<longleftrightarrow> (\<exists>k0. d_current_user_key d = Some k0 \<and> cmp_Compare u k0 k = 0) \<and> d_last_sequence_for_key d \<le> smallest"

definition dropping :: "comparator \<Rightarrow> (bytes \<Rightarrow> bool) \<Rightarrow> file_meta list list \<Rightarrow> (bytes \<times> bytes) list \<Rightarrow> drop_state \<Rightarrow> compaction \<Rightarrow> bool" where
  "dropping u ukeys files es d co \<longleftrightarrow> 0 \<le> c_level co \<and> (\<forall>e \<in> set es. ptrs_before u files (c_level_ptrs co) (entry_user_key e)) \<and>
     (\<forall>k0. d_current_user_key d = Some k0 \<longrightarrow> ukeys k0 \<and> (\<forall>e \<in> set es. cmp_Compare u k0 (entry_user_key e) \<le> 0 \<and>
        (cmp_Compare u k0 (entry_user_key e) = 0 \<longrightarrow> entry_sequence e \<le> d_last_sequence_for_key d)))"

definition base_for :: "comparator \<Rightarrow> file_meta list list \<Rightarrow> int \<Rightarrow> bytes \<Rightarrow> bool" where
  "base_for u files level k \<longleftrightarrow> (\<forall>l \<in> {nat (level + 2)..<kNumLevels}. \<forall>f \<in> set (files ! l). \<not> in_range u k f)"

lemma kept_subseq: "subseq (kept_entries u files smallest es d co) es"
  by (induction es arbitrary: d co) (auto simp: case_prod_beta Let_def)

lemma subseq_set: "subseq xs ys \<Longrightarrow> set xs \<subseteq> set ys"
  by (meson subsetI subseq_order.trans subseq_singleton_left)

lemma sorted_wrt_subseq: "subseq xs ys \<Longrightarrow> sorted_wrt P ys \<Longrightarrow> sorted_wrt P xs"
proof (induction rule: list_emb.induct)
  case (list_emb_Cons2 x y xs ys)
  then show ?case using subseq_set [of xs ys] by auto
qed simp_all

context comparator_contract
begin

lemma ptrs_before_later:
  assumes "ptrs_before c files ptrs k" "levels_ok c keys files" "keys k" "keys k'" "cmp_Compare c k k' \<le> 0"
  shows "ptrs_before c files ptrs k'"
  unfolding ptrs_before_def
proof (intro conjI allI impI)
  fix l assume l: "l < kNumLevels"
  show "ptrs ! l \<le> length (files ! l)" using assms(1) l by (simp add: ptrs_before_def)
  fix i assume i: "i < ptrs ! l"
  have less: "cmp_Compare c (file_limit (files ! l ! i)) k < 0" "ptrs ! l \<le> length (files ! l)" using assms(1) l i by (simp_all add: ptrs_before_def)
  have "file_ok c keys (files ! l ! i)" using assms(2) l i less(2) by (simp add: levels_ok_def)
  then have "keys (file_limit (files ! l ! i))" by (simp add: file_ok_def key_ok_def)
  then show "cmp_Compare c (file_limit (files ! l ! i)) k' < 0" using compare_less_le_trans [OF _ assms(3,4) less(1) assms(5)] by blast
qed (use assms(1) in \<open>simp add: ptrs_before_def\<close>)

lemma internal_less_cases:
  assumes "key_ok keys a" "key_ok keys b" "InternalKeyComparator_Compare c a b < 0"
  shows "cmp_Compare c (ExtractUserKey a) (ExtractUserKey b) \<le> 0"
    "cmp_Compare c (ExtractUserKey a) (ExtractUserKey b) = 0 \<Longrightarrow> entry_sequence (b, v) \<le> entry_sequence (a, w)"
proof -
  show "cmp_Compare c (ExtractUserKey a) (ExtractUserKey b) \<le> 0" using assms(3) by (auto simp: InternalKeyComparator_Compare_simps)
  assume "cmp_Compare c (ExtractUserKey a) (ExtractUserKey b) = 0"
  then have "key_tag b < key_tag a" using assms(3) by (auto simp: InternalKeyComparator_Compare_simps)
  moreover have "entry_sequence (x, z) = drop_bit 8 (key_tag x)" if x: "key_ok keys x" for x z
    using x by (auto simp: entry_sequence_def key_ok_def ParseInternalKey_def Let_def split: if_splits)
  ultimately show "entry_sequence (b, v) \<le> entry_sequence (a, w)"
    using assms(1,2) by (simp add: word_le_nat_alt word_less_nat_alt drop_bit_eq_div unat_div div_le_mono)
qed

lemma entries_ok_Cons:
  assumes "entries_ok c keys (e # es)"
  shows "entries_ok c keys es" "key_ok keys (fst e)" "keys (entry_user_key e)"
    "\<forall>x \<in> set es. keys (entry_user_key x) \<and> cmp_Compare c (entry_user_key e) (entry_user_key x) \<le> 0 \<and>
       (cmp_Compare c (entry_user_key e) (entry_user_key x) = 0 \<longrightarrow> entry_sequence x \<le> entry_sequence e)"
proof -
  show es: "entries_ok c keys es" "key_ok keys (fst e)" "keys (entry_user_key e)" using assms by (simp_all add: entries_ok_def key_ok_def)
  have "\<forall>x \<in> set es. key_ok keys (fst x) \<and> InternalKeyComparator_Compare c (fst e) (fst x) < 0" using assms by (simp add: entries_ok_def)
  then show "\<forall>x \<in> set es. keys (entry_user_key x) \<and> cmp_Compare c (entry_user_key e) (entry_user_key x) \<le> 0 \<and>
       (cmp_Compare c (entry_user_key e) (entry_user_key x) = 0 \<longrightarrow> entry_sequence x \<le> entry_sequence e)"
    using internal_less_cases [OF es(2)] by (metis key_ok_def prod.collapse)
qed

lemma drop_entry_step:
  assumes lev: "levels_ok c keys files" and es: "entries_ok c keys (e # es)" and d: "dropping c keys files (e # es) d co"
    and smallest: "smallest < kMaxSequenceNumber" and step: "drop_entry c files smallest (fst e) d co = (dropped, d', co')"
  shows "dropping c keys files es d' co'" "c_level co' = c_level co"
    "\<exists>k0. d_current_user_key d' = Some k0 \<and> keys k0 \<and> cmp_Compare c k0 (entry_user_key e) = 0" "d_last_sequence_for_key d' = entry_sequence e"
    "dropped \<longleftrightarrow> hides c smallest d (entry_user_key e) \<or> pik_type (the (ParseInternalKey (fst e))) = kTypeDeletion \<and>
       entry_sequence e \<le> smallest \<and> base_for c files (c_level co) (entry_user_key e)"
proof -
  let ?k = "entry_user_key e"
  note E = entries_ok_Cons [OF es]
  obtain ik where ik: "ParseInternalKey (fst e) = Some ik" using E(2) by (auto simp: key_ok_def)
  have uk: "pik_user_key ik = ?k" and sq: "pik_sequence ik = entry_sequence e" using ik parsed_user_key by (auto simp: entry_sequence_def)
  let ?new = "\<lparr>d_current_user_key = Some ?k, d_last_sequence_for_key = kMaxSequenceNumber\<rparr>"
  define d1 where "d1 = (case d_current_user_key d of Some k \<Rightarrow> if cmp_Compare c ?k k \<noteq> 0 then ?new else d | None \<Rightarrow> ?new)"
  have cur0: "keys k0" "cmp_Compare c k0 ?k \<le> 0" if "d_current_user_key d = Some k0" for k0 using d that by (simp_all add: dropping_def)
  have d1: "\<exists>k0. d_current_user_key d1 = Some k0 \<and> keys k0 \<and> cmp_Compare c k0 ?k = 0"
    using E(3) compare_refl cur0(1) compare_eq_sym by (auto simp: d1_def split: option.split)
  have hid: "d_last_sequence_for_key d1 \<le> smallest \<longleftrightarrow> hides c smallest d ?k"
  proof (cases "d_current_user_key d")
    case None
    then show ?thesis using smallest by (simp add: d1_def hides_def)
  next
    case (Some k0)
    then show ?thesis using smallest compare_eq_sym [OF cur0(1) [OF Some] E(3)] by (auto simp: d1_def hides_def not_le)
  qed
  have ptrs: "ptrs_before c files (c_level_ptrs co) ?k" "0 \<le> c_level co" using d by (simp_all add: dropping_def)
  note base = IsBaseLevelForKey_exact [OF lev E(3) ptrs]
  define r where "r = (if d_last_sequence_for_key d1 \<le> smallest then (True, co)
       else if pik_type ik = kTypeDeletion \<and> pik_sequence ik \<le> smallest then IsBaseLevelForKey c files ?k co else (False, co))"
  have out: "dropped = fst r" "d' = d1\<lparr>d_last_sequence_for_key := entry_sequence e\<rparr>" "co' = snd r"
  proof -
    have "drop_entry c files smallest (fst e) d co = (fst r, d1\<lparr>d_last_sequence_for_key := entry_sequence e\<rparr>, snd r)"
      unfolding drop_entry_def ik option.case Let_def uk sq d1_def [symmetric] r_def case_prod_beta by (rule refl)
    then show "dropped = fst r" "d' = d1\<lparr>d_last_sequence_for_key := entry_sequence e\<rparr>" "co' = snd r" using step by simp_all
  qed
  show last: "d_last_sequence_for_key d' = entry_sequence e" using out(2) by simp
  show cur: "\<exists>k0. d_current_user_key d' = Some k0 \<and> keys k0 \<and> cmp_Compare c k0 ?k = 0" using d1 out(2) by simp
  show lvl: "c_level co' = c_level co" using base(2) out(3) by (simp add: r_def)
  show "dropped \<longleftrightarrow> hides c smallest d ?k \<or> pik_type (the (ParseInternalKey (fst e))) = kTypeDeletion \<and>
       entry_sequence e \<le> smallest \<and> base_for c files (c_level co) ?k"
    using out(1) hid base(3) by (auto simp: r_def ik sq base_for_def)
  have p': "ptrs_before c files (c_level_ptrs co') ?k" using base(1) ptrs(1) out(3) by (simp add: r_def)
  have "ptrs_before c files (c_level_ptrs co') (entry_user_key x)" if "x \<in> set es" for x
    using ptrs_before_later [OF p' lev E(3)] E(4) that by blast
  moreover have "keys k0 \<and> (\<forall>x \<in> set es. cmp_Compare c k0 (entry_user_key x) \<le> 0 \<and>
      (cmp_Compare c k0 (entry_user_key x) = 0 \<longrightarrow> entry_sequence x \<le> d_last_sequence_for_key d'))" if k0: "d_current_user_key d' = Some k0" for k0
  proof -
    have k: "keys k0" "cmp_Compare c k0 ?k = 0" using cur k0 by auto
    have "cmp_Compare c k0 (entry_user_key x) \<le> 0" "cmp_Compare c k0 (entry_user_key x) = 0 \<longrightarrow> entry_sequence x \<le> entry_sequence e"
      if x: "x \<in> set es" for x
    proof -
      have X: "keys (entry_user_key x)" "cmp_Compare c ?k (entry_user_key x) \<le> 0"
        "cmp_Compare c ?k (entry_user_key x) = 0 \<longrightarrow> entry_sequence x \<le> entry_sequence e" using E(4) x by auto
      show "cmp_Compare c k0 (entry_user_key x) \<le> 0" by (rule compare_trans [OF k(1) E(3) X(1)]) (use k(2) X(2) in simp_all)
      show "cmp_Compare c k0 (entry_user_key x) = 0 \<longrightarrow> entry_sequence x \<le> entry_sequence e"
        using compare_eq_trans [OF E(3) k(1) X(1)] compare_eq_sym [OF k(1) E(3)] k(2) X(3) by auto
    qed
    then show ?thesis using k(1) last by simp
  qed
  ultimately show "dropping c keys files es d' co'" using ptrs(2) lvl by (simp add: dropping_def)
qed

lemma kept_hidden:
  assumes "levels_ok c keys files" "entries_ok c keys es" "dropping c keys files es d co" "smallest < kMaxSequenceNumber" "keys k" "hides c smallest d k"
    "x \<in> set (kept_entries c files smallest es d co)"
  shows "cmp_Compare c (entry_user_key x) k \<noteq> 0"
  using assms(2,3,6,7)
proof (induction es arbitrary: d co)
  case (Cons e es)
  let ?k = "entry_user_key e"
  note E = entries_ok_Cons [OF Cons.prems(1)]
  obtain dropped d' co' where st: "drop_entry c files smallest (fst e) d co = (dropped, d', co')" by (metis prod_cases3)
  note S = drop_entry_step [OF assms(1) Cons.prems(1,2) assms(4) st]
  obtain k0 where k0: "d_current_user_key d = Some k0" "cmp_Compare c k0 k = 0" "d_last_sequence_for_key d \<le> smallest"
    using Cons.prems(3) by (auto simp: hides_def)
  have K0: "keys k0" "cmp_Compare c k0 ?k \<le> 0" "cmp_Compare c k0 ?k = 0 \<longrightarrow> entry_sequence e \<le> d_last_sequence_for_key d"
    using Cons.prems(2) k0(1) by (simp_all add: dropping_def)
  obtain k1 where k1: "d_current_user_key d' = Some k1" "keys k1" "cmp_Compare c k1 ?k = 0" using S(3) by blast
  show ?case
  proof (cases "cmp_Compare c ?k k = 0")
    case True
    have "cmp_Compare c k ?k = 0" using True compare_eq_sym [OF E(3) assms(5)] by simp
    then have eq: "cmp_Compare c k0 ?k = 0" using compare_eq_trans [OF K0(1) assms(5) E(3) k0(2)] by simp
    then have "hides c smallest d ?k" using k0(1,3) by (auto simp: hides_def)
    then have dropped by (simp add: S(5))
    moreover have "hides c smallest d' k"
      using k1 compare_eq_trans [OF k1(2) E(3) assms(5) k1(3) True] S(4) K0(3) eq k0(3) by (auto simp: hides_def)
    ultimately show ?thesis using Cons.IH [OF E(1) S(1)] Cons.prems(4) st by (simp add: Let_def)
  next
    case False
    have "cmp_Compare c k k0 \<le> 0" using compare_eq_sym [OF K0(1) assms(5)] k0(2) by simp
    then have "cmp_Compare c k ?k \<le> 0" by (rule compare_trans [OF assms(5) K0(1) E(3) _ K0(2)])
    then have less: "cmp_Compare c k ?k < 0" using False compare_eq_sym [OF assms(5) E(3)] by linarith
    have "x \<in> set (e # es)" using Cons.prems(4) subseq_set [OF kept_subseq] by blast
    then have "keys (entry_user_key x)" "cmp_Compare c ?k (entry_user_key x) \<le> 0" using E(3,4) compare_refl by auto
    then have "cmp_Compare c k (entry_user_key x) < 0" using compare_less_le_trans [OF assms(5) E(3) _ less] by blast
    then show ?thesis using compare_eq_sym [OF assms(5) \<open>keys (entry_user_key x)\<close>] by auto
  qed
qed simp

lemma in_range_eq: "keys k \<Longrightarrow> keys k' \<Longrightarrow> file_ok c keys f \<Longrightarrow> cmp_Compare c k k' = 0 \<Longrightarrow> in_range c k f \<Longrightarrow> in_range c k' f"
  unfolding in_range_def file_ok_def key_ok_def
  using compare_trans [of "file_start f" k k'] compare_trans [of k' k "file_limit f"] compare_eq_sym [of k k'] by auto

text \<open>Where the entries below the inputs are: in files of the levels below the two of the compaction.\<close>

lemma base_no_older:
  assumes "levels_ok c keys files" "base_for c files level k" "keys k" "0 \<le> level" "\<forall>e \<in> set older. keys (entry_user_key e) \<and>
      (\<exists>l \<in> {nat (level + 2)..<kNumLevels}. \<exists>f \<in> set (files ! l). in_range c (entry_user_key e) f)"
    and "keys k'" "cmp_Compare c k k' = 0"
  shows "visible_entry c older k' s = None"
proof (rule visible_entry_NoneI, intro ballI notI)
  fix e assume e: "e \<in> set older" "cmp_Compare c (entry_user_key e) k' = 0"
  then obtain l f where lf: "l \<in> {nat (level + 2)..<kNumLevels}" "f \<in> set (files ! l)" "in_range c (entry_user_key e) f" "keys (entry_user_key e)"
    using assms(5) by blast
  have "cmp_Compare c k' k = 0" using assms(3,6,7) compare_eq_sym by blast
  then have "cmp_Compare c (entry_user_key e) k = 0" using compare_eq_trans [OF lf(4) assms(6,3) e(2)] by blast
  moreover have "file_ok c keys f" using assms(1) lf(1,2) by (auto simp: levels_ok_def)
  ultimately have "in_range c k f" using in_range_eq [OF lf(4) assms(3)] lf(3) by blast
  then show False using assms(2) lf(1,2) by (auto simp: base_for_def)
qed

lemma kept_reads:
  assumes lev: "levels_ok c keys files" and small: "smallest < kMaxSequenceNumber" "smallest \<le> s" and k: "keys k"
    and older: "\<forall>e \<in> set older. keys (entry_user_key e) \<and>
      (\<exists>l \<in> {nat (level + 2)..<kNumLevels}. \<exists>f \<in> set (files ! l). in_range c (entry_user_key e) f)"
    and "entries_ok c keys es" "dropping c keys files es d co" "c_level co = level" "\<not> hides c smallest d k"
  shows "read_value (visible_entry c (kept_entries c files smallest es d co @ older) k s) = read_value (visible_entry c (es @ older) k s)"
  using assms(6-)
proof (induction es arbitrary: d co)
  case (Cons e es)
  let ?k = "entry_user_key e"
  note E = entries_ok_Cons [OF Cons.prems(1)]
  obtain dropped d' co' where st: "drop_entry c files smallest (fst e) d co = (dropped, d', co')" by (metis prod_cases3)
  note S = drop_entry_step [OF lev Cons.prems(1,2) small(1) st]
  have lvl: "c_level co' = level" using S(2) Cons.prems(3) by simp
  let ?kept = "kept_entries c files smallest es d' co'"
  have kept: "kept_entries c files smallest (e # es) d co = (if dropped then ?kept else e # ?kept)" using st by (simp add: Let_def)
  obtain k1 where k1: "d_current_user_key d' = Some k1" "keys k1" "cmp_Compare c k1 ?k = 0" using S(3) by blast
  have hides': "hides c smallest d' k \<longleftrightarrow> cmp_Compare c ?k k = 0 \<and> entry_sequence e \<le> smallest"
  proof -
    have "cmp_Compare c k1 k = 0 \<longleftrightarrow> cmp_Compare c ?k k = 0"
      using compare_eq_trans [OF k1(2) E(3) k k1(3)] compare_eq_trans [OF E(3) k1(2) k] compare_eq_sym [OF k1(2) E(3)] k1(3) by auto
    then show ?thesis using k1(1) S(4) by (auto simp: hides_def)
  qed
  note IH = Cons.IH [OF E(1) S(1) lvl]
  show ?case
  proof (cases "cmp_Compare c ?k k = 0")
    case False
    then show ?thesis using IH hides' unfolding kept by (simp add: visible_entry_Cons)
  next
    case True
    have not_hidden: "\<not> hides c smallest d ?k"
    proof
      assume "hides c smallest d ?k"
      then obtain k0 where k0: "d_current_user_key d = Some k0" "cmp_Compare c k0 ?k = 0" "d_last_sequence_for_key d \<le> smallest" by (auto simp: hides_def)
      have "keys k0" using Cons.prems(2) k0(1) by (simp add: dropping_def)
      then have "cmp_Compare c k0 k = 0" using compare_eq_trans [OF _ E(3) k k0(2) True] by blast
      then show False using Cons.prems(4) k0 by (auto simp: hides_def)
    qed
    show ?thesis
    proof (cases dropped)
      case dropped: True
      then have del: "pik_type (the (ParseInternalKey (fst e))) = kTypeDeletion" "entry_sequence e \<le> smallest" "base_for c files level ?k"
        using S(5) not_hidden Cons.prems(3) by auto
      have h: "hides c smallest d' k" using hides' True del(2) by simp
      have "visible_entry c ?kept k s = None"
        by (rule visible_entry_NoneI, intro ballI kept_hidden [OF lev E(1) S(1) small(1) k h])
      moreover have "0 \<le> level" using Cons.prems(2,3) by (simp add: dropping_def)
      then have "visible_entry c older k s = None" by (rule base_no_older [OF lev del(3) E(3) _ older k True])
      moreover have "entry_sequence e \<le> s" using del(2) small(2) by simp
      ultimately show ?thesis using dropped True del(1) unfolding kept by (simp add: visible_entry_Cons visible_entry_append read_value_def)
    next
      case keep: False
      show ?thesis
      proof (cases "entry_sequence e \<le> s")
        case True
        then show ?thesis using keep \<open>cmp_Compare c ?k k = 0\<close> unfolding kept by (simp add: visible_entry_Cons)
      next
        case False
        then have "\<not> hides c smallest d' k" using hides' small(2) by auto
        then show ?thesis using IH keep False unfolding kept by (simp add: visible_entry_Cons)
      qed
    qed
  qed
qed simp

text \<open>When older entries come later, a read depends on the set of the entries only.\<close>

lemma visible_entry_newest:
  assumes "age_ordered c es" "\<forall>e \<in> set es. keys (entry_user_key e)" "keys k"
  shows "visible_entry c es k s = Some e \<longleftrightarrow> e \<in> set es \<and> cmp_Compare c (entry_user_key e) k = 0 \<and> entry_sequence e \<le> s \<and>
    (\<forall>x \<in> set es. cmp_Compare c (entry_user_key x) k = 0 \<longrightarrow> entry_sequence x \<le> s \<longrightarrow> x = e \<or> entry_sequence x < entry_sequence e)"
  using assms(1,2)
proof (induction es)
  case (Cons a es)
  have later: "entry_sequence x < entry_sequence a" if "x \<in> set es" "cmp_Compare c (entry_user_key a) k = 0" "cmp_Compare c (entry_user_key x) k = 0" for x
  proof -
    have K: "keys (entry_user_key a)" "keys (entry_user_key x)" using Cons.prems(2) that(1) by simp_all
    have "cmp_Compare c k (entry_user_key x) = 0" using compare_eq_sym [OF K(2) assms(3)] that(3) by simp
    then have "cmp_Compare c (entry_user_key a) (entry_user_key x) = 0" using compare_eq_trans [OF K(1) assms(3) K(2) that(2)] by simp
    then show ?thesis using Cons.prems(1) that(1) by (simp add: age_ordered_def)
  qed
  have IH: "visible_entry c es k s = Some e \<longleftrightarrow> e \<in> set es \<and> cmp_Compare c (entry_user_key e) k = 0 \<and> entry_sequence e \<le> s \<and>
    (\<forall>x \<in> set es. cmp_Compare c (entry_user_key x) k = 0 \<longrightarrow> entry_sequence x \<le> s \<longrightarrow> x = e \<or> entry_sequence x < entry_sequence e)"
    using Cons by (simp add: age_ordered_def)
  show ?case
  proof (cases "cmp_Compare c (entry_user_key a) k = 0 \<and> entry_sequence a \<le> s")
    case True
    have "\<not> entry_sequence a < entry_sequence e" if "e \<in> set es" "cmp_Compare c (entry_user_key e) k = 0"
      using later [OF that(1) _ that(2)] True by simp
    then show ?thesis using later True by (auto simp: visible_entry_Cons)
  next
    case False
    then show ?thesis using IH by (auto simp: visible_entry_Cons)
  qed
qed simp

lemma visible_entry_set:
  assumes "age_ordered c es" "age_ordered c es'" "set es = set es'" "\<forall>e \<in> set es. keys (entry_user_key e)" "keys k"
  shows "visible_entry c es k s = visible_entry c es' k s"
proof -
  have "visible_entry c es k s = Some e \<longleftrightarrow> visible_entry c es' k s = Some e" for e
    using visible_entry_newest [OF assms(1,4,5)] visible_entry_newest [OF assms(2) _ assms(5)] assms(3,4) by simp
  then show ?thesis by (metis not_None_eq)
qed

lemma merged_age_ordered:
  assumes es: "entries_ok c keys es" and order: "age_ordered c inputs" and same: "set es = set inputs"
  shows "age_ordered c es"
proof -
  have "sorted_wrt (\<lambda>a b. InternalKeyComparator_Compare c (fst a) (fst b) < 0) es" using es by (simp add: entries_ok_def)
  then show ?thesis unfolding age_ordered_def
  proof (rule sorted_wrt_mono_rel [rotated], intro impI)
    fix a b assume a: "a \<in> set es" and b: "b \<in> set es" and less: "InternalKeyComparator_Compare c (fst a) (fst b) < 0"
      and eq: "cmp_Compare c (entry_user_key a) (entry_user_key b) = 0"
    have ok: "key_ok keys (fst a)" "key_ok keys (fst b)" using es a b by (simp_all add: entries_ok_def)
    have le: "entry_sequence b \<le> entry_sequence a" using internal_less_cases(2) [OF ok less eq] by (metis prod.collapse)
    have "a \<noteq> b" using less key_order.compare_refl [OF internal_order key_ok_internal [OF ok(1)]] by auto
    obtain i j where ij: "i < length inputs" "j < length inputs" "inputs ! i = a" "inputs ! j = b" using a b same by (metis in_set_conv_nth)
    have eq': "cmp_Compare c (entry_user_key b) (entry_user_key a) = 0"
      using compare_eq_sym [of "entry_user_key a" "entry_user_key b"] ok eq by (simp add: key_ok_def)
    have "i \<noteq> j" using ij \<open>a \<noteq> b\<close> by auto
    then have "entry_sequence a \<noteq> entry_sequence b"
      using order ij eq eq' unfolding age_ordered_def sorted_wrt_iff_nth_less by (metis less_irrefl nat_neq_iff)
    then show "entry_sequence b < entry_sequence a" using le by simp
  qed
qed

lemma compaction_reads:
  assumes lev: "levels_ok c keys files" and es: "entries_ok c keys es" and co: "0 \<le> c_level co" "c_level_ptrs co = replicate kNumLevels 0"
    and small: "smallest < kMaxSequenceNumber" "smallest \<le> s" and k: "keys k" and "\<forall>e \<in> set (newer @ inputs @ older). keys (entry_user_key e)"
    and order: "age_ordered c (newer @ inputs @ older)" and same: "set es = set inputs"
    and older: "\<forall>e \<in> set older. \<exists>l \<in> {nat (c_level co + 2)..<kNumLevels}. \<exists>f \<in> set (files ! l). in_range c (entry_user_key e) f"
  defines "survivors \<equiv> kept_entries c files smallest es drop_start co"
  shows "read_value (visible_entry c (newer @ survivors @ older) k s) = read_value (visible_entry c (newer @ inputs @ older) k s)"
    "age_ordered c (newer @ survivors @ older)"
proof -
  have parts: "age_ordered c inputs" using order by (simp add: age_ordered_def sorted_wrt_append)
  note merged = merged_age_ordered [OF es parts same]
  have order': "age_ordered c (newer @ es @ older)"
    using order merged same by (auto simp: age_ordered_def sorted_wrt_append)
  have "set (newer @ es @ older) = set (newer @ inputs @ older)" using same by simp
  from visible_entry_set [OF order' order this _ k] have eq: "visible_entry c (newer @ es @ older) k s = visible_entry c (newer @ inputs @ older) k s"
    using assms(8) same by simp
  have d: "dropping c keys files es drop_start co" using co by (simp add: dropping_def drop_start_def ptrs_before_def)
  have h: "\<not> hides c smallest drop_start k" by (simp add: hides_def drop_start_def)
  have old: "\<forall>e \<in> set older. keys (entry_user_key e) \<and> (\<exists>l \<in> {nat (c_level co + 2)..<kNumLevels}. \<exists>f \<in> set (files ! l). in_range c (entry_user_key e) f)"
    using older assms(8) by simp
  have "read_value (visible_entry c (survivors @ older) k s) = read_value (visible_entry c (es @ older) k s)"
    unfolding survivors_def by (rule kept_reads [OF lev small k old es d refl h])
  then have "read_value (visible_entry c (newer @ survivors @ older) k s) = read_value (visible_entry c (newer @ es @ older) k s)"
    unfolding visible_entry_append [of c newer] by (simp split: option.split)
  then show "read_value (visible_entry c (newer @ survivors @ older) k s) = read_value (visible_entry c (newer @ inputs @ older) k s)"
    unfolding eq .
  have sub: "subseq survivors es" unfolding survivors_def by (rule kept_subseq)
  have "sorted_wrt (\<lambda>a b. cmp_Compare c (entry_user_key a) (entry_user_key b) = 0 \<longrightarrow> entry_sequence b < entry_sequence a) survivors"
    by (rule sorted_wrt_subseq [OF sub merged [unfolded age_ordered_def]])
  then show "age_ordered c (newer @ survivors @ older)"
    using order' subseq_set [OF sub] by (auto simp: age_ordered_def sorted_wrt_append)
qed

end

subsection \<open>Properties\<close>

text \<open>
  C12: what a compaction drops makes no difference.  Take the entries in the order in which reads visit them, those
  of the inputs in the middle, and older ones only in the levels below the two of the compaction.  After the inputs are
  replaced by what the loop of \<open>DoCompactionWork\<close> keeps of them, every read at the oldest snapshot or later gives
  the same value or absence, and entries of a key are still visited from the newest on.
\<close>

theorem compaction_preserves_reads:
  assumes "comparator_contract u ukeys" "levels_ok u ukeys files" "entries_ok u ukeys es" "set es = set inputs"
    and "age_ordered u (newer @ inputs @ older)" "\<forall>e \<in> set (newer @ inputs @ older). ukeys (entry_user_key e)"
    and "0 \<le> level" "\<forall>e \<in> set older. \<exists>l \<in> {nat (level + 2)..<kNumLevels}. \<exists>f \<in> set (files ! l). in_range u (entry_user_key e) f"
    and "smallest < kMaxSequenceNumber" "smallest \<le> s" "ukeys k"
  shows "read_value (visible_entry u (newer @ kept_entries u files smallest es drop_start (Compaction_make max_file_size level) @ older) k s) =
      read_value (visible_entry u (newer @ inputs @ older) k s) \<and>
    age_ordered u (newer @ kept_entries u files smallest es drop_start (Compaction_make max_file_size level) @ older)"
  using comparator_contract.compaction_reads [OF assms(1-3), of "Compaction_make max_file_size level", OF _ _ assms(9-11,6,5,4)] assms(7,8)
  by (simp add: Compaction_make_def)

text \<open>A deletion above a value of the same key, in two levels with nothing below.\<close>

definition sample_entries :: "(bytes \<times> bytes) list" where
  "sample_entries = [(InternalKey_make [5] 9 kTypeDeletion, []), (InternalKey_make [5] 3 kTypeValue, [1])]"

lemma entry_make [simp]: "n \<le> kMaxSequenceNumber \<Longrightarrow> entry_sequence (InternalKey_make k n t, v) = n"
  by (simp add: entry_sequence_def ParseInternalKey_make)

lemma tag_less: "m < n \<Longrightarrow> n \<le> kMaxSequenceNumber \<Longrightarrow> PackSequenceAndType m t < PackSequenceAndType n t'"
  using unsigned_less [of "ValueType_byte t", where ?'a = nat] by (auto simp: word_less_nat_alt word_le_nat_alt unat_Pack kMaxSequenceNumber_val)

theorem compaction_preserves_reads_witness:
  "read_value (visible_entry BytewiseComparator ([] @ kept_entries BytewiseComparator (replicate kNumLevels []) 9 sample_entries drop_start
      (Compaction_make 2097152 1) @ []) [5] 9) = None"
proof -
  have seq: "(9 :: u64) \<le> kMaxSequenceNumber" "(3 :: u64) \<le> kMaxSequenceNumber" "(3 :: u64) < 9" "(9 :: u64) < kMaxSequenceNumber"
    by (simp_all add: kMaxSequenceNumber_val)
  have cmp: "cmp_Compare BytewiseComparator [5] [5] = 0" by (simp add: BytewiseComparator_sel)
  have e: "entries_ok BytewiseComparator (\<lambda>_. True) sample_entries"
    using seq cmp tag_less [of 3 9] by (simp add: entries_ok_def sample_entries_def key_ok_def ParseInternalKey_make InternalKeyComparator_Compare_simps
        drop_InternalKey_make)
  have a: "age_ordered BytewiseComparator ([] @ sample_entries @ [])" using seq by (simp add: age_ordered_def sample_entries_def)
  have l: "levels_ok BytewiseComparator (\<lambda>_. True) (replicate kNumLevels [])" by (simp add: levels_ok_def level_files_ok_def)
  have "read_value (visible_entry BytewiseComparator ([] @ sample_entries @ []) [5] 9) = None"
    using seq cmp by (simp add: visible_entry_def sample_entries_def read_value_def ParseInternalKey_make)
  then show ?thesis
    using compaction_preserves_reads [OF bytewise.comparator_contract_axioms l e refl a,
        where level = 1 and smallest = 9 and s = 9 and k = "[5]" and max_file_size = 2097152] seq by simp
qed

subsection \<open>A key that is split between two files\<close>

text \<open>
  Nothing keeps the files of the next level that are left out apart from the inputs by user key:
  \<open>SetupOtherInputs\<close> closes the inputs of the level under boundary files, but not those of the next level.
\<close>

definition upper_file :: file_meta where
  "upper_file = FileMetaData_make 4 100 (InternalKey_make [1] 20 kTypeValue) (InternalKey_make [4] 20 kTypeValue)"

definition lower_file :: file_meta where
  "lower_file = FileMetaData_make 5 100 (InternalKey_make [3] 10 kTypeValue) (InternalKey_make [5] 9 kTypeDeletion)"

definition split_file :: file_meta where
  "split_file = FileMetaData_make 6 100 (InternalKey_make [5] 5 kTypeValue) (InternalKey_make [6] 5 kTypeValue)"

definition split_files :: "file_meta list list" where
  "split_files = [[], [upper_file], [lower_file, split_file], [], [], [], []]"

definition upper_entries :: "(bytes \<times> bytes) list" where
  "upper_entries = [(InternalKey_make [1] 20 kTypeValue, [1]), (InternalKey_make [4] 20 kTypeValue, [4])]"

definition lower_entries :: "(bytes \<times> bytes) list" where
  "lower_entries = [(InternalKey_make [3] 10 kTypeValue, [3]), (InternalKey_make [5] 9 kTypeDeletion, [])]"

definition split_entries :: "(bytes \<times> bytes) list" where
  "split_entries = [(InternalKey_make [5] 5 kTypeValue, [7]), (InternalKey_make [6] 5 kTypeValue, [8])]"

definition merged_entries :: "(bytes \<times> bytes) list" where
  "merged_entries = [(InternalKey_make [1] 20 kTypeValue, [1]), (InternalKey_make [3] 10 kTypeValue, [3]),
     (InternalKey_make [4] 20 kTypeValue, [4]), (InternalKey_make [5] 9 kTypeDeletion, [])]"

lemma GetOverlappingInputs_level: "0 < level \<Longrightarrow> level < int kNumLevels \<Longrightarrow> GetOverlappingInputs u files level b e =
    Some (filter (overlaps u (map_option ExtractUserKey b) (map_option ExtractUserKey e)) (files ! nat level))"
  by (simp add: GetOverlappingInputs_def overlap_loop_level)

lemma AddBoundaryInputs_none: "FindLargestKey u cf = Some k \<Longrightarrow> FindSmallestBoundaryFile u level_files k = None \<Longrightarrow>
    AddBoundaryInputs u level_files cf = Some cf"
  by (simp add: AddBoundaryInputs_def add_boundary_loop.simps)

lemma bytes_compare: "cmp_Compare BytewiseComparator [x] [y] < 0 \<longleftrightarrow> x < y" "0 < cmp_Compare BytewiseComparator [x] [y] \<longleftrightarrow> y < x"
  "cmp_Compare BytewiseComparator [x] [y] = 0 \<longleftrightarrow> x = y" "cmp_Compare BytewiseComparator [x] [y] \<le> 0 \<longleftrightarrow> x \<le> y"
  "0 \<le> cmp_Compare BytewiseComparator [x] [y] \<longleftrightarrow> y \<le> x"
proof -
  show lt: "cmp_Compare BytewiseComparator [x] [y] < 0 \<longleftrightarrow> x < y" for x y :: byte
    by (simp add: BytewiseComparator_sel BytewiseComparator_Compare_lex)
  show eq: "cmp_Compare BytewiseComparator [x] [y] = 0 \<longleftrightarrow> x = y" by (auto simp: BytewiseComparator_sel BytewiseComparator_Compare_lex)
  show gt: "0 < cmp_Compare BytewiseComparator [x] [y] \<longleftrightarrow> y < x" using bytewise.compare_flip [of "[y]" "[x]"] bytewise.compare_flip [of "[x]" "[y]"] lt by simp
  show "cmp_Compare BytewiseComparator [x] [y] \<le> 0 \<longleftrightarrow> x \<le> y" using lt eq by (auto simp: order_le_less)
  show "0 \<le> cmp_Compare BytewiseComparator [x] [y] \<longleftrightarrow> y \<le> x" using gt eq by (auto simp: order_le_less)
qed

lemma small_sequences: "n < 2 ^ 56 \<Longrightarrow> (n :: u64) \<le> kMaxSequenceNumber"
  by (simp add: kMaxSequenceNumber_val word_le_nat_alt word_less_nat_alt)

lemmas split_defs = upper_file_def lower_file_def split_file_def split_files_def FileMetaData_make_def
lemmas split_entry_defs = upper_entries_def lower_entries_def split_entries_def merged_entries_def
lemmas split_simps = InternalKeyComparator_Compare_simps bytes_compare drop_InternalKey_make ParseInternalKey_make small_sequences tag_less

lemma split_inputs:
  "\<exists>c s'. SetupOtherInputs BytewiseComparator 2097152 split_files ((Compaction_make 2097152 1)\<lparr>c_inputs0 := [upper_file]\<rparr>) s = Some (c, s') \<and>
    c_level c = 1 \<and> c_inputs0 c = [upper_file] \<and> c_inputs1 c = [lower_file] \<and> c_level_ptrs c = replicate kNumLevels 0"
proof -
  let ?u = BytewiseComparator
  have n: "kNumLevels = 7" by (simp add: kNumLevels_def)
  have f: "split_files ! Suc 0 = [upper_file]" "split_files ! 2 = [lower_file, split_file]" "split_files ! 3 = []"
    by (simp_all add: split_files_def)
  have b: "AddBoundaryInputs ?u [upper_file] [upper_file] = Some [upper_file]"
    by (rule AddBoundaryInputs_none [where k = "fm_largest upper_file"])
      (simp_all add: FindLargestKey_def FindSmallestBoundaryFile_def split_defs split_simps)
  have r: "GetRange ?u [upper_file] = Some (fm_smallest upper_file, fm_largest upper_file)" by (simp add: GetRange_def)
  have o1: "GetOverlappingInputs ?u split_files 2 (Some (fm_smallest upper_file)) (Some (fm_largest upper_file)) = Some [lower_file]"
    by (simp add: GetOverlappingInputs_level n f) (simp add: overlaps_def split_defs bytes_compare)
  have a: "GetRange2 ?u [upper_file] [lower_file] = Some (fm_smallest upper_file, fm_largest lower_file)"
    by (simp add: GetRange2_def GetRange_def split_defs split_simps)
  have o0: "GetOverlappingInputs ?u split_files 1 (Some (fm_smallest upper_file)) (Some (fm_largest lower_file)) = Some [upper_file]"
    by (simp add: GetOverlappingInputs_level n f) (simp add: overlaps_def split_defs bytes_compare)
  have g: "GetOverlappingInputs ?u split_files 3 (Some (fm_smallest upper_file)) (Some (fm_largest lower_file)) = Some []"
    by (simp add: GetOverlappingInputs_level n f)
  show ?thesis using b r o1 a o0 g f by (simp add: SetupOtherInputs_def expand_inputs_def Compaction_make_def n)
qed

text \<open>
  C19: a compaction can bring a deleted value back.  In a well-formed version whose level 2 continues the entries
  of a key in a second file, \<open>SetupOtherInputs\<close> takes the first of the two files and leaves the second out; the loop then drops
  the deletion, as no deeper level has the key, and a read that found the key deleted finds the old value that
  the second file holds.
\<close>

theorem compaction_brings_back_deleted:
  "\<exists>c s'. SetupOtherInputs BytewiseComparator 2097152 split_files ((Compaction_make 2097152 1)\<lparr>c_inputs0 := [upper_file]\<rparr>) s = Some (c, s') \<and>
    levels_ok BytewiseComparator (\<lambda>_. True) split_files \<and> c_inputs0 c = [upper_file] \<and> c_inputs1 c = [lower_file] \<and>
    age_ordered BytewiseComparator (upper_entries @ lower_entries @ split_entries) \<and>
    entries_ok BytewiseComparator (\<lambda>_. True) merged_entries \<and> set merged_entries = set (upper_entries @ lower_entries) \<and>
    read_value (visible_entry BytewiseComparator (upper_entries @ lower_entries @ split_entries) [5] 30) = None \<and>
    read_value (visible_entry BytewiseComparator
      (kept_entries BytewiseComparator split_files 30 merged_entries drop_start c @ split_entries) [5] 30) = Some [7]"
proof -
  obtain c s' where c: "SetupOtherInputs BytewiseComparator 2097152 split_files ((Compaction_make 2097152 1)\<lparr>c_inputs0 := [upper_file]\<rparr>) s = Some (c, s')"
    "c_level c = 1" "c_inputs0 c = [upper_file]" "c_inputs1 c = [lower_file]" "c_level_ptrs c = replicate kNumLevels 0"
    using split_inputs by blast
  have n: "kNumLevels = 7" by (simp add: kNumLevels_def)
  have l: "levels_ok BytewiseComparator (\<lambda>_. True) split_files"
    unfolding levels_ok_def n by (simp add: numeral_eq_Suc All_less_Suc split_files_def level_files_ok_def file_ok_def key_ok_def)
      (simp add: split_defs split_simps)
  have o: "age_ordered BytewiseComparator (upper_entries @ lower_entries @ split_entries)"
    by (simp add: age_ordered_def split_entry_defs bytes_compare small_sequences)
  have e: "entries_ok BytewiseComparator (\<lambda>_. True) merged_entries"
    by (simp add: entries_ok_def split_entry_defs key_ok_def split_simps)
  have before: "read_value (visible_entry BytewiseComparator (upper_entries @ lower_entries @ split_entries) [5] 30) = None"
    by (simp add: visible_entry_def split_entry_defs read_value_def bytes_compare small_sequences ParseInternalKey_make)
  have base: "IsBaseLevelForKey BytewiseComparator split_files [5] c = (True, c)"
  proof -
    have "base_levels BytewiseComparator [5] split_files [3, 4, 5, 6] (replicate 7 0) = (True, replicate 7 0)"
      by (simp add: split_files_def base_level_ptr.simps numeral_eq_Suc)
    then show ?thesis using c(2,5) by (simp add: IsBaseLevelForKey_def n upt_rec numeral_eq_Suc)
  qed
  have big: "\<not> kMaxSequenceNumber \<le> 30" by (simp add: kMaxSequenceNumber_val)
  have "kept_entries BytewiseComparator split_files 30 merged_entries drop_start c = butlast merged_entries"
    by (simp add: merged_entries_def drop_entry_def drop_start_def ParseInternalKey_make small_sequences bytes_compare base big Let_def)
  then have after: "read_value (visible_entry BytewiseComparator
      (kept_entries BytewiseComparator split_files 30 merged_entries drop_start c @ split_entries) [5] 30) = Some [7]"
    by (simp add: visible_entry_def split_entry_defs read_value_def bytes_compare small_sequences ParseInternalKey_make)
  have "set merged_entries = set (upper_entries @ lower_entries)" by (auto simp: split_entry_defs)
  then show ?thesis using c l o e before after by blast
qed

end
