(* ===== verification/Version_Reads.thy ===== *)
theory Version_Reads
  imports Compaction Table
begin

text \<open>
  \<^verbatim>\<open>db/version_set.cc\<close>, reads through a version: which files a key can be in, the lookup that goes through them
  from the newest on, the seeks it charges, and the level a new table is put in.  The table cache is a
  parameter \<open>tget\<close> here; \<open>Table_Cache\<close> models it.  \<open>heap\<close> gives the files their metadata.
\<close>

subsection \<open>The callback of a table lookup\<close>

datatype SaverState = kNotFound | kFound | kDeleted | kCorrupt

record saver =
  sv_state :: SaverState
  sv_ucmp :: comparator
  sv_user_key :: bytes
  sv_value :: bytes

definition SaveValue :: "saver \<Rightarrow> bytes \<Rightarrow> bytes \<Rightarrow> saver" where
  "SaveValue s ikey v =
     (case ParseInternalKey ikey of
        None \<Rightarrow> s\<lparr>sv_state := kCorrupt\<rparr>
      | Some parsed_key \<Rightarrow>
          if cmp_Compare (sv_ucmp s) (pik_user_key parsed_key) (sv_user_key s) = 0
          then if pik_type parsed_key = kTypeValue then s\<lparr>sv_state := kFound, sv_value := v\<rparr> else s\<lparr>sv_state := kDeleted\<rparr>
          else s)"

subsection \<open>The files a key can be in\<close>

text \<open>The files of level 0 that contain the key, the newest first; \<open>std::sort\<close> by descending number.\<close>

definition newest_overlapping :: "comparator \<Rightarrow> (file_ptr \<Rightarrow> file_meta) \<Rightarrow> bytes \<Rightarrow> file_ptr list \<Rightarrow> file_ptr list" where
  "newest_overlapping u heap user_key files =
     sort_key (\<lambda>f. - uint (fm_number (heap f)))
       (filter (\<lambda>f. 0 \<le> cmp_Compare u user_key (file_start (heap f)) \<and> cmp_Compare u user_key (file_limit (heap f)) \<le> 0) files)"

text \<open>The one file of a higher level that can hold the key.\<close>

definition level_candidate :: "comparator \<Rightarrow> (file_ptr \<Rightarrow> file_meta) \<Rightarrow> bytes \<Rightarrow> bytes \<Rightarrow> file_ptr list \<Rightarrow> file_ptr list option" where
  "level_candidate u heap user_key ikey files = do {
     index \<leftarrow> FindFile u (map heap files) ikey;
     Some (if length files \<le> unat index then []
           else let f = files ! unat index
                in if cmp_Compare u user_key (file_start (heap f)) < 0 then [] else [f]) }"

definition files_to_search :: "comparator \<Rightarrow> (file_ptr \<Rightarrow> file_meta) \<Rightarrow> bytes \<Rightarrow> bytes \<Rightarrow> file_ptr list list \<Rightarrow> nat \<Rightarrow> file_ptr list option" where
  "files_to_search u heap user_key ikey files level =
     (if files ! level = [] then Some []
      else if level = 0 then Some (newest_overlapping u heap user_key (files ! 0))
      else level_candidate u heap user_key ikey (files ! level))"

text \<open>\<open>func\<close> tells whether to go on; its argument is threaded through the calls.\<close>

primrec call_on_files :: "('a \<Rightarrow> nat \<Rightarrow> file_ptr \<Rightarrow> bool \<times> 'a) \<Rightarrow> nat \<Rightarrow> file_ptr list \<Rightarrow> 'a \<Rightarrow> bool \<times> 'a" where
  "call_on_files func level [] arg = (True, arg)"
| "call_on_files func level (f # fs) arg =
     (let (more, arg) = func arg level f in if more then call_on_files func level fs arg else (False, arg))"

primrec for_each_level :: "comparator \<Rightarrow> (file_ptr \<Rightarrow> file_meta) \<Rightarrow> bytes \<Rightarrow> bytes \<Rightarrow> file_ptr list list \<Rightarrow>
    ('a \<Rightarrow> nat \<Rightarrow> file_ptr \<Rightarrow> bool \<times> 'a) \<Rightarrow> nat list \<Rightarrow> 'a \<Rightarrow> 'a option" where
  "for_each_level u heap user_key internal_key files func [] arg = Some arg"
| "for_each_level u heap user_key internal_key files func (level # levels) arg = do {
     fs \<leftarrow> files_to_search u heap user_key internal_key files level;
     let (more, arg) = call_on_files func level fs arg;
     if more then for_each_level u heap user_key internal_key files func levels arg else Some arg }"

definition ForEachOverlapping :: "comparator \<Rightarrow> (file_ptr \<Rightarrow> file_meta) \<Rightarrow> file_ptr list list \<Rightarrow> bytes \<Rightarrow> bytes \<Rightarrow> 'a \<Rightarrow>
    ('a \<Rightarrow> nat \<Rightarrow> file_ptr \<Rightarrow> bool \<times> 'a) \<Rightarrow> 'a option" where
  "ForEachOverlapping u heap files user_key internal_key arg func =
     for_each_level u heap user_key internal_key files func [0..<kNumLevels] arg"

subsection \<open>Get\<close>

record get_stats =
  gs_seek_file :: "file_ptr option"
  gs_seek_file_level :: int

text \<open>What the loops of \<open>Get\<close> carry along: the statistics, the last file read, the value and the table cache.\<close>

record 't get_state =
  g_stats :: get_stats
  g_last_file_read :: "(file_ptr \<times> int) option"
  g_value :: bytes
  g_tables :: 't

type_synonym 't table_get = "read_options \<Rightarrow> u64 \<Rightarrow> u64 \<Rightarrow> bytes \<Rightarrow> saver \<Rightarrow> (saver \<Rightarrow> bytes \<Rightarrow> bytes \<Rightarrow> saver) \<Rightarrow> 't \<Rightarrow>
  (status \<times> saver \<times> 't) option"

text \<open>One file; a status means that \<open>Get\<close> returns it.\<close>

definition charge_seek :: "'t get_state \<Rightarrow> 't get_state" where
  "charge_seek g =
     (case g_last_file_read g of
        Some (f, level) \<Rightarrow> if gs_seek_file (g_stats g) = None
          then g\<lparr>g_stats := \<lparr>gs_seek_file = Some f, gs_seek_file_level = level\<rparr>\<rparr> else g
      | None \<Rightarrow> g)"

definition read_file :: "comparator \<Rightarrow> 't table_get \<Rightarrow> (file_ptr \<Rightarrow> file_meta) \<Rightarrow> read_options \<Rightarrow> bytes \<Rightarrow> bytes \<Rightarrow> nat \<Rightarrow> file_ptr \<Rightarrow>
    't get_state \<Rightarrow> (status option \<times> 't get_state) option" where
  "read_file u tget heap options user_key ikey level f g = do {
     let g = (charge_seek g)\<lparr>g_last_file_read := Some (f, int level)\<rparr>;
     (s, saver, t) \<leftarrow> tget options (fm_number (heap f)) (fm_file_size (heap f)) ikey
       \<lparr>sv_state = kNotFound, sv_ucmp = u, sv_user_key = user_key, sv_value = g_value g\<rparr> SaveValue (g_tables g);
     let g = g\<lparr>g_value := sv_value saver, g_tables := t\<rparr>;
     Some (if \<not> Status_ok s then (Some s, g)
       else case sv_state saver of
         kNotFound \<Rightarrow> (None, g)
       | kFound \<Rightarrow> (Some s, g)
       | kDeleted \<Rightarrow> (Some (Status_NotFound [] []), g)
       | kCorrupt \<Rightarrow> (Some (Status_Corruption (lit ''corrupted key for '') user_key), g)) }"

primrec read_files :: "comparator \<Rightarrow> 't table_get \<Rightarrow> (file_ptr \<Rightarrow> file_meta) \<Rightarrow> read_options \<Rightarrow> bytes \<Rightarrow> bytes \<Rightarrow> nat \<Rightarrow> file_ptr list \<Rightarrow>
    't get_state \<Rightarrow> (status option \<times> 't get_state) option" where
  "read_files u tget heap options user_key ikey level [] g = Some (None, g)"
| "read_files u tget heap options user_key ikey level (f # fs) g = do {
     (r, g) \<leftarrow> read_file u tget heap options user_key ikey level f g;
     (case r of Some s \<Rightarrow> Some (Some s, g) | None \<Rightarrow> read_files u tget heap options user_key ikey level fs g) }"

primrec read_levels :: "comparator \<Rightarrow> 't table_get \<Rightarrow> (file_ptr \<Rightarrow> file_meta) \<Rightarrow> read_options \<Rightarrow> bytes \<Rightarrow> bytes \<Rightarrow> file_ptr list list \<Rightarrow>
    nat list \<Rightarrow> 't get_state \<Rightarrow> (status \<times> 't get_state) option" where
  "read_levels u tget heap options user_key ikey files [] g = Some (Status_NotFound [] [], g)"
| "read_levels u tget heap options user_key ikey files (level # levels) g = do {
     fs \<leftarrow> files_to_search u heap user_key ikey files level;
     (r, g) \<leftarrow> read_files u tget heap options user_key ikey level fs g;
     (case r of Some s \<Rightarrow> Some (s, g) | None \<Rightarrow> read_levels u tget heap options user_key ikey files levels g) }"

definition Version_Get :: "comparator \<Rightarrow> 't table_get \<Rightarrow> (file_ptr \<Rightarrow> file_meta) \<Rightarrow> file_ptr list list \<Rightarrow> read_options \<Rightarrow> LookupKey \<Rightarrow> bytes \<Rightarrow>
    't \<Rightarrow> (status \<times> bytes \<times> get_stats \<times> 't) option" where
  "Version_Get u tget heap files options k value t = do {
     (s, g) \<leftarrow> read_levels u tget heap options (LookupKey_user_key k) (LookupKey_internal_key k) files [0..<kNumLevels]
       \<lparr>g_stats = \<lparr>gs_seek_file = None, gs_seek_file_level = - 1\<rparr>, g_last_file_read = None, g_value = value, g_tables = t\<rparr>;
     Some (s, g_value g, g_stats g, g_tables g) }"

subsection \<open>Statistics\<close>

definition UpdateStats :: "version_ptr \<Rightarrow> get_stats \<Rightarrow> version_set \<Rightarrow> (bool \<times> version_set) option" where
  "UpdateStats p stats s =
     (case gs_seek_file stats of
        None \<Rightarrow> Some (False, s)
      | Some f \<Rightarrow> do {
          v \<leftarrow> vs_version_heap s p;
          m \<leftarrow> vs_file_heap s f;
          let m = m\<lparr>fm_allowed_seeks := fm_allowed_seeks m - 1\<rparr>;
          let s = s\<lparr>vs_file_heap := (vs_file_heap s)(f \<mapsto> m)\<rparr>;
          if fm_allowed_seeks m \<le> 0 \<and> v_file_to_compact v = None
          then Some (True, s\<lparr>vs_version_heap := (vs_version_heap s)(p \<mapsto>
            v\<lparr>v_file_to_compact := Some f, v_file_to_compact_level := gs_seek_file_level stats\<rparr>)\<rparr>)
          else Some (False, s) })"

text \<open>The local struct \<open>State\<close>: the first matching file and the number of matches.\<close>

definition sample_match :: "get_stats \<times> int \<Rightarrow> nat \<Rightarrow> file_ptr \<Rightarrow> bool \<times> get_stats \<times> int" where
  "sample_match st level f =
     (let (stats, matches) = st;
          matches = matches + 1;
          stats = (if matches = 1 then \<lparr>gs_seek_file = Some f, gs_seek_file_level = int level\<rparr> else stats)
      in (matches < 2, stats, matches))"

definition RecordReadSample :: "comparator \<Rightarrow> version_ptr \<Rightarrow> bytes \<Rightarrow> version_set \<Rightarrow> (bool \<times> version_set) option" where
  "RecordReadSample u p internal_key s =
     (case ParseInternalKey internal_key of
        None \<Rightarrow> Some (False, s)
      | Some ikey \<Rightarrow> do {
          v \<leftarrow> vs_version_heap s p;
          (stats, matches) \<leftarrow> ForEachOverlapping u (file_at s) (v_files v) (pik_user_key ikey) internal_key
            (\<lparr>gs_seek_file = None, gs_seek_file_level = 0\<rparr>, 0) sample_match;
          if 2 \<le> matches then UpdateStats p stats s else Some (False, s) })"

subsection \<open>The level of a new table\<close>

definition OverlapInLevel :: "comparator \<Rightarrow> file_meta list list \<Rightarrow> nat \<Rightarrow> bytes option \<Rightarrow> bytes option \<Rightarrow> bool option" where
  "OverlapInLevel u files level smallest_user_key largest_user_key =
     SomeFileOverlapsRange u (0 < level) (files ! level) smallest_user_key largest_user_key"

function memtable_level :: "comparator \<Rightarrow> u64 \<Rightarrow> file_meta list list \<Rightarrow> bytes \<Rightarrow> bytes \<Rightarrow> nat \<Rightarrow> nat option" where
  "memtable_level u max_file_size files smallest_user_key largest_user_key level =
     (if level < kMaxMemCompactLevel then do {
        overlap \<leftarrow> OverlapInLevel u files (level + 1) (Some smallest_user_key) (Some largest_user_key);
        if overlap then Some level
        else do {
          stop \<leftarrow> (if level + 2 < kNumLevels
            then do {
              overlaps \<leftarrow> GetOverlappingInputs u files (int level + 2)
                (Some (InternalKey_make smallest_user_key kMaxSequenceNumber kValueTypeForSeek))
                (Some (InternalKey_make largest_user_key 0 kTypeDeletion));
              Some (sint (MaxGrandParentOverlapBytes max_file_size) < sint (TotalFileSize overlaps)) }
            else Some False);
          if stop then Some level else memtable_level u max_file_size files smallest_user_key largest_user_key (level + 1) } }
      else Some level)"
  by pat_completeness auto
termination by (relation "measure (\<lambda>(_, _, _, _, _, level). kMaxMemCompactLevel - level)") auto

declare memtable_level.simps [simp del]

definition PickLevelForMemTableOutput :: "comparator \<Rightarrow> u64 \<Rightarrow> file_meta list list \<Rightarrow> bytes \<Rightarrow> bytes \<Rightarrow> nat option" where
  "PickLevelForMemTableOutput u max_file_size files smallest_user_key largest_user_key = do {
     overlap \<leftarrow> OverlapInLevel u files 0 (Some smallest_user_key) (Some largest_user_key);
     if overlap then Some 0 else memtable_level u max_file_size files smallest_user_key largest_user_key 0 }"

end
