(* ===== verification/Version_Reads_Correct.thy ===== *)
theory Version_Reads_Correct
  imports Version_Reads Compaction_Correct
begin

text \<open>
  Reads through a version see the newest visible entry of all its files.  The table cache enters through the
  contract \<open>table_lookup\<close>, which \<open>Table_Cache_Correct\<close> meets.
\<close>

subsection \<open>Lookups in tables\<close>

definition first_at :: "comparator \<Rightarrow> bytes \<Rightarrow> (bytes \<times> bytes) list \<Rightarrow> (bytes \<times> bytes) option" where
  "first_at u k es = find (\<lambda>e. \<not> InternalKeyComparator_Compare u (fst e) k < 0) es"

text \<open>
  What a lookup may hand to its callback: the first entry at or after the key, which it must find when that entry has
  the user key looked for.
\<close>

definition lookup_answer :: "comparator \<Rightarrow> (bytes \<times> bytes) list \<Rightarrow> bytes \<Rightarrow> (bytes \<times> bytes) option \<Rightarrow> bool" where
  "lookup_answer u es k r \<longleftrightarrow> (\<forall>e. r = Some e \<longrightarrow> first_at u k es = Some e) \<and>
     (\<forall>e. first_at u k es = Some e \<longrightarrow> cmp_Compare u (entry_user_key e) (ExtractUserKey k) = 0 \<longrightarrow> r = Some e)"

text \<open>
  \<open>serves n T t\<close>: the table cache \<open>t\<close> has the tables \<open>T\<close>, each a file size and entries by file number, and room for
  \<open>n\<close> more lookups.
\<close>

locale table_lookup =
  fixes tget :: "'t table_get" and serves :: "comparator \<Rightarrow> (bytes \<Rightarrow> bool) \<Rightarrow> nat \<Rightarrow> (u64 \<rightharpoonup> u64 \<times> (bytes \<times> bytes) list) \<Rightarrow> 't \<Rightarrow> bool"
  assumes lookup: "serves u ukeys (Suc n) T t \<Longrightarrow> T number = Some (bytes, es) \<Longrightarrow> key_ok ukeys k \<Longrightarrow>
      \<exists>r t'. tget options number bytes k arg handler t =
        Some (Status_OK, case r of None \<Rightarrow> arg | Some e \<Rightarrow> handler arg (fst e) (snd e), t') \<and>
        lookup_answer u es k r \<and> serves u ukeys n T t'"
    and room: "serves u ukeys (Suc n) T t \<Longrightarrow> serves u ukeys n T t"

definition file_entries :: "(u64 \<rightharpoonup> u64 \<times> (bytes \<times> bytes) list) \<Rightarrow> file_meta \<Rightarrow> (bytes \<times> bytes) list" where
  "file_entries T m = snd (the (T (fm_number m)))"

text \<open>A file has its entries in order, and its metadata records its size and its first and last key.\<close>

definition file_holds :: "comparator \<Rightarrow> (bytes \<Rightarrow> bool) \<Rightarrow> (u64 \<rightharpoonup> u64 \<times> (bytes \<times> bytes) list) \<Rightarrow> file_meta \<Rightarrow> bool" where
  "file_holds u ukeys T m \<longleftrightarrow> (\<exists>es. T (fm_number m) = Some (fm_file_size m, es) \<and> es \<noteq> [] \<and> entries_ok u ukeys es \<and>
     fm_smallest m = fst (hd es) \<and> fm_largest m = fst (last es))"

text \<open>The entries of a version in the order in which reads visit them.\<close>

definition search_order :: "(file_ptr \<Rightarrow> file_meta) \<Rightarrow> file_ptr list list \<Rightarrow> nat \<Rightarrow> file_ptr list" where
  "search_order heap files level = (if level = 0 then sort_key (\<lambda>f. - uint (fm_number (heap f))) (files ! 0) else files ! level)"

definition version_entries :: "(u64 \<rightharpoonup> u64 \<times> (bytes \<times> bytes) list) \<Rightarrow> (file_ptr \<Rightarrow> file_meta) \<Rightarrow> file_ptr list list \<Rightarrow> nat list \<Rightarrow> (bytes \<times> bytes) list" where
  "version_entries T heap files levels = concat (map (\<lambda>level. concat (map (\<lambda>f. file_entries T (heap f)) (search_order heap files level))) levels)"

definition version_holds :: "comparator \<Rightarrow> (bytes \<Rightarrow> bool) \<Rightarrow> (u64 \<rightharpoonup> u64 \<times> (bytes \<times> bytes) list) \<Rightarrow> (file_ptr \<Rightarrow> file_meta) \<Rightarrow> file_ptr list list \<Rightarrow> bool" where
  "version_holds u ukeys T heap files \<longleftrightarrow> levels_ok u ukeys (map (map heap) files) \<and>
     (\<forall>level < kNumLevels. length (files ! level) < 2 ^ 31 \<and> (\<forall>f \<in> set (files ! level). file_holds u ukeys T (heap f)))"

lemma visible_entry_concat_None: "visible_entry u (concat ess) k s = None \<longleftrightarrow> (\<forall>es \<in> set ess. visible_entry u es k s = None)"
  by (induction ess) (auto simp: visible_entry_append split: option.splits)

lemma visible_entry_filter:
  "(\<And>x. x \<in> set xs \<Longrightarrow> \<not> P x \<Longrightarrow> visible_entry u (f x) k s = None) \<Longrightarrow>
   visible_entry u (concat (map f (filter P xs))) k s = visible_entry u (concat (map f xs)) k s"
proof (induction xs)
  case (Cons x xs)
  then have IH: "visible_entry u (concat (map f (filter P xs))) k s = visible_entry u (concat (map f xs)) k s" by simp
  with Cons.prems [of x] show ?case by (cases "P x") (simp_all add: visible_entry_append split: option.split)
qed simp

lemma less_Pack_iff:
  assumes "key_ok ukeys (fst e)" "s \<le> kMaxSequenceNumber"
  shows "PackSequenceAndType s kValueTypeForSeek < key_tag (fst e) \<longleftrightarrow> s < entry_sequence e"
proof -
  obtain q where q: "ParseInternalKey (fst e) = Some q" using assms(1) by (auto simp: key_ok_def)
  have "fst e = AppendInternalKey [] q" using ParseInternalKey_bytes [OF q] by simp
  then have tag: "key_tag (fst e) = PackSequenceAndType (pik_sequence q) (pik_type q)" by (simp add: AppendInternalKey_def)
  have seq: "entry_sequence e = pik_sequence q" using q by (simp add: entry_sequence_def)
  show ?thesis
    unfolding tag seq word_less_nat_alt unat_Pack [OF parsed_sequence_le [OF q]] unat_Pack [OF assms(2)]
    by (cases "pik_type q") (auto simp: ValueType_byte_def kValueTypeForSeek_def)
qed

text \<open>What \<open>Get\<close> returns for the entry a read sees, if that ends the search, and the value it leaves.\<close>

definition found_status :: "(bytes \<times> bytes) option \<Rightarrow> status option" where
  "found_status v = (case v of None \<Rightarrow> None | Some e \<Rightarrow>
     if pik_type (the (ParseInternalKey (fst e))) = kTypeValue then Some Status_OK else Some (Status_NotFound [] []))"

definition found_value :: "(bytes \<times> bytes) option \<Rightarrow> bytes \<Rightarrow> bytes" where
  "found_value v old = (case read_value v of Some x \<Rightarrow> x | None \<Rightarrow> old)"

context comparator_contract
begin

lemma seek_key_less:
  assumes "key_ok keys (fst e)" "s \<le> kMaxSequenceNumber"
  shows "InternalKeyComparator_Compare c (fst e) (InternalKey_make k s kValueTypeForSeek) < 0 \<longleftrightarrow>
    cmp_Compare c (entry_user_key e) k < 0 \<or> cmp_Compare c (entry_user_key e) k = 0 \<and> s < entry_sequence e"
  using less_Pack_iff [OF assms] by (simp add: InternalKeyComparator_Compare_simps)

lemma later_user_key:
  assumes "entries_ok c keys (e # es)" "x \<in> set es" "keys k" "0 < cmp_Compare c (entry_user_key e) k"
  shows "cmp_Compare c (entry_user_key x) k \<noteq> 0"
proof -
  note E = entries_ok_Cons [OF assms(1)]
  have x: "keys (entry_user_key x)" "cmp_Compare c (entry_user_key e) (entry_user_key x) \<le> 0" using E(4) assms(2) by auto
  have "cmp_Compare c k (entry_user_key e) < 0" using compare_flip [OF assms(3) E(3)] assms(4) by simp
  then have "cmp_Compare c k (entry_user_key x) < 0" using compare_less_le_trans [OF assms(3) E(3) x(1) _ x(2)] by blast
  then show ?thesis using compare_eq_sym [OF assms(3) x(1)] by auto
qed

lemma visible_first:
  assumes "entries_ok c keys es" "keys k" "s \<le> kMaxSequenceNumber"
  shows "visible_entry c es k s = (case first_at c (InternalKey_make k s kValueTypeForSeek) es of
    Some e \<Rightarrow> if cmp_Compare c (entry_user_key e) k = 0 then Some e else None | None \<Rightarrow> None)"
  using assms(1)
proof (induction es)
  case (Cons e es)
  note E = entries_ok_Cons [OF Cons.prems]
  note less = seek_key_less [OF E(2) assms(3), of k]
  show ?case
  proof (cases "InternalKeyComparator_Compare c (fst e) (InternalKey_make k s kValueTypeForSeek) < 0")
    case True
    then show ?thesis using Cons.IH [OF E(1)] less by (auto simp: visible_entry_Cons first_at_def)
  next
    case False
    have "visible_entry c es k s = None" if "cmp_Compare c (entry_user_key e) k \<noteq> 0"
      by (rule visible_entry_NoneI, intro ballI later_user_key [OF Cons.prems _ assms(2)]) (use that False less in auto)
    then show ?thesis using False less by (auto simp: visible_entry_Cons first_at_def)
  qed
qed (simp add: first_at_def)

lemma file_keys:
  assumes "file_holds c keys T m" "e \<in> set (file_entries T m)"
  shows "keys (entry_user_key e)" "cmp_Compare c (file_start m) (entry_user_key e) \<le> 0" "cmp_Compare c (entry_user_key e) (file_limit m) \<le> 0"
proof -
  obtain es where es: "file_entries T m = es" "es \<noteq> []" "entries_ok c keys es" "fm_smallest m = fst (hd es)" "fm_largest m = fst (last es)"
    using assms(1) by (auto simp: file_holds_def file_entries_def)
  have e: "e \<in> set es" and K: "key_ok keys (fst e)" using assms(2) es by (auto simp: entries_ok_def)
  then show ke: "keys (entry_user_key e)" by (simp add: key_ok_def)
  obtain a xs where a: "es = a # xs" using es(2) by (cases es) auto
  show "cmp_Compare c (file_start m) (entry_user_key e) \<le> 0"
    using entries_ok_Cons(4) [OF es(3) [unfolded a]] e ke compare_refl [OF ke] by (auto simp: es(4) a)
  obtain zs z where z: "es = zs @ [z]" using es(2) by (cases es rule: rev_cases) auto
  show "cmp_Compare c (entry_user_key e) (file_limit m) \<le> 0"
  proof (cases "e = z")
    case True
    then show ?thesis using es(5) z compare_refl [OF ke] by simp
  next
    case False
    then have "InternalKeyComparator_Compare c (fst e) (fst z) < 0" "key_ok keys (fst z)"
      using es(3) e by (auto simp: z entries_ok_def sorted_wrt_append)
    then show ?thesis using internal_less_cases(1) [OF K] es(5) z by simp
  qed
qed

lemma outside_invisible:
  assumes "file_holds c keys T m" "keys k" "cmp_Compare c k (file_start m) < 0 \<or> 0 < cmp_Compare c k (file_limit m)"
  shows "visible_entry c (file_entries T m) k s = None"
proof (rule visible_entry_NoneI, intro ballI notI)
  fix e assume e: "e \<in> set (file_entries T m)" and eq: "cmp_Compare c (entry_user_key e) k = 0"
  note E = file_keys [OF assms(1) e]
  have m: "keys (file_start m)" "keys (file_limit m)"
    using assms(1) by (auto simp: file_holds_def entries_ok_def key_ok_def)
  have "cmp_Compare c (file_start m) k \<le> 0" using compare_trans [OF m(1) E(1) assms(2) E(2)] eq by simp
  moreover have "cmp_Compare c k (file_limit m) \<le> 0"
    using compare_trans [OF assms(2) E(1) m(2) _ E(3)] compare_eq_sym [OF E(1) assms(2)] eq by simp
  ultimately show False using assms(3) compare_flip [OF assms(2) m(1)] by linarith
qed

lemma newest_visible:
  assumes "\<forall>f \<in> set files. file_holds c keys T (heap f)" "keys k"
  shows "visible_entry c (concat (map (\<lambda>f. file_entries T (heap f)) (newest_overlapping c heap k files))) k s =
    visible_entry c (concat (map (\<lambda>f. file_entries T (heap f)) (sort_key (\<lambda>f. - uint (fm_number (heap f))) files))) k s"
  unfolding newest_overlapping_def filter_sort [symmetric]
  by (rule visible_entry_filter, rule outside_invisible [OF _ assms(2)]) (use assms(1) in auto)

lemma before_invisible:
  assumes "file_holds c keys T m" "keys k" "s \<le> kMaxSequenceNumber"
    and less: "InternalKeyComparator_Compare c (fm_largest m) (InternalKey_make k s kValueTypeForSeek) < 0"
  shows "visible_entry c (file_entries T m) k s = None"
proof -
  let ?ikey = "InternalKey_make k s kValueTypeForSeek"
  obtain es where F: "file_entries T m = es" "es \<noteq> []" "entries_ok c keys es" "fm_largest m = fst (last es)"
    using assms(1) by (auto simp: file_holds_def file_entries_def)
  obtain zs z where z: "es = zs @ [z]" using F(2) by (cases es rule: rev_cases) auto
  have es: "file_entries T m = zs @ [z]" "entries_ok c keys (zs @ [z])" "fm_largest m = fst z" using F z by simp_all
  have K: "internal_keys keys (fst e)" if "e \<in> set (zs @ [z])" for e using es(2) that key_ok_internal by (auto simp: entries_ok_def)
  have I: "internal_keys keys ?ikey" using assms(2,3) by (simp add: internal_keys_def)
  have "InternalKeyComparator_Compare c (fst e) ?ikey < 0" if e: "e \<in> set (zs @ [z])" for e
  proof (cases "e = z")
    case True
    then show ?thesis using less es(3) by simp
  next
    case False
    then have "InternalKeyComparator_Compare c (fst e) (fst z) < 0" using es(2) e by (auto simp: entries_ok_def sorted_wrt_append)
    then show ?thesis using key_order.compare_less_trans [OF internal_order K [OF e] K I, of z] less es(3) by simp
  qed
  then have "first_at c ?ikey (zs @ [z]) = None" unfolding first_at_def find_None_iff by blast
  then show ?thesis using visible_first [OF es(2) assms(2,3)] es(1) by simp
qed

lemma later_file_invisible:
  assumes "file_holds c keys T m" "file_holds c keys T m'" "InternalKeyComparator_Compare c (fm_largest m) (fm_smallest m') < 0"
    and a: "keys a" "cmp_Compare c a (file_limit m) \<le> 0" "0 < cmp_Compare c a k" and "keys k"
  shows "visible_entry c (file_entries T m') k s = None"
proof (rule outside_invisible [OF assms(2) \<open>keys k\<close>], rule disjI1)
  have K: "keys (file_limit m)" "keys (file_start m')" using assms(1,2) by (auto simp: file_holds_def entries_ok_def key_ok_def)
  have "cmp_Compare c (file_limit m) (file_start m') \<le> 0" using assms(3) by (auto simp: InternalKeyComparator_Compare_simps)
  then have "cmp_Compare c a (file_start m') \<le> 0" using compare_trans [OF a(1) K a(2)] by blast
  moreover have "cmp_Compare c k a < 0" using compare_flip [OF \<open>keys k\<close> a(1)] a(3) by simp
  ultimately show "cmp_Compare c k (file_start m') < 0" using compare_less_le_trans [OF \<open>keys k\<close> a(1) K(2)] by blast
qed

lemma candidate_visible:
  assumes ok: "level_files_ok c keys (map heap files)" "length files < 2 ^ 31" "\<forall>f \<in> set files. file_holds c keys T (heap f)"
    and k: "keys k" "s \<le> kMaxSequenceNumber"
  shows "\<exists>fs. level_candidate c heap k (InternalKey_make k s kValueTypeForSeek) files = Some fs \<and> set fs \<subseteq> set files \<and> length fs \<le> length files \<and>
    visible_entry c (concat (map (\<lambda>f. file_entries T (heap f)) fs)) k s = visible_entry c (concat (map (\<lambda>f. file_entries T (heap f)) files)) k s"
proof -
  let ?ikey = "InternalKey_make k s kValueTypeForSeek" and ?E = "\<lambda>f. file_entries T (heap f)"
  let ?P = "\<lambda>f. InternalKeyComparator_Compare c (fm_largest (heap f)) ?ikey < 0"
  have I: "internal_keys keys ?ikey" using k by (simp add: internal_keys_def)
  obtain r where r: "FindFile c (map heap files) ?ikey = Some r" "unat r = length (takeWhile ?P files)"
    using FindFile_level [OF ok(1) _ I] ok(2) by (auto simp: takeWhile_map comp_def)
  have front: "visible_entry c (concat (map ?E (takeWhile ?P files))) k s = None"
    unfolding visible_entry_concat_None using before_invisible [OF _ k] ok(3) by (auto dest!: set_takeWhileD)
  have split: "visible_entry c (concat (map ?E files)) k s = visible_entry c (concat (map ?E (dropWhile ?P files))) k s"
    using front by (subst takeWhile_dropWhile_id [of ?P files, symmetric]) (simp only: map_append concat_append visible_entry_append option.case)
  show ?thesis
  proof (cases "dropWhile ?P files")
    case Nil
    then have "length files \<le> unat r" unfolding r(2) by (metis append.right_neutral order_refl takeWhile_dropWhile_id)
    then show ?thesis using r(1) split Nil by (simp add: level_candidate_def)
  next
    case (Cons f rest)
    obtain ys where ys: "ys = takeWhile ?P files" by blast
    have files: "files = ys @ f # rest" using takeWhile_dropWhile_id [of ?P files] Cons ys by simp
    have at: "unat r < length files" "files ! unat r = f" "f \<in> set files" unfolding r(2) ys [symmetric] by (simp_all add: files)
    have f: "file_holds c keys T (heap f)" using ok(3) at(3) by blast
    have later: "visible_entry c (concat (map ?E rest)) k s = None"
      if a: "keys a" "cmp_Compare c a (file_limit (heap f)) \<le> 0" "0 < cmp_Compare c a k" for a
    proof -
      have "visible_entry c (?E g) k s = None" if g: "g \<in> set rest" for g
      proof (rule later_file_invisible [OF f _ _ a k(1)])
        have "sorted_wrt (\<lambda>f g. InternalKeyComparator_Compare c (fm_largest f) (fm_smallest g) < 0) (map heap (ys @ f # rest))"
          using ok(1) unfolding level_files_ok_def files by blast
        then show "InternalKeyComparator_Compare c (fm_largest (heap f)) (fm_smallest (heap g)) < 0"
          using g by (simp add: sorted_wrt_append)
        have "g \<in> set files" using g unfolding files by simp
        then show "file_holds c keys T (heap g)" using ok(3) by blast
      qed
      then show ?thesis unfolding visible_entry_concat_None by simp
    qed
    have K: "keys (file_start (heap f))" "keys (file_limit (heap f))" using f by (auto simp: file_holds_def entries_ok_def key_ok_def)
    show ?thesis
    proof (cases "cmp_Compare c k (file_start (heap f)) < 0")
      case True
      have "file_ok c keys (heap f)" using ok(1) at(3) by (simp add: level_files_ok_def)
      then have "cmp_Compare c (file_start (heap f)) (file_limit (heap f)) \<le> 0" by (auto simp: file_ok_def InternalKeyComparator_Compare_simps)
      then have "visible_entry c (concat (map ?E (f # rest))) k s = None"
        using outside_invisible [OF f k(1) disjI1 [OF True]] later [OF K(1)] True compare_flip [OF k(1) K(1)]
        by (simp add: visible_entry_append)
      then show ?thesis using r(1) at(1,2) True split Cons by (simp add: level_candidate_def Let_def)
    next
      case False
      have "visible_entry c (concat (map ?E rest)) k s = None" if none: "visible_entry c (?E f) k s = None"
      proof -
        have es: "entries_ok c keys (?E f)" "?E f \<noteq> []" "fm_largest (heap f) = fst (last (?E f))" using f by (auto simp: file_holds_def file_entries_def)
        have "\<not> ?P f" using hd_dropWhile [of ?P files] Cons by simp
        then have "last (?E f) \<in> set (?E f)" "\<not> InternalKeyComparator_Compare c (fst (last (?E f))) ?ikey < 0"
          using es(2,3) by simp_all
        then have "first_at c ?ikey (?E f) \<noteq> None" unfolding first_at_def find_None_iff by blast
        then obtain e where e: "first_at c ?ikey (?E f) = Some e" by blast
        then have in_f: "e \<in> set (?E f)" and ge: "\<not> InternalKeyComparator_Compare c (fst e) ?ikey < 0"
          by (auto simp: first_at_def find_Some_iff in_set_conv_nth)
        have "key_ok keys (fst e)" using es(1) in_f by (simp add: entries_ok_def)
        then have "0 < cmp_Compare c (entry_user_key e) k"
          using ge seek_key_less [OF _ k(2), of e k] visible_first [OF es(1) k] none e by (auto split: if_splits)
        then show ?thesis using later [OF file_keys(1,3) [OF f in_f]] by blast
      qed
      then have "visible_entry c (concat (map ?E [f])) k s = visible_entry c (concat (map ?E (f # rest))) k s"
        by (simp add: visible_entry_append split: option.split)
      then show ?thesis using r(1) at False split Cons by (intro exI [of _ "[f]"]) (auto simp: level_candidate_def Let_def)
    qed
  qed
qed

lemma SaveValue_cases:
  assumes "key_ok keys (fst e)"
  shows "SaveValue sv (fst e) v = (if cmp_Compare (sv_ucmp sv) (entry_user_key e) (sv_user_key sv) = 0
    then if pik_type (the (ParseInternalKey (fst e))) = kTypeValue then sv\<lparr>sv_state := kFound, sv_value := v\<rparr> else sv\<lparr>sv_state := kDeleted\<rparr>
    else sv)"
  using assms by (auto simp: SaveValue_def key_ok_def parsed_user_key)

lemma read_file_ok:
  assumes T: "table_lookup tget serves" "serves c keys (Suc n) T (g_tables g)" and f: "file_holds c keys T (heap f)"
    and k: "keys k" "s \<le> kMaxSequenceNumber"
  defines "v \<equiv> visible_entry c (file_entries T (heap f)) k s"
  shows "\<exists>g'. read_file c tget heap options k (InternalKey_make k s kValueTypeForSeek) level f g = Some (found_status v, g') \<and>
    g_value g' = found_value v (g_value g) \<and> serves c keys n T (g_tables g')"
proof -
  let ?ikey = "InternalKey_make k s kValueTypeForSeek"
  let ?saver = "\<lparr>sv_state = kNotFound, sv_ucmp = c, sv_user_key = k, sv_value = g_value g\<rparr>"
  obtain es where es: "T (fm_number (heap f)) = Some (fm_file_size (heap f), es)" "entries_ok c keys es" "file_entries T (heap f) = es"
    using f by (auto simp: file_holds_def file_entries_def)
  have ikey: "key_ok keys ?ikey" using k by (simp add: key_ok_def ParseInternalKey_make)
  obtain r t' where r: "tget options (fm_number (heap f)) (fm_file_size (heap f)) ?ikey ?saver SaveValue (g_tables g) =
      Some (Status_OK, case r of None \<Rightarrow> ?saver | Some e \<Rightarrow> SaveValue ?saver (fst e) (snd e), t')"
    and answer: "lookup_answer c es ?ikey r" and t': "serves c keys n T t'"
    using table_lookup.lookup [OF T es(1) ikey] by blast
  have charge: "g_value (charge_seek g) = g_value g" "g_tables (charge_seek g) = g_tables g"
    by (auto simp: charge_seek_def split: option.splits)
  have v: "v = (case first_at c ?ikey es of Some e \<Rightarrow> if cmp_Compare c (entry_user_key e) k = 0 then Some e else None | None \<Rightarrow> None)"
    unfolding v_def es(3) by (rule visible_first [OF es(2) k])
  show ?thesis
  proof (cases r)
    case None
    then have "v = None" using answer unfolding v by (cases "first_at c ?ikey es") (simp_all add: lookup_answer_def)
    then show ?thesis using r None t' charge by (simp add: read_file_def found_status_def found_value_def read_value_def)
  next
    case (Some e)
    then have e: "first_at c ?ikey es = Some e" using answer unfolding lookup_answer_def by blast
    then have "e \<in> set es" unfolding first_at_def find_Some_iff by auto
    then have "key_ok keys (fst e)" using es(2) unfolding entries_ok_def by blast
    note save = SaveValue_cases [OF this, of ?saver "snd e"]
    have v: "v = (if cmp_Compare c (entry_user_key e) k = 0 then Some e else None)" unfolding v e by simp
    show ?thesis unfolding read_file_def charge Let_def using r Some t'
      by (auto simp: charge v save found_status_def found_value_def read_value_def)
  qed
qed

lemma serves_weaken:
  assumes "table_lookup tget serves" "serves u ukeys (m + n) T t"
  shows "serves u ukeys n T t"
  using assms(2) by (induction m) (auto intro: table_lookup.room [OF assms(1)])

lemma found_append: "found_status (visible_entry u (es @ es') k s) =
    (case found_status (visible_entry u es k s) of Some x \<Rightarrow> Some x | None \<Rightarrow> found_status (visible_entry u es' k s))"
  "found_value (visible_entry u (es @ es') k s) x =
    (case visible_entry u es k s of Some e \<Rightarrow> found_value (Some e) x | None \<Rightarrow> found_value (visible_entry u es' k s) x)"
  "found_status v = None \<longleftrightarrow> v = None" "found_value None x = x"
  by (cases "visible_entry u es k s"; cases v; simp add: visible_entry_append found_status_def found_value_def read_value_def)+

lemma read_files_ok:
  assumes T: "table_lookup tget serves" and k: "keys k" "s \<le> kMaxSequenceNumber"
    and "serves c keys (length fs + n) T (g_tables g)" "\<forall>f \<in> set fs. file_holds c keys T (heap f)"
  shows "\<exists>g'. read_files c tget heap options k (InternalKey_make k s kValueTypeForSeek) level fs g =
      Some (found_status (visible_entry c (concat (map (\<lambda>f. file_entries T (heap f)) fs)) k s), g') \<and>
    g_value g' = found_value (visible_entry c (concat (map (\<lambda>f. file_entries T (heap f)) fs)) k s) (g_value g) \<and>
    serves c keys n T (g_tables g')"
  using assms(4-)
proof (induction fs arbitrary: g)
  case Nil
  then show ?case by (simp add: found_append)  (simp add: found_status_def)
next
  case (Cons f fs)
  let ?v = "visible_entry c (file_entries T (heap f)) k s"
  obtain g1 where g1: "read_file c tget heap options k (InternalKey_make k s kValueTypeForSeek) level f g = Some (found_status ?v, g1)"
    "g_value g1 = found_value ?v (g_value g)" "serves c keys (length fs + n) T (g_tables g1)"
    using read_file_ok [OF T, of "length fs + n" T g heap f k s options level] Cons.prems k by auto
  show ?case
  proof (cases ?v)
    case None
    then show ?thesis using Cons.IH [OF g1(3)] Cons.prems(2) g1(1,2) by (simp add: found_append visible_entry_append found_status_def)
  next
    case (Some e)
    then have "found_status ?v \<noteq> None" by (simp add: found_append)
    then show ?thesis using Some g1 serves_weaken [OF T g1(3)] by (auto simp: visible_entry_append)
  qed
qed

lemma files_to_search_ok:
  assumes "version_holds c keys T heap files" "length files = kNumLevels" "level < kNumLevels" and k: "keys k" "s \<le> kMaxSequenceNumber"
  shows "\<exists>fs. files_to_search c heap k (InternalKey_make k s kValueTypeForSeek) files level = Some fs \<and>
    (\<forall>f \<in> set fs. file_holds c keys T (heap f)) \<and> length fs \<le> length (files ! level) \<and>
    visible_entry c (concat (map (\<lambda>f. file_entries T (heap f)) fs)) k s =
      visible_entry c (concat (map (\<lambda>f. file_entries T (heap f)) (search_order heap files level))) k s"
proof -
  have ok: "length (files ! level) < 2 ^ 31" "\<forall>f \<in> set (files ! level). file_holds c keys T (heap f)"
    "0 < level \<longrightarrow> level_files_ok c keys (map heap (files ! level))"
    using assms(1-3) by (simp_all add: version_holds_def levels_ok_def)
  consider "files ! level = []" | "files ! level \<noteq> []" "level = 0" | "files ! level \<noteq> []" "0 < level" by blast
  then show ?thesis
  proof cases
    case 1
    then show ?thesis by (cases "level = 0") (simp_all add: files_to_search_def search_order_def)
  next
    case 2
    then show ?thesis using newest_visible [OF ok(2) k(1)] ok(2)
      by (simp add: files_to_search_def search_order_def) (simp add: newest_overlapping_def le_trans [OF length_filter_le])
  next
    case 3
    from candidate_visible [OF _ ok(1,2) k] ok(3) 3(2) obtain fs where
      "level_candidate c heap k (InternalKey_make k s kValueTypeForSeek) (files ! level) = Some fs" "set fs \<subseteq> set (files ! level)"
      "length fs \<le> length (files ! level)" "visible_entry c (concat (map (\<lambda>f. file_entries T (heap f)) fs)) k s =
        visible_entry c (concat (map (\<lambda>f. file_entries T (heap f)) (files ! level))) k s" by blast
    then show ?thesis using 3 ok(2) by (auto simp: files_to_search_def search_order_def)
  qed
qed

lemma read_levels_ok:
  assumes T: "table_lookup tget serves" and V: "version_holds c keys T heap files" "length files = kNumLevels"
    and k: "keys k" "s \<le> kMaxSequenceNumber"
    and "serves c keys (sum_list (map (\<lambda>l. length (files ! l)) levels) + n) T (g_tables g)" "\<forall>l \<in> set levels. l < kNumLevels"
  defines "v \<equiv> \<lambda>levels. visible_entry c (version_entries T heap files levels) k s"
  shows "\<exists>g'. read_levels c tget heap options k (InternalKey_make k s kValueTypeForSeek) files levels g =
      Some (case found_status (v levels) of Some st \<Rightarrow> st | None \<Rightarrow> Status_NotFound [] [], g') \<and>
    g_value g' = found_value (v levels) (g_value g) \<and> serves c keys n T (g_tables g')"
  using assms(6,7)
proof (induction levels arbitrary: g)
  case Nil
  then show ?case by (simp add: v_def version_entries_def found_append) (simp add: found_status_def)
next
  case (Cons l ls)
  let ?E = "\<lambda>fs. concat (map (\<lambda>f. file_entries T (heap f)) fs)" and ?ikey = "InternalKey_make k s kValueTypeForSeek"
  let ?room = "sum_list (map (\<lambda>l. length (files ! l)) ls) + n"
  have l: "l < kNumLevels" using Cons.prems(2) by simp
  obtain fs where fs: "files_to_search c heap k ?ikey files l = Some fs" "\<forall>f \<in> set fs. file_holds c keys T (heap f)"
    "length fs \<le> length (files ! l)" "visible_entry c (?E fs) k s = visible_entry c (?E (search_order heap files l)) k s"
    using files_to_search_ok [OF V l k] by blast
  have "serves c keys ((length (files ! l) - length fs) + (length fs + ?room)) T (g_tables g)" using Cons.prems(1) fs(3) by (simp add: add.assoc)
  from read_files_ok [OF T k serves_weaken [OF T this] fs(2)] obtain g1 where
    g1: "read_files c tget heap options k ?ikey l fs g = Some (found_status (visible_entry c (?E fs) k s), g1)"
    "g_value g1 = found_value (visible_entry c (?E fs) k s) (g_value g)" "serves c keys ?room T (g_tables g1)" by blast
  have v: "v (l # ls) = visible_entry c (?E (search_order heap files l) @ version_entries T heap files ls) k s"
    by (simp add: v_def version_entries_def)
  show ?case
  proof (cases "visible_entry c (?E fs) k s")
    case None
    then have same: "v (l # ls) = v ls" unfolding v visible_entry_append fs(4) [symmetric] by (simp add: v_def)
    have "g_value g1 = g_value g" "found_status (visible_entry c (?E fs) k s) = None"
      using g1(2) None by (simp_all add: found_append)
    then show ?thesis using Cons.IH [OF g1(3)] Cons.prems(2) fs(1) g1(1) unfolding same by simp
  next
    case (Some e)
    then have same: "v (l # ls) = Some e" unfolding v visible_entry_append fs(4) [symmetric] by simp
    have "found_status (Some e) \<noteq> None" by (simp add: found_append)
    then obtain st where "found_status (Some e) = Some st" by blast
    then show ?thesis using serves_weaken [OF T g1(3)] fs(1) g1(1,2) unfolding same Some by simp
  qed
qed

end

subsection \<open>The newest entry\<close>

text \<open>All the entries of a version, and the newest one of a user key at or below a sequence number among some entries.\<close>

definition all_file_entries :: "(u64 \<rightharpoonup> u64 \<times> (bytes \<times> bytes) list) \<Rightarrow> (file_ptr \<Rightarrow> file_meta) \<Rightarrow> file_ptr list list \<Rightarrow> (bytes \<times> bytes) list" where
  "all_file_entries T heap files = concat (map (\<lambda>f. file_entries T (heap f)) (concat files))"

definition newest_entry :: "comparator \<Rightarrow> (bytes \<times> bytes) list \<Rightarrow> bytes \<Rightarrow> u64 \<Rightarrow> (bytes \<times> bytes) option \<Rightarrow> bool" where
  "newest_entry u es k s r \<longleftrightarrow>
     (case r of
        None \<Rightarrow> \<forall>e \<in> set es. cmp_Compare u (entry_user_key e) k = 0 \<longrightarrow> s < entry_sequence e
      | Some e \<Rightarrow> e \<in> set es \<and> cmp_Compare u (entry_user_key e) k = 0 \<and> entry_sequence e \<le> s \<and>
          (\<forall>x \<in> set es. cmp_Compare u (entry_user_key x) k = 0 \<longrightarrow> entry_sequence x \<le> s \<longrightarrow> entry_sequence x \<le> entry_sequence e))"

text \<open>
  The files of a version by age: of a user key that two files share, the entries are newer in the file of level 0 with the larger
  number, and newer in the lower one of two levels.
\<close>

definition no_older :: "comparator \<Rightarrow> (bytes \<times> bytes) list \<Rightarrow> (bytes \<times> bytes) list \<Rightarrow> bool" where
  "no_older u es es' \<longleftrightarrow> (\<forall>a \<in> set es. \<forall>b \<in> set es'. cmp_Compare u (entry_user_key a) (entry_user_key b) = 0 \<longrightarrow> entry_sequence b \<le> entry_sequence a)"

definition files_by_age :: "comparator \<Rightarrow> (u64 \<rightharpoonup> u64 \<times> (bytes \<times> bytes) list) \<Rightarrow> (file_ptr \<Rightarrow> file_meta) \<Rightarrow> file_ptr list list \<Rightarrow> bool" where
  "files_by_age u T heap files \<longleftrightarrow> distinct (map (\<lambda>f. fm_number (heap f)) (files ! 0)) \<and>
     (\<forall>f \<in> set (files ! 0). \<forall>g \<in> set (files ! 0). fm_number (heap g) < fm_number (heap f) \<longrightarrow>
        no_older u (file_entries T (heap f)) (file_entries T (heap g))) \<and>
     (\<forall>l < kNumLevels. \<forall>h < kNumLevels. l < h \<longrightarrow> (\<forall>f \<in> set (files ! l). \<forall>g \<in> set (files ! h).
        no_older u (file_entries T (heap f)) (file_entries T (heap g))))"

text \<open>In a list in which no entry is newer than an earlier one of its key, the first visible entry is the newest.\<close>

definition newest_first :: "comparator \<Rightarrow> (bytes \<times> bytes) list \<Rightarrow> bool" where
  "newest_first u es \<longleftrightarrow> sorted_wrt (\<lambda>a b. cmp_Compare u (entry_user_key a) (entry_user_key b) = 0 \<longrightarrow> entry_sequence b \<le> entry_sequence a) es"

lemma newest_first_append: "newest_first u (es @ es') \<longleftrightarrow> newest_first u es \<and> newest_first u es' \<and> no_older u es es'"
  by (simp add: newest_first_def no_older_def sorted_wrt_append)

lemma no_older_concat: "no_older u es (concat ess) \<longleftrightarrow> (\<forall>es' \<in> set ess. no_older u es es')"
  "no_older u (concat ess) es \<longleftrightarrow> (\<forall>es' \<in> set ess. no_older u es' es)"
  by (auto simp: no_older_def)

lemma newest_first_concat: "\<forall>es \<in> set ess. newest_first u es \<Longrightarrow> sorted_wrt (no_older u) ess \<Longrightarrow> newest_first u (concat ess)"
  by (induction ess) (simp_all add: newest_first_append no_older_concat, simp add: newest_first_def)

context comparator_contract
begin

lemma visible_is_newest:
  assumes "newest_first c es" "\<forall>e \<in> set es. keys (entry_user_key e)" "keys k"
  shows "newest_entry c es k s (visible_entry c es k s)"
  using assms(1,2)
proof (induction es)
  case (Cons e es)
  have later: "entry_sequence x \<le> entry_sequence e" if "x \<in> set es" "cmp_Compare c (entry_user_key x) k = 0" "cmp_Compare c (entry_user_key e) k = 0" for x
  proof -
    have K: "keys (entry_user_key e)" "keys (entry_user_key x)" using Cons.prems(2) that(1) by simp_all
    have "cmp_Compare c k (entry_user_key x) = 0" using compare_eq_sym [OF K(2) assms(3)] that(2) by simp
    then have "cmp_Compare c (entry_user_key e) (entry_user_key x) = 0" using compare_eq_trans [OF K(1) assms(3) K(2)] that(3) by simp
    then show ?thesis using Cons.prems(1) that(1) by (simp add: newest_first_def)
  qed
  show ?case
  proof (cases "cmp_Compare c (entry_user_key e) k = 0 \<and> entry_sequence e \<le> s")
    case True
    then show ?thesis using later by (simp add: visible_entry_Cons newest_entry_def)
  next
    case False
    have "newest_entry c es k s (visible_entry c es k s)" using Cons by (simp add: newest_first_def)
    then show ?thesis using False by (auto simp: visible_entry_Cons newest_entry_def not_le split: option.splits)
  qed
qed (simp add: newest_entry_def)

lemma file_newest_first: "file_holds c keys T m \<Longrightarrow> newest_first c (file_entries T m)"
proof -
  assume "file_holds c keys T m"
  then have es: "entries_ok c keys (file_entries T m)" by (auto simp: file_holds_def file_entries_def)
  have step: "entry_sequence b \<le> entry_sequence a"
    if "a \<in> set (file_entries T m)" "b \<in> set (file_entries T m)" "InternalKeyComparator_Compare c (fst a) (fst b) < 0"
      "cmp_Compare c (entry_user_key a) (entry_user_key b) = 0" for a b
    using internal_less_cases(2) [of "fst a" "fst b" "snd b" "snd a"] that es by (simp add: entries_ok_def)
  have "sorted_wrt (\<lambda>a b. InternalKeyComparator_Compare c (fst a) (fst b) < 0) (file_entries T m)" using es by (simp add: entries_ok_def)
  then show ?thesis unfolding newest_first_def by (rule sorted_wrt_mono_rel [rotated]) (use step in blast)
qed

lemma level_no_older:
  assumes "file_holds c keys T m" "file_holds c keys T m'" "InternalKeyComparator_Compare c (fm_largest m) (fm_smallest m') < 0"
  shows "no_older c (file_entries T m) (file_entries T m')"
  unfolding no_older_def
proof (intro ballI impI)
  fix a b assume a: "a \<in> set (file_entries T m)" and b: "b \<in> set (file_entries T m')"
    and eq: "cmp_Compare c (entry_user_key a) (entry_user_key b) = 0"
  note A = file_keys [OF assms(1) a] and B = file_keys [OF assms(2) b]
  let ?cmp = "InternalKeyComparator_Compare c"
  obtain es where es: "file_entries T m = es" "es \<noteq> []" "entries_ok c keys es" "fm_largest m = fst (last es)"
    using assms(1) by (auto simp: file_holds_def file_entries_def)
  obtain fs where fs: "file_entries T m' = fs" "fs \<noteq> []" "entries_ok c keys fs" "fm_smallest m' = fst (hd fs)"
    using assms(2) by (auto simp: file_holds_def file_entries_def)
  have K: "internal_keys keys (fst x)" if "x \<in> set es \<union> set fs" for x using that es(3) fs(3) key_ok_internal by (auto simp: entries_ok_def)
  obtain zs z where z: "es = zs @ [z]" using es(2) by (cases es rule: rev_cases) auto
  obtain y ys where y: "fs = y # ys" using fs(2) by (cases fs) auto
  have "a = z \<or> ?cmp (fst a) (fst z) < 0" using a es(1,3) by (auto simp: z entries_ok_def sorted_wrt_append)
  then have ay: "?cmp (fst a) (fst y) < 0"
    using assms(3) es(4) fs(4) key_order.compare_less_trans [OF internal_order K K K, of a z y] a es(1) z y by auto
  have "b = y \<or> ?cmp (fst y) (fst b) < 0" using b fs(1,3) by (auto simp: y entries_ok_def)
  then have "?cmp (fst a) (fst b) < 0"
    using ay key_order.compare_less_trans [OF internal_order K K K, of a y b] a b es(1) fs(1) y by auto
  moreover have "key_ok keys (fst a)" "key_ok keys (fst b)" using a b es(1,3) fs(1,3) by (simp_all add: entries_ok_def)
  ultimately show "entry_sequence b \<le> entry_sequence a"
    using internal_less_cases(2) [of "fst a" "fst b" "snd b" "snd a"] eq by simp
qed

end

lemma set_version_entries:
  assumes "length files = kNumLevels"
  shows "set (version_entries T heap files [0..<kNumLevels]) = set (all_file_entries T heap files)"
proof -
  have "set (search_order heap files l) = set (files ! l)" for l by (simp add: search_order_def)
  moreover have "set files = set (map ((!) files) [0..<kNumLevels])" by (simp only: assms [symmetric] map_nth)
  then have "(\<Union>l \<in> {0..<kNumLevels}. set (files ! l)) = set (concat files)" by simp
  ultimately show ?thesis by (fastforce simp: version_entries_def all_file_entries_def)
qed

lemma version_newest_first:
  assumes cmp: "comparator_contract u ukeys" and holds: "version_holds u ukeys T heap files" and age: "files_by_age u T heap files"
  shows "newest_first u (version_entries T heap files [0..<kNumLevels])"
  unfolding version_entries_def
proof (rule newest_first_concat)
  let ?E = "\<lambda>f. file_entries T (heap f)" and ?L = "\<lambda>l. concat (map (\<lambda>f. file_entries T (heap f)) (search_order heap files l))"
  have order: "set (search_order heap files l) = set (files ! l)" for l by (simp add: search_order_def)
  have fh: "file_holds u ukeys T (heap f)" if "l < kNumLevels" "f \<in> set (files ! l)" for l f using holds that by (simp add: version_holds_def)
  have "newest_first u (?L l)" if l: "l < kNumLevels" for l
  proof (rule newest_first_concat)
    show "\<forall>es \<in> set (map ?E (search_order heap files l)). newest_first u es"
      using comparator_contract.file_newest_first [OF cmp] fh [OF l] order by auto
    show "sorted_wrt (no_older u) (map ?E (search_order heap files l))"
    proof (cases "l = 0")
      case True
      let ?fs = "sort_key (\<lambda>f. - uint (fm_number (heap f))) (files ! 0)"
      have "sorted (map (\<lambda>f. - uint (fm_number (heap f))) ?fs)" by simp
      moreover have "distinct (map (\<lambda>f. - uint (fm_number (heap f))) ?fs)"
      proof -
        have "inj_on (\<lambda>f. - uint (fm_number (heap f))) (set (files ! 0))" "distinct (files ! 0)"
          using age by (auto simp: files_by_age_def distinct_map inj_on_def intro: word_uint_eqI)
        then show ?thesis by (simp add: distinct_map)
      qed
      ultimately have "sorted_wrt (<) (map (\<lambda>f. - uint (fm_number (heap f))) ?fs)" by (simp add: strict_sorted_iff)
      then have "sorted_wrt (\<lambda>f g. fm_number (heap g) < fm_number (heap f)) ?fs" by (simp add: sorted_wrt_map word_less_def)
      then have "sorted_wrt (\<lambda>f g. no_older u (?E f) (?E g)) ?fs"
        by (rule sorted_wrt_mono_rel [rotated]) (use age in \<open>simp add: files_by_age_def\<close>)
      then show ?thesis using True by (simp add: search_order_def sorted_wrt_map)
    next
      case False
      then have "level_files_ok u ukeys (map heap (files ! l))" using holds l by (auto simp: version_holds_def levels_ok_def)
      then have "sorted_wrt (\<lambda>f g. InternalKeyComparator_Compare u (fm_largest (heap f)) (fm_smallest (heap g)) < 0) (files ! l)"
        by (simp add: level_files_ok_def sorted_wrt_map)
      then have "sorted_wrt (\<lambda>f g. no_older u (?E f) (?E g)) (files ! l)"
        by (rule sorted_wrt_mono_rel [rotated]) (use comparator_contract.level_no_older [OF cmp] fh [OF l] in blast)
      then show ?thesis using False by (simp add: search_order_def sorted_wrt_map)
    qed
  qed
  then show "\<forall>es \<in> set (map ?L [0..<kNumLevels]). newest_first u es" by simp
  have "no_older u (?L l) (?L h)" if "l < h" "h < kNumLevels" for l h
  proof -
    have "\<forall>f \<in> set (files ! l). \<forall>g \<in> set (files ! h). no_older u (?E f) (?E g)"
      using age that order_less_trans [OF that] unfolding files_by_age_def by blast
    then show ?thesis using order by (simp add: no_older_concat)
  qed
  then show "sorted_wrt (no_older u) (map ?L [0..<kNumLevels])" by (simp add: sorted_wrt_iff_nth_less)
qed

lemma version_visible_newest:
  assumes cmp: "comparator_contract u ukeys" and holds: "version_holds u ukeys T heap files" "length files = kNumLevels"
    and age: "files_by_age u T heap files" and k: "ukeys k"
  shows "newest_entry u (all_file_entries T heap files) k s (visible_entry u (version_entries T heap files [0..<kNumLevels]) k s)"
proof -
  let ?es = "version_entries T heap files [0..<kNumLevels]"
  have "\<forall>e \<in> set (all_file_entries T heap files). ukeys (entry_user_key e)"
  proof
    fix e assume "e \<in> set (all_file_entries T heap files)"
    then obtain fs f where f: "fs \<in> set files" "f \<in> set fs" "e \<in> set (file_entries T (heap f))" by (auto simp: all_file_entries_def)
    obtain l where "l < kNumLevels" "fs = files ! l" using f(1) holds(2) by (metis in_set_conv_nth)
    with f have "l < kNumLevels" "f \<in> set (files ! l)" "e \<in> set (file_entries T (heap f))" by simp_all
    then show "ukeys (entry_user_key e)"
      using comparator_contract.file_keys(1) [OF cmp, of T "heap f" e] holds(1) by (auto simp: version_holds_def)
  qed
  then have "newest_entry u ?es k s (visible_entry u ?es k s)"
    using comparator_contract.visible_is_newest [OF cmp version_newest_first [OF cmp holds(1) age] _ k] set_version_entries [OF holds(2)] by simp
  then show ?thesis unfolding newest_entry_def set_version_entries [OF holds(2)] .
qed

text \<open>A read through a version returns the first visible entry in the order of the search.\<close>

lemma Version_Get_ok:
  assumes "comparator_contract u ukeys" "table_lookup tget serves" "version_holds u ukeys T heap files" "length files = kNumLevels"
    and "ukeys k" "s \<le> kMaxSequenceNumber" "serves u ukeys (length (concat files) + n) T t"
  shows "\<exists>stats t'. Version_Get u tget heap files options (LookupKey_make k s) value t = Some
      (case visible_entry u (version_entries T heap files [0..<kNumLevels]) k s of
         None \<Rightarrow> (Status_NotFound [] [], value, stats, t')
       | Some e \<Rightarrow> if pik_type (the (ParseInternalKey (fst e))) = kTypeValue then (Status_OK, snd e, stats, t')
           else (Status_NotFound [] [], value, stats, t')) \<and>
    serves u ukeys n T t'"
proof -
  let ?g = "\<lparr>g_stats = \<lparr>gs_seek_file = None, gs_seek_file_level = - 1\<rparr>, g_last_file_read = None, g_value = value, g_tables = t\<rparr>"
    and ?v = "visible_entry u (version_entries T heap files [0..<kNumLevels]) k s"
  have "map (\<lambda>l. length (files ! l)) [0..<kNumLevels] = map length files"
    unfolding assms(4) [symmetric] by (rule nth_equalityI) simp_all
  then have "serves u ukeys (sum_list (map (\<lambda>l. length (files ! l)) [0..<kNumLevels]) + n) T (g_tables ?g)"
    using assms(7) by (simp add: length_concat)
  from comparator_contract.read_levels_ok [OF assms(1-6) this, where options = options] obtain g' where
    g': "read_levels u tget heap options k (InternalKey_make k s kValueTypeForSeek) files [0..<kNumLevels] ?g =
      Some (case found_status ?v of Some st \<Rightarrow> st | None \<Rightarrow> Status_NotFound [] [], g')"
    "g_value g' = found_value ?v value" "serves u ukeys n T (g_tables g')" by auto
  then have "Version_Get u tget heap files options (LookupKey_make k s) value t =
      Some (case found_status ?v of Some st \<Rightarrow> st | None \<Rightarrow> Status_NotFound [] [], found_value ?v value, g_stats g', g_tables g')"
    by (simp add: Version_Get_def LookupKey_parts)
  then show ?thesis using g'(3)
    by (intro exI [of _ "g_stats g'"] exI [of _ "g_tables g'"]) (cases ?v; simp add: found_status_def found_value_def read_value_def)
qed

end
