(* ===== verification/Table_Cache.thy ===== *)
theory Table_Cache
  imports Table Filename Cache_Room
begin

text \<open>
  \<^verbatim>\<open>db/table_cache.cc\<close>: open tables by file number, in a cache whose operations are those of \<open>Sharded_Cache\<close>.
  The tables read their blocks through a second cache, the one of the options.  \<open>Env::NewRandomAccessFile\<close> is a
  parameter; what deleting a table or a file does outside the program is not modelled.
\<close>

type_synonym table_and_file = "random_access_file \<times> table"

text \<open>The constants of a table cache, and its state: the two caches and the environment.\<close>

record ('c, 'b, 'e) table_cache_setting =
  ts_NewRandomAccessFile :: "bytes \<Rightarrow> 'e \<Rightarrow> status \<times> random_access_file option \<times> 'e"
  ts_dbname :: bytes
  ts_options :: table_options
  ts_cache_ops :: "('c, table_and_file) cache_ops"
  ts_block_cache_ops :: "('b, block) cache_ops"

record ('c, 'b, 'e) table_cache =
  tc_cache :: 'c
  tc_block_cache :: "'b option"
  tc_env :: 'e

definition TableCache_make :: "u64 \<Rightarrow> 'b option \<Rightarrow> 'e \<Rightarrow> (table_and_file sharded_cache, 'b, 'e) table_cache option" where
  "TableCache_make entries block_cache env = do {
     c \<leftarrow> ShardedLRUCache_make entries;
     Some \<lparr>tc_cache = c, tc_block_cache = block_cache, tc_env = env\<rparr> }"

definition UnrefEntry :: "('c, 'b, 'e) table_cache_setting \<Rightarrow> addr \<Rightarrow> ('c, 'b, 'e) table_cache \<Rightarrow> ('c, 'b, 'e) table_cache option" where
  "UnrefEntry X h t = do { c \<leftarrow> ca_Release (ts_cache_ops X) h (tc_cache t); Some (t\<lparr>tc_cache := c\<rparr>) }"

text \<open>Opening a table file under its new or its old name.\<close>

definition open_table_file :: "('c, 'b, 'e) table_cache_setting \<Rightarrow> u64 \<Rightarrow> 'e \<Rightarrow> status \<times> random_access_file option \<times> 'e" where
  "open_table_file X file_number e =
     (let (s, f, e) = ts_NewRandomAccessFile X (TableFileName (ts_dbname X) file_number) e
      in if \<not> Status_ok s
         then let (s', f, e) = ts_NewRandomAccessFile X (SSTTableFileName (ts_dbname X) file_number) e
              in (if Status_ok s' then Status_OK else s, f, e)
         else (s, f, e))"

definition FindTable :: "('c, 'b, 'e) table_cache_setting \<Rightarrow> u64 \<Rightarrow> u64 \<Rightarrow> ('c, 'b, 'e) table_cache \<Rightarrow>
    (status \<times> addr option \<times> ('c, 'b, 'e) table_cache) option" where
  "FindTable X file_number file_size t = do {
     let key = EncodeFixed64 file_number;
     (h, c) \<leftarrow> ca_Lookup (ts_cache_ops X) key (tc_cache t);
     (case h of
        Some h \<Rightarrow> Some (Status_OK, Some h, t\<lparr>tc_cache := c\<rparr>)
      | None \<Rightarrow> do {
          let (s, f, e) = open_table_file X file_number (tc_env t);
          ((s, table), b) \<leftarrow>
            (if Status_ok s
             then case f of None \<Rightarrow> None
               | Some f \<Rightarrow> Table_Open (ts_block_cache_ops X) (ts_options X) (tc_block_cache t) f file_size
             else Some ((s, None), tc_block_cache t));
          let t = t\<lparr>tc_cache := c, tc_block_cache := b, tc_env := e\<rparr>;
          if \<not> Status_ok s then (if table = None then Some (s, None, t) else None)
          else (case (f, table) of
              (Some f, Some table) \<Rightarrow> do {
                (h, c) \<leftarrow> ca_Insert (ts_cache_ops X) key (f, table) 1 (tc_cache t);
                Some (s, Some h, t\<lparr>tc_cache := c\<rparr>) }
            | _ \<Rightarrow> None) }) }"

definition TableCache_NewIterator :: "('c, 'b, 'e) table_cache_setting \<Rightarrow> read_options \<Rightarrow> u64 \<Rightarrow> u64 \<Rightarrow> ('c, 'b, 'e) table_cache \<Rightarrow>
    ((status + 'b table_iterator) \<times> addr list \<times> table option \<times> ('c, 'b, 'e) table_cache) option" where
  "TableCache_NewIterator X options file_number file_size t = do {
     (s, h, t) \<leftarrow> FindTable X file_number file_size t;
     if \<not> Status_ok s then Some (Inl (NewErrorIterator s), [], None, t)
     else do {
       h \<leftarrow> h;
       (_, table) \<leftarrow> ca_Value (ts_cache_ops X) h (tc_cache t);
       Some (Inr (Table_NewIterator table (tc_block_cache t) options), RegisterCleanup h [], Some table, t) } }"

definition TableCache_Get :: "('c, 'b, 'e) table_cache_setting \<Rightarrow> read_options \<Rightarrow> u64 \<Rightarrow> u64 \<Rightarrow> bytes \<Rightarrow> 'a \<Rightarrow>
    ('a \<Rightarrow> bytes \<Rightarrow> bytes \<Rightarrow> 'a) \<Rightarrow> ('c, 'b, 'e) table_cache \<Rightarrow> (status \<times> 'a \<times> ('c, 'b, 'e) table_cache) option" where
  "TableCache_Get X options file_number file_size k arg handle_result t = do {
     (s, h, t) \<leftarrow> FindTable X file_number file_size t;
     if Status_ok s then do {
       h \<leftarrow> h;
       (_, table) \<leftarrow> ca_Value (ts_cache_ops X) h (tc_cache t);
       (s, arg, b) \<leftarrow> Table_InternalGet (ts_block_cache_ops X) table (tc_block_cache t) options k arg handle_result;
       t \<leftarrow> UnrefEntry X h (t\<lparr>tc_block_cache := b\<rparr>);
       Some (s, arg, t) }
     else Some (s, arg, t) }"

definition TableCache_Evict :: "('c, 'b, 'e) table_cache_setting \<Rightarrow> u64 \<Rightarrow> ('c, 'b, 'e) table_cache \<Rightarrow> ('c, 'b, 'e) table_cache option" where
  "TableCache_Evict X file_number t = do {
     c \<leftarrow> ca_Erase (ts_cache_ops X) (EncodeFixed64 file_number) (tc_cache t);
     Some (t\<lparr>tc_cache := c\<rparr>) }"

end
