(* ===== verification/Table_Cache_Correct.thy ===== *)
theory Table_Cache_Correct
  imports Table_Cache Version_Reads_Correct Table_Correct
begin

text \<open>
  The table cache meets the contract of \<open>Version_Reads_Correct\<close>: a lookup hands on the first entry at or after the
  key whenever that entry has the user key looked for, filters or not.
\<close>

subsection \<open>Lookups by user key\<close>

text \<open>Keys that the comparator takes for equal must match the same filters, as \<^verbatim>\<open>filter_policy.h\<close> asks.\<close>

definition filter_fits :: "comparator \<Rightarrow> (bytes \<Rightarrow> bool) \<Rightarrow> filter_policy \<Rightarrow> bool" where
  "filter_fits u ukeys p \<longleftrightarrow> filter_policy_contract p (\<lambda>_. True) \<and>
     (\<forall>a b f. internal_keys ukeys a \<longrightarrow> internal_keys ukeys b \<longrightarrow> cmp_Compare u (ExtractUserKey a) (ExtractUserKey b) = 0 \<longrightarrow>
        fp_KeyMayMatch p a f = fp_KeyMayMatch p b f)"

lemma filter_fits_block:
  assumes "filter_fits u ukeys p" "internal_keys ukeys a" "internal_keys ukeys b" "cmp_Compare u (ExtractUserKey a) (ExtractUserKey b) = 0"
  shows "FilterBlockReader_KeyMayMatch (FilterBlockReader_make p data) off a = FilterBlockReader_KeyMayMatch (FilterBlockReader_make p data) off b"
proof -
  have "fp_KeyMayMatch p a = fp_KeyMayMatch p b" using assms unfolding filter_fits_def by blast
  moreover have "fr_policy (FilterBlockReader_make p data) = p" by (auto simp: FilterBlockReader_make_def Let_def)
  ultimately show ?thesis unfolding FilterBlockReader_KeyMayMatch_def by (simp only:)
qed

lemma find_by_index: "find P xs = (let n = length (takeWhile (\<lambda>x. \<not> P x) xs) in if n < length xs then Some (xs ! n) else None)"
  by (induction xs) (simp_all add: Let_def)

lemma first_at_index: "first_at u k es = (let n = seek_index (InternalKeyComparator_Compare u) k es in if n < length es then Some (es ! n) else None)"
  by (simp add: first_at_def find_by_index seek_index_def)

lemma find_concat: "find P (concat xss) = Some x \<Longrightarrow> \<exists>i < length xss. find P (xss ! i) = Some x \<and> (\<forall>j < i. find P (xss ! j) = None)"
proof (induction xss)
  case (Cons xs xss)
  have append: "find P (xs @ ys) = (case find P xs of Some y \<Rightarrow> Some y | None \<Rightarrow> find P ys)" for ys by (induction xs) simp_all
  show ?case
  proof (cases "find P xs")
    case None
    then obtain i where "i < length xss" "find P (xss ! i) = Some x" "\<forall>j < i. find P (xss ! j) = None"
      using Cons append by auto
    then show ?thesis using None by (intro exI [of _ "Suc i"]) (auto simp: All_less_Suc2)
  next
    case (Some y)
    then show ?thesis using Cons.prems append by (intro exI [of _ 0]) simp
  qed
qed simp

context comparator_contract
begin

text \<open>A shortened index key has a user key of its own.\<close>

lemma separator_user_key:
  assumes "internal_keys keys a" "internal_keys keys b" "InternalKeyComparator_Compare c a b < 0"
  defines "sep \<equiv> InternalKeyComparator_FindShortestSeparator c a b"
  shows "sep = a \<or> cmp_Compare c (ExtractUserKey sep) (ExtractUserKey b) < 0"
proof -
  let ?a = "ExtractUserKey a" and ?b = "ExtractUserKey b" and ?t = "cmp_FindShortestSeparator c (ExtractUserKey a) (ExtractUserKey b)"
  have K: "keys ?a" "keys ?b" using assms(1,2) by (simp_all add: internal_keys_def)
  have le: "cmp_Compare c ?a ?b < 0 \<or> cmp_Compare c ?a ?b = 0" using assms(3) by (auto simp: InternalKeyComparator_Compare_simps)
  show ?thesis
  proof (cases "length ?t < length ?a \<and> cmp_Compare c ?a ?t < 0")
    case True
    then have "cmp_Compare c ?a ?b < 0" using le separator_equal [OF K] by blast
    then have "cmp_Compare c ?t ?b < 0" using separator_between [OF K] by blast
    then show ?thesis using True by (simp add: sep_def InternalKeyComparator_FindShortestSeparator_def Let_def)
  next
    case False
    then show ?thesis unfolding sep_def InternalKeyComparator_FindShortestSeparator_def Let_def by (simp only: if_False simp_thms)
  qed
qed

lemma lookup_finds_user_key:
  assumes ix: "indexed (InternalKeyComparator c) (internal_keys keys) bs" and opts: "opt_comparator opts = InternalKeyComparator c"
    and k: "internal_keys keys k" and first: "first_at c k (all_entries bs) = Some e" and same: "cmp_Compare c (entry_user_key e) (ExtractUserKey k) = 0"
    and len: "length (data_part bs) < 2 ^ 64" "opt_filter_policy opts \<noteq> None \<longrightarrow> filter_knows fs bs"
    and flt: "\<forall>p. opt_filter_policy opts = Some p \<longrightarrow> filter_fits c keys p \<and> length (filter_block_bytes p fs) < 2 ^ 32"
  shows "lookup_entry opts bs fs k = Some e"
proof -
  let ?cmp = "InternalKeyComparator_Compare c"
  have order: "key_order ?cmp (internal_keys keys)" by (rule internal_order)
  obtain i where i: "i < length bs" "find (\<lambda>e. \<not> ?cmp (fst e) k < 0) (blk_entries (bs ! i)) = Some e"
    and none: "\<forall>j < i. find (\<lambda>e. \<not> ?cmp (fst e) k < 0) (blk_entries (bs ! j)) = None"
    using find_concat [OF first [unfolded first_at_def all_entries_def]] by auto
  have earlier: "?cmp (fst x) k < 0" if "j < i" "x \<in> set (blk_entries (bs ! j))" for j x
    using none that unfolding find_None_iff by blast
  have e: "e \<in> set (blk_entries (bs ! i))" "\<not> ?cmp (fst e) k < 0" using i(2) by (auto simp: find_Some_iff in_set_conv_nth)
  have ke: "internal_keys keys (fst e)" using part_sorted [OF ix i(1)] e(1) by (auto simp: sorted_entries_def)
  have key: "internal_keys keys (blk_index_key (bs ! j))" if "j < length bs" for j using ix that by (simp add: indexed_def)
  have below: "?cmp (blk_index_key (bs ! j)) k < 0" if j: "j < i" for j
  proof -
    obtain m where m: "i = Suc m" using j by (cases i) auto
    let ?sep = "blk_index_key (bs ! m)" and ?a = "last (blk_entries (bs ! m))" and ?b = "hd (blk_entries (bs ! i))"
    have mb: "m < length bs" using i(1) m by simp
    have ne: "blk_entries (bs ! m) \<noteq> []" "blk_entries (bs ! i) \<noteq> []" using ix mb i(1) by (simp_all add: indexed_def)
    have tail: "hd (all_entries (drop i bs)) = ?b" "all_entries (drop i bs) \<noteq> []"
      using ne(2) by (simp_all add: all_entries_def Cons_nth_drop_Suc [OF i(1), symmetric])
    have sep: "?sep = InternalKeyComparator_FindShortestSeparator c (fst ?a) (fst ?b)"
      using ix mb tail by (simp add: indexed_def index_separates_def shortest_key_def m)
    have K: "internal_keys keys (fst ?a)" "internal_keys keys (fst ?b)"
      using part_sorted [OF ix mb] part_sorted [OF ix i(1)] ne by (auto simp: sorted_entries_def)
    have a: "?cmp (fst ?a) k < 0" using earlier [of m ?a] ne(1) m by simp
    have b: "?cmp (fst ?b) (fst e) \<le> 0"
      using part_sorted [OF ix i(1)] e(1) ne(2) key_order.compare_refl [OF order ke]
      by (cases "blk_entries (bs ! i)") (auto simp: sorted_entries_def order_less_imp_le)
    have ab: "?cmp (fst ?a) (fst ?b) < 0" using index_below [OF ix _ i(1), of m ?b] index_above [OF ix mb, of ?a]
      key_order.compare_le_less_trans [OF order K(1) key [OF mb] K(2)] ne m by simp
    have "?cmp ?sep k < 0"
    proof (rule ccontr)
      assume ge: "\<not> ?cmp ?sep k < 0"
      then have "?sep \<noteq> fst ?a" using a by auto
      then have "cmp_Compare c (ExtractUserKey ?sep) (ExtractUserKey (fst ?b)) < 0"
        using separator_user_key [OF K ab] unfolding sep by blast
      moreover have b': "cmp_Compare c (ExtractUserKey (fst ?b)) (entry_user_key e) \<le> 0" using b by (auto simp: InternalKeyComparator_Compare_simps)
      have U: "keys (ExtractUserKey ?sep)" "keys (ExtractUserKey (fst ?b))" "keys (entry_user_key e)" "keys (ExtractUserKey k)"
        using K(2) ke key [OF mb] k by (simp_all add: internal_keys_def)
      ultimately have "cmp_Compare c (ExtractUserKey ?sep) (entry_user_key e) < 0"
        using compare_less_le_trans [OF U(1-3) _ b'] by blast
      then have "cmp_Compare c (ExtractUserKey ?sep) (ExtractUserKey k) < 0"
        using compare_less_le_trans [OF U(1,3,4)] same by simp
      then show False using ge by (auto simp: InternalKeyComparator_Compare_simps)
    qed
    then show ?thesis
      using j m index_sorted [OF ix] key_order.compare_less_trans [OF order key [of j] key [OF mb] k] mb
      by (cases "j = m") (auto simp: sorted_entries_def sorted_wrt_iff_nth_less)
  qed
  have at: "seek_index ?cmp k (index_entries bs) = i"
  proof (rule seek_index_eqI)
    show "?cmp (fst (index_entries bs ! j)) k < 0" if "j < i" for j using below [OF that] that i(1) by simp
    have "?cmp (fst e) (blk_index_key (bs ! i)) \<le> 0" using index_above [OF ix i(1) e(1)] by simp
    then show "\<not> ?cmp (fst (index_entries bs ! i)) k < 0"
      using e(2) key_order.compare_le_less_trans [OF order ke key [OF i(1)] k] i(1) by auto
  qed (use i(1) in simp)
  have inside: "let j = seek_index ?cmp k (blk_entries (bs ! i)) in j < length (blk_entries (bs ! i)) \<and> blk_entries (bs ! i) ! j = e"
    using i(2) unfolding find_by_index seek_index_def by (simp add: Let_def split: if_splits)
  have match: "FilterBlockReader_KeyMayMatch (FilterBlockReader_make p (filter_block_bytes p fs)) (bh_offset (block_handle_of bs i)) k"
    if p: "opt_filter_policy opts = Some p" for p
  proof -
    have fits: "filter_fits c keys p" "length (filter_block_bytes p fs) < 2 ^ 32" using flt p by blast+
    have "filter_slot bs i < length fs" "fst e \<in> set (fs ! filter_slot bs i)" using len(2) p i e by (auto simp: filter_knows_def)
    moreover have "length (data_part (take i bs)) < 2 ^ 64" using data_part_less [of i "length bs" bs] i(1) len(1) by simp
    then have "unat (bh_offset (block_handle_of bs i)) div kFilterBase = filter_slot bs i"
      by (simp add: block_handle_of_def handle_at_def unat_of_nat_small filter_slot_def)
    ultimately have "FilterBlockReader_KeyMayMatch (FilterBlockReader_make p (filter_block_bytes p fs)) (bh_offset (block_handle_of bs i)) (fst e)"
      using filter_policy_contract.KeyMayMatch_built [of p "\<lambda>_. True"] fits by (simp add: filter_fits_def)
    then show ?thesis using filter_fits_block [OF fits(1) ke k same] by simp
  qed
  show ?thesis using at inside match i(1) by (auto simp: lookup_entry_def opts Let_def split: option.split)
qed

end

text \<open>A file with the bytes of a table that holds the entries \<open>es\<close>.\<close>

definition table_content :: "table_options \<Rightarrow> comparator \<Rightarrow> (bytes \<Rightarrow> bool) \<Rightarrow> bytes \<Rightarrow> (bytes \<times> bytes) list \<Rightarrow> table_block list \<Rightarrow> bytes list list \<Rightarrow> bytes \<Rightarrow> bool" where
  "table_content opts u ukeys content es bs fs index \<longleftrightarrow> (\<exists>meta. table_layout opts content bs fs meta index) \<and> length content < 2 ^ 32 \<and>
     indexed (InternalKeyComparator u) (internal_keys ukeys) bs \<and> all_entries bs = es"

definition options_fit :: "table_options \<Rightarrow> comparator \<Rightarrow> (bytes \<Rightarrow> bool) \<Rightarrow> bool" where
  "options_fit opts u ukeys \<longleftrightarrow> comparator_contract u ukeys \<and> opt_comparator opts = InternalKeyComparator u \<and>
     (\<forall>p. opt_filter_policy opts = Some p \<longrightarrow> filter_fits u ukeys p)"

subsection \<open>The block cache\<close>

text \<open>
  The tables opened so far have ids of their own, of which \<open>reg\<close> gives the blocks: under the id and the offset of a block the cache
  holds that block or nothing, and it holds nothing under an id that has not been given out.
\<close>

definition registry_ok :: "nat \<Rightarrow> (u64 \<rightharpoonup> table_block list) \<Rightarrow> (bytes \<rightharpoonup> block) \<Rightarrow> bool" where
  "registry_ok ids reg m \<longleftrightarrow>
     (\<forall>id bs. reg id = Some bs \<longrightarrow> unat id \<le> ids \<and> length (data_part bs) < 2 ^ 64) \<and>
     (\<forall>id off. m (EncodeFixed64 id @ EncodeFixed64 off) \<noteq> None \<longrightarrow> unat id \<le> ids) \<and>
     (\<forall>id bs i b. reg id = Some bs \<longrightarrow> i < length bs \<longrightarrow>
        m (EncodeFixed64 id @ EncodeFixed64 (bh_offset (block_handle_of bs i))) = Some b \<longrightarrow> b = Block_make (blk_bytes (bs ! i)))"

lemma block_key_inject: "EncodeFixed64 a @ EncodeFixed64 b = EncodeFixed64 a' @ EncodeFixed64 b' \<longleftrightarrow> a = a' \<and> b = b'"
proof -
  have "EncodeFixed64 x = EncodeFixed64 y \<longleftrightarrow> x = y" for x y by (metis DecodeFixed64_EncodeFixed64)
  then show ?thesis by simp
qed

lemma registry_keeps:
  assumes "reg (t_cache_id table) = Some bs"
  shows "keeps_blocks bs table (registry_ok ids reg)"
  unfolding keeps_blocks_def
proof (intro allI impI conjI)
  fix m assume m: "registry_ok ids reg m"
  show "cache_agrees bs table m" using m assms unfolding registry_ok_def cache_agrees_def block_cache_key_def by blast
  fix i assume i: "i < length bs"
  have len: "length (data_part bs) < 2 ^ 64" "unat (t_cache_id table) \<le> ids" using m assms by (simp_all add: registry_ok_def)
  have same: "i = j" if "j < length bs" "bh_offset (block_handle_of bs i) = bh_offset (block_handle_of bs j)" for j
    using block_offsets_distinct [OF len(1) i that] .
  show "registry_ok ids reg (m(block_cache_key table (block_handle_of bs i) \<mapsto> Block_make (blk_bytes (bs ! i))))"
    unfolding registry_ok_def
  proof (intro conjI)
    show "\<forall>id bs. reg id = Some bs \<longrightarrow> unat id \<le> ids \<and> length (data_part bs) < 2 ^ 64" using m by (simp add: registry_ok_def)
    show "\<forall>id off. (m(block_cache_key table (block_handle_of bs i) \<mapsto> Block_make (blk_bytes (bs ! i)))) (EncodeFixed64 id @ EncodeFixed64 off) \<noteq> None
        \<longrightarrow> unat id \<le> ids"
    proof (intro allI impI)
      fix id off assume "(m(block_cache_key table (block_handle_of bs i) \<mapsto> Block_make (blk_bytes (bs ! i)))) (EncodeFixed64 id @ EncodeFixed64 off) \<noteq> None"
      then have "id = t_cache_id table \<or> m (EncodeFixed64 id @ EncodeFixed64 off) \<noteq> None"
        by (auto simp: block_cache_key_def block_key_inject split: if_splits)
      with m len(2) show "unat id \<le> ids" unfolding registry_ok_def by blast
    qed
    show "\<forall>id bs' j b. reg id = Some bs' \<longrightarrow> j < length bs' \<longrightarrow> (m(block_cache_key table (block_handle_of bs i) \<mapsto> Block_make (blk_bytes (bs ! i))))
        (EncodeFixed64 id @ EncodeFixed64 (bh_offset (block_handle_of bs' j))) = Some b \<longrightarrow> b = Block_make (blk_bytes (bs' ! j))"
    proof (intro allI impI)
      fix id bs' j b assume a: "reg id = Some bs'" "j < length bs'"
        "(m(block_cache_key table (block_handle_of bs i) \<mapsto> Block_make (blk_bytes (bs ! i))))
          (EncodeFixed64 id @ EncodeFixed64 (bh_offset (block_handle_of bs' j))) = Some b"
      show "b = Block_make (blk_bytes (bs' ! j))"
      proof (cases "id = t_cache_id table \<and> bh_offset (block_handle_of bs' j) = bh_offset (block_handle_of bs i)")
        case True
        then have "bs' = bs" using a(1) assms by simp
        with True a(2,3) same [of j] show ?thesis by (simp add: block_cache_key_def)
      next
        case False
        then have "m (EncodeFixed64 id @ EncodeFixed64 (bh_offset (block_handle_of bs' j))) = Some b"
          using a(3) by (auto simp: block_cache_key_def block_key_inject)
        with a(1,2) m show ?thesis unfolding registry_ok_def by blast
      qed
    qed
  qed
qed

text \<open>A table that is opened gets the next id, under which nothing is stored yet.\<close>

lemma registry_new:
  assumes "registry_ok ids reg m" "unat new = ids + 1" "length (data_part bs) < 2 ^ 64"
  shows "registry_ok (ids + 1) (reg(new \<mapsto> bs)) m"
proof -
  have "m (EncodeFixed64 new @ EncodeFixed64 off) = None" for off
    using assms(1,2) unfolding registry_ok_def by (metis Suc_eq_plus1 Suc_n_not_le_n)
  with assms show ?thesis unfolding registry_ok_def by (auto simp: le_SucI)
qed

text \<open>The block cache, if there is one, is a run of the interface with room for \<open>n\<close> more lookups and \<open>i\<close> more tables.\<close>

definition blocks_serve :: "('b, block) cache_ops \<Rightarrow> nat \<Rightarrow> nat \<Rightarrow> (u64 \<rightharpoonup> table_block list) \<Rightarrow> 'b option \<Rightarrow> bool" where
  "blocks_serve K n i reg b \<longleftrightarrow> (\<forall>c. b = Some c \<longrightarrow> (\<exists>run room load ids outs m. roomy_cache K run room load ids \<and> run c outs m \<and>
     size outs + load c + n + 3 < 2 ^ 31 \<and> ids c + i < 2 ^ 64 \<and> registry_ok (ids c) reg m))"

lemma blocks_serve_weaken:
  assumes "blocks_serve K n i reg b" "n' \<le> n" "i' \<le> i"
  shows "blocks_serve K n' i' reg b"
  unfolding blocks_serve_def
proof (intro allI impI)
  fix c assume "b = Some c"
  then obtain run room load ids outs m where "roomy_cache K run room load ids" "run c outs m"
    "size outs + load c + n + 3 < 2 ^ 31" "ids c + i < 2 ^ 64" "registry_ok (ids c) reg m"
    using assms(1) unfolding blocks_serve_def by blast
  moreover from this(3,4) assms(2,3) have "size outs + load c + n' + 3 < 2 ^ 31" "ids c + i' < 2 ^ 64" by simp_all
  ultimately show "\<exists>run room load ids outs m. roomy_cache K run room load ids \<and> run c outs m \<and>
     size outs + load c + n' + 3 < 2 ^ 31 \<and> ids c + i' < 2 ^ 64 \<and> registry_ok (ids c) reg m" by blast
qed

lemma blocks_serve_reads:
  assumes R: "random_access_contract R content"
    and l: "table_layout opts content bs fs meta index" "length content < 2 ^ 32" "opened opts R bs fs index table"
    and b: "blocks_serve K (Suc n) i reg b" "b \<noteq> None \<longrightarrow> reg (t_cache_id table) = Some bs"
  shows "\<exists>Q. block_reads K table opts bs b options Q \<and>
    (\<forall>b'. Q b' \<longrightarrow> blocks_serve K n i reg b' \<and> (b' = None \<longleftrightarrow> b = None))"
proof -
  have len: "length content < 2 ^ 64" using l(2) by simp
  show ?thesis
  proof (cases b)
    case None
    with random_access_contract.block_reads_uncached [OF R l(1) len l(3), of K options] show ?thesis
      by (intro exI [of _ "\<lambda>cache. cache = None"]) (simp add: blocks_serve_def)
  next
    case (Some c)
    then obtain run room load ids outs m where K: "roomy_cache K run room load ids" and m: "run c outs m"
      "size outs + load c + Suc n + 3 < 2 ^ 31" "ids c + i < 2 ^ 64" "registry_ok (ids c) reg m"
      using b(1) unfolding blocks_serve_def by blast
    have keeps: "keeps_blocks bs table (registry_ok (ids c) reg)" by (rule registry_keeps) (use b(2) Some in simp)
    have room: "size outs + load c + 3 < 2 ^ 31" using m(2) by simp
    let ?Q = "\<lambda>b'. \<exists>c' m'. b' = Some c' \<and> run c' outs m' \<and> registry_ok (ids c) reg m' \<and> load c' \<le> load c + 1 \<and> ids c' = ids c"
    have "block_reads K table opts bs b options ?Q"
      using random_access_contract.block_reads_cached [OF R l(1) len l(3) K m(1) room keeps m(4)] Some by simp
    moreover have "blocks_serve K n i reg b' \<and> (b' = None \<longleftrightarrow> b = None)" if b': "?Q b'" for b'
    proof -
      obtain c' m' where c': "b' = Some c'" "run c' outs m'" "registry_ok (ids c) reg m'" "load c' \<le> load c + 1" "ids c' = ids c"
        using b' by blast
      have "size outs + load c' + n + 3 < 2 ^ 31" "ids c' + i < 2 ^ 64" using c'(4,5) m(2,3) by simp_all
      then show ?thesis unfolding blocks_serve_def using c' K Some by force
    qed
    ultimately show ?thesis by blast
  qed
qed

lemma blocks_serve_new_table:
  assumes b: "blocks_serve K n (Suc i) reg b" and c: "b = Some c" and bs: "length (data_part bs) < 2 ^ 64"
  shows "blocks_serve K n i (reg(fst (ca_NewId K c) \<mapsto> bs)) (Some (snd (ca_NewId K c))) \<and> reg (fst (ca_NewId K c)) = None"
proof -
  obtain run room load ids outs m where K: "roomy_cache K run room load ids" and m: "run c outs m"
    "size outs + load c + n + 3 < 2 ^ 31" "ids c + Suc i < 2 ^ 64" "registry_ok (ids c) reg m"
    using b c unfolding blocks_serve_def by blast
  have "ids c + 1 < 2 ^ 64" using m(3) by simp
  note new = roomy_cache.new_id_fresh [OF K m(1) this]
  have "registry_ok (ids c + 1) (reg(fst (ca_NewId K c) \<mapsto> bs)) m" by (rule registry_new [OF m(4) _ bs]) (use new in simp)
  with new m(2,3) K have "blocks_serve K n i (reg(fst (ca_NewId K c) \<mapsto> bs)) (Some (snd (ca_NewId K c)))"
    unfolding blocks_serve_def by (intro allI impI exI [of _ run] exI [of _ room] exI [of _ load] exI [of _ ids] exI [of _ outs] exI [of _ m]) auto
  moreover have "reg (fst (ca_NewId K c)) = None"
    using m(4) new unfolding registry_ok_def by (metis Suc_eq_plus1 Suc_n_not_le_n option.exhaust)
  ultimately show ?thesis by blast
qed

subsection \<open>Lookups in an open table\<close>

lemma InternalGet_answers:
  assumes "options_fit opts u ukeys" "table_content opts u ukeys content es bs fs index" "random_access_contract f content"
    and "opened opts f bs fs index table" "key_ok ukeys k"
    and "blocks_serve K (Suc n) i reg b" "b \<noteq> None \<longrightarrow> reg (t_cache_id table) = Some bs"
  shows "\<exists>r b'. Table_InternalGet K table b options k arg handler =
      Some (Status_OK, case r of None \<Rightarrow> arg | Some e \<Rightarrow> handler arg (fst e) (snd e), b') \<and> lookup_answer u es k r \<and>
      blocks_serve K n i reg b' \<and> (b' = None \<longleftrightarrow> b = None)"
proof -
  have u: "comparator_contract u ukeys" "opt_comparator opts = InternalKeyComparator u"
    and flt: "\<forall>p. opt_filter_policy opts = Some p \<longrightarrow> filter_fits u ukeys p" using assms(1) by (simp_all add: options_fit_def)
  obtain meta where l: "table_layout opts content bs fs meta index" "length content < 2 ^ 32"
    "indexed (InternalKeyComparator u) (internal_keys ukeys) bs" "all_entries bs = es" using assms(2) by (auto simp: table_content_def)
  have ix: "indexed (opt_comparator opts) (internal_keys ukeys) bs" using l(3) u(2) by simp
  note k = key_ok_internal [OF assms(5)]
  obtain Q where reads: "block_reads K table opts bs b options Q"
    and Q: "\<forall>b'. Q b' \<longrightarrow> blocks_serve K n i reg b' \<and> (b' = None \<longleftrightarrow> b = None)"
    using blocks_serve_reads [OF assms(3) l(1,2) assms(4,6,7), of options] by (elim exE conjE)
  obtain b' where get: "Table_InternalGet K table b options k arg handler =
      Some (Status_OK, case lookup_entry opts bs fs k of None \<Rightarrow> arg | Some (k', v) \<Rightarrow> handler arg k' v, b')" and b': "Q b'"
    using random_access_contract.Table_InternalGet_ok [OF assms(3) l(1,2) assms(4) ix k reads, where arg = arg and handle_result = handler]
    by (elim exE conjE)
  have "lookup_answer u es k (lookup_entry opts bs fs k)"
    unfolding lookup_answer_def
  proof (intro conjI allI impI)
    fix e assume "lookup_entry opts bs fs k = Some e"
    from lookup_entry_first [OF ix k this] show "first_at u k es = Some e"
      unfolding first_at_index l(4) u(2) by (auto simp: Let_def)
  next
    fix e assume e: "first_at u k es = Some e" "cmp_Compare u (entry_user_key e) (ExtractUserKey k) = 0"
    have "length (data_part bs) < 2 ^ 64" using table_layout_sizes(1) [OF l(1)] l(2) by simp
    moreover have "opt_filter_policy opts \<noteq> None \<longrightarrow> filter_knows fs bs" by (rule table_layout_sizes(2) [OF l(1)])
    moreover have "\<forall>p. opt_filter_policy opts = Some p \<longrightarrow> filter_fits u ukeys p \<and> length (filter_block_bytes p fs) < 2 ^ 32"
      using flt table_layout_sizes(3) [OF l(1)] l(2) by (auto intro: order_le_less_trans)
    ultimately show "lookup_entry opts bs fs k = Some e"
      using comparator_contract.lookup_finds_user_key [OF u(1) l(3) u(2) k _ e(2)] e(1) l(4) by blast
  qed
  then show ?thesis using Q [rule_format, OF b'] unfolding get
    by (intro exI [of _ "lookup_entry opts bs fs k"] exI [of _ b'] conjI) (auto split: option.split)
qed

subsection \<open>The cache of tables\<close>

text \<open>
  Every table can be opened while the environment keeps \<open>env_ok\<close>, the open ones are those of their files, and those that read through
  a block cache are registered with it.
\<close>

definition tables_kept :: "('c, 'b, 'e) table_cache_setting \<Rightarrow> comparator \<Rightarrow> (bytes \<Rightarrow> bool) \<Rightarrow> (u64 \<rightharpoonup> u64 \<times> (bytes \<times> bytes) list) \<Rightarrow>
    ('e \<Rightarrow> bool) \<Rightarrow> bool \<Rightarrow> (u64 \<rightharpoonup> table_block list) \<Rightarrow> (bytes \<rightharpoonup> table_and_file) \<Rightarrow> bool" where
  "tables_kept X u ukeys T env_ok cached reg m \<longleftrightarrow> (\<forall>number bytes es. T number = Some (bytes, es) \<longrightarrow>
     (\<exists>content bs fs index. table_content (ts_options X) u ukeys content es bs fs index \<and> bytes = word_of_nat (length content) \<and>
        (\<forall>e. env_ok e \<longrightarrow> (\<exists>f e'. open_table_file X number e = (Status_OK, Some f, e') \<and> random_access_contract f content \<and> env_ok e')) \<and>
        (\<forall>f table. m (EncodeFixed64 number) = Some (f, table) \<longrightarrow>
           random_access_contract f content \<and> opened (ts_options X) f bs fs index table \<and> (cached \<longrightarrow> reg (t_cache_id table) = Some bs))))"

definition tables_serve :: "('c, 'b, 'e) table_cache_setting \<Rightarrow> comparator \<Rightarrow> (bytes \<Rightarrow> bool) \<Rightarrow> nat \<Rightarrow> (u64 \<rightharpoonup> u64 \<times> (bytes \<times> bytes) list) \<Rightarrow>
    ('c, 'b, 'e) table_cache \<Rightarrow> bool" where
  "tables_serve X u ukeys n T t \<longleftrightarrow> options_fit (ts_options X) u ukeys \<and>
     (\<exists>run room load ids outs m env_ok reg. roomy_cache (ts_cache_ops X) run room load ids \<and> run (tc_cache t) outs m \<and>
        size outs + load (tc_cache t) + n + 3 < 2 ^ 31 \<and> env_ok (tc_env t) \<and>
        tables_kept X u ukeys T env_ok (tc_block_cache t \<noteq> None) reg m \<and> blocks_serve (ts_block_cache_ops X) n n reg (tc_block_cache t))"

lemma tables_kept_insert:
  assumes "tables_kept X u ukeys T env_ok cached reg m" "T number = Some (bytes, es)"
    and "table_content (ts_options X) u ukeys content es bs fs index" "bytes = word_of_nat (length content)"
    and "\<forall>e. env_ok e \<longrightarrow> (\<exists>f e'. open_table_file X number e = (Status_OK, Some f, e') \<and> random_access_contract f content \<and> env_ok e')"
    and "random_access_contract f content" "opened (ts_options X) f bs fs index table" "cached \<longrightarrow> reg (t_cache_id table) = Some bs"
  shows "tables_kept X u ukeys T env_ok cached reg (m(EncodeFixed64 number \<mapsto> (f, table)))"
proof -
  have same: "EncodeFixed64 a = EncodeFixed64 b \<longleftrightarrow> a = b" for a b by (metis DecodeFixed64_EncodeFixed64)
  show ?thesis
    unfolding tables_kept_def
  proof (intro allI impI)
    fix n b' es' assume T: "T n = Some (b', es')"
    show "\<exists>content bs fs index. table_content (ts_options X) u ukeys content es' bs fs index \<and> b' = word_of_nat (length content) \<and>
        (\<forall>e. env_ok e \<longrightarrow> (\<exists>f e'. open_table_file X n e = (Status_OK, Some f, e') \<and> random_access_contract f content \<and> env_ok e')) \<and>
        (\<forall>f' table'. (m(EncodeFixed64 number \<mapsto> (f, table))) (EncodeFixed64 n) = Some (f', table') \<longrightarrow>
           random_access_contract f' content \<and> opened (ts_options X) f' bs fs index table' \<and> (cached \<longrightarrow> reg (t_cache_id table') = Some bs))"
    proof (cases "n = number")
      case True
      then show ?thesis using T assms(2-)
        by (intro exI [of _ content] exI [of _ bs] exI [of _ fs] exI [of _ index]) auto
    next
      case False
      then show ?thesis using assms(1) T unfolding tables_kept_def by (simp add: same)
    qed
  qed
qed

lemma tables_kept_register:
  assumes "tables_kept X u ukeys T env_ok cached reg m" "cached \<longrightarrow> reg new = None"
  shows "tables_kept X u ukeys T env_ok cached (reg(new \<mapsto> bs)) m"
proof (cases cached)
  case True
  have "(reg(new \<mapsto> bs)) x = Some b" if "reg x = Some b" for x b using assms(2) that True by auto
  with assms(1) True show ?thesis unfolding tables_kept_def
    by (elim all_forward imp_forward ex_forward conj_forward) simp_all
next
  case False
  with assms(1) show ?thesis by (simp add: tables_kept_def)
qed

locale table_caching = roomy_cache K run room load ids
  for K :: "('c, table_and_file) cache_ops" and run :: "'c \<Rightarrow> (addr \<times> table_and_file) multiset \<Rightarrow> (bytes \<rightharpoonup> table_and_file) \<Rightarrow> bool"
    and room :: "'c \<Rightarrow> (addr \<times> table_and_file) multiset \<Rightarrow> bool" and load :: "'c \<Rightarrow> nat" and ids :: "'c \<Rightarrow> nat"
begin

text \<open>\<open>FindTable\<close> returns a handle of the open table, found or just opened.\<close>

lemma FindTable_ok:
  assumes K: "ts_cache_ops X = K" and state: "run (tc_cache t) outs m" "size outs + load (tc_cache t) + 4 < 2 ^ 31"
    "env_ok (tc_env t)" "tables_kept X u ukeys T env_ok (tc_block_cache t \<noteq> None) reg m"
    "blocks_serve (ts_block_cache_ops X) n (Suc i) reg (tc_block_cache t)"
    and T: "T number = Some (bytes, es)"
  shows "\<exists>h t' m' f table content bs fs index reg'. FindTable X number bytes t = Some (Status_OK, Some h, t') \<and>
    ca_Value K h (tc_cache t') = Some (f, table) \<and> table_content (ts_options X) u ukeys content es bs fs index \<and>
    random_access_contract f content \<and> opened (ts_options X) f bs fs index table \<and>
    (tc_block_cache t' \<noteq> None \<longrightarrow> reg' (t_cache_id table) = Some bs) \<and>
    run (tc_cache t') (add_mset (h, (f, table)) outs) m' \<and> load (tc_cache t') \<le> load (tc_cache t) + 1 \<and>
    env_ok (tc_env t') \<and> tables_kept X u ukeys T env_ok (tc_block_cache t' \<noteq> None) reg' m' \<and>
    blocks_serve (ts_block_cache_ops X) n i reg' (tc_block_cache t')"
proof -
  let ?key = "EncodeFixed64 number" and ?KB = "ts_block_cache_ops X" and ?b = "tc_block_cache t"
  obtain content bs fs index where c: "table_content (ts_options X) u ukeys content es bs fs index" "bytes = word_of_nat (length content)"
    "\<forall>e. env_ok e \<longrightarrow> (\<exists>f e'. open_table_file X number e = (Status_OK, Some f, e') \<and> random_access_contract f content \<and> env_ok e')"
    and kept: "\<And>f table. m ?key = Some (f, table) \<Longrightarrow> random_access_contract f content \<and> opened (ts_options X) f bs fs index table \<and>
      (?b \<noteq> None \<longrightarrow> reg (t_cache_id table) = Some bs)"
    using state(4) T unfolding tables_kept_def by blast
  have room: "room (tc_cache t) outs" by (rule load_room [OF state(1)]) (use state(2) in simp)
  obtain r c1 where look: "ca_Lookup K ?key (tc_cache t) = Some (r, c1)" and r: "case r of None \<Rightarrow> run c1 outs m \<and> room c1 outs
      | Some p \<Rightarrow> \<exists>v. m ?key = Some v \<and> ca_Value K p c1 = Some v \<and> run c1 (add_mset (p, v) outs) m"
    using lookup [OF state(1) room, of ?key] by blast
  have load1: "load c1 \<le> load (tc_cache t)" using lookup_load [OF state(1) room look] by simp
  show ?thesis
  proof (cases r)
    case (Some p)
    then obtain f table where v: "m ?key = Some (f, table)" "ca_Value K p c1 = Some (f, table)" "run c1 (add_mset (p, (f, table)) outs) m"
      using r by auto
    have find: "FindTable X number bytes t = Some (Status_OK, Some p, t\<lparr>tc_cache := c1\<rparr>)"
      using look Some by (simp add: FindTable_def K)
    have "blocks_serve ?KB n i reg ?b" using blocks_serve_weaken [OF state(5)] by simp
    then show ?thesis
      by (intro exI [of _ p] exI [of _ "t\<lparr>tc_cache := c1\<rparr>"] exI [of _ m] exI [of _ f] exI [of _ table]
          exI [of _ content] exI [of _ bs] exI [of _ fs] exI [of _ index] exI [of _ reg])
        (use find v c(1) kept [OF v(1)] load1 state in simp)
  next
    case None
    then have c1: "run c1 outs m" "room c1 outs" using r by simp_all
    obtain f e' where f: "open_table_file X number (tc_env t) = (Status_OK, Some f, e')" "random_access_contract f content" "env_ok e'"
      using c(3) state(3) by blast
    obtain meta where l: "table_layout (ts_options X) content bs fs meta index" "length content < 2 ^ 32"
      using c(1) by (auto simp: table_content_def)
    let ?b' = "map_option (snd \<circ> ca_NewId ?KB) ?b"
    obtain table where table: "Table_Open ?KB (ts_options X) ?b f bytes = Some ((Status_OK, Some table), ?b')"
      "opened (ts_options X) f bs fs index table" and id: "\<And>c. ?b = Some c \<Longrightarrow> t_cache_id table = fst (ca_NewId ?KB c)"
      using random_access_contract.Table_Open_ok [OF f(2) l, of ?KB ?b] c(2) by auto
    have len: "length (data_part bs) < 2 ^ 64" using table_layout_sizes(1) [OF l(1)] l(2) by simp
    let ?reg = "if ?b = None then reg else reg(t_cache_id table \<mapsto> bs)"
    have blocks: "blocks_serve ?KB n i ?reg ?b'" and new: "?b \<noteq> None \<longrightarrow> reg (t_cache_id table) = None"
      using blocks_serve_new_table [OF state(5) _ len] id by (cases ?b; simp add: blocks_serve_def)+
    have "tables_kept X u ukeys T env_ok (?b \<noteq> None) ?reg m"
      using state(4) tables_kept_register [OF state(4) new, of bs] by (cases ?b) simp_all
    from tables_kept_insert [OF this T c(1,2,3) f(2) table(2)]
    have kept': "tables_kept X u ukeys T env_ok (?b \<noteq> None) ?reg (m(?key \<mapsto> (f, table)))" by simp
    obtain p c2 where ins: "ca_Insert K ?key (f, table) 1 c1 = Some (p, c2)" "ca_Value K p c2 = Some (f, table)"
      "run c2 (add_mset (p, (f, table)) outs) (m(?key \<mapsto> (f, table)))"
      using insert [OF c1, of ?key "(f, table)" 1] by blast
    have load2: "load c2 \<le> load (tc_cache t) + 1" using insert_load [OF c1 ins(1)] load1 by simp
    let ?t = "t\<lparr>tc_cache := c2, tc_block_cache := ?b', tc_env := e'\<rparr>"
    have find: "FindTable X number bytes t = Some (Status_OK, Some p, ?t)"
      using look None f(1) table(1) ins(1) by (simp add: FindTable_def K)
    show ?thesis
      by (intro exI [of _ p] exI [of _ ?t] exI [of _ "m(?key \<mapsto> (f, table))"] exI [of _ f] exI [of _ table]
          exI [of _ content] exI [of _ bs] exI [of _ fs] exI [of _ index] exI [of _ ?reg])
        (use find ins c(1) f(2,3) table(2) load2 kept' blocks in simp)
  qed
qed

lemma TableCache_Get_ok:
  assumes K: "ts_cache_ops X = K" and fit: "options_fit (ts_options X) u ukeys"
    and state: "run (tc_cache t) outs m" "size outs + load (tc_cache t) + 4 < 2 ^ 31"
      "env_ok (tc_env t)" "tables_kept X u ukeys T env_ok (tc_block_cache t \<noteq> None) reg m"
      "blocks_serve (ts_block_cache_ops X) (Suc n) (Suc i) reg (tc_block_cache t)"
    and T: "T number = Some (bytes, es)" and k: "key_ok ukeys k"
  shows "\<exists>r t' m' reg'. TableCache_Get X options number bytes k arg handler t =
      Some (Status_OK, case r of None \<Rightarrow> arg | Some e \<Rightarrow> handler arg (fst e) (snd e), t') \<and> lookup_answer u es k r \<and>
    run (tc_cache t') outs m' \<and> load (tc_cache t') \<le> load (tc_cache t) + 1 \<and> env_ok (tc_env t') \<and>
    tables_kept X u ukeys T env_ok (tc_block_cache t' \<noteq> None) reg' m' \<and>
    blocks_serve (ts_block_cache_ops X) n i reg' (tc_block_cache t')"
proof -
  obtain h t1 m1 f table content bs fs index reg' where find: "FindTable X number bytes t = Some (Status_OK, Some h, t1)"
    "ca_Value K h (tc_cache t1) = Some (f, table)" and tab: "table_content (ts_options X) u ukeys content es bs fs index"
    "random_access_contract f content" "opened (ts_options X) f bs fs index table"
    and reg: "tc_block_cache t1 \<noteq> None \<longrightarrow> reg' (t_cache_id table) = Some bs"
    and t1: "run (tc_cache t1) (add_mset (h, (f, table)) outs) m1" "load (tc_cache t1) \<le> load (tc_cache t) + 1"
    "env_ok (tc_env t1)" "tables_kept X u ukeys T env_ok (tc_block_cache t1 \<noteq> None) reg' m1"
    "blocks_serve (ts_block_cache_ops X) (Suc n) i reg' (tc_block_cache t1)"
    using FindTable_ok [OF K state T] by (elim exE conjE)
  obtain r b' where r: "Table_InternalGet (ts_block_cache_ops X) table (tc_block_cache t1) options k arg handler =
      Some (Status_OK, case r of None \<Rightarrow> arg | Some e \<Rightarrow> handler arg (fst e) (snd e), b')" "lookup_answer u es k r"
    and b': "blocks_serve (ts_block_cache_ops X) n i reg' b'" "b' = None \<longleftrightarrow> tc_block_cache t1 = None"
    using InternalGet_answers [OF fit tab k t1(5) reg, where arg = arg and handler = handler and options = options] by (elim exE conjE)
  obtain c2 where rel: "ca_Release K h (tc_cache t1) = Some c2" "run c2 outs m1" using release [OF t1(1)] by fastforce
  have load2: "load c2 \<le> load (tc_cache t1)" using release_load [OF t1(1) _ rel(1)] by fastforce
  have "TableCache_Get X options number bytes k arg handler t =
      Some (Status_OK, case r of None \<Rightarrow> arg | Some e \<Rightarrow> handler arg (fst e) (snd e), t1\<lparr>tc_block_cache := b', tc_cache := c2\<rparr>)"
    using find r(1) rel(1) by (simp add: TableCache_Get_def UnrefEntry_def K)
  then show ?thesis
    by (intro exI [of _ r] exI [of _ "t1\<lparr>tc_block_cache := b', tc_cache := c2\<rparr>"] exI [of _ m1] exI [of _ reg'])
      (use r(2) rel(2) load2 t1 b' in simp)
qed

end

interpretation table_lru: table_caching ShardedLRUCache cache_run cache_room live_entries last_id
  by (rule table_caching.intro [OF roomy_lru.roomy_cache_axioms])

interpretation tables: table_lookup "TableCache_Get X" "tables_serve X" for X :: "('c, 'b, 'e) table_cache_setting"
proof
  fix u ukeys n T and t :: "('c, 'b, 'e) table_cache" and number bytes es k options arg handler
  assume s: "tables_serve X u ukeys (Suc n) T t" and T: "T number = Some (bytes, es)" "key_ok ukeys k"
  obtain run room load ids outs m env_ok reg where K: "roomy_cache (ts_cache_ops X) run room load ids" and
    st: "run (tc_cache t) outs m" "size outs + load (tc_cache t) + Suc n + 3 < 2 ^ 31" "env_ok (tc_env t)"
    "tables_kept X u ukeys T env_ok (tc_block_cache t \<noteq> None) reg m"
    "blocks_serve (ts_block_cache_ops X) (Suc n) (Suc n) reg (tc_block_cache t)"
    using s unfolding tables_serve_def by blast
  have fit: "options_fit (ts_options X) u ukeys" using s by (simp add: tables_serve_def)
  have room: "size outs + load (tc_cache t) + 4 < 2 ^ 31" using st(2) by simp
  obtain r t' m' reg' where r: "TableCache_Get X options number bytes k arg handler t =
      Some (Status_OK, case r of None \<Rightarrow> arg | Some e \<Rightarrow> handler arg (fst e) (snd e), t')" "lookup_answer u es k r"
    and t': "run (tc_cache t') outs m'" "load (tc_cache t') \<le> load (tc_cache t) + 1" "env_ok (tc_env t')"
    "tables_kept X u ukeys T env_ok (tc_block_cache t' \<noteq> None) reg' m'" "blocks_serve (ts_block_cache_ops X) n n reg' (tc_block_cache t')"
    using table_caching.TableCache_Get_ok [OF table_caching.intro [OF K] refl fit st(1) room st(3-5) T, of options arg handler] by (elim exE conjE)
  have "size outs + load (tc_cache t') + n + 3 < 2 ^ 31" using st(2) t'(2) by simp
  then have "tables_serve X u ukeys n T t'" unfolding tables_serve_def using fit t' K by blast
  with r show "\<exists>r t'. TableCache_Get X options number bytes k arg handler t =
      Some (Status_OK, case r of None \<Rightarrow> arg | Some e \<Rightarrow> handler arg (fst e) (snd e), t') \<and> lookup_answer u es k r \<and> tables_serve X u ukeys n T t'"
    by blast
next
  fix u ukeys n T and t :: "('c, 'b, 'e) table_cache"
  assume s: "tables_serve X u ukeys (Suc n) T t"
  obtain run room load ids outs m env_ok reg where K: "roomy_cache (ts_cache_ops X) run room load ids" and
    st: "run (tc_cache t) outs m" "size outs + load (tc_cache t) + Suc n + 3 < 2 ^ 31" "env_ok (tc_env t)"
    "tables_kept X u ukeys T env_ok (tc_block_cache t \<noteq> None) reg m"
    "blocks_serve (ts_block_cache_ops X) (Suc n) (Suc n) reg (tc_block_cache t)"
    using s unfolding tables_serve_def by blast
  have "size outs + load (tc_cache t) + n + 3 < 2 ^ 31" using st(2) by simp
  moreover have "blocks_serve (ts_block_cache_ops X) n n reg (tc_block_cache t)" using blocks_serve_weaken [OF st(5), of n n] by simp
  moreover have "options_fit (ts_options X) u ukeys" using s by (simp add: tables_serve_def)
  ultimately show "tables_serve X u ukeys n T t" unfolding tables_serve_def using st(1,3,4) K by blast
qed

subsection \<open>Properties\<close>

text \<open>
  C3: a read through a version and the table cache returns the newest visible entry of all its files.  When the files hold what their
  metadata says, levels above 0 are disjoint, the files are ordered by age (a key's entries are newer in the level-0 file with the larger
  number and in the lower level), and the tables can be opened, \<open>Get\<close> returns for any sequence number OK and the value, or NotFound
  and leaves the value alone, as the entry of the key with the largest sequence number at or below that number says, among all entries
  of all files.  Tables are found in the table cache or opened, with or without a block cache; \<open>n\<close> counts the lookups that there is room for
  in the two caches afterwards.
\<close>

theorem version_get_finds_newest:
  assumes "version_holds u ukeys T heap files" "files_by_age u T heap files" "length files = kNumLevels" "ukeys k" "s \<le> kMaxSequenceNumber"
    and "tables_serve X u ukeys (length (concat files) + n) T t"
  shows "\<exists>r stats t'. newest_entry u (all_file_entries T heap files) k s r \<and>
    Version_Get u (TableCache_Get X) heap files options (LookupKey_make k s) old t = Some
      (case r of
         None \<Rightarrow> (Status_NotFound [] [], old, stats, t')
       | Some e \<Rightarrow> if pik_type (the (ParseInternalKey (fst e))) = kTypeValue then (Status_OK, snd e, stats, t')
           else (Status_NotFound [] [], old, stats, t')) \<and>
    tables_serve X u ukeys n T t'"
proof -
  have cmp: "comparator_contract u ukeys" using assms(6) by (simp add: tables_serve_def options_fit_def)
  from version_visible_newest [OF cmp assms(1,3,2,4)] Version_Get_ok [OF cmp tables.table_lookup_axioms assms(1,3-6)]
  show ?thesis by blast
qed

text \<open>A table with one entry, in memory.\<close>

definition one_entry :: "(bytes \<times> bytes) list" where
  "one_entry = [([5, 1, 20, 0, 0, 0, 0, 0, 0], [7])]"

definition internal_options :: table_options where
  "internal_options = small_options\<lparr>opt_comparator := InternalKeyComparator BytewiseComparator\<rparr>"

lemma one_entry_added:
  "add_entries (PosixWritableFile mem_kernel) one_entry (TableBuilder_make internal_options small_file) =
     Some ((TableBuilder_make internal_options small_file)\<lparr>
       tb_data_block := \<lparr>bb_buffer = [0, 9, 1, 5, 1, 20, 0, 0, 0, 0, 0, 0, 7], bb_restarts = [0], bb_counter = 1, bb_finished = False,
         bb_last_key = [5, 1, 20, 0, 0, 0, 0, 0, 0]\<rparr>, tb_last_key := [5, 1, 20, 0, 0, 0, 0, 0, 0], tb_num_entries := 1\<rparr>)"
  by (simp add: small_defs one_entry_def internal_options_def TableBuilder_Add_def BlockBuilder_CurrentSizeEstimate_def)

lemma one_successor: "cmp_FindShortSuccessor u = BytewiseComparator_FindShortSuccessor \<Longrightarrow>
  InternalKeyComparator_FindShortSuccessor u [5, 1, 20, 0, 0, 0, 0, 0, 0] = [5, 1, 20, 0, 0, 0, 0, 0, 0]"
  by (simp add: InternalKeyComparator_FindShortSuccessor_def BytewiseComparator_FindShortSuccessor_def ExtractUserKey_def Let_def)

lemma one_varint: "EncodeVarint64 21 = [21]"
  by (subst EncodeVarint64.simps, simp)

lemma one_table:
  "\<exists>r. build_table (PosixWritableFile mem_kernel) internal_options small_file one_entry = Some (Status_OK, r) \<and>
     length (mem.posix_written (tb_file r)) < 2 ^ 32"
  unfolding build_table_def one_entry_added
  by (simp add: small_defs internal_options_def TableBuilder_Finish_def TableBuilder_Flush_def mem_WriteBlock mem_flush_ok mem_append_ok
      BlockBuilder_Finish_def Finish_filter_block_def Finish_metaindex_block_def Finish_index_block_def Finish_footer_def
      BlockBuilder_empty_def kWritableFileBufferSize_def PosixWritableFile_make_def small_varints one_varint length_Footer kBlockTrailerSize_def
      one_successor BlockHandle_EncodeTo_def PutVarint64_def mem.posix_written_def mem.posix_flushed_def)

definition one_file :: "u64 \<Rightarrow> file_meta" where
  "one_file bytes = FileMetaData_make 1 bytes (fst (hd one_entry)) (fst (hd one_entry))"

definition one_setting :: "bytes \<Rightarrow> (table_and_file sharded_cache, block sharded_cache, unit) table_cache_setting" where
  "one_setting content = \<lparr>ts_NewRandomAccessFile = (\<lambda>name e. (Status_OK, Some (PosixMmapReadableFile content [] []), e)), ts_dbname = [],
     ts_options = internal_options, ts_cache_ops = ShardedLRUCache, ts_block_cache_ops = ShardedLRUCache\<rparr>"

lemma one_entry_key: "fst (hd one_entry) = InternalKey_make [5] 20 kTypeValue" "one_entry = [(InternalKey_make [5] 20 kTypeValue, [7])]"
  by (simp_all add: one_entry_def InternalKey_make_def AppendInternalKey_def PutFixed64_def PackSequenceAndType_def ValueType_byte_def EncodeFixed64_def)

lemma one_table_serves:
  assumes r: "build_table (PosixWritableFile mem_kernel) internal_options small_file one_entry = Some (Status_OK, r)"
    "length (mem.posix_written (tb_file r)) < 2 ^ 32" and t: "TableCache_make 990 (ShardedLRUCache_make 8388608) () = Some t"
  defines "content \<equiv> mem.posix_written (tb_file r)"
  shows "tables_serve (one_setting content) BytewiseComparator (\<lambda>_. True) 100 [1 \<mapsto> (word_of_nat (length content), one_entry)] t"
proof -
  let ?u = BytewiseComparator and ?all = "\<lambda>_ :: bytes. True" and ?R = "PosixMmapReadableFile content [] []"
  have "mem.posix_valid 3 small_file" "mem.posix_written small_file = []"
    by (simp_all add: small_file_def PosixWritableFile_make_def mem.posix_defs)
  moreover have "opt_comparator internal_options = InternalKeyComparator ?u" "0 < opt_block_restart_interval internal_options"
    by (simp_all add: internal_options_def small_options_def)
  moreover have "sorted_wrt (\<lambda>a b. cmp_Compare (InternalKeyComparator ?u) (fst a) (fst b) < 0) one_entry"
    "\<forall>e \<in> set one_entry. internal_keys ?all (fst e)" by (simp_all add: one_entry_def internal_keys_def)
  ultimately obtain table bs fs meta index where
    l: "table_layout internal_options content bs fs meta index"
    "indexed (opt_comparator internal_options) (internal_keys ?all) bs" "all_entries bs = one_entry"
    using built_table_opens [OF mem.writable.writable_file_contract_axioms [of 3] bytewise.InternalKeyComparator_contract _ _ _ _ _ _ r(1)
        mmap.random_access_contract_axioms [of _ "[]" "[]"] r(2)] unfolding content_def by metis
  have table: "table_content internal_options ?u ?all content one_entry bs fs index"
    unfolding table_content_def using l r(2) by (auto simp: content_def internal_options_def)
  obtain B :: "block sharded_cache" where B: "ShardedLRUCache_make 8388608 = Some B" "run_ok B {#} Map.empty (\<lambda>_. {})"
    using make_run by blast
  obtain S where S: "ShardedLRUCache_make 990 = Some S" "t = \<lparr>tc_cache = S, tc_block_cache = Some B, tc_env = ()\<rparr>"
    using t B(1) by (auto simp: TableCache_make_def Option.bind_eq_Some_conv)
  have "live_entries B = 0" "last_id B = 0"
    using B by (auto simp: live_entries_def run_ok_def sharded_ok_def last_id_def ShardedLRUCache_make_def Let_def Option.bind_eq_Some_conv)
  then have blocks: "blocks_serve ShardedLRUCache 100 100 Map.empty (Some B)"
    using cache_run.make [OF B(1)] roomy_lru.roomy_cache_axioms unfolding blocks_serve_def
    by (intro allI impI exI [of _ cache_run] exI [of _ cache_room] exI [of _ live_entries] exI [of _ last_id] exI [of _ "{#}"] exI [of _ Map.empty])
      (auto simp: registry_ok_def)
  obtain S0 :: "table_and_file sharded_cache" where S0: "ShardedLRUCache_make 990 = Some S0" "run_ok S0 {#} Map.empty (\<lambda>_. {})"
    using make_run by blast
  have live: "live_entries S = 0" using S0 S(1) by (simp add: live_entries_def run_ok_def sharded_ok_def)
  have fit: "options_fit internal_options ?u ?all"
    using bytewise.comparator_contract_axioms by (simp add: options_fit_def internal_options_def small_options_def)
  have kept: "tables_kept (one_setting content) ?u ?all [1 \<mapsto> (word_of_nat (length content), one_entry)] (\<lambda>_. True) True Map.empty Map.empty"
    using table mmap.random_access_contract_axioms [of content "[]" "[]"]
    unfolding tables_kept_def
    by (intro allI impI exI [of _ content] exI [of _ bs] exI [of _ fs] exI [of _ index])
      (auto simp: one_setting_def open_table_file_def Let_def split: if_splits)
  show ?thesis
    unfolding tables_serve_def
  proof (intro conjI exI)
    show "roomy_cache (ts_cache_ops (one_setting content)) cache_run cache_room live_entries last_id"
      using roomy_lru.roomy_cache_axioms by (simp add: one_setting_def)
    show "cache_run (tc_cache t) {#} Map.empty" using cache_run.make [OF S(1)] S(2) by simp
    show "size {#} + live_entries (tc_cache t) + 100 + 3 < 2 ^ 31" using live S(2) by simp
  qed (use fit S(2) kept blocks in \<open>simp_all add: one_setting_def\<close>)
qed

theorem version_get_finds_newest_witness:
  "\<exists>r t stats t'. build_table (PosixWritableFile mem_kernel) internal_options small_file one_entry = Some (Status_OK, r) \<and>
     TableCache_make 990 (ShardedLRUCache_make 8388608) () = Some t \<and>
     Version_Get BytewiseComparator (TableCache_Get (one_setting (mem.posix_written (tb_file r))))
       (\<lambda>_. one_file (word_of_nat (length (mem.posix_written (tb_file r))))) ([0] # replicate 6 [])
       \<lparr>ro_verify_checksums = True, ro_fill_cache = True\<rparr> (LookupKey_make [5] 30) [] t = Some (Status_OK, [7], stats, t')"
proof -
  obtain r where r: "build_table (PosixWritableFile mem_kernel) internal_options small_file one_entry = Some (Status_OK, r)"
    "length (mem.posix_written (tb_file r)) < 2 ^ 32" using one_table by blast
  let ?content = "mem.posix_written (tb_file r)" and ?u = BytewiseComparator
  let ?T = "[1 \<mapsto> (word_of_nat (length ?content), one_entry)] :: u64 \<rightharpoonup> u64 \<times> (bytes \<times> bytes) list"
  let ?heap = "\<lambda>_ :: file_ptr. one_file (word_of_nat (length ?content))" and ?files = "[0] # replicate 6 []"
  obtain S0 :: "table_and_file sharded_cache" where "ShardedLRUCache_make 990 = Some S0" using make_run by blast
  then obtain t :: "(table_and_file sharded_cache, block sharded_cache, unit) table_cache"
    where t: "TableCache_make 990 (ShardedLRUCache_make 8388608) () = Some t" by (simp add: TableCache_make_def)
  have n: "kNumLevels = 7" by (simp add: kNumLevels_def)
  have seq: "(20 :: u64) \<le> kMaxSequenceNumber" "(30 :: u64) \<le> kMaxSequenceNumber" by (simp_all add: kMaxSequenceNumber_val)
  have one: "entries_ok ?u (\<lambda>_. True) one_entry" by (simp add: entries_ok_def one_entry_key key_ok_def ParseInternalKey_make seq)
  have f: "file_ok ?u (\<lambda>_. True) (?heap p)" for p
    by (simp add: file_ok_def key_ok_def one_file_def one_entry_key FileMetaData_make_def ParseInternalKey_make seq
        InternalKeyComparator_Compare_simps BytewiseComparator_sel BytewiseComparator_Compare_lex)
  have fh: "file_holds ?u (\<lambda>_. True) ?T (?heap p)" for p
    using one by (simp add: file_holds_def one_file_def FileMetaData_make_def) (simp add: one_entry_def)
  have at: "([x] # replicate 6 []) ! l = (if l = 0 then [x] else [])" if "l < 7" for l and x :: 'x using that by (cases l) simp_all
  have holds: "version_holds ?u (\<lambda>_. True) ?T ?heap ?files"
    unfolding version_holds_def levels_ok_def n using f fh by (auto simp: at level_files_ok_def)
  have age: "files_by_age ?u ?T ?heap ?files" unfolding files_by_age_def n using at by auto
  have one_key: "pik_type (the (ParseInternalKey (fst e))) = kTypeValue \<and> snd e = [7]" if "e \<in> set one_entry" for e
    using that by (simp add: one_entry_key ParseInternalKey_make seq)
  have entries: "all_file_entries ?T ?heap ?files = one_entry"
    by (simp add: all_file_entries_def file_entries_def one_file_def FileMetaData_make_def)
  have s: "tables_serve (one_setting ?content) ?u (\<lambda>_. True) (length (concat ?files) + 99) ?T t"
    using one_table_serves [OF r t] by simp
  have len: "length ?files = kNumLevels" by (simp add: n)
  from version_get_finds_newest [OF holds age len TrueI seq(2) s, where k = "[5]" and old = "[]" and
      options = "\<lparr>ro_verify_checksums = True, ro_fill_cache = True\<rparr>"]
  obtain res stats t' where newest: "newest_entry ?u one_entry [5] 30 res" and
    get: "Version_Get ?u (TableCache_Get (one_setting ?content)) ?heap ?files \<lparr>ro_verify_checksums = True, ro_fill_cache = True\<rparr>
       (LookupKey_make [5] 30) [] t = Some (case res of None \<Rightarrow> (Status_NotFound [] [], [], stats, t')
         | Some e \<Rightarrow> if pik_type (the (ParseInternalKey (fst e))) = kTypeValue then (Status_OK, snd e, stats, t')
             else (Status_NotFound [] [], [], stats, t'))"
    unfolding entries by (elim exE conjE)
  have there: "(InternalKey_make [5] 20 kTypeValue, [7]) \<in> set one_entry" by (simp add: one_entry_key)
  have "cmp_Compare ?u (entry_user_key (InternalKey_make [5] 20 kTypeValue, [7])) [5] = 0"
    "entry_sequence (InternalKey_make [5] 20 kTypeValue, [7] :: bytes) = 20"
    by (simp_all add: entry_sequence_def ParseInternalKey_make seq BytewiseComparator_sel BytewiseComparator_Compare_lex)
  then have "\<not> newest_entry ?u one_entry [5] 30 None" using there by (auto simp: newest_entry_def intro!: bexI [OF _ there])
  then have "res \<noteq> None" using newest by (intro notI) (simp only:)
  then obtain e where "res = Some e" "e \<in> set one_entry" using newest by (auto simp: newest_entry_def)
  then show ?thesis using r(1) t get one_key [of e] by auto
qed

end
