(* ===== verification/Db_Write.thy ===== *)
theory Db_Write
  imports Manifest Write_Batch
begin

text \<open>
  \<^verbatim>\<open>db/db_impl.cc\<close>, the write path: the queue of waiting writers, the groups their batches are written in, and the
  switch to a new memtable.  A writer is an object on the stack of its thread, an address in \<open>db_writer\<close>.  The
  functions run under the mutex from one place where it is released to the next; \<open>Write\<close> is cut there into
  parts, which \<open>Db_Write_Correct\<close> interleaves with the other threads.  \<open>db_log\<close> is the log writer with its file.
\<close>

type_synonym writer_ptr = nat

record writer =
  wr_status :: status
  wr_batch :: "write_batch option"
  wr_sync :: bool
  wr_done :: bool

record ('e, 'w) db =
  db_env :: 'e
  db_log :: "'w log_writer"
  db_logfile_number :: u64
  db_mem :: memtable
  db_imm :: "memtable option"
  db_versions :: version_set
  db_writer :: "writer_ptr \<Rightarrow> writer"
  db_writers :: "writer_ptr list"
  db_tmp_batch :: write_batch
  db_bg_error :: status

text \<open>The parameters: the environment, the allocator of memtables, the comparator, the directory, \<open>write_buffer_size\<close>.\<close>

record ('e, 'w, 's) db_setting =
  st_env :: "('e, 'w, 's) env"
  st_new :: allocator
  st_comparator :: comparator
  st_dbname :: bytes
  st_write_buffer_size :: nat

definition RecordBackgroundError :: "status \<Rightarrow> ('e, 'w) db \<Rightarrow> ('e, 'w) db" where
  "RecordBackgroundError s d = (if Status_ok (db_bg_error d) then d\<lparr>db_bg_error := s\<rparr> else d)"

subsection \<open>Grouping\<close>

text \<open>
  The loop over the writers behind the first.  \<open>result\<close> is the temporary batch once it is used; \<open>first\<close> is the
  batch of the first writer.
\<close>

primrec group_loop :: "(writer_ptr \<Rightarrow> writer) \<Rightarrow> bool \<Rightarrow> nat \<Rightarrow> write_batch \<Rightarrow> write_batch \<Rightarrow> writer_ptr list \<Rightarrow> nat \<Rightarrow> write_batch option \<Rightarrow> writer_ptr \<Rightarrow>
    (write_batch option \<times> writer_ptr) option" where
  "group_loop wr first_sync max_size first tmp [] size_so_far result last_writer = Some (result, last_writer)"
| "group_loop wr first_sync max_size first tmp (w # ws) size_so_far result last_writer =
     (if wr_sync (wr w) \<and> \<not> first_sync then Some (result, last_writer)
      else case wr_batch (wr w) of
        None \<Rightarrow> group_loop wr first_sync max_size first tmp ws size_so_far result w
      | Some b \<Rightarrow>
          (let size_so_far = size_so_far + length b in
           if max_size < size_so_far then Some (result, last_writer)
           else do {
             r \<leftarrow> (case result of
               None \<Rightarrow> if batch_Count tmp = 0 then Some (batch_Append first tmp) else None
             | Some r \<Rightarrow> Some r);
             group_loop wr first_sync max_size first tmp ws size_so_far (Some (batch_Append b r)) w }))"

definition max_group_size :: "nat \<Rightarrow> nat" where
  "max_group_size n = (if n \<le> 131072 then n + 131072 else 1048576)"

text \<open>The batch to write, whether it is the temporary one, and the last writer of the group.\<close>

definition BuildBatchGroup :: "('e, 'w) db \<Rightarrow> (write_batch \<times> bool \<times> writer_ptr) option" where
  "BuildBatchGroup d =
     (case db_writers d of
        [] \<Rightarrow> None
      | first # ws \<Rightarrow> do {
          b \<leftarrow> wr_batch (db_writer d first);
          (result, last_writer) \<leftarrow> group_loop (db_writer d) (wr_sync (db_writer d first)) (max_group_size (length b)) b (db_tmp_batch d) ws
            (length b) None first;
          Some (case result of None \<Rightarrow> (b, False, last_writer) | Some r \<Rightarrow> (r, True, last_writer)) })"

subsection \<open>Making room\<close>

text \<open>One turn of the loop of \<open>MakeRoomForWrite\<close>; after a delay or a wait the mutex was released.\<close>

datatype room = Room_done status | Room_delay | Room_wait | Room_switched

definition make_room :: "('e, 'w, 's) db_setting \<Rightarrow> bool \<Rightarrow> bool \<Rightarrow> ('e, 'w) db \<Rightarrow> (room \<times> ('e, 'w) db) option" where
  "make_room X force allow_delay d = do {
     level0 \<leftarrow> NumLevelFiles (db_versions d) 0;
     if \<not> Status_ok (db_bg_error d) then Some (Room_done (db_bg_error d), d)
     else if allow_delay \<and> kL0_SlowdownWritesTrigger \<le> level0 then Some (Room_delay, d)
     else if \<not> force \<and> ApproximateMemoryUsage (db_mem d) \<le> st_write_buffer_size X then Some (Room_done Status_OK, d)
     else if db_imm d \<noteq> None then Some (Room_wait, d)
     else if kL0_StopWritesTrigger \<le> level0 then Some (Room_wait, d)
     else if vs_prev_log_number (db_versions d) \<noteq> 0 then None
     else
       (let (new_log_number, vs) = NewFileNumber (db_versions d) in
        case env_NewWritableFile (st_env X) (LogFileName (st_dbname X) new_log_number) (db_env d) of
          (s, f, e) \<Rightarrow>
            if \<not> Status_ok s
            then Some (Room_done s, d\<lparr>db_env := e, db_versions := ReuseFileNumber new_log_number vs\<rparr>)
            else do {
              f \<leftarrow> f;
              let e = env_delete_writable (st_env X) (lw_dest (db_log d)) e;
              Some (Room_switched, d\<lparr>db_env := e, db_log := Writer_make f, db_logfile_number := new_log_number,
                db_imm := Some (db_mem d), db_mem := MemTable_Ref (MemTable_make (st_new X) (st_comparator X)),
                db_versions := vs\<rparr>) }) }"

subsection \<open>Write\<close>

text \<open>The thread enters the queue.\<close>

definition Write_enter :: "writer_ptr \<Rightarrow> write_batch option \<Rightarrow> bool \<Rightarrow> ('e, 'w) db \<Rightarrow> ('e, 'w) db" where
  "Write_enter w updates sync d = d\<lparr>db_writer := (db_writer d)(w := \<lparr>wr_status = Status_OK, wr_batch = updates, wr_sync = sync, wr_done = False\<rparr>),
     db_writers := db_writers d @ [w]\<rparr>"

text \<open>
  Once there is room: the group and its sequence numbers.  The batch is stamped where it is, in the caller's object
  when the group is the one batch.  What the rest of \<open>Write\<close> needs is a record of its local variables.
\<close>

record write_locals =
  wl_status :: status
  wl_updates :: "write_batch option"
  wl_is_tmp :: bool
  wl_last_sequence :: u64
  wl_last_writer :: writer_ptr
  wl_sync_error :: bool

definition Write_group :: "writer_ptr \<Rightarrow> status \<Rightarrow> ('e, 'w) db \<Rightarrow> (write_locals \<times> ('e, 'w) db) option" where
  "Write_group w status d =
     (let last_sequence = vs_last_sequence (db_versions d)
      in if Status_ok status \<and> wr_batch (db_writer d w) \<noteq> None
         then do {
           (updates, is_tmp, last_writer) \<leftarrow> BuildBatchGroup d;
           let updates = batch_SetSequence (last_sequence + 1) updates;
           let d = (if is_tmp then d\<lparr>db_tmp_batch := updates\<rparr>
             else d\<lparr>db_writer := (db_writer d)(w := (db_writer d w)\<lparr>wr_batch := Some updates\<rparr>)\<rparr>);
           Some (\<lparr>wl_status = status, wl_updates = Some updates, wl_is_tmp = is_tmp, wl_last_sequence = last_sequence + scast (batch_Count updates),
             wl_last_writer = last_writer, wl_sync_error = False\<rparr>, d) }
         else Some (\<lparr>wl_status = status, wl_updates = None, wl_is_tmp = False, wl_last_sequence = last_sequence, wl_last_writer = w, wl_sync_error = False\<rparr>, d))"

text \<open>Without the mutex: the log, the sync, and then the memtable; other threads run between any two of them.\<close>

definition Write_append :: "('e, 'w, 's) db_setting \<Rightarrow> write_locals \<Rightarrow> ('e, 'w) db \<Rightarrow> (write_locals \<times> ('e, 'w) db) option" where
  "Write_append X l d =
     (case wl_updates l of
        None \<Rightarrow> Some (l, d)
      | Some updates \<Rightarrow> do {
          (status, lg, e) \<leftarrow> log_AddRecord (st_env X) updates (db_log d) (db_env d);
          Some (l\<lparr>wl_status := status\<rparr>, d\<lparr>db_env := e, db_log := lg\<rparr>) })"

definition Write_sync :: "('e, 'w, 's) db_setting \<Rightarrow> bool \<Rightarrow> write_locals \<Rightarrow> ('e, 'w) db \<Rightarrow> (write_locals \<times> ('e, 'w) db) option" where
  "Write_sync X sync l d =
     (if wl_updates l \<noteq> None \<and> Status_ok (wl_status l) \<and> sync
      then do {
        (status, f, e) \<leftarrow> wf_Sync (env_WritableFile (st_env X)) (lw_dest (db_log d), db_env d);
        Some (l\<lparr>wl_status := status, wl_sync_error := \<not> Status_ok status\<rparr>, d\<lparr>db_env := e, db_log := (db_log d)\<lparr>lw_dest := f\<rparr>\<rparr>) }
      else Some (l, d))"

definition Write_insert :: "('e, 'w, 's) db_setting \<Rightarrow> write_locals \<Rightarrow> ('e, 'w) db \<Rightarrow> (write_locals \<times> ('e, 'w) db) option" where
  "Write_insert X l d =
     (case wl_updates l of
        None \<Rightarrow> Some (l, d)
      | Some updates \<Rightarrow>
          if Status_ok (wl_status l)
          then do {
            (status, mem) \<leftarrow> batch_InsertInto (st_new X) updates (db_mem d);
            Some (l\<lparr>wl_status := status\<rparr>, d\<lparr>db_mem := mem\<rparr>) }
          else Some (l, d))"

text \<open>The loop that takes the writers of the group off the queue and tells them the status.\<close>

primrec pop_writers :: "writer_ptr \<Rightarrow> status \<Rightarrow> writer_ptr \<Rightarrow> writer_ptr list \<Rightarrow> (writer_ptr \<Rightarrow> writer) \<Rightarrow> (writer_ptr list \<times> (writer_ptr \<Rightarrow> writer)) option" where
  "pop_writers w status last_writer [] wr = None"
| "pop_writers w status last_writer (ready # ws) wr =
     (let wr = (if ready \<noteq> w then wr(ready := (wr ready)\<lparr>wr_status := status, wr_done := True\<rparr>) else wr)
      in if ready = last_writer then Some (ws, wr) else pop_writers w status last_writer ws wr)"

text \<open>Under the mutex again; the thread returns the status.\<close>

definition Write_finish :: "writer_ptr \<Rightarrow> write_locals \<Rightarrow> ('e, 'w) db \<Rightarrow> (status \<times> ('e, 'w) db) option" where
  "Write_finish w l d = do {
     let d = (if wl_updates l \<noteq> None \<and> wl_sync_error l then RecordBackgroundError (wl_status l) d else d);
     d \<leftarrow> (if wl_updates l \<noteq> None
        then do {
          vs \<leftarrow> SetLastSequence_vs (wl_last_sequence l) (db_versions d);
          Some (d\<lparr>db_tmp_batch := (if wl_is_tmp l then WriteBatch_Clear (db_tmp_batch d) else db_tmp_batch d), db_versions := vs\<rparr>) }
        else Some d);
     (ws, wr) \<leftarrow> pop_writers w (wl_status l) (wl_last_writer l) (db_writers d) (db_writer d);
     Some (wl_status l, d\<lparr>db_writers := ws, db_writer := wr\<rparr>) }"

subsection \<open>Single writes\<close>

definition DB_Put :: "writer_ptr \<Rightarrow> bytes \<Rightarrow> bytes \<Rightarrow> bool \<Rightarrow> ('e, 'w) db \<Rightarrow> ('e, 'w) db" where
  "DB_Put w key val sync d = Write_enter w (Some (WriteBatch_Put key val WriteBatch_make)) sync d"

definition DB_Delete :: "writer_ptr \<Rightarrow> bytes \<Rightarrow> bool \<Rightarrow> ('e, 'w) db \<Rightarrow> ('e, 'w) db" where
  "DB_Delete w key sync d = Write_enter w (Some (WriteBatch_Delete key WriteBatch_make)) sync d"

end
