(* ===== verification/Db_Write_Correct.thy ===== *)
theory Db_Write_Correct
  imports Db_Write Manifest_Correct
begin

text \<open>
  The write path against a specification: the history of the database is a queue of writes that are waiting, the last
  sequence number, the writes in the memtable and the records of the log.  Every interleaving of the threads
  of \<open>db/db_impl.cc\<close> is a run of the specification.
\<close>

subsection \<open>Groups\<close>

text \<open>A write that waits: its thread, its operations if it has a batch, and whether it is to be synced.\<close>

type_synonym write_entry = "writer_ptr \<times> batch_op list option \<times> bool"

abbreviation entry_writer :: "write_entry \<Rightarrow> writer_ptr" where "entry_writer \<equiv> fst"
abbreviation entry_batch :: "write_entry \<Rightarrow> batch_op list option" where "entry_batch x \<equiv> fst (snd x)"
abbreviation entry_sync :: "write_entry \<Rightarrow> bool" where "entry_sync x \<equiv> snd (snd x)"

definition group_ops :: "write_entry list \<Rightarrow> batch_op list" where
  "group_ops g = concat (map (\<lambda>x. case entry_batch x of None \<Rightarrow> [] | Some ops \<Rightarrow> ops) g)"

lemma group_ops_simps [simp]:
  "group_ops [] = []"
  "group_ops (x # g) = (case entry_batch x of None \<Rightarrow> [] | Some ops \<Rightarrow> ops) @ group_ops g"
  "group_ops (g @ g') = group_ops g @ group_ops g'"
  by (simp_all add: group_ops_def)

definition waiting :: "(writer_ptr \<Rightarrow> writer) \<Rightarrow> write_entry \<Rightarrow> bool" where
  "waiting wr x \<longleftrightarrow> wr_sync (wr (entry_writer x)) = entry_sync x \<and>
     (case entry_batch x of None \<Rightarrow> wr_batch (wr (entry_writer x)) = None
      | Some ops \<Rightarrow> \<exists>s. wr_batch (wr (entry_writer x)) = Some (batch_rep s ops))"

lemma length_ops_le: "length ops \<le> length (batch_rep s ops)"
proof -
  have "length ops \<le> length (concat (map op_bytes ops))"
    by (induction ops) (auto simp: op_bytes_def Suc_le_eq split: batch_op.splits)
  then show ?thesis by (simp add: batch_rep_simps)
qed

lemma group_loop_ok:
  assumes "\<forall>x \<in> set xs. waiting wr x" "result = None \<and> acc = ops0 \<or> result = Some (batch_rep t acc) \<and> length acc \<le> m"
    and "length acc \<le> n"
  shows "\<exists>result' lw' g rest. group_loop wr fs m (batch_rep s ops0) (batch_rep t []) (map entry_writer xs) n result lw = Some (result', lw') \<and>
    xs = g @ rest \<and> lw' = (if g = [] then lw else entry_writer (last g)) \<and> (\<forall>x \<in> set g. entry_sync x \<longrightarrow> fs) \<and>
    (result' = None \<and> result = None \<and> group_ops g = [] \<or> result' = Some (batch_rep t (acc @ group_ops g)) \<and> length (acc @ group_ops g) \<le> m)"
  using assms
proof (induction xs arbitrary: n result acc lw)
  case Nil
  then show ?case by auto
next
  case (Cons x xs)
  let ?w = "entry_writer x"
  have w: "wr_sync (wr ?w) = entry_sync x" using Cons.prems(1) by (simp add: waiting_def)
  consider (stop) "entry_sync x \<and> \<not> fs" | (none) "\<not> (entry_sync x \<and> \<not> fs)" "entry_batch x = None"
    | (batch) ops s' where "\<not> (entry_sync x \<and> \<not> fs)" "entry_batch x = Some ops" "wr_batch (wr ?w) = Some (batch_rep s' ops)"
    using Cons.prems(1) by (auto simp: waiting_def split: option.splits)
  then show ?case
  proof cases
    case stop
    then show ?thesis using w Cons.prems(2) by (intro exI [of _ result] exI [of _ lw] exI [of _ "[]"] exI [of _ "x # xs"]) auto
  next
    case none
    then have b: "wr_batch (wr ?w) = None" using Cons.prems(1) by (simp add: waiting_def)
    from Cons.IH [of result acc n ?w] Cons.prems obtain result' lw' g rest where r:
      "group_loop wr fs m (batch_rep s ops0) (batch_rep t []) (map entry_writer xs) n result ?w = Some (result', lw')"
      "xs = g @ rest" "lw' = (if g = [] then ?w else entry_writer (last g))" "\<forall>x \<in> set g. entry_sync x \<longrightarrow> fs"
      "result' = None \<and> result = None \<and> group_ops g = [] \<or> result' = Some (batch_rep t (acc @ group_ops g)) \<and> length (acc @ group_ops g) \<le> m"
      by auto
    then show ?thesis using none w b
      by (intro exI [of _ result'] exI [of _ lw'] exI [of _ "x # g"] exI [of _ rest]) auto
  next
    case batch
    let ?n = "n + length (batch_rep s' ops)"
    show ?thesis
    proof (cases "m < ?n")
      case True
      then show ?thesis using batch w Cons.prems(2) by (intro exI [of _ result] exI [of _ lw] exI [of _ "[]"] exI [of _ "x # xs"]) auto
    next
      case False
      have r: "(case result of None \<Rightarrow> if batch_Count (batch_rep t []) = 0 then Some (batch_Append (batch_rep s ops0) (batch_rep t [])) else None
          | Some r \<Rightarrow> Some r) = Some (batch_rep t acc)"
        using Cons.prems(2) by (auto simp: batch_rep_simps)
      have len: "length (acc @ ops) \<le> ?n" "length (acc @ ops) \<le> m" using Cons.prems(3) length_ops_le [of ops s'] False by simp_all
      from Cons.IH [of "Some (batch_rep t (acc @ ops))" "acc @ ops" ?n ?w] Cons.prems(1) len obtain result' lw' g rest where i:
        "group_loop wr fs m (batch_rep s ops0) (batch_rep t []) (map entry_writer xs) ?n (Some (batch_rep t (acc @ ops))) ?w = Some (result', lw')"
        "xs = g @ rest" "lw' = (if g = [] then ?w else entry_writer (last g))" "\<forall>x \<in> set g. entry_sync x \<longrightarrow> fs"
        "result' = Some (batch_rep t ((acc @ ops) @ group_ops g)) \<and> length ((acc @ ops) @ group_ops g) \<le> m"
        by auto
      have "group_loop wr fs m (batch_rep s ops0) (batch_rep t []) (map entry_writer (x # xs)) n result lw = Some (result', lw')"
        using batch w r i(1) False by (simp add: batch_rep_simps(6)) blast
      then show ?thesis using batch i(2-5)
        by (intro exI [of _ result'] exI [of _ lw'] exI [of _ "x # g"] exI [of _ rest]) auto
    qed
  qed
qed

lemma max_group_size_le: "max_group_size n \<le> 1048576"
  by (simp add: max_group_size_def)

text \<open>The group is a prefix of the queue; its batch holds the operations of its members in order.\<close>

lemma BuildBatchGroup_ok:
  assumes "db_writers d = map entry_writer (x # xs)" "\<forall>y \<in> set (x # xs). waiting (db_writer d) y" "entry_batch x = Some ops"
    and "db_tmp_batch d = batch_rep t []" "length ops < 2 ^ 31"
  shows "\<exists>b is_tmp g rest s. BuildBatchGroup d = Some (b, is_tmp, entry_writer (last (x # g))) \<and> xs = g @ rest \<and>
    b = batch_rep s (group_ops (x # g)) \<and> (\<forall>y \<in> set g. entry_sync y \<longrightarrow> entry_sync x) \<and> length (group_ops (x # g)) < 2 ^ 31 \<and>
    (\<not> is_tmp \<longrightarrow> group_ops g = []) \<and> (is_tmp \<longrightarrow> s = t)"
proof -
  obtain s where b: "wr_batch (db_writer d (entry_writer x)) = Some (batch_rep s ops)" "wr_sync (db_writer d (entry_writer x)) = entry_sync x"
    using assms(2,3) by (auto simp: waiting_def)
  let ?m = "max_group_size (length (batch_rep s ops))"
  obtain result lw g rest where r: "group_loop (db_writer d) (entry_sync x) ?m (batch_rep s ops) (batch_rep t []) (map entry_writer xs)
      (length (batch_rep s ops)) None (entry_writer x) = Some (result, lw)" "xs = g @ rest" "lw = (if g = [] then entry_writer x else entry_writer (last g))"
    "\<forall>y \<in> set g. entry_sync y \<longrightarrow> entry_sync x"
    "result = None \<and> group_ops g = [] \<or> result = Some (batch_rep t (ops @ group_ops g)) \<and> length (ops @ group_ops g) \<le> ?m"
    using group_loop_ok [of xs "db_writer d" None ops ops t ?m "length (batch_rep s ops)" "entry_sync x" s "entry_writer x"] assms(2) length_ops_le
    by auto
  have g: "BuildBatchGroup d = Some (case result of None \<Rightarrow> (batch_rep s ops, False, lw) | Some r \<Rightarrow> (r, True, lw))"
    using assms(1,4) b r(1) by (simp add: BuildBatchGroup_def)
  have lw: "lw = entry_writer (last (x # g))" using r(3) by simp
  show ?thesis
  proof (cases result)
    case None
    then show ?thesis using g r(2,4,5) assms(3,5) lw by (intro exI [of _ "batch_rep s ops"] exI [of _ False] exI [of _ g] exI [of _ rest] exI [of _ s]) auto
  next
    case (Some r')
    have "length (ops @ group_ops g) < 2 ^ 31" using r(5) Some max_group_size_le [of "length (batch_rep s ops)"] by simp
    then show ?thesis using Some g r(2,4,5) assms(3) lw
      by (intro exI [of _ r'] exI [of _ True] exI [of _ g] exI [of _ rest] exI [of _ t]) auto
  qed
qed

subsection \<open>The specification\<close>

text \<open>\<open>hs_log\<close> is unknown after a failed write, \<open>hs_failed\<close> set by a failed sync.\<close>

record write_history =
  hs_pending :: "write_entry list"
  hs_last :: u64
  hs_mem :: "mem_op list"
  hs_log :: "bytes list option"
  hs_failed :: bool

text \<open>
  \<open>Finished\<close> is the end of a \<open>Write\<close> that did not wait for another thread: whether it got to the log, whether
  the sync failed, its status, and what each thread that left the queue returns.
\<close>

datatype write_event = Entered writer_ptr "batch_op list option" bool | Switched
  | Finished bool bool status "(writer_ptr \<times> status option) list"

primrec write_spec :: "write_event \<Rightarrow> write_history \<Rightarrow> write_history option" where
  "write_spec (Entered w b sync) h = Some (h\<lparr>hs_pending := hs_pending h @ [(w, b, sync)]\<rparr>)"
| "write_spec Switched h = (if hs_failed h then None else Some (h\<lparr>hs_mem := [], hs_log := Some []\<rparr>))"
| "write_spec (Finished grouped unsynced st results) h =
     (let g = take (length results) (hs_pending h); h' = h\<lparr>hs_pending := drop (length results) (hs_pending h)\<rparr>;
          s = hs_last h + 1; ops = group_ops g in
      if g = [] \<or> results \<noteq> map (\<lambda>x. (entry_writer x, Some st)) g \<or> (hs_failed h \<and> Status_ok st) then None
      else if \<not> grouped
      then (if length g \<noteq> 1 \<or> (Status_ok st \<and> entry_batch (hd g) \<noteq> None) \<or> unsynced then None else Some h')
      else if hs_failed h \<or> entry_batch (hd g) = None \<or> (\<exists>x \<in> set g. entry_sync x \<and> \<not> entry_sync (hd g)) \<or>
        (unsynced \<and> (Status_ok st \<or> \<not> entry_sync (hd g))) then None
      else Some (h'\<lparr>hs_last := hs_last h + word_of_nat (length ops),
        hs_mem := (if Status_ok st then hs_mem h @ numbered s ops else hs_mem h),
        hs_log := (if Status_ok st then map_option (\<lambda>rs. rs @ [batch_rep s ops]) (hs_log h) else None),
        hs_failed := unsynced\<rparr>))"

definition write_specs :: "write_event list \<Rightarrow> write_history \<Rightarrow> write_history option" where
  "write_specs es h = foldl (\<lambda>r e. r \<bind> write_spec e) (Some h) es"

lemma write_specs_simps:
  "write_specs [] h = Some h"
  "write_specs (es @ [e]) h = write_specs es h \<bind> write_spec e"
  by (simp_all add: write_specs_def)

subsection \<open>The threads\<close>

text \<open>
  Where the thread at the front of the queue is.  Between two steps other threads enter the queue, and the
  thread of the compactions and the readers do what \<open>others\<close> allows.  The file numbers do not run out.
\<close>

datatype write_pc = Idle | Room bool bool | Grouped write_locals | Logged write_locals | Synced write_locals | Applied write_locals

definition write_result :: "writer_ptr \<Rightarrow> status \<Rightarrow> ('e, 'w) db \<Rightarrow> writer_ptr \<Rightarrow> writer_ptr \<times> status option" where
  "write_result w st d w' = (w', if w' = w then Some st else if wr_done (db_writer d w') then Some (wr_status (db_writer d w')) else None)"

inductive db_run :: "('e, 'w, 's) db_setting \<Rightarrow> (('e, 'w) db \<Rightarrow> ('e, 'w) db \<Rightarrow> bool) \<Rightarrow> ('e, 'w) db \<Rightarrow> write_event list \<Rightarrow> write_pc \<Rightarrow> ('e, 'w) db \<Rightarrow> bool"
  for X others d0 where
  start: "db_run X others d0 [] Idle d0"
| enter: "db_run X others d0 es pc d \<Longrightarrow> w \<notin> set (db_writers d) \<Longrightarrow>
    db_run X others d0 (es @ [Entered w (map_option snd b) sync]) pc (Write_enter w (map_option (\<lambda>(s, ops). batch_rep s ops) b) sync d)"
| front: "db_run X others d0 es Idle d \<Longrightarrow> db_writers d = w # ws \<Longrightarrow> \<not> wr_done (db_writer d w) \<Longrightarrow> force = (wr_batch (db_writer d w) = None) \<Longrightarrow>
    db_run X others d0 es (Room force (\<not> force)) d"
| delay: "db_run X others d0 es (Room force allow) d \<Longrightarrow> make_room X force allow d = Some (Room_delay, d') \<Longrightarrow>
    db_run X others d0 es (Room force False) d'"
| wait: "db_run X others d0 es (Room force allow) d \<Longrightarrow> make_room X force allow d = Some (Room_wait, d') \<Longrightarrow>
    db_run X others d0 es (Room force allow) d'"
| switch: "db_run X others d0 es (Room force allow) d \<Longrightarrow> make_room X force allow d = Some (Room_switched, d') \<Longrightarrow>
    unat (vs_next_file_number (db_versions d)) + 1 < 2 ^ 64 \<Longrightarrow> db_run X others d0 (es @ [Switched]) (Room False allow) d'"
| group: "db_run X others d0 es (Room force allow) d \<Longrightarrow> make_room X force allow d = Some (Room_done st, d1) \<Longrightarrow> db_writers d = w # ws \<Longrightarrow>
    Write_group w st d1 = Some (l, d') \<Longrightarrow> db_run X others d0 es (Grouped l) d'"
| append: "db_run X others d0 es (Grouped l) d \<Longrightarrow> Write_append X l d = Some (l', d') \<Longrightarrow> db_run X others d0 es (Logged l') d'"
| sync: "db_run X others d0 es (Logged l) d \<Longrightarrow> db_writers d = w # ws \<Longrightarrow> Write_sync X (wr_sync (db_writer d w)) l d = Some (l', d') \<Longrightarrow>
    db_run X others d0 es (Synced l') d'"
| insert: "db_run X others d0 es (Synced l) d \<Longrightarrow> Write_insert X l d = Some (l', d') \<Longrightarrow> db_run X others d0 es (Applied l') d'"
| finish: "db_run X others d0 es (Applied l) d \<Longrightarrow> db_writers d = w # ws \<Longrightarrow> Write_finish w l d = Some (st, d') \<Longrightarrow>
    left = take (length (db_writers d) - length (db_writers d')) (db_writers d) \<Longrightarrow>
    db_run X others d0 (es @ [Finished (wl_updates l \<noteq> None) (wl_sync_error l) st (map (write_result w st d') left)]) Idle d'"
| other: "db_run X others d0 es pc d \<Longrightarrow> others d d' \<Longrightarrow> db_run X others d0 es pc d'"

text \<open>
  What the other threads may do: everything but change the memtable that is written, the log that is written, the queue
  and the last sequence number, or clear an error.
\<close>

definition others_keep :: "('e \<Rightarrow> bytes \<Rightarrow> bytes option) \<Rightarrow> ('w \<Rightarrow> bytes) \<Rightarrow> ('w \<times> 'e \<Rightarrow> bool) \<Rightarrow> ('w \<times> 'e \<Rightarrow> bytes) \<Rightarrow> ('e, 'w) db \<Rightarrow> ('e, 'w) db \<Rightarrow> bool" where
  "others_keep contents file_name valid written d d' \<longleftrightarrow>
     db_log d' = db_log d \<and> db_logfile_number d' = db_logfile_number d \<and> db_mem d' = db_mem d \<and> db_writer d' = db_writer d \<and>
     db_writers d' = db_writers d \<and> db_tmp_batch d' = db_tmp_batch d \<and>
     vs_last_sequence (db_versions d') = vs_last_sequence (db_versions d) \<and> db_logfile_number d < vs_next_file_number (db_versions d') \<and>
     (\<exists>names. file_name (lw_dest (db_log d)) \<notin> names \<and> untouched contents file_name valid written (db_env d) (db_env d') names) \<and>
     (Status_ok (db_bg_error d) \<or> db_bg_error d' = db_bg_error d)"

subsection \<open>How states and histories are related\<close>

definition queue_ok :: "('e, 'w) db \<Rightarrow> write_entry list \<Rightarrow> bool" where
  "queue_ok d xs \<longleftrightarrow> db_writers d = map entry_writer xs \<and> distinct (map entry_writer xs) \<and>
     (\<forall>x \<in> set xs. waiting (db_writer d) x \<and> \<not> wr_done (db_writer d (entry_writer x)))"

definition data_ok :: "('e \<Rightarrow> bytes \<Rightarrow> bytes option) \<Rightarrow> ('w \<Rightarrow> bytes) \<Rightarrow> ('w \<times> 'e \<Rightarrow> bool) \<Rightarrow> ('w \<times> 'e \<Rightarrow> bytes) \<Rightarrow> comparator \<Rightarrow> (bytes \<Rightarrow> bool) \<Rightarrow> bytes \<Rightarrow>
    ('e, 'w) db \<Rightarrow> mem_op list \<Rightarrow> bytes list option \<Rightarrow> bool" where
  "data_ok contents file_name valid written u keys dbname d mem recs \<longleftrightarrow>
     mem_view u keys (db_mem d) mem \<and>
     file_name (lw_dest (db_log d)) = LogFileName dbname (db_logfile_number d) \<and> db_logfile_number d < vs_next_file_number (db_versions d) \<and>
     valid (lw_dest (db_log d), db_env d) \<and>
     (case recs of None \<Rightarrow> True
      | Some rs \<Rightarrow> written (lw_dest (db_log d), db_env d) = log_bytes 0 rs \<and>
          contents (db_env d) (LogFileName dbname (db_logfile_number d)) = Some (log_bytes 0 rs) \<and>
          writer_at (db_log d) (foldl log_record_end 0 rs))"

text \<open>The group that is being written.\<close>

definition group_of :: "write_history \<Rightarrow> write_locals \<Rightarrow> write_entry list \<Rightarrow> bool" where
  "group_of h l g \<longleftrightarrow> \<not> hs_failed h \<and> g \<noteq> [] \<and> (\<exists>rest. hs_pending h = g @ rest) \<and> wl_last_writer l = entry_writer (last g) \<and>
     entry_batch (hd g) \<noteq> None \<and> (\<forall>x \<in> set g. entry_sync x \<longrightarrow> entry_sync (hd g)) \<and>
     wl_updates l = Some (batch_rep (hs_last h + 1) (group_ops g)) \<and> wl_last_sequence l = hs_last h + word_of_nat (length (group_ops g))"

definition no_group :: "write_history \<Rightarrow> write_locals \<Rightarrow> bool" where
  "no_group h l \<longleftrightarrow> hs_pending h \<noteq> [] \<and> wl_updates l = None \<and> \<not> wl_sync_error l \<and> wl_last_writer l = entry_writer (hd (hs_pending h)) \<and>
     (Status_ok (wl_status l) \<longrightarrow> entry_batch (hd (hs_pending h)) = None \<and> \<not> hs_failed h)"

text \<open>The group once its record has gone to the log, and once it is in the memtable as well.\<close>

definition logged_ok :: "(mem_op list \<Rightarrow> bytes list option \<Rightarrow> bool) \<Rightarrow> write_history \<Rightarrow> bool \<Rightarrow> write_locals \<Rightarrow> write_batch \<Rightarrow> bool" where
  "logged_ok data h inserted l tmp \<longleftrightarrow>
     no_group h l \<and> tmp = batch_rep 0 [] \<and> data (hs_mem h) (hs_log h) \<or>
     (\<exists>g. group_of h l g \<and> (wl_is_tmp l \<or> tmp = batch_rep 0 []) \<and> (wl_sync_error l \<longrightarrow> \<not> Status_ok (wl_status l) \<and> entry_sync (hd g)) \<and>
        (if Status_ok (wl_status l)
         then data (if inserted then hs_mem h @ numbered (hs_last h + 1) (group_ops g) else hs_mem h)
           (map_option (\<lambda>rs. rs @ [batch_rep (hs_last h + 1) (group_ops g)]) (hs_log h))
         else data (hs_mem h) None))"

definition phase_ok :: "(mem_op list \<Rightarrow> bytes list option \<Rightarrow> bool) \<Rightarrow> write_history \<Rightarrow> write_pc \<Rightarrow> write_batch \<Rightarrow> bool" where
  "phase_ok data h pc tmp \<longleftrightarrow>
     (case pc of
        Idle \<Rightarrow> tmp = batch_rep 0 [] \<and> data (hs_mem h) (hs_log h)
      | Room force allow \<Rightarrow> tmp = batch_rep 0 [] \<and> data (hs_mem h) (hs_log h) \<and> hs_pending h \<noteq> []
      | Grouped l \<Rightarrow> data (hs_mem h) (hs_log h) \<and>
          (no_group h l \<and> tmp = batch_rep 0 [] \<or> (\<exists>g. group_of h l g \<and> Status_ok (wl_status l)) \<and> (wl_is_tmp l \<or> tmp = batch_rep 0 []) \<and> \<not> wl_sync_error l)
      | Logged l \<Rightarrow> logged_ok data h False l tmp \<and> \<not> wl_sync_error l
      | Synced l \<Rightarrow> logged_ok data h False l tmp
      | Applied l \<Rightarrow> logged_ok data h True l tmp)"

definition represents :: "('e \<Rightarrow> bytes \<Rightarrow> bytes option) \<Rightarrow> ('w \<Rightarrow> bytes) \<Rightarrow> ('w \<times> 'e \<Rightarrow> bool) \<Rightarrow> ('w \<times> 'e \<Rightarrow> bytes) \<Rightarrow> comparator \<Rightarrow> (bytes \<Rightarrow> bool) \<Rightarrow> bytes \<Rightarrow>
    write_history \<Rightarrow> write_pc \<Rightarrow> ('e, 'w) db \<Rightarrow> bool" where
  "represents contents file_name valid written u keys dbname h pc d \<longleftrightarrow>
     queue_ok d (hs_pending h) \<and> vs_last_sequence (db_versions d) = hs_last h \<and>
     (hs_failed h \<longrightarrow> \<not> Status_ok (db_bg_error d)) \<and> (\<forall>w \<in> set (hs_mem h). fst w \<le> hs_last h) \<and>
     phase_ok (data_ok contents file_name valid written u keys dbname d) h pc (db_tmp_batch d)"

subsection \<open>Steps of the queue\<close>

lemma LogFileName_inject [simp]: "LogFileName dbname n = LogFileName dbname m \<longleftrightarrow> n = m"
proof
  assume "LogFileName dbname n = LogFileName dbname m"
  then have "ParseFileName (base_name dbname (LogFileName dbname n)) = ParseFileName (base_name dbname (LogFileName dbname m))" by (rule arg_cong)
  then show "n = m" using file_names_parse_back [THEN conjunct1, of dbname] by simp
qed simp

lemma scast_word_of_nat:
  assumes "n < 2 ^ 31"
  shows "scast (word_of_nat n :: u32) = (word_of_nat n :: u64)"
proof -
  have "signed_take_bit 31 (int n) = int n"
    by (rule signed_take_bit_int_eq_self) (use assms in simp_all)
  then have "sint (word_of_nat n :: u32) = int n" unfolding signed_of_nat by simp
  then show ?thesis unfolding scast_eq by (simp only: of_int_of_nat_eq)
qed

lemma pop_writers_ok:
  "distinct (p @ q) \<Longrightarrow> p \<noteq> [] \<Longrightarrow> pop_writers w st (last p) (p @ q) wr =
     Some (q, \<lambda>a. if a \<in> set p \<and> a \<noteq> w then (wr a)\<lparr>wr_status := st, wr_done := True\<rparr> else wr a)"
proof (induction p arbitrary: wr)
  case (Cons a p)
  show ?case
  proof (cases "p = []")
    case True
    then show ?thesis by (auto simp: fun_eq_iff)
  next
    case False
    then have "last (a # p) \<noteq> a" using Cons.prems(1) last_in_set [OF False] by auto
    then show ?thesis using Cons.IH False Cons.prems(1) by (auto simp: fun_eq_iff Let_def)
  qed
qed simp

lemma Write_group_ok:
  assumes "queue_ok d (hs_pending h)" "hs_pending h = x # xs" "db_tmp_batch d = batch_rep 0 []" "vs_last_sequence (db_versions d) = hs_last h"
    and "\<forall>ops. entry_batch x = Some ops \<longrightarrow> length ops < 2 ^ 31" "hs_failed h \<longrightarrow> \<not> Status_ok st"
  shows "\<exists>l wr tmp. Write_group (entry_writer x) st d = Some (l, d\<lparr>db_writer := wr, db_tmp_batch := tmp\<rparr>) \<and>
    queue_ok (d\<lparr>db_writer := wr, db_tmp_batch := tmp\<rparr>) (hs_pending h) \<and> \<not> wl_sync_error l \<and>
    (no_group h l \<and> tmp = batch_rep 0 [] \<or> (\<exists>g. group_of h l g \<and> Status_ok (wl_status l)) \<and> (wl_is_tmp l \<or> tmp = batch_rep 0 []))"
proof -
  let ?w = "entry_writer x"
  have x: "waiting (db_writer d) x" "db_writers d = map entry_writer (x # xs)" "\<forall>y \<in> set (x # xs). waiting (db_writer d) y"
    "distinct (map entry_writer (x # xs))" using assms(1,2) by (auto simp: queue_ok_def)
  have batch: "wr_batch (db_writer d ?w) = None \<longleftrightarrow> entry_batch x = None" using x(1) by (auto simp: waiting_def split: option.splits)
  show ?thesis
  proof (cases "Status_ok st \<and> entry_batch x \<noteq> None")
    case False
    let ?l = "\<lparr>wl_status = st, wl_updates = None, wl_is_tmp = False, wl_last_sequence = vs_last_sequence (db_versions d), wl_last_writer = ?w, wl_sync_error = False\<rparr>"
    have "Write_group ?w st d = Some (?l, d\<lparr>db_writer := db_writer d, db_tmp_batch := db_tmp_batch d\<rparr>)"
      using False batch by (auto simp: Write_group_def Let_def)
    moreover have "no_group h ?l" using assms(2,6) False by (auto simp: no_group_def)
    ultimately show ?thesis using assms(1,3)
      by (intro exI [of _ ?l] exI [of _ "db_writer d"] exI [of _ "db_tmp_batch d"]) (simp add: queue_ok_def)
  next
    case True
    then obtain ops where ops: "entry_batch x = Some ops" by auto
    obtain b is_tmp g rest s where b: "BuildBatchGroup d = Some (b, is_tmp, entry_writer (last (x # g)))" "xs = g @ rest"
      "b = batch_rep s (group_ops (x # g))" "\<forall>y \<in> set g. entry_sync y \<longrightarrow> entry_sync x" "length (group_ops (x # g)) < 2 ^ 31"
      "\<not> is_tmp \<longrightarrow> group_ops g = []"
      using BuildBatchGroup_ok [OF x(2,3) ops assms(3)] assms(5) ops by blast
    let ?b = "batch_rep (hs_last h + 1) (group_ops (x # g))"
    let ?l = "\<lparr>wl_status = st, wl_updates = Some ?b, wl_is_tmp = is_tmp, wl_last_sequence = hs_last h + word_of_nat (length (group_ops (x # g))),
        wl_last_writer = entry_writer (last (x # g)), wl_sync_error = False\<rparr>"
    let ?wr = "if is_tmp then db_writer d else (db_writer d)(?w := (db_writer d ?w)\<lparr>wr_batch := Some ?b\<rparr>)"
    let ?tmp = "if is_tmp then ?b else db_tmp_batch d"
    have "scast (batch_Count ?b) = (word_of_nat (length (group_ops (x # g))) :: u64)"
      unfolding batch_rep_simps by (rule scast_word_of_nat [OF b(5)])
    then have "Write_group ?w st d = Some (?l, d\<lparr>db_writer := ?wr, db_tmp_batch := ?tmp\<rparr>)"
      using True batch b(1,3) assms(4) by (simp add: Write_group_def Let_def batch_rep_simps del: group_ops_simps)
    moreover have "queue_ok (d\<lparr>db_writer := ?wr, db_tmp_batch := ?tmp\<rparr>) (hs_pending h)"
    proof -
      have "waiting ?wr y \<and> \<not> wr_done (?wr (entry_writer y))" if y: "y \<in> set (x # xs)" for y
      proof (cases "y = x")
        case True
        then show ?thesis using b(6) ops x(1) assms(1,2) by (auto simp add: waiting_def queue_ok_def)
      next
        case False
        then have "entry_writer y \<in> entry_writer ` set xs" using y by auto
        moreover have "?w \<notin> entry_writer ` set xs" using x(4) by simp
        ultimately have "entry_writer y \<noteq> ?w" by (cases "entry_writer y = ?w") simp_all
        then have e: "?wr (entry_writer y) = db_writer d (entry_writer y)" by simp
        have "waiting (db_writer d) y \<and> \<not> wr_done (db_writer d (entry_writer y))" using y assms(1,2) unfolding queue_ok_def by metis
        then show ?thesis unfolding waiting_def e .
      qed
      then show ?thesis using assms(1,2) by (simp add: queue_ok_def)
    qed
    moreover have "group_of h ?l (x # g)" using True assms(2,6) b(2,4) ops by (simp add: group_of_def)
    ultimately show ?thesis using True assms(3)
      by (intro exI [of _ ?l] exI [of _ ?wr] exI [of _ ?tmp]) (auto simp: no_group_def)
  qed
qed

lemma take_group: "hs_pending h = g @ rest \<Longrightarrow> take (length g) (hs_pending h) = g \<and> drop (length g) (hs_pending h) = rest"
  by simp

lemma Write_finish_ok:
  assumes "queue_ok d (hs_pending h)" "hs_pending h = g @ rest" "g \<noteq> []" "wl_last_writer l = entry_writer (last g)"
    and "wl_updates l = None \<or> vs_last_sequence (db_versions d) \<le> wl_last_sequence l"
    and "wl_is_tmp l \<or> db_tmp_batch d = batch_rep 0 []" "wl_updates l = None \<longrightarrow> db_tmp_batch d = batch_rep 0 []"
  shows "\<exists>d'. Write_finish (entry_writer (hd g)) l d = Some (wl_status l, d') \<and> queue_ok d' rest \<and> db_tmp_batch d' = batch_rep 0 [] \<and>
    map (write_result (entry_writer (hd g)) (wl_status l) d') (take (length (db_writers d) - length (db_writers d')) (db_writers d)) =
      map (\<lambda>x. (entry_writer x, Some (wl_status l))) g \<and>
    db_versions d' = (if wl_updates l = None then db_versions d else (db_versions d)\<lparr>vs_last_sequence := wl_last_sequence l\<rparr>) \<and>
    db_bg_error d' = (if wl_updates l \<noteq> None \<and> wl_sync_error l \<and> Status_ok (db_bg_error d) then wl_status l else db_bg_error d) \<and>
    db_env d' = db_env d \<and> db_log d' = db_log d \<and> db_mem d' = db_mem d \<and> db_logfile_number d' = db_logfile_number d"
proof -
  let ?w = "entry_writer (hd g)"
  define wr where "wr = (\<lambda>a. if a \<in> set (map entry_writer g) \<and> a \<noteq> ?w then (db_writer d a)\<lparr>wr_status := wl_status l, wr_done := True\<rparr> else db_writer d a)"
  define err where "err = (if wl_updates l \<noteq> None \<and> wl_sync_error l \<and> Status_ok (db_bg_error d) then wl_status l else db_bg_error d)"
  define vs where "vs = (if wl_updates l = None then db_versions d else (db_versions d)\<lparr>vs_last_sequence := wl_last_sequence l\<rparr>)"
  have q: "db_writers d = map entry_writer g @ map entry_writer rest" "distinct (map entry_writer g @ map entry_writer rest)"
    "last (map entry_writer g) = wl_last_writer l" "map entry_writer g \<noteq> []"
    using assms(1-4) by (simp_all add: queue_ok_def last_map)
  have pop: "pop_writers ?w (wl_status l) (wl_last_writer l) (db_writers d) (db_writer d) = Some (map entry_writer rest, wr)"
    using pop_writers_ok [OF q(2,4), of ?w "wl_status l" "db_writer d"] unfolding q(1,3) wr_def .
  let ?d = "d\<lparr>db_bg_error := err, db_tmp_batch := batch_rep 0 [], db_versions := vs, db_writers := map entry_writer rest, db_writer := wr\<rparr>"
  have clear: "WriteBatch_Clear b = batch_rep 0 []" for b
    using WriteBatch_make_rep by (simp add: WriteBatch_make_def WriteBatch_Clear_def)
  have rec: "(if wl_updates l \<noteq> None \<and> wl_sync_error l then RecordBackgroundError (wl_status l) d else d) = d\<lparr>db_bg_error := err\<rparr>"
    by (simp add: RecordBackgroundError_def err_def)
  have "Write_finish ?w l d = Some (wl_status l, ?d)"
  proof (cases "wl_updates l = None")
    case True
    then show ?thesis using pop assms(7) unfolding Write_finish_def rec by (simp add: vs_def)
  next
    case False
    then have "SetLastSequence_vs (wl_last_sequence l) (db_versions d) = Some vs"
      using assms(5) by (auto simp: SetLastSequence_vs_def vs_def)
    moreover have "(if wl_is_tmp l then WriteBatch_Clear (db_tmp_batch (d\<lparr>db_bg_error := err\<rparr>)) else db_tmp_batch (d\<lparr>db_bg_error := err\<rparr>)) = batch_rep 0 []"
      using assms(6) clear by auto
    ultimately show ?thesis using False pop unfolding Write_finish_def rec by (simp add: Let_def split del: if_split)
  qed
  moreover have "queue_ok ?d rest"
  proof -
    have "waiting wr y \<and> \<not> wr_done (wr (entry_writer y))" if y: "y \<in> set rest" for y
    proof -
      have e: "wr (entry_writer y) = db_writer d (entry_writer y)" using q(2) y by (auto simp: wr_def)
      have "waiting (db_writer d) y \<and> \<not> wr_done (db_writer d (entry_writer y))" using y assms(1,2) by (simp add: queue_ok_def)
      then show ?thesis unfolding waiting_def e .
    qed
    then show ?thesis using q(2) by (simp add: queue_ok_def)
  qed
  moreover have "map (write_result ?w (wl_status l) ?d) (take (length (db_writers d) - length (db_writers ?d)) (db_writers d)) =
      map (\<lambda>x. (entry_writer x, Some (wl_status l))) g"
    by (simp add: q(1) write_result_def wr_def)
  ultimately show ?thesis by (intro exI [of _ ?d]) (simp add: err_def vs_def)
qed

subsection \<open>Steps of the files\<close>

lemma MemTable_Ref_view [simp]: "mem_view u keys (MemTable_Ref m) ops \<longleftrightarrow> mem_view u keys m ops"
  by (simp add: mem_view_def MemTable_Ref_def)

context env_contract
begin

abbreviation data :: "comparator \<Rightarrow> (bytes \<Rightarrow> bool) \<Rightarrow> bytes \<Rightarrow> ('e, 'w) db \<Rightarrow> mem_op list \<Rightarrow> bytes list option \<Rightarrow> bool" where
  "data \<equiv> data_ok contents file_name valid written"

lemma data_ok_kept:
  assumes "data u keys dbname d mem recs" "kept (db_env d) (db_env d') names" "file_name (lw_dest (db_log d)) \<notin> names"
    and "db_mem d' = db_mem d" "db_log d' = db_log d" "db_logfile_number d' = db_logfile_number d" "db_logfile_number d < vs_next_file_number (db_versions d')"
  shows "data u keys dbname d' mem recs"
proof -
  have "valid (lw_dest (db_log d), db_env d')" "written (lw_dest (db_log d), db_env d') = written (lw_dest (db_log d), db_env d)"
    "contents (db_env d') (file_name (lw_dest (db_log d))) = contents (db_env d) (file_name (lw_dest (db_log d)))"
    using assms(1-3) by (simp_all add: untouched_def data_ok_def)
  then show ?thesis using assms(1,4-7) by (simp add: data_ok_def split: option.splits)
qed

lemma data_ok_same:
  "data u keys dbname d mem recs \<Longrightarrow> db_env d' = db_env d \<Longrightarrow> db_mem d' = db_mem d \<Longrightarrow> db_log d' = db_log d \<Longrightarrow>
   db_logfile_number d' = db_logfile_number d \<Longrightarrow> vs_next_file_number (db_versions d') = vs_next_file_number (db_versions d) \<Longrightarrow>
   data u keys dbname d' mem recs"
  by (rule data_ok_kept [where names = "{}"]) (auto simp: data_ok_def)

definition same_queue :: "('e, 'w) db \<Rightarrow> ('e, 'w) db \<Rightarrow> bool" where
  "same_queue d d' \<longleftrightarrow> db_writers d' = db_writers d \<and> db_writer d' = db_writer d \<and> db_tmp_batch d' = db_tmp_batch d \<and>
     vs_last_sequence (db_versions d') = vs_last_sequence (db_versions d)"

lemma make_room_ok:
  assumes "comparator_contract u keys" "st_env X = E" "st_comparator X = u" "st_dbname X = dbname"
    and "data u keys dbname d mem recs" "make_room X force allow d = Some (r, d')"
  shows "same_queue d d' \<and> db_bg_error d' = db_bg_error d \<and>
    (case r of Room_done st \<Rightarrow> data u keys dbname d' mem recs \<and> (Status_ok st \<longrightarrow> Status_ok (db_bg_error d))
     | Room_switched \<Rightarrow> Status_ok (db_bg_error d) \<and> (unat (vs_next_file_number (db_versions d)) + 1 < 2 ^ 64 \<longrightarrow> data u keys dbname d' [] (Some []))
     | _ \<Rightarrow> data u keys dbname d' mem recs)"
proof -
  let ?n = "vs_next_file_number (db_versions d)"
  let ?name = "LogFileName dbname ?n"
  have n: "db_logfile_number d < ?n" "file_name (lw_dest (db_log d)) = LogFileName dbname (db_logfile_number d)"
    using assms(5) by (simp_all add: data_ok_def)
  then have fresh: "file_name (lw_dest (db_log d)) \<noteq> ?name" by auto
  obtain level0 where level0: "NumLevelFiles (db_versions d) 0 = Some level0" using assms(6) by (auto simp: make_room_def bind_eq_Some_conv)
  obtain s f e where f: "env_NewWritableFile E ?name (db_env d) = (s, f, e)" by (cases "env_NewWritableFile E ?name (db_env d)") auto
  note new = new_writable [OF f]
  consider (stay) "d' = d" "r = Room_done (db_bg_error d) \<and> \<not> Status_ok (db_bg_error d) \<or> Status_ok (db_bg_error d) \<and> (r = Room_delay \<or> r = Room_wait \<or> r = Room_done Status_OK)"
    | (fail) "d' = d\<lparr>db_env := e, db_versions := ReuseFileNumber ?n ((db_versions d)\<lparr>vs_next_file_number := ?n + 1\<rparr>)\<rparr>" "r = Room_done s" "\<not> Status_ok s"
        "Status_ok (db_bg_error d)"
    | (switch) w where "f = Some w" "Status_ok s" "r = Room_switched" "Status_ok (db_bg_error d)"
        "d' = d\<lparr>db_env := env_delete_writable E (lw_dest (db_log d)) e, db_log := Writer_make w, db_logfile_number := ?n,
          db_imm := Some (db_mem d), db_mem := MemTable_Ref (MemTable_make (st_new X) u), db_versions := (db_versions d)\<lparr>vs_next_file_number := ?n + 1\<rparr>\<rparr>"
    using assms(6) level0 f assms(2-4) by (auto simp: make_room_def NewFileNumber_def bind_eq_Some_conv Let_def split: if_splits)
  then show ?thesis
  proof cases
    case stay
    then show ?thesis using assms(5) by (auto simp: same_queue_def)
  next
    case fail
    have "data u keys dbname d' mem recs"
      by (rule data_ok_kept [OF assms(5), where names = "{?name}"]) (use fail new fresh n in \<open>simp_all add: ReuseFileNumber_def\<close>)
    then show ?thesis using fail by (simp add: same_queue_def ReuseFileNumber_def)
  next
    case switch
    have w: "file_name w = ?name" "valid (w, e)" "written (w, e) = []" "contents e ?name = Some []"
      using new switch(1,2) by simp_all
    have k: "kept e (env_delete_writable E (lw_dest (db_log d)) e) {file_name (lw_dest (db_log d))}" by (rule delete_writable)
    let ?e = "env_delete_writable E (lw_dest (db_log d)) e"
    have "valid (w, ?e)" "written (w, ?e) = []" "contents ?e ?name = Some []"
      using k w fresh unfolding untouched_def by force+
    moreover have "mem_view u keys (MemTable_make (st_new X) u) []" by (rule comparator_contract.MemTable_make_view [OF assms(1)])
    moreover have "?n < ?n + 1" if "unat ?n + 1 < 2 ^ 64"
      using unat_Suc_u64 [OF that] by (simp add: word_less_nat_alt)
    ultimately show ?thesis
      using switch w(1) by (simp add: same_queue_def data_ok_def Writer_make_def writer_at_def kBlockSize_def)
  qed
qed

lemma log_AddRecord_keeps:
  assumes "log_AddRecord E b w e = Some (st, w', e')" "valid (lw_dest w, e)"
  shows "valid (lw_dest w', e') \<and> file_name (lw_dest w') = file_name (lw_dest w)"
proof -
  obtain w1 where w1: "AddRecord (env_WritableFile E) b (writer_with w e) = Some (st, w1)" "w' = writer_without w1" "e' = snd (lw_dest w1)"
    using assms(1) by (auto simp: log_AddRecord_def bind_eq_Some_conv)
  have "True \<and> (valid (lw_dest w1) \<and> file_name (fst (lw_dest w1)) = file_name (lw_dest w))"
  proof (rule AddRecord_all [where Q = "\<lambda>_. True" and P = "\<lambda>f. valid f \<and> file_name (fst f) = file_name (lw_dest w)", OF _ _ w1(1)])
    show "True \<and> valid f' \<and> file_name (fst f') = file_name (lw_dest w)"
      if "valid f \<and> file_name (fst f) = file_name (lw_dest w)" "wf_Append (env_WritableFile E) f d = Some (s, f')" for f d s f'
      using append [of "fst f" "snd f" d] that by auto
    show "True \<and> valid f' \<and> file_name (fst f') = file_name (lw_dest w)"
      if "valid f \<and> file_name (fst f) = file_name (lw_dest w)" "wf_Flush (env_WritableFile E) f = Some (s, f')" for f s f'
      using flush [of "fst f" "snd f"] that by auto
  qed (use assms(2) in \<open>simp_all add: writer_with_def\<close>)
  then show ?thesis using w1(2,3) by (cases "lw_dest w1") (simp add: writer_without_def)
qed

lemma log_at_data:
  "data u keys dbname d mem (Some rs) \<Longrightarrow> log_at (db_log d) (db_env d) (log_bytes 0 rs) (foldl log_record_end 0 rs)"
  by (simp add: data_ok_def log_at_def)

text \<open>The record goes to the end of the log; nothing else that matters is touched.\<close>

lemma append_record:
  assumes "data u keys dbname d mem recs" "log_AddRecord E b (db_log d) (db_env d) = Some (st, lg, e)"
  shows "valid (lw_dest lg, e)" "file_name (lw_dest lg) = file_name (lw_dest (db_log d))"
    "Status_ok st \<Longrightarrow> data u keys dbname (d\<lparr>db_env := e, db_log := lg\<rparr>) mem (map_option (\<lambda>rs. rs @ [b]) recs)"
    "data u keys dbname (d\<lparr>db_env := e, db_log := lg\<rparr>) mem None"
proof -
  have "valid (lw_dest (db_log d), db_env d)" using assms(1) by (simp add: data_ok_def)
  then show v: "valid (lw_dest lg, e)" "file_name (lw_dest lg) = file_name (lw_dest (db_log d))"
    using log_AddRecord_keeps [OF assms(2)] by simp_all
  then show none: "data u keys dbname (d\<lparr>db_env := e, db_log := lg\<rparr>) mem None" using assms(1) by (simp add: data_ok_def)
  assume ok: "Status_ok st"
  show "data u keys dbname (d\<lparr>db_env := e, db_log := lg\<rparr>) mem (map_option (\<lambda>rs. rs @ [b]) recs)"
  proof (cases recs)
    case None
    then show ?thesis using none by simp
  next
    case (Some rs)
    have "log_at (db_log d) (db_env d) (log_bytes 0 rs) (foldl log_record_end 0 rs)" using assms(1) Some log_at_data by simp
    from log_AddRecord_returns [OF this, of b] assms(2) ok
    have at: "log_at lg e (log_bytes 0 rs @ log_record (foldl log_record_end 0 rs) b) (log_record_end (foldl log_record_end 0 rs) b)" by simp
    have "log_bytes 0 (rs @ [b]) = log_bytes 0 rs @ log_record (foldl log_record_end 0 rs) b" by (simp add: log_bytes_append)
    with at v assms(1) Some show ?thesis by (simp add: data_ok_def log_at_def)
  qed
qed

lemma insert_group:
  assumes "comparator_contract u keys" "data u keys dbname d mem recs" "\<forall>op \<in> set ops. batch_op_ok keys op" "unat s + length ops \<le> 2 ^ 56" "\<forall>w \<in> set mem. fst w < s"
  shows "\<exists>m. batch_InsertInto new (batch_rep s ops) (db_mem d) = Some (Status_OK, m) \<and> data u keys dbname (d\<lparr>db_mem := m\<rparr>) (mem @ numbered s ops) recs"
proof -
  have "mem_view u keys (db_mem d) mem" using assms(2) by (simp add: data_ok_def)
  from comparator_contract.InsertInto_view [OF assms(1) this assms(3,4,5), of new] obtain m where
    "batch_InsertInto new (batch_rep s ops) (db_mem d) = Some (Status_OK, m)" "mem_view u keys m (mem @ numbered s ops)" by blast
  then show ?thesis using assms(2) by (intro exI [of _ m]) (simp add: data_ok_def split: option.splits)
qed

lemma sync_log:
  assumes "data u keys dbname d mem recs"
  shows "\<exists>st f e. wf_Sync (env_WritableFile E) (lw_dest (db_log d), db_env d) = Some (st, f, e) \<and>
    data u keys dbname (d\<lparr>db_env := e, db_log := (db_log d)\<lparr>lw_dest := f\<rparr>\<rparr>) mem (if Status_ok st then recs else None)"
proof -
  have v: "valid (lw_dest (db_log d), db_env d)" using assms by (simp add: data_ok_def)
  from sync [OF v] obtain st f e where s: "wf_Sync (env_WritableFile E) (lw_dest (db_log d), db_env d) = Some (st, f, e)" "valid (f, e)"
    "file_name f = file_name (lw_dest (db_log d))"
    "Status_ok st \<longrightarrow> written (f, e) = written (lw_dest (db_log d), db_env d) \<and> contents e (file_name (lw_dest (db_log d))) = Some (written (lw_dest (db_log d), db_env d))"
    by blast
  then have "data u keys dbname (d\<lparr>db_env := e, db_log := (db_log d)\<lparr>lw_dest := f\<rparr>\<rparr>) mem (if Status_ok st then recs else None)"
    using assms by (auto simp: data_ok_def writer_at_def split: option.splits)
  then show ?thesis using s(1) by blast
qed

end

subsection \<open>Every run is a run of the specification\<close>

text \<open>What the callers have to keep to: valid keys, no batch of more than $2^{31}$ operations, fewer than $2^{56}$ in all.\<close>

definition entered_ops :: "write_event list \<Rightarrow> batch_op list" where
  "entered_ops es = concat (map (\<lambda>e. case e of Entered w b sync \<Rightarrow> (case b of None \<Rightarrow> [] | Some ops \<Rightarrow> ops) | _ \<Rightarrow> []) es)"

definition batch_ok :: "(bytes \<Rightarrow> bool) \<Rightarrow> batch_op list option \<Rightarrow> bool" where
  "batch_ok keys b \<longleftrightarrow> (case b of None \<Rightarrow> True | Some ops \<Rightarrow> (\<forall>op \<in> set ops. batch_op_ok keys op) \<and> length ops < 2 ^ 31)"

definition write_load :: "(bytes \<Rightarrow> bool) \<Rightarrow> nat \<Rightarrow> write_event list \<Rightarrow> bool" where
  "write_load keys n es \<longleftrightarrow> (\<forall>e \<in> set es. case e of Entered w b sync \<Rightarrow> batch_ok keys b | _ \<Rightarrow> True) \<and> n + length (entered_ops es) < 2 ^ 56"

lemma write_load_snoc: "write_load keys n (es @ [e]) \<Longrightarrow> write_load keys n es"
  by (auto simp: write_load_def entered_ops_def)

definition pending_ok :: "(bytes \<Rightarrow> bool) \<Rightarrow> nat \<Rightarrow> write_history \<Rightarrow> bool" where
  "pending_ok keys n h \<longleftrightarrow> (\<forall>x \<in> set (hs_pending h). batch_ok keys (entry_batch x)) \<and> unat (hs_last h) + length (group_ops (hs_pending h)) \<le> n"

lemma queue_ok_same: "queue_ok d xs \<Longrightarrow> db_writers d' = db_writers d \<Longrightarrow> db_writer d' = db_writer d \<Longrightarrow> queue_ok d' xs"
  by (simp add: queue_ok_def)

lemma group_ops_ok:
  "\<forall>x \<in> set g. batch_ok keys (entry_batch x) \<Longrightarrow> \<forall>op \<in> set (group_ops g). batch_op_ok keys op"
  by (fastforce simp: group_ops_def batch_ok_def split: option.splits)

lemma unat_add_small: "unat (s :: u64) + n < 2 ^ 56 \<Longrightarrow> unat (s + word_of_nat n) = unat s + n"
  by (simp add: unat_word_ariths unsigned_of_nat take_bit_nat_eq_self)

text \<open>The group's numbers lie behind the old ones.\<close>

lemma group_numbers:
  assumes "unat (s :: u64) + length ops < 2 ^ 56"
  shows "unat (s + 1) + length ops \<le> 2 ^ 56" "\<forall>w \<in> set (numbered (s + 1) ops). fst w \<le> s + word_of_nat (length ops)" "s \<le> s + word_of_nat (length ops)" "s < s + 1"
proof -
  have u: "unat (s + 1) = unat s + 1" by (rule unat_Suc_u64) (use assms in simp)
  show r: "unat (s + 1) + length ops \<le> 2 ^ 56" using assms u by simp
  show "\<forall>w \<in> set (numbered (s + 1) ops). fst w \<le> s + word_of_nat (length ops)"
    using numbered_range [OF r] u unat_add_small [OF assms] by (fastforce simp: word_le_nat_alt)
  show "s \<le> s + word_of_nat (length ops)" "s < s + 1" using u unat_add_small [OF assms] by (simp_all add: word_le_nat_alt word_less_nat_alt)
qed

lemma waiting_enter: "waiting (wr(w := r)) x \<longleftrightarrow> (if entry_writer x = w then waiting (\<lambda>_. r) x else waiting wr x)"
  by (auto simp: waiting_def split: option.splits)

lemma Write_enter_queue:
  assumes "queue_ok d xs" "w \<notin> set (db_writers d)"
  shows "queue_ok (Write_enter w (map_option (\<lambda>(s, ops). batch_rep s ops) b) sync d) (xs @ [(w, map_option snd b, sync)])"
proof -
  have "waiting (\<lambda>_. \<lparr>wr_status = Status_OK, wr_batch = map_option (\<lambda>(s, ops). batch_rep s ops) b, wr_sync = sync, wr_done = False\<rparr>) (w, map_option snd b, sync)"
    by (cases b) (auto simp: waiting_def)
  moreover have "\<forall>x \<in> set xs. entry_writer x \<noteq> w" using assms by (auto simp: queue_ok_def)
  ultimately show ?thesis using assms by (simp add: queue_ok_def Write_enter_def waiting_enter)
qed

lemma group_of_enter: "group_of h l g \<Longrightarrow> group_of (h\<lparr>hs_pending := hs_pending h @ xs\<rparr>) l g"
  by (auto simp: group_of_def)

lemma no_group_enter: "no_group h l \<Longrightarrow> no_group (h\<lparr>hs_pending := hs_pending h @ xs\<rparr>) l"
  by (simp add: no_group_def)

lemma logged_ok_enter: "logged_ok data h inserted l tmp \<Longrightarrow> logged_ok data (h\<lparr>hs_pending := hs_pending h @ xs\<rparr>) inserted l tmp"
proof -
  let ?h = "h\<lparr>hs_pending := hs_pending h @ xs\<rparr>"
  have g: "group_of h l g \<Longrightarrow> group_of ?h l g" and n: "no_group h l \<Longrightarrow> no_group ?h l" for g
    by (rule group_of_enter no_group_enter; assumption)+
  have e: "hs_mem ?h = hs_mem h" "hs_log ?h = hs_log h" "hs_last ?h = hs_last h" by simp_all
  show "logged_ok data h inserted l tmp \<Longrightarrow> logged_ok data ?h inserted l tmp"
    unfolding logged_ok_def e using g n by meson
qed

lemma phase_ok_enter:
  assumes "phase_ok data h pc tmp"
  shows "phase_ok data (h\<lparr>hs_pending := hs_pending h @ xs\<rparr>) pc tmp"
proof (cases pc)
  case (Grouped l)
  let ?h = "h\<lparr>hs_pending := hs_pending h @ xs\<rparr>"
  have g: "group_of h l g \<Longrightarrow> group_of ?h l g" and n: "no_group h l \<Longrightarrow> no_group ?h l" for g
    by (rule group_of_enter no_group_enter; assumption)+
  have h: "hs_mem ?h = hs_mem h" "hs_log ?h = hs_log h" by simp_all
  from assms g n show ?thesis unfolding phase_ok_def Grouped write_pc.case h by fast
qed (use assms logged_ok_enter in \<open>simp_all add: phase_ok_def\<close>)

lemma logged_ok_data: "logged_ok data h inserted l tmp \<Longrightarrow> (\<And>mem recs. data mem recs \<Longrightarrow> data' mem recs) \<Longrightarrow> logged_ok data' h inserted l tmp"
  unfolding logged_ok_def by (elim disjE exE conjE) (auto split: if_splits)

lemma phase_ok_data: "phase_ok data h pc tmp \<Longrightarrow> (\<And>mem recs. data mem recs \<Longrightarrow> data' mem recs) \<Longrightarrow> phase_ok data' h pc tmp"
  using logged_ok_data [of data h _ _ tmp data'] unfolding phase_ok_def by (cases pc) auto

context env_contract
begin

abbreviation rep :: "comparator \<Rightarrow> (bytes \<Rightarrow> bool) \<Rightarrow> bytes \<Rightarrow> write_history \<Rightarrow> write_pc \<Rightarrow> ('e, 'w) db \<Rightarrow> bool" where
  "rep \<equiv> represents contents file_name valid written"

lemma enter_step:
  assumes "rep u keys dbname h pc d" "w \<notin> set (db_writers d)"
  shows "rep u keys dbname (h\<lparr>hs_pending := hs_pending h @ [(w, map_option snd b, sync)]\<rparr>) pc (Write_enter w (map_option (\<lambda>(s, ops). batch_rep s ops) b) sync d)"
    (is "rep u keys dbname ?h pc ?d")
proof -
  have "phase_ok (data u keys dbname d) ?h pc (db_tmp_batch d)" using assms(1) phase_ok_enter by (simp add: represents_def)
  then have "phase_ok (data u keys dbname ?d) ?h pc (db_tmp_batch d)"
    by (rule phase_ok_data) (erule data_ok_same, simp_all add: Write_enter_def)
  moreover have "queue_ok ?d (hs_pending ?h)" using assms Write_enter_queue [of d "hs_pending h" w b sync] by (simp add: represents_def)
  ultimately show ?thesis using assms(1) by (simp add: represents_def Write_enter_def)
qed

lemma front_step:
  assumes "rep u keys dbname h Idle d" "db_writers d = w # ws"
  shows "rep u keys dbname h (Room force allow) d"
  using assms by (auto simp: represents_def phase_ok_def queue_ok_def)

lemma other_step:
  assumes "rep u keys dbname h pc d" "others_keep contents file_name valid written d d'"
  shows "rep u keys dbname h pc d'"
proof -
  obtain names where o: "db_log d' = db_log d" "db_logfile_number d' = db_logfile_number d" "db_mem d' = db_mem d" "db_writer d' = db_writer d"
    "db_writers d' = db_writers d" "db_tmp_batch d' = db_tmp_batch d" "vs_last_sequence (db_versions d') = vs_last_sequence (db_versions d)"
    "db_logfile_number d < vs_next_file_number (db_versions d')" "file_name (lw_dest (db_log d)) \<notin> names" "kept (db_env d) (db_env d') names"
    "Status_ok (db_bg_error d) \<or> db_bg_error d' = db_bg_error d"
    using assms(2) unfolding others_keep_def by blast
  have p: "phase_ok (data u keys dbname d) h pc (db_tmp_batch d)" using assms(1) by (simp add: represents_def)
  have "phase_ok (data u keys dbname d') h pc (db_tmp_batch d)"
    by (rule phase_ok_data [OF p]) (rule data_ok_kept [OF _ o(10,9,3,1,2,8)])
  then show ?thesis using assms(1) o(4-7,11) queue_ok_same [OF _ o(5,4)] by (auto simp: represents_def)
qed

lemma room_step:
  assumes "comparator_contract u keys" "st_env X = E" "st_comparator X = u" "st_dbname X = dbname"
    and "rep u keys dbname h (Room force allow) d" "make_room X force allow d = Some (r, d')"
  shows "r \<noteq> Room_switched \<Longrightarrow> rep u keys dbname h (Room force' allow') d'"
    and "r = Room_switched \<Longrightarrow> unat (vs_next_file_number (db_versions d)) + 1 < 2 ^ 64 \<Longrightarrow>
      write_spec Switched h = Some (h\<lparr>hs_mem := [], hs_log := Some []\<rparr>) \<and> rep u keys dbname (h\<lparr>hs_mem := [], hs_log := Some []\<rparr>) (Room force' allow') d'"
    and "r = Room_done st \<Longrightarrow> Status_ok st \<Longrightarrow> \<not> hs_failed h"
    and "db_writers d' = db_writers d"
proof -
  have r: "queue_ok d (hs_pending h)" "vs_last_sequence (db_versions d) = hs_last h" "hs_failed h \<longrightarrow> \<not> Status_ok (db_bg_error d)"
    "\<forall>w \<in> set (hs_mem h). fst w \<le> hs_last h" "db_tmp_batch d = batch_rep 0 []" "data u keys dbname d (hs_mem h) (hs_log h)" "hs_pending h \<noteq> []"
    using assms(5) by (simp_all add: represents_def phase_ok_def)
  note m = make_room_ok [OF assms(1-4) r(6) assms(6)]
  have q: "queue_ok d' (hs_pending h)" "db_tmp_batch d' = batch_rep 0 []" "vs_last_sequence (db_versions d') = hs_last h" "db_bg_error d' = db_bg_error d"
    using m r(1,2,5) by (simp_all add: same_queue_def queue_ok_def)
  show "rep u keys dbname h (Room force' allow') d'" if "r \<noteq> Room_switched"
    using m that q r(3,4,7) by (cases r) (simp_all add: represents_def phase_ok_def)
  show "write_spec Switched h = Some (h\<lparr>hs_mem := [], hs_log := Some []\<rparr>) \<and> rep u keys dbname (h\<lparr>hs_mem := [], hs_log := Some []\<rparr>) (Room force' allow') d'"
    if "r = Room_switched" "unat (vs_next_file_number (db_versions d)) + 1 < 2 ^ 64"
    using m that q r(3,7) by (auto simp: represents_def phase_ok_def)
  show "\<not> hs_failed h" if "r = Room_done st" "Status_ok st" using m that r(3) by simp
  show "db_writers d' = db_writers d" using m by (simp add: same_queue_def)
qed

lemma group_step:
  assumes "rep u keys dbname h (Room force allow) d" "db_writers d = w # ws" "Write_group w st d = Some (l, d')"
    and "Status_ok st \<Longrightarrow> \<not> hs_failed h" "pending_ok keys n h"
  shows "rep u keys dbname h (Grouped l) d'"
proof -
  have r: "queue_ok d (hs_pending h)" "vs_last_sequence (db_versions d) = hs_last h" "hs_failed h \<longrightarrow> \<not> Status_ok (db_bg_error d)"
    "\<forall>w \<in> set (hs_mem h). fst w \<le> hs_last h" "db_tmp_batch d = batch_rep 0 []" "data u keys dbname d (hs_mem h) (hs_log h)" "hs_pending h \<noteq> []"
    using assms(1) by (simp_all add: represents_def phase_ok_def)
  obtain x xs where x: "hs_pending h = x # xs" using r(7) by (cases "hs_pending h") auto
  have w: "w = entry_writer x" using r(1) x assms(2) by (simp add: queue_ok_def)
  have len: "\<forall>ops. entry_batch x = Some ops \<longrightarrow> length ops < 2 ^ 31" using assms(5) x by (auto simp: pending_ok_def batch_ok_def)
  from Write_group_ok [OF r(1) x r(5,2) len, of st] assms(4) obtain l1 wr tmp where g:
    "Write_group w st d = Some (l1, d\<lparr>db_writer := wr, db_tmp_batch := tmp\<rparr>)" "queue_ok (d\<lparr>db_writer := wr, db_tmp_batch := tmp\<rparr>) (hs_pending h)" "\<not> wl_sync_error l1"
    "no_group h l1 \<and> tmp = batch_rep 0 [] \<or> (\<exists>g. group_of h l1 g \<and> Status_ok (wl_status l1)) \<and> (wl_is_tmp l1 \<or> tmp = batch_rep 0 [])"
    unfolding w by blast
  have d': "l1 = l" "d' = d\<lparr>db_writer := wr, db_tmp_batch := tmp\<rparr>" using g(1) assms(3) by simp_all
  have "data u keys dbname d' (hs_mem h) (hs_log h)" by (rule data_ok_same [OF r(6)]) (simp_all add: d')
  then show ?thesis using g(2-4) r(2-4) unfolding represents_def phase_ok_def d' by simp
qed

lemma pending_group:
  assumes "pending_ok keys n h" "n < 2 ^ 56" "hs_pending h = g @ rest"
  shows "\<forall>op \<in> set (group_ops g). batch_op_ok keys op" "unat (hs_last h) + length (group_ops g) < 2 ^ 56"
  using assms group_ops_ok [of g keys] by (auto simp: pending_ok_def)

lemma represents_step:
  assumes "rep u keys dbname h pc d" "same_queue d d'" "db_bg_error d' = db_bg_error d"
    and "phase_ok (data u keys dbname d') h pc' (db_tmp_batch d)"
  shows "rep u keys dbname h pc' d'"
  using assms by (simp add: represents_def same_queue_def queue_ok_def)

lemma log_AddRecord_total:
  assumes "valid (lw_dest w, e)"
  shows "\<exists>st w' e'. log_AddRecord E b w e = Some (st, w', e')"
proof -
  have app: "\<exists>s f'. wf_Append (env_WritableFile E) f data = Some (s, f') \<and> valid f'" if "valid f" for f data
    using append [of "fst f" "snd f" data] that by auto
  have fl: "\<exists>s f'. wf_Flush (env_WritableFile E) f = Some (s, f') \<and> valid f'" if "valid f" for f
    using flush [of "fst f" "snd f"] that by auto
  obtain s w' where "AddRecord (env_WritableFile E) b (writer_with w e) = Some (s, w')"
    using AddRecord_total [where P = valid and w = "writer_with w e" and data = b, OF app fl] assms by (auto simp: writer_with_def)
  then show ?thesis by (simp add: log_AddRecord_def)
qed

text \<open>The three parts of a write without the mutex return, in whatever state earlier failures left the log.\<close>

lemma append_returns:
  assumes "st_env X = E" "rep u keys dbname h (Grouped l) d"
  shows "\<exists>l' d'. Write_append X l d = Some (l', d') \<and> rep u keys dbname h (Logged l') d'"
proof -
  have r: "data u keys dbname d (hs_mem h) (hs_log h)" "\<not> wl_sync_error l"
    using assms(2) by (auto simp add: represents_def phase_ok_def no_group_def)
  consider (none) "no_group h l" "db_tmp_batch d = batch_rep 0 []" | (group) g where "group_of h l g" "wl_is_tmp l \<or> db_tmp_batch d = batch_rep 0 []"
    using assms(2) by (auto simp: represents_def phase_ok_def)
  then show ?thesis
  proof cases
    case none
    then have "Write_append X l d = Some (l, d)" by (simp add: Write_append_def no_group_def)
    moreover have "rep u keys dbname h (Logged l) d"
      by (rule represents_step [OF assms(2)]) (use none r in \<open>simp_all add: same_queue_def phase_ok_def logged_ok_def\<close>)
    ultimately show ?thesis by blast
  next
    case group
    let ?b = "batch_rep (hs_last h + 1) (group_ops g)"
    have b: "wl_updates l = Some ?b" using group(1) by (simp add: group_of_def)
    have "valid (lw_dest (db_log d), db_env d)" using r(1) by (simp add: data_ok_def)
    then obtain st lg e where a: "log_AddRecord E ?b (db_log d) (db_env d) = Some (st, lg, e)" using log_AddRecord_total by blast
    note ap = append_record(3,4) [OF r(1) a]
    let ?l = "l\<lparr>wl_status := st\<rparr>" and ?d = "d\<lparr>db_env := e, db_log := lg\<rparr>"
    have "group_of h ?l g" using group(1) by (simp add: group_of_def)
    then have "logged_ok (data u keys dbname ?d) h False ?l (db_tmp_batch d)"
      unfolding logged_ok_def using group(2) r(2) ap by (intro disjI2 exI [of _ g]) simp
    then have "rep u keys dbname h (Logged ?l) ?d"
      by (intro represents_step [OF assms(2)]) (use r(2) in \<open>simp_all add: same_queue_def phase_ok_def\<close>)
    moreover have "Write_append X l d = Some (?l, ?d)" using assms(1) a b by (simp add: Write_append_def)
    ultimately show ?thesis by blast
  qed
qed

lemma sync_returns:
  assumes "st_env X = E" "rep u keys dbname h (Logged l) d" "db_writers d = w # ws"
  shows "\<exists>l' d'. Write_sync X (wr_sync (db_writer d w)) l d = Some (l', d') \<and> rep u keys dbname h (Synced l') d'"
proof (cases "wl_updates l \<noteq> None \<and> Status_ok (wl_status l) \<and> wr_sync (db_writer d w)")
  case False
  have "rep u keys dbname h (Synced l) d"
    by (rule represents_step [OF assms(2)]) (use assms(2) in \<open>simp_all add: same_queue_def phase_ok_def represents_def\<close>)
  then show ?thesis using False by (auto simp: Write_sync_def)
next
  case True
  then have "\<not> no_group h l" by (auto simp: no_group_def)
  then obtain g where g: "group_of h l g" "wl_is_tmp l \<or> db_tmp_batch d = batch_rep 0 []"
    "data u keys dbname d (hs_mem h) (map_option (\<lambda>rs. rs @ [batch_rep (hs_last h + 1) (group_ops g)]) (hs_log h))"
    using assms(2) True by (auto simp: represents_def phase_ok_def logged_ok_def)
  have "wr_sync (db_writer d w) = entry_sync (hd g)"
    using assms(2,3) g(1) by (cases g) (auto simp: represents_def group_of_def queue_ok_def waiting_def)
  then have sync: "entry_sync (hd g)" using True by simp
  from sync_log [OF g(3)] obtain st f e where s: "wf_Sync (env_WritableFile E) (lw_dest (db_log d), db_env d) = Some (st, f, e)"
    "data u keys dbname (d\<lparr>db_env := e, db_log := (db_log d)\<lparr>lw_dest := f\<rparr>\<rparr>) (hs_mem h)
       (if Status_ok st then map_option (\<lambda>rs. rs @ [batch_rep (hs_last h + 1) (group_ops g)]) (hs_log h) else None)" by blast
  let ?l = "l\<lparr>wl_status := st, wl_sync_error := \<not> Status_ok st\<rparr>" and ?d = "d\<lparr>db_env := e, db_log := (db_log d)\<lparr>lw_dest := f\<rparr>\<rparr>"
  have "group_of h ?l g" using g(1) by (simp add: group_of_def)
  then have "logged_ok (data u keys dbname ?d) h False ?l (db_tmp_batch d)"
    unfolding logged_ok_def using g(2) sync s(2) by (intro disjI2 exI [of _ g]) (simp split: if_splits)
  then have "rep u keys dbname h (Synced ?l) ?d"
    by (intro represents_step [OF assms(2)]) (simp_all add: same_queue_def phase_ok_def)
  moreover have "Write_sync X (wr_sync (db_writer d w)) l d = Some (?l, ?d)" using assms(1) s(1) True by (simp add: Write_sync_def)
  ultimately show ?thesis by blast
qed

lemma insert_returns:
  assumes "comparator_contract u keys" "rep u keys dbname h (Synced l) d" "pending_ok keys n h" "n < 2 ^ 56"
  shows "\<exists>l' d'. Write_insert X l d = Some (l', d') \<and> rep u keys dbname h (Applied l') d'"
proof -
  have "\<exists>l' d'. Write_insert X l d = Some (l', d') \<and> same_queue d d' \<and> db_bg_error d' = db_bg_error d \<and>
      logged_ok (data u keys dbname d') h True l' (db_tmp_batch d)"
  proof (cases "no_group h l \<or> \<not> Status_ok (wl_status l)")
    case True
    then have "Write_insert X l d = Some (l, d)" by (auto simp: Write_insert_def no_group_def split: option.splits)
    moreover have "logged_ok (data u keys dbname d) h True l (db_tmp_batch d)"
      using assms(2) True by (auto simp: represents_def phase_ok_def logged_ok_def group_of_def no_group_def)
    ultimately show ?thesis by (auto simp: same_queue_def)
  next
    case False
    let ?recs = "\<lambda>g. map_option (\<lambda>rs. rs @ [batch_rep (hs_last h + 1) (group_ops g)]) (hs_log h)"
    obtain g where g: "group_of h l g" "wl_is_tmp l \<or> db_tmp_batch d = batch_rep 0 []" "data u keys dbname d (hs_mem h) (?recs g)" "\<not> wl_sync_error l"
      using assms(2) False by (auto simp: represents_def phase_ok_def logged_ok_def)
    obtain rest where p: "hs_pending h = g @ rest" "wl_updates l = Some (batch_rep (hs_last h + 1) (group_ops g))"
      using g(1) by (auto simp: group_of_def)
    note b = pending_group [OF assms(3,4) p(1)]
    note num = group_numbers [OF b(2)]
    have old: "\<forall>w \<in> set (hs_mem h). fst w < hs_last h + 1" using assms(2) num(4) by (auto simp: represents_def intro: le_less_trans)
    from insert_group [OF assms(1) g(3) b(1) num(1) old, of "st_new X"] obtain m where
      m: "batch_InsertInto (st_new X) (batch_rep (hs_last h + 1) (group_ops g)) (db_mem d) = Some (Status_OK, m)"
      "data u keys dbname (d\<lparr>db_mem := m\<rparr>) (hs_mem h @ numbered (hs_last h + 1) (group_ops g)) (?recs g)" by blast
    let ?l = "l\<lparr>wl_status := Status_OK\<rparr>" and ?d = "d\<lparr>db_mem := m\<rparr>"
    have "group_of h ?l g" using g(1) by (simp add: group_of_def)
    then have "logged_ok (data u keys dbname ?d) h True ?l (db_tmp_batch d)"
      unfolding logged_ok_def using g(2,4) m(2) by (intro disjI2 exI [of _ g]) simp
    moreover have "Write_insert X l d = Some (?l, ?d)" using False m(1) p(2) by (simp add: Write_insert_def)
    ultimately show ?thesis by (intro exI [of _ ?l] exI [of _ ?d]) (simp add: same_queue_def)
  qed
  then show ?thesis using represents_step [OF assms(2)] by (auto simp: phase_ok_def same_queue_def)
qed

lemma finish_none:
  assumes "rep u keys dbname h (Applied l) d" "no_group h l" "pending_ok keys n h"
    and "data u keys dbname d (hs_mem h) (hs_log h)" "db_tmp_batch d = batch_rep 0 []"
  shows "\<exists>d' h'. Write_finish (entry_writer (hd (hs_pending h))) l d = Some (wl_status l, d') \<and>
    write_spec (Finished (wl_updates l \<noteq> None) (wl_sync_error l) (wl_status l) (map (write_result (entry_writer (hd (hs_pending h))) (wl_status l) d')
      (take (length (db_writers d) - length (db_writers d')) (db_writers d)))) h = Some h' \<and> rep u keys dbname h' Idle d' \<and> pending_ok keys n h'"
proof -
  have r: "queue_ok d (hs_pending h)" "vs_last_sequence (db_versions d) = hs_last h" "hs_failed h \<longrightarrow> \<not> Status_ok (db_bg_error d)"
    "\<forall>w \<in> set (hs_mem h). fst w \<le> hs_last h" using assms(1) by (simp_all add: represents_def)
  obtain x rest where x: "hs_pending h = x # rest" using assms(2) by (cases "hs_pending h") (auto simp: no_group_def)
  have l: "wl_updates l = None" "\<not> wl_sync_error l" "wl_last_writer l = entry_writer (last [x])" "Status_ok (wl_status l) \<longrightarrow> entry_batch x = None \<and> \<not> hs_failed h"
    using assms(2) x by (simp_all add: no_group_def)
  from Write_finish_ok [OF r(1), of "[x]" rest l] x l(1,3) assms(5) obtain d' where f:
    "Write_finish (entry_writer x) l d = Some (wl_status l, d')" "queue_ok d' rest" "db_tmp_batch d' = batch_rep 0 []"
    "map (write_result (entry_writer x) (wl_status l) d') (take (length (db_writers d) - length (db_writers d')) (db_writers d)) = [(entry_writer x, Some (wl_status l))]"
    "db_versions d' = db_versions d" "db_bg_error d' = db_bg_error d" "db_env d' = db_env d" "db_log d' = db_log d" "db_mem d' = db_mem d"
    "db_logfile_number d' = db_logfile_number d"
    by auto
  let ?h = "h\<lparr>hs_pending := rest\<rparr>"
  have "data u keys dbname d' (hs_mem h) (hs_log h)" by (rule data_ok_same [OF assms(4)]) (simp_all add: f)
  then have "rep u keys dbname ?h Idle d'" using f(2,3,5,6) r(2-4) by (simp add: represents_def phase_ok_def)
  moreover have "write_spec (Finished False False (wl_status l) [(entry_writer x, Some (wl_status l))]) h = Some ?h"
    using x l(4) by (auto simp add: Let_def)
  moreover have "pending_ok keys n ?h" using assms(3) x by (auto simp: pending_ok_def)
  ultimately show ?thesis using f(1,4) l(1,2) x by (intro exI [of _ d'] exI [of _ ?h]) simp
qed

lemma finish_group:
  assumes "rep u keys dbname h (Applied l) d" "group_of h l g" "pending_ok keys n h" "n < 2 ^ 56"
    and "wl_is_tmp l \<or> db_tmp_batch d = batch_rep 0 []" "wl_sync_error l \<longrightarrow> \<not> Status_ok (wl_status l) \<and> entry_sync (hd g)"
    and "if Status_ok (wl_status l)
      then data u keys dbname d (hs_mem h @ numbered (hs_last h + 1) (group_ops g)) (map_option (\<lambda>rs. rs @ [batch_rep (hs_last h + 1) (group_ops g)]) (hs_log h))
      else data u keys dbname d (hs_mem h) None"
  shows "\<exists>d' h'. Write_finish (entry_writer (hd (hs_pending h))) l d = Some (wl_status l, d') \<and>
    write_spec (Finished (wl_updates l \<noteq> None) (wl_sync_error l) (wl_status l) (map (write_result (entry_writer (hd (hs_pending h))) (wl_status l) d')
      (take (length (db_writers d) - length (db_writers d')) (db_writers d)))) h = Some h' \<and> rep u keys dbname h' Idle d' \<and> pending_ok keys n h'"
proof -
  have r: "queue_ok d (hs_pending h)" "vs_last_sequence (db_versions d) = hs_last h" "\<forall>w \<in> set (hs_mem h). fst w \<le> hs_last h" using assms(1) by (simp_all add: represents_def)
  obtain rest where g: "hs_pending h = g @ rest" "g \<noteq> []" "wl_last_writer l = entry_writer (last g)" "\<not> hs_failed h" "entry_batch (hd g) \<noteq> None"
    "\<forall>x \<in> set g. entry_sync x \<longrightarrow> entry_sync (hd g)" "wl_updates l \<noteq> None" "wl_last_sequence l = hs_last h + word_of_nat (length (group_ops g))"
    using assms(2) by (auto simp: group_of_def)
  note b = pending_group [OF assms(3,4) g(1)]
  note num = group_numbers [OF b(2)]
  let ?s = "hs_last h + 1" and ?ops = "group_ops g" and ?st = "wl_status l"
  from Write_finish_ok [OF r(1) g(1,2,3)] g(7,8) num(3) r(2) assms(5) obtain d' where f:
    "Write_finish (entry_writer (hd g)) l d = Some (?st, d')" "queue_ok d' rest" "db_tmp_batch d' = batch_rep 0 []"
    "map (write_result (entry_writer (hd g)) ?st d') (take (length (db_writers d) - length (db_writers d')) (db_writers d)) = map (\<lambda>x. (entry_writer x, Some ?st)) g"
    "db_versions d' = (db_versions d)\<lparr>vs_last_sequence := hs_last h + word_of_nat (length ?ops)\<rparr>"
    "db_bg_error d' = (if wl_sync_error l \<and> Status_ok (db_bg_error d) then ?st else db_bg_error d)"
    "db_env d' = db_env d" "db_log d' = db_log d" "db_mem d' = db_mem d" "db_logfile_number d' = db_logfile_number d"
    by auto
  let ?h = "h\<lparr>hs_pending := rest, hs_last := hs_last h + word_of_nat (length ?ops), hs_mem := (if Status_ok ?st then hs_mem h @ numbered ?s ?ops else hs_mem h),
    hs_log := (if Status_ok ?st then map_option (\<lambda>rs. rs @ [batch_rep ?s ?ops]) (hs_log h) else None), hs_failed := wl_sync_error l\<rparr>"
  have keep: "data u keys dbname d mem recs \<Longrightarrow> data u keys dbname d' mem recs" for mem recs
    by (erule data_ok_same) (simp_all add: f)
  have mem: "\<forall>w \<in> set (hs_mem ?h). fst w \<le> hs_last h + word_of_nat (length ?ops)"
    using r(3) num(2,3) by (auto intro: order_trans)
  have "data u keys dbname d' (hs_mem ?h) (hs_log ?h)" using assms(7) by (cases "Status_ok ?st") (simp_all add: keep)
  moreover have "wl_sync_error l \<longrightarrow> \<not> Status_ok (db_bg_error d')" using f(6) assms(6) by simp
  ultimately have "rep u keys dbname ?h Idle d'" using f(2,3,5) mem by (simp add: represents_def phase_ok_def)
  moreover have "write_spec (Finished True (wl_sync_error l) ?st (map (\<lambda>x. (entry_writer x, Some ?st)) g)) h = Some ?h"
    using g(1,2,4,5,6) assms(6) by (simp add: Let_def) fastforce
  moreover have "pending_ok keys n ?h"
    using assms(3) g(1) unat_add_small [OF b(2)] by (simp add: pending_ok_def)
  moreover have "entry_writer (hd (hs_pending h)) = entry_writer (hd g)" using g(1,2) by simp
  ultimately show ?thesis using f(1,4) g(7) by (intro exI [of _ d'] exI [of _ ?h]) simp
qed

text \<open>The end of a write, in either case.\<close>

lemma finish_returns:
  assumes "rep u keys dbname h (Applied l) d" "pending_ok keys n h" "n < 2 ^ 56"
  shows "\<exists>w ws d' h'. db_writers d = w # ws \<and> Write_finish w l d = Some (wl_status l, d') \<and>
    write_spec (Finished (wl_updates l \<noteq> None) (wl_sync_error l) (wl_status l) (map (write_result w (wl_status l) d')
      (take (length (db_writers d) - length (db_writers d')) (db_writers d)))) h = Some h' \<and> rep u keys dbname h' Idle d' \<and> pending_ok keys n h'"
proof -
  consider (none) "no_group h l" "db_tmp_batch d = batch_rep 0 []" "data u keys dbname d (hs_mem h) (hs_log h)"
    | (group) g where "group_of h l g" "wl_is_tmp l \<or> db_tmp_batch d = batch_rep 0 []" "wl_sync_error l \<longrightarrow> \<not> Status_ok (wl_status l) \<and> entry_sync (hd g)"
      "if Status_ok (wl_status l)
       then data u keys dbname d (hs_mem h @ numbered (hs_last h + 1) (group_ops g)) (map_option (\<lambda>rs. rs @ [batch_rep (hs_last h + 1) (group_ops g)]) (hs_log h))
       else data u keys dbname d (hs_mem h) None"
    using assms(1) unfolding represents_def phase_ok_def logged_ok_def write_pc.case if_True by auto
  then have "\<exists>d' h'. Write_finish (entry_writer (hd (hs_pending h))) l d = Some (wl_status l, d') \<and>
    write_spec (Finished (wl_updates l \<noteq> None) (wl_sync_error l) (wl_status l) (map (write_result (entry_writer (hd (hs_pending h))) (wl_status l) d')
      (take (length (db_writers d) - length (db_writers d')) (db_writers d)))) h = Some h' \<and> rep u keys dbname h' Idle d' \<and> pending_ok keys n h'"
    by cases (rule finish_none [OF assms(1) _ assms(2)] finish_group [OF assms(1) _ assms(2,3)]; assumption)+
  moreover have "hs_pending h \<noteq> []" using assms(1) by (auto simp: represents_def phase_ok_def logged_ok_def no_group_def group_of_def)
  then have "\<exists>ws. db_writers d = entry_writer (hd (hs_pending h)) # ws"
    using assms(1) by (cases "hs_pending h") (auto simp: represents_def queue_ok_def)
  ultimately show ?thesis by blast
qed

lemma run_represents:
  assumes "comparator_contract u keys" "st_env X = E" "st_comparator X = u" "st_dbname X = dbname"
    and "\<And>d d'. others d d' \<Longrightarrow> others_keep contents file_name valid written d d'"
    and "rep u keys dbname h0 Idle d0" "hs_pending h0 = []"
    and "db_run X others d0 es pc d" "write_load keys (unat (hs_last h0)) es"
  shows "\<exists>h. write_specs es h0 = Some h \<and> rep u keys dbname h pc d \<and> pending_ok keys (unat (hs_last h0) + length (entered_ops es)) h"
  using assms(8,9)
proof induction
  case start
  show ?case using assms(6,7) by (simp add: write_specs_simps pending_ok_def)
next
  case (enter es pc d w b sync)
  obtain h where h: "write_specs es h0 = Some h" "rep u keys dbname h pc d" "pending_ok keys (unat (hs_last h0) + length (entered_ops es)) h"
    using enter.IH write_load_snoc [OF enter.prems] by blast
  have "batch_ok keys (map_option snd b)" using enter.prems by (auto simp: write_load_def)
  then have "pending_ok keys (unat (hs_last h0) + length (entered_ops (es @ [Entered w (map_option snd b) sync])))
      (h\<lparr>hs_pending := hs_pending h @ [(w, map_option snd b, sync)]\<rparr>)"
    using h(3) by (auto simp: pending_ok_def entered_ops_def)
  then show ?case using h(1) enter_step [OF h(2) enter.hyps(2)] by (simp add: write_specs_simps)
next
  case (front es d w ws force)
  then show ?case using front_step by blast
next
  case (delay es force allow d d')
  then obtain h where h: "write_specs es h0 = Some h" "rep u keys dbname h (Room force allow) d" "pending_ok keys (unat (hs_last h0) + length (entered_ops es)) h" by blast
  show ?case using h room_step(1) [OF assms(1-4) h(2) delay.hyps(2), of force False] by auto
next
  case (wait es force allow d d')
  then obtain h where h: "write_specs es h0 = Some h" "rep u keys dbname h (Room force allow) d" "pending_ok keys (unat (hs_last h0) + length (entered_ops es)) h" by blast
  show ?case using h room_step(1) [OF assms(1-4) h(2) wait.hyps(2), of force allow] by auto
next
  case (switch es force allow d d')
  obtain h where h: "write_specs es h0 = Some h" "rep u keys dbname h (Room force allow) d" "pending_ok keys (unat (hs_last h0) + length (entered_ops es)) h"
    using switch.IH write_load_snoc [OF switch.prems] by blast
  from room_step(2) [OF assms(1-4) h(2) switch.hyps(2) refl switch.hyps(3), of False allow] h(1,3) show ?case
    by (auto simp: write_specs_simps pending_ok_def entered_ops_def)
next
  case (group es force allow d st d1 w ws l d')
  then obtain h where h: "write_specs es h0 = Some h" "rep u keys dbname h (Room force allow) d" "pending_ok keys (unat (hs_last h0) + length (entered_ops es)) h" by blast
  note room = room_step [OF assms(1-4) h(2) group.hyps(2)]
  have d1: "rep u keys dbname h (Room force allow) d1" using room(1) by simp
  have "db_writers d1 = w # ws" using room(4) group.hyps(3) by simp
  from group_step [OF d1 this group.hyps(4) _ h(3)] room(3) [OF refl] h show ?case by blast
next
  case (append es l d l' d')
  then obtain h where h: "write_specs es h0 = Some h" "rep u keys dbname h (Grouped l) d" "pending_ok keys (unat (hs_last h0) + length (entered_ops es)) h" by blast
  from append_returns [OF assms(2) h(2)] append.hyps(2) h(1,3) show ?case by auto
next
  case (sync es l d w ws l' d')
  then obtain h where h: "write_specs es h0 = Some h" "rep u keys dbname h (Logged l) d" "pending_ok keys (unat (hs_last h0) + length (entered_ops es)) h" by blast
  from sync_returns [OF assms(2) h(2) sync.hyps(2)] sync.hyps(3) h(1,3) show ?case by auto
next
  case (insert es l d l' d')
  then obtain h where h: "write_specs es h0 = Some h" "rep u keys dbname h (Synced l) d" "pending_ok keys (unat (hs_last h0) + length (entered_ops es)) h" by blast
  have "unat (hs_last h0) + length (entered_ops es) < 2 ^ 56" using insert.prems by (simp add: write_load_def)
  from insert_returns [OF assms(1) h(2,3) this, of X] insert.hyps(2) h(1,3) show ?case by auto
next
  case (finish es l d w ws st d' left)
  have load: "write_load keys (unat (hs_last h0)) es" by (rule write_load_snoc [OF finish.prems])
  then obtain h where h: "write_specs es h0 = Some h" "rep u keys dbname h (Applied l) d" "pending_ok keys (unat (hs_last h0) + length (entered_ops es)) h"
    using finish.IH by blast
  have "unat (hs_last h0) + length (entered_ops es) < 2 ^ 56" using load by (simp add: write_load_def)
  from finish_returns [OF h(2,3) this] finish.hyps(2,3) obtain h' where
    "st = wl_status l" "write_spec (Finished (wl_updates l \<noteq> None) (wl_sync_error l) st (map (write_result w st d')
      (take (length (db_writers d) - length (db_writers d')) (db_writers d)))) h = Some h'" "rep u keys dbname h' Idle d'"
    "pending_ok keys (unat (hs_last h0) + length (entered_ops es)) h'" by auto
  then show ?case using h(1) finish.hyps(4) by (simp add: write_specs_simps entered_ops_def)
next
  case (other es pc d d')
  then show ?case using other_step assms(5) by blast
qed

lemma group_returns:
  assumes "rep u keys dbname h (Room force allow) d" "db_writers d = w # ws" "Status_ok st \<Longrightarrow> \<not> hs_failed h" "pending_ok keys n h"
  shows "Write_group w st d \<noteq> None"
proof -
  have r: "queue_ok d (hs_pending h)" "vs_last_sequence (db_versions d) = hs_last h" "db_tmp_batch d = batch_rep 0 []" "hs_pending h \<noteq> []"
    using assms(1) by (simp_all add: represents_def phase_ok_def)
  obtain x xs where x: "hs_pending h = x # xs" using r(4) by (cases "hs_pending h") auto
  have w: "w = entry_writer x" using r(1) x assms(2) by (simp add: queue_ok_def)
  have "\<forall>ops. entry_batch x = Some ops \<longrightarrow> length ops < 2 ^ 31" using assms(4) x by (auto simp: pending_ok_def batch_ok_def)
  from Write_group_ok [OF r(1) x r(3,2) this, of st] assms(3) show ?thesis unfolding w by blast
qed

end

subsection \<open>Room is always decided\<close>

text \<open>What \<open>make_room\<close> needs of the version set: a current version, and no log from before the recovery.\<close>

definition versions_ready :: "version_set \<Rightarrow> bool" where
  "versions_ready s \<longleftrightarrow> NumLevelFiles s 0 \<noteq> None \<and> vs_prev_log_number s = 0"

lemma versions_ready_numbers [simp]:
  "versions_ready (s\<lparr>vs_next_file_number := n\<rparr>) \<longleftrightarrow> versions_ready s"
  "versions_ready (s\<lparr>vs_last_sequence := n\<rparr>) \<longleftrightarrow> versions_ready s"
  by (simp_all add: versions_ready_def NumLevelFiles_def)









subsection \<open>The queue\<close>

definition entered_threads :: "write_event list \<Rightarrow> writer_ptr list" where
  "entered_threads es = concat (map (\<lambda>e. case e of Entered w b sync \<Rightarrow> [w] | _ \<Rightarrow> []) es)"

definition returned_threads :: "write_event list \<Rightarrow> writer_ptr list" where
  "returned_threads es = concat (map (\<lambda>e. case e of Finished grouped unsynced st results \<Rightarrow> map fst results | _ \<Rightarrow> []) es)"

lemma write_spec_queue:
  assumes "write_spec e h = Some h'"
  shows "map entry_writer (hs_pending h) @ entered_threads [e] = returned_threads [e] @ map entry_writer (hs_pending h')"
proof (cases e)
  case (Finished grouped unsynced st results)
  let ?g = "take (length results) (hs_pending h)"
  have "results = map (\<lambda>x. (entry_writer x, Some st)) ?g" "hs_pending h' = drop (length results) (hs_pending h)"
    using assms Finished by (auto simp: Let_def split: if_splits)
  then have "map fst results = map entry_writer ?g" "hs_pending h' = drop (length results) (hs_pending h)"
    by (metis (no_types, lifting) comp_apply fst_conv map_eq_conv map_map)+
  then have "map entry_writer (hs_pending h) = map fst results @ map entry_writer (hs_pending h')"
    by (metis append_take_drop_id map_append)
  then show ?thesis by (simp add: Finished entered_threads_def returned_threads_def)
qed (use assms in \<open>auto simp: entered_threads_def returned_threads_def split: if_splits\<close>)

lemma write_specs_queue:
  "write_specs es h0 = Some h \<Longrightarrow> map entry_writer (hs_pending h0) @ entered_threads es = returned_threads es @ map entry_writer (hs_pending h)"
proof (induction es arbitrary: h rule: rev_induct)
  case Nil
  then show ?case by (simp add: write_specs_simps entered_threads_def returned_threads_def)
next
  case (snoc e es)
  then obtain h1 where h1: "write_specs es h0 = Some h1" "write_spec e h1 = Some h" by (auto simp: write_specs_simps bind_eq_Some_conv)
  have "entered_threads (es @ [e]) = entered_threads es @ entered_threads [e]" "returned_threads (es @ [e]) = returned_threads es @ returned_threads [e]"
    by (simp_all add: entered_threads_def returned_threads_def)
  then show ?case using snoc.IH [OF h1(1)] write_spec_queue [OF h1(2)] by (metis append.assoc)
qed

subsection \<open>Properties\<close>

text \<open>
  C4: the write path with its threads refines the history.  Every interleaving of writers that enter, of the writer at
  the front of the queue and of the other threads is a run of the specification, in which writes take effect
  in the order they entered: the groups are a partition of the queue, the operations of a group get consecutive numbers behind the last one,
  one log record holds them and goes to the log before they are in the memtable, every thread of a group
  returns the status of the group, no write to be synced is in a group that is not, and after a failed sync no write succeeds.
  The memtable and the log file hold what the history says.  Every thread that entered has returned once or is still in the queue, in order.
\<close>

theorem write_path_refines_history:
  assumes "env_contract E contents file_name valid written unread sound" "comparator_contract u keys"
    and "st_env X = E" "st_comparator X = u" "st_dbname X = dbname"
    and "\<And>d d'. others d d' \<Longrightarrow> others_keep contents file_name valid written d d'"
    and "represents contents file_name valid written u keys dbname h0 Idle d0" "hs_pending h0 = []"
    and "db_run X others d0 es pc d" "write_load keys (unat (hs_last h0)) es"
  shows "\<exists>h. write_specs es h0 = Some h \<and> represents contents file_name valid written u keys dbname h pc d \<and>
    entered_threads es = returned_threads es @ db_writers d"
proof -
  obtain h where h: "write_specs es h0 = Some h" "represents contents file_name valid written u keys dbname h pc d"
    using env_contract.run_represents [OF assms] by blast
  moreover have "db_writers d = map entry_writer (hs_pending h)" using h(2) by (simp add: represents_def queue_ok_def)
  ultimately show ?thesis using write_specs_queue [OF h(1)] assms(8) by auto
qed


text \<open>A small run: the first version set, an open log, two writers whose batches are written as one group.\<close>

definition sample_writing :: "(mem_files, mem_writable, bytes) db_setting" where
  "sample_writing = \<lparr>st_env = mem_env, st_new = bump_new, st_comparator = BytewiseComparator, st_dbname = lit ''/db'', st_write_buffer_size = 4194304\<rparr>"

definition sample_db :: "version_set \<Rightarrow> (mem_files, mem_writable) db" where
  "sample_db s = \<lparr>db_env = \<lparr>mf_files = [LogFileName (lit ''/db'') 1 \<mapsto> []], mf_faults = []\<rparr>,
     db_log = Writer_make \<lparr>mw_name = LogFileName (lit ''/db'') 1, mw_buf = []\<rparr>, db_logfile_number = 1,
     db_mem = MemTable_Ref (MemTable_make bump_new BytewiseComparator), db_imm = None, db_versions = s,
     db_writer = (\<lambda>_. \<lparr>wr_status = Status_OK, wr_batch = None, wr_sync = False, wr_done = False\<rparr>), db_writers = [],
     db_tmp_batch = WriteBatch_make, db_bg_error = Status_OK\<rparr>"

definition sample_history :: write_history where
  "sample_history = \<lparr>hs_pending = [], hs_last = 0, hs_mem = [], hs_log = Some [], hs_failed = False\<rparr>"

definition sample_events :: "write_event list" where
  "sample_events = [Entered 7 (Some [Put_op [97] [1]]) False, Entered 8 (Some [Delete_op [97]]) False,
     Finished True False Status_OK [(7, Some Status_OK), (8, Some Status_OK)]]"

lemma sample_represents:
  assumes "VersionSet_make = Some s"
  shows "represents mf_files mw_name mem_valid mem_written BytewiseComparator (\<lambda>_. True) (lit ''/db'') sample_history Idle (sample_db s)"
proof -
  have "mem_view BytewiseComparator (\<lambda>_. True) (MemTable_make bump_new BytewiseComparator) []"
    by (rule comparator_contract.MemTable_make_view [OF bytewise.comparator_contract_axioms])
  moreover have "vs_last_sequence s = 0" "vs_next_file_number s = 2"
    using assms by (auto simp: VersionSet_make_def new_version_def AppendVersion_def Version_Ref_def version_make_def)
  ultimately show ?thesis
    by (simp add: represents_def queue_ok_def sample_history_def sample_db_def phase_ok_def WriteBatch_make_rep data_ok_def mem_valid_def mem_written_def
        Writer_make_def writer_at_def)
qed

lemma sample_load: "write_load (\<lambda>_. True) (unat (hs_last sample_history)) sample_events"
  by (simp add: write_load_def sample_events_def sample_history_def batch_ok_def entered_ops_def)

lemma sample_memory: "ApproximateMemoryUsage (MemTable_Ref (MemTable_make bump_new BytewiseComparator)) \<le> 4194304"
  by (simp add: ApproximateMemoryUsage_def MemTable_Ref_def MemTable_make_def SkipList_make_def NewNode_def Arena_make_def MemoryUsage_def
      AllocateAligned_def AllocateFallback_def AllocateNewBlock_def arena_kBlockSize_def kMaxHeight_def Let_def)

definition sample_queue :: "version_set \<Rightarrow> (mem_files, mem_writable) db" where
  "sample_queue s = Write_enter 8 (Some (batch_rep 0 [Delete_op [97]])) False (Write_enter 7 (Some (batch_rep 0 [Put_op [97] [1]])) False (sample_db s))"

lemma sample_queue_simps:
  "db_writers (sample_queue s) = [7, 8]" "wr_batch (db_writer (sample_queue s) 7) = Some (batch_rep 0 [Put_op [97] [1]])"
  "wr_batch (db_writer (sample_queue s) 8) = Some (batch_rep 0 [Delete_op [97]])" "\<not> wr_sync (db_writer (sample_queue s) 7)"
  "\<not> wr_sync (db_writer (sample_queue s) 8)" "\<not> wr_done (db_writer (sample_queue s) 7)" "db_tmp_batch (sample_queue s) = batch_rep 0 []"
  "db_versions (sample_queue s) = s" "db_bg_error (sample_queue s) = Status_OK" "db_mem (sample_queue s) = MemTable_Ref (MemTable_make bump_new BytewiseComparator)"
  by (simp_all add: sample_queue_def Write_enter_def sample_db_def WriteBatch_make_rep)

lemma sample_versions:
  assumes "VersionSet_make = Some s"
  shows "NumLevelFiles s 0 = Some 0" "vs_last_sequence s = 0" "vs_prev_log_number s = 0"
  using assms by (auto simp: VersionSet_make_def new_version_def AppendVersion_def Version_Ref_def version_make_def NumLevelFiles_def kNumLevels_def)

lemma sample_front: "db_run sample_writing (\<lambda>_ _. False) (sample_db s) (take 2 sample_events) (Room False True) (sample_queue s)"
proof -
  have "db_run sample_writing (\<lambda>_ _. False) (sample_db s) [Entered 7 (Some [Put_op [97] [1]]) False] Idle
      (Write_enter 7 (Some (batch_rep 0 [Put_op [97] [1]])) False (sample_db s))"
    using db_run.enter [OF db_run.start, of 7 "sample_db s" _ _ "Some (0, [Put_op [97] [1]])" False] by (simp add: sample_db_def)
  from db_run.enter [OF this, of 8 "Some (0, [Delete_op [97]])" False]
  have "db_run sample_writing (\<lambda>_ _. False) (sample_db s) (take 2 sample_events) Idle (sample_queue s)"
    by (simp add: sample_queue_def sample_events_def Write_enter_def sample_db_def)
  from db_run.front [OF this sample_queue_simps(1,6) refl] show ?thesis by (simp add: sample_queue_simps)
qed

lemma sample_room:
  assumes "VersionSet_make = Some s"
  shows "make_room sample_writing False True (sample_queue s) = Some (Room_done Status_OK, sample_queue s)"
  using sample_memory sample_versions [OF assms] by (simp add: make_room_def sample_queue_simps sample_writing_def kL0_SlowdownWritesTrigger_def)

lemma sample_run:
  assumes "VersionSet_make = Some s"
  obtains d where "db_run sample_writing (\<lambda>_ _. False) (sample_db s) sample_events Idle d"
proof -
  let ?b = "batch_rep 1 [Put_op [97] [1], Delete_op [97]]"
  define d2 where "d2 = sample_queue s"
  note d2 = sample_queue_simps [of s, folded d2_def]
  note vs = sample_versions [OF assms]
  have lengths: "length (op_bytes (Put_op [97] [1])) = 5" "length (op_bytes (Delete_op [97])) = 3"
    by (simp_all add: op_bytes_def PutLengthPrefixedSlice_def PutVarint32_def EncodeVarint32_def)
  let ?l = "\<lparr>wl_status = Status_OK, wl_updates = Some ?b, wl_is_tmp = True, wl_last_sequence = 2, wl_last_writer = 8, wl_sync_error = False\<rparr>"
  let ?d3 = "d2\<lparr>db_tmp_batch := ?b\<rparr>"
  have lengths: "length (op_bytes (Put_op [97] [1])) = 5" "length (op_bytes (Delete_op [97])) = 3"
    by (simp_all add: batch_rep_simps op_bytes_def PutLengthPrefixedSlice_def PutVarint32_def EncodeVarint32_def)
  have "Write_group 7 Status_OK d2 = Some (?l, ?d3)"
    by (simp add: Write_group_def BuildBatchGroup_def d2 vs lengths max_group_size_def batch_rep_simps Let_def)
  from db_run.group [OF sample_front sample_room [OF assms] sample_queue_simps(1) this [unfolded d2_def]]
  have grouped: "db_run sample_writing (\<lambda>_ _. False) (sample_db s) (take 2 sample_events) (Grouped ?l) ?d3" unfolding d2_def .
  have data: "mem_files.data BytewiseComparator (\<lambda>_. True) (lit ''/db'') ?d3 [] (Some [])"
    using sample_represents [OF assms] by (simp add: represents_def phase_ok_def sample_history_def d2_def sample_queue_def Write_enter_def data_ok_def sample_db_def)
  have keep: "db_env ?d3 = db_env (sample_db s)" "mf_faults (db_env ?d3) = []" by (simp_all add: d2_def sample_queue_def Write_enter_def sample_db_def)
  obtain st lg e where a: "log_AddRecord mem_env ?b (db_log ?d3) (db_env ?d3) = Some (st, lg, e)"
    using mem_files.log_AddRecord_returns [OF mem_files.log_at_data [OF data]] by blast
  note st = mem_log_ok [OF a keep(2)]
  have "unat (1 :: u64) + length [Put_op [97] [1], Delete_op [97]] \<le> 2 ^ 56" "\<forall>op \<in> set [Put_op [97] [1], Delete_op [97]]. batch_op_ok (\<lambda>_. True) op"
    by simp_all
  from mem_files.insert_group [OF bytewise.comparator_contract_axioms data this(2,1), of bump_new] obtain m where
    m: "batch_InsertInto bump_new ?b (db_mem ?d3) = Some (Status_OK, m)" by auto
  let ?d4 = "?d3\<lparr>db_env := e, db_log := lg, db_mem := m\<rparr>"
  have ok: "st = Status_OK" using st by (simp add: Status_ok_def Status_OK_def)
  let ?d4a = "?d3\<lparr>db_env := e, db_log := lg\<rparr>"
  have "Write_append sample_writing ?l ?d3 = Some (?l, ?d4a)" "Write_sync sample_writing (wr_sync (db_writer ?d4a 7)) ?l ?d4a = Some (?l, ?d4a)"
    "Write_insert sample_writing ?l ?d4a = Some (?l, ?d4)"
    using a m ok d2(4) by (simp_all add: Write_append_def Write_sync_def Write_insert_def sample_writing_def)
  from db_run.insert [OF db_run.sync [OF db_run.append [OF grouped this(1)] _ this(2)] this(3)] d2(1)
  have applied: "db_run sample_writing (\<lambda>_ _. False) (sample_db s) (take 2 sample_events) (Applied ?l) ?d4" by simp
  have "\<exists>d5. Write_finish 7 ?l ?d4 = Some (Status_OK, d5) \<and> db_writers d5 = [] \<and> wr_done (db_writer d5 8) \<and> wr_status (db_writer d5 8) = Status_OK"
    by (simp add: Write_finish_def SetLastSequence_vs_def d2 vs Let_def)
  then obtain d5 where d5: "Write_finish 7 ?l ?d4 = Some (Status_OK, d5)" "db_writers d5 = []" "wr_done (db_writer d5 8)" "wr_status (db_writer d5 8) = Status_OK"
    by blast
  from db_run.finish [OF applied _ d5(1) refl] d2(1) d5(2-4) have "db_run sample_writing (\<lambda>_ _. False) (sample_db s) sample_events Idle d5"
    by (simp add: sample_events_def write_result_def)
  then show thesis by (rule that)
qed

theorem write_path_refines_history_witness:
  "\<exists>s d h. VersionSet_make = Some s \<and> db_run sample_writing (\<lambda>_ _. False) (sample_db s) sample_events Idle d \<and>
    write_specs sample_events sample_history = Some h \<and> hs_mem h = [(1, kTypeValue, [97], [1]), (2, kTypeDeletion, [97], [])] \<and>
    hs_log h = Some [batch_rep 1 [Put_op [97] [1], Delete_op [97]]] \<and> mem_view BytewiseComparator (\<lambda>_. True) (db_mem d) (hs_mem h)"
proof -
  obtain s where s: "VersionSet_make = Some s" using VersionSet_make_returns by blast
  obtain d where d: "db_run sample_writing (\<lambda>_ _. False) (sample_db s) sample_events Idle d" by (rule sample_run [OF s])
  have X: "st_env sample_writing = mem_env" "st_comparator sample_writing = BytewiseComparator" "st_dbname sample_writing = lit ''/db''" "hs_pending sample_history = []"
    by (simp_all add: sample_writing_def sample_history_def)
  obtain h where h: "write_specs sample_events sample_history = Some h"
    "represents mf_files mw_name mem_valid mem_written BytewiseComparator (\<lambda>_. True) (lit ''/db'') h Idle d"
    using write_path_refines_history [OF mem_files.env_contract_axioms, OF bytewise.comparator_contract_axioms X(1-3) FalseE sample_represents [OF s] X(4) d sample_load]
    by blast
  have "write_specs sample_events sample_history = Some \<lparr>hs_pending = [], hs_last = 2, hs_mem = [(1, kTypeValue, [97], [1]), (2, kTypeDeletion, [97], [])],
      hs_log = Some [batch_rep 1 [Put_op [97] [1], Delete_op [97]]], hs_failed = False\<rparr>"
    by (simp add: write_specs_def sample_events_def sample_history_def Let_def)
  then show ?thesis using s d h by (auto simp: represents_def phase_ok_def data_ok_def)
qed


end
